(* ===== verification/Prelude.thy ===== *)
theory Prelude
  imports Main "HOL-Library.Word"
begin

text \<open>
  The vocabulary the components share.

  \<^item> The C types of \<^verbatim>\<open>kernel/types.h\<close> as machine words, and C \<open>int\<close> as a HOL integer kept in
    its 32-bit two's complement range by \<open>i32\<close> wherever the source computes one.
  \<^item> Errors as values: \<open>Panic\<close> is a call of \<^verbatim>\<open>panic()\<close>, which never returns; \<open>Fault\<close> is an
    access the C program has no right to make (an array index out of range, a null pointer,
    a division by zero).
  \<^item> \<open>bnd\<close>, the sequencing of two fallible steps, with the rules the proofs use.
\<close>

section \<open>Proof collections\<close>

named_theorems cint_simps \<open>arithmetic of C ints that stay in range\<close>
named_theorems page_simps \<open>addresses inside a page\<close>
named_theorems mem_simps \<open>reads after writes of physical memory\<close>

section \<open>C types\<close>

type_synonym byte = "8 word"
type_synonym ushort = "16 word"
type_synonym uint = "32 word"
type_synonym uint64 = "64 word"

definition INT_MAX :: int where
  "INT_MAX = 2147483647"

definition INT_MIN :: int where
  "INT_MIN = - 2147483648"

definition in_int :: "int \<Rightarrow> bool" where
  "in_int x \<longleftrightarrow> INT_MIN \<le> x \<and> x \<le> INT_MAX"

text \<open>The value a 32-bit register holds after an \<open>int\<close> computation whose exact result is \<open>x\<close>.\<close>

definition i32 :: "int \<Rightarrow> int" where
  "i32 x = (x + 2147483648) mod 4294967296 - 2147483648"

lemma i32_in_range [cint_simps]: "in_int x \<Longrightarrow> i32 x = x"
  by (simp add: in_int_def i32_def INT_MIN_def INT_MAX_def)

lemma in_int_i32 [simp]: "in_int (i32 x)"
  using pos_mod_bound[of 4294967296 "x + 2147483648"] pos_mod_sign[of 4294967296 "x + 2147483648"]
  by (simp add: in_int_def i32_def INT_MIN_def INT_MAX_def)

lemma i32_wraps: "i32 (INT_MAX + 1) = INT_MIN"
  by (simp add: i32_def INT_MIN_def INT_MAX_def)

lemma i32_mod: "i32 x mod 4294967296 = x mod 4294967296"
  unfolding i32_def by (subst mod_diff_left_eq) simp

lemma i32_cong:
  assumes "x mod 4294967296 = y mod 4294967296"
  shows "i32 x = i32 y"
  unfolding i32_def using mod_add_cong[OF assms refl, of 2147483648] by simp

lemma of_int_i32 [simp]: "(of_int (i32 x) :: uint) = of_int x"
  using i32_mod[of x] by (simp add: word_of_int_eq_iff take_bit_eq_mod)

text \<open>C division truncates towards zero.\<close>

definition cdiv :: "int \<Rightarrow> int \<Rightarrow> int" where
  "cdiv a b = sgn a * sgn b * (\<bar>a\<bar> div \<bar>b\<bar>)"

lemma cdiv_nonneg: "0 \<le> a \<Longrightarrow> 0 < b \<Longrightarrow> cdiv a b = a div b"
  by (cases "a = 0") (simp_all add: cdiv_def)

lemma cdiv_nonpos: "a \<le> 0 \<Longrightarrow> 0 < b \<Longrightarrow> cdiv a b \<le> 0"
  by (cases "a = 0") (simp_all add: cdiv_def pos_imp_zdiv_nonneg_iff)

section \<open>Errors as values\<close>

datatype error = Panic string | Fault string

type_synonym 'a result = "error + 'a"

definition bnd :: "'a result \<Rightarrow> ('a \<Rightarrow> 'b result) \<Rightarrow> 'b result" where
  "bnd r f = (case r of Inl e \<Rightarrow> Inl e | Inr x \<Rightarrow> f x)"

lemma bnd_Inl [simp]: "bnd (Inl e) f = Inl e"
  by (simp add: bnd_def)

lemma bnd_Inr [simp]: "bnd (Inr x) f = f x"
  by (simp add: bnd_def)

lemma bnd_return [simp]: "bnd r Inr = r"
  by (simp add: bnd_def split: sum.splits)

lemma bnd_eq_Inr: "bnd r f = Inr y \<longleftrightarrow> (\<exists>x. r = Inr x \<and> f x = Inr y)"
  by (simp add: bnd_def split: sum.splits)

lemma bnd_eq_Inl: "bnd r f = Inl e \<longleftrightarrow> r = Inl e \<or> (\<exists>x. r = Inr x \<and> f x = Inl e)"
  by (auto simp: bnd_def split: sum.splits)

lemma bnd_cong [fundef_cong]:
  "r = r' \<Longrightarrow> (\<And>x. r' = Inr x \<Longrightarrow> f x = f' x) \<Longrightarrow> bnd r f = bnd r' f'"
  by (simp add: bnd_def split: sum.splits)

lemma bnd_InrE:
  assumes "bnd r f = Inr y"
  obtains x where "r = Inr x" "f x = Inr y"
  using assms by (auto simp: bnd_eq_Inr)

text \<open>A counted C loop: run the body for each index in turn, stopping at the first error.\<close>

primrec for_each :: "('a \<Rightarrow> 's \<Rightarrow> 's result) \<Rightarrow> 'a list \<Rightarrow> 's \<Rightarrow> 's result" where
  "for_each body [] s = Inr s"
| "for_each body (i # is) s = bnd (body i s) (for_each body is)"

lemma for_each_Nil [simp]: "for_each body [] = Inr"
  by (rule ext) simp

lemma for_each_append:
  "for_each body (xs @ ys) s = bnd (for_each body xs s) (for_each body ys)"
  by (induction xs arbitrary: s) (auto simp: bnd_def split: sum.splits)

lemma for_each_invariant:
  assumes "for_each body xs s = Inr s'" "P s"
    and "\<And>x s s'. x \<in> set xs \<Longrightarrow> P s \<Longrightarrow> body x s = Inr s' \<Longrightarrow> P s'"
  shows "P s'"
  using assms
proof (induction xs arbitrary: s)
  case (Cons x xs)
  then obtain t where t: "body x s = Inr t" "for_each body xs t = Inr s'"
    by (auto simp: bnd_eq_Inr)
  have "P t" using Cons.prems(3)[OF _ Cons.prems(2) t(1)] by simp
  then show ?case using Cons.IH[OF t(2)] Cons.prems(3) by (meson list.set_intros(2))
qed simp

section \<open>Searching and counting in an array\<close>

lemma find_SomeD: "find P xs = Some x \<Longrightarrow> x \<in> set xs \<and> P x"
  by (induction xs) (auto split: if_splits)

lemma sum_list_update_int:
  fixes f :: "'a \<Rightarrow> int"
  assumes "i < length xs"
  shows "(\<Sum>x\<leftarrow>xs[i := y]. f x) = (\<Sum>x\<leftarrow>xs. f x) - f (xs ! i) + f y"
  using assms by (induction xs arbitrary: i) (auto split: nat.splits)

definition cnt :: "('a \<Rightarrow> bool) \<Rightarrow> 'a list \<Rightarrow> int" where
  "cnt P xs = (\<Sum>x\<leftarrow>xs. if P x then 1 else 0)"

lemma cnt_update:
  "i < length xs \<Longrightarrow> cnt P (xs[i := y]) = cnt P xs - (if P (xs ! i) then 1 else 0) + (if P y then 1 else 0)"
  by (simp add: cnt_def sum_list_update_int)

lemma cnt_eq_length_filter: "cnt P xs = int (length (filter P xs))"
  by (induction xs) (auto simp: cnt_def)

lemma cnt_all: "(\<And>x. x \<in> set xs \<Longrightarrow> P x) \<Longrightarrow> cnt P xs = int (length xs)"
  by (simp add: cnt_eq_length_filter)

lemma cnt_none: "(\<And>x. x \<in> set xs \<Longrightarrow> \<not> P x) \<Longrightarrow> cnt P xs = 0"
  by (simp add: cnt_eq_length_filter)

end
