(* ===== verification/Riscv.thy ===== *)
theory Riscv
  imports Prelude
begin

unbundle bit_operations_syntax

text \<open>
  The page and page-table arithmetic of \<^verbatim>\<open>kernel/riscv.h\<close> and the address-space layout of
  \<^verbatim>\<open>kernel/memlayout.h\<close>, macro by macro, over 64-bit words; and the lemmas that let the other
  theories reason about an address as a page and an offset in it.
\<close>

section \<open>kernel/riscv.h: pages and page-table entries\<close>

definition PGSIZE :: uint64 where
  "PGSIZE = 4096"

definition PGROUNDUP :: "uint64 \<Rightarrow> uint64" where
  "PGROUNDUP sz = (sz + PGSIZE - 1) AND NOT (PGSIZE - 1)"

definition PGROUNDDOWN :: "uint64 \<Rightarrow> uint64" where
  "PGROUNDDOWN a = a AND NOT (PGSIZE - 1)"

definition PTE_V :: uint64 where
  "PTE_V = 1"

definition PTE_R :: uint64 where
  "PTE_R = 2"

definition PTE_W :: uint64 where
  "PTE_W = 4"

definition PTE_X :: uint64 where
  "PTE_X = 8"

definition PTE_U :: uint64 where
  "PTE_U = 16"

definition PTE_COW :: uint64 where
  "PTE_COW = 32"

definition PA2PTE :: "uint64 \<Rightarrow> uint64" where
  "PA2PTE pa = push_bit 10 (drop_bit 12 pa)"

definition PTE2PA :: "uint64 \<Rightarrow> uint64" where
  "PTE2PA pte = push_bit 12 (drop_bit 10 pte)"

definition PTE_FLAGS :: "uint64 \<Rightarrow> uint64" where
  "PTE_FLAGS pte = pte AND 0x3FF"

definition PX :: "nat \<Rightarrow> uint64 \<Rightarrow> uint64" where
  "PX level va = drop_bit (12 + 9 * level) va AND 0x1FF"

definition MAXVA :: uint64 where
  "MAXVA = push_bit (9 + 9 + 9 + 12 - 1) 1"

definition MAKE_SATP :: "uint64 \<Rightarrow> uint64" where
  "MAKE_SATP pagetable = push_bit 60 8 OR drop_bit 12 pagetable"

section \<open>kernel/memlayout.h\<close>

definition KERNBASE :: uint64 where
  "KERNBASE = 0x80000000"

definition PHYSTOP :: uint64 where
  "PHYSTOP = KERNBASE + 128 * 1024 * 1024"

definition TRAMPOLINE :: uint64 where
  "TRAMPOLINE = MAXVA - PGSIZE"

definition TRAPFRAME :: uint64 where
  "TRAPFRAME = TRAMPOLINE - PGSIZE"

definition KSTACK :: "uint64 \<Rightarrow> uint64" where
  "KSTACK p = TRAMPOLINE - (p + 1) * 2 * PGSIZE"

lemma MAXVA_num: "MAXVA = 0x4000000000"
  by (simp add: MAXVA_def)

lemma PHYSTOP_num: "PHYSTOP = 0x88000000"
  by (simp add: PHYSTOP_def KERNBASE_def)

section \<open>Addresses as a page and an offset\<close>

abbreviation page_aligned :: "uint64 \<Rightarrow> bool" where
  "page_aligned a \<equiv> PGROUNDDOWN a = a"

lemma PGROUNDDOWN_mask: "PGROUNDDOWN a = a AND NOT (mask 12)"
  by (simp add: PGROUNDDOWN_def PGSIZE_def mask_eq_exp_minus_1)

lemma PGROUNDDOWN_eq: "PGROUNDDOWN a = push_bit 12 (drop_bit 12 a)"
  by (rule bit_word_eqI) (auto simp: PGROUNDDOWN_mask bit_simps)

lemma unat_lt_2p64 [simp]: "unat (a :: uint64) < 18446744073709551616"
  using unsigned_less[of a, where ?'a = nat] by simp

lemma unat_PGROUNDDOWN: "unat (PGROUNDDOWN a) = unat a div 4096 * 4096"
proof -
  have "unat a div 4096 * 4096 < 18446744073709551616"
    by (rule le_less_trans[OF div_times_less_eq_dividend unat_lt_2p64])
  then show ?thesis
    by (simp add: PGROUNDDOWN_eq drop_bit_eq_div push_bit_eq_mult unat_word_ariths
        unat_div_distrib)
qed

lemma PGROUNDDOWN_idem [simp]: "PGROUNDDOWN (PGROUNDDOWN a) = PGROUNDDOWN a"
  by (simp add: word_unat_eq_iff unat_PGROUNDDOWN)

lemma page_aligned_iff: "page_aligned a \<longleftrightarrow> 4096 dvd unat a"
  by (auto simp: word_unat_eq_iff unat_PGROUNDDOWN) (metis dvd_triv_right)

lemma unat_add_offset:
  assumes "page_aligned p" "unat k < 4096"
  shows "unat (p + k) = unat p + unat k"
proof -
  obtain q where q: "unat p = 4096 * q"
    using assms(1) by (auto simp: page_aligned_iff)
  then have "q < 4503599627370496"
    using unat_lt_2p64[of p] by simp
  then have "unat p + unat k < 18446744073709551616"
    using q assms(2) by simp
  then show ?thesis
    by (simp add: unat_word_ariths)
qed

lemma PGROUNDDOWN_add [page_simps]:
  assumes "page_aligned p" "unat k < 4096"
  shows "PGROUNDDOWN (p + k) = p"
proof -
  obtain q where "unat p = 4096 * q"
    using assms(1) by (auto simp: page_aligned_iff)
  then show ?thesis
    using assms by (simp add: word_unat_eq_iff unat_PGROUNDDOWN unat_add_offset)
qed

lemma PGROUNDUP_eq: "PGROUNDUP a = PGROUNDDOWN (a + 4095)"
  by (simp add: PGROUNDUP_def PGROUNDDOWN_def PGSIZE_def add.commute)

lemma unat_PGROUNDUP:
  "unat a + 4095 < 2 ^ 64 \<Longrightarrow> unat (PGROUNDUP a) = (unat a + 4095) div 4096 * 4096"
  by (simp add: PGROUNDUP_eq unat_PGROUNDDOWN unat_word_ariths)

lemma page_aligned_PGROUNDUP [simp]: "page_aligned (PGROUNDUP a)"
  by (simp add: PGROUNDUP_eq)

lemma PGROUNDUP_aligned:
  assumes "page_aligned a"
  shows "PGROUNDUP a = a"
proof -
  have "PGROUNDDOWN (a + 4095) = a"
    by (rule PGROUNDDOWN_add[OF assms]) simp
  then show ?thesis by (simp add: PGROUNDUP_eq)
qed

end
