(* ===== verification/Physmem.thy ===== *)
theory Physmem
  imports Riscv
begin

unbundle bit_operations_syntax

text \<open>
  Byte-addressed physical memory, as the kernel sees it through its direct map, with the memory
  routines of \<^verbatim>\<open>kernel/string.c\<close> (\<open>memset\<close>, \<open>memcmp\<close>, \<open>memmove\<close>, \<open>memcpy\<close>) and the 64-bit
  loads and stores that C pointers to \<open>uint64\<close> perform (little endian).
\<close>

type_synonym memory = "uint64 \<Rightarrow> byte"

section \<open>Sixty-four-bit loads and stores\<close>

definition load64 :: "memory \<Rightarrow> uint64 \<Rightarrow> uint64" where
  "load64 m a =
     ucast (m a) OR push_bit 8 (ucast (m (a + 1))) OR push_bit 16 (ucast (m (a + 2)))
     OR push_bit 24 (ucast (m (a + 3))) OR push_bit 32 (ucast (m (a + 4)))
     OR push_bit 40 (ucast (m (a + 5))) OR push_bit 48 (ucast (m (a + 6)))
     OR push_bit 56 (ucast (m (a + 7)))"

definition store64 :: "memory \<Rightarrow> uint64 \<Rightarrow> uint64 \<Rightarrow> memory" where
  "store64 m a v =
     (\<lambda>x. if x - a < 8 then ucast (drop_bit (8 * unat (x - a)) v) else m x)"

lemma not_bit_byte: "8 \<le> n \<Longrightarrow> \<not> bit (b :: byte) n"
  using bit_imp_le_length[of b n] by auto

lemma bit_load64_split:
  assumes "r < 8" "q < 8"
  shows "bit (load64 m a) (8 * q + r) \<longleftrightarrow> bit (m (a + of_nat q)) r"
proof -
  from assms(2) consider "q = 0" | "q = 1" | "q = 2" | "q = 3" | "q = 4" | "q = 5" | "q = 6" | "q = 7"
    by linarith
  then show ?thesis
    by cases (use assms(1) in \<open>auto simp: load64_def bit_simps not_bit_byte\<close>)
qed

lemma bit_load64:
  "n < 64 \<Longrightarrow> bit (load64 m a) n \<longleftrightarrow> bit (m (a + of_nat (n div 8))) (n mod 8)"
  using bit_load64_split[of "n mod 8" "n div 8" m a] by simp

lemma load64_cong:
  assumes "\<And>i. i < 8 \<Longrightarrow> m (a + i) = m' (a + i)"
  shows "load64 m a = load64 m' a"
  unfolding load64_def using assms[of 0] assms[of 1] assms[of 2] assms[of 3]
    assms[of 4] assms[of 5] assms[of 6] assms[of 7] by simp

lemma load64_store64_same [simp]: "load64 (store64 m a v) a = v"
proof (rule bit_word_eqI)
  fix n
  assume n: "n < LENGTH(64)"
  then have small: "n div 8 < 8" by simp
  then have "(of_nat (n div 8) :: uint64) < 8"
    by (simp add: word_less_nat_alt unat_of_nat)
  moreover have "unat (of_nat (n div 8) :: uint64) = n div 8"
    using small by (simp add: unat_of_nat)
  ultimately show "bit (load64 (store64 m a v) a) n = bit v n"
    using n by (simp add: bit_load64 store64_def bit_simps)
qed

abbreviation aligned8 :: "uint64 \<Rightarrow> bool" where
  "aligned8 a \<equiv> 8 dvd unat a"

lemma unat_add_lt8:
  assumes "aligned8 a" "i < 8"
  shows "unat (a + i) = unat a + unat i"
proof -
  obtain q where q: "unat a = 8 * q" using assms(1) by blast
  then have "q < 2305843009213693952" using unat_lt_2p64[of a] by simp
  moreover have "unat i < 8" using assms(2) by (simp add: word_less_nat_alt)
  ultimately show ?thesis using q by (simp add: unat_word_ariths)
qed

lemma aligned8_disjoint:
  assumes "aligned8 a" "aligned8 b" "i < 8" "j < 8" "a + i = b + j"
  shows "a = b"
proof -
  have i: "unat i < 8" and j: "unat j < 8"
    using assms(3,4) by (simp_all add: word_less_nat_alt)
  have "unat a + unat i = unat b + unat j"
    using assms unat_add_lt8 by metis
  then have "(unat a + unat i) div 8 = (unat b + unat j) div 8" by simp
  then have "unat a div 8 = unat b div 8"
    using assms(1,2) i j by (auto elim!: dvdE)
  then have "unat a = unat b"
    using assms(1,2) by (auto elim!: dvdE)
  then show ?thesis by (simp add: word_unat_eq_iff)
qed

lemma load64_store64_other [mem_simps]:
  assumes "aligned8 a" "aligned8 b" "a \<noteq> b"
  shows "load64 (store64 m b v) a = load64 m a"
proof (rule load64_cong)
  fix i :: uint64
  assume i: "i < 8"
  have "\<not> a + i - b < 8"
  proof
    assume "a + i - b < 8"
    moreover have "a + i = b + (a + i - b)" by simp
    ultimately show False using aligned8_disjoint assms i by metis
  qed
  then show "store64 m b v (a + i) = m (a + i)" by (simp add: store64_def)
qed

lemma aligned8_page: "page_aligned p \<Longrightarrow> aligned8 p"
  by (auto simp: page_aligned_iff elim!: dvdE intro: dvd_mult2)

lemma PGROUNDDOWN_lt8:
  assumes "aligned8 a" "i < 8"
  shows "PGROUNDDOWN (a + i) = PGROUNDDOWN a"
proof -
  obtain q where q: "unat a = 8 * q" using assms(1) by blast
  have i: "unat i < 8" using assms(2) by (simp add: word_less_nat_alt)
  have "(8 * q + unat i) div 4096 = (8 * q) div 4096"
    using i div_mult2_eq[of "8 * q + unat i" 8 512] div_mult2_eq[of "8 * q" 8 512] by simp
  then show ?thesis
    using q assms by (simp add: word_unat_eq_iff unat_PGROUNDDOWN unat_add_lt8)
qed

lemma store64_other_page [mem_simps]:
  assumes "aligned8 a" "PGROUNDDOWN x \<noteq> PGROUNDDOWN a"
  shows "store64 m a v x = m x"
proof -
  have "\<not> x - a < 8"
    using PGROUNDDOWN_lt8[OF assms(1), of "x - a"] assms(2) by auto
  then show ?thesis by (simp add: store64_def)
qed

lemma load64_page_cong:
  assumes "aligned8 a" "\<And>x. PGROUNDDOWN x = PGROUNDDOWN a \<Longrightarrow> m x = m' x"
  shows "load64 m a = load64 m' a"
  by (rule load64_cong) (simp add: assms PGROUNDDOWN_lt8)

section \<open>kernel/string.c: memset, memcmp, memmove, memcpy\<close>

primrec memset :: "memory \<Rightarrow> uint64 \<Rightarrow> byte \<Rightarrow> nat \<Rightarrow> memory" where
  "memset m dst c 0 = m"
| "memset m dst c (Suc n) = (memset m dst c n)(dst + of_nat n := c)"

primrec memcmp :: "memory \<Rightarrow> uint64 \<Rightarrow> uint64 \<Rightarrow> nat \<Rightarrow> int" where
  "memcmp m v1 v2 0 = 0"
| "memcmp m v1 v2 (Suc n) =
     (if m v1 \<noteq> m v2 then uint (m v1) - uint (m v2) else memcmp m (v1 + 1) (v2 + 1) n)"

primrec memmove_down :: "memory \<Rightarrow> uint64 \<Rightarrow> uint64 \<Rightarrow> nat \<Rightarrow> memory" where
  "memmove_down m d s 0 = m"
| "memmove_down m d s (Suc n) = memmove_down (m(d - 1 := m (s - 1))) (d - 1) (s - 1) n"

primrec memmove_up :: "memory \<Rightarrow> uint64 \<Rightarrow> uint64 \<Rightarrow> nat \<Rightarrow> memory" where
  "memmove_up m d s 0 = m"
| "memmove_up m d s (Suc n) = memmove_up (m(d := m s)) (d + 1) (s + 1) n"

definition memmove :: "memory \<Rightarrow> uint64 \<Rightarrow> uint64 \<Rightarrow> nat \<Rightarrow> memory" where
  "memmove m dst src n =
     (if n = 0 then m
      else if src < dst \<and> src + of_nat n > dst
      then memmove_down m (dst + of_nat n) (src + of_nat n) n
      else memmove_up m dst src n)"

definition memcpy :: "memory \<Rightarrow> uint64 \<Rightarrow> uint64 \<Rightarrow> nat \<Rightarrow> memory" where
  "memcpy m dst src n = memmove m dst src n"

lemma eq_add_of_nat_iff:
  assumes "n < 2 ^ 64"
  shows "x = dst + of_nat n \<longleftrightarrow> unat (x - (dst :: uint64)) = n"
proof -
  have "unat (of_nat n :: uint64) = n" using assms by (simp add: unat_of_nat)
  then have "unat (x - dst) = n \<longleftrightarrow> x - dst = of_nat n"
    by (metis word_unat_eq_iff)
  then show ?thesis by (auto simp: algebra_simps)
qed

lemma unat_minus_1_64 [simp]: "unat (- 1 :: uint64) = 18446744073709551615"
  by (simp add: unsigned_minus_1_eq_mask mask_eq_exp_minus_1)

lemma memset_apply:
  "n \<le> 2 ^ 64 \<Longrightarrow> memset m dst c n x = (if unat (x - dst) < n then c else m x)"
  by (induction n) (auto simp: eq_add_of_nat_iff less_Suc_eq)

lemma unat_pred_less:
  fixes k :: uint64
  assumes "n < 18446744073709551615"
  shows "unat (k - 1) < n \<longleftrightarrow> k \<noteq> 0 \<and> unat k < Suc n"
proof (cases "k = 0")
  case False
  then have "unat (k - 1) = unat k - 1" "0 < unat k"
    by (simp_all add: unat_minus_one unat_gt_0)
  then show ?thesis using False by auto
qed (use assms in simp)

lemma unat_plus1: "unat (s :: uint64) + Suc n < 2 ^ 64 \<Longrightarrow> unat (s + 1) = unat s + 1"
  by (simp add: unat_word_ariths)

lemma memmove_up_apply:
  assumes "unat s + n < 2 ^ 64" "unat d + n < 2 ^ 64" "unat d \<le> unat s \<or> unat s + n \<le> unat d"
  shows "memmove_up m d s n x = (if unat (x - d) < n then m (s + (x - d)) else m x)"
  using assms
proof (induction n arbitrary: m d s)
  case (Suc n)
  let ?k = "x - d"
  have "memmove_up (m(d := m s)) (d + 1) (s + 1) n x =
      (if unat (x - (d + 1)) < n then (m(d := m s)) (s + 1 + (x - (d + 1)))
       else (m(d := m s)) x)"
    by (rule Suc.IH) (use Suc.prems in \<open>auto simp: unat_plus1\<close>)
  moreover have "x - (d + 1) = ?k - 1" "s + 1 + (x - (d + 1)) = s + ?k"
    by simp_all
  moreover have "unat (?k - 1) < n \<longleftrightarrow> ?k \<noteq> 0 \<and> unat ?k < Suc n"
    by (rule unat_pred_less) (use Suc.prems in simp)
  moreover have "s + ?k \<noteq> d" if k: "?k \<noteq> 0" "unat ?k < Suc n"
  proof -
    have "unat (s + ?k) = unat s + unat ?k"
      using k Suc.prems(1) by (simp add: unat_word_ariths)
    moreover have "0 < unat ?k" using k(1) by (simp add: unat_gt_0)
    ultimately have "unat (s + ?k) \<noteq> unat d"
      using Suc.prems(3) k(2) by linarith
    then show ?thesis by metis
  qed
  ultimately show ?case by (auto simp: fun_upd_def)
qed simp

lemma memmove_down_apply:
  assumes "unat s + n < 2 ^ 64" "unat d + n < 2 ^ 64" "unat s \<le> unat d"
  shows "memmove_down m (d + of_nat n) (s + of_nat n) n x =
    (if unat (x - d) < n then m (s + (x - d)) else m x)"
  using assms
proof (induction n arbitrary: m)
  case (Suc n)
  let ?m = "m(d + of_nat n := m (s + of_nat n))"
  have "memmove_down ?m (d + of_nat n) (s + of_nat n) n x =
      (if unat (x - d) < n then ?m (s + (x - d)) else ?m x)"
    by (rule Suc.IH) (use Suc.prems in auto)
  moreover have "x = d + of_nat n \<longleftrightarrow> unat (x - d) = n"
    by (rule eq_add_of_nat_iff) (use Suc.prems in simp)
  moreover have "s + (x - d) \<noteq> d + of_nat n" if "unat (x - d) < n"
  proof -
    have "unat (s + (x - d)) = unat s + unat (x - d)" "unat (d + of_nat n) = unat d + n"
      using that Suc.prems by (simp_all add: unat_word_ariths unat_of_nat)
    then have "unat (s + (x - d)) \<noteq> unat (d + of_nat n)"
      using that Suc.prems(3) by linarith
    then show ?thesis by metis
  qed
  ultimately show ?case
    by (auto simp: algebra_simps less_Suc_eq)
qed simp

text \<open>However source and destination overlap, \<open>memmove\<close> leaves the source's old bytes there.\<close>

lemma memmove_apply:
  assumes "unat src + n < 2 ^ 64" "unat dst + n < 2 ^ 64"
  shows "memmove m dst src n x = (if unat (x - dst) < n then m (src + (x - dst)) else m x)"
proof (cases "src < dst \<and> src + of_nat n > dst")
  case True
  then show ?thesis
    using memmove_down_apply[OF assms, of m x] by (auto simp: memmove_def word_less_nat_alt)
next
  case False
  have "unat (src + of_nat n) = unat src + n"
    using assms by (simp add: unat_word_ariths unat_of_nat)
  then have "unat dst \<le> unat src \<or> unat src + n \<le> unat dst"
    using False by (auto simp: word_less_nat_alt)
  then show ?thesis
    using False memmove_up_apply[OF assms, of m x] by (auto simp: memmove_def)
qed

lemma memcmp_eq_0:
  "memcmp m a b n = 0 \<longleftrightarrow> (\<forall>i < n. m (a + of_nat i) = m (b + of_nat i))"
  by (induction n arbitrary: a b) (auto simp: less_Suc_eq_0_disj algebra_simps dest: unsigned_word_eqI)

end
