(* ===== verification/Kalloc.thy ===== *)
theory Kalloc
  imports Physmem
begin

text \<open>
  \<^verbatim>\<open>kernel/kalloc.c\<close>: the physical page allocator with the copy-on-write reference counts
  \<^verbatim>\<open>temp[]\<close>. The free list is threaded through the free pages themselves, so the state holds the
  memory, the list head and the counts. Each definition is the code of one call; the spinlocks
  \<^verbatim>\<open>kmem.lock\<close> and \<^verbatim>\<open>temp_lock\<close> only bracket the accesses shown and are the subject of the
  theory \<open>Spinlock\<close>.
\<close>

section \<open>State and operations\<close>

record kmem =
  mem :: memory
  freelist :: uint64
  temp :: "uint64 \<Rightarrow> int"

definition TEMP :: uint64 where
  "TEMP = PGROUNDUP PHYSTOP div PGSIZE"

definition check_and_increment :: "uint64 \<Rightarrow> kmem \<Rightarrow> kmem result" where
  "check_and_increment pno s =
     (if TEMP \<le> pno then Inl (Fault ''temp'')
      else if temp s pno < 0 then Inl (Panic ''Increment problem'')
      else Inr (s\<lparr>temp := (temp s)(pno := i32 (temp s pno + 1))\<rparr>))"

definition kfree :: "uint64 \<Rightarrow> kmem \<Rightarrow> kmem result" where
  "kfree pa s =
     (let pno = pa div PGSIZE in
      if TEMP \<le> pno then Inl (Fault ''temp'')
      else
        let flag = temp s pno in
        if flag > 0 then
          let s = s\<lparr>temp := (temp s)(pno := i32 (temp s pno - 1))\<rparr> in
          if flag > 1 then Inr s
          else
            let s = s\<lparr>mem := memset (mem s) pa 1 4096\<rparr>;
                s = s\<lparr>mem := store64 (mem s) pa (freelist s)\<rparr> in
            Inr (s\<lparr>freelist := pa\<rparr>)
        else Inl (Panic ''Error''))"

definition kalloc :: "kmem \<Rightarrow> (uint64 \<times> kmem) result" where
  "kalloc s =
     (let r = freelist s;
          s = (if r \<noteq> 0 then s\<lparr>freelist := load64 (mem s) r\<rparr> else s);
          s = (if r \<noteq> 0 then s\<lparr>mem := memset (mem s) r 5 4096\<rparr> else s) in
      if r \<noteq> 0
      then bnd (check_and_increment (r div PGSIZE) s) (\<lambda>s. Inr (r, s))
      else Inr (r, s))"

text \<open>
  The loop of \<open>freerange\<close>. A pointer that would wrap past the address space is undefined
  behaviour in C, so that branch is a fault; \<open>kinit\<close> passes \<open>PHYSTOP\<close>, far below.
\<close>

function freerange_loop :: "uint64 \<Rightarrow> uint64 \<Rightarrow> kmem \<Rightarrow> kmem result" where
  "freerange_loop p pa_end s =
     (if p + PGSIZE < p then Inl (Fault ''pointer overflow'')
      else if p + PGSIZE \<le> pa_end
      then bnd (kfree p s) (freerange_loop (p + PGSIZE) pa_end)
      else Inr s)"
  by pat_completeness auto
termination
proof (relation "measure (\<lambda>(p, e, s). 2 ^ 64 - unat p)", goal_cases)
  case (2 p pa_end s x)
  then have "unat p + 4096 < 2 ^ 64"
    using no_olen_add_nat[of p PGSIZE] by (simp add: PGSIZE_def not_less)
  then show ?case
    by (simp add: PGSIZE_def unat_word_ariths)
qed simp

declare freerange_loop.simps [simp del]

definition freerange :: "uint64 \<Rightarrow> uint64 \<Rightarrow> kmem \<Rightarrow> kmem result" where
  "freerange pa_start pa_end s = freerange_loop (PGROUNDUP pa_start) pa_end s"

text \<open>
  \<open>kinit\<close> gets the address \<^verbatim>\<open>end\<close> that \<^verbatim>\<open>kernel.ld\<close> defines as a parameter. Every count starts
  at 1, so that the first \<open>kfree\<close> of a page brings it to 0.
\<close>

definition kinit :: "uint64 \<Rightarrow> kmem \<Rightarrow> kmem result" where
  "kinit kend s =
     freerange kend PHYSTOP (s\<lparr>temp := (\<lambda>i. if i < TEMP then 1 else temp s i)\<rparr>)"

section \<open>The free list as a list of pages\<close>

text \<open>\<open>flist m a ps\<close>: from \<open>a\<close>, the links stored at the start of each page spell out \<open>ps\<close>.\<close>

primrec flist :: "memory \<Rightarrow> uint64 \<Rightarrow> uint64 list \<Rightarrow> bool" where
  "flist m a [] \<longleftrightarrow> a = 0"
| "flist m a (p # ps) \<longleftrightarrow> a = p \<and> p \<noteq> 0 \<and> flist m (load64 m p) ps"

definition valid_page :: "uint64 \<Rightarrow> bool" where
  "valid_page p \<longleftrightarrow> page_aligned p \<and> p \<noteq> 0 \<and> p < PHYSTOP"

text \<open>
  The allocator's invariant, with the free pages \<open>ps\<close> in list order: the free pages are exactly
  those whose count is 0, and no count is negative.
\<close>

definition kmem_inv :: "kmem \<Rightarrow> uint64 list \<Rightarrow> bool" where
  "kmem_inv s ps \<longleftrightarrow>
     flist (mem s) (freelist s) ps \<and> distinct ps \<and> (\<forall>p \<in> set ps. valid_page p)
     \<and> (\<forall>p. valid_page p \<longrightarrow> 0 \<le> temp s (p div PGSIZE) \<and> temp s (p div PGSIZE) \<le> INT_MAX
           \<and> (temp s (p div PGSIZE) = 0 \<longleftrightarrow> p \<in> set ps))"

lemma TEMP_num: "TEMP = 0x88000"
  by (simp add: TEMP_def PHYSTOP_num PGROUNDUP_def PGSIZE_def)

lemma valid_page_index:
  assumes "valid_page p"
  shows "p div PGSIZE < TEMP"
proof -
  have "unat p < 0x88000000"
    using assms by (simp add: valid_page_def PHYSTOP_num word_less_nat_alt)
  then show ?thesis
    by (simp add: word_less_nat_alt PGSIZE_def TEMP_num unat_div_distrib)
qed

lemma page_index_inj:
  assumes "page_aligned p" "page_aligned q" "p div PGSIZE = q div PGSIZE"
  shows "p = q"
proof -
  have "unat (p div PGSIZE) = unat (q div PGSIZE)"
    by (simp add: assms(3))
  then have "unat p div 4096 = unat q div 4096"
    by (simp add: PGSIZE_def unat_div_distrib)
  then show ?thesis
    using assms(1,2) by (simp add: word_unat_eq_iff unat_PGROUNDDOWN)
qed

lemma flist_frame:
  assumes "\<forall>p \<in> set ps. page_aligned p"
    and "\<And>x. PGROUNDDOWN x \<in> set ps \<Longrightarrow> m' x = m x"
  shows "flist m' a ps = flist m a ps"
  using assms
proof (induction ps arbitrary: a)
  case (Cons p ps)
  have "load64 m' p = load64 m p"
    by (rule load64_page_cong) (use Cons.prems in \<open>auto simp: aligned8_page\<close>)
  with Cons show ?case by auto
qed simp

lemma in_page_iff:
  assumes "page_aligned p"
  shows "unat (x - p) < 4096 \<longleftrightarrow> PGROUNDDOWN x = p"
proof
  assume "unat (x - p) < 4096"
  then have "PGROUNDDOWN (p + (x - p)) = p"
    by (rule PGROUNDDOWN_add[OF assms])
  then show "PGROUNDDOWN x = p" by simp
next
  assume "PGROUNDDOWN x = p"
  then have "unat p = unat x div 4096 * 4096"
    by (auto simp: unat_PGROUNDDOWN)
  moreover have "unat (x - p) = unat x - unat p"
    by (rule unat_sub) (simp add: word_le_nat_alt calculation)
  ultimately show "unat (x - p) < 4096"
    using mod_less_divisor[of 4096 "unat x"] by (simp add: modulo_nat_def)
qed

lemma memset_page [mem_simps]:
  "page_aligned p \<Longrightarrow> memset m p c 4096 x = (if PGROUNDDOWN x = p then c else m x)"
  by (simp add: memset_apply in_page_iff)

lemma kmem_invD:
  assumes "kmem_inv s ps"
  shows "flist (mem s) (freelist s) ps" "distinct ps" "p \<in> set ps \<Longrightarrow> valid_page p"
    "valid_page p \<Longrightarrow> 0 \<le> temp s (p div PGSIZE)"
    "valid_page p \<Longrightarrow> temp s (p div PGSIZE) \<le> INT_MAX"
    "valid_page p \<Longrightarrow> temp s (p div PGSIZE) = 0 \<longleftrightarrow> p \<in> set ps"
  using assms by (auto simp: kmem_inv_def)

lemma valid_page_aligned [simp]: "valid_page p \<Longrightarrow> page_aligned p"
  by (simp add: valid_page_def)

lemma valid_page_neq: "valid_page p \<Longrightarrow> valid_page q \<Longrightarrow> q \<noteq> p \<Longrightarrow> q div PGSIZE \<noteq> p div PGSIZE"
  using page_index_inj by auto

section \<open>Behaviour of each operation\<close>

lemma kalloc_empty: "kmem_inv s [] \<Longrightarrow> kalloc s = Inr (0, s)"
  by (simp add: kmem_inv_def kalloc_def)

lemma kalloc_Cons:
  assumes inv: "kmem_inv s (p # ps)"
  shows "kalloc s = Inr (p, s\<lparr>mem := memset (mem s) p 5 4096, freelist := load64 (mem s) p,
      temp := (temp s)(p div PGSIZE := 1)\<rparr>)"
proof -
  have "freelist s = p" "p \<noteq> 0" "valid_page p"
    using inv by (auto simp: kmem_inv_def)
  moreover from this have "temp s (p div PGSIZE) = 0" "p div PGSIZE < TEMP"
    using kmem_invD(6)[OF inv] valid_page_index by auto
  ultimately show ?thesis
    by (simp add: kalloc_def check_and_increment_def Let_def i32_def)
qed

lemma kmem_inv_frame:
  assumes inv: "kmem_inv s ps" and fl: "freelist s' = freelist s" and tmp: "temp s' = temp s"
    and frame: "\<And>x. PGROUNDDOWN x \<in> set ps \<Longrightarrow> mem s' x = mem s x"
  shows "kmem_inv s' ps"
proof -
  have "flist (mem s') (freelist s) ps = flist (mem s) (freelist s) ps"
    by (rule flist_frame) (use inv frame in \<open>auto simp: kmem_inv_def\<close>)
  then show ?thesis using inv by (simp add: kmem_inv_def fl tmp)
qed

lemma kalloc_inv:
  assumes inv: "kmem_inv s (p # ps)" and k: "kalloc s = Inr (q, s')"
  shows "q = p \<and> kmem_inv s' ps \<and> temp s' = (temp s)(p div PGSIZE := 1)
    \<and> (\<forall>x. mem s' x = (if PGROUNDDOWN x = p then 5 else mem s x))"
proof -
  have vp: "valid_page p" and nin: "p \<notin> set ps" and fl: "flist (mem s) (load64 (mem s) p) ps"
    using inv by (auto simp: kmem_inv_def)
  have s': "q = p" "s' = s\<lparr>mem := memset (mem s) p 5 4096, freelist := load64 (mem s) p,
      temp := (temp s)(p div PGSIZE := 1)\<rparr>"
    using k kalloc_Cons[OF inv] by auto
  have "flist (memset (mem s) p 5 4096) (load64 (mem s) p) ps = flist (mem s) (load64 (mem s) p) ps"
    by (rule flist_frame) (use inv nin vp in \<open>auto simp: kmem_inv_def mem_simps\<close>)
  moreover have "0 \<le> temp s' (r div PGSIZE) \<and> temp s' (r div PGSIZE) \<le> INT_MAX
      \<and> (temp s' (r div PGSIZE) = 0 \<longleftrightarrow> r \<in> set ps)" if "valid_page r" for r
    using kmem_invD(4-6)[OF inv that] valid_page_neq[OF vp that] nin
    by (cases "r = p") (auto simp: s' INT_MAX_def)
  ultimately show ?thesis
    using inv fl vp by (auto simp: s' kmem_inv_def mem_simps)
qed

text \<open>Changing the count of a page in use, as long as it stays in use, keeps the invariant.\<close>

lemma kmem_inv_count:
  assumes inv: "kmem_inv s ps" and vp: "valid_page p" and "p \<notin> set ps" "0 < v" "v \<le> INT_MAX"
  shows "kmem_inv (s\<lparr>temp := (temp s)(p div PGSIZE := v)\<rparr>) ps"
proof -
  have "0 \<le> ((temp s)(p div PGSIZE := v)) (r div PGSIZE)
      \<and> ((temp s)(p div PGSIZE := v)) (r div PGSIZE) \<le> INT_MAX
      \<and> (((temp s)(p div PGSIZE := v)) (r div PGSIZE) = 0 \<longleftrightarrow> r \<in> set ps)" if "valid_page r" for r
    using kmem_invD(4-6)[OF inv that] valid_page_neq[OF vp that] assms(3-5)
    by (cases "r = p") auto
  then show ?thesis using inv by (auto simp: kmem_inv_def)
qed

lemma check_and_increment_used:
  assumes inv: "kmem_inv s ps" and vp: "valid_page p" and "p \<notin> set ps"
    and "temp s (p div PGSIZE) < INT_MAX"
  shows "check_and_increment (p div PGSIZE) s =
      Inr (s\<lparr>temp := (temp s)(p div PGSIZE := temp s (p div PGSIZE) + 1)\<rparr>)"
    and "kmem_inv (s\<lparr>temp := (temp s)(p div PGSIZE := temp s (p div PGSIZE) + 1)\<rparr>) ps"
proof -
  note c = kmem_invD(4)[OF inv vp] assms(4)
  have "in_int (temp s (p div PGSIZE) + 1)"
    using c by (simp add: in_int_def INT_MIN_def)
  then show "check_and_increment (p div PGSIZE) s =
      Inr (s\<lparr>temp := (temp s)(p div PGSIZE := temp s (p div PGSIZE) + 1)\<rparr>)"
    using c valid_page_index[OF vp]
    by (simp add: check_and_increment_def cint_simps not_le)
  show "kmem_inv (s\<lparr>temp := (temp s)(p div PGSIZE := temp s (p div PGSIZE) + 1)\<rparr>) ps"
    by (rule kmem_inv_count[OF inv vp assms(3)]) (use c in auto)
qed

lemma kfree_shared:
  assumes inv: "kmem_inv s ps" and vp: "valid_page p" and shared: "1 < temp s (p div PGSIZE)"
  shows "kfree p s = Inr (s\<lparr>temp := (temp s)(p div PGSIZE := temp s (p div PGSIZE) - 1)\<rparr>)"
    and "kmem_inv (s\<lparr>temp := (temp s)(p div PGSIZE := temp s (p div PGSIZE) - 1)\<rparr>) ps"
proof -
  note c = kmem_invD(5)[OF inv vp] shared
  have "in_int (temp s (p div PGSIZE) - 1)"
    using c by (simp add: in_int_def INT_MIN_def)
  then show "kfree p s = Inr (s\<lparr>temp := (temp s)(p div PGSIZE := temp s (p div PGSIZE) - 1)\<rparr>)"
    using c valid_page_index[OF vp] by (simp add: kfree_def Let_def cint_simps not_le)
  show "kmem_inv (s\<lparr>temp := (temp s)(p div PGSIZE := temp s (p div PGSIZE) - 1)\<rparr>) ps"
    by (rule kmem_inv_count[OF inv vp]) (use c kmem_invD(6)[OF inv vp] in auto)
qed

lemma kfree_last:
  assumes inv: "kmem_inv s ps" and vp: "valid_page p" and one: "temp s (p div PGSIZE) = 1"
  shows "\<exists>s'. kfree p s = Inr s' \<and> kmem_inv s' (p # ps)
    \<and> temp s' = (temp s)(p div PGSIZE := 0)
    \<and> (\<forall>x. PGROUNDDOWN x \<noteq> p \<longrightarrow> mem s' x = mem s x)"
proof -
  define m where "m = store64 (memset (mem s) p 1 4096) p (freelist s)"
  define s' where "s' = s\<lparr>mem := m, freelist := p, temp := (temp s)(p div PGSIZE := 0)\<rparr>"
  have nin: "p \<notin> set ps" using kmem_invD(6)[OF inv vp] one by simp
  have frame: "m x = mem s x" if "PGROUNDDOWN x \<noteq> p" for x
    using that vp by (simp add: m_def mem_simps aligned8_page)
  have "flist m (freelist s) ps = flist (mem s) (freelist s) ps"
    by (rule flist_frame) (use inv nin in \<open>auto simp: kmem_inv_def intro!: frame\<close>)
  moreover have "load64 m p = freelist s" by (simp add: m_def)
  ultimately have "flist m p (p # ps)"
    using inv vp by (simp add: kmem_inv_def valid_page_def)
  moreover have "0 \<le> temp s' (r div PGSIZE) \<and> temp s' (r div PGSIZE) \<le> INT_MAX
      \<and> (temp s' (r div PGSIZE) = 0 \<longleftrightarrow> r \<in> set (p # ps))" if "valid_page r" for r
    using kmem_invD(4-6)[OF inv that] valid_page_neq[OF vp that]
    by (cases "r = p") (auto simp: s'_def INT_MAX_def)
  ultimately have "kmem_inv s' (p # ps)"
    using inv vp nin by (auto simp: kmem_inv_def s'_def)
  moreover have "kfree p s = Inr s'"
    using one valid_page_index[OF vp]
    by (simp add: kfree_def Let_def s'_def m_def not_le i32_def)
  ultimately show ?thesis using frame by (auto simp: s'_def)
qed

lemma kfree_free_page:
  assumes "kmem_inv s ps" "p \<in> set ps"
  shows "kfree p s = Inl (Panic ''Error'')"
proof -
  have "valid_page p" "temp s (p div PGSIZE) = 0"
    using assms by (auto simp: kmem_inv_def)
  then show ?thesis
    using valid_page_index by (simp add: kfree_def Let_def not_le)
qed

section \<open>Booting the allocator\<close>

text \<open>The pages that \<open>freerange\<close> hands to \<open>kfree\<close>: whole pages between two addresses.\<close>

lemma kmem_inv_start:
  assumes "freelist s = 0" "\<And>p. valid_page p \<Longrightarrow> temp s (p div PGSIZE) = 1"
  shows "kmem_inv s []"
  using assms by (simp add: kmem_inv_def INT_MAX_def)

definition pages_between :: "uint64 \<Rightarrow> uint64 \<Rightarrow> uint64 set" where
  "pages_between p e = {q. page_aligned q \<and> p \<le> q \<and> unat q + 4096 \<le> unat e}"

lemma pages_between_empty: "unat e < unat p + 4096 \<Longrightarrow> pages_between p e = {}"
  by (auto simp: pages_between_def word_le_nat_alt)

lemma page_aligned_add_PGSIZE: "page_aligned p \<Longrightarrow> page_aligned (p + PGSIZE)"
  by (simp add: page_aligned_iff PGSIZE_def unat_word_ariths dvd_mod_iff)

lemma pages_between_step:
  assumes "page_aligned p" "unat p + 4096 \<le> unat e"
  shows "pages_between p e = insert p (pages_between (p + PGSIZE) e)"
proof -
  have "unat (p + PGSIZE) = unat p + 4096"
    using le_less_trans[OF assms(2) unat_lt_2p64] by (simp add: PGSIZE_def unat_word_ariths)
  moreover have "unat p + 4096 \<le> unat q" if q: "page_aligned q" "unat p \<le> unat q" "q \<noteq> p" for q
  proof -
    obtain i j where "unat p = 4096 * i" "unat q = 4096 * j"
      using assms(1) q(1) unfolding page_aligned_iff dvd_def by blast
    then show ?thesis using q(2,3) by (auto simp: word_unat_eq_iff)
  qed
  ultimately show ?thesis
    using assms by (force simp: pages_between_def word_le_nat_alt)
qed

lemma freerange_loop_inv:
  assumes "kmem_inv s ps" "page_aligned p" "p \<noteq> 0" "p \<le> e" "e \<le> PHYSTOP"
    and "\<And>q. valid_page q \<Longrightarrow> temp s (q div PGSIZE) = (if q \<in> set ps then 0 else 1)"
    and "\<And>q. q \<in> set ps \<Longrightarrow> q < p"
  shows "\<exists>s' qs. freerange_loop p e s = Inr s' \<and> kmem_inv s' qs
    \<and> set qs = set ps \<union> pages_between p e
    \<and> (\<forall>q. valid_page q \<longrightarrow> temp s' (q div PGSIZE) = (if q \<in> set qs then 0 else 1))"
  using assms
proof (induction p e s arbitrary: ps rule: freerange_loop.induct)
  case (1 p e s)
  have bound: "unat p \<le> unat e" "unat e \<le> 0x88000000"
    using "1.prems"(4,5) by (simp_all add: word_le_nat_alt PHYSTOP_num)
  then have nxt: "unat (p + PGSIZE) = unat p + 4096"
    by (simp add: PGSIZE_def unat_word_ariths)
  then have nowrap: "\<not> p + PGSIZE < p" by (simp add: word_less_nat_alt)
  show ?case
  proof (cases "p + PGSIZE \<le> e")
    case False
    then have "pages_between p e = {}"
      using nxt by (intro pages_between_empty) (simp add: word_le_nat_alt)
    with False nowrap "1.prems"(1,6) show ?thesis
      by (auto simp: freerange_loop.simps)
  next
    case True
    have vp: "valid_page p"
      using True nxt "1.prems"(2,3) bound
      by (simp add: valid_page_def word_less_nat_alt word_le_nat_alt PHYSTOP_num)
    have nin: "p \<notin> set ps" using "1.prems"(7) by auto
    obtain s1 where s1: "kfree p s = Inr s1" "kmem_inv s1 (p # ps)"
      "temp s1 = (temp s)(p div PGSIZE := 0)"
      using kfree_last[OF "1.prems"(1) vp] "1.prems"(6)[OF vp] nin by auto
    have "\<exists>s' qs. freerange_loop (p + PGSIZE) e s1 = Inr s' \<and> kmem_inv s' qs
      \<and> set qs = set (p # ps) \<union> pages_between (p + PGSIZE) e
      \<and> (\<forall>q. valid_page q \<longrightarrow> temp s' (q div PGSIZE) = (if q \<in> set qs then 0 else 1))"
    proof (rule "1.IH"[OF nowrap True s1(1,2)])
      show "page_aligned (p + PGSIZE)" by (rule page_aligned_add_PGSIZE[OF "1.prems"(2)])
      show "p + PGSIZE \<noteq> 0" using nxt by (auto simp: word_unat_eq_iff)
      show "p + PGSIZE \<le> e" "e \<le> PHYSTOP" using True "1.prems"(5) by simp_all
      show "temp s1 (q div PGSIZE) = (if q \<in> set (p # ps) then 0 else 1)" if "valid_page q" for q
        using "1.prems"(6)[OF that] valid_page_neq[OF vp that] by (auto simp: s1(3))
      show "q < p + PGSIZE" if "q \<in> set (p # ps)" for q
        using that "1.prems"(7)[of q] nxt by (auto simp: word_less_nat_alt)
    qed
    moreover have "pages_between p e = insert p (pages_between (p + PGSIZE) e)"
      using True nxt by (intro pages_between_step[OF "1.prems"(2)]) (simp add: word_le_nat_alt)
    ultimately show ?thesis
      using True nowrap s1(1) by (auto simp: freerange_loop.simps[of p e s])
  qed
qed

text \<open>
  After booting, the free list holds every whole page between the end of the kernel and
  \<open>PHYSTOP\<close>, and all other counts are 1.
\<close>

lemma kinit_correct:
  assumes "freelist s = 0" "kend \<le> PHYSTOP" "PGROUNDUP kend \<noteq> 0"
  shows "\<exists>s' ps. kinit kend s = Inr s' \<and> kmem_inv s' ps
    \<and> set ps = pages_between (PGROUNDUP kend) PHYSTOP"
proof -
  let ?s = "s\<lparr>temp := (\<lambda>i. if i < TEMP then 1 else temp s i)\<rparr>"
  have one: "temp ?s (p div PGSIZE) = 1" if "valid_page p" for p
    using valid_page_index[OF that] by simp
  have "unat kend \<le> 0x88000000"
    using assms(2) by (simp add: word_le_nat_alt PHYSTOP_num)
  then have "(unat kend + 4095) div 4096 \<le> 0x88000"
    by simp
  then have "PGROUNDUP kend \<le> PHYSTOP"
    using \<open>unat kend \<le> 0x88000000\<close> by (simp add: word_le_nat_alt unat_PGROUNDUP PHYSTOP_num)
  then have "\<exists>s' qs. freerange_loop (PGROUNDUP kend) PHYSTOP ?s = Inr s' \<and> kmem_inv s' qs
    \<and> set qs = set [] \<union> pages_between (PGROUNDUP kend) PHYSTOP
    \<and> (\<forall>q. valid_page q \<longrightarrow> temp s' (q div PGSIZE) = (if q \<in> set qs then 0 else 1))"
    by (intro freerange_loop_inv kmem_inv_start) (use assms one in auto)
  then show ?thesis by (auto simp: kinit_def freerange_def)
qed

end
