(* ===== verification/Vm.thy ===== *)
theory Vm
  imports Kalloc
begin

unbundle bit_operations_syntax

text \<open>
  \<^verbatim>\<open>kernel/vm.c\<close>: Sv39 page tables held in physical memory, the user address space operations,
  copy-on-write and the copies between user and kernel memory. A page table is the address of
  its root page and an entry is a 64-bit word of memory, as in the source, so every aliasing
  between tables, data pages and the free list is visible to the proofs.

  Messages printed on the console are not part of the state.
\<close>

section \<open>Walking a page table\<close>

text \<open>
  \<open>walk_level l\<close> is the body of the loop of \<open>walk\<close> from level \<open>l\<close> down; it returns the address
  of the leaf entry, or 0.
\<close>

fun walk_level :: "nat \<Rightarrow> uint64 \<Rightarrow> uint64 \<Rightarrow> bool \<Rightarrow> kmem \<Rightarrow> (uint64 \<times> kmem) result" where
  "walk_level 0 pagetable va alloc s = Inr (pagetable + 8 * PX 0 va, s)"
| "walk_level (Suc l) pagetable va alloc s =
     (let pte = pagetable + 8 * PX (Suc l) va in
      if load64 (mem s) pte AND PTE_V \<noteq> 0
      then walk_level l (PTE2PA (load64 (mem s) pte)) va alloc s
      else if \<not> alloc then Inr (0, s)
      else bnd (kalloc s) (\<lambda>(pagetable, s).
        if pagetable = 0 then Inr (0, s)
        else
          let s = s\<lparr>mem := memset (mem s) pagetable 0 4096\<rparr>;
              s = s\<lparr>mem := store64 (mem s) pte (PA2PTE pagetable OR PTE_V)\<rparr> in
          walk_level l pagetable va alloc s))"

definition walk :: "uint64 \<Rightarrow> uint64 \<Rightarrow> bool \<Rightarrow> kmem \<Rightarrow> (uint64 \<times> kmem) result" where
  "walk pagetable va alloc s =
     (if MAXVA \<le> va then Inl (Panic ''walk'') else walk_level 2 pagetable va alloc s)"

definition walkaddr :: "uint64 \<Rightarrow> uint64 \<Rightarrow> kmem \<Rightarrow> uint64 result" where
  "walkaddr pagetable va s =
     (if MAXVA \<le> va then Inr 0
      else bnd (walk pagetable va False s) (\<lambda>(pte, s).
        if pte = 0 then Inr 0
        else if load64 (mem s) pte AND PTE_V = 0 then Inr 0
        else if load64 (mem s) pte AND PTE_U = 0 then Inr 0
        else Inr (PTE2PA (load64 (mem s) pte))))"

section \<open>Mapping and unmapping\<close>

lemma unat_add_PGSIZE:
  "unat a + 4096 < 2 ^ 64 \<Longrightarrow> unat (a + PGSIZE) = unat a + 4096"
  by (simp add: PGSIZE_def unat_word_ariths)

lemma below_MAXVA: "a < MAXVA \<Longrightarrow> unat a < 0x4000000000"
  by (simp add: word_less_nat_alt MAXVA_num)

lemma walk_Inr_below: "walk pagetable va alloc s = Inr r \<Longrightarrow> va < MAXVA"
  by (simp add: walk_def split: if_splits)

lemma page_step_measure:
  "a < MAXVA \<Longrightarrow> unat MAXVA - unat (a + PGSIZE) < unat MAXVA - unat a"
  using below_MAXVA[of a] by (simp add: unat_add_PGSIZE MAXVA_num)

function mappages_loop ::
  "uint64 \<Rightarrow> uint64 \<Rightarrow> uint64 \<Rightarrow> uint64 \<Rightarrow> uint64 \<Rightarrow> kmem \<Rightarrow> (int \<times> kmem) result" where
  "mappages_loop pagetable a lst pa perm s =
     bnd (walk pagetable a True s) (\<lambda>(pte, s).
       if pte = 0 then Inr (-1, s)
       else if load64 (mem s) pte AND PTE_V \<noteq> 0 then Inl (Panic ''mappages: remap'')
       else
         let s = s\<lparr>mem := store64 (mem s) pte (PA2PTE pa OR perm OR PTE_V)\<rparr> in
         if a = lst then Inr (0, s)
         else mappages_loop pagetable (a + PGSIZE) lst (pa + PGSIZE) perm s)"
  by pat_completeness auto
termination
  by (relation "measure (\<lambda>(pt, a, _). unat MAXVA - unat a)")
    (auto intro!: page_step_measure dest: walk_Inr_below)

declare mappages_loop.simps [simp del]

definition mappages ::
  "uint64 \<Rightarrow> uint64 \<Rightarrow> uint64 \<Rightarrow> uint64 \<Rightarrow> uint64 \<Rightarrow> kmem \<Rightarrow> (int \<times> kmem) result" where
  "mappages pagetable va sz pa perm s =
     (if sz = 0 then Inl (Panic ''mappages: size'')
      else mappages_loop pagetable (PGROUNDDOWN va) (PGROUNDDOWN (va + sz - 1)) pa perm s)"

definition kvmmap ::
  "uint64 \<Rightarrow> uint64 \<Rightarrow> uint64 \<Rightarrow> uint64 \<Rightarrow> uint64 \<Rightarrow> kmem \<Rightarrow> kmem result" where
  "kvmmap kpgtbl va pa sz perm s =
     bnd (mappages kpgtbl va sz pa perm s) (\<lambda>(r, s).
       if r \<noteq> 0 then Inl (Panic ''kvmmap'') else Inr s)"

function uvmunmap_loop :: "uint64 \<Rightarrow> uint64 \<Rightarrow> uint64 \<Rightarrow> bool \<Rightarrow> kmem \<Rightarrow> kmem result" where
  "uvmunmap_loop pagetable a e do_free s =
     (if a < e then
        bnd (walk pagetable a False s) (\<lambda>(pte, s).
          if pte = 0 then Inl (Panic ''uvmunmap: walk'')
          else if load64 (mem s) pte AND PTE_V = 0 then Inl (Panic ''uvmunmap: not mapped'')
          else if PTE_FLAGS (load64 (mem s) pte) = PTE_V then Inl (Panic ''uvmunmap: not a leaf'')
          else
            bnd (if do_free then kfree (PTE2PA (load64 (mem s) pte)) s else Inr s) (\<lambda>s.
              uvmunmap_loop pagetable (a + PGSIZE) e do_free
                (s\<lparr>mem := store64 (mem s) pte 0\<rparr>)))
      else Inr s)"
  by pat_completeness auto
termination
  by (relation "measure (\<lambda>(pt, a, _). unat MAXVA - unat a)")
    (auto intro!: page_step_measure dest: walk_Inr_below)

declare uvmunmap_loop.simps [simp del]

definition uvmunmap :: "uint64 \<Rightarrow> uint64 \<Rightarrow> uint64 \<Rightarrow> bool \<Rightarrow> kmem \<Rightarrow> kmem result" where
  "uvmunmap pagetable va npages do_free s =
     (if va mod PGSIZE \<noteq> 0 then Inl (Panic ''uvmunmap: not aligned'')
      else uvmunmap_loop pagetable va (va + npages * PGSIZE) do_free s)"

section \<open>User address spaces\<close>

definition uvmcreate :: "kmem \<Rightarrow> (uint64 \<times> kmem) result" where
  "uvmcreate s =
     bnd (kalloc s) (\<lambda>(pagetable, s).
       if pagetable = 0 then Inr (0, s)
       else Inr (pagetable, s\<lparr>mem := memset (mem s) pagetable 0 4096\<rparr>))"

definition uvmfirst :: "uint64 \<Rightarrow> uint64 \<Rightarrow> uint64 \<Rightarrow> kmem \<Rightarrow> kmem result" where
  "uvmfirst pagetable src sz s =
     (if PGSIZE \<le> sz then Inl (Panic ''uvmfirst: more than a page'')
      else bnd (kalloc s) (\<lambda>(pg, s).
        bnd (mappages pagetable 0 PGSIZE pg (PTE_W OR PTE_R OR PTE_X OR PTE_U)
              (s\<lparr>mem := memset (mem s) pg 0 4096\<rparr>)) (\<lambda>(_, s).
          Inr (s\<lparr>mem := memmove (mem s) pg src (unat sz)\<rparr>))))"

text \<open>\<open>npages\<close> is a C \<open>int\<close>: the quotient is cut to 32 bits and sign-extended again.\<close>

definition uvmdealloc :: "uint64 \<Rightarrow> uint64 \<Rightarrow> uint64 \<Rightarrow> kmem \<Rightarrow> (uint64 \<times> kmem) result" where
  "uvmdealloc pagetable oldsz newsz s =
     (if oldsz \<le> newsz then Inr (oldsz, s)
      else
        bnd (if PGROUNDUP newsz < PGROUNDUP oldsz then
               let npages = (ucast ((PGROUNDUP oldsz - PGROUNDUP newsz) div PGSIZE) :: uint) in
               uvmunmap pagetable (PGROUNDUP newsz) (scast npages) True s
             else Inr s) (\<lambda>s. Inr (newsz, s)))"

lemma mappages_loop_below:
  "mappages_loop pagetable a lst pa perm s = Inr r \<Longrightarrow> a < MAXVA"
  by (subst (asm) mappages_loop.simps) (auto simp: bnd_eq_Inr dest: walk_Inr_below)

lemma mappages_below:
  assumes "mappages pagetable va sz pa perm s = Inr r"
  shows "va < MAXVA"
proof -
  have "PGROUNDDOWN va < MAXVA"
    using assms mappages_loop_below by (auto simp: mappages_def split: if_splits)
  then have "unat va div 4096 * 4096 < 4096 * 0x4000000"
    by (simp add: word_less_nat_alt unat_PGROUNDDOWN MAXVA_num)
  then have "unat va div 4096 < 0x4000000" by simp
  then show ?thesis
    by (simp add: word_less_nat_alt MAXVA_num)
qed

function uvmalloc_loop ::
  "uint64 \<Rightarrow> uint64 \<Rightarrow> uint64 \<Rightarrow> uint64 \<Rightarrow> uint64 \<Rightarrow> kmem \<Rightarrow> (uint64 \<times> kmem) result" where
  "uvmalloc_loop pagetable a oldsz newsz xperm s =
     (if a < newsz then
        bnd (kalloc s) (\<lambda>(pg, s).
          if pg = 0 then bnd (uvmdealloc pagetable a oldsz s) (\<lambda>(_, s). Inr (0, s))
          else
            bnd (mappages pagetable a PGSIZE pg (PTE_R OR PTE_U OR xperm)
                  (s\<lparr>mem := memset (mem s) pg 0 4096\<rparr>)) (\<lambda>(r, s).
              if r \<noteq> 0 then
                bnd (kfree pg s) (\<lambda>s.
                bnd (uvmdealloc pagetable a oldsz s) (\<lambda>(_, s). Inr (0, s)))
              else uvmalloc_loop pagetable (a + PGSIZE) oldsz newsz xperm s))
      else Inr (newsz, s))"
  by pat_completeness auto
termination
  by (relation "measure (\<lambda>(pt, a, _). unat MAXVA - unat a)")
    (auto intro!: page_step_measure dest: mappages_below)

declare uvmalloc_loop.simps [simp del]

definition uvmalloc ::
  "uint64 \<Rightarrow> uint64 \<Rightarrow> uint64 \<Rightarrow> uint64 \<Rightarrow> kmem \<Rightarrow> (uint64 \<times> kmem) result" where
  "uvmalloc pagetable oldsz newsz xperm s =
     (if newsz < oldsz then Inr (oldsz, s)
      else uvmalloc_loop pagetable (PGROUNDUP oldsz) (PGROUNDUP oldsz) newsz xperm s)"

text \<open>
  \<open>freewalk\<close> recurses once per level of the tree. Its first argument is the depth the kernel
  stack allows; a table deeper than that would overflow the stack.
\<close>

primrec freewalk :: "nat \<Rightarrow> uint64 \<Rightarrow> kmem \<Rightarrow> kmem result" where
  "freewalk 0 pagetable s = Inl (Fault ''stack overflow'')"
| "freewalk (Suc d) pagetable s =
     bnd (for_each (\<lambda>i s.
            let pte = load64 (mem s) (pagetable + 8 * of_nat i) in
            if pte AND PTE_V \<noteq> 0 \<and> pte AND (PTE_R OR PTE_W OR PTE_X) = 0 then
              bnd (freewalk d (PTE2PA pte) s) (\<lambda>s.
                Inr (s\<lparr>mem := store64 (mem s) (pagetable + 8 * of_nat i) 0\<rparr>))
            else if pte AND PTE_V \<noteq> 0 then Inl (Panic ''freewalk: leaf'')
            else Inr s) [0..<512] s)
       (kfree pagetable)"

definition uvmfree :: "nat \<Rightarrow> uint64 \<Rightarrow> uint64 \<Rightarrow> kmem \<Rightarrow> kmem result" where
  "uvmfree d pagetable sz s =
     bnd (if 0 < sz then uvmunmap pagetable 0 (PGROUNDUP sz div PGSIZE) True s else Inr s)
       (freewalk d pagetable)"

section \<open>Copy on write\<close>

function uvmcopy_loop ::
  "uint64 \<Rightarrow> uint64 \<Rightarrow> uint64 \<Rightarrow> uint64 \<Rightarrow> kmem \<Rightarrow> (int \<times> kmem) result" where
  "uvmcopy_loop old new i sz s =
     (if i < sz then
        bnd (walk old i False s) (\<lambda>(pte, s).
          if pte = 0 then Inl (Panic ''uvmcopy: pte should exist'')
          else if load64 (mem s) pte AND PTE_V = 0 then Inl (Panic ''uvmcopy: page not present'')
          else
            let pa = PTE2PA (load64 (mem s) pte);
                flags = PTE_FLAGS (load64 (mem s) pte);
                cow = flags AND PTE_W \<noteq> 0;
                flags = (if cow then flags AND NOT PTE_W OR PTE_COW else flags);
                s = (if cow then s\<lparr>mem := store64 (mem s) pte (PA2PTE pa OR flags)\<rparr> else s) in
            bnd (mappages new i PGSIZE pa flags s) (\<lambda>(r, s).
              if r \<noteq> 0 then
                bnd (uvmunmap new 0 (i div PGSIZE) True s) (\<lambda>s. Inr (-1, s))
              else
                bnd (check_and_increment (pa div PGSIZE) s) (\<lambda>s.
                  uvmcopy_loop old new (i + PGSIZE) sz s)))
      else Inr (0, s))"
  by pat_completeness auto
termination
  by (relation "measure (\<lambda>(old, new, i, _). unat MAXVA - unat i)")
    (auto intro!: page_step_measure dest: walk_Inr_below)

declare uvmcopy_loop.simps [simp del]

definition uvmcopy :: "uint64 \<Rightarrow> uint64 \<Rightarrow> uint64 \<Rightarrow> kmem \<Rightarrow> (int \<times> kmem) result" where
  "uvmcopy old new sz s = uvmcopy_loop old new 0 sz s"

definition custom_cow :: "uint64 \<Rightarrow> uint64 \<Rightarrow> kmem \<Rightarrow> (int \<times> kmem) result" where
  "custom_cow pt va s =
     (let va = PGROUNDDOWN va in
      if MAXVA < va then Inr (1, s)
      else bnd (walk pt va False s) (\<lambda>(pte, s).
        if pte = 0 then Inl (Panic ''custom_cow: pte should exist'')
        else if load64 (mem s) pte AND PTE_V = 0 then Inl (Panic ''custom_cow: Page not present'')
        else if load64 (mem s) pte AND PTE_COW = 0 then Inr (1, s)
        else
          let pa = PTE2PA (load64 (mem s) pte);
              flags = PTE_FLAGS (load64 (mem s) pte);
              flags = flags AND NOT PTE_COW;
              flags = flags OR PTE_W in
          bnd (kalloc s) (\<lambda>(pg, s).
            if pg = 0 then Inr (1, s)
            else
              let s = s\<lparr>mem := memmove (mem s) pg pa 4096\<rparr>;
                  s = s\<lparr>mem := store64 (mem s) pte (PA2PTE pg OR flags)\<rparr> in
              bnd (kfree pa s) (\<lambda>s. Inr (0, s)))))"

definition uvmclear :: "uint64 \<Rightarrow> uint64 \<Rightarrow> kmem \<Rightarrow> kmem result" where
  "uvmclear pagetable va s =
     bnd (walk pagetable va False s) (\<lambda>(pte, s).
       if pte = 0 then Inl (Panic ''uvmclear'')
       else Inr (s\<lparr>mem := store64 (mem s) pte (load64 (mem s) pte AND NOT PTE_U)\<rparr>))"

section \<open>Copies between user and kernel memory\<close>

lemma unat_page_offset: "unat (a - PGROUNDDOWN a) = unat a mod 4096"
proof -
  have "unat (a - PGROUNDDOWN a) = unat a - unat (PGROUNDDOWN a)"
    by (rule unat_sub) (simp add: word_le_nat_alt unat_PGROUNDDOWN)
  then show ?thesis by (simp add: unat_PGROUNDDOWN minus_div_mult_eq_mod)
qed

text \<open>The number of bytes a copy loop moves in the page of \<open>va\<close>.\<close>

definition chunk :: "uint64 \<Rightarrow> uint64 \<Rightarrow> uint64" where
  "chunk va len =
     (let n = PGSIZE - (va - PGROUNDDOWN va) in if n > len then len else n)"

lemma unat_chunk: "unat (chunk va len) = min (4096 - unat va mod 4096) (unat len)"
proof -
  have "unat (PGSIZE - (va - PGROUNDDOWN va)) = 4096 - unat va mod 4096"
    by (subst unat_sub) (simp_all add: PGSIZE_def word_le_nat_alt unat_page_offset)
  then show ?thesis by (simp add: chunk_def Let_def word_less_nat_alt min_def)
qed

lemma chunk_less: "0 < len \<Longrightarrow> unat (len - chunk va len) < unat len"
  by (subst unat_sub) (auto simp: word_le_nat_alt unat_chunk word_less_nat_alt min_def)

function copyout ::
  "uint64 \<Rightarrow> uint64 \<Rightarrow> uint64 \<Rightarrow> uint64 \<Rightarrow> kmem \<Rightarrow> (int \<times> kmem) result" where
  "copyout pagetable dstva src len s =
     (if 0 < len then
        let va0 = PGROUNDDOWN dstva in
        bnd (walkaddr pagetable va0 s) (\<lambda>pa0.
          if pa0 = 0 then Inr (-1, s)
          else
            bnd (walk pagetable va0 False s) (\<lambda>(pte, s).
              bnd (if load64 (mem s) pte AND PTE_COW \<noteq> 0 then
                     bnd (custom_cow pagetable va0 s) (\<lambda>(_, s).
                     bnd (walkaddr pagetable va0 s) (\<lambda>pa0. Inr (pa0, s)))
                   else Inr (pa0, s)) (\<lambda>(pa0, s).
                let n = chunk dstva len;
                    s = s\<lparr>mem := memmove (mem s) (pa0 + (dstva - va0)) src (unat n)\<rparr> in
                copyout pagetable (va0 + PGSIZE) (src + n) (len - n) s)))
      else Inr (0, s))"
  by pat_completeness auto
termination
  by (relation "measure (\<lambda>(_, _, _, len, _). unat len)") (auto intro!: chunk_less)

function copyin ::
  "uint64 \<Rightarrow> uint64 \<Rightarrow> uint64 \<Rightarrow> uint64 \<Rightarrow> kmem \<Rightarrow> (int \<times> kmem) result" where
  "copyin pagetable dst srcva len s =
     (if 0 < len then
        let va0 = PGROUNDDOWN srcva in
        bnd (walkaddr pagetable va0 s) (\<lambda>pa0.
          if pa0 = 0 then Inr (-1, s)
          else
            let n = chunk srcva len;
                s = s\<lparr>mem := memmove (mem s) dst (pa0 + (srcva - va0)) (unat n)\<rparr> in
            copyin pagetable (dst + n) (va0 + PGSIZE) (len - n) s)
      else Inr (0, s))"
  by pat_completeness auto
termination
  by (relation "measure (\<lambda>(_, _, _, len, _). unat len)") (auto intro!: chunk_less)

text \<open>
  The inner loop of \<open>copyinstr\<close> over at most \<open>n\<close> bytes of one page: whether a NUL was met, the
  destination pointer after the loop, and the memory.
\<close>

primrec copyinstr_page ::
  "nat \<Rightarrow> uint64 \<Rightarrow> uint64 \<Rightarrow> memory \<Rightarrow> bool \<times> uint64 \<times> memory" where
  "copyinstr_page 0 p dst m = (False, dst, m)"
| "copyinstr_page (Suc n) p dst m =
     (if m p = 0 then (True, dst, m(dst := 0))
      else copyinstr_page n (p + 1) (dst + 1) (m(dst := m p)))"

function copyinstr ::
  "uint64 \<Rightarrow> uint64 \<Rightarrow> uint64 \<Rightarrow> uint64 \<Rightarrow> kmem \<Rightarrow> (int \<times> kmem) result" where
  "copyinstr pagetable dst srcva mx s =
     (if 0 < mx then
        let va0 = PGROUNDDOWN srcva in
        bnd (walkaddr pagetable va0 s) (\<lambda>pa0.
          if pa0 = 0 then Inr (-1, s)
          else
            let n = chunk srcva mx;
                (got_null, dst, m) =
                  copyinstr_page (unat n) (pa0 + (srcva - va0)) dst (mem s);
                s = s\<lparr>mem := m\<rparr> in
            if got_null then Inr (0, s)
            else copyinstr pagetable dst (va0 + PGSIZE) (mx - n) s)
      else Inr (-1, s))"
  by pat_completeness auto
termination
  by (relation "measure (\<lambda>(_, _, _, mx, _). unat mx)") (auto intro!: chunk_less)

declare copyout.simps [simp del] copyin.simps [simp del] copyinstr.simps [simp del]

section \<open>The kernel's own page table\<close>

text \<open>
  \<open>proc_mapstacks\<close> of \<^verbatim>\<open>kernel/proc.c\<close> and \<open>kvmmake\<close>; the linker symbols \<^verbatim>\<open>etext\<close> and
  \<^verbatim>\<open>trampoline\<close> are parameters.
\<close>

definition proc_mapstacks :: "uint64 \<Rightarrow> kmem \<Rightarrow> kmem result" where
  "proc_mapstacks kpgtbl s =
     for_each (\<lambda>p s.
       bnd (kalloc s) (\<lambda>(pa, s).
         if pa = 0 then Inl (Panic ''kalloc'')
         else kvmmap kpgtbl (KSTACK (of_nat p)) pa PGSIZE (PTE_R OR PTE_W) s)) [0..<64] s"

definition kvmmake :: "uint64 \<Rightarrow> uint64 \<Rightarrow> kmem \<Rightarrow> (uint64 \<times> kmem) result" where
  "kvmmake etext trampoline s =
     bnd (kalloc s) (\<lambda>(kpgtbl, s).
     bnd (kvmmap kpgtbl 0x10000000 0x10000000 PGSIZE (PTE_R OR PTE_W)
           (s\<lparr>mem := memset (mem s) kpgtbl 0 4096\<rparr>)) (\<lambda>s.
     bnd (kvmmap kpgtbl 0x10001000 0x10001000 PGSIZE (PTE_R OR PTE_W) s) (\<lambda>s.
     bnd (kvmmap kpgtbl 0x0c000000 0x0c000000 0x400000 (PTE_R OR PTE_W) s) (\<lambda>s.
     bnd (kvmmap kpgtbl KERNBASE KERNBASE (etext - KERNBASE) (PTE_R OR PTE_X) s) (\<lambda>s.
     bnd (kvmmap kpgtbl etext etext (PHYSTOP - etext) (PTE_R OR PTE_W) s) (\<lambda>s.
     bnd (kvmmap kpgtbl TRAMPOLINE trampoline PGSIZE (PTE_R OR PTE_X) s) (\<lambda>s.
     bnd (proc_mapstacks kpgtbl s) (\<lambda>s. Inr (kpgtbl, s)))))))))"

end
