(* ===== verification/Pagetable.thy ===== *)
theory Pagetable
  imports Vm
begin

unbundle bit_operations_syntax

text \<open>
  What a page table means. \<open>pt_node\<close> follows the valid entries of a table along a path of
  indices; \<open>leaf\<close> is the entry a virtual address ends at. A table is well formed when different
  paths reach different pages. Under that invariant the operations of \<open>Vm\<close> are updates of the
  abstract map \<open>leaf\<close> from virtual pages to entries.
\<close>

section \<open>Entries\<close>

abbreviation is_index :: "uint64 \<Rightarrow> bool" where
  "is_index i \<equiv> i < 512"

lemma PX_index [simp]: "is_index (PX l va)"
proof -
  have "PX l va = take_bit 9 (drop_bit (12 + 9 * l) va)"
    by (simp add: PX_def take_bit_eq_mask mask_eq_exp_minus_1)
  then have "unat (PX l va) < 2 ^ 9"
    by (simp add: take_bit_eq_mod unat_mod_distrib)
  then show ?thesis by (simp add: word_less_nat_alt)
qed

lemma unat_8_mult: "is_index i \<Longrightarrow> unat (8 * i) = 8 * unat i"
  by (simp add: word_less_nat_alt unat_word_ariths)

lemma entry_in_page [page_simps]:
  "page_aligned q \<Longrightarrow> is_index i \<Longrightarrow> PGROUNDDOWN (q + 8 * i) = q"
  by (rule PGROUNDDOWN_add) (auto simp: unat_8_mult word_less_nat_alt)

lemma entry_aligned:
  assumes "page_aligned q" "is_index i"
  shows "aligned8 (q + 8 * i)"
proof -
  have "unat (q + 8 * i) = unat q + 8 * unat i"
    by (subst unat_add_offset[OF assms(1)]) (use assms(2) in \<open>auto simp: unat_8_mult word_less_nat_alt\<close>)
  moreover have "8 dvd unat q" by (rule aligned8_page[OF assms(1)])
  ultimately show ?thesis by simp
qed

lemma entry_inj:
  assumes "page_aligned q" "is_index i" "is_index j" "q + 8 * i = q + 8 * j"
  shows "i = j"
proof -
  have "unat (8 * i) = unat (8 * j)" using assms(4) by simp
  then show ?thesis using assms(2,3) by (simp add: unat_8_mult word_unat_eq_iff)
qed

lemma flags_bits:
  assumes "(f :: uint64) < 1024" "10 \<le> k"
  shows "\<not> bit f k"
proof -
  have "unat (take_bit 10 f) = unat f"
    using assms(1) by (simp add: take_bit_eq_mod unat_mod_distrib word_less_nat_alt)
  then have "take_bit 10 f = f" by (simp only: word_unat_eq_iff)
  then show ?thesis using assms(2) by (metis bit_take_bit_iff not_le)
qed

lemma PTE2PA_PA2PTE [page_simps]:
  assumes "page_aligned r" "f < 1024"
  shows "PTE2PA (PA2PTE r OR f) = r"
proof (rule bit_word_eqI)
  fix n assume n: "n < LENGTH(64)"
  have "bit r n \<longleftrightarrow> bit (PGROUNDDOWN r) n" using assms(1) by simp
  then have "bit r n \<longrightarrow> 12 \<le> n" using n by (auto simp: PGROUNDDOWN_eq bit_simps)
  then show "bit (PTE2PA (PA2PTE r OR f)) n = bit r n"
    using n flags_bits[OF assms(2), of "n - 2"] by (auto simp: PTE2PA_def PA2PTE_def bit_simps)
qed

lemma PTE_FLAGS_eq: "PTE_FLAGS x = take_bit 10 x"
  by (simp add: PTE_FLAGS_def take_bit_eq_mask mask_eq_exp_minus_1)

lemma PTE_FLAGS_less [simp]: "PTE_FLAGS x < 1024"
  by (simp add: PTE_FLAGS_eq take_bit_eq_mod word_less_nat_alt unat_mod_distrib)

lemma PTE_FLAGS_PA2PTE [page_simps]:
  assumes "f < 1024"
  shows "PTE_FLAGS (PA2PTE r OR f) = f"
  by (rule bit_word_eqI)
    (use flags_bits[OF assms] in \<open>auto simp: PTE_FLAGS_eq PA2PTE_def bit_simps not_le\<close>)

lemma PTE_V_bit: "x AND PTE_V = 0 \<longleftrightarrow> \<not> bit x 0"
  using and_exp_eq_0_iff_not_bit[of x 0] by (simp add: PTE_V_def)

lemma PTE_U_bit: "x AND PTE_U = 0 \<longleftrightarrow> \<not> bit x 4"
  using and_exp_eq_0_iff_not_bit[of x 4] by (simp add: PTE_U_def)

lemma PTE_W_bit: "x AND PTE_W = 0 \<longleftrightarrow> \<not> bit x 2"
  using and_exp_eq_0_iff_not_bit[of x 2] by (simp add: PTE_W_def)

lemma PTE_COW_bit: "x AND PTE_COW = 0 \<longleftrightarrow> \<not> bit x 5"
  using and_exp_eq_0_iff_not_bit[of x 5] by (simp add: PTE_COW_def)

lemmas PTE_bits = PTE_V_bit PTE_U_bit PTE_W_bit PTE_COW_bit

lemma PTE_exp: "PTE_V = 2 ^ 0" "PTE_R = 2 ^ 1" "PTE_W = 2 ^ 2" "PTE_X = 2 ^ 3" "PTE_U = 2 ^ 4"
    "PTE_COW = 2 ^ 5"
  by (simp_all add: PTE_V_def PTE_R_def PTE_W_def PTE_X_def PTE_U_def PTE_COW_def)

lemma bit_PTE [simp]:
  "bit PTE_V k \<longleftrightarrow> k = 0" "bit PTE_R k \<longleftrightarrow> k = 1" "bit PTE_W k \<longleftrightarrow> k = 2"
  "bit PTE_X k \<longleftrightarrow> k = 3" "bit PTE_U k \<longleftrightarrow> k = 4" "bit PTE_COW k \<longleftrightarrow> k = 5"
  unfolding PTE_exp bit_exp_iff by auto

lemma PTE_V_less [simp]: "PTE_V < 1024" "PTE_V \<noteq> 0"
  by (simp_all add: PTE_V_def)

lemma bit_PA2PTE_flag: "k < 10 \<Longrightarrow> bit (PA2PTE r OR f) k \<longleftrightarrow> bit f k"
  by (simp add: PA2PTE_def bit_simps)

lemma bit_flags: "bit (PTE_FLAGS x) k \<longleftrightarrow> k < 10 \<and> bit x k"
  by (simp add: PTE_FLAGS_eq bit_simps)

section \<open>Paths through a table\<close>

primrec pt_node :: "memory \<Rightarrow> uint64 \<Rightarrow> uint64 list \<Rightarrow> uint64 option" where
  "pt_node m q [] = Some q"
| "pt_node m q (i # is) =
     (let e = load64 m (q + 8 * i) in
      if e AND PTE_V \<noteq> 0 then pt_node m (PTE2PA e) is else None)"

definition va_path :: "uint64 \<Rightarrow> uint64 list" where
  "va_path va = [PX 2 va, PX 1 va]"

definition slot :: "memory \<Rightarrow> uint64 \<Rightarrow> uint64 \<Rightarrow> uint64 option" where
  "slot m pt va = map_option (\<lambda>q. q + 8 * PX 0 va) (pt_node m pt (va_path va))"

definition leaf :: "memory \<Rightarrow> uint64 \<Rightarrow> uint64 \<Rightarrow> uint64" where
  "leaf m pt va = (case slot m pt va of None \<Rightarrow> 0 | Some a \<Rightarrow> load64 m a)"

definition is_path :: "uint64 list \<Rightarrow> bool" where
  "is_path p \<longleftrightarrow> length p \<le> 2 \<and> (\<forall>i \<in> set p. is_index i)"

definition pt_pages :: "memory \<Rightarrow> uint64 \<Rightarrow> uint64 set" where
  "pt_pages m pt = {q. \<exists>p. is_path p \<and> pt_node m pt p = Some q}"

definition pt_wf :: "memory \<Rightarrow> uint64 \<Rightarrow> bool" where
  "pt_wf m pt \<longleftrightarrow> (\<forall>q \<in> pt_pages m pt. valid_page q)
     \<and> (\<forall>p p' q. is_path p \<longrightarrow> is_path p' \<longrightarrow> pt_node m pt p = Some q \<longrightarrow> pt_node m pt p' = Some q
          \<longrightarrow> p = p')"

lemma va_path_is_path [simp]: "is_path (va_path va)"
  by (simp add: is_path_def va_path_def)

lemma pt_node_append:
  "pt_node m q (p @ p') = Option.bind (pt_node m q p) (\<lambda>r. pt_node m r p')"
  by (induction p arbitrary: q) (simp_all add: Let_def)

lemma pt_node_snoc:
  "pt_node m q (p @ [i]) =
     (case pt_node m q p of None \<Rightarrow> None
      | Some r \<Rightarrow> if load64 m (r + 8 * i) AND PTE_V \<noteq> 0 then Some (PTE2PA (load64 m (r + 8 * i)))
                  else None)"
  by (simp add: pt_node_append Let_def split: option.splits)

lemma is_path_snoc: "is_path (p @ [i]) \<longleftrightarrow> length p \<le> 1 \<and> is_path p \<and> is_index i"
  by (auto simp: is_path_def)

lemma pt_wfD:
  assumes "pt_wf m pt"
  shows "is_path p \<Longrightarrow> pt_node m pt p = Some q \<Longrightarrow> valid_page q"
    "is_path p \<Longrightarrow> is_path p' \<Longrightarrow> pt_node m pt p = Some q \<Longrightarrow> pt_node m pt p' = Some q \<Longrightarrow> p = p'"
  using assms by (auto simp: pt_wf_def pt_pages_def)

text \<open>The walk of the source computes this lookup when it may not allocate.\<close>

lemma walk_lookup:
  assumes "va < MAXVA"
  shows "walk pt va False s = Inr (case slot (mem s) pt va of None \<Rightarrow> 0 | Some a \<Rightarrow> a, s)"
  using assms
  by (simp add: walk_def slot_def va_path_def Let_def not_le[symmetric] numeral_2_eq_2)

section \<open>Writes that leave a table alone\<close>

lemma load64_entry_cong:
  assumes "page_aligned r" "is_index i" "\<And>x. PGROUNDDOWN x = r \<Longrightarrow> m' x = m x"
  shows "load64 m' (r + 8 * i) = load64 m (r + 8 * i)"
  by (rule load64_page_cong) (use assms in \<open>auto simp: entry_aligned entry_in_page\<close>)

lemma pt_node_frame:
  assumes wf: "pt_wf m pt" and frame: "\<And>x. PGROUNDDOWN x \<in> pt_pages m pt \<Longrightarrow> m' x = m x"
    and "is_path p"
  shows "pt_node m' pt p = pt_node m pt p"
  using assms(3)
proof (induction p rule: rev_induct)
  case (snoc i p)
  have p: "is_path p" "is_index i" using snoc.prems by (auto simp: is_path_snoc)
  show ?case
  proof (cases "pt_node m pt p")
    case None
    with snoc.IH p show ?thesis by (simp add: pt_node_snoc)
  next
    case (Some r)
    then have "page_aligned r" "r \<in> pt_pages m pt"
      using pt_wfD(1)[OF wf p(1)] p(1) by (auto simp: pt_pages_def)
    then have "load64 m' (r + 8 * i) = load64 m (r + 8 * i)"
      using load64_entry_cong p(2) frame by blast
    with snoc.IH p Some show ?thesis by (simp add: pt_node_snoc)
  qed
qed simp

lemma slot_frame:
  assumes "pt_wf m pt" "\<And>x. PGROUNDDOWN x \<in> pt_pages m pt \<Longrightarrow> m' x = m x"
  shows "slot m' pt va = slot m pt va"
  using pt_node_frame[OF assms va_path_is_path] by (simp add: slot_def)

lemma slot_SomeD:
  assumes "pt_wf m pt" "slot m pt va = Some a"
  obtains q where "pt_node m pt (va_path va) = Some q" "a = q + 8 * PX 0 va" "valid_page q"
    "aligned8 a" "PGROUNDDOWN a = q" "q \<in> pt_pages m pt"
proof -
  obtain q where q: "pt_node m pt (va_path va) = Some q" "a = q + 8 * PX 0 va"
    using assms(2) by (auto simp: slot_def)
  then have "valid_page q" "q \<in> pt_pages m pt"
    using pt_wfD(1)[OF assms(1) va_path_is_path] va_path_is_path unfolding pt_pages_def by blast+
  with q that show ?thesis
    by (simp add: entry_aligned entry_in_page)
qed

lemma slot_nonzero: "pt_wf m pt \<Longrightarrow> slot m pt va = Some a \<Longrightarrow> a \<noteq> 0"
  by (erule (1) slot_SomeD) (auto simp: valid_page_def PGROUNDDOWN_def)

lemma leaf_frame:
  assumes "pt_wf m pt" "\<And>x. PGROUNDDOWN x \<in> pt_pages m pt \<Longrightarrow> m' x = m x"
  shows "leaf m' pt va = leaf m pt va"
proof (cases "slot m pt va")
  case None
  with slot_frame[OF assms, of va] show ?thesis by (simp add: leaf_def)
next
  case (Some a)
  then have "load64 m' a = load64 m a"
    by (rule slot_SomeD[OF assms(1)]) (auto intro!: load64_page_cong assms(2))
  with slot_frame[OF assms, of va] Some show ?thesis by (simp add: leaf_def)
qed

lemma pt_wf_cong:
  assumes "\<And>p. is_path p \<Longrightarrow> pt_node m' pt p = pt_node m pt p"
  shows "pt_pages m' pt = pt_pages m pt" "pt_wf m' pt = pt_wf m pt"
proof -
  show eq: "pt_pages m' pt = pt_pages m pt" using assms by (auto simp: pt_pages_def)
  show "pt_wf m' pt = pt_wf m pt" unfolding pt_wf_def eq using assms by auto
qed

lemma pt_frame:
  assumes "pt_wf m pt" "\<And>x. PGROUNDDOWN x \<in> pt_pages m pt \<Longrightarrow> m' x = m x"
  shows "pt_pages m' pt = pt_pages m pt" "pt_wf m' pt"
  using pt_wf_cong[OF pt_node_frame[OF assms]] assms(1) by auto

section \<open>Writing a leaf entry\<close>

lemma pt_node_store_leaf:
  assumes wf: "pt_wf m pt" and sl: "slot m pt va = Some a" and "is_path p"
  shows "pt_node (store64 m a v) pt p = pt_node m pt p"
  using assms(3)
proof (induction p rule: rev_induct)
  case (snoc i p)
  obtain q where q: "pt_node m pt (va_path va) = Some q" "aligned8 a" "PGROUNDDOWN a = q"
    using slot_SomeD[OF wf sl] by metis
  have p: "is_path p" "is_index i" "length p \<le> 1" using snoc.prems by (auto simp: is_path_snoc)
  show ?case
  proof (cases "pt_node m pt p")
    case None
    with snoc.IH p show ?thesis by (simp add: pt_node_snoc)
  next
    case (Some r)
    have "r \<noteq> q"
      using pt_wfD(2)[OF wf p(1) va_path_is_path, of r va] Some q(1) p(3) by (auto simp: va_path_def)
    then have "load64 (store64 m a v) (r + 8 * i) = load64 m (r + 8 * i)"
      using pt_wfD(1)[OF wf p(1) Some] p(2) q(2,3)
      by (intro load64_entry_cong) (auto simp: mem_simps)
    with snoc.IH p Some show ?thesis by (simp add: pt_node_snoc)
  qed
qed simp

text \<open>Two addresses share a leaf entry exactly when they lie in the same page.\<close>

definition same_page :: "uint64 \<Rightarrow> uint64 \<Rightarrow> bool" where
  "same_page va va' \<longleftrightarrow> PX 2 va = PX 2 va' \<and> PX 1 va = PX 1 va' \<and> PX 0 va = PX 0 va'"

lemma slot_inj:
  assumes wf: "pt_wf m pt" and "slot m pt va = Some a" "slot m pt va' = Some a"
  shows "same_page va va'"
proof -
  obtain q where q: "pt_node m pt (va_path va) = Some q" "a = q + 8 * PX 0 va" "valid_page q"
    "PGROUNDDOWN a = q"
    using slot_SomeD[OF wf assms(2)] by metis
  obtain q' where q': "pt_node m pt (va_path va') = Some q'" "a = q' + 8 * PX 0 va'"
    "PGROUNDDOWN a = q'"
    using slot_SomeD[OF wf assms(3)] by metis
  have "q' = q" using q(4) q'(3) by simp
  then have "va_path va = va_path va'"
    using pt_wfD(2)[OF wf va_path_is_path va_path_is_path] q(1) q'(1) by blast
  moreover have "PX 0 va = PX 0 va'"
    using entry_inj[of q "PX 0 va" "PX 0 va'"] q(2,3) q'(2) \<open>q' = q\<close> by simp
  ultimately show ?thesis by (simp add: same_page_def va_path_def)
qed

lemma same_page_slot: "same_page va va' \<Longrightarrow> slot m pt va' = slot m pt va"
  by (simp add: same_page_def slot_def va_path_def)

lemma leaf_store_leaf:
  assumes wf: "pt_wf m pt" and sl: "slot m pt va = Some a"
  shows "leaf (store64 m a v) pt va' = (if same_page va va' then v else leaf m pt va')"
proof -
  have eq: "slot (store64 m a v) pt va' = slot m pt va'"
    by (simp add: slot_def pt_node_store_leaf[OF wf sl])
  show ?thesis
  proof (cases "same_page va va'")
    case True
    then have "slot m pt va' = Some a" using sl same_page_slot by simp
    with True eq show ?thesis by (simp add: leaf_def)
  next
    case False
    have "load64 (store64 m a v) b = load64 m b" if b: "slot m pt va' = Some b" for b
    proof (rule load64_store64_other)
      show "aligned8 b" by (rule slot_SomeD[OF wf b])
      show "aligned8 a" by (rule slot_SomeD[OF wf sl])
      show "b \<noteq> a" using slot_inj[OF wf sl] b False by auto
    qed
    with False eq show ?thesis by (simp add: leaf_def split: option.splits)
  qed
qed

lemma pt_store_leaf:
  assumes "pt_wf m pt" "slot m pt va = Some a"
  shows "pt_pages (store64 m a v) pt = pt_pages m pt" "pt_wf (store64 m a v) pt"
  using pt_wf_cong[OF pt_node_store_leaf[OF assms]] assms(1) by auto

section \<open>Adding a page-table page\<close>

lemma load64_zero:
  assumes "page_aligned r" "is_index j" "\<And>x. PGROUNDDOWN x = r \<Longrightarrow> m x = 0"
  shows "load64 m (r + 8 * j) = 0"
proof -
  have "load64 m (r + 8 * j) = load64 (\<lambda>_. 0) (r + 8 * j)"
    by (rule load64_entry_cong) (use assms in auto)
  then show ?thesis by (simp add: load64_def)
qed

text \<open>
  The page \<open>r\<close> is zero and not part of the table, and the entry \<open>i\<close> of the node at path \<open>p\<close> is
  made to point to it: exactly the path \<open>p @ [i]\<close> becomes defined.
\<close>

lemma pt_node_new_node:
  assumes wf: "pt_wf m pt" and p: "is_path (p @ [i])" and node: "pt_node m pt p = Some q"
    and inval: "load64 m (q + 8 * i) AND PTE_V = 0"
    and r: "page_aligned r" "r \<notin> pt_pages m pt" and zero: "\<And>x. PGROUNDDOWN x = r \<Longrightarrow> m1 x = 0"
    and frame: "\<And>x. PGROUNDDOWN x \<noteq> r \<Longrightarrow> m1 x = m x"
    and m': "m' = store64 m1 (q + 8 * i) (PA2PTE r OR PTE_V)" and "is_path p'"
  shows "pt_node m' pt p' = (if p' = p @ [i] then Some r else pt_node m pt p')"
  using assms(10)
proof (induction p' rule: rev_induct)
  case (snoc j p')
  have pp: "is_path p" "is_index i" "length p \<le> 1" using p by (auto simp: is_path_snoc)
  have pj: "is_path p'" "is_index j" "length p' \<le> 1" using snoc.prems by (auto simp: is_path_snoc)
  have q: "page_aligned q" "q \<noteq> r" "q \<in> pt_pages m pt"
    using pt_wfD(1)[OF wf pp(1) node] node pp(1) r(2) by (auto simp: pt_pages_def)
  have a: "aligned8 (q + 8 * i)" "PGROUNDDOWN (q + 8 * i) = q"
    using q(1) pp(2) by (simp_all add: entry_aligned entry_in_page)
  have new: "load64 m' (q + 8 * i) = PA2PTE r OR PTE_V"
    by (simp add: m')
  show ?case
  proof (cases "p' = p @ [i]")
    case True
    then have some: "pt_node m' pt p' = Some r" using snoc.IH pj by simp
    have "load64 m' (r + 8 * j) = 0"
      by (rule load64_zero) (use r(1) pj(2) zero q(2) a in \<open>auto simp: m' mem_simps\<close>)
    then have "pt_node m' pt (p' @ [j]) = None"
      using some by (simp add: pt_node_snoc[of m' pt p'])
    moreover have "pt_node m pt (p' @ [j]) = None"
      using True node inval by (simp add: pt_node_append)
    moreover have "p' @ [j] \<noteq> p @ [i]" using True by simp
    ultimately show ?thesis by simp
  next
    case False
    then have IH: "pt_node m' pt p' = pt_node m pt p'" using snoc.IH pj by simp
    show ?thesis
    proof (cases "pt_node m pt p'")
      case None
      with IH have "p' \<noteq> p" using node by auto
      with IH None show ?thesis by (simp add: pt_node_snoc)
    next
      case (Some t)
      have t: "page_aligned t" "t \<noteq> r"
        using pt_wfD(1)[OF wf pj(1) Some] Some pj(1) r(2) by (auto simp: pt_pages_def)
      show ?thesis
      proof (cases "p' @ [j] = p @ [i]")
        case True
        then have "t = q" "j = i" using Some node by auto
        moreover have "PTE2PA (PA2PTE r OR PTE_V) = r" "(PA2PTE r OR PTE_V) AND PTE_V \<noteq> 0"
          using r(1) by (simp_all add: PTE2PA_PA2PTE PTE_V_bit bit_PA2PTE_flag)
        ultimately show ?thesis using True IH Some new by (simp add: pt_node_snoc)
      next
        case ne: False
        have "load64 m' (t + 8 * j) = load64 m1 (t + 8 * j)"
          unfolding m'
        proof (rule load64_store64_other[OF _ a(1)])
          show "aligned8 (t + 8 * j)" using t(1) pj(2) by (rule entry_aligned)
          show "t + 8 * j \<noteq> q + 8 * i"
          proof
            assume eq: "t + 8 * j = q + 8 * i"
            then have "t = q" using a(2) entry_in_page[OF t(1) pj(2)] by simp
            moreover from this have "p' = p"
              using pt_wfD(2)[OF wf pj(1) pp(1)] Some node by simp
            ultimately show False using ne entry_inj[OF q(1) pj(2) pp(2)] eq by simp
          qed
        qed
        also have "\<dots> = load64 m (t + 8 * j)"
          by (rule load64_entry_cong) (use t pj(2) frame in auto)
        finally show ?thesis using ne IH Some by (auto simp: pt_node_snoc)
      qed
    qed
  qed
qed simp

section \<open>Growing a table\<close>

text \<open>
  \<open>pt_step pt s ps s' ps'\<close>: from a state whose free pages are \<open>ps\<close> to one whose free pages are
  \<open>ps'\<close>, the table \<open>pt\<close> has at most gained interior pages taken from the free list. Its meaning
  \<open>leaf\<close> is unchanged, and so is every byte outside its pages and the free pages.
\<close>

definition pt_state :: "uint64 \<Rightarrow> kmem \<Rightarrow> uint64 list \<Rightarrow> bool" where
  "pt_state pt s ps \<longleftrightarrow>
     kmem_inv s ps \<and> pt_wf (mem s) pt \<and> pt_pages (mem s) pt \<inter> set ps = {}"

definition pt_step :: "uint64 \<Rightarrow> kmem \<Rightarrow> uint64 list \<Rightarrow> kmem \<Rightarrow> uint64 list \<Rightarrow> bool" where
  "pt_step pt s ps s' ps' \<longleftrightarrow>
     pt_state pt s' ps' \<and> set ps' \<subseteq> set ps
     \<and> pt_pages (mem s) pt \<subseteq> pt_pages (mem s') pt
     \<and> pt_pages (mem s') pt \<subseteq> pt_pages (mem s) pt \<union> (set ps - set ps')
     \<and> (\<forall>p q. is_path p \<longrightarrow> pt_node (mem s) pt p = Some q \<longrightarrow> pt_node (mem s') pt p = Some q)
     \<and> (\<forall>va. leaf (mem s') pt va = leaf (mem s) pt va)
     \<and> (\<forall>x. PGROUNDDOWN x \<notin> pt_pages (mem s) pt \<union> set ps \<longrightarrow> mem s' x = mem s x)
     \<and> (\<forall>q. valid_page q \<longrightarrow> q \<notin> set ps \<longrightarrow> temp s' (q div PGSIZE) = temp s (q div PGSIZE))
     \<and> (\<forall>q \<in> set ps - set ps'. temp s' (q div PGSIZE) = 1)"

lemma pt_step_refl: "pt_state pt s ps \<Longrightarrow> pt_step pt s ps s ps"
  by (simp add: pt_step_def)

lemma pt_stepD:
  assumes "pt_step pt s ps s' ps'"
  shows "pt_state pt s' ps'" "set ps' \<subseteq> set ps" "pt_pages (mem s) pt \<subseteq> pt_pages (mem s') pt"
    "q \<in> pt_pages (mem s') pt \<Longrightarrow> q \<in> pt_pages (mem s) pt \<union> (set ps - set ps')"
    "is_path p \<Longrightarrow> pt_node (mem s) pt p = Some q \<Longrightarrow> pt_node (mem s') pt p = Some q"
    "leaf (mem s') pt va = leaf (mem s) pt va"
    "PGROUNDDOWN x \<notin> pt_pages (mem s) pt \<Longrightarrow> PGROUNDDOWN x \<notin> set ps \<Longrightarrow> mem s' x = mem s x"
    "valid_page q \<Longrightarrow> q \<notin> set ps \<Longrightarrow> temp s' (q div PGSIZE) = temp s (q div PGSIZE)"
    "q \<in> set ps \<Longrightarrow> q \<notin> set ps' \<Longrightarrow> temp s' (q div PGSIZE) = 1"
  using assms by (auto simp: pt_step_def)

lemma pt_step_trans:
  assumes 1: "pt_step pt s ps s' ps'" and 2: "pt_step pt s' ps' s'' ps''" and st: "pt_state pt s ps"
  shows "pt_step pt s ps s'' ps''"
  unfolding pt_step_def
proof (intro conjI allI impI ballI subsetI)
  show "pt_state pt s'' ps''" by (rule pt_stepD(1)[OF 2])
next
  fix x assume "x \<in> set ps''"
  then show "x \<in> set ps" using pt_stepD(2)[OF 1] pt_stepD(2)[OF 2] by blast
next
  fix x assume "x \<in> pt_pages (mem s) pt"
  then show "x \<in> pt_pages (mem s'') pt" using pt_stepD(3)[OF 1] pt_stepD(3)[OF 2] by blast
next
  fix x assume "x \<in> pt_pages (mem s'') pt"
  then show "x \<in> pt_pages (mem s) pt \<union> (set ps - set ps'')"
    using pt_stepD(4)[OF 2, of x] pt_stepD(4)[OF 1, of x] pt_stepD(2)[OF 1] pt_stepD(2)[OF 2] by blast
next
  fix p q assume "is_path p" "pt_node (mem s) pt p = Some q"
  then show "pt_node (mem s'') pt p = Some q" using pt_stepD(5)[OF 1] pt_stepD(5)[OF 2] by blast
next
  fix va show "leaf (mem s'') pt va = leaf (mem s) pt va"
    by (simp add: pt_stepD(6)[OF 1] pt_stepD(6)[OF 2])
next
  fix x assume x: "PGROUNDDOWN x \<notin> pt_pages (mem s) pt \<union> set ps"
  then have "PGROUNDDOWN x \<notin> pt_pages (mem s') pt" "PGROUNDDOWN x \<notin> set ps'"
    using pt_stepD(4)[OF 1] pt_stepD(2)[OF 1] by blast+
  then show "mem s'' x = mem s x" using x pt_stepD(7)[OF 1] pt_stepD(7)[OF 2] by simp
next
  fix q assume q: "valid_page q" "q \<notin> set ps"
  then have "q \<notin> set ps'" using pt_stepD(2)[OF 1] by blast
  with q show "temp s'' (q div PGSIZE) = temp s (q div PGSIZE)"
    using pt_stepD(8)[OF 1, of q] pt_stepD(8)[OF 2, of q] by simp
next
  fix q assume q: "q \<in> set ps - set ps''"
  then have "valid_page q" using st by (auto simp: pt_state_def kmem_inv_def)
  with q show "temp s'' (q div PGSIZE) = 1"
    using pt_stepD(8)[OF 2, of q] pt_stepD(9)[OF 1, of q] pt_stepD(9)[OF 2, of q]
    by (cases "q \<in> set ps'") auto
qed

text \<open>One iteration of the loop of \<open>walk\<close> that allocates.\<close>

lemma pt_step_new_node:
  assumes st: "pt_state pt s (r # ps)" and p: "is_path (p @ [i])"
    and node: "pt_node (mem s) pt p = Some q" and inval: "load64 (mem s) (q + 8 * i) AND PTE_V = 0"
    and k: "kalloc s = Inr (r', s1)"
    and s2: "s2 = s1\<lparr>mem := store64 (memset (mem s1) r' 0 4096) (q + 8 * i) (PA2PTE r' OR PTE_V)\<rparr>"
  shows "r' = r" "r \<noteq> 0" "pt_step pt s (r # ps) s2 ps" "pt_node (mem s2) pt (p @ [i]) = Some r"
proof -
  have inv: "kmem_inv s (r # ps)" and wf: "pt_wf (mem s) pt" and dis: "r \<notin> pt_pages (mem s) pt"
    and dis': "pt_pages (mem s) pt \<inter> set ps = {}"
    using st by (auto simp: pt_state_def)
  have vr: "valid_page r" "r \<noteq> 0" and nin: "r \<notin> set ps"
    using inv by (auto simp: kmem_inv_def valid_page_def)
  note ka = kalloc_inv[OF inv k]
  show "r' = r" using ka by simp
  show "r \<noteq> 0" by (rule vr(2))
  have pp: "is_path p" "is_index i" using p by (auto simp: is_path_snoc)
  have q: "page_aligned q" "q \<in> pt_pages (mem s) pt" "q \<noteq> r"
    using pt_wfD(1)[OF wf pp(1) node] node pp(1) dis by (auto simp: pt_pages_def)
  have a: "aligned8 (q + 8 * i)" "PGROUNDDOWN (q + 8 * i) = q"
    using q(1) pp(2) by (simp_all add: entry_aligned entry_in_page)
  define m1 where "m1 = memset (mem s1) r 0 4096"
  have m1: "m1 x = (if PGROUNDDOWN x = r then 0 else mem s x)" for x
    using ka vr(1) by (simp add: m1_def mem_simps)
  have m2: "mem s2 = store64 m1 (q + 8 * i) (PA2PTE r OR PTE_V)"
    using ka by (simp add: s2 m1_def)
  have nodes: "pt_node (mem s2) pt p' = (if p' = p @ [i] then Some r else pt_node (mem s) pt p')"
    if "is_path p'" for p'
    by (rule pt_node_new_node[OF wf p node inval _ dis _ _ m2 that]) (use vr(1) m1 in auto)
  show "pt_node (mem s2) pt (p @ [i]) = Some r" using nodes[OF p] by simp
  have old: "pt_node (mem s) pt (p @ [i]) = None"
    using node inval by (simp add: pt_node_snoc)
  have pages: "pt_pages (mem s2) pt = insert r (pt_pages (mem s) pt)"
  proof (rule set_eqI)
    fix t show "t \<in> pt_pages (mem s2) pt \<longleftrightarrow> t \<in> insert r (pt_pages (mem s) pt)"
      using nodes p old by (auto simp: pt_pages_def split: if_splits) (metis option.distinct(1))
  qed
  have "pt_wf (mem s2) pt"
    unfolding pt_wf_def
  proof (intro conjI ballI allI impI)
    fix t assume "t \<in> pt_pages (mem s2) pt"
    then show "valid_page t" using pages wf vr(1) by (auto simp: pt_wf_def)
  next
    fix p1 p2 t
    assume 1: "is_path p1" "is_path p2" and "pt_node (mem s2) pt p1 = Some t"
      "pt_node (mem s2) pt p2 = Some t"
    then have "(if p1 = p @ [i] then Some r else pt_node (mem s) pt p1) = Some t"
      "(if p2 = p @ [i] then Some r else pt_node (mem s) pt p2) = Some t"
      using nodes by auto
    then show "p1 = p2"
      using 1 dis pt_wfD(2)[OF wf 1, of t] by (auto simp: pt_pages_def split: if_splits)
  qed
  moreover have frame: "mem s2 x = mem s x" if "PGROUNDDOWN x \<noteq> q" "PGROUNDDOWN x \<noteq> r" for x
    using that a by (simp add: m2 mem_simps m1)
  moreover have inv2: "kmem_inv s2 ps"
  proof (rule kmem_inv_frame[of s1])
    fix x assume x: "PGROUNDDOWN x \<in> set ps"
    then have "PGROUNDDOWN x \<noteq> q" "PGROUNDDOWN x \<noteq> r" using q(2) dis' nin by auto
    then show "mem s2 x = mem s1 x" using frame ka by simp
  qed (use ka s2 in auto)
  moreover have "leaf (mem s2) pt va = leaf (mem s) pt va" for va
  proof (cases "va_path va = p @ [i]")
    case True
    have "load64 (mem s2) (r + 8 * PX 0 va) = 0"
      by (rule load64_zero) (use vr(1) q(3) a m1 in \<open>auto simp: m2 mem_simps\<close>)
    then show ?thesis
      using True nodes[OF va_path_is_path, of va] old by (simp add: leaf_def slot_def)
  next
    case False
    then have eq: "slot (mem s2) pt va = slot (mem s) pt va"
      using nodes[OF va_path_is_path] by (simp add: slot_def)
    have "load64 (mem s2) b = load64 (mem s) b" if b: "slot (mem s) pt va = Some b" for b
    proof -
      obtain t where t: "pt_node (mem s) pt (va_path va) = Some t" "aligned8 b" "PGROUNDDOWN b = t"
        "t \<in> pt_pages (mem s) pt"
        using slot_SomeD[OF wf b] by metis
      have "t \<noteq> r" using t(4) dis by auto
      moreover have "t \<noteq> q"
      proof
        assume "t = q"
        then have "va_path va = p" using pt_wfD(2)[OF wf va_path_is_path pp(1)] t(1) node by blast
        then show False using p by (auto simp: is_path_snoc va_path_def)
      qed
      ultimately show ?thesis
        using t(2,3) frame by (intro load64_page_cong) auto
    qed
    then show ?thesis using eq by (simp add: leaf_def split: option.splits)
  qed
  moreover have "temp s2 = (temp s)(r div PGSIZE := 1)" using ka by (simp add: s2)
  moreover have "mem s2 x = mem s x" if "PGROUNDDOWN x \<notin> pt_pages (mem s) pt" "PGROUNDDOWN x \<noteq> r" for x
    by (rule frame) (use that q(2) in auto)
  ultimately show "pt_step pt s (r # ps) s2 ps"
    unfolding pt_step_def pt_state_def pages
    using dis' nin nodes old q(2) valid_page_neq[OF vr(1)] by auto
qed

text \<open>Any run of the loop of \<open>walk\<close> that may allocate, from any node of the table down.\<close>

lemma entry_nonzero: "valid_page q \<Longrightarrow> is_index i \<Longrightarrow> q + 8 * i \<noteq> 0"
  using entry_in_page[of q i] by (auto simp: valid_page_def PGROUNDDOWN_def)

lemma walk_level_alloc:
  assumes "pt_state pt s ps" "is_path p" "pt_node (mem s) pt p = Some q" "length p + l = 2"
  shows "\<exists>pte s' ps'. walk_level l q va True s = Inr (pte, s') \<and> pt_step pt s ps s' ps'
    \<and> (pte \<noteq> 0 \<longrightarrow> (\<exists>q'. pt_node (mem s') pt (p @ map (\<lambda>k. PX k va) (rev [1..<Suc l])) = Some q'
          \<and> pte = q' + 8 * PX 0 va))
    \<and> (pte = 0 \<longrightarrow> ps' = []) \<and> length ps \<le> length ps' + l"
  using assms
proof (induction l arbitrary: p q s ps)
  case 0
  have "valid_page q" using pt_wfD(1) 0 by (auto simp: pt_state_def)
  then have "q + 8 * PX 0 va \<noteq> 0" by (simp add: entry_nonzero)
  with 0 pt_step_refl show ?case by auto
next
  case (Suc l)
  let ?i = "PX (Suc l) va"
  let ?e = "load64 (mem s) (q + 8 * ?i)"
  have path: "is_path (p @ [?i])" using Suc.prems(2,4) by (simp add: is_path_snoc)
  have upt: "rev [1..<Suc (Suc l)] = Suc l # rev [1..<Suc l]" by simp
  show ?case
  proof (cases "?e AND PTE_V = 0")
    case False
    then have "pt_node (mem s) pt (p @ [?i]) = Some (PTE2PA ?e)"
      using Suc.prems(3) by (simp add: pt_node_snoc)
    from Suc.IH[OF Suc.prems(1) path this] Suc.prems(4) have "\<exists>pte s' ps'. walk_level l (PTE2PA ?e) va True s = Inr (pte, s') \<and> pt_step pt s ps s' ps'
        \<and> (pte \<noteq> 0 \<longrightarrow> (\<exists>q'. pt_node (mem s') pt ((p @ [?i]) @ map (\<lambda>k. PX k va) (rev [1..<Suc l])) = Some q'
              \<and> pte = q' + 8 * PX 0 va))
        \<and> (pte = 0 \<longrightarrow> ps' = []) \<and> length ps \<le> length ps' + l" by simp
    moreover have "walk_level (Suc l) q va True s = walk_level l (PTE2PA ?e) va True s" using False by (simp add: Let_def)
    ultimately show ?thesis unfolding upt by fastforce
  next
    case inval: True
    show ?thesis
    proof (cases ps)
      case Nil
      with Suc.prems(1) have "kalloc s = Inr (0, s)" by (simp add: pt_state_def kalloc_empty)
      with inval Nil pt_step_refl[OF Suc.prems(1)] show ?thesis by (auto simp: Let_def)
    next
      case (Cons r ps1)
      with Suc.prems(1) have st: "pt_state pt s (r # ps1)" by simp
      then obtain s1 where k: "kalloc s = Inr (r, s1)"
        using kalloc_Cons by (auto simp: pt_state_def)
      define s2 where "s2 = s1\<lparr>mem := store64 (memset (mem s1) r 0 4096) (q + 8 * ?i)
        (PA2PTE r OR PTE_V)\<rparr>"
      note new = pt_step_new_node[OF st path Suc.prems(3) inval k s2_def]
      have "\<exists>pte s' ps'. walk_level l r va True s2 = Inr (pte, s') \<and> pt_step pt s2 ps1 s' ps'
        \<and> (pte \<noteq> 0 \<longrightarrow> (\<exists>q'. pt_node (mem s') pt ((p @ [?i]) @ map (\<lambda>k. PX k va) (rev [1..<Suc l])) = Some q'
              \<and> pte = q' + 8 * PX 0 va))
        \<and> (pte = 0 \<longrightarrow> ps' = []) \<and> length ps1 \<le> length ps' + l"
        by (rule Suc.IH[OF pt_stepD(1)[OF new(3)] path new(4)]) (use Suc.prems(4) in simp)
      moreover have "walk_level (Suc l) q va True s = walk_level l r va True s2"
        using inval k new(2) by (simp add: Let_def s2_def)
      ultimately show ?thesis
        using pt_step_trans[OF new(3) _ st] unfolding Cons upt by fastforce
    qed
  qed
qed

text \<open>
  \<open>walk\<close> with allocation never fails: it returns the leaf entry of the address in a table that
  means the same as before, or 0 when no free page is left; it takes at most two pages.
\<close>

lemma walk_alloc:
  assumes "pt_state pt s ps" "va < MAXVA"
  shows "\<exists>pte s' ps'. walk pt va True s = Inr (pte, s') \<and> pt_step pt s ps s' ps'
    \<and> (pte \<noteq> 0 \<longrightarrow> slot (mem s') pt va = Some pte) \<and> (pte = 0 \<longrightarrow> ps' = []) \<and> length ps \<le> length ps' + 2"
proof -
  have "rev [1..<Suc 2] = [2, 1 :: nat]" by (simp add: upt_rec)
  then show ?thesis
    using walk_level_alloc[OF assms(1), of "[]" pt 2 va] assms(2)
    by (auto simp: walk_def not_le[symmetric] is_path_def slot_def va_path_def)
qed

lemma pt_state_root: "pt_state pt s ps \<Longrightarrow> pt \<in> pt_pages (mem s) pt"
  by (auto simp: pt_pages_def is_path_def intro!: exI[of _ "[]"])

section \<open>Virtual pages\<close>

lemma bit_PX: "bit (PX l va) k \<longleftrightarrow> k < 9 \<and> bit va (12 + 9 * l + k)"
proof -
  have "PX l va = take_bit 9 (drop_bit (12 + 9 * l) va)"
    by (simp add: PX_def take_bit_eq_mask mask_eq_exp_minus_1)
  then show ?thesis by (auto simp: bit_simps)
qed

lemma below_MAXVA_bits:
  assumes "va < MAXVA" "38 \<le> n"
  shows "\<not> bit va n"
proof -
  have "unat (take_bit 38 va) = unat va"
    using below_MAXVA[OF assms(1)] by (simp add: take_bit_eq_mod unat_mod_distrib)
  then have "take_bit 38 va = va" by (simp only: word_unat_eq_iff)
  then show ?thesis using assms(2) by (metis bit_take_bit_iff not_le)
qed

lemma same_page_iff:
  assumes "va < MAXVA" "va' < MAXVA"
  shows "same_page va va' \<longleftrightarrow> PGROUNDDOWN va = PGROUNDDOWN va'"
proof
  assume sp: "same_page va va'"
  show "PGROUNDDOWN va = PGROUNDDOWN va'"
  proof (rule bit_word_eqI)
    fix n assume "n < LENGTH(64)"
    have "bit va n = bit va' n" if "12 \<le> n"
    proof -
      consider "n < 21" | "21 \<le> n" "n < 30" | "30 \<le> n" "n < 39" | "39 \<le> n" by linarith
      then show ?thesis
      proof cases
        case 1
        then show ?thesis using sp that bit_PX[of 0 va "n - 12"] bit_PX[of 0 va' "n - 12"]
          by (auto simp: same_page_def)
      next
        case 2
        then show ?thesis using sp bit_PX[of 1 va "n - 21"] bit_PX[of 1 va' "n - 21"]
          by (auto simp: same_page_def)
      next
        case 3
        then show ?thesis using sp bit_PX[of 2 va "n - 30"] bit_PX[of 2 va' "n - 30"]
          by (auto simp: same_page_def)
      next
        case 4
        then show ?thesis using below_MAXVA_bits assms by auto
      qed
    qed
    then show "bit (PGROUNDDOWN va) n = bit (PGROUNDDOWN va') n"
      by (auto simp: PGROUNDDOWN_eq bit_simps)
  qed
next
  assume eq: "PGROUNDDOWN va = PGROUNDDOWN va'"
  have "bit va n = bit va' n" if "12 \<le> n" for n
    using arg_cong[OF eq, of "\<lambda>x. bit x n"] that bit_imp_le_length[of va n] bit_imp_le_length[of va' n]
    by (auto simp: PGROUNDDOWN_eq bit_simps)
  then have "PX l va = PX l va'" for l
    by (intro bit_word_eqI) (simp add: bit_PX)
  then show "same_page va va'" by (simp add: same_page_def)
qed

text \<open>The page-aligned addresses of a range, the iterations of the loops over it.\<close>

definition vpages :: "uint64 \<Rightarrow> uint64 \<Rightarrow> uint64 set" where
  "vpages a e = {v. page_aligned v \<and> a \<le> v \<and> v < e}"

lemma vpages_empty: "e \<le> a \<Longrightarrow> vpages a e = {}"
  by (auto simp: vpages_def)

lemma vpages_step:
  assumes "page_aligned a" "a < e" "e \<le> MAXVA"
  shows "vpages a e = insert a (vpages (a + PGSIZE) e)" "a \<notin> vpages (a + PGSIZE) e"
proof -
  have "unat a < 0x4000000000" using assms(2,3) by (auto simp: word_less_nat_alt word_le_nat_alt MAXVA_num)
  then have nxt: "unat (a + PGSIZE) = unat a + 4096" by (simp add: unat_add_PGSIZE)
  have ge: "unat a + 4096 \<le> unat v" if v: "page_aligned v" "unat a \<le> unat v" "v \<noteq> a" for v
  proof -
    obtain i j where "unat a = 4096 * i" "unat v = 4096 * j"
      using assms(1) v(1) unfolding page_aligned_iff dvd_def by blast
    then show ?thesis using v(2,3) by (auto simp: word_unat_eq_iff)
  qed
  show "vpages a e = insert a (vpages (a + PGSIZE) e)"
  proof (intro set_eqI iffI)
    fix v assume "v \<in> vpages a e"
    then show "v \<in> insert a (vpages (a + PGSIZE) e)"
      using ge[of v] by (auto simp: vpages_def word_le_nat_alt nxt)
  next
    fix v assume "v \<in> insert a (vpages (a + PGSIZE) e)"
    then show "v \<in> vpages a e"
      using assms by (auto simp: vpages_def word_le_nat_alt nxt)
  qed
  show "a \<notin> vpages (a + PGSIZE) e" by (simp add: vpages_def word_le_nat_alt nxt)
qed

lemma vpages_below: "v \<in> vpages a e \<Longrightarrow> e \<le> MAXVA \<Longrightarrow> v < MAXVA \<and> page_aligned v"
  by (auto simp: vpages_def)

section \<open>Mapping one page\<close>

text \<open>
  \<open>pt_grow\<close>: as \<open>pt_step\<close>, for operations that also change entries. Outside the table and the
  free pages nothing changes; the pages taken from the free list have count 1.
\<close>

definition pt_grow :: "uint64 \<Rightarrow> kmem \<Rightarrow> uint64 list \<Rightarrow> kmem \<Rightarrow> uint64 list \<Rightarrow> bool" where
  "pt_grow pt s ps s' ps' \<longleftrightarrow>
     pt_state pt s' ps' \<and> set ps' \<subseteq> set ps
     \<and> pt_pages (mem s') pt \<subseteq> pt_pages (mem s) pt \<union> (set ps - set ps')
     \<and> (\<forall>x. PGROUNDDOWN x \<notin> pt_pages (mem s) pt \<union> set ps \<longrightarrow> mem s' x = mem s x)
     \<and> (\<forall>q. valid_page q \<longrightarrow> q \<notin> set ps \<longrightarrow> temp s' (q div PGSIZE) = temp s (q div PGSIZE))"

lemma pt_state_store_leaf:
  assumes "pt_state pt s ps" "slot (mem s) pt va = Some a"
  shows "pt_state pt (s\<lparr>mem := store64 (mem s) a v\<rparr>) ps"
proof -
  have wf: "pt_wf (mem s) pt" and inv: "kmem_inv s ps" and dis: "pt_pages (mem s) pt \<inter> set ps = {}"
    using assms(1) by (auto simp: pt_state_def)
  obtain q where q: "aligned8 a" "PGROUNDDOWN a = q" "q \<in> pt_pages (mem s) pt"
    using slot_SomeD[OF wf assms(2)] by metis
  have "kmem_inv (s\<lparr>mem := store64 (mem s) a v\<rparr>) ps"
    by (rule kmem_inv_frame[OF inv]) (use q dis in \<open>auto intro!: store64_other_page\<close>)
  then show ?thesis
    using pt_store_leaf[OF wf assms(2)] dis by (simp add: pt_state_def)
qed

lemma mappages_page:
  assumes st: "pt_state pt s ps" and va: "page_aligned va" "va < MAXVA"
    and unmapped: "leaf (mem s) pt va AND PTE_V = 0"
  shows "\<exists>r s' ps'. mappages pt va PGSIZE pa perm s = Inr (r, s') \<and> pt_grow pt s ps s' ps'
    \<and> (r = 0 \<and> (\<forall>v. leaf (mem s') pt v =
             (if same_page va v then PA2PTE pa OR perm OR PTE_V else leaf (mem s) pt v))
       \<or> r = -1 \<and> ps' = [] \<and> (\<forall>v. leaf (mem s') pt v = leaf (mem s) pt v))
    \<and> length ps \<le> length ps' + 2"
proof -
  obtain pte s1 ps1 where w: "walk pt va True s = Inr (pte, s1)" and step: "pt_step pt s ps s1 ps1"
    and sl: "pte \<noteq> 0 \<longrightarrow> slot (mem s1) pt va = Some pte" "pte = 0 \<longrightarrow> ps1 = []" "length ps \<le> length ps1 + 2"
    using walk_alloc[OF st va(2)] by blast
  note D = pt_stepD[OF step]
  have grow: "pt_grow pt s ps s1 ps1"
    using step by (auto simp: pt_step_def pt_grow_def)
  have "PGROUNDDOWN (va + 4095) = va" by (rule PGROUNDDOWN_add[OF va(1)]) simp
  then have lst: "PGROUNDDOWN (va + PGSIZE - 1) = va" by (simp add: PGSIZE_def add.commute)
  have unf: "mappages pt va PGSIZE pa perm s = mappages_loop pt va va pa perm s"
    unfolding mappages_def lst va(1) by (simp add: PGSIZE_def)
  show ?thesis
  proof (cases "pte = 0")
    case True
    have "mappages pt va PGSIZE pa perm s = Inr (-1, s1)"
      unfolding unf by (subst mappages_loop.simps) (simp add: w True)
    with True grow sl(2,3) D(6) show ?thesis by auto
  next
    case False
    define s2 where "s2 = s1\<lparr>mem := store64 (mem s1) pte (PA2PTE pa OR perm OR PTE_V)\<rparr>"
    have slot: "slot (mem s1) pt va = Some pte" using False sl(1) by simp
    then have "load64 (mem s1) pte = leaf (mem s1) pt va" by (simp add: leaf_def)
    then have "load64 (mem s1) pte AND PTE_V = 0" using unmapped D(6) by simp
    then have "mappages pt va PGSIZE pa perm s = Inr (0, s2)"
      unfolding unf by (subst mappages_loop.simps) (simp add: w False s2_def Let_def)
    moreover have wf1: "pt_wf (mem s1) pt" using D(1) by (simp add: pt_state_def)
    have "leaf (mem s2) pt v =
        (if same_page va v then PA2PTE pa OR perm OR PTE_V else leaf (mem s) pt v)" for v
      using leaf_store_leaf[OF wf1 slot] D(6) by (simp add: s2_def)
    moreover have "pt_grow pt s ps s2 ps1"
    proof -
      obtain q where q: "aligned8 pte" "PGROUNDDOWN pte = q" "q \<in> pt_pages (mem s1) pt"
        using slot_SomeD[OF wf1 slot] by metis
      have "mem s2 x = mem s x" if "PGROUNDDOWN x \<notin> pt_pages (mem s) pt \<union> set ps" for x
      proof -
        have "PGROUNDDOWN x \<noteq> q" using q(3) D(4)[of q] that by auto
        then show ?thesis using that q D(7)[of x] by (simp add: s2_def mem_simps)
      qed
      then show ?thesis
        using grow pt_state_store_leaf[OF D(1) slot] pt_store_leaf[OF wf1 slot]
        by (auto simp: pt_grow_def s2_def)
    qed
    ultimately show ?thesis using sl(3) by blast
  qed
qed

section \<open>A new table\<close>

lemma pt_state_new:
  assumes inv: "kmem_inv s (p # ps)" and k: "kalloc s = Inr (p, s1)" and s2: "s2 = s1\<lparr>mem := memset (mem s1) p 0 4096\<rparr>"
  shows "pt_state p s2 ps" "leaf (mem s2) p v = 0"
proof -
  have p: "valid_page p" "p \<notin> set ps" using inv by (auto simp: kmem_inv_def)
  have z: "mem s2 x = (if PGROUNDDOWN x = p then 0 else mem s1 x)" for x using p(1) by (simp add: s2 mem_simps)
  have "kmem_inv s1 ps" using kalloc_inv[OF inv k] by blast
  then have k2: "kmem_inv s2 ps" by (rule kmem_inv_frame) (use p(2) z in \<open>auto simp: s2\<close>)
  have node: "pt_node (mem s2) p (i # is) = None" if "is_index i" for i "is"
    using load64_zero[of p i "mem s2"] z p(1) that by (simp add: PTE_V_def)
  then have none: "pt_node (mem s2) p q = (if q = [] then Some p else None)" if "is_path q" for q
    using that by (cases q) (auto simp: is_path_def)
  then have "pt_pages (mem s2) p = {p}" by (auto simp: pt_pages_def is_path_def split: if_splits intro!: exI[of _ "[]"])
  moreover have "q = q'" if "is_path q" "is_path q'" "pt_node (mem s2) p q = Some r" "pt_node (mem s2) p q' = Some r" for q q' r
    using none[OF that(1)] none[OF that(2)] that(3,4) by (simp split: if_splits)
  ultimately show "pt_state p s2 ps" using k2 p unfolding pt_state_def pt_wf_def by simp
  show "leaf (mem s2) p v = 0" using node[of "PX 2 v"] by (simp add: leaf_def slot_def va_path_def)
qed

end
