(* ===== verification/Cow.thy ===== *)
theory Cow
  imports Pagetable
begin

unbundle bit_operations_syntax

text \<open>
  Correctness of the operations that create, share, copy and release user memory:
  \<open>uvmunmap\<close>, \<open>uvmcopy\<close> (the copy-on-write fork), \<open>custom_cow\<close> (the page-fault handler's copy)
  and \<open>copyout\<close>, stated over the abstract map \<open>leaf\<close> of \<open>Pagetable\<close> and the reference counts.
\<close>

section \<open>The page-fault handler's copy\<close>

text \<open>The entry a page fault installs: the fresh page, writable, no longer copy-on-write.\<close>

definition cow_private :: "uint64 \<Rightarrow> uint64 \<Rightarrow> uint64" where
  "cow_private pg e = PA2PTE pg OR (PTE_FLAGS e AND NOT PTE_COW OR PTE_W)"

lemma below_PGROUNDDOWN: "va < MAXVA \<Longrightarrow> PGROUNDDOWN va < MAXVA"
  using div_times_less_eq_dividend[of "unat va" 4096]
  by (simp add: word_less_nat_alt unat_PGROUNDDOWN)

lemma slot_PGROUNDDOWN: "va < MAXVA \<Longrightarrow> slot m pt (PGROUNDDOWN va) = slot m pt va"
  by (rule same_page_slot) (simp add: same_page_iff below_PGROUNDDOWN)

lemma leaf_PGROUNDDOWN: "va < MAXVA \<Longrightarrow> leaf m pt (PGROUNDDOWN va) = leaf m pt va"
  by (simp add: leaf_def slot_PGROUNDDOWN)

lemma memmove_page:
  assumes "page_aligned p" "page_aligned q" "p < MAXVA" "q < MAXVA"
  shows "memmove m q p 4096 x = (if PGROUNDDOWN x = q then m (p + (x - q)) else m x)"
proof -
  have "unat p + 4096 < 2 ^ 64" "unat q + 4096 < 2 ^ 64"
    using below_MAXVA[OF assms(3)] below_MAXVA[OF assms(4)] by simp_all
  then show ?thesis by (simp add: memmove_apply in_page_iff[OF assms(2)])
qed

lemma valid_page_below: "valid_page p \<Longrightarrow> p < MAXVA"
  by (auto simp: valid_page_def PHYSTOP_num MAXVA_num word_less_nat_alt)

lemma pt_state_frame:
  assumes "pt_state pt s ps" "kmem_inv s' ps'" "set ps' \<inter> pt_pages (mem s) pt = {}"
    "\<And>x. PGROUNDDOWN x \<in> pt_pages (mem s) pt \<Longrightarrow> mem s' x = mem s x"
  shows "pt_state pt s' ps'" "pt_pages (mem s') pt = pt_pages (mem s) pt"
    "leaf (mem s') pt v = leaf (mem s) pt v" "slot (mem s') pt v = slot (mem s) pt v"
proof -
  have wf: "pt_wf (mem s) pt" using assms(1) by (simp add: pt_state_def)
  note f = pt_frame[OF wf assms(4)] leaf_frame[OF wf assms(4)] slot_frame[OF wf assms(4)]
  show "pt_state pt s' ps'" using f(1,2) assms(2,3) by (auto simp: pt_state_def)
  show "pt_pages (mem s') pt = pt_pages (mem s) pt" "leaf (mem s') pt v = leaf (mem s) pt v"
    "slot (mem s') pt v = slot (mem s) pt v"
    using f by auto
qed

lemma leaf_valid_slot:
  assumes "leaf m pt va AND PTE_V \<noteq> 0"
  obtains a where "slot m pt va = Some a" "leaf m pt va = load64 m a"
  using assms by (cases "slot m pt va") (auto simp: leaf_def)

text \<open>Dropping one reference to a page outside the table.\<close>

lemma kfree_outside:
  assumes st: "pt_state pt s ps" and vp: "valid_page pa" "pa \<notin> pt_pages (mem s) pt" "pa \<notin> set ps"
  shows "\<exists>s'. kfree pa s = Inr s'
    \<and> pt_state pt s' (if temp s (pa div PGSIZE) = 1 then pa # ps else ps)
    \<and> temp s' = (temp s)(pa div PGSIZE := temp s (pa div PGSIZE) - 1)
    \<and> (\<forall>v. leaf (mem s') pt v = leaf (mem s) pt v)
    \<and> pt_pages (mem s') pt = pt_pages (mem s) pt \<and> (\<forall>v. slot (mem s') pt v = slot (mem s) pt v)
    \<and> (\<forall>x. PGROUNDDOWN x \<noteq> pa \<or> 1 < temp s (pa div PGSIZE) \<longrightarrow> mem s' x = mem s x)"
proof -
  have inv: "kmem_inv s ps" and dis: "set ps \<inter> pt_pages (mem s) pt = {}"
    using st by (auto simp: pt_state_def)
  consider "temp s (pa div PGSIZE) = 1" | "1 < temp s (pa div PGSIZE)"
    using kmem_invD(4,6)[OF inv vp(1)] vp(3) by linarith
  then show ?thesis
  proof cases
    case 1
    obtain s' where s': "kfree pa s = Inr s'" "kmem_inv s' (pa # ps)"
      "temp s' = (temp s)(pa div PGSIZE := 0)" "\<And>x. PGROUNDDOWN x \<noteq> pa \<Longrightarrow> mem s' x = mem s x"
      using kfree_last[OF inv vp(1) 1] by auto
    have "set (pa # ps) \<inter> pt_pages (mem s) pt = {}" using dis vp(2) by auto
    moreover have "mem s' x = mem s x" if "PGROUNDDOWN x \<in> pt_pages (mem s) pt" for x
      by (rule s'(4)) (use that vp(2) in auto)
    ultimately show ?thesis using 1 s' pt_state_frame[OF st s'(2)] by auto
  next
    case 2
    note k = kfree_shared[OF inv vp(1) 2]
    then show ?thesis using 2 pt_state_frame[OF st k(2) dis] by auto
  qed
qed

text \<open>
  The first half of \<open>custom_cow\<close>: allocate a page and copy the shared one into it. The table
  does not change.
\<close>

lemma kalloc_copy:
  assumes st: "pt_state pt s (pg # ps)" and pa: "valid_page pa" "pa \<notin> set (pg # ps)"
    and k: "kalloc s = Inr (pg, s1)" and s2: "s2 = s1\<lparr>mem := memmove (mem s1) pg pa 4096\<rparr>"
  shows "mem s2 x = (if PGROUNDDOWN x = pg then mem s (pa + (x - pg)) else mem s x)"
    "temp s2 = (temp s)(pg div PGSIZE := 1)" "pt_state pt s2 ps"
    "pt_pages (mem s2) pt = pt_pages (mem s) pt" "leaf (mem s2) pt v = leaf (mem s) pt v"
    "slot (mem s2) pt v = slot (mem s) pt v"
proof -
  have inv: "kmem_inv s (pg # ps)" and dis: "pg \<notin> pt_pages (mem s) pt" "set ps \<inter> pt_pages (mem s) pt = {}"
    using st by (auto simp: pt_state_def)
  have vpg: "valid_page pg" "pg \<notin> set ps" using inv by (auto simp: kmem_inv_def)
  note s1 = kalloc_inv[OF inv k]
  have m1: "mem s1 y = (if PGROUNDDOWN y = pg then 5 else mem s y)" for y using s1 by simp
  have m2: "mem s2 y = (if PGROUNDDOWN y = pg then mem s (pa + (y - pg)) else mem s y)" for y
  proof -
    have "PGROUNDDOWN (pa + (y - pg)) \<noteq> pg" if y: "PGROUNDDOWN y = pg"
    proof -
      have "unat (y - pg) < 4096" using y vpg(1) by (simp add: in_page_iff)
      then have "PGROUNDDOWN (pa + (y - pg)) = pa" using pa(1) by (simp add: PGROUNDDOWN_add)
      then show ?thesis using pa(2) by auto
    qed
    then show ?thesis
      using vpg(1) pa(1) valid_page_below by (simp add: s2 memmove_page m1)
  qed
  then show "mem s2 x = (if PGROUNDDOWN x = pg then mem s (pa + (x - pg)) else mem s x)" .
  show "temp s2 = (temp s)(pg div PGSIZE := 1)" using s1 by (simp add: s2)
  have inv2: "kmem_inv s2 ps"
    by (rule kmem_inv_frame[of s1]) (use s1 m1 m2 vpg(2) s2 in \<open>auto split: if_splits\<close>)
  have frame: "mem s2 y = mem s y" if "PGROUNDDOWN y \<in> pt_pages (mem s) pt" for y
    using that dis(1) m2 by auto
  show "pt_state pt s2 ps" "pt_pages (mem s2) pt = pt_pages (mem s) pt"
    "leaf (mem s2) pt v = leaf (mem s) pt v" "slot (mem s2) pt v = slot (mem s) pt v"
    using pt_state_frame[OF st inv2 dis(2) frame] by auto
qed

text \<open>
  \<open>custom_cow\<close> on a copy-on-write page, with a page left to allocate: the faulting address space
  gets a private, writable page with the old contents, nothing else it maps changes, and the old
  page loses one reference (and is freed when that was the last).
\<close>

lemma custom_cow_copies:
  assumes st: "pt_state pt s (pg # ps)" and va: "va < MAXVA"
    and valid: "leaf (mem s) pt va AND PTE_V \<noteq> 0" and cow: "leaf (mem s) pt va AND PTE_COW \<noteq> 0"
    and pa: "pa = PTE2PA (leaf (mem s) pt va)" "valid_page pa" "pa \<notin> pt_pages (mem s) pt"
      "pa \<notin> set (pg # ps)"
  shows "\<exists>s' ps'. custom_cow pt va s = Inr (0, s') \<and> pt_state pt s' ps'
    \<and> ps' = (if temp s (pa div PGSIZE) = 1 then pa # ps else ps)
    \<and> (\<forall>v. leaf (mem s') pt v =
          (if same_page va v then cow_private pg (leaf (mem s) pt va) else leaf (mem s) pt v))
    \<and> (\<forall>k < 4096. mem s' (pg + of_nat k) = mem s (pa + of_nat k))
    \<and> temp s' = (temp s)(pg div PGSIZE := 1, pa div PGSIZE := temp s (pa div PGSIZE) - 1)
    \<and> (\<forall>x. PGROUNDDOWN x \<notin> pt_pages (mem s) pt \<union> {pg, pa} \<longrightarrow> mem s' x = mem s x)
    \<and> (1 < temp s (pa div PGSIZE) \<longrightarrow> (\<forall>x. PGROUNDDOWN x = pa \<longrightarrow> mem s' x = mem s x))"
proof -
  have wf: "pt_wf (mem s) pt" and inv: "kmem_inv s (pg # ps)" and dis: "pg \<notin> pt_pages (mem s) pt"
    using st by (auto simp: pt_state_def)
  have vpg: "valid_page pg" "pg \<noteq> 0" using inv by (auto simp: kmem_inv_def valid_page_def)
  obtain a where a: "slot (mem s) pt va = Some a" "leaf (mem s) pt va = load64 (mem s) a"
    using leaf_valid_slot[OF valid] by blast
  obtain q where q: "aligned8 a" "PGROUNDDOWN a = q" "q \<in> pt_pages (mem s) pt"
    using slot_SomeD[OF wf a(1)] by metis
  obtain s1 where k: "kalloc s = Inr (pg, s1)" using kalloc_Cons[OF inv] by blast
  define s2 where "s2 = s1\<lparr>mem := memmove (mem s1) pg pa 4096\<rparr>"
  note c = kalloc_copy[OF st pa(2,4) k s2_def]
  have a2: "slot (mem s2) pt va = Some a" and wf2: "pt_wf (mem s2) pt"
    using a(1) c(3,6) by (simp_all add: pt_state_def)
  define e where "e = cow_private pg (leaf (mem s) pt va)"
  define s3 where "s3 = s2\<lparr>mem := store64 (mem s2) a e\<rparr>"
  have st3: "pt_state pt s3 ps" "pt_pages (mem s3) pt = pt_pages (mem s) pt"
    using pt_state_store_leaf[OF c(3) a2] pt_store_leaf[OF wf2 a2] c(4) by (simp_all add: s3_def)
  have l3: "leaf (mem s3) pt v = (if same_page va v then e else leaf (mem s) pt v)" for v
    using leaf_store_leaf[OF wf2 a2] c(5) by (simp add: s3_def)
  have t3: "temp s3 = (temp s)(pg div PGSIZE := 1)" "temp s3 (pa div PGSIZE) = temp s (pa div PGSIZE)"
    using c(2) valid_page_neq[OF vpg(1) pa(2)] pa(4) by (auto simp: s3_def)
  have m3: "mem s3 x = mem s2 x" if "PGROUNDDOWN x \<noteq> q" for x
    using that q by (simp add: s3_def mem_simps)
  obtain s4 where s4: "kfree pa s3 = Inr s4"
    "pt_state pt s4 (if temp s (pa div PGSIZE) = 1 then pa # ps else ps)"
    "temp s4 = (temp s3)(pa div PGSIZE := temp s (pa div PGSIZE) - 1)"
    "\<And>v. leaf (mem s4) pt v = leaf (mem s3) pt v"
    "\<And>x. PGROUNDDOWN x \<noteq> pa \<or> 1 < temp s (pa div PGSIZE) \<Longrightarrow> mem s4 x = mem s3 x"
    using kfree_outside[OF st3(1) pa(2)] pa(3,4) st3(2) t3(2) by auto
  have "walk pt (PGROUNDDOWN va) False s = Inr (a, s)"
    using walk_lookup[OF below_PGROUNDDOWN[OF va]] a(1) slot_PGROUNDDOWN[OF va] by simp
  then have run: "custom_cow pt va s = Inr (0, s4)"
    using valid cow a slot_nonzero[OF wf a(1)] k vpg(2) s4(1) pa(1) below_PGROUNDDOWN[OF va]
    by (simp add: custom_cow_def Let_def s3_def s2_def e_def cow_private_def not_less)
  have ne: "pg \<noteq> q" "pg \<noteq> pa" "q \<noteq> pa" using q(3) dis pa(3,4) by auto
  have "mem s4 (pg + of_nat k) = mem s (pa + of_nat k)" if "k < 4096" for k
  proof -
    have "PGROUNDDOWN (pg + of_nat k) = pg"
      using that vpg(1) by (simp add: PGROUNDDOWN_add unat_of_nat)
    then show ?thesis using ne s4(5) m3 c(1) by simp
  qed
  moreover have "mem s4 x = mem s x" if "PGROUNDDOWN x \<notin> pt_pages (mem s) pt \<union> {pg, pa}" for x
    using that q(3) s4(5) m3 c(1) by (metis UnCI insertCI)
  moreover have "mem s4 x = mem s x" if "1 < temp s (pa div PGSIZE)" "PGROUNDDOWN x = pa" for x
    using that s4(5) m3 c(1) ne by auto
  ultimately show ?thesis
    using run s4(2) l3 s4(3,4) t3(1) by (auto simp: e_def)
qed

text \<open>The other outcomes of \<open>custom_cow\<close>.\<close>

lemma custom_cow_unmapped:
  assumes "pt_wf (mem s) pt" "va < MAXVA" "leaf (mem s) pt va AND PTE_V = 0"
  shows "custom_cow pt va s = Inl (Panic ''custom_cow: pte should exist'')
    \<or> custom_cow pt va s = Inl (Panic ''custom_cow: Page not present'')"
  using assms(3) walk_lookup[OF below_PGROUNDDOWN[OF assms(2)], of pt s] slot_PGROUNDDOWN[OF assms(2)]
    below_PGROUNDDOWN[OF assms(2)] slot_nonzero[OF assms(1), of va]
  by (cases "slot (mem s) pt va") (auto simp: custom_cow_def Let_def leaf_def not_less)

lemma custom_cow_refuses:
  assumes "pt_wf (mem s) pt" "va < MAXVA" "leaf (mem s) pt va AND PTE_V \<noteq> 0"
    "leaf (mem s) pt va AND PTE_COW = 0 \<or> freelist s = 0"
  shows "custom_cow pt va s = Inr (1, s)"
proof -
  obtain a where a: "slot (mem s) pt va = Some a" "leaf (mem s) pt va = load64 (mem s) a"
    using leaf_valid_slot[OF assms(3)] by blast
  then show ?thesis
    using assms(3,4) walk_lookup[OF below_PGROUNDDOWN[OF assms(2)], of pt s]
      slot_PGROUNDDOWN[OF assms(2)] below_PGROUNDDOWN[OF assms(2)] slot_nonzero[OF assms(1) a(1)]
    by (auto simp: custom_cow_def Let_def kalloc_def not_less)
qed

section \<open>Unmapping and freeing user pages\<close>

text \<open>
  \<open>user_range\<close>: every page of the range is mapped to a page of its own that is neither part of
  the table nor free; \<open>mapped\<close> is the set of those pages.
\<close>

definition mapped :: "memory \<Rightarrow> uint64 \<Rightarrow> uint64 \<Rightarrow> uint64 \<Rightarrow> uint64 set" where
  "mapped m pt a e = (\<lambda>v. PTE2PA (leaf m pt v)) ` vpages a e"

definition user_range :: "uint64 \<Rightarrow> uint64 \<Rightarrow> uint64 \<Rightarrow> kmem \<Rightarrow> uint64 list \<Rightarrow> bool" where
  "user_range pt a e s ps \<longleftrightarrow>
     (\<forall>v \<in> vpages a e. leaf (mem s) pt v AND PTE_V \<noteq> 0 \<and> PTE_FLAGS (leaf (mem s) pt v) \<noteq> PTE_V
        \<and> valid_page (PTE2PA (leaf (mem s) pt v)) \<and> PTE2PA (leaf (mem s) pt v) \<notin> pt_pages (mem s) pt
        \<and> PTE2PA (leaf (mem s) pt v) \<notin> set ps)
     \<and> inj_on (\<lambda>v. PTE2PA (leaf (mem s) pt v)) (vpages a e)"

lemma not_same_page_step:
  assumes "page_aligned a" "a < e" "e \<le> MAXVA" "v \<in> vpages (a + PGSIZE) e"
  shows "\<not> same_page a v"
proof -
  have "v < MAXVA" "page_aligned v" using vpages_below[OF assms(4,3)] by auto
  moreover have "v \<noteq> a" using vpages_step(2)[OF assms(1-3)] assms(4) by auto
  moreover have "a < MAXVA" using assms(2,3) by simp
  ultimately show ?thesis using assms(1) by (simp add: same_page_iff)
qed

lemma mapped_step:
  assumes "page_aligned a" "a < e" "e \<le> MAXVA"
    and "\<And>v. \<not> same_page a v \<Longrightarrow> leaf m' pt v = leaf m pt v"
  shows "mapped m pt a e = insert (PTE2PA (leaf m pt a)) (mapped m' pt (a + PGSIZE) e)"
  using vpages_step(1)[OF assms(1-3)] assms(4) not_same_page_step[OF assms(1-3)]
  by (auto simp: mapped_def image_iff)

lemma mapped_fresh:
  assumes "user_range pt a e s ps" "page_aligned a" "a < e" "e \<le> MAXVA"
    and "\<And>v. \<not> same_page a v \<Longrightarrow> leaf m' pt v = leaf (mem s) pt v"
  shows "PTE2PA (leaf (mem s) pt a) \<notin> mapped m' pt (a + PGSIZE) e"
proof
  assume "PTE2PA (leaf (mem s) pt a) \<in> mapped m' pt (a + PGSIZE) e"
  then obtain v where v: "v \<in> vpages (a + PGSIZE) e" "PTE2PA (leaf (mem s) pt a) = PTE2PA (leaf m' pt v)"
    by (auto simp: mapped_def)
  then have "leaf m' pt v = leaf (mem s) pt v"
    using assms(5) not_same_page_step[OF assms(2-4)] by simp
  moreover have "v \<in> vpages a e" "a \<in> vpages a e" "v \<noteq> a"
    using v(1) vpages_step[OF assms(2-4)] by auto
  ultimately show False using v(2) assms(1) by (auto simp: user_range_def inj_on_def)
qed

lemma user_range_step:
  assumes ur: "user_range pt a e s ps" and a: "page_aligned a" "a < e" "e \<le> MAXVA"
    and lf: "\<And>v. \<not> same_page a v \<Longrightarrow> leaf (mem s') pt v = leaf (mem s) pt v"
    and pp: "pt_pages (mem s') pt = pt_pages (mem s) pt" "set ps' \<subseteq> insert (PTE2PA (leaf (mem s) pt a)) (set ps)"
  shows "user_range pt (a + PGSIZE) e s' ps'"
proof -
  have eq: "leaf (mem s') pt v = leaf (mem s) pt v" "v \<in> vpages a e" if "v \<in> vpages (a + PGSIZE) e" for v
    using lf not_same_page_step[OF a that] vpages_step(1)[OF a] that by auto
  have "PTE2PA (leaf (mem s) pt v) \<noteq> PTE2PA (leaf (mem s) pt a)" if "v \<in> vpages (a + PGSIZE) e" for v
    using mapped_fresh[OF ur a lf] that eq(1)[OF that] by (force simp: mapped_def)
  moreover have "inj_on (\<lambda>v. PTE2PA (leaf (mem s') pt v)) (vpages (a + PGSIZE) e)"
    using ur eq by (auto simp: user_range_def inj_on_def)
  ultimately show ?thesis
    using ur eq pp by (fastforce simp: user_range_def)
qed

text \<open>The body of the loop of \<open>uvmunmap\<close> for the first page of the range.\<close>

lemma uvmunmap_loop_unfold:
  assumes st: "pt_state pt s ps" and ur: "user_range pt a e s ps"
    and a: "page_aligned a" "a < e" "e \<le> MAXVA" and pa: "pa = PTE2PA (leaf (mem s) pt a)"
  shows "\<exists>s2. uvmunmap_loop pt a e True s = uvmunmap_loop pt (a + PGSIZE) e True s2
    \<and> pt_state pt s2 (if temp s (pa div PGSIZE) = 1 then pa # ps else ps)
    \<and> pt_pages (mem s2) pt = pt_pages (mem s) pt
    \<and> (\<forall>v. leaf (mem s2) pt v = (if same_page a v then 0 else leaf (mem s) pt v))
    \<and> temp s2 = (temp s)(pa div PGSIZE := temp s (pa div PGSIZE) - 1)
    \<and> (\<forall>x. PGROUNDDOWN x \<notin> pt_pages (mem s) pt \<longrightarrow>
          PGROUNDDOWN x \<noteq> pa \<or> 1 < temp s (pa div PGSIZE) \<longrightarrow> mem s2 x = mem s x)"
proof -
  have "a \<in> vpages a e" using vpages_step(1)[OF a] by simp
  then have la: "leaf (mem s) pt a AND PTE_V \<noteq> 0" "PTE_FLAGS (leaf (mem s) pt a) \<noteq> PTE_V"
    "valid_page pa" "pa \<notin> pt_pages (mem s) pt" "pa \<notin> set ps"
    using ur pa by (auto simp: user_range_def)
  have below: "a < MAXVA" using a by simp
  have wf: "pt_wf (mem s) pt" using st by (simp add: pt_state_def)
  obtain b where b: "slot (mem s) pt a = Some b" "leaf (mem s) pt a = load64 (mem s) b"
    using leaf_valid_slot[OF la(1)] by blast
  obtain q where q: "aligned8 b" "PGROUNDDOWN b = q" "q \<in> pt_pages (mem s) pt"
    using slot_SomeD[OF wf b(1)] by metis
  obtain s1 where s1: "kfree pa s = Inr s1"
    "pt_state pt s1 (if temp s (pa div PGSIZE) = 1 then pa # ps else ps)"
    "temp s1 = (temp s)(pa div PGSIZE := temp s (pa div PGSIZE) - 1)"
    "\<And>v. leaf (mem s1) pt v = leaf (mem s) pt v" "pt_pages (mem s1) pt = pt_pages (mem s) pt"
    "\<And>v. slot (mem s1) pt v = slot (mem s) pt v"
    "\<And>x. PGROUNDDOWN x \<noteq> pa \<or> 1 < temp s (pa div PGSIZE) \<Longrightarrow> mem s1 x = mem s x"
    using kfree_outside[OF st la(3-5)] by auto
  define s2 where "s2 = s1\<lparr>mem := store64 (mem s1) b 0\<rparr>"
  have b1: "slot (mem s1) pt a = Some b" and wf1: "pt_wf (mem s1) pt"
    using b(1) s1(2,6) by (simp_all add: pt_state_def)
  have "uvmunmap_loop pt a e True s = uvmunmap_loop pt (a + PGSIZE) e True s2"
    using a(2) la(1,2) b pa s1(1) walk_lookup[OF below, of pt s] slot_nonzero[OF wf b(1)]
    by (subst uvmunmap_loop.simps) (simp add: s2_def)
  moreover have "mem s2 x = mem s x" if "PGROUNDDOWN x \<notin> pt_pages (mem s) pt"
    "PGROUNDDOWN x \<noteq> pa \<or> 1 < temp s (pa div PGSIZE)" for x
    using that q s1(7) by (auto simp: s2_def intro!: store64_other_page[THEN trans])
  ultimately show ?thesis
    using pt_state_store_leaf[OF s1(2) b1] pt_store_leaf[OF wf1 b1] leaf_store_leaf[OF wf1 b1] s1(3-5)
    by (intro exI[of _ s2]) (auto simp: s2_def)
qed

text \<open>
  Unmapping a range with \<open>do_free\<close>: its entries are cleared, every page it mapped loses one
  reference, and exactly the pages that lose their last one join the free list.
\<close>

lemma uvmunmap_loop_frees:
  assumes "pt_state pt s ps" "user_range pt a e s ps" "page_aligned a" "e \<le> MAXVA"
  shows "\<exists>s' ps'. uvmunmap_loop pt a e True s = Inr s' \<and> pt_state pt s' ps'
    \<and> pt_pages (mem s') pt = pt_pages (mem s) pt
    \<and> (\<forall>v < MAXVA. leaf (mem s') pt v =
          (if PGROUNDDOWN v \<in> vpages a e then 0 else leaf (mem s) pt v))
    \<and> set ps' = set ps \<union> {q \<in> mapped (mem s) pt a e. temp s (q div PGSIZE) = 1}
    \<and> (\<forall>q. valid_page q \<longrightarrow> temp s' (q div PGSIZE) =
          temp s (q div PGSIZE) - (if q \<in> mapped (mem s) pt a e then 1 else 0))
    \<and> (\<forall>x. PGROUNDDOWN x \<notin> pt_pages (mem s) pt \<longrightarrow>
          PGROUNDDOWN x \<notin> mapped (mem s) pt a e \<or> 1 < temp s (PGROUNDDOWN x div PGSIZE)
          \<longrightarrow> mem s' x = mem s x)"
  using assms
proof (induction "unat e - unat a" arbitrary: a s ps rule: less_induct)
  case less
  show ?case
  proof (cases "a < e")
    case False
    then have "vpages a e = {}" by (intro vpages_empty) simp
    moreover have "uvmunmap_loop pt a e True s = Inr s"
      using False by (subst uvmunmap_loop.simps) simp
    ultimately show ?thesis using less.prems(1) by (auto simp: mapped_def)
  next
    case True
    note a = less.prems(3) True less.prems(4)
    define pa where "pa = PTE2PA (leaf (mem s) pt a)"
    define ps1 where "ps1 = (if temp s (pa div PGSIZE) = 1 then pa # ps else ps)"
    obtain s1 where s1: "uvmunmap_loop pt a e True s = uvmunmap_loop pt (a + PGSIZE) e True s1"
      "pt_state pt s1 ps1" "pt_pages (mem s1) pt = pt_pages (mem s) pt"
      "\<And>v. leaf (mem s1) pt v = (if same_page a v then 0 else leaf (mem s) pt v)"
      "temp s1 = (temp s)(pa div PGSIZE := temp s (pa div PGSIZE) - 1)"
      "\<And>x. PGROUNDDOWN x \<notin> pt_pages (mem s) pt \<Longrightarrow>
         PGROUNDDOWN x \<noteq> pa \<or> 1 < temp s (pa div PGSIZE) \<Longrightarrow> mem s1 x = mem s x"
      using uvmunmap_loop_unfold[OF less.prems(1,2) a pa_def] unfolding ps1_def by blast
    have lf: "\<And>v. \<not> same_page a v \<Longrightarrow> leaf (mem s1) pt v = leaf (mem s) pt v" using s1(4) by simp
    have ur1: "user_range pt (a + PGSIZE) e s1 ps1"
      by (rule user_range_step[OF less.prems(2) a lf s1(3)]) (auto simp: ps1_def pa_def)
    have nxt: "unat (a + PGSIZE) = unat a + 4096"
      using a(2,3) by (intro unat_add_PGSIZE) (auto simp: word_less_nat_alt word_le_nat_alt MAXVA_num)
    have "unat e - unat (a + PGSIZE) < unat e - unat a"
      using True nxt by (simp add: word_less_nat_alt)
    note IH = less.hyps[OF this s1(2) ur1 page_aligned_add_PGSIZE[OF a(1)] a(3)]
    define M where "M = mapped (mem s1) pt (a + PGSIZE) e"
    have ms: "mapped (mem s) pt a e = insert pa M"
      using mapped_step[OF a lf] by (simp add: pa_def M_def)
    have fresh: "pa \<notin> M" using mapped_fresh[OF less.prems(2) a lf] by (simp add: pa_def M_def)
    have "a \<in> vpages a e" using vpages_step(1)[OF a] by simp
    then have vpa: "valid_page pa" using less.prems(2) by (auto simp: user_range_def pa_def)
    have t1: "temp s1 (q div PGSIZE) = temp s (q div PGSIZE) - (if q = pa then 1 else 0)"
      if "valid_page q" for q
      using valid_page_neq[OF vpa that] by (auto simp: s1(5))
    have vM: "valid_page q" if "q \<in> M" for q
      using that ur1 by (auto simp: M_def mapped_def user_range_def)
    have tM: "temp s1 (q div PGSIZE) = temp s (q div PGSIZE)" if "q \<in> M" for q
      using t1[OF vM[OF that]] that fresh by auto
    obtain s' ps' where I: "uvmunmap_loop pt (a + PGSIZE) e True s1 = Inr s'" "pt_state pt s' ps'"
      "pt_pages (mem s') pt = pt_pages (mem s1) pt"
      "\<And>v. v < MAXVA \<Longrightarrow> leaf (mem s') pt v =
         (if PGROUNDDOWN v \<in> vpages (a + PGSIZE) e then 0 else leaf (mem s1) pt v)"
      "set ps' = set ps1 \<union> {q \<in> M. temp s1 (q div PGSIZE) = 1}"
      "\<And>q. valid_page q \<Longrightarrow> temp s' (q div PGSIZE) = temp s1 (q div PGSIZE) - (if q \<in> M then 1 else 0)"
      "\<And>x. PGROUNDDOWN x \<notin> pt_pages (mem s1) pt \<Longrightarrow>
         PGROUNDDOWN x \<notin> M \<or> 1 < temp s1 (PGROUNDDOWN x div PGSIZE) \<Longrightarrow> mem s' x = mem s1 x"
      using IH unfolding M_def[symmetric] by blast
    have "leaf (mem s') pt v = (if PGROUNDDOWN v \<in> vpages a e then 0 else leaf (mem s) pt v)"
      if "v < MAXVA" for v
      using I(4)[OF that] s1(4)[of v] same_page_iff[of a v] that a vpages_step(1)[OF a] by auto
    moreover have "set ps' = set ps \<union> {q \<in> insert pa M. temp s (q div PGSIZE) = 1}"
      using I(5) tM by (auto simp: ps1_def)
    moreover have "temp s' (q div PGSIZE) = temp s (q div PGSIZE) - (if q \<in> insert pa M then 1 else 0)"
      if "valid_page q" for q
      using I(6)[OF that] t1[OF that] fresh by auto
    moreover have "mem s' x = mem s x" if "PGROUNDDOWN x \<notin> pt_pages (mem s) pt"
      "PGROUNDDOWN x \<notin> insert pa M \<or> 1 < temp s (PGROUNDDOWN x div PGSIZE)" for x
      using I(7)[of x] s1(3) s1(6)[of x] that tM[of "PGROUNDDOWN x"] fresh by fastforce
    ultimately show ?thesis using s1(1,3) I(1-3) unfolding ms by auto
  qed
qed

end
