(* ===== verification/Uvmcopy.thy ===== *)
theory Uvmcopy
  imports Cow
begin

unbundle bit_operations_syntax

text \<open>
  The copy-on-write fork, \<open>uvmcopy\<close>: after it parent and child map the same pages, neither may
  write them, and each page has gained one reference; when a page-table page cannot be
  allocated, the child's mappings and the references they took are given back.
\<close>

section \<open>The entries of parent and child\<close>

definition shared_flags :: "uint64 \<Rightarrow> uint64" where
  "shared_flags e =
     (if PTE_FLAGS e AND PTE_W \<noteq> 0 then PTE_FLAGS e AND NOT PTE_W OR PTE_COW else PTE_FLAGS e)"

definition parent_entry :: "uint64 \<Rightarrow> uint64" where
  "parent_entry e =
     (if PTE_FLAGS e AND PTE_W \<noteq> 0 then PA2PTE (PTE2PA e) OR shared_flags e else e)"

definition child_entry :: "uint64 \<Rightarrow> uint64" where
  "child_entry e = PA2PTE (PTE2PA e) OR shared_flags e OR PTE_V"

lemma page_aligned_PTE2PA [simp]: "page_aligned (PTE2PA e)"
  by (rule bit_word_eqI) (auto simp: PGROUNDDOWN_eq PTE2PA_def bit_simps)

lemma lt_1024I:
  assumes "\<And>k. 10 \<le> k \<Longrightarrow> \<not> bit (f :: uint64) k"
  shows "f < 1024"
proof -
  have "PTE_FLAGS f = f"
    by (rule bit_word_eqI) (use assms in \<open>auto simp: bit_flags simp flip: not_le\<close>)
  then show ?thesis using PTE_FLAGS_less[of f] by simp
qed

lemma bit_shared_flags:
  "bit (shared_flags e) k \<longleftrightarrow>
     (if bit e 2 then k = 5 \<or> k \<noteq> 2 \<and> k < 10 \<and> bit e k else k < 10 \<and> bit e k)"
  by (auto simp: shared_flags_def PTE_W_bit bit_simps bit_flags)

lemma shared_flags_less [simp]: "shared_flags e < 1024" "shared_flags e OR PTE_V < 1024"
  by (auto intro!: lt_1024I simp: bit_shared_flags bit_simps split: if_splits)

lemma bit_PA2PTE_low [simp]: "k < 10 \<Longrightarrow> \<not> bit (PA2PTE r) k"
  by (simp add: PA2PTE_def bit_simps)

lemma PTE2PA_parent_entry [simp]: "PTE2PA (parent_entry e) = PTE2PA e"
  by (simp add: parent_entry_def PTE2PA_PA2PTE)

lemma PTE2PA_child_entry [simp]: "PTE2PA (child_entry e) = PTE2PA e"
  by (simp add: child_entry_def PTE2PA_PA2PTE or.assoc)

lemma child_entry_valid: "child_entry e AND PTE_V \<noteq> 0"
  by (simp add: PTE_V_bit child_entry_def bit_simps)

lemma child_entry_leaf:
  assumes "e AND PTE_V \<noteq> 0" "PTE_FLAGS e \<noteq> PTE_V"
  shows "PTE_FLAGS (child_entry e) \<noteq> PTE_V"
proof -
  have "PTE_FLAGS (child_entry e) = shared_flags e OR PTE_V"
    by (simp add: child_entry_def PTE_FLAGS_PA2PTE or.assoc)
  moreover have "\<exists>k. bit (shared_flags e OR PTE_V) k \<noteq> bit PTE_V k"
  proof (cases "bit e 2")
    case True
    then show ?thesis by (intro exI[of _ 5]) (simp add: bit_simps bit_shared_flags)
  next
    case False
    obtain k where "bit (PTE_FLAGS e) k \<noteq> bit PTE_V k" using assms(2) by (metis bit_eqI)
    then show ?thesis
      using False assms(1) by (intro exI[of _ k]) (auto simp: PTE_V_bit bit_simps bit_shared_flags bit_flags)
  qed
  ultimately show ?thesis by metis
qed

text \<open>Neither process can write a shared page afterwards, and a page that was writable is marked.\<close>

lemma parent_entry_readonly: "parent_entry e AND PTE_W = 0"
  by (auto simp: PTE_W_bit parent_entry_def bit_PA2PTE_flag bit_shared_flags bit_flags)

lemma child_entry_readonly: "child_entry e AND PTE_W = 0"
  by (auto simp: PTE_W_bit child_entry_def or.assoc bit_PA2PTE_flag bit_shared_flags bit_simps)

lemma entries_cow:
  "e AND PTE_W \<noteq> 0 \<Longrightarrow> parent_entry e AND PTE_COW \<noteq> 0 \<and> child_entry e AND PTE_COW \<noteq> 0"
  by (auto simp: PTE_bits parent_entry_def child_entry_def or.assoc bit_PA2PTE_flag bit_shared_flags
      bit_flags bit_simps)

section \<open>The state of the loop\<close>

text \<open>
  What \<open>fork\<close> provides: two disjoint tables, the parent's range mapped, the child's empty, and no
  reference count about to overflow.
\<close>

definition copy_pre :: "uint64 \<Rightarrow> uint64 \<Rightarrow> uint64 \<Rightarrow> kmem \<Rightarrow> uint64 list \<Rightarrow> bool" where
  "copy_pre old new sz s ps \<longleftrightarrow>
     pt_state old s ps \<and> pt_state new s ps \<and> pt_pages (mem s) old \<inter> pt_pages (mem s) new = {}
     \<and> sz \<le> MAXVA \<and> user_range old 0 sz s ps
     \<and> (\<forall>q \<in> mapped (mem s) old 0 sz. q \<notin> pt_pages (mem s) new \<and> temp s (q div PGSIZE) < INT_MAX)
     \<and> (\<forall>v \<in> vpages 0 sz. leaf (mem s) new v = 0)"

text \<open>
  \<open>copy_inv\<close>: the state \<open>s\<close>, with free pages \<open>ps\<close>, reached from \<open>s0\<close> once the parent's entries of
  the virtual pages \<open>Dp\<close> have been marked, the child's entries of \<open>Dc\<close> installed and the
  references of \<open>Dt\<close> counted. The three sets agree between two iterations of the loop.
\<close>

definition copy_inv ::
  "uint64 \<Rightarrow> uint64 \<Rightarrow> kmem \<Rightarrow> uint64 list \<Rightarrow> uint64 set \<Rightarrow> uint64 set \<Rightarrow> uint64 set
    \<Rightarrow> kmem \<Rightarrow> uint64 list \<Rightarrow> bool" where
  "copy_inv old new s0 ps0 Dp Dc Dt s ps \<longleftrightarrow>
     pt_state old s ps \<and> pt_state new s ps \<and> set ps \<subseteq> set ps0
     \<and> pt_pages (mem s) old = pt_pages (mem s0) old
     \<and> pt_pages (mem s) new \<subseteq> pt_pages (mem s0) new \<union> (set ps0 - set ps)
     \<and> (\<forall>v < MAXVA. leaf (mem s) old v =
           (if PGROUNDDOWN v \<in> Dp then parent_entry (leaf (mem s0) old v) else leaf (mem s0) old v))
     \<and> (\<forall>v < MAXVA. leaf (mem s) new v =
           (if PGROUNDDOWN v \<in> Dc then child_entry (leaf (mem s0) old v) else leaf (mem s0) new v))
     \<and> (\<forall>q. valid_page q \<longrightarrow> q \<notin> set ps0 \<longrightarrow> temp s (q div PGSIZE) = temp s0 (q div PGSIZE)
           + (if q \<in> (\<lambda>v. PTE2PA (leaf (mem s0) old v)) ` Dt then 1 else 0))
     \<and> (\<forall>x. PGROUNDDOWN x \<notin> pt_pages (mem s0) old \<union> pt_pages (mem s0) new \<union> set ps0
           \<longrightarrow> mem s x = mem s0 x)"

lemma copy_invD:
  assumes "copy_inv old new s0 ps0 Dp Dc Dt s ps"
  shows "pt_state old s ps" "pt_state new s ps" "set ps \<subseteq> set ps0"
    "pt_pages (mem s) old = pt_pages (mem s0) old"
    "pt_pages (mem s) new \<subseteq> pt_pages (mem s0) new \<union> (set ps0 - set ps)"
    "v < MAXVA \<Longrightarrow> leaf (mem s) old v =
       (if PGROUNDDOWN v \<in> Dp then parent_entry (leaf (mem s0) old v) else leaf (mem s0) old v)"
    "v < MAXVA \<Longrightarrow> leaf (mem s) new v =
       (if PGROUNDDOWN v \<in> Dc then child_entry (leaf (mem s0) old v) else leaf (mem s0) new v)"
    "valid_page q \<Longrightarrow> q \<notin> set ps0 \<Longrightarrow> temp s (q div PGSIZE) = temp s0 (q div PGSIZE)
       + (if q \<in> (\<lambda>v. PTE2PA (leaf (mem s0) old v)) ` Dt then 1 else 0)"
    "PGROUNDDOWN x \<notin> pt_pages (mem s0) old \<union> pt_pages (mem s0) new \<union> set ps0 \<Longrightarrow> mem s x = mem s0 x"
  using assms by (auto simp: copy_inv_def)

lemma copy_inv_start: "copy_pre old new sz s ps \<Longrightarrow> copy_inv old new s ps {} {} {} s ps"
  by (simp add: copy_pre_def copy_inv_def)

lemma copy_preD:
  assumes "copy_pre old new sz s ps" "v \<in> vpages 0 sz"
  shows "leaf (mem s) old v AND PTE_V \<noteq> 0" "PTE_FLAGS (leaf (mem s) old v) \<noteq> PTE_V"
    "valid_page (PTE2PA (leaf (mem s) old v))" "PTE2PA (leaf (mem s) old v) \<notin> pt_pages (mem s) old"
    "PTE2PA (leaf (mem s) old v) \<notin> set ps" "PTE2PA (leaf (mem s) old v) \<notin> pt_pages (mem s) new"
    "temp s (PTE2PA (leaf (mem s) old v) div PGSIZE) < INT_MAX" "leaf (mem s) new v = 0"
    "v < MAXVA" "page_aligned v"
  using assms by (auto simp: copy_pre_def user_range_def mapped_def vpages_def)

lemma copy_pre_inj:
  assumes "copy_pre old new sz s ps" "v \<in> vpages 0 sz" "w \<in> vpages 0 sz"
    "PTE2PA (leaf (mem s) old v) = PTE2PA (leaf (mem s) old w)"
  shows "v = w"
  using assms by (auto simp: copy_pre_def user_range_def inj_on_def)

text \<open>The tables stay disjoint, so a write to one of them is outside the other.\<close>

lemma copy_disjoint:
  assumes "copy_pre old new sz s0 ps0" "copy_inv old new s0 ps0 Dp Dc Dt s ps"
  shows "pt_pages (mem s) old \<inter> pt_pages (mem s) new = {}"
proof -
  have "pt_pages (mem s0) old \<inter> pt_pages (mem s0) new = {}" "pt_pages (mem s0) old \<inter> set ps0 = {}"
    using assms(1) by (auto simp: copy_pre_def pt_state_def)
  then show ?thesis using copy_invD(4,5)[OF assms(2)] by blast
qed

section \<open>One iteration\<close>

text \<open>Marking the parent's entry copy-on-write.\<close>

lemma copy_mark_parent:
  assumes pre: "copy_pre old new sz s0 ps0" and inv: "copy_inv old new s0 ps0 Dp Dc Dt s ps"
    and i: "i \<in> vpages 0 sz" "i \<notin> Dp" and sl: "slot (mem s) old i = Some a"
    and m: "m = (if PTE_FLAGS (leaf (mem s0) old i) AND PTE_W \<noteq> 0
                 then store64 (mem s) a (parent_entry (leaf (mem s0) old i)) else mem s)"
  shows "copy_inv old new s0 ps0 (insert i Dp) Dc Dt (s\<lparr>mem := m\<rparr>) ps"
proof -
  note I = copy_invD[OF inv] and P = copy_preD[OF pre i(1)]
  have wf: "pt_wf (mem s) old" using I(1) by (auto simp: pt_state_def)
  let ?e = "leaf (mem s0) old i"
  have lfi: "leaf (mem s) old i = ?e" using I(6)[OF P(9)] i(2) P(10) by simp
  obtain q where q: "aligned8 a" "PGROUNDDOWN a = q" "q \<in> pt_pages (mem s) old"
    using slot_SomeD[OF wf sl] by metis
  have st: "pt_state old (s\<lparr>mem := m\<rparr>) ps" "pt_pages m old = pt_pages (mem s) old"
    using pt_state_store_leaf[OF I(1) sl] pt_store_leaf[OF wf sl] I(1) by (simp_all add: m)
  have out: "m x = mem s x" if "PGROUNDDOWN x \<notin> pt_pages (mem s) old" for x
    using that q by (auto simp: m intro!: store64_other_page)
  have frame: "mem (s\<lparr>mem := m\<rparr>) x = mem s x" if "PGROUNDDOWN x \<in> pt_pages (mem s) new" for x
    using out[of x] that copy_disjoint[OF pre inv] by auto
  have dis: "set ps \<inter> pt_pages (mem s) new = {}" and kinv': "kmem_inv (s\<lparr>mem := m\<rparr>) ps"
    using I(2) st(1) by (auto simp: pt_state_def)
  note N = pt_state_frame[OF I(2) kinv' dis frame]
  have "leaf m old v = (if PGROUNDDOWN v \<in> insert i Dp then parent_entry (leaf (mem s0) old v)
      else leaf (mem s0) old v)" if v: "v < MAXVA" for v
  proof -
    have same: "same_page i v \<longleftrightarrow> PGROUNDDOWN v = i" using same_page_iff[OF P(9) v] P(10) by auto
    have ev: "leaf (mem s0) old v = ?e" if "PGROUNDDOWN v = i"
      using leaf_PGROUNDDOWN[OF v, of "mem s0" old] that by simp
    have "leaf m old v = (if same_page i v then parent_entry ?e else leaf (mem s) old v)"
      using leaf_store_leaf[OF wf sl] lfi same ev I(6)[OF v] i(2) by (auto simp: m parent_entry_def)
    then show ?thesis using I(6)[OF v] same ev by auto
  qed
  then show ?thesis
    using st N I(3-5,7-9) out by (auto simp: copy_inv_def)
qed

text \<open>The call of \<open>mappages\<close> for the child.\<close>

lemma copy_map_child:
  assumes pre: "copy_pre old new sz s0 ps0" and inv: "copy_inv old new s0 ps0 Dp Dc Dt s ps"
    and i: "i \<in> vpages 0 sz" "i \<notin> Dc" and e: "e = leaf (mem s0) old i"
  shows "\<exists>r s' ps'. mappages new i PGSIZE (PTE2PA e) (shared_flags e) s = Inr (r, s')
    \<and> (r = 0 \<and> copy_inv old new s0 ps0 Dp (insert i Dc) Dt s' ps'
       \<or> r = -1 \<and> copy_inv old new s0 ps0 Dp Dc Dt s' ps')"
proof -
  note I = copy_invD[OF inv] and P = copy_preD[OF pre i(1)]
  have "leaf (mem s) new i = 0" using I(7)[OF P(9)] P(8,10) i(2) by simp
  then have un: "leaf (mem s) new i AND PTE_V = 0" by simp
  obtain r s' ps' where M: "mappages new i PGSIZE (PTE2PA e) (shared_flags e) s = Inr (r, s')"
    and G: "pt_grow new s ps s' ps'"
    and R: "r = 0 \<and> (\<forall>v. leaf (mem s') new v = (if same_page i v then child_entry e else leaf (mem s) new v))
       \<or> r = -1 \<and> (\<forall>v. leaf (mem s') new v = leaf (mem s) new v)"
    using mappages_page[OF I(2) P(10,9) un, of "PTE2PA e" "shared_flags e"]
    unfolding child_entry_def by blast
  have G': "pt_state new s' ps'" "set ps' \<subseteq> set ps"
    "\<And>q. q \<in> pt_pages (mem s') new \<Longrightarrow> q \<in> pt_pages (mem s) new \<union> (set ps - set ps')"
    "\<And>x. PGROUNDDOWN x \<notin> pt_pages (mem s) new \<union> set ps \<Longrightarrow> mem s' x = mem s x"
    "\<And>q. valid_page q \<Longrightarrow> q \<notin> set ps \<Longrightarrow> temp s' (q div PGSIZE) = temp s (q div PGSIZE)"
    using G by (auto simp: pt_grow_def)
  have dis: "pt_pages (mem s) old \<inter> pt_pages (mem s) new = {}" "set ps' \<inter> pt_pages (mem s) old = {}"
    using copy_disjoint[OF pre inv] I(1) G'(2) by (auto simp: pt_state_def)
  have frame: "mem s' x = mem s x" if "PGROUNDDOWN x \<in> pt_pages (mem s) old" for x
    by (rule G'(4)) (use that dis(1) I(1) in \<open>auto simp: pt_state_def\<close>)
  have k': "kmem_inv s' ps'" using G'(1) by (simp add: pt_state_def)
  note O = pt_state_frame[OF I(1) k' dis(2) frame]
  have ch: "(if same_page i v then child_entry e else leaf (mem s) new v) =
      (if PGROUNDDOWN v \<in> insert i Dc then child_entry (leaf (mem s0) old v) else leaf (mem s0) new v)"
    if v: "v < MAXVA" for v
    using same_page_iff[OF P(9) v] P(10) I(7)[OF v] leaf_PGROUNDDOWN[OF v, of "mem s0" old] e by auto
  have new: "pt_pages (mem s') new \<subseteq> pt_pages (mem s0) new \<union> (set ps0 - set ps')"
    using G'(2,3) I(3,5) by blast
  have cnt: "temp s' (q div PGSIZE) = temp s (q div PGSIZE)" if "valid_page q" "q \<notin> set ps0" for q
    using G'(5)[OF that(1)] that(2) I(3) by auto
  have out: "mem s' x = mem s0 x"
    if "PGROUNDDOWN x \<notin> pt_pages (mem s0) old \<union> pt_pages (mem s0) new \<union> set ps0" for x
    using G'(4)[of x] I(3,5) I(9)[OF that] that by auto
  show ?thesis
    using R
  proof (elim disjE conjE)
    assume r: "r = 0"
      "\<forall>v. leaf (mem s') new v = (if same_page i v then child_entry e else leaf (mem s) new v)"
    then have "copy_inv old new s0 ps0 Dp (insert i Dc) Dt s' ps'"
      unfolding copy_inv_def
      using O G'(1,2) I(3,4,6,8) ch new cnt out by (intro conjI allI impI) (auto simp: subset_iff)
    then show ?thesis using M r(1) by blast
  next
    assume r: "r = -1" "\<forall>v. leaf (mem s') new v = leaf (mem s) new v"
    then have "copy_inv old new s0 ps0 Dp Dc Dt s' ps'"
      unfolding copy_inv_def
      using O G'(1,2) I(3,4,6,7,8) new cnt out by (intro conjI allI impI) (auto simp: subset_iff)
    then show ?thesis using M r(1) by blast
  qed
qed

text \<open>The reference counted for the child.\<close>

lemma pt_state_temp:
  "pt_state pt s ps \<Longrightarrow> kmem_inv (s\<lparr>temp := t\<rparr>) ps \<Longrightarrow> pt_state pt (s\<lparr>temp := t\<rparr>) ps"
  by (simp add: pt_state_def)

lemma copy_count:
  assumes pre: "copy_pre old new sz s0 ps0" and inv: "copy_inv old new s0 ps0 Dp Dc Dt s ps"
    and i: "i \<in> vpages 0 sz" "i \<notin> Dt" "Dt \<subseteq> vpages 0 sz" and pa: "pa = PTE2PA (leaf (mem s0) old i)"
  shows "\<exists>s'. check_and_increment (pa div PGSIZE) s = Inr s'
    \<and> copy_inv old new s0 ps0 Dp Dc (insert i Dt) s' ps"
proof -
  note I = copy_invD[OF inv] and P = copy_preD[OF pre i(1)]
  have k: "kmem_inv s ps" using I(1) by (simp add: pt_state_def)
  have vp: "valid_page pa" "pa \<notin> set ps0" "pa \<notin> set ps" using P(3,5) I(3) pa by auto
  have fresh: "pa \<notin> (\<lambda>v. PTE2PA (leaf (mem s0) old v)) ` Dt"
    using copy_pre_inj[OF pre i(1)] i(2,3) pa by (metis (no_types, lifting) imageE subsetD)
  then have t: "temp s (pa div PGSIZE) = temp s0 (pa div PGSIZE)" using I(8)[OF vp(1,2)] by simp
  define s' where "s' = s\<lparr>temp := (temp s)(pa div PGSIZE := temp s (pa div PGSIZE) + 1)\<rparr>"
  have "temp s (pa div PGSIZE) < INT_MAX" using P(7) pa t by simp
  note C = check_and_increment_used[OF k vp(1,3) this, folded s'_def]
  have cnt: "temp s' (q div PGSIZE) = temp s0 (q div PGSIZE)
      + (if q \<in> (\<lambda>v. PTE2PA (leaf (mem s0) old v)) ` insert i Dt then 1 else 0)"
    if q: "valid_page q" "q \<notin> set ps0" for q
    using I(8)[OF q] valid_page_neq[OF vp(1) q(1)] t pa fresh by (cases "q = pa") (auto simp: s'_def)
  have "copy_inv old new s0 ps0 Dp Dc (insert i Dt) s' ps"
    unfolding copy_inv_def
    using pt_state_temp[OF I(1)] pt_state_temp[OF I(2)] C(2) I(3-7,9) cnt
    by (intro conjI allI impI) (auto simp: s'_def)
  then show ?thesis using C(1) by blast
qed

text \<open>One whole iteration.\<close>

lemma copy_step:
  assumes pre: "copy_pre old new sz s0 ps0" and inv: "copy_inv old new s0 ps0 D D D s ps"
    and i: "i \<in> vpages 0 sz" "i \<notin> D" "D \<subseteq> vpages 0 sz"
  shows "(\<exists>s' ps'. uvmcopy_loop old new i sz s = uvmcopy_loop old new (i + PGSIZE) sz s'
       \<and> copy_inv old new s0 ps0 (insert i D) (insert i D) (insert i D) s' ps')
    \<or> (\<exists>s' ps'. uvmcopy_loop old new i sz s
         = bnd (uvmunmap new 0 (i div PGSIZE) True s') (\<lambda>s. Inr (-1, s))
       \<and> copy_inv old new s0 ps0 (insert i D) D D s' ps')"
proof -
  note I = copy_invD[OF inv] and P = copy_preD[OF pre i(1)]
  have lt: "i < sz" using i(1) by (simp add: vpages_def)
  define e where "e = leaf (mem s0) old i"
  have lf: "leaf (mem s) old i = e" using I(6)[OF P(9)] P(10) i(2) by (simp add: e_def)
  then have "leaf (mem s) old i AND PTE_V \<noteq> 0" using P(1) by (simp add: e_def)
  then obtain a where a: "slot (mem s) old i = Some a" "leaf (mem s) old i = load64 (mem s) a"
    using leaf_valid_slot by blast
  define s1 where "s1 = s\<lparr>mem := if PTE_FLAGS e AND PTE_W \<noteq> 0
                 then store64 (mem s) a (parent_entry e) else mem s\<rparr>"
  have inv1: "copy_inv old new s0 ps0 (insert i D) D D s1 ps"
    using copy_mark_parent[OF pre inv i(1,2) a(1) refl] unfolding s1_def e_def .
  obtain r s2 ps2 where M: "mappages new i PGSIZE (PTE2PA e) (shared_flags e) s1 = Inr (r, s2)"
    and R: "r = 0 \<and> copy_inv old new s0 ps0 (insert i D) (insert i D) D s2 ps2
       \<or> r = -1 \<and> copy_inv old new s0 ps0 (insert i D) D D s2 ps2"
    using copy_map_child[OF pre inv1 i(1,2) e_def] by blast
  have "a \<noteq> 0" using slot_nonzero[OF _ a(1)] I(1) by (simp add: pt_state_def)
  moreover have "(if PTE_FLAGS e AND PTE_W \<noteq> 0
      then s\<lparr>mem := store64 (mem s) a (PA2PTE (PTE2PA e) OR shared_flags e)\<rparr> else s) = s1"
    by (simp add: s1_def parent_entry_def)
  ultimately have run: "uvmcopy_loop old new i sz s =
      (if r \<noteq> 0 then bnd (uvmunmap new 0 (i div PGSIZE) True s2) (\<lambda>s. Inr (-1, s))
       else bnd (check_and_increment (PTE2PA e div PGSIZE) s2) (\<lambda>s. uvmcopy_loop old new (i + PGSIZE) sz s))"
    using lt P(1) walk_lookup[OF P(9), of old s] a lf M
    by (subst uvmcopy_loop.simps) (simp add: e_def[symmetric] Let_def shared_flags_def cong: if_cong)
  show ?thesis
    using R
  proof (elim disjE conjE)
    assume r: "r = 0" "copy_inv old new s0 ps0 (insert i D) (insert i D) D s2 ps2"
    show ?thesis
      using copy_count[OF pre r(2) i(1-3) refl] run r(1) unfolding e_def by auto
  next
    assume "r = -1" "copy_inv old new s0 ps0 (insert i D) D D s2 ps2"
    then show ?thesis using run by auto
  qed
qed

section \<open>Giving the child's mappings back\<close>

lemma page_end: "page_aligned i \<Longrightarrow> 0 + i div PGSIZE * PGSIZE = i"
  using div_mult_mod_eq[of i PGSIZE]
  by (auto simp: word_unat_eq_iff unat_PGROUNDDOWN unat_word_ariths PGSIZE_def unat_div_distrib)

lemma copy_undo:
  assumes pre: "copy_pre old new sz s0 ps0" and i: "i \<in> vpages 0 sz"
    and inv: "copy_inv old new s0 ps0 Dp (vpages 0 i) (vpages 0 i) s ps"
  shows "\<exists>s' ps'. uvmunmap new 0 (i div PGSIZE) True s = Inr s'
    \<and> copy_inv old new s0 ps0 Dp {} {} s' ps'"
proof -
  note I = copy_invD[OF inv]
  have iP: "page_aligned i" "i < sz" "sz \<le> MAXVA" "i \<le> MAXVA"
    using i pre by (auto simp: vpages_def copy_pre_def)
  have V: "v \<in> vpages 0 sz" "v < MAXVA" "PGROUNDDOWN v = v" if "v \<in> vpages 0 i" for v
    using that iP by (auto simp: vpages_def)
  have lf: "leaf (mem s) new v = child_entry (leaf (mem s0) old v)" if "v \<in> vpages 0 i" for v
    using I(7)[OF V(2)[OF that]] V(3)[OF that] that by simp
  have mp: "mapped (mem s) new 0 i = (\<lambda>v. PTE2PA (leaf (mem s0) old v)) ` vpages 0 i"
    using lf by (auto simp: mapped_def image_iff)
  have ur: "user_range new 0 i s ps"
    unfolding user_range_def
  proof (intro conjI ballI)
    fix v assume v: "v \<in> vpages 0 i"
    note P = copy_preD[OF pre V(1)[OF v]]
    show "leaf (mem s) new v AND PTE_V \<noteq> 0" using lf[OF v] child_entry_valid by simp
    show "PTE_FLAGS (leaf (mem s) new v) \<noteq> PTE_V" using lf[OF v] child_entry_leaf[OF P(1,2)] by simp
    show "valid_page (PTE2PA (leaf (mem s) new v))" using lf[OF v] P(3) by simp
    show "PTE2PA (leaf (mem s) new v) \<notin> pt_pages (mem s) new" "PTE2PA (leaf (mem s) new v) \<notin> set ps"
      using lf[OF v] P(5,6) I(3,5) by auto
  next
    show "inj_on (\<lambda>v. PTE2PA (leaf (mem s) new v)) (vpages 0 i)"
      using lf copy_pre_inj[OF pre] V(1) by (auto simp: inj_on_def)
  qed
  obtain s' ps' where U: "uvmunmap_loop new 0 i True s = Inr s'" "pt_state new s' ps'"
    "pt_pages (mem s') new = pt_pages (mem s) new"
    "\<And>v. v < MAXVA \<Longrightarrow> leaf (mem s') new v = (if PGROUNDDOWN v \<in> vpages 0 i then 0 else leaf (mem s) new v)"
    "set ps' = set ps \<union> {q \<in> mapped (mem s) new 0 i. temp s (q div PGSIZE) = 1}"
    "\<And>q. valid_page q \<Longrightarrow> temp s' (q div PGSIZE) =
       temp s (q div PGSIZE) - (if q \<in> mapped (mem s) new 0 i then 1 else 0)"
    "\<And>x. PGROUNDDOWN x \<notin> pt_pages (mem s) new \<Longrightarrow>
       PGROUNDDOWN x \<notin> mapped (mem s) new 0 i \<or> 1 < temp s (PGROUNDDOWN x div PGSIZE) \<Longrightarrow> mem s' x = mem s x"
    using uvmunmap_loop_frees[OF I(2) ur _ iP(4)] PGROUNDDOWN_idem[of 0]
    by (auto simp: PGROUNDDOWN_def)
  have big: "1 < temp s (q div PGSIZE)" if "q \<in> mapped (mem s) new 0 i" for q
  proof -
    obtain v where v: "v \<in> vpages 0 i" "q = PTE2PA (leaf (mem s0) old v)" using \<open>q \<in> _\<close> mp by auto
    note P = copy_preD[OF pre V(1)[OF v(1)]]
    have k0: "kmem_inv s0 ps0" using pre by (simp add: copy_pre_def pt_state_def)
    have "valid_page q" "q \<notin> set ps0" using P(3,5) v(2) by auto
    then have "0 < temp s0 (q div PGSIZE)" "temp s (q div PGSIZE) = temp s0 (q div PGSIZE) + 1"
      using kmem_invD(4,6)[OF k0, of q] I(8)[of q] that mp by auto
    then show ?thesis by simp
  qed
  then have ps': "set ps' = set ps" using U(5) by force
  have k': "kmem_inv s' ps'" and dis: "set ps' \<inter> pt_pages (mem s) old = {}"
    using U(2) I(1) ps' by (auto simp: pt_state_def)
  have same: "mem s' x = mem s x" if "PGROUNDDOWN x \<notin> pt_pages (mem s) new" for x
    using U(7)[OF that] big by blast
  then have "mem s' x = mem s x" if "PGROUNDDOWN x \<in> pt_pages (mem s) old" for x
    using that copy_disjoint[OF pre inv] by blast
  note O = pt_state_frame[OF I(1) k' dis this]
  have z: "leaf (mem s0) new v = 0" if "PGROUNDDOWN v \<in> vpages 0 i" "v < MAXVA" for v
    using copy_preD(8)[OF pre V(1)[OF that(1)]] leaf_PGROUNDDOWN[OF that(2)] by simp
  have out: "mem s' x = mem s0 x"
    if "PGROUNDDOWN x \<notin> pt_pages (mem s0) old \<union> pt_pages (mem s0) new \<union> set ps0" for x
    using same[of x] I(5) I(9)[OF that] that by auto
  have "copy_inv old new s0 ps0 Dp {} {} s' ps'"
    unfolding copy_inv_def
    using O U(2-4,6) I(3-8) ps' z out mp by (intro conjI allI impI) (auto simp: subset_iff)
  moreover have "uvmunmap new 0 (i div PGSIZE) True s = Inr s'"
    using U(1) by (simp only: uvmunmap_def page_end[OF iP(1)]) (simp add: PGSIZE_def)
  ultimately show ?thesis by blast
qed

section \<open>The whole call\<close>

lemma uvmcopy_loop_correct:
  assumes pre: "copy_pre old new sz s0 ps0"
    and "copy_inv old new s0 ps0 {v \<in> vpages 0 sz. v < i} {v \<in> vpages 0 sz. v < i}
           {v \<in> vpages 0 sz. v < i} s ps" and "page_aligned i"
  shows "\<exists>r s' ps'. uvmcopy_loop old new i sz s = Inr (r, s')
    \<and> (r = 0 \<and> copy_inv old new s0 ps0 (vpages 0 sz) (vpages 0 sz) (vpages 0 sz) s' ps'
       \<or> r = -1 \<and> (\<exists>Dp \<subseteq> vpages 0 sz. copy_inv old new s0 ps0 Dp {} {} s' ps'))"
  using assms(2,3)
proof (induction "unat sz - unat i" arbitrary: i s ps rule: less_induct)
  case less
  define D where "D = {v \<in> vpages 0 sz. v < i}"
  have szM: "sz \<le> MAXVA" using pre by (simp add: copy_pre_def)
  show ?case
  proof (cases "i < sz")
    case False
    then have "{v \<in> vpages 0 sz. v < i} = vpages 0 sz" by (auto simp: vpages_def)
    then show ?thesis using False less.prems(1) by (subst uvmcopy_loop.simps) auto
  next
    case True
    have i: "i \<in> vpages 0 sz" "i \<notin> D" "D \<subseteq> vpages 0 sz"
      using True less.prems(2) by (auto simp: vpages_def D_def)
    have D0: "D = vpages 0 i" using True by (auto simp: D_def vpages_def)
    note step = vpages_step[OF less.prems(2) True szM]
    have nxt: "unat (i + PGSIZE) = unat i + 4096"
      using True szM by (intro unat_add_PGSIZE) (auto simp: word_less_nat_alt word_le_nat_alt MAXVA_num)
    have D1: "{v \<in> vpages 0 sz. v < i + PGSIZE} = insert i D"
    proof (intro set_eqI iffI)
      fix v assume "v \<in> {v \<in> vpages 0 sz. v < i + PGSIZE}"
      then have v: "v \<in> vpages 0 sz" "\<not> i + PGSIZE \<le> v" by auto
      then have "v \<notin> vpages (i + PGSIZE) sz" by (simp add: vpages_def)
      then have "i \<le> v \<longrightarrow> v = i" using step(1) v(1) by (auto simp: vpages_def)
      then show "v \<in> insert i D" using v(1) by (auto simp: D_def)
    next
      fix v assume "v \<in> insert i D"
      then show "v \<in> {v \<in> vpages 0 sz. v < i + PGSIZE}"
        using i(1) nxt by (auto simp: D_def word_less_nat_alt)
    qed
    show ?thesis
      using copy_step[OF pre less.prems(1)[folded D_def] i]
    proof (elim disjE exE conjE)
      fix s1 ps1 assume s1: "uvmcopy_loop old new i sz s = uvmcopy_loop old new (i + PGSIZE) sz s1"
        "copy_inv old new s0 ps0 (insert i D) (insert i D) (insert i D) s1 ps1"
      have "unat sz - unat (i + PGSIZE) < unat sz - unat i" using True nxt by (simp add: word_less_nat_alt)
      from less.hyps[OF this, unfolded D1, OF s1(2) page_aligned_add_PGSIZE[OF less.prems(2)]]
      show ?thesis using s1(1) by simp
    next
      fix s1 ps1 assume s1: "uvmcopy_loop old new i sz s
          = bnd (uvmunmap new 0 (i div PGSIZE) True s1) (\<lambda>s. Inr (-1, s))"
        "copy_inv old new s0 ps0 (insert i D) D D s1 ps1"
      obtain s2 ps2 where "uvmunmap new 0 (i div PGSIZE) True s1 = Inr s2"
        "copy_inv old new s0 ps0 (insert i D) {} {} s2 ps2"
        using copy_undo[OF pre i(1) s1(2)[unfolded D0], folded D0] by blast
      moreover have "insert i D \<subseteq> vpages 0 sz" using i by auto
      ultimately show ?thesis
        using s1(1)
        by (intro exI[of _ "-1"] exI[of _ s2] exI[of _ ps2] conjI disjI2 exI[of _ "insert i D"]) auto
    qed
  qed
qed

lemma uvmcopy_correct:
  assumes pre: "copy_pre old new sz s0 ps0"
  shows "\<exists>r s' ps'. uvmcopy old new sz s0 = Inr (r, s')
    \<and> (r = 0 \<and> copy_inv old new s0 ps0 (vpages 0 sz) (vpages 0 sz) (vpages 0 sz) s' ps'
       \<or> r = -1 \<and> (\<exists>Dp \<subseteq> vpages 0 sz. copy_inv old new s0 ps0 Dp {} {} s' ps'))"
proof -
  have "{v \<in> vpages 0 sz. v < 0} = {}" by (auto simp: word_less_nat_alt)
  then show ?thesis
    using uvmcopy_loop_correct[OF pre, of 0 s0 ps0] copy_inv_start[OF pre]
    by (simp add: uvmcopy_def PGROUNDDOWN_def)
qed

section \<open>A write fault after the fork\<close>

lemma cow_flags_less [simp]: "PTE_FLAGS e AND NOT PTE_COW OR PTE_W < 1024"
  by (auto intro!: lt_1024I simp: bit_flags bit_simps)

lemma cow_private_bits:
  assumes "page_aligned pg"
  shows "PTE2PA (cow_private pg e) = pg" "cow_private pg e AND PTE_W \<noteq> 0"
    "cow_private pg e AND PTE_COW = 0" "cow_private pg e AND PTE_U = e AND PTE_U"
    "e AND PTE_V \<noteq> 0 \<Longrightarrow> cow_private pg e AND PTE_V \<noteq> 0"
proof -
  show "PTE2PA (cow_private pg e) = pg" by (simp add: cow_private_def PTE2PA_PA2PTE assms)
  show "cow_private pg e AND PTE_W \<noteq> 0" "cow_private pg e AND PTE_COW = 0"
    "e AND PTE_V \<noteq> 0 \<Longrightarrow> cow_private pg e AND PTE_V \<noteq> 0"
    by (auto simp: PTE_bits cow_private_def bit_PA2PTE_flag bit_flags bit_simps)
  show "cow_private pg e AND PTE_U = e AND PTE_U"
    by (rule bit_word_eqI) (auto simp: cow_private_def bit_simps bit_PA2PTE_flag bit_flags)
qed

lemma freelist_Cons:
  assumes "kmem_inv s ps" "freelist s \<noteq> 0"
  obtains pg qs where "ps = pg # qs" "freelist s = pg"
  using assms by (cases ps) (auto simp: kmem_inv_def)

text \<open>
  After a successful fork, a write fault of the child on a page that was writable gives the child
  a private copy and leaves the parent's mappings, the parent's data and the parent's reference
  as they were before the fork.
\<close>

lemma fork_then_fault:
  assumes pre: "copy_pre old new sz s ps"
    and inv: "copy_inv old new s ps (vpages 0 sz) (vpages 0 sz) (vpages 0 sz) s1 ps1"
    and v: "v \<in> vpages 0 sz" and w: "leaf (mem s) old v AND PTE_W \<noteq> 0" and mem: "freelist s1 \<noteq> 0"
    and pa: "pa = PTE2PA (leaf (mem s) old v)"
  shows "\<exists>s2 pg ps2. custom_cow new v s1 = Inr (0, s2) \<and> PTE2PA (leaf (mem s2) new v) = pg \<and> pg \<noteq> pa
    \<and> leaf (mem s2) new v AND PTE_W \<noteq> 0 \<and> leaf (mem s2) new v AND PTE_COW = 0
    \<and> (\<forall>k < 4096. mem s2 (pg + of_nat k) = mem s (pa + of_nat k))
    \<and> (\<forall>k < 4096. mem s2 (pa + of_nat k) = mem s (pa + of_nat k))
    \<and> (\<forall>u. leaf (mem s2) old u = leaf (mem s1) old u) \<and> pt_state new s2 ps2
    \<and> temp s2 (pa div PGSIZE) = temp s (pa div PGSIZE) \<and> temp s2 (pg div PGSIZE) = 1"
proof -
  note I = copy_invD[OF inv] and P = copy_preD[OF pre v]
  have k: "kmem_inv s1 ps1" "kmem_inv s ps" using I(1) pre by (simp_all add: pt_state_def copy_pre_def)
  obtain pg qs where ps1: "ps1 = pg # qs" using freelist_Cons[OF k(1) mem] by blast
  have vpg: "valid_page pg" "pg \<in> set ps" using k(1) I(3) by (auto simp: ps1 kmem_inv_def)
  have vpa: "valid_page pa" "pa \<notin> set ps" "pa \<notin> set (pg # qs)" "pa \<notin> pt_pages (mem s1) new" "pa \<noteq> pg"
    using P(3,5,6) I(3,5) pa vpg(2) by (auto simp: ps1)
  have lf: "leaf (mem s1) new v = child_entry (leaf (mem s) old v)" using I(7)[OF P(9)] P(10) v by simp
  have cnt: "temp s1 (pa div PGSIZE) = temp s (pa div PGSIZE) + 1"
    using I(8)[OF vpa(1,2)] v pa by auto
  have two: "1 < temp s1 (pa div PGSIZE)"
    using cnt kmem_invD(4,6)[OF k(2) vpa(1)] vpa(2) by auto
  obtain s2 ps2 where C: "custom_cow new v s1 = Inr (0, s2)" "pt_state new s2 ps2"
    "\<And>u. leaf (mem s2) new u = (if same_page v u then cow_private pg (leaf (mem s1) new v) else leaf (mem s1) new u)"
    "\<forall>k < 4096. mem s2 (pg + of_nat k) = mem s1 (pa + of_nat k)"
    "temp s2 = (temp s1)(pg div PGSIZE := 1, pa div PGSIZE := temp s1 (pa div PGSIZE) - 1)"
    "\<And>x. PGROUNDDOWN x \<notin> pt_pages (mem s1) new \<union> {pg, pa} \<Longrightarrow> mem s2 x = mem s1 x"
    "\<And>x. PGROUNDDOWN x = pa \<Longrightarrow> mem s2 x = mem s1 x"
    using custom_cow_copies[OF I(2)[unfolded ps1] P(9) _ _ _ vpa(1,4,3)] lf child_entry_valid entries_cow[OF w]
      pa two by auto
  have off: "PGROUNDDOWN (pa + of_nat k) = pa" if "k < 4096" for k
    using that vpa(1) by (simp add: PGROUNDDOWN_add unat_of_nat)
  have data: "mem s1 (pa + of_nat k) = mem s (pa + of_nat k)" if "k < 4096" for k
    using I(9)[of "pa + of_nat k"] off[OF that] P(4,6) vpa(2) pa by simp
  have old: "leaf (mem s2) old u = leaf (mem s1) old u" for u
  proof (rule leaf_frame)
    show "pt_wf (mem s1) old" using I(1) by (simp add: pt_state_def)
    show "mem s2 x = mem s1 x" if "PGROUNDDOWN x \<in> pt_pages (mem s1) old" for x
      using that C(6,7)[of x] copy_disjoint[OF pre inv] I(1) by (auto simp: pt_state_def ps1)
  qed
  have same: "same_page v v" using same_page_iff[OF P(9) P(9)] by simp
  have lf2: "leaf (mem s2) new v = cow_private pg (leaf (mem s1) new v)" using C(3)[of v] same by simp
  note bits = cow_private_bits[OF valid_page_aligned[OF vpg(1)], of "leaf (mem s1) new v", folded lf2]
  have t: "temp s2 (pa div PGSIZE) = temp s (pa div PGSIZE)" "temp s2 (pg div PGSIZE) = 1"
    using C(5) cnt valid_page_neq[OF vpa(1) vpg(1)] vpa(5) by auto
  show ?thesis
    using C(1,2,4,7) bits(1-3) vpa(5) data off old t by (intro exI[of _ s2] exI[of _ pg] exI[of _ ps2]) auto
qed

end
