(* ===== verification/Sample.thy ===== *)
theory Sample
  imports Uvmcopy
begin

unbundle bit_operations_syntax

text \<open>
  A concrete machine state on which the theorems about page tables and copy-on-write are
  instantiated: an address space of one page with its three page-table pages, a second address
  space with its page-table pages but no mapping, and three free pages, laid out in physical memory at the start of the kernel's
  range. The flags of the one mapping are a parameter.
\<close>

definition sample_mem :: "uint64 \<Rightarrow> memory" where
  "sample_mem fl =
     store64 (store64 (store64 (store64 (store64 (store64 (store64 (store64 (store64 (\<lambda>_. 0)
       0x80001000 (PA2PTE 0x80002000 OR PTE_V))
       0x80002000 (PA2PTE 0x80003000 OR PTE_V))
       0x80003000 (PA2PTE 0x80004000 OR fl))
       0x80004000 42)
       0x80005000 (PA2PTE 0x80009000 OR PTE_V))
       0x80009000 (PA2PTE 0x8000a000 OR PTE_V))
       0x80006000 0x80007000)
       0x80007000 0x80008000)
       0x80008000 0"

definition sample :: "uint64 \<Rightarrow> kmem" where
  "sample fl = \<lparr>mem = sample_mem fl, freelist = 0x80006000,
     temp = (\<lambda>_. 1)(0x80006 := 0, 0x80007 := 0, 0x80008 := 0)\<rparr>"

definition sample_free :: "uint64 list" where
  "sample_free = [0x80006000, 0x80007000, 0x80008000]"

lemma load64_zero_mem [simp]: "load64 (\<lambda>_. 0) a = 0"
  by (simp add: load64_def)

lemma sample_load:
  assumes "aligned8 a"
  shows "load64 (sample_mem fl) a =
    (if a = 0x80001000 then PA2PTE 0x80002000 OR PTE_V
     else if a = 0x80002000 then PA2PTE 0x80003000 OR PTE_V
     else if a = 0x80003000 then PA2PTE 0x80004000 OR fl
     else if a = 0x80004000 then 42
     else if a = 0x80005000 then PA2PTE 0x80009000 OR PTE_V
     else if a = 0x80009000 then PA2PTE 0x8000a000 OR PTE_V
     else if a = 0x80006000 then 0x80007000
     else if a = 0x80007000 then 0x80008000 else 0)"
  using assms by (cases "a = 0x80008000") (auto simp: sample_mem_def load64_store64_other)

lemma sample_entries [simp]:
  "PTE2PA (PA2PTE 0x80002000 OR PTE_V) = 0x80002000"
  "PTE2PA (PA2PTE 0x80003000 OR PTE_V) = 0x80003000"
  "PTE2PA (PA2PTE 0x80009000 OR PTE_V) = 0x80009000"
  "PTE2PA (PA2PTE 0x8000a000 OR PTE_V) = 0x8000a000"
  "(PA2PTE 0x80002000 OR PTE_V) AND PTE_V \<noteq> 0"
  "(PA2PTE 0x80009000 OR PTE_V) AND PTE_V \<noteq> 0"
  "(PA2PTE 0x8000a000 OR PTE_V) AND PTE_V \<noteq> 0"
  "(PA2PTE 0x80003000 OR PTE_V) AND PTE_V \<noteq> 0"
  by (simp_all add: PTE2PA_def PA2PTE_def PTE_V_def)

lemma entry_eq_page:
  assumes "page_aligned q" "page_aligned r" "is_index i"
  shows "q + 8 * i = r \<longleftrightarrow> q = r \<and> i = 0"
proof
  assume "q + 8 * i = r"
  moreover have "PGROUNDDOWN (q + 8 * i) = q" using assms by (simp add: entry_in_page)
  ultimately have "q = r" "8 * i = 0" using assms(2) by auto
  then show "q = r \<and> i = 0" using unat_8_mult[OF assms(3)] by (auto simp: word_unat_eq_iff)
qed simp

lemma sample_page [simp]:
  "valid_page 0x80001000" "valid_page 0x80002000" "valid_page 0x80003000" "valid_page 0x80004000"
  "valid_page 0x80005000" "valid_page 0x80006000" "valid_page 0x80007000" "valid_page 0x80008000"
  "valid_page 0x80009000" "valid_page 0x8000a000"
  by (simp_all add: valid_page_def PGROUNDDOWN_def PGSIZE_def PHYSTOP_num)

lemma sample_entry:
  assumes "valid_page q" "is_index i"
  shows "load64 (sample_mem fl) (q + 8 * i) =
    (if i \<noteq> 0 then 0 else if q = 0x80001000 then PA2PTE 0x80002000 OR PTE_V
     else if q = 0x80002000 then PA2PTE 0x80003000 OR PTE_V
     else if q = 0x80003000 then PA2PTE 0x80004000 OR fl
     else if q = 0x80004000 then 42
     else if q = 0x80005000 then PA2PTE 0x80009000 OR PTE_V
     else if q = 0x80009000 then PA2PTE 0x8000a000 OR PTE_V
     else if q = 0x80006000 then 0x80007000
     else if q = 0x80007000 then 0x80008000 else 0)"
proof -
  have "aligned8 (q + 8 * i)" using assms by (simp add: entry_aligned)
  then show ?thesis using assms by (simp add: sample_load entry_eq_page)
qed

lemma is_path_cases:
  "is_path p \<longleftrightarrow> p = [] \<or> (\<exists>i. p = [i] \<and> is_index i) \<or> (\<exists>i j. p = [i, j] \<and> is_index i \<and> is_index j)"
  by (auto simp: is_path_def le_Suc_eq numeral_2_eq_2 length_Suc_conv)

lemma sample_node:
  assumes "is_path p"
  shows "pt_node (sample_mem fl) 0x80001000 p =
      (if p = [] then Some 0x80001000 else if p = [0] then Some 0x80002000
       else if p = [0, 0] then Some 0x80003000 else None)"
    and "pt_node (sample_mem fl) 0x80005000 p =
      (if p = [] then Some 0x80005000 else if p = [0] then Some 0x80009000
       else if p = [0, 0] then Some 0x8000a000 else None)"
  using assms by (auto simp: is_path_cases sample_entry sample_load Let_def split: if_splits)

lemma sample_index [simp]: "is_index 0"
  by simp

lemma sample_pages:
  "pt_pages (sample_mem fl) 0x80001000 = {0x80001000, 0x80002000, 0x80003000}"
  "pt_pages (sample_mem fl) 0x80005000 = {0x80005000, 0x80009000, 0x8000a000}"
proof -
  have p: "is_path []" "is_path [0]" "is_path [0, 0]" by (simp_all add: is_path_def)
  have "q \<in> pt_pages (sample_mem fl) 0x80001000" if "q \<in> {0x80001000, 0x80002000, 0x80003000}" for q
    using that sample_node(1)[OF p(1), of fl] sample_node(1)[OF p(2), of fl] sample_node(1)[OF p(3), of fl] p
    unfolding pt_pages_def by fastforce
  then show "pt_pages (sample_mem fl) 0x80001000 = {0x80001000, 0x80002000, 0x80003000}"
    by (fastforce simp: pt_pages_def sample_node split: if_splits)
  have "q \<in> pt_pages (sample_mem fl) 0x80005000" if "q \<in> {0x80005000, 0x80009000, 0x8000a000}" for q
    using that sample_node(2)[OF p(1), of fl] sample_node(2)[OF p(2), of fl] sample_node(2)[OF p(3), of fl] p
    unfolding pt_pages_def by fastforce
  then show "pt_pages (sample_mem fl) 0x80005000 = {0x80005000, 0x80009000, 0x8000a000}"
    by (fastforce simp: pt_pages_def sample_node split: if_splits)
qed

lemma sample_wf: "pt_wf (sample_mem fl) 0x80001000" "pt_wf (sample_mem fl) 0x80005000"
  by (auto simp: pt_wf_def sample_pages sample_node split: if_splits)

lemma sample_kmem_inv: "kmem_inv (sample fl) sample_free"
proof -
  have "temp (sample fl) (p div PGSIZE) = (if p \<in> set sample_free then 0 else 1)" if "valid_page p" for p
    using valid_page_neq[OF sample_page(6) that] valid_page_neq[OF sample_page(7) that]
      valid_page_neq[OF sample_page(8) that]
    by (auto simp: sample_def sample_free_def PGSIZE_def)
  moreover have "flist (sample_mem fl) 0x80006000 sample_free"
    by (simp add: sample_free_def sample_load)
  ultimately show ?thesis
    by (auto simp: kmem_inv_def sample_def sample_free_def INT_MAX_def)
qed

lemma sample_pt_state: "pt_state 0x80001000 (sample fl) sample_free" "pt_state 0x80005000 (sample fl) sample_free"
  using sample_kmem_inv sample_wf by (auto simp: pt_state_def sample_pages sample_free_def sample_def)

lemma sample_leaf:
  "leaf (mem (sample fl)) 0x80001000 0 = PA2PTE 0x80004000 OR fl" "leaf (mem (sample fl)) 0x80005000 0 = 0"
proof -
  have "va_path 0 = [0, 0]" "PX 0 0 = 0" by (simp_all add: va_path_def PX_def)
  moreover have "is_path [0, 0]" by (simp add: is_path_def)
  ultimately show "leaf (mem (sample fl)) 0x80001000 0 = PA2PTE 0x80004000 OR fl"
    "leaf (mem (sample fl)) 0x80005000 0 = 0"
    by (simp_all add: leaf_def slot_def sample_node sample_def sample_load)
qed

end
