(* ===== verification/Usercopy.thy ===== *)
theory Usercopy
  imports Uvmcopy
begin

unbundle bit_operations_syntax

text \<open>
  What \<open>copyin\<close> and \<open>copyout\<close> move, stated over the address translation \<open>uaddr\<close> that the page table
  defines, and the round trip between them.
\<close>

section \<open>Translation\<close>

text \<open>The physical page of a user virtual address (0 when it has none), and the physical address.\<close>

definition upage :: "memory \<Rightarrow> uint64 \<Rightarrow> uint64 \<Rightarrow> uint64" where
  "upage m pt va =
     (let e = leaf m pt va in if e AND PTE_V \<noteq> 0 \<and> e AND PTE_U \<noteq> 0 then PTE2PA e else 0)"

definition uaddr :: "memory \<Rightarrow> uint64 \<Rightarrow> uint64 \<Rightarrow> uint64" where
  "uaddr m pt va = upage m pt va + (va - PGROUNDDOWN va)"

lemma walkaddr_lookup: "va < MAXVA \<Longrightarrow> pt_wf (mem s) pt \<Longrightarrow> walkaddr pt va s = Inr (upage (mem s) pt va)"
  using walk_lookup[of va pt s] slot_nonzero[of "mem s" pt va]
  by (auto simp: walkaddr_def upage_def leaf_def Let_def not_le split: option.splits)

lemma upage_PGROUNDDOWN: "va < MAXVA \<Longrightarrow> upage m pt (PGROUNDDOWN va) = upage m pt va"
  by (simp add: upage_def leaf_PGROUNDDOWN)

lemma upage_frame:
  assumes "pt_wf m pt" "\<And>x. PGROUNDDOWN x \<in> pt_pages m pt \<Longrightarrow> m' x = m x"
  shows "upage m' pt va = upage m pt va" "uaddr m' pt va = uaddr m pt va"
  using leaf_frame[OF assms] by (simp_all add: upage_def uaddr_def)

lemma PGROUNDDOWN_uaddr: "page_aligned (upage m pt va) \<Longrightarrow> PGROUNDDOWN (uaddr m pt va) = upage m pt va"
  unfolding uaddr_def by (rule PGROUNDDOWN_add) (simp_all add: unat_page_offset)

text \<open>The addresses of a user buffer, none of which wraps or leaves the user part.\<close>

definition ubuf :: "memory \<Rightarrow> uint64 \<Rightarrow> uint64 \<Rightarrow> uint64 \<Rightarrow> bool" where
  "ubuf m pt va len \<longleftrightarrow> unat va + unat len \<le> unat MAXVA
     \<and> (\<forall>j < unat len. valid_page (upage m pt (va + of_nat j)))"

lemma ubuf_below:
  assumes "ubuf m pt va len" "j < unat len"
  shows "va + of_nat j < MAXVA" "unat (va + of_nat j) = unat va + j" "valid_page (upage m pt (va + of_nat j))"
proof -
  have b: "unat va + unat len \<le> 0x4000000000" using assms(1) by (simp add: ubuf_def MAXVA_num)
  then have "unat (of_nat j :: uint64) = j" using assms(2) by (simp add: unat_of_nat)
  then show u: "unat (va + of_nat j) = unat va + j" using b assms(2) by (simp add: unat_word_ariths)
  then show "va + of_nat j < MAXVA" using b assms(2) by (simp add: word_less_nat_alt MAXVA_num)
  show "valid_page (upage m pt (va + of_nat j))" using assms by (simp add: ubuf_def)
qed

text \<open>Inside the page of \<open>va\<close> the translation is a constant offset.\<close>

lemma uaddr_same_page:
  assumes "va < MAXVA" "j < 4096 - unat va mod 4096" "va + of_nat j < MAXVA"
  shows "uaddr m pt (va + of_nat j) = uaddr m pt va + of_nat j"
proof -
  define o1 where "o1 = va - PGROUNDDOWN va"
  have o1: "unat o1 = unat va mod 4096" "va = PGROUNDDOWN va + o1" by (simp_all add: o1_def unat_page_offset)
  have "unat (o1 + of_nat j) < 4096" using assms(2) o1(1) by (simp add: unat_word_ariths unat_of_nat)
  then have "PGROUNDDOWN (PGROUNDDOWN va + (o1 + of_nat j)) = PGROUNDDOWN va" by (simp add: PGROUNDDOWN_add)
  then have p: "PGROUNDDOWN (va + of_nat j) = PGROUNDDOWN va" by (simp add: o1_def)
  then have "upage m pt (va + of_nat j) = upage m pt va"
    using upage_PGROUNDDOWN[OF assms(1), of m pt] upage_PGROUNDDOWN[OF assms(3), of m pt] by simp
  then show ?thesis using p by (simp add: uaddr_def)
qed

section \<open>copyin\<close>

text \<open>One chunk of the loop, in words of the translation.\<close>

lemma copyin_step:
  assumes wf: "pt_wf (mem s) pt" and u: "ubuf (mem s) pt va len" and len: "0 < len"
  shows "copyin pt dst va len s =
    copyin pt (dst + chunk va len) (PGROUNDDOWN va + PGSIZE) (len - chunk va len)
      (s\<lparr>mem := memmove (mem s) dst (uaddr (mem s) pt va) (unat (chunk va len))\<rparr>)"
proof -
  have "0 < unat len" using len by (simp add: word_less_nat_alt)
  note b = ubuf_below[OF u this]
  have va: "va < MAXVA" using b(1) by simp
  have "walkaddr pt (PGROUNDDOWN va) s = Inr (upage (mem s) pt va)"
    using walkaddr_lookup[OF below_PGROUNDDOWN[OF va] wf] upage_PGROUNDDOWN[OF va] by simp
  moreover have "upage (mem s) pt va \<noteq> 0" using b(3) by (auto simp: valid_page_def)
  ultimately show ?thesis
    using len by (subst copyin.simps) (simp add: Let_def uaddr_def)
qed

text \<open>What is left of the buffer after a chunk.\<close>

lemma ubuf_rest:
  assumes u: "ubuf m pt va len" and len: "0 < len" "chunk va len < len"
  shows "PGROUNDDOWN va + PGSIZE = va + chunk va len" "ubuf m pt (va + chunk va len) (len - chunk va len)"
    "unat (len - chunk va len) = unat len - unat (chunk va len)"
proof -
  have c: "unat (chunk va len) = 4096 - unat va mod 4096" "unat (chunk va len) < unat len"
    using len(2) by (auto simp: unat_chunk word_less_nat_alt min_def split: if_splits)
  show d: "unat (len - chunk va len) = unat len - unat (chunk va len)"
    using len(2) by (simp add: unat_sub word_le_nat_alt word_less_nat_alt)
  have b: "unat va + unat len \<le> 0x4000000000" using u by (simp add: ubuf_def MAXVA_num)
  have v: "unat (va + chunk va len) = unat va + unat (chunk va len)"
    using b c(2) by (simp add: unat_word_ariths)
  have "unat (PGROUNDDOWN va + PGSIZE) = unat va div 4096 * 4096 + 4096"
    using b by (simp add: unat_word_ariths unat_PGROUNDDOWN PGSIZE_def)
  also have "\<dots> = unat va + (4096 - unat va mod 4096)"
    using div_mult_mod_eq[of "unat va" 4096] mod_less_divisor[of 4096 "unat va"] by linarith
  finally show "PGROUNDDOWN va + PGSIZE = va + chunk va len"
    using v c(1) by (simp add: word_unat_eq_iff)
  have "valid_page (upage m pt (va + chunk va len + of_nat j))" if "j < unat (len - chunk va len)" for j
    using ubuf_below(3)[OF u, of "unat (chunk va len) + j"] that d c(2) by (simp add: algebra_simps)
  then show "ubuf m pt (va + chunk va len) (len - chunk va len)"
    using u v d c(2) by (simp add: ubuf_def)
qed

lemma chunk_le: "unat (chunk va len) \<le> unat len"
  by (simp add: unat_chunk)

lemma unat_diff_range:
  fixes k n len :: uint64
  assumes "unat n \<le> unat len"
  shows "unat (k - n) < unat len - unat n \<longleftrightarrow> unat n \<le> unat k \<and> unat k < unat len"
proof (cases "n \<le> k")
  case True
  then show ?thesis using assms by (auto simp: unat_sub word_le_nat_alt)
next
  case False
  then have k: "unat k < unat n" by (simp add: word_le_nat_alt)
  have "unat (k - n) = 18446744073709551616 + unat k - unat n"
    using k by (simp add: unat_sub_if')
  then have "\<not> unat (k - n) < unat len - unat n" using unat_lt_2p64[of len] assms k by linarith
  then show ?thesis using k by simp
qed

lemma copyin_correct:
  assumes "pt_wf (mem s) pt" "ubuf (mem s) pt va len" "unat dst + unat len < 2 ^ 64"
    and "\<And>j. j < unat len \<Longrightarrow> PGROUNDDOWN (dst + of_nat j) \<notin> pt_pages (mem s) pt"
    and "\<And>j i. j < unat len \<Longrightarrow> i < unat len \<Longrightarrow> PGROUNDDOWN (dst + of_nat j) \<noteq> upage (mem s) pt (va + of_nat i)"
  shows "\<exists>m'. copyin pt dst va len s = Inr (0, s\<lparr>mem := m'\<rparr>)
    \<and> (\<forall>x. m' x = (if unat (x - dst) < unat len then mem s (uaddr (mem s) pt (va + (x - dst))) else mem s x))"
  using assms
proof (induction "unat len" arbitrary: len va dst s rule: less_induct)
  case less
  show ?case
  proof (cases "0 < len")
    case False
    then have "unat len = 0" by (simp add: word_less_nat_alt)
    then show ?thesis using False by (subst copyin.simps) (auto intro: exI[of _ "mem s"])
  next
    case True
    define n where "n = chunk va len"
    define m1 where "m1 = memmove (mem s) dst (uaddr (mem s) pt va) (unat n)"
    have lp: "0 < unat len" using True by (simp add: word_less_nat_alt)
    note b0 = ubuf_below[OF less.prems(2) lp]
    have va: "va < MAXVA" and vp: "valid_page (upage (mem s) pt va)" using b0(1,3) by simp_all
    have n: "unat n \<le> unat len" "unat n \<le> 4096 - unat va mod 4096" "0 < unat n"
      using lp by (auto simp: n_def unat_chunk)
    have "unat (uaddr (mem s) pt va) + unat n < 2 ^ 64"
    proof -
      have "unat (uaddr (mem s) pt va) = unat (upage (mem s) pt va) + unat va mod 4096"
        unfolding uaddr_def using vp by (subst unat_add_offset) (simp_all add: unat_page_offset)
      moreover have "unat (upage (mem s) pt va) < 0x88000000"
        using vp by (simp add: valid_page_def PHYSTOP_num word_less_nat_alt)
      ultimately show ?thesis using n(2) mod_less_divisor[of 4096 "unat va"] by simp
    qed
    then have m1: "m1 x = (if unat (x - dst) < unat n then mem s (uaddr (mem s) pt va + (x - dst)) else mem s x)" for x
      unfolding m1_def using less.prems(3) n(1) by (intro memmove_apply) auto
    have tr: "uaddr (mem s) pt va + (x - dst) = uaddr (mem s) pt (va + (x - dst))" if "unat (x - dst) < unat n" for x
      using uaddr_same_page[of va "unat (x - dst)" "mem s" pt] ubuf_below(1)[OF less.prems(2), of "unat (x - dst)"]
        that n va by simp
    have step: "copyin pt dst va len s = copyin pt (dst + n) (PGROUNDDOWN va + PGSIZE) (len - n) (s\<lparr>mem := m1\<rparr>)"
      using copyin_step[OF less.prems(1,2) True] by (simp add: n_def m1_def)
    show ?thesis
    proof (cases "n < len")
      case False
      then have "unat n = unat len" using n(1) by (simp add: word_less_nat_alt)
      then have nl: "n = len" by (simp add: word_unat_eq_iff)
      then have "copyin pt dst va len s = Inr (0, s\<lparr>mem := m1\<rparr>)"
        unfolding step by (subst copyin.simps) simp
      then show ?thesis using m1 tr nl by (intro exI[of _ m1]) auto
    next
      case more: True
      note R = ubuf_rest[OF less.prems(2) True, folded n_def, OF more]
      have frame: "m1 x = mem s x" if "PGROUNDDOWN x \<in> pt_pages (mem s) pt" for x
        using m1[of x] less.prems(4)[of "unat (x - dst)"] that n(1) by auto
      note F = upage_frame[OF less.prems(1) frame] and W = pt_frame[OF less.prems(1) frame]
      have idx: "dst + n + of_nat j = dst + of_nat (unat n + j)" "va + n + of_nat j = va + of_nat (unat n + j)" for j
        by (simp_all add: algebra_simps)
      have ub: "ubuf m1 pt (va + n) (len - n)" using R(2) F(1) by (simp add: ubuf_def)
      have "\<exists>m'. copyin pt (dst + n) (va + n) (len - n) (s\<lparr>mem := m1\<rparr>) = Inr (0, (s\<lparr>mem := m1\<rparr>)\<lparr>mem := m'\<rparr>)
        \<and> (\<forall>x. m' x = (if unat (x - (dst + n)) < unat (len - n)
             then mem (s\<lparr>mem := m1\<rparr>) (uaddr (mem (s\<lparr>mem := m1\<rparr>)) pt (va + n + (x - (dst + n)))) else mem (s\<lparr>mem := m1\<rparr>) x))"
      proof (rule less.hyps)
        show "unat (len - n) < unat len" using R(3) n(3) lp by simp
        show "pt_wf (mem (s\<lparr>mem := m1\<rparr>)) pt" using W(2) by simp
        show "ubuf (mem (s\<lparr>mem := m1\<rparr>)) pt (va + n) (len - n)" using ub by simp
        show "unat (dst + n) + unat (len - n) < 2 ^ 64"
          using less.prems(3) R(3) n(1) by (simp add: unat_word_ariths)
        show "PGROUNDDOWN (dst + n + of_nat j) \<notin> pt_pages (mem (s\<lparr>mem := m1\<rparr>)) pt" if "j < unat (len - n)" for j
          using less.prems(4)[of "unat n + j"] that R(3) W(1) unfolding idx by simp
        show "PGROUNDDOWN (dst + n + of_nat j) \<noteq> upage (mem (s\<lparr>mem := m1\<rparr>)) pt (va + n + of_nat i)"
          if "j < unat (len - n)" "i < unat (len - n)" for i j
          using less.prems(5)[of "unat n + j" "unat n + i"] that R(3) F(1) unfolding idx by simp
      qed
      then obtain m' where m': "copyin pt (dst + n) (va + n) (len - n) (s\<lparr>mem := m1\<rparr>) = Inr (0, s\<lparr>mem := m'\<rparr>)"
        "\<And>x. m' x = (if unat (x - (dst + n)) < unat (len - n) then m1 (uaddr (mem s) pt (va + (x - dst))) else m1 x)"
        using F(2) by (auto simp: algebra_simps)
      have same: "m1 (uaddr (mem s) pt (va + of_nat i)) = mem s (uaddr (mem s) pt (va + of_nat i))"
        if i: "i < unat len" for i
      proof -
        let ?y = "uaddr (mem s) pt (va + of_nat i)"
        have "PGROUNDDOWN ?y = upage (mem s) pt (va + of_nat i)"
          using ubuf_below(3)[OF less.prems(2) i] by (intro PGROUNDDOWN_uaddr) simp
        then have "\<not> unat (?y - dst) < unat n"
          using less.prems(5)[of "unat (?y - dst)" i] i n(1) by auto
        then show ?thesis using m1 by simp
      qed
      have "m' x = (if unat (x - dst) < unat len then mem s (uaddr (mem s) pt (va + (x - dst))) else mem s x)" for x
      proof -
        have rest: "unat (x - (dst + n)) < unat (len - n) \<longleftrightarrow> unat n \<le> unat (x - dst) \<and> unat (x - dst) < unat len"
          unfolding R(3) diff_diff_eq[symmetric] by (rule unat_diff_range[OF n(1)])
        show ?thesis
          using m'(2)[of x] m1[of x] tr[of x] same[of "unat (x - dst)"] n(1) by (auto simp: rest)
      qed
      then show ?thesis using step R(1) m'(1) by auto
    qed
  qed
qed

lemma page_boundary:
  fixes v i j :: nat
  assumes "j < 4096 - v mod 4096"
  shows "(v + (4096 - v mod 4096 + i)) div 4096 * 4096 \<noteq> (v + j) div 4096 * 4096"
proof -
  define q r where "q = v div 4096" and "r = v mod 4096"
  have v: "v = q * 4096 + r" and r: "r < 4096" "j < 4096 - r" using assms by (simp_all add: q_def r_def)
  have "(v + j) div 4096 = q" by (rule div_nat_eqI) (use v r in auto)
  moreover have "v + (4096 - r + i) = (q + 1) * 4096 + i" using v r by simp
  then have "q + 1 \<le> (v + (4096 - r + i)) div 4096" by simp
  ultimately show ?thesis by (simp add: r_def)
qed

section \<open>copyout\<close>

text \<open>
  A user buffer the kernel may write in place: mapped to pages of its own, outside the page table,
  and not copy-on-write.
\<close>

definition wbuf :: "memory \<Rightarrow> uint64 \<Rightarrow> uint64 \<Rightarrow> uint64 \<Rightarrow> bool" where
  "wbuf m pt va len \<longleftrightarrow> ubuf m pt va len
     \<and> (\<forall>j < unat len. leaf m pt (va + of_nat j) AND PTE_COW = 0 \<and> upage m pt (va + of_nat j) \<notin> pt_pages m pt)
     \<and> (\<forall>i < unat len. \<forall>j < unat len. upage m pt (va + of_nat i) = upage m pt (va + of_nat j)
          \<longrightarrow> PGROUNDDOWN (va + of_nat i) = PGROUNDDOWN (va + of_nat j))"

lemma wbufD:
  assumes "wbuf m pt va len"
  shows "ubuf m pt va len" "j < unat len \<Longrightarrow> leaf m pt (va + of_nat j) AND PTE_COW = 0"
    "j < unat len \<Longrightarrow> upage m pt (va + of_nat j) \<notin> pt_pages m pt"
    "i < unat len \<Longrightarrow> j < unat len \<Longrightarrow> upage m pt (va + of_nat i) = upage m pt (va + of_nat j)
       \<Longrightarrow> PGROUNDDOWN (va + of_nat i) = PGROUNDDOWN (va + of_nat j)"
  using assms unfolding wbuf_def by blast+

lemma upage_valid: "upage m pt va \<noteq> 0 \<Longrightarrow> leaf m pt va AND PTE_V \<noteq> 0"
  by (auto simp: upage_def Let_def split: if_splits)

lemma copyout_step:
  assumes wf: "pt_wf (mem s) pt" and u: "wbuf (mem s) pt va len" and len: "0 < len"
  shows "copyout pt va src len s =
    copyout pt (PGROUNDDOWN va + PGSIZE) (src + chunk va len) (len - chunk va len)
      (s\<lparr>mem := memmove (mem s) (uaddr (mem s) pt va) src (unat (chunk va len))\<rparr>)"
proof -
  have lp: "0 < unat len" using len by (simp add: word_less_nat_alt)
  note b = ubuf_below[OF wbufD(1)[OF u] lp]
  have va: "va < MAXVA" using b(1) by simp
  have nz: "upage (mem s) pt va \<noteq> 0" using b(3) by (auto simp: valid_page_def)
  have wa: "walkaddr pt (PGROUNDDOWN va) s = Inr (upage (mem s) pt va)"
    using walkaddr_lookup[OF below_PGROUNDDOWN[OF va] wf] upage_PGROUNDDOWN[OF va] by simp
  obtain a where a: "slot (mem s) pt va = Some a" "leaf (mem s) pt va = load64 (mem s) a"
    using leaf_valid_slot[OF upage_valid[OF nz]] by blast
  have "walk pt (PGROUNDDOWN va) False s = Inr (a, s)"
    using walk_lookup[OF below_PGROUNDDOWN[OF va], of pt s] slot_PGROUNDDOWN[OF va] a(1) by simp
  moreover have "load64 (mem s) a AND PTE_COW = 0" using wbufD(2)[OF u lp] a(2) by simp
  ultimately show ?thesis
    using len wa nz by (subst copyout.simps) (simp add: Let_def uaddr_def)
qed

lemma copyout_correct:
  assumes "pt_wf (mem s) pt" "wbuf (mem s) pt va len" "unat src + unat len < 2 ^ 64"
    and "\<And>j i. j < unat len \<Longrightarrow> i < unat len \<Longrightarrow> PGROUNDDOWN (src + of_nat j) \<noteq> upage (mem s) pt (va + of_nat i)"
  shows "\<exists>m'. copyout pt va src len s = Inr (0, s\<lparr>mem := m'\<rparr>)
    \<and> (\<forall>j < unat len. m' (uaddr (mem s) pt (va + of_nat j)) = mem s (src + of_nat j))
    \<and> (\<forall>x. (\<forall>j < unat len. x \<noteq> uaddr (mem s) pt (va + of_nat j)) \<longrightarrow> m' x = mem s x)"
  using assms
proof (induction "unat len" arbitrary: len va src s rule: less_induct)
  case less
  show ?case
  proof (cases "0 < len")
    case False
    then have "unat len = 0" by (simp add: word_less_nat_alt)
    then show ?thesis using False by (subst copyout.simps) (auto intro: exI[of _ "mem s"])
  next
    case True
    define n where "n = chunk va len"
    define A where "A = uaddr (mem s) pt va"
    define m1 where "m1 = memmove (mem s) A src (unat n)"
    note B = wbufD[OF less.prems(2)]
    have lp: "0 < unat len" using True by (simp add: word_less_nat_alt)
    have va: "va < MAXVA" and vp: "valid_page (upage (mem s) pt va)" using ubuf_below(1,3)[OF B(1) lp] by simp_all
    have n: "unat n \<le> unat len" "unat n \<le> 4096 - unat va mod 4096" "0 < unat n"
      using lp by (auto simp: n_def unat_chunk)
    have tr: "uaddr (mem s) pt (va + of_nat j) = A + of_nat j" "upage (mem s) pt (va + of_nat j) = upage (mem s) pt va"
      if j: "j < unat n" for j
    proof -
      show eq: "uaddr (mem s) pt (va + of_nat j) = A + of_nat j"
        using uaddr_same_page[of va j "mem s" pt] ubuf_below(1)[OF B(1), of j] j n va by (simp add: A_def)
      have off: "unat (va - PGROUNDDOWN va + of_nat j) < 4096"
        using j n by (simp add: unat_word_ariths unat_of_nat unat_page_offset)
      have "PGROUNDDOWN (upage (mem s) pt va + (va - PGROUNDDOWN va + of_nat j)) = upage (mem s) pt va"
        using off vp by (simp add: PGROUNDDOWN_add)
      then have "PGROUNDDOWN (A + of_nat j) = upage (mem s) pt va" by (simp add: A_def uaddr_def algebra_simps)
      moreover have "PGROUNDDOWN (A + of_nat j) = upage (mem s) pt (va + of_nat j)"
        unfolding eq[symmetric] using ubuf_below(3)[OF B(1), of j] j n by (intro PGROUNDDOWN_uaddr) simp
      ultimately show "upage (mem s) pt (va + of_nat j) = upage (mem s) pt va" by simp
    qed
    have "unat A + unat n < 2 ^ 64"
    proof -
      have "unat A = unat (upage (mem s) pt va) + unat va mod 4096"
        unfolding A_def uaddr_def using vp by (subst unat_add_offset) (simp_all add: unat_page_offset)
      moreover have "unat (upage (mem s) pt va) < 0x88000000"
        using vp by (simp add: valid_page_def PHYSTOP_num word_less_nat_alt)
      ultimately show ?thesis using n(2) mod_less_divisor[of 4096 "unat va"] by simp
    qed
    then have m1: "m1 x = (if unat (x - A) < unat n then mem s (src + (x - A)) else mem s x)" for x
      unfolding m1_def using less.prems(3) n(1) by (intro memmove_apply) auto
    have in_page: "PGROUNDDOWN x = upage (mem s) pt va" if "unat (x - A) < unat n" for x
    proof -
      have "PGROUNDDOWN (uaddr (mem s) pt (va + of_nat (unat (x - A)))) = upage (mem s) pt (va + of_nat (unat (x - A)))"
        using ubuf_below(3)[OF B(1), of "unat (x - A)"] that n(1) by (intro PGROUNDDOWN_uaddr) simp
      then show ?thesis unfolding tr[OF that] by simp
    qed
    have m1_at: "m1 (A + of_nat j) = mem s (src + of_nat j)" if "j < unat n" for j
    proof -
      have "j < 18446744073709551616" using that unat_lt_2p64[of n] by linarith
      then have "unat (of_nat j :: uint64) = j" by (simp add: unat_of_nat)
      then show ?thesis using m1[of "A + of_nat j"] that by simp
    qed
    have step: "copyout pt va src len s = copyout pt (PGROUNDDOWN va + PGSIZE) (src + n) (len - n) (s\<lparr>mem := m1\<rparr>)"
      using copyout_step[OF less.prems(1,2) True] by (simp add: n_def m1_def A_def)
    have out1: "m1 x = mem s x" if "\<forall>j < unat len. x \<noteq> uaddr (mem s) pt (va + of_nat j)" for x
    proof -
      have "\<not> unat (x - A) < unat n"
      proof
        assume lt: "unat (x - A) < unat n"
        then have "x = uaddr (mem s) pt (va + of_nat (unat (x - A)))" using tr(1)[OF lt] by simp
        then show False using that lt n(1) by (meson less_le_trans)
      qed
      then show ?thesis using m1 by simp
    qed
    show ?thesis
    proof (cases "n < len")
      case False
      then have "unat n = unat len" using n(1) by (simp add: word_less_nat_alt)
      then have nl: "n = len" by (simp add: word_unat_eq_iff)
      then have "copyout pt va src len s = Inr (0, s\<lparr>mem := m1\<rparr>)"
        unfolding step by (subst copyout.simps) simp
      then show ?thesis using m1_at tr(1) out1 nl by (intro exI[of _ m1]) auto
    next
      case more: True
      note R = ubuf_rest[OF B(1) True, folded n_def, OF more]
      have frame: "m1 x = mem s x" if "PGROUNDDOWN x \<in> pt_pages (mem s) pt" for x
        using m1[of x] in_page[of x] B(3)[of 0] lp that by auto
      note F = upage_frame[OF less.prems(1) frame] and W = pt_frame[OF less.prems(1) frame]
        and L = leaf_frame[OF less.prems(1) frame]
      have idx: "va + n + of_nat j = va + of_nat (unat n + j)" "src + n + of_nat j = src + of_nat (unat n + j)" for j
        by (simp_all add: algebra_simps)
      have wb: "wbuf m1 pt (va + n) (len - n)"
      proof -
        have j: "leaf m1 pt (va + n + of_nat j) AND PTE_COW = 0 \<and> upage m1 pt (va + n + of_nat j) \<notin> pt_pages m1 pt"
          if "j < unat (len - n)" for j
          using B(2)[of "unat n + j"] B(3)[of "unat n + j"] that R(3) by (simp add: idx L F(1) W(1) del: of_nat_add)
        have "PGROUNDDOWN (va + n + of_nat i) = PGROUNDDOWN (va + n + of_nat j)"
          if "i < unat (len - n)" "j < unat (len - n)" "upage m1 pt (va + n + of_nat i) = upage m1 pt (va + n + of_nat j)" for i j
          using B(4)[of "unat n + i" "unat n + j"] that R(3) by (simp add: idx F(1) del: of_nat_add)
        moreover have "ubuf m1 pt (va + n) (len - n)" using R(2) F(1) by (simp add: ubuf_def)
        ultimately show ?thesis unfolding wbuf_def using j by blast
      qed
      have src1: "m1 (src + of_nat j) = mem s (src + of_nat j)" if "j < unat len" for j
        using m1[of "src + of_nat j"] in_page[of "src + of_nat j"] less.prems(4)[OF that lp] by auto
      have "\<exists>m'. copyout pt (va + n) (src + n) (len - n) (s\<lparr>mem := m1\<rparr>) = Inr (0, (s\<lparr>mem := m1\<rparr>)\<lparr>mem := m'\<rparr>)
        \<and> (\<forall>j < unat (len - n). m' (uaddr (mem (s\<lparr>mem := m1\<rparr>)) pt (va + n + of_nat j)) = mem (s\<lparr>mem := m1\<rparr>) (src + n + of_nat j))
        \<and> (\<forall>x. (\<forall>j < unat (len - n). x \<noteq> uaddr (mem (s\<lparr>mem := m1\<rparr>)) pt (va + n + of_nat j)) \<longrightarrow> m' x = mem (s\<lparr>mem := m1\<rparr>) x)"
      proof (rule less.hyps)
        show "unat (len - n) < unat len" using R(3) n(3) lp by simp
        show "pt_wf (mem (s\<lparr>mem := m1\<rparr>)) pt" "wbuf (mem (s\<lparr>mem := m1\<rparr>)) pt (va + n) (len - n)" using W(2) wb by simp_all
        show "unat (src + n) + unat (len - n) < 2 ^ 64"
          using less.prems(3) R(3) n(1) by (simp add: unat_word_ariths)
        show "PGROUNDDOWN (src + n + of_nat j) \<noteq> upage (mem (s\<lparr>mem := m1\<rparr>)) pt (va + n + of_nat i)"
          if "j < unat (len - n)" "i < unat (len - n)" for i j
          using less.prems(4)[of "unat n + j" "unat n + i"] that R(3) F(1) unfolding idx by simp
      qed
      then obtain m' where m': "copyout pt (va + n) (src + n) (len - n) (s\<lparr>mem := m1\<rparr>) = Inr (0, s\<lparr>mem := m'\<rparr>)"
        "\<And>j. j < unat len - unat n \<Longrightarrow> m' (uaddr (mem s) pt (va + of_nat (unat n + j))) = m1 (src + of_nat (unat n + j))"
        "\<And>x. (\<forall>j < unat len - unat n. x \<noteq> uaddr (mem s) pt (va + of_nat (unat n + j))) \<Longrightarrow> m' x = m1 x"
        unfolding idx R(3) using F(2) by auto
      have keep: "m' (A + of_nat j) = m1 (A + of_nat j)" if j: "j < unat n" for j
      proof (rule m'(3), intro allI impI notI)
        fix i assume i: "i < unat len - unat n" "A + of_nat j = uaddr (mem s) pt (va + of_nat (unat n + i))"
        have ij: "unat n + i < unat len" "j < unat len" using i(1) j n(1) by auto
        have "upage (mem s) pt (va + of_nat (unat n + i)) = upage (mem s) pt (va + of_nat j)"
          using i(2) tr(1)[OF j] PGROUNDDOWN_uaddr[of "mem s" pt "va + of_nat (unat n + i)"]
            PGROUNDDOWN_uaddr[of "mem s" pt "va + of_nat j"] ubuf_below(3)[OF B(1) ij(1)] ubuf_below(3)[OF B(1) ij(2)]
          by auto
        then have pg: "PGROUNDDOWN (va + of_nat (unat n + i)) = PGROUNDDOWN (va + of_nat j)" using B(4)[OF ij] by simp
        have "unat (va + of_nat (unat n + i)) div 4096 * 4096 = unat (va + of_nat j) div 4096 * 4096"
          using arg_cong[OF pg, of unat] by (simp add: unat_PGROUNDDOWN)
        moreover have "unat n = 4096 - unat va mod 4096"
          using more n(1) by (auto simp: n_def unat_chunk word_less_nat_alt min_def split: if_splits)
        ultimately show False
          using page_boundary[of j "unat va" i] j
          unfolding ubuf_below(2)[OF B(1) ij(1)] ubuf_below(2)[OF B(1) ij(2)] by simp
      qed
      have "m' (uaddr (mem s) pt (va + of_nat j)) = mem s (src + of_nat j)" if j: "j < unat len" for j
      proof (cases "j < unat n")
        case True
        then show ?thesis using keep m1_at tr(1) by simp
      next
        case False
        then show ?thesis using m'(2)[of "j - unat n"] j src1[OF j] by simp
      qed
      moreover have "m' x = mem s x" if x: "\<forall>j < unat len. x \<noteq> uaddr (mem s) pt (va + of_nat j)" for x
      proof -
        have "x \<noteq> uaddr (mem s) pt (va + of_nat (unat n + j))" if "j < unat len - unat n" for j
          using x that by (simp only: less_diff_conv add.commute) blast
        then show ?thesis using m'(3)[of x] out1[OF x] by simp
      qed
      ultimately show ?thesis using step R(1) m'(1) by auto
    qed
  qed
qed

section \<open>Single bytes\<close>

lemma chunk_1: "chunk va 1 = 1"
  by (simp add: word_unat_eq_iff unat_chunk)

lemma memmove_1: "memmove m dst src 1 = m(dst := m src)"
proof -
  have "\<not> (src < dst \<and> dst < src + 1)"
    by (metis add.commute inc_le not_less)
  then show ?thesis by (simp add: memmove_def)
qed

lemma ubuf_1: "ubuf m pt va 1 \<longleftrightarrow> va < MAXVA \<and> valid_page (upage m pt va)"
  by (auto simp: ubuf_def word_less_nat_alt)

lemma copyin_byte:
  assumes "pt_wf (mem s) pt" "va < MAXVA" "valid_page (upage (mem s) pt va)"
  shows "copyin pt dst va 1 s = Inr (0, s\<lparr>mem := (mem s)(dst := mem s (uaddr (mem s) pt va))\<rparr>)"
  using copyin_step[OF assms(1), of va 1 dst] assms(2,3)
  by (simp add: ubuf_1 chunk_1 memmove_1[unfolded One_nat_def] copyin.simps)

lemma wbuf_1:
  "wbuf m pt va 1 \<longleftrightarrow> va < MAXVA \<and> valid_page (upage m pt va) \<and> leaf m pt va AND PTE_COW = 0
     \<and> upage m pt va \<notin> pt_pages m pt"
  by (auto simp: wbuf_def ubuf_1)

lemma copyout_byte:
  assumes "pt_wf (mem s) pt" "va < MAXVA" "valid_page (upage (mem s) pt va)" "leaf (mem s) pt va AND PTE_COW = 0"
    "upage (mem s) pt va \<notin> pt_pages (mem s) pt"
  shows "copyout pt va src 1 s = Inr (0, s\<lparr>mem := (mem s)(uaddr (mem s) pt va := mem s src)\<rparr>)"
  using copyout_step[OF assms(1), of va 1 src] assms(2-5)
  by (simp add: wbuf_1 chunk_1 memmove_1[unfolded One_nat_def] copyout.simps)

lemma copyin_unmapped:
  assumes "pt_wf (mem s) pt" "va < MAXVA" "upage (mem s) pt va = 0" "0 < len"
  shows "copyin pt dst va len s = Inr (-1, s)" "copyout pt va src len s = Inr (-1, s)"
proof -
  have "walkaddr pt (PGROUNDDOWN va) s = Inr 0"
    using walkaddr_lookup[OF below_PGROUNDDOWN[OF assms(2)] assms(1)] upage_PGROUNDDOWN[OF assms(2)] assms(3) by simp
  then show "copyin pt dst va len s = Inr (-1, s)" "copyout pt va src len s = Inr (-1, s)"
    using assms(4) by (simp_all add: copyin.simps copyout.simps Let_def)
qed

text \<open>
  \<open>copyout\<close> ignores the result of \<open>custom_cow\<close>: on a copy-on-write page with no free page left it
  writes into the page that is still shared, and reports success.
\<close>

lemma copyout_shared_byte:
  assumes wf: "pt_wf (mem s) pt" and va: "va < MAXVA" and vp: "valid_page (upage (mem s) pt va)"
    and cow: "leaf (mem s) pt va AND PTE_COW \<noteq> 0" and full: "freelist s = 0"
  shows "copyout pt va src 1 s = Inr (0, s\<lparr>mem := (mem s)(uaddr (mem s) pt va := mem s src)\<rparr>)"
proof -
  have nz: "upage (mem s) pt va \<noteq> 0" using vp by (auto simp: valid_page_def)
  note V = upage_valid[OF nz]
  obtain a where a: "slot (mem s) pt va = Some a" "leaf (mem s) pt va = load64 (mem s) a"
    using leaf_valid_slot[OF V] by blast
  have wa: "walkaddr pt (PGROUNDDOWN va) s = Inr (upage (mem s) pt va)"
    using walkaddr_lookup[OF below_PGROUNDDOWN[OF va] wf] upage_PGROUNDDOWN[OF va] by simp
  have w: "walk pt (PGROUNDDOWN va) False s = Inr (a, s)"
    using walk_lookup[OF below_PGROUNDDOWN[OF va], of pt s] slot_PGROUNDDOWN[OF va] a(1) by simp
  have "custom_cow pt (PGROUNDDOWN va) s = Inr (1, s)"
    by (rule custom_cow_refuses[OF wf below_PGROUNDDOWN[OF va]]) (use V full in \<open>simp_all add: leaf_PGROUNDDOWN[OF va]\<close>)
  then have "copyout pt va src 1 s =
      copyout pt (PGROUNDDOWN va + PGSIZE) (src + 1) 0 (s\<lparr>mem := (mem s)(uaddr (mem s) pt va := mem s src)\<rparr>)"
    using wa nz w cow a(2)
    by (subst copyout.simps) (simp add: Let_def chunk_1 memmove_1[unfolded One_nat_def] uaddr_def)
  then show ?thesis by (simp add: copyout.simps)
qed

section \<open>The round trip\<close>

lemma copy_round_trip:
  assumes wf: "pt_wf (mem s) pt" and wb: "wbuf (mem s) pt va len"
    and src: "unat src + unat len < 2 ^ 64"
      "\<And>j i. j < unat len \<Longrightarrow> i < unat len \<Longrightarrow> PGROUNDDOWN (src + of_nat j) \<noteq> upage (mem s) pt (va + of_nat i)"
    and dst: "unat dst + unat len < 2 ^ 64"
      "\<And>j. j < unat len \<Longrightarrow> PGROUNDDOWN (dst + of_nat j) \<notin> pt_pages (mem s) pt"
      "\<And>j i. j < unat len \<Longrightarrow> i < unat len \<Longrightarrow> PGROUNDDOWN (dst + of_nat j) \<noteq> upage (mem s) pt (va + of_nat i)"
  shows "\<exists>m1 m2. copyout pt va src len s = Inr (0, s\<lparr>mem := m1\<rparr>)
    \<and> copyin pt dst va len (s\<lparr>mem := m1\<rparr>) = Inr (0, s\<lparr>mem := m2\<rparr>)
    \<and> (\<forall>j < unat len. m2 (dst + of_nat j) = mem s (src + of_nat j))"
proof -
  obtain m1 where m1: "copyout pt va src len s = Inr (0, s\<lparr>mem := m1\<rparr>)"
    "\<And>j. j < unat len \<Longrightarrow> m1 (uaddr (mem s) pt (va + of_nat j)) = mem s (src + of_nat j)"
    "\<And>x. (\<forall>j < unat len. x \<noteq> uaddr (mem s) pt (va + of_nat j)) \<Longrightarrow> m1 x = mem s x"
    using copyout_correct[OF wf wb src] by blast
  note B = wbufD[OF wb]
  have frame: "m1 x = mem s x" if "PGROUNDDOWN x \<in> pt_pages (mem s) pt" for x
  proof (rule m1(3), intro allI impI notI)
    fix j assume j: "j < unat len" "x = uaddr (mem s) pt (va + of_nat j)"
    have "PGROUNDDOWN x = upage (mem s) pt (va + of_nat j)"
      unfolding j(2) using ubuf_below(3)[OF B(1) j(1)] by (intro PGROUNDDOWN_uaddr) simp
    then show False using that B(3)[OF j(1)] by simp
  qed
  note F = upage_frame[OF wf frame] and W = pt_frame[OF wf frame]
  have ub: "ubuf m1 pt va len" using B(1) F(1) by (simp add: ubuf_def)
  obtain m2 where m2: "copyin pt dst va len (s\<lparr>mem := m1\<rparr>) = Inr (0, (s\<lparr>mem := m1\<rparr>)\<lparr>mem := m2\<rparr>)"
    "\<And>x. m2 x = (if unat (x - dst) < unat len then m1 (uaddr m1 pt (va + (x - dst))) else m1 x)"
    using copyin_correct[of "s\<lparr>mem := m1\<rparr>" pt va len dst] W ub dst F(1) by auto
  have "m2 (dst + of_nat j) = mem s (src + of_nat j)" if j: "j < unat len" for j
  proof -
    have "unat (of_nat j :: uint64) = j" using j unat_lt_2p64[of len] by (simp add: unat_of_nat less_trans)
    then show ?thesis using m2(2)[of "dst + of_nat j"] m1(2)[OF j] j F(2) by simp
  qed
  then show ?thesis using m1(1) m2(1) by auto
qed

end
