(* ===== verification/Memory_Props.thy ===== *)
theory Memory_Props
  imports Sample Usercopy
begin

unbundle bit_operations_syntax

text \<open>
  The properties of physical memory and address spaces: booting the page allocator, mapping,
  unmapping, the copy-on-write fork and the page-fault copy, each with an instance on the concrete
  state of \<open>Sample\<close>.
\<close>

lemma vpages_one_page: "vpages 0 4096 = {0}"
proof -
  have "vpages 4096 4096 = {}" by (rule vpages_empty) simp
  then show ?thesis
    using vpages_step(1)[of 0 4096] by (simp add: PGROUNDDOWN_def PGSIZE_def MAXVA_num)
qed

lemma sample_copy_pre: "copy_pre 0x80001000 0x80005000 4096 (sample 0x17) sample_free"
proof -
  have [simp]: "PTE2PA (PA2PTE 0x80004000 OR 0x17) = 0x80004000"
    by (simp add: PTE2PA_def PA2PTE_def)
  show ?thesis
    by (simp add: copy_pre_def sample_pt_state user_range_def mapped_def vpages_one_page sample_leaf
        MAXVA_num, simp add: sample_pages sample_free_def sample_def PA2PTE_def PTE_V_def PTE_FLAGS_def
        PGSIZE_def INT_MAX_def)
qed

text \<open>
  C1. The copy-on-write fork. Given two disjoint well-formed page tables, a parent range mapped to
  pages in use and an empty child, \<open>uvmcopy\<close> never panics. Either it returns 0: both tables map
  every page of the range to the same physical page, neither with write permission, a page that
  was writable is marked \<open>PTE_COW\<close> in both, and the count of each page has gone up by one. Or
  it returns -1: the child maps what it mapped before and every count is as before. The parent is not
  put back then: each of its entries still maps the page it mapped, but is either as before or, inside the range,
  already without write permission and marked \<open>PTE_COW\<close> if it was writable. In both cases
  no user page (nothing outside the tables and the free pages) has changed.
\<close>

theorem uvmcopy_shares:
  assumes pre: "copy_pre old new sz s ps"
  shows "\<exists>r s' ps'. uvmcopy old new sz s = Inr (r, s') \<and> pt_state old s' ps' \<and> pt_state new s' ps'
    \<and> (\<forall>x. PGROUNDDOWN x \<notin> pt_pages (mem s) old \<union> pt_pages (mem s) new \<union> set ps \<longrightarrow> mem s' x = mem s x)
    \<and> (r = 0 \<and> (\<forall>v \<in> vpages 0 sz.
          PTE2PA (leaf (mem s') old v) = PTE2PA (leaf (mem s) old v)
          \<and> PTE2PA (leaf (mem s') new v) = PTE2PA (leaf (mem s) old v)
          \<and> leaf (mem s') old v AND PTE_W = 0 \<and> leaf (mem s') new v AND PTE_W = 0
          \<and> (leaf (mem s) old v AND PTE_W \<noteq> 0 \<longrightarrow>
               leaf (mem s') old v AND PTE_COW \<noteq> 0 \<and> leaf (mem s') new v AND PTE_COW \<noteq> 0)
          \<and> temp s' (PTE2PA (leaf (mem s) old v) div PGSIZE)
              = temp s (PTE2PA (leaf (mem s) old v) div PGSIZE) + 1)
       \<or> r = -1 \<and> (\<forall>v < MAXVA. leaf (mem s') new v = leaf (mem s) new v)
          \<and> (\<forall>q. valid_page q \<and> q \<notin> set ps \<longrightarrow> temp s' (q div PGSIZE) = temp s (q div PGSIZE))
          \<and> (\<forall>v < MAXVA. PTE2PA (leaf (mem s') old v) = PTE2PA (leaf (mem s) old v)
               \<and> (leaf (mem s') old v = leaf (mem s) old v
                  \<or> PGROUNDDOWN v \<in> vpages 0 sz \<and> leaf (mem s') old v AND PTE_W = 0
                    \<and> (leaf (mem s) old v AND PTE_W \<noteq> 0 \<longrightarrow> leaf (mem s') old v AND PTE_COW \<noteq> 0))))"
proof -
  obtain r s' ps' where u: "uvmcopy old new sz s = Inr (r, s')"
    and R: "r = 0 \<and> copy_inv old new s ps (vpages 0 sz) (vpages 0 sz) (vpages 0 sz) s' ps'
       \<or> r = -1 \<and> (\<exists>Dp \<subseteq> vpages 0 sz. copy_inv old new s ps Dp {} {} s' ps')"
    using uvmcopy_correct[OF pre] by blast
  then obtain Dp Dc Dt where inv: "copy_inv old new s ps Dp Dc Dt s' ps'"
    and D: "r = 0 \<and> Dp = vpages 0 sz \<and> Dc = vpages 0 sz \<and> Dt = vpages 0 sz
      \<or> r = -1 \<and> Dp \<subseteq> vpages 0 sz \<and> Dc = {} \<and> Dt = {}"
    by blast
  note I = copy_invD[OF inv]
  have ok: "PTE2PA (leaf (mem s') old v) = PTE2PA (leaf (mem s) old v)
          \<and> PTE2PA (leaf (mem s') new v) = PTE2PA (leaf (mem s) old v)
          \<and> leaf (mem s') old v AND PTE_W = 0 \<and> leaf (mem s') new v AND PTE_W = 0
          \<and> (leaf (mem s) old v AND PTE_W \<noteq> 0 \<longrightarrow>
               leaf (mem s') old v AND PTE_COW \<noteq> 0 \<and> leaf (mem s') new v AND PTE_COW \<noteq> 0)
          \<and> temp s' (PTE2PA (leaf (mem s) old v) div PGSIZE)
              = temp s (PTE2PA (leaf (mem s) old v) div PGSIZE) + 1"
    if r: "r = 0" and v: "v \<in> vpages 0 sz" for v
    using copy_preD[OF pre v] I(6-8) D r v
    by (auto simp: parent_entry_readonly child_entry_readonly entries_cow)
  have undone: "\<forall>v < MAXVA. leaf (mem s') new v = leaf (mem s) new v"
    "\<forall>q. valid_page q \<and> q \<notin> set ps \<longrightarrow> temp s' (q div PGSIZE) = temp s (q div PGSIZE)" if "r = -1"
    using I(7,8) D that by auto
  have parent: "PTE2PA (leaf (mem s') old v) = PTE2PA (leaf (mem s) old v)
      \<and> (leaf (mem s') old v = leaf (mem s) old v
         \<or> PGROUNDDOWN v \<in> vpages 0 sz \<and> leaf (mem s') old v AND PTE_W = 0
           \<and> (leaf (mem s) old v AND PTE_W \<noteq> 0 \<longrightarrow> leaf (mem s') old v AND PTE_COW \<noteq> 0))"
    if "r = -1" "v < MAXVA" for v
    using I(6)[OF that(2)] D that(1) by (auto simp: parent_entry_readonly entries_cow)
  consider "r = 0" | "r = -1" using D by blast
  then show ?thesis
  proof cases
    case 1
    show ?thesis by (rule exI[of _ r], rule exI[of _ s'], rule exI[of _ ps']) (use 1 u I(1,2,9) ok[OF 1] in simp)
  next
    case 2
    show ?thesis by (rule exI[of _ r], rule exI[of _ s'], rule exI[of _ ps']) (use 2 u I(1,2,9) undone[OF 2] parent[OF 2] in simp)
  qed
qed

theorem uvmcopy_shares_witness:
  "copy_pre 0x80001000 0x80005000 4096 (sample 0x17) sample_free
   \<and> (\<exists>r s' ps'. uvmcopy 0x80001000 0x80005000 4096 (sample 0x17) = Inr (r, s')
        \<and> pt_state 0x80001000 s' ps' \<and> pt_state 0x80005000 s' ps')"
  using sample_copy_pre uvmcopy_shares[OF sample_copy_pre] by blast

lemma sample_slot:
  "slot (sample_mem fl) 0x80001000 0 = Some 0x80003000" "slot (sample_mem fl) 0x80005000 0 = Some 0x8000a000"
proof -
  have "va_path 0 = [0, 0]" "PX 0 0 = 0" "is_path [0, 0]" by (simp_all add: va_path_def PX_def is_path_def)
  then show "slot (sample_mem fl) 0x80001000 0 = Some 0x80003000"
    "slot (sample_mem fl) 0x80005000 0 = Some 0x8000a000"
    by (simp_all add: slot_def sample_load Let_def)
qed

lemma sample_fork: "\<exists>s1. uvmcopy 0x80001000 0x80005000 4096 (sample 0x17) = Inr (0, s1) \<and> freelist s1 \<noteq> 0"
proof -
  have px: "PX 0 0 = 0" "PX 1 0 = 0" "PX 2 0 = 0" by (simp_all add: PX_def)
  have e: "PTE2PA (PA2PTE 0x80004000 OR 0x17) = 0x80004000" "(PA2PTE 0x80004000 OR 0x17) AND PTE_V = 1"
    "PTE_FLAGS (PA2PTE 0x80004000 OR 0x17) = 0x17" "PA2PTE 0x80004000 = 0x20001000"
    by (simp_all add: PTE2PA_def PA2PTE_def PTE_V_def PTE_FLAGS_def)
  have w: "walk 0x80001000 0 False (sample fl) = Inr (0x80003000, sample fl)" for fl
    using walk_lookup[of 0 "0x80001000" "sample fl"] sample_slot by (simp add: MAXVA_num sample_def)
  define s1 where "s1 = (sample 0x17)\<lparr>mem := store64 (sample_mem 0x17) 0x80003000 0x20001033\<rparr>"
  define s2 where "s2 = s1\<lparr>mem := store64 (mem s1) 0x8000a000 0x20001033\<rparr>"
  have m1: "load64 (mem s1) 0x80005000 = PA2PTE 0x80009000 OR PTE_V"
    "load64 (mem s1) 0x80009000 = PA2PTE 0x8000a000 OR PTE_V" "load64 (mem s1) 0x8000a000 = 0"
    by (simp_all add: s1_def load64_store64_other sample_load)
  have "walk 0x80005000 0 True s1 = Inr (0x8000a000, s1)"
  proof -
    have "\<not> MAXVA \<le> 0" by (simp add: MAXVA_num)
    moreover have "walk_level (Suc (Suc 0)) 0x80005000 0 True s1 = Inr (0x8000a000, s1)"
      using px m1 by (simp add: numeral_2_eq_2)
    ultimately show ?thesis by (simp only: walk_def numeral_2_eq_2 if_False)
  qed
  then have map: "mappages 0x80005000 0 PGSIZE 0x80004000 0x33 s1 = Inr (0, s2)"
    unfolding mappages_def
    by (subst mappages_loop.simps) (simp add: m1 e PGROUNDDOWN_def PGSIZE_def PTE_V_def s2_def)
  have cnt: "check_and_increment 0x80004 s2 = Inr (s2\<lparr>temp := (temp s2)(0x80004 := 2)\<rparr>)"
    by (simp add: check_and_increment_def TEMP_num s2_def s1_def sample_def i32_def)
  have "uvmcopy 0x80001000 0x80005000 4096 (sample 0x17) = Inr (0, s2\<lparr>temp := (temp s2)(0x80004 := 2)\<rparr>)"
  proof -
    have stop: "uvmcopy_loop 0x80001000 0x80005000 4096 4096 s = Inr (0, s)" for s
      by (subst uvmcopy_loop.simps) simp
    have l: "mem (sample 0x17) = sample_mem 0x17" "load64 (sample_mem 0x17) 0x80003000 = 0x20001017"
      using e(4) by (simp_all add: sample_def sample_load)
    show ?thesis
      using w[of "0x17"] stop map cnt l unfolding uvmcopy_def PGSIZE_def
      by (subst uvmcopy_loop.simps)
        (simp add: PGSIZE_def PTE2PA_def PA2PTE_def PTE_V_def PTE_FLAGS_def PTE_W_def PTE_COW_def s1_def)
  qed
  then show ?thesis by (simp add: s2_def s1_def sample_def)
qed

text \<open>
  C2. Isolation after a fork. When \<open>uvmcopy\<close> has succeeded and the child then faults on a page
  that was writable before the fork, with a free page left, \<open>custom_cow\<close> gives the child a
  fresh page that is writable, no longer copy-on-write and holds the parent's bytes, while the
  parent's page table still says what it said, the parent's page has kept its contents and its
  count is back to what it was before the fork.
\<close>

theorem fork_fault_isolates:
  assumes pre: "copy_pre old new sz s ps" and fork: "uvmcopy old new sz s = Inr (0, s1)"
    and v: "v \<in> vpages 0 sz" and w: "leaf (mem s) old v AND PTE_W \<noteq> 0" and mem: "freelist s1 \<noteq> 0"
    and pa: "pa = PTE2PA (leaf (mem s) old v)"
  shows "\<exists>s2 pg. custom_cow new v s1 = Inr (0, s2) \<and> PTE2PA (leaf (mem s2) new v) = pg \<and> pg \<noteq> pa
    \<and> leaf (mem s2) new v AND PTE_W \<noteq> 0 \<and> leaf (mem s2) new v AND PTE_COW = 0
    \<and> (\<forall>k < 4096. mem s2 (pg + of_nat k) = mem s (pa + of_nat k))
    \<and> (\<forall>k < 4096. mem s2 (pa + of_nat k) = mem s (pa + of_nat k))
    \<and> (\<forall>u. leaf (mem s2) old u = leaf (mem s1) old u)
    \<and> temp s2 (pa div PGSIZE) = temp s (pa div PGSIZE) \<and> temp s2 (pg div PGSIZE) = 1"
proof -
  obtain ps1 where "copy_inv old new s ps (vpages 0 sz) (vpages 0 sz) (vpages 0 sz) s1 ps1"
    using uvmcopy_correct[OF pre] fork by auto
  then show ?thesis using fork_then_fault[OF pre _ v w mem pa] by blast
qed

theorem fork_fault_isolates_witness:
  "\<exists>s1 s2. uvmcopy 0x80001000 0x80005000 4096 (sample 0x17) = Inr (0, s1)
     \<and> custom_cow 0x80005000 0 s1 = Inr (0, s2) \<and> leaf (mem s2) 0x80005000 0 AND PTE_W \<noteq> 0"
proof -
  obtain s1 where s1: "uvmcopy 0x80001000 0x80005000 4096 (sample 0x17) = Inr (0, s1)" "freelist s1 \<noteq> 0"
    using sample_fork by blast
  have "leaf (mem (sample 0x17)) 0x80001000 0 AND PTE_W \<noteq> 0"
    by (simp add: sample_leaf PA2PTE_def PTE_W_def)
  then show ?thesis
    using fork_fault_isolates[OF sample_copy_pre s1(1) _ _ s1(2) refl, of 0] s1(1)
    by (auto simp: vpages_one_page)
qed

text \<open>
  Unmapping with \<open>do_free\<close> a page-aligned range that is mapped to pages of its own never
  panics; it clears exactly the entries of the range, takes one reference from each page, and puts
  on the free list exactly the pages whose last reference it was. Shared pages keep their bytes.
\<close>

theorem uvmunmap_releases:
  assumes st: "pt_state pt s ps" and a: "page_aligned a" and e: "unat a + 4096 * unat n \<le> unat MAXVA"
    and ur: "user_range pt a (a + n * PGSIZE) s ps"
  shows "\<exists>s' ps'. uvmunmap pt a n True s = Inr s' \<and> pt_state pt s' ps'
    \<and> (\<forall>v < MAXVA. leaf (mem s') pt v =
          (if PGROUNDDOWN v \<in> vpages a (a + n * PGSIZE) then 0 else leaf (mem s) pt v))
    \<and> set ps' = set ps \<union> {q \<in> mapped (mem s) pt a (a + n * PGSIZE). temp s (q div PGSIZE) = 1}
    \<and> (\<forall>q. valid_page q \<longrightarrow> temp s' (q div PGSIZE) =
          temp s (q div PGSIZE) - (if q \<in> mapped (mem s) pt a (a + n * PGSIZE) then 1 else 0))
    \<and> (\<forall>x. PGROUNDDOWN x \<notin> pt_pages (mem s) pt \<longrightarrow>
          PGROUNDDOWN x \<notin> mapped (mem s) pt a (a + n * PGSIZE) \<or> 1 < temp s (PGROUNDDOWN x div PGSIZE)
          \<longrightarrow> mem s' x = mem s x)"
proof -
  have "unat (n * PGSIZE) = 4096 * unat n" using e by (simp add: unat_word_ariths PGSIZE_def MAXVA_num)
  then have "unat (a + n * PGSIZE) = unat a + 4096 * unat n"
    using e by (simp add: unat_word_ariths MAXVA_num)
  then have "a + n * PGSIZE \<le> MAXVA" using e by (simp add: word_le_nat_alt)
  note U = uvmunmap_loop_frees[OF st ur a this]
  have "unat a mod 4096 = 0" using a by (simp only: page_aligned_iff dvd_eq_mod_eq_0)
  then have "a mod PGSIZE = 0" by (simp add: word_unat_eq_iff unat_mod_distrib PGSIZE_def)
  then show ?thesis using U unfolding uvmunmap_def by auto
qed

theorem uvmunmap_releases_witness:
  "\<exists>s' ps'. uvmunmap 0x80001000 0 1 True (sample 0x17) = Inr s' \<and> pt_state 0x80001000 s' ps'
     \<and> set ps' = set sample_free \<union> {0x80004000}"
proof -
  have m: "mapped (mem (sample 0x17)) 0x80001000 0 4096 = {0x80004000}"
    by (simp add: mapped_def vpages_one_page sample_leaf PTE2PA_def PA2PTE_def)
  have "user_range 0x80001000 0 4096 (sample 0x17) sample_free"
    using sample_copy_pre by (simp add: copy_pre_def)
  moreover have "temp (sample 0x17) (0x80004000 div PGSIZE) = 1" by (simp add: sample_def PGSIZE_def)
  ultimately show ?thesis
    using uvmunmap_releases[OF sample_pt_state(1), of 0 1 "0x17"] m
    by (fastforce simp: PGROUNDDOWN_def PGSIZE_def MAXVA_num)
qed

text \<open>
  Booting the allocator: from an empty list, \<open>kinit\<close> never panics and leaves on the free list
  exactly the whole pages between the end of the kernel and \<open>PHYSTOP\<close>, each with count 0, and
  every other page with a positive count.
\<close>

theorem kinit_frees_ram:
  assumes "freelist s = 0" "kend \<le> PHYSTOP" "PGROUNDUP kend \<noteq> 0"
  shows "\<exists>s' ps. kinit kend s = Inr s' \<and> kmem_inv s' ps \<and> set ps = pages_between (PGROUNDUP kend) PHYSTOP"
  using kinit_correct[OF assms] .

theorem kinit_frees_ram_witness:
  "\<exists>s' ps. kinit 0x80022000 \<lparr>mem = (\<lambda>_. 0), freelist = 0, temp = (\<lambda>_. 0)\<rparr> = Inr s' \<and> kmem_inv s' ps
     \<and> set ps = pages_between (PGROUNDUP 0x80022000) PHYSTOP"
  using kinit_frees_ram[of "\<lparr>mem = (\<lambda>_. 0), freelist = 0, temp = (\<lambda>_. 0)\<rparr>" "0x80022000"]
  by (simp add: PHYSTOP_num PGROUNDUP_def PGSIZE_def)

section \<open>Copies between user and kernel memory\<close>

text \<open>
  C3. The round trip through user memory. For a user buffer mapped to pages that are not
  copy-on-write, of any length up to the whole user range and with any page boundaries inside,
  \<open>copyout\<close> followed by \<open>copyin\<close> returns 0 twice and delivers the bytes that were sent.
\<close>

theorem copyout_copyin_round_trip:
  assumes "pt_wf (mem s) pt" "wbuf (mem s) pt va len" "unat src + unat len < 2 ^ 64" "unat dst + unat len < 2 ^ 64"
    "\<forall>j < unat len. \<forall>i < unat len. PGROUNDDOWN (src + of_nat j) \<noteq> upage (mem s) pt (va + of_nat i)"
    "\<forall>j < unat len. \<forall>i < unat len. PGROUNDDOWN (dst + of_nat j) \<noteq> upage (mem s) pt (va + of_nat i)"
    "\<forall>j < unat len. PGROUNDDOWN (dst + of_nat j) \<notin> pt_pages (mem s) pt"
  shows "\<exists>m1 m2. copyout pt va src len s = Inr (0, s\<lparr>mem := m1\<rparr>)
    \<and> copyin pt dst va len (s\<lparr>mem := m1\<rparr>) = Inr (0, s\<lparr>mem := m2\<rparr>)
    \<and> (\<forall>j < unat len. m2 (dst + of_nat j) = mem s (src + of_nat j))"
  using copy_round_trip[of s pt va len src dst] assms by blast

lemma sample_upage: "upage (sample_mem fl) 0x80001000 0 =
    (if (PA2PTE 0x80004000 OR fl) AND PTE_V \<noteq> 0 \<and> (PA2PTE 0x80004000 OR fl) AND PTE_U \<noteq> 0
     then PTE2PA (PA2PTE 0x80004000 OR fl) else 0)"
  using sample_leaf(1)[of fl] by (simp add: upage_def sample_def Let_def)

lemma sample_small:
  assumes "j < 8"
  shows "PGROUNDDOWN (of_nat j) = 0" "upage (sample_mem 0x17) 0x80001000 (of_nat j) = 0x80004000"
    "leaf (sample_mem 0x17) 0x80001000 (of_nat j) AND PTE_COW = 0"
proof -
  have u: "unat (of_nat j :: uint64) = j" using assms by (simp add: unat_of_nat)
  then have below: "(of_nat j :: uint64) < MAXVA" using assms by (simp add: word_less_nat_alt MAXVA_num)
  have "unat (PGROUNDDOWN (of_nat j)) = 0" using assms u by (simp add: unat_PGROUNDDOWN)
  then show z: "PGROUNDDOWN (of_nat j) = 0" by (simp add: unat_eq_zero)
  show "upage (sample_mem 0x17) 0x80001000 (of_nat j) = 0x80004000"
    using upage_PGROUNDDOWN[OF below, of "sample_mem 0x17" "0x80001000"] z
    by (simp add: sample_upage PA2PTE_def PTE2PA_def PTE_V_def PTE_U_def)
  show "leaf (sample_mem 0x17) 0x80001000 (of_nat j) AND PTE_COW = 0"
    using leaf_PGROUNDDOWN[OF below, of "sample_mem 0x17" "0x80001000"] z sample_leaf(1)[of "0x17"]
    by (simp add: sample_def PA2PTE_def PTE_COW_def)
qed

theorem copyout_copyin_round_trip_witness:
  "\<exists>m1 m2. copyout 0x80001000 0 0x80006000 8 (sample 0x17) = Inr (0, (sample 0x17)\<lparr>mem := m1\<rparr>)
     \<and> copyin 0x80001000 0x80007000 0 8 ((sample 0x17)\<lparr>mem := m1\<rparr>) = Inr (0, (sample 0x17)\<lparr>mem := m2\<rparr>)
     \<and> m2 0x80007000 = sample_mem 0x17 0x80006000"
proof -
  have m: "mem (sample 0x17) = sample_mem 0x17" by (simp add: sample_def)
  have wb: "wbuf (sample_mem 0x17) 0x80001000 0 8"
    using sample_small by (simp add: wbuf_def ubuf_def MAXVA_num sample_pages)
  have "PGROUNDDOWN (0x80006000 + of_nat j) = 0x80006000" "PGROUNDDOWN (0x80007000 + of_nat j) = 0x80007000"
    if "j < 8" for j
    using that by (simp_all add: PGROUNDDOWN_add unat_of_nat)
  then show ?thesis
    using copyout_copyin_round_trip[of "sample 0x17" "0x80001000" 0 8 "0x80006000" "0x80007000"] wb sample_small(2)
      sample_wf(1)[of "0x17"] by (fastforce simp: m sample_pages)
qed

text \<open>
  C4. A defect: copy-on-write isolation fails in \<open>copyout\<close> when memory is exhausted. The handler's
  failure is ignored, the byte is written into the page that other address spaces still map, and 0
  is returned.
\<close>

theorem copyout_writes_shared_page:
  assumes "pt_wf (mem s) pt" "va < MAXVA" "valid_page (upage (mem s) pt va)"
    "leaf (mem s) pt va AND PTE_COW \<noteq> 0" "freelist s = 0"
  shows "copyout pt va src 1 s = Inr (0, s\<lparr>mem := (mem s)(uaddr (mem s) pt va := mem s src)\<rparr>)"
  using copyout_shared_byte[OF assms] .

theorem copyout_writes_shared_page_witness:
  "copyout 0x80001000 0 0x80006000 1 ((sample 0x33)\<lparr>freelist := 0\<rparr>)
     = Inr (0, (sample 0x33)\<lparr>freelist := 0, mem := (sample_mem 0x33)(0x80004000 := sample_mem 0x33 0x80006000)\<rparr>)"
proof -
  have m: "mem (sample 0x33) = sample_mem 0x33" by (simp add: sample_def)
  have u: "upage (sample_mem 0x33) 0x80001000 0 = 0x80004000"
    by (simp add: sample_upage PA2PTE_def PTE2PA_def PTE_V_def PTE_U_def)
  have "leaf (sample_mem 0x33) 0x80001000 0 AND PTE_COW \<noteq> 0"
    using sample_leaf(1)[of "0x33"] by (simp add: m PA2PTE_def PTE_COW_def)
  then show ?thesis
    using copyout_writes_shared_page[of "(sample 0x33)\<lparr>freelist := 0\<rparr>" "0x80001000" 0 "0x80006000"] u sample_wf(1)[of "0x33"]
    by (simp add: m MAXVA_num uaddr_def PGROUNDDOWN_def)
qed

end
