(* ===== verification/Proc.thy ===== *)
theory Proc
  imports Vm
begin

text \<open>
  The process table of \<^verbatim>\<open>kernel/proc.h\<close> and the accesses the functions of \<^verbatim>\<open>kernel/proc.c\<close> make to
  it, seen from one hart. A pointer to a \<^verbatim>\<open>struct proc\<close> is an index of the table. The lock of a
  process is the flag \<open>plocked\<close>: set when the executing hart holds it, so that a second \<open>acquire\<close>
  and an unmatched \<open>release\<close> panic exactly as \<^verbatim>\<open>kernel/spinlock.c\<close> does.
\<close>

section \<open>Data\<close>

datatype procstate = UNUSED | USED | SLEEPING | RUNNABLE | RUNNING | ZOMBIE

text \<open>
  Sleep channels are addresses of kernel objects, used only for their identity: a channel is the
  object.
\<close>

datatype chan = NoChan | OnProc nat | OnTicks | OnSleeplock nat | OnPipeRead nat | OnPipeWrite nat
  | OnLog | OnConsole | OnUart | OnDisk nat | OnDiskFree

record pcontext =
  ra :: uint64
  sp :: uint64
  callee_saved :: "uint64 list"

record proc =
  plocked :: bool
  state :: procstate
  chan :: chan
  killed :: int
  xstate :: int
  pid :: int
  parent :: "nat option"
  kstack :: uint64
  sz :: uint64
  pagetable :: uint64
  trapframe :: uint64
  ctx :: pcontext
  ofile :: "nat option list"
  cwd :: "nat option"
  name :: string
  rtime :: uint
  ctime :: uint
  etime :: uint
  pbs_static_priority :: int
  pbs_dynamic_priority :: int
  pbs_rbi :: int
  pbs_rtime :: int
  pbs_wtime :: int
  pbs_stime :: int
  pbs_num_sched :: int

definition NPROC :: nat where
  "NPROC = 64"

definition NOFILE :: nat where
  "NOFILE = 16"

type_synonym ptable = "proc list"

section \<open>Access to one entry\<close>

definition get_p :: "nat \<Rightarrow> ptable \<Rightarrow> proc result" where
  "get_p i ps = (if i < length ps then Inr (ps ! i) else Inl (Fault ''proc''))"

definition upd_p :: "nat \<Rightarrow> (proc \<Rightarrow> proc) \<Rightarrow> ptable \<Rightarrow> ptable result" where
  "upd_p i f ps = (if i < length ps then Inr (ps[i := f (ps ! i)]) else Inl (Fault ''proc''))"

definition acquire_p :: "nat \<Rightarrow> ptable \<Rightarrow> ptable result" where
  "acquire_p i ps = bnd (get_p i ps) (\<lambda>p.
     if plocked p then Inl (Panic ''acquire'') else upd_p i (\<lambda>p. p\<lparr>plocked := True\<rparr>) ps)"

definition release_p :: "nat \<Rightarrow> ptable \<Rightarrow> ptable result" where
  "release_p i ps = bnd (get_p i ps) (\<lambda>p.
     if \<not> plocked p then Inl (Panic ''release'') else upd_p i (\<lambda>p. p\<lparr>plocked := False\<rparr>) ps)"

text \<open>
  A loop over the table whose body holds the lock of the entry it looks at: the shape of
  \<open>update_time\<close>, \<open>setpriority\<close>, \<open>wakeup\<close> and others.
\<close>

definition locked_p :: "nat \<Rightarrow> (proc \<Rightarrow> proc) \<Rightarrow> ptable \<Rightarrow> ptable result" where
  "locked_p i f ps = bnd (acquire_p i ps) (\<lambda>ps. bnd (upd_p i f ps) (release_p i))"

definition unlocked :: "ptable \<Rightarrow> bool" where
  "unlocked ps \<longleftrightarrow> (\<forall>p \<in> set ps. \<not> plocked p)"

lemma unlocked_nth [simp]: "unlocked ps \<Longrightarrow> i < length ps \<Longrightarrow> \<not> plocked (ps ! i)"
  by (simp add: unlocked_def)

lemma plocked_idle: "\<not> plocked p \<Longrightarrow> p\<lparr>plocked := False\<rparr> = p"
  by (cases p) simp

lemma locked_p_eq:
  assumes "i < length ps" "\<not> plocked (ps ! i)" "\<And>p. plocked (f p) = plocked p"
    "\<And>p b. f (p\<lparr>plocked := b\<rparr>) = (f p)\<lparr>plocked := b\<rparr>"
  shows "locked_p i f ps = Inr (ps[i := f (ps ! i)])"
  using assms
  by (simp add: locked_p_def acquire_p_def release_p_def get_p_def upd_p_def plocked_idle)

lemma unlocked_update:
  "unlocked ps \<Longrightarrow> \<not> plocked p \<Longrightarrow> unlocked (ps[i := p])"
  by (auto simp: unlocked_def dest!: set_update_subset_insert[THEN subsetD])

text \<open>Such a loop over the whole table, run while no entry is locked, is a map.\<close>

lemma for_each_locked_from:
  assumes "unlocked ps" "\<And>p i. plocked (f i p) = plocked p"
    "\<And>p i b. f i (p\<lparr>plocked := b\<rparr>) = (f i p)\<lparr>plocked := b\<rparr>" "k \<le> length ps"
  shows "for_each (\<lambda>i. locked_p i (f i)) [k..<length ps] ps =
    Inr (take k ps @ map (\<lambda>i. f i (ps ! i)) [k..<length ps])"
  using assms(1,4)
proof (induction "length ps - k" arbitrary: k ps)
  case (Suc d)
  then have k: "k < length ps" by simp
  have step: "locked_p k (f k) ps = Inr (ps[k := f k (ps ! k)])"
    by (rule locked_p_eq) (use k Suc.prems assms(2,3) in auto)
  have "\<not> plocked (f k (ps ! k))" using k Suc.prems(1) assms(2) by simp
  then have "for_each (\<lambda>i. locked_p i (f i)) [Suc k..<length ps] (ps[k := f k (ps ! k)]) =
    Inr (take (Suc k) (ps[k := f k (ps ! k)]) @ map (\<lambda>i. f i (ps[k := f k (ps ! k)] ! i)) [Suc k..<length ps])"
    using Suc.hyps(1)[of "ps[k := f k (ps ! k)]" "Suc k"] Suc.hyps(2) Suc.prems(1) k unlocked_update
    by simp
  moreover have "take (Suc k) (ps[k := f k (ps ! k)]) = take k ps @ [f k (ps ! k)]"
    using k by (simp add: take_Suc_conv_app_nth)
  ultimately show ?case using k step by (simp add: upt_conv_Cons)
qed simp

lemma for_each_locked:
  assumes "unlocked ps" "\<And>p i. plocked (f i p) = plocked p"
    "\<And>p i b. f i (p\<lparr>plocked := b\<rparr>) = (f i p)\<lparr>plocked := b\<rparr>"
  shows "for_each (\<lambda>i. locked_p i (f i)) [0..<length ps] ps = Inr (map (\<lambda>i. f i (ps ! i)) [0..<length ps])"
  using for_each_locked_from[of ps f 0] assms by simp

end
