(* ===== verification/Sched.thy ===== *)
theory Sched
  imports Proc
begin

text \<open>
  The schedulers of \<^verbatim>\<open>kernel/proc.c\<close>: the priority-based one (\<^verbatim>\<open>PBS\<close>) with its recent behaviour
  index, the time accounting of \<open>update_time\<close>, \<open>setpriority\<close> and the duplicated priority
  computation of \<^verbatim>\<open>kernel/sysproc.c\<close>, and the round-robin one (\<^verbatim>\<open>RR\<close>). C \<open>int\<close> arithmetic is kept at 32 bits,
  operation by operation.
\<close>

section \<open>Dynamic priority\<close>

definition max_int :: "int \<Rightarrow> int \<Rightarrow> int" where
  "max_int a b = (if a > b then a else b)"

definition min_int :: "int \<Rightarrow> int \<Rightarrow> int" where
  "min_int a b = (if a < b then a else b)"

definition dp_priority :: "proc \<Rightarrow> (int \<times> proc) result" where
  "dp_priority p =
     (let sp = pbs_static_priority p;
          rt = pbs_rtime p;
          wt = pbs_wtime p;
          st = pbs_stime p;
          temp = i32 (i32 (i32 (i32 (3 * rt) - wt) - st) * 50);
          temp1 = i32 (i32 (i32 (1 + rt) + st) + wt) in
      if temp1 = 0 then Inl (Fault ''division by zero'')
      else
        let temp2 = i32 (cdiv temp temp1);
            rbi = max_int 0 temp2;
            dp = min_int 100 (i32 (sp + rbi)) in
        Inr (dp, p\<lparr>pbs_rbi := rbi, pbs_dynamic_priority := dp\<rparr>))"

text \<open>\<^verbatim>\<open>kernel/sysproc.c\<close> repeats the three functions under other names.\<close>

definition smax :: "int \<Rightarrow> int \<Rightarrow> int" where
  "smax a b = (if a > b then a else b)"

definition smin :: "int \<Rightarrow> int \<Rightarrow> int" where
  "smin a b = (if a < b then a else b)"

definition sdp_priority :: "proc \<Rightarrow> (int \<times> proc) result" where
  "sdp_priority p =
     (let sp = pbs_static_priority p;
          rt = pbs_rtime p;
          wt = pbs_wtime p;
          st = pbs_stime p;
          temp = i32 (i32 (i32 (i32 (3 * rt) - wt) - st) * 50);
          temp1 = i32 (i32 (i32 (1 + rt) + st) + wt) in
      if temp1 = 0 then Inl (Fault ''division by zero'')
      else
        let temp2 = i32 (cdiv temp temp1);
            rbi = smax 0 temp2;
            dp = smin 100 (i32 (sp + rbi)) in
        Inr (dp, p\<lparr>pbs_rbi := rbi, pbs_dynamic_priority := dp\<rparr>))"

section \<open>The priority-based scheduler\<close>

text \<open>
  The body of the scan: \<open>mp\<close> is \<^verbatim>\<open>max_priority\<close>, whose lock stays held, and \<open>priority\<close> its value.
\<close>

definition pbs_body ::
  "nat \<Rightarrow> nat option \<times> int \<times> ptable \<Rightarrow> (nat option \<times> int \<times> ptable) result" where
  "pbs_body i = (\<lambda>(mp, priority, ps).
     bnd (acquire_p i ps) (\<lambda>ps.
     bnd (get_p i ps) (\<lambda>p.
       if state p \<noteq> RUNNABLE then bnd (release_p i ps) (\<lambda>ps. Inr (mp, priority, ps))
       else
         bnd (dp_priority p) (\<lambda>(dp, p).
         bnd (upd_p i (\<lambda>_. p) ps) (\<lambda>ps.
           case mp of
             None \<Rightarrow> Inr (Some i, dp, ps)
           | Some j \<Rightarrow>
               bnd (get_p j ps) (\<lambda>q.
                 if dp < priority then bnd (release_p j ps) (\<lambda>ps. Inr (Some i, dp, ps))
                 else if dp = priority \<and> pbs_num_sched p < pbs_num_sched q
                 then bnd (release_p j ps) (\<lambda>ps. Inr (Some i, priority, ps))
                 else if dp = priority \<and> pbs_num_sched p = pbs_num_sched q \<and> ctime p < ctime q
                 then bnd (release_p j ps) (\<lambda>ps. Inr (Some i, priority, ps))
                 else bnd (release_p i ps) (\<lambda>ps. Inr (mp, priority, ps))))))))"

definition pbs_select :: "ptable \<Rightarrow> (nat option \<times> ptable) result" where
  "pbs_select ps = bnd (for_each pbs_body [0..<NPROC] (None, 101, ps)) (\<lambda>(mp, _, ps). Inr (mp, ps))"

text \<open>One round of \<open>scheduler\<close> up to the context switch: the index put in \<^verbatim>\<open>c->proc\<close> and the table.\<close>

definition scheduler_pbs :: "ptable \<Rightarrow> (nat option \<times> ptable) result" where
  "scheduler_pbs ps =
     bnd (pbs_select ps) (\<lambda>(mp, ps).
       case mp of
         None \<Rightarrow> Inr (None, ps)
       | Some j \<Rightarrow>
           bnd (upd_p j (\<lambda>p. p\<lparr>state := RUNNING, pbs_num_sched := i32 (pbs_num_sched p + 1),
                              pbs_rtime := 0, pbs_wtime := 0, pbs_stime := 0\<rparr>) ps)
             (\<lambda>ps. Inr (Some j, ps)))"

text \<open>The rest of the round, once the process switches back.\<close>

definition scheduler_back :: "nat \<Rightarrow> ptable \<Rightarrow> (nat option \<times> ptable) result" where
  "scheduler_back j ps = bnd (release_p j ps) (\<lambda>ps. Inr (None, ps))"

section \<open>The round-robin scheduler\<close>

text \<open>
  The scan from entry \<open>i\<close> on: the first runnable process is made running, its lock held. The
  source goes on from the next entry when the process switches back.
\<close>

fun scheduler_rr :: "nat list \<Rightarrow> ptable \<Rightarrow> (nat option \<times> ptable) result" where
  "scheduler_rr [] ps = Inr (None, ps)"
| "scheduler_rr (i # is) ps =
     bnd (acquire_p i ps) (\<lambda>ps.
     bnd (get_p i ps) (\<lambda>p.
       if state p = RUNNABLE
       then bnd (upd_p i (\<lambda>p. p\<lparr>state := RUNNING\<rparr>) ps) (\<lambda>ps. Inr (Some i, ps))
       else bnd (release_p i ps) (scheduler_rr is)))"

section \<open>Accounting and setpriority\<close>

definition tick_proc :: "proc \<Rightarrow> proc" where
  "tick_proc p =
     (let p = (if state p = RUNNING then p\<lparr>rtime := rtime p + 1\<rparr> else p) in
      if state p = RUNNABLE then p\<lparr>pbs_wtime := i32 (pbs_wtime p + 1)\<rparr>
      else if state p = SLEEPING then p\<lparr>pbs_stime := i32 (pbs_stime p + 1)\<rparr>
      else if state p = RUNNING then p\<lparr>pbs_rtime := i32 (pbs_rtime p + 1)\<rparr>
      else p)"

definition update_time :: "ptable \<Rightarrow> ptable result" where
  "update_time ps = for_each (\<lambda>i. locked_p i tick_proc) [0..<NPROC] ps"

definition setpriority_body ::
  "int \<Rightarrow> int \<Rightarrow> nat \<Rightarrow> bool \<times> int \<times> ptable \<Rightarrow> (bool \<times> int \<times> ptable) result" where
  "setpriority_body pd priority i = (\<lambda>(found, old, ps).
     bnd (acquire_p i ps) (\<lambda>ps.
     bnd (get_p i ps) (\<lambda>p.
       if pid p = pd
       then bnd (upd_p i (\<lambda>p. p\<lparr>pbs_static_priority := priority, pbs_rbi := 25\<rparr>) ps) (\<lambda>ps.
            bnd (release_p i ps) (\<lambda>ps. Inr (True, pbs_static_priority p, ps)))
       else bnd (release_p i ps) (\<lambda>ps. Inr (found, old, ps)))))"

definition setpriority :: "int \<Rightarrow> int \<Rightarrow> ptable \<Rightarrow> (int \<times> ptable) result" where
  "setpriority pd priority ps =
     bnd (for_each (setpriority_body pd priority) [0..<NPROC] (False, 0, ps)) (\<lambda>(found, old, ps).
       if \<not> found then Inr (-1, ps) else Inr (old, ps))"

text \<open>
  The loop of \<open>sys_setpriority\<close> (without locks, as written): the old and the new dynamic priority
  of the first process with the given pid. The third component of \<open>sys_setpriority\<close> says whether
  it calls \<open>yield\<close>.
\<close>

fun find_and_set :: "int \<Rightarrow> nat list \<Rightarrow> ptable \<Rightarrow> (int \<times> int \<times> ptable) result" where
  "find_and_set pd [] ps = Inr (-1, -1, ps)"
| "find_and_set pd (i # is) ps =
     bnd (get_p i ps) (\<lambda>p.
       if pid p = pd
       then bnd (sdp_priority p) (\<lambda>(dp, p').
            bnd (upd_p i (\<lambda>_. p') ps) (\<lambda>ps. Inr (pbs_dynamic_priority p, dp, ps)))
       else find_and_set pd is ps)"

definition sys_setpriority :: "int \<Rightarrow> int \<Rightarrow> ptable \<Rightarrow> (int \<times> bool \<times> ptable) result" where
  "sys_setpriority pd priority ps =
     bnd (setpriority pd priority ps) (\<lambda>(old, ps).
       if old \<noteq> -1
       then bnd (find_and_set pd [0..<NPROC] ps) (\<lambda>(old_dp, new_dp, ps).
            Inr (old, new_dp < old_dp, ps))
       else Inr (old, False, ps))"

section \<open>What the priority computation returns\<close>

text \<open>
  Bounds under which no intermediate result of \<open>dp_priority\<close> leaves 32 bits: ten million ticks
  since the process was last scheduled (about eleven days), and a static priority not within 150
  of \<open>INT_MAX\<close>.
\<close>

definition pbs_ok :: "proc \<Rightarrow> bool" where
  "pbs_ok p \<longleftrightarrow> 0 \<le> pbs_rtime p \<and> 0 \<le> pbs_wtime p \<and> 0 \<le> pbs_stime p
     \<and> pbs_rtime p + pbs_wtime p + pbs_stime p \<le> 10000000
     \<and> INT_MIN \<le> pbs_static_priority p \<and> pbs_static_priority p \<le> INT_MAX - 150"

definition rbi_of :: "int \<Rightarrow> int \<Rightarrow> int \<Rightarrow> int" where
  "rbi_of r w s = max 0 ((3 * r - w - s) * 50 div (1 + r + s + w))"

definition dp_of :: "proc \<Rightarrow> int" where
  "dp_of p = min 100 (pbs_static_priority p + rbi_of (pbs_rtime p) (pbs_wtime p) (pbs_stime p))"

definition dp_set :: "proc \<Rightarrow> proc" where
  "dp_set p = p\<lparr>pbs_rbi := rbi_of (pbs_rtime p) (pbs_wtime p) (pbs_stime p),
                pbs_dynamic_priority := dp_of p\<rparr>"

lemma zdiv_less:
  fixes a b c :: int
  assumes "0 < b" "a < c * b"
  shows "a div b < c"
proof (rule ccontr)
  assume "\<not> a div b < c"
  then have "c * b \<le> a div b * b" using assms(1) by (simp add: mult_right_mono)
  also have "\<dots> \<le> a" using assms(1) by (simp add: minus_mod_eq_div_mult[symmetric])
  finally show False using assms(2) by simp
qed

lemma rbi_bounds:
  assumes "0 \<le> r" "0 \<le> w" "0 \<le> s"
  shows "0 \<le> rbi_of r w s" "rbi_of r w s < 150"
proof -
  have "(3 * r - w - s) * 50 div (1 + r + s + w) < 150"
    by (rule zdiv_less) (use assms in auto)
  then show "0 \<le> rbi_of r w s" "rbi_of r w s < 150" by (simp_all add: rbi_of_def)
qed

lemma max_0_cdiv: "0 < b \<Longrightarrow> max_int 0 (cdiv a b) = max 0 (a div b)"
  using cdiv_nonneg[of a b] cdiv_nonpos[of a b] pos_imp_zdiv_nonneg_iff[of b a]
  by (cases "0 \<le> a") (auto simp: max_int_def max_def)

lemma cdiv_bound:
  assumes "\<bar>a\<bar> \<le> k" "0 < b"
  shows "\<bar>cdiv a b\<bar> \<le> k"
proof -
  have "\<bar>cdiv a b\<bar> = (if a = 0 then 0 else \<bar>a\<bar> div b)"
    using assms(2) by (auto simp: cdiv_def abs_mult pos_imp_zdiv_nonneg_iff)
  moreover have "\<bar>a\<bar> div b \<le> \<bar>a\<bar>"
    using zdiv_mono2[of "\<bar>a\<bar>" 1 b] assms(2) by simp
  ultimately show ?thesis using assms(1) by auto
qed

lemma dp_priority_eq:
  assumes "pbs_ok p"
  shows "dp_priority p = Inr (dp_of p, dp_set p)"
proof -
  define r w s where rws: "r = pbs_rtime p" "w = pbs_wtime p" "s = pbs_stime p"
  have ok: "0 \<le> r" "0 \<le> w" "0 \<le> s" "r + w + s \<le> 10000000" "INT_MIN \<le> pbs_static_priority p"
    "pbs_static_priority p \<le> INT_MAX - 150"
    using assms by (auto simp: pbs_ok_def rws)
  have a: "i32 (3 * r) = 3 * r" "i32 (3 * r - w) = 3 * r - w" "i32 (3 * r - w - s) = 3 * r - w - s"
    "i32 ((3 * r - w - s) * 50) = (3 * r - w - s) * 50"
    "i32 (1 + r) = 1 + r" "i32 (1 + r + s) = 1 + r + s" "i32 (1 + r + s + w) = 1 + r + s + w"
    using ok by (simp_all add: i32_in_range in_int_def INT_MIN_def INT_MAX_def)
  have "\<bar>cdiv ((3 * r - w - s) * 50) (1 + r + s + w)\<bar> \<le> 1500000000"
    by (rule cdiv_bound) (use ok in auto)
  then have c: "i32 (cdiv ((3 * r - w - s) * 50) (1 + r + s + w)) = cdiv ((3 * r - w - s) * 50) (1 + r + s + w)"
    by (intro i32_in_range) (simp add: in_int_def INT_MIN_def INT_MAX_def abs_le_iff)
  have m: "max_int 0 (cdiv ((3 * r - w - s) * 50) (1 + r + s + w)) = rbi_of r w s"
    using max_0_cdiv[of "1 + r + s + w"] ok by (simp add: rbi_of_def)
  have d: "i32 (pbs_static_priority p + rbi_of r w s) = pbs_static_priority p + rbi_of r w s"
    using ok rbi_bounds[OF ok(1-3)] by (intro i32_in_range) (simp add: in_int_def)
  show ?thesis
    using ok(1-3) unfolding dp_priority_def Let_def rws[symmetric] a c m d
    by (auto simp: dp_of_def dp_set_def rws[symmetric] min_int_def min_def)
qed

lemma sdp_priority_same: "sdp_priority = dp_priority"
proof -
  have "smax = max_int" "smin = min_int"
    by (simp_all add: fun_eq_iff smax_def smin_def max_int_def min_int_def)
  then show ?thesis by (simp only: fun_eq_iff sdp_priority_def dp_priority_def simp_thms)
qed

text \<open>
  Ageing: time spent waiting or sleeping never worsens (raises) the dynamic priority, time spent
  running never improves it.
\<close>

lemma div_antimono:
  fixes a b c d :: int
  assumes "a \<le> c" "0 < d" "d \<le> b" "0 \<le> c"
  shows "a div b \<le> c div d"
proof -
  have "a div b \<le> c div b" using assms by (intro zdiv_mono1) auto
  also have "\<dots> \<le> c div d" using assms by (intro zdiv_mono2) auto
  finally show ?thesis .
qed

lemma rbi_wait_mono:
  assumes "0 \<le> r" "0 \<le> w" "0 \<le> s" "w \<le> w'" "s \<le> s'"
  shows "rbi_of r w' s' \<le> rbi_of r w s"
proof (cases "0 \<le> 3 * r - w - s")
  case True
  have "(3 * r - w' - s') * 50 div (1 + r + s' + w') \<le> (3 * r - w - s) * 50 div (1 + r + s + w)"
    by (rule div_antimono) (use assms True in auto)
  then show ?thesis by (auto simp: rbi_of_def)
next
  case False
  then have "(3 * r - w' - s') * 50 div (1 + r + s' + w') < 0"
    using assms by (subst pos_imp_zdiv_neg_iff) auto
  then show ?thesis by (simp add: rbi_of_def)
qed

lemma rbi_run_mono:
  assumes "0 \<le> r" "0 \<le> w" "0 \<le> s" "r \<le> r'"
  shows "rbi_of r w s \<le> rbi_of r' w s"
proof -
  let ?d = "1 + r + s + w" and ?d' = "1 + r' + s + w"
  have "(3 * r - w - s) * 50 div ?d \<le> (3 * r' - w - s) * 50 div ?d'"
  proof -
    define k where "k = (3 * r - w - s) * 50 div ?d"
    have "k < 150" unfolding k_def by (rule zdiv_less) (use assms in auto)
    have "k * ?d \<le> (3 * r - w - s) * 50"
      unfolding k_def by (subst minus_mod_eq_div_mult[symmetric]) (use assms in simp)
    moreover have "k * (r' - r) \<le> 150 * (r' - r)" using \<open>k < 150\<close> assms by (intro mult_right_mono) auto
    ultimately have "k * ?d' \<le> (3 * r' - w - s) * 50" by (simp add: algebra_simps)
    then have "k * ?d' div ?d' \<le> (3 * r' - w - s) * 50 div ?d'" using assms by (intro zdiv_mono1) auto
    then show ?thesis using assms by (simp add: k_def)
  qed
  then show ?thesis by (auto simp: rbi_of_def)
qed

section \<open>The order the scheduler selects by\<close>

text \<open>Smaller dynamic priority first, then fewer times scheduled, then earlier creation.\<close>

datatype sched_key = Key int int uint

instantiation sched_key :: linorder
begin

fun less_eq_sched_key :: "sched_key \<Rightarrow> sched_key \<Rightarrow> bool" where
  "Key d n c \<le> Key d' n' c' \<longleftrightarrow> d < d' \<or> d = d' \<and> (n < n' \<or> n = n' \<and> c \<le> c')"

definition less_sched_key :: "sched_key \<Rightarrow> sched_key \<Rightarrow> bool" where
  "less_sched_key k k' \<longleftrightarrow> k \<le> k' \<and> \<not> k' \<le> k"

instance
proof
  fix x y z :: sched_key
  show "x < y \<longleftrightarrow> x \<le> y \<and> \<not> y \<le> x" by (rule less_sched_key_def)
  show "x \<le> x" by (cases x) simp
  show "x \<le> y \<Longrightarrow> y \<le> z \<Longrightarrow> x \<le> z" by (cases x; cases y; cases z) auto
  show "x \<le> y \<Longrightarrow> y \<le> x \<Longrightarrow> x = y" by (cases x; cases y) auto
  show "x \<le> y \<or> y \<le> x" by (cases x; cases y) auto
qed

end

lemma less_key [simp]:
  "Key d n c < Key d' n' c' \<longleftrightarrow> d < d' \<or> d = d' \<and> (n < n' \<or> n = n' \<and> c < c')"
  by (auto simp: less_sched_key_def)

definition key_of :: "proc \<Rightarrow> sched_key" where
  "key_of p = Key (dp_of p) (pbs_num_sched p) (ctime p)"

definition runnable :: "ptable \<Rightarrow> nat \<Rightarrow> bool" where
  "runnable ps i \<longleftrightarrow> i < length ps \<and> state (ps ! i) = RUNNABLE"

text \<open>The best entry among the first \<open>k\<close>: least key, and the first of those with that key.\<close>

definition is_best :: "ptable \<Rightarrow> nat \<Rightarrow> nat option \<Rightarrow> bool" where
  "is_best ps k mp \<longleftrightarrow> (case mp of
     None \<Rightarrow> \<forall>i < k. \<not> runnable ps i
   | Some j \<Rightarrow> j < k \<and> runnable ps j
       \<and> (\<forall>i < k. runnable ps i \<longrightarrow> key_of (ps ! j) \<le> key_of (ps ! i)
            \<and> (i < j \<longrightarrow> key_of (ps ! j) < key_of (ps ! i))))"

section \<open>The scan selects the best runnable process\<close>

text \<open>The table after the first \<open>k\<close> entries were scanned with \<open>mp\<close> as the best so far.\<close>

definition scan_table :: "ptable \<Rightarrow> nat \<Rightarrow> nat option \<Rightarrow> ptable" where
  "scan_table ps k mp = map (\<lambda>i.
     (if i < k \<and> state (ps ! i) = RUNNABLE then dp_set (ps ! i) else ps ! i)\<lparr>plocked := (mp = Some i)\<rparr>)
     [0..<length ps]"

lemma length_scan_table [simp]: "length (scan_table ps k mp) = length ps"
  by (simp add: scan_table_def)

lemma nth_scan_table [simp]:
  "i < length ps \<Longrightarrow> scan_table ps k mp ! i =
     (if i < k \<and> state (ps ! i) = RUNNABLE then dp_set (ps ! i) else ps ! i)\<lparr>plocked := (mp = Some i)\<rparr>"
  by (simp add: scan_table_def)

lemma scan_table_start: "unlocked ps \<Longrightarrow> scan_table ps 0 None = ps"
  by (rule nth_equalityI) (simp_all add: plocked_idle)

lemma dp_set_plocked [simp]: "dp_set (p\<lparr>plocked := b\<rparr>) = (dp_set p)\<lparr>plocked := b\<rparr>"
  by (simp add: dp_set_def dp_of_def)

lemma dp_set_fields [simp]: "pbs_num_sched (dp_set p) = pbs_num_sched p" "ctime (dp_set p) = ctime p"
    "state (dp_set p) = state p" "pid (dp_set p) = pid p" "plocked (dp_set p) = plocked p"
  by (simp_all add: dp_set_def)

lemma dp_of_plocked [simp]: "dp_of (p\<lparr>plocked := b\<rparr>) = dp_of p"
  by (simp add: dp_of_def)

lemma pbs_ok_plocked [simp]: "pbs_ok (p\<lparr>plocked := b\<rparr>) = pbs_ok p"
  by (simp add: pbs_ok_def)

definition scan_priority :: "ptable \<Rightarrow> nat option \<Rightarrow> int" where
  "scan_priority ps mp = (case mp of None \<Rightarrow> 101 | Some j \<Rightarrow> dp_of (ps ! j))"

lemma pbs_body_step:
  assumes k: "k < length ps" and ok: "runnable ps k \<Longrightarrow> pbs_ok (ps ! k)" and best: "is_best ps k mp"
  shows "\<exists>mp'. pbs_body k (mp, scan_priority ps mp, scan_table ps k mp)
      = Inr (mp', scan_priority ps mp', scan_table ps (Suc k) mp') \<and> is_best ps (Suc k) mp'"
proof -
  have mpk: "mp \<noteq> Some k" and mpl: "\<And>j. mp = Some j \<Longrightarrow> j < length ps \<and> j < k \<and> runnable ps j"
    using best k by (auto simp: is_best_def)
  have tab: "scan_table ps (Suc k) mp' = xs"
    if "length xs = length ps" "\<And>i. i < length ps \<Longrightarrow> xs ! i = scan_table ps (Suc k) mp' ! i" for mp' xs
    by (rule nth_equalityI) (simp_all only: that length_scan_table)
  let ?p = "(dp_set (ps ! k))\<lparr>plocked := True\<rparr>"
  show ?thesis
  proof (cases "runnable ps k")
    case False
    then have st: "state (ps ! k) \<noteq> RUNNABLE" using k by (simp add: runnable_def)
    have "pbs_body k (mp, scan_priority ps mp, scan_table ps k mp)
        = Inr (mp, scan_priority ps mp, scan_table ps (Suc k) mp)"
      using k mpk st
      by (auto simp: pbs_body_def acquire_p_def release_p_def get_p_def upd_p_def nth_list_update less_Suc_eq
          intro!: tab[symmetric])
    moreover have "is_best ps (Suc k) mp"
      using best False by (auto simp: is_best_def less_Suc_eq split: option.splits)
    ultimately show ?thesis by blast
  next
    case True
    then have st: "state (ps ! k) = RUNNABLE" by (simp add: runnable_def)
    have dp: "dp_priority ((ps ! k)\<lparr>plocked := True\<rparr>) = Inr (dp_of (ps ! k), ?p)"
      using dp_priority_eq[of "(ps ! k)\<lparr>plocked := True\<rparr>"] ok[OF True] by simp
    define mp' where "mp' = (case mp of None \<Rightarrow> Some k
       | Some j \<Rightarrow> if key_of (ps ! k) < key_of (ps ! j) then Some k else mp)"
    have "pbs_body k (mp, scan_priority ps mp, scan_table ps k mp)
        = Inr (mp', scan_priority ps mp', scan_table ps (Suc k) mp')"
    proof (cases mp)
      case None
      then show ?thesis
        using k st dp
        by (auto simp: pbs_body_def acquire_p_def release_p_def get_p_def upd_p_def nth_list_update less_Suc_eq
            mp'_def scan_priority_def intro!: tab[symmetric])
    next
      case (Some j)
      note j = mpl[OF Some]
      define T where "T = (scan_table ps k (Some j))[k := ?p]"
      have T: "length T = length ps" "T ! k = ?p" "T ! j = (dp_set (ps ! j))\<lparr>plocked := True\<rparr>"
        using k j Some by (auto simp: T_def runnable_def)
      have "pbs_body k (mp, scan_priority ps mp, scan_table ps k mp) =
        (if key_of (ps ! k) < key_of (ps ! j)
         then bnd (release_p j T) (\<lambda>ps'. Inr (Some k, dp_of (ps ! k), ps'))
         else bnd (release_p k T) (\<lambda>ps'. Inr (mp, scan_priority ps mp, ps')))"
        using k st dp j Some T
        by (auto simp: pbs_body_def acquire_p_def get_p_def upd_p_def T_def[symmetric] scan_priority_def key_of_def)
      moreover have "release_p j T = Inr (scan_table ps (Suc k) (Some k))"
        using T k j st Some
        by (auto simp: release_p_def get_p_def upd_p_def T_def nth_list_update less_Suc_eq runnable_def
            intro!: tab[symmetric])
      moreover have "release_p k T = Inr (scan_table ps (Suc k) mp)"
        using T k j st Some
        by (auto simp: release_p_def get_p_def upd_p_def T_def nth_list_update less_Suc_eq intro!: tab[symmetric])
      ultimately show ?thesis using Some by (simp add: mp'_def scan_priority_def)
    qed
    moreover have "is_best ps (Suc k) mp'"
    proof (cases mp)
      case None
      then show ?thesis using best True by (auto simp: is_best_def mp'_def less_Suc_eq)
    next
      case (Some j)
      then have j: "j < k" "runnable ps j"
        "\<And>i. i < k \<Longrightarrow> runnable ps i \<Longrightarrow> key_of (ps ! j) \<le> key_of (ps ! i)"
        "\<And>i. i < j \<Longrightarrow> runnable ps i \<Longrightarrow> key_of (ps ! j) < key_of (ps ! i)"
        using best by (auto simp: is_best_def)
      show ?thesis
        using j True Some by (force simp: is_best_def mp'_def less_Suc_eq)
    qed
    ultimately show ?thesis by blast
  qed
qed

lemma pbs_scan:
  assumes "unlocked ps" "\<And>i. runnable ps i \<Longrightarrow> pbs_ok (ps ! i)" "k \<le> length ps"
  shows "\<exists>mp. for_each pbs_body [0..<k] (None, 101, ps) = Inr (mp, scan_priority ps mp, scan_table ps k mp)
    \<and> is_best ps k mp"
  using assms(3)
proof (induction k)
  case 0
  then show ?case using assms(1) scan_table_start by (simp add: is_best_def scan_priority_def)
next
  case (Suc k)
  then obtain mp where mp: "for_each pbs_body [0..<k] (None, 101, ps)
      = Inr (mp, scan_priority ps mp, scan_table ps k mp)" "is_best ps k mp" by auto
  obtain mp' where "pbs_body k (mp, scan_priority ps mp, scan_table ps k mp)
      = Inr (mp', scan_priority ps mp', scan_table ps (Suc k) mp')" "is_best ps (Suc k) mp'"
    using pbs_body_step[OF _ _ mp(2)] Suc.prems assms(2) by (metis Suc_le_lessD)
  then show ?case using mp(1) by (simp add: for_each_append)
qed

lemma pbs_select_best:
  assumes "unlocked ps" "length ps = NPROC" "\<And>i. runnable ps i \<Longrightarrow> pbs_ok (ps ! i)"
  shows "\<exists>mp. pbs_select ps = Inr (mp, scan_table ps NPROC mp) \<and> is_best ps NPROC mp"
  using pbs_scan[OF assms(1,3), of NPROC] assms(2) by (auto simp: pbs_select_def)

text \<open>One round of the scheduler, and the table when the process comes back.\<close>

definition dispatched :: "proc \<Rightarrow> proc" where
  "dispatched p = (dp_set p)\<lparr>plocked := True, state := RUNNING, pbs_num_sched := i32 (pbs_num_sched p + 1),
     pbs_rtime := 0, pbs_wtime := 0, pbs_stime := 0\<rparr>"

lemma scheduler_pbs_eq:
  assumes "unlocked ps" "length ps = NPROC" "\<And>i. runnable ps i \<Longrightarrow> pbs_ok (ps ! i)"
  obtains mp where "is_best ps NPROC mp"
    "scheduler_pbs ps = Inr (mp, case mp of None \<Rightarrow> ps
       | Some j \<Rightarrow> (scan_table ps NPROC mp)[j := dispatched (ps ! j)])"
proof -
  obtain mp where mp: "pbs_select ps = Inr (mp, scan_table ps NPROC mp)" "is_best ps NPROC mp"
    using pbs_select_best[OF assms] by blast
  show ?thesis
  proof (rule that[OF mp(2)], cases mp)
    case None
    then have "scan_table ps NPROC None = ps"
      using mp(2) assms(1,2) by (intro nth_equalityI) (auto simp: is_best_def runnable_def plocked_idle)
    then show "scheduler_pbs ps = Inr (mp, case mp of None \<Rightarrow> ps
       | Some j \<Rightarrow> (scan_table ps NPROC mp)[j := dispatched (ps ! j)])"
      using None mp(1) by (simp add: scheduler_pbs_def)
  next
    case (Some j)
    then have "j < length ps" "state (ps ! j) = RUNNABLE" "j < NPROC"
      using mp(2) by (auto simp: is_best_def runnable_def)
    then show "scheduler_pbs ps = Inr (mp, case mp of None \<Rightarrow> ps
       | Some j \<Rightarrow> (scan_table ps NPROC mp)[j := dispatched (ps ! j)])"
      using Some mp(1) by (simp add: scheduler_pbs_def upd_p_def dispatched_def)
  qed
qed

section \<open>Accounting\<close>

lemma tick_proc_plocked:
  "plocked (tick_proc p) = plocked p" "tick_proc (p\<lparr>plocked := b\<rparr>) = (tick_proc p)\<lparr>plocked := b\<rparr>"
  by (auto simp: tick_proc_def Let_def)

lemma update_time_eq:
  assumes "unlocked ps" "length ps = NPROC"
  shows "update_time ps = Inr (map tick_proc ps)"
proof -
  have "map (\<lambda>i. tick_proc (ps ! i)) [0..<length ps] = map tick_proc ps"
    by (rule nth_equalityI) simp_all
  then show ?thesis
    using for_each_locked[OF assms(1), of "\<lambda>_. tick_proc"] tick_proc_plocked assms(2)
    by (simp add: update_time_def)
qed

section \<open>setpriority\<close>

definition with_priority :: "int \<Rightarrow> int \<Rightarrow> proc \<Rightarrow> proc" where
  "with_priority pd v p = (if pid p = pd then p\<lparr>pbs_static_priority := v, pbs_rbi := 25\<rparr> else p)"

lemma setpriority_scan:
  assumes "unlocked ps" "k \<le> length ps"
  shows "for_each (setpriority_body pd v) [0..<k] (False, 0, ps) =
    Inr (case filter (\<lambda>p. pid p = pd) (take k ps) of [] \<Rightarrow> (False, 0, ps)
         | _ \<Rightarrow> (True, pbs_static_priority (last (filter (\<lambda>p. pid p = pd) (take k ps))),
                 map (with_priority pd v) (take k ps) @ drop k ps))"
  using assms(2)
proof (induction k)
  case (Suc k)
  let ?F = "\<lambda>k. filter (\<lambda>p. pid p = pd) (take k ps)"
  let ?T = "map (with_priority pd v) (take k ps) @ drop k ps"
  have k: "k < length ps" using Suc.prems by simp
  have tk: "take (Suc k) ps = take k ps @ [ps ! k]" by (rule take_Suc_conv_app_nth[OF k])
  have dk: "drop k ps = ps ! k # drop (Suc k) ps" using k by (simp add: Cons_nth_drop_Suc)
  have none: "?T = ps" if "?F k = []"
  proof -
    have "map (with_priority pd v) (take k ps) = take k ps"
      using that by (intro map_idI) (auto simp: with_priority_def filter_empty_conv)
    then show ?thesis by simp
  qed
  have body: "setpriority_body pd v k (f, old, ?T) = Inr (if pid (ps ! k) = pd
      then (True, pbs_static_priority (ps ! k), map (with_priority pd v) (take (Suc k) ps) @ drop (Suc k) ps)
      else (f, old, map (with_priority pd v) (take (Suc k) ps) @ drop (Suc k) ps))" for f old
  proof -
    have "?T ! k = ps ! k" "k < length ?T" using k dk by (simp_all add: nth_append)
    moreover have "?T[k := x] = map (with_priority pd v) (take k ps) @ x # drop (Suc k) ps" for x
      using k dk by (simp add: list_update_append)
    ultimately show ?thesis
      using unlocked_nth[OF assms(1) k] plocked_idle[of "ps ! k"] k
      by (simp add: setpriority_body_def acquire_p_def release_p_def get_p_def upd_p_def tk with_priority_def
          nth_append list_update_append)
  qed
  have "for_each (setpriority_body pd v) [0..<k] (False, 0, ps) =
    Inr (if ?F k = [] then (False, 0, ?T) else (True, pbs_static_priority (last (?F k)), ?T))"
    using Suc.IH Suc.prems none by (simp split: list.splits)
  then have "for_each (setpriority_body pd v) [0..<Suc k] (False, 0, ps) =
     setpriority_body pd v k (if ?F k = [] then (False, 0, ?T) else (True, pbs_static_priority (last (?F k)), ?T))"
    by (simp add: for_each_append)
  also have "\<dots> = Inr (if ?F (Suc k) = [] then (False, 0, ps)
      else (True, pbs_static_priority (last (?F (Suc k))), map (with_priority pd v) (take (Suc k) ps) @ drop (Suc k) ps))"
  proof (cases "?F k = []")
    case True
    have "map (with_priority pd v) (take (Suc k) ps) @ drop (Suc k) ps = ps" if "pid (ps ! k) \<noteq> pd"
      using none[OF True] that dk by (simp add: tk with_priority_def)
    then show ?thesis using True body[of False 0] by (simp add: tk)
  next
    case False
    then show ?thesis using body[of True "pbs_static_priority (last (?F k))"] by (simp add: tk)
  qed
  finally show ?case by (simp split: list.splits)
qed simp

lemma setpriority_eq:
  assumes "unlocked ps" "length ps = NPROC"
  shows "setpriority pd v ps = Inr (case filter (\<lambda>p. pid p = pd) ps of [] \<Rightarrow> (-1, ps)
    | _ \<Rightarrow> (pbs_static_priority (last (filter (\<lambda>p. pid p = pd) ps)), map (with_priority pd v) ps))"
  using setpriority_scan[OF assms(1), of NPROC pd v] assms(2)
  by (simp add: setpriority_def split: list.splits)

end
