(* ===== verification/Sched_Props.thy ===== *)
theory Sched_Props
  imports Sched
begin

text \<open>
  The properties of the scheduler, with instances on a concrete process table of \<open>NPROC\<close> entries.
\<close>

text \<open>An entry of the table as the zeroed static storage of \<^verbatim>\<open>struct proc proc[NPROC]\<close> leaves it.\<close>

definition proc_zero :: proc where
  "proc_zero = \<lparr>plocked = False, state = UNUSED, chan = NoChan, killed = 0, xstate = 0, pid = 0,
     parent = None, kstack = 0, sz = 0, pagetable = 0, trapframe = 0,
     ctx = \<lparr>ra = 0, sp = 0, callee_saved = replicate 12 0\<rparr>, ofile = replicate NOFILE None, cwd = None,
     name = [], rtime = 0, ctime = 0, etime = 0, pbs_static_priority = 0, pbs_dynamic_priority = 0,
     pbs_rbi = 0, pbs_rtime = 0, pbs_wtime = 0, pbs_stime = 0, pbs_num_sched = 0\<rparr>"

text \<open>A table with one process that has been running and one that has been waiting.\<close>

definition sample_table :: ptable where
  "sample_table =
     [proc_zero\<lparr>state := RUNNABLE, pid := 1, pbs_static_priority := 50, pbs_rtime := 4, pbs_num_sched := 1\<rparr>,
      proc_zero\<lparr>state := RUNNABLE, pid := 2, pbs_static_priority := 50, pbs_wtime := 9, pbs_num_sched := 3\<rparr>]
     @ replicate 62 proc_zero"

lemma sample_table_len: "length sample_table = NPROC"
  by (simp add: sample_table_def NPROC_def)

lemma sample_table_unlocked: "unlocked sample_table"
  by (auto simp: unlocked_def sample_table_def proc_zero_def)

lemma sample_table_runnable: "runnable sample_table i \<longleftrightarrow> i = 0 \<or> i = 1"
  by (auto simp: runnable_def sample_table_def nth_append nth_Cons proc_zero_def split: nat.splits if_splits)

lemma sample_table_ok: "runnable sample_table i \<Longrightarrow> pbs_ok (sample_table ! i)"
  unfolding sample_table_runnable
  by (auto simp: sample_table_def proc_zero_def pbs_ok_def INT_MIN_def INT_MAX_def)

text \<open>
  C5. One round of the priority-based scheduler, started while it holds no process lock. It never
  panics. If no process is runnable it chooses none and leaves the table as it was. Otherwise it
  chooses a runnable process \<open>j\<close> whose (dynamic priority, number of times scheduled, creation time)
  is lexicographically least among all runnable processes, the first such entry on a tie; \<open>j\<close> is
  made running with its counters reset, exactly the lock of \<open>j\<close> is held at the context switch, no
  other process changes except for the cached priority fields, and giving the lock back leaves no
  lock held.
\<close>

theorem scheduler_picks_least:
  assumes "unlocked ps" "length ps = NPROC" "\<forall>i. runnable ps i \<longrightarrow> pbs_ok (ps ! i)"
  shows "\<exists>mp ps'. scheduler_pbs ps = Inr (mp, ps') \<and> length ps' = NPROC \<and> (case mp of
     None \<Rightarrow> ps' = ps \<and> (\<forall>i. \<not> runnable ps i)
   | Some j \<Rightarrow> runnable ps j
       \<and> (\<forall>i. runnable ps i \<longrightarrow> key_of (ps ! j) \<le> key_of (ps ! i) \<and> (i < j \<longrightarrow> key_of (ps ! j) < key_of (ps ! i)))
       \<and> state (ps' ! j) = RUNNING \<and> pbs_num_sched (ps' ! j) = i32 (pbs_num_sched (ps ! j) + 1)
       \<and> pbs_rtime (ps' ! j) = 0 \<and> pbs_wtime (ps' ! j) = 0 \<and> pbs_stime (ps' ! j) = 0
       \<and> (\<forall>i < NPROC. plocked (ps' ! i) \<longleftrightarrow> i = j)
       \<and> (\<forall>i < NPROC. i \<noteq> j \<longrightarrow> ps' ! i = (if runnable ps i then dp_set (ps ! i) else ps ! i))
       \<and> (\<exists>ps''. scheduler_back j ps' = Inr (None, ps'') \<and> unlocked ps''))"
proof -
  obtain mp where best: "is_best ps NPROC mp" and s: "scheduler_pbs ps = Inr (mp, case mp of None \<Rightarrow> ps
       | Some j \<Rightarrow> (scan_table ps NPROC mp)[j := dispatched (ps ! j)])"
    using scheduler_pbs_eq[OF assms(1,2)] assms(3) by blast
  show ?thesis
  proof (cases mp)
    case None
    then show ?thesis using best s assms(2) by (auto simp: is_best_def runnable_def)
  next
    case (Some j)
    define T where "T = (scan_table ps NPROC (Some j))[j := dispatched (ps ! j)]"
    have j: "j < NPROC" "runnable ps j" using best Some by (auto simp: is_best_def)
    have T: "length T = NPROC" "T ! j = dispatched (ps ! j)"
      "\<And>i. i < NPROC \<Longrightarrow> i \<noteq> j \<Longrightarrow> T ! i = (if runnable ps i then dp_set (ps ! i) else ps ! i)"
      using j assms(1,2) by (auto simp: T_def runnable_def plocked_idle)
    have lk: "plocked (T ! i) \<longleftrightarrow> i = j" if "i < NPROC" for i
      using T that assms(1,2) by (cases "i = j") (auto simp: dispatched_def)
    then have "scheduler_back j T = Inr (None, T[j := (T ! j)\<lparr>plocked := False\<rparr>])"
      using j(1) T(1) by (simp add: scheduler_back_def release_p_def get_p_def upd_p_def)
    moreover have "unlocked (T[j := (T ! j)\<lparr>plocked := False\<rparr>])"
      unfolding unlocked_def all_set_conv_all_nth
      using lk T(1) j(1) by (simp add: nth_list_update)
    ultimately have "\<exists>ps''. scheduler_back j T = Inr (None, ps'') \<and> unlocked ps''" by blast
    moreover have "\<forall>i. runnable ps i \<longrightarrow> key_of (ps ! j) \<le> key_of (ps ! i) \<and> (i < j \<longrightarrow> key_of (ps ! j) < key_of (ps ! i))"
      using best Some assms(2) by (auto simp: is_best_def runnable_def)
    moreover have "scheduler_pbs ps = Inr (Some j, T)" using s Some by (simp add: T_def)
    ultimately show ?thesis
      using T lk j by (intro exI[of _ "Some j"] exI[of _ T]) (simp add: dispatched_def)
  qed
qed

theorem scheduler_picks_least_witness:
  "\<exists>ps'. scheduler_pbs sample_table = Inr (Some 1, ps') \<and> state (ps' ! 1) = RUNNING"
proof -
  have ok: "\<forall>i. runnable sample_table i \<longrightarrow> pbs_ok (sample_table ! i)" using sample_table_ok by blast
  have lt: "key_of (sample_table ! 1) < key_of (sample_table ! 0)"
    by (simp add: sample_table_def proc_zero_def key_of_def dp_of_def rbi_of_def)
  from scheduler_picks_least[OF sample_table_unlocked sample_table_len ok] show ?thesis
  proof (elim exE conjE, goal_cases)
    case (1 mp ps')
    show ?case
    proof (cases mp)
      case None
      then have "\<not> runnable sample_table 0" using 1(3) by simp
      then show ?thesis by (simp add: sample_table_runnable)
    next
      case (Some j)
      then have j: "runnable sample_table j" "state (ps' ! j) = RUNNING"
        "\<forall>i. runnable sample_table i \<longrightarrow> key_of (sample_table ! j) \<le> key_of (sample_table ! i)"
        using 1(3) by simp_all
      have "runnable sample_table 1" by (simp add: sample_table_runnable)
      then have "j \<noteq> 0" using lt j(3) by (metis not_less)
      then have "j = 1" using j(1) by (simp add: sample_table_runnable)
      then show ?thesis using 1(1) Some j(2) by simp
    qed
  qed
qed

text \<open>
  C6. The dynamic priority, within the range where 32-bit arithmetic is exact. \<open>dp_priority\<close> never
  divides by zero; it stores and returns \<open>min 100 (sp + rbi)\<close> with
  \<open>rbi = max 0 (50 (3 r - w - s) div (r + w + s + 1))\<close> between 0 and 149. Waiting or sleeping longer
  never raises the value (the process never moves back in the order), running longer never lowers
  it, and a process that waited three times as long as it ran has \<open>rbi\<close> 0. The copy of the
  computation in \<^verbatim>\<open>sysproc.c\<close> agrees with it.
\<close>

theorem dp_priority_ageing:
  assumes "pbs_ok p" "pbs_ok q" "pbs_static_priority p = pbs_static_priority q"
    "pbs_rtime p \<le> pbs_rtime q" "pbs_wtime q \<le> pbs_wtime p" "pbs_stime q \<le> pbs_stime p"
  shows "\<exists>dp dq p' q'. dp_priority p = Inr (dp, p') \<and> dp_priority q = Inr (dq, q') \<and> dp \<le> dq
    \<and> dp = min 100 (pbs_static_priority p + pbs_rbi p') \<and> dp = pbs_dynamic_priority p'
    \<and> pbs_rbi p' = max 0 ((3 * pbs_rtime p - pbs_wtime p - pbs_stime p) * 50
          div (1 + pbs_rtime p + pbs_stime p + pbs_wtime p))
    \<and> 0 \<le> pbs_rbi p' \<and> pbs_rbi p' < 150 \<and> dp \<le> 100
    \<and> (3 * pbs_rtime p \<le> pbs_wtime p + pbs_stime p \<longrightarrow> pbs_rbi p' = 0)
    \<and> sdp_priority p = dp_priority p"
proof -
  have nn: "0 \<le> pbs_rtime p" "0 \<le> pbs_wtime p" "0 \<le> pbs_stime p" "0 \<le> pbs_rtime q" "0 \<le> pbs_wtime q" "0 \<le> pbs_stime q"
    using assms(1,2) by (auto simp: pbs_ok_def)
  have "rbi_of (pbs_rtime p) (pbs_wtime p) (pbs_stime p) \<le> rbi_of (pbs_rtime p) (pbs_wtime q) (pbs_stime q)"
    by (rule rbi_wait_mono) (use nn assms in auto)
  also have "\<dots> \<le> rbi_of (pbs_rtime q) (pbs_wtime q) (pbs_stime q)"
    by (rule rbi_run_mono) (use nn assms in auto)
  finally have "dp_of p \<le> dp_of q" using assms(3) by (simp add: dp_of_def)
  moreover have "pbs_rbi (dp_set p) = 0" if le: "3 * pbs_rtime p \<le> pbs_wtime p + pbs_stime p"
  proof -
    have "(3 * pbs_rtime p - pbs_wtime p - pbs_stime p) * 50 div (1 + pbs_rtime p + pbs_stime p + pbs_wtime p) < 1"
      by (rule zdiv_less) (use nn le in auto)
    then show ?thesis by (simp add: dp_set_def rbi_of_def)
  qed
  moreover have "pbs_rbi (dp_set p) = rbi_of (pbs_rtime p) (pbs_wtime p) (pbs_stime p)"
    "pbs_dynamic_priority (dp_set p) = dp_of p" by (simp_all add: dp_set_def)
  ultimately show ?thesis
    using dp_priority_eq[OF assms(1)] dp_priority_eq[OF assms(2)] rbi_bounds[OF nn(1-3)]
    by (simp add: sdp_priority_same) (simp add: dp_of_def rbi_of_def)
qed

theorem dp_priority_ageing_witness:
  "\<exists>dp dq p' q'. dp_priority (proc_zero\<lparr>pbs_static_priority := 50, pbs_wtime := 9\<rparr>) = Inr (dp, p')
     \<and> dp_priority (proc_zero\<lparr>pbs_static_priority := 50, pbs_rtime := 4\<rparr>) = Inr (dq, q') \<and> dp \<le> dq"
  using dp_priority_ageing[of "proc_zero\<lparr>pbs_static_priority := 50, pbs_wtime := 9\<rparr>"
      "proc_zero\<lparr>pbs_static_priority := 50, pbs_rtime := 4\<rparr>"]
  by (auto simp: proc_zero_def pbs_ok_def INT_MIN_def INT_MAX_def)

text \<open>
  Accounting. \<open>update_time\<close>, called with no process lock held, charges one tick to every process:
  the running ones gain run time (both the life-time total and the one since the last dispatch),
  the runnable ones waiting time, the sleeping ones sleeping time, and nothing else changes.
\<close>

theorem update_time_charges:
  assumes "unlocked ps" "length ps = NPROC"
  shows "\<exists>ps'. update_time ps = Inr ps' \<and> unlocked ps' \<and> length ps' = NPROC
    \<and> (\<forall>i < NPROC. ps' ! i = (case state (ps ! i) of
          RUNNING \<Rightarrow> (ps ! i)\<lparr>rtime := rtime (ps ! i) + 1, pbs_rtime := i32 (pbs_rtime (ps ! i) + 1)\<rparr>
        | RUNNABLE \<Rightarrow> (ps ! i)\<lparr>pbs_wtime := i32 (pbs_wtime (ps ! i) + 1)\<rparr>
        | SLEEPING \<Rightarrow> (ps ! i)\<lparr>pbs_stime := i32 (pbs_stime (ps ! i) + 1)\<rparr>
        | _ \<Rightarrow> ps ! i))"
proof -
  have "unlocked (map tick_proc ps)" using assms(1) tick_proc_plocked(1) by (auto simp: unlocked_def)
  then show ?thesis
    using update_time_eq[OF assms] assms(2)
    by (auto simp: tick_proc_def Let_def split: procstate.splits)
qed

theorem update_time_charges_witness:
  "\<exists>ps'. update_time sample_table = Inr ps' \<and> unlocked ps' \<and> pbs_wtime (ps' ! 0) = 1"
proof -
  obtain ps' where "update_time sample_table = Inr ps'" "unlocked ps'"
    and all: "\<forall>i < NPROC. ps' ! i = (case state (sample_table ! i) of
          RUNNING \<Rightarrow> (sample_table ! i)\<lparr>rtime := rtime (sample_table ! i) + 1, pbs_rtime := i32 (pbs_rtime (sample_table ! i) + 1)\<rparr>
        | RUNNABLE \<Rightarrow> (sample_table ! i)\<lparr>pbs_wtime := i32 (pbs_wtime (sample_table ! i) + 1)\<rparr>
        | SLEEPING \<Rightarrow> (sample_table ! i)\<lparr>pbs_stime := i32 (pbs_stime (sample_table ! i) + 1)\<rparr>
        | _ \<Rightarrow> sample_table ! i)"
    using update_time_charges[OF sample_table_unlocked sample_table_len] by auto
  then show ?thesis
    by (auto simp: NPROC_def sample_table_def proc_zero_def i32_def)
qed

text \<open>
  \<open>setpriority\<close>. With no process lock held it never panics; when no entry has the pid it
  returns -1 and changes nothing; otherwise it returns the old static priority of the last entry
  with that pid and gives every entry with that pid (entries not in use included, when the pid is
  0) the new one, unchecked, and the index 25.
\<close>

theorem setpriority_sets:
  assumes "unlocked ps" "length ps = NPROC"
  shows "\<exists>r ps'. setpriority pd v ps = Inr (r, ps') \<and> unlocked ps'
    \<and> (if \<exists>p \<in> set ps. pid p = pd
       then (\<exists>i < NPROC. pid (ps ! i) = pd \<and> r = pbs_static_priority (ps ! i) \<and> (\<forall>k < NPROC. i < k \<longrightarrow> pid (ps ! k) \<noteq> pd))
            \<and> (\<forall>i < NPROC. ps' ! i = (if pid (ps ! i) = pd
                 then (ps ! i)\<lparr>pbs_static_priority := v, pbs_rbi := 25\<rparr> else ps ! i))
       else r = -1 \<and> ps' = ps)"
proof (cases "\<exists>p \<in> set ps. pid p = pd")
  case True
  let ?F = "filter (\<lambda>p. pid p = pd) ps"
  have ne: "?F \<noteq> []" using True by (auto simp: filter_empty_conv)
  have "\<exists>i < length ps. pid (ps ! i) = pd \<and> ps ! i = last ?F \<and> (\<forall>k < length ps. i < k \<longrightarrow> pid (ps ! k) \<noteq> pd)"
    using ne
  proof (induction ps rule: rev_induct)
    case (snoc p ps)
    show ?case
    proof (cases "pid p = pd")
      case True
      then show ?thesis by (intro exI[of _ "length ps"]) simp
    next
      case False
      then obtain i where "i < length ps" "pid (ps ! i) = pd" "ps ! i = last (filter (\<lambda>p. pid p = pd) ps)"
        "\<forall>k < length ps. i < k \<longrightarrow> pid (ps ! k) \<noteq> pd"
        using snoc by auto
      then show ?thesis using False by (intro exI[of _ i]) (auto simp: nth_append less_Suc_eq)
    qed
  qed simp
  moreover have "setpriority pd v ps = Inr (pbs_static_priority (last ?F), map (with_priority pd v) ps)"
    using setpriority_eq[OF assms, of pd v] ne by (cases ?F) auto
  moreover have "unlocked (map (with_priority pd v) ps)"
    using assms(1) by (auto simp: unlocked_def with_priority_def)
  ultimately show ?thesis using True assms(2) by (auto simp: with_priority_def)
next
  case False
  then have "filter (\<lambda>p. pid p = pd) ps = []" by (auto simp: filter_empty_conv)
  then show ?thesis using setpriority_eq[OF assms, of pd v] False assms(1) by auto
qed

theorem setpriority_sets_witness:
  "\<exists>r ps'. setpriority 7 60 sample_table = Inr (r, ps') \<and> r = -1 \<and> ps' = sample_table"
proof -
  have "\<not> (\<exists>p \<in> set sample_table. pid p = 7)" by (auto simp: sample_table_def proc_zero_def)
  then show ?thesis
    using setpriority_sets[OF sample_table_unlocked sample_table_len, of 7 60] by auto
qed

end
