(* ===== verification/Proc_Life.thy ===== *)
theory Proc_Life
  imports Sched
begin

unbundle bit_operations_syntax

text \<open>
  The life cycle of a process in \<^verbatim>\<open>kernel/proc.c\<close>: allocation and release of table entries and
  their page tables, growing memory, sleeping and waking, killing, and waiting for children. The
  state is the process table, this hart's current process, the locks it holds besides those in
  the table, and the memory of \<open>Kalloc\<close>.

  The linker's \<^verbatim>\<open>trampoline\<close> and the address of \<open>forkret\<close> are parameters, as is the address
  \<open>xa i\<close> at which the field \<open>xstate\<close> of entry \<open>i\<close> lies (\<open>copyout\<close> reads it from memory).
\<close>

section \<open>State\<close>

datatype lockid = PidLock | WaitLock | TicksLock | ConsLock | UartLock | ObjLock nat

record kern =
  procs :: ptable
  cur :: "nat option"  \<comment> \<open>\<^verbatim>\<open>mycpu()->proc\<close>\<close>
  initproc :: "nat option"
  nextpid :: int
  ticks :: uint
  klocks :: "lockid set"  \<comment> \<open>locks this hart holds that are not process locks\<close>
  km :: kmem

definition acquire_k :: "lockid \<Rightarrow> kern \<Rightarrow> kern result" where
  "acquire_k l k = (if l \<in> klocks k then Inl (Panic ''acquire'') else Inr (k\<lparr>klocks := insert l (klocks k)\<rparr>))"

definition release_k :: "lockid \<Rightarrow> kern \<Rightarrow> kern result" where
  "release_k l k = (if l \<notin> klocks k then Inl (Panic ''release'') else Inr (k\<lparr>klocks := klocks k - {l}\<rparr>))"

definition on_procs :: "(ptable \<Rightarrow> ptable result) \<Rightarrow> kern \<Rightarrow> kern result" where
  "on_procs f k = bnd (f (procs k)) (\<lambda>ps. Inr (k\<lparr>procs := ps\<rparr>))"

definition on_km :: "(kmem \<Rightarrow> kmem result) \<Rightarrow> kern \<Rightarrow> kern result" where
  "on_km f k = bnd (f (km k)) (\<lambda>s. Inr (k\<lparr>km := s\<rparr>))"

abbreviation lockp :: "nat \<Rightarrow> kern \<Rightarrow> kern result" where
  "lockp i \<equiv> on_procs (acquire_p i)"

abbreviation unlockp :: "nat \<Rightarrow> kern \<Rightarrow> kern result" where
  "unlockp i \<equiv> on_procs (release_p i)"

abbreviation setp :: "nat \<Rightarrow> (proc \<Rightarrow> proc) \<Rightarrow> kern \<Rightarrow> kern result" where
  "setp i f \<equiv> on_procs (upd_p i f)"

definition getp :: "nat \<Rightarrow> kern \<Rightarrow> proc result" where
  "getp i k = get_p i (procs k)"

text \<open>\<open>myproc\<close>, when its result is dereferenced.\<close>

definition myproc :: "kern \<Rightarrow> nat result" where
  "myproc k = (case cur k of None \<Rightarrow> Inl (Fault ''null proc'') | Some i \<Rightarrow> Inr i)"

section \<open>Page tables of processes\<close>

text \<open>The depth of the recursion of \<open>freewalk\<close>: three levels of page-table pages.\<close>

definition PTDEPTH :: nat where
  "PTDEPTH = 3"

definition proc_pagetable :: "uint64 \<Rightarrow> uint64 \<Rightarrow> kmem \<Rightarrow> (uint64 \<times> kmem) result" where
  "proc_pagetable trampoline tf s =
     bnd (uvmcreate s) (\<lambda>(pt, s).
       if pt = 0 then Inr (0, s)
       else
         bnd (mappages pt TRAMPOLINE PGSIZE trampoline (PTE_R OR PTE_X) s) (\<lambda>(r, s).
           if r < 0 then bnd (uvmfree PTDEPTH pt 0 s) (\<lambda>s. Inr (0, s))
           else
             bnd (mappages pt TRAPFRAME PGSIZE tf (PTE_R OR PTE_W) s) (\<lambda>(r, s).
               if r < 0 then
                 bnd (uvmunmap pt TRAMPOLINE 1 False s) (\<lambda>s.
                 bnd (uvmfree PTDEPTH pt 0 s) (\<lambda>s. Inr (0, s)))
               else Inr (pt, s))))"

definition proc_freepagetable :: "uint64 \<Rightarrow> uint64 \<Rightarrow> kmem \<Rightarrow> kmem result" where
  "proc_freepagetable pt n s =
     bnd (uvmunmap pt TRAMPOLINE 1 False s) (\<lambda>s.
     bnd (uvmunmap pt TRAPFRAME 1 False s) (\<lambda>s.
     uvmfree PTDEPTH pt n s))"

section \<open>Allocating and releasing an entry\<close>

definition procinit :: "kern \<Rightarrow> kern result" where
  "procinit k = for_each (\<lambda>i.
     setp i (\<lambda>p. p\<lparr>plocked := False, state := UNUSED, kstack := KSTACK (of_nat i)\<rparr>)) [0..<NPROC]
     (k\<lparr>klocks := klocks k - {PidLock, WaitLock}\<rparr>)"

definition allocpid :: "kern \<Rightarrow> (int \<times> kern) result" where
  "allocpid k =
     bnd (acquire_k PidLock k) (\<lambda>k.
     let p = nextpid k;
         k = k\<lparr>nextpid := i32 (nextpid k + 1)\<rparr> in
     bnd (release_k PidLock k) (\<lambda>k. Inr (p, k)))"

definition freeproc :: "nat \<Rightarrow> kern \<Rightarrow> kern result" where
  "freeproc i k =
     bnd (getp i k) (\<lambda>p.
     bnd (if trapframe p \<noteq> 0 then on_km (kfree (trapframe p)) k else Inr k) (\<lambda>k.
     bnd (setp i (\<lambda>p. p\<lparr>trapframe := 0\<rparr>) k) (\<lambda>k.
     bnd (if pagetable p \<noteq> 0 then on_km (proc_freepagetable (pagetable p) (sz p)) k else Inr k) (\<lambda>k.
     setp i (\<lambda>p. p\<lparr>pagetable := 0, sz := 0, pid := 0, parent := None, name := [], chan := NoChan,
       killed := 0, xstate := 0, state := UNUSED, pbs_static_priority := 0, pbs_dynamic_priority := 0,
       pbs_rbi := 0, pbs_rtime := 0, pbs_wtime := 0, pbs_stime := 0, pbs_num_sched := 0\<rparr>) k))))"

fun allocproc_find :: "nat list \<Rightarrow> kern \<Rightarrow> (nat option \<times> kern) result" where
  "allocproc_find [] k = Inr (None, k)"
| "allocproc_find (i # is) k =
     bnd (lockp i k) (\<lambda>k.
     bnd (getp i k) (\<lambda>p.
       if state p = UNUSED then Inr (Some i, k)
       else bnd (unlockp i k) (allocproc_find is)))"

definition allocproc :: "uint64 \<Rightarrow> uint64 \<Rightarrow> kern \<Rightarrow> (nat option \<times> kern) result" where
  "allocproc trampoline forkret k =
     bnd (allocproc_find [0..<NPROC] k) (\<lambda>(f, k). case f of None \<Rightarrow> Inr (None, k) | Some i \<Rightarrow>
     bnd (allocpid k) (\<lambda>(pd, k).
     bnd (setp i (\<lambda>p. p\<lparr>pid := pd, state := USED\<rparr>) k) (\<lambda>k.
     bnd (kalloc (km k)) (\<lambda>(tf, s).
     bnd (setp i (\<lambda>p. p\<lparr>trapframe := tf\<rparr>) (k\<lparr>km := s\<rparr>)) (\<lambda>k.
     if tf = 0 then bnd (freeproc i k) (\<lambda>k. bnd (unlockp i k) (\<lambda>k. Inr (None, k)))
     else
       bnd (proc_pagetable trampoline tf (km k)) (\<lambda>(pt, s).
       bnd (setp i (\<lambda>p. p\<lparr>pagetable := pt\<rparr>) (k\<lparr>km := s\<rparr>)) (\<lambda>k.
       if pt = 0 then bnd (freeproc i k) (\<lambda>k. bnd (unlockp i k) (\<lambda>k. Inr (None, k)))
       else
         bnd (setp i (\<lambda>p. p\<lparr>ctx := \<lparr>ra = forkret, sp = kstack p + PGSIZE, callee_saved = replicate 12 0\<rparr>,
                rtime := 0, etime := 0, ctime := ticks k, pbs_static_priority := 50,
                pbs_dynamic_priority := 0, pbs_rbi := 0, pbs_rtime := 0, pbs_wtime := 0, pbs_stime := 0,
                pbs_num_sched := 0\<rparr>) k) (\<lambda>k. Inr (Some i, k)))))))))"

definition growproc :: "int \<Rightarrow> kern \<Rightarrow> (int \<times> kern) result" where
  "growproc n k =
     bnd (myproc k) (\<lambda>i.
     bnd (getp i k) (\<lambda>p.
     if n > 0 then
       bnd (uvmalloc (pagetable p) (sz p) (sz p + of_int n) PTE_W (km k)) (\<lambda>(z, s).
         if z = 0 then Inr (-1, k\<lparr>km := s\<rparr>)
         else bnd (setp i (\<lambda>p. p\<lparr>sz := z\<rparr>) (k\<lparr>km := s\<rparr>)) (\<lambda>k. Inr (0, k)))
     else if n < 0 then
       bnd (uvmdealloc (pagetable p) (sz p) (sz p + of_int n) (km k)) (\<lambda>(z, s).
         bnd (setp i (\<lambda>p. p\<lparr>sz := z\<rparr>) (k\<lparr>km := s\<rparr>)) (\<lambda>k. Inr (0, k)))
     else bnd (setp i (\<lambda>p. p\<lparr>sz := sz p\<rparr>) k) (\<lambda>k. Inr (0, k))))"

section \<open>Sleeping, waking, killing\<close>

text \<open>
  The number of locks the hart holds, which \<open>mycpu()->noff\<close> counts (theory \<open>Spinlock\<close>): \<open>sched\<close>
  requires it to be 1.
\<close>

definition nlocks :: "kern \<Rightarrow> nat" where
  "nlocks k = length (filter plocked (procs k)) + card (klocks k)"

definition sched :: "kern \<Rightarrow> unit result" where
  "sched k =
     bnd (myproc k) (\<lambda>i.
     bnd (getp i k) (\<lambda>p.
       if \<not> plocked p then Inl (Panic ''sched p->lock'')
       else if nlocks k \<noteq> 1 then Inl (Panic ''sched locks'')
       else if state p = RUNNING then Inl (Panic ''sched running'')
       else Inr ()))"

text \<open>
  A blocking call is cut where it gives the CPU away: the \<open>_enter\<close> part runs up to the context
  switch, the \<open>_leave\<close> part when the process is scheduled again (with its lock held).
\<close>

definition yield_enter :: "kern \<Rightarrow> kern result" where
  "yield_enter k =
     bnd (myproc k) (\<lambda>i.
     bnd (lockp i k) (\<lambda>k.
     bnd (setp i (\<lambda>p. p\<lparr>state := RUNNABLE\<rparr>) k) (\<lambda>k.
     bnd (sched k) (\<lambda>_. Inr k))))"

definition yield_leave :: "kern \<Rightarrow> kern result" where
  "yield_leave k = bnd (myproc k) (\<lambda>i. unlockp i k)"

definition sleep_enter :: "chan \<Rightarrow> lockid \<Rightarrow> kern \<Rightarrow> kern result" where
  "sleep_enter c lk k =
     bnd (myproc k) (\<lambda>i.
     bnd (lockp i k) (\<lambda>k.
     bnd (release_k lk k) (\<lambda>k.
     bnd (setp i (\<lambda>p. p\<lparr>chan := c, state := SLEEPING\<rparr>) k) (\<lambda>k.
     bnd (sched k) (\<lambda>_. Inr k)))))"

definition sleep_leave :: "lockid \<Rightarrow> kern \<Rightarrow> kern result" where
  "sleep_leave lk k =
     bnd (myproc k) (\<lambda>i.
     bnd (setp i (\<lambda>p. p\<lparr>chan := NoChan\<rparr>) k) (\<lambda>k.
     bnd (unlockp i k) (acquire_k lk)))"

definition wake_proc :: "chan \<Rightarrow> proc \<Rightarrow> proc" where
  "wake_proc c p = (if state p = SLEEPING \<and> chan p = c then p\<lparr>state := RUNNABLE\<rparr> else p)"

definition wakeup :: "chan \<Rightarrow> kern \<Rightarrow> kern result" where
  "wakeup c k = for_each (\<lambda>i k.
     if cur k = Some i then Inr k else on_procs (locked_p i (wake_proc c)) k) [0..<NPROC] k"

fun kill_loop :: "int \<Rightarrow> nat list \<Rightarrow> kern \<Rightarrow> (int \<times> kern) result" where
  "kill_loop pd [] k = Inr (-1, k)"
| "kill_loop pd (i # is) k =
     bnd (lockp i k) (\<lambda>k.
     bnd (getp i k) (\<lambda>p.
       if pid p = pd then
         bnd (setp i (\<lambda>p. p\<lparr>killed := 1, state := (if state p = SLEEPING then RUNNABLE else state p)\<rparr>) k) (\<lambda>k.
         bnd (unlockp i k) (\<lambda>k. Inr (0, k)))
       else bnd (unlockp i k) (kill_loop pd is)))"

definition kill :: "int \<Rightarrow> kern \<Rightarrow> (int \<times> kern) result" where
  "kill pd k = kill_loop pd [0..<NPROC] k"

definition setkilled :: "nat \<Rightarrow> kern \<Rightarrow> kern result" where
  "setkilled i k = on_procs (locked_p i (\<lambda>p. p\<lparr>killed := 1\<rparr>)) k"

definition is_killed :: "nat \<Rightarrow> kern \<Rightarrow> (int \<times> kern) result" where
  "is_killed i k =
     bnd (lockp i k) (\<lambda>k. bnd (getp i k) (\<lambda>p. bnd (unlockp i k) (\<lambda>k. Inr (killed p, k))))"

section \<open>Parents and children\<close>

definition reparent :: "nat \<Rightarrow> kern \<Rightarrow> kern result" where
  "reparent i k = for_each (\<lambda>j k.
     bnd (getp j k) (\<lambda>pp.
       if parent pp = Some i then
         bnd (setp j (\<lambda>pp. pp\<lparr>parent := initproc k\<rparr>) k) (\<lambda>k.
           wakeup (case initproc k of None \<Rightarrow> NoChan | Some z \<Rightarrow> OnProc z) k)
       else Inr k)) [0..<NPROC] k"

text \<open>How a pass of \<open>wait\<close> ends: it returns a value, or it goes to sleep (to be run again).\<close>

datatype 'a blocking = Returns 'a | Sleeps

text \<open>\<open>copyout\<close> of the 4 bytes of \<open>xstate\<close> of entry \<open>j\<close>, which lie at \<open>xa j\<close>.\<close>

definition store32 :: "memory \<Rightarrow> uint64 \<Rightarrow> uint \<Rightarrow> memory" where
  "store32 m a v = (\<lambda>x. if x - a < 4 then ucast (drop_bit (8 * unat (x - a)) v) else m x)"

definition copyout_xstate ::
  "(nat \<Rightarrow> uint64) \<Rightarrow> uint64 \<Rightarrow> uint64 \<Rightarrow> nat \<Rightarrow> kern \<Rightarrow> (int \<times> kern) result" where
  "copyout_xstate xa pt addr j k =
     bnd (getp j k) (\<lambda>pp.
     let s = (km k)\<lparr>mem := store32 (mem (km k)) (xa j) (of_int (xstate pp))\<rparr> in
     bnd (copyout pt addr (xa j) 4 s) (\<lambda>(r, s). Inr (r, k\<lparr>km := s\<rparr>)))"

text \<open>
  The scan of \<open>wait\<close> and \<open>waitx\<close> for an exited child of \<open>i\<close>; both hold \<open>wait_lock\<close>. The result
  is the pid (or -1) with the run and wait times of the child, or whether there are children.
\<close>

fun wait_scan ::
  "(nat \<Rightarrow> uint64) \<Rightarrow> nat \<Rightarrow> uint64 \<Rightarrow> nat list \<Rightarrow> bool \<Rightarrow> kern \<Rightarrow> (((int \<times> uint \<times> uint) + bool) \<times> kern) result"
where
  "wait_scan xa i addr [] havekids k = Inr (Inr havekids, k)"
| "wait_scan xa i addr (j # js) havekids k =
     bnd (getp j k) (\<lambda>pp.
       if parent pp = Some i then
         bnd (lockp j k) (\<lambda>k.
         if state pp = ZOMBIE then
           bnd (getp i k) (\<lambda>p.
           bnd (if addr \<noteq> 0 then copyout_xstate xa (pagetable p) addr j k else Inr (0, k)) (\<lambda>(r, k).
             if r < 0 then
               bnd (unlockp j k) (\<lambda>k. bnd (release_k WaitLock k) (\<lambda>k.
                 Inr (Inl (-1, etime pp - ctime pp - rtime pp, rtime pp), k)))
             else
               bnd (freeproc j k) (\<lambda>k. bnd (unlockp j k) (\<lambda>k. bnd (release_k WaitLock k) (\<lambda>k.
                 Inr (Inl (pid pp, etime pp - ctime pp - rtime pp, rtime pp), k))))))
         else bnd (unlockp j k) (wait_scan xa i addr js True))
       else wait_scan xa i addr js havekids k)"

definition wait :: "(nat \<Rightarrow> uint64) \<Rightarrow> uint64 \<Rightarrow> kern \<Rightarrow> (int blocking \<times> kern) result" where
  "wait xa addr k =
     bnd (myproc k) (\<lambda>i.
     bnd (acquire_k WaitLock k) (\<lambda>k.
     bnd (wait_scan xa i addr [0..<NPROC] False k) (\<lambda>(r, k).
       case r of
         Inl (v, _) \<Rightarrow> Inr (Returns v, k)
       | Inr havekids \<Rightarrow>
           if \<not> havekids then bnd (release_k WaitLock k) (\<lambda>k. Inr (Returns (-1), k))
           else bnd (is_killed i k) (\<lambda>(kl, k).
             if kl \<noteq> 0 then bnd (release_k WaitLock k) (\<lambda>k. Inr (Returns (-1), k))
             else bnd (sleep_enter (OnProc i) WaitLock k) (\<lambda>k. Inr (Sleeps, k))))))"

text \<open>\<open>waitx\<close> also returns the waiting and the running time of the child, and reads \<open>killed\<close> unlocked.\<close>

definition waitx ::
  "(nat \<Rightarrow> uint64) \<Rightarrow> uint64 \<Rightarrow> kern \<Rightarrow> ((int \<times> (uint \<times> uint) option) blocking \<times> kern) result" where
  "waitx xa addr k =
     bnd (myproc k) (\<lambda>i.
     bnd (acquire_k WaitLock k) (\<lambda>k.
     bnd (wait_scan xa i addr [0..<NPROC] False k) (\<lambda>(r, k).
       case r of
         Inl (v, wt, rt) \<Rightarrow> Inr (Returns (v, Some (wt, rt)), k)
       | Inr havekids \<Rightarrow>
           bnd (getp i k) (\<lambda>p.
           if \<not> havekids \<or> killed p \<noteq> 0
           then bnd (release_k WaitLock k) (\<lambda>k. Inr (Returns (-1, None), k))
           else bnd (sleep_enter (OnProc i) WaitLock k) (\<lambda>k. Inr (Sleeps, k))))))"

definition either_copyout :: "bool \<Rightarrow> uint64 \<Rightarrow> uint64 \<Rightarrow> uint64 \<Rightarrow> kern \<Rightarrow> (int \<times> kern) result" where
  "either_copyout user_dst dst src len k =
     (if user_dst then
        bnd (myproc k) (\<lambda>i. bnd (getp i k) (\<lambda>p.
        bnd (copyout (pagetable p) dst src len (km k)) (\<lambda>(r, s). Inr (r, k\<lparr>km := s\<rparr>))))
      else Inr (0, k\<lparr>km := (km k)\<lparr>mem := memmove (mem (km k)) dst src (unat len)\<rparr>\<rparr>))"

definition either_copyin :: "uint64 \<Rightarrow> bool \<Rightarrow> uint64 \<Rightarrow> uint64 \<Rightarrow> kern \<Rightarrow> (int \<times> kern) result" where
  "either_copyin dst user_src src len k =
     (if user_src then
        bnd (myproc k) (\<lambda>i. bnd (getp i k) (\<lambda>p.
        bnd (copyin (pagetable p) dst src len (km k)) (\<lambda>(r, s). Inr (r, k\<lparr>km := s\<rparr>))))
      else Inr (0, k\<lparr>km := (km k)\<lparr>mem := memmove (mem (km k)) dst src (unat len)\<rparr>\<rparr>))"

section \<open>Behaviour\<close>

lemmas kern_defs = on_procs_def on_km_def getp_def get_p_def upd_p_def acquire_p_def release_p_def
  acquire_k_def release_k_def

text \<open>The locks of all processes but the current one are free.\<close>

definition others_unlocked :: "kern \<Rightarrow> bool" where
  "others_unlocked k \<longleftrightarrow> (\<forall>i < length (procs k). cur k \<noteq> Some i \<longrightarrow> \<not> plocked (procs k ! i))"

lemma wake_proc_plocked:
  "plocked (wake_proc c p) = plocked p" "wake_proc c (p\<lparr>plocked := b\<rparr>) = (wake_proc c p)\<lparr>plocked := b\<rparr>"
  by (auto simp: wake_proc_def)

definition wake_at :: "chan \<Rightarrow> kern \<Rightarrow> nat set \<Rightarrow> ptable" where
  "wake_at c k I = map (\<lambda>i. if i \<in> I \<and> cur k \<noteq> Some i then wake_proc c (procs k ! i) else procs k ! i)
     [0..<length (procs k)]"

lemma wakeup_loop:
  assumes "others_unlocked k" "n \<le> length (procs k)"
  shows "for_each (\<lambda>i k. if cur k = Some i then Inr k else on_procs (locked_p i (wake_proc c)) k) [0..<n] k
    = Inr (k\<lparr>procs := wake_at c k {..<n}\<rparr>)"
  using assms(2)
proof (induction n)
  case 0
  have "wake_at c k {..<0} = procs k" unfolding wake_at_def by (rule nth_equalityI) auto
  then show ?case by simp
next
  case (Suc n)
  then have n: "n < length (procs k)" by simp
  have at: "wake_at c k {..<n} ! n = procs k ! n" "length (wake_at c k {..<n}) = length (procs k)"
    using n by (simp_all add: wake_at_def)
  have eq: "wake_at c k {..<Suc n} = (if cur k = Some n then wake_at c k {..<n}
      else (wake_at c k {..<n})[n := wake_proc c (procs k ! n)])"
    by (rule nth_equalityI) (auto simp: wake_at_def nth_list_update less_Suc_eq)
  have "locked_p n (wake_proc c) (wake_at c k {..<n}) = Inr ((wake_at c k {..<n})[n := wake_proc c (procs k ! n)])"
    if "cur k \<noteq> Some n"
    using locked_p_eq[of n "wake_at c k {..<n}" "wake_proc c"] assms(1) n that at wake_proc_plocked
    by (auto simp: others_unlocked_def)
  then show ?case using Suc n eq by (simp add: for_each_append on_procs_def)
qed

lemma wakeup_eq:
  assumes "others_unlocked k" "length (procs k) = NPROC"
  shows "wakeup c k = Inr (k\<lparr>procs := wake_at c k {..<NPROC}\<rparr>)"
  using wakeup_loop[OF assms(1), of NPROC] assms(2) by (simp add: wakeup_def)

lemma kill_loop_eq:
  assumes "unlocked (procs k)" "\<forall>i \<in> set is. i < length (procs k)"
  shows "kill_loop pd is k = Inr (case find (\<lambda>i. pid (procs k ! i) = pd) is of
      None \<Rightarrow> (-1, k)
    | Some i \<Rightarrow> (0, k\<lparr>procs := (procs k)[i := (procs k ! i)\<lparr>killed := 1,
        state := (if state (procs k ! i) = SLEEPING then RUNNABLE else state (procs k ! i))\<rparr>]\<rparr>))"
  using assms(2)
proof (induction "is")
  case (Cons i "is")
  then have i: "i < length (procs k)" by simp
  have "(procs k)[i := (procs k ! i)\<lparr>plocked := False\<rparr>] = procs k"
    using unlocked_nth[OF assms(1) i] by (simp add: plocked_idle)
  then show ?case
    using Cons i unlocked_nth[OF assms(1) i] by (auto simp: kern_defs plocked_idle)
qed simp

lemma kill_eq:
  assumes "unlocked (procs k)" "length (procs k) = NPROC"
  shows "kill pd k = Inr (case find (\<lambda>i. pid (procs k ! i) = pd) [0..<NPROC] of
      None \<Rightarrow> (-1, k)
    | Some i \<Rightarrow> (0, k\<lparr>procs := (procs k)[i := (procs k ! i)\<lparr>killed := 1,
        state := (if state (procs k ! i) = SLEEPING then RUNNABLE else state (procs k ! i))\<rparr>]\<rparr>))"
  unfolding kill_def by (rule kill_loop_eq) (use assms in auto)

subsection \<open>Going to sleep\<close>

lemma filter_plocked_one:
  assumes "unlocked ps" "i < length ps" "plocked p"
  shows "length (filter plocked (ps[i := p])) = 1"
proof -
  have none: "filter plocked (take i ps) = []" "filter plocked (drop (Suc i) ps) = []"
    using assms(1) by (auto simp: unlocked_def filter_empty_conv dest: in_set_takeD in_set_dropD)
  have "ps[i := p] = take i ps @ p # drop (Suc i) ps"
    using assms(2) by (rule upd_conv_take_nth_drop)
  then show ?thesis using none assms(3) by simp
qed

text \<open>
  Called with exactly one lock held, \<open>sleep\<close> reaches the context switch: the process sleeps on the
  channel, its own lock is held and the other one released.
\<close>

lemma sleep_enter_eq:
  assumes "cur k = Some i" "i < length (procs k)" "unlocked (procs k)" "klocks k = {lk}"
  shows "sleep_enter c lk k = Inr (k\<lparr>klocks := {},
     procs := (procs k)[i := (procs k ! i)\<lparr>plocked := True, chan := c, state := SLEEPING\<rparr>]\<rparr>)"
  using assms filter_plocked_one[OF assms(3,2), of "(procs k ! i)\<lparr>plocked := True, chan := c, state := SLEEPING\<rparr>"]
  by (simp add: sleep_enter_def myproc_def kern_defs sched_def nlocks_def)

text \<open>Holding a second lock, it panics instead of sleeping with it.\<close>

lemma sleep_enter_panics:
  assumes "cur k = Some i" "i < length (procs k)" "unlocked (procs k)" "lk \<in> klocks k" "finite (klocks k)"
    "klocks k \<noteq> {lk}"
  shows "sleep_enter c lk k = Inl (Panic ''sched locks'')"
proof -
  have "klocks k - {lk} \<noteq> {}" using assms(4,6) by auto
  then have "card (klocks k - {lk}) \<noteq> 0" using assms(5) by simp
  then show ?thesis
    using assms(1-5)
      filter_plocked_one[OF assms(3,2), of "(procs k ! i)\<lparr>plocked := True, chan := c, state := SLEEPING\<rparr>"]
    by (simp add: sleep_enter_def myproc_def kern_defs sched_def nlocks_def)
qed

subsection \<open>The table under allocation and release\<close>

text \<open>What \<open>freeproc\<close> leaves of an entry.\<close>

definition cleared :: "proc \<Rightarrow> proc" where
  "cleared p = p\<lparr>trapframe := 0, pagetable := 0, sz := 0, pid := 0, parent := None, name := [], chan := NoChan,
       killed := 0, xstate := 0, state := UNUSED, pbs_static_priority := 0, pbs_dynamic_priority := 0,
       pbs_rbi := 0, pbs_rtime := 0, pbs_wtime := 0, pbs_stime := 0, pbs_num_sched := 0\<rparr>"

lemma on_km_Inr: "on_km f k = Inr k' \<Longrightarrow> \<exists>s. k' = k\<lparr>km := s\<rparr>"
  by (auto simp: on_km_def bnd_eq_Inr)

lemma freeproc_table:
  assumes "freeproc i k = Inr k'"
  shows "i < length (procs k) \<and> (\<exists>s. k' = k\<lparr>km := s, procs := (procs k)[i := cleared (procs k ! i)]\<rparr>)"
proof -
  obtain p k1 k2 k3 where
    p: "getp i k = Inr p" and k1: "(if trapframe p \<noteq> 0 then on_km (kfree (trapframe p)) k else Inr k) = Inr k1"
    and k2: "setp i (\<lambda>p. p\<lparr>trapframe := 0\<rparr>) k1 = Inr k2"
    and k3: "(if pagetable p \<noteq> 0 then on_km (proc_freepagetable (pagetable p) (sz p)) k2 else Inr k2) = Inr k3"
    and k': "setp i (\<lambda>p. p\<lparr>pagetable := 0, sz := 0, pid := 0, parent := None, name := [], chan := NoChan,
       killed := 0, xstate := 0, state := UNUSED, pbs_static_priority := 0, pbs_dynamic_priority := 0,
       pbs_rbi := 0, pbs_rtime := 0, pbs_wtime := 0, pbs_stime := 0, pbs_num_sched := 0\<rparr>) k3 = Inr k'"
    using assms unfolding freeproc_def bnd_eq_Inr by blast
  have "\<exists>s. k1 = k\<lparr>km := s\<rparr>"
    using k1 on_km_Inr[of "kfree (trapframe p)" k k1] by (cases "trapframe p = 0") (auto intro: exI[of _ "km k"])
  moreover have "\<exists>s. k3 = k2\<lparr>km := s\<rparr>"
    using k3 on_km_Inr[of "proc_freepagetable (pagetable p) (sz p)" k2 k3]
    by (cases "pagetable p = 0") (auto intro: exI[of _ "km k2"])
  ultimately show ?thesis
    using p k2 k' by (auto simp: kern_defs cleared_def split: if_splits)
qed

lemma allocproc_find_eq:
  assumes "unlocked (procs k)" "\<forall>i \<in> set is. i < length (procs k)"
  shows "allocproc_find is k = Inr (case find (\<lambda>i. state (procs k ! i) = UNUSED) is of
      None \<Rightarrow> (None, k)
    | Some i \<Rightarrow> (Some i, k\<lparr>procs := (procs k)[i := (procs k ! i)\<lparr>plocked := True\<rparr>]\<rparr>))"
  using assms(2)
proof (induction "is")
  case (Cons i "is")
  then have i: "i < length (procs k)" by simp
  have "(procs k)[i := (procs k ! i)\<lparr>plocked := False\<rparr>] = procs k"
    using unlocked_nth[OF assms(1) i] by (simp add: plocked_idle)
  then show ?case
    using Cons i unlocked_nth[OF assms(1) i] by (auto simp: kern_defs plocked_idle)
qed simp

text \<open>The entry \<open>allocproc\<close> returns: USED, with the pid given and the scheduling fields reset.\<close>

definition fresh :: "int \<Rightarrow> uint64 \<Rightarrow> uint \<Rightarrow> uint64 \<Rightarrow> uint64 \<Rightarrow> proc \<Rightarrow> proc" where
  "fresh pd forkret now tf pt p = p\<lparr>plocked := True, pid := pd, state := USED, trapframe := tf, pagetable := pt,
     ctx := \<lparr>ra = forkret, sp = kstack p + PGSIZE, callee_saved = replicate 12 0\<rparr>, rtime := 0, etime := 0,
     ctime := now, pbs_static_priority := 50, pbs_dynamic_priority := 0, pbs_rbi := 0, pbs_rtime := 0,
     pbs_wtime := 0, pbs_stime := 0, pbs_num_sched := 0\<rparr>"

lemma allocproc_table:
  assumes a: "allocproc tr fr k = Inr (r, k')" and u: "unlocked (procs k)" "length (procs k) = NPROC"
    and nl: "PidLock \<notin> klocks k"
  shows "case find (\<lambda>i. state (procs k ! i) = UNUSED) [0..<NPROC] of
      None \<Rightarrow> r = None \<and> k' = k
    | Some i \<Rightarrow> (\<exists>s. r = None \<and> k' = k\<lparr>nextpid := i32 (nextpid k + 1), km := s,
           procs := (procs k)[i := cleared (procs k ! i)]\<rparr>)
      \<or> (\<exists>s tf pt. r = Some i \<and> tf \<noteq> 0 \<and> pt \<noteq> 0 \<and> k' = k\<lparr>nextpid := i32 (nextpid k + 1), km := s,
           procs := (procs k)[i := fresh (nextpid k) fr (ticks k) tf pt (procs k ! i)]\<rparr>)"
proof (cases "find (\<lambda>i. state (procs k ! i) = UNUSED) [0..<NPROC]")
  case None
  then show ?thesis
    using a allocproc_find_eq[OF u(1), of "[0..<NPROC]"] u(2) by (simp add: allocproc_def)
next
  case (Some i)
  then have i: "i < NPROC" "i < length (procs k)" using u(2) by (auto simp: find_Some_iff)
  define k2 where "k2 tf s = k\<lparr>nextpid := i32 (nextpid k + 1), km := s,
     procs := (procs k)[i := (procs k ! i)\<lparr>plocked := True, pid := nextpid k, state := USED, trapframe := tf\<rparr>]\<rparr>"
    for tf s
  have k2km: "(k2 tf s)\<lparr>km := s'\<rparr> = k2 tf s'" for tf s s' by (simp add: k2_def)
  note found = Some allocproc_find_eq[OF u(1), of "[0..<NPROC]"] u(2) i nl
  obtain tf s where al: "kalloc (km k) = Inr (tf, s)"
    using a found by (cases "kalloc (km k)") (auto simp: allocproc_def allocpid_def kern_defs)
  have run: "allocproc tr fr k =
     (if tf = 0 then bnd (freeproc i (k2 tf s)) (\<lambda>k. bnd (unlockp i k) (\<lambda>k. Inr (None, k)))
      else
       bnd (proc_pagetable tr tf s) (\<lambda>(pt, s).
       bnd (setp i (\<lambda>p. p\<lparr>pagetable := pt\<rparr>) ((k2 tf (km k))\<lparr>km := s\<rparr>)) (\<lambda>k.
       if pt = 0 then bnd (freeproc i k) (\<lambda>k. bnd (unlockp i k) (\<lambda>k. Inr (None, k)))
       else
         bnd (setp i (\<lambda>p. p\<lparr>ctx := \<lparr>ra = fr, sp = kstack p + PGSIZE, callee_saved = replicate 12 0\<rparr>,
                rtime := 0, etime := 0, ctime := ticks k, pbs_static_priority := 50,
                pbs_dynamic_priority := 0, pbs_rbi := 0, pbs_rtime := 0, pbs_wtime := 0, pbs_stime := 0,
                pbs_num_sched := 0\<rparr>) k) (\<lambda>k. Inr (Some i, k)))))"
    using found al by (simp add: allocproc_def allocpid_def kern_defs k2_def)
  note run = run[unfolded k2km]
  have undo: "\<exists>s. k' = k\<lparr>nextpid := i32 (nextpid k + 1), km := s, procs := (procs k)[i := cleared (procs k ! i)]\<rparr>"
    if f: "bnd (freeproc i k3) (\<lambda>k. bnd (unlockp i k) (\<lambda>k. Inr (None, k))) = Inr (r, k')"
      and k3: "k3 = (k2 tf s)\<lparr>procs := (procs (k2 tf s))[i := p]\<rparr>" and c: "cleared p = (cleared (procs k ! i))\<lparr>plocked := True\<rparr>"
    for k3 tf s p
  proof -
    obtain k4 where k4: "freeproc i k3 = Inr k4" "unlockp i k4 = Inr k'" using f by (auto simp: bnd_eq_Inr)
    obtain s' where "k4 = k3\<lparr>km := s', procs := (procs k3)[i := cleared (procs k3 ! i)]\<rparr>"
      using freeproc_table[OF k4(1)] by blast
    moreover have "(cleared (procs k ! i))\<lparr>plocked := False\<rparr> = cleared (procs k ! i)"
      using unlocked_nth[OF u(1) i(2)] by (simp add: cleared_def)
    ultimately show ?thesis using k4(2) k3 c i by (auto simp: kern_defs k2_def)
  qed
  show ?thesis
  proof (cases "tf = 0")
    case True
    have "r = None" using a run al True by (auto simp: bnd_eq_Inr)
    moreover have "\<exists>s. k' = k\<lparr>nextpid := i32 (nextpid k + 1), km := s, procs := (procs k)[i := cleared (procs k ! i)]\<rparr>"
      by (rule undo[of "k2 tf s" tf s "procs (k2 tf s) ! i"])
        (use a run al True i in \<open>auto simp: cleared_def k2_def\<close>)
    ultimately show ?thesis using Some by simp
  next
    case False
    then obtain pt s2 where pt: "proc_pagetable tr tf s = Inr (pt, s2)"
      using a run al by (auto simp: bnd_eq_Inr)
    define p where "p = (procs k ! i)\<lparr>plocked := True, pid := nextpid k, state := USED, trapframe := tf, pagetable := pt\<rparr>"
    have st: "setp i (\<lambda>p. p\<lparr>pagetable := pt\<rparr>) (k2 tf s2) = Inr ((k2 tf s2)\<lparr>procs := (procs (k2 tf s2))[i := p]\<rparr>)"
      using i by (simp add: kern_defs k2_def p_def)
    show ?thesis
    proof (cases "pt = 0")
      case True
      then have f: "bnd (freeproc i ((k2 tf s2)\<lparr>procs := (procs (k2 tf s2))[i := p]\<rparr>))
          (\<lambda>k. bnd (unlockp i k) (\<lambda>k. Inr (None, k))) = Inr (r, k')"
        using a run al False pt st by simp
      then have "r = None" by (auto simp: bnd_eq_Inr)
      moreover have "cleared p = (cleared (procs k ! i))\<lparr>plocked := True\<rparr>" by (simp add: cleared_def p_def)
      ultimately show ?thesis using Some undo[OF f refl] by auto
    next
      case False
      then have "r = Some i" "k' = k\<lparr>nextpid := i32 (nextpid k + 1), km := s2,
           procs := (procs k)[i := fresh (nextpid k) fr (ticks k) tf pt (procs k ! i)]\<rparr>"
        using a run al \<open>tf \<noteq> 0\<close> pt st i by (auto simp: kern_defs k2_def p_def fresh_def)
      then show ?thesis using Some \<open>tf \<noteq> 0\<close> False by auto
    qed
  qed
qed

subsection \<open>Waiting for children\<close>

definition child_of :: "kern \<Rightarrow> nat \<Rightarrow> nat \<Rightarrow> bool" where
  "child_of k i j \<longleftrightarrow> parent (procs k ! j) = Some i"

definition zombie_of :: "kern \<Rightarrow> nat \<Rightarrow> nat \<Rightarrow> bool" where
  "zombie_of k i j \<longleftrightarrow> child_of k i j \<and> state (procs k ! j) = ZOMBIE"

definition lock_entry :: "nat \<Rightarrow> kern \<Rightarrow> kern" where
  "lock_entry j k = k\<lparr>procs := (procs k)[j := (procs k ! j)\<lparr>plocked := True\<rparr>]\<rparr>"

text \<open>What \<open>wait\<close> does with the first exited child \<open>j\<close> it finds.\<close>

definition reap ::
  "(nat \<Rightarrow> uint64) \<Rightarrow> nat \<Rightarrow> uint64 \<Rightarrow> nat \<Rightarrow> kern \<Rightarrow> (((int \<times> uint \<times> uint) + bool) \<times> kern) result" where
  "reap xa i addr j k =
     (let pp = procs k ! j in
      bnd (getp i (lock_entry j k)) (\<lambda>p.
      bnd (if addr \<noteq> 0 then copyout_xstate xa (pagetable p) addr j (lock_entry j k)
           else Inr (0, lock_entry j k)) (\<lambda>(r, k).
        if r < 0 then
          bnd (unlockp j k) (\<lambda>k. bnd (release_k WaitLock k) (\<lambda>k.
            Inr (Inl (-1, etime pp - ctime pp - rtime pp, rtime pp), k)))
        else
          bnd (freeproc j k) (\<lambda>k. bnd (unlockp j k) (\<lambda>k. bnd (release_k WaitLock k) (\<lambda>k.
            Inr (Inl (pid pp, etime pp - ctime pp - rtime pp, rtime pp), k)))))))"

lemma wait_scan_eq:
  assumes "unlocked (procs k)" "\<forall>j \<in> set js. j < length (procs k)"
  shows "wait_scan xa i addr js hk k = (case find (zombie_of k i) js of
      None \<Rightarrow> Inr (Inr (hk \<or> (\<exists>j \<in> set js. child_of k i j)), k)
    | Some j \<Rightarrow> reap xa i addr j k)"
  using assms(2)
proof (induction js arbitrary: hk)
  case (Cons j js)
  then have j: "j < length (procs k)" by simp
  have idle: "(procs k)[j := (procs k ! j)\<lparr>plocked := False\<rparr>] = procs k"
    using unlocked_nth[OF assms(1) j] by (simp add: plocked_idle)
  have lock: "lockp j k = Inr (lock_entry j k)" "unlockp j (lock_entry j k) = Inr k"
    using j unlocked_nth[OF assms(1) j] idle by (simp_all add: kern_defs lock_entry_def)
  have get: "getp j k = Inr (procs k ! j)" using j by (simp add: kern_defs)
  consider "zombie_of k i j" | "child_of k i j" "\<not> zombie_of k i j" | "\<not> child_of k i j"
    by (auto simp: zombie_of_def)
  then show ?case
  proof cases
    case 1
    then show ?thesis
      using lock get by (simp add: zombie_of_def child_of_def reap_def Let_def)
  next
    case 2
    then have step: "wait_scan xa i addr (j # js) hk k = wait_scan xa i addr js True k"
      using lock get by (simp add: zombie_of_def child_of_def)
    show ?thesis unfolding step using 2 Cons by (simp split: option.splits)
  next
    case 3
    then have step: "wait_scan xa i addr (j # js) hk k = wait_scan xa i addr js hk k"
      using get by (simp add: child_of_def)
    show ?thesis unfolding step using 3 Cons by (simp add: zombie_of_def split: option.splits)
  qed
qed simp

text \<open>Reaping without copying the status: the entry is released and both locks given back.\<close>

lemma reap_no_status:
  assumes "i < length (procs k)" "j < length (procs k)" "WaitLock \<in> klocks k" "unlocked (procs k)"
    "freeproc j (lock_entry j k) = Inr kf"
  shows "\<exists>s. reap xa i 0 j k = Inr (Inl (pid (procs k ! j), etime (procs k ! j) - ctime (procs k ! j) - rtime (procs k ! j),
      rtime (procs k ! j)), k\<lparr>km := s, klocks := klocks k - {WaitLock}, procs := (procs k)[j := cleared (procs k ! j)]\<rparr>)"
proof -
  obtain s where kf: "kf = (lock_entry j k)\<lparr>km := s, procs := (procs (lock_entry j k))[j := cleared (procs (lock_entry j k) ! j)]\<rparr>"
    using freeproc_table[OF assms(5)] by blast
  have "\<not> plocked (procs k ! j)" using assms(2,4) by simp
  then have "(cleared ((procs k ! j)\<lparr>plocked := True\<rparr>))\<lparr>plocked := False\<rparr> = cleared (procs k ! j)"
    by (simp add: cleared_def)
  moreover have "plocked (cleared ((procs k ! j)\<lparr>plocked := True\<rparr>))" by (simp add: cleared_def)
  ultimately show ?thesis
    using assms kf by (intro exI[of _ s]) (simp add: reap_def kern_defs lock_entry_def Let_def)
qed

end
