(* ===== verification/Proc_Space.thy ===== *)
theory Proc_Space
  imports Pagetable Proc_Life
begin

unbundle bit_operations_syntax

text \<open>The address space of a new process: with enough free memory \<open>proc_pagetable\<close> of \<^verbatim>\<open>proc.c\<close> succeeds.\<close>

lemma special_pages:
  "page_aligned TRAMPOLINE" "TRAMPOLINE < MAXVA" "page_aligned TRAPFRAME" "TRAPFRAME < MAXVA" "\<not> same_page TRAMPOLINE TRAPFRAME"
proof -
  show p: "page_aligned TRAMPOLINE" "TRAMPOLINE < MAXVA" "page_aligned TRAPFRAME" "TRAPFRAME < MAXVA"
    by (simp_all add: TRAMPOLINE_def TRAPFRAME_def MAXVA_num PGSIZE_def PGROUNDDOWN_def)
  have "TRAMPOLINE \<noteq> TRAPFRAME" by (simp add: TRAMPOLINE_def TRAPFRAME_def MAXVA_num PGSIZE_def)
  then show "\<not> same_page TRAMPOLINE TRAPFRAME" using same_page_iff[OF p(2,4)] p(1,3) by simp
qed

text \<open>A page for the root, and at most two for each of the two mappings.\<close>

lemma proc_pagetable_ok:
  assumes inv: "kmem_inv s ps" and room: "6 \<le> length ps"
  shows "\<exists>pt s'. proc_pagetable tr tf s = Inr (pt, s') \<and> pt \<noteq> 0"
proof -
  obtain p ps1 where ps: "ps = p # ps1" using room by (cases ps) auto
  have inv1: "kmem_inv s (p # ps1)" using inv ps by simp
  obtain s0 where k: "kalloc s = Inr (p, s0)" using kalloc_Cons[OF inv1] by blast
  define s1 where "s1 = s0\<lparr>mem := memset (mem s0) p 0 4096\<rparr>"
  note new = pt_state_new[OF inv1 k s1_def]
  have p0: "p \<noteq> 0" using inv1 by (auto simp: kmem_inv_def)
  then have c: "uvmcreate s = Inr (p, s1)" using k by (simp add: uvmcreate_def s1_def)
  obtain r1 s2 ps2 where m1: "mappages p TRAMPOLINE PGSIZE tr (PTE_R OR PTE_X) s1 = Inr (r1, s2)" "pt_grow p s1 ps1 s2 ps2" "length ps1 \<le> length ps2 + 2"
    "r1 = 0 \<and> (\<forall>v. leaf (mem s2) p v = (if same_page TRAMPOLINE v then PA2PTE tr OR (PTE_R OR PTE_X) OR PTE_V else leaf (mem s1) p v)) \<or> r1 = -1 \<and> ps2 = []"
    using mappages_page[OF new(1) special_pages(1,2), of tr "PTE_R OR PTE_X"] new(2) by auto
  have r1: "r1 = 0" "leaf (mem s2) p TRAPFRAME = 0" using m1(3,4) room ps new(2) special_pages(5) by auto
  have st2: "pt_state p s2 ps2" using m1(2) by (simp add: pt_grow_def)
  have un: "leaf (mem s2) p TRAPFRAME AND PTE_V = 0" using r1(2) by simp
  obtain r2 s3 ps3 where m2: "mappages p TRAPFRAME PGSIZE tf (PTE_R OR PTE_W) s2 = Inr (r2, s3)" "pt_grow p s2 ps2 s3 ps3" "length ps2 \<le> length ps3 + 2" "r2 = 0 \<or> r2 = -1 \<and> ps3 = []"
    using mappages_page[OF st2 special_pages(3,4) un, of tf "PTE_R OR PTE_W"] by blast
  have "r2 = 0" using m2(3,4) m1(3) room ps by auto
  then show ?thesis using c m1(1) m2(1) r1(1) p0 by (auto simp: proc_pagetable_def)
qed

end
