(* ===== verification/Proc_Props.thy ===== *)
theory Proc_Props
  imports Proc_Space Sched_Props
begin

text \<open>
  The properties of the process life cycle: unique process identifiers, waking and sleeping,
  killing, and waiting for children.
\<close>

section \<open>The invariant of the process table\<close>

text \<open>
  Every identifier in use belongs to one entry and was given out; exactly the unused entries have
  identifier 0.
\<close>

definition table_inv :: "kern \<Rightarrow> bool" where
  "table_inv k \<longleftrightarrow> length (procs k) = NPROC \<and> 0 < nextpid k
     \<and> (\<forall>i < NPROC. (state (procs k ! i) = UNUSED \<longleftrightarrow> pid (procs k ! i) = 0)
          \<and> 0 \<le> pid (procs k ! i) \<and> pid (procs k ! i) < nextpid k)
     \<and> (\<forall>i < NPROC. \<forall>j < NPROC. pid (procs k ! i) = pid (procs k ! j) \<and> pid (procs k ! i) \<noteq> 0 \<longrightarrow> i = j)"

lemma table_invD:
  assumes "table_inv k"
  shows "length (procs k) = NPROC" "0 < nextpid k"
    "i < NPROC \<Longrightarrow> state (procs k ! i) = UNUSED \<longleftrightarrow> pid (procs k ! i) = 0"
    "i < NPROC \<Longrightarrow> 0 \<le> pid (procs k ! i)" "i < NPROC \<Longrightarrow> pid (procs k ! i) < nextpid k"
    "i < NPROC \<Longrightarrow> j < NPROC \<Longrightarrow> pid (procs k ! i) = pid (procs k ! j) \<Longrightarrow> pid (procs k ! i) \<noteq> 0 \<Longrightarrow> i = j"
  using assms by (auto simp: table_inv_def)

text \<open>Changing entries without touching identifiers, and between states in use.\<close>

lemma table_inv_same:
  assumes "table_inv k" "length (procs k') = NPROC" "nextpid k' = nextpid k"
    "\<And>i. i < NPROC \<Longrightarrow> pid (procs k' ! i) = pid (procs k ! i)
       \<and> (state (procs k' ! i) = UNUSED \<longleftrightarrow> state (procs k ! i) = UNUSED)"
  shows "table_inv k'"
  using assms unfolding table_inv_def by (intro conjI allI impI) auto

lemma table_inv_update:
  assumes inv: "table_inv k" and np: "nextpid k \<le> nextpid k'" and i: "i < NPROC"
    and k': "procs k' = (procs k)[i := p]"
    and p: "state p = UNUSED \<longleftrightarrow> pid p = 0" "0 \<le> pid p" "pid p < nextpid k'"
      "pid p \<noteq> 0 \<Longrightarrow> \<forall>j < NPROC. j \<noteq> i \<longrightarrow> pid (procs k ! j) \<noteq> pid p"
  shows "table_inv k'"
proof -
  note D = table_invD[OF inv]
  have at: "procs k' ! j = (if j = i then p else procs k ! j)" if "j < NPROC" for j
    using i k' D(1) that by simp
  have len: "length (procs k') = NPROC" "0 < nextpid k'" using k' D(1,2) np by simp_all
  have one: "(state (procs k' ! j) = UNUSED \<longleftrightarrow> pid (procs k' ! j) = 0) \<and> 0 \<le> pid (procs k' ! j)
      \<and> pid (procs k' ! j) < nextpid k'" if "j < NPROC" for j
    using at[OF that] D(3-5)[OF that] p(1-3) np by auto
  have "j = l" if "j < NPROC" "l < NPROC" "pid (procs k' ! j) = pid (procs k' ! l)" "pid (procs k' ! j) \<noteq> 0" for j l
    using at[OF that(1)] at[OF that(2)] that p(4) D(6)[OF that(1,2)] by (auto split: if_splits)
  with len one show ?thesis unfolding table_inv_def by blast
qed

lemma cleared_fields [simp]: "state (cleared p) = UNUSED" "pid (cleared p) = 0" "plocked (cleared p) = plocked p"
  by (simp_all add: cleared_def)

lemma fresh_fields [simp]: "state (fresh pd fr now tf pt p) = USED" "pid (fresh pd fr now tf pt p) = pd"
  "plocked (fresh pd fr now tf pt p)" "killed (fresh pd fr now tf pt p) = killed p"
  by (simp_all add: fresh_def)

lemma table_inv_clear:
  assumes "table_inv k" "nextpid k \<le> nextpid k'" "i < NPROC" "procs k' = (procs k)[i := cleared (procs k ! i)]"
  shows "table_inv k'"
  by (rule table_inv_update[OF assms]) (use assms(1,2) in \<open>auto simp: table_inv_def\<close>)

lemma table_inv_fresh:
  assumes inv: "table_inv k" and np: "nextpid k' = nextpid k + 1" and "i < NPROC"
    "procs k' = (procs k)[i := fresh (nextpid k) fr now tf pt (procs k ! i)]"
  shows "table_inv k'"
proof (rule table_inv_update[OF inv _ assms(3,4)])
  note D = table_invD[OF inv]
  show "nextpid k \<le> nextpid k'" using np by simp
  show "\<forall>j < NPROC. j \<noteq> i \<longrightarrow> pid (procs k ! j) \<noteq> pid (fresh (nextpid k) fr now tf pt (procs k ! i))"
    using D(5) by fastforce
qed (use table_invD(2)[OF inv] np in auto)

text \<open>
  C7. Process identifiers are unique. Whatever \<open>allocproc\<close> does with memory, it keeps the table
  invariant. When it returns an entry, that entry was unused, is now \<open>USED\<close> with an identifier no
  entry had before, its lock and no other is held, and all other entries are unchanged; when it
  returns none, no process lock is held and no entry in use has changed.
\<close>

theorem allocproc_unique_pid:
  assumes inv: "table_inv k" and u: "unlocked (procs k)" and nl: "PidLock \<notin> klocks k"
    and ov: "nextpid k < INT_MAX" and a: "allocproc tr fr k = Inr (r, k')"
  shows "table_inv k' \<and> klocks k' = klocks k \<and> (case r of
     None \<Rightarrow> unlocked (procs k') \<and> (\<forall>j < NPROC. state (procs k ! j) \<noteq> UNUSED \<longrightarrow> procs k' ! j = procs k ! j)
   | Some i \<Rightarrow> i < NPROC \<and> state (procs k ! i) = UNUSED \<and> state (procs k' ! i) = USED
       \<and> pid (procs k' ! i) = nextpid k \<and> (\<forall>j < NPROC. pid (procs k ! j) \<noteq> nextpid k)
       \<and> (\<forall>j < NPROC. plocked (procs k' ! j) \<longleftrightarrow> j = i) \<and> (\<forall>j < NPROC. j \<noteq> i \<longrightarrow> procs k' ! j = procs k ! j))"
proof -
  note D = table_invD[OF inv]
  have np: "i32 (nextpid k + 1) = nextpid k + 1"
    using D(2) ov by (intro i32_in_range) (simp add: in_int_def INT_MIN_def)
  note T = allocproc_table[OF a u D(1) nl]
  show ?thesis
  proof (cases "find (\<lambda>i. state (procs k ! i) = UNUSED) [0..<NPROC]")
    case None
    then show ?thesis using T inv u by simp
  next
    case (Some i)
    then have i: "i < NPROC" "state (procs k ! i) = UNUSED" by (auto simp: find_Some_iff)
    from T Some show ?thesis
    proof (simp, elim disjE exE conjE)
      fix s assume k': "r = None" "k' = k\<lparr>nextpid := i32 (nextpid k + 1), km := s, procs := (procs k)[i := cleared (procs k ! i)]\<rparr>"
      have "table_inv k'" by (rule table_inv_clear[OF inv _ i(1)]) (simp_all add: k' np)
      moreover have "unlocked (procs k')"
        using unlocked_update[OF u] unlocked_nth[OF u] i(1) D(1) by (simp add: k' cleared_def)
      ultimately show ?thesis using k' i D(1) by (auto simp: nth_list_update)
    next
      fix s tf pt assume k': "r = Some i" "k' = k\<lparr>nextpid := i32 (nextpid k + 1), km := s,
           procs := (procs k)[i := fresh (nextpid k) fr (ticks k) tf pt (procs k ! i)]\<rparr>"
      have "table_inv k'" by (rule table_inv_fresh[OF inv _ i(1)]) (simp_all add: k' np)
      moreover have "pid (procs k ! j) \<noteq> nextpid k" if "j < NPROC" for j using D(5)[OF that] by simp
      ultimately show ?thesis
        using k' i D(1) unlocked_nth[OF u] by (auto simp: nth_list_update fresh_def)
    qed
  qed
qed

text \<open>A kernel with the process table of \<open>Sched_Props\<close>, process 0 running, and no free page.\<close>

definition sample_kern :: kern where
  "sample_kern = \<lparr>procs = sample_table[0 := (sample_table ! 0)\<lparr>state := RUNNING\<rparr>], cur = Some 0,
     initproc = Some 0, nextpid = 3, ticks = 0, klocks = {},
     km = \<lparr>mem = (\<lambda>_. 0), freelist = 0, temp = (\<lambda>_. 1)\<rparr>\<rparr>"

lemma sample_procs_nth:
  "i < NPROC \<Longrightarrow> procs sample_kern ! i =
     (if i = 0 then (sample_table ! 0)\<lparr>state := RUNNING\<rparr> else if i = 1 then sample_table ! Suc 0 else proc_zero)"
  by (auto simp: sample_kern_def sample_table_def nth_list_update nth_append nth_Cons NPROC_def split: nat.splits)

lemma sample_table_pids:
  "pid (sample_table ! 0) = 1" "pid (sample_table ! Suc 0) = 2" "state (sample_table ! Suc 0) = RUNNABLE"
  "plocked (sample_table ! 0) = False" "plocked (sample_table ! Suc 0) = False"
  "parent (sample_table ! 0) = None" "parent (sample_table ! Suc 0) = None" "killed (sample_table ! 0) = 0"
  by (simp_all add: sample_table_def proc_zero_def)

lemma proc_zero_fields [simp]: "pid proc_zero = 0" "state proc_zero = UNUSED" "plocked proc_zero = False"
  "parent proc_zero = None"
  by (simp_all add: proc_zero_def)

lemma sample_kern_len: "length (procs sample_kern) = NPROC"
  by (simp add: sample_kern_def sample_table_len)

lemma sample_kern_inv: "table_inv sample_kern"
proof -
  have "nextpid sample_kern = 3" by (simp add: sample_kern_def)
  then show ?thesis
    unfolding table_inv_def using sample_kern_len
    by (auto simp: sample_procs_nth sample_table_pids split: if_splits)
qed

lemma sample_kern_unlocked: "unlocked (procs sample_kern)"
  unfolding unlocked_def all_set_conv_all_nth sample_kern_len
  by (auto simp: sample_procs_nth sample_table_pids)

lemma sample_find: "find (\<lambda>i. state (procs sample_kern ! i) = UNUSED) [0..<NPROC] = Some 2"
  "find (\<lambda>i. pid (procs sample_kern ! i) = 0) [0..<NPROC] = Some 2"
  unfolding find_Some_iff
  by (auto intro!: exI[of _ 2] simp: NPROC_def sample_procs_nth[unfolded NPROC_def] sample_table_pids less_2_cases_iff)

lemma sample_allocproc: "\<exists>k'. allocproc tr fr sample_kern = Inr (None, k')"
proof -
  have "procs sample_kern ! 2 = proc_zero" using sample_procs_nth[of 2] by (simp add: NPROC_def)
  then show ?thesis
    using allocproc_find_eq[OF sample_kern_unlocked, of "[0..<NPROC]"] sample_find(1) sample_kern_len
    by (auto simp: allocproc_def allocpid_def kern_defs freeproc_def kalloc_def NPROC_def sample_kern_def
        proc_zero_def sample_table_len[unfolded NPROC_def])
qed

theorem allocproc_unique_pid_witness:
  "\<exists>r k'. allocproc 0x80007000 0x80001234 sample_kern = Inr (r, k') \<and> table_inv k'"
proof -
  obtain k' where k': "allocproc 0x80007000 0x80001234 sample_kern = Inr (None, k')"
    using sample_allocproc by blast
  have "PidLock \<notin> klocks sample_kern" "nextpid sample_kern < INT_MAX"
    by (simp_all add: sample_kern_def INT_MAX_def)
  then show ?thesis
    using allocproc_unique_pid[OF sample_kern_inv sample_kern_unlocked _ _ k'] k' by auto
qed

section \<open>Waking, sleeping, killing\<close>

text \<open>
  \<open>wakeup c\<close>, called without any other process's lock, never panics and leaves every lock as it
  was; afterwards no process but the caller sleeps on \<open>c\<close>: exactly the sleepers on \<open>c\<close> have become
  runnable and nothing else has changed. The table invariant is kept.
\<close>

theorem wakeup_wakes_all:
  assumes "others_unlocked k" "length (procs k) = NPROC"
  shows "\<exists>k'. wakeup c k = Inr k' \<and> k' = k\<lparr>procs := procs k'\<rparr> \<and> length (procs k') = NPROC
    \<and> (\<forall>i < NPROC. procs k' ! i =
         (if cur k \<noteq> Some i \<and> state (procs k ! i) = SLEEPING \<and> chan (procs k ! i) = c
          then (procs k ! i)\<lparr>state := RUNNABLE\<rparr> else procs k ! i))
    \<and> (\<forall>i < NPROC. cur k \<noteq> Some i \<longrightarrow> \<not> (state (procs k' ! i) = SLEEPING \<and> chan (procs k' ! i) = c))
    \<and> (table_inv k \<longrightarrow> table_inv k')"
proof -
  define k' where "k' = k\<lparr>procs := wake_at c k {..<NPROC}\<rparr>"
  have len: "length (procs k') = NPROC" using assms(2) by (simp add: k'_def wake_at_def)
  have at: "procs k' ! i = (if cur k \<noteq> Some i \<and> state (procs k ! i) = SLEEPING \<and> chan (procs k ! i) = c
          then (procs k ! i)\<lparr>state := RUNNABLE\<rparr> else procs k ! i)" if "i < NPROC" for i
    using assms(2) that by (auto simp: k'_def wake_at_def wake_proc_def)
  have "table_inv k'" if "table_inv k"
    by (rule table_inv_same[OF that len]) (auto simp: at k'_def[THEN arg_cong[of _ _ nextpid]])
  then show ?thesis
    using wakeup_eq[OF assms, of c] at len by (intro exI[of _ k']) (simp add: k'_def[symmetric], simp add: k'_def)
qed

theorem wakeup_wakes_all_witness:
  "\<exists>k'. wakeup OnTicks sample_kern = Inr k' \<and> table_inv k'"
proof -
  have "others_unlocked sample_kern"
    using sample_kern_unlocked by (simp add: others_unlocked_def)
  then show ?thesis
    using wakeup_wakes_all[OF _ sample_kern_len, of OnTicks] sample_kern_inv by blast
qed

text \<open>
  Going to sleep. With exactly the condition lock held, \<open>sleep\<close> reaches the context switch
  without panicking: the process is \<open>SLEEPING\<close> on the channel, the condition lock has been
  released, and of the process locks exactly its own is held, so that no wakeup can get at it in
  between. With any further lock held it panics instead.
\<close>

theorem sleep_reaches_switch:
  assumes "cur k = Some i" "i < length (procs k)" "unlocked (procs k)" "lk \<in> klocks k" "finite (klocks k)"
  shows "if klocks k = {lk}
    then \<exists>k'. sleep_enter c lk k = Inr k' \<and> klocks k' = {} \<and> length (procs k') = length (procs k)
       \<and> state (procs k' ! i) = SLEEPING \<and> chan (procs k' ! i) = c
       \<and> (\<forall>j < length (procs k). plocked (procs k' ! j) \<longleftrightarrow> j = i)
       \<and> (\<forall>j < length (procs k). j \<noteq> i \<longrightarrow> procs k' ! j = procs k ! j)
    else sleep_enter c lk k = Inl (Panic ''sched locks'')"
proof (cases "klocks k = {lk}")
  case True
  then show ?thesis
    using sleep_enter_eq[OF assms(1-3) True, of c] assms(2) unlocked_nth[OF assms(3)]
    by (auto simp: nth_list_update)
next
  case False
  then show ?thesis using sleep_enter_panics[OF assms False] by simp
qed

theorem sleep_reaches_switch_witness:
  "\<exists>k'. sleep_enter OnTicks TicksLock (sample_kern\<lparr>klocks := {TicksLock}\<rparr>) = Inr k'
     \<and> state (procs k' ! 0) = SLEEPING"
  using sleep_reaches_switch[of "sample_kern\<lparr>klocks := {TicksLock}\<rparr>" 0 TicksLock OnTicks]
    sample_kern_unlocked sample_kern_len
  by (auto simp: NPROC_def sample_kern_def[THEN arg_cong[of _ _ cur]])

text \<open>
  \<open>kill\<close>, with no process lock held, never panics: it returns -1 and changes nothing when no
  entry has the identifier; otherwise it returns 0, and the first entry with it has its \<open>killed\<close>
  flag set, is runnable if it was sleeping, and is otherwise unchanged, as are all other entries.
\<close>

theorem kill_marks_first:
  assumes "unlocked (procs k)" "length (procs k) = NPROC"
  shows "\<exists>r k'. kill pd k = Inr (r, k') \<and> unlocked (procs k')
    \<and> (if \<exists>i < NPROC. pid (procs k ! i) = pd
       then r = 0 \<and> (\<exists>i < NPROC. pid (procs k ! i) = pd \<and> (\<forall>j < i. pid (procs k ! j) \<noteq> pd)
          \<and> k' = k\<lparr>procs := (procs k)[i := (procs k ! i)\<lparr>killed := 1,
               state := (if state (procs k ! i) = SLEEPING then RUNNABLE else state (procs k ! i))\<rparr>]\<rparr>)
       else r = -1 \<and> k' = k)"
proof (cases "find (\<lambda>i. pid (procs k ! i) = pd) [0..<NPROC]")
  case None
  then have "\<not> (\<exists>i < NPROC. pid (procs k ! i) = pd)" by (auto simp: find_None_iff)
  then show ?thesis using kill_eq[OF assms, of pd] assms(1) None by simp
next
  case (Some i)
  then have i: "i < NPROC" "pid (procs k ! i) = pd" "\<forall>j < i. pid (procs k ! j) \<noteq> pd"
    by (auto simp: find_Some_iff)
  then have "\<exists>i < NPROC. pid (procs k ! i) = pd" by blast
  moreover have "\<not> plocked (procs k ! i)" using assms i(1) by simp
  ultimately show ?thesis
    using kill_eq[OF assms, of pd] Some i unlocked_update[OF assms(1)] by (auto intro!: exI[of _ i])
qed

theorem kill_marks_first_witness:
  "\<exists>r k'. kill 99 sample_kern = Inr (r, k') \<and> r = -1 \<and> k' = sample_kern"
proof -
  have "\<not> (\<exists>i < NPROC. pid (procs sample_kern ! i) = 99)"
    by (auto simp: sample_procs_nth sample_table_pids)
  then show ?thesis
    using kill_marks_first[OF sample_kern_unlocked sample_kern_len, of 99] by auto
qed

text \<open>With seven free pages \<open>allocproc\<close> does not fail: one for the trapframe and at most six for the page table.\<close>

lemma allocproc_succeeds:
  assumes u: "unlocked (procs k)" "length (procs k) = NPROC" "PidLock \<notin> klocks k"
    and i: "find (\<lambda>i. state (procs k ! i) = UNUSED) [0..<NPROC] = Some i"
    and m: "kmem_inv (km k) ps" "7 \<le> length ps"
  shows "\<exists>k'. allocproc tr fr k = Inr (Some i, k')"
proof -
  obtain p ps1 where ps: "ps = p # ps1" using m(2) by (cases ps) auto
  have m1: "kmem_inv (km k) (p # ps1)" using m(1) ps by simp
  obtain s where s: "kalloc (km k) = Inr (p, s)" using kalloc_Cons[OF m1] by blast
  have p: "p \<noteq> 0" "kmem_inv s ps1" using m1 kalloc_inv[OF m1 s] by (auto simp: kmem_inv_def)
  obtain pt s' where pt: "proc_pagetable tr p s = Inr (pt, s')" "pt \<noteq> 0" using proc_pagetable_ok[OF p(2), of tr p] m(2) ps by auto
  have "i < NPROC" using i by (auto simp: find_Some_iff)
  then show ?thesis
    using i u allocproc_find_eq[OF u(1), of "[0..<NPROC]"] s p(1) pt by (auto simp: allocproc_def allocpid_def kern_defs)
qed

text \<open>
  C8. A defect: identifier 0 is not rejected. In a table that satisfies the invariant and has an
  unused entry, \<open>kill 0\<close> succeeds and marks the first unused entry; \<open>allocproc\<close> takes that entry and
  does not clear the flag, so the next process created is already killed. When seven pages are free the next
  \<open>allocproc\<close> does return a process.
\<close>

theorem kill_zero_poisons_next:
  assumes inv: "table_inv k" and u: "unlocked (procs k)" and nl: "PidLock \<notin> klocks k"
    and free: "\<exists>i < NPROC. state (procs k ! i) = UNUSED"
  shows "\<exists>k1. kill 0 k = Inr (0, k1)
    \<and> (\<forall>tr fr j k2. allocproc tr fr k1 = Inr (Some j, k2) \<longrightarrow> killed (procs k2 ! j) = 1)
    \<and> (\<forall>ps. kmem_inv (km k) ps \<and> 7 \<le> length ps \<longrightarrow>
         (\<forall>tr fr. \<exists>j k2. allocproc tr fr k1 = Inr (Some j, k2) \<and> killed (procs k2 ! j) = 1))"
proof -
  note D = table_invD[OF inv]
  have "\<exists>i. find (\<lambda>i. pid (procs k ! i) = 0) [0..<NPROC] = Some i"
    using free D(3) by (cases "find (\<lambda>i. pid (procs k ! i) = 0) [0..<NPROC]") (auto simp: find_None_iff)
  then obtain i where i: "find (\<lambda>i. pid (procs k ! i) = 0) [0..<NPROC] = Some i" by blast
  then have i': "i < NPROC" "state (procs k ! i) = UNUSED" "\<forall>j < i. state (procs k ! j) \<noteq> UNUSED"
    using D(3) by (auto simp: find_Some_iff)
  define k1 where "k1 = k\<lparr>procs := (procs k)[i := (procs k ! i)\<lparr>killed := 1, state := UNUSED\<rparr>]\<rparr>"
  have kill: "kill 0 k = Inr (0, k1)"
    using kill_eq[OF u D(1), of 0] i i'(2) by (simp add: k1_def)
  have "procs k1 ! l = (if l = i then (procs k ! i)\<lparr>killed := 1, state := UNUSED\<rparr> else procs k ! l)" if "l < NPROC" for l
    using that i'(1) D(1) by (simp add: k1_def)
  then have f: "find (\<lambda>i. state (procs k1 ! i) = UNUSED) [0..<NPROC] = Some i"
    using i' by (auto simp: find_Some_iff intro!: exI[of _ i])
  have k1: "unlocked (procs k1)" "length (procs k1) = NPROC" "PidLock \<notin> klocks k1" "km k1 = km k"
    using u D(1) nl i'(1) by (simp_all add: k1_def unlocked_update)
  have born: "killed (procs k2 ! j) = 1" if a: "allocproc tr fr k1 = Inr (Some j, k2)" for tr fr j k2
    using allocproc_table[OF a] f k1 i'(1) D(1) by (auto simp: k1_def)
  moreover have "\<exists>j k2. allocproc tr fr k1 = Inr (Some j, k2) \<and> killed (procs k2 ! j) = 1"
    if "kmem_inv (km k) ps" "7 \<le> length ps" for ps tr fr
    using allocproc_succeeds[OF k1(1-3) f] that k1(4) born by metis
  ultimately show ?thesis using kill by blast
qed

text \<open>The instance: a memory as \<open>kinit\<close> leaves it, whose free list has more than seven pages.\<close>

lemma booted_pages:
  "\<exists>s ps. kinit 0x80022000 \<lparr>mem = (\<lambda>_. 0), freelist = 0, temp = (\<lambda>_. 0)\<rparr> = Inr s \<and> kmem_inv s ps \<and> 7 \<le> length ps"
proof -
  let ?F = "{0x80022000, 0x80023000, 0x80024000, 0x80025000, 0x80026000, 0x80027000, 0x80028000 :: uint64}"
  obtain s ps where s: "kinit 0x80022000 \<lparr>mem = (\<lambda>_. 0), freelist = 0, temp = (\<lambda>_. 0)\<rparr> = Inr s" "kmem_inv s ps"
      "set ps = pages_between (PGROUNDUP 0x80022000) PHYSTOP"
    using kinit_correct[of "\<lparr>mem = (\<lambda>_. 0), freelist = 0, temp = (\<lambda>_. 0)\<rparr>" "0x80022000"]
    by (auto simp: PHYSTOP_num PGROUNDUP_def PGSIZE_def)
  have "?F \<subseteq> set ps" unfolding s(3) by (simp add: pages_between_def PGROUNDDOWN_def PGROUNDUP_def PGSIZE_def PHYSTOP_num)
  then have "card ?F \<le> card (set ps)" by (intro card_mono) auto
  moreover have "card (set ps) \<le> length ps" by (rule card_length)
  ultimately show ?thesis using s(1,2) by (intro exI[of _ s] exI[of _ ps]) simp
qed

theorem kill_zero_poisons_next_witness:
  "\<exists>s k1 j k2. kinit 0x80022000 \<lparr>mem = (\<lambda>_. 0), freelist = 0, temp = (\<lambda>_. 0)\<rparr> = Inr s
    \<and> kill 0 (sample_kern\<lparr>km := s\<rparr>) = Inr (0, k1) \<and> allocproc 0x80007000 0x80001234 k1 = Inr (Some j, k2) \<and> killed (procs k2 ! j) = 1"
proof -
  obtain s ps where s: "kinit 0x80022000 \<lparr>mem = (\<lambda>_. 0), freelist = 0, temp = (\<lambda>_. 0)\<rparr> = Inr s" "kmem_inv s ps" "7 \<le> length ps"
    using booted_pages by blast
  let ?k = "sample_kern\<lparr>km := s\<rparr>"
  have "state (procs sample_kern ! 2) = UNUSED" "2 < NPROC"
    by (simp_all add: sample_procs_nth[unfolded NPROC_def] NPROC_def)
  then have free: "\<exists>i < NPROC. state (procs ?k ! i) = UNUSED" by auto
  have "table_inv ?k" by (rule table_inv_same[OF sample_kern_inv]) (simp_all add: sample_kern_len)
  moreover have "PidLock \<notin> klocks ?k" by (simp add: sample_kern_def)
  ultimately have k: "table_inv ?k" "unlocked (procs ?k)" "PidLock \<notin> klocks ?k" "km ?k = s"
    using sample_kern_unlocked by simp_all
  obtain k1 where k1: "kill 0 ?k = Inr (0, k1)" "\<And>ps tr fr. kmem_inv (km ?k) ps \<Longrightarrow> 7 \<le> length ps \<Longrightarrow>
      \<exists>j k2. allocproc tr fr k1 = Inr (Some j, k2) \<and> killed (procs k2 ! j) = 1"
    using kill_zero_poisons_next[OF k(1-3) free] by blast
  have m: "kmem_inv (km ?k) ps" using s(2) k(4) by simp
  from k1(2)[OF m s(3), of "0x80007000" "0x80001234"] show ?thesis using s(1) k1(1) by blast
qed

section \<open>Waiting for children\<close>

lemma is_killed_eq:
  assumes "unlocked (procs k)" "i < length (procs k)"
  shows "is_killed i k = Inr (killed (procs k ! i), k)"
  using assms unlocked_nth[OF assms] by (simp add: is_killed_def kern_defs plocked_idle)

text \<open>
  Reaping. When a child of the caller has exited, \<open>wait\<close> and \<open>waitx\<close> (with no status address)
  return the pid of the first such entry, release the entry and give both locks back; \<open>waitx\<close> also
  returns the child's run time and a waiting time such that, in 32-bit arithmetic, creation time
  plus waiting time plus run time is the exit time.
\<close>

theorem wait_reaps_child:
  assumes me: "cur k = Some i" "i < NPROC" and u: "unlocked (procs k)" "length (procs k) = NPROC" "klocks k = {}"
    and z: "j < NPROC" "zombie_of k i j" "\<forall>l < j. \<not> zombie_of k i l"
    and f: "freeproc j (lock_entry j (k\<lparr>klocks := {WaitLock}\<rparr>)) = Inr kf"
  shows "\<exists>s wt rt. waitx xa 0 k = Inr (Returns (pid (procs k ! j), Some (wt, rt)),
        k\<lparr>km := s, procs := (procs k)[j := cleared (procs k ! j)]\<rparr>)
    \<and> wait xa 0 k = Inr (Returns (pid (procs k ! j)), k\<lparr>km := s, procs := (procs k)[j := cleared (procs k ! j)]\<rparr>)
    \<and> rt = rtime (procs k ! j) \<and> ctime (procs k ! j) + wt + rt = etime (procs k ! j)"
proof -
  let ?k = "k\<lparr>klocks := {WaitLock}\<rparr>"
  have same: "zombie_of ?k = zombie_of k" by (simp add: zombie_of_def child_of_def fun_eq_iff)
  have "find (zombie_of ?k i) [0..<NPROC] = Some j"
    using z by (auto simp: same find_Some_iff intro!: exI[of _ j])
  then have scan: "wait_scan xa i 0 [0..<NPROC] False ?k = reap xa i 0 j ?k"
    using wait_scan_eq[of ?k "[0..<NPROC]"] u by simp
  obtain s where r: "reap xa i 0 j ?k = Inr (Inl (pid (procs k ! j),
      etime (procs k ! j) - ctime (procs k ! j) - rtime (procs k ! j), rtime (procs k ! j)),
      ?k\<lparr>km := s, klocks := {}, procs := (procs k)[j := cleared (procs k ! j)]\<rparr>)"
    using reap_no_status[of i ?k j kf xa] f u z(1) me(2) by auto
  have kk: "k\<lparr>km := s, klocks := {}, procs := p\<rparr> = k\<lparr>km := s, procs := p\<rparr>" for p using u(3) by (cases k) simp
  show ?thesis
    using me u(3) scan r kk
    by (intro exI[of _ s] exI[of _ "etime (procs k ! j) - ctime (procs k ! j) - rtime (procs k ! j)"]
        exI[of _ "rtime (procs k ! j)"]) (simp add: waitx_def wait_def myproc_def acquire_k_def)
qed

definition sample_parent :: kern where
  "sample_parent = sample_kern\<lparr>procs := (procs sample_kern)[1 := (procs sample_kern ! 1)
     \<lparr>state := ZOMBIE, parent := Some 0, ctime := 10, rtime := 4, etime := 30\<rparr>]\<rparr>"

lemma sample_parent_nth:
  "i < NPROC \<Longrightarrow> procs sample_parent ! i = (if i = 1 then (procs sample_kern ! 1)
     \<lparr>state := ZOMBIE, parent := Some 0, ctime := 10, rtime := 4, etime := 30\<rparr> else procs sample_kern ! i)"
  using sample_kern_len by (simp add: sample_parent_def)

lemma sample_parent_zombie: "zombie_of sample_parent 0 j \<longleftrightarrow> j = 1" if "j < NPROC"
  using that sample_procs_nth[of j] sample_procs_nth[of 1] sample_table_pids
  by (auto simp: zombie_of_def child_of_def sample_parent_nth NPROC_def)

lemma sample_parent_table:
  "length (procs sample_parent) = NPROC" "unlocked (procs sample_parent)"
proof -
  show len: "length (procs sample_parent) = NPROC" by (simp add: sample_parent_def sample_kern_len)
  have "\<not> plocked (procs sample_parent ! i)" if "i < NPROC" for i
    using that sample_procs_nth[of i] sample_procs_nth[of 1] sample_table_pids
    by (auto simp: sample_parent_nth NPROC_def)
  then show "unlocked (procs sample_parent)"
    unfolding unlocked_def all_set_conv_all_nth len by blast
qed

lemma sample_parent_free: "\<exists>kf. freeproc 1 (lock_entry 1 (sample_parent\<lparr>klocks := {WaitLock}\<rparr>)) = Inr kf"
proof -
  have "trapframe (procs sample_parent ! 1) = 0" "pagetable (procs sample_parent ! 1) = 0" "1 < NPROC"
    using sample_procs_nth[of 1] sample_parent_nth[of 1]
    by (simp_all add: NPROC_def sample_table_def proc_zero_def)
  then show ?thesis
    using sample_parent_table(1) by (simp add: freeproc_def kern_defs lock_entry_def)
qed

theorem wait_reaps_child_witness:
  "\<exists>k' wt. waitx (\<lambda>_. 0) 0 sample_parent = Inr (Returns (2, Some (wt, 4)), k') \<and> 10 + wt + 4 = (30 :: uint)"
proof -
  obtain kf where f: "freeproc 1 (lock_entry 1 (sample_parent\<lparr>klocks := {WaitLock}\<rparr>)) = Inr kf"
    using sample_parent_free by blast
  have c: "cur sample_parent = Some 0" "klocks sample_parent = {}" "0 < NPROC" "1 < NPROC"
    by (simp_all add: sample_parent_def sample_kern_def NPROC_def)
  have one: "procs sample_parent ! 1 = (procs sample_kern ! 1)\<lparr>state := ZOMBIE, parent := Some 0, ctime := 10, rtime := 4, etime := 30\<rparr>"
    "pid (procs sample_kern ! 1) = 2"
    using sample_parent_nth[OF c(4)] sample_procs_nth[OF c(4)] sample_table_pids by simp_all
  have "zombie_of sample_parent 0 1" "\<forall>l < 1. \<not> zombie_of sample_parent 0 l"
    using sample_parent_zombie c(3,4) by auto
  then show ?thesis
    using wait_reaps_child[OF c(1,3) sample_parent_table(2,1) c(2,4) _ _ f] one by fastforce
qed

text \<open>
  Waiting with nothing to reap. \<open>wait\<close> and \<open>waitx\<close> return -1 and leave the kernel exactly as it
  was when the caller has no child, or has been killed; otherwise they go to sleep on the caller's
  own channel, the one \<open>exit\<close> of a child wakes, with \<open>wait_lock\<close> released.
\<close>

theorem wait_without_zombie:
  assumes me: "cur k = Some i" "i < NPROC" and u: "unlocked (procs k)" "length (procs k) = NPROC" "klocks k = {}"
    and nz: "\<forall>j < NPROC. \<not> zombie_of k i j"
  shows "if (\<exists>j < NPROC. child_of k i j) \<and> killed (procs k ! i) = 0
    then \<exists>k'. wait xa addr k = Inr (Sleeps, k') \<and> waitx xa addr k = Inr (Sleeps, k') \<and> klocks k' = {}
       \<and> state (procs k' ! i) = SLEEPING \<and> chan (procs k' ! i) = OnProc i
       \<and> (\<forall>j < NPROC. j \<noteq> i \<longrightarrow> procs k' ! j = procs k ! j)
    else wait xa addr k = Inr (Returns (-1), k) \<and> waitx xa addr k = Inr (Returns (-1, None), k)"
proof -
  let ?k = "k\<lparr>klocks := {WaitLock}\<rparr>"
  have same: "zombie_of ?k = zombie_of k" "child_of ?k = child_of k"
    by (simp_all add: zombie_of_def child_of_def fun_eq_iff)
  have "find (zombie_of ?k i) [0..<NPROC] = None" using nz by (simp add: same find_None_iff)
  then have scan: "wait_scan xa i addr [0..<NPROC] False ?k = Inr (Inr (\<exists>j < NPROC. child_of k i j), ?k)"
    using wait_scan_eq[of ?k "[0..<NPROC]"] u by (auto simp: same)
  have kl: "is_killed i ?k = Inr (killed (procs k ! i), ?k)" using is_killed_eq[of ?k i] u me by simp
  have get: "getp i ?k = Inr (procs k ! i)" using u(2) me(2) by (simp add: kern_defs)
  have rel: "release_k WaitLock ?k = Inr k" using u(3) by (simp add: release_k_def)
  have acq: "acquire_k WaitLock k = Inr ?k" "myproc k = Inr i" using u(3) me by (simp_all add: acquire_k_def myproc_def)
  note sl = sleep_enter_eq[of ?k i WaitLock "OnProc i"]
  show ?thesis
    using scan kl get rel acq sl me u by (auto simp: wait_def waitx_def nth_list_update)
qed

theorem wait_without_zombie_witness:
  "wait (\<lambda>_. 0) 0 sample_kern = Inr (Returns (-1), sample_kern)"
proof -
  have c: "cur sample_kern = Some 0" "klocks sample_kern = {}" "0 < NPROC"
    by (simp_all add: sample_kern_def NPROC_def)
  have "\<not> child_of sample_kern 0 j" if "j < NPROC" for j
    using that by (auto simp: child_of_def sample_procs_nth sample_table_pids)
  then show ?thesis
    using wait_without_zombie[OF c(1,3) sample_kern_unlocked sample_kern_len c(2), of "\<lambda>_. 0" 0]
    by (auto simp: zombie_of_def)
qed

end
