(* ===== verification/Userbuf.thy ===== *)
theory Userbuf
  imports Proc_Life Usercopy
begin

unbundle bit_operations_syntax

text \<open>
  Moving bytes one at a time between a user buffer and a kernel object, as \<^verbatim>\<open>kernel/pipe.c\<close> and
  \<^verbatim>\<open>kernel/console.c\<close> do while they hold the lock of the object: what such a transfer relies on, and that
  each byte moved leaves the rest of the situation alone. \<open>ca\<close> is the address of the local variable through
  which the byte passes.
\<close>

section \<open>A buffer to read from\<close>

text \<open>
  The situation inside a transfer: the caller holds the lock \<open>l\<close> only, and its buffer of \<open>n\<close> bytes
  is mapped to pages that hold neither the page table nor the local variable \<open>ch\<close>.
\<close>

definition user_bytes :: "nat \<Rightarrow> uint64 \<Rightarrow> kern \<Rightarrow> int \<Rightarrow> byte" where
  "user_bytes pr addr k j = mem (km k) (uaddr (mem (km k)) (pagetable (procs k ! pr)) (addr + of_int j))"

definition user_src :: "lockid \<Rightarrow> nat \<Rightarrow> uint64 \<Rightarrow> uint64 \<Rightarrow> int \<Rightarrow> kern \<Rightarrow> bool" where
  "user_src l pr ca addr n k \<longleftrightarrow>
     cur k = Some pr \<and> pr < NPROC \<and> length (procs k) = NPROC \<and> unlocked (procs k) \<and> klocks k = {l}
     \<and> (let m = mem (km k); pt = pagetable (procs k ! pr) in
        pt_wf m pt \<and> PGROUNDDOWN ca \<notin> pt_pages m pt
        \<and> (\<forall>j. 0 \<le> j \<and> j < n \<longrightarrow> addr + of_int j < MAXVA \<and> valid_page (upage m pt (addr + of_int j))
             \<and> upage m pt (addr + of_int j) \<noteq> PGROUNDDOWN ca))"

lemma user_srcD:
  assumes "user_src l pr ca addr n k"
  shows "cur k = Some pr" "pr < NPROC" "length (procs k) = NPROC" "unlocked (procs k)" "klocks k = {l}"
    "pt_wf (mem (km k)) (pagetable (procs k ! pr))" "PGROUNDDOWN ca \<notin> pt_pages (mem (km k)) (pagetable (procs k ! pr))"
    "0 \<le> j \<Longrightarrow> j < n \<Longrightarrow> addr + of_int j < MAXVA"
    "0 \<le> j \<Longrightarrow> j < n \<Longrightarrow> valid_page (upage (mem (km k)) (pagetable (procs k ! pr)) (addr + of_int j))"
    "0 \<le> j \<Longrightarrow> j < n \<Longrightarrow> upage (mem (km k)) (pagetable (procs k ! pr)) (addr + of_int j) \<noteq> PGROUNDDOWN ca"
  using assms by (auto simp: user_src_def Let_def)

text \<open>Writing the local variable changes neither the translation nor the user's bytes.\<close>

lemma user_src_local:
  assumes u: "user_src l pr ca addr n k" and k': "k' = k\<lparr>km := (km k)\<lparr>mem := (mem (km k))(ca := x)\<rparr>\<rparr>"
  shows "user_src l pr ca addr n k'" "0 \<le> j \<Longrightarrow> j < n \<Longrightarrow> user_bytes pr addr k' j = user_bytes pr addr k j"
proof -
  note D = user_srcD[OF u]
  let ?m = "mem (km k)" and ?pt = "pagetable (procs k ! pr)"
  define m' where "m' = ?m(ca := x)"
  have frame: "m' y = ?m y" if "PGROUNDDOWN y \<in> pt_pages ?m ?pt" for y
    using that D(7) by (auto simp: m'_def)
  note F = upage_frame[OF D(6) frame] and W = pt_frame[OF D(6) frame]
  show "user_src l pr ca addr n k'"
    using u F(1) W by (simp add: user_src_def k' Let_def m'_def[symmetric])
  show "user_bytes pr addr k' j = user_bytes pr addr k j" if "0 \<le> j" "j < n"
  proof -
    have "PGROUNDDOWN (uaddr ?m ?pt (addr + of_int j)) = upage ?m ?pt (addr + of_int j)"
      using D(9)[OF that] by (intro PGROUNDDOWN_uaddr) simp
    then have "uaddr ?m ?pt (addr + of_int j) \<noteq> ca" using D(10)[OF that] by auto
    then show ?thesis using F(2) by (simp add: user_bytes_def k' m'_def[symmetric]) (simp add: m'_def)
  qed
qed

lemma user_src_wakeup:
  assumes "user_src l pr ca addr n k"
  obtains k' where "wakeup c k = Inr k'" "cur k' = Some pr" "length (procs k') = NPROC" "unlocked (procs k')"
    "klocks k' = {l}" "km k' = km k"
proof -
  note D = user_srcD[OF assms]
  have "others_unlocked k" using D(4) by (simp add: others_unlocked_def)
  then have w: "wakeup c k = Inr (k\<lparr>procs := wake_at c k {..<NPROC}\<rparr>)" using wakeup_eq D(3) by simp
  have "unlocked (wake_at c k {..<NPROC})"
    using D(4) wake_proc_plocked(1) by (auto simp: unlocked_def wake_at_def)
  moreover have "length (wake_at c k {..<NPROC}) = NPROC" using D(3) by (simp add: wake_at_def)
  ultimately show ?thesis using that[OF w] D(1,5) by simp
qed

lemma is_killed_eq':
  assumes "unlocked (procs k)" "i < length (procs k)"
  shows "is_killed i k = Inr (killed (procs k ! i), k)"
  using assms unlocked_nth[OF assms] by (simp add: is_killed_def kern_defs plocked_idle)

section \<open>A buffer to write to\<close>

text \<open>The reader's buffer can moreover be written in place, each byte at an address of its own.\<close>

definition user_dst :: "lockid \<Rightarrow> nat \<Rightarrow> uint64 \<Rightarrow> uint64 \<Rightarrow> int \<Rightarrow> kern \<Rightarrow> bool" where
  "user_dst l pr ca addr n k \<longleftrightarrow> user_src l pr ca addr n k
     \<and> (let m = mem (km k); pt = pagetable (procs k ! pr) in
        \<forall>j. 0 \<le> j \<and> j < n \<longrightarrow> leaf m pt (addr + of_int j) AND PTE_COW = 0
          \<and> upage m pt (addr + of_int j) \<notin> pt_pages m pt
          \<and> (\<forall>i. 0 \<le> i \<and> i < j \<longrightarrow> uaddr m pt (addr + of_int i) \<noteq> uaddr m pt (addr + of_int j)))"

lemma user_dstD:
  assumes "user_dst l pr ca addr n k"
  shows "user_src l pr ca addr n k"
    "0 \<le> j \<Longrightarrow> j < n \<Longrightarrow> leaf (mem (km k)) (pagetable (procs k ! pr)) (addr + of_int j) AND PTE_COW = 0"
    "0 \<le> j \<Longrightarrow> j < n \<Longrightarrow> upage (mem (km k)) (pagetable (procs k ! pr)) (addr + of_int j)
       \<notin> pt_pages (mem (km k)) (pagetable (procs k ! pr))"
    "0 \<le> i \<Longrightarrow> i < j \<Longrightarrow> j < n \<Longrightarrow> uaddr (mem (km k)) (pagetable (procs k ! pr)) (addr + of_int i)
       \<noteq> uaddr (mem (km k)) (pagetable (procs k ! pr)) (addr + of_int j)"
  using assms by (auto simp: user_dst_def Let_def)

text \<open>A change of memory outside the page table keeps all of this.\<close>

lemma user_dst_frame:
  assumes u: "user_dst l pr ca addr n k" and k': "k' = k\<lparr>km := (km k)\<lparr>mem := m'\<rparr>\<rparr>"
    and frame: "\<And>y. PGROUNDDOWN y \<in> pt_pages (mem (km k)) (pagetable (procs k ! pr)) \<Longrightarrow> m' y = mem (km k) y"
  shows "user_dst l pr ca addr n k'"
    "uaddr (mem (km k')) (pagetable (procs k' ! pr)) = uaddr (mem (km k)) (pagetable (procs k ! pr))"
proof -
  note wf = user_srcD(6)[OF user_dstD(1)[OF u]]
  note F = upage_frame[OF wf frame] and W = pt_frame[OF wf frame] and L = leaf_frame[OF wf frame]
  show "user_dst l pr ca addr n k'"
    using u by (simp add: user_dst_def user_src_def k' Let_def F W L)
  show "uaddr (mem (km k')) (pagetable (procs k' ! pr)) = uaddr (mem (km k)) (pagetable (procs k ! pr))"
    using F(2) by (simp add: k' fun_eq_iff)
qed

text \<open>One byte delivered: it is stored in the local variable and copied out to byte \<open>i\<close> of the buffer.\<close>

lemma user_dst_store:
  assumes u: "user_dst l pr ca addr n k" and i: "0 \<le> i" "i < n"
    and A: "A = uaddr (mem (km k)) (pagetable (procs k ! pr)) (addr + of_int i)"
    and k0: "k0 = k\<lparr>km := (km k)\<lparr>mem := (mem (km k))(ca := ch)\<rparr>\<rparr>"
    and k1: "k1 = k\<lparr>km := (km k)\<lparr>mem := (mem (km k))(ca := ch, A := ch)\<rparr>\<rparr>"
  shows "copyout (pagetable (procs k0 ! pr)) (addr + of_int i) ca 1 (km k0) = Inr (0, km k1)"
    "user_dst l pr ca addr n k1"
    "uaddr (mem (km k1)) (pagetable (procs k1 ! pr)) = uaddr (mem (km k)) (pagetable (procs k ! pr))"
    "A \<noteq> ca"
proof -
  let ?m = "mem (km k)" and ?pt = "pagetable (procs k ! pr)"
  note U = user_srcD[OF user_dstD(1)[OF u]] and R = user_dstD[OF u]
  have frame: "(?m(ca := ch)) y = ?m y" if "PGROUNDDOWN y \<in> pt_pages ?m ?pt" for y
    using that U(7) by auto
  have L: "user_dst l pr ca addr n k0" "uaddr (mem (km k0)) (pagetable (procs k0 ! pr)) = uaddr ?m ?pt"
    using user_dst_frame[OF u k0 frame] by blast+
  note U0 = user_srcD[OF user_dstD(1)[OF L(1)]] and R0 = user_dstD[OF L(1)]
  have A0: "uaddr (mem (km k0)) (pagetable (procs k0 ! pr)) (addr + of_int i) = A" using L(2) A by simp
  have "mem (km k0) ca = ch" by (simp add: k0)
  then show "copyout (pagetable (procs k0 ! pr)) (addr + of_int i) ca 1 (km k0) = Inr (0, km k1)"
    using copyout_byte[OF U0(6) U0(8,9)[OF i] R0(2,3)[OF i], of ca] A0 by (simp add: k1 k0)
  have p: "PGROUNDDOWN A = upage ?m ?pt (addr + of_int i)"
    unfolding A using U(9)[OF i] by (intro PGROUNDDOWN_uaddr) simp
  then show "A \<noteq> ca" using U(10)[OF i] by auto
  have f1: "(?m(ca := ch, A := ch)) y = ?m y" if "PGROUNDDOWN y \<in> pt_pages ?m ?pt" for y
    using p that U(7) R(3)[OF i] by auto
  show "user_dst l pr ca addr n k1"
    "uaddr (mem (km k1)) (pagetable (procs k1 ! pr)) = uaddr (mem (km k)) (pagetable (procs k ! pr))"
    using user_dst_frame[OF u k1 f1] by blast+
qed

end
