(* ===== verification/Ring.thy ===== *)
theory Ring
  imports Prelude
begin

text \<open>
  The interface of a bounded first-in first-out buffer, and the technique the kernel implements it
  with three times (pipes, console input, UART output): an array of \<open>N\<close> cells and two free-running
  machine-word counters, reduced modulo \<open>N\<close> when the array is indexed.
\<close>

section \<open>Interface\<close>

datatype 'a bufop = Put 'a | Get

text \<open>
  A schedule of puts and gets against a buffer: a put on a full buffer and a get on an empty one
  are refused (the kernel sleeps there and tries again). The result is what was accepted, what was
  delivered, and the buffer.
\<close>

fun run_buffer ::
  "('s \<Rightarrow> bool) \<Rightarrow> ('s \<Rightarrow> bool) \<Rightarrow> ('a \<Rightarrow> 's \<Rightarrow> 's) \<Rightarrow> ('s \<Rightarrow> 'a \<times> 's) \<Rightarrow> 'a bufop list \<Rightarrow> 's
    \<Rightarrow> 'a list \<times> 'a list \<times> 's" where
  "run_buffer full drained put get [] s = ([], [], s)"
| "run_buffer full drained put get (Put x # ops) s =
     (if full s then run_buffer full drained put get ops s
      else let (ins, outs, s) = run_buffer full drained put get ops (put x s) in (x # ins, outs, s))"
| "run_buffer full drained put get (Get # ops) s =
     (if drained s then run_buffer full drained put get ops s
      else let (x, s) = get s;
               (ins, outs, s) = run_buffer full drained put get ops s in (ins, x # outs, s))"

locale ring_buffer =
  fixes cap :: nat
    and ok :: "'s \<Rightarrow> bool"
    and contents :: "'s \<Rightarrow> 'a list"
    and full :: "'s \<Rightarrow> bool"
    and drained :: "'s \<Rightarrow> bool"
    and put :: "'a \<Rightarrow> 's \<Rightarrow> 's"
    and get :: "'s \<Rightarrow> 'a \<times> 's"
  assumes bounded: "ok s \<Longrightarrow> length (contents s) \<le> cap"
    and full_iff: "ok s \<Longrightarrow> full s \<longleftrightarrow> length (contents s) = cap"
    and empty_iff: "ok s \<Longrightarrow> drained s \<longleftrightarrow> contents s = []"
    and put_ok: "ok s \<Longrightarrow> \<not> full s \<Longrightarrow> ok (put x s) \<and> contents (put x s) = contents s @ [x]"
    and get_ok: "ok s \<Longrightarrow> \<not> drained s \<Longrightarrow> get s = (x, s') \<Longrightarrow> ok s' \<and> contents s = x # contents s'"
begin

text \<open>Nothing is lost, duplicated, reordered or invented, whatever the schedule.\<close>

lemma fifo:
  assumes "run_buffer full drained put get ops s = (ins, outs, s')" "ok s"
  shows "ok s' \<and> contents s @ ins = outs @ contents s' \<and> length (contents s') \<le> cap"
  using assms
proof (induction ops arbitrary: s ins outs)
  case Nil
  then show ?case using bounded by auto
next
  case (Cons op ops)
  show ?case
  proof (cases op)
    case (Put x)
    show ?thesis
    proof (cases "full s")
      case False
      then obtain ins' where "run_buffer full drained put get ops (put x s) = (ins', outs, s')" "ins = x # ins'"
        using Cons.prems Put by (auto split: prod.splits)
      then show ?thesis using Cons.IH put_ok[OF Cons.prems(2) False] by fastforce
    qed (use Cons Put in auto)
  next
    case Get
    show ?thesis
    proof (cases "drained s")
      case False
      obtain x s1 where g: "get s = (x, s1)" by fastforce
      then obtain outs' where "run_buffer full drained put get ops s1 = (ins, outs', s')" "outs = x # outs'"
        using Cons.prems Get False by (auto split: prod.splits)
      then show ?thesis using Cons.IH get_ok[OF Cons.prems(2) False g] by fastforce
    qed (use Cons Get in auto)
  qed
qed

text \<open>A burst that fits is accepted whole and comes out whole.\<close>

lemma burst:
  assumes "ok s" "length (contents s) + length xs \<le> cap"
  shows "\<exists>s'. run_buffer full drained put get (map Put xs) s = (xs, [], s') \<and> ok s' \<and> contents s' = contents s @ xs"
  using assms
proof (induction xs arbitrary: s)
  case (Cons x xs)
  then have "\<not> full s" using full_iff by simp
  then show ?case using Cons.IH[of "put x s"] Cons.prems put_ok[OF Cons.prems(1)] by fastforce
qed simp

end

section \<open>Counters modulo the size of the array\<close>

text \<open>The cells between two counters, oldest first.\<close>

definition ring_contents :: "nat \<Rightarrow> 'a list \<Rightarrow> 'n :: len word \<Rightarrow> 'n word \<Rightarrow> 'a list" where
  "ring_contents N data r w = map (\<lambda>i. data ! (unat (r + of_nat i) mod N)) [0..<unat (w - r)]"

lemma unat_add_mod:
  fixes r :: "'n :: len word"
  assumes "N dvd 2 ^ LENGTH('n)"
  shows "unat (r + of_nat i) mod N = (unat r + i) mod N"
  using assms by (simp add: unat_word_ariths unat_of_nat mod_mod_cancel mod_add_right_eq)

lemma ring_cells_differ:
  fixes r w :: "'n :: len word"
  assumes "N dvd 2 ^ LENGTH('n)" "unat (w - r) < N" "i < unat (w - r)"
  shows "unat w mod N \<noteq> unat (r + of_nat i) mod N"
proof
  assume eq: "unat w mod N = unat (r + of_nat i) mod N"
  have "w = r + of_nat (unat (w - r))" by simp
  then have "unat w mod N = (unat r + unat (w - r)) mod N"
    using unat_add_mod[OF assms(1), of r "unat (w - r)"] by metis
  then have "(unat r + unat (w - r)) mod N = (unat r + i) mod N" using eq unat_add_mod[OF assms(1)] by metis
  then have "N dvd (unat r + unat (w - r)) - (unat r + i)"
    using assms(3) by (subst (asm) mod_eq_dvd_iff_nat) auto
  then show False using assms(2,3) nat_dvd_not_less[of "unat (w - r) - i" N] by simp
qed

lemma length_ring [simp]: "length (ring_contents N data r w) = unat (w - r)"
  by (simp add: ring_contents_def)

lemma ring_empty: "ring_contents N data r w = [] \<longleftrightarrow> r = w"
proof -
  have "unat (w - r) = 0 \<longleftrightarrow> w - r = 0" by (simp only: unat_eq_zero)
  then show ?thesis by (auto simp: ring_contents_def)
qed

lemma ring_same [simp]: "ring_contents N data r r = []"
  by (simp add: ring_empty)

lemma unat_succ_diff:
  fixes r w :: "'n :: len word"
  assumes "Suc (unat (w - r)) < 2 ^ LENGTH('n)"
  shows "unat (w + 1 - r) = Suc (unat (w - r))"
proof -
  have "unat (d + 1) = Suc (unat d)" if "Suc (unat d) < 2 ^ LENGTH('n)" for d :: "'n word"
    using that by (simp add: unat_word_ariths)
  from this[OF assms] show ?thesis by (simp only: diff_add_eq)
qed

lemma ring_put:
  fixes r w :: "'n :: len word"
  assumes "N dvd 2 ^ LENGTH('n)" "N < 2 ^ LENGTH('n)" "unat (w - r) < N" "length data = N"
  shows "ring_contents N (data[unat w mod N := x]) r (w + 1) = ring_contents N data r w @ [x]"
proof -
  have d: "unat (w + 1 - r) = Suc (unat (w - r))" using assms(2,3) by (intro unat_succ_diff) simp
  have "unat w mod N < N" using assms(3) by simp
  moreover have "r + of_nat (unat (w - r)) = w" by simp
  ultimately show ?thesis
    using ring_cells_differ[OF assms(1,3)] assms(4) by (auto simp: ring_contents_def d)
qed

lemma ring_get:
  fixes r w :: "'n :: len word"
  assumes "r \<noteq> w"
  shows "ring_contents N data r w = data ! (unat r mod N) # ring_contents N data (r + 1) w"
proof -
  have ne: "w - r \<noteq> 0" using assms by simp
  have "unat e = Suc (unat (e - 1))" if "e \<noteq> 0" for e :: "'n word"
    using that unat_minus_one[OF that] unat_eq_zero[of e] by simp
  from this[OF ne] have d: "unat (w - r) = Suc (unat (w - (r + 1)))" by (simp only: diff_diff_eq)
  show ?thesis
    unfolding ring_contents_def d
    by (subst upt_conv_Cons) (auto simp: map_Suc_upt[symmetric] algebra_simps simp del: upt_Suc)
qed

lemma ring_full_iff:
  fixes r w :: "'n :: len word"
  assumes "N < 2 ^ LENGTH('n)"
  shows "w = r + of_nat N \<longleftrightarrow> unat (w - r) = N"
proof -
  have "unat (of_nat N :: 'n word) = N" using assms by (simp add: unat_of_nat)
  then have "unat (w - r) = N \<longleftrightarrow> w - r = of_nat N" by (metis word_unat_eq_iff)
  then show ?thesis by (auto simp: algebra_simps)
qed

text \<open>The two operations on a ring of \<open>N\<close> cells, as the interpretations of the interface need them.\<close>

lemma ring_step_put:
  fixes r w :: "'n :: len word"
  assumes "N dvd 2 ^ LENGTH('n)" "N < 2 ^ LENGTH('n)" "length data = N" "unat (w - r) \<le> N" "unat (w - r) \<noteq> N"
  shows "unat (w + 1 - r) \<le> N \<and> ring_contents N (data[unat w mod N := x]) r (w + 1) = ring_contents N data r w @ [x]"
proof -
  have d: "unat (w - r) < N" using assms(4,5) by simp
  then have "unat (w + 1 - r) = Suc (unat (w - r))" using assms(2) by (intro unat_succ_diff) simp
  then show ?thesis using ring_put[OF assms(1,2) d assms(3)] d by simp
qed

lemma ring_step_get:
  fixes r w :: "'n :: len word"
  assumes "r \<noteq> w" "unat (w - r) \<le> N"
  shows "unat (w - (r + 1)) \<le> N \<and> ring_contents N data r w = data ! (unat r mod N) # ring_contents N data (r + 1) w"
proof -
  note g = ring_get[OF assms(1), of N data]
  then have "unat (w - r) = Suc (unat (w - (r + 1)))" by (metis length_Cons length_ring)
  then show ?thesis using g assms(2) by simp
qed

text \<open>A third counter between the other two splits the ring; the newest cell can be given up.\<close>

lemma ring_split:
  fixes r w e :: "'n :: len word"
  assumes "unat (w - r) + unat (e - w) = unat (e - r)"
  shows "ring_contents N data r e = ring_contents N data r w @ ring_contents N data w e"
proof (rule nth_equalityI)
  fix i
  assume i: "i < length (ring_contents N data r e)"
  show "ring_contents N data r e ! i = (ring_contents N data r w @ ring_contents N data w e) ! i"
  proof (cases "i < unat (w - r)")
    case False
    then have "w + of_nat (i - unat (w - r)) = r + of_nat i" by (simp add: of_nat_diff)
    then show ?thesis using False i assms by (simp add: ring_contents_def nth_append add.commute)
  qed (use i in \<open>simp add: ring_contents_def nth_append\<close>)
qed (use assms in simp)

lemma unat_pred_diff:
  fixes w e :: "'n :: len word"
  assumes "w \<noteq> e"
  shows "Suc (unat (e - 1 - w)) = unat (e - w)" "Suc (unat (e - (w + 1))) = unat (e - w)"
proof -
  have "Suc (unat (d - 1)) = unat d" if "d \<noteq> 0" for d :: "'n word"
    using that unat_minus_one[OF that] unat_eq_zero[of d] by simp
  from this[of "e - w"] assms show "Suc (unat (e - 1 - w)) = unat (e - w)" "Suc (unat (e - (w + 1))) = unat (e - w)"
    by (simp_all add: algebra_simps)
qed

lemma ring_unput:
  fixes w e :: "'n :: len word"
  assumes "w \<noteq> e"
  shows "ring_contents N data w (e - 1) = butlast (ring_contents N data w e)"
    "last (ring_contents N data w e) = data ! (unat (e - 1) mod N)"
proof -
  have s: "unat (e - w) = Suc (unat (e - 1 - w))" using unat_pred_diff(1)[OF assms] by simp
  have "w + of_nat (unat (e - 1 - w)) = e - 1" by simp
  then show "ring_contents N data w (e - 1) = butlast (ring_contents N data w e)"
    "last (ring_contents N data w e) = data ! (unat (e - 1) mod N)"
    by (simp_all add: ring_contents_def s)
qed

end
