(* ===== verification/Pipe.thy ===== *)
theory Pipe
  imports Userbuf Ring
begin

unbundle bit_operations_syntax

text \<open>
  \<^verbatim>\<open>kernel/pipe.c\<close>. A pipe is a ring of 512 bytes with two 32-bit counters; readers and writers
  copy bytes one at a time between it and user memory, and sleep on it when it is empty or full.

  Pipe \<open>q\<close> has the lock \<open>ObjLock q\<close> and the channels \<open>OnPipeRead q\<close> (the address of \<open>nread\<close>) and
  \<open>OnPipeWrite q\<close>; \<open>ca\<close> is the address of the local variable \<open>ch\<close> on the kernel stack. A call that
  goes to sleep returns the number of bytes already moved, from which its loop goes on.
\<close>

section \<open>State and operations\<close>

definition PIPESIZE :: nat where
  "PIPESIZE = 512"

record pipe =
  pdata :: "byte list"
  nread :: uint
  nwrite :: uint
  readopen :: int
  writeopen :: int

text \<open>The part of \<open>pipealloc\<close> that sets up the pipe; a page from \<open>kalloc\<close> holds the byte 5.\<close>

definition pipeinit :: pipe where
  "pipeinit = \<lparr>pdata = replicate PIPESIZE 5, nread = 0, nwrite = 0, readopen = 1, writeopen = 1\<rparr>"

text \<open>\<open>pipeclose\<close>: the second component says whether the page \<open>pa\<close> of the pipe was freed.\<close>

definition pipeclose :: "nat \<Rightarrow> uint64 \<Rightarrow> bool \<Rightarrow> pipe \<times> kern \<Rightarrow> (bool \<times> pipe \<times> kern) result" where
  "pipeclose q pa writable = (\<lambda>(pi, k).
     bnd (acquire_k (ObjLock q) k) (\<lambda>k.
     bnd (if writable then bnd (wakeup (OnPipeRead q) k) (\<lambda>k. Inr (pi\<lparr>writeopen := 0\<rparr>, k))
          else bnd (wakeup (OnPipeWrite q) k) (\<lambda>k. Inr (pi\<lparr>readopen := 0\<rparr>, k))) (\<lambda>(pi, k).
     bnd (release_k (ObjLock q) k) (\<lambda>k.
       if readopen pi = 0 \<and> writeopen pi = 0
       then bnd (on_km (kfree pa) k) (\<lambda>k. Inr (True, pi, k))
       else Inr (False, pi, k)))))"

definition pipe_full :: "pipe \<Rightarrow> bool" where
  "pipe_full pi \<longleftrightarrow> nwrite pi = nread pi + of_nat PIPESIZE"

definition pipe_empty :: "pipe \<Rightarrow> bool" where
  "pipe_empty pi \<longleftrightarrow> nread pi = nwrite pi"

definition pipe_put :: "byte \<Rightarrow> pipe \<Rightarrow> pipe" where
  "pipe_put ch pi = pi\<lparr>pdata := (pdata pi)[unat (nwrite pi) mod PIPESIZE := ch], nwrite := nwrite pi + 1\<rparr>"

definition pipe_get :: "pipe \<Rightarrow> byte \<times> pipe" where
  "pipe_get pi = (pdata pi ! (unat (nread pi) mod PIPESIZE), pi\<lparr>nread := nread pi + 1\<rparr>)"

text \<open>The end of \<open>pipewrite\<close>, reached when the loop is over or a byte cannot be read.\<close>

definition pipewrite_done :: "nat \<Rightarrow> int \<Rightarrow> pipe \<Rightarrow> kern \<Rightarrow> (int blocking \<times> int \<times> pipe \<times> kern) result" where
  "pipewrite_done q i pi k =
     bnd (wakeup (OnPipeRead q) k) (\<lambda>k.
     bnd (release_k (ObjLock q) k) (\<lambda>k. Inr (Returns i, i, pi, k)))"

function pipewrite_loop ::
  "nat \<Rightarrow> nat \<Rightarrow> uint64 \<Rightarrow> uint64 \<Rightarrow> int \<Rightarrow> int \<Rightarrow> pipe \<Rightarrow> kern \<Rightarrow> (int blocking \<times> int \<times> pipe \<times> kern) result"
where
  "pipewrite_loop q pr ca addr n i pi k =
     (if i < n then
        bnd (if readopen pi = 0 then Inr (1, k) else is_killed pr k) (\<lambda>(stop, k).
        if stop \<noteq> 0 then bnd (release_k (ObjLock q) k) (\<lambda>k. Inr (Returns (-1), i, pi, k))
        else if pipe_full pi then
          bnd (wakeup (OnPipeRead q) k) (\<lambda>k.
          bnd (sleep_enter (OnPipeWrite q) (ObjLock q) k) (\<lambda>k. Inr (Sleeps, i, pi, k)))
        else
          bnd (getp pr k) (\<lambda>p.
          bnd (copyin (pagetable p) ca (addr + of_int i) 1 (km k)) (\<lambda>(r, s).
            if r = -1 then pipewrite_done q i pi (k\<lparr>km := s\<rparr>)
            else pipewrite_loop q pr ca addr n (i + 1) (pipe_put (mem s ca) pi) (k\<lparr>km := s\<rparr>))))
      else pipewrite_done q i pi k)"
  by pat_completeness auto
termination
  by (relation "measure (\<lambda>(_, _, _, _, n, i, _). nat (n - i))") auto

declare pipewrite_loop.simps [simp del]

definition pipewrite ::
  "nat \<Rightarrow> uint64 \<Rightarrow> uint64 \<Rightarrow> int \<Rightarrow> pipe \<times> kern \<Rightarrow> (int blocking \<times> int \<times> pipe \<times> kern) result" where
  "pipewrite q ca addr n = (\<lambda>(pi, k).
     bnd (myproc k) (\<lambda>pr.
     bnd (acquire_k (ObjLock q) k) (\<lambda>k.
       pipewrite_loop q pr ca addr n 0 pi k)))"

definition piperead_done :: "nat \<Rightarrow> int \<Rightarrow> pipe \<Rightarrow> kern \<Rightarrow> (int blocking \<times> pipe \<times> kern) result" where
  "piperead_done q i pi k =
     bnd (wakeup (OnPipeWrite q) k) (\<lambda>k.
     bnd (release_k (ObjLock q) k) (\<lambda>k. Inr (Returns i, pi, k)))"

function piperead_loop ::
  "nat \<Rightarrow> nat \<Rightarrow> uint64 \<Rightarrow> uint64 \<Rightarrow> int \<Rightarrow> int \<Rightarrow> pipe \<Rightarrow> kern \<Rightarrow> (int blocking \<times> pipe \<times> kern) result"
where
  "piperead_loop q pr ca addr n i pi k =
     (if i < n then
        if pipe_empty pi then piperead_done q i pi k
        else
          let (ch, pi) = pipe_get pi;
              k = k\<lparr>km := (km k)\<lparr>mem := (mem (km k))(ca := ch)\<rparr>\<rparr> in
          bnd (getp pr k) (\<lambda>p.
          bnd (copyout (pagetable p) (addr + of_int i) ca 1 (km k)) (\<lambda>(r, s).
            if r = -1 then piperead_done q i pi (k\<lparr>km := s\<rparr>)
            else piperead_loop q pr ca addr n (i + 1) pi (k\<lparr>km := s\<rparr>)))
      else piperead_done q i pi k)"
  by pat_completeness auto
termination
  by (relation "measure (\<lambda>(_, _, _, _, n, i, _). nat (n - i))") auto

declare piperead_loop.simps [simp del]

text \<open>One pass of \<open>piperead\<close>: it waits (returning \<open>Sleeps\<close>) or delivers.\<close>

definition piperead ::
  "nat \<Rightarrow> uint64 \<Rightarrow> uint64 \<Rightarrow> int \<Rightarrow> pipe \<times> kern \<Rightarrow> (int blocking \<times> pipe \<times> kern) result" where
  "piperead q ca addr n = (\<lambda>(pi, k).
     bnd (myproc k) (\<lambda>pr.
     bnd (acquire_k (ObjLock q) k) (\<lambda>k.
       if pipe_empty pi \<and> writeopen pi \<noteq> 0 then
         bnd (is_killed pr k) (\<lambda>(kl, k).
           if kl \<noteq> 0 then bnd (release_k (ObjLock q) k) (\<lambda>k. Inr (Returns (-1), pi, k))
           else bnd (sleep_enter (OnPipeRead q) (ObjLock q) k) (\<lambda>k. Inr (Sleeps, pi, k)))
       else piperead_loop q pr ca addr n 0 pi k)))"

section \<open>The ring\<close>

definition pipe_ok :: "pipe \<Rightarrow> bool" where
  "pipe_ok pi \<longleftrightarrow> length (pdata pi) = PIPESIZE \<and> unat (nwrite pi - nread pi) \<le> PIPESIZE"

definition pipe_contents :: "pipe \<Rightarrow> byte list" where
  "pipe_contents pi = ring_contents PIPESIZE (pdata pi) (nread pi) (nwrite pi)"

lemma PIPESIZE_word: "PIPESIZE dvd 2 ^ LENGTH(32)" "PIPESIZE < 2 ^ LENGTH(32)"
  by (simp_all add: PIPESIZE_def)

interpretation pipe: ring_buffer PIPESIZE pipe_ok pipe_contents pipe_full pipe_empty pipe_put pipe_get
proof unfold_locales
  fix s s' :: pipe and x :: byte
  assume ok: "pipe_ok s"
  show "length (pipe_contents s) \<le> PIPESIZE" using ok by (simp add: pipe_ok_def pipe_contents_def)
  show full: "pipe_full s \<longleftrightarrow> length (pipe_contents s) = PIPESIZE"
    using ring_full_iff[OF PIPESIZE_word(2)] by (simp add: pipe_full_def pipe_contents_def)
  show "pipe_empty s \<longleftrightarrow> pipe_contents s = []" by (simp add: pipe_empty_def pipe_contents_def ring_empty)
  show "pipe_ok (pipe_put x s) \<and> pipe_contents (pipe_put x s) = pipe_contents s @ [x]" if "\<not> pipe_full s"
    using ring_step_put[OF PIPESIZE_word, of "pdata s" "nwrite s" "nread s" x] ok that full
    by (simp add: pipe_ok_def pipe_contents_def pipe_put_def)
  show "pipe_ok s' \<and> pipe_contents s = x # pipe_contents s'" if "\<not> pipe_empty s" "pipe_get s = (x, s')"
    using ring_step_get[of "nread s" "nwrite s" PIPESIZE "pdata s"] ok that
    by (auto simp: pipe_ok_def pipe_contents_def pipe_get_def pipe_empty_def)
qed

lemma pipeinit_ok: "pipe_ok pipeinit" "pipe_contents pipeinit = []"
  by (simp_all add: pipe_ok_def pipeinit_def pipe_contents_def ring_empty PIPESIZE_def)

section \<open>What a write does\<close>

lemma pipewrite_done_eq:
  assumes "user_src (ObjLock q) pr ca addr n k"
  shows "\<exists>k'. pipewrite_done q i pi k = Inr (Returns i, i, pi, k') \<and> klocks k' = {} \<and> unlocked (procs k')"
proof -
  obtain k' where "wakeup (OnPipeRead q) k = Inr k'" "klocks k' = {ObjLock q}" "unlocked (procs k')"
    using user_src_wakeup[OF assms] by metis
  then show ?thesis by (simp add: pipewrite_done_def release_k_def)
qed

lemma pipewrite_loop_correct:
  assumes "user_src (ObjLock q) pr ca addr n k" "killed (procs k ! pr) = 0" "pipe_ok pi" "readopen pi \<noteq> 0" "0 \<le> i" "i \<le> n"
  shows "\<exists>res i' pi' k'. pipewrite_loop q pr ca addr n i pi k = Inr (res, i', pi', k') \<and> i \<le> i' \<and> pipe_ok pi'
    \<and> pipe_contents pi' = pipe_contents pi @ map (user_bytes pr addr k) [i..i' - 1] \<and> klocks k' = {}
    \<and> (res = Returns n \<and> i' = n \<and> unlocked (procs k')
       \<or> res = Sleeps \<and> i' < n \<and> pipe_full pi' \<and> state (procs k' ! pr) = SLEEPING \<and> chan (procs k' ! pr) = OnPipeWrite q)"
  using assms
proof (induction "nat (n - i)" arbitrary: i pi k)
  case 0
  then have "pipewrite_loop q pr ca addr n i pi k = pipewrite_done q i pi k" "i = n"
    by (simp_all add: pipewrite_loop.simps)
  then show ?case using pipewrite_done_eq[OF 0(2), of i pi] 0(4) by fastforce
next
  case (Suc d)
  note D = user_srcD[OF Suc.prems(1)]
  have i: "i < n" using Suc.hyps(2) by simp
  have kl: "is_killed pr k = Inr (0, k)" using is_killed_eq'[OF D(4)] D(2,3) Suc.prems(2) by simp
  show ?case
  proof (cases "pipe_full pi")
    case True
    obtain k1 where k1: "wakeup (OnPipeRead q) k = Inr k1" "cur k1 = Some pr" "length (procs k1) = NPROC"
      "unlocked (procs k1)" "klocks k1 = {ObjLock q}"
      using user_src_wakeup[OF Suc.prems(1)] by metis
    have sl: "sleep_enter (OnPipeWrite q) (ObjLock q) k1 = Inr (k1\<lparr>klocks := {}, procs := (procs k1)[pr :=
        (procs k1 ! pr)\<lparr>plocked := True, chan := OnPipeWrite q, state := SLEEPING\<rparr>]\<rparr>)"
      by (rule sleep_enter_eq) (use k1 D(2) in auto)
    have "pipewrite_loop q pr ca addr n i pi k = Inr (Sleeps, i, pi, k1\<lparr>klocks := {}, procs := (procs k1)[pr :=
        (procs k1 ! pr)\<lparr>plocked := True, chan := OnPipeWrite q, state := SLEEPING\<rparr>]\<rparr>)"
      using i kl Suc.prems(4) True k1(1) sl by (subst pipewrite_loop.simps) simp
    then show ?thesis using i True Suc.prems(3) k1(3) D(2) by auto
  next
    case False
    define b where "b = user_bytes pr addr k i"
    define k1 where "k1 = k\<lparr>km := (km k)\<lparr>mem := (mem (km k))(ca := b)\<rparr>\<rparr>"
    have ci: "copyin (pagetable (procs k ! pr)) ca (addr + of_int i) 1 (km k) = Inr (0, km k1)"
      using copyin_byte[OF D(6) D(8,9)[OF Suc.prems(5) i]] by (simp add: k1_def b_def user_bytes_def)
    have step: "pipewrite_loop q pr ca addr n i pi k = pipewrite_loop q pr ca addr n (i + 1) (pipe_put b pi) k1"
      using i kl Suc.prems(4) False ci D(2,3) by (subst pipewrite_loop.simps) (simp add: kern_defs k1_def)
    note L = user_src_local[OF Suc.prems(1) k1_def]
    note P = pipe.put_ok[OF Suc.prems(3) False, of b]
    have "d = nat (n - (i + 1))" using Suc.hyps(2) by simp
    moreover have "killed (procs k1 ! pr) = 0" "readopen (pipe_put b pi) \<noteq> 0" "0 \<le> i + 1" "i + 1 \<le> n"
      using Suc.prems(2,4,5) i by (simp_all add: k1_def pipe_put_def)
    ultimately obtain res i' pi' k' where
      I: "pipewrite_loop q pr ca addr n (i + 1) (pipe_put b pi) k1 = Inr (res, i', pi', k')" "i + 1 \<le> i'" "pipe_ok pi'"
        "pipe_contents pi' = pipe_contents (pipe_put b pi) @ map (user_bytes pr addr k1) [i + 1..i' - 1]" "klocks k' = {}"
        "res = Returns n \<and> i' = n \<and> unlocked (procs k')
         \<or> res = Sleeps \<and> i' < n \<and> pipe_full pi' \<and> state (procs k' ! pr) = SLEEPING \<and> chan (procs k' ! pr) = OnPipeWrite q"
      using Suc.hyps(1)[of "i + 1" k1 "pipe_put b pi"] L(1) P by auto
    have "map (user_bytes pr addr k1) [i + 1..i' - 1] = map (user_bytes pr addr k) [i + 1..i' - 1]"
      using L(2) Suc.prems(5) I(6) by (intro map_cong) auto
    moreover have "[i..i' - 1] = i # [i + 1..i' - 1]" using I(2) by (subst upto.simps) simp
    ultimately have "pipe_contents pi' = pipe_contents pi @ map (user_bytes pr addr k) [i..i' - 1]"
      using I(4) P by (simp add: b_def)
    then show ?thesis using step I by auto
  qed
qed

section \<open>What a read does\<close>

lemma piperead_done_eq:
  assumes "user_src (ObjLock q) pr ca addr n k"
  shows "\<exists>k'. piperead_done q i pi k = Inr (Returns i, pi, k') \<and> klocks k' = {} \<and> unlocked (procs k') \<and> km k' = km k"
proof -
  obtain k' where "wakeup (OnPipeWrite q) k = Inr k'" "klocks k' = {ObjLock q}" "unlocked (procs k')" "km k' = km k"
    using user_src_wakeup[OF assms] by metis
  then show ?thesis by (simp add: piperead_done_def release_k_def)
qed

text \<open>The byte just delivered, and the two writes of one iteration.\<close>

lemma piperead_step:
  assumes u: "user_dst (ObjLock q) pr ca addr n k" and i: "0 \<le> i" "i < n" and ne: "\<not> pipe_empty pi"
    and g: "pipe_get pi = (ch, pi1)" and A: "A = uaddr (mem (km k)) (pagetable (procs k ! pr)) (addr + of_int i)"
    and k1: "k1 = k\<lparr>km := (km k)\<lparr>mem := (mem (km k))(ca := ch, A := ch)\<rparr>\<rparr>"
  shows "piperead_loop q pr ca addr n i pi k = piperead_loop q pr ca addr n (i + 1) pi1 k1"
    "user_dst (ObjLock q) pr ca addr n k1"
    "uaddr (mem (km k1)) (pagetable (procs k1 ! pr)) = uaddr (mem (km k)) (pagetable (procs k ! pr))"
proof -
  note U = user_srcD[OF user_dstD(1)[OF u]]
  note S = user_dst_store[OF u i A refl k1]
  show "piperead_loop q pr ca addr n i pi k = piperead_loop q pr ca addr n (i + 1) pi1 k1"
    using S(1) i ne g U(2,3) by (subst piperead_loop.simps) (simp add: kern_defs k1)
  show "user_dst (ObjLock q) pr ca addr n k1"
    "uaddr (mem (km k1)) (pagetable (procs k1 ! pr)) = uaddr (mem (km k)) (pagetable (procs k ! pr))"
    by (fact S(2), fact S(3))
qed

lemma piperead_loop_correct:
  assumes "user_dst (ObjLock q) pr ca addr n k" "pipe_ok pi" "0 \<le> i" "i \<le> n"
  shows "\<exists>i' pi' k'. piperead_loop q pr ca addr n i pi k = Inr (Returns i', pi', k') \<and> i \<le> i' \<and> i' \<le> n \<and> pipe_ok pi'
    \<and> pipe_contents pi = map (\<lambda>j. mem (km k') (uaddr (mem (km k)) (pagetable (procs k ! pr)) (addr + of_int j))) [i..i' - 1]
        @ pipe_contents pi'
    \<and> (i' = n \<or> pipe_contents pi' = []) \<and> klocks k' = {} \<and> unlocked (procs k')
    \<and> (\<forall>x. x \<noteq> ca \<longrightarrow> (\<forall>j. i \<le> j \<and> j < n \<longrightarrow> x \<noteq> uaddr (mem (km k)) (pagetable (procs k ! pr)) (addr + of_int j))
          \<longrightarrow> mem (km k') x = mem (km k) x)"
  using assms
proof (induction "nat (n - i)" arbitrary: i pi k)
  case 0
  then have "piperead_loop q pr ca addr n i pi k = piperead_done q i pi k" "i = n"
    by (simp_all add: piperead_loop.simps)
  then show ?case using piperead_done_eq[OF user_dstD(1)[OF 0(2)], of i pi] 0(3) by fastforce
next
  case (Suc d)
  note R = user_dstD[OF Suc.prems(1)] and U = user_srcD[OF user_dstD(1)[OF Suc.prems(1)]]
  let ?A = "\<lambda>j. uaddr (mem (km k)) (pagetable (procs k ! pr)) (addr + of_int j)"
  have i: "i < n" using Suc.hyps(2) by simp
  show ?case
  proof (cases "pipe_empty pi")
    case True
    then have "piperead_loop q pr ca addr n i pi k = piperead_done q i pi k"
      by (subst piperead_loop.simps) simp
    moreover have "pipe_contents pi = []" using True pipe.empty_iff[OF Suc.prems(2)] by simp
    ultimately show ?thesis using piperead_done_eq[OF R(1), of i pi] Suc.prems(2,4) by fastforce
  next
    case False
    obtain ch pi1 where g: "pipe_get pi = (ch, pi1)" by fastforce
    define k1 where "k1 = k\<lparr>km := (km k)\<lparr>mem := (mem (km k))(ca := ch, ?A i := ch)\<rparr>\<rparr>"
    note S = piperead_step[OF Suc.prems(1,3) i False g refl k1_def]
    note G = pipe.get_ok[OF Suc.prems(2) False g]
    have "d = nat (n - (i + 1))" "0 \<le> i + 1" "i + 1 \<le> n" using Suc.hyps(2) Suc.prems(3) i by auto
    then obtain i' pi' k' where
      I: "piperead_loop q pr ca addr n (i + 1) pi1 k1 = Inr (Returns i', pi', k')" "i + 1 \<le> i'" "i' \<le> n" "pipe_ok pi'"
        "pipe_contents pi1 = map (\<lambda>j. mem (km k') (?A j)) [i + 1..i' - 1] @ pipe_contents pi'"
        "i' = n \<or> pipe_contents pi' = []" "klocks k' = {}" "unlocked (procs k')"
        "\<And>x. x \<noteq> ca \<Longrightarrow> (\<forall>j. i + 1 \<le> j \<and> j < n \<longrightarrow> x \<noteq> ?A j) \<Longrightarrow> mem (km k') x = mem (km k1) x"
      using Suc.hyps(1)[of "i + 1" k1 pi1] S(2) G unfolding S(3) by blast
    have "PGROUNDDOWN (?A i) = upage (mem (km k)) (pagetable (procs k ! pr)) (addr + of_int i)"
      using U(9)[OF Suc.prems(3) i] by (intro PGROUNDDOWN_uaddr) simp
    then have "?A i \<noteq> ca" using U(10)[OF Suc.prems(3) i] by auto
    then have "mem (km k') (?A i) = ch"
      using I(9)[of "?A i"] R(4)[OF Suc.prems(3)] by (simp add: k1_def)
    moreover have "[i..i' - 1] = i # [i + 1..i' - 1]" using I(2) by (subst upto.simps) simp
    ultimately have "pipe_contents pi = map (\<lambda>j. mem (km k') (?A j)) [i..i' - 1] @ pipe_contents pi'"
      using G I(5) by simp
    moreover have "mem (km k') x = mem (km k) x" if "x \<noteq> ca" "\<forall>j. i \<le> j \<and> j < n \<longrightarrow> x \<noteq> ?A j" for x
    proof -
      have "x \<noteq> ?A i" using that(2) i by blast
      then show ?thesis using I(9)[OF that(1)] that by (auto simp: k1_def)
    qed
    ultimately show ?thesis using S(1) I(1-4,6-8) by (intro exI[of _ i'] exI[of _ pi'] exI[of _ k']) auto
  qed
qed

end
