(* ===== verification/Pipe_Props.thy ===== *)
theory Pipe_Props
  imports Pipe Memory_Props Proc_Props
begin

unbundle bit_operations_syntax

text \<open>The properties of pipes, with a concrete process whose one-page address space is that of \<open>Sample\<close>.\<close>

text \<open>
  C9. A pipe delivers what was written: for every schedule of byte writes and reads, starting
  empty, the bytes accepted are the bytes delivered followed by the bytes still in the ring, in
  order, and the ring never holds more than \<open>PIPESIZE\<close>; the 32-bit counters may wrap on the way.
\<close>

theorem pipe_is_fifo:
  assumes "run_buffer pipe_full pipe_empty pipe_put pipe_get ops (pipeinit\<lparr>nread := c, nwrite := c\<rparr>) = (ins, outs, pi)"
  shows "ins = outs @ pipe_contents pi \<and> length (pipe_contents pi) \<le> PIPESIZE"
proof -
  have "pipe_ok (pipeinit\<lparr>nread := c, nwrite := c\<rparr>)" "pipe_contents (pipeinit\<lparr>nread := c, nwrite := c\<rparr>) = []"
    by (simp_all add: pipe_ok_def pipe_contents_def ring_empty pipeinit_def)
  then show ?thesis using pipe.fifo[OF assms] by simp
qed

theorem pipe_is_fifo_witness:
  "\<exists>pi. run_buffer pipe_full pipe_empty pipe_put pipe_get [Put 7, Put 9, Get] (pipeinit\<lparr>nread := -1, nwrite := -1\<rparr>)
     = ([7, 9], [7], pi) \<and> pipe_contents pi = [9]"
proof -
  obtain pi where r: "run_buffer pipe_full pipe_empty pipe_put pipe_get [Put 7, Put 9, Get]
      (pipeinit\<lparr>nread := -1, nwrite := -1\<rparr>) = ([7, 9], [7], pi)"
    by (simp add: pipe_full_def pipe_empty_def pipe_put_def pipe_get_def pipeinit_def PIPESIZE_def
        unsigned_minus_1_eq_mask mask_eq_exp_minus_1)
  then show ?thesis using pipe_is_fifo[OF r] by simp
qed

text \<open>The caller's situation before \<open>pipewrite\<close> or \<open>piperead\<close> takes the pipe's lock.\<close>

definition locked_kern :: "nat \<Rightarrow> kern \<Rightarrow> kern" where
  "locked_kern q k = k\<lparr>klocks := {ObjLock q}\<rparr>"

text \<open>
  \<open>pipewrite\<close> by a process that is not killed, from a mapped user buffer of \<open>n\<close> bytes. With the
  read end closed and \<open>n > 0\<close> it returns -1. With it open it never fails: it appends to the pipe
  the first \<open>i\<close> bytes of the buffer, in order, and either \<open>i = n\<close> and it returns \<open>n\<close>, or \<open>i < n\<close>, the
  pipe is full and it sleeps until there is room. In every case the pipe's lock is given back.
\<close>

theorem pipewrite_appends:
  assumes u: "user_src (ObjLock q) pr ca addr n (locked_kern q k)" and k: "klocks k = {}" "killed (procs k ! pr) = 0"
    and ok: "pipe_ok pi" and n: "0 \<le> n"
  shows "\<exists>res i pi' k'. pipewrite q ca addr n (pi, k) = Inr (res, i, pi', k') \<and> klocks k' = {}
    \<and> (if readopen pi = 0 \<and> 0 < n then res = Returns (-1) \<and> pi' = pi
       else readopen pi \<noteq> 0 \<longrightarrow> pipe_ok pi' \<and> pipe_contents pi' = pipe_contents pi @ map (user_bytes pr addr k) [0..i - 1]
         \<and> (res = Returns n \<and> i = n
            \<or> res = Sleeps \<and> i < n \<and> pipe_full pi' \<and> state (procs k' ! pr) = SLEEPING
              \<and> chan (procs k' ! pr) = OnPipeWrite q))"
proof -
  note D = user_srcD[OF u]
  have run: "pipewrite q ca addr n (pi, k) = pipewrite_loop q pr ca addr n 0 pi (locked_kern q k)"
    using D(1) k(1) by (simp add: pipewrite_def myproc_def acquire_k_def locked_kern_def)
  have ub: "user_bytes pr addr (locked_kern q k) = user_bytes pr addr k"
    by (simp add: fun_eq_iff user_bytes_def locked_kern_def)
  show ?thesis
  proof (cases "readopen pi = 0")
    case True
    show ?thesis
    proof (cases "0 < n")
      case pos: True
      then have "pipewrite q ca addr n (pi, k) = Inr (Returns (-1), 0, pi, k)"
        using run True k(1)
        by (subst (asm) pipewrite_loop.simps) (simp add: locked_kern_def release_k_def)
      then show ?thesis using True pos k(1) by auto
    next
      case False
      then have "pipewrite q ca addr n (pi, k) = pipewrite_done q 0 pi (locked_kern q k)"
        using run by (subst (asm) pipewrite_loop.simps) simp
      then show ?thesis using pipewrite_done_eq[OF u, of 0 pi] True False by auto
    qed
  next
    case False
    then show ?thesis
      using pipewrite_loop_correct[OF u _ ok False, of 0] k(2) n run ub by (fastforce simp: locked_kern_def)
  qed
qed

definition sample_user :: kern where
  "sample_user = sample_kern\<lparr>km := sample 0x17, procs := (procs sample_kern)[0 := (procs sample_kern ! 0)\<lparr>pagetable := 0x80001000\<rparr>]\<rparr>"

lemma sample_user_table: "length (procs sample_user) = NPROC" "unlocked (procs sample_user)"
    "pagetable (procs sample_user ! 0) = 0x80001000" "killed (procs sample_user ! 0) = 0"
proof -
  have z: "0 < NPROC" by (simp add: NPROC_def)
  show "length (procs sample_user) = NPROC" by (simp add: sample_user_def sample_kern_len)
  have "\<not> plocked (procs sample_kern ! 0)" using sample_kern_unlocked sample_kern_len z by simp
  then show "unlocked (procs sample_user)"
    using sample_kern_unlocked by (simp add: sample_user_def unlocked_update)
  have "0 < length (procs sample_kern)" using z sample_kern_len by simp
  then have e: "procs sample_user ! 0 = (procs sample_kern ! 0)\<lparr>pagetable := 0x80001000\<rparr>"
    unfolding sample_user_def by (simp del: length_greater_0_conv)
  show "pagetable (procs sample_user ! 0) = 0x80001000" by (simp add: e)
  show "killed (procs sample_user ! 0) = 0" by (simp add: e sample_procs_nth[OF z] sample_table_pids)
qed

lemma sample_addr:
  assumes "0 \<le> j" "j < 8"
  shows "(of_int j :: uint64) < MAXVA" "upage (sample_mem 0x17) 0x80001000 (of_int j) = 0x80004000"
    "leaf (sample_mem 0x17) 0x80001000 (of_int j) AND PTE_COW = 0"
    "uaddr (sample_mem 0x17) 0x80001000 (of_int j) = 0x80004000 + of_int j"
proof -
  obtain n where n: "j = int n" "n < 8" using assms by (metis nat_0_le nat_less_iff of_nat_numeral zless_nat_conj nonneg_int_cases of_nat_less_iff)
  have "unat (of_nat n :: uint64) = n" using n(2) by (simp add: unat_of_nat)
  then show "(of_int j :: uint64) < MAXVA" using n(2) by (simp add: n(1) word_less_nat_alt MAXVA_num)
  show "upage (sample_mem 0x17) 0x80001000 (of_int j) = 0x80004000"
    "leaf (sample_mem 0x17) 0x80001000 (of_int j) AND PTE_COW = 0"
    "uaddr (sample_mem 0x17) 0x80001000 (of_int j) = 0x80004000 + of_int j"
    using sample_small[OF n(2)] by (simp_all add: n(1) uaddr_def)
qed

lemma sample_user_dst: "user_dst l 0 0x8000b000 0 8 (sample_user\<lparr>klocks := {l}\<rparr>)"
proof -
  have c: "cur sample_user = Some 0" "km sample_user = sample 0x17" "mem (sample 0x17) = sample_mem 0x17"
    by (simp_all add: sample_user_def sample_kern_def sample_def)
  have "PGROUNDDOWN 0x8000b000 = 0x8000b000" by (simp add: PGROUNDDOWN_def PGSIZE_def)
  then have src: "user_src l 0 0x8000b000 0 8 (sample_user\<lparr>klocks := {l}\<rparr>)"
    using sample_user_table sample_wf(1) sample_addr by (simp add: user_src_def c sample_pages Let_def NPROC_def)
  have inj: "0x80004000 + (of_int i :: uint64) \<noteq> 0x80004000 + of_int j" if "0 \<le> i" "i < j" "j < 8" for i j
  proof -
    have "uint (of_int i :: uint64) = i" "uint (of_int j :: uint64) = j" using that by (simp_all add: uint_word_of_int)
    then show ?thesis using that(2) by auto
  qed
  show ?thesis
    unfolding user_dst_def using src sample_addr sample_user_table(3) inj by (simp add: c Let_def sample_pages)
qed

lemmas sample_user_pipe = user_dstD(1)[OF sample_user_dst[of "ObjLock 0"], folded locked_kern_def]

theorem pipewrite_appends_witness:
  "\<exists>res i pi' k'. pipewrite 0 0x8000b000 0 8 (pipeinit, sample_user) = Inr (res, i, pi', k') \<and> pipe_ok pi'"
proof -
  have "klocks sample_user = {}" "readopen pipeinit \<noteq> 0"
    by (simp_all add: sample_user_def sample_kern_def pipeinit_def)
  then show ?thesis
    using pipewrite_appends[OF sample_user_pipe _ sample_user_table(4) pipeinit_ok(1)] by fastforce
qed

text \<open>
  \<open>piperead\<close> into a writable user buffer of \<open>n\<close> bytes, when there is something to read or no
  writer is left: it returns the number \<open>i\<close> of bytes moved, which is \<open>n\<close> unless the pipe has become
  empty; the user's buffer now holds the first \<open>i\<close> bytes of the pipe, which the pipe has lost; and the
  lock is given back. With the pipe empty and a writer left, it sleeps.
\<close>

theorem piperead_delivers:
  assumes r: "user_dst (ObjLock q) pr ca addr n (locked_kern q k)" and k: "klocks k = {}" "killed (procs k ! pr) = 0"
    and ok: "pipe_ok pi" and n: "0 \<le> n"
  shows "if pipe_contents pi = [] \<and> writeopen pi \<noteq> 0
    then \<exists>k'. piperead q ca addr n (pi, k) = Inr (Sleeps, pi, k') \<and> klocks k' = {} \<and> state (procs k' ! pr) = SLEEPING
       \<and> chan (procs k' ! pr) = OnPipeRead q
    else \<exists>i pi' k'. piperead q ca addr n (pi, k) = Inr (Returns i, pi', k') \<and> 0 \<le> i \<and> i \<le> n \<and> pipe_ok pi'
       \<and> pipe_contents pi = map (\<lambda>j. mem (km k') (uaddr (mem (km k)) (pagetable (procs k ! pr)) (addr + of_int j))) [0..i - 1]
           @ pipe_contents pi'
       \<and> (i = n \<or> pipe_contents pi' = []) \<and> klocks k' = {} \<and> unlocked (procs k')"
proof -
  note D = user_srcD[OF user_dstD(1)[OF r]]
  have start: "myproc k = Inr pr" "acquire_k (ObjLock q) k = Inr (locked_kern q k)"
    using D(1) k(1) by (simp_all add: myproc_def acquire_k_def locked_kern_def)
  have emp: "pipe_empty pi \<longleftrightarrow> pipe_contents pi = []" by (rule pipe.empty_iff[OF ok])
  show ?thesis
  proof (cases "pipe_contents pi = [] \<and> writeopen pi \<noteq> 0")
    case True
    have kl: "is_killed pr (locked_kern q k) = Inr (0, locked_kern q k)"
      using is_killed_eq'[OF D(4)] D(2,3) k(2) by (simp add: locked_kern_def)
    note sl = sleep_enter_eq[of "locked_kern q k" pr "ObjLock q" "OnPipeRead q"]
    have "piperead q ca addr n (pi, k) = bnd (sleep_enter (OnPipeRead q) (ObjLock q) (locked_kern q k)) (\<lambda>k. Inr (Sleeps, pi, k))"
      using start emp True kl by (simp add: piperead_def)
    then show ?thesis using sl D True by simp
  next
    case False
    then have run: "piperead q ca addr n (pi, k) = piperead_loop q pr ca addr n 0 pi (locked_kern q k)"
      using start emp by (auto simp: piperead_def)
    have keep: "km (locked_kern q k) = km k" "procs (locked_kern q k) = procs k" by (simp_all add: locked_kern_def)
    show ?thesis
      unfolding if_not_P[OF False] using piperead_loop_correct[OF r ok order_refl n, folded run, unfolded keep] by blast
  qed
qed

theorem piperead_delivers_witness:
  "\<exists>i pi' k'. piperead 0 0x8000b000 0 8 (pipe_put 65 pipeinit, sample_user) = Inr (Returns i, pi', k') \<and> i \<le> 8"
proof -
  have c: "klocks sample_user = {}" by (simp add: sample_user_def sample_kern_def)
  have "user_dst (ObjLock 0) 0 0x8000b000 0 8 (locked_kern 0 sample_user)"
    unfolding locked_kern_def by (rule sample_user_dst)
  moreover have "pipe_ok (pipe_put 65 pipeinit)" "pipe_contents (pipe_put 65 pipeinit) = [65]"
    using pipe.put_ok[OF pipeinit_ok(1), of 65] pipeinit_ok(2) pipe.full_iff[OF pipeinit_ok(1)] by (simp_all add: PIPESIZE_def)
  ultimately show ?thesis
    using piperead_delivers[of 0 0 "0x8000b000" 0 8 sample_user "pipe_put 65 pipeinit"] c sample_user_table(4) by auto
qed

end
