(* ===== verification/Spinlock.thy ===== *)
theory Spinlock
  imports Prelude
begin

text \<open>
  \<^verbatim>\<open>kernel/spinlock.c\<close>, with the interrupt-enable bit of \<^verbatim>\<open>kernel/riscv.h\<close>, executed by any
  number of harts whose steps interleave.

  \<open>acquire\<close> and \<open>release\<close> are cut into the parts that other harts can observe between (the atomic
  swap, the store to \<open>lk->cpu\<close>); \<open>lstep\<close> interleaves these parts over all harts and all locks, and
  rule induction over it gives mutual exclusion, that a hart holding a lock has its interrupts
  off, and that the \<open>panic\<close> calls of \<open>acquire\<close> and \<open>release\<close> fire only on misuse.
\<close>

section \<open>Interrupts and the push_off/pop_off nesting\<close>

text \<open>\<open>intr_on\<close> is the bit \<open>SIE\<close> of \<open>sstatus\<close>; the other fields are those of \<^verbatim>\<open>struct cpu\<close>.\<close>

record cpu =
  noff :: int
  intena :: bool
  intr :: bool

definition push_off :: "cpu \<Rightarrow> cpu" where
  "push_off c =
     (let old = intr c;
          c = c\<lparr>intr := False\<rparr>;
          c = (if noff c = 0 then c\<lparr>intena := old\<rparr> else c) in
      c\<lparr>noff := i32 (noff c + 1)\<rparr>)"

definition pop_off :: "cpu \<Rightarrow> cpu result" where
  "pop_off c =
     (if intr c then Inl (Panic ''pop_off - interruptible'')
      else if noff c < 1 then Inl (Panic ''pop_off'')
      else
        let c = c\<lparr>noff := i32 (noff c - 1)\<rparr> in
        Inr (if noff c = 0 \<and> intena c then c\<lparr>intr := True\<rparr> else c))"

section \<open>The lock\<close>

record spinlock =
  locked :: uint
  lkname :: string
  lkcpu :: "nat option"

definition initlock :: "string \<Rightarrow> spinlock" where
  "initlock nm = \<lparr>locked = 0, lkname = nm, lkcpu = None\<rparr>"

definition holding :: "nat \<Rightarrow> spinlock \<Rightarrow> bool" where
  "holding h lk \<longleftrightarrow> locked lk \<noteq> 0 \<and> lkcpu lk = Some h"

definition sync_lock_test_and_set :: "spinlock \<Rightarrow> uint \<times> spinlock" where
  "sync_lock_test_and_set lk = (locked lk, lk\<lparr>locked := 1\<rparr>)"

text \<open>
  \<open>acquire\<close> for hart \<open>h\<close> when no other hart runs: \<open>None\<close> inside the result is a lock held by
  another hart, on which the loop spins for ever unless that hart moves.
\<close>

definition acquire :: "nat \<Rightarrow> cpu \<times> spinlock \<Rightarrow> (cpu \<times> spinlock) option result" where
  "acquire h = (\<lambda>(c, lk).
     let c = push_off c in
     if holding h lk then Inl (Panic ''acquire'')
     else
       let (old, lk) = sync_lock_test_and_set lk in
       if old \<noteq> 0 then Inr None
       else Inr (Some (c, lk\<lparr>lkcpu := Some h\<rparr>)))"

definition release :: "nat \<Rightarrow> cpu \<times> spinlock \<Rightarrow> (cpu \<times> spinlock) result" where
  "release h = (\<lambda>(c, lk).
     if \<not> holding h lk then Inl (Panic ''release'')
     else
       let lk = lk\<lparr>lkcpu := None\<rparr>;
           lk = lk\<lparr>locked := 0\<rparr> in
       bnd (pop_off c) (\<lambda>c. Inr (c, lk)))"

section \<open>Sequential behaviour\<close>

text \<open>A \<open>cpu\<close> is well formed when its interrupts are off whenever a \<open>push_off\<close> is pending.\<close>

definition cpu_ok :: "cpu \<Rightarrow> bool" where
  "cpu_ok c \<longleftrightarrow> 0 \<le> noff c \<and> noff c < INT_MAX \<and> (0 < noff c \<longrightarrow> \<not> intr c)"

text \<open>The state \<open>pop_off\<close> has to restore.\<close>

definition pop_restores :: "cpu \<Rightarrow> bool" where
  "pop_restores c \<longleftrightarrow> (if noff c = 0 then intr c else intena c)"

lemma in_int_noff: "0 \<le> x \<Longrightarrow> x \<le> INT_MAX \<Longrightarrow> in_int x"
  by (simp add: in_int_def INT_MIN_def)

lemma push_off_fields:
  assumes "cpu_ok c"
  shows "noff (push_off c) = noff c + 1" "\<not> intr (push_off c)"
    "intena (push_off c) = pop_restores c"
  using assms by (auto simp: push_off_def cpu_ok_def pop_restores_def Let_def i32_in_range in_int_noff)

text \<open>\<open>push_off\<close> followed by \<open>pop_off\<close> gives back the interrupt bit and the nesting depth.\<close>

lemma pop_push_off:
  assumes "cpu_ok c"
  obtains c' where "pop_off (push_off c) = Inr c'" "noff c' = noff c" "intr c' = intr c"
    "0 < noff c \<longrightarrow> intena c' = intena c"
proof -
  let ?d = "(push_off c)\<lparr>noff := noff c\<rparr>"
  let ?c' = "if noff c = 0 \<and> intena (push_off c) then ?d\<lparr>intr := True\<rparr> else ?d"
  have range: "i32 (noff c) = noff c"
    using assms by (simp add: cpu_ok_def i32_in_range in_int_noff)
  have "pop_off (push_off c) = Inr ?c'"
    using push_off_fields[OF assms] assms range by (simp add: pop_off_def cpu_ok_def Let_def)
  then show ?thesis
    by (rule that) (use push_off_fields[OF assms] assms in \<open>auto simp: pop_restores_def cpu_ok_def\<close>)
qed

lemma acquire_free:
  assumes "locked lk = 0"
  shows "acquire h (c, lk) = Inr (Some (push_off c, lk\<lparr>locked := 1, lkcpu := Some h\<rparr>))"
  using assms by (simp add: acquire_def holding_def sync_lock_test_and_set_def)

lemma acquire_held:
  assumes "locked lk \<noteq> 0"
  shows "acquire h (c, lk) = (if lkcpu lk = Some h then Inl (Panic ''acquire'') else Inr None)"
  using assms by (simp add: acquire_def holding_def sync_lock_test_and_set_def)

lemma release_not_held: "\<not> holding h lk \<Longrightarrow> release h (c, lk) = Inl (Panic ''release'')"
  by (simp add: release_def)

section \<open>Harts and locks together\<close>

text \<open>Where a hart is: outside the lock code, spinning, past the swap, or past the store to \<open>cpu\<close>.\<close>

datatype lpc = Running | Spinning nat | Swapped nat | Releasing nat

record machine =
  harts :: "nat \<Rightarrow> cpu"
  locks :: "nat \<Rightarrow> spinlock"
  pcs :: "nat \<Rightarrow> lpc"
  held :: "nat \<Rightarrow> nat set"  \<comment> \<open>ghost: the locks a hart has acquired and not begun to release\<close>

inductive lstep :: "machine \<Rightarrow> machine \<Rightarrow> bool" where
  set_intr: "pcs m h = Running \<Longrightarrow> noff (harts m h) = 0 \<Longrightarrow>
     lstep m (m\<lparr>harts := (harts m)(h := (harts m h)\<lparr>intr := b\<rparr>)\<rparr>)"
| begin_acquire: "pcs m h = Running \<Longrightarrow> noff (harts m h) < INT_MAX - 1 \<Longrightarrow> \<not> holding h (locks m l) \<Longrightarrow>
     lstep m (m\<lparr>harts := (harts m)(h := push_off (harts m h)), pcs := (pcs m)(h := Spinning l)\<rparr>)"
| spin: "pcs m h = Spinning l \<Longrightarrow> sync_lock_test_and_set (locks m l) = (old, lk) \<Longrightarrow> old \<noteq> 0 \<Longrightarrow>
     lstep m (m\<lparr>locks := (locks m)(l := lk)\<rparr>)"
| win: "pcs m h = Spinning l \<Longrightarrow> sync_lock_test_and_set (locks m l) = (0, lk) \<Longrightarrow>
     lstep m (m\<lparr>locks := (locks m)(l := lk), pcs := (pcs m)(h := Swapped l)\<rparr>)"
| end_acquire: "pcs m h = Swapped l \<Longrightarrow>
     lstep m (m\<lparr>locks := (locks m)(l := (locks m l)\<lparr>lkcpu := Some h\<rparr>), pcs := (pcs m)(h := Running),
       held := (held m)(h := insert l (held m h))\<rparr>)"
| begin_release: "pcs m h = Running \<Longrightarrow> holding h (locks m l) \<Longrightarrow>
     lstep m (m\<lparr>locks := (locks m)(l := (locks m l)\<lparr>lkcpu := None\<rparr>), pcs := (pcs m)(h := Releasing l),
       held := (held m)(h := held m h - {l})\<rparr>)"
| end_release: "pcs m h = Releasing l \<Longrightarrow> pop_off (harts m h) = Inr c \<Longrightarrow>
     lstep m (m\<lparr>locks := (locks m)(l := (locks m l)\<lparr>locked := 0\<rparr>), harts := (harts m)(h := c),
       pcs := (pcs m)(h := Running)\<rparr>)"

inductive_cases lstepE: "lstep m m'"

inductive reachable :: "machine \<Rightarrow> bool" where
  boot: "(\<And>h. noff (harts m h) = 0 \<and> pcs m h = Running \<and> held m h = {}) \<Longrightarrow>
     (\<And>l. \<exists>nm. locks m l = initlock nm) \<Longrightarrow> reachable m"
| later: "reachable m \<Longrightarrow> lstep m m' \<Longrightarrow> reachable m'"

text \<open>Whether hart \<open>h\<close> has won lock \<open>l\<close> and not yet given it back.\<close>

definition owns :: "machine \<Rightarrow> nat \<Rightarrow> nat \<Rightarrow> bool" where
  "owns m h l \<longleftrightarrow> l \<in> held m h \<or> pcs m h = Swapped l \<or> pcs m h = Releasing l"

text \<open>The invariant of the lock words: a lock is taken exactly when one hart owns it.\<close>

definition lock_inv :: "machine \<Rightarrow> bool" where
  "lock_inv m \<longleftrightarrow>
     (\<forall>l. (locked (locks m l) \<noteq> 0 \<longleftrightarrow> (\<exists>h. owns m h l)))
     \<and> (\<forall>l h h'. owns m h l \<longrightarrow> owns m h' l \<longrightarrow> h = h')
     \<and> (\<forall>l h. lkcpu (locks m l) = Some h \<longleftrightarrow> l \<in> held m h)
     \<and> (\<forall>h l. pcs m h = Swapped l \<or> pcs m h = Releasing l \<longrightarrow> l \<notin> held m h)"

lemma lock_invD:
  assumes "lock_inv m"
  shows "locked (locks m l) \<noteq> 0 \<longleftrightarrow> (\<exists>h. owns m h l)" "owns m h l \<Longrightarrow> owns m h' l \<Longrightarrow> h = h'"
    "lkcpu (locks m l) = Some h \<longleftrightarrow> l \<in> held m h"
    "pcs m h = Swapped l \<or> pcs m h = Releasing l \<Longrightarrow> l \<notin> held m h"
  using assms by (auto simp: lock_inv_def)

lemma holding_iff_held: "lock_inv m \<Longrightarrow> holding h (locks m l) \<longleftrightarrow> l \<in> held m h"
  using lock_invD(1,3)[of m l] by (auto simp: holding_def owns_def)

lemma lock_inv_step:
  assumes "lstep m m'" "lock_inv m"
  shows "lock_inv m'"
  using assms
proof (cases rule: lstep.cases)
  case (set_intr h b)
  with assms(2) show ?thesis by (simp add: lock_inv_def owns_def)
next
  case (begin_acquire h l)
  then have "owns m' = owns m" by (auto simp: owns_def fun_eq_iff)
  with begin_acquire assms(2) show ?thesis by (auto simp: lock_inv_def)
next
  case (spin h l old lk)
  then have "owns m' = owns m" by (auto simp: owns_def fun_eq_iff)
  with spin assms(2) show ?thesis by (auto simp: lock_inv_def sync_lock_test_and_set_def)
next
  case (win h l lk)
  then have lk: "lk = (locks m l)\<lparr>locked := 1\<rparr>" "locked (locks m l) = 0"
    by (auto simp: sync_lock_test_and_set_def)
  then have free: "\<not> owns m g l" for g using lock_invD(1)[OF assms(2)] by auto
  have "owns m' g k \<longleftrightarrow> owns m g k \<or> g = h \<and> k = l" for g k
    using win by (auto simp: owns_def)
  with win lk free assms(2) show ?thesis
    by (auto simp: lock_inv_def owns_def)
next
  case (end_acquire h l)
  then have "owns m' = owns m" by (auto simp: owns_def fun_eq_iff)
  moreover have "locked (locks m' k) = locked (locks m k)" for k using end_acquire by auto
  moreover have "owns m h l" using end_acquire by (simp add: owns_def)
  then have "l \<notin> held m g" for g
    using lock_invD(2)[OF assms(2), of h l g] lock_invD(4)[OF assms(2), of h l] end_acquire by (auto simp: owns_def)
  ultimately show ?thesis
    using end_acquire assms(2) lock_invD(2,3)[OF assms(2)] by (auto simp: lock_inv_def)
next
  case (begin_release h l)
  then have h: "l \<in> held m h" using holding_iff_held[OF assms(2)] by simp
  then have "owns m' = owns m" using begin_release by (auto simp: owns_def fun_eq_iff)
  moreover have "locked (locks m' k) = locked (locks m k)" for k using begin_release by auto
  moreover have "l \<notin> held m g" if "g \<noteq> h" for g
    using h that lock_invD(2)[OF assms(2), of h l g] by (auto simp: owns_def)
  ultimately show ?thesis
    using begin_release assms(2) lock_invD(3)[OF assms(2)] by (auto simp: lock_inv_def split: if_splits)
next
  case (end_release h l c)
  then have own: "owns m h l" "l \<notin> held m h" using lock_invD(4)[OF assms(2)] by (auto simp: owns_def)
  then have only: "owns m g l \<longleftrightarrow> g = h" for g using lock_invD(2)[OF assms(2)] by blast
  have "owns m' g k \<longleftrightarrow> owns m g k \<and> k \<noteq> l" for g k
    using end_release own(2) only by (auto simp: owns_def split: if_splits)
  with end_release assms(2) only show ?thesis
    by (auto simp: lock_inv_def split: if_splits)
qed

text \<open>The invariant of one hart's nesting counter.\<close>

definition depth_ok :: "machine \<Rightarrow> nat \<Rightarrow> bool" where
  "depth_ok m h \<longleftrightarrow> finite (held m h) \<and> cpu_ok (harts m h)
     \<and> noff (harts m h) = int (card (held m h)) + (if pcs m h = Running then 0 else 1)"

lemma depth_ok_step:
  assumes "lstep m m'" "lock_inv m" "depth_ok m g"
  shows "depth_ok m' g"
  using assms(1)
proof (cases rule: lstep.cases)
  case (set_intr h b)
  with assms(3) show ?thesis by (cases "g = h") (simp_all add: depth_ok_def cpu_ok_def)
next
  case (begin_acquire h l)
  then show ?thesis
    using assms(3) push_off_fields[of "harts m g"]
    by (cases "g = h") (auto simp: depth_ok_def cpu_ok_def)
next
  case (spin h l old lk)
  with assms(3) show ?thesis by (simp add: depth_ok_def)
next
  case (win h l lk)
  with assms(3) show ?thesis by (auto simp: depth_ok_def)
next
  case (end_acquire h l)
  then have "l \<notin> held m h" using lock_invD(4)[OF assms(2)] by simp
  with end_acquire assms(3) show ?thesis by (auto simp: depth_ok_def)
next
  case (begin_release h l)
  then have "l \<in> held m h" using holding_iff_held[OF assms(2)] by simp
  then have "finite (held m h) \<Longrightarrow> int (card (held m h - {l})) = int (card (held m h)) - 1"
    using card_gt_0_iff[of "held m h"] by (auto simp: card_Diff_singleton of_nat_diff)
  with begin_release assms(3) show ?thesis
    by (cases "g = h") (simp_all add: depth_ok_def)
next
  case (end_release h l c)
  show ?thesis
  proof (cases "g = h")
    case True
    then have h: "cpu_ok (harts m h)" "noff (harts m h) = int (card (held m h)) + 1"
      using assms(3) end_release by (auto simp: depth_ok_def)
    then have "i32 (noff (harts m h) - 1) = int (card (held m h))"
      by (simp add: cpu_ok_def i32_in_range in_int_noff)
    then have "noff c = int (card (held m h))" "cpu_ok c"
      using end_release(3) h by (auto simp: pop_off_def Let_def cpu_ok_def split: if_splits)
    with True end_release assms(3) show ?thesis by (simp add: depth_ok_def)
  qed (use end_release assms(3) in \<open>simp add: depth_ok_def\<close>)
qed

lemma reachable_inv: "reachable m \<Longrightarrow> lock_inv m \<and> (\<forall>h. depth_ok m h)"
proof (induction rule: reachable.induct)
  case (boot m)
  have "locked (locks m l) = 0" "lkcpu (locks m l) = None" for l
    using boot(2)[of l] by (auto simp: initlock_def)
  with boot(1) show ?case
    by (auto simp: lock_inv_def owns_def depth_ok_def cpu_ok_def INT_MAX_def)
next
  case (later m m')
  then show ?case using lock_inv_step depth_ok_step by blast
qed

lemma releasing_pops:
  assumes "reachable m" "pcs m h = Releasing l"
  shows "\<exists>c. pop_off (harts m h) = Inr c"
  using reachable_inv[OF assms(1)] assms(2)
  by (auto simp: depth_ok_def cpu_ok_def pop_off_def Let_def)

end
