(* ===== verification/Spinlock_Props.thy ===== *)
theory Spinlock_Props
  imports Spinlock
begin

text \<open>
  The property of the spinlocks: mutual exclusion with interrupts off, and no panic at the end of a
  \<open>release\<close>, whatever the interleaving of the harts.
\<close>

text \<open>Run without interference, \<open>acquire\<close> and \<open>release\<close> are sequences of steps of the machine.\<close>

lemma acquire_steps:
  assumes "pcs m h = Running" "noff (harts m h) < INT_MAX - 1" "acquire h (harts m h, locks m l) = Inr (Some (c, lk))"
  shows "lstep\<^sup>*\<^sup>* m (m\<lparr>harts := (harts m)(h := c), locks := (locks m)(l := lk), held := (held m)(h := insert l (held m h))\<rparr>)"
proof -
  have a: "locked (locks m l) = 0" "c = push_off (harts m h)" "lk = (locks m l)\<lparr>locked := 1, lkcpu := Some h\<rparr>"
    using assms(3) by (auto simp: acquire_def sync_lock_test_and_set_def Let_def split: if_splits)
  let ?m1 = "m\<lparr>harts := (harts m)(h := c), pcs := (pcs m)(h := Spinning l)\<rparr>"
  let ?m2 = "?m1\<lparr>locks := (locks m)(l := (locks m l)\<lparr>locked := 1\<rparr>), pcs := (pcs m)(h := Swapped l)\<rparr>"
  have "lstep m ?m1" using begin_acquire[of m h l] assms(1,2) a(1,2) by (simp add: holding_def)
  moreover have "lstep ?m1 ?m2" using win[of ?m1 h l] a(1) by (simp add: sync_lock_test_and_set_def)
  moreover have "lstep ?m2 (m\<lparr>harts := (harts m)(h := c), locks := (locks m)(l := lk), held := (held m)(h := insert l (held m h))\<rparr>)"
    using end_acquire[of ?m2 h l] a(3) assms(1) by (simp add: fun_upd_idem)
  ultimately show ?thesis by (meson converse_rtranclp_into_rtranclp rtranclp.rtrancl_refl)
qed

lemma release_steps:
  assumes "pcs m h = Running" "release h (harts m h, locks m l) = Inr (c, lk)"
  shows "lstep\<^sup>*\<^sup>* m (m\<lparr>harts := (harts m)(h := c), locks := (locks m)(l := lk), held := (held m)(h := held m h - {l})\<rparr>)"
proof -
  have a: "holding h (locks m l)" "pop_off (harts m h) = Inr c" "lk = (locks m l)\<lparr>lkcpu := None, locked := 0\<rparr>"
    using assms(2) by (auto simp: release_def bnd_eq_Inr split: if_splits)
  let ?m1 = "m\<lparr>locks := (locks m)(l := (locks m l)\<lparr>lkcpu := None\<rparr>), pcs := (pcs m)(h := Releasing l),
       held := (held m)(h := held m h - {l})\<rparr>"
  have "lstep m ?m1" by (rule begin_release[OF assms(1) a(1)])
  moreover have "lstep ?m1 (m\<lparr>harts := (harts m)(h := c), locks := (locks m)(l := lk), held := (held m)(h := held m h - {l})\<rparr>)"
    using end_release[of ?m1 h l c] a(2,3) assms(1) by (cases m) (simp add: fun_upd_idem)
  ultimately show ?thesis by (meson converse_rtranclp_into_rtranclp rtranclp.rtrancl_refl)
qed

lemma reachable_steps: "lstep\<^sup>*\<^sup>* m m' \<Longrightarrow> reachable m \<Longrightarrow> reachable m'"
  by (induction rule: rtranclp_induct) (auto intro: later)

text \<open>
  C23. Mutual exclusion: in every state that any interleaving of the harts reaches, a lock is taken
  exactly when a hart has won it and not given it back, and then by one hart only; that hart has its
  interrupts off, so no handler can spin on the lock it holds; \<open>holding\<close> answers truly; the nesting
  counter counts the locks held; and the \<open>pop_off\<close> at the end of a \<open>release\<close> never panics.
\<close>

theorem spinlock_exclusive:
  assumes "reachable m"
  shows "(locked (locks m l) \<noteq> 0 \<longleftrightarrow> (\<exists>h. owns m h l)) \<and> (\<forall>g. owns m g l \<and> owns m h l \<longrightarrow> g = h)
    \<and> (owns m h l \<longrightarrow> \<not> intr (harts m h)) \<and> (holding h (locks m l) \<longleftrightarrow> l \<in> held m h)
    \<and> (pcs m h = Running \<longrightarrow> noff (harts m h) = int (card (held m h)))
    \<and> (pcs m h = Releasing l \<longrightarrow> (\<exists>c. pop_off (harts m h) = Inr c))"
proof -
  have inv: "lock_inv m" and d: "depth_ok m h" using reachable_inv[OF assms] by auto
  have "\<not> intr (harts m h)" if "owns m h l"
  proof -
    have "0 < noff (harts m h)" using that d card_gt_0_iff[of "held m h"] by (auto simp: depth_ok_def owns_def)
    then show ?thesis using d by (simp add: depth_ok_def cpu_ok_def)
  qed
  moreover have "pcs m h = Running \<longrightarrow> noff (harts m h) = int (card (held m h))" using d by (simp add: depth_ok_def)
  ultimately show ?thesis
    using lock_invD(1,2)[OF inv] holding_iff_held[OF inv] releasing_pops[OF assms] by blast
qed

definition idle_harts :: machine where
  "idle_harts = \<lparr>harts = \<lambda>_. \<lparr>noff = 0, intena = False, intr = True\<rparr>, locks = \<lambda>_. initlock ''wait_lock'',
     pcs = \<lambda>_. Running, held = \<lambda>_. {}\<rparr>"

theorem spinlock_exclusive_witness:
  "\<exists>c lk m. acquire 1 (harts idle_harts 1, locks idle_harts 7) = Inr (Some (c, lk)) \<and> reachable m \<and> locks m 7 = lk
     \<and> harts m 1 = c \<and> owns m 1 7 \<and> (\<forall>g. owns m g 7 \<longrightarrow> g = 1) \<and> \<not> intr c \<and> noff c = 1"
proof -
  define c lk where "c = push_off (harts idle_harts 1)" and "lk = (locks idle_harts 7)\<lparr>locked := 1, lkcpu := Some 1\<rparr>"
  have a: "acquire 1 (harts idle_harts 1, locks idle_harts 7) = Inr (Some (c, lk))"
    by (simp add: acquire_free idle_harts_def initlock_def c_def lk_def)
  let ?m = "idle_harts\<lparr>harts := (harts idle_harts)(1 := c), locks := (locks idle_harts)(7 := lk), held := (held idle_harts)(1 := insert 7 (held idle_harts 1))\<rparr>"
  have "reachable idle_harts" by (rule boot) (auto simp: idle_harts_def)
  moreover have "lstep\<^sup>*\<^sup>* idle_harts ?m" by (rule acquire_steps[OF _ _ a]) (simp_all add: idle_harts_def INT_MAX_def)
  ultimately have r: "reachable ?m" using reachable_steps by blast
  have o: "owns ?m 1 7" by (simp add: owns_def)
  then show ?thesis
    using a r spinlock_exclusive[OF r, of 7 1]
    by (intro exI[of _ c] exI[of _ lk] exI[of _ ?m]) (auto simp: idle_harts_def)
qed

end
