(* ===== verification/Token_Ring.thy ===== *)
theory Token_Ring
  imports Prelude
begin

text \<open>
  Two programs of \<^verbatim>\<open>src/concurrency\<close> are built alike: one thread per worker (barista, ice cream machine) and
  per customer, each of them a loop that waits for the semaphore of the thread before it and for a lock,
  runs its body, gives the lock back and posts its own semaphore, so that a token goes round a ring. This theory has
  that loop for any two bodies. Its locale \<open>token_ring\<close> asks for an invariant of the sequential run and gives back
  that every schedule of the threads computes that run; both programs interpret it. Its extension \<open>stopping_ring\<close> adds that the
  test at the top of the loop, once true, stays so, and gives progress under fair schedules.
\<close>

section \<open>Threads and semaphores\<close>

datatype thread = Worker nat | Customer nat

text \<open>The thread whose semaphore a thread waits for; a thread posts its own.\<close>

fun waits_on :: "nat \<Rightarrow> nat \<Rightarrow> thread \<Rightarrow> thread" where
  "waits_on B N (Worker 0) = Customer (N - 1)"
| "waits_on B N (Worker (Suc b)) = Worker b"
| "waits_on B N (Customer 0) = Worker (B - 1)"
| "waits_on B N (Customer (Suc c)) = Customer c"

text \<open>
  Where a thread is: at the test at the top of its loop, before \<open>sem_wait\<close> on its predecessor,
  before \<open>sem_wait\<close> on the lock, inside, before its final \<open>sem_post\<close>, out of the loop, between the
  read and the write of the unprotected \<open>thread_closed++\<close>, and gone.
\<close>

datatype tpc = AtTest | AtWait | AtLock | Inside | AtPost | AtExit | Exiting int | Gone

record 's ring =
  data :: 's
  sems :: "thread \<Rightarrow> nat"
  sem_lock :: nat
  pc :: "thread \<Rightarrow> tpc"
  thread_closed :: int

text \<open>
  One step of thread \<open>t\<close>; a thread that has to wait stays where it is. \<open>stop\<close> is the test at the top of the loop,
  \<open>nB\<close> and \<open>nN\<close> give the numbers of workers and customers.
\<close>

definition ring_step :: "(thread \<Rightarrow> 's \<Rightarrow> 's result) \<Rightarrow> ('s \<Rightarrow> bool) \<Rightarrow> ('s \<Rightarrow> nat) \<Rightarrow> ('s \<Rightarrow> nat) \<Rightarrow> thread \<Rightarrow> 's ring \<Rightarrow> 's ring result" where
  "ring_step body stop nB nN t m = (case pc m t of
     AtTest \<Rightarrow> Inr (m\<lparr>pc := (pc m)(t := if stop (data m) then AtExit else AtWait)\<rparr>)
   | AtWait \<Rightarrow>
       let p = waits_on (nB (data m)) (nN (data m)) t in
       if sems m p = 0 then Inr m
       else Inr (m\<lparr>sems := (sems m)(p := sems m p - 1), pc := (pc m)(t := AtLock)\<rparr>)
   | AtLock \<Rightarrow>
       if sem_lock m = 0 then Inr m
       else Inr (m\<lparr>sem_lock := sem_lock m - 1, pc := (pc m)(t := Inside)\<rparr>)
   | Inside \<Rightarrow> bnd (body t (data m)) (\<lambda>s.
       Inr (m\<lparr>data := s, sem_lock := sem_lock m + 1, pc := (pc m)(t := AtPost)\<rparr>))
   | AtPost \<Rightarrow> Inr (m\<lparr>sems := (sems m)(t := sems m t + 1), pc := (pc m)(t := AtTest)\<rparr>)
   | AtExit \<Rightarrow> Inr (m\<lparr>pc := (pc m)(t := Exiting (thread_closed m))\<rparr>)
   | Exiting n \<Rightarrow> Inr (m\<lparr>thread_closed := n + 1, pc := (pc m)(t := Gone)\<rparr>)
   | Gone \<Rightarrow> Inr m)"

text \<open>The start: all threads created, the semaphore of customer 0 posted by \<open>main\<close>.\<close>

definition ring_boot :: "'s \<Rightarrow> 's ring" where
  "ring_boot s = \<lparr>data = s, sems = (\<lambda>_. 0)(Customer 0 := 1), sem_lock = 1, pc = (\<lambda>_. AtTest), thread_closed = 0\<rparr>"

section \<open>The order the ring is meant to enforce\<close>

definition ring_order :: "nat \<Rightarrow> nat \<Rightarrow> thread list" where
  "ring_order B N = map Customer [1..<N] @ map Worker [0..<B] @ [Customer 0]"

definition ring_at :: "nat \<Rightarrow> nat \<Rightarrow> nat \<Rightarrow> thread" where
  "ring_at B N k = ring_order B N ! (k mod (B + N))"

text \<open>The position of a thread in the ring.\<close>

fun ring_pos :: "nat \<Rightarrow> nat \<Rightarrow> thread \<Rightarrow> nat" where
  "ring_pos B N (Customer 0) = B + N - 1"
| "ring_pos B N (Customer (Suc c)) = c"
| "ring_pos B N (Worker b) = N - 1 + b"

fun is_thread :: "nat \<Rightarrow> nat \<Rightarrow> thread \<Rightarrow> bool" where
  "is_thread B N (Customer c) \<longleftrightarrow> c < N"
| "is_thread B N (Worker b) \<longleftrightarrow> b < B"

lemma length_ring_order [simp]: "0 < N \<Longrightarrow> length (ring_order B N) = B + N"
  by (simp add: ring_order_def)

lemma ring_pos_less: "0 < N \<Longrightarrow> is_thread B N t \<Longrightarrow> ring_pos B N t < B + N"
  by (cases "(B, N, t)" rule: ring_pos.cases) auto

lemma ring_order_pos: "0 < N \<Longrightarrow> is_thread B N t \<Longrightarrow> ring_order B N ! ring_pos B N t = t"
  by (cases "(B, N, t)" rule: ring_pos.cases) (auto simp: ring_order_def nth_append)

lemma ring_pos_order:
  assumes "0 < N" "p < B + N"
  shows "is_thread B N (ring_order B N ! p) \<and> ring_pos B N (ring_order B N ! p) = p"
  using assms by (auto simp: ring_order_def nth_append nth_Cons' add.commute split: if_splits)

text \<open>Thread \<open>t\<close> has its turn exactly at the steps congruent to its position.\<close>

lemma ring_at_iff:
  assumes "0 < N" "is_thread B N t"
  shows "ring_at B N k = t \<longleftrightarrow> k mod (B + N) = ring_pos B N t"
  using ring_pos_order[OF assms(1), of "k mod (B + N)"] ring_order_pos[OF assms] assms(1)
  by (auto simp: ring_at_def)

lemma ring_at_thread: "0 < N \<Longrightarrow> is_thread B N (ring_at B N k)"
  using ring_pos_order[of N "k mod (B + N)" B] by (simp add: ring_at_def)

text \<open>The semaphores link each thread to the one before it in the ring.\<close>

lemma waits_on_pos:
  assumes "0 < N" "0 < B" "is_thread B N t"
  shows "is_thread B N (waits_on B N t) \<and> (ring_pos B N (waits_on B N t) + 1) mod (B + N) = ring_pos B N t"
proof (cases t)
  case (Worker b)
  then show ?thesis
  proof (cases b)
    case 0
    then show ?thesis using assms Worker by (cases N; cases "N - 1") auto
  next
    case (Suc b')
    then show ?thesis using assms Worker by simp
  qed
next
  case (Customer c)
  then show ?thesis using assms by (cases "(B, N, Customer c)" rule: ring_pos.cases; cases "c - 1") auto
qed

section \<open>The sequential run\<close>

primrec ring_run :: "(thread \<Rightarrow> 's \<Rightarrow> 's result) \<Rightarrow> nat \<Rightarrow> nat \<Rightarrow> nat \<Rightarrow> 's \<Rightarrow> 's result" where
  "ring_run body B N 0 s = Inr s"
| "ring_run body B N (Suc k) s = bnd (ring_run body B N k s) (body (ring_at B N k))"

text \<open>The turn at which the thread at position \<open>p\<close> runs in second \<open>t\<close>, for a ring of \<open>L\<close> threads.\<close>

definition lin :: "nat \<Rightarrow> int \<Rightarrow> nat \<Rightarrow> int" where
  "lin L t p = t * int L + int p"

lemma lin_le_iff:
  assumes "p < L" "q < L"
  shows "lin L t p \<le> lin L u q \<longleftrightarrow> t < u \<or> t = u \<and> p \<le> q"
proof -
  have gap: "lin L a x < lin L b y" if "a < b" "x < L" for a b x y
  proof -
    have "lin L a x < (a + 1) * int L" using that(2) by (simp add: lin_def algebra_simps)
    also have "\<dots> \<le> b * int L" using that(1) by (intro mult_right_mono) auto
    finally show ?thesis by (simp add: lin_def)
  qed
  show ?thesis
    using gap[of t u p q] gap[of u t q p] assms by (cases t u rule: linorder_cases) (auto simp: lin_def)
qed

lemma lin_eq_iff:
  assumes "p < L" "q < L"
  shows "lin L t p = lin L u q \<longleftrightarrow> t = u \<and> p = q"
  using lin_le_iff[OF assms, of t u] lin_le_iff[OF assms(2,1), of u t] by fastforce

lemma lin_of_nat: "lin L (int (k div L)) (k mod L) = int k"
  unfolding lin_def by (metis div_mult_mod_eq of_nat_add of_nat_mult)

lemma turn_lin:
  assumes "0 < N" "ring_at B N k = t"
  shows "int k = lin (B + N) (int (k div (B + N))) (ring_pos B N t)"
  using ring_at_iff[OF assms(1), of B t k] ring_at_thread[OF assms(1), of B k] assms(2) lin_of_nat[of "B + N" k] by metis


lemma clock_step:
  assumes "0 < N" "ring_at B N k = t"
  shows "Suc k div (B + N) = k div (B + N) + (if t = Customer 0 then 1 else 0)"
proof -
  have p: "k mod (B + N) = ring_pos B N t" using ring_at_iff[OF assms(1)] ring_at_thread[OF assms(1), of B k] assms(2) by metis
  have t: "is_thread B N t" using ring_at_thread[OF assms(1), of B k] assms(2) by simp
  have "Suc (k mod (B + N)) = B + N \<longleftrightarrow> t = Customer 0"
    using p t assms(1) by (cases "(B, N, t)" rule: ring_pos.cases) auto
  then show ?thesis using assms(1) by (simp add: div_Suc mod_Suc)
qed


section \<open>The token\<close>

abbreviation critical :: "tpc \<Rightarrow> bool" where
  "critical c \<equiv> c = AtLock \<or> c = Inside \<or> c = AtPost"

abbreviation prev_at :: "nat \<Rightarrow> nat \<Rightarrow> nat \<Rightarrow> thread" where
  "prev_at B N k \<equiv> waits_on B N (ring_at B N k)"

lemma prev_at_Suc:
  assumes "0 < B" "0 < N"
  shows "prev_at B N (Suc k) = ring_at B N k"
proof -
  let ?t = "ring_at B N (Suc k)" and ?p = "prev_at B N (Suc k)"
  have t: "is_thread B N ?t" by (rule ring_at_thread[OF assms(2)])
  note w = waits_on_pos[OF assms(2,1) t]
  have "Suc k mod (B + N) = (ring_pos B N ?p + 1) mod (B + N)"
    using ring_at_iff[OF assms(2) t, of "Suc k"] w by simp
  moreover have "ring_pos B N ?p < B + N" using ring_pos_less[OF assms(2)] w by blast
  ultimately have "k mod (B + N) = ring_pos B N ?p"
    by (simp add: mod_Suc split: if_splits)
  then show ?thesis using ring_at_iff[OF assms(2), of B ?p k] w by simp
qed

lemma prev_at_0:
  assumes "0 < B" "0 < N"
  shows "prev_at B N 0 = Customer 0"
proof -
  have "ring_at B N 0 = (if N = 1 then Worker 0 else Customer 1)"
    using assms by (auto simp: ring_at_def ring_order_def nth_append upt_rec[of 0])
  then show ?thesis using assms by auto
qed

lemma waits_on_inj:
  assumes "0 < B" "0 < N" "is_thread B N t" "is_thread B N u" "waits_on B N t = waits_on B N u"
  shows "t = u"
  using waits_on_pos[OF assms(2,1,3)] waits_on_pos[OF assms(2,1,4)] assms(5)
    ring_order_pos[OF assms(2,3)] ring_order_pos[OF assms(2,4)] by metis

section \<open>Any schedule\<close>

locale token_ring =
  fixes body :: "thread \<Rightarrow> 's \<Rightarrow> 's result" and stop :: "'s \<Rightarrow> bool" and nB nN :: "'s \<Rightarrow> nat" and inv :: "nat \<Rightarrow> 's \<Rightarrow> bool"
  assumes ring_size: "inv k s \<Longrightarrow> 0 < nB s \<and> 0 < nN s"
    and turn: "inv k s \<Longrightarrow> \<exists>s'. body (ring_at (nB s) (nN s) k) s = Inr s' \<and> inv (Suc k) s' \<and> nB s' = nB s \<and> nN s' = nN s"
begin

lemma run_inv:
  assumes "inv 0 s"
  shows "\<exists>s'. ring_run body (nB s) (nN s) k s = Inr s' \<and> inv k s' \<and> nB s' = nB s \<and> nN s' = nN s"
proof (induction k)
  case (Suc k)
  then obtain s' where "ring_run body (nB s) (nN s) k s = Inr s'" "inv k s'" "nB s' = nB s" "nN s' = nN s" by blast
  then show ?case using turn[of k s'] by auto
qed (use assms in simp)

text \<open>Turn \<open>k\<close> is next or under way; no thread but that of the turn is past its wait.\<close>

definition token_inv :: "'s \<Rightarrow> nat \<Rightarrow> 's ring \<Rightarrow> bool" where
  "token_inv s k m \<longleftrightarrow>
     (let B = nB s; N = nN s; t = ring_at B N k in
      (\<forall>u. critical (pc m u) \<longrightarrow> u = t)
      \<and> sems m = (if critical (pc m t) then (\<lambda>_. 0) else (\<lambda>_. 0)(prev_at B N k := 1))
      \<and> sem_lock m = (if pc m t = Inside then 0 else 1)
      \<and> ring_run body B N (if pc m t = AtPost then Suc k else k) s = Inr (data m))"

lemma token_boot:
  assumes "inv 0 s"
  shows "token_inv s 0 (ring_boot s)"
  using prev_at_0[of "nB s" "nN s"] ring_size[OF assms] by (simp add: token_inv_def ring_boot_def Let_def)

lemma token_invD:
  assumes "token_inv s k m"
  shows "critical (pc m v) \<Longrightarrow> v = ring_at (nB s) (nN s) k"
    "sems m = (if critical (pc m (ring_at (nB s) (nN s) k)) then (\<lambda>_. 0) else (\<lambda>_. 0)(prev_at (nB s) (nN s) k := 1))"
    "sem_lock m = (if pc m (ring_at (nB s) (nN s) k) = Inside then 0 else 1)"
    "ring_run body (nB s) (nN s) (if pc m (ring_at (nB s) (nN s) k) = AtPost then Suc k else k) s = Inr (data m)"
  using assms by (auto simp: token_inv_def Let_def)

text \<open>A step outside the turn.\<close>

lemma token_keep:
  assumes "token_inv s k m" "\<not> critical c" "\<not> critical (pc m u)"
  shows "token_inv s k (m\<lparr>pc := (pc m)(u := c), thread_closed := n\<rparr>)"
  using assms by (cases "u = ring_at (nB s) (nN s) k") (auto simp: token_inv_def Let_def)

text \<open>The thread of the turn takes the token, takes the lock, runs its body and hands the token on.\<close>

lemma token_wait:
  assumes inv: "token_inv s k m" and s: "inv 0 s" and u: "is_thread (nB s) (nN s) u" "pc m u = AtWait" "sems m (waits_on (nB s) (nN s) u) \<noteq> 0"
  shows "token_inv s k (m\<lparr>sems := (sems m)(waits_on (nB s) (nN s) u := sems m (waits_on (nB s) (nN s) u) - 1), pc := (pc m)(u := AtLock)\<rparr>)"
proof -
  note I = token_invD[OF inv] and BN = ring_size[OF s]
  have nc: "\<not> critical (pc m (ring_at (nB s) (nN s) k))" and w: "waits_on (nB s) (nN s) u = prev_at (nB s) (nN s) k"
    using I(2) u(3) by (auto split: if_splits)
  then have "u = ring_at (nB s) (nN s) k"
    using waits_on_inj[OF conjunct1[OF BN] conjunct2[OF BN] u(1)] ring_at_thread[OF conjunct2[OF BN]] by blast
  then show ?thesis using I nc w u(2) by (auto simp: token_inv_def Let_def fun_eq_iff)
qed

lemma token_lock:
  assumes inv: "token_inv s k m" and u: "pc m u = AtLock"
  shows "sem_lock m = 1" "token_inv s k (m\<lparr>sem_lock := sem_lock m - 1, pc := (pc m)(u := Inside)\<rparr>)"
  using token_invD[OF inv] token_invD(1)[OF inv, of u] u by (auto simp: token_inv_def Let_def)

lemma token_body:
  assumes inv: "token_inv s k m" and s: "inv 0 s" and u: "pc m u = Inside"
  obtains s' where "body u (data m) = Inr s'" "token_inv s k (m\<lparr>data := s', sem_lock := sem_lock m + 1, pc := (pc m)(u := AtPost)\<rparr>)"
proof -
  note I = token_invD[OF inv]
  have ut: "u = ring_at (nB s) (nN s) k" using I(1) u by blast
  then have "ring_run body (nB s) (nN s) (Suc k) s = body u (data m)" using I(4) u by simp
  then obtain s' where s': "body u (data m) = Inr s'" "ring_run body (nB s) (nN s) (Suc k) s = Inr s'" using run_inv[OF s, of "Suc k"] by metis
  define m' where "m' = m\<lparr>data := s', sem_lock := sem_lock m + 1, pc := (pc m)(u := AtPost)\<rparr>"
  have m': "pc m' = (pc m)(ring_at (nB s) (nN s) k := AtPost)" "sems m' = (\<lambda>_. 0)" "sem_lock m' = 1" "data m' = s'"
    using I(2,3) u ut by (simp_all add: m'_def)
  have "token_inv s k m'"
    unfolding token_inv_def Let_def m' using I(1) s'(2) by (auto simp del: ring_run.simps)
  then show ?thesis using that s'(1) by (simp add: m'_def)
qed

lemma token_post:
  assumes inv: "token_inv s k m" and s: "inv 0 s" and u: "pc m u = AtPost"
  shows "token_inv s (Suc k) (m\<lparr>sems := (sems m)(u := sems m u + 1), pc := (pc m)(u := AtTest)\<rparr>)"
proof -
  note I = token_invD[OF inv] and BN = ring_size[OF s]
  have ut: "u = ring_at (nB s) (nN s) k" using I(1) u by blast
  define m' where "m' = m\<lparr>sems := (sems m)(u := sems m u + 1), pc := (pc m)(u := AtTest)\<rparr>"
  have m': "pc m' = (pc m)(ring_at (nB s) (nN s) k := AtTest)" "sems m' = (\<lambda>_. 0)(ring_at (nB s) (nN s) k := 1)" "sem_lock m' = 1" "data m' = data m"
    using I(2,3) u ut by (simp_all add: m'_def)
  have nc: "\<not> critical (pc m' v)" for v using I(1)[of v] by (auto simp: m'(1))
  have s': "ring_run body (nB s) (nN s) (Suc k) s = Inr (data m')" using I(4) u ut m'(4) by simp
  have "token_inv s (Suc k) m'"
    unfolding token_inv_def Let_def prev_at_Suc[OF conjunct1[OF BN] conjunct2[OF BN]] using nc m'(2,3) s' by (simp del: ring_run.simps)
  then show ?thesis by (simp only: m'_def)
qed

text \<open>One step of one thread keeps the turn or ends it.\<close>

lemma token_step:
  assumes inv: "token_inv s k m" and s: "inv 0 s" and u: "is_thread (nB s) (nN s) u"
  shows "\<exists>m' k'. ring_step body stop nB nN u m = Inr m' \<and> token_inv s k' m'"
proof -
  have sz: "nB (data m) = nB s" "nN (data m) = nN s" using run_inv[OF s] token_invD(4)[OF inv] by (metis sum.inject(2))+
  show ?thesis
  proof (cases "pc m u")
    case AtTest
    then show ?thesis using token_keep[OF inv, of "if stop (data m) then AtExit else AtWait" u "thread_closed m"] by (auto simp: ring_step_def)
  next
    case AtExit
    then show ?thesis using token_keep[OF inv, of "Exiting (thread_closed m)" u "thread_closed m"] by (auto simp: ring_step_def)
  next
    case (Exiting n)
    then have "ring_step body stop nB nN u m = Inr (m\<lparr>pc := (pc m)(u := Gone), thread_closed := n + 1\<rparr>)" by (simp add: ring_step_def)
    then show ?thesis using Exiting token_keep[OF inv, of Gone u "n + 1"] by auto
  next
    case AtWait
    then show ?thesis using token_wait[OF inv s u] inv sz by (cases "sems m (waits_on (nB s) (nN s) u) = 0") (auto simp: ring_step_def Let_def)
  next
    case AtLock
    then show ?thesis using token_lock[OF inv] by (auto simp: ring_step_def)
  next
    case Inside
    then show ?thesis using token_body[OF inv s] by (force simp: ring_step_def)
  next
    case AtPost
    then show ?thesis using token_post[OF inv s] by (auto simp: ring_step_def)
  qed (use inv in \<open>auto simp: ring_step_def\<close>)
qed

lemma schedule_token:
  assumes s: "inv 0 s" and sched: "\<forall>u \<in> set sched. is_thread (nB s) (nN s) u" and inv: "token_inv s k m"
  shows "\<exists>m' k'. for_each (ring_step body stop nB nN) sched m = Inr m' \<and> token_inv s k' m'"
  using sched inv
proof (induction sched arbitrary: k m)
  case (Cons u us)
  then obtain m' k' where "ring_step body stop nB nN u m = Inr m'" "token_inv s k' m'" using token_step[OF Cons.prems(2) s, of u] by auto
  then show ?case using Cons by simp
qed auto

text \<open>
  Every schedule computes the sequential run up to some turn, with at most one thread between its waits and its
  posts.
\<close>

lemma schedule_sequential:
  assumes s: "inv 0 s" and sched: "\<forall>u \<in> set sched. is_thread (nB s) (nN s) u"
  shows "\<exists>m k. for_each (ring_step body stop nB nN) sched (ring_boot s) = Inr m \<and> ring_run body (nB s) (nN s) k s = Inr (data m)
    \<and> inv k (data m) \<and> (\<forall>u v. critical (pc m u) \<longrightarrow> critical (pc m v) \<longrightarrow> u = v)"
proof -
  obtain m k where m: "for_each (ring_step body stop nB nN) sched (ring_boot s) = Inr m" "token_inv s k m"
    using schedule_token[OF s sched token_boot[OF s]] by blast
  obtain k' where "ring_run body (nB s) (nN s) k' s = Inr (data m)" using token_invD(4)[OF m(2)] by blast
  moreover then have "inv k' (data m)" using run_inv[OF s, of k'] by simp
  ultimately show ?thesis using m(1) token_invD(1)[OF m(2)] by metis
qed

end

section \<open>Fair schedules\<close>

text \<open>
  A schedule is fair in rounds: each round has steps of threads only, and of each thread at least one. How far the thread of the turn has come
  in its pass of the loop, and that no thread has left its loop.
\<close>

definition fair_round :: "nat \<Rightarrow> nat \<Rightarrow> thread list \<Rightarrow> bool" where
  "fair_round B N r \<longleftrightarrow> (\<forall>u \<in> set r. is_thread B N u) \<and> set (ring_order B N) \<subseteq> set r"

fun phase :: "tpc \<Rightarrow> nat" where
  "phase AtWait = 1"
| "phase AtLock = 2"
| "phase Inside = 3"
| "phase AtPost = 4"
| "phase c = 0"

lemma phase_le: "phase c \<le> 4"
  by (cases c) simp_all

definition alive :: "'s ring \<Rightarrow> bool" where
  "alive m \<longleftrightarrow> (\<forall>u. pc m u = AtTest \<or> pc m u = AtWait \<or> critical (pc m u))"

locale stopping_ring = token_ring +
  assumes stop_stays: "inv k s \<Longrightarrow> stop s \<Longrightarrow> body (ring_at (nB s) (nN s) k) s = Inr s' \<Longrightarrow> stop s'"
begin

lemma token_sizes:
  assumes "token_inv s k m" "inv 0 s"
  shows "nB (data m) = nB s" "nN (data m) = nN s"
  using run_inv[OF assms(2)] token_invD(4)[OF assms(1)] by (metis sum.inject(2))+

text \<open>Once the test holds, it holds after every step.\<close>

lemma stopped_step:
  assumes inv: "token_inv s k m" and s: "inv 0 s" and u: "is_thread (nB s) (nN s) u" and st: "stop (data m)"
  shows "\<exists>m' k'. ring_step body stop nB nN u m = Inr m' \<and> token_inv s k' m' \<and> stop (data m')"
proof -
  obtain m' k' where m': "ring_step body stop nB nN u m = Inr m'" "token_inv s k' m'" using token_step[OF inv s u] by blast
  have "stop (data m')"
  proof (cases "pc m u = Inside")
    case True
    then have t: "u = ring_at (nB s) (nN s) k" using token_invD(1)[OF inv] by blast
    then have "inv k (data m)" using run_inv[OF s, of k] token_invD(4)[OF inv] True by auto
    moreover have "body u (data m) = Inr (data m')" using m'(1) True by (auto simp: ring_step_def bnd_eq_Inr)
    ultimately show ?thesis using stop_stays[of k "data m" "data m'"] st t token_sizes[OF inv s] by simp
  next
    case False
    then have "data m' = data m" using m'(1) by (auto simp: ring_step_def Let_def split: tpc.splits if_splits)
    then show ?thesis using st by simp
  qed
  then show ?thesis using m' by blast
qed

text \<open>A thread whose turn it is not leaves the turn where it is.\<close>

lemma other_step:
  assumes inv: "token_inv s k m" and s: "inv 0 s" and u: "is_thread (nB s) (nN s) u" "u \<noteq> ring_at (nB s) (nN s) k"
    and st: "\<not> stop (data m)" "alive m"
  shows "\<exists>m'. ring_step body stop nB nN u m = Inr m' \<and> token_inv s k m' \<and> data m' = data m \<and> alive m'
    \<and> pc m' (ring_at (nB s) (nN s) k) = pc m (ring_at (nB s) (nN s) k)"
proof -
  note BN = ring_size[OF s]
  have "pc m u = AtTest \<or> pc m u = AtWait" using st(2) token_invD(1)[OF inv, of u] u(2) by (auto simp: alive_def)
  then show ?thesis
  proof
    assume p: "pc m u = AtTest"
    then have "token_inv s k (m\<lparr>pc := (pc m)(u := AtWait)\<rparr>)" using token_keep[OF inv, of AtWait u "thread_closed m"] by simp
    then show ?thesis using p st u(2) by (auto simp: ring_step_def alive_def)
  next
    assume p: "pc m u = AtWait"
    have "waits_on (nB s) (nN s) u \<noteq> prev_at (nB s) (nN s) k"
      using waits_on_inj[OF conjunct1[OF BN] conjunct2[OF BN] u(1)] ring_at_thread[OF conjunct2[OF BN]] u(2) by blast
    then have "sems m (waits_on (nB s) (nN s) u) = 0" using token_invD(2)[OF inv] by (simp split: if_splits)
    then show ?thesis using p inv st(2) token_sizes[OF inv s] by (simp add: ring_step_def)
  qed
qed

text \<open>The thread whose turn it is goes on to its next operation.\<close>

lemma turn_step:
  assumes inv: "token_inv s k m" and s: "inv 0 s" and u: "u = ring_at (nB s) (nN s) k" and st: "\<not> stop (data m)" "alive m"
  shows "\<exists>m' k'. ring_step body stop nB nN u m = Inr m' \<and> token_inv s k' m' \<and> alive m'
    \<and> 5 * k + phase (pc m u) < 5 * k' + phase (pc m' (ring_at (nB s) (nN s) k'))"
proof -
  have th: "is_thread (nB s) (nN s) u" using ring_at_thread ring_size[OF s] u by simp
  have found: ?thesis if "token_inv s k' m'" "pc m' = (pc m)(u := c)" "c = AtTest \<or> c = AtWait \<or> critical c"
      "ring_step body stop nB nN u m = Inr m'" "k' = k \<and> phase (pc m u) < phase c \<or> k' = Suc k" for m' k' c
  proof -
    have "alive m'" using st(2) that(2,3) by (auto simp: alive_def)
    moreover have "5 * k + phase (pc m u) < 5 * k' + phase (pc m' (ring_at (nB s) (nN s) k'))"
      using that(2,5) u phase_le[of "pc m u"] by auto
    ultimately show ?thesis using that(1,4) by blast
  qed
  consider "pc m u = AtTest" | "pc m u = AtWait" | "pc m u = AtLock" | "pc m u = Inside" | "pc m u = AtPost" using st(2) by (auto simp: alive_def)
  then show ?thesis
  proof cases
    case 1
    then have "token_inv s k (m\<lparr>pc := (pc m)(u := AtWait)\<rparr>)" using token_keep[OF inv, of AtWait u "thread_closed m"] by simp
    then show ?thesis by (rule found[where c = AtWait]) (use 1 st in \<open>simp_all add: ring_step_def\<close>)
  next
    case 2
    then have w: "sems m (waits_on (nB s) (nN s) u) \<noteq> 0" using token_invD(2)[OF inv] u by simp
    show ?thesis
      by (rule found[OF token_wait[OF inv s th 2 w], where c = AtLock]) (use 2 w token_sizes[OF inv s] in \<open>simp_all add: ring_step_def Let_def\<close>)
  next
    case 3
    show ?thesis by (rule found[OF token_lock(2)[OF inv 3], where c = Inside]) (use 3 token_lock(1)[OF inv 3] in \<open>simp_all add: ring_step_def\<close>)
  next
    case 4
    obtain s' where s': "body u (data m) = Inr s'" "token_inv s k (m\<lparr>data := s', sem_lock := sem_lock m + 1, pc := (pc m)(u := AtPost)\<rparr>)"
      using token_body[OF inv s 4] .
    show ?thesis by (rule found[OF s'(2), where c = AtPost]) (use 4 s'(1) in \<open>simp_all add: ring_step_def\<close>)
  next
    case 5
    show ?thesis by (rule found[OF token_post[OF inv s 5], where c = AtTest]) (use 5 in \<open>simp_all add: ring_step_def\<close>)
  qed
qed

text \<open>Either the test holds, or turn and phase together have come at least to \<open>n\<close>; a fair round brings them further.\<close>

definition progress :: "'a \<Rightarrow> nat \<Rightarrow> 'a ring \<Rightarrow> bool" where
  "progress s n m \<longleftrightarrow> (\<exists>k. token_inv s k m \<and> (stop (data m) \<or> alive m \<and> n \<le> 5 * k + phase (pc m (ring_at (nB s) (nN s) k))))"

lemma progressI:
  "token_inv s k m \<Longrightarrow> alive m \<Longrightarrow> n \<le> 5 * k + phase (pc m (ring_at (nB s) (nN s) k)) \<Longrightarrow> progress s n m"
  unfolding progress_def by blast

lemma progress_step:
  assumes p: "progress s n m" and s: "inv 0 s" and u: "is_thread (nB s) (nN s) u"
  shows "\<exists>m'. ring_step body stop nB nN u m = Inr m' \<and> progress s n m'"
proof -
  obtain k where k: "token_inv s k m" "stop (data m) \<or> alive m \<and> n \<le> 5 * k + phase (pc m (ring_at (nB s) (nN s) k))"
    using p by (auto simp: progress_def)
  show ?thesis
  proof (cases "stop (data m)")
    case True
    then show ?thesis using stopped_step[OF k(1) s u] by (auto simp: progress_def)
  next
    case False
    then have a: "alive m" "n \<le> 5 * k + phase (pc m (ring_at (nB s) (nN s) k))" using k(2) by auto
    show ?thesis
    proof (cases "u = ring_at (nB s) (nN s) k")
      case True
      then show ?thesis using turn_step[OF k(1) s True False a(1)] a(2) by (metis less_imp_le order_trans progressI)
    next
      case other: False
      show ?thesis using other_step[OF k(1) s u other False a(1)] a(2) by (metis progressI)
    qed
  qed
qed

lemma progress_steps:
  assumes "inv 0 s" "\<forall>u \<in> set sched. is_thread (nB s) (nN s) u" "progress s n m"
  shows "\<exists>m'. for_each (ring_step body stop nB nN) sched m = Inr m' \<and> progress s n m'"
  using assms(2,3)
proof (induction sched arbitrary: m)
  case (Cons u us)
  then obtain m1 where "ring_step body stop nB nN u m = Inr m1" "progress s n m1" using progress_step[OF _ assms(1), of n m u] by auto
  then show ?case using Cons by simp
qed simp

lemma progress_turn:
  assumes s: "inv 0 s" and sched: "\<forall>u \<in> set sched. is_thread (nB s) (nN s) u" and t: "ring_at (nB s) (nN s) k \<in> set sched"
    and k: "token_inv s k m" "alive m" "\<not> stop (data m)" "n \<le> 5 * k + phase (pc m (ring_at (nB s) (nN s) k))"
  shows "\<exists>m'. for_each (ring_step body stop nB nN) sched m = Inr m' \<and> progress s (Suc n) m'"
  using sched t k
proof (induction sched arbitrary: m)
  case (Cons u us)
  show ?case
  proof (cases "u = ring_at (nB s) (nN s) k")
    case True
    then obtain m1 where "ring_step body stop nB nN u m = Inr m1" "progress s (Suc n) m1"
      using turn_step[OF Cons.prems(3) s True Cons.prems(5,4)] Cons.prems(6) by (metis Suc_leI le_less_trans progressI)
    then show ?thesis using progress_steps[OF s, of us "Suc n" m1] Cons.prems(1) by simp
  next
    case False
    then obtain m1 where m1: "ring_step body stop nB nN u m = Inr m1" "token_inv s k m1" "data m1 = data m" "alive m1"
      "pc m1 (ring_at (nB s) (nN s) k) = pc m (ring_at (nB s) (nN s) k)"
      using other_step[OF Cons.prems(3) s _ False Cons.prems(5,4)] Cons.prems(1) by auto
    then show ?thesis using Cons.IH[of m1] Cons.prems False by simp
  qed
qed simp

lemma progress_round:
  assumes s: "inv 0 s" and r: "fair_round (nB s) (nN s) r" and p: "progress s n m"
  shows "\<exists>m'. for_each (ring_step body stop nB nN) r m = Inr m' \<and> progress s (Suc n) m'"
proof -
  have r': "\<forall>u \<in> set r. is_thread (nB s) (nN s) u" using r by (simp add: fair_round_def)
  have t: "ring_at (nB s) (nN s) k \<in> set r" for k
  proof -
    have "ring_at (nB s) (nN s) k \<in> set (ring_order (nB s) (nN s))" using ring_size[OF s] by (simp add: ring_at_def)
    then show ?thesis using r by (auto simp: fair_round_def)
  qed
  show ?thesis
  proof (cases "stop (data m)")
    case True
    then have "progress s (Suc n) m" using p by (auto simp: progress_def)
    then show ?thesis using progress_steps[OF s r'] by blast
  next
    case False
    then show ?thesis using p progress_turn[OF s r' t] by (auto simp: progress_def)
  qed
qed

text \<open>If the sequential run comes to satisfy the test, so does every run of the threads that is fair for long enough.\<close>

lemma fair_rounds_stop:
  assumes s: "inv 0 s" and K: "\<And>k s'. K \<le> k \<Longrightarrow> ring_run body (nB s) (nN s) k s = Inr s' \<Longrightarrow> stop s'"
    and r: "\<forall>r \<in> set rounds. fair_round (nB s) (nN s) r" and len: "5 * K \<le> length rounds"
  shows "\<exists>m. for_each (ring_step body stop nB nN) (concat rounds) (ring_boot s) = Inr m \<and> stop (data m)"
proof -
  have rounds: "\<exists>m'. for_each (ring_step body stop nB nN) (concat rs) m = Inr m' \<and> progress s (n + length rs) m'"
    if "\<forall>r \<in> set rs. fair_round (nB s) (nN s) r" "progress s n m" for rs n m
    using that
  proof (induction rs arbitrary: n m)
    case (Cons r rs)
    then obtain m1 where m1: "for_each (ring_step body stop nB nN) r m = Inr m1" "progress s (Suc n) m1" using progress_round[OF s, of r n m] by auto
    then show ?case using Cons.IH[OF _ m1(2)] Cons.prems(1) by (simp add: for_each_append)
  qed auto
  have "progress s 0 (ring_boot s)" by (rule progressI[OF token_boot[OF s]]) (simp_all add: alive_def ring_boot_def)
  from rounds[OF r this] obtain m where m: "for_each (ring_step body stop nB nN) (concat rounds) (ring_boot s) = Inr m"
    "progress s (length rounds) m" by auto
  obtain k where k: "token_inv s k m" "stop (data m) \<or> length rounds \<le> 5 * k + phase (pc m (ring_at (nB s) (nN s) k))"
    using m(2) by (auto simp: progress_def)
  have "stop (data m)"
  proof (rule ccontr)
    assume "\<not> stop (data m)"
    then have "K \<le> k" using k(2) len phase_le[of "pc m (ring_at (nB s) (nN s) k)"] by simp
    then have "stop (data m)" using K[of _ "data m"] token_invD(4)[OF k(1)] by (metis le_SucI)
    then show False using \<open>\<not> stop (data m)\<close> by simp
  qed
  then show ?thesis using m(1) by blast
qed

end

end
