(* ===== verification/Cafe.thy ===== *)
theory Cafe
  imports Token_Ring
begin

text \<open>
  The cafe simulation, \<^verbatim>\<open>src/concurrency/1.c\<close>: one thread per barista and per customer, passing a
  token round a ring of semaphores.

  The bodies of the two thread functions are state transformers (\<open>barista_body\<close>, \<open>customer_body\<close>);
  \<open>tstep\<close> is one step of one thread of the whole program, semaphores and the unlocked reads and
  writes included, so that a schedule is a list of thread names. \<open>sim\<close> is the sequential program
  the ring is meant to enforce: the bodies one after the other, round after round.

  The clock counts seconds; it and the times computed from it are unbounded integers, which agrees
  with C as long as the simulation is shorter than \<open>INT_MAX\<close> seconds. What the threads print is not
  part of the state; \<open>sleep(1)\<close> only slows the program down.
\<close>

section \<open>Data\<close>

definition MAX_COFFEE_TYPES :: nat where
  "MAX_COFFEE_TYPES = 10"

definition MAX_COFFEE_NAME :: nat where
  "MAX_COFFEE_NAME = 20"

definition MAX_BARISTAS :: nat where
  "MAX_BARISTAS = 100"

definition MAX_CUSTOMERS :: nat where
  "MAX_CUSTOMERS = 100"

record coffee_s =
  coffee_name :: string
  time_to_make :: int

record customer_s =
  corder_id :: nat
  customer_id :: nat
  arrival_time :: int
  departure_time :: int
  tolerance_time :: int
  coffee :: coffee_s

record orders_s =
  order_id :: nat
  taken_by :: int  \<comment> \<open>the field \<open>barista_id\<close>: -1 when no barista has the order\<close>
  customer :: customer_s
  is_taken_up :: int
  is_completed :: int
  is_customer_present :: int
  is_given_to_customer :: int
  is_to_be_considered :: int
  order_printed :: int

record barista_s =
  barista_id :: nat
  coffee_wasted :: int
  is_free :: int
  border :: "nat option"  \<comment> \<open>the pointer \<open>order\<close> into the array of orders\<close>

record cafe =
  cticks :: int
  considered :: int  \<comment> \<open>\<open>is_to_be_considered_counter\<close>\<close>
  customers :: "customer_s list"
  orders :: "orders_s list"
  baristas :: "barista_s list"

abbreviation cafe_N :: "cafe \<Rightarrow> nat" where
  "cafe_N s \<equiv> length (customers s)"

abbreviation cafe_B :: "cafe \<Rightarrow> nat" where
  "cafe_B s \<equiv> length (baristas s)"

section \<open>The bodies of the threads\<close>

text \<open>The search for an order to prepare: the first that is waiting and old enough.\<close>

definition takeable :: "cafe \<Rightarrow> nat \<Rightarrow> bool" where
  "takeable s i \<longleftrightarrow> is_to_be_considered (orders s ! i) = 1 \<and> taken_by (orders s ! i) = -1
     \<and> arrival_time (customer (orders s ! i)) + 1 \<le> cticks s"

definition barista_takes :: "nat \<Rightarrow> cafe \<Rightarrow> cafe" where
  "barista_takes b s = (case find (takeable s) [0..<cafe_N s] of
     None \<Rightarrow> s
   | Some i \<Rightarrow> s\<lparr>orders := (orders s)[i := (orders s ! i)\<lparr>taken_by := int b, is_taken_up := cticks s\<rparr>],
       baristas := (baristas s)[b := (baristas s ! b)\<lparr>border := Some i, is_free := 0\<rparr>]\<rparr>)"

definition barista_finishes :: "nat \<Rightarrow> nat \<Rightarrow> cafe \<Rightarrow> cafe" where
  "barista_finishes b i s =
     (let od = (orders s ! i)\<lparr>is_completed := 1\<rparr>;
          ba = (baristas s ! b)\<lparr>is_free := 1\<rparr>;
          served = is_customer_present od = 1;
          od = (if served then od\<lparr>is_given_to_customer := 1, is_customer_present := 0\<rparr> else od);
          ba = (if served then ba else ba\<lparr>coffee_wasted := coffee_wasted ba + 1\<rparr>) in
      s\<lparr>orders := (orders s)[i := od\<lparr>is_to_be_considered := 0\<rparr>], considered := considered s + 1,
        baristas := (baristas s)[b := ba\<lparr>border := None\<rparr>]\<rparr>)"

text \<open>What \<open>barista_func\<close> does between its two waits and its two posts.\<close>

definition barista_body :: "nat \<Rightarrow> cafe \<Rightarrow> cafe result" where
  "barista_body b s =
     (if \<not> b < cafe_B s then Inl (Fault ''barista'')
      else if is_free (baristas s ! b) = 1 then Inr (barista_takes b s)
      else if is_free (baristas s ! b) = 0 then
        (case border (baristas s ! b) of
           None \<Rightarrow> Inl (Fault ''order'')
         | Some i \<Rightarrow>
             if \<not> i < length (orders s) then Inl (Fault ''order'')
             else if is_completed (orders s ! i) = 1 then
               Inr (s\<lparr>baristas := (baristas s)[b := (baristas s ! b)\<lparr>is_free := 1, border := None\<rparr>]\<rparr>)
             else if cticks s - is_taken_up (orders s ! i) = time_to_make (coffee (customer (orders s ! i)))
             then Inr (barista_finishes b i s)
             else Inr s)
      else Inr s)"

definition customer_leaves :: "nat \<Rightarrow> cafe \<Rightarrow> cafe" where
  "customer_leaves oid s =
     (let od = (orders s ! oid)\<lparr>is_customer_present := 0\<rparr> in
      if is_completed od = 0 then
        let od = od\<lparr>customer := (customer od)\<lparr>departure_time := cticks s\<rparr>\<rparr> in
        if taken_by od = -1
        then s\<lparr>orders := (orders s)[oid := od\<lparr>is_to_be_considered := 0\<rparr>], considered := considered s + 1\<rparr>
        else s\<lparr>orders := (orders s)[oid := od]\<rparr>
      else s\<lparr>orders := (orders s)[oid := od]\<rparr>)"

definition customer_receives :: "nat \<Rightarrow> cafe \<Rightarrow> cafe" where
  "customer_receives oid s =
     (let od = orders s ! oid in
      s\<lparr>orders := (orders s)[oid := od\<lparr>customer := (customer od)\<lparr>departure_time :=
          is_taken_up od + time_to_make (coffee (customer od))\<rparr>, order_printed := 1\<rparr>]\<rparr>)"

text \<open>What \<open>customer_func\<close> does between its two waits and its two posts.\<close>

definition customer_body :: "nat \<Rightarrow> cafe \<Rightarrow> cafe result" where
  "customer_body c s =
     (if \<not> c < cafe_N s then Inl (Fault ''customer'')
      else
        let cu = customers s ! c; oid = corder_id cu in
        if \<not> oid < length (orders s) then Inl (Fault ''orders'')
        else
          let s = (if cticks s = arrival_time cu + tolerance_time cu + 1 then customer_leaves oid s else s);
              s = (if is_given_to_customer (orders s ! oid) = 1 \<and> order_printed (orders s ! oid) = 0
                   then customer_receives oid s else s) in
          Inr (if customer_id cu = 0 then s\<lparr>cticks := cticks s + 1\<rparr> else s))"

section \<open>Threads and semaphores\<close>

abbreviation Barista :: "nat \<Rightarrow> thread" where
  "Barista \<equiv> Worker"

fun thread_body :: "thread \<Rightarrow> cafe \<Rightarrow> cafe result" where
  "thread_body (Barista b) = barista_body b"
| "thread_body (Customer c) = customer_body c"

text \<open>The loop of the threads is that of \<open>Token_Ring\<close>, with this test at its top.\<close>

definition cafe_done :: "cafe \<Rightarrow> bool" where
  "cafe_done s \<longleftrightarrow> considered s = int (cafe_N s)"

definition tstep :: "thread \<Rightarrow> cafe ring \<Rightarrow> cafe ring result" where
  "tstep = ring_step thread_body cafe_done cafe_B cafe_N"

section \<open>Start and end: the function main\<close>

text \<open>
  The input after \<open>scanf\<close>: the number of baristas, the coffee types, and for each customer the name of the
  coffee, the arrival time and the tolerance. A name that is no coffee type leaves the preparation
  time 0 (the arrays are zero-initialised).
\<close>

definition coffee_time :: "coffee_s list \<Rightarrow> string \<Rightarrow> int" where
  "coffee_time types nm = (case find (\<lambda>c. coffee_name c = nm) types of None \<Rightarrow> 0 | Some c \<Rightarrow> time_to_make c)"

definition read_customer :: "coffee_s list \<Rightarrow> nat \<Rightarrow> string \<times> int \<times> int \<Rightarrow> customer_s" where
  "read_customer types i = (\<lambda>(nm, a, tol).
     \<lparr>corder_id = i, customer_id = i, arrival_time = a, departure_time = a + tol, tolerance_time = tol,
      coffee = \<lparr>coffee_name = nm, time_to_make = coffee_time types nm\<rparr>\<rparr>)"

definition new_order :: "nat \<Rightarrow> customer_s \<Rightarrow> orders_s" where
  "new_order i cu = \<lparr>order_id = i, taken_by = -1, customer = cu, is_taken_up = -1, is_completed = 0,
     is_customer_present = 1, is_given_to_customer = 0, is_to_be_considered = 1, order_printed = 0\<rparr>"

definition cafe_fill :: "nat \<Rightarrow> coffee_s list \<Rightarrow> (string \<times> int \<times> int) list \<Rightarrow> cafe" where
  "cafe_fill B types input =
     (let cs = map (\<lambda>i. read_customer types i (input ! i)) [0..<length input] in
      \<lparr>cticks = 0, considered = 0, customers = cs, orders = map (\<lambda>i. new_order i (cs ! i)) [0..<length input],
       baristas = map (\<lambda>b. \<lparr>barista_id = b, coffee_wasted = 0, is_free = 1, border = None\<rparr>) [0..<B]\<rparr>)"

text \<open>
  The arrays have fixed sizes and \<open>main\<close> checks no index: more coffee types, customers or baristas than fit, or a name that with its final NUL
  does not fit into \<open>coffee_name\<close>, is written out of bounds.
\<close>

definition name_fits :: "string \<Rightarrow> bool" where
  "name_fits nm \<longleftrightarrow> length nm < MAX_COFFEE_NAME"

definition cafe_init :: "nat \<Rightarrow> coffee_s list \<Rightarrow> (string \<times> int \<times> int) list \<Rightarrow> cafe result" where
  "cafe_init B types input =
     (if MAX_COFFEE_TYPES < length types \<or> \<not> list_all (\<lambda>c. name_fits (coffee_name c)) types then Inl (Fault ''coffee_types'')
      else if MAX_CUSTOMERS < length input \<or> \<not> list_all (\<lambda>(nm, _). name_fits nm) input then Inl (Fault ''customers'')
      else if MAX_BARISTAS < B then Inl (Fault ''baristas'')
      else Inr (cafe_fill B types input))"

lemma cafe_init_fill: "cafe_init B types input = Inr s \<Longrightarrow> s = cafe_fill B types input"
  by (simp add: cafe_init_def split: if_splits)

text \<open>The threads are created and \<open>main\<close> posts the semaphore of customer 0.\<close>

definition boot :: "cafe \<Rightarrow> cafe ring" where
  "boot = ring_boot"

definition main_over :: "cafe ring \<Rightarrow> bool" where
  "main_over m \<longleftrightarrow> thread_closed m = int (cafe_B (data m) + cafe_N (data m))
     \<and> considered (data m) = int (cafe_N (data m))"

text \<open>The totals \<open>main\<close> prints.\<close>

definition total_wasted :: "cafe \<Rightarrow> int" where
  "total_wasted s = (\<Sum>b\<leftarrow>baristas s. coffee_wasted b)"

definition total_wait :: "cafe \<Rightarrow> int" where
  "total_wait s = (\<Sum>od\<leftarrow>orders s. if is_taken_up od \<noteq> -1 then is_taken_up od - arrival_time (customer od)
     else departure_time (customer od) - arrival_time (customer od))"

section \<open>The order the ring is meant to enforce\<close>

text \<open>The state after the first \<open>k\<close> turns.\<close>

primrec sim :: "cafe \<Rightarrow> nat \<Rightarrow> cafe result" where
  "sim s 0 = Inr s"
| "sim s (Suc k) = bnd (sim s k) (thread_body (ring_at (cafe_B s) (cafe_N s) k))"

lemma sim_ring_run: "sim s k = ring_run thread_body (cafe_B s) (cafe_N s) k s"
  by (induction k) simp_all

end
