(* ===== verification/Cafe_Ring.thy ===== *)
theory Cafe_Ring
  imports Cafe
begin

text \<open>
  The invariant of the sequential cafe \<open>sim\<close>, by turn number: every instant is a turn of the ring,
  \<open>lin tick pos\<close>, so that ``before'' and ``after'' are comparisons of turn numbers. From it: the
  bodies never dereference a bad pointer, and what the counters count.
\<close>

section \<open>Turns\<close>

section \<open>The invariant\<close>

text \<open>The turn at which customer \<open>i\<close> gives up, and the turn at which an order taken is ready.\<close>

definition leave_turn :: "nat \<Rightarrow> customer_s list \<Rightarrow> nat \<Rightarrow> int" where
  "leave_turn B cs i = lin (B + length cs) (arrival_time (cs ! i) + tolerance_time (cs ! i) + 1)
     (ring_pos B (length cs) (Customer i))"

definition ready_turn :: "nat \<Rightarrow> nat \<Rightarrow> orders_s \<Rightarrow> int" where
  "ready_turn B N od = lin (B + N) (is_taken_up od + time_to_make (coffee (customer od)))
     (ring_pos B N (Barista (nat (taken_by od))))"

text \<open>
  Order \<open>i\<close> before turn \<open>k\<close>. Its last three lines are the meaning of the flags: the order is dropped
  when it is completed or when its customer left before a barista took it; the customer is present until
  served or gone; and a completed order went to the customer exactly when it was ready in time.
\<close>

definition order_ok :: "nat \<Rightarrow> customer_s list \<Rightarrow> int \<Rightarrow> nat \<Rightarrow> orders_s \<Rightarrow> bool" where
  "order_ok B cs k i od \<longleftrightarrow>
     arrival_time (customer od) = arrival_time (cs ! i) \<and> tolerance_time (customer od) = tolerance_time (cs ! i)
     \<and> coffee (customer od) = coffee (cs ! i)
     \<and> (taken_by od = -1 \<or> 0 \<le> taken_by od \<and> taken_by od < int B)
     \<and> (is_completed od = 0 \<or> is_completed od = 1)
     \<and> (taken_by od = -1 \<longrightarrow> is_completed od = 0 \<and> is_taken_up od = -1)
     \<and> (taken_by od \<noteq> -1 \<longrightarrow> arrival_time (cs ! i) + 1 \<le> is_taken_up od
           \<and> is_taken_up od \<le> arrival_time (cs ! i) + tolerance_time (cs ! i) + 1)
     \<and> (taken_by od \<noteq> -1 \<and> is_completed od = 0 \<and> 1 \<le> time_to_make (coffee (cs ! i)) \<longrightarrow> k \<le> ready_turn B (length cs) od)
     \<and> (is_completed od = 1 \<longrightarrow> ready_turn B (length cs) od < k)
     \<and> is_to_be_considered od = (if is_completed od = 1 \<or> taken_by od = -1 \<and> leave_turn B cs i < k then 0 else 1)
     \<and> is_customer_present od = (if is_given_to_customer od = 0 \<and> k \<le> leave_turn B cs i then 1 else 0)
     \<and> is_given_to_customer od = (if is_completed od = 1 \<and> ready_turn B (length cs) od \<le> leave_turn B cs i then 1 else 0)"

definition dropped :: "orders_s \<Rightarrow> bool" where
  "dropped od \<longleftrightarrow> is_to_be_considered od = 0"

definition wasted :: "orders_s \<Rightarrow> bool" where
  "wasted od \<longleftrightarrow> is_completed od = 1 \<and> is_given_to_customer od = 0"

definition busy_with :: "cafe \<Rightarrow> nat \<Rightarrow> nat \<Rightarrow> bool" where
  "busy_with s b i \<longleftrightarrow> is_free (baristas s ! b) = 0 \<and> border (baristas s ! b) = Some i"

definition in_progress :: "cafe \<Rightarrow> nat \<Rightarrow> nat \<Rightarrow> bool" where
  "in_progress s b i \<longleftrightarrow> taken_by (orders s ! i) = int b \<and> is_completed (orders s ! i) = 0"

definition cafe_inv :: "nat \<Rightarrow> customer_s list \<Rightarrow> nat \<Rightarrow> cafe \<Rightarrow> bool" where
  "cafe_inv B cs k s \<longleftrightarrow>
     customers s = cs \<and> length (orders s) = length cs \<and> length (baristas s) = B
     \<and> cticks s = int (k div (B + length cs))
     \<and> (\<forall>i < length cs. order_ok B cs (int k) i (orders s ! i))
     \<and> (\<forall>b < B. is_free (baristas s ! b) = 1 \<or> (\<exists>i < length cs. busy_with s b i \<and> in_progress s b i))
     \<and> (\<forall>b < B. \<forall>i < length cs. in_progress s b i \<longrightarrow> busy_with s b i)
     \<and> considered s = cnt dropped (orders s) \<and> total_wasted s = cnt wasted (orders s)"

lemma cafe_invD:
  assumes "cafe_inv B cs k s"
  shows "customers s = cs" "length (orders s) = length cs" "length (baristas s) = B"
    "cticks s = int (k div (B + length cs))"
    "i < length cs \<Longrightarrow> order_ok B cs (int k) i (orders s ! i)"
    "b < B \<Longrightarrow> is_free (baristas s ! b) = 1 \<or> (\<exists>i < length cs. busy_with s b i \<and> in_progress s b i)"
    "b < B \<Longrightarrow> i < length cs \<Longrightarrow> in_progress s b i \<Longrightarrow> busy_with s b i"
    "considered s = cnt dropped (orders s)" "total_wasted s = cnt wasted (orders s)"
  using assms by (auto simp: cafe_inv_def)

text \<open>The input: a ring with at least one barista and one customer, customers numbered in order.\<close>

definition cafe_ok :: "nat \<Rightarrow> customer_s list \<Rightarrow> bool" where
  "cafe_ok B cs \<longleftrightarrow> 0 < B \<and> cs \<noteq> [] \<and> (\<forall>i < length cs. corder_id (cs ! i) = i \<and> customer_id (cs ! i) = i
     \<and> 0 \<le> arrival_time (cs ! i) \<and> 0 \<le> tolerance_time (cs ! i))"

section \<open>One turn\<close>

lemma order_ok_idle:
  assumes "order_ok B cs k i od" "k \<noteq> leave_turn B cs i"
    "taken_by od \<noteq> -1 \<Longrightarrow> is_completed od = 0 \<Longrightarrow> k \<noteq> ready_turn B (length cs) od"
  shows "order_ok B cs (k + 1) i od"
  using assms unfolding order_ok_def by (auto split: if_splits)

text \<open>The turn number of the thread that runs, and the instants it meets.\<close>

lemma leave_turn_customer:
  assumes "i < length cs" "int k = leave_turn B cs i"
  shows "ring_at B (length cs) k = Customer i"
proof -
  have N: "0 < length cs" using assms(1) by auto
  have "int k = lin (B + length cs) (int (k div (B + length cs))) (k mod (B + length cs))" by (simp add: lin_of_nat)
  then have "k mod (B + length cs) = ring_pos B (length cs) (Customer i)"
    using assms N ring_pos_less[OF N, of B "Customer i"] by (simp add: leave_turn_def lin_eq_iff)
  then show ?thesis using ring_at_iff[OF N, of B "Customer i" k] assms(1) by simp
qed

lemma ready_turn_barista:
  assumes "0 < N" "0 \<le> taken_by od" "taken_by od < int B" "int k = ready_turn B N od"
  shows "ring_at B N k = Barista (nat (taken_by od))"
proof -
  have "int k = lin (B + N) (int (k div (B + N))) (k mod (B + N))" by (simp add: lin_of_nat)
  then have "k mod (B + N) = ring_pos B N (Barista (nat (taken_by od)))"
    using assms ring_pos_less[OF assms(1), of B "Barista (nat (taken_by od))"] by (simp add: ready_turn_def lin_eq_iff)
  then show ?thesis using ring_at_iff[OF assms(1), of B "Barista (nat (taken_by od))" k] assms(2,3) by simp
qed

text \<open>An order nobody touches in this turn keeps its invariant.\<close>

lemma order_ok_untouched:
  assumes inv: "cafe_inv B cs k s" and i: "i < length cs"
    and t: "ring_at B (length cs) k \<noteq> Customer i"
    and b: "\<And>b. b < B \<Longrightarrow> ring_at B (length cs) k = Barista b \<Longrightarrow> in_progress s b i \<Longrightarrow>
      int k \<noteq> ready_turn B (length cs) (orders s ! i)"
  shows "order_ok B cs (int (Suc k)) i (orders s ! i)"
proof -
  note ok = cafe_invD(5)[OF inv i]
  have N: "0 < length cs" using i by auto
  have "int k \<noteq> leave_turn B cs i" using leave_turn_customer[OF i] t by blast
  moreover have "int k \<noteq> ready_turn B (length cs) (orders s ! i)"
    if ip: "taken_by (orders s ! i) \<noteq> -1" "is_completed (orders s ! i) = 0"
  proof
    assume eq: "int k = ready_turn B (length cs) (orders s ! i)"
    have r: "0 \<le> taken_by (orders s ! i)" "taken_by (orders s ! i) < int B"
      using ok ip(1) by (auto simp: order_ok_def)
    then have "ring_at B (length cs) k = Barista (nat (taken_by (orders s ! i)))"
      using ready_turn_barista[OF N] eq by blast
    moreover have "nat (taken_by (orders s ! i)) < B" using r by simp
    moreover have "in_progress s (nat (taken_by (orders s ! i))) i" using r ip(2) by (simp add: in_progress_def)
    ultimately show False using b eq by blast
  qed
  ultimately show ?thesis using order_ok_idle[OF ok] by (simp add: add.commute)
qed

text \<open>What the two parts of a customer's turn do to its order.\<close>

definition left_order :: "int \<Rightarrow> orders_s \<Rightarrow> orders_s" where
  "left_order now od = od\<lparr>is_customer_present := 0,
     customer := (if is_completed od = 0 then (customer od)\<lparr>departure_time := now\<rparr> else customer od),
     is_to_be_considered := (if is_completed od = 0 \<and> taken_by od = -1 then 0 else is_to_be_considered od)\<rparr>"

definition received_order :: "orders_s \<Rightarrow> orders_s" where
  "received_order od = od\<lparr>customer := (customer od)\<lparr>departure_time :=
     is_taken_up od + time_to_make (coffee (customer od))\<rparr>, order_printed := 1\<rparr>"

lemma customer_leaves_eq:
  "customer_leaves i s = s\<lparr>orders := (orders s)[i := left_order (cticks s) (orders s ! i)],
     considered := considered s + (if is_completed (orders s ! i) = 0 \<and> taken_by (orders s ! i) = -1 then 1 else 0)\<rparr>"
  by (simp add: customer_leaves_def left_order_def Let_def)

lemma customer_receives_eq: "customer_receives i s = s\<lparr>orders := (orders s)[i := received_order (orders s ! i)]\<rparr>"
  by (simp add: customer_receives_def received_order_def Let_def)

lemma order_ok_leaves:
  assumes "order_ok B cs k i od" "k = leave_turn B cs i"
    "taken_by od \<noteq> -1 \<Longrightarrow> is_completed od = 0 \<Longrightarrow> k \<noteq> ready_turn B (length cs) od"
  shows "order_ok B cs (k + 1) i (left_order now od)"
proof -
  have "ready_turn B (length cs) (left_order now od) = ready_turn B (length cs) od"
    by (simp add: ready_turn_def left_order_def)
  then show ?thesis
    using assms by (cases "is_completed od = 0"; cases "taken_by od = -1") (auto simp: order_ok_def left_order_def)
qed

lemma order_ok_received: "order_ok B cs k i od \<Longrightarrow> order_ok B cs k i (received_order od)"
proof -
  have "ready_turn B (length cs) (received_order od) = ready_turn B (length cs) od"
    by (simp add: ready_turn_def received_order_def)
  then show "order_ok B cs k i od \<Longrightarrow> order_ok B cs k i (received_order od)"
    by (simp add: order_ok_def received_order_def)
qed

text \<open>The customer's turn as one update of its order, of the counter and of the clock.\<close>

definition customer_order :: "int \<Rightarrow> customer_s \<Rightarrow> orders_s \<Rightarrow> orders_s" where
  "customer_order now cu od =
     (let od = (if now = arrival_time cu + tolerance_time cu + 1 then left_order now od else od) in
      if is_given_to_customer od = 1 \<and> order_printed od = 0 then received_order od else od)"

lemma customer_order_keeps [simp]:
  "taken_by (customer_order now cu od) = taken_by od" "is_completed (customer_order now cu od) = is_completed od"
  "is_given_to_customer (customer_order now cu od) = is_given_to_customer od"
  by (simp_all add: customer_order_def left_order_def received_order_def Let_def)

lemma customer_body_eq:
  assumes c: "c < cafe_N s" "corder_id (customers s ! c) = c" "customer_id (customers s ! c) = c" "c < length (orders s)"
    and cu: "cu = customers s ! c"
  shows "customer_body c s = Inr (s\<lparr>orders := (orders s)[c := customer_order (cticks s) cu (orders s ! c)],
    considered := considered s + (if cticks s = arrival_time cu + tolerance_time cu + 1 \<and> is_completed (orders s ! c) = 0
      \<and> taken_by (orders s ! c) = -1 then 1 else 0), cticks := cticks s + (if c = 0 then 1 else 0)\<rparr>)"
proof -
  define s1 where "s1 = (if cticks s = arrival_time cu + tolerance_time cu + 1 then customer_leaves c s else s)"
  define od1 where "od1 = (if cticks s = arrival_time cu + tolerance_time cu + 1 then left_order (cticks s) (orders s ! c) else orders s ! c)"
  have s1: "s1 = s\<lparr>orders := (orders s)[c := od1], considered := considered s
      + (if cticks s = arrival_time cu + tolerance_time cu + 1 \<and> is_completed (orders s ! c) = 0 \<and> taken_by (orders s ! c) = -1 then 1 else 0)\<rparr>"
    by (simp add: s1_def od1_def customer_leaves_eq)
  have "orders s1 ! c = od1" using c(4) by (simp add: s1)
  define s2 where "s2 = (if is_given_to_customer (orders s1 ! c) = 1 \<and> order_printed (orders s1 ! c) = 0
     then customer_receives c s1 else s1)"
  then have "s2 = s1\<lparr>orders := (orders s)[c := customer_order (cticks s) cu (orders s ! c)]\<rparr>"
    using \<open>orders s1 ! c = od1\<close>
    by (simp add: customer_receives_eq customer_order_def Let_def od1_def[symmetric] s1)
  moreover have "customer_body c s = Inr (if c = 0 then s2\<lparr>cticks := cticks s2 + 1\<rparr> else s2)"
    by (simp only: customer_body_def c cu s1_def s2_def Let_def not_True_eq_False if_False)
  ultimately show ?thesis by (simp add: s1)
qed

lemma customer_turn:
  assumes inv: "cafe_inv B cs k s" and ok: "cafe_ok B cs" and c: "c < length cs" and t: "ring_at B (length cs) k = Customer c"
  shows "\<exists>s'. customer_body c s = Inr s' \<and> cafe_inv B cs (Suc k) s'"
proof -
  note D = cafe_invD[OF inv]
  let ?od = "orders s ! c" and ?od' = "customer_order (cticks s) (cs ! c) (orders s ! c)"
  have N: "0 < length cs" using c by auto
  have id: "corder_id (cs ! c) = c" "customer_id (cs ! c) = c" using ok c by (auto simp: cafe_ok_def)
  note oc = D(5)[OF c]
  have p: "ring_pos B (length cs) (Customer c) < B + length cs" using ring_pos_less[OF N] c by simp
  have now: "cticks s = arrival_time (cs ! c) + tolerance_time (cs ! c) + 1 \<longleftrightarrow> int k = leave_turn B cs c"
    using turn_lin[OF N t] D(4) lin_eq_iff[OF p p] by (auto simp: leave_turn_def)
  have nr: "int k \<noteq> ready_turn B (length cs) ?od" if "taken_by ?od \<noteq> -1"
    using ready_turn_barista[OF N, of ?od B k] t oc that by (auto simp: order_ok_def)
  have od': "order_ok B cs (int (Suc k)) c ?od'"
    using order_ok_idle[OF oc _ nr] order_ok_leaves[OF oc _ nr, of "cticks s"] order_ok_received now
    by (auto simp: customer_order_def Let_def add.commute)
  have others: "order_ok B cs (int (Suc k)) i (orders s ! i)" if "i < length cs" "i \<noteq> c" for i
    by (rule order_ok_untouched[OF inv that(1)]) (use t that in auto)
  define s' where "s' = s\<lparr>orders := (orders s)[c := ?od'],
    considered := considered s + (if cticks s = arrival_time (cs ! c) + tolerance_time (cs ! c) + 1 \<and> is_completed ?od = 0
      \<and> taken_by ?od = -1 then 1 else 0), cticks := cticks s + (if c = 0 then 1 else 0)\<rparr>"
  have run: "customer_body c s = Inr s'"
    unfolding s'_def by (rule customer_body_eq) (use c D(1,2) id in auto)
  have "dropped ?od' \<longleftrightarrow> dropped ?od \<or> int k = leave_turn B cs c \<and> is_completed ?od = 0 \<and> taken_by ?od = -1"
    using now by (auto simp: customer_order_def left_order_def received_order_def Let_def dropped_def)
  moreover have "\<not> dropped ?od" if "int k = leave_turn B cs c" "is_completed ?od = 0"
    using oc that by (simp add: order_ok_def dropped_def)
  ultimately have "considered s' = cnt dropped (orders s')"
    using D(2,8) c now by (auto simp: s'_def cnt_update)
  moreover have "in_progress s' b i = in_progress s b i" "busy_with s' b i = busy_with s b i" for b i
    using c D(2) by (cases "i = c"; simp add: in_progress_def busy_with_def s'_def)+
  moreover have "total_wasted s' = cnt wasted (orders s')"
    using D(2,9) c by (simp add: s'_def cnt_update wasted_def total_wasted_def)
  moreover have "order_ok B cs (int (Suc k)) i (orders s' ! i)" if "i < length cs" for i
    using others[OF that] od' c D(2) by (cases "i = c") (auto simp: s'_def)
  moreover have "cticks s' = int (Suc k div (B + length cs))"
    using clock_step[OF N t] D(4) by (simp add: s'_def)
  moreover have "customers s' = cs" "length (orders s') = length cs" "length (baristas s') = B" "baristas s' = baristas s"
    using D(1-3) by (simp_all add: s'_def)
  ultimately have "cafe_inv B cs (Suc k) s'" using D(6,7) unfolding cafe_inv_def by simp
  then show ?thesis using run by blast
qed

text \<open>A barista's turn: it takes an order, finishes one, or only waits.\<close>

lemma cafe_inv_wait:
  assumes inv: "cafe_inv B cs k s" and N: "0 < length cs" and t: "ring_at B (length cs) k = Barista b"
    and nr: "\<And>i. i < length cs \<Longrightarrow> in_progress s b i \<Longrightarrow> int k \<noteq> ready_turn B (length cs) (orders s ! i)"
  shows "cafe_inv B cs (Suc k) s"
proof -
  note D = cafe_invD[OF inv]
  have "order_ok B cs (int (Suc k)) i (orders s ! i)" if "i < length cs" for i
    by (rule order_ok_untouched[OF inv that]) (use t nr that in auto)
  moreover have "Suc k div (B + length cs) = k div (B + length cs)" using clock_step[OF N t] by simp
  ultimately show ?thesis using inv unfolding cafe_inv_def by simp
qed

lemma order_ok_taken:
  assumes od: "order_ok B cs (int k) i od" and i: "i < length cs" and b: "b < B" and t: "ring_at B (length cs) k = Barista b"
    and w: "is_to_be_considered od = 1" "taken_by od = -1" "arrival_time (customer od) + 1 \<le> now"
    and now: "now = int (k div (B + length cs))"
  shows "order_ok B cs (int (Suc k)) i (od\<lparr>taken_by := int b, is_taken_up := now\<rparr>)"
proof -
  have N: "0 < length cs" using i by auto
  let ?L = "B + length cs" and ?od = "od\<lparr>taken_by := int b, is_taken_up := now\<rparr>"
  have p: "ring_pos B (length cs) (Barista b) < ?L" "ring_pos B (length cs) (Customer i) < ?L"
    using ring_pos_less[OF N] b i by (metis is_thread.simps)+
  have k: "int k = lin ?L now (ring_pos B (length cs) (Barista b))" using turn_lin[OF N t] now by simp
  have l: "int k \<le> leave_turn B cs i" "int k \<noteq> leave_turn B cs i"
    using od w(1,2) leave_turn_customer[OF i] t by (auto simp: order_ok_def split: if_splits)
  have "now \<le> arrival_time (cs ! i) + tolerance_time (cs ! i) + 1"
    using l(1) unfolding k leave_turn_def lin_le_iff[OF p] by auto
  moreover have r: "ready_turn B (length cs) ?od = lin ?L (now + time_to_make (coffee (customer od))) (ring_pos B (length cs) (Barista b))"
    by (simp add: ready_turn_def)
  have "1 + int k \<le> ready_turn B (length cs) ?od" if "1 \<le> time_to_make (coffee (cs ! i))"
  proof -
    have "lin ?L now (ring_pos B (length cs) (Barista b)) < ready_turn B (length cs) ?od"
      unfolding r using od that lin_le_iff[OF p(1,1), of "now + time_to_make (coffee (customer od))" now]
      by (simp add: order_ok_def)
    then show ?thesis using k by simp
  qed
  moreover have "is_completed od = 0" "is_given_to_customer od = 0" "is_customer_present od = 1"
    using od w(2) l by (auto simp: order_ok_def)
  ultimately show ?thesis using od w b l unfolding order_ok_def by simp
qed

lemma order_ok_finished:
  assumes od: "order_ok B cs (int k) i od" and i: "i < length cs" and t: "ring_at B (length cs) k = Barista b"
    and w: "is_completed od = 0" "taken_by od = int b" "int k = ready_turn B (length cs) od"
  shows "order_ok B cs (int (Suc k)) i (od\<lparr>is_completed := 1, is_given_to_customer := (if is_customer_present od = 1 then 1 else 0),
    is_customer_present := 0, is_to_be_considered := 0\<rparr>)"
proof -
  have "int k \<noteq> leave_turn B cs i" using leave_turn_customer[OF i] t by auto
  moreover have "ready_turn B (length cs) (od\<lparr>is_completed := 1, is_given_to_customer := x, is_customer_present := 0,
      is_to_be_considered := 0\<rparr>) = ready_turn B (length cs) od" for x
    by (simp add: ready_turn_def)
  ultimately show ?thesis using od w unfolding order_ok_def by simp
qed

lemma barista_takes_turn:
  assumes inv: "cafe_inv B cs k s" and b: "b < B" and t: "ring_at B (length cs) k = Barista b" and N: "0 < length cs"
    and free: "is_free (baristas s ! b) = 1"
  shows "cafe_inv B cs (Suc k) (barista_takes b s)"
proof -
  note D = cafe_invD[OF inv]
  have none: "\<not> in_progress s b i" if "i < length cs" for i
    using D(7)[OF b that] free by (auto simp: busy_with_def)
  show ?thesis
  proof (cases "find (takeable s) [0..<cafe_N s]")
    case None
    then show ?thesis using cafe_inv_wait[OF inv N t] none by (simp add: barista_takes_def)
  next
    case (Some j)
    then have j: "j < length cs" "takeable s j" using D(1) by (auto simp: find_Some_iff)
    let ?od = "(orders s ! j)\<lparr>taken_by := int b, is_taken_up := cticks s\<rparr>"
    define s' where "s' = s\<lparr>orders := (orders s)[j := ?od],
       baristas := (baristas s)[b := (baristas s ! b)\<lparr>border := Some j, is_free := 0\<rparr>]\<rparr>"
    have s': "barista_takes b s = s'" using Some by (simp add: barista_takes_def s'_def)
    have tk: "is_to_be_considered (orders s ! j) = 1" "taken_by (orders s ! j) = -1"
        "arrival_time (customer (orders s ! j)) + 1 \<le> cticks s"
      using j(2) by (auto simp: takeable_def)
    then have c0: "is_completed (orders s ! j) = 0" using D(5)[OF j(1)] by (simp add: order_ok_def)
    have "order_ok B cs (int (Suc k)) i (orders s' ! i)" if "i < length cs" for i
    proof (cases "i = j")
      case True
      then show ?thesis using order_ok_taken[OF D(5)[OF j(1)] j(1) b t tk D(4)] j(1) D(2) by (simp add: s'_def)
    next
      case False
      then show ?thesis
        using order_ok_untouched[OF inv that] t none[OF that] by (auto simp: s'_def)
    qed
    moreover have "in_progress s' b' i \<longleftrightarrow> in_progress s b' i \<and> i \<noteq> j \<or> b' = b \<and> i = j" for b' i
      using j(1) D(2) tk(2) c0 by (auto simp: in_progress_def s'_def nth_list_update)
    moreover have "busy_with s' b' i \<longleftrightarrow> (if b' = b then i = j else busy_with s b' i)" for b' i
      using b D(3) by (auto simp: busy_with_def s'_def nth_list_update)
    moreover have "is_free (baristas s' ! b') = (if b' = b then 0 else is_free (baristas s ! b'))" for b'
      using b D(3) by (simp add: s'_def nth_list_update)
    moreover have "cnt dropped (orders s') = cnt dropped (orders s)" "cnt wasted (orders s') = cnt wasted (orders s)"
      using j(1) D(2) by (simp_all add: s'_def cnt_update dropped_def wasted_def)
    moreover have "total_wasted s' = total_wasted s" using b D(3) by (simp add: total_wasted_def s'_def sum_list_update_int)
    moreover have "Suc k div (B + length cs) = k div (B + length cs)" using clock_step[OF N t] by simp
    moreover have "\<not> in_progress s b' j" for b' using tk(2) by (simp add: in_progress_def)
    moreover have "considered s' = considered s" "customers s' = cs" "length (orders s') = length cs"
        "length (baristas s') = B" "cticks s' = cticks s"
      using D(1-3) by (simp_all add: s'_def)
    ultimately show ?thesis
      unfolding s' cafe_inv_def using D(4,6,7,8,9) none j(1) by (auto; metis)
  qed
qed

lemma barista_finishes_eq:
  assumes "b < cafe_B s" "i < length (orders s)"
  shows "barista_finishes b i s = s\<lparr>orders := (orders s)[i := (orders s ! i)\<lparr>is_completed := 1,
       is_given_to_customer := (if is_customer_present (orders s ! i) = 1 then 1 else is_given_to_customer (orders s ! i)),
       is_customer_present := (if is_customer_present (orders s ! i) = 1 then 0 else is_customer_present (orders s ! i)),
       is_to_be_considered := 0\<rparr>], considered := considered s + 1,
     baristas := (baristas s)[b := (baristas s ! b)\<lparr>is_free := 1, coffee_wasted :=
       coffee_wasted (baristas s ! b) + (if is_customer_present (orders s ! i) = 1 then 0 else 1), border := None\<rparr>]\<rparr>"
  by (simp add: barista_finishes_def Let_def)

lemma barista_finishes_turn:
  assumes inv: "cafe_inv B cs k s" and b: "b < B" and t: "ring_at B (length cs) k = Barista b" and j: "j < length cs"
    and busy: "busy_with s b j" "in_progress s b j" and ready: "int k = ready_turn B (length cs) (orders s ! j)"
  shows "cafe_inv B cs (Suc k) (barista_finishes b j s)"
proof -
  note D = cafe_invD[OF inv]
  have N: "0 < length cs" using j by auto
  let ?o = "orders s ! j"
  define od where "od = ?o\<lparr>is_completed := 1, is_given_to_customer := (if is_customer_present ?o = 1 then 1 else 0),
    is_customer_present := 0, is_to_be_considered := 0\<rparr>"
  define s' where "s' = s\<lparr>orders := (orders s)[j := od], considered := considered s + 1,
     baristas := (baristas s)[b := (baristas s ! b)\<lparr>is_free := 1, coffee_wasted :=
       coffee_wasted (baristas s ! b) + (if is_customer_present ?o = 1 then 0 else 1), border := None\<rparr>]\<rparr>"
  have w: "is_completed ?o = 0" "taken_by ?o = int b" using busy(2) by (auto simp: in_progress_def)
  note oj = D(5)[OF j]
  have pg: "is_customer_present ?o \<noteq> 1 \<Longrightarrow> is_customer_present ?o = 0" "is_given_to_customer ?o = 0" "is_to_be_considered ?o = 1"
    using oj w by (auto simp: order_ok_def split: if_splits)
  have s': "barista_finishes b j s = s'"
  proof -
    have "(if is_customer_present ?o = 1 then 0 else is_customer_present ?o) = 0" using pg(1) by simp
    then show ?thesis using barista_finishes_eq[of b s j] b j D(2,3) by (simp only: s'_def od_def pg(2))
  qed
  have only: "i = j" if "i < length cs" "in_progress s b i" for i
    using D(7)[OF b that] busy(1) by (simp add: busy_with_def)
  have od: "order_ok B cs (int (Suc k)) j od" using order_ok_finished[OF oj j t w ready] by (simp add: od_def)
  have "order_ok B cs (int (Suc k)) i (orders s' ! i)" if "i < length cs" for i
  proof (cases "i = j")
    case False
    have "order_ok B cs (int (Suc k)) i (orders s ! i)"
      by (rule order_ok_untouched[OF inv that]) (use t only[OF that] False in auto)
    then show ?thesis using False by (simp add: s'_def)
  qed (use od j D(2) in \<open>simp add: s'_def\<close>)
  moreover have "in_progress s' b' i \<longleftrightarrow> in_progress s b' i \<and> i \<noteq> j" for b' i
    using j D(2) by (auto simp: in_progress_def s'_def od_def nth_list_update)
  moreover have "busy_with s' b' i \<longleftrightarrow> b' \<noteq> b \<and> busy_with s b' i" for b' i
    using b D(3) by (auto simp: busy_with_def s'_def nth_list_update)
  moreover have "is_free (baristas s' ! b') = (if b' = b then 1 else is_free (baristas s ! b'))" for b'
    using b D(3) by (simp add: s'_def nth_list_update)
  moreover have "considered s' = cnt dropped (orders s')"
    using j D(2,8) pg by (simp add: s'_def od_def cnt_update dropped_def)
  moreover have "total_wasted s' = cnt wasted (orders s')"
    using b j D(2,3,9) w by (auto simp: total_wasted_def s'_def od_def sum_list_update_int cnt_update wasted_def)
  moreover have "Suc k div (B + length cs) = k div (B + length cs)" using clock_step[OF N t] by simp
  moreover have "in_progress s b' j \<longleftrightarrow> b' = b" for b' using w by (auto simp: in_progress_def)
  moreover have "customers s' = cs" "length (orders s') = length cs" "length (baristas s') = B" "cticks s' = cticks s"
    using D(1-3) by (simp_all add: s'_def)
  ultimately show ?thesis
    unfolding s' cafe_inv_def using D(4,6,7) only by (auto; metis)
qed

lemma barista_turn:
  assumes inv: "cafe_inv B cs k s" and b: "b < B" and t: "ring_at B (length cs) k = Barista b" and N: "0 < length cs"
  shows "\<exists>s'. barista_body b s = Inr s' \<and> cafe_inv B cs (Suc k) s'"
proof -
  note D = cafe_invD[OF inv]
  show ?thesis
  proof (cases "is_free (baristas s ! b) = 1")
    case True
    then show ?thesis using barista_takes_turn[OF inv b t N] b D(3) by (simp add: barista_body_def)
  next
    case False
    then obtain j where j: "j < length cs" "busy_with s b j" "in_progress s b j" using D(6)[OF b] by blast
    have p: "ring_pos B (length cs) (Barista b) < B + length cs" using ring_pos_less[OF N] b by (metis is_thread.simps(2))
    have eq: "cticks s - is_taken_up (orders s ! j) = time_to_make (coffee (customer (orders s ! j)))
        \<longleftrightarrow> int k = ready_turn B (length cs) (orders s ! j)"
      using turn_lin[OF N t] D(4) j(3) lin_eq_iff[OF p p] unfolding ready_turn_def in_progress_def by auto
    have run: "barista_body b s = Inr (if int k = ready_turn B (length cs) (orders s ! j) then barista_finishes b j s else s)"
      using j False b D(2,3) eq by (auto simp: barista_body_def busy_with_def in_progress_def)
    have only: "i = j" if "i < length cs" "in_progress s b i" for i
      using D(7)[OF b that] j(2) by (simp add: busy_with_def)
    show ?thesis
      using run barista_finishes_turn[OF inv b t j] cafe_inv_wait[OF inv N t] only by auto
  qed
qed

section \<open>The whole run\<close>

lemma cafe_turn:
  assumes "cafe_inv B cs k s" "cafe_ok B cs"
  shows "\<exists>s'. thread_body (ring_at B (length cs) k) s = Inr s' \<and> cafe_inv B cs (Suc k) s'"
proof -
  have N: "0 < length cs" using assms(2) by (simp add: cafe_ok_def)
  note th = ring_at_thread[OF N, of B k]
  show ?thesis
  proof (cases "ring_at B (length cs) k")
    case (Worker b)
    then show ?thesis using barista_turn[OF assms(1) _ Worker N] th by simp
  next
    case (Customer c)
    then show ?thesis using customer_turn[OF assms _ Customer] th by simp
  qed
qed

lemma sim_inv:
  assumes "cafe_inv (cafe_B s) (customers s) 0 s" "cafe_ok (cafe_B s) (customers s)"
  shows "\<exists>s'. sim s k = Inr s' \<and> cafe_inv (cafe_B s) (customers s) k s'"
proof (induction k)
  case 0
  then show ?case using assms(1) by simp
next
  case (Suc k)
  then show ?case using cafe_turn[OF _ assms(2)] by fastforce
qed

text \<open>The state \<open>main\<close> sets up satisfies the invariant.\<close>

lemma cafe_fill_inv:
  assumes "0 < B" "input \<noteq> []" "\<And>nm a tol. (nm, a, tol) \<in> set input \<Longrightarrow> 0 \<le> a \<and> 0 \<le> tol"
  shows "cafe_inv B (customers (cafe_fill B types input)) 0 (cafe_fill B types input)"
    "cafe_ok B (customers (cafe_fill B types input))" "cafe_B (cafe_fill B types input) = B"
    "cafe_N (cafe_fill B types input) = length input"
proof -
  let ?s = "cafe_fill B types input" and ?cs = "customers (cafe_fill B types input)"
  show len: "cafe_N ?s = length input" and B: "cafe_B ?s = B" by (simp_all add: cafe_fill_def Let_def)
  have cs: "?cs ! i = read_customer types i (input ! i)" if "i < length input" for i
    using that by (simp add: cafe_fill_def Let_def)
  have nn: "0 \<le> arrival_time (?cs ! i) \<and> 0 \<le> tolerance_time (?cs ! i) \<and> corder_id (?cs ! i) = i \<and> customer_id (?cs ! i) = i"
    if "i < length input" for i
    using assms(3)[of "fst (input ! i)" "fst (snd (input ! i))" "snd (snd (input ! i))"] that
    by (simp add: cs read_customer_def split: prod.splits) (metis fst_conv snd_conv nth_mem)
  show "cafe_ok B ?cs" using nn assms(1,2) len by (auto simp: cafe_ok_def)
  have od: "orders ?s ! i = new_order i (?cs ! i)" if "i < length input" for i
    using that by (simp add: cafe_fill_def Let_def)
  have leave: "0 \<le> leave_turn B ?cs i" if "i < length input" for i
    using nn[OF that] by (simp add: leave_turn_def lin_def)
  have "order_ok B ?cs 0 i (orders ?s ! i)" if "i < length input" for i
    using leave[OF that] od[OF that] by (simp add: order_ok_def new_order_def)
  moreover have "cnt dropped (orders ?s) = 0" "cnt wasted (orders ?s) = 0"
    by (rule cnt_none; auto simp: cafe_fill_def Let_def new_order_def dropped_def wasted_def)+
  moreover have "total_wasted ?s = 0" by (simp add: total_wasted_def cafe_fill_def Let_def comp_def)
  moreover have "is_free (baristas ?s ! b) = 1" if "b < B" for b using that by (simp add: cafe_fill_def Let_def)
  moreover have "\<not> in_progress ?s b i" if "i < length input" for b i using od[OF that] by (simp add: in_progress_def new_order_def)
  ultimately show "cafe_inv B ?cs 0 ?s" using len B by (simp add: cafe_inv_def) (simp add: cafe_fill_def Let_def)
qed

end
