(* ===== verification/Cafe_Threads.thy ===== *)
theory Cafe_Threads
  imports Cafe_Ring
begin

text \<open>The cafe as an instance of the token ring: its invariant is that of the sequential run.\<close>

definition cafe_turn_inv :: "nat \<Rightarrow> cafe \<Rightarrow> bool" where
  "cafe_turn_inv k s \<longleftrightarrow> cafe_inv (cafe_B s) (customers s) k s \<and> cafe_ok (cafe_B s) (customers s)"

text \<open>No turn takes back an order that is done, so the test of the loops stays true.\<close>

lemma considered_mono: "thread_body t s = Inr s' \<Longrightarrow> considered s \<le> considered s'"
  by (cases t) (auto simp: barista_body_def barista_takes_def barista_finishes_def customer_body_def customer_leaves_def customer_receives_def Let_def
      split: if_splits option.splits)

interpretation cafe_ring: stopping_ring thread_body cafe_done cafe_B cafe_N cafe_turn_inv
proof
  fix k s
  assume i: "cafe_turn_inv k s"
  then show "0 < cafe_B s \<and> 0 < cafe_N s" by (auto simp: cafe_turn_inv_def cafe_ok_def)
  obtain s' where s': "thread_body (ring_at (cafe_B s) (cafe_N s) k) s = Inr s'" "cafe_inv (cafe_B s) (customers s) (Suc k) s'"
    using cafe_turn i unfolding cafe_turn_inv_def by blast
  note cafe_invD(1,3)[OF s'(2)]
  with s' i show "\<exists>s'. thread_body (ring_at (cafe_B s) (cafe_N s) k) s = Inr s' \<and> cafe_turn_inv (Suc k) s' \<and> cafe_B s' = cafe_B s \<and> cafe_N s' = cafe_N s"
    by (auto simp: cafe_turn_inv_def)
  assume d: "cafe_done s"
  fix s''
  assume t: "thread_body (ring_at (cafe_B s) (cafe_N s) k) s = Inr s''"
  have c: "cafe_inv (cafe_B s) (customers s) (Suc k) s''" using s' t by simp
  have "considered s'' \<le> int (length (orders s''))" using cafe_invD(8)[OF c] by (simp add: cnt_eq_length_filter)
  then show "cafe_done s''" using considered_mono[OF t] d cafe_invD(1,2)[OF c] by (simp add: cafe_done_def)
qed

end
