(* ===== verification/Cafe_Props.thy ===== *)
theory Cafe_Props
  imports Cafe_Threads
begin

text \<open>The properties of the cafe simulation, and a concrete cafe for their witnesses.\<close>

definition sample_types :: "coffee_s list" where
  "sample_types = [\<lparr>coffee_name = ''Espresso'', time_to_make = 1\<rparr>]"

definition sample_input :: "(string \<times> int \<times> int) list" where
  "sample_input = [(''Espresso'', 0, 5), (''Espresso'', 0, 1)]"

abbreviation input_ok :: "nat \<Rightarrow> (string \<times> int \<times> int) list \<Rightarrow> bool" where
  "input_ok B input \<equiv> 0 < B \<and> input \<noteq> [] \<and> (\<forall>(nm, a, tol) \<in> set input. 0 \<le> a \<and> 0 \<le> tol)"

lemma init_inv:
  assumes "input_ok B input" and i: "cafe_init B types input = Inr s"
  shows "cafe_inv (cafe_B s) (customers s) 0 s" "cafe_ok (cafe_B s) (customers s)" "cafe_B s = B" "cafe_N s = length input"
proof -
  have s: "s = cafe_fill B types input" by (rule cafe_init_fill[OF i])
  have "0 \<le> a \<and> 0 \<le> tol" if "(nm, a, tol) \<in> set input" for nm a tol using assms(1) that by auto
  moreover have "0 < B" "input \<noteq> []" using assms(1) by auto
  ultimately show "cafe_inv (cafe_B s) (customers s) 0 s" "cafe_ok (cafe_B s) (customers s)" "cafe_B s = B" "cafe_N s = length input"
    using cafe_fill_inv[of B input types] unfolding s by auto
qed

lemma sample_cafe_init: "cafe_init 2 sample_types sample_input = Inr (cafe_fill 2 sample_types sample_input)"
  by (simp add: cafe_init_def sample_types_def sample_input_def name_fits_def MAX_COFFEE_TYPES_def MAX_COFFEE_NAME_def MAX_CUSTOMERS_def MAX_BARISTAS_def)

lemma sample_cafe_ok: "input_ok 2 sample_input"
  by (simp add: sample_input_def)

text \<open>
  C10. If the input fits the arrays (at most 10 coffee types, 100 customers and 100 baristas, names of at most 19 characters), every schedule of the
  threads, with any number of steps, runs without a bad access, has at
  most one thread between its two semaphore operations, and leaves the cafe in the state the
  sequential simulation reaches after some number of turns, whatever the interleaving of the
  unlocked tests of the counter.
\<close>

theorem cafe_schedule_sequential:
  assumes "input_ok B input" "cafe_init B types input = Inr s" "\<forall>u \<in> set sched. is_thread B (length input) u"
  shows "\<exists>m k. for_each tstep sched (boot s) = Inr m \<and> sim s k = Inr (data m)
    \<and> (\<forall>u v. critical (pc m u) \<longrightarrow> critical (pc m v) \<longrightarrow> u = v)"
proof -
  note I = init_inv[OF assms(1,2)]
  have "\<exists>m k. for_each tstep sched (boot s) = Inr m \<and> ring_run thread_body (cafe_B s) (cafe_N s) k s = Inr (data m)
    \<and> cafe_turn_inv k (data m) \<and> (\<forall>u v. critical (pc m u) \<longrightarrow> critical (pc m v) \<longrightarrow> u = v)"
    unfolding tstep_def boot_def by (rule cafe_ring.schedule_sequential) (use I assms(3) in \<open>simp_all add: cafe_turn_inv_def\<close>)
  then show ?thesis unfolding sim_ring_run by blast
qed

theorem cafe_schedule_sequential_witness:
  "\<exists>s m k. cafe_init 2 sample_types sample_input = Inr s
    \<and> for_each tstep [Customer 1, Barista 0, Customer 1, Customer 0] (boot s) = Inr m \<and> sim s k = Inr (data m)"
  using cafe_schedule_sequential[OF sample_cafe_ok sample_cafe_init, of "[Customer 1, Barista 0, Customer 1, Customer 0]"] sample_cafe_init
  by (auto simp: sample_input_def)

text \<open>
  C11. The fate of an order, at every turn of the simulation, for an input that fits the arrays. A barista takes it between one second
  after its arrival and the second its customer gives up; once completed, it goes to the customer
  exactly when it was ready by the end of the tolerance (customer 0, whose turn ends the second, is
  served one second longer). The counter that ends the program counts each dropped order once, and
  the coffees wasted are the completed orders that were not handed over.
\<close>

theorem cafe_order_fate:
  assumes ok: "input_ok B input" "cafe_init B types input = Inr s" and sim: "sim s k = Inr s'" and i: "i < length input"
    and cu: "cu = customers s ! i" and od: "od = orders s' ! i"
  shows "(taken_by od \<noteq> -1 \<longrightarrow> arrival_time cu + 1 \<le> is_taken_up od \<and> is_taken_up od \<le> arrival_time cu + tolerance_time cu + 1)
    \<and> (is_given_to_customer od = 1 \<longleftrightarrow> is_completed od = 1
        \<and> is_taken_up od + time_to_make (coffee cu) \<le> arrival_time cu + tolerance_time cu + (if i = 0 then 1 else 0))
    \<and> considered s' = cnt (\<lambda>od. is_to_be_considered od = 0) (orders s')
    \<and> total_wasted s' = cnt (\<lambda>od. is_completed od = 1 \<and> is_given_to_customer od = 0) (orders s')"
proof -
  note I = init_inv[OF ok]
  have inv: "cafe_inv B (customers s) k s'" using sim_inv[OF I(1,2), of k] sim I(3) by auto
  have N: "length (customers s) = length input" "0 < length input" using I(4) i by auto
  have o: "order_ok B (customers s) (int k) i od" using cafe_invD(5)[OF inv] i N od by simp
  have pos: "ring_pos B (length input) (Customer i) < B + length input"
    using ring_pos_less[OF N(2)] i by simp
  have "ready_turn B (length input) od \<le> leave_turn B (customers s) i
      \<longleftrightarrow> is_taken_up od + time_to_make (coffee cu) \<le> arrival_time cu + tolerance_time cu + (if i = 0 then 1 else 0)"
    if c: "is_completed od = 1"
  proof -
    have tb: "0 \<le> taken_by od" "taken_by od < int B" using o c by (auto simp: order_ok_def)
    then have p: "ring_pos B (length input) (Barista (nat (taken_by od))) < B + length input"
      using ring_pos_less[OF N(2), of B "Barista (nat (taken_by od))"] by simp
    have "ring_pos B (length input) (Barista (nat (taken_by od))) \<le> ring_pos B (length input) (Customer i) \<longleftrightarrow> i = 0"
      using tb i by (cases i) auto
    moreover have "coffee (customer od) = coffee cu" using o cu by (simp add: order_ok_def)
    ultimately show ?thesis
      unfolding ready_turn_def leave_turn_def N(1) lin_le_iff[OF p pos] cu[symmetric] by auto
  qed
  then have "is_given_to_customer od = 1 \<longleftrightarrow> is_completed od = 1
      \<and> is_taken_up od + time_to_make (coffee cu) \<le> arrival_time cu + tolerance_time cu + (if i = 0 then 1 else 0)"
    using o N(1) by (auto simp: order_ok_def)
  moreover have "taken_by od \<noteq> -1 \<longrightarrow> arrival_time cu + 1 \<le> is_taken_up od \<and> is_taken_up od \<le> arrival_time cu + tolerance_time cu + 1"
    using o cu by (simp add: order_ok_def)
  moreover have "dropped = (\<lambda>od. is_to_be_considered od = 0)" "wasted = (\<lambda>od. is_completed od = 1 \<and> is_given_to_customer od = 0)"
    by (simp_all add: fun_eq_iff dropped_def wasted_def)
  ultimately show ?thesis using cafe_invD(8,9)[OF inv] by simp
qed

theorem cafe_order_fate_witness:
  "\<exists>s s'. cafe_init 2 sample_types sample_input = Inr s \<and> sim s 13 = Inr s' \<and> considered s' = 2 \<and> total_wasted s' = 1
    \<and> is_given_to_customer (orders s' ! 1) \<noteq> 1"
proof -
  have "case sim (cafe_fill 2 sample_types sample_input) 13 of Inl e \<Rightarrow> False | Inr s' \<Rightarrow> considered s' = 2 \<and> total_wasted s' = 1
      \<and> is_completed (orders s' ! 1) = 1 \<and> is_taken_up (orders s' ! 1) = 1"
    by code_simp
  then obtain s' where s': "sim (cafe_fill 2 sample_types sample_input) 13 = Inr s'" "considered s' = 2" "total_wasted s' = 1"
      "is_completed (orders s' ! 1) = 1" "is_taken_up (orders s' ! 1) = 1"
    by (auto split: sum.splits)
  have "customers (cafe_fill 2 sample_types sample_input) ! 1 = read_customer sample_types 1 (''Espresso'', 0, 1)"
    by (simp add: cafe_fill_def Let_def sample_input_def)
  then show ?thesis
    using cafe_order_fate[OF sample_cafe_ok sample_cafe_init s'(1) _ refl refl, of 1] s' sample_cafe_init
    by (simp add: sample_input_def sample_types_def read_customer_def coffee_time_def)
qed

text \<open>
  With a barista for every customer and every tolerance at least the preparation time, a coffee is
  still wasted: the second spent ordering counts against the tolerance.
\<close>

lemma cafe_waste_despite_tolerance:
  "(\<forall>(nm, a, tol) \<in> set sample_input. coffee_time sample_types nm \<le> tol)
    \<and> (case bnd (cafe_init 2 sample_types sample_input) (\<lambda>s. sim s 13) of Inl e \<Rightarrow> False | Inr s' \<Rightarrow> considered s' = 2 \<and> total_wasted s' = 1)"
  by (rule conjI, simp add: sample_input_def sample_types_def coffee_time_def, code_simp)

text \<open>The sequential simulation comes to an end.\<close>

lemma sim_ends:
  assumes ok: "input_ok B input" "cafe_init B types input = Inr s"
    and time: "\<forall>(nm, a, tol) \<in> set input. 1 \<le> coffee_time types nm"
  shows "\<exists>K. \<forall>k \<ge> K. \<exists>s'. sim s k = Inr s' \<and> considered s' = int (cafe_N s')"
proof -
  note I = init_inv[OF ok]
  let ?cs = "customers s" and ?L = "B + length input"
  define bound where "bound i = lin ?L (arrival_time (?cs ! i) + tolerance_time (?cs ! i) + 1
      + time_to_make (coffee (?cs ! i))) ?L" for i
  define K where "K = Suc (nat (Max (bound ` {..<length input})))"
  have N: "length ?cs = length input" "0 < length input" using I(4) ok(1) by auto
  have "dropped (orders s' ! i)" if s': "cafe_inv B ?cs k s'" and k: "K \<le> k" and i: "i < length input" for k s' i
  proof -
    let ?od = "orders s' ! i" and ?cu = "?cs ! i"
    have o: "order_ok B ?cs (int k) i ?od" using cafe_invD(5)[OF s'] i N by simp
    have "bound i \<le> Max (bound ` {..<length input})" using i by (intro Max_ge) auto
    then have bk: "bound i < int k" using k by (simp add: K_def)
    have t1: "1 \<le> time_to_make (coffee ?cu)"
      using time i cafe_init_fill[OF ok(2)] by (auto simp: cafe_fill_def Let_def read_customer_def split: prod.splits dest!: nth_mem)
    have pos: "ring_pos B (length input) t \<le> ?L" if "is_thread B (length input) t" for t
      using ring_pos_less[OF N(2) that] by simp
    have mono: "lin ?L x p \<le> lin ?L y ?L" if "x \<le> y" "p \<le> ?L" for x y p
      using that mult_right_mono[OF that(1), of "int ?L"] by (simp add: lin_def)
    have l: "leave_turn B ?cs i \<le> bound i"
      unfolding leave_turn_def bound_def N(1) by (rule mono) (use t1 pos[of "Customer i"] i in auto)
    have r: "ready_turn B (length ?cs) ?od \<le> bound i" if "taken_by ?od \<noteq> -1"
      unfolding ready_turn_def bound_def N(1)
      by (rule mono) (use that o pos[of "Barista (nat (taken_by ?od))"] in \<open>auto simp: order_ok_def\<close>)
    show ?thesis using o l r bk t1 by (fastforce simp: order_ok_def dropped_def)
  qed
  then have all: "dropped od" if "cafe_inv B ?cs k s'" "K \<le> k" "od \<in> set (orders s')" for k s' od
    using that cafe_invD(2)[OF that(1)] N by (metis in_set_conv_nth)
  have "considered s' = int (cafe_N s')" if "cafe_inv B ?cs k s'" "K \<le> k" for k s'
    using cnt_all[of "orders s'" dropped] all[OF that] cafe_invD(1,2,8)[OF that(1)] by simp
  moreover have "\<exists>s'. sim s k = Inr s' \<and> cafe_inv B ?cs k s'" for k using sim_inv[OF I(1,2), of k] I(3) by simp
  ultimately show ?thesis by blast
qed

text \<open>
  C12. The orders come to an end under every fair schedule of the threads. If the input fits the arrays and every coffee ordered takes at least a
  second to prepare, there is a number \<open>K\<close> such that after \<open>K\<close> rounds, in each of which every thread has made at least one step, in any order and
  with any number of further steps, every order has been dropped, which is the condition under which the threads leave their loops; and it stays
  so. The sequential simulation has the same end. (A coffee with preparation time 0 is never finished: the barista compares one
  second too late. That the orders are done does not mean that every thread gets to see it; see the next property.)
\<close>

theorem cafe_ends:
  assumes ok: "input_ok B input" "cafe_init B types input = Inr s"
    and time: "\<forall>(nm, a, tol) \<in> set input. 1 \<le> coffee_time types nm"
  shows "\<exists>K. (\<forall>rounds. K \<le> length rounds \<longrightarrow> (\<forall>r \<in> set rounds. fair_round B (length input) r) \<longrightarrow>
        (\<exists>m. for_each tstep (concat rounds) (boot s) = Inr m \<and> considered (data m) = int (length input)))
    \<and> (\<forall>k \<ge> K. \<exists>s'. sim s k = Inr s' \<and> considered s' = int (length input))"
proof -
  note I = init_inv[OF ok]
  have i: "cafe_turn_inv 0 s" using I by (simp add: cafe_turn_inv_def)
  have N: "cafe_N s' = length input" if "sim s k = Inr s'" for k s'
    using cafe_ring.run_inv[OF i, of k] that I(4) unfolding sim_ring_run by auto
  obtain K where K: "\<And>k. K \<le> k \<Longrightarrow> \<exists>s'. sim s k = Inr s' \<and> considered s' = int (cafe_N s')" using sim_ends[OF ok time] by blast
  have "\<exists>m. for_each tstep (concat rounds) (boot s) = Inr m \<and> considered (data m) = int (length input)"
    if "5 * K \<le> length rounds" "\<forall>r \<in> set rounds. fair_round B (length input) r" for rounds
  proof -
    have sched: "\<forall>u \<in> set (concat rounds). is_thread (cafe_B s) (cafe_N s) u" using that(2) I(3,4) by (auto simp: fair_round_def)
    have "\<exists>m. for_each tstep (concat rounds) (boot s) = Inr m \<and> cafe_done (data m)"
      unfolding tstep_def boot_def
    proof (rule cafe_ring.fair_rounds_stop[OF i _ _ that(1)])
      show "cafe_done s'" if "K \<le> k" "ring_run thread_body (cafe_B s) (cafe_N s) k s = Inr s'" for k s'
        using K[OF that(1)] that(2) unfolding sim_ring_run cafe_done_def by auto
    qed (use that(2) I(3,4) in simp)
    moreover have "\<exists>m k. for_each tstep (concat rounds) (boot s) = Inr m \<and> sim s k = Inr (data m)"
      using cafe_ring.schedule_sequential[OF i sched] unfolding tstep_def boot_def sim_ring_run by blast
    ultimately show ?thesis using N by (auto simp: cafe_done_def)
  qed
  moreover have "\<exists>s'. sim s k = Inr s' \<and> considered s' = int (length input)" if "5 * K \<le> k" for k using K[of k] that N by auto
  ultimately show ?thesis by (intro exI[of _ "5 * K"]) simp
qed

theorem cafe_ends_witness:
  "\<exists>s K. cafe_init 2 sample_types sample_input = Inr s
    \<and> (\<exists>m. for_each tstep (concat (replicate K [Customer 0, Barista 1, Customer 1, Barista 0])) (boot s) = Inr m \<and> considered (data m) = 2)"
proof -
  have "fair_round 2 (length sample_input) [Customer 0, Barista 1, Customer 1, Barista 0]"
    by (auto simp: fair_round_def ring_order_def sample_input_def)
  then have r: "\<forall>r \<in> set (replicate K [Customer 0, Barista 1, Customer 1, Barista 0]). fair_round 2 (length sample_input) r" for K by simp
  have "\<forall>(nm, a, tol) \<in> set sample_input. 1 \<le> coffee_time sample_types nm" by (simp add: sample_input_def sample_types_def coffee_time_def)
  from cafe_ends[OF sample_cafe_ok sample_cafe_init this] obtain K where K: "\<And>rounds. K \<le> length rounds \<Longrightarrow> (\<forall>r \<in> set rounds. fair_round 2 (length sample_input) r) \<Longrightarrow>
        (\<exists>m. for_each tstep (concat rounds) (boot (cafe_fill 2 sample_types sample_input)) = Inr m \<and> considered (data m) = int (length sample_input))" by blast
  from K[OF _ r, of K] sample_cafe_init show ?thesis by (auto simp: sample_input_def)
qed

text \<open>
  A schedule that leaves the program hanging, and what a hung thread is.
\<close>

definition hang_input :: "(string \<times> int \<times> int) list" where
  "hang_input = [(''Espresso'', 0, 0), (''Espresso'', 0, 0)]"

definition hang_schedule :: "thread list" where
  "hang_schedule = concat (map (replicate 5) [Customer 1, Barista 0, Customer 0, Customer 1, Barista 0, Customer 0, Customer 1])
     @ [Customer 1] @ replicate 5 (Barista 0) @ replicate 3 (Customer 0) @ replicate 3 (Barista 0)"

definition hung :: "cafe ring \<Rightarrow> thread \<Rightarrow> bool" where
  "hung m t \<longleftrightarrow> pc m t = Gone \<or> pc m t = AtWait \<and> sems m (waits_on (cafe_B (data m)) (cafe_N (data m)) t) = 0"

lemma hung_step: "hung m t \<Longrightarrow> tstep t m = Inr m"
  by (auto simp: hung_def tstep_def ring_step_def)

lemma hung_for_each: "\<forall>u \<in> set sched. hung m u \<Longrightarrow> for_each tstep sched m = Inr m"
  by (induction sched) (simp_all add: hung_step)

text \<open>
  C13. A defect: the program can hang after all orders are done. A thread that finds the counter
  complete at the top of its loop leaves without passing the token on, so a thread already waiting for
  it waits for ever: here a schedule after which no thread can move again and \<open>main\<close> never
  sees all threads closed.
\<close>

theorem cafe_can_hang:
  "\<exists>s m. cafe_init 1 sample_types hang_input = Inr s \<and> for_each tstep hang_schedule (boot s) = Inr m
    \<and> considered (data m) = int (cafe_N (data m)) \<and> \<not> main_over m
    \<and> (\<forall>sched. (\<forall>u \<in> set sched. is_thread 1 2 u) \<longrightarrow> for_each tstep sched m = Inr m)"
proof -
  have "case bnd (cafe_init 1 sample_types hang_input) (\<lambda>s. for_each tstep hang_schedule (boot s)) of Inl e \<Rightarrow> False
    | Inr m \<Rightarrow> list_all (hung m) [Customer 0, Customer 1, Barista 0] \<and> \<not> main_over m
        \<and> considered (data m) = int (cafe_N (data m))"
    by code_simp
  then obtain s m where m: "cafe_init 1 sample_types hang_input = Inr s" "for_each tstep hang_schedule (boot s) = Inr m"
      "list_all (hung m) [Customer 0, Customer 1, Barista 0]" "\<not> main_over m" "considered (data m) = int (cafe_N (data m))"
    by (auto simp: bnd_eq_Inr split: sum.splits)
  have "hung m u" if "is_thread 1 2 u" for u
  proof (cases u)
    case (Customer c)
    then have "c = 0 \<or> c = 1" using that by auto
    then show ?thesis using m(3) Customer by auto
  qed (use that m(3) in auto)
  then show ?thesis using m(1,2,4,5) hung_for_each by blast
qed

theorem cafe_can_hang_witness:
  "\<exists>s m. cafe_init 1 sample_types hang_input = Inr s \<and> for_each tstep hang_schedule (boot s) = Inr m
    \<and> for_each tstep [Customer 1, Customer 1] m = Inr m \<and> \<not> main_over m"
proof -
  have "\<forall>u \<in> set [Customer 1, Customer 1]. is_thread 1 2 u" by simp
  then show ?thesis using cafe_can_hang by blast
qed

end
