(* ===== verification/Bio.thy ===== *)
theory Bio
  imports Prelude
begin

unbundle bit_operations_syntax

text \<open>
  The buffer cache, \<^verbatim>\<open>kernel/bio.c\<close>, over the disk that \<^verbatim>\<open>virtio_disk_rw\<close> reads and writes a block
  at a time (the driver ignores the device number, so the disk is indexed by block).

  The cache is used by one process at a time: a buffer's sleep lock is the flag \<open>slocked\<close>, and
  waiting for a lock the process itself holds, which would last for ever, is a \<open>Fault\<close>. The doubly
  linked list through the buffers is the list \<open>lru\<close> of their indices, most recently used first.
  \<open>hist\<close> is a history variable: the writes the disk has received, oldest first.

  What a client sees is \<open>view\<close>, the current contents of every block, cached or not, with the
  reference count \<open>refs\<close> and the lock \<open>held\<close> of each block; each operation is specified by what it
  does to these.
\<close>

section \<open>State and operations\<close>

type_synonym block = "byte list"

definition NBUF :: nat where
  "NBUF = 30"

record buf =
  bvalid :: bool
  bdev :: uint
  blockno :: uint
  slocked :: bool
  refcnt :: uint
  bdata :: block

record bcache =
  bufs :: "buf list"
  lru :: "nat list"
  disk :: "uint \<Rightarrow> block"
  hist :: "(uint \<times> block) list"

text \<open>\<open>binit\<close>: each buffer goes to the front of the list in turn; the memory is zero.\<close>

definition binit :: "(uint \<Rightarrow> block) \<Rightarrow> bcache" where
  "binit d = \<lparr>bufs = replicate NBUF \<lparr>bvalid = False, bdev = 0, blockno = 0, slocked = False, refcnt = 0, bdata = replicate 1024 0\<rparr>,
     lru = rev [0..<NBUF], disk = d, hist = []\<rparr>"

abbreviation buf_at :: "bcache \<Rightarrow> nat \<Rightarrow> buf" where
  "buf_at s i \<equiv> bufs s ! i"

definition set_buf :: "nat \<Rightarrow> (buf \<Rightarrow> buf) \<Rightarrow> bcache \<Rightarrow> bcache" where
  "set_buf i f s = s\<lparr>bufs := (bufs s)[i := f (buf_at s i)]\<rparr>"

definition acquiresleep :: "nat \<Rightarrow> bcache \<Rightarrow> bcache result" where
  "acquiresleep i s = (if slocked (buf_at s i) then Inl (Fault ''deadlock'') else Inr (set_buf i (\<lambda>b. b\<lparr>slocked := True\<rparr>) s))"

definition bget :: "uint \<Rightarrow> uint \<Rightarrow> bcache \<Rightarrow> (nat \<times> bcache) result" where
  "bget dev n s =
     (case find (\<lambda>i. bdev (buf_at s i) = dev \<and> blockno (buf_at s i) = n) (lru s) of
        Some i \<Rightarrow> bnd (acquiresleep i (set_buf i (\<lambda>b. b\<lparr>refcnt := refcnt b + 1\<rparr>) s)) (\<lambda>s. Inr (i, s))
      | None \<Rightarrow>
          (case find (\<lambda>i. refcnt (buf_at s i) = 0) (rev (lru s)) of
             Some i \<Rightarrow> bnd (acquiresleep i (set_buf i (\<lambda>b. b\<lparr>bdev := dev, blockno := n, bvalid := False, refcnt := 1\<rparr>) s))
                         (\<lambda>s. Inr (i, s))
           | None \<Rightarrow> Inl (Panic ''bget: no buffers'')))"

definition virtio_disk_rw :: "nat \<Rightarrow> bool \<Rightarrow> bcache \<Rightarrow> bcache" where
  "virtio_disk_rw i write s =
     (let n = blockno (buf_at s i); d = bdata (buf_at s i) in
      if write then s\<lparr>disk := (disk s)(n := d), hist := hist s @ [(n, d)]\<rparr>
      else set_buf i (\<lambda>b. b\<lparr>bdata := disk s n\<rparr>) s)"

definition bread :: "uint \<Rightarrow> uint \<Rightarrow> bcache \<Rightarrow> (nat \<times> bcache) result" where
  "bread dev n s =
     bnd (bget dev n s) (\<lambda>(i, s).
       if \<not> bvalid (buf_at s i) then Inr (i, set_buf i (\<lambda>b. b\<lparr>bvalid := True\<rparr>) (virtio_disk_rw i False s))
       else Inr (i, s))"

definition bwrite :: "nat \<Rightarrow> bcache \<Rightarrow> bcache result" where
  "bwrite i s = (if \<not> slocked (buf_at s i) then Inl (Panic ''bwrite'') else Inr (virtio_disk_rw i True s))"

definition brelse :: "nat \<Rightarrow> bcache \<Rightarrow> bcache result" where
  "brelse i s =
     (if \<not> slocked (buf_at s i) then Inl (Panic ''brelse'')
      else
        let s = set_buf i (\<lambda>b. b\<lparr>slocked := False\<rparr>) s;
            s = set_buf i (\<lambda>b. b\<lparr>refcnt := refcnt b - 1\<rparr>) s in
        Inr (if refcnt (buf_at s i) = 0 then s\<lparr>lru := i # remove1 i (lru s)\<rparr> else s))"

definition bpin :: "nat \<Rightarrow> bcache \<Rightarrow> bcache" where
  "bpin i s = set_buf i (\<lambda>b. b\<lparr>refcnt := refcnt b + 1\<rparr>) s"

definition bunpin :: "nat \<Rightarrow> bcache \<Rightarrow> bcache" where
  "bunpin i s = set_buf i (\<lambda>b. b\<lparr>refcnt := refcnt b - 1\<rparr>) s"

text \<open>A store into \<open>b->data\<close> by the code that holds the buffer.\<close>

definition set_data :: "nat \<Rightarrow> block \<Rightarrow> bcache \<Rightarrow> bcache" where
  "set_data i d s = set_buf i (\<lambda>b. b\<lparr>bdata := d\<rparr>) s"

section \<open>What the cache holds\<close>

definition slot :: "uint \<Rightarrow> bcache \<Rightarrow> uint \<Rightarrow> nat option" where
  "slot dev s n = find (\<lambda>i. bdev (buf_at s i) = dev \<and> blockno (buf_at s i) = n) (lru s)"

definition view :: "uint \<Rightarrow> bcache \<Rightarrow> uint \<Rightarrow> block" where
  "view dev s n = (case slot dev s n of None \<Rightarrow> disk s n
     | Some i \<Rightarrow> if bvalid (buf_at s i) then bdata (buf_at s i) else disk s n)"

definition refs :: "uint \<Rightarrow> bcache \<Rightarrow> uint \<Rightarrow> uint" where
  "refs dev s n = (case slot dev s n of None \<Rightarrow> 0 | Some i \<Rightarrow> refcnt (buf_at s i))"

definition held :: "uint \<Rightarrow> bcache \<Rightarrow> uint \<Rightarrow> bool" where
  "held dev s n = (case slot dev s n of None \<Rightarrow> False | Some i \<Rightarrow> slocked (buf_at s i))"

text \<open>
  The invariant. The last line is why modified blocks are pinned: a buffer nobody refers to may be
  recycled without being written, so it must not differ from the disk.
\<close>

definition cache_ok :: "uint \<Rightarrow> bcache \<Rightarrow> bool" where
  "cache_ok dev s \<longleftrightarrow>
     length (bufs s) = NBUF \<and> distinct (lru s) \<and> set (lru s) = {..<NBUF}
     \<and> (\<forall>i < NBUF. \<forall>j < NBUF. bdev (buf_at s i) = dev \<and> bdev (buf_at s j) = dev \<and> blockno (buf_at s i) = blockno (buf_at s j) \<longrightarrow> i = j)
     \<and> (\<forall>i < NBUF. refcnt (buf_at s i) \<noteq> 0 \<longrightarrow> bdev (buf_at s i) = dev)
     \<and> (\<forall>i < NBUF. slocked (buf_at s i) \<longrightarrow> refcnt (buf_at s i) \<noteq> 0)
     \<and> (\<forall>i < NBUF. bvalid (buf_at s i) \<and> bdev (buf_at s i) = dev \<and> refcnt (buf_at s i) = 0
          \<longrightarrow> bdata (buf_at s i) = disk s (blockno (buf_at s i)))"

lemma cache_okD:
  assumes "cache_ok dev s"
  shows "length (bufs s) = NBUF" "distinct (lru s)" "set (lru s) = {..<NBUF}"
    "i < NBUF \<Longrightarrow> j < NBUF \<Longrightarrow> bdev (buf_at s i) = dev \<Longrightarrow> bdev (buf_at s j) = dev \<Longrightarrow> blockno (buf_at s i) = blockno (buf_at s j) \<Longrightarrow> i = j"
    "i < NBUF \<Longrightarrow> refcnt (buf_at s i) \<noteq> 0 \<Longrightarrow> bdev (buf_at s i) = dev"
    "i < NBUF \<Longrightarrow> slocked (buf_at s i) \<Longrightarrow> refcnt (buf_at s i) \<noteq> 0"
    "i < NBUF \<Longrightarrow> bvalid (buf_at s i) \<Longrightarrow> bdev (buf_at s i) = dev \<Longrightarrow> refcnt (buf_at s i) = 0 \<Longrightarrow> bdata (buf_at s i) = disk s (blockno (buf_at s i))"
  using assms unfolding cache_ok_def by blast+

lemma slot_Some:
  assumes "cache_ok dev s"
  shows "slot dev s n = Some i \<longleftrightarrow> i < NBUF \<and> bdev (buf_at s i) = dev \<and> blockno (buf_at s i) = n"
proof
  assume "slot dev s n = Some i"
  then show "i < NBUF \<and> bdev (buf_at s i) = dev \<and> blockno (buf_at s i) = n"
    using cache_okD(3)[OF assms] find_SomeD by (fastforce simp: slot_def)
next
  assume i: "i < NBUF \<and> bdev (buf_at s i) = dev \<and> blockno (buf_at s i) = n"
  then have "slot dev s n \<noteq> None" using cache_okD(3)[OF assms] by (auto simp: slot_def find_None_iff)
  then obtain j where j: "slot dev s n = Some j" by blast
  then have "j < NBUF \<and> bdev (buf_at s j) = dev \<and> blockno (buf_at s j) = n"
    using cache_okD(3)[OF assms] find_SomeD by (fastforce simp: slot_def)
  then show "slot dev s n = Some i" using j i cache_okD(4)[OF assms] by metis
qed

lemma slot_None:
  assumes "cache_ok dev s"
  shows "slot dev s n = None \<longleftrightarrow> (\<forall>i < NBUF. \<not> (bdev (buf_at s i) = dev \<and> blockno (buf_at s i) = n))"
  using slot_Some[OF assms, of n] by (metis not_Some_eq)

lemma binit_ok: "dev \<noteq> 0 \<Longrightarrow> cache_ok dev (binit d)" "dev \<noteq> 0 \<Longrightarrow> view dev (binit d) = d"
  "dev \<noteq> 0 \<Longrightarrow> refs dev (binit d) = (\<lambda>_. 0)" "dev \<noteq> 0 \<Longrightarrow> held dev (binit d) = (\<lambda>_. False)"
proof -
  assume dev: "dev \<noteq> 0"
  show ok: "cache_ok dev (binit d)" using dev by (auto simp: cache_ok_def binit_def)
  have "slot dev (binit d) n = None" for n using slot_None[OF ok] dev by (auto simp: binit_def)
  then show "view dev (binit d) = d" "refs dev (binit d) = (\<lambda>_. 0)" "held dev (binit d) = (\<lambda>_. False)"
    by (simp_all add: fun_eq_iff view_def refs_def held_def) (simp add: binit_def)
qed

section \<open>Changing one buffer\<close>

lemma buf_at_set [simp]:
  assumes "i < length (bufs s)"
  shows "buf_at (set_buf i f s) j = (if j = i then f (buf_at s i) else buf_at s j)"
  using assms by (simp add: set_buf_def nth_list_update)

lemma set_buf_fields [simp]:
  "lru (set_buf i f s) = lru s" "disk (set_buf i f s) = disk s" "hist (set_buf i f s) = hist s"
  "length (bufs (set_buf i f s)) = length (bufs s)"
  by (simp_all add: set_buf_def)

text \<open>A change that keeps the block of a buffer is a change of that block's entry in the three maps.\<close>

lemma set_buf_same_block:
  assumes ok: "cache_ok dev s" and i: "slot dev s n = Some i"
    and f: "bdev (f (buf_at s i)) = dev" "blockno (f (buf_at s i)) = n"
    and l: "slocked (f (buf_at s i)) \<longrightarrow> refcnt (f (buf_at s i)) \<noteq> 0"
    and c: "bvalid (f (buf_at s i)) \<and> refcnt (f (buf_at s i)) = 0 \<longrightarrow> bdata (f (buf_at s i)) = disk s n"
  shows "cache_ok dev (set_buf i f s)" "slot dev (set_buf i f s) = slot dev s"
    "view dev (set_buf i f s) = (view dev s)(n := if bvalid (f (buf_at s i)) then bdata (f (buf_at s i)) else disk s n)"
    "refs dev (set_buf i f s) = (refs dev s)(n := refcnt (f (buf_at s i)))"
    "held dev (set_buf i f s) = (held dev s)(n := slocked (f (buf_at s i)))"
proof -
  note D = cache_okD[OF ok]
  have b: "i < NBUF" "bdev (buf_at s i) = dev" "blockno (buf_at s i) = n" using i slot_Some[OF ok] by auto
  have L: "i < length (bufs s)" using b(1) D(1) by simp
  show ok': "cache_ok dev (set_buf i f s)"
    unfolding cache_ok_def using D b f l c L by auto
  show sl: "slot dev (set_buf i f s) = slot dev s"
  proof
    fix m
    have "slot dev (set_buf i f s) m = Some j \<longleftrightarrow> slot dev s m = Some j" for j
      unfolding slot_Some[OF ok] slot_Some[OF ok'] using b f L by auto
    then show "slot dev (set_buf i f s) m = slot dev s m" by (metis not_Some_eq)
  qed
  have other: "slot dev s m = Some j \<Longrightarrow> m \<noteq> n \<Longrightarrow> j \<noteq> i" for m j using b slot_Some[OF ok] by auto
  show "view dev (set_buf i f s) = (view dev s)(n := if bvalid (f (buf_at s i)) then bdata (f (buf_at s i)) else disk s n)"
    "refs dev (set_buf i f s) = (refs dev s)(n := refcnt (f (buf_at s i)))"
    "held dev (set_buf i f s) = (held dev s)(n := slocked (f (buf_at s i)))"
    using i L other by (auto simp: fun_eq_iff view_def refs_def held_def sl split: option.splits)
qed

text \<open>Recycling an unreferenced buffer changes nothing a client sees, but makes room for block \<open>n\<close>.\<close>

lemma recycle:
  assumes ok: "cache_ok dev s" and n: "slot dev s n = None" and i: "i < NBUF" "refcnt (buf_at s i) = 0"
    and s': "s' = set_buf i (\<lambda>b. b\<lparr>bdev := dev, blockno := n, bvalid := False, refcnt := 1\<rparr>) s"
  shows "cache_ok dev s'" "slot dev s' n = Some i" "view dev s' = view dev s" "refs dev s' = (refs dev s)(n := 1)"
    "held dev s' = held dev s" "\<not> slocked (buf_at s' i)" "\<not> bvalid (buf_at s' i)"
    "slot dev s m = Some j \<Longrightarrow> refcnt (buf_at s j) \<noteq> 0 \<Longrightarrow> slot dev s' m = Some j \<and> buf_at s' j = buf_at s j"
proof -
  note D = cache_okD[OF ok]
  have L: "i < length (bufs s)" using i D(1) by simp
  have free: "\<forall>j < NBUF. \<not> (bdev (buf_at s j) = dev \<and> blockno (buf_at s j) = n)" using n slot_None[OF ok] by blast
  have ul: "\<not> slocked (buf_at s i)" using D(6)[OF i(1)] i(2) by auto
  have at: "buf_at s' j = (if j = i then (buf_at s i)\<lparr>bdev := dev, blockno := n, bvalid := False, refcnt := 1\<rparr> else buf_at s j)" for j
    using L by (simp add: s')
  have uniq: "j = k" if "j < NBUF" "k < NBUF" "bdev (buf_at s' j) = dev \<and> bdev (buf_at s' k) = dev \<and> blockno (buf_at s' j) = blockno (buf_at s' k)" for j k
  proof (cases "j = i \<or> k = i")
    case True
    then show ?thesis using that free by (cases "j = i"; cases "k = i") (auto simp: at)
  next
    case False
    then show ?thesis using that D(4)[of j k] by (simp add: at)
  qed
  have lists: "length (bufs s') = NBUF" "distinct (lru s')" "set (lru s') = {..<NBUF}" "disk s' = disk s"
    using D(1-3) by (simp_all add: s')
  have each: "(refcnt (buf_at s' j) \<noteq> 0 \<longrightarrow> bdev (buf_at s' j) = dev) \<and> (slocked (buf_at s' j) \<longrightarrow> refcnt (buf_at s' j) \<noteq> 0)
      \<and> (bvalid (buf_at s' j) \<and> bdev (buf_at s' j) = dev \<and> refcnt (buf_at s' j) = 0 \<longrightarrow> bdata (buf_at s' j) = disk s' (blockno (buf_at s' j)))"
    if "j < NBUF" for j
    using D(5-7)[OF that] by (simp add: at lists(4))
  show ok': "cache_ok dev s'" unfolding cache_ok_def using lists(1-3) uniq each by blast
  show sn: "slot dev s' n = Some i" using slot_Some[OF ok'] i L by (simp add: s')
  show "\<not> slocked (buf_at s' i)" "\<not> bvalid (buf_at s' i)" using ul L by (simp_all add: s')
  have sm: "slot dev s' m = (if slot dev s m = Some i then None else slot dev s m)" if "m \<noteq> n" for m
  proof -
    have "slot dev s' m = Some j \<longleftrightarrow> slot dev s m = Some j \<and> j \<noteq> i" for j
      unfolding slot_Some[OF ok] slot_Some[OF ok'] using that L by (auto simp: s')
    then show ?thesis by (metis not_Some_eq option.inject)
  qed
  have clean: "bvalid (buf_at s i) \<longrightarrow> bdata (buf_at s i) = disk s m" if "slot dev s m = Some i" for m
    using that slot_Some[OF ok] D(7)[OF i(1)] i(2) by auto
  have keep: "buf_at s' j = buf_at s j" if "j \<noteq> i" for j using that L by (simp add: s')
  have d: "disk s' = disk s" by (simp add: s')
  show "slot dev s' m = Some j \<and> buf_at s' j = buf_at s j" if "slot dev s m = Some j" "refcnt (buf_at s j) \<noteq> 0"
  proof -
    have "m \<noteq> n" "j \<noteq> i" using that n i(2) by auto
    then show ?thesis using sm[of m] keep[of j] that(1) by simp
  qed
  show "view dev s' = view dev s"
  proof
    fix m
    show "view dev s' m = view dev s m"
      using sn n clean[of m] keep d \<open>\<not> bvalid (buf_at s' i)\<close> sm[of m]
      by (cases "m = n"; cases "slot dev s m") (auto simp: view_def)
  qed
  show "refs dev s' = (refs dev s)(n := 1)"
  proof
    fix m
    have "refcnt (buf_at s' i) = 1" using L by (simp add: s')
    then show "refs dev s' m = ((refs dev s)(n := 1)) m"
      using sn n i(2) keep sm[of m] by (cases "m = n"; cases "slot dev s m") (auto simp: refs_def)
  qed
  show "held dev s' = held dev s"
  proof
    fix m
    show "held dev s' m = held dev s m"
      using sn n ul \<open>\<not> slocked (buf_at s' i)\<close> keep sm[of m] by (cases "m = n"; cases "slot dev s m") (auto simp: held_def)
  qed
qed

section \<open>The operations\<close>

text \<open>A buffer is free when fewer than \<open>NBUF\<close> blocks are referenced.\<close>

lemma free_buffer:
  assumes ok: "cache_ok dev s" and few: "card {n. refs dev s n \<noteq> 0} < NBUF"
  shows "\<exists>i. find (\<lambda>i. refcnt (buf_at s i) = 0) (rev (lru s)) = Some i \<and> i < NBUF \<and> refcnt (buf_at s i) = 0"
proof (cases "find (\<lambda>i. refcnt (buf_at s i) = 0) (rev (lru s))")
  case (Some i)
  then have "i \<in> set (rev (lru s))" "refcnt (buf_at s i) = 0" using find_SomeD by fastforce+
  then show ?thesis using Some cache_okD(3)[OF ok] by auto
next
  case None
  then have used: "refcnt (buf_at s i) \<noteq> 0" if "i < NBUF" for i
    using that cache_okD(3)[OF ok] by (auto simp: find_None_iff)
  let ?f = "\<lambda>i. blockno (buf_at s i)"
  have "inj_on ?f {..<NBUF}"
    using cache_okD(4,5)[OF ok] used by (auto intro!: inj_onI)
  moreover have "?f ` {..<NBUF} \<subseteq> {n. refs dev s n \<noteq> 0}"
  proof
    fix n
    assume "n \<in> ?f ` {..<NBUF}"
    then obtain i where "i < NBUF" "blockno (buf_at s i) = n" by auto
    then have "slot dev s n = Some i" using slot_Some[OF ok] cache_okD(5)[OF ok] used by auto
    then show "n \<in> {n. refs dev s n \<noteq> 0}" using used[OF \<open>i < NBUF\<close>] by (simp add: refs_def)
  qed
  ultimately have "NBUF \<le> card {n. refs dev s n \<noteq> 0}"
    using card_mono[of "{n. refs dev s n \<noteq> 0}" "?f ` {..<NBUF}"] by (simp add: card_image)
  then show ?thesis using few by simp
qed

text \<open>What an operation that returns buffer \<open>i\<close> holding block \<open>n\<close> promises.\<close>

definition is_buf :: "uint \<Rightarrow> bcache \<Rightarrow> uint \<Rightarrow> nat \<Rightarrow> bool" where
  "is_buf dev s n i \<longleftrightarrow> slot dev s n = Some i \<and> bvalid (buf_at s i)"

lemma is_buf_view: "is_buf dev s n i \<Longrightarrow> bdata (buf_at s i) = view dev s n"
  by (simp add: is_buf_def view_def)

lemma bget_ok:
  assumes ok: "cache_ok dev s" and h: "\<not> held dev s n" and r: "refs dev s n \<noteq> -1"
    and room: "refs dev s n \<noteq> 0 \<or> card {n. refs dev s n \<noteq> 0} < NBUF"
  shows "\<exists>i s'. bget dev n s = Inr (i, s') \<and> cache_ok dev s' \<and> slot dev s' n = Some i \<and> view dev s' = view dev s
    \<and> refs dev s' = (refs dev s)(n := refs dev s n + 1) \<and> held dev s' = (held dev s)(n := True)
    \<and> disk s' = disk s \<and> hist s' = hist s \<and> (\<forall>m j. is_buf dev s m j \<and> refs dev s m \<noteq> 0 \<longrightarrow> is_buf dev s' m j)"
proof -
  have lock: "\<exists>s'. acquiresleep i t = Inr s' \<and> cache_ok dev s' \<and> slot dev s' n = Some i \<and> view dev s' = view dev t
      \<and> refs dev s' = refs dev t \<and> held dev s' = (held dev t)(n := True) \<and> disk s' = disk t \<and> hist s' = hist t
      \<and> is_buf dev s' = is_buf dev t"
    if t: "cache_ok dev t" "slot dev t n = Some i" "\<not> slocked (buf_at t i)" "refcnt (buf_at t i) \<noteq> 0" for t i
  proof -
    have b: "bdev (buf_at t i) = dev" "blockno (buf_at t i) = n" using t(2) slot_Some[OF t(1)] by auto
    note S = set_buf_same_block[OF t(1,2), of "\<lambda>b. b\<lparr>slocked := True\<rparr>"]
    have "view dev t n = (if bvalid (buf_at t i) then bdata (buf_at t i) else disk t n)" "refs dev t n = refcnt (buf_at t i)"
      using t(2) by (simp_all add: view_def refs_def)
    moreover have "bvalid (buf_at (set_buf i (\<lambda>b. b\<lparr>slocked := True\<rparr>) t) j) = bvalid (buf_at t j)" for j
      using t(2) slot_Some[OF t(1)] cache_okD(1)[OF t(1)] by auto
    ultimately show ?thesis using S b t by (simp add: acquiresleep_def fun_upd_idem fun_eq_iff is_buf_def)
  qed
  show ?thesis
  proof (cases "slot dev s n")
    case (Some i)
    have b: "bdev (buf_at s i) = dev" "blockno (buf_at s i) = n" "i < NBUF" using Some slot_Some[OF ok] by auto
    have v: "view dev s n = (if bvalid (buf_at s i) then bdata (buf_at s i) else disk s n)" "refs dev s n = refcnt (buf_at s i)"
        "held dev s n = slocked (buf_at s i)"
      using Some by (simp_all add: view_def refs_def held_def)
    have nz: "refcnt (buf_at s i) + 1 \<noteq> 0" using r v(2) by (metis add_eq_0_iff2 add.commute minus_add_cancel add_minus_cancel eq_neg_iff_add_eq_0)
    define t where "t = set_buf i (\<lambda>b. b\<lparr>refcnt := refcnt b + 1\<rparr>) s"
    note S = set_buf_same_block[OF ok Some, of "\<lambda>b. b\<lparr>refcnt := refcnt b + 1\<rparr>", folded t_def]
    have t: "cache_ok dev t" "slot dev t = slot dev s" "view dev t = view dev s" "refs dev t = (refs dev s)(n := refs dev s n + 1)"
        "held dev t = held dev s" "buf_at t i = (buf_at s i)\<lparr>refcnt := refcnt (buf_at s i) + 1\<rparr>" "disk t = disk s" "hist t = hist s"
        "bvalid (buf_at t j) = bvalid (buf_at s j)" for j
      using S b v nz cache_okD(1)[OF ok] by (simp_all add: t_def fun_upd_idem)
    have isb: "is_buf dev t = is_buf dev s" by (simp add: fun_eq_iff is_buf_def t(2,9))
    have "bget dev n s = bnd (acquiresleep i t) (\<lambda>s. Inr (i, s))"
      using Some by (simp add: bget_def slot_def t_def)
    moreover obtain s' where "acquiresleep i t = Inr s'" "cache_ok dev s'" "slot dev s' n = Some i" "view dev s' = view dev t"
        "refs dev s' = refs dev t" "held dev s' = (held dev t)(n := True)" "disk s' = disk t" "hist s' = hist t" "is_buf dev s' = is_buf dev t"
      using lock[of t i] t(1,2,6) Some h v(3) nz by auto
    ultimately show ?thesis using t(3-5,7,8) isb by simp
  next
    case None
    then have "refs dev s n = 0" by (simp add: refs_def)
    then obtain i where i: "find (\<lambda>i. refcnt (buf_at s i) = 0) (rev (lru s)) = Some i" "i < NBUF" "refcnt (buf_at s i) = 0"
      using free_buffer[OF ok] room by auto
    define t where "t = set_buf i (\<lambda>b. b\<lparr>bdev := dev, blockno := n, bvalid := False, refcnt := 1\<rparr>) s"
    note R = recycle[OF ok None i(2,3) t_def]
    have "bget dev n s = bnd (acquiresleep i t) (\<lambda>s. Inr (i, s))"
      using None i(1) by (simp add: bget_def slot_def t_def)
    moreover have d: "refcnt (buf_at t i) \<noteq> 0" "disk t = disk s" "hist t = hist s"
      using i(2) cache_okD(1)[OF ok] by (simp_all add: t_def)
    moreover obtain s' where "acquiresleep i t = Inr s'" "cache_ok dev s'" "slot dev s' n = Some i" "view dev s' = view dev t"
        "refs dev s' = refs dev t" "held dev s' = (held dev t)(n := True)" "disk s' = disk t" "hist s' = hist t" "is_buf dev s' = is_buf dev t"
      using lock[of t i] R(1,2,6) d(1) by auto
    moreover have "is_buf dev t m j" if "is_buf dev s m j" "refs dev s m \<noteq> 0" for m j
      using R(8)[of m j] that by (auto simp: is_buf_def refs_def)
    ultimately show ?thesis using R(3-5) \<open>refs dev s n = 0\<close> by simp
  qed
qed

text \<open>What a client knows of the cache: the three maps, the disk and its history.\<close>

definition cst ::
  "uint \<Rightarrow> (uint \<Rightarrow> block) \<Rightarrow> (uint \<Rightarrow> uint) \<Rightarrow> (uint \<Rightarrow> bool) \<Rightarrow> (uint \<Rightarrow> block) \<Rightarrow> (uint \<times> block) list \<Rightarrow> bcache \<Rightarrow> bool" where
  "cst dev v r l d h s \<longleftrightarrow> cache_ok dev s \<and> view dev s = v \<and> refs dev s = r \<and> held dev s = l \<and> disk s = d \<and> hist s = h"

lemma bread_c:
  assumes c: "cst dev v r l d h s" and n: "\<not> l n" "r n \<noteq> -1" "r n \<noteq> 0 \<or> card {n. r n \<noteq> 0} < NBUF"
  shows "\<exists>i s'. bread dev n s = Inr (i, s') \<and> cst dev v (r(n := r n + 1)) (l(n := True)) d h s' \<and> is_buf dev s' n i
    \<and> (\<forall>m j. is_buf dev s m j \<and> r m \<noteq> 0 \<longrightarrow> is_buf dev s' m j)"
proof -
  have ok: "cache_ok dev s" and f: "view dev s = v" "refs dev s = r" "held dev s = l" "disk s = d" "hist s = h"
    using c by (auto simp: cst_def)
  obtain i t where g: "bget dev n s = Inr (i, t)" "cache_ok dev t" "slot dev t n = Some i" "view dev t = v"
      "refs dev t = r(n := r n + 1)" "held dev t = l(n := True)" "disk t = d" "hist t = h"
      "\<And>m j. is_buf dev s m j \<Longrightarrow> r m \<noteq> 0 \<Longrightarrow> is_buf dev t m j"
    using bget_ok[OF ok, of n, unfolded f, OF n] by blast
  show ?thesis
  proof (cases "bvalid (buf_at t i)")
    case True
    then have "bread dev n s = Inr (i, t)" "cst dev v (r(n := r n + 1)) (l(n := True)) d h t" "is_buf dev t n i"
      using g by (simp_all add: bread_def is_buf_def cst_def)
    then show ?thesis using g(9) by blast
  next
    case False
    have b: "bdev (buf_at t i) = dev" "blockno (buf_at t i) = n" "i < NBUF" using g(3) slot_Some[OF g(2)] by auto
    define s' where "s' = set_buf i (\<lambda>b. b\<lparr>bdata := disk t n, bvalid := True\<rparr>) t"
    have e: "set_buf i (\<lambda>b. b\<lparr>bvalid := True\<rparr>) (virtio_disk_rw i False t) = s'"
      using b cache_okD(1)[OF g(2)] by (simp add: s'_def virtio_disk_rw_def Let_def set_buf_def)
    have v: "view dev t n = disk t n" "refs dev t n = refcnt (buf_at t i)" "held dev t n = slocked (buf_at t i)"
      using g(3) False by (simp_all add: view_def refs_def held_def)
    note S = set_buf_same_block[OF g(2,3), of "\<lambda>b. b\<lparr>bdata := disk t n, bvalid := True\<rparr>", folded s'_def]
    have s': "cache_ok dev s'" "slot dev s' = slot dev t" "view dev s' = view dev t" "refs dev s' = refs dev t" "held dev s' = held dev t"
      using S b v cache_okD(6)[OF g(2) b(3)] by (simp_all add: fun_upd_idem)
    have w: "bvalid (buf_at s' j) = (bvalid (buf_at t j) \<or> j = i)" "disk s' = disk t" "hist s' = hist t" for j
      using b cache_okD(1)[OF g(2)] by (simp_all add: s'_def)
    have "bread dev n s = Inr (i, s')" using g(1) False e by (simp add: bread_def)
    moreover have "cst dev v (r(n := r n + 1)) (l(n := True)) d h s'" using s' w g by (simp add: cst_def)
    moreover have "is_buf dev s' n i" using s'(2) w(1) g(3) by (simp add: is_buf_def)
    moreover have "is_buf dev s' m j" if "is_buf dev s m j" "r m \<noteq> 0" for m j
      using g(9)[OF that] s'(2) w(1) by (simp add: is_buf_def)
    ultimately show ?thesis by blast
  qed
qed

text \<open>The remaining operations act on a buffer that holds its block.\<close>

lemma buf_facts:
  assumes "cache_ok dev s" "is_buf dev s n i"
  shows "i < NBUF" "bdev (buf_at s i) = dev" "blockno (buf_at s i) = n" "bvalid (buf_at s i)" "slot dev s n = Some i"
    "view dev s n = bdata (buf_at s i)" "refs dev s n = refcnt (buf_at s i)" "held dev s n = slocked (buf_at s i)"
  using assms slot_Some[OF assms(1), of n i] by (auto simp: is_buf_def view_def refs_def held_def)

lemma set_data_ok:
  assumes ok: "cache_ok dev s" and b: "is_buf dev s n i" and r: "refs dev s n \<noteq> 0" and s': "s' = set_data i d s"
  shows "cache_ok dev s'" "slot dev s' = slot dev s" "view dev s' = (view dev s)(n := d)" "refs dev s' = refs dev s"
    "held dev s' = held dev s" "disk s' = disk s" "hist s' = hist s" "is_buf dev s m j \<Longrightarrow> is_buf dev s' m j"
proof -
  note F = buf_facts[OF ok b]
  have l: "slocked (buf_at s i) \<longrightarrow> refcnt (buf_at s i) \<noteq> 0" using cache_okD(6)[OF ok F(1)] by blast
  note S = set_buf_same_block[OF ok F(5), of "\<lambda>b. b\<lparr>bdata := d\<rparr>", folded set_data_def, folded s']
  show "cache_ok dev s'" "view dev s' = (view dev s)(n := d)" "refs dev s' = refs dev s" "held dev s' = held dev s"
    using S F r l by (simp_all add: fun_upd_idem)
  show sl: "slot dev s' = slot dev s" using S(2) F r l by simp
  show "disk s' = disk s" "hist s' = hist s" by (simp_all add: s' set_data_def)
  show "is_buf dev s m j \<Longrightarrow> is_buf dev s' m j"
  proof -
    have "bvalid (buf_at s' j) = bvalid (buf_at s j)" using F(1) cache_okD(1)[OF ok] by (simp add: s' set_data_def)
    then show "is_buf dev s m j \<Longrightarrow> is_buf dev s' m j" by (simp add: is_buf_def sl)
  qed
qed

lemma bwrite_ok:
  assumes ok: "cache_ok dev s" and b: "is_buf dev s n i" and h: "held dev s n"
  obtains s' where "bwrite i s = Inr s'" "cache_ok dev s'" "slot dev s' = slot dev s" "view dev s' = view dev s" "refs dev s' = refs dev s"
    "held dev s' = held dev s" "disk s' = (disk s)(n := view dev s n)" "hist s' = hist s @ [(n, view dev s n)]"
    "\<And>m j. is_buf dev s m j \<Longrightarrow> is_buf dev s' m j"
proof -
  note F = buf_facts[OF ok b] and D = cache_okD[OF ok]
  define s' where "s' = s\<lparr>disk := (disk s)(n := view dev s n), hist := hist s @ [(n, view dev s n)]\<rparr>"
  have run: "bwrite i s = Inr s'" using F h by (simp add: bwrite_def virtio_disk_rw_def Let_def s'_def)
  have same: "bufs s' = bufs s" "lru s' = lru s" by (simp_all add: s'_def)
  have dk: "disk s' = (disk s)(n := view dev s n)" by (simp add: s'_def)
  have sl: "slot dev s' = slot dev s" by (simp add: fun_eq_iff slot_def same)
  have only: "blockno (buf_at s j) \<noteq> n" if "j < NBUF" "bdev (buf_at s j) = dev" "j \<noteq> i" for j
    using that D(4) F by metis
  have nz: "refcnt (buf_at s i) \<noteq> 0" using D(6)[OF F(1)] F(8) h by simp
  have "bdata (buf_at s j) = disk s' (blockno (buf_at s j))"
    if "j < NBUF" "bvalid (buf_at s j)" "bdev (buf_at s j) = dev" "refcnt (buf_at s j) = 0" for j
  proof -
    have "j \<noteq> i" using nz that(4) by auto
    then show ?thesis using D(7)[OF that] only[OF that(1,3)] by (simp add: s'_def)
  qed
  then have "cache_ok dev s'" using ok by (simp add: cache_ok_def same)
  moreover have "view dev s' m = view dev s m" for m
  proof (cases "slot dev s m")
    case None
    then have "m \<noteq> n" using F(5) by auto
    then show ?thesis using None unfolding view_def[of dev s' m] view_def[of dev s m] sl dk by simp
  next
    case (Some j)
    then have "bvalid (buf_at s j) \<or> m \<noteq> n" using F(4,5) by auto
    then show ?thesis using Some unfolding view_def[of dev s' m] view_def[of dev s m] sl dk same by auto
  qed
  moreover have "refs dev s' = refs dev s" "held dev s' = held dev s" "is_buf dev s' = is_buf dev s"
    by (simp_all add: fun_eq_iff refs_def held_def is_buf_def sl same split: option.split)
  moreover have "disk s' = (disk s)(n := view dev s n)" "hist s' = hist s @ [(n, view dev s n)]" by (simp_all add: s'_def)
  ultimately show thesis using that[OF run _ sl] by (simp add: fun_eq_iff)
qed

text \<open>Releasing the last reference needs the block to agree with the disk.\<close>

lemma brelse_ok:
  assumes ok: "cache_ok dev s" and b: "is_buf dev s n i" and h: "held dev s n"
    and clean: "refs dev s n = 1 \<Longrightarrow> view dev s n = disk s n"
  obtains s' where "brelse i s = Inr s'" "cache_ok dev s'" "slot dev s' = slot dev s" "view dev s' = view dev s"
    "refs dev s' = (refs dev s)(n := refs dev s n - 1)" "held dev s' = (held dev s)(n := False)" "disk s' = disk s" "hist s' = hist s"
    "\<And>m j. is_buf dev s m j \<Longrightarrow> is_buf dev s' m j"
proof -
  note F = buf_facts[OF ok b] and D = cache_okD[OF ok]
  define f where "f = (\<lambda>b :: buf. b\<lparr>slocked := False, refcnt := refcnt b - 1\<rparr>)"
  define t where "t = set_buf i f s"
  have L: "i < length (bufs s)" using F(1) D(1) by simp
  have t2: "set_buf i (\<lambda>b. b\<lparr>refcnt := refcnt b - 1\<rparr>) (set_buf i (\<lambda>b. b\<lparr>slocked := False\<rparr>) s) = t"
    using L by (simp add: t_def f_def set_buf_def)
  have c: "bvalid (f (buf_at s i)) \<and> refcnt (f (buf_at s i)) = 0 \<longrightarrow> bdata (f (buf_at s i)) = disk s n"
    using clean F by (simp add: f_def)
  note S = set_buf_same_block[OF ok F(5), of f, OF _ _ _ c, folded t_def]
  have T: "cache_ok dev t" "slot dev t = slot dev s" "view dev t = view dev s" "refs dev t = (refs dev s)(n := refs dev s n - 1)"
      "held dev t = (held dev s)(n := False)" "disk t = disk s" "hist t = hist s" "bvalid (buf_at t j) = bvalid (buf_at s j)" for j
    using S F L by (simp_all add: f_def fun_upd_idem t_def)
  define s' where "s' = (if refcnt (buf_at t i) = 0 then t\<lparr>lru := i # remove1 i (lru t)\<rparr> else t)"
  have run: "brelse i s = Inr s'" using F(8) h t2 by (simp add: brelse_def Let_def s'_def)
  have same: "bufs s' = bufs t" "disk s' = disk t" "hist s' = hist t" by (simp_all add: s'_def)
  have "distinct (lru s')" "set (lru s') = {..<NBUF}"
    using cache_okD(2,3)[OF T(1)] F(1) by (auto simp: s'_def)
  then have ok': "cache_ok dev s'" using T(1) unfolding cache_ok_def same by blast
  have "slot dev s' m = slot dev t m" for m
    using slot_Some[OF ok', of m] slot_Some[OF T(1), of m] unfolding same by (metis not_Some_eq)
  then have sl: "slot dev s' = slot dev t" by (simp add: fun_eq_iff)
  have "view dev s' = view dev t" "refs dev s' = refs dev t" "held dev s' = held dev t" "is_buf dev s' = is_buf dev s"
    by (simp_all add: fun_eq_iff view_def refs_def held_def is_buf_def sl T(2,8) same split: option.split)
  then show thesis using that[OF run ok'] T(2-7) sl same by simp
qed

lemma bpin_ok:
  assumes ok: "cache_ok dev s" and b: "is_buf dev s n i" and r: "refs dev s n \<noteq> 0" "refs dev s n \<noteq> -1" and s': "s' = bpin i s"
  shows "cache_ok dev s'" "slot dev s' = slot dev s" "view dev s' = view dev s" "refs dev s' = (refs dev s)(n := refs dev s n + 1)"
    "held dev s' = held dev s" "disk s' = disk s" "hist s' = hist s" "is_buf dev s m j \<Longrightarrow> is_buf dev s' m j"
proof -
  note F = buf_facts[OF ok b]
  have nz: "refcnt (buf_at s i) + 1 \<noteq> 0" using r(2) F(7) by (metis add_eq_0_iff2 add.commute eq_neg_iff_add_eq_0)
  note S = set_buf_same_block[OF ok F(5), of "\<lambda>b. b\<lparr>refcnt := refcnt b + 1\<rparr>", folded bpin_def, folded s']
  show "cache_ok dev s'" "view dev s' = view dev s" "refs dev s' = (refs dev s)(n := refs dev s n + 1)" "held dev s' = held dev s"
    using S F nz by (simp_all add: fun_upd_idem)
  show sl: "slot dev s' = slot dev s" using S(2) F nz by simp
  show "disk s' = disk s" "hist s' = hist s" by (simp_all add: s' bpin_def)
  show "is_buf dev s m j \<Longrightarrow> is_buf dev s' m j"
  proof -
    have "bvalid (buf_at s' j) = bvalid (buf_at s j)" using F(1) cache_okD(1)[OF ok] by (simp add: s' bpin_def)
    then show "is_buf dev s m j \<Longrightarrow> is_buf dev s' m j" by (simp add: is_buf_def sl)
  qed
qed

lemma bunpin_ok:
  assumes ok: "cache_ok dev s" and b: "is_buf dev s n i" and r: "refs dev s n \<noteq> 0" "refs dev s n \<noteq> 1" and s': "s' = bunpin i s"
  shows "cache_ok dev s'" "slot dev s' = slot dev s" "view dev s' = view dev s" "refs dev s' = (refs dev s)(n := refs dev s n - 1)"
    "held dev s' = held dev s" "disk s' = disk s" "hist s' = hist s" "is_buf dev s m j \<Longrightarrow> is_buf dev s' m j"
proof -
  note F = buf_facts[OF ok b]
  have nz: "refcnt (buf_at s i) - 1 \<noteq> 0" using r(2) F(7) by simp
  note S = set_buf_same_block[OF ok F(5), of "\<lambda>b. b\<lparr>refcnt := refcnt b - 1\<rparr>", folded bunpin_def, folded s']
  show "cache_ok dev s'" "view dev s' = view dev s" "refs dev s' = (refs dev s)(n := refs dev s n - 1)" "held dev s' = held dev s"
    using S F nz by (simp_all add: fun_upd_idem)
  show sl: "slot dev s' = slot dev s" using S(2) F nz by simp
  show "disk s' = disk s" "hist s' = hist s" by (simp_all add: s' bunpin_def)
  show "is_buf dev s m j \<Longrightarrow> is_buf dev s' m j"
  proof -
    have "bvalid (buf_at s' j) = bvalid (buf_at s j)" using F(1) cache_okD(1)[OF ok] by (simp add: s' bunpin_def)
    then show "is_buf dev s m j \<Longrightarrow> is_buf dev s' m j" by (simp add: is_buf_def sl)
  qed
qed

section \<open>The operations as seen by a client\<close>

lemma cst_view: "cst dev v r l d h s \<Longrightarrow> is_buf dev s n i \<Longrightarrow> bdata (buf_at s i) = v n"
  using is_buf_view by (auto simp: cst_def)

lemma set_data_c:
  assumes "cst dev v r l d h s" "is_buf dev s n i" "r n \<noteq> 0"
  shows "cst dev (v(n := b)) r l d h (set_data i b s)" "is_buf dev s m j \<Longrightarrow> is_buf dev (set_data i b s) m j"
  using set_data_ok[OF _ assms(2) _ refl, where d = b] assms by (auto simp: cst_def)

lemma bwrite_c:
  assumes "cst dev v r l d h s" "is_buf dev s n i" "l n"
  shows "\<exists>s'. bwrite i s = Inr s' \<and> cst dev v r l (d(n := v n)) (h @ [(n, v n)]) s' \<and> (\<forall>m j. is_buf dev s m j \<longrightarrow> is_buf dev s' m j)"
proof -
  have ok: "cache_ok dev s" and f: "view dev s = v" "refs dev s = r" "held dev s = l" "disk s = d" "hist s = h"
    using assms(1) by (auto simp: cst_def)
  have h: "held dev s n" using f(3) assms(3) by simp
  obtain s' where "bwrite i s = Inr s'" "cache_ok dev s'" "view dev s' = v" "refs dev s' = r" "held dev s' = l"
      "disk s' = d(n := v n)" "hist s' = h @ [(n, v n)]" "\<And>m j. is_buf dev s m j \<Longrightarrow> is_buf dev s' m j"
    using bwrite_ok[OF ok assms(2) h] unfolding f by metis
  then show ?thesis by (auto simp: cst_def)
qed

lemma brelse_c:
  assumes "cst dev v r l d h s" "is_buf dev s n i" "l n" "r n = 1 \<Longrightarrow> v n = d n"
  shows "\<exists>s'. brelse i s = Inr s' \<and> cst dev v (r(n := r n - 1)) (l(n := False)) d h s' \<and> (\<forall>m j. is_buf dev s m j \<longrightarrow> is_buf dev s' m j)"
proof -
  have ok: "cache_ok dev s" and f: "view dev s = v" "refs dev s = r" "held dev s = l" "disk s = d" "hist s = h"
    using assms(1) by (auto simp: cst_def)
  have h: "held dev s n" and c: "refs dev s n = 1 \<Longrightarrow> view dev s n = disk s n" using f assms(3,4) by auto
  obtain s' where "brelse i s = Inr s'" "cache_ok dev s'" "view dev s' = v" "refs dev s' = r(n := r n - 1)" "held dev s' = l(n := False)"
      "disk s' = d" "hist s' = h" "\<And>m j. is_buf dev s m j \<Longrightarrow> is_buf dev s' m j"
    using brelse_ok[OF ok assms(2) h c] unfolding f by metis
  then show ?thesis by (auto simp: cst_def)
qed

lemma bpin_c:
  assumes "cst dev v r l d h s" "is_buf dev s n i" "r n \<noteq> 0" "r n \<noteq> -1"
  shows "cst dev v (r(n := r n + 1)) l d h (bpin i s)" "is_buf dev s m j \<Longrightarrow> is_buf dev (bpin i s) m j"
  using bpin_ok[OF _ assms(2) _ _ refl] assms by (auto simp: cst_def)

lemma bunpin_c:
  assumes "cst dev v r l d h s" "is_buf dev s n i" "r n \<noteq> 0" "r n \<noteq> 1"
  shows "cst dev v (r(n := r n - 1)) l d h (bunpin i s)" "is_buf dev s m j \<Longrightarrow> is_buf dev (bunpin i s) m j"
  using bunpin_ok[OF _ assms(2) _ _ refl] assms by (auto simp: cst_def)

text \<open>A block nobody refers to agrees with the disk.\<close>

lemma cst_clean:
  assumes "cst dev v r l d h s" "r n = 0"
  shows "v n = d n"
proof (cases "slot dev s n")
  case (Some i)
  have ok: "cache_ok dev s" using assms(1) by (simp add: cst_def)
  have "i < NBUF" "bdev (buf_at s i) = dev" "blockno (buf_at s i) = n" using Some slot_Some[OF ok] by auto
  then show ?thesis using cache_okD(7)[OF ok, of i] assms Some by (auto simp: cst_def view_def refs_def)
qed (use assms in \<open>auto simp: cst_def view_def\<close>)

lemma binit_c: "dev \<noteq> 0 \<Longrightarrow> cst dev d (\<lambda>_. 0) (\<lambda>_. False) d [] (binit d)"
  using binit_ok[of dev d] by (simp add: cst_def) (simp add: binit_def)

end
