(* ===== verification/Blocks.thy ===== *)
theory Blocks
  imports Bio
begin

unbundle bit_operations_syntax

text \<open>
  Structures laid over the bytes of a block: the 32-bit little-endian words that log headers,
  indirect blocks and inodes consist of.
\<close>

definition BSIZE :: nat where
  "BSIZE = 1024"

definition get32 :: "block \<Rightarrow> nat \<Rightarrow> uint" where
  "get32 b k = ucast (b ! (4 * k)) OR push_bit 8 (ucast (b ! (4 * k + 1)))
     OR push_bit 16 (ucast (b ! (4 * k + 2))) OR push_bit 24 (ucast (b ! (4 * k + 3)))"

definition put32 :: "nat \<Rightarrow> uint \<Rightarrow> block \<Rightarrow> block" where
  "put32 k v b = b[4 * k := ucast v, 4 * k + 1 := ucast (drop_bit 8 v), 4 * k + 2 := ucast (drop_bit 16 v),
     4 * k + 3 := ucast (drop_bit 24 v)]"

lemma length_put32 [simp]: "length (put32 k v b) = length b"
  by (simp add: put32_def)

lemma byte_bit: "8 \<le> n \<Longrightarrow> \<not> bit (x :: byte) n"
  using bit_imp_le_length[of x n] by auto

lemma join_bytes:
  "ucast (ucast v :: byte) OR push_bit 8 (ucast (ucast (drop_bit 8 v) :: byte))
     OR push_bit 16 (ucast (ucast (drop_bit 16 v) :: byte)) OR push_bit 24 (ucast (ucast (drop_bit 24 v) :: byte)) = (v :: uint)"
  (is "?l = v")
proof (rule bit_word_eqI)
  fix n
  assume n: "n < LENGTH(32)"
  then consider "n < 8" | "8 \<le> n" "n < 16" | "16 \<le> n" "n < 24" | "24 \<le> n" "n < 32" by fastforce
  then show "bit ?l n = bit v n" by cases (auto simp: bit_simps)
qed

lemma get32_put32:
  assumes "4 * k + 3 < length b"
  shows "get32 (put32 k v b) j = (if j = k then v else get32 b j)"
proof (cases "j = k")
  case True
  then show ?thesis using assms join_bytes[of v] by (simp add: get32_def put32_def nth_list_update)
next
  case False
  then have "4 * j + a \<noteq> 4 * k + c" if "a < 4" "c < 4" for a c using that by presburger
  from this[of 0 0] this[of 0 1] this[of 0 2] this[of 0 3] this[of 1 0] this[of 1 1] this[of 1 2] this[of 1 3]
    this[of 2 0] this[of 2 1] this[of 2 2] this[of 2 3] this[of 3 0] this[of 3 1] this[of 3 2] this[of 3 3]
  show ?thesis using False by (simp add: get32_def put32_def)
qed

text \<open>The effect of a sequence of block writes.\<close>

definition apply_writes :: "(uint \<times> block) list \<Rightarrow> (uint \<Rightarrow> block) \<Rightarrow> uint \<Rightarrow> block" where
  "apply_writes ws d = fold (\<lambda>(n, b) d. d(n := b)) ws d"

lemma apply_writes_simps [simp]:
  "apply_writes [] d = d"
  "apply_writes ((n, b) # ws) d = apply_writes ws (d(n := b))"
  "apply_writes (vs @ ws) d = apply_writes ws (apply_writes vs d)"
  by (simp_all add: apply_writes_def)

lemma apply_writes_snoc: "apply_writes (ws @ [(n, b)]) d = (apply_writes ws d)(n := b)"
  by simp

lemma apply_writes_other: "n \<notin> fst ` set ws \<Longrightarrow> apply_writes ws d n = d n"
  by (induction ws arbitrary: d) auto

lemma apply_writes_distinct:
  assumes "distinct (map fst ws)" "(n, b) \<in> set ws"
  shows "apply_writes ws d n = b"
  using assms
proof (induction ws arbitrary: d)
  case (Cons w ws)
  show ?case
  proof (cases "w = (n, b)")
    case True
    then show ?thesis using Cons.prems by (simp add: apply_writes_other)
  next
    case False
    then show ?thesis using Cons by (cases w) auto
  qed
qed simp

end
