(* ===== verification/Log.thy ===== *)
theory Log
  imports Blocks
begin

text \<open>
  The write-ahead log, \<^verbatim>\<open>kernel/log.c\<close>, over the buffer cache. Operations that only touch
  \<open>struct log\<close> are critical sections of its lock; \<open>begin_op\<close> is one pass of its loop, \<open>None\<close> when it
  goes to sleep, and \<open>end_op\<close> is cut at the commit, which runs without the lock.
\<close>

section \<open>State and operations\<close>

definition MAXOPBLOCKS :: int where
  "MAXOPBLOCKS = 10"

definition LOGSIZE :: nat where
  "LOGSIZE = nat (MAXOPBLOCKS * 3)"

record log =
  lstart :: int
  lsize :: int
  outstanding :: int
  committing :: int
  ldev :: uint
  lh_n :: int
  lh_block :: "int list"

definition log_block :: "log \<Rightarrow> nat \<Rightarrow> uint" where
  "log_block lg tail = of_int (lstart lg + int tail + 1)"

definition home_block :: "log \<Rightarrow> nat \<Rightarrow> uint" where
  "home_block lg tail = of_int (lh_block lg ! tail)"

definition head_block :: "log \<Rightarrow> uint" where
  "head_block lg = of_int (lstart lg)"

definition install_one :: "bool \<Rightarrow> log \<Rightarrow> nat \<Rightarrow> bcache \<Rightarrow> bcache result" where
  "install_one recovering lg tail s =
     (if \<not> tail < LOGSIZE then Inl (Fault ''lh.block'')
      else
        bnd (bread (ldev lg) (log_block lg tail) s) (\<lambda>(lbuf, s).
        bnd (bread (ldev lg) (home_block lg tail) s) (\<lambda>(dbuf, s).
        let s = set_data dbuf (bdata (buf_at s lbuf)) s in
        bnd (bwrite dbuf s) (\<lambda>s.
        let s = (if \<not> recovering then bunpin dbuf s else s) in
        bnd (brelse lbuf s) (brelse dbuf)))))"

definition install_trans :: "bool \<Rightarrow> log \<Rightarrow> bcache \<Rightarrow> bcache result" where
  "install_trans recovering lg s = for_each (install_one recovering lg) [0..<nat (lh_n lg)] s"

definition read_head :: "log \<Rightarrow> bcache \<Rightarrow> (log \<times> bcache) result" where
  "read_head lg s =
     bnd (bread (ldev lg) (head_block lg) s) (\<lambda>(b, s).
     let d = bdata (buf_at s b); n = sint (get32 d 0) in
     if nat n > LOGSIZE then Inl (Fault ''lh.block'')
     else
       let lg = lg\<lparr>lh_n := n,
             lh_block := map (\<lambda>i. if i < nat n then sint (get32 d (Suc i)) else lh_block lg ! i) [0..<LOGSIZE]\<rparr> in
       bnd (brelse b s) (\<lambda>s. Inr (lg, s)))"

definition head_data :: "log \<Rightarrow> block \<Rightarrow> block" where
  "head_data lg d = fold (\<lambda>i. put32 (Suc i) (of_int (lh_block lg ! i))) [0..<nat (lh_n lg)] (put32 0 (of_int (lh_n lg)) d)"

definition write_head :: "log \<Rightarrow> bcache \<Rightarrow> bcache result" where
  "write_head lg s =
     bnd (bread (ldev lg) (head_block lg) s) (\<lambda>(b, s).
     if nat (lh_n lg) > LOGSIZE then Inl (Fault ''lh.block'')
     else
       let s = set_data b (head_data lg (bdata (buf_at s b))) s in
       bnd (bwrite b s) (brelse b))"

definition recover_from_log :: "log \<Rightarrow> bcache \<Rightarrow> (log \<times> bcache) result" where
  "recover_from_log lg s =
     bnd (read_head lg s) (\<lambda>(lg, s).
     bnd (install_trans True lg s) (\<lambda>s.
     let lg = lg\<lparr>lh_n := 0\<rparr> in
     bnd (write_head lg s) (\<lambda>s. Inr (lg, s))))"

text \<open>\<open>initlog\<close>; the size of \<open>struct logheader\<close> is \<open>4 + 4 * LOGSIZE\<close>.\<close>

definition initlog :: "uint \<Rightarrow> uint \<Rightarrow> uint \<Rightarrow> log \<Rightarrow> bcache \<Rightarrow> (log \<times> bcache) result" where
  "initlog dev logstart nlog lg s =
     (if 4 + 4 * LOGSIZE \<ge> BSIZE then Inl (Panic ''initlog: too big logheader'')
      else recover_from_log (lg\<lparr>lstart := sint logstart, lsize := sint nlog, ldev := dev\<rparr>) s)"

definition begin_op :: "log \<Rightarrow> log option" where
  "begin_op lg =
     (if committing lg \<noteq> 0 then None
      else if lh_n lg + (outstanding lg + 1) * MAXOPBLOCKS > int LOGSIZE then None
      else Some (lg\<lparr>outstanding := outstanding lg + 1\<rparr>))"

definition write_log_one :: "log \<Rightarrow> nat \<Rightarrow> bcache \<Rightarrow> bcache result" where
  "write_log_one lg tail s =
     (if \<not> tail < LOGSIZE then Inl (Fault ''lh.block'')
      else
        bnd (bread (ldev lg) (log_block lg tail) s) (\<lambda>(to, s).
        bnd (bread (ldev lg) (home_block lg tail) s) (\<lambda>(from, s).
        let s = set_data to (bdata (buf_at s from)) s in
        bnd (bwrite to s) (\<lambda>s.
        bnd (brelse from s) (brelse to)))))"

definition write_log :: "log \<Rightarrow> bcache \<Rightarrow> bcache result" where
  "write_log lg s = for_each (write_log_one lg) [0..<nat (lh_n lg)] s"

definition commit :: "log \<Rightarrow> bcache \<Rightarrow> (log \<times> bcache) result" where
  "commit lg s =
     (if lh_n lg > 0 then
        bnd (write_log lg s) (\<lambda>s.
        bnd (write_head lg s) (\<lambda>s.
        bnd (install_trans False lg s) (\<lambda>s.
        let lg = lg\<lparr>lh_n := 0\<rparr> in
        bnd (write_head lg s) (\<lambda>s. Inr (lg, s)))))
      else Inr (lg, s))"

text \<open>\<open>end_op\<close> up to the decision to commit, and the whole call when nothing happens in between.\<close>

definition end_op_begin :: "log \<Rightarrow> (bool \<times> log) result" where
  "end_op_begin lg =
     (let lg = lg\<lparr>outstanding := outstanding lg - 1\<rparr> in
      if committing lg \<noteq> 0 then Inl (Panic ''log.committing'')
      else if outstanding lg = 0 then Inr (True, lg\<lparr>committing := 1\<rparr>)
      else Inr (False, lg))"

definition end_op :: "log \<Rightarrow> bcache \<Rightarrow> (log \<times> bcache) result" where
  "end_op lg s =
     bnd (end_op_begin lg) (\<lambda>(do_commit, lg).
       if do_commit then bnd (commit lg s) (\<lambda>(lg, s). Inr (lg\<lparr>committing := 0\<rparr>, s))
       else Inr (lg, s))"

text \<open>The position of block \<open>n\<close> in the header, or the first free one.\<close>

definition absorb_at :: "log \<Rightarrow> uint \<Rightarrow> nat" where
  "absorb_at lg n = (case find (\<lambda>i. of_int (lh_block lg ! i) = n) [0..<nat (lh_n lg)] of None \<Rightarrow> nat (lh_n lg) | Some i \<Rightarrow> i)"

definition log_write :: "nat \<Rightarrow> log \<Rightarrow> bcache \<Rightarrow> (log \<times> bcache) result" where
  "log_write b lg s =
     (if lh_n lg \<ge> int LOGSIZE \<or> lh_n lg \<ge> lsize lg - 1 then Inl (Panic ''too big a transaction'')
      else if outstanding lg < 1 then Inl (Panic ''log_write outside of trans'')
      else
        let n = blockno (buf_at s b); i = absorb_at lg n;
            lg = lg\<lparr>lh_block := (lh_block lg)[i := sint n]\<rparr> in
        if int i = lh_n lg then Inr (lg\<lparr>lh_n := lh_n lg + 1\<rparr>, bpin b s) else Inr (lg, s))"

section \<open>The header block\<close>

lemma LOGSIZE_num: "LOGSIZE = 30"
  by (simp add: LOGSIZE_def MAXOPBLOCKS_def)

lemma head_data_gen:
  assumes "length d = BSIZE" "m \<le> LOGSIZE"
  shows "length (fold (\<lambda>i. put32 (Suc i) (w i)) [0..<m] (put32 0 v d)) = BSIZE
    \<and> get32 (fold (\<lambda>i. put32 (Suc i) (w i)) [0..<m] (put32 0 v d)) 0 = v
    \<and> (\<forall>j < m. get32 (fold (\<lambda>i. put32 (Suc i) (w i)) [0..<m] (put32 0 v d)) (Suc j) = w j)"
  using assms(2)
proof (induction m)
  case 0
  then show ?case using assms(1) by (simp add: get32_put32 BSIZE_def)
next
  case (Suc m)
  let ?d = "fold (\<lambda>i. put32 (Suc i) (w i)) [0..<m] (put32 0 v d)"
  have "get32 (put32 (Suc m) (w m) ?d) j = (if j = Suc m then w m else get32 ?d j)" for j
    using Suc by (intro get32_put32) (simp add: BSIZE_def LOGSIZE_num)
  then show ?case using Suc by (simp add: less_Suc_eq)
qed

lemma head_data_read:
  assumes "length d = BSIZE" "nat (lh_n lg) \<le> LOGSIZE"
  shows "length (head_data lg d) = BSIZE" "get32 (head_data lg d) 0 = of_int (lh_n lg)"
    "j < nat (lh_n lg) \<Longrightarrow> get32 (head_data lg d) (Suc j) = home_block lg j"
  using head_data_gen[OF assms, of "\<lambda>i. of_int (lh_block lg ! i)" "of_int (lh_n lg)"]
  by (simp_all add: head_data_def home_block_def)

section \<open>One block transfer\<close>

text \<open>The cache between two operations.\<close>

abbreviation idle ::
  "uint \<Rightarrow> (uint \<Rightarrow> block) \<Rightarrow> (uint \<Rightarrow> uint) \<Rightarrow> (uint \<Rightarrow> block) \<Rightarrow> (uint \<times> block) list \<Rightarrow> bcache \<Rightarrow> bool" where
  "idle dev v r d h s \<equiv> cst dev v r (\<lambda>_. False) d h s"

lemma card_insert_room: "card {n. r n \<noteq> 0} < k \<Longrightarrow> card {n. (r(m := x)) n \<noteq> 0} \<le> k"
  for r :: "uint \<Rightarrow> uint"
proof -
  have "{n. (r(m := x)) n \<noteq> 0} \<subseteq> insert m {n. r n \<noteq> 0}" by auto
  then have "card {n. (r(m := x)) n \<noteq> 0} \<le> card (insert m {n. r n \<noteq> 0})"
    by (intro card_mono) auto
  also have "\<dots> \<le> Suc (card {n. r n \<noteq> 0})" by (rule card_insert_le_m1) auto
  finally show "card {n. r n \<noteq> 0} < k \<Longrightarrow> card {n. (r(m := x)) n \<noteq> 0} \<le> k" by simp
qed

lemma write_head_ok:
  assumes i: "idle (ldev lg) v r d h s" and r: "r (head_block lg) = 0" "card {n. r n \<noteq> 0} < NBUF" and n: "nat (lh_n lg) \<le> LOGSIZE"
    and w: "w = head_data lg (v (head_block lg))"
  shows "\<exists>s'. write_head lg s = Inr s' \<and> idle (ldev lg) (v(head_block lg := w)) r (d(head_block lg := w)) (h @ [(head_block lg, w)]) s'"
proof -
  let ?n = "head_block lg"
  obtain b s1 where s1: "bread (ldev lg) ?n s = Inr (b, s1)" "cst (ldev lg) v (r(?n := 1)) ((\<lambda>_. False)(?n := True)) d h s1" "is_buf (ldev lg) s1 ?n b"
    using bread_c[OF i, of ?n] r by auto
  have s2: "cst (ldev lg) (v(?n := w)) (r(?n := 1)) ((\<lambda>_. False)(?n := True)) d h (set_data b w s1)" "is_buf (ldev lg) (set_data b w s1) ?n b"
    using set_data_c[OF s1(2,3), where b = w] s1(3) by simp_all
  obtain s3 where s3: "bwrite b (set_data b w s1) = Inr s3" "is_buf (ldev lg) s3 ?n b"
      "cst (ldev lg) (v(?n := w)) (r(?n := 1)) ((\<lambda>_. False)(?n := True)) (d(?n := w)) (h @ [(?n, w)]) s3"
    using bwrite_c[OF s2] s2(2) by auto
  obtain s4 where s4: "brelse b s3 = Inr s4" "idle (ldev lg) (v(?n := w)) r (d(?n := w)) (h @ [(?n, w)]) s4"
    using brelse_c[OF s3(3,2)] r(1) by (auto simp: fun_upd_idem)
  have "write_head lg s = Inr s4"
    using s1(1) cst_view[OF s1(2,3)] n s3(1) s4(1) by (simp add: write_head_def w Let_def)
  then show ?thesis using s4(2) by blast
qed

text \<open>Copying a pinned block to its place in the log.\<close>

lemma write_log_one_ok:
  assumes i: "idle (ldev lg) v r d h s" and t: "t < LOGSIZE" and L: "L = log_block lg t" and H: "H = home_block lg t" and ne: "L \<noteq> H"
    and r: "r L = 0" "r H = 1" "card {n. r n \<noteq> 0} < NBUF"
  shows "\<exists>s'. write_log_one lg t s = Inr s' \<and> idle (ldev lg) (v(L := v H)) r (d(L := v H)) (h @ [(L, v H)]) s'"
proof -
  let ?D = "ldev lg"
  obtain b s1 where s1: "bread ?D L s = Inr (b, s1)" "cst ?D v (r(L := 1)) ((\<lambda>_. False)(L := True)) d h s1" "is_buf ?D s1 L b"
    using bread_c[OF i, of L] r by auto
  obtain c s2 where s2: "bread ?D H s1 = Inr (c, s2)" "cst ?D v (r(L := 1, H := 2)) ((\<lambda>_. False)(L := True, H := True)) d h s2"
      "is_buf ?D s2 H c" "is_buf ?D s2 L b"
    using bread_c[OF s1(2), of H] r ne s1(3) by auto
  define w where "w = v H"
  have s3: "cst ?D (v(L := w)) (r(L := 1, H := 2)) ((\<lambda>_. False)(L := True, H := True)) d h (set_data b w s2)"
      "is_buf ?D (set_data b w s2) L b" "is_buf ?D (set_data b w s2) H c"
    using set_data_c[OF s2(2,4), where b = w] s2(3,4) ne by simp_all
  obtain s4 where s4: "bwrite b (set_data b w s2) = Inr s4" "is_buf ?D s4 L b" "is_buf ?D s4 H c"
      "cst ?D (v(L := w)) (r(L := 1, H := 2)) ((\<lambda>_. False)(L := True, H := True)) (d(L := w)) (h @ [(L, w)]) s4"
    using bwrite_c[OF s3(1,2)] s3(2,3) ne by auto
  obtain s5 where s5: "brelse c s4 = Inr s5" "is_buf ?D s5 L b"
      "cst ?D (v(L := w)) (r(L := 1, H := 1)) ((\<lambda>_. False)(L := True, H := False)) (d(L := w)) (h @ [(L, w)]) s5"
    using brelse_c[OF s4(4,3)] s4(2) by auto
  obtain s6 where s6: "brelse b s5 = Inr s6" "cst ?D (v(L := w)) ((r(L := 1, H := 1))(L := 0)) (((\<lambda>_. False)(L := True, H := False))(L := False)) (d(L := w)) (h @ [(L, w)]) s6"
    using brelse_c[OF s5(3,2)] ne by auto
  have "(r(L := 1, H := 1))(L := 0) = r" "((\<lambda>_. False)(L := True, H := False))(L := False) = (\<lambda>_. False)"
    using r ne by (auto simp: fun_eq_iff)
  then have "idle ?D (v(L := w)) r (d(L := w)) (h @ [(L, w)]) s6" using s6(2) by simp
  moreover have "write_log_one lg t s = Inr s6"
    using t s1(1) s2(1) s4(1) s5(1) s6(1) cst_view[OF s2(2,3)] by (simp add: write_log_one_def L H Let_def w_def)
  ultimately show ?thesis by (auto simp: w_def)
qed

end
