(* ===== verification/Log_Commit.thy ===== *)
theory Log_Commit
  imports Log
begin

text \<open>
  What a commit and a recovery write, as explicit sequences of block writes, and the crash theorem
  they give: recovering after any prefix of the commit's writes leaves the disk as it was before the
  transaction or as it is after it.
\<close>

section \<open>Installing one block\<close>

lemma install_one_ok:
  assumes i: "idle (ldev lg) v r d h s" and t: "t < LOGSIZE" and L: "L = log_block lg t" and H: "H = home_block lg t" and ne: "L \<noteq> H"
    and r: "r L = 0" "r H = (if rec then 0 else 1)" "Suc (card {n. r n \<noteq> 0}) < NBUF \<or> \<not> rec" "card {n. r n \<noteq> 0} < NBUF"
  shows "\<exists>s'. install_one rec lg t s = Inr s' \<and> idle (ldev lg) (v(H := v L)) (r(H := 0)) (d(H := v L)) (h @ [(H, v L)]) s'"
proof -
  let ?D = "ldev lg"
  obtain b s1 where s1: "bread ?D L s = Inr (b, s1)" "cst ?D v (r(L := 1)) ((\<lambda>_. False)(L := True)) d h s1" "is_buf ?D s1 L b"
    using bread_c[OF i, of L] r by auto
  have room: "(r(L := 1)) H \<noteq> 0 \<or> card {n. (r(L := 1)) n \<noteq> 0} < NBUF"
  proof (cases rec)
    case True
    then show ?thesis using r(3) card_insert_room[of r "NBUF - 1" L 1] by linarith
  qed (use r(2) ne in simp)
  have "r H + 1 \<noteq> 0" "r H \<noteq> -1" using r(2) by (auto split: if_splits)
  then obtain c s2 where s2: "bread ?D H s1 = Inr (c, s2)" "cst ?D v (r(L := 1, H := r H + 1)) ((\<lambda>_. False)(L := True, H := True)) d h s2"
      "is_buf ?D s2 H c" "is_buf ?D s2 L b"
    using bread_c[OF s1(2), of H] room ne s1(3) by auto
  define w where "w = v L"
  have s3: "cst ?D (v(H := w)) (r(L := 1, H := r H + 1)) ((\<lambda>_. False)(L := True, H := True)) d h (set_data c w s2)"
      "is_buf ?D (set_data c w s2) L b" "is_buf ?D (set_data c w s2) H c"
    using set_data_c[OF s2(2,3), where b = w] s2(3,4) ne \<open>r H + 1 \<noteq> 0\<close> by simp_all
  obtain s4 where s4: "bwrite c (set_data c w s2) = Inr s4" "is_buf ?D s4 L b" "is_buf ?D s4 H c"
      "cst ?D (v(H := w)) (r(L := 1, H := r H + 1)) ((\<lambda>_. False)(L := True, H := True)) (d(H := w)) (h @ [(H, w)]) s4"
    using bwrite_c[OF s3(1,3)] s3(2,3) ne by auto
  define s5 where "s5 = (if \<not> rec then bunpin c s4 else s4)"
  have s5: "cst ?D (v(H := w)) (r(L := 1, H := 1)) ((\<lambda>_. False)(L := True, H := True)) (d(H := w)) (h @ [(H, w)]) s5"
      "is_buf ?D s5 L b" "is_buf ?D s5 H c"
    using bunpin_c[OF s4(4,3)] s4 r(2) ne by (auto simp: s5_def)
  have clean: "v L = d L" using cst_clean[OF i r(1)] .
  obtain s6 where s6: "brelse b s5 = Inr s6" "is_buf ?D s6 H c"
      "cst ?D (v(H := w)) ((r(L := 1, H := 1))(L := 0)) (((\<lambda>_. False)(L := True, H := True))(L := False)) (d(H := w)) (h @ [(H, w)]) s6"
    using brelse_c[OF s5(1,2)] s5(3) ne clean by auto
  obtain s7 where s7: "brelse c s6 = Inr s7"
      "cst ?D (v(H := w)) ((r(L := 1, H := 1))(L := 0, H := 0)) (((\<lambda>_. False)(L := True, H := True))(L := False, H := False)) (d(H := w)) (h @ [(H, w)]) s7"
    using brelse_c[OF s6(3,2)] ne by auto
  have "(r(L := 1, H := 1))(L := 0, H := 0) = r(H := 0)" "((\<lambda>_. False)(L := True, H := True))(L := False, H := False) = (\<lambda>_. False)"
    using r ne by (auto simp: fun_eq_iff)
  then have "idle ?D (v(H := w)) (r(H := 0)) (d(H := w)) (h @ [(H, w)]) s7" using s7(2) by simp
  moreover have "install_one rec lg t s = Inr s7"
    using t s1(1) s2(1) s4(1) s6(1) s7(1) cst_view[OF s2(2,4)] by (simp add: install_one_def L H Let_def w_def s5_def)
  ultimately show ?thesis by (auto simp: w_def)
qed

section \<open>The loops\<close>

definition in_log :: "log \<Rightarrow> uint \<Rightarrow> bool" where
  "in_log lg b \<longleftrightarrow> (\<exists>j. lstart lg \<le> j \<and> j < lstart lg + lsize lg \<and> b = of_int j)"

text \<open>A log whose transaction fits, of distinct blocks outside the log itself.\<close>

definition log_ok :: "log \<Rightarrow> bool" where
  "log_ok lg \<longleftrightarrow> ldev lg \<noteq> 0 \<and> 0 \<le> lstart lg \<and> lstart lg + lsize lg < 2 ^ 31 \<and> 0 \<le> lh_n lg \<and> lh_n lg < lsize lg
     \<and> lh_n lg \<le> int LOGSIZE \<and> lh_n lg < int NBUF \<and> length (lh_block lg) = LOGSIZE
     \<and> (\<forall>i < nat (lh_n lg). \<not> in_log lg (home_block lg i)
          \<and> (\<forall>j < nat (lh_n lg). home_block lg i = home_block lg j \<longrightarrow> i = j))"

lemma of_int_uint_eq:
  assumes "0 \<le> i" "i < 2 ^ 32" "0 \<le> j" "j < 2 ^ 32"
  shows "(of_int i :: uint) = of_int j \<longleftrightarrow> i = j"
proof
  assume "(of_int i :: uint) = of_int j"
  then have "uint (of_int i :: uint) = uint (of_int j :: uint)" by simp
  then show "i = j" using assms by (simp add: uint_word_of_int)
qed simp

lemma log_okD:
  assumes "log_ok lg" "i < nat (lh_n lg)"
  shows "i < LOGSIZE" "log_block lg i \<noteq> head_block lg" "in_log lg (log_block lg i)" "in_log lg (head_block lg)"
    "\<not> in_log lg (home_block lg i)"
    "j < nat (lh_n lg) \<Longrightarrow> log_block lg i = log_block lg j \<longleftrightarrow> i = j"
    "j < nat (lh_n lg) \<Longrightarrow> home_block lg i = home_block lg j \<longleftrightarrow> i = j"
    "j < nat (lh_n lg) \<Longrightarrow> log_block lg i \<noteq> home_block lg j"
    "home_block lg i \<noteq> head_block lg"
proof -
  have b: "0 \<le> lstart lg" "lstart lg + lsize lg < 2 ^ 31" "int i + 1 < lsize lg + 1" "int i < lh_n lg" "lh_n lg < lsize lg"
    using assms by (auto simp: log_ok_def)
  show "i < LOGSIZE" using assms by (auto simp: log_ok_def)
  show "log_block lg i \<noteq> head_block lg"
    unfolding log_block_def head_block_def using b by (subst of_int_uint_eq) auto
  have L: "in_log lg (log_block lg k)" if "k < nat (lh_n lg)" for k
    unfolding in_log_def log_block_def using b that by (intro exI[of _ "lstart lg + int k + 1"]) auto
  show "in_log lg (log_block lg i)" using L assms(2) by blast
  show hd: "in_log lg (head_block lg)" unfolding in_log_def head_block_def using b by (intro exI[of _ "lstart lg"]) auto
  show H: "\<not> in_log lg (home_block lg i)" using assms by (simp add: log_ok_def)
  show "log_block lg i = log_block lg j \<longleftrightarrow> i = j" if "j < nat (lh_n lg)"
    unfolding log_block_def using b that by (subst of_int_uint_eq) auto
  show "home_block lg i = home_block lg j \<longleftrightarrow> i = j" if "j < nat (lh_n lg)" using assms that by (auto simp: log_ok_def)
  show "log_block lg i \<noteq> home_block lg j" if "j < nat (lh_n lg)"
    using L[OF assms(2)] assms(1) that by (auto simp: log_ok_def)
  show "home_block lg i \<noteq> head_block lg" using hd H by auto
qed

definition pinned :: "log \<Rightarrow> nat \<Rightarrow> uint \<Rightarrow> uint" where
  "pinned lg k b = (if \<exists>i. k \<le> i \<and> i < nat (lh_n lg) \<and> b = home_block lg i then 1 else 0)"

lemma pinned_simps:
  assumes "log_ok lg" "i < nat (lh_n lg)" "k \<le> i"
  shows "pinned lg k (home_block lg i) = 1" "pinned lg k' (log_block lg i) = 0" "(pinned lg i)(home_block lg i := 0) = pinned lg (Suc i)"
    "card {n. pinned lg k n \<noteq> 0} < NBUF"
proof -
  show "pinned lg k (home_block lg i) = 1" using assms(2,3) by (auto simp: pinned_def)
  show "pinned lg k' (log_block lg i) = 0" using log_okD(8)[OF assms(1,2)] by (auto simp: pinned_def)
  show "(pinned lg i)(home_block lg i := 0) = pinned lg (Suc i)"
    using log_okD(7)[OF assms(1,2)] by (auto simp: pinned_def fun_eq_iff Suc_le_eq) (metis le_eq_less_or_eq)+
  have "{n. pinned lg k n \<noteq> 0} \<subseteq> home_block lg ` {..<nat (lh_n lg)}" by (auto simp: pinned_def split: if_splits)
  then have "card {n. pinned lg k n \<noteq> 0} \<le> card {..<nat (lh_n lg)}" by (meson card_image_le card_mono finite_imageI finite_lessThan order_trans)
  then show "card {n. pinned lg k n \<noteq> 0} < NBUF" using assms(1,2) by (auto simp: log_ok_def)
qed

definition log_writes :: "log \<Rightarrow> (uint \<Rightarrow> block) \<Rightarrow> nat \<Rightarrow> (uint \<times> block) list" where
  "log_writes lg v k = map (\<lambda>i. (log_block lg i, v (home_block lg i))) [0..<k]"

definition home_writes :: "log \<Rightarrow> (uint \<Rightarrow> block) \<Rightarrow> nat \<Rightarrow> (uint \<times> block) list" where
  "home_writes lg v k = map (\<lambda>i. (home_block lg i, v (log_block lg i))) [0..<k]"

lemma writes_Suc:
  "log_writes lg v (Suc k) = log_writes lg v k @ [(log_block lg k, v (home_block lg k))]"
  "home_writes lg v (Suc k) = home_writes lg v k @ [(home_block lg k, v (log_block lg k))]"
  by (simp_all add: log_writes_def home_writes_def)

lemma for_each_Suc: "for_each f [0..<Suc k] s = bnd (for_each f [0..<k] s) (f k)"
  by (simp add: for_each_append) (rule bnd_cong; simp)

lemma apply_log_writes_home:
  assumes "log_ok lg" "i < nat (lh_n lg)" "k \<le> nat (lh_n lg)"
  shows "apply_writes (log_writes lg v k) v' (home_block lg i) = v' (home_block lg i)"
proof (rule apply_writes_other)
  show "home_block lg i \<notin> fst ` set (log_writes lg v k)"
    using log_okD(3)[OF assms(1)] log_okD(5)[OF assms(1,2)] assms(3) by (force simp: log_writes_def)
qed

lemma apply_home_writes_log:
  assumes "log_ok lg" "in_log lg b" "k \<le> nat (lh_n lg)"
  shows "apply_writes (home_writes lg v k) v' b = v' b"
proof (rule apply_writes_other)
  show "b \<notin> fst ` set (home_writes lg v k)"
    using log_okD(5)[OF assms(1)] assms(2,3) by (force simp: home_writes_def)
qed

lemma write_log_loop:
  assumes ok: "log_ok lg" and i: "idle (ldev lg) v (pinned lg 0) d h s" and k: "k \<le> nat (lh_n lg)"
  shows "\<exists>s'. for_each (write_log_one lg) [0..<k] s = Inr s'
    \<and> idle (ldev lg) (apply_writes (log_writes lg v k) v) (pinned lg 0) (apply_writes (log_writes lg v k) d) (h @ log_writes lg v k) s'"
  using k
proof (induction k)
  case (Suc k)
  then obtain s1 where s1: "for_each (write_log_one lg) [0..<k] s = Inr s1"
    "idle (ldev lg) (apply_writes (log_writes lg v k) v) (pinned lg 0) (apply_writes (log_writes lg v k) d) (h @ log_writes lg v k) s1"
    by auto
  have kn: "k < nat (lh_n lg)" using Suc.prems by simp
  have h: "apply_writes (log_writes lg v k) v (home_block lg k) = v (home_block lg k)"
    using apply_log_writes_home[OF ok kn] kn by simp
  have "log_block lg k \<noteq> home_block lg k" using log_okD(8)[OF ok kn kn] .
  from write_log_one_ok[OF s1(2) log_okD(1)[OF ok kn] refl refl this pinned_simps(2)[OF ok kn order_refl]
      pinned_simps(1)[OF ok kn le0] pinned_simps(4)[OF ok kn le0]]
  show ?case unfolding h for_each_Suc s1(1) writes_Suc apply_writes_snoc bnd_Inr append_assoc .
qed (use i in \<open>auto simp: log_writes_def\<close>)

lemma install_loop:
  assumes ok: "log_ok lg" and i: "idle (ldev lg) v r d h s" and k: "k \<le> nat (lh_n lg)"
    and r: "r = (if rec then (\<lambda>_. 0) else pinned lg 0)"
  shows "\<exists>s'. for_each (install_one rec lg) [0..<k] s = Inr s'
    \<and> idle (ldev lg) (apply_writes (home_writes lg v k) v) (if rec then (\<lambda>_. 0) else pinned lg k)
        (apply_writes (home_writes lg v k) d) (h @ home_writes lg v k) s'"
  using k
proof (induction k)
  case (Suc k)
  let ?r = "\<lambda>k. if rec then (\<lambda>_. 0) else pinned lg k"
  from Suc obtain s1 where s1: "for_each (install_one rec lg) [0..<k] s = Inr s1"
    "idle (ldev lg) (apply_writes (home_writes lg v k) v) (?r k) (apply_writes (home_writes lg v k) d) (h @ home_writes lg v k) s1"
    by auto
  have kn: "k < nat (lh_n lg)" using Suc.prems by simp
  have h: "apply_writes (home_writes lg v k) v (log_block lg k) = v (log_block lg k)"
    using apply_home_writes_log[OF ok log_okD(3)[OF ok kn]] kn by simp
  have ne: "log_block lg k \<noteq> home_block lg k" using log_okD(8)[OF ok kn kn] .
  have p: "?r k (log_block lg k) = 0" "?r k (home_block lg k) = (if rec then 0 else 1)" "card {n. ?r k n \<noteq> 0} < NBUF"
    "Suc (card {n. ?r k n \<noteq> 0}) < NBUF \<or> \<not> rec" "(?r k)(home_block lg k := 0) = ?r (Suc k)"
    using pinned_simps[OF ok kn order_refl] by (auto simp: NBUF_def)
  from install_one_ok[OF s1(2) log_okD(1)[OF ok kn] refl refl ne p(1,2,4,3)]
  show ?case unfolding h for_each_Suc s1(1) writes_Suc apply_writes_snoc bnd_Inr append_assoc p(5) .
qed (use i r in \<open>auto simp: home_writes_def\<close>)

section \<open>Commit and recovery\<close>

text \<open>The writes of a commit, in order, from the contents \<open>v\<close> of the blocks.\<close>

definition commit_writes :: "log \<Rightarrow> (uint \<Rightarrow> block) \<Rightarrow> (uint \<times> block) list" where
  "commit_writes lg v =
     (let hd = head_data lg (v (head_block lg)); n = nat (lh_n lg) in
      log_writes lg v n @ [(head_block lg, hd)] @ map (\<lambda>i. (home_block lg i, v (home_block lg i))) [0..<n]
        @ [(head_block lg, head_data (lg\<lparr>lh_n := 0\<rparr>) hd)])"

lemma apply_log_writes_log:
  assumes "log_ok lg" "i < nat (lh_n lg)"
  shows "apply_writes (log_writes lg v (nat (lh_n lg))) v' (log_block lg i) = v (home_block lg i)"
proof (rule apply_writes_distinct)
  show "distinct (map fst (log_writes lg v (nat (lh_n lg))))"
    using log_okD(6)[OF assms(1)] by (auto simp: log_writes_def distinct_map inj_on_def)
  show "(log_block lg i, v (home_block lg i)) \<in> set (log_writes lg v (nat (lh_n lg)))"
    using assms(2) by (auto simp: log_writes_def)
qed

lemma commit_ok:
  assumes ok: "log_ok lg" and n: "0 < lh_n lg" and i: "idle (ldev lg) v (pinned lg 0) d h s"
  shows "\<exists>s'. commit lg s = Inr (lg\<lparr>lh_n := 0\<rparr>, s')
    \<and> idle (ldev lg) (apply_writes (commit_writes lg v) v) (\<lambda>_. 0) (apply_writes (commit_writes lg v) d) (h @ commit_writes lg v) s'"
proof -
  let ?n = "nat (lh_n lg)" and ?D = "ldev lg" and ?S = "head_block lg"
  have n0: "0 < ?n" using n by simp
  define ws1 where "ws1 = log_writes lg v ?n"
  define v1 where "v1 = apply_writes ws1 v"
  define d1 where "d1 = apply_writes ws1 d"
  obtain s1 where s1: "write_log lg s = Inr s1" "idle ?D v1 (pinned lg 0) d1 (h @ ws1) s1"
    using write_log_loop[OF ok i order_refl] by (auto simp: write_log_def ws1_def v1_def d1_def)
  have S1: "v1 ?S = v ?S" unfolding v1_def ws1_def
    by (rule apply_writes_other) (use log_okD(2)[OF ok] in \<open>force simp: log_writes_def\<close>)
  have pS: "pinned lg 0 ?S = 0" using log_okD(9)[OF ok] by (metis pinned_def)
  have room: "card {n. pinned lg 0 n \<noteq> 0} < NBUF" using pinned_simps(4)[OF ok n0, of 0] by simp
  have size: "?n \<le> LOGSIZE" using ok by (simp add: log_ok_def nat_le_iff)
  define hd where "hd = head_data lg (v ?S)"
  obtain s2 where s2: "write_head lg s1 = Inr s2" "idle ?D (v1(?S := hd)) (pinned lg 0) (d1(?S := hd)) ((h @ ws1) @ [(?S, hd)]) s2"
    using write_head_ok[OF s1(2) pS room size refl] unfolding S1 hd_def by blast
  have hw: "home_writes lg (v1(?S := hd)) ?n = map (\<lambda>i. (home_block lg i, v (home_block lg i))) [0..<?n]"
    using log_okD(2)[OF ok] apply_log_writes_log[OF ok] by (auto simp: home_writes_def v1_def ws1_def)
  define ws3 where "ws3 = map (\<lambda>i. (home_block lg i, v (home_block lg i))) [0..<?n]"
  have p0: "pinned lg ?n = (\<lambda>_. 0)" by (auto simp: pinned_def fun_eq_iff)
  obtain s3 where s3: "install_trans False lg s2 = Inr s3"
      "idle ?D (apply_writes ws3 (v1(?S := hd))) (\<lambda>_. 0) (apply_writes ws3 (d1(?S := hd))) (((h @ ws1) @ [(?S, hd)]) @ ws3) s3"
    using install_loop[OF ok s2(2) order_refl, of False] by (auto simp: install_trans_def hw p0 ws3_def)
  have S3: "apply_writes ws3 (v1(?S := hd)) ?S = hd"
    using apply_home_writes_log[OF ok log_okD(4)[OF ok n0] order_refl, of "v1(?S := hd)" "v1(?S := hd)"] hw by (simp add: ws3_def)
  define lg0 where "lg0 = lg\<lparr>lh_n := 0\<rparr>"
  have lg0: "ldev lg0 = ?D" "head_block lg0 = ?S" "nat (lh_n lg0) \<le> LOGSIZE" by (simp_all add: lg0_def head_block_def)
  obtain s4 where s4: "write_head lg0 s3 = Inr s4" and i4: "idle ?D ((apply_writes ws3 (v1(?S := hd)))(?S := head_data lg0 hd)) (\<lambda>_. 0)
      ((apply_writes ws3 (d1(?S := hd)))(?S := head_data lg0 hd)) ((((h @ ws1) @ [(?S, hd)]) @ ws3) @ [(?S, head_data lg0 hd)]) s4"
    using write_head_ok[of lg0, unfolded lg0(1,2), OF s3(2) _ _ lg0(3) refl] S3 by (auto simp: NBUF_def)
  have "commit lg s = Inr (lg0, s4)" using n s1(1) s2(1) s3(1) s4 by (simp add: commit_def Let_def lg0_def)
  moreover have cw: "commit_writes lg v = ws1 @ [(?S, hd)] @ ws3 @ [(?S, head_data lg0 hd)]"
    by (simp add: commit_writes_def Let_def ws1_def hd_def ws3_def lg0_def)
  have "idle ?D (apply_writes (commit_writes lg v) v) (\<lambda>_. 0) (apply_writes (commit_writes lg v) d) (h @ commit_writes lg v) s4"
    using i4 unfolding cw v1_def d1_def by (simp del: fun_upd_apply)
  ultimately show ?thesis by (simp add: lg0_def)
qed

text \<open>The in-memory header after \<open>read_head\<close> of the block contents \<open>b\<close>.\<close>

definition head_of :: "log \<Rightarrow> block \<Rightarrow> log" where
  "head_of lg b = (let n = sint (get32 b 0) in
     lg\<lparr>lh_n := n, lh_block := map (\<lambda>i. if i < nat n then sint (get32 b (Suc i)) else lh_block lg ! i) [0..<LOGSIZE]\<rparr>)"

lemma head_of_fields [simp]:
  "ldev (head_of lg b) = ldev lg" "lstart (head_of lg b) = lstart lg" "lsize (head_of lg b) = lsize lg"
  "head_block (head_of lg b) = head_block lg" "log_block (head_of lg b) = log_block lg" "lh_n (head_of lg b) = sint (get32 b 0)"
  "in_log (head_of lg b) = in_log lg" "length (lh_block (head_of lg b)) = LOGSIZE"
  by (simp_all add: head_of_def Let_def head_block_def log_block_def in_log_def fun_eq_iff)

lemma home_head_of: "i < nat (sint (get32 b 0)) \<Longrightarrow> i < LOGSIZE \<Longrightarrow> home_block (head_of lg b) i = get32 b (Suc i)"
  by (simp add: home_block_def head_of_def Let_def)

lemma read_head_ok:
  assumes i: "idle (ldev lg) v r d h s" and r: "r (head_block lg) = 0" "card {n. r n \<noteq> 0} < NBUF"
    and n: "nat (sint (get32 (v (head_block lg)) 0)) \<le> LOGSIZE"
  shows "\<exists>s'. read_head lg s = Inr (head_of lg (v (head_block lg)), s') \<and> idle (ldev lg) v r d h s'"
proof -
  let ?n = "head_block lg"
  obtain b s1 where s1: "bread (ldev lg) ?n s = Inr (b, s1)" "cst (ldev lg) v (r(?n := 1)) ((\<lambda>_. False)(?n := True)) d h s1" "is_buf (ldev lg) s1 ?n b"
    using bread_c[OF i, of ?n] r by auto
  have "v ?n = d ?n" using cst_clean[OF i r(1)] .
  then obtain s2 where s2: "brelse b s1 = Inr s2" "idle (ldev lg) v r d h s2"
    using brelse_c[OF s1(2,3)] r(1) by (auto simp: fun_upd_idem)
  have "read_head lg s = Inr (head_of lg (v ?n), s2)"
    using s1(1) s2(1) n cst_view[OF s1(2,3)] by (simp add: read_head_def Let_def head_of_def)
  then show ?thesis using s2(2) by blast
qed

text \<open>Recovery writes the logged blocks home and clears the header.\<close>

definition recover_writes :: "log \<Rightarrow> (uint \<Rightarrow> block) \<Rightarrow> (uint \<times> block) list" where
  "recover_writes lg d = (let lg = head_of lg (d (head_block lg)) in
     home_writes lg d (nat (lh_n lg)) @ [(head_block lg, head_data (lg\<lparr>lh_n := 0\<rparr>) (d (head_block lg)))])"

lemma recover_ok:
  assumes ok: "log_ok (head_of lg (d (head_block lg)))"
  shows "\<exists>s'. recover_from_log lg (binit d) = Inr ((head_of lg (d (head_block lg)))\<lparr>lh_n := 0\<rparr>, s')
    \<and> idle (ldev lg) (apply_writes (recover_writes lg d) d) (\<lambda>_. 0) (apply_writes (recover_writes lg d) d) (recover_writes lg d) s'"
proof -
  let ?S = "head_block lg"
  define lg1 where "lg1 = head_of lg (d ?S)"
  define n where "n = nat (lh_n lg1)"
  have dev: "ldev lg \<noteq> 0" using ok by (simp add: log_ok_def)
  have room: "card {n. (\<lambda>_ :: uint. 0 :: uint) n \<noteq> 0} < NBUF" by (simp add: NBUF_def)
  have n: "nat (sint (get32 (d ?S) 0)) \<le> LOGSIZE" using ok by (simp add: log_ok_def nat_le_iff)
  obtain s1 where s1: "read_head lg (binit d) = Inr (lg1, s1)" "idle (ldev lg1) d (\<lambda>_. 0) d [] s1"
    using read_head_ok[OF binit_c[OF dev, of d] _ room n] by (auto simp: lg1_def)
  have ok1: "log_ok lg1" using ok by (simp add: lg1_def)
  define ws where "ws = home_writes lg1 d n"
  obtain s2 where s2: "install_trans True lg1 s1 = Inr s2" "idle (ldev lg1) (apply_writes ws d) (\<lambda>_. 0) (apply_writes ws d) ws s2"
    using install_loop[OF ok1 s1(2), of n True] by (auto simp: install_trans_def n_def ws_def)
  have "0 < lsize lg1" "0 \<le> lstart lg1" using ok1 by (auto simp: log_ok_def)
  then have "in_log lg1 (head_block lg1)" unfolding in_log_def head_block_def by (intro exI[of _ "lstart lg1"]) auto
  then have S2: "apply_writes ws d (head_block lg1) = d ?S"
    using apply_home_writes_log[OF ok1 _ order_refl, of "head_block lg1" d d] by (simp add: ws_def n_def lg1_def)
  define lg0 where "lg0 = lg1\<lparr>lh_n := 0\<rparr>"
  have lg0: "ldev lg0 = ldev lg1" "head_block lg0 = head_block lg1" "nat (lh_n lg0) \<le> LOGSIZE" by (simp_all add: lg0_def head_block_def)
  define w where "w = head_data lg0 (d ?S)"
  obtain s3 where s3: "write_head lg0 s2 = Inr s3" "idle (ldev lg1) (apply_writes (ws @ [(?S, w)]) d) (\<lambda>_. 0) (apply_writes (ws @ [(?S, w)]) d) (ws @ [(?S, w)]) s3"
    using write_head_ok[of lg0, unfolded lg0(1,2), OF s2(2) refl room lg0(3) refl] S2
    unfolding apply_writes_snoc by (auto simp: w_def lg1_def)
  have "recover_from_log lg (binit d) = Inr (lg0, s3)" using s1(1) s2(1) s3(1) by (simp add: recover_from_log_def lg0_def Let_def)
  moreover have "recover_writes lg d = ws @ [(?S, w)]"
    by (simp add: recover_writes_def Let_def lg1_def ws_def n_def w_def lg0_def)
  ultimately show ?thesis using s3(2) by (simp add: lg0_def lg1_def)
qed

section \<open>Crashes\<close>

text \<open>Recovering a disk whose header is empty, or holds the transaction, in data blocks.\<close>

lemma recover_empty:
  assumes "get32 (d (head_block lg)) 0 = 0" "\<not> in_log lg b" "in_log lg (head_block lg)"
  shows "apply_writes (recover_writes lg d) d b = d b"
proof -
  have "b \<noteq> head_block lg" using assms(2,3) by auto
  then show ?thesis using assms(1) by (simp add: recover_writes_def Let_def home_writes_def)
qed

lemma recover_full:
  assumes ok: "log_ok lg" and lg': "log_block lg' = log_block lg" "head_block lg' = head_block lg"
    and n: "get32 (d (head_block lg)) 0 = of_int (lh_n lg)"
    and hb: "\<And>j. j < nat (lh_n lg) \<Longrightarrow> get32 (d (head_block lg)) (Suc j) = home_block lg j"
    and lb: "\<And>j. j < nat (lh_n lg) \<Longrightarrow> d (log_block lg j) = v (home_block lg j)"
    and b: "\<not> in_log lg b" and S: "in_log lg (head_block lg)"
  shows "apply_writes (recover_writes lg' d) d b = (if b \<in> home_block lg ` {..<nat (lh_n lg)} then v b else d b)"
proof -
  have "lh_n lg < 2 ^ 31" using ok by (simp add: log_ok_def LOGSIZE_num)
  then have n': "sint (of_int (lh_n lg) :: uint) = lh_n lg"
    using ok by (simp add: sint_sbintrunc' signed_take_bit_int_eq_self log_ok_def)
  have "home_writes (head_of lg' (d (head_block lg))) d (nat (lh_n lg)) = map (\<lambda>i. (home_block lg i, v (home_block lg i))) [0..<nat (lh_n lg)]"
    using log_okD(1)[OF ok] hb lb n n' by (auto simp: home_writes_def home_head_of lg'(1))
  then have rw: "recover_writes lg' d = map (\<lambda>i. (home_block lg i, v (home_block lg i))) [0..<nat (lh_n lg)]
      @ [(head_block lg, head_data ((head_of lg' (d (head_block lg)))\<lparr>lh_n := 0\<rparr>) (d (head_block lg)))]"
    by (simp add: recover_writes_def Let_def lg' n n')
  have "b \<noteq> head_block lg" using b S by auto
  moreover have "apply_writes (map (\<lambda>i. (home_block lg i, v (home_block lg i))) [0..<nat (lh_n lg)]) d b
      = (if b \<in> home_block lg ` {..<nat (lh_n lg)} then v b else d b)"
  proof (cases "b \<in> home_block lg ` {..<nat (lh_n lg)}")
    case True
    have "distinct (map fst (map (\<lambda>i. (home_block lg i, v (home_block lg i))) [0..<nat (lh_n lg)]))"
      using log_okD(7)[OF ok] by (auto simp: distinct_map inj_on_def)
    then show ?thesis using True by (auto intro!: apply_writes_distinct)
  next
    case False
    then have nb: "b \<notin> fst ` set (map (\<lambda>i. (home_block lg i, v (home_block lg i))) [0..<nat (lh_n lg)])" by force
    show ?thesis unfolding apply_writes_other[OF nb] using False by simp
  qed
  ultimately show ?thesis unfolding rw apply_writes_snoc by simp
qed

text \<open>The disk after a crash in the middle of a commit: the first \<open>k\<close> writes have happened.\<close>

definition crashed :: "log \<Rightarrow> (uint \<Rightarrow> block) \<Rightarrow> (uint \<Rightarrow> block) \<Rightarrow> nat \<Rightarrow> uint \<Rightarrow> block" where
  "crashed lg v d k = apply_writes (take k (commit_writes lg v)) d"

text \<open>A disk with the transaction in its header and its log, or with neither.\<close>

definition holds_trans :: "log \<Rightarrow> (uint \<Rightarrow> block) \<Rightarrow> (uint \<Rightarrow> block) \<Rightarrow> bool" where
  "holds_trans lg v d \<longleftrightarrow> get32 (d (head_block lg)) 0 = of_int (lh_n lg)
     \<and> (\<forall>j < nat (lh_n lg). get32 (d (head_block lg)) (Suc j) = home_block lg j \<and> d (log_block lg j) = v (home_block lg j))"

lemma crashed_log:
  assumes ok: "log_ok lg" and k: "k \<le> nat (lh_n lg)"
  shows "crashed lg v d k (head_block lg) = d (head_block lg)" "\<not> in_log lg b \<Longrightarrow> crashed lg v d k b = d b"
proof -
  have "crashed lg v d k = apply_writes (log_writes lg v k) d"
    using k by (simp add: crashed_def commit_writes_def Let_def log_writes_def take_map)
  moreover have "head_block lg \<notin> fst ` set (log_writes lg v k)"
  proof
    assume "head_block lg \<in> fst ` set (log_writes lg v k)"
    then obtain i where "i < k" "head_block lg = log_block lg i" by (auto simp: log_writes_def)
    then show False using log_okD(2)[OF ok, of i] k by simp
  qed
  moreover have "b \<notin> fst ` set (log_writes lg v k)" if "\<not> in_log lg b"
    using log_okD(3)[OF ok] k that by (force simp: log_writes_def)
  ultimately show "crashed lg v d k (head_block lg) = d (head_block lg)" "\<not> in_log lg b \<Longrightarrow> crashed lg v d k b = d b"
    by (simp_all add: apply_writes_other)
qed

lemma crashed_installing:
  assumes ok: "log_ok lg" and j: "j \<le> nat (lh_n lg)" and k: "k = Suc (nat (lh_n lg)) + j" and d: "length (v (head_block lg)) = BSIZE"
    and n: "0 < lh_n lg"
  shows "holds_trans lg v (crashed lg v d k)"
    "\<not> in_log lg b \<Longrightarrow> b \<notin> home_block lg ` {..<nat (lh_n lg)} \<Longrightarrow> crashed lg v d k b = d b"
proof -
  let ?n = "nat (lh_n lg)" and ?S = "head_block lg"
  define hw where "hw = map (\<lambda>i. (home_block lg i, v (home_block lg i))) [0..<j]"
  define d1 where "d1 = apply_writes (log_writes lg v ?n) d"
  have len: "length (log_writes lg v ?n) = ?n" by (simp add: log_writes_def)
  have c: "crashed lg v d k = apply_writes hw (d1(?S := head_data lg (v ?S)))"
    using j by (simp add: crashed_def commit_writes_def Let_def k hw_def take_map d1_def len)
  have keep: "apply_writes hw d' b = d' b" if "in_log lg b \<or> b \<notin> home_block lg ` {..<?n}" for b d'
  proof (rule apply_writes_other)
    show "b \<notin> fst ` set hw" using that log_okD(5)[OF ok] j by (force simp: hw_def)
  qed
  have n0: "0 < ?n" using n by simp
  have L: "crashed lg v d k (log_block lg i) = v (home_block lg i)" if "i < ?n" for i
    using keep[of "log_block lg i"] log_okD(2,3)[OF ok that] apply_log_writes_log[OF ok that] by (simp add: c d1_def)
  have S: "crashed lg v d k ?S = head_data lg (v ?S)" using keep[of ?S] log_okD(4)[OF ok n0] by (simp add: c)
  have "?n \<le> LOGSIZE" using ok by (simp add: log_ok_def nat_le_iff)
  then show "holds_trans lg v (crashed lg v d k)"
    using head_data_read[OF d, of lg] L by (simp add: holds_trans_def S)
  show "crashed lg v d k b = d b" if "\<not> in_log lg b" "b \<notin> home_block lg ` {..<?n}"
  proof -
    have "b \<noteq> ?S" using that(1) log_okD(4)[OF ok n0] by auto
    moreover have "b \<notin> fst ` set (log_writes lg v ?n)" using log_okD(3)[OF ok] that(1) by (force simp: log_writes_def)
    ultimately show ?thesis using keep[of b] that(2) by (simp add: c d1_def apply_writes_other)
  qed
qed

lemma crashed_done:
  assumes ok: "log_ok lg" and k: "k = length (commit_writes lg v)" and d: "length (v (head_block lg)) = BSIZE" and n: "0 < lh_n lg"
  shows "get32 (crashed lg v d k (head_block lg)) 0 = 0"
    "\<not> in_log lg b \<Longrightarrow> crashed lg v d k b = (if b \<in> home_block lg ` {..<nat (lh_n lg)} then v b else d b)"
proof -
  let ?n = "nat (lh_n lg)" and ?S = "head_block lg"
  define d2 where "d2 = crashed lg v d (Suc ?n + ?n)"
  define w where "w = head_data (lg\<lparr>lh_n := 0\<rparr>) (head_data lg (v ?S))"
  have cw: "commit_writes lg v = take (Suc ?n + ?n) (commit_writes lg v) @ [(?S, w)]"
    by (simp add: commit_writes_def Let_def log_writes_def w_def)
  have c: "crashed lg v d k = d2(?S := w)"
    unfolding crashed_def k take_all[OF order_refl] by (subst cw) (simp only: apply_writes_snoc d2_def crashed_def)
  have size: "?n \<le> LOGSIZE" using ok by (simp add: log_ok_def nat_le_iff)
  show "get32 (crashed lg v d k ?S) 0 = 0"
    using head_data_read(2)[of "head_data lg (v ?S)" "lg\<lparr>lh_n := 0\<rparr>"] head_data_read(1)[OF d size] by (simp add: c w_def)
  show "crashed lg v d k b = (if b \<in> home_block lg ` {..<?n} then v b else d b)" if b: "\<not> in_log lg b"
  proof -
    have n0: "0 < ?n" using n by simp
    have bS: "b \<noteq> ?S" using b log_okD(4)[OF ok n0] by auto
    show ?thesis
    proof (cases "b \<in> home_block lg ` {..<?n}")
      case True
      define hw where "hw = map (\<lambda>i. (home_block lg i, v (home_block lg i))) [0..<?n]"
      have "d2 = apply_writes hw ((apply_writes (log_writes lg v ?n) d)(?S := head_data lg (v ?S)))"
        by (simp add: d2_def crashed_def commit_writes_def Let_def hw_def log_writes_def)
      moreover have "distinct (map fst hw)" using log_okD(7)[OF ok] by (auto simp: hw_def distinct_map inj_on_def)
      moreover have "(b, v b) \<in> set hw" using True by (auto simp: hw_def)
      ultimately show ?thesis using True bS by (simp add: c apply_writes_distinct)
    next
      case False
      then show ?thesis using crashed_installing(2)[where v = v and j = ?n, OF ok order_refl refl d n b False] bS by (simp add: c d2_def)
    qed
  qed
qed

end
