(* ===== verification/Log_Props.thy ===== *)
theory Log_Props
  imports Log_Commit
begin

text \<open>The properties of the buffer cache and the log.\<close>

section \<open>The buffer cache\<close>

text \<open>
  The cache is transparent. From any state satisfying its invariant, with the block not locked
  and a buffer to spare, \<open>bread\<close> returns a locked buffer holding the current contents of the block,
  without changing the contents of any block, the disk or the invariant; a store into that buffer
  changes that block only, \<open>bwrite\<close> makes the disk agree with it, and \<open>brelse\<close> gives the reference
  back, after which every later reader sees what was written.
\<close>

theorem bcache_read_write:
  assumes ok: "cache_ok dev s" and free: "\<not> held dev s n" "refs dev s n = 0" "card {n. refs dev s n \<noteq> 0} < NBUF"
  shows "\<exists>i s1 s2 s3. bread dev n s = Inr (i, s1) \<and> bdata (buf_at s1 i) = view dev s n \<and> view dev s1 = view dev s
    \<and> bwrite i (set_data i d s1) = Inr s2 \<and> brelse i s2 = Inr s3 \<and> cache_ok dev s3
    \<and> view dev s3 = (view dev s)(n := d) \<and> disk s3 = (disk s)(n := d) \<and> refs dev s3 = refs dev s \<and> held dev s3 = held dev s"
proof -
  have c: "cst dev (view dev s) (refs dev s) (held dev s) (disk s) (hist s) s" using ok by (simp add: cst_def)
  let ?r = "(refs dev s)(n := 1)" and ?l = "(held dev s)(n := True)" and ?h = "hist s @ [(n, d)]"
  obtain i s1 where s1: "bread dev n s = Inr (i, s1)" "cst dev (view dev s) ?r ?l (disk s) (hist s) s1" "is_buf dev s1 n i"
    using bread_c[OF c, of n] free by auto
  have t: "cst dev ((view dev s)(n := d)) ?r ?l (disk s) (hist s) (set_data i d s1)" "is_buf dev (set_data i d s1) n i"
    using set_data_c[OF s1(2,3), where b = d] s1(3) by simp_all
  obtain s2 where s2: "bwrite i (set_data i d s1) = Inr s2" "is_buf dev s2 n i"
      "cst dev ((view dev s)(n := d)) ?r ?l ((disk s)(n := d)) ?h s2"
    using bwrite_c[OF t] t(2) by auto
  obtain s3 where s3: "brelse i s2 = Inr s3" "cst dev ((view dev s)(n := d)) (refs dev s) (held dev s) ((disk s)(n := d)) ?h s3"
    using brelse_c[OF s2(3,2)] free by (auto simp: fun_upd_idem)
  show ?thesis using s1 cst_view[OF s1(2,3)] s2(1) s3 unfolding cst_def by blast
qed

theorem bcache_read_write_witness:
  "\<exists>i s1 s2 s3. bread 1 7 (binit (\<lambda>_. [])) = Inr (i, s1) \<and> bwrite i (set_data i [65] s1) = Inr s2 \<and> brelse i s2 = Inr s3
    \<and> view 1 s3 7 = [65] \<and> disk s3 7 = [65]"
  using bcache_read_write[of 1 "binit (\<lambda>_. [])" 7 "[65]"] binit_ok[of 1 "\<lambda>_. []"] by (fastforce simp: NBUF_def)

section \<open>Crash safety\<close>

text \<open>A fresh log structure for the same place on the disk, as after a reboot.\<close>

definition same_place :: "log \<Rightarrow> log \<Rightarrow> bool" where
  "same_place lg lg' \<longleftrightarrow> ldev lg' = ldev lg \<and> lstart lg' = lstart lg \<and> lsize lg' = lsize lg"

lemma same_place_blocks:
  assumes "same_place lg lg'"
  shows "log_block lg' = log_block lg" "head_block lg' = head_block lg" "in_log lg' = in_log lg"
  using assms by (simp_all add: same_place_def log_block_def head_block_def in_log_def fun_eq_iff)

lemma log_ok_empty:
  assumes "log_ok lg" "same_place lg lg'" "get32 b 0 = 0"
  shows "log_ok (head_of lg' b)"
  using assms by (auto simp: log_ok_def same_place_def)

lemma log_ok_full:
  assumes ok: "log_ok lg" and p: "same_place lg lg'" and h: "holds_trans lg v d"
  shows "log_ok (head_of lg' (d (head_block lg)))"
proof -
  have "sint (of_int (lh_n lg) :: uint) = lh_n lg"
    using ok by (simp add: sint_sbintrunc' signed_take_bit_int_eq_self log_ok_def)
  then have n: "lh_n (head_of lg' (d (head_block lg))) = lh_n lg" using h by (simp add: holds_trans_def)
  then have "home_block (head_of lg' (d (head_block lg))) i = home_block lg i" if "i < nat (lh_n lg)" for i
    using h that log_okD(1)[OF ok that] home_head_of[of i "d (head_block lg)" lg'] by (simp add: holds_trans_def)
  then show ?thesis using ok p n same_place_blocks(3)[OF p] unfolding log_ok_def by (simp add: same_place_def)
qed

text \<open>
  The whole commit, and a crash in the middle of it, from a cache that holds the contents \<open>v\<close> over
  the disk \<open>d\<close>: \<open>cw\<close> are the writes the disk receives from \<open>commit\<close>, as its history records them.
\<close>

lemma commit_crash_safe:
  assumes ok: "log_ok lg" and n: "0 < lh_n lg" and i: "idle (ldev lg) v (pinned lg 0) d h s"
    and hd: "get32 (d (head_block lg)) 0 = 0" "length (d (head_block lg)) = BSIZE" and p: "same_place lg lg'"
  shows "\<exists>s' cw. commit lg s = Inr (lg\<lparr>lh_n := 0\<rparr>, s') \<and> (\<forall>b. \<not> in_log lg b \<longrightarrow> disk s' b = v b)
    \<and> hist s' = h @ cw \<and> disk s' = apply_writes cw d
    \<and> (\<forall>k \<le> length cw. \<exists>lg1 s1. recover_from_log lg' (binit (apply_writes (take k cw) d)) = Inr (lg1, s1) \<and> lh_n lg1 = 0
        \<and> (\<forall>b. \<not> in_log lg b \<longrightarrow> disk s1 b = (if k \<le> nat (lh_n lg) then d b else v b)))"
proof -
  let ?n = "nat (lh_n lg)" and ?S = "head_block lg"
  have n0: "0 < ?n" using n by simp
  have vS: "length (v ?S) = BSIZE"
    using cst_clean[OF i, of ?S] log_okD(9)[OF ok] hd(2) by (metis pinned_def)
  have clean: "v b = d b" if "b \<notin> home_block lg ` {..<?n}" for b
  proof -
    have "pinned lg 0 b = 0" using that by (auto simp: pinned_def)
    then show ?thesis by (rule cst_clean[OF i])
  qed
  note P = same_place_blocks[OF p]
  have inS: "in_log lg ?S" using log_okD(4)[OF ok n0] .
  obtain s' where s': "commit lg s = Inr (lg\<lparr>lh_n := 0\<rparr>, s')" "disk s' = crashed lg v d (length (commit_writes lg v))"
      "hist s' = h @ commit_writes lg v"
    using commit_ok[OF ok n i] by (auto simp: cst_def crashed_def)
  have final: "crashed lg v d (length (commit_writes lg v)) b = v b" if "\<not> in_log lg b" for b
    using crashed_done(2)[where v = v, OF ok refl vS n that] clean by (cases "b \<in> home_block lg ` {..<?n}") auto
  have rec: "\<exists>lg1 s1. recover_from_log lg' (binit dk) = Inr (lg1, s1) \<and> lh_n lg1 = 0 \<and> disk s1 = apply_writes (recover_writes lg' dk) dk"
    if "log_ok (head_of lg' (dk ?S))" for dk
    using recover_ok[of lg' dk] that P by (auto simp: cst_def)
  have len: "length (commit_writes lg v) = Suc (Suc (?n + ?n))" by (simp add: commit_writes_def Let_def log_writes_def)
  have "\<exists>lg1 s1. recover_from_log lg' (binit (crashed lg v d k)) = Inr (lg1, s1) \<and> lh_n lg1 = 0
      \<and> (\<forall>b. \<not> in_log lg b \<longrightarrow> disk s1 b = (if k \<le> ?n then d b else v b))" if k: "k \<le> length (commit_writes lg v)" for k
  proof -
    consider "k \<le> ?n" | j where "j \<le> ?n" "k = Suc ?n + j" | "k = length (commit_writes lg v)"
      using k len by (metis (no_types, lifting) Suc_leI add_Suc le_SucE le_add_diff_inverse nat_add_left_cancel_le not_le)
    then have "log_ok (head_of lg' (crashed lg v d k ?S)) \<and>
      (\<forall>b. \<not> in_log lg b \<longrightarrow> apply_writes (recover_writes lg' (crashed lg v d k)) (crashed lg v d k) b = (if k \<le> ?n then d b else v b))"
    proof cases
      case 1
      note C = crashed_log[OF ok 1, where v = v and d = d]
      have e: "get32 (crashed lg v d k ?S) 0 = 0" using C(1) hd(1) by simp
      have "apply_writes (recover_writes lg' (crashed lg v d k)) (crashed lg v d k) b = d b" if "\<not> in_log lg b" for b
        using recover_empty[of "crashed lg v d k" lg' b] e that C(2)[OF that] inS by (simp add: P)
      then show ?thesis using log_ok_empty[OF ok p e] 1 by simp
    next
      case 2
      note C = crashed_installing[where v = v and d = d, OF ok 2 vS n]
      have "apply_writes (recover_writes lg' (crashed lg v d k)) (crashed lg v d k) b = v b" if "\<not> in_log lg b" for b
        using recover_full[OF ok P(1,2), of "crashed lg v d k" v b] C that inS clean by (auto simp: holds_trans_def)
      then show ?thesis using log_ok_full[OF ok p C(1)] 2(2) by simp
    next
      case 3
      have e: "get32 (crashed lg v d k ?S) 0 = 0" using crashed_done(1)[where v = v, OF ok 3 vS n] .
      have "apply_writes (recover_writes lg' (crashed lg v d k)) (crashed lg v d k) b = v b" if "\<not> in_log lg b" for b
        using recover_empty[of "crashed lg v d k" lg' b] e that final[OF that] inS by (simp add: P 3)
      then show ?thesis using log_ok_empty[OF ok p e] 3 len by simp
    qed
    then show ?thesis using rec[of "crashed lg v d k"] by fastforce
  qed
  then show ?thesis unfolding crashed_def
    by (intro exI[of _ s'] exI[of _ "commit_writes lg v"]) (use s' final in \<open>simp add: crashed_def\<close>)
qed

section \<open>Transactions\<close>

text \<open>One write of a system call, the use of \<open>log_write\<close> its comment prescribes.\<close>

definition tx_write :: "uint \<times> block \<Rightarrow> log \<times> bcache \<Rightarrow> (log \<times> bcache) result" where
  "tx_write = (\<lambda>(n, x) (lg, s).
     bnd (bread (ldev lg) n s) (\<lambda>(b, s).
     bnd (log_write b lg (set_data b x s)) (\<lambda>(lg, s).
     bnd (brelse b s) (\<lambda>s. Inr (lg, s)))))"

definition homes :: "log \<Rightarrow> uint set" where
  "homes lg = home_block lg ` {..<nat (lh_n lg)}"

lemma pinned_homes: "pinned lg 0 = (\<lambda>b. if b \<in> homes lg then 1 else 0)"
  by (auto simp: pinned_def homes_def fun_eq_iff)

lemma absorb_logged:
  assumes "log_ok lg" "n \<in> homes lg"
  shows "int (absorb_at lg n) < lh_n lg" "home_block (lg\<lparr>lh_block := (lh_block lg)[absorb_at lg n := sint n]\<rparr>) = home_block lg"
proof -
  obtain i where i: "find (\<lambda>i. of_int (lh_block lg ! i) = n) [0..<nat (lh_n lg)] = Some i"
    using assms(2) by (cases "find (\<lambda>i. of_int (lh_block lg ! i) = n) [0..<nat (lh_n lg)]")
      (auto simp: find_None_iff homes_def home_block_def)
  then have "i < nat (lh_n lg)" "of_int (lh_block lg ! i) = n" using find_SomeD by fastforce+
  then show "int (absorb_at lg n) < lh_n lg" "home_block (lg\<lparr>lh_block := (lh_block lg)[absorb_at lg n := sint n]\<rparr>) = home_block lg"
    using i assms(1) by (auto simp: absorb_at_def home_block_def fun_eq_iff nth_list_update log_ok_def)
qed

lemma absorb_new:
  assumes ok: "log_ok lg" and n: "n \<notin> homes lg" "\<not> in_log lg n" and room: "lh_n lg < int LOGSIZE" "lh_n lg + 1 < lsize lg" "lh_n lg + 1 < int NBUF"
    and lg': "lg' = lg\<lparr>lh_block := (lh_block lg)[absorb_at lg n := sint n], lh_n := lh_n lg + 1\<rparr>"
  shows "int (absorb_at lg n) = lh_n lg" "log_ok lg'" "homes lg' = insert n (homes lg)"
proof -
  let ?m = "nat (lh_n lg)"
  have none: "find (\<lambda>i. of_int (lh_block lg ! i) = n) [0..<?m] = None"
    using n(1) by (auto simp: find_None_iff homes_def home_block_def)
  have l: "0 \<le> lh_n lg" "length (lh_block lg) = LOGSIZE" using ok by (auto simp: log_ok_def)
  then show at: "int (absorb_at lg n) = lh_n lg" using none by (simp add: absorb_at_def)
  have m: "nat (lh_n lg') = Suc ?m" "?m < LOGSIZE" using l room by (auto simp: lg')
  have hb: "home_block lg' i = (if i = ?m then n else home_block lg i)" for i
    using at l m(2) by (auto simp: lg' home_block_def nth_list_update)
  have il: "in_log lg' = in_log lg" by (simp add: lg' in_log_def fun_eq_iff)
  show "homes lg' = insert n (homes lg)" by (auto simp: homes_def m(1) hb lessThan_Suc)
  have "\<not> in_log lg' (home_block lg' i) \<and> (\<forall>j < Suc ?m. home_block lg' i = home_block lg' j \<longrightarrow> i = j)" if "i < Suc ?m" for i
    using that log_okD(5,7)[OF ok] n by (auto simp: il hb homes_def less_Suc_eq)
  then show "log_ok lg'" using ok room m(1) unfolding log_ok_def by (auto simp: lg')
qed

lemma tx_write_ok:
  assumes ok: "log_ok lg" and i: "idle (ldev lg) v (pinned lg 0) d h s" and n: "\<not> in_log lg n" and out: "1 \<le> outstanding lg"
    and room: "lh_n lg < int LOGSIZE" "lh_n lg + 1 < lsize lg" "lh_n lg + 1 < int NBUF"
  shows "\<exists>lg' s'. tx_write (n, x) (lg, s) = Inr (lg', s') \<and> log_ok lg' \<and> idle (ldev lg) (v(n := x)) (pinned lg' 0) d h s'
    \<and> homes lg' = insert n (homes lg) \<and> same_place lg lg' \<and> outstanding lg' = outstanding lg \<and> committing lg' = committing lg"
proof -
  let ?D = "ldev lg" and ?r = "pinned lg 0"
  have rn: "?r n = (if n \<in> homes lg then 1 else 0)" by (simp add: pinned_homes)
  have few: "card {n. ?r n \<noteq> 0} < NBUF"
  proof -
    have "{n. ?r n \<noteq> 0} = homes lg" by (auto simp: pinned_homes)
    moreover have "card (homes lg) \<le> nat (lh_n lg)" unfolding homes_def using card_image_le[of "{..<nat (lh_n lg)}"] by simp
    moreover have "nat (lh_n lg) < NBUF" using room(3) unfolding NBUF_def by linarith
    ultimately show ?thesis by simp
  qed
  have r2: "?r n + 1 \<noteq> 0" "?r n \<noteq> -1" "?r n + 1 \<noteq> -1" using rn by (auto split: if_splits)
  obtain b s1 where s1: "bread ?D n s = Inr (b, s1)" "cst ?D v (?r(n := ?r n + 1)) ((\<lambda>_. False)(n := True)) d h s1" "is_buf ?D s1 n b"
    using bread_c[OF i, of n] r2 few by auto
  define s2 where "s2 = set_data b x s1"
  have s2: "cst ?D (v(n := x)) (?r(n := ?r n + 1)) ((\<lambda>_. False)(n := True)) d h s2" "is_buf ?D s2 n b"
    using set_data_c[OF s1(2,3), where b = x] s1(3) r2(1) by (simp_all add: s2_def)
  have bn: "blockno (buf_at s2 b) = n" using buf_facts(3)[OF _ s2(2)] s2(1) by (simp add: cst_def)
  obtain lg' s3 where s3: "log_write b lg s2 = Inr (lg', s3)" "log_ok lg'" "homes lg' = insert n (homes lg)" "same_place lg lg'"
      "outstanding lg' = outstanding lg" "cst ?D (v(n := x)) (?r(n := 2)) ((\<lambda>_. False)(n := True)) d h s3" "is_buf ?D s3 n b"
      "committing lg' = committing lg"
  proof (cases "n \<in> homes lg")
    case True
    note A = absorb_logged[OF ok True]
    define lg' where "lg' = lg\<lparr>lh_block := (lh_block lg)[absorb_at lg n := sint n]\<rparr>"
    have "log_write b lg s2 = Inr (lg', s2)" using A(1) room out bn by (simp add: log_write_def Let_def lg'_def)
    moreover have hb: "home_block lg' = home_block lg" using A(2) by (simp add: lg'_def)
    then have "homes lg' = insert n (homes lg)" using True by (auto simp: homes_def lg'_def)
    moreover have "log_ok lg'" using ok hb unfolding log_ok_def by (simp add: lg'_def in_log_def)
    ultimately show thesis using that s2 rn True by (simp add: same_place_def lg'_def)
  next
    case False
    define lg' where "lg' = lg\<lparr>lh_block := (lh_block lg)[absorb_at lg n := sint n], lh_n := lh_n lg + 1\<rparr>"
    note A = absorb_new[OF ok False n room lg'_def]
    have "log_write b lg s2 = Inr (lg', bpin b s2)" using A(1) room out bn by (simp add: log_write_def Let_def lg'_def)
    moreover have "cst ?D (v(n := x)) (?r(n := 2)) ((\<lambda>_. False)(n := True)) d h (bpin b s2)" "is_buf ?D (bpin b s2) n b"
      using bpin_c[OF s2] s2(2) rn False by auto
    ultimately show thesis using that A(2,3) by (simp add: same_place_def lg'_def)
  qed
  obtain s4 where s4: "brelse b s3 = Inr s4" "idle ?D (v(n := x)) (?r(n := 1)) d h s4"
    using brelse_c[OF s3(6,7)] by (auto simp: fun_upd_idem)
  have "?r(n := 1) = pinned lg' 0" using s3(3) by (auto simp: pinned_homes fun_eq_iff)
  moreover have "tx_write (n, x) (lg, s) = Inr (lg', s4)" using s1(1) s3(1) s4(1) by (simp add: tx_write_def s2_def)
  ultimately show ?thesis using s3 s4(2) by auto
qed

lemma tx_writes_ok:
  assumes "log_ok lg" "idle (ldev lg) v (pinned lg 0) d h s" "1 \<le> outstanding lg" "\<forall>w \<in> set ws. \<not> in_log lg (fst w)"
    "int (card (homes lg \<union> fst ` set ws)) + 1 < lsize lg" "card (homes lg \<union> fst ` set ws) + 1 < LOGSIZE"
  shows "\<exists>lg' s'. for_each tx_write ws (lg, s) = Inr (lg', s') \<and> log_ok lg' \<and> idle (ldev lg) (apply_writes ws v) (pinned lg' 0) d h s'
    \<and> homes lg' = homes lg \<union> fst ` set ws \<and> same_place lg lg' \<and> outstanding lg' = outstanding lg"
  using assms
proof (induction ws arbitrary: lg v s)
  case Nil
  then show ?case by (auto simp: same_place_def)
next
  case (Cons w ws)
  obtain n x where w: "w = (n, x)" by fastforce
  have fin: "finite (homes lg)" by (simp add: homes_def)
  have "card (homes lg) = nat (lh_n lg)"
    unfolding homes_def by (subst card_image) (use log_okD(7)[OF Cons.prems(1)] in \<open>auto simp: inj_on_def\<close>)
  moreover have "card (homes lg) \<le> card (homes lg \<union> fst ` set (w # ws))" using fin by (intro card_mono) auto
  ultimately have room: "lh_n lg < int LOGSIZE" "lh_n lg + 1 < lsize lg" "lh_n lg + 1 < int NBUF"
    using Cons.prems(5,6) by (simp_all add: LOGSIZE_num NBUF_def)
  have nl: "\<not> in_log lg n" using Cons.prems(4) w by simp
  obtain lg1 s1 where t: "tx_write (n, x) (lg, s) = Inr (lg1, s1)" "log_ok lg1" "idle (ldev lg) (v(n := x)) (pinned lg1 0) d h s1"
      "homes lg1 = insert n (homes lg)" "same_place lg lg1" "outstanding lg1 = outstanding lg"
    using tx_write_ok[OF Cons.prems(1,2) nl Cons.prems(3) room] by blast
  have p: "ldev lg1 = ldev lg" "lsize lg1 = lsize lg" "in_log lg1 = in_log lg"
    using t(5) same_place_blocks(3)[OF t(5)] by (simp_all add: same_place_def)
  have h: "homes lg1 \<union> fst ` set ws = homes lg \<union> fst ` set (w # ws)" using t(4) w by auto
  obtain lg' s' where r: "for_each tx_write ws (lg1, s1) = Inr (lg', s')" "log_ok lg'"
      "idle (ldev lg) (apply_writes ws (v(n := x))) (pinned lg' 0) d h s'" "homes lg' = homes lg1 \<union> fst ` set ws"
      "same_place lg1 lg'" "outstanding lg' = outstanding lg1"
  proof -
    have "\<forall>w \<in> set ws. \<not> in_log lg (fst w)" using Cons.prems(4) by simp
    from Cons.IH[OF t(2), of "v(n := x)" s1, unfolded p h t(6), OF t(3) Cons.prems(3) this Cons.prems(5,6)]
    show thesis using that unfolding h t(6) by blast
  qed
  have "same_place lg lg'" using t(5) r(5) by (simp add: same_place_def)
  then show ?case using t(1,6) r h by (auto simp: w)
qed

text \<open>
  C18. Transactions are atomic with respect to crashes. Start from a clean cache over a disk \<open>d\<close>
  whose log is empty, inside an operation; let it perform any sequence \<open>ws\<close> of logged block writes,
  to blocks outside the log and not more distinct ones than the log can take. They all succeed,
  nothing reaches the disk, and the cache shows \<open>apply_writes ws d\<close>. Then \<open>commit\<close> succeeds and puts that on
  the disk. Let \<open>cw\<close> be the writes the disk received during that call of \<open>commit\<close>, in order (the part it added to
  the history \<open>hist\<close> kept with the disk). If the machine stops after any number \<open>k\<close> of them, \<open>recover_from_log\<close>
  on what is on the disk succeeds and leaves, outside the log, exactly \<open>d\<close> (when the header had not
  been written) or exactly \<open>apply_writes ws d\<close>: all of the transaction or nothing of it.
\<close>

theorem transaction_atomic:
  assumes ok: "log_ok lg" "lh_n lg = 0" "1 \<le> outstanding lg" and i: "idle (ldev lg) d (\<lambda>_. 0) d h s"
    and hd: "get32 (d (head_block lg)) 0 = 0" "length (d (head_block lg)) = BSIZE" and p: "same_place lg lg'"
    and ws: "ws \<noteq> []" "\<forall>w \<in> set ws. \<not> in_log lg (fst w)"
      "int (card (fst ` set ws)) + 1 < lsize lg" "card (fst ` set ws) + 1 < LOGSIZE"
  shows "\<exists>lg1 s1 s2 cw. for_each tx_write ws (lg, s) = Inr (lg1, s1)
    \<and> view (ldev lg) s1 = apply_writes ws d \<and> disk s1 = d \<and> hist s1 = hist s
    \<and> commit lg1 s1 = Inr (lg1\<lparr>lh_n := 0\<rparr>, s2) \<and> (\<forall>b. \<not> in_log lg b \<longrightarrow> disk s2 b = apply_writes ws d b)
    \<and> hist s2 = hist s1 @ cw \<and> disk s2 = apply_writes cw d
    \<and> (\<forall>k \<le> length cw. \<exists>lg2 s3. recover_from_log lg' (binit (apply_writes (take k cw) d)) = Inr (lg2, s3)
         \<and> (\<forall>b. \<not> in_log lg b \<longrightarrow> disk s3 b = (if k \<le> nat (lh_n lg1) then d b else apply_writes ws d b)))"
proof -
  have h0: "homes lg = {}" "pinned lg 0 = (\<lambda>_. 0)" using ok(2) by (simp_all add: homes_def pinned_homes)
  obtain lg1 s1 where t: "for_each tx_write ws (lg, s) = Inr (lg1, s1)" "log_ok lg1" "idle (ldev lg) (apply_writes ws d) (pinned lg1 0) d h s1"
      "homes lg1 = fst ` set ws" "same_place lg lg1"
    using tx_writes_ok[OF ok(1), of d d h s ws] i ok(3) ws(2-4) h0 by auto
  have v: "view (ldev lg) s1 = apply_writes ws d" "disk s1 = d" "hist s1 = h" "hist s = h" using t(3) i by (simp_all add: cst_def)
  have e: "ldev lg1 = ldev lg" "head_block lg1 = head_block lg" "in_log lg1 = in_log lg" "same_place lg1 lg'"
    using t(5) same_place_blocks[OF t(5)] p by (simp_all add: same_place_def)
  have "homes lg1 \<noteq> {}" using t(4) ws(1) by simp
  then have n: "0 < lh_n lg1" by (auto simp: homes_def)
  have i1: "idle (ldev lg1) (apply_writes ws d) (pinned lg1 0) d h s1" using t(3) e(1) by simp
  have hd1: "get32 (d (head_block lg1)) 0 = 0" "length (d (head_block lg1)) = BSIZE" using hd e(2) by simp_all
  from commit_crash_safe[OF t(2) n i1 hd1 e(4), unfolded e(3)] show ?thesis using t(1) v by metis
qed

definition sample_log :: log where
  "sample_log = \<lparr>lstart = 2, lsize = 30, outstanding = 1, committing = 0, ldev = 1, lh_n = 0, lh_block = replicate LOGSIZE 0\<rparr>"

definition sample_disk :: "uint \<Rightarrow> block" where
  "sample_disk = (\<lambda>_. replicate BSIZE 0)"

lemma sample_log_facts: "log_ok sample_log" "get32 (sample_disk b) 0 = 0" "length (sample_disk b) = BSIZE"
  by (simp_all add: log_ok_def sample_log_def LOGSIZE_num NBUF_def sample_disk_def get32_def BSIZE_def)

lemma in_sample_log: "in_log sample_log b \<longleftrightarrow> (\<exists>j. 2 \<le> j \<and> j < 32 \<and> b = of_int j)"
  by (simp add: in_log_def sample_log_def)

theorem transaction_atomic_witness:
  "\<exists>lg1 s1 s2. for_each tx_write [(50, [1]), (60, [2]), (50, [3])] (sample_log, binit sample_disk) = Inr (lg1, s1)
    \<and> commit lg1 s1 = Inr (lg1\<lparr>lh_n := 0\<rparr>, s2) \<and> disk s2 50 = [3] \<and> disk s2 60 = [2]"
proof -
  have far: "\<not> in_log sample_log 50" "\<not> in_log sample_log 60"
  proof -
    have "(of_int 50 :: uint) \<noteq> of_int j" "(of_int 60 :: uint) \<noteq> of_int j" if "2 \<le> j" "j < 32" for j
      using that of_int_uint_eq[of 50 j] of_int_uint_eq[of 60 j] by auto
    then show "\<not> in_log sample_log 50" "\<not> in_log sample_log 60" by (auto simp: in_sample_log)
  qed
  have "ldev sample_log = 1" "lh_n sample_log = 0" "outstanding sample_log = 1" "lsize sample_log = 30" by (simp_all add: sample_log_def)
  moreover have "card (fst ` set [(50 :: uint, [1 :: byte]), (60, [2]), (50, [3])]) = 2" by (simp add: card_insert_if)
  ultimately show ?thesis
    using transaction_atomic[of sample_log sample_disk "[]" "binit sample_disk" sample_log "[(50, [1]), (60, [2]), (50, [3])]"]
      sample_log_facts binit_c[of 1 sample_disk] far by (fastforce simp: same_place_def LOGSIZE_num)
qed

section \<open>Concurrent operations and the space in the log\<close>

text \<open>
  System calls that overlap: each begins, makes at most \<open>lim\<close> logged writes, and ends; the last one
  to end commits. \<open>act\<close> records the operations under way with the number of their writes; a \<open>begin_op\<close>
  that has to sleep is an event without effect, tried again later.
\<close>

datatype event = Begin nat | Write nat "uint \<times> block" | End nat

type_synonym opstate = "log \<times> bcache \<times> (nat \<Rightarrow> int option)"

fun log_event :: "int \<Rightarrow> event \<Rightarrow> opstate \<Rightarrow> opstate result" where
  "log_event lim (Begin c) (lg, s, act) =
     (if act c \<noteq> None then Inr (lg, s, act)
      else case begin_op lg of None \<Rightarrow> Inr (lg, s, act) | Some lg \<Rightarrow> Inr (lg, s, act(c := Some 0)))"
| "log_event lim (Write c w) (lg, s, act) =
     (case act c of None \<Rightarrow> Inr (lg, s, act)
      | Some k \<Rightarrow> if k < lim then bnd (tx_write w (lg, s)) (\<lambda>(lg, s). Inr (lg, s, act(c := Some (k + 1)))) else Inr (lg, s, act))"
| "log_event lim (End c) (lg, s, act) =
     (case act c of None \<Rightarrow> Inr (lg, s, act) | Some _ \<Rightarrow> bnd (end_op lg s) (\<lambda>(lg, s). Inr (lg, s, act(c := None))))"

definition reserved :: "(nat \<Rightarrow> int option) \<Rightarrow> int" where
  "reserved act = (\<Sum>c \<in> dom act. MAXOPBLOCKS - the (act c))"

definition quiet :: "log \<Rightarrow> bcache \<Rightarrow> bool" where
  "quiet lg s \<longleftrightarrow> (\<exists>v d h. idle (ldev lg) v (pinned lg 0) d h s)"

lemma quietI: "idle (ldev lg) v (pinned lg 0) d h s \<Longrightarrow> quiet lg s"
  unfolding quiet_def by blast

lemma quiet_cong: "ldev lg' = ldev lg \<Longrightarrow> pinned lg' 0 = pinned lg 0 \<Longrightarrow> quiet lg' s = quiet lg s"
  by (simp only: quiet_def)

definition ops_inv :: "int \<Rightarrow> log \<Rightarrow> opstate \<Rightarrow> bool" where
  "ops_inv lim lg0 = (\<lambda>(lg, s, act).
     log_ok lg \<and> same_place lg0 lg \<and> committing lg = 0 \<and> quiet lg s
     \<and> finite (dom act) \<and> outstanding lg = int (card (dom act)) \<and> (\<forall>c k. act c = Some k \<longrightarrow> 0 \<le> k \<and> k \<le> lim)
     \<and> lh_n lg + reserved act \<le> int LOGSIZE)"

lemma reserved_upd:
  assumes "finite (dom act)"
  shows "reserved (act(c := Some k)) = reserved (act(c := None)) + (MAXOPBLOCKS - k)"
    "act c = Some j \<Longrightarrow> reserved act = reserved (act(c := None)) + (MAXOPBLOCKS - j)"
proof -
  have upd: "reserved (act(c := Some k)) = reserved (act(c := None)) + (MAXOPBLOCKS - k)" for k
  proof -
    have "reserved (act(c := Some k)) = (MAXOPBLOCKS - k) + (\<Sum>x \<in> dom act - {c}. MAXOPBLOCKS - the ((act(c := Some k)) x))"
      unfolding reserved_def using assms by (simp add: sum.insert_remove)
    also have "(\<Sum>x \<in> dom act - {c}. MAXOPBLOCKS - the ((act(c := Some k)) x)) = reserved (act(c := None))"
      unfolding reserved_def by (rule sum.cong) auto
    finally show ?thesis by (simp only: add.commute)
  qed
  show "reserved (act(c := Some k)) = reserved (act(c := None)) + (MAXOPBLOCKS - k)" by (rule upd)
  show "reserved act = reserved (act(c := None)) + (MAXOPBLOCKS - j)" if "act c = Some j"
    using upd[of j] that by (simp add: fun_upd_idem)
qed

lemma reserved_bounds:
  assumes "finite (dom act)" "\<forall>c k. act c = Some k \<longrightarrow> 0 \<le> k \<and> k \<le> lim" "lim \<le> MAXOPBLOCKS"
  shows "0 \<le> reserved act" "reserved act \<le> int (card (dom act)) * MAXOPBLOCKS"
proof -
  show "0 \<le> reserved act"
    unfolding reserved_def by (rule sum_nonneg) (use assms(2,3) in fastforce)
  have "reserved act \<le> (\<Sum>c \<in> dom act. MAXOPBLOCKS)"
    unfolding reserved_def by (rule sum_mono) (use assms(2) in fastforce)
  then show "reserved act \<le> int (card (dom act)) * MAXOPBLOCKS" by simp
qed

lemma ops_begin:
  assumes inv: "ops_inv lim lg0 (lg, s, act)" and lim: "0 \<le> lim" "lim \<le> MAXOPBLOCKS"
  shows "\<exists>st. log_event lim (Begin c) (lg, s, act) = Inr st \<and> ops_inv lim lg0 st"
proof (cases "act c = None \<and> begin_op lg \<noteq> None")
  case True
  have I: "finite (dom act)" "outstanding lg = int (card (dom act))" "\<forall>c k. act c = Some k \<longrightarrow> 0 \<le> k \<and> k \<le> lim"
    using inv by (auto simp: ops_inv_def)
  define lg' where "lg' = lg\<lparr>outstanding := outstanding lg + 1\<rparr>"
  have b: "begin_op lg = Some lg'" "lh_n lg + (outstanding lg + 1) * MAXOPBLOCKS \<le> int LOGSIZE"
    using True by (auto simp: begin_op_def lg'_def split: if_splits)
  have r: "reserved (act(c := Some 0)) = reserved act + MAXOPBLOCKS" using reserved_upd(1)[OF I(1)] True by (simp add: fun_upd_idem)
  have "lh_n lg' + reserved (act(c := Some 0)) \<le> int LOGSIZE"
    using b(2) r reserved_bounds(2)[OF I(1,3) lim(2)] I(2) by (simp add: lg'_def algebra_simps)
  moreover have "card (dom (act(c := Some 0))) = Suc (card (dom act))" using I(1) True by (simp add: domIff)
  moreover have same: "home_block lg' = home_block lg" "in_log lg' = in_log lg" "pinned lg' = pinned lg"
    by (simp_all add: lg'_def home_block_def in_log_def pinned_def fun_eq_iff)
  moreover have "log_ok lg'" "quiet lg' s" "same_place lg0 lg'" "committing lg' = 0" "outstanding lg' = outstanding lg + 1"
    using inv same quiet_cong[of lg' lg s] by (auto simp: ops_inv_def log_ok_def lg'_def same_place_def)
  ultimately have "ops_inv lim lg0 (lg', s, act(c := Some 0))"
    using I lim(1) by (simp add: ops_inv_def)
  then show ?thesis using True b(1) by auto
qed (use inv in auto)

lemma ops_write:
  assumes inv: "ops_inv lim lg0 (lg, s, act)" and lim: "lim < MAXOPBLOCKS" and size: "lsize lg0 = int LOGSIZE" and w: "\<not> in_log lg0 (fst w)"
  shows "\<exists>st. log_event lim (Write c w) (lg, s, act) = Inr st \<and> ops_inv lim lg0 st"
proof (cases "\<exists>k. act c = Some k \<and> k < lim")
  case True
  then obtain k where k: "act c = Some k" "k < lim" by blast
  have I: "log_ok lg" "same_place lg0 lg" "finite (dom act)" "outstanding lg = int (card (dom act))"
      "\<forall>c k. act c = Some k \<longrightarrow> 0 \<le> k \<and> k \<le> lim" "lh_n lg + reserved act \<le> int LOGSIZE"
    using inv by (auto simp: ops_inv_def)
  have r: "reserved act = reserved (act(c := None)) + (MAXOPBLOCKS - k)"
      "reserved (act(c := Some (k + 1))) = reserved (act(c := None)) + (MAXOPBLOCKS - (k + 1))"
    using reserved_upd[OF I(3)] k(1) by auto
  have nn: "0 \<le> reserved (act(c := None))"
    by (rule reserved_bounds(1)[of _ lim]) (use I(3,5) lim in auto)
  have room: "lh_n lg < int LOGSIZE" "lh_n lg + 1 < lsize lg" "lh_n lg + 1 < int NBUF"
    using I(2,6) r(1) nn k(2) lim size by (simp_all add: same_place_def LOGSIZE_num NBUF_def MAXOPBLOCKS_def)
  have "0 < card (dom act)" using k(1) I(3) by (auto simp: card_gt_0_iff)
  then have out: "1 \<le> outstanding lg" using I(4) by simp
  obtain v d h where i: "idle (ldev lg) v (pinned lg 0) d h s" using inv by (auto simp: ops_inv_def quiet_def)
  have wl: "\<not> in_log lg (fst w)" using w same_place_blocks(3)[OF I(2)] by simp
  obtain lg' s' where t: "tx_write w (lg, s) = Inr (lg', s')" "log_ok lg'" "idle (ldev lg) (v(fst w := snd w)) (pinned lg' 0) d h s'"
      "homes lg' = insert (fst w) (homes lg)" "same_place lg lg'" "outstanding lg' = outstanding lg" "committing lg' = committing lg"
    using tx_write_ok[OF I(1) i wl out room, of "snd w"] by auto
  have cn: "int (card (homes g)) = lh_n g" if "log_ok g" for g
    unfolding homes_def by (subst card_image) (use log_okD(7)[OF that] that in \<open>auto simp: inj_on_def log_ok_def\<close>)
  have "card (homes lg') \<le> Suc (card (homes lg))" unfolding t(4) by (rule card_insert_le_m1) auto
  then have "lh_n lg' \<le> lh_n lg + 1" using cn[OF I(1)] cn[OF t(2)] by simp
  then have "lh_n lg' + reserved (act(c := Some (k + 1))) \<le> int LOGSIZE" using I(6) r by simp
  moreover have "committing lg' = 0" using t(7) inv by (simp add: ops_inv_def)
  moreover have "dom (act(c := Some (k + 1))) = dom act" using k(1) by auto
  moreover have "quiet lg' s'" using quietI[of lg' _ d h s'] t(3,5) by (simp add: same_place_def)
  moreover have "same_place lg0 lg'" using I(2) t(5) by (simp add: same_place_def)
  ultimately have "ops_inv lim lg0 (lg', s', act(c := Some (k + 1)))"
    using t(2,6) I(3-5) k by (simp add: ops_inv_def)
  then show ?thesis using k t(1) by auto
qed (use inv in \<open>auto split: option.splits\<close>)

lemma ops_end:
  assumes inv: "ops_inv lim lg0 (lg, s, act)" and lim: "lim \<le> MAXOPBLOCKS"
  shows "\<exists>st. log_event lim (End c) (lg, s, act) = Inr st \<and> ops_inv lim lg0 st"
proof (cases "act c")
  case (Some k)
  have I: "log_ok lg" "same_place lg0 lg" "finite (dom act)" "outstanding lg = int (card (dom act))" "committing lg = 0"
      "\<forall>c k. act c = Some k \<longrightarrow> 0 \<le> k \<and> k \<le> lim" "lh_n lg + reserved act \<le> int LOGSIZE" "quiet lg s"
    using inv by (auto simp: ops_inv_def)
  let ?act = "act(c := None)"
  have ks: "\<forall>c k. ?act c = Some k \<longrightarrow> 0 \<le> k \<and> k \<le> lim" using I(6) by auto
  have r: "reserved ?act \<le> reserved act" using reserved_upd(2)[OF I(3), of c k] Some I(6) lim by fastforce
  have fin: "finite (dom ?act)" and card: "int (card (dom ?act)) = outstanding lg - 1"
    using I(3,4) Some card_Suc_Diff1[OF I(3), of c] by (auto simp: domIff)
  define lg1 where "lg1 = lg\<lparr>outstanding := outstanding lg - 1, committing := if outstanding lg = 1 then 1 else 0\<rparr>"
  have same: "home_block lg1 = home_block lg" "in_log lg1 = in_log lg" "pinned lg1 = pinned lg"
    by (simp_all add: lg1_def home_block_def in_log_def pinned_def fun_eq_iff)
  have lg1: "log_ok lg1" "quiet lg1 s" "same_place lg0 lg1" "lh_n lg1 = lh_n lg"
    using I same quiet_cong[of lg1 lg s] by (auto simp: log_ok_def lg1_def same_place_def)
  have b: "end_op_begin lg = Inr (outstanding lg = 1, lg1)"
    using I(5) by (auto simp: end_op_begin_def lg1_def Let_def)
  show ?thesis
  proof (cases "outstanding lg = 1")
    case False
    then have "committing lg1 = 0" "outstanding lg1 = outstanding lg - 1" by (simp_all add: lg1_def)
    then have "ops_inv lim lg0 (lg1, s, ?act)" using lg1 fin card ks I(7) r by (simp add: ops_inv_def)
    moreover have "log_event lim (End c) (lg, s, act) = Inr (lg1, s, ?act)" using Some b False by (simp add: end_op_def)
    ultimately show ?thesis by blast
  next
    case True
    then have empty: "dom ?act = {}" using card fin by simp
    obtain s2 where s2: "commit lg1 s = Inr (lg1\<lparr>lh_n := 0\<rparr>, s2)" "quiet (lg1\<lparr>lh_n := 0\<rparr>) s2"
    proof (cases "0 < lh_n lg1")
      case True
      obtain v d h where "idle (ldev lg1) v (pinned lg1 0) d h s" using lg1(2) by (auto simp: quiet_def)
      from commit_ok[OF lg1(1) True this] obtain s2 where "commit lg1 s = Inr (lg1\<lparr>lh_n := 0\<rparr>, s2)"
        "idle (ldev lg1) (apply_writes (commit_writes lg1 v) v) (\<lambda>_. 0) (apply_writes (commit_writes lg1 v) d) (h @ commit_writes lg1 v) s2"
        by blast
      moreover have "pinned (lg1\<lparr>lh_n := 0\<rparr>) 0 = (\<lambda>_. 0)" by (simp add: pinned_def fun_eq_iff)
      ultimately show thesis using that quietI[of "lg1\<lparr>lh_n := 0\<rparr>"] by simp
    next
      case False
      then have "lh_n lg1 = 0" using lg1(1) by (simp add: log_ok_def)
      then have "commit lg1 s = Inr (lg1\<lparr>lh_n := 0\<rparr>, s)" "lg1\<lparr>lh_n := 0\<rparr> = lg1" by (simp_all add: commit_def)
      then show thesis using that[of s] lg1(2) by simp
    qed
    define lg2 where "lg2 = lg1\<lparr>lh_n := 0, committing := 0\<rparr>"
    have "log_ok lg2" "same_place lg0 lg2" "committing lg2 = 0" "lh_n lg2 = 0" "outstanding lg2 = outstanding lg - 1"
      using lg1(1,3) by (auto simp: lg2_def log_ok_def same_place_def lg1_def)
    moreover have "quiet lg2 s2" using s2(2) quiet_cong[of lg2 "lg1\<lparr>lh_n := 0\<rparr>" s2] by (simp add: lg2_def pinned_def fun_eq_iff)
    moreover have "reserved ?act = 0" unfolding reserved_def empty by simp
    ultimately have "ops_inv lim lg0 (lg2, s2, ?act)" using fin card ks by (simp add: ops_inv_def)
    moreover have "log_event lim (End c) (lg, s, act) = Inr (lg2, s2, ?act)"
      using Some b True s2(1) by (simp add: end_op_def lg2_def)
    ultimately show ?thesis by blast
  qed
qed (use inv in auto)

text \<open>
  C19. Operations that overlap never exhaust the log. For every interleaving of operations that each
  make at most nine logged writes, over a log of \<open>LOGSIZE\<close> blocks as \<^verbatim>\<open>mkfs\<close> lays it out, no step panics
  or faults (not \<open>log_write\<close> for lack of space, not \<open>bget\<close> for lack of buffers, not \<open>end_op\<close>), and the
  transaction with what is reserved for running operations stays within \<open>LOGSIZE\<close>.
\<close>

theorem log_never_full:
  assumes start: "ops_inv 9 lg0 (lg, s, act)" and size: "lsize lg0 = int LOGSIZE"
    and ev: "\<forall>e \<in> set evs. \<forall>c w. e = Write c w \<longrightarrow> \<not> in_log lg0 (fst w)"
  shows "\<exists>lg' s' act'. for_each (log_event 9) evs (lg, s, act) = Inr (lg', s', act') \<and> lh_n lg' + reserved act' \<le> int LOGSIZE
    \<and> log_ok lg' \<and> outstanding lg' = int (card (dom act'))"
proof -
  have lim: "0 \<le> (9 :: int)" "9 \<le> MAXOPBLOCKS" "9 < MAXOPBLOCKS" by (simp_all add: MAXOPBLOCKS_def)
  have step: "\<exists>st'. log_event 9 e st = Inr st' \<and> ops_inv 9 lg0 st'" if "ops_inv 9 lg0 st" "e \<in> set evs" for e st
    using ops_begin[OF _ lim(1,2)] ops_write[OF _ lim(3) size] ops_end[OF _ lim(2)] that ev
    by (cases e; cases st) blast+
  have "\<exists>st'. for_each (log_event 9) es st = Inr st' \<and> ops_inv 9 lg0 st'" if "ops_inv 9 lg0 st" "set es \<subseteq> set evs" for es st
    using that
  proof (induction es arbitrary: st)
    case (Cons e es)
    then obtain st1 where "log_event 9 e st = Inr st1" "ops_inv 9 lg0 st1" using step[of st e] by auto
    then show ?case using Cons by simp
  qed simp
  from this[OF start subset_refl] show ?thesis by (auto simp: ops_inv_def)
qed

lemma sample_ops: "ops_inv 9 sample_log (sample_log\<lparr>outstanding := 0\<rparr>, binit sample_disk, \<lambda>_. None)"
proof -
  have "idle 1 sample_disk (\<lambda>_. 0) sample_disk [] (binit sample_disk)" by (rule binit_c) simp
  then have "quiet (sample_log\<lparr>outstanding := 0\<rparr>) (binit sample_disk)"
    using quietI[of "sample_log\<lparr>outstanding := 0\<rparr>" sample_disk sample_disk "[]"] by (simp add: sample_log_def pinned_homes homes_def)
  then show ?thesis
    using sample_log_facts(1) by (auto simp: ops_inv_def log_ok_def same_place_def reserved_def sample_log_def)
qed

theorem log_never_full_witness:
  "\<exists>st. for_each (log_event 9) [Begin 0, Begin 1, Write 0 (50, [1]), End 0, Write 1 (60, [2]), End 1]
     (sample_log\<lparr>outstanding := 0\<rparr>, binit sample_disk, \<lambda>_. None) = Inr st"
proof -
  have "(of_int 50 :: uint) \<noteq> of_int j" "(of_int 60 :: uint) \<noteq> of_int j" if "2 \<le> j" "j < 32" for j
    using that of_int_uint_eq[of 50 j] of_int_uint_eq[of 60 j] by auto
  then have "\<not> in_log sample_log 50" "\<not> in_log sample_log 60" by (auto simp: in_sample_log)
  then have "\<forall>e \<in> set [Begin 0, Begin 1, Write 0 (50, [1]), End 0, Write 1 (60, [2]), End 1]. \<forall>c w. e = Write c w \<longrightarrow> \<not> in_log sample_log (fst w)"
    by simp
  moreover have "lsize sample_log = int LOGSIZE" by (simp add: sample_log_def LOGSIZE_num)
  ultimately show ?thesis using log_never_full[OF sample_ops] by blast
qed

text \<open>
  Three overlapping operations at the documented limit: what their writes do to the log.
\<close>

lemma tx_writes_new:
  assumes "log_ok lg" "quiet lg s" "1 \<le> outstanding lg" "\<forall>w \<in> set ws. \<not> in_log lg (fst w)"
    "distinct (map fst ws)" "homes lg \<inter> fst ` set ws = {}" "lh_n lg + int (length ws) < lsize lg" "lsize lg \<le> int LOGSIZE"
  shows "\<exists>lg' s'. for_each tx_write ws (lg, s) = Inr (lg', s') \<and> log_ok lg' \<and> quiet lg' s' \<and> lh_n lg' = lh_n lg + int (length ws)
    \<and> homes lg' = homes lg \<union> fst ` set ws \<and> same_place lg lg' \<and> outstanding lg' = outstanding lg"
  using assms
proof (induction ws arbitrary: lg s)
  case Nil
  then show ?case by (simp add: same_place_def)
next
  case (Cons w ws)
  obtain v d h where i: "idle (ldev lg) v (pinned lg 0) d h s" using Cons.prems(2) by (auto simp: quiet_def)
  have room: "lh_n lg < int LOGSIZE" "lh_n lg + 1 < lsize lg \<or> ws = []" "lh_n lg + 1 < int NBUF" "lh_n lg + 1 < lsize lg"
    using Cons.prems(7,8) by (auto simp: LOGSIZE_num NBUF_def)
  have nl: "\<not> in_log lg (fst w)" using Cons.prems(4) by simp
  obtain lg1 s1 where t: "tx_write w (lg, s) = Inr (lg1, s1)" "log_ok lg1" "quiet lg1 s1" "homes lg1 = insert (fst w) (homes lg)"
      "same_place lg lg1" "outstanding lg1 = outstanding lg"
    using tx_write_ok[OF Cons.prems(1) i nl Cons.prems(3) room(1,4,3), of "snd w"] quietI[where h = h and d = d] by (auto simp: same_place_def)
  have cn: "int (card (homes g)) = lh_n g" if "log_ok g" for g
    unfolding homes_def by (subst card_image) (use log_okD(7)[OF that] that in \<open>auto simp: inj_on_def log_ok_def\<close>)
  have "fst w \<notin> homes lg" "finite (homes lg)" using Cons.prems(6) by (auto simp: homes_def)
  then have n1: "lh_n lg1 = lh_n lg + 1" using cn[OF Cons.prems(1)] cn[OF t(2)] t(4) by simp
  have p: "lsize lg1 = lsize lg" "in_log lg1 = in_log lg" using t(5) same_place_blocks(3)[OF t(5)] by (auto simp: same_place_def)
  have "homes lg1 \<inter> fst ` set ws = {}" using t(4) Cons.prems(5,6) by auto
  then obtain lg' s' where "for_each tx_write ws (lg1, s1) = Inr (lg', s')" "log_ok lg'" "quiet lg' s'" "lh_n lg' = lh_n lg1 + int (length ws)"
      "homes lg' = homes lg1 \<union> fst ` set ws" "same_place lg1 lg'" "outstanding lg' = outstanding lg1"
    using Cons.IH[OF t(2,3)] Cons.prems(3-8) t(6) n1 p by auto
  then show ?case using t n1 by (auto simp: same_place_def)
qed

lemma tx_write_full:
  assumes "log_ok lg" "quiet lg s" "int LOGSIZE - 1 \<le> lh_n lg" "lsize lg = int LOGSIZE"
  shows "tx_write w (lg, s) = Inl (Panic ''too big a transaction'')"
proof -
  obtain v d h where i: "idle (ldev lg) v (pinned lg 0) d h s" using assms(2) by (auto simp: quiet_def)
  have "{n. pinned lg 0 n \<noteq> 0} = homes lg" by (auto simp: pinned_homes)
  moreover have "card (homes lg) \<le> nat (lh_n lg)" unfolding homes_def using card_image_le[of "{..<nat (lh_n lg)}"] by simp
  moreover have "nat (lh_n lg) < NBUF" using assms(1) by (auto simp: log_ok_def)
  ultimately have "card {n. pinned lg 0 n \<noteq> 0} < NBUF" by simp
  moreover have "pinned lg 0 (fst w) \<noteq> -1" by (simp add: pinned_homes)
  ultimately obtain b s1 where "bread (ldev lg) (fst w) s = Inr (b, s1)" using bread_c[OF i, of "fst w"] by auto
  then show ?thesis using assms(3,4) by (cases w) (simp add: tx_write_def log_write_def)
qed

lemma write_events:
  assumes "act c = Some k" "k + int (length ws) \<le> lim"
  shows "for_each (log_event lim) (map (Write c) ws) (lg, s, act) =
    bnd (for_each tx_write ws (lg, s)) (\<lambda>(lg, s). Inr (lg, s, act(c := Some (k + int (length ws)))))"
  using assms
proof (induction ws arbitrary: lg s act k)
  case (Cons w ws)
  show ?case
  proof (cases "tx_write w (lg, s)")
    case (Inr st)
    obtain lg1 s1 where "st = (lg1, s1)" by fastforce
    then show ?thesis
      using Inr Cons.prems Cons.IH[of "act(c := Some (k + 1))" "k + 1" lg1 s1]
      by (simp del: fun_upd_apply add: fun_upd_same algebra_simps)
  qed (use Cons.prems in simp)
qed (simp add: fun_upd_idem)

text \<open>
  C20. A defect: the documented limit is one too high. Three overlapping operations that write
  \<open>MAXOPBLOCKS\<close> = 10 blocks each are admitted by \<open>begin_op\<close>, but their last write panics: a log of
  \<open>LOGSIZE\<close> blocks has a header and only \<open>LOGSIZE - 1\<close> places for data.
\<close>

theorem log_limit_off_by_one:
  assumes ok: "log_ok lg" "quiet lg s" "lh_n lg = 0" "outstanding lg = 0" "committing lg = 0" "lsize lg = int LOGSIZE"
    and ws: "length ws0 = 10" "length ws1 = 10" "length ws2 = 10" "distinct (map fst (ws0 @ ws1 @ ws2))"
      "\<forall>w \<in> set (ws0 @ ws1 @ ws2). \<not> in_log lg (fst w)"
  shows "for_each (log_event MAXOPBLOCKS) ([Begin 0, Begin 1, Begin 2] @ map (Write 0) ws0 @ map (Write 1) ws1 @ map (Write 2) ws2)
     (lg, s, \<lambda>_. None) = Inl (Panic ''too big a transaction'')"
proof -
  define lg3 where "lg3 = lg\<lparr>outstanding := 3\<rparr>"
  define act where "act = (\<lambda>_ :: nat. None :: int option)(0 := Some 0, 1 := Some 0, 2 := Some 0)"
  have begin3: "for_each (log_event MAXOPBLOCKS) [Begin 0, Begin 1, Begin 2] (lg, s, \<lambda>_. None) = Inr (lg3, s, act)"
    using ok(3-5) by (simp add: begin_op_def MAXOPBLOCKS_def LOGSIZE_num lg3_def act_def)
  have same: "home_block lg3 = home_block lg" "in_log lg3 = in_log lg" "pinned lg3 = pinned lg"
    by (simp_all add: lg3_def home_block_def in_log_def pinned_def fun_eq_iff)
  have ok3: "log_ok lg3" "quiet lg3 s" "1 \<le> outstanding lg3" "lh_n lg3 = 0" "lsize lg3 = int LOGSIZE" "homes lg3 = {}"
    using ok same quiet_cong[of lg3 lg s] by (auto simp: log_ok_def lg3_def homes_def)
  obtain us w where us1: "ws0 @ ws1 @ ws2 = us @ [w]"
    using ws(1) by (cases "ws0 @ ws1 @ ws2" rule: rev_cases) auto
  note us = us1 arg_cong[OF us1, of length, simplified, unfolded ws(1-3), simplified]
  have "distinct (map fst us)" "\<forall>w \<in> set us. \<not> in_log lg3 (fst w)"
    using ws(4,5) us same(2) unfolding us(1) by auto
  then obtain lg' s' where t: "for_each tx_write us (lg3, s) = Inr (lg', s')" "log_ok lg'" "quiet lg' s'" "lh_n lg' = 29" "same_place lg3 lg'"
    using tx_writes_new[OF ok3(1-3), of us] ok3(4-6) us(2) by (auto simp: LOGSIZE_num)
  have "tx_write w (lg', s') = Inl (Panic ''too big a transaction'')"
    by (rule tx_write_full[OF t(2,3)]) (use t(4,5) ok3(5) in \<open>simp_all add: same_place_def LOGSIZE_num\<close>)
  then have all: "for_each tx_write (ws0 @ ws1 @ ws2) (lg3, s) = Inl (Panic ''too big a transaction'')"
    unfolding us(1) for_each_append t(1) by simp
  have e: "for_each (log_event MAXOPBLOCKS) (map (Write c) ws) (lg, s, act) =
      bnd (for_each tx_write ws (lg, s)) (\<lambda>(lg, s). Inr (lg, s, act(c := Some 10)))"
    if "act c = Some 0" "length ws = 10" for c ws lg s act
    using write_events[of act c 0 ws MAXOPBLOCKS lg s] that by (simp add: MAXOPBLOCKS_def)
  have "for_each (log_event MAXOPBLOCKS) (map (Write 0) ws0 @ map (Write 1) ws1 @ map (Write 2) ws2) (lg3, s, act)
      = bnd (for_each tx_write (ws0 @ ws1 @ ws2) (lg3, s)) (\<lambda>(lg, s). Inr (lg, s, act(0 := Some 10, 1 := Some 10, 2 := Some 10)))"
    unfolding for_each_append by (auto simp: e ws act_def bnd_def split: sum.splits)
  then show ?thesis unfolding for_each_append[of _ "[Begin 0, Begin 1, Begin 2]"] begin3 using all by simp
qed

definition sample_writes :: "nat \<Rightarrow> (uint \<times> block) list" where
  "sample_writes c = map (\<lambda>i. (of_nat (100 + 10 * c + i), [])) [0..<10]"

theorem log_limit_off_by_one_witness:
  "for_each (log_event MAXOPBLOCKS) ([Begin 0, Begin 1, Begin 2] @ map (Write 0) (sample_writes 0) @ map (Write 1) (sample_writes 1)
     @ map (Write 2) (sample_writes 2)) (sample_log\<lparr>outstanding := 0\<rparr>, binit sample_disk, \<lambda>_. None) = Inl (Panic ''too big a transaction'')"
proof (rule log_limit_off_by_one)
  have "(of_nat n :: uint) \<noteq> of_int j" if "100 \<le> n" "n < 200" "2 \<le> j" "j < 32" for n j
    using of_int_uint_eq[of "int n" j] that by auto
  then have "\<not> in_log sample_log (of_nat n)" if "100 \<le> n" "n < 200" for n using that by (auto simp: in_sample_log)
  moreover have "in_log (sample_log\<lparr>outstanding := 0\<rparr>) = in_log sample_log" by (simp add: in_log_def fun_eq_iff)
  ultimately show "\<forall>w \<in> set (sample_writes 0 @ sample_writes 1 @ sample_writes 2). \<not> in_log (sample_log\<lparr>outstanding := 0\<rparr>) (fst w)"
    by (auto simp: sample_writes_def simp del: of_nat_add)
  show "distinct (map fst (sample_writes 0 @ sample_writes 1 @ sample_writes 2))" by code_simp
qed (use sample_ops in \<open>simp_all add: ops_inv_def sample_log_def sample_writes_def LOGSIZE_num\<close>)

end
