(* ===== verification/Ulib.thy ===== *)
theory Ulib
  imports Prelude "HOL-Library.Char_ord"
begin

text \<open>
  The C library of the user programs, \<^verbatim>\<open>user/ulib.c\<close>, on the two views the programs have of characters.

  A C string that is only read is a \<open>string\<close>: the characters before its terminating NUL. A buffer that
  is also written is an array of characters, \<open>char list\<close>, addressed by index; a write past its end is
  a \<open>Fault\<close>. \<open>char\<close> is unsigned on this machine.
\<close>

abbreviation NUL :: char where
  "NUL \<equiv> CHR 0x00"

abbreviation newline :: char where
  "newline \<equiv> CHR 0x0A"

section \<open>Strings that are read\<close>

fun strcmp :: "string \<Rightarrow> string \<Rightarrow> int" where
  "strcmp (p # ps) (q # qs) = (if p = q then strcmp ps qs else of_char p - of_char q)"
| "strcmp (p # ps) [] = of_char p - of_char NUL"
| "strcmp [] (q # qs) = of_char NUL - of_char q"
| "strcmp [] [] = of_char NUL - of_char NUL"

primrec strlen_from :: "string \<Rightarrow> int \<Rightarrow> int" where
  "strlen_from [] n = n"
| "strlen_from (c # s) n = strlen_from s (i32 (n + 1))"

definition strlen :: "string \<Rightarrow> uint" where
  "strlen s = of_int (strlen_from s 0)"

fun atoi_from :: "string \<Rightarrow> int \<Rightarrow> int" where
  "atoi_from [] n = n"
| "atoi_from (c # s) n =
     (if CHR ''0'' \<le> c \<and> c \<le> CHR ''9'' then atoi_from s (i32 (n * 10 + of_char c - of_char CHR ''0'')) else n)"

definition atoi :: "string \<Rightarrow> int" where
  "atoi s = atoi_from s 0"

section \<open>Buffers\<close>

definition put_at :: "char list \<Rightarrow> nat \<Rightarrow> char \<Rightarrow> char list result" where
  "put_at a i c = (if i < length a then Inr (a[i := c]) else Inl (Fault ''buffer''))"

text \<open>The C string at index \<open>i\<close> of a buffer.\<close>

definition cstr :: "char list \<Rightarrow> nat \<Rightarrow> string" where
  "cstr a i = takeWhile (\<lambda>c. c \<noteq> NUL) (drop i a)"

text \<open>\<open>strchr\<close> gives the index at which it finds \<open>c\<close>; \<open>None\<close> is the null pointer.\<close>

fun strchr_in :: "char list \<Rightarrow> nat \<Rightarrow> char \<Rightarrow> nat option" where
  "strchr_in [] i c = None"
| "strchr_in (x # a) i c = (if x = NUL then None else if x = c then Some i else strchr_in a (Suc i) c)"

definition strchr :: "char list \<Rightarrow> nat \<Rightarrow> char \<Rightarrow> nat option" where
  "strchr a i c = strchr_in (drop i a) i c"

text \<open>\<open>strcpy\<close> copies the string at \<open>t\<close> of \<open>b\<close> to \<open>s\<close> of \<open>a\<close>, its NUL included.\<close>

fun strcpy :: "char list \<Rightarrow> nat \<Rightarrow> string \<Rightarrow> char list result" where
  "strcpy a s [] = put_at a s NUL"
| "strcpy a s (c # t) = bnd (put_at a s c) (\<lambda>a. strcpy a (Suc s) t)"

definition memset :: "char list \<Rightarrow> nat \<Rightarrow> char \<Rightarrow> nat \<Rightarrow> char list result" where
  "memset a dst c n = for_each (\<lambda>i a. put_at a (dst + i) c) [0..<n] a"

definition copy_char :: "nat \<Rightarrow> nat \<Rightarrow> char list \<Rightarrow> char list result" where
  "copy_char dst src a = (if src < length a then put_at a dst (a ! src) else Inl (Fault ''buffer''))"

text \<open>\<open>memmove\<close> inside one buffer, forwards or backwards by the order of the pointers.\<close>

definition memmove :: "char list \<Rightarrow> nat \<Rightarrow> nat \<Rightarrow> nat \<Rightarrow> char list result" where
  "memmove a dst src n =
     (if src > dst then for_each (\<lambda>i. copy_char (dst + i) (src + i)) [0..<n] a
      else for_each (\<lambda>i. copy_char (dst + i) (src + i)) (rev [0..<n]) a)"

primrec memcmp :: "char list \<Rightarrow> char list \<Rightarrow> nat \<Rightarrow> int" where
  "memcmp p1 p2 0 = 0"
| "memcmp p1 p2 (Suc n) =
     (if hd p1 \<noteq> hd p2 then of_char (hd p1) - of_char (hd p2) else memcmp (tl p1) (tl p2) n)"

text \<open>
  \<open>gets\<close>, with what is left of the standard input: \<open>read(0, &c, 1)\<close> takes its first character, or
  returns 0 at its end.
\<close>

fun gets_loop :: "char list \<Rightarrow> nat \<Rightarrow> int \<Rightarrow> string \<Rightarrow> (char list \<times> string) result" where
  "gets_loop buf i mx [] = bnd (put_at buf i NUL) (\<lambda>buf. Inr (buf, []))"
| "gets_loop buf i mx (c # inp) =
     (if int i + 1 < mx then
        bnd (put_at buf i c) (\<lambda>buf.
          if c = newline \<or> c = CHR 0x0D then bnd (put_at buf (Suc i) NUL) (\<lambda>buf. Inr (buf, inp))
          else gets_loop buf (Suc i) mx inp)
      else bnd (put_at buf i NUL) (\<lambda>buf. Inr (buf, c # inp)))"

definition gets :: "char list \<Rightarrow> int \<Rightarrow> string \<Rightarrow> (char list \<times> string) result" where
  "gets buf mx inp = gets_loop buf 0 mx inp"

section \<open>Facts\<close>

lemma strcmp_0_iff: "NUL \<notin> set p \<Longrightarrow> NUL \<notin> set q \<Longrightarrow> strcmp p q = 0 \<longleftrightarrow> p = q"
proof (induction p q rule: strcmp.induct)
  case (2 p ps)
  then show ?case using of_char_eq_iff[of p NUL, where 'a = int] by auto
next
  case (3 q qs)
  then show ?case using of_char_eq_iff[of q NUL, where 'a = int] by auto
qed auto

lemma strcmp_antisym: "strcmp q p = - strcmp p q"
  by (induction p q rule: strcmp.induct) auto

lemma strlen_length: "length s < 2147483648 \<Longrightarrow> strlen s = of_nat (length s)"
proof -
  have "strlen_from s n = n + int (length s)" if "0 \<le> n" "n + int (length s) \<le> INT_MAX" for n
    using that
  proof (induction s arbitrary: n)
    case (Cons c s)
    then have "i32 (n + 1) = n + 1" by (intro i32_in_range) (simp add: in_int_def INT_MIN_def)
    then show ?case using Cons by simp
  qed simp
  then show "length s < 2147483648 \<Longrightarrow> strlen s = of_nat (length s)" by (simp add: strlen_def INT_MAX_def)
qed

lemma strchr_in_found:
  assumes "NUL \<notin> set u" "c \<notin> set u" "c \<noteq> NUL"
  shows "strchr_in (u @ c # v) i c = Some (i + length u)"
  using assms by (induction u arbitrary: i) auto

lemma strchr_in_none:
  assumes "NUL \<notin> set u" "c \<notin> set u"
  shows "strchr_in (u @ NUL # v) i c = None"
  using assms by (induction u arbitrary: i) auto

lemma strchr_in_bound: "strchr_in a i c = Some q \<Longrightarrow> i \<le> q \<and> q < i + length a"
  by (induction a arbitrary: i) (fastforce split: if_splits)+

lemma strchr_bound: "strchr a i c = Some q \<Longrightarrow> i \<le> q \<and> q < length a"
  by (cases "i \<le> length a") (auto simp: strchr_def dest: strchr_in_bound)

lemma copy_up:
  assumes "dst < src" "src + n \<le> length a"
  shows "for_each (\<lambda>i. copy_char (dst + i) (src + i)) [0..<n] a = Inr (take dst a @ take n (drop src a) @ drop (dst + n) a)"
  using assms
proof (induction n)
  case (Suc n)
  let ?b = "take dst a @ take n (drop src a) @ drop (dst + n) a"
  have l: "length ?b = length a" using Suc.prems by simp
  have r: "?b ! (src + n) = a ! (src + n)" using Suc.prems by (auto simp: nth_append algebra_simps)
  have d: "drop (dst + n) a = a ! (dst + n) # drop (Suc (dst + n)) a" using Suc.prems by (simp add: Cons_nth_drop_Suc)
  have "?b[dst + n := a ! (src + n)] = take dst a @ take (Suc n) (drop src a) @ drop (dst + Suc n) a"
    using Suc.prems by (subst d) (simp add: list_update_append take_Suc_conv_app_nth)
  then show ?case using Suc.IH Suc.prems l r
    by (simp add: for_each_append copy_char_def put_at_def)
qed simp

lemma copy_down:
  assumes "src \<le> dst" "dst + n \<le> length a"
  shows "for_each (\<lambda>i. copy_char (dst + i) (src + i)) (rev [0..<n]) a = Inr (take dst a @ take n (drop src a) @ drop (dst + n) a)"
  using assms
proof (induction n arbitrary: a)
  case (Suc n)
  let ?b = "a[dst + n := a ! (src + n)]"
  have "copy_char (dst + n) (src + n) a = Inr ?b" using Suc.prems by (simp add: copy_char_def put_at_def)
  moreover have "take n (drop src ?b) = take n (drop src a)"
    using Suc.prems by (auto intro!: nth_equalityI simp: nth_list_update)
  moreover have "drop (dst + n) ?b = a ! (src + n) # drop (dst + Suc n) a"
    using Suc.prems by (simp add: drop_update_swap flip: Cons_nth_drop_Suc)
  ultimately show ?case using Suc.IH[of ?b] Suc.prems by (simp add: take_Suc_conv_app_nth)
qed simp

text \<open>However the two areas overlap, \<open>memmove\<close> leaves the source's old characters at the destination.\<close>

lemma memmove_eq:
  assumes "src + n \<le> length a" "dst + n \<le> length a"
  shows "memmove a dst src n = Inr (take dst a @ take n (drop src a) @ drop (dst + n) a)"
  using assms copy_up[of dst src n a] copy_down[of src dst n a] by (simp add: memmove_def)

end
