(* ===== verification/Grep.thy ===== *)
theory Grep
  imports Ulib "HOL-Library.Sublist"
begin

text \<open>
  \<^verbatim>\<open>user/grep.c\<close>: the regular-expression matcher, the loop that cuts its input into lines in a buffer of
  1024 characters, and \<open>main\<close>.

  The matcher is compared with the language a pattern denotes; the line loop with a reference that sees
  the whole input at once. The system calls are modelled by their documented behaviour: \<open>read\<close> returns
  -1, or at most as many characters as asked for and as are left, the count being chosen by an
  environment \<open>avail\<close> that the theorems quantify over; \<open>write\<close> appends to the output.
\<close>

section \<open>The matcher\<close>

function matchhere :: "string \<Rightarrow> string \<Rightarrow> bool"
  and matchstar :: "char \<Rightarrow> string \<Rightarrow> string \<Rightarrow> bool" where
  "matchhere re tx =
     (case re of
        [] \<Rightarrow> True
      | c # re1 \<Rightarrow>
          if re1 \<noteq> [] \<and> hd re1 = CHR ''*'' then matchstar c (tl re1) tx
          else if c = CHR ''$'' \<and> re1 = [] then tx = []
          else if tx \<noteq> [] \<and> (c = CHR ''.'' \<or> c = hd tx) then matchhere re1 (tl tx)
          else False)"
| "matchstar c re tx =
     (if matchhere re tx then True
      else if tx \<noteq> [] \<and> (hd tx = c \<or> c = CHR ''.'') then matchstar c re (tl tx)
      else False)"
  by pat_completeness auto
termination
  by (relation "measure (case_sum (\<lambda>(re, tx). 2 * (length re + length tx)) (\<lambda>(c, re, tx). 2 * (length re + length tx) + 1))")
    (auto simp: neq_Nil_conv)

declare matchhere.simps [simp del] matchstar.simps [simp del]

text \<open>The loop of \<open>match\<close> over the suffixes of the text, the empty one included.\<close>

fun match_from :: "string \<Rightarrow> string \<Rightarrow> bool" where
  "match_from re [] = matchhere re []"
| "match_from re (c # tx) = (if matchhere re (c # tx) then True else match_from re tx)"

definition match :: "string \<Rightarrow> string \<Rightarrow> bool" where
  "match re tx =
     (if re \<noteq> [] \<and> hd re = CHR ''^'' then matchhere (tl re) tx else match_from re tx)"

section \<open>The line loop\<close>

definition BUFSIZE :: nat where
  "BUFSIZE = 1024"

definition read_count :: "int \<Rightarrow> nat \<Rightarrow> string \<Rightarrow> int" where
  "read_count a n inp = (if a < 0 then -1 else min a (min (int n) (int (length inp))))"

lemma read_count_progress: "0 < read_count a n inp \<Longrightarrow> length inp - nat (read_count a n inp) < length inp"
  by (cases inp) (auto simp: read_count_def min_def split: if_splits)

lemma read_count_Nil [simp]: "\<not> 0 < read_count a n []"
  by (simp add: read_count_def)

text \<open>The inner loop: every complete line of the buffer from index \<open>p\<close> on.\<close>

function grep_lines :: "string \<Rightarrow> nat \<Rightarrow> char list \<Rightarrow> string \<Rightarrow> nat \<times> char list \<times> string" where
  "grep_lines pattern p buf out =
     (case strchr buf p newline of
        None \<Rightarrow> (p, buf, out)
      | Some q \<Rightarrow>
          let buf = buf[q := NUL];
              (buf, out) =
                (if match pattern (cstr buf p)
                 then (let buf = buf[q := newline] in (buf, out @ take (q + 1 - p) (drop p buf)))
                 else (buf, out)) in
          grep_lines pattern (q + 1) buf out)"
  by pat_completeness auto
termination
  by (relation "measure (\<lambda>(_, p, buf, _). length buf - p)") (auto simp: Let_def dest!: strchr_bound split: if_splits)

declare grep_lines.simps [simp del]

text \<open>The outer loop; characters written past the end of \<open>buf\<close> would be a fault.\<close>

function grep_loop :: "string \<Rightarrow> int list \<Rightarrow> string \<Rightarrow> nat \<Rightarrow> char list \<Rightarrow> string \<Rightarrow> string result" where
  "grep_loop pattern avail inp m buf out =
     (let req = BUFSIZE - m - 1;
          n = read_count (case avail of [] \<Rightarrow> int req | a # _ \<Rightarrow> a) req inp in
      if n > 0 then
        let n = nat n;
            buf = take m buf @ take n inp @ drop (m + n) buf;
            m = m + n in
        bnd (put_at buf m NUL) (\<lambda>buf.
          let (p, buf, out) = grep_lines pattern 0 buf out in
          bnd (if m > 0 then bnd (memmove buf 0 p (m - p)) (\<lambda>buf. Inr (m - p, buf)) else Inr (m, buf)) (\<lambda>(m, buf).
            grep_loop pattern (tl avail) (drop n inp) m buf out))
      else Inr out)"
  by pat_completeness auto
termination
  by (relation "measure (\<lambda>(_, _, inp, _). length inp)") (simp_all add: read_count_progress)

declare grep_loop.simps [simp del]

definition grep :: "string \<Rightarrow> int list \<Rightarrow> char list \<Rightarrow> string \<Rightarrow> string result" where
  "grep pattern avail buf inp = grep_loop pattern avail inp 0 buf []"

text \<open>
  \<open>main\<close> returns the exit status, the output and the error output. \<open>fopen\<close> is the contents of the
  files that can be opened, \<open>avail i\<close> how the reads of the \<open>i\<close>-th argument are served.
\<close>

fun grep_files :: "string \<Rightarrow> (string \<Rightarrow> string option) \<Rightarrow> (nat \<Rightarrow> int list) \<Rightarrow> char list \<Rightarrow> nat \<Rightarrow> string list \<Rightarrow> string \<Rightarrow>
    (int \<times> string \<times> string) result" where
  "grep_files pattern fopen avail buf i [] out = Inr (0, out, [])"
| "grep_files pattern fopen avail buf i (f # fs) out =
     (case fopen f of
        None \<Rightarrow> Inr (1, out @ ''grep: cannot open '' @ f @ [newline], [])
      | Some inp \<Rightarrow> bnd (grep pattern (avail i) buf inp) (\<lambda>o1. grep_files pattern fopen avail buf (i + 1) fs (out @ o1)))"

definition grep_main :: "string list \<Rightarrow> (string \<Rightarrow> string option) \<Rightarrow> string \<Rightarrow> (nat \<Rightarrow> int list) \<Rightarrow> char list \<Rightarrow>
    (int \<times> string \<times> string) result" where
  "grep_main argv fopen stdin avail buf =
     (if length argv \<le> 1 then Inr (1, [], ''usage: grep pattern [file ...]'' @ [newline])
      else if length argv \<le> 2 then bnd (grep (argv ! 1) (avail 0) buf stdin) (\<lambda>out. Inr (0, out, []))
      else grep_files (argv ! 1) fopen avail buf 2 (drop 2 argv) [])"

section \<open>What a pattern denotes\<close>

text \<open>A pattern is a sequence of characters, each perhaps starred, and perhaps an end anchor.\<close>

fun items :: "string \<Rightarrow> (char \<times> bool) list \<times> bool" where
  "items [] = ([], False)"
| "items [c] = (if c = CHR ''$'' then ([], True) else ([(c, False)], False))"
| "items (c # d # re) =
     (if d = CHR ''*'' then (let (is, a) = items re in ((c, True) # is, a))
      else (let (is, a) = items (d # re) in ((c, False) # is, a)))"

definition fits :: "char \<Rightarrow> char \<Rightarrow> bool" where
  "fits c x \<longleftrightarrow> c = CHR ''.'' \<or> c = x"

primrec lang :: "(char \<times> bool) list \<Rightarrow> string set" where
  "lang [] = {[]}"
| "lang (i # is) =
     (if snd i then {u @ w | u w. (\<forall>x \<in> set u. fits (fst i) x) \<and> w \<in> lang is}
      else {x # w | x w. fits (fst i) x \<and> w \<in> lang is})"

text \<open>The text starts with a word of the pattern, which an end anchor makes the whole of it.\<close>

definition denotes :: "string \<Rightarrow> string \<Rightarrow> bool" where
  "denotes re tx \<longleftrightarrow> (\<exists>w v. tx = w @ v \<and> w \<in> lang (fst (items re)) \<and> (snd (items re) \<longrightarrow> v = []))"

lemma denotes_Nil: "denotes [] tx"
  by (simp add: denotes_def)

lemma denotes_end: "denotes [CHR ''$''] tx \<longleftrightarrow> tx = []"
  by (simp add: denotes_def)

text \<open>The denotation by its items, on which the cases of the matcher are plain set equations.\<close>

definition prefix_in :: "(char \<times> bool) list \<Rightarrow> bool \<Rightarrow> string \<Rightarrow> bool" where
  "prefix_in is a tx \<longleftrightarrow> (\<exists>w v. tx = w @ v \<and> w \<in> lang is \<and> (a \<longrightarrow> v = []))"

lemma denotes_items: "items re = (is, a) \<Longrightarrow> denotes re tx \<longleftrightarrow> prefix_in is a tx"
  by (simp add: denotes_def prefix_in_def)

lemma prefix_in_one: "prefix_in ((c, False) # is) a tx \<longleftrightarrow> (\<exists>x t. tx = x # t \<and> fits c x \<and> prefix_in is a t)"
proof
  assume "prefix_in ((c, False) # is) a tx"
  then obtain w0 v where "tx = w0 @ v" "w0 \<in> lang ((c, False) # is)" and a: "a \<longrightarrow> v = []"
    unfolding prefix_in_def by blast
  then obtain x w where "tx = x # w @ v" "fits c x" "w \<in> lang is" by auto
  then show "\<exists>x t. tx = x # t \<and> fits c x \<and> prefix_in is a t" using a unfolding prefix_in_def by blast
next
  assume "\<exists>x t. tx = x # t \<and> fits c x \<and> prefix_in is a t"
  then obtain x w v where "tx = (x # w) @ v" "fits c x" "w \<in> lang is" "a \<longrightarrow> v = []"
    unfolding prefix_in_def by auto
  moreover have "x # w \<in> lang ((c, False) # is)" using calculation by simp
  ultimately show "prefix_in ((c, False) # is) a tx" unfolding prefix_in_def by blast
qed

lemma prefix_in_star:
  "prefix_in ((c, True) # is) a tx \<longleftrightarrow> (\<exists>u t. tx = u @ t \<and> (\<forall>x \<in> set u. fits c x) \<and> prefix_in is a t)"
proof
  assume "prefix_in ((c, True) # is) a tx"
  then obtain w0 v where "tx = w0 @ v" "w0 \<in> lang ((c, True) # is)" and a: "a \<longrightarrow> v = []"
    unfolding prefix_in_def by blast
  then obtain u w where "tx = u @ (w @ v)" "\<forall>x \<in> set u. fits c x" "w \<in> lang is" by auto
  then show "\<exists>u t. tx = u @ t \<and> (\<forall>x \<in> set u. fits c x) \<and> prefix_in is a t" using a unfolding prefix_in_def by blast
next
  assume "\<exists>u t. tx = u @ t \<and> (\<forall>x \<in> set u. fits c x) \<and> prefix_in is a t"
  then obtain u w v where "tx = (u @ w) @ v" "\<forall>x \<in> set u. fits c x" "w \<in> lang is" "a \<longrightarrow> v = []"
    unfolding prefix_in_def by auto
  moreover have "u @ w \<in> lang ((c, True) # is)" using calculation by auto
  ultimately show "prefix_in ((c, True) # is) a tx" unfolding prefix_in_def by blast
qed

lemma denotes_one:
  assumes "re = [] \<or> hd re \<noteq> CHR ''*''" "\<not> (c = CHR ''$'' \<and> re = [])"
  shows "denotes (c # re) tx \<longleftrightarrow> (\<exists>x t. tx = x # t \<and> fits c x \<and> denotes re t)"
proof -
  obtain "is" a where i: "items re = (is, a)" by fastforce
  have "items (c # re) = ((c, False) # is, a)" using assms i by (cases re) auto
  then show ?thesis by (simp only: denotes_items[OF i] denotes_items prefix_in_one)
qed

lemma denotes_star:
  "denotes (c # CHR ''*'' # re) tx \<longleftrightarrow> (\<exists>u t. tx = u @ t \<and> (\<forall>x \<in> set u. fits c x) \<and> denotes re t)"
proof -
  obtain "is" a where i: "items re = (is, a)" by fastforce
  then have "items (c # CHR ''*'' # re) = ((c, True) # is, a)" by simp
  then show ?thesis by (simp only: denotes_items[OF i] denotes_items prefix_in_star)
qed

lemma denotes_star_step:
  "denotes (c # CHR ''*'' # re) tx \<longleftrightarrow>
     denotes re tx \<or> (\<exists>x t. tx = x # t \<and> fits c x \<and> denotes (c # CHR ''*'' # re) t)"
proof
  assume "denotes (c # CHR ''*'' # re) tx"
  then obtain u t where "tx = u @ t" "\<forall>x \<in> set u. fits c x" "denotes re t" unfolding denotes_star by blast
  then show "denotes re tx \<or> (\<exists>x t. tx = x # t \<and> fits c x \<and> denotes (c # CHR ''*'' # re) t)"
    by (cases u) (auto simp: denotes_star)
next
  assume "denotes re tx \<or> (\<exists>x t. tx = x # t \<and> fits c x \<and> denotes (c # CHR ''*'' # re) t)"
  then show "denotes (c # CHR ''*'' # re) tx"
    unfolding denotes_star by (metis append.left_neutral append_Cons empty_iff empty_set set_ConsD)
qed

text \<open>The recursive matcher decides the denotation.\<close>

lemma matchhere_denotes:
  "matchhere re tx \<longleftrightarrow> denotes re tx"
  "matchstar c re tx \<longleftrightarrow> denotes (c # CHR ''*'' # re) tx"
proof (induction re tx and c re tx rule: matchhere_matchstar.induct)
  case (1 re tx)
  show ?case
  proof (cases re)
    case Nil
    then show ?thesis by (simp add: matchhere.simps[of "[]"] denotes_Nil)
  next
    case (Cons c re1)
    show ?thesis
    proof (cases "re1 \<noteq> [] \<and> hd re1 = CHR ''*''")
      case True
      then have "re1 = CHR ''*'' # tl re1" by (cases re1) auto
      then show ?thesis using 1(1)[OF Cons True] Cons True by (simp add: matchhere.simps[of "c # re1"])
    next
      case star: False
      show ?thesis
      proof (cases "c = CHR ''$'' \<and> re1 = []")
        case True
        then show ?thesis using Cons by (simp add: matchhere.simps[of "''$''"] denotes_end)
      next
        case False
        then have d: "denotes (c # re1) tx \<longleftrightarrow> (\<exists>x t. tx = x # t \<and> fits c x \<and> denotes re1 t)"
          using star denotes_one[of re1 c] by blast
        have "matchhere (c # re1) tx \<longleftrightarrow> (\<exists>x t. tx = x # t \<and> fits c x \<and> matchhere re1 t)"
          using star False by (cases tx) (auto simp: matchhere.simps[of "c # re1"] fits_def)
        also have "... \<longleftrightarrow> (\<exists>x t. tx = x # t \<and> fits c x \<and> denotes re1 t)"
          using 1(2)[OF Cons star False] by (cases tx) (auto simp: fits_def)
        finally show ?thesis unfolding Cons d .
      qed
    qed
  qed
next
  case (2 c re tx)
  show ?case
    using 2 denotes_star_step[of c re tx]
    by (cases tx) (auto simp: matchstar.simps[of c re] fits_def)
qed

lemma match_from_denotes: "match_from re tx \<longleftrightarrow> (\<exists>u t. tx = u @ t \<and> denotes re t)"
proof (induction tx)
  case (Cons c tx)
  have "(\<exists>u t. c # tx = u @ t \<and> denotes re t) \<longleftrightarrow> denotes re (c # tx) \<or> (\<exists>u t. tx = u @ t \<and> denotes re t)"
    by (metis append_Cons append_Nil list.sel(3) neq_Nil_conv tl_append2)
  then show ?case using Cons by (simp add: matchhere_denotes)
qed (simp add: matchhere_denotes)

section \<open>Lines\<close>

text \<open>The complete lines of an input whose first line began with \<open>cur\<close>, and the incomplete one at its end.\<close>

fun glines :: "string \<Rightarrow> string \<Rightarrow> string list \<times> string" where
  "glines cur [] = ([], cur)"
| "glines cur (c # s) =
     (if c = newline then (cur # fst (glines [] s), snd (glines [] s)) else glines (cur @ [c]) s)"

definition selected :: "string \<Rightarrow> string list \<Rightarrow> string" where
  "selected pattern ls = concat (map (\<lambda>l. l @ [newline]) (filter (match pattern) ls))"

lemma glines_append:
  "glines cur (u @ v) = (fst (glines cur u) @ fst (glines (snd (glines cur u)) v), snd (glines (snd (glines cur u)) v))"
  by (induction cur u rule: glines.induct) auto

lemma glines_plain: "newline \<notin> set u \<Longrightarrow> glines cur u = ([], cur @ u)"
  by (induction u arbitrary: cur) auto

lemma glines_line: "newline \<notin> set u \<Longrightarrow> glines [] (u @ newline # v) = (u # fst (glines [] v), snd (glines [] v))"
  by (simp add: glines_append glines_plain)

lemma glines_rest: "newline \<notin> set cur \<Longrightarrow> newline \<notin> set (snd (glines cur u)) \<and> suffix (snd (glines cur u)) (cur @ u)"
proof (induction cur u rule: glines.induct)
  case (2 cur c s)
  show ?case
  proof (cases "c = newline")
    case True
    then have "suffix (snd (glines [] s)) s" "newline \<notin> set (snd (glines [] s))" using 2 by auto
    then show ?thesis using True by (auto intro: suffix_appendI suffix_ConsI)
  qed (use 2 in auto)
qed simp

lemma selected_append: "selected pattern (ls @ ls') = selected pattern ls @ selected pattern ls'"
  by (simp add: selected_def)

text \<open>The inner loop prints the selected complete lines and leaves the incomplete one.\<close>

lemma grep_lines_ok:
  assumes "drop p buf = t @ NUL # junk" "NUL \<notin> set t"
  shows "\<exists>p' buf'. grep_lines pattern p buf out = (p', buf', out @ selected pattern (fst (glines [] t)))
    \<and> drop p' buf' = snd (glines [] t) @ NUL # junk \<and> length buf' = length buf \<and> p \<le> p' \<and> p' + length (snd (glines [] t)) = p + length t"
  using assms
proof (induction "length t" arbitrary: t p buf out rule: less_induct)
  case less
  show ?case
  proof (cases "newline \<in> set t")
    case False
    then have "strchr buf p newline = None" using less.prems by (simp add: strchr_def strchr_in_none)
    then show ?thesis using False less.prems by (simp add: grep_lines.simps[of _ p] glines_plain selected_def)
  next
    case True
    then obtain u v where t: "t = u @ newline # v" "newline \<notin> set u" by (meson split_list_first)
    define q where "q = p + length u"
    have d: "drop p buf = u @ newline # v @ NUL # junk" using less.prems t by simp
    then have "length buf - p = length u + Suc (length v + Suc (length junk))" using length_drop[of p buf] by simp
    then have pl: "p \<le> length buf" "q < length buf" by (simp_all add: q_def)
    have f: "strchr buf p newline = Some q" using d t less.prems by (simp add: strchr_def strchr_in_found q_def)
    have nul: "drop p (buf[q := NUL]) = u @ NUL # v @ NUL # junk" using d pl by (simp add: drop_update_swap q_def)
    then have l: "cstr (buf[q := NUL]) p = u" using less.prems t by (simp add: cstr_def takeWhile_append)
    let ?b = "if match pattern u then buf[q := newline] else buf[q := NUL]"
    let ?o = "if match pattern u then out @ u @ [newline] else out"
    have bq: "drop p (buf[q := newline]) = drop p buf" using d pl by (simp add: drop_update_swap q_def)
    have "drop (q + 1) ?b = drop (Suc (length u)) (drop p ?b)" by (simp add: q_def add.commute)
    also have "drop p ?b = u @ (if match pattern u then newline else NUL) # v @ NUL # junk" using nul bq d by simp
    also have "drop (Suc (length u)) ... = v @ NUL # junk" by simp
    finally have d': "drop (q + 1) ?b = v @ NUL # junk" .
    have step: "grep_lines pattern p buf out = grep_lines pattern (q + 1) ?b ?o"
      using f l bq d by (subst grep_lines.simps) (simp add: Let_def q_def)
    have "length v < length t" "NUL \<notin> set v" using t less.prems by auto
    then obtain p' buf' where "grep_lines pattern (q + 1) ?b ?o = (p', buf', ?o @ selected pattern (fst (glines [] v)))"
        "drop p' buf' = snd (glines [] v) @ NUL # junk" "length buf' = length ?b" "q + 1 \<le> p'" "p' + length (snd (glines [] v)) = q + 1 + length v"
      using less.hyps[OF _ d'] by blast
    then show ?thesis unfolding step using t by (auto simp: glines_line selected_def q_def)
  qed
qed

text \<open>Every line, the incomplete one included, leaves room in the buffer for its newline and the NUL.\<close>

definition short_lines :: "string \<Rightarrow> bool" where
  "short_lines s \<longleftrightarrow> (\<forall>l. sublist l s \<and> newline \<notin> set l \<longrightarrow> length l + 2 \<le> BUFSIZE)"

lemma grep_loop_step:
  assumes "n = read_count (case avail of [] \<Rightarrow> int (BUFSIZE - m - 1) | a # _ \<Rightarrow> a) (BUFSIZE - m - 1) inp" "0 < n"
    "put_at (take m buf @ take (nat n) inp @ drop (m + nat n) buf) (m + nat n) NUL = Inr b2"
    "grep_lines pattern 0 b2 out = (p, b3, out')" "memmove b3 0 p (m + nat n - p) = Inr b4"
  shows "grep_loop pattern avail inp m buf out = grep_loop pattern (tl avail) (drop (nat n) inp) (m + nat n - p) b4 out'"
  by (subst grep_loop.simps, unfold Let_def, fold assms(1)) (use assms(2-) in simp)

lemma grep_loop_ok:
  assumes "length buf = BUFSIZE" "take m buf = pend" "length pend = m" "newline \<notin> set pend"
    "NUL \<notin> set (pend @ inp)" "short_lines (pend @ inp)" "\<forall>a \<in> set avail. 0 < a"
  shows "grep_loop pattern avail inp m buf out = Inr (out @ selected pattern (fst (glines pend inp)))"
  using assms
proof (induction "length inp" arbitrary: avail inp m buf out pend rule: less_induct)
  case less
  define req where "req = BUFSIZE - m - 1"
  define n where "n = read_count (case avail of [] \<Rightarrow> int req | a # _ \<Rightarrow> a) req inp"
  have m: "m + 2 \<le> BUFSIZE" using less.prems unfolding short_lines_def
    by (metis sublist_appendI append.left_neutral)
  show ?case
  proof (cases "inp = []")
    case True
    then show ?thesis by (subst grep_loop.simps) (simp add: Let_def selected_def)
  next
    case False
    have n: "0 < n" "nat n \<le> length inp" "nat n \<le> req"
      using False m less.prems(7) by (auto simp: n_def read_count_def req_def split: list.split)
    define b1 where "b1 = take m buf @ take (nat n) inp @ drop (m + nat n) buf"
    define t where "t = pend @ take (nat n) inp"
    have lt: "length t = m + nat n" "length t < BUFSIZE" using n m less.prems(3) by (auto simp: t_def req_def)
    have "b1[length t := NUL] = t @ NUL # drop (length t + 1) buf"
      using lt less.prems(1,2) unfolding b1_def t_def
      by (subst append_assoc[symmetric], subst list_update_append) (simp flip: Cons_nth_drop_Suc)
    then have b2: "put_at b1 (m + nat n) NUL = Inr (t @ NUL # drop (length t + 1) buf)"
      using lt less.prems(1,2) n by (auto simp: put_at_def b1_def t_def)
    have inp: "inp = take (nat n) inp @ drop (nat n) inp" by simp
    have nt: "NUL \<notin> set t" using less.prems(5) by (auto simp: t_def dest: in_set_takeD)
    obtain p b3 where l: "grep_lines pattern 0 (t @ NUL # drop (length t + 1) buf) out
        = (p, b3, out @ selected pattern (fst (glines [] t)))" "drop p b3 = snd (glines [] t) @ NUL # drop (length t + 1) buf"
        "length b3 = BUFSIZE" "p + length (snd (glines [] t)) = length t"
      using grep_lines_ok[of 0 "t @ NUL # drop (length t + 1) buf", OF _ nt, of _ pattern out] lt less.prems(1) by auto
    define r where "r = snd (glines [] t)"
    have r: "length r = m + nat n - p" "take (length r) (drop p b3) = r" using l lt by (auto simp: r_def)
    have mv: "memmove b3 0 p (m + nat n - p) = Inr (r @ drop (length r) b3)"
      using memmove_eq[of p "length r" b3 0] r l lt by (simp add: r_def)
    have tt: "glines [] t = glines pend (take (nat n) inp)" by (simp add: t_def glines_append glines_plain less.prems(4))
    have rest: "newline \<notin> set r" "suffix r t" using glines_rest[of "[]" t] by (simp_all add: r_def)
    have sl: "short_lines (r @ drop (nat n) inp)"
      using less.prems(6) rest(2) unfolding short_lines_def t_def suffix_def
      by (metis append.assoc inp sublist_append_leftI sublist_order.order.trans)
    have nn: "NUL \<notin> set (r @ drop (nat n) inp)"
      using nt less.prems(5) rest(2) by (auto simp: suffix_def dest: in_set_dropD)
    have "grep_loop pattern (tl avail) (drop (nat n) inp) (m + nat n - p) (r @ drop (length r) b3) (out @ selected pattern (fst (glines [] t)))
      = Inr (out @ selected pattern (fst (glines [] t)) @ selected pattern (fst (glines r (drop (nat n) inp))))"
      using less.hyps[of "drop (nat n) inp" "r @ drop (length r) b3" "length r" r "tl avail" "out @ selected pattern (fst (glines [] t))"]
        n False rest(1) sl nn r(1) l(3) lt less.prems(7) by (cases avail) auto
    moreover have "fst (glines pend inp) = fst (glines [] t) @ fst (glines r (drop (nat n) inp))"
      using glines_append[of pend "take (nat n) inp" "drop (nat n) inp"] by (simp add: tt r_def)
    ultimately show ?thesis
      using grep_loop_step[OF n_def[unfolded req_def] n(1) b2[unfolded b1_def] l(1) mv] by (simp add: selected_append)
  qed
qed

end
