(* ===== verification/Printf.thy ===== *)
theory Printf
  imports Ulib
begin

text \<open>
  Formatted output: \<^verbatim>\<open>user/printf.c\<close> and \<^verbatim>\<open>kernel/printf.c\<close>. The user version writes characters to a
  file descriptor, the kernel version to the console; both are functions from the format and the variable
  arguments to the characters written. Reading an argument of another type than the one passed, or one
  that was not passed, is a \<open>Fault\<close>.
\<close>

datatype va = VInt int | VU64 uint64 | VStr "string option"

type_synonym va_list = "va list"

fun va_int :: "va_list \<Rightarrow> (int \<times> va_list) result" where
  "va_int (VInt x # ap) = Inr (x, ap)"
| "va_int ap = Inl (Fault ''va_arg'')"

fun va_u64 :: "va_list \<Rightarrow> (uint64 \<times> va_list) result" where
  "va_u64 (VU64 x # ap) = Inr (x, ap)"
| "va_u64 ap = Inl (Fault ''va_arg'')"

fun va_str :: "va_list \<Rightarrow> (string option \<times> va_list) result" where
  "va_str (VStr s # ap) = Inr (s, ap)"
| "va_str ap = Inl (Fault ''va_arg'')"

section \<open>Integers\<close>

definition udigits :: string where
  "udigits = ''0123456789ABCDEF''"

definition kdigits :: string where
  "kdigits = ''0123456789abcdef''"

text \<open>The loop that fills \<open>buf\<close> from the least significant digit on.\<close>

function printint_loop :: "string \<Rightarrow> uint \<Rightarrow> uint \<Rightarrow> char list \<Rightarrow> nat \<Rightarrow> (char list \<times> nat) result" where
  "printint_loop digits x base buf i =
     (if base = 0 then Inl (Fault ''division by zero'')
      else if length buf \<le> i then Inl (Fault ''buffer'')
      else
        let buf = buf[i := digits ! unat (x mod base)];
            x = x div base in
        if x \<noteq> 0 then printint_loop digits x base buf (i + 1) else Inr (buf, i + 1))"
  by pat_completeness auto
termination
  by (relation "measure (\<lambda>(_, _, _, buf, i). length buf - i)") auto

declare printint_loop.simps [simp del]

text \<open>\<open>printint\<close> of the user library; \<open>buf\<close> has 16 characters, of any value at first.\<close>

definition printint :: "string \<Rightarrow> char list \<Rightarrow> int \<Rightarrow> int \<Rightarrow> int \<Rightarrow> string result" where
  "printint digits buf xx base sg =
     (let (neg, x) = (if sg \<noteq> 0 \<and> xx < 0 then (True, of_int (i32 (- xx))) else (False, of_int xx)) in
      bnd (printint_loop digits x (of_int base) buf 0) (\<lambda>(buf, i).
      bnd (if neg then bnd (put_at buf i CHR ''-'') (\<lambda>buf. Inr (buf, i + 1)) else Inr (buf, i)) (\<lambda>(buf, i).
        Inr (rev (take i buf)))))"

text \<open>\<open>printint\<close> of the kernel: the same, with the parameter \<open>sign\<close> reused for the sign of \<open>xx\<close>.\<close>

definition kprintint :: "char list \<Rightarrow> int \<Rightarrow> int \<Rightarrow> int \<Rightarrow> string result" where
  "kprintint buf xx base sg =
     (let sg = (if sg \<noteq> 0 then (if xx < 0 then 1 else 0) else sg);
          x = (if sg \<noteq> 0 then of_int (i32 (- xx)) else of_int xx) in
      bnd (printint_loop kdigits x (of_int base) buf 0) (\<lambda>(buf, i).
      bnd (if sg \<noteq> 0 then bnd (put_at buf i CHR ''-'') (\<lambda>buf. Inr (buf, i + 1)) else Inr (buf, i)) (\<lambda>(buf, i).
        Inr (rev (take i buf)))))"

primrec printptr_loop :: "string \<Rightarrow> uint64 \<Rightarrow> nat \<Rightarrow> string" where
  "printptr_loop digits x 0 = []"
| "printptr_loop digits x (Suc n) = digits ! unat (drop_bit 60 x) # printptr_loop digits (push_bit 4 x) n"

definition printptr :: "string \<Rightarrow> uint64 \<Rightarrow> string" where
  "printptr digits x = ''0x'' @ printptr_loop digits x 16"

section \<open>Formats\<close>

text \<open>One conversion of the user's \<open>vprintf\<close>, the branch taken after a \<open>%\<close>.\<close>

definition vprintf_conv :: "char list \<Rightarrow> char \<Rightarrow> va_list \<Rightarrow> (string \<times> va_list) result" where
  "vprintf_conv buf c ap =
     (if c = CHR ''d'' then bnd (va_int ap) (\<lambda>(x, ap). bnd (printint udigits buf x 10 1) (\<lambda>s. Inr (s, ap)))
      else if c = CHR ''l'' then bnd (va_u64 ap) (\<lambda>(x, ap). bnd (printint udigits buf (sint (ucast x :: uint)) 10 0) (\<lambda>s. Inr (s, ap)))
      else if c = CHR ''x'' then bnd (va_int ap) (\<lambda>(x, ap). bnd (printint udigits buf x 16 0) (\<lambda>s. Inr (s, ap)))
      else if c = CHR ''p'' then bnd (va_u64 ap) (\<lambda>(x, ap). Inr (printptr udigits x, ap))
      else if c = CHR ''s'' then bnd (va_str ap) (\<lambda>(s, ap). Inr (case s of None \<Rightarrow> ''(null)'' | Some s \<Rightarrow> s, ap))
      else if c = CHR ''c'' then bnd (va_int ap) (\<lambda>(x, ap). Inr ([char_of (nat (x mod 256))], ap))
      else if c = CHR ''%'' then Inr ([c], ap)
      else Inr ([CHR ''%'', c], ap))"

text \<open>The loop over the format; \<open>state\<close> is true after a \<open>%\<close>.\<close>

fun vprintf_loop :: "char list \<Rightarrow> string \<Rightarrow> bool \<Rightarrow> va_list \<Rightarrow> string \<Rightarrow> string result" where
  "vprintf_loop buf [] state ap out = Inr out"
| "vprintf_loop buf (c # fmt) state ap out =
     (if \<not> state then
        if c = CHR ''%'' then vprintf_loop buf fmt True ap out
        else vprintf_loop buf fmt False ap (out @ [c])
      else bnd (vprintf_conv buf c ap) (\<lambda>(s, ap). vprintf_loop buf fmt False ap (out @ s)))"

definition vprintf :: "char list \<Rightarrow> string \<Rightarrow> va_list \<Rightarrow> string result" where
  "vprintf buf fmt ap = vprintf_loop buf fmt False ap []"

text \<open>The kernel's \<open>printf\<close>.\<close>

definition kprintf_conv :: "char list \<Rightarrow> char \<Rightarrow> va_list \<Rightarrow> (string \<times> va_list) result" where
  "kprintf_conv buf c ap =
     (if c = CHR ''d'' then bnd (va_int ap) (\<lambda>(x, ap). bnd (kprintint buf x 10 1) (\<lambda>s. Inr (s, ap)))
      else if c = CHR ''x'' then bnd (va_int ap) (\<lambda>(x, ap). bnd (kprintint buf x 16 1) (\<lambda>s. Inr (s, ap)))
      else if c = CHR ''p'' then bnd (va_u64 ap) (\<lambda>(x, ap). Inr (printptr kdigits x, ap))
      else if c = CHR ''s'' then bnd (va_str ap) (\<lambda>(s, ap). Inr (case s of None \<Rightarrow> ''(null)'' | Some s \<Rightarrow> s, ap))
      else if c = CHR ''%'' then Inr (''%'', ap)
      else Inr ([CHR ''%'', c], ap))"

fun kprintf_loop :: "char list \<Rightarrow> string \<Rightarrow> va_list \<Rightarrow> string \<Rightarrow> string result" where
  "kprintf_loop buf [] ap out = Inr out"
| "kprintf_loop buf (c # fmt) ap out =
     (if c \<noteq> CHR ''%'' then kprintf_loop buf fmt ap (out @ [c])
      else case fmt of
        [] \<Rightarrow> Inr out
      | d # fmt \<Rightarrow> bnd (kprintf_conv buf d ap) (\<lambda>(s, ap). kprintf_loop buf fmt ap (out @ s)))"

text \<open>The printer's lock, whether it is used, the flag \<open>panicked\<close>, and the characters sent so far.\<close>

record printer =
  pr_held :: bool
  pr_locking :: int
  panicked :: int
  cons_out :: string

definition printfinit :: "printer \<Rightarrow> printer" where
  "printfinit p = p\<lparr>pr_held := False, pr_locking := 1\<rparr>"

definition kprintf :: "char list \<Rightarrow> string option \<Rightarrow> va_list \<Rightarrow> printer \<Rightarrow> printer result" where
  "kprintf buf fmt ap p =
     (let lck = pr_locking p in
      if lck \<noteq> 0 \<and> pr_held p then Inl (Panic ''acquire'')
      else
        let p = (if lck \<noteq> 0 then p\<lparr>pr_held := True\<rparr> else p) in
        case fmt of
          None \<Rightarrow> Inl (Panic ''null fmt'')
        | Some fmt \<Rightarrow>
            bnd (kprintf_loop buf fmt ap []) (\<lambda>s.
              let p = p\<lparr>cons_out := cons_out p @ s\<rparr> in
              Inr (if lck \<noteq> 0 then p\<lparr>pr_held := False\<rparr> else p)))"

text \<open>\<open>panic\<close> up to the loop in which it stays: its message is used as a format.\<close>

definition panic :: "char list \<Rightarrow> string \<Rightarrow> printer \<Rightarrow> printer result" where
  "panic buf s p =
     bnd (kprintf buf (Some ''panic: '') [] (p\<lparr>pr_locking := 0\<rparr>)) (\<lambda>p.
     bnd (kprintf buf (Some s) [] p) (\<lambda>p.
     bnd (kprintf buf (Some [newline]) [] p) (\<lambda>p.
       Inr (p\<lparr>panicked := 1\<rparr>))))"

section \<open>Digits\<close>

text \<open>The digits of a number, least significant first.\<close>

fun lsd :: "nat \<Rightarrow> nat \<Rightarrow> nat list" where
  "lsd b n = (if b < 2 \<or> n < b then [n] else n mod b # lsd b (n div b))"

declare lsd.simps [simp del]

lemma lsd_less: "2 \<le> b \<Longrightarrow> set (lsd b n) \<subseteq> {..<b}"
  by (induction b n rule: lsd.induct) (subst lsd.simps, auto)

lemma lsd_value: "2 \<le> b \<Longrightarrow> foldr (\<lambda>d v. d + b * v) (lsd b n) 0 = n"
  by (induction b n rule: lsd.induct) (subst lsd.simps, auto)

lemma length_lsd: "2 \<le> b \<Longrightarrow> n < b ^ Suc k \<Longrightarrow> length (lsd b n) \<le> Suc k"
proof (induction k arbitrary: n)
  case (Suc k)
  have "n div b < b ^ Suc k" using Suc.prems by (simp add: less_mult_imp_div_less mult.commute)
  then show ?case using Suc.IH[of "n div b"] Suc.prems(1) by (subst lsd.simps) auto
qed (simp add: lsd.simps)

lemma printint_loop_digits:
  assumes "2 \<le> unat base" "i + length (lsd (unat base) (unat x)) \<le> length buf"
  shows "\<exists>buf'. printint_loop digits x base buf i = Inr (buf', i + length (lsd (unat base) (unat x))) \<and> length buf' = length buf
    \<and> take (i + length (lsd (unat base) (unat x))) buf' = take i buf @ map (\<lambda>d. digits ! d) (lsd (unat base) (unat x))"
  using assms
proof (induction digits x base buf i rule: printint_loop.induct)
  case (1 digits x base buf i)
  let ?b = "buf[i := digits ! unat (x mod base)]"
  have nz: "base \<noteq> 0" using "1.prems"(1) by auto
  have l: "0 < length (lsd (unat base) (unat x))" by (subst lsd.simps) simp
  then have i: "\<not> length buf \<le> i" using "1.prems"(2) by linarith
  have dv: "unat (x div base) = unat x div unat base" "unat (x mod base) = unat x mod unat base"
    by (simp_all add: unat_div unat_mod)
  have z: "x div base = 0 \<longleftrightarrow> unat x < unat base" using "1.prems"(1) by (simp add: unat_eq_zero[symmetric] dv div_eq_0_iff)
  have ti: "take (Suc i) ?b = take i buf @ [digits ! unat (x mod base)]" using i by (simp add: take_Suc_conv_app_nth)
  show ?case
  proof (cases "x div base = 0")
    case True
    then have "lsd (unat base) (unat x) = [unat x]" "unat (x mod base) = unat x" using z dv by (simp_all add: lsd.simps)
    then show ?thesis using True nz i ti by (subst printint_loop.simps) simp
  next
    case False
    then have L: "lsd (unat base) (unat x) = unat (x mod base) # lsd (unat base) (unat (x div base))"
      using z "1.prems"(1) by (subst lsd.simps) (simp add: dv)
    have "\<exists>buf'. printint_loop digits (x div base) base ?b (i + 1) = Inr (buf', i + 1 + length (lsd (unat base) (unat (x div base))))
        \<and> length buf' = length ?b \<and> take (i + 1 + length (lsd (unat base) (unat (x div base)))) buf'
          = take (i + 1) ?b @ map (\<lambda>d. digits ! d) (lsd (unat base) (unat (x div base)))"
      using "1.IH"[OF nz i refl refl False] "1.prems" L by simp
    then show ?thesis unfolding L using False nz i ti by (subst printint_loop.simps) (auto simp: Let_def)
  qed
qed

lemma unat_10_16: "unat (10 :: uint) = 10" "unat (16 :: uint) = 16"
  by simp_all

lemma length_lsd_uint:
  fixes x :: uint
  shows "length (lsd 10 (unat x)) \<le> 10" "length (lsd 16 (unat x)) \<le> 8"
  using length_lsd[of 10 "unat x" 9] length_lsd[of 16 "unat x" 7] unsigned_less[of x, where 'a = nat] by simp_all

text \<open>\<open>printint\<close> stays in its buffer and writes the sign and the digits, most significant first.\<close>

lemma printint_eq:
  assumes "length buf = 16" "base = 10 \<or> base = 16"
  shows "printint digits buf xx base sg =
    (let neg = (sg \<noteq> 0 \<and> xx < 0); x = of_int (if neg then - xx else xx) :: uint in
     Inr ((if neg then ''-'' else []) @ map (\<lambda>d. digits ! d) (rev (lsd (nat base) (unat x)))))"
proof -
  define neg where "neg = (sg \<noteq> 0 \<and> xx < 0)"
  define x where "x = (of_int (if neg then - xx else xx) :: uint)"
  have u: "2 \<le> unat (of_int base :: uint)" "unat (of_int base :: uint) = nat base" using assms(2) by auto
  let ?l = "lsd (nat base) (unat x)"
  have ll: "length ?l \<le> 10" using length_lsd_uint[of x] assms(2) by auto
  obtain b where b: "printint_loop digits x (of_int base) buf 0 = Inr (b, length ?l)" "length b = 16"
      "take (length ?l) b = map (\<lambda>d. digits ! d) ?l"
    using printint_loop_digits[OF u(1), of 0 x buf digits] ll assms(1) u(2) by auto
  have "take (Suc (length ?l)) (b[length ?l := CHR ''-'']) = map (\<lambda>d. digits ! d) ?l @ ''-''"
    using b ll by (simp add: take_Suc_conv_app_nth)
  moreover have "printint digits buf xx base sg = bnd (printint_loop digits x (of_int base) buf 0) (\<lambda>(buf, i).
      bnd (if neg then bnd (put_at buf i CHR ''-'') (\<lambda>buf. Inr (buf, i + 1)) else Inr (buf, i)) (\<lambda>(buf, i). Inr (rev (take i buf))))"
    by (simp add: printint_def x_def neg_def)
  ultimately have "printint digits buf xx base sg = Inr ((if neg then ''-'' else []) @ map (\<lambda>d. digits ! d) (rev ?l))"
    using b ll by (simp add: put_at_def rev_map)
  then show ?thesis unfolding Let_def x_def neg_def .
qed

end
