(* ===== verification/User_Props.thy ===== *)
theory User_Props
  imports Grep Printf
begin

text \<open>
  The properties of the user programs: the matcher and the line loop of \<^verbatim>\<open>grep\<close>, and
  that printed numbers are read back.
\<close>

text \<open>
  C24. The matcher of \<open>grep\<close> decides exactly what its patterns denote: with a leading \<open>^\<close> the text must
  begin with a word of the rest of the pattern, otherwise some suffix of the text must; a final \<open>$\<close> makes
  the word end where the text ends. The backtracking always ends (the functions are total).
\<close>

theorem match_decides_pattern:
  "match re tx \<longleftrightarrow>
     (if re \<noteq> [] \<and> hd re = CHR ''^'' then denotes (tl re) tx else (\<exists>u t. tx = u @ t \<and> denotes re t))"
  by (simp add: match_def matchhere_denotes match_from_denotes)

text \<open>
  C25. However the system call \<open>read\<close> cuts the input into pieces, \<open>grep\<close> writes exactly the complete lines
  that match, in order and unchanged, and never writes outside its buffer, when no line is longer than
  1022 characters and the input holds no NUL. A last line without newline is not written.
\<close>

theorem grep_writes_matching_lines:
  assumes "length buf = BUFSIZE" "NUL \<notin> set inp" "short_lines inp" "\<forall>a \<in> set avail. 0 < a"
  shows "grep pattern avail buf inp = Inr (selected pattern (fst (glines [] inp)))"
  using grep_loop_ok[of buf 0 "[]" inp avail pattern "[]"] assms by (simp add: grep_def)

theorem grep_writes_matching_lines_witness:
  "grep ''^b.*k$'' [3, 1, 5, 2] (replicate BUFSIZE NUL) (''back'' @ newline # ''ask'' @ newline # ''bk'' @ newline # ''bark'')
     = Inr (''back'' @ newline # ''bk'' @ [newline])"
proof -
  let ?i = "''back'' @ newline # ''ask'' @ newline # ''bk'' @ newline # ''bark''"
  have "short_lines ?i" unfolding short_lines_def
    using sublist_length_le[of _ ?i] by (force simp: BUFSIZE_def)
  moreover have "selected ''^b.*k$'' (fst (glines [] ?i)) = ''back'' @ newline # ''bk'' @ [newline]" by code_simp
  ultimately show ?thesis using grep_writes_matching_lines[of "replicate BUFSIZE NUL" ?i "[3, 1, 5, 2]" "''^b.*k$''"] by simp
qed

section \<open>Printing and reading numbers\<close>

lemma digit_char:
  assumes "d < 10"
  shows "of_char (udigits ! d) = (48 + int d)" "CHR ''0'' \<le> udigits ! d" "udigits ! d \<le> CHR ''9''"
proof -
  have "list_all (\<lambda>d. of_char (udigits ! d) = 48 + int d \<and> CHR ''0'' \<le> udigits ! d \<and> udigits ! d \<le> CHR ''9'') [0..<10]"
    by code_simp
  then show "of_char (udigits ! d) = (48 + int d)" "CHR ''0'' \<le> udigits ! d" "udigits ! d \<le> CHR ''9''"
    using assms by (auto simp: list_all_iff)
qed

lemma foldl_mod_cong:
  fixes a b :: int
  assumes "a mod M = b mod M"
  shows "foldl (\<lambda>v d. v * 10 + int d) a ds mod M = foldl (\<lambda>v d. v * 10 + int d) b ds mod M"
  using assms
proof (induction ds arbitrary: a b)
  case (Cons e es)
  have "(a * 10 + int e) mod M = (b * 10 + int e) mod M"
    by (rule mod_add_cong[OF mod_mult_cong[OF Cons.prems refl] refl])
  then show ?case unfolding foldl.simps by (rule Cons.IH)
qed simp

lemma atoi_digits:
  assumes "\<forall>d \<in> set ds. d < 10" "in_int n"
  shows "atoi_from (map (\<lambda>d. udigits ! d) ds) n = i32 (foldl (\<lambda>v d. v * 10 + int d) n ds)"
  using assms
proof (induction ds arbitrary: n)
  case (Cons d ds)
  let ?m = "n * 10 + int d"
  have "n * 10 + of_char (udigits ! d) - of_char CHR ''0'' = ?m"
    using digit_char(1)[of d] Cons.prems(1) by (simp add: of_char_def)
  then have "atoi_from (map (\<lambda>d. udigits ! d) (d # ds)) n = atoi_from (map (\<lambda>d. udigits ! d) ds) (i32 ?m)"
    using digit_char[of d] Cons.prems(1) by simp
  also have "... = i32 (foldl (\<lambda>v d. v * 10 + int d) (i32 ?m) ds)" using Cons by simp
  also have "... = i32 (foldl (\<lambda>v d. v * 10 + int d) ?m ds)" by (rule i32_cong[OF foldl_mod_cong[OF i32_mod]])
  finally show ?case by simp
qed (simp add: i32_in_range)

lemma int_foldr: "foldr (\<lambda>d v. v * 10 + int d) ds 0 = int (foldr (\<lambda>d v. d + 10 * v) ds 0)"
  by (induction ds) simp_all

lemma atoi_lsd: "atoi (map (\<lambda>d. udigits ! d) (rev (lsd 10 n))) = i32 (int n)"
proof -
  have "\<forall>d \<in> set (rev (lsd 10 n)). d < 10" using lsd_less[of 10 n] by auto
  then have "atoi (map (\<lambda>d. udigits ! d) (rev (lsd 10 n))) = i32 (foldl (\<lambda>v d. v * 10 + int d) 0 (rev (lsd 10 n)))"
    using atoi_digits[of "rev (lsd 10 n)" 0] by (simp add: atoi_def in_int_def INT_MIN_def INT_MAX_def)
  also have "foldl (\<lambda>v d. v * 10 + int d) 0 (rev (lsd 10 n)) = int (foldr (\<lambda>d v. d + 10 * v) (lsd 10 n) 0)"
    by (simp add: foldl_conv_foldr int_foldr)
  finally show ?thesis by (simp add: lsd_value)
qed

text \<open>
  C26. A number printed with \<open>%d\<close> and read by \<open>atoi\<close>. A number that is not negative is read back as itself.
  A negative one is not: \<open>atoi\<close> knows no sign, stops at the minus and returns 0; only what follows the minus,
  its digits, is read, as the negated number (for the least \<open>int\<close> this wraps to itself). The
  16 characters of the buffer are never exceeded.
\<close>

theorem printf_atoi_round_trip:
  assumes "in_int n" "length buf = 16"
  shows "\<exists>s. vprintf buf ''%d'' [VInt n] = Inr s
    \<and> (if 0 \<le> n then atoi s = n else atoi s = 0 \<and> (\<exists>ds. s = ''-'' @ ds \<and> atoi ds = i32 (- n)))"
proof -
  let ?m = "if n < 0 then - n else n"
  let ?ds = "map (\<lambda>d. udigits ! d) (rev (lsd 10 (unat (of_int ?m :: uint))))"
  have "vprintf buf ''%d'' [VInt n] = Inr ((if n < 0 then ''-'' else []) @ ?ds)"
    by (simp add: vprintf_def vprintf_conv_def printint_eq[OF assms(2)] Let_def)
  moreover have "unat (of_int ?m :: uint) = nat ?m"
    using assms(1) by (auto simp: in_int_def INT_MIN_def INT_MAX_def unat_eq_nat_uint uint_word_of_int_eq take_bit_eq_mod)
  then have "atoi ?ds = i32 ?m" by (simp add: atoi_lsd)
  ultimately show ?thesis using assms(1) by (cases "n < 0") (auto simp: i32_in_range atoi_def)
qed

theorem printf_atoi_round_trip_witness:
  "(\<exists>s. vprintf (replicate 16 NUL) ''%d'' [VInt 2147483647] = Inr s \<and> atoi s = 2147483647)
   \<and> (\<exists>s. vprintf (replicate 16 NUL) ''%d'' [VInt (-5)] = Inr s \<and> atoi s = 0)"
  using printf_atoi_round_trip[of 2147483647 "replicate 16 NUL"] printf_atoi_round_trip[of "-5" "replicate 16 NUL"]
  by (auto simp: in_int_def INT_MIN_def INT_MAX_def)

end
