(* ===== verification/Console.thy ===== *)
theory Console
  imports Userbuf Ring
begin

text \<open>
  \<^verbatim>\<open>kernel/uart.c\<close> and \<^verbatim>\<open>kernel/console.c\<close>: the transmit ring of the serial port, the line editor that
  its interrupts drive, and reading and writing the console.

  The port is modelled by the characters it has received and not yet given out (\<open>rx\<close>), the characters
  it was given to send (\<open>thr\<close>), and the answers \<open>idle\<close> it gives when asked whether it can take another
  one, over which the theorems quantify. \<open>uartputc_sync\<close> waits until it can. The cells \<open>uart_tx_r\<close> and
  \<open>cons.r\<close> are the sleep channels \<open>OnUart\<close> and \<open>OnConsole\<close>.
\<close>

section \<open>The serial port\<close>

definition UART_TX_BUF_SIZE :: nat where
  "UART_TX_BUF_SIZE = 32"

definition INPUT_BUF_SIZE :: nat where
  "INPUT_BUF_SIZE = 128"

record tty =
  uart_tx_buf :: "byte list"
  uart_tx_w :: uint64
  uart_tx_r :: uint64
  cons_buf :: "byte list"
  cons_r :: uint
  cons_w :: uint
  cons_e :: uint
  rx :: "byte list"
  thr :: "byte list"
  panicked :: int

definition uart_full :: "tty \<Rightarrow> bool" where
  "uart_full t \<longleftrightarrow> uart_tx_w t = uart_tx_r t + of_nat UART_TX_BUF_SIZE"

definition uart_drained :: "tty \<Rightarrow> bool" where
  "uart_drained t \<longleftrightarrow> uart_tx_w t = uart_tx_r t"

definition uart_put :: "byte \<Rightarrow> tty \<Rightarrow> tty" where
  "uart_put c t = t\<lparr>uart_tx_buf := (uart_tx_buf t)[unat (uart_tx_w t) mod UART_TX_BUF_SIZE := c], uart_tx_w := uart_tx_w t + 1\<rparr>"

definition uart_get :: "tty \<Rightarrow> byte \<times> tty" where
  "uart_get t = (uart_tx_buf t ! (unat (uart_tx_r t) mod UART_TX_BUF_SIZE), t\<lparr>uart_tx_r := uart_tx_r t + 1\<rparr>)"

fun uartstart :: "bool list \<Rightarrow> tty \<times> kern \<Rightarrow> (tty \<times> kern) result" where
  "uartstart [] (t, k) = Inr (t, k)"
| "uartstart (idle # rest) (t, k) =
     (if uart_drained t then Inr (t, k)
      else if \<not> idle then Inr (t, k)
      else
        let (c, t) = uart_get t in
        bnd (wakeup OnUart k) (\<lambda>k. uartstart rest (t\<lparr>thr := thr t @ [c]\<rparr>, k)))"

text \<open>\<open>uartputc\<close>; after a panic it stays in a loop with the lock held.\<close>

definition uartputc :: "bool list \<Rightarrow> byte \<Rightarrow> tty \<times> kern \<Rightarrow> (unit blocking \<times> tty \<times> kern) result" where
  "uartputc idle c = (\<lambda>(t, k).
     bnd (acquire_k UartLock k) (\<lambda>k.
     if panicked t \<noteq> 0 then Inl (Panic ''panicked'')
     else if uart_full t then bnd (sleep_enter OnUart UartLock k) (\<lambda>k. Inr (Sleeps, t, k))
     else
       bnd (uartstart idle (uart_put c t, k)) (\<lambda>(t, k).
       bnd (release_k UartLock k) (\<lambda>k. Inr (Returns (), t, k)))))"

definition uartputc_sync :: "byte \<Rightarrow> tty \<Rightarrow> tty result" where
  "uartputc_sync c t = (if panicked t \<noteq> 0 then Inl (Panic ''panicked'') else Inr (t\<lparr>thr := thr t @ [c]\<rparr>))"

definition uartgetc :: "tty \<Rightarrow> int \<times> tty" where
  "uartgetc t = (case rx t of [] \<Rightarrow> (-1, t) | c # cs \<Rightarrow> (uint c, t\<lparr>rx := cs\<rparr>))"

section \<open>The line editor\<close>

definition BACKSPACE :: int where
  "BACKSPACE = 0x100"

text \<open>\<open>Ctl x\<close> is the macro \<open>C(x)\<close>, for a letter given by its code.\<close>

definition Ctl :: "int \<Rightarrow> int" where
  "Ctl x = x - 64"

definition consputc :: "int \<Rightarrow> tty \<Rightarrow> tty result" where
  "consputc c t =
     (if c = BACKSPACE
      then bnd (uartputc_sync 8 t) (\<lambda>t. bnd (uartputc_sync 32 t) (uartputc_sync 8))
      else uartputc_sync (of_int c) t)"

text \<open>The loop of control-U; it goes round at most \<open>e - w\<close> times.\<close>

function kill_line :: "tty \<Rightarrow> tty result" where
  "kill_line t =
     (if cons_e t \<noteq> cons_w t \<and> cons_buf t ! (unat (cons_e t - 1) mod INPUT_BUF_SIZE) \<noteq> 10
      then case consputc BACKSPACE (t\<lparr>cons_e := cons_e t - 1\<rparr>) of
        Inl err \<Rightarrow> Inl err
      | Inr t' \<Rightarrow> kill_line t'
      else Inr t)"
  by pat_completeness auto
termination
proof (relation "measure (\<lambda>t. unat (cons_e t - cons_w t))")
  fix t t'
  assume c: "cons_e t \<noteq> cons_w t \<and> cons_buf t ! (unat (cons_e t - 1) mod INPUT_BUF_SIZE) \<noteq> 10"
    and p: "consputc BACKSPACE (t\<lparr>cons_e := cons_e t - 1\<rparr>) = Inr t'"
  have e: "cons_e t' = cons_e t - 1" "cons_w t' = cons_w t"
    using p by (auto simp: consputc_def uartputc_sync_def split: if_splits)
  have "cons_e t - cons_w t \<noteq> 0" using c by simp
  then have "unat (cons_e t - cons_w t - 1) < unat (cons_e t - cons_w t)"
    by (simp add: unat_minus_one unat_gt_0)
  then show "(t', t) \<in> measure (\<lambda>t. unat (cons_e t - cons_w t))" using e by (simp add: diff_right_commute)
qed simp

declare kill_line.simps [simp del]

text \<open>Control-P only prints the process table.\<close>

definition cons_store :: "int \<Rightarrow> tty \<times> kern \<Rightarrow> (tty \<times> kern) result" where
  "cons_store c = (\<lambda>(t, k).
     let c = (if c = 13 then 10 else c) in
     bnd (consputc c t) (\<lambda>t.
       let t = t\<lparr>cons_buf := (cons_buf t)[unat (cons_e t) mod INPUT_BUF_SIZE := of_int c], cons_e := cons_e t + 1\<rparr> in
       if c = 10 \<or> c = Ctl 68 \<or> cons_e t - cons_r t = of_nat INPUT_BUF_SIZE
       then let t = t\<lparr>cons_w := cons_e t\<rparr> in bnd (wakeup OnConsole k) (\<lambda>k. Inr (t, k))
       else Inr (t, k)))"

definition cons_switch :: "int \<Rightarrow> tty \<times> kern \<Rightarrow> (tty \<times> kern) result" where
  "cons_switch c = (\<lambda>(t, k).
     if c = Ctl 80 then Inr (t, k)
     else if c = Ctl 85 then bnd (kill_line t) (\<lambda>t. Inr (t, k))
     else if c = Ctl 72 \<or> c = 0x7f then
       if cons_e t \<noteq> cons_w t
       then bnd (consputc BACKSPACE (t\<lparr>cons_e := cons_e t - 1\<rparr>)) (\<lambda>t. Inr (t, k))
       else Inr (t, k)
     else if c \<noteq> 0 \<and> cons_e t - cons_r t < of_nat INPUT_BUF_SIZE then cons_store c (t, k)
     else Inr (t, k))"

definition consoleintr :: "int \<Rightarrow> tty \<times> kern \<Rightarrow> (tty \<times> kern) result" where
  "consoleintr c = (\<lambda>(t, k).
     bnd (acquire_k ConsLock k) (\<lambda>k.
     bnd (cons_switch c (t, k)) (\<lambda>(t, k).
     bnd (release_k ConsLock k) (\<lambda>k. Inr (t, k)))))"

lemma consputc_eq:
  "consputc c t = (if panicked t \<noteq> 0 then Inl (Panic ''panicked'')
     else Inr (t\<lparr>thr := thr t @ (if c = BACKSPACE then [8, 32, 8] else [of_int c])\<rparr>))"
  by (simp add: consputc_def uartputc_sync_def)

lemma kill_line_rx: "kill_line t = Inr t' \<Longrightarrow> rx t' = rx t"
proof (induction t rule: kill_line.induct)
  case (1 t)
  show ?case
  proof (cases "cons_e t \<noteq> cons_w t \<and> cons_buf t ! (unat (cons_e t - 1) mod INPUT_BUF_SIZE) \<noteq> 10")
    case True
    then obtain t1 where "consputc BACKSPACE (t\<lparr>cons_e := cons_e t - 1\<rparr>) = Inr t1" "kill_line t1 = Inr t'"
      using "1.prems" by (subst (asm) kill_line.simps) (auto split: sum.splits)
    then show ?thesis using "1.IH"[OF True] by (auto simp: consputc_eq split: if_splits)
  next
    case False
    then show ?thesis using "1.prems" by (subst (asm) kill_line.simps) auto
  qed
qed

lemma cons_store_rx: "cons_store c (t, k) = Inr (t', k') \<Longrightarrow> rx t' = rx t"
  by (auto simp: cons_store_def consputc_eq bnd_eq_Inr Let_def split: if_splits)

lemma cons_switch_rx: "cons_switch c (t, k) = Inr (t', k') \<Longrightarrow> rx t' = rx t"
  by (auto simp: cons_switch_def consputc_eq bnd_eq_Inr kill_line_rx cons_store_rx split: if_splits)

lemma consoleintr_rx: "consoleintr c (t, k) = Inr (t', k') \<Longrightarrow> rx t' = rx t"
  by (auto simp: consoleintr_def bnd_eq_Inr cons_switch_rx)

text \<open>\<open>uartintr\<close>: every character received, then the transmit ring.\<close>

function uartintr_rx :: "tty \<times> kern \<Rightarrow> (tty \<times> kern) result" where
  "uartintr_rx (t, k) =
     (case uartgetc t of (c, t1) \<Rightarrow>
        if c = -1 then Inr (t1, k)
        else case consoleintr c (t1, k) of
          Inl err \<Rightarrow> Inl err
        | Inr s \<Rightarrow> uartintr_rx s)"
  by pat_completeness auto
termination
  by (relation "measure (\<lambda>(t, k). length (rx t))") (auto simp: uartgetc_def dest!: consoleintr_rx split: list.splits)

declare uartintr_rx.simps [simp del]

definition uartintr :: "bool list \<Rightarrow> tty \<times> kern \<Rightarrow> (tty \<times> kern) result" where
  "uartintr idle s =
     bnd (uartintr_rx s) (\<lambda>(t, k).
     bnd (acquire_k UartLock k) (\<lambda>k.
     bnd (uartstart idle (t, k)) (\<lambda>(t, k).
     bnd (release_k UartLock k) (\<lambda>k. Inr (t, k)))))"

section \<open>Reading and writing\<close>

text \<open>
  \<open>ca\<close> is the address of the local variable \<open>c\<close>. A call that sleeps in \<open>uartputc\<close> returns the number of
  characters already handed over.
\<close>

function consolewrite_loop ::
  "(nat \<Rightarrow> bool list) \<Rightarrow> bool \<Rightarrow> uint64 \<Rightarrow> uint64 \<Rightarrow> int \<Rightarrow> int \<Rightarrow> tty \<times> kern \<Rightarrow> (int blocking \<times> int \<times> tty \<times> kern) result" where
  "consolewrite_loop idle usr ca src n i (t, k) =
     (if i < n then
        bnd (either_copyin ca usr (src + of_int i) 1 k) (\<lambda>(r, k).
          if r = -1 then Inr (Returns i, i, t, k)
          else bnd (uartputc (idle (nat i)) (mem (km k) ca) (t, k)) (\<lambda>(b, t, k).
            case b of
              Sleeps \<Rightarrow> Inr (Sleeps, i, t, k)
            | Returns _ \<Rightarrow> consolewrite_loop idle usr ca src n (i + 1) (t, k)))
      else Inr (Returns i, i, t, k))"
  by pat_completeness auto
termination
  by (relation "measure (\<lambda>(_, _, _, _, n, i, _). nat (n - i))") auto

declare consolewrite_loop.simps [simp del]

definition consolewrite ::
  "(nat \<Rightarrow> bool list) \<Rightarrow> bool \<Rightarrow> uint64 \<Rightarrow> uint64 \<Rightarrow> int \<Rightarrow> tty \<times> kern \<Rightarrow> (int blocking \<times> int \<times> tty \<times> kern) result" where
  "consolewrite idle usr ca src n s = consolewrite_loop idle usr ca src n 0 s"

text \<open>The end of \<open>consoleread\<close> with \<open>n\<close> bytes still to read.\<close>

definition consoleread_done :: "uint64 \<Rightarrow> uint \<Rightarrow> int \<Rightarrow> tty \<times> kern \<Rightarrow> (int blocking \<times> uint64 \<times> int \<times> tty \<times> kern) result" where
  "consoleread_done dst target n = (\<lambda>(t, k).
     bnd (release_k ConsLock k) (\<lambda>k. Inr (Returns (sint (target - of_int n)), dst, n, t, k)))"

function consoleread_loop ::
  "nat \<Rightarrow> bool \<Rightarrow> uint64 \<Rightarrow> uint64 \<Rightarrow> uint \<Rightarrow> int \<Rightarrow> tty \<times> kern \<Rightarrow> (int blocking \<times> uint64 \<times> int \<times> tty \<times> kern) result" where
  "consoleread_loop pr usr ca dst target n (t, k) =
     (if n > 0 then
        if cons_r t = cons_w t then
          bnd (is_killed pr k) (\<lambda>(kl, k).
            if kl \<noteq> 0 then bnd (release_k ConsLock k) (\<lambda>k. Inr (Returns (-1), dst, n, t, k))
            else bnd (sleep_enter OnConsole ConsLock k) (\<lambda>k. Inr (Sleeps, dst, n, t, k)))
        else
          let c = cons_buf t ! (unat (cons_r t) mod INPUT_BUF_SIZE);
              t = t\<lparr>cons_r := cons_r t + 1\<rparr> in
          if c = of_int (Ctl 68) then
            let t = (if of_int n < target then t\<lparr>cons_r := cons_r t - 1\<rparr> else t) in
            consoleread_done dst target n (t, k)
          else
            let k = k\<lparr>km := (km k)\<lparr>mem := (mem (km k))(ca := c)\<rparr>\<rparr> in
            bnd (either_copyout usr dst ca 1 k) (\<lambda>(r, k).
              if r = -1 then consoleread_done dst target n (t, k)
              else if c = 10 then consoleread_done (dst + 1) target (n - 1) (t, k)
              else consoleread_loop pr usr ca (dst + 1) target (n - 1) (t, k))
      else consoleread_done dst target n (t, k))"
  by pat_completeness auto
termination
  by (relation "measure (\<lambda>(_, _, _, _, _, n, _). nat n)") auto

declare consoleread_loop.simps [simp del]

definition consoleread ::
  "bool \<Rightarrow> uint64 \<Rightarrow> uint64 \<Rightarrow> int \<Rightarrow> tty \<times> kern \<Rightarrow> (int blocking \<times> uint64 \<times> int \<times> tty \<times> kern) result" where
  "consoleread usr ca dst n = (\<lambda>(t, k).
     bnd (acquire_k ConsLock k) (\<lambda>k.
     bnd (myproc k) (\<lambda>pr. consoleread_loop pr usr ca dst (of_int n) n (t, k))))"

section \<open>The transmit ring is a bounded queue\<close>

definition uart_ok :: "tty \<Rightarrow> bool" where
  "uart_ok t \<longleftrightarrow> length (uart_tx_buf t) = UART_TX_BUF_SIZE \<and> unat (uart_tx_w t - uart_tx_r t) \<le> UART_TX_BUF_SIZE"

definition uart_queue :: "tty \<Rightarrow> byte list" where
  "uart_queue t = ring_contents UART_TX_BUF_SIZE (uart_tx_buf t) (uart_tx_r t) (uart_tx_w t)"

lemma UART_word: "UART_TX_BUF_SIZE dvd 2 ^ LENGTH(64)" "UART_TX_BUF_SIZE < 2 ^ LENGTH(64)"
  by (simp_all add: UART_TX_BUF_SIZE_def)

interpretation uart: ring_buffer UART_TX_BUF_SIZE uart_ok uart_queue uart_full uart_drained uart_put uart_get
proof unfold_locales
  fix s s' :: tty and x :: byte
  assume ok: "uart_ok s"
  show "length (uart_queue s) \<le> UART_TX_BUF_SIZE" using ok by (simp add: uart_ok_def uart_queue_def)
  show full: "uart_full s \<longleftrightarrow> length (uart_queue s) = UART_TX_BUF_SIZE"
    using ring_full_iff[OF UART_word(2)] by (simp add: uart_full_def uart_queue_def)
  show "uart_drained s \<longleftrightarrow> uart_queue s = []" by (auto simp: uart_drained_def uart_queue_def ring_empty)
  show "uart_ok (uart_put x s) \<and> uart_queue (uart_put x s) = uart_queue s @ [x]" if "\<not> uart_full s"
    using ring_step_put[OF UART_word, of "uart_tx_buf s" "uart_tx_w s" "uart_tx_r s" x] ok that full
    by (simp add: uart_ok_def uart_queue_def uart_put_def)
  show "uart_ok s' \<and> uart_queue s = x # uart_queue s'" if "\<not> uart_drained s" "uart_get s = (x, s')"
    using ring_step_get[of "uart_tx_r s" "uart_tx_w s" UART_TX_BUF_SIZE "uart_tx_buf s"] ok that
    by (auto simp: uart_ok_def uart_queue_def uart_get_def uart_drained_def)
qed

end
