(* ===== verification/Console_Props.thy ===== *)
theory Console_Props
  imports Console Pipe_Props "HOL-Library.Sublist"
begin

unbundle bit_operations_syntax

text \<open>
  The properties of the console: the interrupt handler is a line editor, \<open>consoleread\<close> delivers the lines
  it has completed, and the serial port sends what is written in order.
\<close>

section \<open>The line editor\<close>

text \<open>What has been typed up to the last completed line and not read, and the line being edited.\<close>

definition cons_ready :: "tty \<Rightarrow> byte list" where
  "cons_ready t = ring_contents INPUT_BUF_SIZE (cons_buf t) (cons_r t) (cons_w t)"

definition cons_line :: "tty \<Rightarrow> byte list" where
  "cons_line t = ring_contents INPUT_BUF_SIZE (cons_buf t) (cons_w t) (cons_e t)"

definition cons_ok :: "tty \<Rightarrow> bool" where
  "cons_ok t \<longleftrightarrow> length (cons_buf t) = INPUT_BUF_SIZE
     \<and> unat (cons_w t - cons_r t) + unat (cons_e t - cons_w t) = unat (cons_e t - cons_r t)
     \<and> unat (cons_e t - cons_r t) \<le> INPUT_BUF_SIZE \<and> 10 \<notin> set (cons_line t)"

text \<open>The editor as its user sees it.\<close>

definition edit_key :: "int \<Rightarrow> byte list \<times> byte list \<Rightarrow> byte list \<times> byte list" where
  "edit_key c = (\<lambda>(rd, ln).
     if c = Ctl 80 then (rd, ln)
     else if c = Ctl 85 then (rd, [])
     else if c = Ctl 72 \<or> c = 0x7f then (rd, butlast ln)
     else if c \<noteq> 0 \<and> length rd + length ln < INPUT_BUF_SIZE then
       let b = of_int (if c = 13 then 10 else c) in
       if b = 10 \<or> b = 4 \<or> length rd + length ln + 1 = INPUT_BUF_SIZE then (rd @ ln @ [b], []) else (rd, ln @ [b])
     else (rd, ln))"

lemma INPUT_word: "INPUT_BUF_SIZE dvd 2 ^ LENGTH(32)" "INPUT_BUF_SIZE < 2 ^ LENGTH(32)"
  by (simp_all add: INPUT_BUF_SIZE_def)

lemma length_cons [simp]: "length (cons_ready t) = unat (cons_w t - cons_r t)" "length (cons_line t) = unat (cons_e t - cons_w t)"
  by (simp_all add: cons_ready_def cons_line_def)

lemma cons_okD:
  assumes "cons_ok t"
  shows "length (cons_buf t) = INPUT_BUF_SIZE" "unat (cons_w t - cons_r t) + unat (cons_e t - cons_w t) = unat (cons_e t - cons_r t)"
    "unat (cons_e t - cons_r t) \<le> INPUT_BUF_SIZE" "10 \<notin> set (cons_line t)"
  using assms by (simp_all add: cons_ok_def)

text \<open>Taking back the last character of the line.\<close>

lemma erase_one:
  assumes ok: "cons_ok t" and ne: "cons_e t \<noteq> cons_w t" and t': "t' = t\<lparr>cons_e := cons_e t - 1, thr := x\<rparr>"
  shows "cons_ok t'" "cons_ready t' = cons_ready t" "cons_line t' = butlast (cons_line t)"
    "cons_buf t ! (unat (cons_e t - 1) mod INPUT_BUF_SIZE) \<noteq> 10"
proof -
  note D = cons_okD[OF ok]
  have "0 < unat (cons_e t - cons_w t)" using ne by (simp add: unat_gt_0)
  then have "cons_e t \<noteq> cons_r t" using D(2) by auto
  then have s: "Suc (unat (cons_e t - 1 - cons_w t)) = unat (cons_e t - cons_w t)" "Suc (unat (cons_e t - 1 - cons_r t)) = unat (cons_e t - cons_r t)"
    using ne unat_pred_diff(1)[of "cons_w t" "cons_e t"] unat_pred_diff(1)[of "cons_r t" "cons_e t"] by auto
  note U = ring_unput[of "cons_w t" "cons_e t" INPUT_BUF_SIZE "cons_buf t"]
  show r: "cons_ready t' = cons_ready t" by (simp add: cons_ready_def t')
  show l: "cons_line t' = butlast (cons_line t)" using U(1) ne by (simp add: cons_line_def t')
  have "10 \<notin> set (cons_line t')" unfolding l using D(4) by (auto dest: in_set_butlastD)
  then show "cons_ok t'" using D s by (simp add: cons_ok_def t')
  have "cons_line t \<noteq> []" using ne by (auto simp: cons_line_def ring_empty)
  then have "last (cons_line t) \<in> set (cons_line t)" by simp
  then show "cons_buf t ! (unat (cons_e t - 1) mod INPUT_BUF_SIZE) \<noteq> 10" using U(2) ne D(4) by (auto simp: cons_line_def)
qed

lemma kill_line_ok:
  assumes "cons_ok t" "panicked t = 0"
  shows "\<exists>t'. kill_line t = Inr t' \<and> cons_ok t' \<and> cons_ready t' = cons_ready t \<and> cons_line t' = [] \<and> panicked t' = 0"
  using assms
proof (induction "unat (cons_e t - cons_w t)" arbitrary: t)
  case 0
  then have "cons_e t = cons_w t" by (simp add: unat_eq_zero)
  then show ?case using 0 by (subst kill_line.simps) (simp add: cons_line_def ring_empty)
next
  case (Suc d)
  then have ne: "cons_e t \<noteq> cons_w t" by auto
  define t1 where "t1 = t\<lparr>cons_e := cons_e t - 1, thr := thr t @ [8, 32, 8]\<rparr>"
  note E = erase_one[OF Suc.prems(1) ne t1_def]
  have "d = unat (cons_e t1 - cons_w t1)" "panicked t1 = 0"
    using Suc.hyps(2) Suc.prems(2) ne unat_pred_diff(1)[of "cons_w t" "cons_e t"] by (auto simp: t1_def)
  then obtain t' where "kill_line t1 = Inr t'" "cons_ok t'" "cons_ready t' = cons_ready t1" "cons_line t' = []" "panicked t' = 0"
    using Suc.hyps(1)[of t1] E(1) by auto
  moreover have "kill_line t = kill_line t1"
    using ne E(4) Suc.prems(2) by (subst kill_line.simps) (simp add: consputc_eq t1_def)
  ultimately show ?case using E(2) by auto
qed

text \<open>Storing one more character.\<close>

lemma store_one:
  assumes ok: "cons_ok t" and room: "unat (cons_e t - cons_r t) < INPUT_BUF_SIZE"
    and t': "t' = t\<lparr>thr := x, cons_buf := (cons_buf t)[unat (cons_e t) mod INPUT_BUF_SIZE := b], cons_e := cons_e t + 1\<rparr>"
  shows "cons_ready t' = cons_ready t" "cons_line t' = cons_line t @ [b]"
    "unat (cons_w t' - cons_r t') + unat (cons_e t' - cons_w t') = unat (cons_e t' - cons_r t')"
    "unat (cons_e t' - cons_r t') = Suc (unat (cons_e t - cons_r t))" "length (cons_buf t') = INPUT_BUF_SIZE"
proof -
  note D = cons_okD[OF ok]
  let ?d = "(cons_buf t)[unat (cons_e t) mod INPUT_BUF_SIZE := b]"
  have le: "unat (cons_e t - cons_w t) < INPUT_BUF_SIZE" using D(2) room by simp
  have s: "unat (cons_e t + 1 - cons_r t) = Suc (unat (cons_e t - cons_r t))" "unat (cons_e t + 1 - cons_w t) = Suc (unat (cons_e t - cons_w t))"
    using room le by (auto intro!: unat_succ_diff simp: INPUT_BUF_SIZE_def)
  have sum: "unat (cons_w t - cons_r t) + unat (cons_e t + 1 - cons_w t) = unat (cons_e t + 1 - cons_r t)" using D(2) s by simp
  note ring_put[OF INPUT_word room D(1), of b, unfolded ring_split[OF sum] ring_split[OF D(2)] append.assoc]
  then show "cons_ready t' = cons_ready t" "cons_line t' = cons_line t @ [b]"
    by (simp_all add: cons_ready_def cons_line_def t')
  show "unat (cons_w t' - cons_r t') + unat (cons_e t' - cons_w t') = unat (cons_e t' - cons_r t')"
    "unat (cons_e t' - cons_r t') = Suc (unat (cons_e t - cons_r t))" "length (cons_buf t') = INPUT_BUF_SIZE"
    using sum s D(1) by (simp_all add: t')
qed

text \<open>The processes an interrupt finds: none of their locks is held by this hart.\<close>

definition quiet_procs :: "kern \<Rightarrow> bool" where
  "quiet_procs k \<longleftrightarrow> others_unlocked k \<and> length (procs k) = NPROC"

lemma wakeup_quiet:
  assumes "quiet_procs k"
  obtains k' where "wakeup c k = Inr k'" "quiet_procs k'" "klocks k' = klocks k" "cur k' = cur k" "km k' = km k"
    "\<And>i. i < NPROC \<Longrightarrow> cur k \<noteq> Some i \<Longrightarrow> \<not> (state (procs k' ! i) = SLEEPING \<and> chan (procs k' ! i) = c)"
proof -
  have o: "others_unlocked k" "length (procs k) = NPROC" using assms by (auto simp: quiet_procs_def)
  let ?k = "k\<lparr>procs := wake_at c k {..<NPROC}\<rparr>"
  have "quiet_procs ?k" using o wake_proc_plocked(1) by (auto simp: quiet_procs_def others_unlocked_def wake_at_def)
  moreover have "\<not> (state (procs ?k ! i) = SLEEPING \<and> chan (procs ?k ! i) = c)" if "i < NPROC" "cur k \<noteq> Some i" for i
    using that o(2) by (auto simp: wake_at_def wake_proc_def)
  ultimately show ?thesis using that[OF wakeup_eq[OF o]] by simp
qed

lemma byte_key: "0 \<le> c \<Longrightarrow> c < 256 \<Longrightarrow> 0 \<le> d \<Longrightarrow> d < 256 \<Longrightarrow> (of_int c :: byte) = of_int d \<longleftrightarrow> c = d"
  by (auto simp: word_of_int_eq_iff take_bit_eq_mod)

text \<open>Nobody but the running process is asleep waiting for input.\<close>

definition no_reader_asleep :: "kern \<Rightarrow> bool" where
  "no_reader_asleep k \<longleftrightarrow> (\<forall>i < NPROC. cur k \<noteq> Some i \<longrightarrow> \<not> (state (procs k ! i) = SLEEPING \<and> chan (procs k ! i) = OnConsole))"

lemma cons_store_ok:
  assumes ok: "cons_ok t" "panicked t = 0" "quiet_procs k" and c: "0 < c" "c < 256" and room: "unat (cons_e t - cons_r t) < INPUT_BUF_SIZE"
    and sw: "c \<noteq> Ctl 80" "c \<noteq> Ctl 85" "c \<noteq> Ctl 72" "c \<noteq> 0x7f"
  shows "\<exists>t' k'. cons_store c (t, k) = Inr (t', k') \<and> cons_ok t' \<and> panicked t' = 0 \<and> quiet_procs k' \<and> klocks k' = klocks k \<and> cur k' = cur k
    \<and> (cons_ready t', cons_line t') = edit_key c (cons_ready t, cons_line t)
    \<and> (if cons_ready t' = cons_ready t then k' = k else no_reader_asleep k')"
proof -
  note D = cons_okD[OF ok(1)]
  define d where "d = (if c = 13 then 10 else c)"
  have d: "0 < d" "d < 256" using c by (auto simp: d_def)
  define t1 where "t1 = t\<lparr>thr := thr t @ [of_int d], cons_buf := (cons_buf t)[unat (cons_e t) mod INPUT_BUF_SIZE := of_int d], cons_e := cons_e t + 1\<rparr>"
  note S = store_one[OF ok(1) room t1_def]
  have keys: "(of_int d :: byte) = 10 \<longleftrightarrow> d = 10" "(of_int d :: byte) = 4 \<longleftrightarrow> d = 4"
    using byte_key[of d 10] byte_key[of d 4] d by auto
  have u128: "unat (of_nat INPUT_BUF_SIZE :: uint) = INPUT_BUF_SIZE" by (simp add: INPUT_BUF_SIZE_def)
  then have full: "cons_e t1 - cons_r t1 = of_nat INPUT_BUF_SIZE \<longleftrightarrow> unat (cons_w t - cons_r t) + unat (cons_e t - cons_w t) + 1 = INPUT_BUF_SIZE"
    using S(4) D(2) word_unat_eq_iff[of "cons_e t1 - cons_r t1" "of_nat INPUT_BUF_SIZE"] by simp
  define commit where "commit \<longleftrightarrow> d = 10 \<or> d = 4 \<or> cons_e t1 - cons_r t1 = of_nat INPUT_BUF_SIZE"
  have run: "cons_store c (t, k) = (if commit then bnd (wakeup OnConsole k) (\<lambda>k. Inr (t1\<lparr>cons_w := cons_e t1\<rparr>, k)) else Inr (t1, k))"
    using ok(2) d by (auto simp: cons_store_def consputc_eq BACKSPACE_def Ctl_def Let_def t1_def commit_def d_def)
  have edit: "edit_key c (cons_ready t, cons_line t)
    = (if commit then (cons_ready t @ cons_line t @ [of_int d], []) else (cons_ready t, cons_line t @ [of_int d]))"
    using sw c room D(2) keys full by (auto simp: edit_key_def commit_def Let_def d_def[symmetric])
  show ?thesis
  proof (cases commit)
    case True
    let ?t = "t1\<lparr>cons_w := cons_e t1\<rparr>"
    obtain k' where k': "wakeup OnConsole k = Inr k'" "quiet_procs k'" "klocks k' = klocks k" "cur k' = cur k" "no_reader_asleep k'"
      using wakeup_quiet[OF ok(3), of OnConsole] by (metis no_reader_asleep_def)
    have l: "cons_line ?t = []" by (simp add: cons_line_def ring_empty)
    have r: "cons_ready ?t = cons_ready t @ cons_line t @ [of_int d]"
      using ring_split[OF S(3), of INPUT_BUF_SIZE "cons_buf t1"] S(1,2) by (simp add: cons_ready_def cons_line_def)
    have "cons_ok ?t" using S(4,5) room l by (simp add: cons_ok_def)
    moreover have "panicked ?t = 0" using ok(2) by (simp add: t1_def)
    ultimately show ?thesis using run edit True k' l r by simp
  next
    case False
    then have "10 \<notin> set (cons_line t1)" using S(2) D(4) keys by (auto simp: commit_def)
    then have "cons_ok t1" using S(3,4,5) room by (simp add: cons_ok_def)
    moreover have "panicked t1 = 0" using ok(2) by (simp add: t1_def)
    ultimately show ?thesis using run edit False S(1,2) ok(3) by simp
  qed
qed

lemma consoleintr_ok:
  assumes ok: "cons_ok t" "panicked t = 0" "quiet_procs k" "ConsLock \<notin> klocks k" and c: "0 \<le> c" "c < 256"
  shows "\<exists>t' k'. consoleintr c (t, k) = Inr (t', k') \<and> cons_ok t' \<and> panicked t' = 0 \<and> quiet_procs k' \<and> klocks k' = klocks k \<and> cur k' = cur k
    \<and> (cons_ready t', cons_line t') = edit_key c (cons_ready t, cons_line t)
    \<and> (if cons_ready t' = cons_ready t then procs k' = procs k else no_reader_asleep k')"
proof -
  let ?k = "k\<lparr>klocks := insert ConsLock (klocks k)\<rparr>"
  have q: "quiet_procs ?k" using ok(3) by (simp add: quiet_procs_def others_unlocked_def)
  have room: "cons_e t - cons_r t < of_nat INPUT_BUF_SIZE \<longleftrightarrow> unat (cons_e t - cons_r t) < INPUT_BUF_SIZE"
    by (simp add: word_less_nat_alt INPUT_BUF_SIZE_def)
  have "\<exists>t' k'. cons_switch c (t, ?k) = Inr (t', k') \<and> cons_ok t' \<and> panicked t' = 0 \<and> quiet_procs k' \<and> klocks k' = klocks ?k \<and> cur k' = cur k
    \<and> (cons_ready t', cons_line t') = edit_key c (cons_ready t, cons_line t)
    \<and> (if cons_ready t' = cons_ready t then procs k' = procs k else no_reader_asleep k')"
  proof -
    consider "c = Ctl 80" | "c = Ctl 85" | "c = Ctl 72 \<or> c = 0x7f"
      | "c \<noteq> Ctl 80" "c \<noteq> Ctl 85" "c \<noteq> Ctl 72" "c \<noteq> 0x7f" "\<not> (c \<noteq> 0 \<and> unat (cons_e t - cons_r t) < INPUT_BUF_SIZE)"
      | "c \<noteq> Ctl 80" "c \<noteq> Ctl 85" "c \<noteq> Ctl 72" "c \<noteq> 0x7f" "c \<noteq> 0" "unat (cons_e t - cons_r t) < INPUT_BUF_SIZE" by blast
    then show ?thesis
    proof cases
      case 1
      then show ?thesis using ok q by (simp add: cons_switch_def edit_key_def)
    next
      case 2
      then show ?thesis using kill_line_ok[OF ok(1,2)] q by (auto simp: cons_switch_def edit_key_def Ctl_def)
    next
      case 3
      show ?thesis
      proof (cases "cons_e t = cons_w t")
        case True
        then have "cons_line t = []" by (simp add: cons_line_def ring_empty)
        then show ?thesis using True 3 ok q by (auto simp: cons_switch_def edit_key_def Ctl_def)
      next
        case False
        note E = erase_one[OF ok(1) False, where x = "thr t @ [8, 32, 8]", OF refl]
        then show ?thesis using False 3 ok q by (auto simp: cons_switch_def edit_key_def Ctl_def consputc_eq)
      qed
    next
      case 4
      then show ?thesis using ok q cons_okD(2)[OF ok(1)] by (auto simp: cons_switch_def edit_key_def room)
    next
      case 5
      then have "cons_switch c (t, ?k) = cons_store c (t, ?k)" using room by (simp add: cons_switch_def)
      moreover obtain t' k' where "cons_store c (t, ?k) = Inr (t', k')" "cons_ok t'" "panicked t' = 0" "quiet_procs k'" "klocks k' = klocks ?k"
          "cur k' = cur ?k" "(cons_ready t', cons_line t') = edit_key c (cons_ready t, cons_line t)"
          "if cons_ready t' = cons_ready t then k' = ?k else no_reader_asleep k'"
        using cons_store_ok[OF ok(1,2) q _ c(2) 5(6,1-4)] 5(5) c(1) by auto
      ultimately show ?thesis
        by (intro exI[of _ t'] exI[of _ k']) (cases "cons_ready t' = cons_ready t"; simp)
    qed
  qed
  then obtain t' k' where s: "cons_switch c (t, ?k) = Inr (t', k')" "cons_ok t'" "panicked t' = 0" "quiet_procs k'" "klocks k' = klocks ?k"
      "cur k' = cur k" "(cons_ready t', cons_line t') = edit_key c (cons_ready t, cons_line t)"
      "if cons_ready t' = cons_ready t then procs k' = procs k else no_reader_asleep k'" by blast
  let ?k' = "k'\<lparr>klocks := klocks k\<rparr>"
  have "consoleintr c (t, k) = Inr (t', ?k')" using s(1,5) ok(4) by (simp add: consoleintr_def acquire_k_def release_k_def)
  moreover have "quiet_procs ?k'" "no_reader_asleep ?k' \<longleftrightarrow> no_reader_asleep k'"
    using s(4) by (simp_all add: quiet_procs_def others_unlocked_def no_reader_asleep_def)
  ultimately show ?thesis using s by (auto split: if_splits)
qed

text \<open>
  C33. The console interrupt handler refines a line editor: after any sequence of keys, what \<open>consoleread\<close>
  will find is what the editor's user sees, completed by newline, control-D or a full buffer; backspace and
  control-U never reach back into a completed line; a key that does not fit is dropped; the three 32-bit
  indices stay within one buffer of each other, wrapping or not; the handler gives its lock back, never
  panics, and if a line was completed it leaves no other process asleep for input.
\<close>

theorem console_line_editor:
  assumes "cons_ok t" "panicked t = 0" "quiet_procs k" "ConsLock \<notin> klocks k" "\<forall>c \<in> set cs. 0 \<le> c \<and> c < 256"
  shows "\<exists>t' k'. for_each consoleintr cs (t, k) = Inr (t', k') \<and> cons_ok t' \<and> quiet_procs k' \<and> klocks k' = klocks k
    \<and> (cons_ready t', cons_line t') = fold edit_key cs (cons_ready t, cons_line t)
    \<and> (if cons_ready t' = cons_ready t then procs k' = procs k else no_reader_asleep k')"
proof -
  have "\<exists>t' k'. for_each consoleintr cs (t, k) = Inr (t', k') \<and> cons_ok t' \<and> quiet_procs k' \<and> klocks k' = klocks k \<and> cur k' = cur k
    \<and> (cons_ready t', cons_line t') = fold edit_key cs (cons_ready t, cons_line t) \<and> prefix (cons_ready t) (cons_ready t')
    \<and> (if cons_ready t' = cons_ready t then procs k' = procs k else no_reader_asleep k')"
    using assms
  proof (induction cs arbitrary: t k)
    case (Cons c cs)
    obtain t1 k1 where 1: "consoleintr c (t, k) = Inr (t1, k1)" "cons_ok t1" "panicked t1 = 0" "quiet_procs k1" "klocks k1 = klocks k" "cur k1 = cur k"
        "(cons_ready t1, cons_line t1) = edit_key c (cons_ready t, cons_line t)"
        "if cons_ready t1 = cons_ready t then procs k1 = procs k else no_reader_asleep k1"
      using consoleintr_ok[OF Cons.prems(1-4), of c] Cons.prems(5) by auto
    obtain t2 k2 where 2: "for_each consoleintr cs (t1, k1) = Inr (t2, k2)" "cons_ok t2" "quiet_procs k2" "klocks k2 = klocks k1" "cur k2 = cur k1"
        "(cons_ready t2, cons_line t2) = fold edit_key cs (cons_ready t1, cons_line t1)" "prefix (cons_ready t1) (cons_ready t2)"
        "if cons_ready t2 = cons_ready t1 then procs k2 = procs k1 else no_reader_asleep k2"
      using Cons.IH[OF 1(2,3,4)] 1(5) Cons.prems(4,5) by auto
    have p: "prefix (cons_ready t) (cons_ready t1)"
      using 1(7) by (auto simp: edit_key_def Let_def split: if_splits)
    have "no_reader_asleep k2" if "cons_ready t2 \<noteq> cons_ready t" "cons_ready t2 = cons_ready t1"
      using that 1(8) 2(5,8) by (simp add: no_reader_asleep_def)
    then have "if cons_ready t2 = cons_ready t then procs k2 = procs k else no_reader_asleep k2"
      using 1(8) 2(7,8) p by (cases "cons_ready t2 = cons_ready t1") (auto dest: prefix_order.antisym)
    then show ?case using 1 2 p by (auto dest: prefix_order.trans)
  qed (use assms in auto)
  then show ?thesis by blast
qed

definition fresh_tty :: "uint \<Rightarrow> tty" where
  "fresh_tty c = \<lparr>uart_tx_buf = replicate UART_TX_BUF_SIZE 0, uart_tx_w = 0, uart_tx_r = 0,
     cons_buf = replicate INPUT_BUF_SIZE 0, cons_r = c, cons_w = c, cons_e = c, rx = [], thr = [], panicked = 0\<rparr>"

lemma fresh_tty_ok: "cons_ok (fresh_tty c)" "cons_ready (fresh_tty c) = []" "cons_line (fresh_tty c) = []" "panicked (fresh_tty c) = 0"
  by (simp_all add: cons_ok_def fresh_tty_def cons_line_def cons_ready_def ring_empty)

lemma sample_user_quiet: "quiet_procs sample_user"
  using sample_user_table by (simp add: quiet_procs_def others_unlocked_def)

theorem console_line_editor_witness:
  "\<exists>t' k'. for_each consoleintr [104, 105, 127, 111, 13, 120, 121, 21, 122] (fresh_tty (-1), sample_user) = Inr (t', k')
     \<and> cons_ready t' = [104, 111, 10] \<and> cons_line t' = [122]"
proof -
  have "klocks sample_user = {}" by (simp add: sample_user_def sample_kern_def)
  then obtain t' k' where "for_each consoleintr [104, 105, 127, 111, 13, 120, 121, 21, 122] (fresh_tty (-1), sample_user) = Inr (t', k')"
      "(cons_ready t', cons_line t') = fold edit_key [104, 105, 127, 111, 13, 120, 121, 21, 122] ([], [])"
    using console_line_editor[OF fresh_tty_ok(1,4) sample_user_quiet, of "[104, 105, 127, 111, 13, 120, 121, 21, 122]" "-1"]
    by (auto simp: fresh_tty_ok)
  moreover have "fold edit_key [104, 105, 127, 111, 13, 120, 121, 21, 122] ([], []) = ([104, 111, 10], [122])"
    by (simp add: edit_key_def Ctl_def INPUT_BUF_SIZE_def)
  ultimately show ?thesis by auto
qed

section \<open>Reading\<close>

text \<open>
  What a read of \<open>n\<close> bytes takes from the completed input: the bytes delivered, what is left, and whether the
  read is over (otherwise it waits for more). \<open>st\<close> says whether a byte has been delivered before: then a
  control-D ends the read but stays, to make the next read return nothing.
\<close>

fun read_line :: "nat \<Rightarrow> bool \<Rightarrow> byte list \<Rightarrow> byte list \<times> byte list \<times> bool" where
  "read_line 0 st q = ([], q, True)"
| "read_line (Suc n) st [] = ([], [], False)"
| "read_line (Suc n) st (b # q) =
     (if b = 4 then ([], if st then b # q else q, True)
      else if b = 10 then ([b], q, True)
      else let (d, q', fin) = read_line n True q in (b # d, q', fin))"

lemma take_one:
  assumes ok: "cons_ok t" and ne: "cons_r t \<noteq> cons_w t" and t1: "t1 = t\<lparr>cons_r := cons_r t + 1\<rparr>"
  shows "cons_ok t1" "cons_ready t = cons_buf t ! (unat (cons_r t) mod INPUT_BUF_SIZE) # cons_ready t1" "cons_line t1 = cons_line t"
proof -
  note D = cons_okD[OF ok]
  have "0 < unat (cons_w t - cons_r t)" using ne by (simp add: unat_gt_0)
  then have "cons_r t \<noteq> cons_e t" using D(2) by auto
  then show "cons_ok t1" using D ne unat_pred_diff(2)[of "cons_r t" "cons_w t"] unat_pred_diff(2)[of "cons_r t" "cons_e t"]
    by (auto simp: cons_ok_def t1 cons_line_def)
  show "cons_ready t = cons_buf t ! (unat (cons_r t) mod INPUT_BUF_SIZE) # cons_ready t1"
    using ring_get[OF ne, of INPUT_BUF_SIZE "cons_buf t"] by (simp add: cons_ready_def t1)
  show "cons_line t1 = cons_line t" by (simp add: cons_line_def t1)
qed

lemma sint_diff_int:
  assumes "in_int N" "0 \<le> m" "m \<le> N"
  shows "sint (of_int N - of_int (N - m) :: uint) = m"
proof -
  have "of_int N - of_int (N - m) = (of_int m :: uint)" by simp
  moreover have "sint (of_int m :: uint) = m"
    using assms by (simp add: signed_of_int signed_take_bit_int_eq_self in_int_def INT_MAX_def)
  ultimately show ?thesis by simp
qed

lemma consoleread_loop_ok:
  assumes "user_dst ConsLock pr ca addr N k" "killed (procs k ! pr) = 0" "cons_ok t" "0 \<le> i" "i \<le> N" "in_int N"
    "read_line (nat (N - i)) (0 < i) (cons_ready t) = (d, q, fin)"
  shows "\<exists>t' k'. consoleread_loop pr True ca (addr + of_int i) (of_int N) (N - i) (t, k)
      = Inr (if fin then Returns (i + int (length d)) else Sleeps, addr + of_int (i + int (length d)), N - i - int (length d), t', k')
    \<and> cons_ok t' \<and> cons_ready t' = q \<and> cons_line t' = cons_line t \<and> klocks k' = {} \<and> i + int (length d) \<le> N
    \<and> (\<forall>j < length d. mem (km k') (uaddr (mem (km k)) (pagetable (procs k ! pr)) (addr + of_int (i + int j))) = d ! j)
    \<and> (\<not> fin \<longrightarrow> state (procs k' ! pr) = SLEEPING \<and> chan (procs k' ! pr) = OnConsole)
    \<and> (\<forall>x. x \<noteq> ca \<longrightarrow> (\<forall>j. i \<le> j \<and> j < N \<longrightarrow> x \<noteq> uaddr (mem (km k)) (pagetable (procs k ! pr)) (addr + of_int j))
          \<longrightarrow> mem (km k') x = mem (km k) x)"
  using assms
proof (induction "nat (N - i)" arbitrary: i t k d)
  case 0
  then have "i = N" "d = []" "q = cons_ready t" "fin" by auto
  moreover have "klocks k = {ConsLock}" using user_srcD(5)[OF user_dstD(1)[OF 0(2)]] .
  ultimately show ?case using 0(4-7) sint_diff_int[OF 0(7), of N]
    by (subst consoleread_loop.simps) (simp add: consoleread_done_def release_k_def)
next
  case (Suc m)
  note R = user_dstD[OF Suc.prems(1)] and U = user_srcD[OF user_dstD(1)[OF Suc.prems(1)]]
  let ?A = "\<lambda>j. uaddr (mem (km k)) (pagetable (procs k ! pr)) (addr + of_int j)"
  have i: "i < N" using Suc.hyps(2) by simp
  then have nSuc: "nat (N - i) = Suc (nat (N - (i + 1)))" by simp
  show ?case
  proof (cases "cons_r t = cons_w t")
    case True
    then have "cons_ready t = []" by (simp add: cons_ready_def)
    then have r: "d = []" "q = []" "\<not> fin" using Suc.prems(7) nSuc by auto
    have kl: "is_killed pr k = Inr (0, k)" using is_killed_eq'[OF U(4)] U(2,3) Suc.prems(2) by simp
    have sl: "sleep_enter OnConsole ConsLock k = Inr (k\<lparr>klocks := {}, procs := (procs k)[pr :=
        (procs k ! pr)\<lparr>plocked := True, chan := OnConsole, state := SLEEPING\<rparr>]\<rparr>)"
      by (rule sleep_enter_eq) (use U in auto)
    show ?thesis using i True kl sl r Suc.prems U(2,3) \<open>cons_ready t = []\<close> by (subst consoleread_loop.simps) simp
  next
    case False
    define c t1 where "c = cons_buf t ! (unat (cons_r t) mod INPUT_BUF_SIZE)" and "t1 = t\<lparr>cons_r := cons_r t + 1\<rparr>"
    note T = take_one[OF Suc.prems(3) False t1_def, folded c_def]
    have wi: "(of_int (N - i) :: uint) < of_int N \<longleftrightarrow> 0 < i"
      using Suc.prems(4,6) i by (simp add: word_less_def uint_word_of_int_eq take_bit_int_eq_self in_int_def INT_MAX_def del: of_int_diff)
    show ?thesis
    proof (cases "c = 4")
      case True
      then have r: "d = []" "q = (if 0 < i then c # cons_ready t1 else cons_ready t1)" fin using Suc.prems(7) nSuc T(2) by auto
      define t2 where "t2 = (if 0 < i then t else t1)"
      have "consoleread_loop pr True ca (addr + of_int i) (of_int N) (N - i) (t, k) = consoleread_done (addr + of_int i) (of_int N) (N - i) (t2, k)"
        using i False True wi c_def by (subst consoleread_loop.simps) (simp add: Ctl_def Let_def t2_def t1_def)
      moreover have "cons_ok t2" "cons_ready t2 = q" "cons_line t2 = cons_line t" using T Suc.prems(3) r by (auto simp: t2_def)
      ultimately show ?thesis
        using r U(5) sint_diff_int[OF Suc.prems(6,4)] i by (auto simp: consoleread_done_def release_k_def)
    next
      case nD: False
      define k1 where "k1 = k\<lparr>km := (km k)\<lparr>mem := (mem (km k))(ca := c, ?A i := c)\<rparr>\<rparr>"
      note S = user_dst_store[OF Suc.prems(1,4) i refl refl k1_def]
      have step: "consoleread_loop pr True ca (addr + of_int i) (of_int N) (N - i) (t, k) =
          (if c = 10 then consoleread_done (addr + of_int (i + 1)) (of_int N) (N - (i + 1)) (t1, k1)
           else consoleread_loop pr True ca (addr + of_int (i + 1)) (of_int N) (N - (i + 1)) (t1, k1))"
        using i False nD c_def S(1) U(1,2,3)
        by (subst consoleread_loop.simps) (simp add: Ctl_def Let_def t1_def either_copyout_def myproc_def kern_defs k1_def algebra_simps)
      show ?thesis
      proof (cases "c = 10")
        case True
        then have r: "d = [c]" "q = cons_ready t1" fin using Suc.prems(7) nSuc T(2) nD by auto
        have "consoleread_loop pr True ca (addr + of_int i) (of_int N) (N - i) (t, k)
          = Inr (Returns (i + 1), addr + of_int (i + 1), N - (i + 1), t1, k1\<lparr>klocks := {}\<rparr>)"
          using step True U(5) sint_diff_int[OF Suc.prems(6), of "i + 1"] Suc.prems(4) i
          by (simp add: consoleread_done_def release_k_def k1_def del: of_int_add of_int_diff)
        then show ?thesis using r T i by (auto simp: k1_def algebra_simps)
      next
        case nN: False
        obtain d1 where r: "read_line (nat (N - (i + 1))) (0 < i + 1) (cons_ready t1) = (d1, q, fin)" "d = c # d1"
          using Suc.prems(7) nSuc T(2) nD nN Suc.prems(4) by (auto split: prod.splits)
        have "m = nat (N - (i + 1))" "0 \<le> i + 1" "i + 1 \<le> N" "killed (procs k1 ! pr) = 0" using Suc.hyps(2) Suc.prems(2,4) i by (auto simp: k1_def)
        then obtain t' k' where I: "consoleread_loop pr True ca (addr + of_int (i + 1)) (of_int N) (N - (i + 1)) (t1, k1)
            = Inr (if fin then Returns (i + 1 + int (length d1)) else Sleeps, addr + of_int (i + 1 + int (length d1)), N - (i + 1) - int (length d1), t', k')"
          "cons_ok t'" "cons_ready t' = q" "cons_line t' = cons_line t1" "klocks k' = {}" "i + 1 + int (length d1) \<le> N"
          "\<And>j. j < length d1 \<Longrightarrow> mem (km k') (?A (i + 1 + int j)) = d1 ! j"
          "\<not> fin \<longrightarrow> state (procs k' ! pr) = SLEEPING \<and> chan (procs k' ! pr) = OnConsole"
          "\<And>x. x \<noteq> ca \<Longrightarrow> \<forall>j. i + 1 \<le> j \<and> j < N \<longrightarrow> x \<noteq> ?A j \<Longrightarrow> mem (km k') x = mem (km k1) x"
          using Suc.hyps(1)[OF _ S(2) _ T(1) _ _ Suc.prems(6) r(1)] unfolding S(3) by blast
        have "mem (km k') (?A i) = c" using I(9)[of "?A i"] S(4) R(4)[OF Suc.prems(4)] by (simp add: k1_def)
        then have bytes: "mem (km k') (?A (i + int j)) = d ! j" if "j < length d" for j
          using that I(7)[of "j - 1"] r(2) by (cases j) (auto simp: algebra_simps)
        have "mem (km k') x = mem (km k) x" if "x \<noteq> ca" "\<forall>j. i \<le> j \<and> j < N \<longrightarrow> x \<noteq> ?A j" for x
        proof -
          have "x \<noteq> ?A i" using that(2) i by blast
          then show ?thesis using I(9)[OF that(1)] that by (auto simp: k1_def)
        qed
        then show ?thesis
          using step nN I(1-6,8) bytes r(2) T(3) by (intro exI[of _ t'] exI[of _ k']) (auto simp: algebra_simps)
      qed
    qed
  qed
qed

text \<open>
  \<open>consoleread\<close> of \<open>n\<close> bytes into a user buffer, by a process that is not killed: it delivers to the buffer
  exactly the bytes the completed input has up to and including the first newline, at most \<open>n\<close>, and returns
  their number; a control-D ends the read and is kept only if something was delivered before it, so that the
  next read returns 0; when the input runs out first it sleeps having delivered what there was. The line
  being edited is untouched, no other byte of memory changes, and the lock is given back.
\<close>

theorem consoleread_delivers_line:
  assumes u: "user_dst ConsLock pr ca addr n (k\<lparr>klocks := {ConsLock}\<rparr>)" and k: "klocks k = {}" "killed (procs k ! pr) = 0"
    and t: "cons_ok t" and n: "0 \<le> n" "in_int n" and r: "read_line (nat n) False (cons_ready t) = (d, q, fin)"
  shows "\<exists>t' k'. consoleread True ca addr n (t, k)
      = Inr (if fin then Returns (int (length d)) else Sleeps, addr + of_nat (length d), n - int (length d), t', k')
    \<and> cons_ok t' \<and> cons_ready t' = q \<and> cons_line t' = cons_line t \<and> klocks k' = {} \<and> int (length d) \<le> n
    \<and> map (\<lambda>j. mem (km k') (uaddr (mem (km k)) (pagetable (procs k ! pr)) (addr + of_nat j))) [0..<length d] = d
    \<and> (\<not> fin \<longrightarrow> state (procs k' ! pr) = SLEEPING \<and> chan (procs k' ! pr) = OnConsole)
    \<and> (\<forall>x. x \<noteq> ca \<longrightarrow> (\<forall>j. 0 \<le> j \<and> j < n \<longrightarrow> x \<noteq> uaddr (mem (km k)) (pagetable (procs k ! pr)) (addr + of_int j))
          \<longrightarrow> mem (km k') x = mem (km k) x)"
proof -
  have "cur k = Some pr" using user_srcD(1)[OF user_dstD(1)[OF u]] by simp
  then have run: "consoleread True ca addr n (t, k) = consoleread_loop pr True ca (addr + of_int 0) (of_int n) (n - 0) (t, k\<lparr>klocks := {ConsLock}\<rparr>)"
    using k(1) by (simp add: consoleread_def acquire_k_def myproc_def)
  have "read_line (nat (n - 0)) (0 < (0 :: int)) (cons_ready t) = (d, q, fin)" using r by simp
  from consoleread_loop_ok[OF u _ t order_refl n(1) n(2) this] k(2)
  obtain t' k' where L: "consoleread_loop pr True ca (addr + of_int 0) (of_int n) (n - 0) (t, k\<lparr>klocks := {ConsLock}\<rparr>)
      = Inr (if fin then Returns (int (length d)) else Sleeps, addr + of_nat (length d), n - int (length d), t', k')"
    "cons_ok t'" "cons_ready t' = q" "cons_line t' = cons_line t" "klocks k' = {}" "int (length d) \<le> n"
    "\<forall>j < length d. mem (km k') (uaddr (mem (km k)) (pagetable (procs k ! pr)) (addr + of_nat j)) = d ! j"
    "\<not> fin \<longrightarrow> state (procs k' ! pr) = SLEEPING \<and> chan (procs k' ! pr) = OnConsole"
    "\<forall>x. x \<noteq> ca \<longrightarrow> (\<forall>j. 0 \<le> j \<and> j < n \<longrightarrow> x \<noteq> uaddr (mem (km k)) (pagetable (procs k ! pr)) (addr + of_int j))
          \<longrightarrow> mem (km k') x = mem (km k) x"
    by auto
  have "map (\<lambda>j. mem (km k') (uaddr (mem (km k)) (pagetable (procs k ! pr)) (addr + of_nat j))) [0..<length d] = d"
    using L(7) by (intro nth_equalityI) simp_all
  then show ?thesis using run L by auto
qed

definition typed_tty :: tty where
  "typed_tty = (fresh_tty 0)\<lparr>cons_buf := [104, 105, 10, 120] @ replicate 124 0, cons_w := 3, cons_e := 4\<rparr>"

lemma typed_tty_ok: "cons_ok typed_tty" "cons_ready typed_tty = [104, 105, 10]" "cons_line typed_tty = [120]"
proof -
  show r: "cons_ready typed_tty = [104, 105, 10]" "cons_line typed_tty = [120]"
    by (simp_all add: cons_ready_def cons_line_def typed_tty_def fresh_tty_def ring_contents_def INPUT_BUF_SIZE_def upt_rec)
  show "cons_ok typed_tty" using r by (simp add: cons_ok_def typed_tty_def fresh_tty_def INPUT_BUF_SIZE_def)
qed

theorem consoleread_delivers_line_witness:
  "\<exists>a m t' k'. consoleread True 0x8000b000 0 8 (typed_tty, sample_user) = Inr (Returns 3, a, m, t', k') \<and> cons_ready t' = [] \<and> cons_line t' = [120]"
proof -
  have kl: "klocks sample_user = {}" by (simp add: sample_user_def sample_kern_def)
  have "nat 8 = Suc (Suc (Suc 5))" by simp
  then have "read_line (nat 8) False (cons_ready typed_tty) = ([104, 105, 10], [], True)"
    unfolding typed_tty_ok(2) by (simp only: read_line.simps) simp
  from consoleread_delivers_line[OF sample_user_dst kl sample_user_table(4) typed_tty_ok(1) _ _ this] show ?thesis
    using typed_tty_ok(3) by (fastforce simp: in_int_def INT_MIN_def INT_MAX_def)
qed

section \<open>The serial port\<close>

text \<open>Nobody but the running process is asleep waiting for room in the transmit ring.\<close>

definition no_writer_asleep :: "kern \<Rightarrow> bool" where
  "no_writer_asleep k \<longleftrightarrow> (\<forall>i < NPROC. cur k \<noteq> Some i \<longrightarrow> \<not> (state (procs k ! i) = SLEEPING \<and> chan (procs k ! i) = OnUart))"

lemma uartstart_ok:
  assumes "uart_ok t" "quiet_procs k"
  shows "\<exists>t' k'. uartstart idle (t, k) = Inr (t', k') \<and> uart_ok t' \<and> quiet_procs k' \<and> klocks k' = klocks k \<and> cur k' = cur k
    \<and> thr t' @ uart_queue t' = thr t @ uart_queue t
    \<and> length (uart_queue t') = length (uart_queue t) - length (takeWhile (\<lambda>b. b) idle)
    \<and> (if uart_queue t' = uart_queue t then k' = k else no_writer_asleep k')"
  using assms
proof (induction idle arbitrary: t k)
  case (Cons b idle)
  have e: "uart_drained t \<longleftrightarrow> uart_queue t = []" by (rule uart.empty_iff[OF Cons.prems(1)])
  show ?case
  proof (cases "b \<and> \<not> uart_drained t")
    case True
    obtain c t1 where g: "uart_get t = (c, t1)" by fastforce
    note G = uart.get_ok[OF Cons.prems(1) _ g]
    have t1: "thr t1 = thr t" using g by (auto simp: uart_get_def)
    let ?t1 = "t1\<lparr>thr := thr t @ [c]\<rparr>"
    have o: "uart_ok ?t1" "uart_queue t = c # uart_queue ?t1" using G True by (auto simp: uart_ok_def uart_queue_def)
    obtain k1 where k1: "wakeup OnUart k = Inr k1" "quiet_procs k1" "klocks k1 = klocks k" "cur k1 = cur k" "no_writer_asleep k1"
      using wakeup_quiet[OF Cons.prems(2), of OnUart] by (metis no_writer_asleep_def)
    obtain t' k' where r: "uartstart idle (?t1, k1) = Inr (t', k')" "uart_ok t'" "quiet_procs k'" "klocks k' = klocks k1" "cur k' = cur k1"
        "thr t' @ uart_queue t' = thr ?t1 @ uart_queue ?t1" "length (uart_queue t') = length (uart_queue ?t1) - length (takeWhile (\<lambda>b. b) idle)"
        "if uart_queue t' = uart_queue ?t1 then k' = k1 else no_writer_asleep k'"
      using Cons.IH[OF o(1) k1(2)] by blast
    have "uart_queue t' \<noteq> uart_queue t" using r(7) o(2) by (auto dest: arg_cong[of _ _ length])
    moreover have "no_writer_asleep k'" using r(8) k1(5) by (auto split: if_splits)
    ultimately show ?thesis using True g t1 k1 r o by auto
  next
    case False
    then show ?thesis using e Cons.prems by auto
  qed
qed simp

text \<open>
  The serial port sends what is written, in order: \<open>uartputc\<close> either finds the transmit ring full and
  sleeps with nothing changed, or queues the character and returns with its lock released; in both \<open>uartputc\<close>
  and the interrupt handler, what has been sent followed by what is queued is what was so before, followed
  by the new character; as many characters leave as the port takes; and when any leave, no other process
  stays asleep for room. The two 64-bit counters may wrap.
\<close>

theorem uart_sends_in_order:
  assumes ok: "uart_ok t" "panicked t = 0" and k: "cur k = Some i" "i < NPROC" "length (procs k) = NPROC" "unlocked (procs k)" "klocks k = {}"
  shows "(if uart_full t
      then \<exists>k'. uartputc idle c (t, k) = Inr (Sleeps, t, k') \<and> klocks k' = {} \<and> state (procs k' ! i) = SLEEPING \<and> chan (procs k' ! i) = OnUart
      else \<exists>t' k'. uartputc idle c (t, k) = Inr (Returns (), t', k') \<and> uart_ok t' \<and> klocks k' = {}
        \<and> thr t' @ uart_queue t' = thr t @ uart_queue t @ [c])
    \<and> (rx t = [] \<longrightarrow> (\<exists>t' k'. uartintr idle (t, k) = Inr (t', k') \<and> uart_ok t' \<and> klocks k' = {}
        \<and> thr t' @ uart_queue t' = thr t @ uart_queue t
        \<and> length (uart_queue t') = length (uart_queue t) - length (takeWhile (\<lambda>b. b) idle)
        \<and> (uart_queue t' = uart_queue t \<or> no_writer_asleep k')))"
proof (intro conjI impI)
  let ?k = "k\<lparr>klocks := {UartLock}\<rparr>"
  have q: "quiet_procs ?k" using k by (simp add: quiet_procs_def others_unlocked_def)
  show "if uart_full t
      then \<exists>k'. uartputc idle c (t, k) = Inr (Sleeps, t, k') \<and> klocks k' = {} \<and> state (procs k' ! i) = SLEEPING \<and> chan (procs k' ! i) = OnUart
      else \<exists>t' k'. uartputc idle c (t, k) = Inr (Returns (), t', k') \<and> uart_ok t' \<and> klocks k' = {}
        \<and> thr t' @ uart_queue t' = thr t @ uart_queue t @ [c]"
  proof (cases "uart_full t")
    case True
    then show ?thesis
      using sleep_enter_eq[of ?k i UartLock OnUart] ok(2) k by (simp add: uartputc_def acquire_k_def)
  next
    case False
    note P = uart.put_ok[OF ok(1) False, of c]
    have "thr (uart_put c t) = thr t" by (simp add: uart_put_def)
    then show ?thesis
      using uartstart_ok[of "uart_put c t" ?k idle] P q False ok(2) k by (auto simp: uartputc_def acquire_k_def release_k_def)
  qed
  assume "rx t = []"
  then have "uartintr_rx (t, k) = Inr (t, k)" by (subst uartintr_rx.simps) (simp add: uartgetc_def)
  moreover obtain t' k' where "uartstart idle (t, ?k) = Inr (t', k')" "uart_ok t'" "klocks k' = {UartLock}"
      "thr t' @ uart_queue t' = thr t @ uart_queue t" "length (uart_queue t') = length (uart_queue t) - length (takeWhile (\<lambda>b. b) idle)"
      "uart_queue t' = uart_queue t \<or> no_writer_asleep k'"
    using uartstart_ok[OF ok(1) q, of idle] by (auto split: if_splits)
  moreover have "no_writer_asleep (k'\<lparr>klocks := {}\<rparr>) = no_writer_asleep k'" by (simp add: no_writer_asleep_def)
  ultimately show "\<exists>t' k'. uartintr idle (t, k) = Inr (t', k') \<and> uart_ok t' \<and> klocks k' = {}
        \<and> thr t' @ uart_queue t' = thr t @ uart_queue t
        \<and> length (uart_queue t') = length (uart_queue t) - length (takeWhile (\<lambda>b. b) idle)
        \<and> (uart_queue t' = uart_queue t \<or> no_writer_asleep k')"
    using k(5) by (simp add: uartintr_def acquire_k_def release_k_def)
qed

theorem uart_sends_in_order_witness:
  "\<exists>t' k'. uartputc [] 65 (fresh_tty 0, sample_user) = Inr (Returns (), t', k') \<and> thr t' @ uart_queue t' = [65]"
proof -
  have o: "uart_ok (fresh_tty 0)" "panicked (fresh_tty 0) = 0" "uart_queue (fresh_tty 0) = []" "thr (fresh_tty 0) = []"
    by (simp_all add: uart_ok_def uart_queue_def fresh_tty_def)
  have "\<not> uart_full (fresh_tty 0)" using uart.full_iff[OF o(1)] o(3) by (simp add: UART_TX_BUF_SIZE_def)
  moreover have "cur sample_user = Some 0" "klocks sample_user = {}" by (simp_all add: sample_user_def sample_kern_def)
  ultimately show ?thesis
    using uart_sends_in_order[OF o(1,2) _ _ sample_user_table(1,2), of 0 "[]" 65] o by (auto simp: NPROC_def)
qed

end
