(* ===== verification/Kstring.thy ===== *)
theory Kstring
  imports Prelude
begin

text \<open>
  The string functions of \<^verbatim>\<open>kernel/string.c\<close>, on arrays of bytes. A byte past the end of the list that
  models an object reads as NUL: the callers pass arrays that are terminated, or long enough for \<open>n\<close>.
\<close>

definition char_at :: "byte list \<Rightarrow> byte" where
  "char_at p = (case p of [] \<Rightarrow> 0 | c # _ \<Rightarrow> c)"

function strncmp :: "byte list \<Rightarrow> byte list \<Rightarrow> nat \<Rightarrow> int" where
  "strncmp p q n =
     (if n > 0 \<and> char_at p \<noteq> 0 \<and> char_at p = char_at q then strncmp (tl p) (tl q) (n - 1)
      else if n = 0 then 0
      else uint (char_at p) - uint (char_at q))"
  by pat_completeness auto
termination
  by (relation "measure (\<lambda>(_, _, n). n)") auto

declare strncmp.simps [simp del]

text \<open>The bytes \<open>strncpy\<close> and \<open>safestrcpy\<close> store at \<open>s\<close>, from there on.\<close>

function strncpy :: "byte list \<Rightarrow> int \<Rightarrow> byte list" where
  "strncpy t n =
     (if n > 0 then
        if char_at t \<noteq> 0 then char_at t # strncpy (tl t) (n - 1)
        else 0 # replicate (nat (n - 1)) 0
      else [])"
  by pat_completeness auto
termination
  by (relation "measure (\<lambda>(_, n). nat n)") auto

declare strncpy.simps [simp del]

function safestrcpy :: "byte list \<Rightarrow> int \<Rightarrow> byte list" where
  "safestrcpy t n =
     (if n \<le> 0 then []
      else if n - 1 > 0 \<and> char_at t \<noteq> 0 then char_at t # safestrcpy (tl t) (n - 1)
      else [0])"
  by pat_completeness auto
termination
  by (relation "measure (\<lambda>(_, n). nat n)") auto

declare safestrcpy.simps [simp del]

primrec strlen_from :: "byte list \<Rightarrow> int \<Rightarrow> int" where
  "strlen_from [] n = n"
| "strlen_from (c # s) n = (if c \<noteq> 0 then strlen_from s (i32 (n + 1)) else n)"

definition strlen :: "byte list \<Rightarrow> int" where
  "strlen s = strlen_from s 0"

section \<open>Facts\<close>

text \<open>The string in an array of at most \<open>n\<close> bytes.\<close>

definition str_of :: "nat \<Rightarrow> byte list \<Rightarrow> byte list" where
  "str_of n p = takeWhile (\<lambda>c. c \<noteq> 0) (take n p)"

lemma str_of_simps [simp]:
  "str_of 0 p = []" "str_of n [] = []" "str_of (Suc n) (c # p) = (if c = 0 then [] else c # str_of n p)"
  by (simp_all add: str_of_def)

lemma strncmp_0_iff: "strncmp p q n = 0 \<longleftrightarrow> str_of n p = str_of n q"
proof (induction p q n rule: strncmp.induct)
  case (1 p q n)
  show ?case
  proof (cases n)
    case 0
    then show ?thesis by (simp add: strncmp.simps[of p q])
  next
    case (Suc m)
    then show ?thesis using 1 by (cases p; cases q) (auto simp: char_at_def word_uint_eq_iff strncmp.simps[of _ _ "Suc m"])
  qed
qed

lemma length_strncpy: "length (strncpy t n) = nat n"
  by (induction t n rule: strncpy.induct) (subst strncpy.simps, auto)

lemma str_of_strncpy: "str_of (nat n) (strncpy t n) = str_of (nat n) t"
proof (induction t n rule: strncpy.induct)
  case (1 t n)
  show ?case
  proof (cases "n > 0")
    case True
    then have "nat n = Suc (nat (n - 1))" by simp
    then show ?thesis using 1 True by (cases t) (auto simp: char_at_def strncpy.simps[of _ n])
  qed (simp add: strncpy.simps[of t])
qed

text \<open>\<open>safestrcpy\<close> always terminates what it copies.\<close>

lemma safestrcpy_terminated:
  assumes "0 < n"
  shows "safestrcpy t n = str_of (nat n - 1) t @ [0]"
  using assms
proof (induction t n rule: safestrcpy.induct)
  case (1 t n)
  show ?case
  proof (cases "n - 1 > 0")
    case True
    define m where "m = nat (n - 1) - 1"
    have m: "nat n - 1 = Suc m" "nat (n - 1) - 1 = m" using True unfolding m_def by arith+
    then show ?thesis using 1 True unfolding m(1) by (cases t) (auto simp: char_at_def safestrcpy.simps[of _ n])
  next
    case False
    then show ?thesis using 1(2) by (simp add: safestrcpy.simps[of t])
  qed
qed

end
