(* ===== verification/Fs.thy ===== *)
theory Fs
  imports Log_Commit Proc_Life Kstring
begin

unbundle bit_operations_syntax

text \<open>
  The file system proper, \<^verbatim>\<open>kernel/fs.c\<close>: block allocation in the bitmap, inodes on disk and in the inode
  table, file contents, directories and path names.

  The state is the superblock, the log, the buffer cache, the inode table and the kernel of \<open>Proc_Life\<close>. A
  pointer to an in-memory inode is an index of the table. The critical sections of \<open>itable.lock\<close> are single
  steps; an inode's sleep lock is the flag \<open>ilocked\<close> (waiting for a lock the caller itself holds is a
  \<open>Fault\<close>, as in \<open>Bio\<close>). Two addresses are parameters: \<open>ba b\<close>, where the data of buffer \<open>b\<close> lies in kernel
  memory (\<open>either_copyout\<close> and \<open>either_copyin\<close> take it from and put it there), and \<open>da\<close>, where the local
  variable \<open>de\<close> of the directory functions lies. Disk sizes are below 2^31.
\<close>

section \<open>Layout\<close>

definition NDIRECT :: nat where
  "NDIRECT = 12"

definition NINDIRECT :: nat where
  "NINDIRECT = BSIZE div 4"

definition MAXFILE :: nat where
  "MAXFILE = NDIRECT + NINDIRECT"

definition IPB :: nat where
  "IPB = BSIZE div 64"

definition BPB :: nat where
  "BPB = BSIZE * 8"

definition DIRSIZ :: nat where
  "DIRSIZ = 14"

definition NINODE :: nat where
  "NINODE = 50"

definition ROOTDEV :: uint where
  "ROOTDEV = 1"

definition ROOTINO :: uint where
  "ROOTINO = 1"

definition FSMAGIC :: uint where
  "FSMAGIC = 0x10203040"

definition T_DIR :: ushort where
  "T_DIR = 1"

record superblock =
  sb_magic :: uint
  sb_size :: uint
  sb_nblocks :: uint
  sb_ninodes :: uint
  sb_nlog :: uint
  sb_logstart :: uint
  sb_inodestart :: uint
  sb_bmapstart :: uint

record inode =
  idev :: uint
  inum :: uint
  iref :: int
  ilocked :: bool
  ivalid :: bool
  itype :: ushort
  imajor :: ushort
  iminor :: ushort
  nlink :: ushort
  isize :: uint
  addrs :: "uint list"

record fsys =
  sb :: superblock
  lg :: log
  bc :: bcache
  itable :: "inode list"
  kn :: kern

definition IBLOCK :: "uint \<Rightarrow> superblock \<Rightarrow> uint" where
  "IBLOCK i s = i div of_nat IPB + sb_inodestart s"

definition BBLOCK :: "uint \<Rightarrow> superblock \<Rightarrow> uint" where
  "BBLOCK b s = b div of_nat BPB + sb_bmapstart s"

text \<open>The 16-bit fields of structures in blocks, by byte offset.\<close>

definition get16 :: "block \<Rightarrow> nat \<Rightarrow> ushort" where
  "get16 b k = ucast (b ! k) OR push_bit 8 (ucast (b ! (k + 1)))"

definition put16 :: "nat \<Rightarrow> ushort \<Rightarrow> block \<Rightarrow> block" where
  "put16 k v b = b[k := ucast v, k + 1 := ucast (drop_bit 8 v)]"

section \<open>Access to the lower layers\<close>

definition fbread :: "uint \<Rightarrow> uint \<Rightarrow> fsys \<Rightarrow> (nat \<times> fsys) result" where
  "fbread dev n f = bnd (bread dev n (bc f)) (\<lambda>(b, s). Inr (b, f\<lparr>bc := s\<rparr>))"

definition fbrelse :: "nat \<Rightarrow> fsys \<Rightarrow> fsys result" where
  "fbrelse b f = bnd (brelse b (bc f)) (\<lambda>s. Inr (f\<lparr>bc := s\<rparr>))"

definition flog_write :: "nat \<Rightarrow> fsys \<Rightarrow> fsys result" where
  "flog_write b f = bnd (log_write b (lg f) (bc f)) (\<lambda>(l, s). Inr (f\<lparr>lg := l, bc := s\<rparr>))"

definition data_of :: "nat \<Rightarrow> fsys \<Rightarrow> block" where
  "data_of b f = bdata (buf_at (bc f) b)"

definition store_data :: "nat \<Rightarrow> block \<Rightarrow> fsys \<Rightarrow> fsys" where
  "store_data b d f = f\<lparr>bc := set_data b d (bc f)\<rparr>"

definition geti :: "nat \<Rightarrow> fsys \<Rightarrow> inode result" where
  "geti i f = (if i < length (itable f) then Inr (itable f ! i) else Inl (Fault ''inode''))"

definition seti :: "nat \<Rightarrow> (inode \<Rightarrow> inode) \<Rightarrow> fsys \<Rightarrow> fsys" where
  "seti i g f = f\<lparr>itable := (itable f)[i := g (itable f ! i)]\<rparr>"

section \<open>Superblock and blocks\<close>

definition readsb :: "uint \<Rightarrow> fsys \<Rightarrow> fsys result" where
  "readsb dev f =
     bnd (fbread dev 1 f) (\<lambda>(bp, f).
     let d = data_of bp f;
         f = f\<lparr>sb := \<lparr>sb_magic = get32 d 0, sb_size = get32 d 1, sb_nblocks = get32 d 2, sb_ninodes = get32 d 3,
           sb_nlog = get32 d 4, sb_logstart = get32 d 5, sb_inodestart = get32 d 6, sb_bmapstart = get32 d 7\<rparr>\<rparr> in
     fbrelse bp f)"

definition fsinit :: "uint \<Rightarrow> fsys \<Rightarrow> fsys result" where
  "fsinit dev f =
     bnd (readsb dev f) (\<lambda>f.
       if sb_magic (sb f) \<noteq> FSMAGIC then Inl (Panic ''invalid file system'')
       else bnd (initlog dev (sb_logstart (sb f)) (sb_nlog (sb f)) (lg f) (bc f)) (\<lambda>(l, s). Inr (f\<lparr>lg := l, bc := s\<rparr>)))"

definition bzero :: "uint \<Rightarrow> uint \<Rightarrow> fsys \<Rightarrow> fsys result" where
  "bzero dev bno f =
     bnd (fbread dev bno f) (\<lambda>(bp, f).
     bnd (flog_write bp (store_data bp (replicate BSIZE 0) f)) (fbrelse bp))"

text \<open>Bit \<open>bi\<close> of a bitmap block.\<close>

definition bit_used :: "block \<Rightarrow> nat \<Rightarrow> bool" where
  "bit_used d bi \<longleftrightarrow> d ! (bi div 8) AND push_bit (bi mod 8) 1 \<noteq> 0"

text \<open>The inner loop of \<open>balloc\<close>: the first free block of the bitmap block that starts at block \<open>b\<close>.\<close>

definition balloc_scan :: "block \<Rightarrow> nat \<Rightarrow> nat \<Rightarrow> nat option" where
  "balloc_scan d b nsz = find (\<lambda>bi. \<not> bit_used d bi) [0..<min BPB (nsz - b)]"

function balloc_loop :: "uint \<Rightarrow> nat \<Rightarrow> fsys \<Rightarrow> (uint \<times> fsys) result" where
  "balloc_loop dev b f =
     (if b < unat (sb_size (sb f)) then
        case fbread dev (BBLOCK (of_nat b) (sb f)) f of
          Inl e \<Rightarrow> Inl e
        | Inr (bp, f') \<Rightarrow>
            (case balloc_scan (data_of bp f') b (unat (sb_size (sb f))) of
               Some bi \<Rightarrow>
                 let d = data_of bp f';
                     f' = store_data bp (d[bi div 8 := d ! (bi div 8) OR push_bit (bi mod 8) 1]) f' in
                 bnd (flog_write bp f') (\<lambda>f'.
                 bnd (fbrelse bp f') (\<lambda>f'.
                 bnd (bzero dev (of_nat (b + bi)) f') (\<lambda>f'. Inr (of_nat (b + bi), f'))))
             | None \<Rightarrow>
                 (case fbrelse bp f' of Inl e \<Rightarrow> Inl e | Inr f'' \<Rightarrow> balloc_loop dev (b + BPB) f''))
      else Inr (0, f))"
  by pat_completeness auto
termination
  by (relation "measure (\<lambda>(_, b, f). unat (sb_size (sb f)) - b)")
    (auto simp: fbread_def fbrelse_def bnd_eq_Inr BPB_def BSIZE_def)

declare balloc_loop.simps [simp del]

definition balloc :: "uint \<Rightarrow> fsys \<Rightarrow> (uint \<times> fsys) result" where
  "balloc dev f = balloc_loop dev 0 f"

definition bfree :: "uint \<Rightarrow> uint \<Rightarrow> fsys \<Rightarrow> fsys result" where
  "bfree dev b f =
     bnd (fbread dev (BBLOCK b (sb f)) f) (\<lambda>(bp, f).
     let bi = unat b mod BPB; d = data_of bp f in
     if \<not> bit_used d bi then Inl (Panic ''freeing free block'')
     else
       let f = store_data bp (d[bi div 8 := d ! (bi div 8) AND NOT (push_bit (bi mod 8) 1)]) f in
       bnd (flog_write bp f) (fbrelse bp))"

section \<open>Inodes\<close>

text \<open>A disk inode is 64 bytes: four 16-bit fields, the size, and 13 addresses.\<close>

definition dinode_at :: "uint \<Rightarrow> nat" where
  "dinode_at n = 64 * (unat n mod IPB)"

definition load_inode :: "block \<Rightarrow> nat \<Rightarrow> inode \<Rightarrow> inode" where
  "load_inode d o1 ip = ip\<lparr>itype := get16 d o1, imajor := get16 d (o1 + 2), iminor := get16 d (o1 + 4), nlink := get16 d (o1 + 6),
     isize := get32 d (o1 div 4 + 2), addrs := map (\<lambda>k. get32 d (o1 div 4 + 3 + k)) [0..<NDIRECT + 1]\<rparr>"

definition store_inode :: "inode \<Rightarrow> nat \<Rightarrow> block \<Rightarrow> block" where
  "store_inode ip o1 d =
     fold (\<lambda>k. put32 (o1 div 4 + 3 + k) (addrs ip ! k)) [0..<NDIRECT + 1]
       (put32 (o1 div 4 + 2) (isize ip) (put16 (o1 + 6) (nlink ip) (put16 (o1 + 4) (iminor ip)
         (put16 (o1 + 2) (imajor ip) (put16 o1 (itype ip) d)))))"

definition iinit :: "fsys \<Rightarrow> fsys" where
  "iinit f = fold (\<lambda>i. seti i (\<lambda>ip. ip\<lparr>ilocked := False\<rparr>)) [0..<NINODE] f"

definition iget :: "uint \<Rightarrow> uint \<Rightarrow> fsys \<Rightarrow> (nat \<times> fsys) result" where
  "iget dev n f =
     (case find (\<lambda>i. iref (itable f ! i) > 0 \<and> idev (itable f ! i) = dev \<and> inum (itable f ! i) = n) [0..<NINODE] of
        Some i \<Rightarrow> Inr (i, seti i (\<lambda>ip. ip\<lparr>iref := i32 (iref ip + 1)\<rparr>) f)
      | None \<Rightarrow>
          (case find (\<lambda>i. iref (itable f ! i) = 0) [0..<NINODE] of
             None \<Rightarrow> Inl (Panic ''iget: no inodes'')
           | Some i \<Rightarrow> Inr (i, seti i (\<lambda>ip. ip\<lparr>idev := dev, inum := n, iref := 1, ivalid := False\<rparr>) f)))"

function ialloc_loop :: "uint \<Rightarrow> ushort \<Rightarrow> nat \<Rightarrow> fsys \<Rightarrow> (nat option \<times> fsys) result" where
  "ialloc_loop dev ty n f =
     (if n < unat (sb_ninodes (sb f)) then
        case fbread dev (IBLOCK (of_nat n) (sb f)) f of
          Inl e \<Rightarrow> Inl e
        | Inr (bp, f') \<Rightarrow>
            let d = data_of bp f'; o1 = dinode_at (of_nat n) in
            if get16 d o1 = 0 then
              let f' = store_data bp (put16 o1 ty (take o1 d @ replicate 64 0 @ drop (o1 + 64) d)) f' in
              bnd (flog_write bp f') (\<lambda>f'.
              bnd (fbrelse bp f') (\<lambda>f'.
              bnd (iget dev (of_nat n) f') (\<lambda>(i, f'). Inr (Some i, f'))))
            else
              (case fbrelse bp f' of Inl e \<Rightarrow> Inl e | Inr f'' \<Rightarrow> ialloc_loop dev ty (n + 1) f'')
      else Inr (None, f))"
  by pat_completeness auto
termination
  by (relation "measure (\<lambda>(_, _, n, f). unat (sb_ninodes (sb f)) - n)") (auto simp: fbread_def fbrelse_def bnd_eq_Inr)

declare ialloc_loop.simps [simp del]

definition ialloc :: "uint \<Rightarrow> ushort \<Rightarrow> fsys \<Rightarrow> (nat option \<times> fsys) result" where
  "ialloc dev ty f = ialloc_loop dev ty 1 f"

definition iupdate :: "nat \<Rightarrow> fsys \<Rightarrow> fsys result" where
  "iupdate i f =
     bnd (geti i f) (\<lambda>ip.
     bnd (fbread (idev ip) (IBLOCK (inum ip) (sb f)) f) (\<lambda>(bp, f).
     let f = store_data bp (store_inode ip (dinode_at (inum ip)) (data_of bp f)) f in
     bnd (flog_write bp f) (fbrelse bp)))"

definition idup :: "nat \<Rightarrow> fsys \<Rightarrow> (nat \<times> fsys) result" where
  "idup i f = bnd (geti i f) (\<lambda>_. Inr (i, seti i (\<lambda>ip. ip\<lparr>iref := i32 (iref ip + 1)\<rparr>) f))"

definition iacquiresleep :: "nat \<Rightarrow> fsys \<Rightarrow> fsys result" where
  "iacquiresleep i f = (if ilocked (itable f ! i) then Inl (Fault ''deadlock'') else Inr (seti i (\<lambda>ip. ip\<lparr>ilocked := True\<rparr>) f))"

definition ilock :: "nat \<Rightarrow> fsys \<Rightarrow> fsys result" where
  "ilock i f =
     bnd (geti i f) (\<lambda>ip.
       if iref ip < 1 then Inl (Panic ''ilock'')
       else
         bnd (iacquiresleep i f) (\<lambda>f.
           if \<not> ivalid ip then
             bnd (fbread (idev ip) (IBLOCK (inum ip) (sb f)) f) (\<lambda>(bp, f).
             let f = seti i (load_inode (data_of bp f) (dinode_at (inum ip))) f in
             bnd (fbrelse bp f) (\<lambda>f.
             let f = seti i (\<lambda>ip. ip\<lparr>ivalid := True\<rparr>) f in
             if itype (itable f ! i) = 0 then Inl (Panic ''ilock: no type'') else Inr f))
           else Inr f))"

definition iunlock :: "nat \<Rightarrow> fsys \<Rightarrow> fsys result" where
  "iunlock i f =
     bnd (geti i f) (\<lambda>ip.
       if \<not> ilocked ip \<or> iref ip < 1 then Inl (Panic ''iunlock'')
       else Inr (seti i (\<lambda>ip. ip\<lparr>ilocked := False\<rparr>) f))"

section \<open>Contents\<close>

definition bmap :: "nat \<Rightarrow> nat \<Rightarrow> fsys \<Rightarrow> (uint \<times> fsys) result" where
  "bmap i bn f =
     bnd (geti i f) (\<lambda>ip.
       if bn < NDIRECT then
         if addrs ip ! bn = 0 then
           bnd (balloc (idev ip) f) (\<lambda>(addr, f).
             if addr = 0 then Inr (0, f)
             else Inr (addr, seti i (\<lambda>ip. ip\<lparr>addrs := (addrs ip)[bn := addr]\<rparr>) f))
         else Inr (addrs ip ! bn, f)
       else if bn - NDIRECT < NINDIRECT then
         bnd (if addrs ip ! NDIRECT = 0 then
                bnd (balloc (idev ip) f) (\<lambda>(addr, f).
                  if addr = 0 then Inr (0, f)
                  else Inr (addr, seti i (\<lambda>ip. ip\<lparr>addrs := (addrs ip)[NDIRECT := addr]\<rparr>) f))
              else Inr (addrs ip ! NDIRECT, f)) (\<lambda>(ind, f).
         if ind = 0 then Inr (0, f)
         else
           bnd (fbread (idev ip) ind f) (\<lambda>(bp, f).
           let addr = get32 (data_of bp f) (bn - NDIRECT) in
           bnd (if addr = 0 then
                  bnd (balloc (idev ip) f) (\<lambda>(addr, f).
                    if addr \<noteq> 0 then
                      bnd (flog_write bp (store_data bp (put32 (bn - NDIRECT) addr (data_of bp f)) f)) (\<lambda>f. Inr (addr, f))
                    else Inr (addr, f))
                else Inr (addr, f)) (\<lambda>(addr, f).
           bnd (fbrelse bp f) (\<lambda>f. Inr (addr, f)))))
       else Inl (Panic ''bmap: out of range''))"

definition itrunc :: "nat \<Rightarrow> fsys \<Rightarrow> fsys result" where
  "itrunc i f =
     bnd (for_each (\<lambda>j f.
       bnd (geti i f) (\<lambda>ip.
         if addrs ip ! j \<noteq> 0 then
           bnd (bfree (idev ip) (addrs ip ! j) f) (\<lambda>f. Inr (seti i (\<lambda>ip. ip\<lparr>addrs := (addrs ip)[j := 0]\<rparr>) f))
         else Inr f)) [0..<NDIRECT] f) (\<lambda>f.
     bnd (geti i f) (\<lambda>ip.
     bnd (if addrs ip ! NDIRECT \<noteq> 0 then
            bnd (fbread (idev ip) (addrs ip ! NDIRECT) f) (\<lambda>(bp, f).
            bnd (for_each (\<lambda>j f.
              let a = get32 (data_of bp f) j in if a \<noteq> 0 then bfree (idev ip) a f else Inr f) [0..<NINDIRECT] f) (\<lambda>f.
            bnd (fbrelse bp f) (\<lambda>f.
            bnd (bfree (idev ip) (addrs ip ! NDIRECT) f) (\<lambda>f.
              Inr (seti i (\<lambda>ip. ip\<lparr>addrs := (addrs ip)[NDIRECT := 0]\<rparr>) f)))))
          else Inr f) (\<lambda>f.
     iupdate i (seti i (\<lambda>ip. ip\<lparr>isize := 0\<rparr>) f))))"

definition iput :: "nat \<Rightarrow> fsys \<Rightarrow> fsys result" where
  "iput i f =
     bnd (geti i f) (\<lambda>ip.
     bnd (if iref ip = 1 \<and> ivalid ip \<and> nlink ip = 0 then
            bnd (iacquiresleep i f) (\<lambda>f.
            bnd (itrunc i f) (\<lambda>f.
            bnd (iupdate i (seti i (\<lambda>ip. ip\<lparr>itype := 0\<rparr>) f)) (\<lambda>f.
              Inr (seti i (\<lambda>ip. ip\<lparr>ivalid := False, ilocked := False\<rparr>) f))))
          else Inr f) (\<lambda>f.
     Inr (seti i (\<lambda>ip. ip\<lparr>iref := i32 (iref ip - 1)\<rparr>) f)))"

definition iunlockput :: "nat \<Rightarrow> fsys \<Rightarrow> fsys result" where
  "iunlockput i f = bnd (iunlock i f) (iput i)"

record stat =
  st_dev :: int
  st_ino :: uint
  st_type :: ushort
  st_nlink :: ushort
  st_size :: uint64

definition stati :: "inode \<Rightarrow> stat" where
  "stati ip = \<lparr>st_dev = sint (idev ip), st_ino = inum ip, st_type = itype ip, st_nlink = nlink ip, st_size = ucast (isize ip)\<rparr>"

text \<open>Bytes between kernel memory and a block.\<close>

definition put_bytes :: "memory \<Rightarrow> uint64 \<Rightarrow> byte list \<Rightarrow> memory" where
  "put_bytes m a bs = (\<lambda>x. if unat (x - a) < length bs then bs ! unat (x - a) else m x)"

definition get_bytes :: "memory \<Rightarrow> uint64 \<Rightarrow> nat \<Rightarrow> byte list" where
  "get_bytes m a n = map (\<lambda>i. m (a + of_nat i)) [0..<n]"

definition with_mem :: "(memory \<Rightarrow> memory) \<Rightarrow> fsys \<Rightarrow> fsys" where
  "with_mem g f = f\<lparr>kn := (kn f)\<lparr>km := (km (kn f))\<lparr>mem := g (mem (km (kn f)))\<rparr>\<rparr>\<rparr>"

definition chunk :: "uint \<Rightarrow> uint \<Rightarrow> uint \<Rightarrow> uint" where
  "chunk n tot off = (let a = n - tot; b = of_nat BSIZE - off mod of_nat BSIZE in if a < b then a else b)"

lemma chunk_progress:
  assumes "tot < n"
  shows "unat (n - (tot + chunk n tot off)) < unat (n - tot)"
proof -
  have nz: "n - tot \<noteq> 0" using assms by simp
  have ob: "unat (off mod of_nat BSIZE) < BSIZE" by (simp add: unat_mod BSIZE_def)
  then have "unat (of_nat BSIZE - off mod of_nat BSIZE) = BSIZE - unat (off mod of_nat BSIZE)"
    by (subst unat_sub_if') (auto simp: BSIZE_def word_le_nat_alt)
  then have "0 < unat (of_nat BSIZE - off mod of_nat BSIZE)" using ob by simp
  moreover have "0 < unat (n - tot)" using nz by (simp add: unat_gt_0)
  ultimately have c: "0 < unat (chunk n tot off)" "unat (chunk n tot off) \<le> unat (n - tot)"
    by (auto simp: chunk_def Let_def word_less_nat_alt)
  have "unat (n - tot - chunk n tot off) = unat (n - tot) - unat (chunk n tot off)"
    using c(2) by (intro unat_sub) (simp add: word_le_nat_alt)
  then show ?thesis using c unfolding diff_diff_eq by simp
qed

text \<open>\<open>readi\<close> and \<open>writei\<close>: the loops carry \<open>tot\<close>, \<open>off\<close> and the address of the other side.\<close>

function readi_loop :: "(nat \<Rightarrow> uint64) \<Rightarrow> nat \<Rightarrow> bool \<Rightarrow> uint64 \<Rightarrow> uint \<Rightarrow> uint \<Rightarrow> uint \<Rightarrow> fsys \<Rightarrow> (uint \<times> fsys) result" where
  "readi_loop ba i usr dst off n tot f =
     (if tot < n then
        bnd (bmap i (unat off div BSIZE) f) (\<lambda>(addr, f).
        if addr = 0 then Inr (tot, f)
        else
          bnd (geti i f) (\<lambda>ip.
          bnd (fbread (idev ip) addr f) (\<lambda>(bp, f).
          let m = chunk n tot off;
              f = with_mem (\<lambda>mm. put_bytes mm (ba bp) (data_of bp f)) f in
          bnd (either_copyout usr dst (ba bp + ucast (off mod of_nat BSIZE)) (ucast m) (kn f)) (\<lambda>(r, k).
          let f = f\<lparr>kn := k\<rparr> in
          if r = -1 then bnd (fbrelse bp f) (\<lambda>f. Inr (-1, f))
          else bnd (fbrelse bp f) (readi_loop ba i usr (dst + ucast m) (off + m) n (tot + m))))))
      else Inr (tot, f))"
  by pat_completeness auto
termination
  by (relation "measure (\<lambda>(_, _, _, _, _, n, tot, _). unat (n - tot))") (simp_all add: chunk_progress)

declare readi_loop.simps [simp del]

definition readi :: "(nat \<Rightarrow> uint64) \<Rightarrow> nat \<Rightarrow> bool \<Rightarrow> uint64 \<Rightarrow> uint \<Rightarrow> uint \<Rightarrow> fsys \<Rightarrow> (int \<times> fsys) result" where
  "readi ba i usr dst off n f =
     bnd (geti i f) (\<lambda>ip.
       if off > isize ip \<or> off + n < off then Inr (0, f)
       else
         let n = (if off + n > isize ip then isize ip - off else n) in
         bnd (readi_loop ba i usr dst off n 0 f) (\<lambda>(tot, f). Inr (sint tot, f)))"

function writei_loop :: "(nat \<Rightarrow> uint64) \<Rightarrow> nat \<Rightarrow> bool \<Rightarrow> uint64 \<Rightarrow> uint \<Rightarrow> uint \<Rightarrow> uint \<Rightarrow> fsys \<Rightarrow> (uint \<times> uint \<times> fsys) result" where
  "writei_loop ba i usr src off n tot f =
     (if tot < n then
        bnd (bmap i (unat off div BSIZE) f) (\<lambda>(addr, f).
        if addr = 0 then Inr (tot, off, f)
        else
          bnd (geti i f) (\<lambda>ip.
          bnd (fbread (idev ip) addr f) (\<lambda>(bp, f).
          let m = chunk n tot off;
              f = with_mem (\<lambda>mm. put_bytes mm (ba bp) (data_of bp f)) f in
          bnd (either_copyin (ba bp + ucast (off mod of_nat BSIZE)) usr src (ucast m) (kn f)) (\<lambda>(r, k).
          let f = store_data bp (get_bytes (mem (km k)) (ba bp) BSIZE) (f\<lparr>kn := k\<rparr>) in
          if r = -1 then bnd (fbrelse bp f) (\<lambda>f. Inr (tot, off, f))
          else bnd (flog_write bp f) (\<lambda>f.
            bnd (fbrelse bp f) (writei_loop ba i usr (src + ucast m) (off + m) n (tot + m)))))))
      else Inr (tot, off, f))"
  by pat_completeness auto
termination
  by (relation "measure (\<lambda>(_, _, _, _, _, n, tot, _). unat (n - tot))") (simp_all add: chunk_progress)

declare writei_loop.simps [simp del]

definition writei :: "(nat \<Rightarrow> uint64) \<Rightarrow> nat \<Rightarrow> bool \<Rightarrow> uint64 \<Rightarrow> uint \<Rightarrow> uint \<Rightarrow> fsys \<Rightarrow> (int \<times> fsys) result" where
  "writei ba i usr src off n f =
     bnd (geti i f) (\<lambda>ip.
       if off > isize ip \<or> off + n < off then Inr (-1, f)
       else if unat (off + n) > MAXFILE * BSIZE then Inr (-1, f)
       else
         bnd (writei_loop ba i usr src off n 0 f) (\<lambda>(tot, off, f).
         let f = (if off > isize (itable f ! i) then seti i (\<lambda>ip. ip\<lparr>isize := off\<rparr>) f else f) in
         bnd (iupdate i f) (\<lambda>f. Inr (sint tot, f))))"

section \<open>Directories and paths\<close>

definition namecmp :: "byte list \<Rightarrow> byte list \<Rightarrow> int" where
  "namecmp s t = strncmp s t DIRSIZ"

text \<open>The directory entry in the local variable \<open>de\<close>.\<close>

definition de_inum :: "uint64 \<Rightarrow> fsys \<Rightarrow> ushort" where
  "de_inum da f = get16 (get_bytes (mem (km (kn f))) da 16) 0"

definition de_name :: "uint64 \<Rightarrow> fsys \<Rightarrow> byte list" where
  "de_name da f = drop 2 (get_bytes (mem (km (kn f))) da 16)"

function dirlookup_loop :: "(nat \<Rightarrow> uint64) \<Rightarrow> uint64 \<Rightarrow> nat \<Rightarrow> byte list \<Rightarrow> nat \<Rightarrow> nat \<Rightarrow> fsys \<Rightarrow> ((nat \<times> uint) option \<times> fsys) result" where
  "dirlookup_loop ba da dp nm nsz off f =
     (if off < nsz then
        bnd (readi ba dp False da (of_nat off) 16 f) (\<lambda>(r, f).
        if r \<noteq> 16 then Inl (Panic ''dirlookup read'')
        else if de_inum da f \<noteq> 0 \<and> namecmp nm (de_name da f) = 0 then
          bnd (geti dp f) (\<lambda>ip.
          bnd (iget (idev ip) (ucast (de_inum da f)) f) (\<lambda>(i, f). Inr (Some (i, of_nat off), f)))
        else dirlookup_loop ba da dp nm nsz (off + 16) f)
      else Inr (None, f))"
  by pat_completeness auto
termination
  by (relation "measure (\<lambda>(_, _, _, _, nsz, off, _). nsz - off)") auto

declare dirlookup_loop.simps [simp del]

text \<open>The result is the inode found and the offset stored through \<open>poff\<close>.\<close>

definition dirlookup :: "(nat \<Rightarrow> uint64) \<Rightarrow> uint64 \<Rightarrow> nat \<Rightarrow> byte list \<Rightarrow> fsys \<Rightarrow> ((nat \<times> uint) option \<times> fsys) result" where
  "dirlookup ba da dp nm f =
     bnd (geti dp f) (\<lambda>ip.
       if itype ip \<noteq> T_DIR then Inl (Panic ''dirlookup not DIR'')
       else dirlookup_loop ba da dp nm (unat (isize ip)) 0 f)"

function dirlink_scan :: "(nat \<Rightarrow> uint64) \<Rightarrow> uint64 \<Rightarrow> nat \<Rightarrow> nat \<Rightarrow> nat \<Rightarrow> fsys \<Rightarrow> (nat \<times> fsys) result" where
  "dirlink_scan ba da dp nsz off f =
     (if off < nsz then
        bnd (readi ba dp False da (of_nat off) 16 f) (\<lambda>(r, f).
        if r \<noteq> 16 then Inl (Panic ''dirlink read'')
        else if de_inum da f = 0 then Inr (off, f)
        else dirlink_scan ba da dp nsz (off + 16) f)
      else Inr (off, f))"
  by pat_completeness auto
termination
  by (relation "measure (\<lambda>(_, _, _, nsz, off, _). nsz - off)") auto

declare dirlink_scan.simps [simp del]

definition dirlink :: "(nat \<Rightarrow> uint64) \<Rightarrow> uint64 \<Rightarrow> nat \<Rightarrow> byte list \<Rightarrow> uint \<Rightarrow> fsys \<Rightarrow> (int \<times> fsys) result" where
  "dirlink ba da dp nm n f =
     bnd (dirlookup ba da dp nm f) (\<lambda>(r, f).
       case r of
         Some (i, _) \<Rightarrow> bnd (iput i f) (\<lambda>f. Inr (-1, f))
       | None \<Rightarrow>
           bnd (geti dp f) (\<lambda>ip.
           bnd (dirlink_scan ba da dp (unat (isize ip)) 0 f) (\<lambda>(off, f).
           let num = ucast n :: ushort;
               f = with_mem (\<lambda>m. put_bytes m da (ucast num # ucast (drop_bit 8 num) # strncpy nm (int DIRSIZ))) f in
           bnd (writei ba dp False da (of_nat off) 16 f) (\<lambda>(r, f).
             if r \<noteq> 16 then Inr (-1, f) else Inr (0, f)))))"

definition slash :: byte where
  "slash = 47"

text \<open>\<open>skipelem\<close> on a path without its NUL: the element copied to \<open>name\<close> and the rest of the path.\<close>

definition skipelem :: "byte list \<Rightarrow> (byte list \<times> byte list) option" where
  "skipelem path =
     (let path = dropWhile (\<lambda>c. c = slash) path in
      if path = [] then None
      else
        let elem = takeWhile (\<lambda>c. c \<noteq> slash) path;
            path = dropWhile (\<lambda>c. c \<noteq> slash) path;
            nm = (if length elem \<ge> DIRSIZ then take DIRSIZ elem else elem) in
        Some (nm, dropWhile (\<lambda>c. c = slash) path))"

lemma skipelem_shorter: "skipelem path = Some (nm, rest) \<Longrightarrow> length rest < length path"
proof -
  assume s: "skipelem path = Some (nm, rest)"
  define p where "p = dropWhile (\<lambda>c. c = slash) path"
  have p: "p \<noteq> []" "rest = dropWhile (\<lambda>c. c = slash) (dropWhile (\<lambda>c. c \<noteq> slash) p)"
    using s by (auto simp: skipelem_def p_def Let_def split: if_splits)
  then have "hd p \<noteq> slash" using hd_dropWhile[of "\<lambda>c. c = slash" path] by (simp add: p_def)
  then have "length (dropWhile (\<lambda>c. c \<noteq> slash) p) < length p"
    using p(1) by (cases p) (auto simp: length_dropWhile_le less_Suc_eq_le)
  moreover have "length rest \<le> length (dropWhile (\<lambda>c. c \<noteq> slash) p)" "length p \<le> length path"
    by (simp_all add: p(2) p_def length_dropWhile_le)
  ultimately show ?thesis by linarith
qed

function namex_loop :: "(nat \<Rightarrow> uint64) \<Rightarrow> uint64 \<Rightarrow> bool \<Rightarrow> byte list \<Rightarrow> byte list \<Rightarrow> nat \<Rightarrow> fsys \<Rightarrow> ((nat \<times> byte list) option \<times> fsys) result" where
  "namex_loop ba da par path nm i f =
     (case skipelem path of
        None \<Rightarrow> if par then bnd (iput i f) (\<lambda>f. Inr (None, f)) else Inr (Some (i, nm), f)
      | Some (nm, path) \<Rightarrow>
          bnd (ilock i f) (\<lambda>f.
          bnd (geti i f) (\<lambda>ip.
          if itype ip \<noteq> T_DIR then bnd (iunlockput i f) (\<lambda>f. Inr (None, f))
          else if par \<and> path = [] then bnd (iunlock i f) (\<lambda>f. Inr (Some (i, nm), f))
          else
            bnd (dirlookup ba da i nm f) (\<lambda>(r, f).
              case r of
                None \<Rightarrow> bnd (iunlockput i f) (\<lambda>f. Inr (None, f))
              | Some (j, _) \<Rightarrow> bnd (iunlockput i f) (namex_loop ba da par path nm j)))))"
  by pat_completeness auto
termination
  by (relation "measure (\<lambda>(_, _, _, path, _). length path)") (auto dest: skipelem_shorter)

declare namex_loop.simps [simp del]

definition namex :: "(nat \<Rightarrow> uint64) \<Rightarrow> uint64 \<Rightarrow> byte list \<Rightarrow> bool \<Rightarrow> fsys \<Rightarrow> ((nat \<times> byte list) option \<times> fsys) result" where
  "namex ba da path par f =
     bnd (if path \<noteq> [] \<and> hd path = slash then iget ROOTDEV ROOTINO f
          else bnd (myproc (kn f)) (\<lambda>p. bnd (getp p (kn f)) (\<lambda>pr.
            case cwd pr of None \<Rightarrow> Inl (Fault ''null inode'') | Some c \<Rightarrow> idup c f))) (\<lambda>(i, f).
     namex_loop ba da par path [] i f)"

definition namei :: "(nat \<Rightarrow> uint64) \<Rightarrow> uint64 \<Rightarrow> byte list \<Rightarrow> fsys \<Rightarrow> (nat option \<times> fsys) result" where
  "namei ba da path f = bnd (namex ba da path False f) (\<lambda>(r, f). Inr (map_option fst r, f))"

definition nameiparent :: "(nat \<Rightarrow> uint64) \<Rightarrow> uint64 \<Rightarrow> byte list \<Rightarrow> fsys \<Rightarrow> ((nat \<times> byte list) option \<times> fsys) result" where
  "nameiparent ba da path f = namex ba da path True f"

end
