(* ===== verification/Tx.thy ===== *)
theory Tx
  imports Log_Props
begin

text \<open>
  What the file system relies on between \<open>begin_op\<close> and \<open>end_op\<close>: a running transaction shows its client one
  array of blocks \<open>v\<close>, in which every update made through \<open>log_write\<close> is visible at once, while the disk \<open>d\<close>
  keeps its old contents. \<open>H\<close> is the set of blocks whose buffers the client holds.
\<close>

section \<open>The state of a transaction\<close>

definition tst :: "(uint \<Rightarrow> block) \<Rightarrow> (uint \<Rightarrow> block) \<Rightarrow> uint set \<Rightarrow> log \<Rightarrow> bcache \<Rightarrow> bool" where
  "tst v d H lg s \<longleftrightarrow> log_ok lg \<and> 1 \<le> outstanding lg \<and> finite H
     \<and> (\<exists>h. cst (ldev lg) v (\<lambda>b. pinned lg 0 b + (if b \<in> H then 1 else 0)) (\<lambda>b. b \<in> H) d h s)
     \<and> (\<forall>b. b \<notin> homes lg \<longrightarrow> v b = d b)"

text \<open>The log has room for \<open>k\<close> more blocks, and the cache for two more buffers.\<close>

definition room :: "nat \<Rightarrow> log \<Rightarrow> bool" where
  "room k lg \<longleftrightarrow> lh_n lg + int k < lsize lg \<and> lh_n lg + int k + 2 < int NBUF"

lemma room_mono: "room k lg \<Longrightarrow> j \<le> k \<Longrightarrow> room j lg"
  by (simp add: room_def)

lemma homes_card:
  assumes "log_ok lg"
  shows "finite (homes lg)" "int (card (homes lg)) = lh_n lg"
proof -
  show "finite (homes lg)" by (simp add: homes_def)
  have "card (homes lg) = nat (lh_n lg)"
    unfolding homes_def by (subst card_image) (use log_okD(7)[OF assms] in \<open>auto simp: inj_on_def\<close>)
  then show "int (card (homes lg)) = lh_n lg" using assms by (simp add: log_ok_def)
qed

lemma tst_refs:
  assumes "tst v d H lg s"
  shows "{b. pinned lg 0 b + (if b \<in> H then 1 else 0) \<noteq> (0 :: uint)} = homes lg \<union> H"
    "pinned lg 0 b + (if b \<in> H then 1 else 0) + 1 \<noteq> 0" "pinned lg 0 b + (if b \<in> H then 1 else 0) \<noteq> (- 1 :: uint)"
  by (auto simp: pinned_homes)

text \<open>Inside a transaction a block can be brought into a buffer, \<dots>\<close>

lemma t_bread:
  assumes t: "tst v d H lg s" and n: "n \<notin> H" and few: "card (homes lg \<union> H) < NBUF"
  shows "\<exists>b s'. bread (ldev lg) n s = Inr (b, s') \<and> tst v d (insert n H) lg s' \<and> is_buf (ldev lg) s' n b \<and> bdata (buf_at s' b) = v n
    \<and> (\<forall>m \<in> H. \<forall>j. is_buf (ldev lg) s m j \<longrightarrow> is_buf (ldev lg) s' m j)"
proof -
  let ?r = "\<lambda>b. pinned lg 0 b + (if b \<in> H then 1 else 0)"
  obtain h where c: "cst (ldev lg) v ?r (\<lambda>b. b \<in> H) d h s" using t by (auto simp: tst_def)
  obtain b s' where b: "bread (ldev lg) n s = Inr (b, s')" "cst (ldev lg) v (?r(n := ?r n + 1)) ((\<lambda>b. b \<in> H)(n := True)) d h s'"
      "is_buf (ldev lg) s' n b" "\<forall>m j. is_buf (ldev lg) s m j \<and> ?r m \<noteq> 0 \<longrightarrow> is_buf (ldev lg) s' m j"
    using bread_c[OF c n tst_refs(3)[OF t]] few tst_refs(1)[OF t] by (metis (no_types, lifting))
  have e: "?r(n := ?r n + 1) = (\<lambda>b. pinned lg 0 b + (if b \<in> insert n H then 1 else 0))" "(\<lambda>b. b \<in> H)(n := True) = (\<lambda>b. b \<in> insert n H)"
    using n by (auto simp: fun_eq_iff)
  have "tst v d (insert n H) lg s'" using t b(2) unfolding e tst_def by auto
  moreover have "?r m \<noteq> 0" if "m \<in> H" for m using that tst_refs(1)[OF t] by blast
  ultimately show ?thesis using b(1,3,4) cst_view[OF b(2,3)] by blast
qed

text \<open>\<dots> the buffer changed and the change logged, \<dots>\<close>

lemma t_update:
  assumes t: "tst v d H lg s" and n: "n \<in> H" "\<not> in_log lg n" and b: "is_buf (ldev lg) s n b" and r: "room (Suc k) lg"
  shows "\<exists>lg' s'. log_write b lg (set_data b x s) = Inr (lg', s') \<and> tst (v(n := x)) d H lg' s' \<and> room k lg' \<and> homes lg' = insert n (homes lg)
    \<and> same_place lg lg' \<and> outstanding lg' = outstanding lg \<and> committing lg' = committing lg
    \<and> (\<forall>m \<in> H. \<forall>j. is_buf (ldev lg) s m j \<longrightarrow> is_buf (ldev lg) s' m j)"
proof -
  let ?D = "ldev lg" and ?r = "\<lambda>b. pinned lg 0 b + (if b \<in> H then 1 else 0)"
  have ok: "log_ok lg" and out: "1 \<le> outstanding lg" and fin: "finite H" and cl: "\<And>b. b \<notin> homes lg \<Longrightarrow> v b = d b" using t by (auto simp: tst_def)
  obtain h where c: "cst ?D v ?r (\<lambda>b. b \<in> H) d h s" using t by (auto simp: tst_def)
  have nz: "?r n \<noteq> 0" using n(1) tst_refs(1)[OF t] by blast
  define s2 where "s2 = set_data b x s"
  have s2: "cst ?D (v(n := x)) ?r (\<lambda>b. b \<in> H) d h s2" and keep: "\<And>m j. is_buf ?D s m j \<Longrightarrow> is_buf ?D s2 m j"
    using set_data_c[OF c b nz, where b = x] by (simp_all add: s2_def)
  have b2: "is_buf ?D s2 n b" using b keep by blast
  have bn: "blockno (buf_at s2 b) = n" using buf_facts(3)[OF _ b2] s2 by (simp add: cst_def)
  have lim: "lh_n lg < int LOGSIZE" "lh_n lg + 1 < lsize lg" "lh_n lg + 1 < int NBUF" using r by (simp_all add: room_def LOGSIZE_num NBUF_def)
  show ?thesis
  proof (cases "n \<in> homes lg")
    case True
    note A = absorb_logged[OF ok True]
    define lg' where "lg' = lg\<lparr>lh_block := (lh_block lg)[absorb_at lg n := sint n]\<rparr>"
    have w: "log_write b lg s2 = Inr (lg', s2)" using A(1) lim out bn by (simp add: log_write_def Let_def lg'_def)
    have hb: "home_block lg' = home_block lg" using A(2) by (simp add: lg'_def)
    then have h': "homes lg' = insert n (homes lg)" using True by (auto simp: homes_def lg'_def)
    have "log_ok lg'" using ok hb unfolding log_ok_def by (simp add: lg'_def in_log_def)
    moreover have "pinned lg' 0 = pinned lg 0" using h' True by (simp add: pinned_homes insert_absorb)
    ultimately have "tst (v(n := x)) d H lg' s2"
      using s2 out fin cl h' by (auto simp: tst_def lg'_def)
    moreover have "room k lg'" using r by (simp add: room_def lg'_def)
    ultimately show ?thesis using w h' keep by (auto simp: s2_def same_place_def lg'_def)
  next
    case False
    define lg' where "lg' = lg\<lparr>lh_block := (lh_block lg)[absorb_at lg n := sint n], lh_n := lh_n lg + 1\<rparr>"
    note A = absorb_new[OF ok False n(2) lim lg'_def]
    have w: "log_write b lg s2 = Inr (lg', bpin b s2)" using A(1) lim out bn by (simp add: log_write_def Let_def lg'_def)
    have s3: "cst ?D (v(n := x)) (?r(n := ?r n + 1)) (\<lambda>b. b \<in> H) d h (bpin b s2)"
      and k3: "\<And>m j. is_buf ?D s2 m j \<Longrightarrow> is_buf ?D (bpin b s2) m j"
      using bpin_c[OF s2 b2 nz tst_refs(3)[OF t]] by auto
    have e: "?r(n := ?r n + 1) = (\<lambda>b. pinned lg' 0 b + (if b \<in> H then 1 else 0))" using A(3) False by (auto simp: fun_eq_iff pinned_homes)
    have "tst (v(n := x)) d H lg' (bpin b s2)"
      using s3 A(2,3) out fin cl unfolding e tst_def by (auto simp: lg'_def)
    moreover have "room k lg'" using r by (simp add: room_def lg'_def)
    ultimately show ?thesis using w A(3) keep k3 by (auto simp: s2_def same_place_def lg'_def)
  qed
qed

text \<open>\<dots> and the buffer given back.\<close>

lemma t_brelse:
  assumes t: "tst v d H lg s" and n: "n \<in> H" and b: "is_buf (ldev lg) s n b"
  shows "\<exists>s'. brelse b s = Inr s' \<and> tst v d (H - {n}) lg s' \<and> (\<forall>m \<in> H - {n}. \<forall>j. is_buf (ldev lg) s m j \<longrightarrow> is_buf (ldev lg) s' m j)"
proof -
  let ?D = "ldev lg" and ?r = "\<lambda>b. pinned lg 0 b + (if b \<in> H then 1 else 0)"
  obtain h where c: "cst ?D v ?r (\<lambda>b. b \<in> H) d h s" using t by (auto simp: tst_def)
  have cl: "v n = d n" if "?r n = 1" using that n t by (auto simp: tst_def pinned_homes split: if_splits)
  obtain s' where s': "brelse b s = Inr s'" "cst ?D v (?r(n := ?r n - 1)) ((\<lambda>b. b \<in> H)(n := False)) d h s'" "\<And>m j. is_buf ?D s m j \<Longrightarrow> is_buf ?D s' m j"
    using brelse_c[OF c b n cl] by blast
  have e: "?r(n := ?r n - 1) = (\<lambda>b. pinned lg 0 b + (if b \<in> H - {n} then 1 else 0))" "(\<lambda>b. b \<in> H)(n := False) = (\<lambda>b. b \<in> H - {n})"
    using n by (auto simp: fun_eq_iff)
  have "tst v d (H - {n}) lg s'" using t s'(2) unfolding e tst_def by auto
  then show ?thesis using s'(1,3) by auto
qed

lemma tst_start:
  assumes "log_ok lg" "1 \<le> outstanding lg" "lh_n lg = 0"
  shows "tst d d {} lg (binit d)"
proof -
  have "homes lg = {}" "pinned lg 0 = (\<lambda>_. 0)" using assms(3) by (simp_all add: homes_def pinned_homes)
  moreover have "ldev lg \<noteq> 0" using assms(1) by (simp add: log_ok_def)
  ultimately show ?thesis using assms binit_c[of "ldev lg" d] by (auto simp: tst_def)
qed

end
