(* ===== verification/Fs_Alloc.thy ===== *)
theory Fs_Alloc
  imports Fs Tx
begin

unbundle bit_operations_syntax

text \<open>
  The block allocator inside a transaction: \<open>balloc\<close> finds, marks and clears the first free block of the
  bitmap, \<open>bfree\<close> gives a block back.
\<close>

section \<open>Block operations of the file system\<close>

definition ftx :: "(uint \<Rightarrow> block) \<Rightarrow> (uint \<Rightarrow> block) \<Rightarrow> uint set \<Rightarrow> fsys \<Rightarrow> bool" where
  "ftx v d H f \<longleftrightarrow> tst v d H (lg f) (bc f) \<and> card H \<le> 1"

text \<open>What the block operations leave alone.\<close>

definition fs_same :: "fsys \<Rightarrow> fsys \<Rightarrow> bool" where
  "fs_same f f' \<longleftrightarrow> sb f' = sb f \<and> itable f' = itable f \<and> kn f' = kn f \<and> same_place (lg f) (lg f')"

lemma fs_same_refl [simp]: "fs_same f f"
  by (simp add: fs_same_def same_place_def)

lemma fs_same_trans: "fs_same f g \<Longrightarrow> fs_same g h \<Longrightarrow> fs_same f h"
  by (simp add: fs_same_def same_place_def)

lemma fs_sameD:
  assumes "fs_same f f'"
  shows "sb f' = sb f" "itable f' = itable f" "kn f' = kn f" "ldev (lg f') = ldev (lg f)" "in_log (lg f') = in_log (lg f)"
proof -
  have p: "same_place (lg f) (lg f')" using assms by (simp add: fs_same_def)
  show "in_log (lg f') = in_log (lg f)" by (rule same_place_blocks(3)[OF p])
  show "sb f' = sb f" "itable f' = itable f" "kn f' = kn f" "ldev (lg f') = ldev (lg f)"
    using assms by (simp_all add: fs_same_def same_place_def)
qed

lemma ftx_few:
  assumes "ftx v d H f" "room k (lg f)"
  shows "card (homes (lg f) \<union> H) < NBUF"
proof -
  have "log_ok (lg f)" using assms(1) by (simp add: ftx_def tst_def)
  from homes_card[OF this] have "int (card (homes (lg f))) = lh_n (lg f)" by simp
  moreover have "card (homes (lg f) \<union> H) \<le> card (homes (lg f)) + card H" by (rule card_Un_le)
  moreover have "card H \<le> 1" using assms(1) by (simp add: ftx_def)
  ultimately show ?thesis using assms(2) by (simp add: room_def)
qed

text \<open>Reading a block, perhaps changing it through the log, and giving its buffer back.\<close>

lemma f_access:
  assumes t: "ftx v d H f" and n: "n \<notin> H" and r: "room k (lg f)"
  shows "\<exists>b f1. fbread (ldev (lg f)) n f = Inr (b, f1) \<and> data_of b f1 = v n \<and> fs_same f f1 \<and> lg f1 = lg f
    \<and> (\<exists>f2. fbrelse b f1 = Inr f2 \<and> ftx v d H f2 \<and> fs_same f f2 \<and> lg f2 = lg f)
    \<and> (\<forall>x j. \<not> in_log (lg f) n \<and> k = Suc j \<longrightarrow> (\<exists>f2 f3. flog_write b (store_data b x f1) = Inr f2 \<and> fbrelse b f2 = Inr f3
          \<and> ftx (v(n := x)) d H f3 \<and> room j (lg f3) \<and> fs_same f f3))"
proof -
  have T: "tst v d H (lg f) (bc f)" "card H \<le> 1" using t by (auto simp: ftx_def)
  obtain b s1 where s1: "bread (ldev (lg f)) n (bc f) = Inr (b, s1)" "tst v d (insert n H) (lg f) s1" "is_buf (ldev (lg f)) s1 n b" "bdata (buf_at s1 b) = v n"
    using t_bread[OF T(1) n ftx_few[OF t r]] by blast
  let ?f1 = "f\<lparr>bc := s1\<rparr>"
  have H: "insert n H - {n} = H" using n by simp
  obtain s2 where s2: "brelse b s1 = Inr s2" "tst v d H (lg f) s2" using t_brelse[OF s1(2) _ s1(3)] H by auto
  have "\<exists>f2 f3. flog_write b (store_data b x ?f1) = Inr f2 \<and> fbrelse b f2 = Inr f3 \<and> ftx (v(n := x)) d H f3 \<and> room j (lg f3) \<and> fs_same f f3"
    if x: "\<not> in_log (lg f) n" "k = Suc j" for x j
  proof -
    obtain l s3 where w: "log_write b (lg f) (set_data b x s1) = Inr (l, s3)" "tst (v(n := x)) d (insert n H) l s3" "room j l" "same_place (lg f) l"
        "is_buf (ldev (lg f)) s3 n b"
      using t_update[OF s1(2) _ x(1) s1(3), where k = j and x = x] r x(2) s1(3) by auto
    have "is_buf (ldev l) s3 n b" using w(4,5) by (simp add: same_place_def)
    from t_brelse[OF w(2) insertI1 this] obtain s4 where s4: "brelse b s3 = Inr s4" "tst (v(n := x)) d H l s4" unfolding H by blast
    show ?thesis using w s4 T(2) by (auto simp: flog_write_def store_data_def fbrelse_def ftx_def fs_same_def)
  qed
  then show ?thesis
    using s1 s2 T(2) by (auto simp: fbread_def fbrelse_def data_of_def ftx_def fs_same_def same_place_def)
qed

section \<open>The bitmap\<close>

lemma bit_used_bit: "bit_used x k \<longleftrightarrow> bit (x ! (k div 8)) (k mod 8)"
  by (simp add: bit_used_def bit_iff_and_push_bit_not_eq_0)

lemma bit_used_set:
  assumes "i < 8 * length x"
  shows "bit_used (x[i div 8 := x ! (i div 8) OR push_bit (i mod 8) 1]) j \<longleftrightarrow> bit_used x j \<or> j = i"
proof (cases "j div 8 = i div 8")
  case True
  have "i div 8 < length x" using assms by auto
  moreover have "j mod 8 = i mod 8 \<longleftrightarrow> j = i" using True by (metis div_mult_mod_eq)
  moreover have "j mod 8 < 8" by simp
  ultimately show ?thesis using True by (auto simp: bit_used_bit bit_simps)
qed (auto simp: bit_used_bit)

lemma bit_used_clear:
  assumes "i < 8 * length x"
  shows "bit_used (x[i div 8 := x ! (i div 8) AND NOT (push_bit (i mod 8) 1)]) j \<longleftrightarrow> bit_used x j \<and> j \<noteq> i"
proof (cases "j div 8 = i div 8")
  case True
  have "i div 8 < length x" using assms by auto
  moreover have "j mod 8 = i mod 8 \<longleftrightarrow> j = i" using True by (metis div_mult_mod_eq)
  moreover have "j mod 8 < 8" by simp
  ultimately show ?thesis using True by (auto simp: bit_used_bit bit_simps)
qed (auto simp: bit_used_bit)

definition nblk :: "superblock \<Rightarrow> nat" where
  "nblk s = unat (sb_size s)"

definition bblk :: "superblock \<Rightarrow> nat \<Rightarrow> uint" where
  "bblk s b = BBLOCK (of_nat b) s"

definition used :: "(uint \<Rightarrow> block) \<Rightarrow> superblock \<Rightarrow> nat \<Rightarrow> bool" where
  "used v s b \<longleftrightarrow> bit_used (v (bblk s b)) (b mod BPB)"

text \<open>
  A disk layout the allocator can work with: the bitmap lies on the disk, outside the log, and the boot
  block, the log and the bitmap itself are marked used.
\<close>

definition layout_ok :: "log \<Rightarrow> superblock \<Rightarrow> bool" where
  "layout_ok l s \<longleftrightarrow> nblk s < 2 ^ 31 \<and> unat (sb_bmapstart s) + nblk s div BPB < 2 ^ 32 \<and> (\<forall>b < nblk s. \<not> in_log l (bblk s b))"

definition bitmap_ok :: "(uint \<Rightarrow> block) \<Rightarrow> log \<Rightarrow> superblock \<Rightarrow> bool" where
  "bitmap_ok v l s \<longleftrightarrow> (\<forall>b < nblk s. length (v (bblk s b)) = BSIZE)
     \<and> (\<forall>c < nblk s. c = 0 \<or> in_log l (of_nat c) \<or> of_nat c \<in> bblk s ` {..<nblk s} \<longrightarrow> used v s c)"

lemma BPB_num: "BPB = 8192"
  by (simp add: BPB_def BSIZE_def)

lemma bblk_eq:
  assumes "layout_ok l s" "b < nblk s" "c < nblk s"
  shows "bblk s b = bblk s c \<longleftrightarrow> b div BPB = c div BPB"
proof -
  have u: "unat (bblk s x) = x div BPB + unat (sb_bmapstart s)" if "x < nblk s" for x
  proof -
    have "x < 2 ^ 32" using assms(1) that by (simp add: layout_ok_def)
    then have "unat (of_nat x div of_nat BPB :: uint) = x div BPB" by (simp add: unat_div unat_of_nat BPB_num)
    moreover have "x div BPB \<le> nblk s div BPB" using that by (simp add: div_le_mono)
    ultimately show ?thesis using assms(1) by (simp add: bblk_def BBLOCK_def layout_ok_def unat_word_ariths)
  qed
  show ?thesis using u[OF assms(2)] u[OF assms(3)] by (simp add: word_unat_eq_iff)
qed

lemma used_upd:
  assumes "layout_ok l s" "c < nblk s" "b < nblk s" "length (v (bblk s c)) = BSIZE"
  shows "used (v(bblk s c := (v (bblk s c))[(c mod BPB) div 8 := v (bblk s c) ! ((c mod BPB) div 8) OR push_bit (c mod BPB mod 8) 1])) s b
      \<longleftrightarrow> used v s b \<or> b = c"
    "used (v(bblk s c := (v (bblk s c))[(c mod BPB) div 8 := v (bblk s c) ! ((c mod BPB) div 8) AND NOT (push_bit (c mod BPB mod 8) 1)])) s b
      \<longleftrightarrow> used v s b \<and> b \<noteq> c"
proof -
  have i: "c mod BPB < 8 * length (v (bblk s c))" using assms(4) by (simp add: BPB_num BSIZE_def)
  have "bblk s b = bblk s c \<Longrightarrow> b mod BPB = c mod BPB \<longleftrightarrow> b = c"
    using bblk_eq[OF assms(1,3,2)] by (metis div_mult_mod_eq)
  then show "used (v(bblk s c := (v (bblk s c))[(c mod BPB) div 8 := v (bblk s c) ! ((c mod BPB) div 8) OR push_bit (c mod BPB mod 8) 1])) s b
      \<longleftrightarrow> used v s b \<or> b = c"
    "used (v(bblk s c := (v (bblk s c))[(c mod BPB) div 8 := v (bblk s c) ! ((c mod BPB) div 8) AND NOT (push_bit (c mod BPB mod 8) 1)])) s b
      \<longleftrightarrow> used v s b \<and> b \<noteq> c"
    using bit_used_set[OF i] bit_used_clear[OF i] by (auto simp: used_def)
qed

section \<open>Allocation\<close>

lemma find_append: "find P (xs @ ys) = (case find P xs of None \<Rightarrow> find P ys | Some x \<Rightarrow> Some x)"
  by (induction xs) auto

lemma find_map: "find P (map g xs) = map_option g (find (\<lambda>x. P (g x)) xs)"
  by (induction xs) auto

text \<open>What a successful allocation of block \<open>c\<close> changes.\<close>

definition taken :: "(uint \<Rightarrow> block) \<Rightarrow> superblock \<Rightarrow> nat \<Rightarrow> (uint \<Rightarrow> block) \<Rightarrow> bool" where
  "taken v s c v' \<longleftrightarrow> v' (of_nat c) = replicate BSIZE 0 \<and> (\<forall>b < nblk s. used v' s b \<longleftrightarrow> used v s b \<or> b = c)
     \<and> (\<forall>n. n \<noteq> of_nat c \<and> n \<notin> bblk s ` {..<nblk s} \<longrightarrow> v' n = v n)"

lemma bzero_ok:
  assumes "ftx v d H f" "n \<notin> H" "room (Suc j) (lg f)" "\<not> in_log (lg f) n"
  shows "\<exists>f'. bzero (ldev (lg f)) n f = Inr f' \<and> ftx (v(n := replicate BSIZE 0)) d H f' \<and> room j (lg f') \<and> fs_same f f'"
proof -
  obtain b f1 f2 f3 where "fbread (ldev (lg f)) n f = Inr (b, f1)" "flog_write b (store_data b (replicate BSIZE 0) f1) = Inr f2" "fbrelse b f2 = Inr f3"
      "ftx (v(n := replicate BSIZE 0)) d H f3" "room j (lg f3)" "fs_same f f3"
    using f_access[OF assms(1-3)] assms(4) by blast
  then show ?thesis by (simp add: bzero_def)
qed

lemma free_block:
  assumes "bitmap_ok v l s" "c < nblk s" "\<not> used v s c"
  shows "c \<noteq> 0" "\<not> in_log l (of_nat c)" "of_nat c \<notin> bblk s ` {..<nblk s}"
  using assms by (auto simp: bitmap_ok_def)

lemma balloc_loop_ok:
  assumes "ftx v d H f" "room 2 (lg f)" "layout_ok (lg f) (sb f)" "bitmap_ok v (lg f) (sb f)" "H \<inter> bblk (sb f) ` {..<nblk (sb f)} = {}"
    "\<forall>c < nblk (sb f). of_nat c \<in> H \<longrightarrow> used v (sb f) c" "BPB dvd b"
  shows "case find (\<lambda>c. \<not> used v (sb f) c) [b..<nblk (sb f)] of
      None \<Rightarrow> \<exists>f'. balloc_loop (ldev (lg f)) b f = Inr (0, f') \<and> ftx v d H f' \<and> fs_same f f' \<and> lg f' = lg f
    | Some c \<Rightarrow> \<exists>f' v'. balloc_loop (ldev (lg f)) b f = Inr (of_nat c, f') \<and> ftx v' d H f' \<and> fs_same f f' \<and> taken v (sb f) c v'
        \<and> room 0 (lg f') \<and> (\<forall>n. length (v n) = BSIZE \<longrightarrow> length (v' n) = BSIZE)"
  using assms
proof (induction "nblk (sb f) - b" arbitrary: b f rule: less_induct)
  case less
  let ?s = "sb f" and ?N = "nblk (sb f)" and ?D = "ldev (lg f)"
  show ?case
  proof (cases "b < ?N")
    case False
    then show ?thesis using less.prems by (simp add: balloc_loop.simps[of ?D b f] nblk_def)
  next
    case True
    define m where "m = min BPB (?N - b)"
    have div: "(b + i) div BPB = b div BPB" "(b + i) mod BPB = i" if "i < BPB" for i
      using less.prems(7) that by (auto simp: div_mult2_eq)
    have blk: "bblk ?s (b + i) = bblk ?s b" if "i < m" for i
      using bblk_eq[OF less.prems(3), of "b + i" b] that div(1)[of i] True div(1)[of 0] by (auto simp: m_def BPB_num)
    have us: "used v ?s (b + i) \<longleftrightarrow> bit_used (v (bblk ?s b)) i" if "i < m" for i
      using blk[OF that] div(2)[of i] that by (simp add: used_def m_def)
    have sp: "[b..<?N] = map (\<lambda>i. b + i) [0..<m] @ [b + m..<?N]"
    proof -
      have "map (\<lambda>i. b + i) [0..<m] = [b..<b + m]" using map_add_upt[of b m] by (simp add: add.commute)
      moreover have "b + m \<le> ?N" using True by (simp add: m_def)
      ultimately show ?thesis using upt_add_eq_append[of b "b + m" "?N - (b + m)"] by simp
    qed
    have fd: "find (\<lambda>c. \<not> used v ?s c) (map (\<lambda>i. b + i) [0..<m]) = map_option (\<lambda>i. b + i) (balloc_scan (v (bblk ?s b)) b ?N)"
      unfolding find_map balloc_scan_def m_def[symmetric] using us by (auto intro!: arg_cong[of _ _ "map_option _"] find_cong)
    have nH: "bblk ?s b \<notin> H" "\<not> in_log (lg f) (bblk ?s b)" using less.prems(3,5) True by (auto simp: layout_ok_def)
    obtain bp f1 where f1: "fbread ?D (bblk ?s b) f = Inr (bp, f1)" "data_of bp f1 = v (bblk ?s b)" "fs_same f f1" "lg f1 = lg f"
        "\<exists>f2. fbrelse bp f1 = Inr f2 \<and> ftx v d H f2 \<and> fs_same f f2 \<and> lg f2 = lg f"
        "\<And>x. \<exists>f2 f3. flog_write bp (store_data bp x f1) = Inr f2 \<and> fbrelse bp f2 = Inr f3 \<and> ftx (v(bblk ?s b := x)) d H f3 \<and> room 1 (lg f3) \<and> fs_same f f3"
      using f_access[OF less.prems(1) nH(1) less.prems(2)] nH(2) by (auto simp: numeral_2_eq_2)
    show ?thesis
    proof (cases "balloc_scan (v (bblk ?s b)) b ?N")
      case None
      obtain f2 where f2: "fbrelse bp f1 = Inr f2" "ftx v d H f2" "fs_same f f2" "lg f2 = lg f" using f1(5) by blast
      have run: "balloc_loop ?D b f = balloc_loop ?D (b + BPB) f2"
        using True f1(1,2) f2(1) None by (subst balloc_loop.simps) (simp add: nblk_def bblk_def)
      have same: "sb f2 = ?s" using f2(3) by (simp add: fs_same_def)
      have rest: "find (\<lambda>c. \<not> used v ?s c) [b..<?N] = find (\<lambda>c. \<not> used v ?s c) [b + BPB..<?N]"
        unfolding sp find_append fd None by (cases "BPB \<le> ?N - b") (auto simp: m_def)
      have "?N - (b + BPB) < ?N - b" using True by (simp add: BPB_num)
      moreover have "BPB dvd b + BPB" using less.prems(7) by simp
      ultimately have "case find (\<lambda>c. \<not> used v ?s c) [b + BPB..<?N] of
          None \<Rightarrow> \<exists>f'. balloc_loop ?D (b + BPB) f2 = Inr (0, f') \<and> ftx v d H f' \<and> fs_same f2 f' \<and> lg f' = lg f
        | Some c \<Rightarrow> \<exists>f' v'. balloc_loop ?D (b + BPB) f2 = Inr (of_nat c, f') \<and> ftx v' d H f' \<and> fs_same f2 f' \<and> taken v ?s c v'
            \<and> room 0 (lg f') \<and> (\<forall>n. length (v n) = BSIZE \<longrightarrow> length (v' n) = BSIZE)"
        using less.hyps[of f2 "b + BPB"] f2(2,4) less.prems(2-6) unfolding same f2(4) by simp
      then show ?thesis unfolding rest run using fs_same_trans[OF f2(3)] by (fastforce split: option.splits)
    next
      case (Some bi)
      define c where "c = b + bi"
      have bi: "bi < m" "\<not> bit_used (v (bblk ?s b)) bi" using Some by (auto simp: balloc_scan_def m_def dest!: find_SomeD)
      then have c: "c < ?N" "\<not> used v ?s c" "bblk ?s b = bblk ?s c" "c mod BPB = bi"
        using us blk div(2)[of bi] True by (auto simp: c_def m_def)
      note F = free_block[OF less.prems(4) c(1,2)]
      define x where "x = (v (bblk ?s b))[bi div 8 := v (bblk ?s b) ! (bi div 8) OR push_bit (bi mod 8) 1]"
      obtain f2 f3 where f3: "flog_write bp (store_data bp x f1) = Inr f2" "fbrelse bp f2 = Inr f3" "ftx (v(bblk ?s b := x)) d H f3"
          "room 1 (lg f3)" "fs_same f f3" using f1(6)[of x] by blast
      note S = fs_sameD[OF f3(5)]
      have "of_nat c \<notin> H" using less.prems(6) c(1,2) by blast
      then obtain f4 where f4: "bzero ?D (of_nat c) f3 = Inr f4" "ftx (v(bblk ?s b := x, of_nat c := replicate BSIZE 0)) d H f4" "room 0 (lg f4)" "fs_same f3 f4"
        using bzero_ok[OF f3(3), of "of_nat c" 0] f3(4) F(2) S(4,5) by (auto simp: One_nat_def)
      define v' where "v' = v(bblk ?s b := x, of_nat c := replicate BSIZE 0)"
      have "balloc_loop ?D b f = Inr (of_nat c, f4)"
        using True f1(1,2) f3(1,2) f4(1) Some by (subst balloc_loop.simps) (simp add: nblk_def bblk_def x_def c_def Let_def)
      moreover have "taken v ?s c v'"
      proof -
        have len: "length (v (bblk ?s c)) = BSIZE" using less.prems(4) c(1) by (simp add: bitmap_ok_def)
        have "used v' ?s e \<longleftrightarrow> used v ?s e \<or> e = c" if "e < ?N" for e
        proof -
          have "bblk ?s e \<noteq> of_nat c" using F(3) that by (metis imageI lessThan_iff)
          then have "used v' ?s e = used (v(bblk ?s c := x)) ?s e" by (simp add: used_def v'_def c(3))
          then show ?thesis using used_upd(1)[OF less.prems(3) c(1) that, where v = v, OF len] unfolding x_def c(3) c(4) by simp
        qed
        then show ?thesis using c(1,3) by (auto simp: taken_def v'_def)
      qed
      moreover have "length (v' n) = BSIZE" if "length (v n) = BSIZE" for n using that by (auto simp: v'_def x_def)
      moreover have "find (\<lambda>c. \<not> used v ?s c) [b..<?N] = Some c" unfolding sp find_append fd Some by (simp add: c_def)
      ultimately show ?thesis using f4 fs_same_trans[OF f3(5) f4(4)] unfolding v'_def by auto
    qed
  qed
qed

lemma taken_bitmap_ok:
  assumes "taken v s c v'" "bitmap_ok v l s" "\<forall>n. length (v n) = BSIZE \<longrightarrow> length (v' n) = BSIZE"
  shows "bitmap_ok v' l s"
  using assms by (auto simp: bitmap_ok_def taken_def)

lemma bitmap_ok_cong: "in_log l' = in_log l \<Longrightarrow> bitmap_ok v l' s = bitmap_ok v l s" "in_log l' = in_log l \<Longrightarrow> layout_ok l' s = layout_ok l s"
  by (simp_all add: bitmap_ok_def layout_ok_def)

section \<open>Freeing\<close>

lemma bfree_ok:
  assumes t: "ftx v d H f" "room (Suc j) (lg f)" and ok: "layout_ok (lg f) (sb f)" "bitmap_ok v (lg f) (sb f)" and b: "b < nblk (sb f)" "bblk (sb f) b \<notin> H"
  shows "if used v (sb f) b
    then \<exists>f' v'. bfree (ldev (lg f)) (of_nat b) f = Inr f' \<and> ftx v' d H f' \<and> fs_same f f' \<and> room j (lg f')
      \<and> (\<forall>c < nblk (sb f). used v' (sb f) c \<longleftrightarrow> used v (sb f) c \<and> c \<noteq> b) \<and> (\<forall>n. n \<notin> bblk (sb f) ` {..<nblk (sb f)} \<longrightarrow> v' n = v n)
    else bfree (ldev (lg f)) (of_nat b) f = Inl (Panic ''freeing free block'')"
proof -
  let ?s = "sb f" and ?D = "ldev (lg f)" and ?n = "bblk (sb f) b"
  have len: "length (v ?n) = BSIZE" using ok(2) b(1) by (simp add: bitmap_ok_def)
  have un: "unat (of_nat b :: uint) mod BPB = b mod BPB" using ok(1) b(1) by (simp add: layout_ok_def unat_of_nat)
  have nl: "\<not> in_log (lg f) ?n" using ok(1) b(1) by (simp add: layout_ok_def)
  obtain bp f1 where f1: "fbread ?D ?n f = Inr (bp, f1)" "data_of bp f1 = v ?n"
      "\<And>x. \<exists>f2 f3. flog_write bp (store_data bp x f1) = Inr f2 \<and> fbrelse bp f2 = Inr f3 \<and> ftx (v(?n := x)) d H f3 \<and> room j (lg f3) \<and> fs_same f f3"
    using f_access[OF t(1) b(2) t(2)] nl by auto
  let ?bi = "b mod BPB"
  define x where "x = (v ?n)[?bi div 8 := v ?n ! (?bi div 8) AND NOT (push_bit (?bi mod 8) 1)]"
  obtain f2 f3 where f3: "flog_write bp (store_data bp x f1) = Inr f2" "fbrelse bp f2 = Inr f3" "ftx (v(?n := x)) d H f3" "room j (lg f3)" "fs_same f f3"
    using f1(3)[of x] by blast
  have run: "bfree ?D (of_nat b) f = (if used v ?s b then Inr f3 else Inl (Panic ''freeing free block''))"
    using f1(1,2) f3(1,2) un by (simp add: bfree_def bblk_def used_def x_def Let_def)
  have "used (v(?n := x)) ?s c \<longleftrightarrow> used v ?s c \<and> c \<noteq> b" if "c < nblk ?s" for c
    using used_upd(2)[OF ok(1) b(1) that, where v = v, OF len] by (simp add: x_def)
  moreover have "(v(?n := x)) n = v n" if "n \<notin> bblk ?s ` {..<nblk ?s}" for n using that b(1) by auto
  ultimately show ?thesis unfolding run using f3 by (auto intro!: exI[of _ "v(?n := x)"] simp del: fun_upd_apply)
qed

end
