(* ===== verification/Fs_Dinode.thy ===== *)
theory Fs_Dinode
  imports Fs_Alloc
begin

unbundle bit_operations_syntax

text \<open>Inodes in their disk blocks: what \<open>iupdate\<close> stores, \<open>ilock\<close> reads back.\<close>

section \<open>Fields of a block\<close>

lemma length_put16 [simp]: "length (put16 k v b) = length b"
  by (simp add: put16_def)

lemma join_halves: "ucast (ucast v :: byte) OR push_bit 8 (ucast (ucast (drop_bit 8 v) :: byte)) = (v :: ushort)"
  (is "?l = v")
proof (rule bit_word_eqI)
  fix n
  assume n: "n < LENGTH(16)"
  then consider "n < 8" | "8 \<le> n" "n < 16" by fastforce
  then show "bit ?l n = bit v n" by cases (auto simp: bit_simps)
qed

lemma get16_put16: "k + 1 < length b \<Longrightarrow> get16 (put16 k v b) k = v"
  using join_halves[of v] by (simp add: get16_def put16_def nth_list_update)

lemma get16_apart:
  "k + 2 \<le> j \<or> j + 2 \<le> k \<Longrightarrow> get16 (put16 k v b) j = get16 b j"
  "4 * n + 4 \<le> j \<or> j + 2 \<le> 4 * n \<Longrightarrow> get16 (put32 n w b) j = get16 b j"
  "k + 2 \<le> 4 * n \<or> 4 * n + 4 \<le> k \<Longrightarrow> get32 (put16 k v b) n = get32 b n"
  by (auto simp: get16_def put16_def get32_def put32_def)

text \<open>A run of 32-bit words.\<close>

definition put_words :: "nat \<Rightarrow> (nat \<Rightarrow> uint) \<Rightarrow> nat \<Rightarrow> block \<Rightarrow> block" where
  "put_words c w m d = fold (\<lambda>k. put32 (c + k) (w k)) [0..<m] d"

lemma put_words_Suc: "put_words c w 0 d = d" "put_words c w (Suc m) d = put32 (c + m) (w m) (put_words c w m d)"
  by (simp_all add: put_words_def)

lemma put_words_facts:
  shows "length (put_words c w m d) = length d" "4 * (c + m) \<le> length d \<Longrightarrow> get32 (put_words c w m d) x = (if c \<le> x \<and> x < c + m then w (x - c) else get32 d x)"
    "j + 2 \<le> 4 * c \<or> 4 * (c + m) \<le> j \<Longrightarrow> get16 (put_words c w m d) j = get16 d j"
proof (induction m)
  case (Suc m)
  {
    case 1
    then show ?case using Suc.IH(1) by (simp add: put_words_Suc)
  next
    case 2
    then show ?case using Suc.IH(1,2) by (auto simp: put_words_Suc get32_put32)
  next
    case 3
    then show ?case using Suc.IH(3) by (auto simp: put_words_Suc get16_apart)
  }
qed (auto simp: put_words_Suc)

section \<open>Inodes\<close>

lemma store_inode_words:
  "store_inode ip o1 d = put_words (o1 div 4 + 3) (\<lambda>k. addrs ip ! k) (NDIRECT + 1) (put32 (o1 div 4 + 2) (isize ip) (put16 (o1 + 6) (nlink ip)
     (put16 (o1 + 4) (iminor ip) (put16 (o1 + 2) (imajor ip) (put16 o1 (itype ip) d)))))"
  by (simp add: store_inode_def put_words_def)

definition disk_fields :: "inode \<Rightarrow> ushort \<times> ushort \<times> ushort \<times> ushort \<times> uint \<times> uint list" where
  "disk_fields ip = (itype ip, imajor ip, iminor ip, nlink ip, isize ip, addrs ip)"

lemma length_store_inode [simp]: "length (store_inode ip o1 d) = length d"
  by (simp add: store_inode_words put_words_facts)

lemma load_store_inode:
  assumes "length d = BSIZE" "length (addrs ip) = NDIRECT + 1" "n < IPB" "m < IPB"
  shows "disk_fields (load_inode (store_inode ip (64 * n) d) (64 * m) jp) = (if m = n then disk_fields ip else disk_fields (load_inode d (64 * m) jp))"
proof -
  have b: "64 * n + 64 \<le> length d" using assms(1,3) by (simp add: IPB_def BSIZE_def)
  have div: "64 * n div 4 = 16 * n" "64 * m div 4 = 16 * m" by simp_all
  note F = store_inode_words put_words_facts get16_apart get16_put16 get32_put32 div NDIRECT_def
  show ?thesis
  proof (cases "m = n")
    case True
    let ?s = "store_inode ip (64 * n) d"
    have w: "get32 ?s (16 * n + 3 + k) = addrs ip ! k" if "k < Suc NDIRECT" for k using b that by (simp add: F)
    have "map (\<lambda>k. get32 ?s (16 * n + 3 + k)) [0..<Suc NDIRECT] = addrs ip"
      using assms(2) w by (intro nth_equalityI) (simp_all del: upt_Suc)
    moreover have "get16 ?s (64 * n) = itype ip" "get16 ?s (64 * n + 2) = imajor ip" "get16 ?s (64 * n + 4) = iminor ip" "get16 ?s (64 * n + 6) = nlink ip"
        "get32 ?s (16 * n + 2) = isize ip"
      using b by (simp_all add: F)
    ultimately show ?thesis using True by (simp add: load_inode_def disk_fields_def div del: upt_Suc)
  next
    case False
    then have far: "64 * n + 64 \<le> 64 * m \<or> 64 * m + 64 \<le> 64 * n" by auto
    let ?s = "store_inode ip (64 * n) d"
    have "get32 ?s (16 * m + 3 + k) = get32 d (16 * m + 3 + k)" if "k < Suc NDIRECT" for k using far that b by (auto simp: F)
    then have "map (\<lambda>k. get32 ?s (16 * m + 3 + k)) [0..<Suc NDIRECT] = map (\<lambda>k. get32 d (16 * m + 3 + k)) [0..<Suc NDIRECT]"
      by (intro nth_equalityI) (simp_all del: upt_Suc)
    moreover have "get16 ?s (64 * m) = get16 d (64 * m)" "get16 ?s (64 * m + 2) = get16 d (64 * m + 2)" "get16 ?s (64 * m + 4) = get16 d (64 * m + 4)"
        "get16 ?s (64 * m + 6) = get16 d (64 * m + 6)" "get32 ?s (16 * m + 2) = get32 d (16 * m + 2)"
      using far b by (auto simp: F)
    ultimately show ?thesis using False by (simp add: load_inode_def disk_fields_def div del: upt_Suc)
  qed
qed

lemma dinode_at_eq: "dinode_at n = 64 * (unat n mod IPB)" "unat n mod IPB < IPB"
  by (simp_all add: dinode_at_def IPB_def BSIZE_def)

lemma iupdate_stores:
  assumes t: "ftx v d {} f" "room 1 (lg f)" and i: "i < length (itable f)" and ip: "ip = itable f ! i" "idev ip = ldev (lg f)"
    and n: "n = IBLOCK (inum ip) (sb f)" "\<not> in_log (lg f) n"
  shows "\<exists>f'. iupdate i f = Inr f' \<and> ftx (v(n := store_inode ip (dinode_at (inum ip)) (v n))) d {} f' \<and> fs_same f f' \<and> room 0 (lg f')"
proof -
  obtain b f1 f2 f3 where "fbread (ldev (lg f)) n f = Inr (b, f1)" "data_of b f1 = v n"
      "flog_write b (store_data b (store_inode ip (dinode_at (inum ip)) (v n)) f1) = Inr f2" "fbrelse b f2 = Inr f3"
      "ftx (v(n := store_inode ip (dinode_at (inum ip)) (v n))) d {} f3" "room 0 (lg f3)" "fs_same f f3"
    using f_access[OF t(1) _ t(2)] n(2) by (metis One_nat_def empty_iff)
  then show ?thesis using i ip n by (auto simp: iupdate_def geti_def)
qed

lemma ilock_loads:
  assumes t: "ftx v d {} f" "room 0 (lg f)" and j: "j < length (itable f)" and jp: "jp = itable f ! j" "idev jp = ldev (lg f)" "iref jp \<ge> 1" "\<not> ilocked jp" "\<not> ivalid jp"
    and ty: "get16 (v (IBLOCK (inum jp) (sb f))) (dinode_at (inum jp)) \<noteq> 0"
  shows "\<exists>f'. ilock j f = Inr f' \<and> ftx v d {} f' \<and> disk_fields (itable f' ! j) = disk_fields (load_inode (v (IBLOCK (inum jp) (sb f))) (dinode_at (inum jp)) jp)
    \<and> ivalid (itable f' ! j) \<and> ilocked (itable f' ! j)"
proof -
  let ?g = "seti j (\<lambda>ip. ip\<lparr>ilocked := True\<rparr>) f" and ?n = "IBLOCK (inum jp) (sb f)"
  have g: "ftx v d {} ?g" "lg ?g = lg f" "sb ?g = sb f" using t(1) by (simp_all add: ftx_def seti_def)
  obtain b f1 f2 where r: "fbread (ldev (lg f)) ?n ?g = Inr (b, f1)" "data_of b f1 = v ?n" "fs_same ?g f1" "lg f1 = lg f" "fbrelse b f1 = Inr f2" "ftx v d {} f2"
    using f_access[OF g(1), of ?n 0] t(2) g(2) by auto
  let ?h = "\<lambda>f. seti j (load_inode (v ?n) (dinode_at (inum jp))) f"
  have rel: "fbrelse b (?h f1) = Inr (?h f2)" "itable f2 = itable f1" using r(5) by (auto simp: fbrelse_def seti_def bnd_eq_Inr)
  have tab: "itable f2 = (itable f)[j := jp\<lparr>ilocked := True\<rparr>]" using r(3) rel(2) jp(1) by (simp add: fs_same_def seti_def)
  define f3 where "f3 = seti j (\<lambda>ip. ip\<lparr>ivalid := True\<rparr>) (?h f2)"
  have e: "itable f3 ! j = (load_inode (v ?n) (dinode_at (inum jp)) (jp\<lparr>ilocked := True\<rparr>))\<lparr>ivalid := True\<rparr>"
    using tab j by (simp add: f3_def seti_def)
  have "itype (itable f3 ! j) \<noteq> 0" using e ty by (simp add: load_inode_def)
  then have "ilock j f = Inr f3"
    using r(1,2) rel(1) jp(2-5) j unfolding f3_def by (simp add: ilock_def geti_def iacquiresleep_def Let_def g(3) jp(1)[symmetric])
  moreover have "ftx v d {} f3" using r(6) by (simp add: ftx_def f3_def seti_def)
  ultimately show ?thesis using e by (auto simp: disk_fields_def load_inode_def)
qed

end
