(* ===== verification/Fs_View.thy ===== *)
theory Fs_View
  imports Fs
begin

text \<open>
  What the file system's operations leave alone, proved once for every view of the state that does not
  depend on buffers, the log or the parts of inodes that are copies of the disk. \<open>Fs_Inode\<close> uses it for the
  identities and reference counts of the inode table, \<open>File_Refs\<close> for the process table.
\<close>

definition ikey :: "inode \<Rightarrow> (uint \<times> uint) \<times> int" where
  "ikey ip = ((idev ip, inum ip), iref ip)"

lemma either_copy_procs:
  "either_copyout usr dst src n k = Inr (r, k') \<Longrightarrow> procs k' = procs k \<and> cur k' = cur k"
  "either_copyin dst usr src n k = Inr (r, k') \<Longrightarrow> procs k' = procs k \<and> cur k' = cur k"
  by (auto simp: either_copyout_def either_copyin_def bnd_eq_Inr split: if_splits)

section \<open>Views\<close>

locale fs_view =
  fixes view :: "fsys \<Rightarrow> 'k"
  assumes view_bc: "view (f\<lparr>bc := s\<rparr>) = view f"
    and view_lg: "view (f\<lparr>lg := l\<rparr>) = view f"
    and view_kn: "procs k = procs (kn f) \<and> cur k = cur (kn f) \<Longrightarrow> view (f\<lparr>kn := k\<rparr>) = view f"
    and view_inode: "(\<And>ip. ikey (g ip) = ikey ip) \<Longrightarrow> view (seti i g f) = view f"
begin

definition kept :: "'k \<Rightarrow> ('a \<Rightarrow> fsys) \<Rightarrow> 'a result \<Rightarrow> bool" where
  "kept K st r \<longleftrightarrow> (\<forall>x. r = Inr x \<longrightarrow> view (st x) = K)"

lemma keptD: "kept (view f) st r \<Longrightarrow> r = Inr x \<Longrightarrow> view (st x) = view f"
  by (simp add: kept_def)

named_theorems keep \<open>rules for computations that leave the view alone\<close>

lemma view_simps [simp]:
  "view (f\<lparr>bc := s\<rparr>) = view f" "view (f\<lparr>lg := l\<rparr>) = view f" "view (f\<lparr>lg := l, bc := s\<rparr>) = view f" "view (with_mem m f) = view f" "view (store_data b x f) = view f"
  by (simp_all add: view_bc view_lg view_kn with_mem_def store_data_def)

lemma view_fields [simp]:
  "view (seti i (\<lambda>ip. ip\<lparr>addrs := a ip\<rparr>) f) = view f" "view (seti i (\<lambda>ip. ip\<lparr>isize := z\<rparr>) f) = view f"
  "view (seti i (\<lambda>ip. ip\<lparr>itype := t\<rparr>) f) = view f" "view (seti i (\<lambda>ip. ip\<lparr>ivalid := v\<rparr>) f) = view f"
  "view (seti i (\<lambda>ip. ip\<lparr>ivalid := v, ilocked := l\<rparr>) f) = view f" "view (seti i (\<lambda>ip. ip\<lparr>ilocked := l\<rparr>) f) = view f"
  "view (seti i (\<lambda>ip. ip\<lparr>nlink := n ip\<rparr>) f) = view f" "view (seti i (\<lambda>ip. ip\<lparr>nlink := n', iminor := m', imajor := m\<rparr>) f) = view f"
  "view (seti i (load_inode d k) f) = view f"
  by (simp_all add: view_inode ikey_def load_inode_def)

lemma kept_Inr [keep]: "view (st x) = K \<Longrightarrow> kept K st (Inr x)" "kept K st (Inl e)"
  by (simp_all add: kept_def)

lemma kept_bnd [keep]:
  "kept K id r \<Longrightarrow> (\<And>f. view f = K \<Longrightarrow> kept K st (g f)) \<Longrightarrow> kept K st (bnd r g)"
  "kept K snd q \<Longrightarrow> (\<And>a f. view f = K \<Longrightarrow> kept K st (h (a, f))) \<Longrightarrow> kept K st (bnd q h)"
  by (auto simp: kept_def bnd_eq_Inr)

lemma kept_bnd_inode [keep]:
  fixes r :: "inode result"
  shows "(\<And>ip. kept K st (g ip)) \<Longrightarrow> kept K st (bnd r g)"
  by (auto simp: kept_def bnd_eq_Inr)

lemma kept_bnd_copy [keep]:
  "view f = K \<Longrightarrow> (\<And>a k. view (f\<lparr>kn := k\<rparr>) = K \<Longrightarrow> kept K st (h (a, k))) \<Longrightarrow> kept K st (bnd (either_copyout usr dst src n (kn f)) h)"
  "view f = K \<Longrightarrow> (\<And>a k. view (f\<lparr>kn := k\<rparr>) = K \<Longrightarrow> kept K st (h (a, k))) \<Longrightarrow> kept K st (bnd (either_copyin dst usr src n (kn f)) h)"
  by (auto simp: kept_def bnd_eq_Inr dest!: either_copy_procs view_kn)

lemma kept_if [keep]: "(b \<Longrightarrow> kept K st x) \<Longrightarrow> (\<not> b \<Longrightarrow> kept K st y) \<Longrightarrow> kept K st (if b then x else y)"
  by simp

lemma kept_case:
  "kept K snd q \<Longrightarrow> (\<And>a f. q = Inr (a, f) \<Longrightarrow> view f = K \<Longrightarrow> kept K st (h a f)) \<Longrightarrow> kept K st (case q of Inl e \<Rightarrow> Inl e | Inr (a, f) \<Rightarrow> h a f)"
  "kept K id r \<Longrightarrow> (\<And>f. r = Inr f \<Longrightarrow> view f = K \<Longrightarrow> kept K st (g f)) \<Longrightarrow> kept K st (case r of Inl e \<Rightarrow> Inl e | Inr f \<Rightarrow> g f)"
  "(o1 = None \<Longrightarrow> kept K st x) \<Longrightarrow> (\<And>a. o1 = Some a \<Longrightarrow> kept K st (y a)) \<Longrightarrow> kept K st (case o1 of None \<Rightarrow> x | Some a \<Rightarrow> y a)"
  by (auto simp: kept_def split: sum.splits option.splits)

lemma kept_for_each [keep]:
  assumes "view f = K" "\<And>j f. view f = K \<Longrightarrow> kept K id (g j f)"
  shows "kept K id (for_each g xs f)"
  using assms(1)
proof (induction xs arbitrary: f)
  case (Cons x xs)
  show ?case unfolding for_each.simps by (intro keep assms(2) Cons)
qed (simp add: kept_def)

lemma block_ops_kept [keep]:
  "view f = K \<Longrightarrow> kept K snd (fbread dev n f)" "view f = K \<Longrightarrow> kept K id (fbrelse b f)" "view f = K \<Longrightarrow> kept K id (flog_write b f)"
  by (auto simp: fbread_def fbrelse_def flog_write_def bnd_eq_Inr kept_def)

lemma bzero_kept [keep]: "view f = K \<Longrightarrow> kept K id (bzero dev n f)"
  unfolding bzero_def split_def by (intro keep; simp)

lemma balloc_loop_kept: "view f = K \<Longrightarrow> kept K snd (balloc_loop dev b f)"
proof (induction dev b f rule: balloc_loop.induct)
  case (1 dev b f)
  show ?case
    unfolding balloc_loop.simps[of dev b f] Let_def by (intro keep kept_case 1) (simp_all add: 1)
qed

lemma bfree_kept [keep]: "view f = K \<Longrightarrow> kept K snd (balloc dev f)" "view f = K \<Longrightarrow> kept K id (bfree dev b f)"
  unfolding balloc_def bfree_def Let_def split_def by (intro keep balloc_loop_kept; simp)+

lemma ilock_kept [keep]:
  "view f = K \<Longrightarrow> kept K id (iacquiresleep i f)" "view f = K \<Longrightarrow> kept K id (iupdate i f)" "view f = K \<Longrightarrow> kept K id (iunlock i f)"
  unfolding iupdate_def iunlock_def iacquiresleep_def Let_def split_def by (intro keep; simp)+

lemma bmap_kept [keep]:
  "view f = K \<Longrightarrow> kept K id (ilock i f)" "view f = K \<Longrightarrow> kept K snd (bmap i n f)" "view f = K \<Longrightarrow> kept K id (itrunc i f)"
  unfolding ilock_def bmap_def itrunc_def Let_def split_def by (intro keep; simp)+

text \<open>Deleting a file, the first part of \<open>iput\<close>.\<close>

lemma idelete_kept:
  "view f = K \<Longrightarrow> kept K id (bnd (iacquiresleep i f) (\<lambda>f. bnd (itrunc i f) (\<lambda>f. bnd (iupdate i (seti i (\<lambda>ip. ip\<lparr>itype := 0\<rparr>) f)) (\<lambda>f.
     Inr (seti i (\<lambda>ip. ip\<lparr>ivalid := False, ilocked := False\<rparr>) f)))))"
  by (intro keep; simp)

lemma readi_loop_kept: "view f = K \<Longrightarrow> kept K snd (readi_loop ba i usr dst off n tot f)"
proof (induction "unat (n - tot)" arbitrary: dst off tot f rule: less_induct)
  case less
  have IH: "kept K snd (readi_loop ba i usr (dst + ucast (chunk n tot off)) (off + chunk n tot off) n (tot + chunk n tot off) f')"
    if "tot < n" "view f' = K" for f' by (intro less(1) chunk_progress that)
  show ?case
    unfolding readi_loop.simps[of ba i usr dst off n tot] Let_def split_def by (intro keep IH; simp add: less)
qed

lemma kept_bnd3: "kept K (\<lambda>(tot, off, f). f) r \<Longrightarrow> (\<And>a b f. view f = K \<Longrightarrow> kept K st (g (a, b, f))) \<Longrightarrow> kept K st (bnd r g)"
  by (auto simp: kept_def bnd_eq_Inr)

lemma writei_loop_kept: "view f = K \<Longrightarrow> kept K (\<lambda>(tot, off, f). f) (writei_loop ba i usr src off n tot f)"
proof (induction "unat (n - tot)" arbitrary: src off tot f rule: less_induct)
  case less
  have IH: "kept K (\<lambda>(tot, off, f). f) (writei_loop ba i usr (src + ucast (chunk n tot off)) (off + chunk n tot off) n (tot + chunk n tot off) f')"
    if "tot < n" "view f' = K" for f' by (intro less(1) chunk_progress that)
  show ?case
    unfolding writei_loop.simps[of ba i usr src off n tot] Let_def split_def by (intro keep IH[unfolded split_def]; simp add: less)
qed

lemma readi_kept [keep]: "view f = K \<Longrightarrow> kept K snd (readi ba i usr dst off n f)" "view f = K \<Longrightarrow> kept K snd (writei ba i usr src off n f)"
  unfolding readi_def writei_def Let_def split_def by (intro keep kept_bnd3 readi_loop_kept writei_loop_kept; simp)+

end

section \<open>Views that ignore the inode table\<close>

locale fs_table_view = fs_view +
  assumes view_seti: "view (seti i g f) = view f"
begin

lemmas view_seti_simp [simp] = view_seti

lemma iget_kept [keep]: "view f = K \<Longrightarrow> kept K snd (iget dev n f)" "view f = K \<Longrightarrow> kept K snd (idup i f)"
  unfolding iget_def idup_def by (intro keep kept_case; simp)+

lemma ialloc_loop_kept: "view f = K \<Longrightarrow> kept K snd (ialloc_loop dev ty n f)"
proof (induction dev ty n f rule: ialloc_loop.induct)
  case (1 dev ty n f)
  show ?case
    unfolding ialloc_loop.simps[of dev ty n f] Let_def split_def by (intro keep kept_case[unfolded split_def] 1) (simp_all add: 1)
qed

lemma iput_kept [keep]:
  "view f = K \<Longrightarrow> kept K snd (ialloc dev ty f)" "view f = K \<Longrightarrow> kept K id (iput i f)" "view f = K \<Longrightarrow> kept K id (iunlockput i f)"
  unfolding ialloc_def iput_def iunlockput_def by (intro keep ialloc_loop_kept; simp)+

lemma dirlookup_loop_kept: "view f = K \<Longrightarrow> kept K snd (dirlookup_loop ba da dp nm nsz off f)"
proof (induction "nsz - off" arbitrary: off f rule: less_induct)
  case less
  have IH: "kept K snd (dirlookup_loop ba da dp nm nsz (off + 16) f')" if "off < nsz" "view f' = K" for f' using that by (intro less(1)) auto
  show ?case
    unfolding dirlookup_loop.simps[of ba da dp nm nsz off] Let_def split_def by (intro keep IH; simp add: less)
qed

lemma dirlink_scan_kept: "view f = K \<Longrightarrow> kept K snd (dirlink_scan ba da dp nsz off f)"
proof (induction "nsz - off" arbitrary: off f rule: less_induct)
  case less
  have IH: "kept K snd (dirlink_scan ba da dp nsz (off + 16) f')" if "off < nsz" "view f' = K" for f' using that by (intro less(1)) auto
  show ?case
    unfolding dirlink_scan.simps[of ba da dp nsz off] Let_def split_def by (intro keep IH; simp add: less)
qed

lemma dirlookup_kept [keep]: "view f = K \<Longrightarrow> kept K snd (dirlookup ba da dp nm f)"
  unfolding dirlookup_def by (intro keep dirlookup_loop_kept; simp)

lemma dirlink_kept [keep]: "view f = K \<Longrightarrow> kept K snd (dirlink ba da dp nm n f)"
  unfolding dirlink_def Let_def split_def by (intro keep kept_case dirlink_scan_kept; simp)

lemma namex_loop_kept: "view f = K \<Longrightarrow> kept K snd (namex_loop ba da par path nm i f)"
proof (induction "length path" arbitrary: path nm i f rule: less_induct)
  case less
  have IH: "kept K snd (namex_loop ba da par q e j f')" if "skipelem path = Some eq" "eq = (e, q)" "view f' = K" for eq e q j f'
    using that skipelem_shorter by (intro less(1)) auto
  show ?case
    unfolding namex_loop.simps[of ba da par path] split_def by (intro keep kept_case IH; simp add: less)
qed

lemma kept_bnd_nat [keep]:
  fixes r :: "nat result" and q :: "proc result"
  shows "(\<And>x. kept K st (g x)) \<Longrightarrow> kept K st (bnd r g)" "(\<And>p. kept K st (h p)) \<Longrightarrow> kept K st (bnd q h)"
  by (auto simp: kept_def bnd_eq_Inr)

lemma namex_kept [keep]: "view f = K \<Longrightarrow> kept K snd (namex ba da path par f)"
  unfolding namex_def split_def by (intro keep kept_case namex_loop_kept; simp)

lemma namei_kept [keep]: "view f = K \<Longrightarrow> kept K snd (namei ba da path f)" "view f = K \<Longrightarrow> kept K snd (nameiparent ba da path f)"
  unfolding namei_def nameiparent_def split_def by (intro keep; simp)+

end

interpretation proc_view: fs_table_view "\<lambda>f. (procs (kn f), cur (kn f))"
  by unfold_locales (simp_all add: seti_def)

end
