(* ===== verification/Fs_Inode.thy ===== *)
theory Fs_Inode
  imports Fs_View
begin

text \<open>
  The inode table: which operations change the identity and the reference counts of its entries, and the
  references held by the kernel's code over any sequence of calls.
\<close>

section \<open>Identity and reference count\<close>

definition ikeys :: "fsys \<Rightarrow> ((uint \<times> uint) \<times> int) list" where
  "ikeys f = map ikey (itable f)"

lemma ikeys_seti: "(\<And>ip. ikey (g ip) = ikey ip) \<Longrightarrow> ikeys (seti i g f) = ikeys f"
  by (simp add: ikeys_def seti_def map_update list_update_same_conv) (metis list_update_id map_update)

interpretation inode_view: fs_view ikeys
  by unfold_locales (simp_all add: ikeys_def, simp add: ikeys_seti flip: ikeys_def)

section \<open>References\<close>

text \<open>The entry of key \<open>k\<close> in use, and the effect of the counting operations on the keys.\<close>

lemma length_ikeys: "length (ikeys f) = length (itable f)"
  by (simp add: ikeys_def)

lemma ikeys_nth: "i < length (itable f) \<Longrightarrow> ikeys f ! i = ((idev (itable f ! i), inum (itable f ! i)), iref (itable f ! i))"
  by (simp add: ikeys_def ikey_def)

lemma ikeys_count: "i < length (itable f) \<Longrightarrow> ikeys (seti i (\<lambda>ip. ip\<lparr>iref := c ip\<rparr>) f) = (ikeys f)[i := (fst (ikeys f ! i), c (itable f ! i))]"
  by (simp add: ikeys_def seti_def map_update ikey_def)

text \<open>Releasing a reference: the count falls by one, whether or not the file is deleted on the way.\<close>

lemma iput_ikeys:
  assumes "iput i f = Inr f'"
  shows "i < length (itable f)" "ikeys f' = (ikeys f)[i := (fst (ikeys f ! i), i32 (snd (ikeys f ! i) - 1))]"
proof -
  show i: "i < length (itable f)" using assms by (auto simp: iput_def geti_def bnd_eq_Inr split: if_splits)
  define body where "body = (if iref (itable f ! i) = 1 \<and> ivalid (itable f ! i) \<and> nlink (itable f ! i) = 0 then
            bnd (iacquiresleep i f) (\<lambda>f.
            bnd (itrunc i f) (\<lambda>f.
            bnd (iupdate i (seti i (\<lambda>ip. ip\<lparr>itype := 0\<rparr>) f)) (\<lambda>f.
              Inr (seti i (\<lambda>ip. ip\<lparr>ivalid := False, ilocked := False\<rparr>) f))))
          else Inr f)"
  have "inode_view.kept (ikeys f) id body" unfolding body_def by (intro inode_view.kept_if inode_view.idelete_kept inode_view.kept_Inr) simp_all
  moreover obtain g where g: "body = Inr g" "f' = seti i (\<lambda>ip. ip\<lparr>iref := i32 (iref ip - 1)\<rparr>) g"
    using assms i unfolding iput_def body_def by (auto simp: geti_def bnd_eq_Inr split: if_splits)
  ultimately have k: "ikeys g = ikeys f" using inode_view.keptD by fastforce
  then have l: "i < length (itable g)" using i by (metis length_ikeys)
  show "ikeys f' = (ikeys f)[i := (fst (ikeys f ! i), i32 (snd (ikeys f ! i) - 1))]"
    using l k ikeys_nth[OF l] by (simp add: g(2) ikeys_count)
qed

lemma idup_ikeys:
  assumes "idup i f = Inr (j, f')"
  shows "j = i" "i < length (itable f)" "ikeys f' = (ikeys f)[i := (fst (ikeys f ! i), i32 (snd (ikeys f ! i) + 1))]"
  using assms by (auto simp: idup_def geti_def bnd_eq_Inr ikeys_count ikeys_nth split: if_splits)

lemma find_upt_SomeD: "find P [0..<n] = Some i \<Longrightarrow> i < n \<and> P i \<and> (\<forall>j < i. \<not> P j)"
  by (auto simp: find_Some_iff)

lemma find_upt_None: "find P [0..<n] = None \<longleftrightarrow> (\<forall>i < n. \<not> P i)"
  by (auto simp: find_None_iff)

lemma iget_ikeys:
  assumes len: "length (itable f) = NINODE" and g: "iget dev n f = Inr (i, f')"
  shows "i < NINODE" "ikeys f' = (ikeys f)[i := ((dev, n), if snd (ikeys f ! i) > 0 then i32 (snd (ikeys f ! i) + 1) else 1)]"
    "snd (ikeys f ! i) > 0 \<and> fst (ikeys f ! i) = (dev, n) \<or> snd (ikeys f ! i) = 0 \<and> (\<forall>j < NINODE. snd (ikeys f ! j) > 0 \<longrightarrow> fst (ikeys f ! j) \<noteq> (dev, n))"
proof -
  consider (hit) "iref (itable f ! i) > 0" "idev (itable f ! i) = dev" "inum (itable f ! i) = n" "i < NINODE" "f' = seti i (\<lambda>ip. ip\<lparr>iref := i32 (iref ip + 1)\<rparr>) f"
    | (miss) "iref (itable f ! i) = 0" "i < NINODE" "f' = seti i (\<lambda>ip. ip\<lparr>idev := dev, inum := n, iref := 1, ivalid := False\<rparr>) f"
        "\<forall>j < NINODE. \<not> (iref (itable f ! j) > 0 \<and> idev (itable f ! j) = dev \<and> inum (itable f ! j) = n)"
    using g by (auto simp: iget_def find_upt_None split: option.splits dest!: find_upt_SomeD)
  then show "i < NINODE" "ikeys f' = (ikeys f)[i := ((dev, n), if snd (ikeys f ! i) > 0 then i32 (snd (ikeys f ! i) + 1) else 1)]"
    "snd (ikeys f ! i) > 0 \<and> fst (ikeys f ! i) = (dev, n) \<or> snd (ikeys f ! i) = 0 \<and> (\<forall>j < NINODE. snd (ikeys f ! j) > 0 \<longrightarrow> fst (ikeys f ! j) \<noteq> (dev, n))"
    by (cases; simp add: len ikeys_count ikeys_nth; simp add: ikeys_def seti_def map_update ikey_def)+
qed

lemma iget_full:
  assumes len: "length (itable f) = NINODE" and g: "iget dev n f = Inl e"
  shows "e = Panic ''iget: no inodes''" "\<forall>j < NINODE. snd (ikeys f ! j) \<noteq> 0 \<and> (snd (ikeys f ! j) > 0 \<longrightarrow> fst (ikeys f ! j) \<noteq> (dev, n))"
  using g by (auto simp: iget_def find_upt_None ikeys_nth len split: option.splits)

section \<open>References held over a sequence of calls\<close>

type_synonym handle = "nat \<times> (uint \<times> uint)"

text \<open>
  One call on the inode table. The second component lists the references the callers hold: the entry a
  pointer names, with the device and inode number it was asked for. Only a held reference is duplicated
  or put back; the counters are C \<open>int\<close>s, so there are fewer than 2^31 - 1 references.
\<close>

inductive istep :: "fsys \<times> handle list \<Rightarrow> fsys \<times> handle list \<Rightarrow> bool" where
  istep_iget: "iget dev n f = Inr (i, f') \<Longrightarrow> length hs < 2 ^ 31 - 1 \<Longrightarrow> istep (f, hs) (f', (i, (dev, n)) # hs)"
| istep_idup: "idup i f = Inr (j, f') \<Longrightarrow> (i, k) \<in> set hs \<Longrightarrow> length hs < 2 ^ 31 - 1 \<Longrightarrow> istep (f, hs) (f', (j, k) # hs)"
| istep_iput: "iput i f = Inr f' \<Longrightarrow> (i, k) \<in> set hs \<Longrightarrow> istep (f, hs) (f', remove1 (i, k) hs)"
| istep_ilock: "ilock i f = Inr f' \<Longrightarrow> istep (f, hs) (f', hs)"
| istep_iunlock: "iunlock i f = Inr f' \<Longrightarrow> istep (f, hs) (f', hs)"
| istep_iupdate: "iupdate i f = Inr f' \<Longrightarrow> istep (f, hs) (f', hs)"
| istep_itrunc: "itrunc i f = Inr f' \<Longrightarrow> istep (f, hs) (f', hs)"
| istep_readi: "readi ba i usr dst off n f = Inr (r, f') \<Longrightarrow> istep (f, hs) (f', hs)"
| istep_writei: "writei ba i usr src off n f = Inr (r, f') \<Longrightarrow> istep (f, hs) (f', hs)"

definition refs_to :: "nat \<Rightarrow> handle list \<Rightarrow> nat" where
  "refs_to i hs = length (filter (\<lambda>h. fst h = i) hs)"

definition refs_ok :: "((uint \<times> uint) \<times> int) list \<Rightarrow> handle list \<Rightarrow> bool" where
  "refs_ok K hs \<longleftrightarrow> length K = NINODE \<and> length hs < 2 ^ 31 \<and> (\<forall>i < NINODE. snd (K ! i) = int (refs_to i hs))
     \<and> (\<forall>h \<in> set hs. fst h < NINODE \<and> fst (K ! fst h) = snd h)
     \<and> (\<forall>i < NINODE. \<forall>j < NINODE. snd (K ! i) > 0 \<and> snd (K ! j) > 0 \<and> fst (K ! i) = fst (K ! j) \<longrightarrow> i = j)"

lemma refs_to_simps [simp]: "refs_to i [] = 0" "refs_to i (h # hs) = (if fst h = i then 1 else 0) + refs_to i hs"
  by (simp_all add: refs_to_def)

lemma refs_to_le: "refs_to i hs \<le> length hs"
  by (simp add: refs_to_def)

lemma refs_to_pos: "refs_to i hs > 0 \<longleftrightarrow> (\<exists>k. (i, k) \<in> set hs)"
  by (force simp: refs_to_def filter_empty_conv)

lemma refs_to_mem: "(i, k) \<in> set hs \<Longrightarrow> refs_to i hs > 0"
  using refs_to_pos by blast

lemma refs_to_remove1:
  assumes "(i, k) \<in> set hs"
  shows "refs_to j (remove1 (i, k) hs) = refs_to j hs - (if j = i then 1 else 0)"
  using assms
proof (induction hs)
  case (Cons h hs)
  have "h \<noteq> (i, k) \<Longrightarrow> refs_to i hs > 0" using Cons.prems refs_to_mem by auto
  then show ?case using Cons by auto
qed simp

text \<open>What a change of entry \<open>i\<close> has to satisfy.\<close>

lemma refs_ok_update:
  assumes ok: "refs_ok K hs" and i: "i < NINODE" and hs': "length hs' < 2 ^ 31" "\<And>j. j \<noteq> i \<Longrightarrow> refs_to j hs' = refs_to j hs" "\<And>h. h \<in> set hs' \<Longrightarrow> fst h \<noteq> i \<Longrightarrow> h \<in> set hs"
    and k: "\<And>h. h \<in> set hs' \<Longrightarrow> fst h = i \<Longrightarrow> snd h = k" "\<And>j. j < NINODE \<Longrightarrow> j \<noteq> i \<Longrightarrow> refs_to j hs > 0 \<Longrightarrow> refs_to i hs' > 0 \<Longrightarrow> fst (K ! j) \<noteq> k"
  shows "refs_ok (K[i := (k, int (refs_to i hs'))]) hs'"
proof -
  define K' where "K' = K[i := (k, int (refs_to i hs'))]"
  have K: "length K = NINODE" "\<And>i. i < NINODE \<Longrightarrow> snd (K ! i) = int (refs_to i hs)" "\<And>h. h \<in> set hs \<Longrightarrow> fst h < NINODE \<and> fst (K ! fst h) = snd h"
      "\<And>i j. i < NINODE \<Longrightarrow> j < NINODE \<Longrightarrow> snd (K ! i) > 0 \<Longrightarrow> snd (K ! j) > 0 \<Longrightarrow> fst (K ! i) = fst (K ! j) \<Longrightarrow> i = j"
    using ok by (auto simp: refs_ok_def)
  have nth: "K' ! j = (if j = i then (k, int (refs_to i hs')) else K ! j)" if "j < NINODE" for j
    using K(1) i that by (simp add: K'_def)
  have "snd (K' ! j) = int (refs_to j hs')" if "j < NINODE" for j using that K(2) hs'(2) by (simp add: nth)
  moreover have "fst h < NINODE \<and> fst (K' ! fst h) = snd h" if h: "h \<in> set hs'" for h
    using K(3)[of h] k(1)[OF h] hs'(3)[OF h] i nth[of "fst h"] by (cases "fst h = i") auto
  moreover have "a = b" if "a < NINODE" "b < NINODE" "snd (K' ! a) > 0" "snd (K' ! b) > 0" "fst (K' ! a) = fst (K' ! b)" for a b
  proof (cases "a = i \<or> b = i")
    case True
    then show ?thesis using that nth[OF that(1)] nth[OF that(2)] k(2)[of a] k(2)[of b] K(2)[of a] K(2)[of b] by (auto split: if_splits)
  next
    case False
    then show ?thesis using that K(4)[of a b] nth[OF that(1)] nth[OF that(2)] by simp
  qed
  moreover have "length K' = NINODE" using K(1) by (simp add: K'_def)
  ultimately show ?thesis using hs'(1) unfolding refs_ok_def K'_def[symmetric] by blast
qed

lemma refs_okD:
  assumes "refs_ok K hs" "i < NINODE"
  shows "snd (K ! i) = int (refs_to i hs)" "(i, k) \<in> set hs \<Longrightarrow> fst (K ! i) = k"
    "j < NINODE \<Longrightarrow> refs_to i hs > 0 \<Longrightarrow> refs_to j hs > 0 \<Longrightarrow> fst (K ! i) = fst (K ! j) \<Longrightarrow> i = j"
  using assms by (auto simp: refs_ok_def)

lemma refs_ok_add:
  assumes ok: "refs_ok K hs" and i: "i < NINODE" "length hs < 2 ^ 31 - 1"
    and k: "refs_to i hs > 0 \<and> fst (K ! i) = k \<or> refs_to i hs = 0 \<and> (\<forall>j < NINODE. refs_to j hs > 0 \<longrightarrow> fst (K ! j) \<noteq> k)"
  shows "refs_ok (K[i := (k, int (refs_to i hs) + 1)]) ((i, k) # hs)"
proof -
  have h: "snd h = k" if "h \<in> set hs" "fst h = i" for h
    using k refs_okD(2)[OF ok i(1), of "snd h"] that refs_to_pos[of i hs] by (cases h) auto
  have d: "fst (K ! j) \<noteq> k" if "j < NINODE" "j \<noteq> i" "refs_to j hs > 0" for j
    using k refs_okD(3)[OF ok i(1) that(1)] that by auto
  have "refs_ok (K[i := (k, int (refs_to i ((i, k) # hs)))]) ((i, k) # hs)"
    by (rule refs_ok_update[OF ok i(1)]) (use i(2) h d in auto)
  then show ?thesis by (simp add: add.commute)
qed

lemma refs_ok_remove:
  assumes ok: "refs_ok K hs" and i: "(i, k) \<in> set hs"
  shows "refs_ok (K[i := (fst (K ! i), int (refs_to i hs) - 1)]) (remove1 (i, k) hs)"
proof -
  have b: "i < NINODE" "length hs < 2 ^ 31" using ok i by (auto simp: refs_ok_def)
  have p: "refs_to i hs > 0" by (rule refs_to_mem[OF i])
  have "refs_ok (K[i := (fst (K ! i), int (refs_to i (remove1 (i, k) hs)))]) (remove1 (i, k) hs)"
  proof (rule refs_ok_update[OF ok b(1)])
    show "length (remove1 (i, k) hs) < 2 ^ 31" using b(2) by (auto simp: length_remove1)
    show "snd h = fst (K ! i)" if h: "h \<in> set (remove1 (i, k) hs)" "fst h = i" for h
    proof -
      have "h = (i, snd h)" using h(2) by (simp add: prod_eq_iff)
      then have "(i, snd h) \<in> set hs" using set_remove1_subset[of "(i, k)" hs] h(1) by auto
      then show ?thesis using refs_okD(2)[OF ok b(1)] by simp
    qed
    show "fst (K ! j) \<noteq> fst (K ! i)" if "j < NINODE" "j \<noteq> i" "refs_to j hs > 0" for j
      using refs_okD(3)[OF ok b(1) that(1) p that(3)] that(2) by auto
    show "h \<in> set hs" if "h \<in> set (remove1 (i, k) hs)" for h using that notin_set_remove1 by fastforce
  qed (simp add: refs_to_remove1[OF i])
  moreover have "int (refs_to i (remove1 (i, k) hs)) = int (refs_to i hs) - 1" using p refs_to_remove1[OF i, of i] by simp
  ultimately show ?thesis by simp
qed

lemma plain_calls_ikeys:
  "ilock i f = Inr f' \<Longrightarrow> ikeys f' = ikeys f" "iunlock i f = Inr f' \<Longrightarrow> ikeys f' = ikeys f" "iupdate i f = Inr f' \<Longrightarrow> ikeys f' = ikeys f"
  "itrunc i f = Inr f' \<Longrightarrow> ikeys f' = ikeys f" "readi ba i usr dst off n f = Inr (r, f') \<Longrightarrow> ikeys f' = ikeys f"
  "writei ba i usr src off n f = Inr (r, f') \<Longrightarrow> ikeys f' = ikeys f"
  using inode_view.bmap_kept(1,3)[OF refl, THEN inode_view.keptD] inode_view.ilock_kept(2,3)[OF refl, THEN inode_view.keptD]
    inode_view.readi_kept[OF refl, THEN inode_view.keptD] by fastforce+

lemma istep_refs_ok:
  assumes "istep s s'" "refs_ok (ikeys (fst s)) (snd s)"
  shows "refs_ok (ikeys (fst s')) (snd s')"
proof -
  have small: "i32 (int (refs_to i hs) + 1) = int (refs_to i hs) + 1" if "length hs < 2 ^ 31 - 1" for i and hs :: "handle list"
    using refs_to_le[of i hs] that by (intro i32_in_range) (simp add: in_int_def INT_MIN_def INT_MAX_def)
  have small': "i32 (int (refs_to i hs) - 1) = int (refs_to i hs) - 1" if "length hs < 2 ^ 31" for i and hs :: "handle list"
    using refs_to_le[of i hs] that by (intro i32_in_range) (simp add: in_int_def INT_MIN_def INT_MAX_def)
  show ?thesis
    using assms
  proof (induction rule: istep.induct)
    case (istep_iget dev n f i f' hs)
    have ok: "refs_ok (ikeys f) hs" using istep_iget by simp
    have "length (itable f) = NINODE" using ok by (simp add: refs_ok_def length_ikeys)
    note G = iget_ikeys[OF this istep_iget(1)]
    note R = refs_okD(1)[OF ok]
    show ?case
      using refs_ok_add[OF ok G(1) istep_iget(2), of "(dev, n)"] G(2,3) R[OF G(1)] R small[OF istep_iget(2), of i] by (auto split: if_splits)
  next
    case (istep_idup i f j f' k hs)
    have ok: "refs_ok (ikeys f) hs" using istep_idup by simp
    note D = idup_ikeys[OF istep_idup(1)]
    have i: "i < NINODE" using ok istep_idup(2) by (auto simp: refs_ok_def)
    have "refs_to i hs > 0" by (rule refs_to_mem[OF istep_idup(2)])
    then show ?case
      using refs_ok_add[OF ok i istep_idup(3), of k] D refs_okD[OF ok i] istep_idup(2) small[OF istep_idup(3), of i] by simp
  next
    case (istep_iput i f f' k hs)
    have ok: "refs_ok (ikeys f) hs" using istep_iput by simp
    have i: "i < NINODE" "length hs < 2 ^ 31" using ok istep_iput(2) by (auto simp: refs_ok_def)
    show ?case
      using refs_ok_remove[OF ok istep_iput(2)] iput_ikeys(2)[OF istep_iput(1)] refs_okD(1)[OF ok i(1)] small'[OF i(2), of i] by simp
  qed (simp_all add: plain_calls_ikeys)
qed

lemma ikeys_iinit: "ikeys (iinit f) = ikeys f"
proof -
  have "ikeys (fold (\<lambda>i. seti i (\<lambda>ip. ip\<lparr>ilocked := False\<rparr>)) xs f) = ikeys f" for xs by (induction xs arbitrary: f) simp_all
  then show ?thesis by (simp add: iinit_def)
qed

lemma istep_reach_refs_ok:
  assumes "length (itable f0) = NINODE" "\<forall>i < NINODE. iref (itable f0 ! i) = 0" "istep\<^sup>*\<^sup>* (iinit f0, []) (f, hs)"
  shows "refs_ok (ikeys f) hs"
proof -
  have "refs_ok (ikeys (iinit f0)) []" using assms(1,2) by (simp add: refs_ok_def ikeys_iinit length_ikeys ikeys_nth)
  then have start: "refs_ok (ikeys (fst (iinit f0, []))) (snd (iinit f0, []))" by simp
  have "refs_ok (ikeys (fst (f, hs))) (snd (f, hs))"
    using assms(3) by (induction rule: rtranclp_induct) (rule start, rule istep_refs_ok)
  then show ?thesis by simp
qed

lemma refs_ok_full:
  assumes "refs_ok K hs" "\<forall>j < NINODE. refs_to j hs > 0"
  shows "card (snd ` set hs) = NINODE"
proof -
  have "snd ` set hs = (\<lambda>j. fst (K ! j)) ` {..<NINODE}"
  proof
    have "snd h \<in> (\<lambda>j. fst (K ! j)) ` {..<NINODE}" if "h \<in> set hs" for h
      using assms(1) that unfolding refs_ok_def by (intro image_eqI[of _ _ "fst h"]) auto
    then show "snd ` set hs \<subseteq> (\<lambda>j. fst (K ! j)) ` {..<NINODE}" by blast
    have "fst (K ! j) \<in> snd ` set hs" if j: "j < NINODE" for j
    proof -
      obtain k where k: "(j, k) \<in> set hs" using assms(2) j refs_to_pos by blast
      then show ?thesis using refs_okD(2)[OF assms(1) j k] by (intro image_eqI[of _ _ "(j, k)"]) auto
    qed
    then show "(\<lambda>j. fst (K ! j)) ` {..<NINODE} \<subseteq> snd ` set hs" by blast
  qed
  moreover have "inj_on (\<lambda>j. fst (K ! j)) {..<NINODE}" using refs_okD(3)[OF assms(1)] assms(2) by (auto simp: inj_on_def)
  ultimately show ?thesis by (simp add: card_image)
qed

end
