(* ===== verification/Fs_Props.thy ===== *)
theory Fs_Props
  imports Fs_Dinode Fs_Inode
begin

text \<open>The properties of the block allocator, inodes and path names.\<close>

section \<open>Blocks\<close>

text \<open>
  C34. Inside a transaction with room for two more blocks, \<open>balloc\<close> finds the least free block of the
  bitmap: it returns its number, marks it used, fills it with zeros, changes no other block outside the
  bitmap and no other bit of the bitmap, and touches neither the disk nor any other state of the file
  system. With no free block it returns 0 and changes nothing the transaction sees.
\<close>

theorem balloc_takes_first_free:
  assumes "ftx v d {} f" "room 2 (lg f)" "layout_ok (lg f) (sb f)" "bitmap_ok v (lg f) (sb f)"
  shows "case find (\<lambda>c. \<not> used v (sb f) c) [0..<nblk (sb f)] of
      None \<Rightarrow> \<exists>f'. balloc (ldev (lg f)) f = Inr (0, f') \<and> ftx v d {} f' \<and> fs_same f f'
    | Some c \<Rightarrow> c \<noteq> 0 \<and> (\<exists>f' v'. balloc (ldev (lg f)) f = Inr (of_nat c, f') \<and> ftx v' d {} f' \<and> fs_same f f' \<and> bitmap_ok v' (lg f') (sb f')
        \<and> v' (of_nat c) = replicate BSIZE 0 \<and> (\<forall>b < nblk (sb f). used v' (sb f) b \<longleftrightarrow> used v (sb f) b \<or> b = c)
        \<and> (\<forall>n. n \<noteq> of_nat c \<and> n \<notin> bblk (sb f) ` {..<nblk (sb f)} \<longrightarrow> v' n = v n))"
proof (cases "find (\<lambda>c. \<not> used v (sb f) c) [0..<nblk (sb f)]")
  case None
  then show ?thesis using balloc_loop_ok[OF assms, of 0] by (auto simp: balloc_def)
next
  case (Some c)
  then have c: "c < nblk (sb f)" "\<not> used v (sb f) c" by (auto dest!: find_SomeD)
  obtain f' v' where f': "balloc (ldev (lg f)) f = Inr (of_nat c, f')" "ftx v' d {} f'" "fs_same f f'" "taken v (sb f) c v'"
      "\<forall>n. length (v n) = BSIZE \<longrightarrow> length (v' n) = BSIZE"
    using balloc_loop_ok[OF assms, of 0] Some by (auto simp: balloc_def)
  have "bitmap_ok v' (lg f') (sb f')"
    using taken_bitmap_ok[OF f'(4) assms(4) f'(5)] bitmap_ok_cong(1)[of "lg f'" "lg f"] fs_sameD[OF f'(3)] by simp
  then show ?thesis using Some f' free_block(1)[OF assms(4) c] by (auto simp: taken_def)
qed

text \<open>A file system of 60 blocks: log in blocks 2 to 31, bitmap in block 45, blocks up to 46 used.\<close>

definition sample_sb :: superblock where
  "sample_sb = \<lparr>sb_magic = FSMAGIC, sb_size = 60, sb_nblocks = 14, sb_ninodes = 200, sb_nlog = 30, sb_logstart = 2, sb_inodestart = 32, sb_bmapstart = 45\<rparr>"

definition sample_blocks :: "uint \<Rightarrow> block" where
  "sample_blocks n = (if n = 45 then replicate 5 255 @ [127] @ replicate 1018 0 else replicate BSIZE 0)"

definition sample_fs :: "kern \<Rightarrow> fsys" where
  "sample_fs k = \<lparr>sb = sample_sb, lg = sample_log, bc = binit sample_blocks, itable = [], kn = k\<rparr>"

lemma sample_nblk: "nblk sample_sb = 60"
  by (simp add: nblk_def sample_sb_def)

lemma sample_bblk: "b < 60 \<Longrightarrow> bblk sample_sb b = 45"
  by (simp add: bblk_def BBLOCK_def BPB_num sample_sb_def word_arith_nat_div unat_of_nat)

lemma sample_used:
  assumes "b < 60"
  shows "used sample_blocks sample_sb b \<longleftrightarrow> b < 47"
proof -
  have "\<forall>b \<in> set [0..<60]. bit_used (replicate 5 255 @ [127] @ replicate 1018 0) b \<longleftrightarrow> b < 47" by code_simp
  moreover have "b \<in> set [0..<60]" using assms by simp
  moreover have "b mod BPB = b" using assms by (simp add: BPB_num)
  ultimately show ?thesis using assms by (simp add: used_def sample_bblk sample_blocks_def)
qed

lemma sample_in_log:
  assumes "c < 60"
  shows "in_log sample_log (of_nat c) \<longleftrightarrow> 2 \<le> c \<and> c < 32"
proof -
  have "(2 \<le> j \<and> j < 32 \<and> (of_nat c :: uint) = of_int j) \<longleftrightarrow> (2 \<le> j \<and> j < 32 \<and> int c = j)" for j
    using of_int_uint_eq[of "int c" j] assms by (cases "2 \<le> j \<and> j < 32") auto
  then show ?thesis unfolding in_sample_log by auto
qed

lemma sample_fs_ok:
  "ftx sample_blocks sample_blocks {} (sample_fs k)" "room 2 sample_log" "layout_ok sample_log sample_sb" "bitmap_ok sample_blocks sample_log sample_sb"
proof -
  have L: "outstanding sample_log = 1" "lh_n sample_log = 0" "lsize sample_log = 30" by (simp_all add: sample_log_def)
  show "ftx sample_blocks sample_blocks {} (sample_fs k)"
    using tst_start[OF sample_log_facts(1)] L by (simp add: ftx_def sample_fs_def)
  show "room 2 sample_log" using L by (simp add: room_def NBUF_def)
  have "\<not> in_log sample_log 45" using sample_in_log[of 45] by simp
  then show "layout_ok sample_log sample_sb"
    by (simp add: layout_ok_def sample_nblk sample_bblk BPB_num) (simp add: sample_sb_def)
  have "(of_nat c :: uint) = 45 \<Longrightarrow> c < 60 \<Longrightarrow> c = 45" for c
    using of_int_uint_eq[of "int c" 45] by simp
  then show "bitmap_ok sample_blocks sample_log sample_sb"
    by (fastforce simp: bitmap_ok_def sample_nblk sample_bblk sample_used sample_in_log sample_blocks_def BSIZE_def)
qed

theorem balloc_takes_first_free_witness:
  "\<forall>k. \<exists>f' v'. balloc 1 (sample_fs k) = Inr (47, f') \<and> ftx v' sample_blocks {} f' \<and> used v' sample_sb 47 \<and> \<not> used v' sample_sb 48"
proof
  fix k
  have e: "sb (sample_fs k) = sample_sb" "lg (sample_fs k) = sample_log" "ldev sample_log = 1" by (simp_all add: sample_fs_def sample_log_def)
  have "find (\<lambda>c. \<not> used sample_blocks sample_sb c) [0..<60] = find (\<lambda>c. \<not> c < 47) [0..<60]"
    by (intro find_cong) (auto simp: sample_used)
  also have "\<dots> = Some 47" by code_simp
  finally obtain f' v' where "balloc 1 (sample_fs k) = Inr (47, f')" "ftx v' sample_blocks {} f'" "\<forall>b < 60. used v' sample_sb b \<longleftrightarrow> used sample_blocks sample_sb b \<or> b = 47"
    using balloc_takes_first_free[of sample_blocks sample_blocks "sample_fs k", unfolded e, OF sample_fs_ok] by (auto simp: sample_nblk)
  then show "\<exists>f' v'. balloc 1 (sample_fs k) = Inr (47, f') \<and> ftx v' sample_blocks {} f' \<and> used v' sample_sb 47 \<and> \<not> used v' sample_sb 48"
    by (intro exI[of _ f'] exI[of _ v']) (simp add: sample_used)
qed

text \<open>
  \<open>bfree\<close> clears exactly the bit of the block it is given, leaving every block outside the bitmap, the
  disk and the rest of the file system as they were, and panics on a block that is not in use.
\<close>

theorem bfree_frees_one:
  assumes "ftx v d {} f" "room 1 (lg f)" "layout_ok (lg f) (sb f)" "bitmap_ok v (lg f) (sb f)" "b < nblk (sb f)"
  shows "if used v (sb f) b
    then \<exists>f' v'. bfree (ldev (lg f)) (of_nat b) f = Inr f' \<and> ftx v' d {} f' \<and> fs_same f f'
      \<and> (\<forall>c < nblk (sb f). used v' (sb f) c \<longleftrightarrow> used v (sb f) c \<and> c \<noteq> b) \<and> (\<forall>n. n \<notin> bblk (sb f) ` {..<nblk (sb f)} \<longrightarrow> v' n = v n)
    else bfree (ldev (lg f)) (of_nat b) f = Inl (Panic ''freeing free block'')"
  using bfree_ok[OF assms(1) _ assms(3-5), of 0] assms(2) by (auto split: if_splits)

theorem bfree_frees_one_witness:
  "\<forall>k. bfree 1 50 (sample_fs k) = Inl (Panic ''freeing free block'')
     \<and> (\<exists>f' v'. bfree 1 46 (sample_fs k) = Inr f' \<and> ftx v' sample_blocks {} f' \<and> \<not> used v' sample_sb 46 \<and> used v' sample_sb 45)"
proof
  fix k
  have e: "sb (sample_fs k) = sample_sb" "lg (sample_fs k) = sample_log" "ldev sample_log = 1" by (simp_all add: sample_fs_def sample_log_def)
  note S = sample_fs_ok
  have r: "room 1 sample_log" by (rule room_mono[OF S(2)]) simp
  note F = bfree_frees_one[of sample_blocks sample_blocks "sample_fs k", unfolded e sample_nblk, OF S(1) r S(3,4)]
  obtain f' v' where "bfree 1 46 (sample_fs k) = Inr f'" "ftx v' sample_blocks {} f'" "\<forall>c < 60. used v' sample_sb c \<longleftrightarrow> used sample_blocks sample_sb c \<and> c \<noteq> 46"
    using F[of 46] by (auto simp: sample_used)
  then show "bfree 1 50 (sample_fs k) = Inl (Panic ''freeing free block'')
     \<and> (\<exists>f' v'. bfree 1 46 (sample_fs k) = Inr f' \<and> ftx v' sample_blocks {} f' \<and> \<not> used v' sample_sb 46 \<and> used v' sample_sb 45)"
    using F[of 50] by (auto simp: sample_used intro!: exI[of _ v'])
qed

section \<open>The inode table\<close>

text \<open>
  C35. After any sequence of calls on the inode table from its initial state, in which references are taken
  by \<open>iget\<close> and \<open>idup\<close> and given back by \<open>iput\<close> (which may delete the file), each entry counts exactly the
  references held on it; a held reference still names the inode it was asked for; two references to the same
  inode are the same entry, so that there is one copy of an inode in memory; and \<open>iget\<close> fails, by panic, only
  when \<open>NINODE\<close> other inodes are held.
\<close>

theorem inode_references:
  assumes "length (itable f0) = NINODE" "\<forall>i < NINODE. iref (itable f0 ! i) = 0" "istep\<^sup>*\<^sup>* (iinit f0, []) (f, hs)"
  shows "(\<forall>i < NINODE. iref (itable f ! i) = int (refs_to i hs))
    \<and> (\<forall>i k. (i, k) \<in> set hs \<longrightarrow> i < NINODE \<and> (idev (itable f ! i), inum (itable f ! i)) = k)
    \<and> (\<forall>i j k. (i, k) \<in> set hs \<and> (j, k) \<in> set hs \<longrightarrow> i = j)
    \<and> (\<forall>dev n e. iget dev n f = Inl e \<longrightarrow> e = Panic ''iget: no inodes'' \<and> card (snd ` set hs) = NINODE \<and> (dev, n) \<notin> snd ` set hs)"
proof -
  note ok = istep_reach_refs_ok[OF assms]
  have len: "length (itable f) = NINODE" using ok by (simp add: refs_ok_def length_ikeys)
  have cnt: "iref (itable f ! i) = int (refs_to i hs)" if "i < NINODE" for i
    using refs_okD(1)[OF ok that] ikeys_nth[of i f] len that by simp
  have hd: "i < NINODE" "fst (ikeys f ! i) = k" if "(i, k) \<in> set hs" for i k using ok that by (auto simp: refs_ok_def)
  have key: "(idev (itable f ! i), inum (itable f ! i)) = k" if "(i, k) \<in> set hs" for i k
    using hd[OF that] ikeys_nth[of i f] len by simp
  have one: "i = j" if "(i, k) \<in> set hs" "(j, k) \<in> set hs" for i j k
    using refs_okD(3)[OF ok hd(1)[OF that(1)] hd(1)[OF that(2)]] hd(2)[OF that(1)] hd(2)[OF that(2)] refs_to_mem[OF that(1)] refs_to_mem[OF that(2)] by simp
  have full: "e = Panic ''iget: no inodes'' \<and> card (snd ` set hs) = NINODE \<and> (dev, n) \<notin> snd ` set hs" if e: "iget dev n f = Inl e" for dev n e
  proof -
    have F: "refs_to j hs > 0" "fst (ikeys f ! j) \<noteq> (dev, n)" if "j < NINODE" for j
      using iget_full(2)[OF len e] refs_okD(1)[OF ok that] that by auto
    then have "(i, (dev, n)) \<notin> set hs" for i using hd[of i "(dev, n)"] by blast
    then have "(dev, n) \<notin> snd ` set hs" by auto
    then show ?thesis using iget_full(1)[OF len e] refs_ok_full[OF ok] F(1) by blast
  qed
  show ?thesis using cnt hd(1) key one full by blast
qed

definition blank_inode :: inode where
  "blank_inode = \<lparr>idev = 0, inum = 0, iref = 0, ilocked = False, ivalid = False, itype = 0, imajor = 0, iminor = 0, nlink = 0, isize = 0, addrs = replicate 13 0\<rparr>"

theorem inode_references_witness:
  "\<forall>k. \<exists>f hs. istep\<^sup>*\<^sup>* (iinit ((sample_fs k)\<lparr>itable := replicate NINODE blank_inode\<rparr>), []) (f, hs)
     \<and> hs = [(0, (1, 7)), (0, (1, 7))] \<and> iref (itable f ! 0) = 2 \<and> idev (itable f ! 0) = 1 \<and> inum (itable f ! 0) = 7"
proof
  fix k
  define f0 where "f0 = (sample_fs k)\<lparr>itable := replicate NINODE blank_inode\<rparr>"
  have b: "f0\<lparr>itable := (itable f0)[i := blank_inode]\<rparr> = f0" for i
    by (cases "i < NINODE") (simp_all add: f0_def list_update_same_conv list_update_beyond)
  have "seti i (\<lambda>ip. ip\<lparr>ilocked := False\<rparr>) f0 = f0" if "i < NINODE" for i
    using b[of i] that by (simp add: seti_def f0_def blank_inode_def)
  then have "set xs \<subseteq> {..<NINODE} \<Longrightarrow> fold (\<lambda>i. seti i (\<lambda>ip. ip\<lparr>ilocked := False\<rparr>)) xs f0 = f0" for xs by (induction xs) auto
  from this[of "[0..<NINODE]"] have i0: "iinit f0 = f0" by (simp add: iinit_def lessThan_atLeast0)
  have blank: "itable f0 ! i = blank_inode" "iref blank_inode = 0" if "i < NINODE" for i using that by (simp_all add: f0_def blank_inode_def)
  have N: "[0..<NINODE] = 0 # [1..<NINODE]" "0 < NINODE" "length (itable f0) = NINODE" by (simp_all add: NINODE_def upt_rec f0_def)
  define f1 where "f1 = seti 0 (\<lambda>ip. ip\<lparr>idev := 1, inum := 7, iref := 1, ivalid := False\<rparr>) f0"
  have g1: "iget 1 7 f0 = Inr (0, f1)"
  proof -
    have "find (\<lambda>i. iref (itable f0 ! i) > 0 \<and> idev (itable f0 ! i) = 1 \<and> inum (itable f0 ! i) = 7) [0..<NINODE] = None"
      using blank by (auto simp: find_None_iff)
    moreover have "find (\<lambda>i. iref (itable f0 ! i) = 0) [0..<NINODE] = Some 0" using blank N by simp
    ultimately show ?thesis by (simp add: iget_def f1_def)
  qed
  have t1: "itable f1 ! 0 = blank_inode\<lparr>idev := 1, inum := 7, iref := 1, ivalid := False\<rparr>" "length (itable f1) = NINODE"
    using N(2,3) blank(1)[of 0] by (simp_all add: f1_def seti_def)
  define f2 where "f2 = seti 0 (\<lambda>ip. ip\<lparr>iref := i32 (iref ip + 1)\<rparr>) f1"
  have g2: "iget 1 7 f1 = Inr (0, f2)" using t1 by (simp add: iget_def f2_def N(1))
  have run: "istep\<^sup>*\<^sup>* (iinit f0, []) (f2, [(0, (1, 7)), (0, (1, 7))])"
    unfolding i0 using istep_iget[OF g1, of "[]"] istep_iget[OF g2, of "[(0, (1, 7))]"] by (auto intro: rtranclp_trans)
  have "\<forall>i < NINODE. iref (itable f0 ! i) = 0" using blank by simp
  from inode_references[OF N(3) this run] have "iref (itable f2 ! 0) = 2" "idev (itable f2 ! 0) = 1" "inum (itable f2 ! 0) = 7"
    using N(2) by auto
  then show "\<exists>f hs. istep\<^sup>*\<^sup>* (iinit ((sample_fs k)\<lparr>itable := replicate NINODE blank_inode\<rparr>), []) (f, hs)
     \<and> hs = [(0, (1, 7)), (0, (1, 7))] \<and> iref (itable f ! 0) = 2 \<and> idev (itable f ! 0) = 1 \<and> inum (itable f ! 0) = 7"
    using run unfolding f0_def by blast
qed

text \<open>
  Inside a transaction, what \<open>iupdate\<close> writes to an inode's disk block is what \<open>ilock\<close> reads from it later
  into any entry of the table for that inode: type, device numbers, link count, size and block addresses come
  back unchanged, and the other inodes of the same block, all other blocks and the disk are not affected.
\<close>

theorem iupdate_ilock_round_trip:
  assumes t: "ftx v d {} f" "room 1 (lg f)" and i: "i < length (itable f)" "ip = itable f ! i" "idev ip = ldev (lg f)" "length (addrs ip) = NDIRECT + 1" "itype ip \<noteq> 0"
    and n: "n = IBLOCK (inum ip) (sb f)" "\<not> in_log (lg f) n" "length (v n) = BSIZE"
  shows "\<exists>f' v'. iupdate i f = Inr f' \<and> ftx v' d {} f' \<and> fs_same f f' \<and> (\<forall>m. m \<noteq> n \<longrightarrow> v' m = v m)
    \<and> (\<forall>k jp. k < IPB \<and> k \<noteq> unat (inum ip) mod IPB \<longrightarrow> disk_fields (load_inode (v' n) (64 * k) jp) = disk_fields (load_inode (v n) (64 * k) jp))
    \<and> (\<forall>t j. j < length t \<and> idev (t ! j) = idev ip \<and> inum (t ! j) = inum ip \<and> iref (t ! j) \<ge> 1 \<and> \<not> ilocked (t ! j) \<and> \<not> ivalid (t ! j) \<longrightarrow>
         (\<exists>f''. ilock j (f'\<lparr>itable := t\<rparr>) = Inr f'' \<and> ftx v' d {} f'' \<and> ivalid (itable f'' ! j) \<and> disk_fields (itable f'' ! j) = disk_fields ip))"
proof -
  let ?x = "store_inode ip (dinode_at (inum ip)) (v n)" and ?s = "unat (inum ip) mod IPB"
  obtain f' where f': "iupdate i f = Inr f'" "ftx (v(n := ?x)) d {} f'" "fs_same f f'" "room 0 (lg f')"
    using iupdate_stores[OF t i(1-3) n(1,2)] by blast
  have L: "disk_fields (load_inode ?x (64 * k) jp) = (if k = ?s then disk_fields ip else disk_fields (load_inode (v n) (64 * k) jp))" if "k < IPB" for k jp
    unfolding dinode_at_eq(1) by (rule load_store_inode[OF n(3) i(4) dinode_at_eq(2) that])
  have ty: "get16 ?x (64 * ?s) \<noteq> 0" using L[OF dinode_at_eq(2), of "inum ip" ip] i(5) by (simp add: disk_fields_def load_inode_def)
  have "\<exists>f''. ilock j (f'\<lparr>itable := t\<rparr>) = Inr f'' \<and> ftx (v(n := ?x)) d {} f'' \<and> ivalid (itable f'' ! j) \<and> disk_fields (itable f'' ! j) = disk_fields ip"
    if j: "j < length t" "idev (t ! j) = idev ip" "inum (t ! j) = inum ip" "iref (t ! j) \<ge> 1" "\<not> ilocked (t ! j)" "\<not> ivalid (t ! j)" for t j
  proof -
    have g: "ftx (v(n := ?x)) d {} (f'\<lparr>itable := t\<rparr>)" using f'(2) by (simp add: ftx_def)
    have s: "sb f' = sb f" "ldev (lg f') = ldev (lg f)" using fs_sameD[OF f'(3)] by simp_all
    have "IBLOCK (inum (t ! j)) (sb f') = n" using n(1) s(1) j(3) by simp
    then show ?thesis
      using ilock_loads[OF g, of j "t ! j"] f'(4) j s i(3) ty L[OF dinode_at_eq(2), of "inum ip"] by (auto simp: dinode_at_eq(1))
  qed
  then show ?thesis using f' L by (intro exI[of _ f'] exI[of _ "v(n := ?x)"]) auto
qed

theorem iupdate_ilock_round_trip_witness:
  "\<forall>k. \<exists>f' f''. iupdate 0 ((sample_fs k)\<lparr>itable := [blank_inode\<lparr>idev := 1, inum := 20, itype := 2, nlink := 3, isize := 77\<rparr>]\<rparr>) = Inr f'
     \<and> ilock 0 (f'\<lparr>itable := [blank_inode\<lparr>idev := 1, inum := 20, iref := 1\<rparr>]\<rparr>) = Inr f'' \<and> itype (itable f'' ! 0) = 2 \<and> isize (itable f'' ! 0) = 77"
proof
  fix k
  define ip where "ip = blank_inode\<lparr>idev := 1, inum := 20, itype := 2, nlink := 3, isize := 77\<rparr>"
  define f where "f = (sample_fs k)\<lparr>itable := [ip]\<rparr>"
  define t where "t = [blank_inode\<lparr>idev := 1, inum := 20, iref := 1\<rparr>]"
  have e: "lg f = sample_log" "ldev sample_log = 1" "sb f = sample_sb" "itable f ! 0 = ip" "0 < length (itable f)"
    by (simp_all add: f_def sample_fs_def sample_log_def)
  have f: "ftx sample_blocks sample_blocks {} f" using sample_fs_ok(1)[of k] by (simp add: ftx_def f_def)
  have r: "room 1 (lg f)" unfolding e by (rule room_mono[OF sample_fs_ok(2)]) simp
  have n: "33 = IBLOCK (inum ip) (sb f)" by (simp add: IBLOCK_def e ip_def sample_sb_def IPB_def BSIZE_def)
  have nl: "\<not> in_log (lg f) 33" using sample_in_log[of 33] by (simp add: e)
  have p: "idev ip = ldev (lg f)" "length (addrs ip) = NDIRECT + 1" "itype ip \<noteq> 0" "length (sample_blocks 33) = BSIZE"
    by (simp_all add: e ip_def blank_inode_def NDIRECT_def sample_blocks_def BSIZE_def)
  have t: "0 < length t \<and> idev (t ! 0) = idev ip \<and> inum (t ! 0) = inum ip \<and> iref (t ! 0) \<ge> 1 \<and> \<not> ilocked (t ! 0) \<and> \<not> ivalid (t ! 0)"
    by (simp add: t_def ip_def blank_inode_def)
  obtain f' f'' where "iupdate 0 f = Inr f'" "ilock 0 (f'\<lparr>itable := t\<rparr>) = Inr f''" "disk_fields (itable f'' ! 0) = disk_fields ip"
    using iupdate_ilock_round_trip[OF f r e(5) e(4)[symmetric] p(1-3) n nl p(4)] t by blast
  then show "\<exists>f' f''. iupdate 0 ((sample_fs k)\<lparr>itable := [blank_inode\<lparr>idev := 1, inum := 20, itype := 2, nlink := 3, isize := 77\<rparr>]\<rparr>) = Inr f'
     \<and> ilock 0 (f'\<lparr>itable := [blank_inode\<lparr>idev := 1, inum := 20, iref := 1\<rparr>]\<rparr>) = Inr f'' \<and> itype (itable f'' ! 0) = 2 \<and> isize (itable f'' ! 0) = 77"
    unfolding f_def t_def by (auto simp: disk_fields_def ip_def)
qed

section \<open>Path names\<close>

text \<open>The elements of a path, and the walk along a list of elements.\<close>

fun split_path :: "byte list \<Rightarrow> byte list list" where
  "split_path [] = [[]]"
| "split_path (c # p) = (if c = slash then [] # split_path p else (c # hd (split_path p)) # tl (split_path p))"

definition elements :: "byte list \<Rightarrow> byte list list" where
  "elements p = map (take DIRSIZ) (filter (\<lambda>e. e \<noteq> []) (split_path p))"

fun walk_elements :: "(nat \<Rightarrow> uint64) \<Rightarrow> uint64 \<Rightarrow> bool \<Rightarrow> byte list list \<Rightarrow> byte list \<Rightarrow> nat \<Rightarrow> fsys \<Rightarrow> ((nat \<times> byte list) option \<times> fsys) result" where
  "walk_elements ba da par [] nm i f = (if par then bnd (iput i f) (\<lambda>f. Inr (None, f)) else Inr (Some (i, nm), f))"
| "walk_elements ba da par (e # es) nm i f =
     bnd (ilock i f) (\<lambda>f.
     bnd (geti i f) (\<lambda>ip.
     if itype ip \<noteq> T_DIR then bnd (iunlockput i f) (\<lambda>f. Inr (None, f))
     else if par \<and> es = [] then bnd (iunlock i f) (\<lambda>f. Inr (Some (i, e), f))
     else
       bnd (dirlookup ba da i e f) (\<lambda>(r, f).
         case r of
           None \<Rightarrow> bnd (iunlockput i f) (\<lambda>f. Inr (None, f))
         | Some (j, _) \<Rightarrow> bnd (iunlockput i f) (walk_elements ba da par es e j))))"

lemma split_path_slashes: "filter (\<lambda>e. e \<noteq> []) (split_path (dropWhile (\<lambda>c. c = slash) p)) = filter (\<lambda>e. e \<noteq> []) (split_path p)"
  by (induction p) auto

lemma split_path_ne: "split_path p \<noteq> []"
  by (induction p) auto

lemma split_path_first: "split_path p = takeWhile (\<lambda>c. c \<noteq> slash) p # (case dropWhile (\<lambda>c. c \<noteq> slash) p of [] \<Rightarrow> [] | _ # q \<Rightarrow> split_path q)"
  by (induction p) auto

lemma elements_skipelem:
  "elements p = (case skipelem p of None \<Rightarrow> [] | Some (e, q) \<Rightarrow> e # elements q)"
proof -
  define r where "r = dropWhile (\<lambda>c. c = slash) p"
  have e: "elements p = elements r" by (simp add: elements_def r_def split_path_slashes)
  show ?thesis
  proof (cases "r = []")
    case True
    then show ?thesis using e by (simp add: skipelem_def r_def[symmetric] elements_def)
  next
    case False
    define q where "q = dropWhile (\<lambda>c. c \<noteq> slash) r"
    have hd: "hd r \<noteq> slash" using hd_dropWhile[of "\<lambda>c. c = slash" p] False by (simp add: r_def)
    then have ne: "takeWhile (\<lambda>c. c \<noteq> slash) r \<noteq> []" using False by (cases r) auto
    have rest: "filter (\<lambda>e. e \<noteq> []) (case q of [] \<Rightarrow> [] | _ # q \<Rightarrow> split_path q) = filter (\<lambda>e. e \<noteq> []) (split_path (dropWhile (\<lambda>c. c = slash) q))"
    proof (cases q)
      case (Cons c q')
      then have "c = slash" using hd_dropWhile[of "\<lambda>c. c \<noteq> slash" r] by (simp add: q_def)
      then show ?thesis using Cons by (simp add: split_path_slashes)
    qed simp
    have "elements r = take DIRSIZ (takeWhile (\<lambda>c. c \<noteq> slash) r) # elements (dropWhile (\<lambda>c. c = slash) q)"
      unfolding elements_def by (subst split_path_first) (use ne rest in \<open>simp add: q_def[symmetric]\<close>)
    then show ?thesis using e False by (simp add: skipelem_def r_def[symmetric] q_def Let_def)
  qed
qed

lemma skipelem_rest: "skipelem p = Some (e, q) \<Longrightarrow> q = [] \<longleftrightarrow> elements q = []"
proof -
  assume s: "skipelem p = Some (e, q)"
  have "q = [] \<or> hd q \<noteq> slash" using s hd_dropWhile[of "\<lambda>c. c = slash"] by (force simp: skipelem_def Let_def split: if_splits)
  then have "dropWhile (\<lambda>c. c = slash) q = q" by (cases q) auto
  then have "skipelem q = None \<longleftrightarrow> q = []" by (simp add: skipelem_def Let_def)
  then show ?thesis using elements_skipelem[of q] by (cases "skipelem q") (auto simp: elements_def)
qed

text \<open>
  C36. Path names are resolved element by element: the elements are the non-empty pieces between slashes,
  cut to \<open>DIRSIZ\<close> characters, so repeated, leading and trailing slashes make no difference, and the walk of
  \<open>namex\<close> visits exactly these, in order, for every directory tree and every failure on the way.
\<close>

theorem namex_walks_elements:
  "namex_loop ba da par path nm i f = walk_elements ba da par (elements path) nm i f"
proof (induction "length path" arbitrary: path nm i f rule: less_induct)
  case less
  show ?case
  proof (cases "skipelem path")
    case None
    then show ?thesis using elements_skipelem[of path] by (simp add: namex_loop.simps[of ba da par path])
  next
    case (Some eq)
    obtain e q where eq: "eq = (e, q)" by force
    have IH: "namex_loop ba da par q e = walk_elements ba da par (elements q) e"
      using less[of q] skipelem_shorter[of path e q] Some eq by blast
    have s: "skipelem path = Some (e, q)" "elements path = e # elements q" using Some eq elements_skipelem[of path] by simp_all
    show ?thesis
      unfolding namex_loop.simps[of ba da par path] s walk_elements.simps option.case prod.case IH skipelem_rest[OF s(1)] by (rule refl)
  qed
qed

end
