(* ===== verification/File.thy ===== *)
theory File
  imports Fs Pipe Console
begin

unbundle bit_operations_syntax

text \<open>
  Open files, \<^verbatim>\<open>kernel/file.c\<close>, with the part of \<^verbatim>\<open>kernel/pipe.c\<close> that uses them, and the state of the whole
  kernel above the file system.

  A pointer to an open file is an index of the table, a pipe is named by the address of its page. The critical
  sections of \<open>ftable.lock\<close> are single steps. A kernel call is cut where it first gives up the processor: it
  returns \<open>Sleeps\<close> with the state at that moment. \<open>places\<close> collects the addresses of local variables and
  structures that are passed to \<open>copyout\<close> and \<open>copyin\<close>, and what the serial port's status register will say.
\<close>

section \<open>State\<close>

datatype fdtype = FD_NONE | FD_PIPE | FD_INODE | FD_DEVICE

record file_s =
  ftype :: fdtype
  fref :: int
  readable :: bool
  writable :: bool
  fpipe :: uint64
  fip :: nat
  foff :: uint
  fmajor :: ushort

record osys =
  fsy :: fsys
  ftable :: "file_s list"
  pipes :: "uint64 \<rightharpoonup> pipe"
  tts :: tty
  readCount :: int

record places =
  at_buf :: "nat \<Rightarrow> uint64"
  at_de :: uint64
  at_ch :: uint64
  at_st :: uint64
  at_path :: uint64
  at_word :: uint64
  at_elf :: uint64
  at_ph :: uint64
  at_ustack :: uint64
  at_xstate :: "nat \<Rightarrow> uint64"
  uart_idle :: "nat \<Rightarrow> bool list"

definition NFILE :: nat where
  "NFILE = 100"

definition NDEV :: int where
  "NDEV = 10"

definition CONSOLE :: int where
  "CONSOLE = 1"

type_synonym 'a call = "osys \<Rightarrow> ('a blocking \<times> osys) result"

definition ret :: "'a \<Rightarrow> 'a call" where
  "ret a s = Inr (Returns a, s)"

text \<open>One call after another, unless the first goes to sleep.\<close>

definition seqc :: "'a call \<Rightarrow> ('a \<Rightarrow> 'b call) \<Rightarrow> 'b call" where
  "seqc c g s = bnd (c s) (\<lambda>(b, s). case b of Sleeps \<Rightarrow> Inr (Sleeps, s) | Returns a \<Rightarrow> g a s)"

definition on_fs :: "(fsys \<Rightarrow> ('a \<times> fsys) result) \<Rightarrow> 'a call" where
  "on_fs g s = bnd (g (fsy s)) (\<lambda>(a, f). Inr (Returns a, s\<lparr>fsy := f\<rparr>))"

definition do_fs :: "(fsys \<Rightarrow> fsys result) \<Rightarrow> unit call" where
  "do_fs g = on_fs (\<lambda>f. bnd (g f) (\<lambda>f. Inr ((), f)))"

definition on_kern :: "(kern \<Rightarrow> ('a \<times> kern) result) \<Rightarrow> 'a call" where
  "on_kern g = on_fs (\<lambda>f. bnd (g (kn f)) (\<lambda>(a, k). Inr (a, f\<lparr>kn := k\<rparr>)))"

definition do_kern :: "(kern \<Rightarrow> kern result) \<Rightarrow> unit call" where
  "do_kern g = on_kern (\<lambda>k. bnd (g k) (\<lambda>k. Inr ((), k)))"

definition get_os :: "(osys \<Rightarrow> 'a result) \<Rightarrow> 'a call" where
  "get_os g s = bnd (g s) (\<lambda>a. Inr (Returns a, s))"

text \<open>\<open>begin_op\<close> waits while the log is committing or has no room; \<open>end_op\<close>.\<close>

definition op_begin :: "unit call" where
  "op_begin s = (case begin_op (lg (fsy s)) of
     None \<Rightarrow> Inr (Sleeps, s) | Some l \<Rightarrow> Inr (Returns (), s\<lparr>fsy := (fsy s)\<lparr>lg := l\<rparr>\<rparr>))"

definition op_end :: "unit call" where
  "op_end = do_fs (\<lambda>f. bnd (end_op (lg f) (bc f)) (\<lambda>(l, b). Inr (f\<lparr>lg := l, bc := b\<rparr>)))"

definition get_file :: "nat \<Rightarrow> osys \<Rightarrow> file_s result" where
  "get_file i s = (if i < length (ftable s) then Inr (ftable s ! i) else Inl (Fault ''file''))"

definition set_file :: "nat \<Rightarrow> (file_s \<Rightarrow> file_s) \<Rightarrow> osys \<Rightarrow> osys" where
  "set_file i g s = s\<lparr>ftable := (ftable s)[i := g (ftable s ! i)]\<rparr>"

definition upd_file :: "nat \<Rightarrow> (file_s \<Rightarrow> file_s) \<Rightarrow> unit call" where
  "upd_file i g s = Inr (Returns (), set_file i g s)"

section \<open>The file table\<close>

definition filealloc :: "nat option call" where
  "filealloc s =
     (case find (\<lambda>i. fref (ftable s ! i) = 0) [0..<NFILE] of
        None \<Rightarrow> Inr (Returns None, s)
      | Some i \<Rightarrow> Inr (Returns (Some i), set_file i (\<lambda>f. f\<lparr>fref := 1\<rparr>) s))"

definition filedup :: "nat \<Rightarrow> nat call" where
  "filedup i s = bnd (get_file i s) (\<lambda>f.
     if fref f < 1 then Inl (Panic ''filedup'')
     else Inr (Returns i, set_file i (\<lambda>f. f\<lparr>fref := i32 (fref f + 1)\<rparr>) s))"

text \<open>\<open>pipeclose\<close> on the pipe whose page is \<open>pa\<close>.\<close>

definition close_pipe :: "uint64 \<Rightarrow> bool \<Rightarrow> unit call" where
  "close_pipe pa w s = (case pipes s pa of
     None \<Rightarrow> Inl (Fault ''pipe'')
   | Some pi \<Rightarrow>
       bnd (pipeclose (unat pa) pa w (pi, kn (fsy s))) (\<lambda>(freed, pi, k).
         Inr (Returns (), s\<lparr>pipes := (if freed then (pipes s)(pa := None) else (pipes s)(pa \<mapsto> pi)), fsy := (fsy s)\<lparr>kn := k\<rparr>\<rparr>)))"

definition fileclose :: "nat \<Rightarrow> unit call" where
  "fileclose i s = bnd (get_file i s) (\<lambda>f.
     if fref f < 1 then Inl (Panic ''fileclose'')
     else if i32 (fref f - 1) > 0 then Inr (Returns (), set_file i (\<lambda>f. f\<lparr>fref := i32 (fref f - 1)\<rparr>) s)
     else
       let ff = f\<lparr>fref := i32 (fref f - 1)\<rparr>;
           s = set_file i (\<lambda>f. f\<lparr>fref := 0, ftype := FD_NONE\<rparr>) s in
       if ftype ff = FD_PIPE then close_pipe (fpipe ff) (writable ff) s
       else if ftype ff = FD_INODE \<or> ftype ff = FD_DEVICE then
         seqc op_begin (\<lambda>_. seqc (do_fs (iput (fip ff))) (\<lambda>_. op_end)) s
       else Inr (Returns (), s))"

section \<open>Pipes as files\<close>

definition pipe_end :: "bool \<Rightarrow> uint64 \<Rightarrow> file_s \<Rightarrow> file_s" where
  "pipe_end w pa f = f\<lparr>ftype := FD_PIPE, readable := \<not> w, writable := w, fpipe := pa\<rparr>"

text \<open>The pipe itself, once both files are there; the result is the two files, or nothing for the error exit.\<close>

definition pipe_make :: "nat \<Rightarrow> nat \<Rightarrow> (nat \<times> nat) option call" where
  "pipe_make i j =
     seqc (on_kern (\<lambda>k. bnd (kalloc (km k)) (\<lambda>(pa, m). Inr (pa, k\<lparr>km := m\<rparr>)))) (\<lambda>pa.
     if pa = 0 then seqc (fileclose i) (\<lambda>_. seqc (fileclose j) (\<lambda>_. ret None))
     else
       seqc (\<lambda>s. Inr (Returns (), s\<lparr>pipes := (pipes s)(pa \<mapsto> pipeinit)\<rparr>)) (\<lambda>_.
       seqc (upd_file i (pipe_end False pa)) (\<lambda>_.
       seqc (upd_file j (pipe_end True pa)) (\<lambda>_. ret (Some (i, j))))))"

definition pipealloc :: "(nat \<times> nat) option call" where
  "pipealloc =
     seqc filealloc (\<lambda>f0. case f0 of None \<Rightarrow> ret None | Some i \<Rightarrow>
     seqc filealloc (\<lambda>f1. case f1 of None \<Rightarrow> seqc (fileclose i) (\<lambda>_. ret None) | Some j \<Rightarrow> pipe_make i j))"

section \<open>Reading, writing and status\<close>

definition bytes_le :: "nat \<Rightarrow> 'w::len word \<Rightarrow> byte list" where
  "bytes_le n x = map (\<lambda>i. ucast (drop_bit (8 * i) x)) [0..<n]"

text \<open>The 24 bytes of a \<open>struct stat\<close>; \<open>pad\<close> is the hole before the 64-bit size.\<close>

definition stat_bytes :: "byte list \<Rightarrow> stat \<Rightarrow> byte list" where
  "stat_bytes pad st = bytes_le 4 (of_int (st_dev st) :: uint) @ bytes_le 4 (st_ino st) @ bytes_le 2 (st_type st) @ bytes_le 2 (st_nlink st)
     @ pad @ bytes_le 8 (st_size st)"

definition poke :: "uint64 \<Rightarrow> byte list \<Rightarrow> kern \<Rightarrow> kern" where
  "poke a bs k = k\<lparr>km := (km k)\<lparr>mem := put_bytes (mem (km k)) a bs\<rparr>\<rparr>"

text \<open>\<open>copyout\<close> to the current process of bytes that lie at address \<open>a\<close> of the kernel.\<close>

definition copyout_cur :: "uint64 \<Rightarrow> uint64 \<Rightarrow> uint64 \<Rightarrow> kern \<Rightarrow> (int \<times> kern) result" where
  "copyout_cur dst a n k =
     bnd (myproc k) (\<lambda>p. bnd (getp p k) (\<lambda>pr.
     bnd (copyout (pagetable pr) dst a n (km k)) (\<lambda>(r, m). Inr (r, k\<lparr>km := m\<rparr>))))"

definition filestat :: "places \<Rightarrow> nat \<Rightarrow> uint64 \<Rightarrow> int call" where
  "filestat P i addr =
     seqc (get_os (get_file i)) (\<lambda>f.
     if ftype f = FD_INODE \<or> ftype f = FD_DEVICE then
       seqc (do_fs (ilock (fip f))) (\<lambda>_.
       seqc (get_os (\<lambda>s. geti (fip f) (fsy s))) (\<lambda>ip.
       seqc (do_fs (iunlock (fip f))) (\<lambda>_.
       seqc (on_kern (\<lambda>k. copyout_cur addr (at_st P) 24
              (poke (at_st P) (stat_bytes (get_bytes (mem (km k)) (at_st P + 12) 4) (stati ip)) k))) (\<lambda>r.
       ret (if r < 0 then -1 else 0)))))
     else ret (-1))"

definition has_dev :: "ushort \<Rightarrow> bool" where
  "has_dev m \<longleftrightarrow> sint m = CONSOLE"

definition pipe_call :: "uint64 \<Rightarrow> (pipe \<times> kern \<Rightarrow> ('a blocking \<times> pipe \<times> kern) result) \<Rightarrow> 'a call" where
  "pipe_call pa g s = (case pipes s pa of
     None \<Rightarrow> Inl (Fault ''pipe'')
   | Some pi \<Rightarrow> bnd (g (pi, kn (fsy s))) (\<lambda>(r, pi, k). Inr (r, s\<lparr>pipes := (pipes s)(pa \<mapsto> pi), fsy := (fsy s)\<lparr>kn := k\<rparr>\<rparr>)))"

definition tty_call :: "(tty \<times> kern \<Rightarrow> ('a blocking \<times> tty \<times> kern) result) \<Rightarrow> 'a call" where
  "tty_call g s = bnd (g (tts s, kn (fsy s))) (\<lambda>(r, t, k). Inr (r, s\<lparr>tts := t, fsy := (fsy s)\<lparr>kn := k\<rparr>\<rparr>))"

definition fileread :: "places \<Rightarrow> nat \<Rightarrow> uint64 \<Rightarrow> int \<Rightarrow> int call" where
  "fileread P i addr n =
     seqc (get_os (get_file i)) (\<lambda>f.
     if \<not> readable f then ret (-1)
     else case ftype f of
       FD_PIPE \<Rightarrow> pipe_call (fpipe f) (piperead (unat (fpipe f)) (at_ch P) addr n)
     | FD_DEVICE \<Rightarrow>
         if sint (fmajor f) < 0 \<or> sint (fmajor f) \<ge> NDEV \<or> \<not> has_dev (fmajor f) then ret (-1)
         else tty_call (\<lambda>tk. bnd (consoleread True (at_ch P) addr n tk) (\<lambda>(r, _, _, t, k). Inr (r, t, k)))
     | FD_INODE \<Rightarrow>
         seqc (do_fs (ilock (fip f))) (\<lambda>_.
         seqc (on_fs (readi (at_buf P) (fip f) True addr (foff f) (of_int n))) (\<lambda>r.
         seqc (if r > 0 then upd_file i (\<lambda>f. f\<lparr>foff := foff f + of_int r\<rparr>) else ret ()) (\<lambda>_.
         seqc (do_fs (iunlock (fip f))) (\<lambda>_. ret r))))
     | FD_NONE \<Rightarrow> get_os (\<lambda>_. Inl (Panic ''fileread'')))"

definition MAXWRITE :: int where
  "MAXWRITE = (MAXOPBLOCKS - 1 - 1 - 2) div 2 * int BSIZE"

lemma MAXWRITE_pos: "0 < MAXWRITE"
  by (simp add: MAXWRITE_def MAXOPBLOCKS_def BSIZE_def)

text \<open>The loop of \<open>filewrite\<close>, a transaction per step; its result is the number of bytes written.\<close>

function filewrite_loop :: "places \<Rightarrow> nat \<Rightarrow> uint64 \<Rightarrow> int \<Rightarrow> int \<Rightarrow> osys \<Rightarrow> (int blocking \<times> osys) result" where
  "filewrite_loop P i addr n done1 s =
     (if done1 < n then
        let n1 = min (n - done1) MAXWRITE in
        seqc (get_os (get_file i)) (\<lambda>f.
        seqc op_begin (\<lambda>_.
        seqc (do_fs (ilock (fip f))) (\<lambda>_.
        seqc (on_fs (writei (at_buf P) (fip f) True (addr + of_int done1) (foff f) (of_int n1))) (\<lambda>r.
        seqc (if r > 0 then upd_file i (\<lambda>f. f\<lparr>foff := foff f + of_int r\<rparr>) else ret ()) (\<lambda>_.
        seqc (do_fs (iunlock (fip f))) (\<lambda>_.
        seqc op_end (\<lambda>_.
          if r \<noteq> n1 then ret done1
          else (\<lambda>s. filewrite_loop P i addr n (done1 + n1) s)))))))) s
      else Inr (Returns done1, s))"
  by pat_completeness auto
termination
  using MAXWRITE_pos by (relation "measure (\<lambda>(_, _, _, n, d, _). nat (n - d))") auto

declare filewrite_loop.simps [simp del]

definition filewrite :: "places \<Rightarrow> nat \<Rightarrow> uint64 \<Rightarrow> int \<Rightarrow> int call" where
  "filewrite P i addr n =
     seqc (get_os (get_file i)) (\<lambda>f.
     if \<not> writable f then ret (-1)
     else case ftype f of
       FD_PIPE \<Rightarrow> pipe_call (fpipe f) (\<lambda>pk. bnd (pipewrite (unat (fpipe f)) (at_ch P) addr n pk) (\<lambda>(r, _, pi, k). Inr (r, pi, k)))
     | FD_DEVICE \<Rightarrow>
         if sint (fmajor f) < 0 \<or> sint (fmajor f) \<ge> NDEV \<or> \<not> has_dev (fmajor f) then ret (-1)
         else tty_call (\<lambda>tk. bnd (consolewrite (uart_idle P) True (at_ch P) addr n tk) (\<lambda>(r, _, t, k). Inr (r, t, k)))
     | FD_INODE \<Rightarrow> seqc (filewrite_loop P i addr n 0) (\<lambda>d. ret (if d = n then n else -1))
     | FD_NONE \<Rightarrow> get_os (\<lambda>_. Inl (Panic ''filewrite'')))"

end
