(* ===== verification/Sysfile.thy ===== *)
theory Sysfile
  imports File
begin

unbundle bit_operations_syntax

text \<open>
  System call arguments, \<^verbatim>\<open>kernel/syscall.c\<close>, and the file system calls, \<^verbatim>\<open>kernel/sysfile.c\<close>. The results of
  system calls are C \<open>int\<close>s, which the dispatcher widens to the return register.
\<close>

section \<open>Arguments\<close>

definition MAXPATH :: nat where
  "MAXPATH = 128"

definition cur_proc :: "proc call" where
  "cur_proc = on_kern (\<lambda>k. bnd (myproc k) (\<lambda>i. bnd (getp i k) (\<lambda>p. Inr (p, k))))"

definition upd_cur :: "(proc \<Rightarrow> proc) \<Rightarrow> unit call" where
  "upd_cur g = do_kern (\<lambda>k. bnd (myproc k) (\<lambda>i. setp i g k))"

definition kmem_of :: "osys \<Rightarrow> memory" where
  "kmem_of s = mem (km (kn (fsy s)))"

text \<open>The fields of a trap frame, by offset.\<close>

definition tf_epc :: uint64 where "tf_epc = 24"

definition tf_sp :: uint64 where "tf_sp = 48"

definition tf_a :: "nat \<Rightarrow> uint64" where "tf_a n = 112 + 8 * of_nat n"

definition fetchaddr :: "places \<Rightarrow> uint64 \<Rightarrow> uint64 option call" where
  "fetchaddr P addr =
     seqc cur_proc (\<lambda>p.
     if addr \<ge> sz p \<or> addr + 8 > sz p then ret None
     else seqc (on_kern (\<lambda>k. bnd (copyin (pagetable p) (at_word P) addr 8 (km k)) (\<lambda>(r, m). Inr (r, k\<lparr>km := m\<rparr>)))) (\<lambda>r.
       if r \<noteq> 0 then ret None else get_os (\<lambda>s. Inr (Some (load64 (kmem_of s) (at_word P))))))"

text \<open>The string at address \<open>a\<close>, which ends within \<open>n\<close> bytes.\<close>

definition cstring :: "memory \<Rightarrow> uint64 \<Rightarrow> nat \<Rightarrow> byte list" where
  "cstring m a n = takeWhile (\<lambda>c. c \<noteq> 0) (get_bytes m a n)"

definition fetchstr :: "uint64 \<Rightarrow> uint64 \<Rightarrow> nat \<Rightarrow> byte list option call" where
  "fetchstr addr buf mx =
     seqc cur_proc (\<lambda>p.
     seqc (on_kern (\<lambda>k. bnd (copyinstr (pagetable p) buf addr (of_nat mx) (km k)) (\<lambda>(r, m). Inr (r, k\<lparr>km := m\<rparr>)))) (\<lambda>r.
       if r < 0 then ret None else get_os (\<lambda>s. Inr (Some (cstring (kmem_of s) buf mx)))))"

definition argraw :: "nat \<Rightarrow> uint64 call" where
  "argraw n =
     seqc cur_proc (\<lambda>p.
     if n \<le> 5 then get_os (\<lambda>s. Inr (load64 (kmem_of s) (trapframe p + tf_a n)))
     else get_os (\<lambda>_. Inl (Panic ''argraw'')))"

definition argint :: "nat \<Rightarrow> int call" where
  "argint n = seqc (argraw n) (\<lambda>x. ret (sint (ucast x :: uint)))"

definition argaddr :: "nat \<Rightarrow> uint64 call" where
  "argaddr n = argraw n"

text \<open>The string copied to \<open>buf\<close>, or nothing for the result -1.\<close>

definition argstr :: "nat \<Rightarrow> uint64 \<Rightarrow> byte list option call" where
  "argstr n buf = seqc (argaddr n) (\<lambda>addr. fetchstr addr buf MAXPATH)"

section \<open>Descriptors\<close>

definition argfd :: "nat \<Rightarrow> (nat \<times> nat) option call" where
  "argfd n =
     seqc (argint n) (\<lambda>fd.
     if fd < 0 \<or> fd \<ge> int NOFILE then ret None
     else seqc cur_proc (\<lambda>p. ret (case ofile p ! nat fd of None \<Rightarrow> None | Some f \<Rightarrow> Some (nat fd, f))))"

definition fdalloc :: "nat \<Rightarrow> nat option call" where
  "fdalloc f =
     seqc cur_proc (\<lambda>p.
     case find (\<lambda>fd. ofile p ! fd = None) [0..<NOFILE] of
       None \<Rightarrow> ret None
     | Some fd \<Rightarrow> seqc (upd_cur (\<lambda>p. p\<lparr>ofile := (ofile p)[fd := Some f]\<rparr>)) (\<lambda>_. ret (Some fd)))"

definition drop_fd :: "nat \<Rightarrow> unit call" where
  "drop_fd fd = upd_cur (\<lambda>p. p\<lparr>ofile := (ofile p)[fd := None]\<rparr>)"

definition sys_dup :: "int call" where
  "sys_dup =
     seqc (argfd 0) (\<lambda>a. case a of None \<Rightarrow> ret (-1) | Some (_, f) \<Rightarrow>
     seqc (fdalloc f) (\<lambda>r. case r of None \<Rightarrow> ret (-1) | Some fd \<Rightarrow>
     seqc (filedup f) (\<lambda>_. ret (int fd))))"

definition sys_getreadcount :: "int call" where
  "sys_getreadcount = get_os (\<lambda>s. Inr (readCount s))"

definition sys_read :: "places \<Rightarrow> int call" where
  "sys_read P =
     seqc (\<lambda>s. Inr (Returns (), s\<lparr>readCount := i32 (readCount s + 1)\<rparr>)) (\<lambda>_.
     seqc (argaddr 1) (\<lambda>p.
     seqc (argint 2) (\<lambda>n.
     seqc (argfd 0) (\<lambda>a. case a of None \<Rightarrow> ret (-1) | Some (_, f) \<Rightarrow> fileread P f p n))))"

definition sys_write :: "places \<Rightarrow> int call" where
  "sys_write P =
     seqc (argaddr 1) (\<lambda>p.
     seqc (argint 2) (\<lambda>n.
     seqc (argfd 0) (\<lambda>a. case a of None \<Rightarrow> ret (-1) | Some (_, f) \<Rightarrow> filewrite P f p n)))"

definition sys_close :: "int call" where
  "sys_close =
     seqc (argfd 0) (\<lambda>a. case a of None \<Rightarrow> ret (-1) | Some (fd, f) \<Rightarrow>
     seqc (drop_fd fd) (\<lambda>_. seqc (fileclose f) (\<lambda>_. ret 0)))"

definition sys_fstat :: "places \<Rightarrow> int call" where
  "sys_fstat P =
     seqc (argaddr 1) (\<lambda>st.
     seqc (argfd 0) (\<lambda>a. case a of None \<Rightarrow> ret (-1) | Some (_, f) \<Rightarrow> filestat P f st))"

section \<open>Directories\<close>

definition T_FILE :: ushort where
  "T_FILE = 2"

definition T_DEVICE :: ushort where
  "T_DEVICE = 3"

abbreviation the_inode :: "nat \<Rightarrow> inode call" where
  "the_inode i \<equiv> get_os (\<lambda>s. geti i (fsy s))"

abbreviation upd_inode :: "nat \<Rightarrow> (inode \<Rightarrow> inode) \<Rightarrow> unit call" where
  "upd_inode i g \<equiv> do_fs (\<lambda>f. Inr (seti i g f))"

text \<open>The way out of a transaction with an error.\<close>

definition fail_op :: "int call" where
  "fail_op = seqc op_end (\<lambda>_. ret (-1))"

definition sys_link :: "places \<Rightarrow> int call" where
  "sys_link P =
     seqc (argstr 0 (at_path P)) (\<lambda>old. case old of None \<Rightarrow> ret (-1) | Some old \<Rightarrow>
     seqc (argstr 1 (at_path P + of_nat MAXPATH)) (\<lambda>new. case new of None \<Rightarrow> ret (-1) | Some new \<Rightarrow>
     seqc op_begin (\<lambda>_.
     seqc (on_fs (namei (at_buf P) (at_de P) old)) (\<lambda>r. case r of None \<Rightarrow> fail_op | Some ip \<Rightarrow>
     seqc (do_fs (ilock ip)) (\<lambda>_.
     seqc (the_inode ip) (\<lambda>node.
     if itype node = T_DIR then seqc (do_fs (iunlockput ip)) (\<lambda>_. fail_op)
     else
       let bad = seqc (do_fs (ilock ip)) (\<lambda>_.
             seqc (upd_inode ip (\<lambda>n. n\<lparr>nlink := nlink n - 1\<rparr>)) (\<lambda>_.
             seqc (do_fs (iupdate ip)) (\<lambda>_. seqc (do_fs (iunlockput ip)) (\<lambda>_. fail_op)))) in
       seqc (upd_inode ip (\<lambda>n. n\<lparr>nlink := nlink n + 1\<rparr>)) (\<lambda>_.
       seqc (do_fs (iupdate ip)) (\<lambda>_.
       seqc (do_fs (iunlock ip)) (\<lambda>_.
       seqc (on_fs (nameiparent (at_buf P) (at_de P) new)) (\<lambda>r. case r of None \<Rightarrow> bad | Some (dp, nm) \<Rightarrow>
       seqc (do_fs (ilock dp)) (\<lambda>_.
       seqc (the_inode dp) (\<lambda>dnode.
       seqc (the_inode ip) (\<lambda>node.
       seqc (if idev dnode \<noteq> idev node then ret (-1) else on_fs (dirlink (at_buf P) (at_de P) dp nm (inum node))) (\<lambda>r.
       if r < 0 then seqc (do_fs (iunlockput dp)) (\<lambda>_. bad)
       else seqc (do_fs (iunlockput dp)) (\<lambda>_. seqc (do_fs (iput ip)) (\<lambda>_. seqc op_end (\<lambda>_. ret 0)))))))))))))))))"

function isdirempty_loop :: "places \<Rightarrow> nat \<Rightarrow> nat \<Rightarrow> nat \<Rightarrow> fsys \<Rightarrow> (bool \<times> fsys) result" where
  "isdirempty_loop P dp nsz off f =
     (if off < nsz then
        bnd (readi (at_buf P) dp False (at_de P) (of_nat off) 16 f) (\<lambda>(r, f).
        if r \<noteq> 16 then Inl (Panic ''isdirempty: readi'')
        else if de_inum (at_de P) f \<noteq> 0 then Inr (False, f)
        else isdirempty_loop P dp nsz (off + 16) f)
      else Inr (True, f))"
  by pat_completeness auto
termination
  by (relation "measure (\<lambda>(_, _, nsz, off, _). nsz - off)") auto

declare isdirempty_loop.simps [simp del]

definition isdirempty :: "places \<Rightarrow> nat \<Rightarrow> fsys \<Rightarrow> (bool \<times> fsys) result" where
  "isdirempty P dp f = bnd (geti dp f) (\<lambda>ip. isdirempty_loop P dp (unat (isize ip)) 32 f)"

definition dot :: "byte list" where
  "dot = [46]"

definition dotdot :: "byte list" where
  "dotdot = [46, 46]"

definition sys_unlink :: "places \<Rightarrow> int call" where
  "sys_unlink P =
     seqc (argstr 0 (at_path P)) (\<lambda>path. case path of None \<Rightarrow> ret (-1) | Some path \<Rightarrow>
     seqc op_begin (\<lambda>_.
     seqc (on_fs (nameiparent (at_buf P) (at_de P) path)) (\<lambda>r. case r of None \<Rightarrow> fail_op | Some (dp, nm) \<Rightarrow>
     let bad = seqc (do_fs (iunlockput dp)) (\<lambda>_. fail_op) in
     seqc (do_fs (ilock dp)) (\<lambda>_.
     if namecmp nm dot = 0 \<or> namecmp nm dotdot = 0 then bad
     else
       seqc (on_fs (dirlookup (at_buf P) (at_de P) dp nm)) (\<lambda>r. case r of None \<Rightarrow> bad | Some (ip, off) \<Rightarrow>
       seqc (do_fs (ilock ip)) (\<lambda>_.
       seqc (the_inode ip) (\<lambda>node.
       if sint (nlink node) < 1 then get_os (\<lambda>_. Inl (Panic ''unlink: nlink < 1''))
       else
         seqc (if itype node = T_DIR then on_fs (isdirempty P ip) else ret True) (\<lambda>ok.
         if \<not> ok then seqc (do_fs (iunlockput ip)) (\<lambda>_. bad)
         else
           seqc (do_kern (\<lambda>k. Inr (poke (at_de P) (replicate 16 0) k))) (\<lambda>_.
           seqc (on_fs (writei (at_buf P) dp False (at_de P) off 16)) (\<lambda>r.
           if r \<noteq> 16 then get_os (\<lambda>_. Inl (Panic ''unlink: writei''))
           else
             seqc (if itype node = T_DIR
                   then seqc (upd_inode dp (\<lambda>n. n\<lparr>nlink := nlink n - 1\<rparr>)) (\<lambda>_. do_fs (iupdate dp)) else ret ()) (\<lambda>_.
             seqc (do_fs (iunlockput dp)) (\<lambda>_.
             seqc (upd_inode ip (\<lambda>n. n\<lparr>nlink := nlink n - 1\<rparr>)) (\<lambda>_.
             seqc (do_fs (iupdate ip)) (\<lambda>_.
             seqc (do_fs (iunlockput ip)) (\<lambda>_. seqc op_end (\<lambda>_. ret 0))))))))))))))))"

definition create :: "places \<Rightarrow> byte list \<Rightarrow> ushort \<Rightarrow> ushort \<Rightarrow> ushort \<Rightarrow> nat option call" where
  "create P path ty maj mnr =
     seqc (on_fs (nameiparent (at_buf P) (at_de P) path)) (\<lambda>r. case r of None \<Rightarrow> ret None | Some (dp, nm) \<Rightarrow>
     seqc (do_fs (ilock dp)) (\<lambda>_.
     seqc (on_fs (dirlookup (at_buf P) (at_de P) dp nm)) (\<lambda>r. case r of
       Some (ip, _) \<Rightarrow>
         seqc (do_fs (iunlockput dp)) (\<lambda>_.
         seqc (do_fs (ilock ip)) (\<lambda>_.
         seqc (the_inode ip) (\<lambda>node.
         if ty = T_FILE \<and> (itype node = T_FILE \<or> itype node = T_DEVICE) then ret (Some ip)
         else seqc (do_fs (iunlockput ip)) (\<lambda>_. ret None))))
     | None \<Rightarrow>
         seqc (the_inode dp) (\<lambda>dnode.
         seqc (on_fs (ialloc (idev dnode) ty)) (\<lambda>r. case r of
           None \<Rightarrow> seqc (do_fs (iunlockput dp)) (\<lambda>_. ret None)
         | Some ip \<Rightarrow>
             let fail = seqc (upd_inode ip (\<lambda>n. n\<lparr>nlink := 0\<rparr>)) (\<lambda>_.
                   seqc (do_fs (iupdate ip)) (\<lambda>_.
                   seqc (do_fs (iunlockput ip)) (\<lambda>_.
                   seqc (do_fs (iunlockput dp)) (\<lambda>_. ret None)))) in
             seqc (do_fs (ilock ip)) (\<lambda>_.
             seqc (upd_inode ip (\<lambda>n. n\<lparr>imajor := maj, iminor := mnr, nlink := 1\<rparr>)) (\<lambda>_.
             seqc (do_fs (iupdate ip)) (\<lambda>_.
             seqc (the_inode ip) (\<lambda>node.
             seqc (if ty = T_DIR then
                     seqc (on_fs (dirlink (at_buf P) (at_de P) ip dot (inum node))) (\<lambda>r.
                       if r < 0 then ret (-1) else on_fs (dirlink (at_buf P) (at_de P) ip dotdot (inum dnode)))
                   else ret 0) (\<lambda>r.
             if r < 0 then fail
             else
               seqc (on_fs (dirlink (at_buf P) (at_de P) dp nm (inum node))) (\<lambda>r.
               if r < 0 then fail
               else
                 seqc (if ty = T_DIR
                       then seqc (upd_inode dp (\<lambda>n. n\<lparr>nlink := nlink n + 1\<rparr>)) (\<lambda>_. do_fs (iupdate dp)) else ret ()) (\<lambda>_.
                 seqc (do_fs (iunlockput dp)) (\<lambda>_. ret (Some ip))))))))))))))"

section \<open>Opening and creating\<close>

definition O_RDONLY :: int where "O_RDONLY = 0"

definition O_WRONLY :: int where "O_WRONLY = 1"

definition O_RDWR :: int where "O_RDWR = 2"

definition O_CREATE :: int where "O_CREATE = 0x200"

definition O_TRUNC :: int where "O_TRUNC = 0x400"

definition sys_open :: "places \<Rightarrow> int call" where
  "sys_open P =
     seqc (argint 1) (\<lambda>omode.
     seqc (argstr 0 (at_path P)) (\<lambda>path. case path of None \<Rightarrow> ret (-1) | Some path \<Rightarrow>
     seqc op_begin (\<lambda>_.
     seqc (if omode AND O_CREATE \<noteq> 0 then create P path T_FILE 0 0
           else seqc (on_fs (namei (at_buf P) (at_de P) path)) (\<lambda>r. case r of
               None \<Rightarrow> ret None
             | Some ip \<Rightarrow>
                 seqc (do_fs (ilock ip)) (\<lambda>_.
                 seqc (the_inode ip) (\<lambda>node.
                 if itype node = T_DIR \<and> omode \<noteq> O_RDONLY then seqc (do_fs (iunlockput ip)) (\<lambda>_. ret None)
                 else ret (Some ip))))) (\<lambda>r. case r of
       None \<Rightarrow> fail_op
     | Some ip \<Rightarrow>
         seqc (the_inode ip) (\<lambda>node.
         if itype node = T_DEVICE \<and> (sint (imajor node) < 0 \<or> sint (imajor node) \<ge> NDEV)
         then seqc (do_fs (iunlockput ip)) (\<lambda>_. fail_op)
         else
           seqc filealloc (\<lambda>f. case f of
             None \<Rightarrow> seqc (do_fs (iunlockput ip)) (\<lambda>_. fail_op)
           | Some f \<Rightarrow>
               seqc (fdalloc f) (\<lambda>fd. case fd of
                 None \<Rightarrow> seqc (fileclose f) (\<lambda>_. seqc (do_fs (iunlockput ip)) (\<lambda>_. fail_op))
               | Some fd \<Rightarrow>
                   seqc (upd_file f (\<lambda>ff.
                     (if itype node = T_DEVICE then ff\<lparr>ftype := FD_DEVICE, fmajor := imajor node\<rparr>
                      else ff\<lparr>ftype := FD_INODE, foff := 0\<rparr>)
                     \<lparr>fip := ip, readable := (omode AND O_WRONLY = 0), writable := (omode AND O_WRONLY \<noteq> 0 \<or> omode AND O_RDWR \<noteq> 0)\<rparr>)) (\<lambda>_.
                   seqc (if omode AND O_TRUNC \<noteq> 0 \<and> itype node = T_FILE then do_fs (itrunc ip) else ret ()) (\<lambda>_.
                   seqc (do_fs (iunlock ip)) (\<lambda>_.
                   seqc op_end (\<lambda>_. ret (int fd))))))))))))"

definition sys_mkdir :: "places \<Rightarrow> int call" where
  "sys_mkdir P =
     seqc op_begin (\<lambda>_.
     seqc (argstr 0 (at_path P)) (\<lambda>path. case path of None \<Rightarrow> fail_op | Some path \<Rightarrow>
     seqc (create P path T_DIR 0 0) (\<lambda>r. case r of None \<Rightarrow> fail_op | Some ip \<Rightarrow>
     seqc (do_fs (iunlockput ip)) (\<lambda>_. seqc op_end (\<lambda>_. ret 0)))))"

definition sys_mknod :: "places \<Rightarrow> int call" where
  "sys_mknod P =
     seqc op_begin (\<lambda>_.
     seqc (argint 1) (\<lambda>major.
     seqc (argint 2) (\<lambda>minor.
     seqc (argstr 0 (at_path P)) (\<lambda>path. case path of None \<Rightarrow> fail_op | Some path \<Rightarrow>
     seqc (create P path T_DEVICE (of_int major) (of_int minor)) (\<lambda>r. case r of None \<Rightarrow> fail_op | Some ip \<Rightarrow>
     seqc (do_fs (iunlockput ip)) (\<lambda>_. seqc op_end (\<lambda>_. ret 0)))))))"

definition put_cwd :: "unit call" where
  "put_cwd = seqc cur_proc (\<lambda>p. case cwd p of None \<Rightarrow> get_os (\<lambda>_. Inl (Fault ''null inode'')) | Some c \<Rightarrow> do_fs (iput c))"

definition sys_chdir :: "places \<Rightarrow> int call" where
  "sys_chdir P =
     seqc op_begin (\<lambda>_.
     seqc (argstr 0 (at_path P)) (\<lambda>path. case path of None \<Rightarrow> fail_op | Some path \<Rightarrow>
     seqc (on_fs (namei (at_buf P) (at_de P) path)) (\<lambda>r. case r of None \<Rightarrow> fail_op | Some ip \<Rightarrow>
     seqc (do_fs (ilock ip)) (\<lambda>_.
     seqc (the_inode ip) (\<lambda>node.
     if itype node \<noteq> T_DIR then seqc (do_fs (iunlockput ip)) (\<lambda>_. fail_op)
     else
       seqc (do_fs (iunlock ip)) (\<lambda>_.
       seqc put_cwd (\<lambda>_.
       seqc op_end (\<lambda>_.
       seqc (upd_cur (\<lambda>p. p\<lparr>cwd := Some ip\<rparr>)) (\<lambda>_. ret 0)))))))))"

text \<open>\<open>copyout\<close> of a descriptor, stored in a local variable, to the caller's array.\<close>

definition copyout_fd :: "places \<Rightarrow> uint64 \<Rightarrow> nat \<Rightarrow> int call" where
  "copyout_fd P addr fd = on_kern (\<lambda>k. copyout_cur addr (at_word P) 4 (poke (at_word P) (bytes_le 4 (of_nat fd :: uint)) k))"

definition close_both :: "nat \<Rightarrow> nat \<Rightarrow> int call" where
  "close_both rf wr = seqc (fileclose rf) (\<lambda>_. seqc (fileclose wr) (\<lambda>_. ret (-1)))"

text \<open>The second descriptor, and the copying of both numbers.\<close>

definition pipe_fds :: "places \<Rightarrow> uint64 \<Rightarrow> nat \<Rightarrow> nat \<Rightarrow> nat \<Rightarrow> int call" where
  "pipe_fds P fdarray rf wr fd0 =
     seqc (fdalloc wr) (\<lambda>fd1. case fd1 of None \<Rightarrow> seqc (drop_fd fd0) (\<lambda>_. close_both rf wr) | Some fd1 \<Rightarrow>
     seqc (copyout_fd P fdarray fd0) (\<lambda>r.
     seqc (if r < 0 then ret r else copyout_fd P (fdarray + 4) fd1) (\<lambda>r.
     if r < 0 then seqc (drop_fd fd0) (\<lambda>_. seqc (drop_fd fd1) (\<lambda>_. close_both rf wr)) else ret 0)))"

definition sys_pipe :: "places \<Rightarrow> int call" where
  "sys_pipe P =
     seqc (argaddr 0) (\<lambda>fdarray.
     seqc pipealloc (\<lambda>r. case r of None \<Rightarrow> ret (-1) | Some (rf, wr) \<Rightarrow>
     seqc (fdalloc rf) (\<lambda>fd0. case fd0 of None \<Rightarrow> close_both rf wr | Some fd0 \<Rightarrow> pipe_fds P fdarray rf wr fd0)))"

end
