(* ===== verification/Proc_File.thy ===== *)
theory Proc_File
  imports Sysfile
begin

unbundle bit_operations_syntax

text \<open>
  The operations of \<^verbatim>\<open>kernel/proc.c\<close> that use open files: \<open>userinit\<close>, \<open>fork\<close>, \<open>exit\<close> and
  \<open>forkret\<close>. \<open>trampoline\<close>, \<open>forkret\<close> and the initial program's bytes, at
  address \<open>initcode\<close>, are parameters.
\<close>

section \<open>Creation\<close>

definition TRAPFRAME_SIZE :: nat where
  "TRAPFRAME_SIZE = 288"

definition set_tf :: "uint64 \<Rightarrow> uint64 \<Rightarrow> uint64 \<Rightarrow> kern \<Rightarrow> kern" where
  "set_tf tf off v k = k\<lparr>km := (km k)\<lparr>mem := store64 (mem (km k)) (tf + off) v\<rparr>\<rparr>"

text \<open>Names are at most 15 characters; the model keeps them without their NUL.\<close>

definition proc_name :: "byte list \<Rightarrow> string" where
  "proc_name bs = map (\<lambda>b. char_of (unat b)) (butlast (safestrcpy bs 16))"

definition name_bytes :: "string \<Rightarrow> byte list" where
  "name_bytes nm = map of_char nm"

definition uvmcopy_proc :: "nat \<Rightarrow> nat \<Rightarrow> kern \<Rightarrow> (int \<times> kern) result" where
  "uvmcopy_proc p np k =
     bnd (getp p k) (\<lambda>pr. bnd (getp np k) (\<lambda>npr.
     bnd (uvmcopy (pagetable pr) (pagetable npr) (sz pr) (km k)) (\<lambda>(r, m). Inr (r, k\<lparr>km := m\<rparr>))))"

text \<open>The loop over the descriptors.\<close>

fun fork_files :: "nat \<Rightarrow> nat \<Rightarrow> nat list \<Rightarrow> unit call" where
  "fork_files p np [] = ret ()"
| "fork_files p np (i # is) =
     seqc (on_kern (\<lambda>k. bnd (getp p k) (\<lambda>pr. Inr (pr, k)))) (\<lambda>pr.
     seqc (case ofile pr ! i of
             None \<Rightarrow> ret ()
           | Some f \<Rightarrow> seqc (filedup f) (\<lambda>f. do_kern (setp np (\<lambda>q. q\<lparr>ofile := (ofile q)[i := Some f]\<rparr>)))) (\<lambda>_.
     fork_files p np is))"

text \<open>\<open>fork\<close>; \<open>fork_child\<close> is what follows a successful \<open>uvmcopy\<close>.\<close>

definition fork_child :: "nat \<Rightarrow> nat \<Rightarrow> int call" where
  "fork_child p np =
     seqc (on_kern (\<lambda>k. bnd (getp p k) (\<lambda>pr. bnd (getp np k) (\<lambda>npr. Inr ((pr, npr), k))))) (\<lambda>(pr, npr).
     seqc (do_kern (setp np (\<lambda>q. q\<lparr>sz := sz pr\<rparr>))) (\<lambda>_.
     seqc (do_kern (\<lambda>k. Inr (set_tf (trapframe npr) (tf_a 0) 0
        (k\<lparr>km := (km k)\<lparr>mem := memmove (mem (km k)) (trapframe npr) (trapframe pr) TRAPFRAME_SIZE\<rparr>\<rparr>)))) (\<lambda>_.
     seqc (fork_files p np [0..<NOFILE]) (\<lambda>_.
     seqc (case cwd pr of None \<Rightarrow> get_os (\<lambda>_. Inl (Fault ''null inode'')) | Some c \<Rightarrow> on_fs (idup c)) (\<lambda>c.
     seqc (do_kern (setp np (\<lambda>q. q\<lparr>cwd := Some c, name := proc_name (name_bytes (name pr))\<rparr>))) (\<lambda>_.
     seqc (do_kern (unlockp np)) (\<lambda>_.
     seqc (do_kern (acquire_k WaitLock)) (\<lambda>_.
     seqc (do_kern (setp np (\<lambda>q. q\<lparr>parent := Some p\<rparr>))) (\<lambda>_.
     seqc (do_kern (release_k WaitLock)) (\<lambda>_.
     seqc (do_kern (lockp np)) (\<lambda>_.
     seqc (do_kern (setp np (\<lambda>q. q\<lparr>state := RUNNABLE\<rparr>))) (\<lambda>_.
     seqc (do_kern (unlockp np)) (\<lambda>_. ret (pid npr))))))))))))))"

definition fork :: "uint64 \<Rightarrow> uint64 \<Rightarrow> int call" where
  "fork trampoline forkret =
     seqc (on_kern (\<lambda>k. bnd (myproc k) (\<lambda>p. Inr (p, k)))) (\<lambda>p.
     seqc (on_kern (allocproc trampoline forkret)) (\<lambda>r. case r of None \<Rightarrow> ret (-1) | Some np \<Rightarrow>
     seqc (on_kern (uvmcopy_proc p np)) (\<lambda>r.
     if r < 0 then seqc (do_kern (freeproc np)) (\<lambda>_. seqc (do_kern (unlockp np)) (\<lambda>_. ret (-1)))
     else fork_child p np)))"

text \<open>\<open>userinit\<close>; there is no current process, but the path of \<open>namei\<close> is absolute.\<close>

definition userinit :: "places \<Rightarrow> uint64 \<Rightarrow> uint64 \<Rightarrow> uint64 \<Rightarrow> uint64 \<Rightarrow> unit call" where
  "userinit P trampoline forkret initcode len =
     seqc (on_kern (allocproc trampoline forkret)) (\<lambda>r. case r of None \<Rightarrow> get_os (\<lambda>_. Inl (Fault ''null proc'')) | Some p \<Rightarrow>
     seqc (do_kern (\<lambda>k. Inr (k\<lparr>initproc := Some p\<rparr>))) (\<lambda>_.
     seqc (on_kern (\<lambda>k. bnd (getp p k) (\<lambda>pr. Inr (pr, k)))) (\<lambda>pr.
     seqc (do_kern (on_km (uvmfirst (pagetable pr) initcode len))) (\<lambda>_.
     seqc (do_kern (setp p (\<lambda>q. q\<lparr>sz := PGSIZE\<rparr>))) (\<lambda>_.
     seqc (do_kern (\<lambda>k. Inr (set_tf (trapframe pr) tf_sp PGSIZE (set_tf (trapframe pr) tf_epc 0 k)))) (\<lambda>_.
     seqc (on_fs (namei (at_buf P) (at_de P) [slash])) (\<lambda>c.
     seqc (do_kern (setp p (\<lambda>q. q\<lparr>name := proc_name (name_bytes ''initcode''), cwd := c, state := RUNNABLE\<rparr>))) (\<lambda>_.
     do_kern (unlockp p)))))))))"

section \<open>Exit\<close>

fun exit_files :: "nat \<Rightarrow> nat list \<Rightarrow> unit call" where
  "exit_files p [] = ret ()"
| "exit_files p (fd # fds) =
     seqc (on_kern (\<lambda>k. bnd (getp p k) (\<lambda>pr. Inr (pr, k)))) (\<lambda>pr.
     seqc (case ofile pr ! fd of
             None \<Rightarrow> ret ()
           | Some f \<Rightarrow> seqc (fileclose f) (\<lambda>_. do_kern (setp p (\<lambda>q. q\<lparr>ofile := (ofile q)[fd := None]\<rparr>)))) (\<lambda>_.
     exit_files p fds))"

text \<open>
  \<open>exit\<close> up to the context switch, from which it does not come back: the process leaves with its own lock
  held, a zombie, after \<open>sched\<close> has made its checks. \<open>exit_leave\<close> is what follows the loop over the
  descriptors.
\<close>

definition exit_leave :: "nat \<Rightarrow> int \<Rightarrow> unit call" where
  "exit_leave p status =
     seqc op_begin (\<lambda>_.
     seqc put_cwd (\<lambda>_.
     seqc op_end (\<lambda>_.
     seqc (upd_cur (\<lambda>q. q\<lparr>cwd := None\<rparr>)) (\<lambda>_.
     seqc (do_kern (acquire_k WaitLock)) (\<lambda>_.
     seqc (do_kern (reparent p)) (\<lambda>_.
     seqc cur_proc (\<lambda>pr.
     seqc (do_kern (wakeup (case parent pr of None \<Rightarrow> NoChan | Some q \<Rightarrow> OnProc q))) (\<lambda>_.
     seqc (do_kern (lockp p)) (\<lambda>_.
     seqc (get_os (\<lambda>s. Inr (ticks (kn (fsy s))))) (\<lambda>now.
     seqc (upd_cur (\<lambda>q. q\<lparr>xstate := status, state := ZOMBIE, etime := now\<rparr>)) (\<lambda>_.
     seqc (do_kern (release_k WaitLock)) (\<lambda>_.
     do_kern (\<lambda>k. bnd (sched k) (\<lambda>_. Inr k))))))))))))))"

definition exit_call :: "int \<Rightarrow> unit call" where
  "exit_call status =
     seqc (on_kern (\<lambda>k. bnd (myproc k) (\<lambda>p. Inr (p, k)))) (\<lambda>p.
     seqc (get_os (\<lambda>s. Inr (initproc (kn (fsy s))))) (\<lambda>ini.
     if ini = Some p then get_os (\<lambda>_. Inl (Panic ''init exiting''))
     else
       seqc (exit_files p [0..<NOFILE]) (\<lambda>_.
       exit_leave p status)))"

text \<open>
  \<open>forkret\<close>, where a new process starts, still with its lock held; \<open>first\<close> is its static variable, and
  going on to user space is left to \<open>usertrapret\<close>.
\<close>

definition forkret_call :: "bool \<Rightarrow> bool call" where
  "forkret_call first =
     seqc (do_kern (\<lambda>k. bnd (myproc k) (\<lambda>p. unlockp p k))) (\<lambda>_.
     if first then seqc (do_fs (fsinit ROOTDEV)) (\<lambda>_. ret False) else ret False)"

end
