(* ===== verification/Exec.thy ===== *)
theory Exec
  imports Proc_File
begin

unbundle bit_operations_syntax

text \<open>
  \<^verbatim>\<open>kernel/exec.c\<close> and \<open>sys_exec\<close>: replacing a process's memory by a program. The argument strings lie in
  pages of their own; \<open>argv\<close> is the list of their addresses, without the terminating null pointer.
\<close>

section \<open>The executable file\<close>

definition ELF_MAGIC :: uint where
  "ELF_MAGIC = 0x464C457F"

definition ELF_PROG_LOAD :: uint where
  "ELF_PROG_LOAD = 1"

definition MAXARG :: nat where
  "MAXARG = 32"

record elfhdr =
  e_magic :: uint
  e_entry :: uint64
  e_phoff :: uint64
  e_phnum :: ushort

record proghdr =
  ph_type :: uint
  ph_flags :: uint
  ph_off :: uint64
  ph_vaddr :: uint64
  ph_filesz :: uint64
  ph_memsz :: uint64

definition load32 :: "memory \<Rightarrow> uint64 \<Rightarrow> uint" where
  "load32 m a = get32 (get_bytes m a 4) 0"

definition load16 :: "memory \<Rightarrow> uint64 \<Rightarrow> ushort" where
  "load16 m a = get16 (get_bytes m a 2) 0"

definition elf_at :: "memory \<Rightarrow> uint64 \<Rightarrow> elfhdr" where
  "elf_at m a = \<lparr>e_magic = load32 m a, e_entry = load64 m (a + 24), e_phoff = load64 m (a + 32), e_phnum = load16 m (a + 56)\<rparr>"

definition ph_at :: "memory \<Rightarrow> uint64 \<Rightarrow> proghdr" where
  "ph_at m a = \<lparr>ph_type = load32 m a, ph_flags = load32 m (a + 4), ph_off = load64 m (a + 8), ph_vaddr = load64 m (a + 16),
     ph_filesz = load64 m (a + 32), ph_memsz = load64 m (a + 40)\<rparr>"

definition flags2perm :: "int \<Rightarrow> uint64" where
  "flags2perm flags = (if flags AND 1 \<noteq> 0 then PTE_X else 0) OR (if flags AND 2 \<noteq> 0 then PTE_W else 0)"

text \<open>
  The loop counter of \<open>loadseg\<close> is an \<open>uint\<close> that steps by a page, so it has 2^20 values: a loop that runs
  longer has wrapped around and never ends, which is the \<open>Fault\<close> below.
\<close>

primrec loadseg_loop :: "nat \<Rightarrow> places \<Rightarrow> uint64 \<Rightarrow> uint64 \<Rightarrow> nat \<Rightarrow> uint \<Rightarrow> uint \<Rightarrow> uint \<Rightarrow> int call" where
  "loadseg_loop 0 P pt va ip offset size1 i = get_os (\<lambda>_. Inl (Fault ''endless loop''))"
| "loadseg_loop (Suc fuel) P pt va ip offset size1 i =
     (if i < size1 then
        seqc (get_os (\<lambda>s. walkaddr pt (va + ucast i) (km (kn (fsy s))))) (\<lambda>pa.
        if pa = 0 then get_os (\<lambda>_. Inl (Panic ''loadseg: address should exist''))
        else
          let n = (if size1 - i < 4096 then size1 - i else 4096) in
          seqc (on_fs (readi (at_buf P) ip False pa (offset + i) n)) (\<lambda>r.
          if (of_int r :: uint) \<noteq> n then ret (-1) else loadseg_loop fuel P pt va ip offset size1 (i + 4096)))
      else ret 0)"

definition loadseg :: "places \<Rightarrow> uint64 \<Rightarrow> uint64 \<Rightarrow> nat \<Rightarrow> uint \<Rightarrow> uint \<Rightarrow> int call" where
  "loadseg P pt va ip offset size1 = loadseg_loop (2 ^ 20 + 1) P pt va ip offset size1 0"

section \<open>exec\<close>

definition on_mem :: "(kmem \<Rightarrow> ('a \<times> kmem) result) \<Rightarrow> 'a call" where
  "on_mem g = on_kern (\<lambda>k. bnd (g (km k)) (\<lambda>(a, m). Inr (a, k\<lparr>km := m\<rparr>)))"

text \<open>The label \<open>bad\<close>.\<close>

definition exec_bad :: "uint64 \<Rightarrow> uint64 \<Rightarrow> nat option \<Rightarrow> int call" where
  "exec_bad pt size1 ip =
     seqc (if pt \<noteq> 0 then do_kern (on_km (proc_freepagetable pt size1)) else ret ()) (\<lambda>_.
     seqc (case ip of None \<Rightarrow> ret () | Some i \<Rightarrow> seqc (do_fs (iunlockput i)) (\<lambda>_. op_end)) (\<lambda>_. ret (-1)))"

text \<open>The loop over the program headers: the new size, or the size reached when it jumps to \<open>bad\<close>.\<close>

primrec exec_segments :: "nat \<Rightarrow> places \<Rightarrow> uint64 \<Rightarrow> nat \<Rightarrow> int \<Rightarrow> uint64 \<Rightarrow> (uint64 + uint64) call" where
  "exec_segments 0 P pt ip off size1 = ret (Inr size1)"
| "exec_segments (Suc n) P pt ip off size1 =
     seqc (on_fs (readi (at_buf P) ip False (at_ph P) (of_int off) 56)) (\<lambda>r.
     if r \<noteq> 56 then ret (Inl size1)
     else
       seqc (get_os (\<lambda>s. Inr (ph_at (kmem_of s) (at_ph P)))) (\<lambda>ph.
       if ph_type ph \<noteq> ELF_PROG_LOAD then exec_segments n P pt ip (i32 (off + 56)) size1
       else if ph_memsz ph < ph_filesz ph \<or> ph_vaddr ph + ph_memsz ph < ph_vaddr ph \<or> ph_vaddr ph mod PGSIZE \<noteq> 0 then ret (Inl size1)
       else
         seqc (on_mem (uvmalloc pt size1 (ph_vaddr ph + ph_memsz ph) (flags2perm (sint (ph_flags ph))))) (\<lambda>sz1.
         if sz1 = 0 then ret (Inl size1)
         else
           seqc (loadseg P pt (ph_vaddr ph) ip (ucast (ph_off ph)) (ucast (ph_filesz ph))) (\<lambda>r.
           if r < 0 then ret (Inl sz1) else exec_segments n P pt ip (i32 (off + 56)) sz1))))"

text \<open>Pushing the argument strings: the stack pointer and the pointers to them.\<close>

fun exec_args :: "uint64 \<Rightarrow> uint64 \<Rightarrow> uint64 list \<Rightarrow> uint64 \<Rightarrow> uint64 list \<Rightarrow> (uint64 \<times> uint64 list) option call" where
  "exec_args pt stackbase [] stk us = ret (Some (stk, us))"
| "exec_args pt stackbase (a # as) stk us =
     (if length us \<ge> MAXARG then ret None
      else
        seqc (get_os (\<lambda>s. Inr (of_nat (length (cstring (kmem_of s) a 4096)) :: uint64))) (\<lambda>len.
        let stk = stk - (len + 1); stk = stk - stk mod 16 in
        if stk < stackbase then ret None
        else seqc (on_mem (copyout pt stk a (len + 1))) (\<lambda>r.
          if r < 0 then ret None else exec_args pt stackbase as stk (us @ [stk]))))"

definition last_elem :: "byte list \<Rightarrow> byte list" where
  "last_elem path = rev (takeWhile (\<lambda>c. c \<noteq> slash) (rev path))"

definition exec :: "places \<Rightarrow> uint64 \<Rightarrow> byte list \<Rightarrow> uint64 list \<Rightarrow> int call" where
  "exec P trampoline path argv =
     seqc op_begin (\<lambda>_.
     seqc (on_fs (namei (at_buf P) (at_de P) path)) (\<lambda>r. case r of None \<Rightarrow> fail_op | Some ip \<Rightarrow>
     seqc (do_fs (ilock ip)) (\<lambda>_.
     seqc (on_fs (readi (at_buf P) ip False (at_elf P) 0 64)) (\<lambda>r.
     if r \<noteq> 64 then exec_bad 0 0 (Some ip)
     else
       seqc (get_os (\<lambda>s. Inr (elf_at (kmem_of s) (at_elf P)))) (\<lambda>elf.
       if e_magic elf \<noteq> ELF_MAGIC then exec_bad 0 0 (Some ip)
       else
         seqc cur_proc (\<lambda>p.
         seqc (on_mem (proc_pagetable trampoline (trapframe p))) (\<lambda>pt.
         if pt = 0 then exec_bad 0 0 (Some ip)
         else
           seqc (exec_segments (unat (e_phnum elf)) P pt ip (sint (ucast (e_phoff elf) :: uint)) 0) (\<lambda>r. case r of
             Inl size1 \<Rightarrow> exec_bad pt size1 (Some ip)
           | Inr size1 \<Rightarrow>
               seqc (do_fs (iunlockput ip)) (\<lambda>_.
               seqc op_end (\<lambda>_.
               seqc cur_proc (\<lambda>p.
               let oldsz = sz p; size1 = PGROUNDUP size1 in
               seqc (on_mem (uvmalloc pt size1 (size1 + 2 * PGSIZE) PTE_W)) (\<lambda>sz1.
               if sz1 = 0 then exec_bad pt size1 None
               else
                 seqc (do_kern (on_km (uvmclear pt (sz1 - 2 * PGSIZE)))) (\<lambda>_.
                 let stackbase = sz1 - PGSIZE in
                 seqc (exec_args pt stackbase argv sz1 []) (\<lambda>r. case r of
                   None \<Rightarrow> exec_bad pt sz1 None
                 | Some (stk, us) \<Rightarrow>
                     let argc = length us;
                         stk = stk - of_nat ((argc + 1) * 8);
                         stk = stk - stk mod 16 in
                     if stk < stackbase then exec_bad pt sz1 None
                     else
                       seqc (do_kern (\<lambda>k. Inr (poke (at_ustack P) (concat (map (bytes_le 8) (us @ [0]))) k))) (\<lambda>_.
                       seqc (on_mem (copyout pt stk (at_ustack P) (of_nat ((argc + 1) * 8)))) (\<lambda>r.
                       if r < 0 then exec_bad pt sz1 None
                       else
                         seqc (do_kern (\<lambda>k. Inr (set_tf (trapframe p) (tf_a 1) stk k))) (\<lambda>_.
                         seqc (upd_cur (\<lambda>q. q\<lparr>name := proc_name (last_elem path), pagetable := pt, sz := sz1\<rparr>)) (\<lambda>_.
                         seqc (do_kern (\<lambda>k. Inr (set_tf (trapframe p) tf_sp stk (set_tf (trapframe p) tf_epc (e_entry elf) k)))) (\<lambda>_.
                         seqc (do_kern (on_km (proc_freepagetable (pagetable p) oldsz))) (\<lambda>_.
                         ret (int argc)))))))))))))))))))))"

section \<open>sys_exec\<close>

text \<open>The pages of the arguments so far, and whether the loop ended at the null pointer.\<close>

primrec exec_fetch :: "nat \<Rightarrow> places \<Rightarrow> uint64 \<Rightarrow> uint64 list \<Rightarrow> (bool \<times> uint64 list) call" where
  "exec_fetch 0 P uargv argv = ret (False, argv)"
| "exec_fetch (Suc n) P uargv argv =
     seqc (fetchaddr P (uargv + 8 * of_nat (length argv))) (\<lambda>u. case u of None \<Rightarrow> ret (False, argv) | Some uarg \<Rightarrow>
     if uarg = 0 then ret (True, argv)
     else
       seqc (on_mem kalloc) (\<lambda>pg.
       if pg = 0 then ret (False, argv)
       else
         seqc (fetchstr uarg pg 4096) (\<lambda>r.
         case r of None \<Rightarrow> ret (False, argv @ [pg]) | Some _ \<Rightarrow> exec_fetch n P uargv (argv @ [pg]))))"

fun free_args :: "uint64 list \<Rightarrow> unit call" where
  "free_args [] = ret ()"
| "free_args (a # as) = seqc (do_kern (on_km (kfree a))) (\<lambda>_. free_args as)"

definition sys_exec :: "places \<Rightarrow> uint64 \<Rightarrow> int call" where
  "sys_exec P trampoline =
     seqc (argaddr 1) (\<lambda>uargv.
     seqc (argstr 0 (at_path P)) (\<lambda>path. case path of None \<Rightarrow> ret (-1) | Some path \<Rightarrow>
     seqc (exec_fetch MAXARG P uargv []) (\<lambda>(ok, argv).
     if ok then seqc (exec P trampoline path argv) (\<lambda>r. seqc (free_args argv) (\<lambda>_. ret r))
     else seqc (free_args argv) (\<lambda>_. ret (-1)))))"

end
