(* ===== verification/Syscall.thy ===== *)
theory Syscall
  imports Exec
begin

unbundle bit_operations_syntax

text \<open>
  The process system calls, \<^verbatim>\<open>kernel/sysproc.c\<close>, the dispatcher of \<^verbatim>\<open>kernel/syscall.c\<close> and the traps of
  \<^verbatim>\<open>kernel/trap.c\<close>. \<open>hart\<close> holds the linker's and the hardware's contribution: addresses of code, this
  hart, its page table register, the interrupt the controller reports and what the disk driver does with its
  own. The interrupt enable bit is the subject of \<open>Spinlock\<close> and not part of this state.
\<close>

section \<open>Process system calls\<close>

record hart =
  trampoline :: uint64
  uservec :: uint64
  userret :: uint64
  forkret :: uint64
  usertrap_at :: uint64
  hartid :: uint64
  satp :: uint64
  irq :: int
  intr_get :: bool
  virtio_disk_intr :: "osys \<Rightarrow> osys result"

text \<open>Giving up the processor: the call is cut here.\<close>

definition switch_away :: "'a call" where
  "switch_away s = Inr (Sleeps, s)"

definition widen :: "int call \<Rightarrow> uint64 call" where
  "widen c = seqc c (\<lambda>r. ret (of_int r))"

definition sys_exit :: "uint64 call" where
  "sys_exit = seqc (argint 0) (\<lambda>n. seqc (exit_call n) (\<lambda>_. switch_away))"

definition sys_getpid :: "uint64 call" where
  "sys_getpid = seqc cur_proc (\<lambda>p. ret (of_int (pid p)))"

definition sys_fork :: "hart \<Rightarrow> uint64 call" where
  "sys_fork M = widen (fork (trampoline M) (forkret M))"

definition block_kern :: "(kern \<Rightarrow> ('a blocking \<times> kern) result) \<Rightarrow> 'a call" where
  "block_kern g s = bnd (g (kn (fsy s))) (\<lambda>(b, k). Inr (b, s\<lparr>fsy := (fsy s)\<lparr>kn := k\<rparr>\<rparr>))"

definition sys_wait :: "places \<Rightarrow> uint64 call" where
  "sys_wait P = seqc (argaddr 0) (\<lambda>p. widen (block_kern (wait (at_xstate P) p)))"

definition sys_sbrk :: "uint64 call" where
  "sys_sbrk =
     seqc (argint 0) (\<lambda>n.
     seqc cur_proc (\<lambda>p.
     seqc (on_kern (growproc n)) (\<lambda>r.
     ret (if r < 0 then - 1 else sz p))))"

text \<open>One pass of the loop of \<open>sys_sleep\<close>, entered with \<open>tickslock\<close> held; the test is between unsigned numbers.\<close>

definition sleep_pass :: "uint \<Rightarrow> int \<Rightarrow> kern \<Rightarrow> (int blocking \<times> kern) result" where
  "sleep_pass ticks0 n k =
     (if ticks k - ticks0 < of_int n then
        bnd (myproc k) (\<lambda>p.
        bnd (is_killed p k) (\<lambda>(kl, k).
        if kl \<noteq> 0 then bnd (release_k TicksLock k) (\<lambda>k. Inr (Returns (-1), k))
        else bnd (sleep_enter OnTicks TicksLock k) (\<lambda>k. Inr (Sleeps, k))))
      else bnd (release_k TicksLock k) (\<lambda>k. Inr (Returns 0, k)))"

definition sys_sleep :: "uint64 call" where
  "sys_sleep =
     seqc (argint 0) (\<lambda>n.
     widen (block_kern (\<lambda>k. bnd (acquire_k TicksLock k) (\<lambda>k. sleep_pass (ticks k) n k))))"

definition sys_kill :: "uint64 call" where
  "sys_kill = seqc (argint 0) (\<lambda>pd. widen (on_kern (kill pd)))"

definition sys_uptime :: "uint64 call" where
  "sys_uptime = on_kern (\<lambda>k. bnd (acquire_k TicksLock k) (\<lambda>k. let x = ticks k in bnd (release_k TicksLock k) (\<lambda>k. Inr (ucast x, k))))"

text \<open>\<open>sys_waitx\<close>; the two local variables keep what the stack held when \<open>waitx\<close> does not set them.\<close>

definition sys_waitx :: "places \<Rightarrow> uint64 call" where
  "sys_waitx P =
     seqc (argaddr 0) (\<lambda>addr. seqc (argaddr 1) (\<lambda>addr1. seqc (argaddr 2) (\<lambda>addr2.
     seqc (block_kern (waitx (at_xstate P) addr)) (\<lambda>(r, times).
     seqc (do_kern (\<lambda>k. Inr (case times of None \<Rightarrow> k
             | Some (wt, rt) \<Rightarrow> poke (at_word P + 4) (bytes_le 4 rt) (poke (at_word P) (bytes_le 4 wt) k)))) (\<lambda>_.
     seqc (on_kern (copyout_cur addr1 (at_word P) 4)) (\<lambda>c.
     if c < 0 then ret (- 1)
     else seqc (on_kern (copyout_cur addr2 (at_word P + 4) 4)) (\<lambda>c.
       ret (if c < 0 then - 1 else of_int r))))))))"

definition sys_setpriority_call :: "uint64 call" where
  "sys_setpriority_call =
     seqc (argint 0) (\<lambda>pd. seqc (argint 1) (\<lambda>prio.
     seqc (on_kern (\<lambda>k. bnd (sys_setpriority pd prio (procs k)) (\<lambda>(old, y, ps). Inr ((old, y), k\<lparr>procs := ps\<rparr>)))) (\<lambda>(old, y).
     if y then seqc (do_kern yield_enter) (\<lambda>_. switch_away) else ret (of_int old))))"

section \<open>Dispatch\<close>

definition syscalls :: "places \<Rightarrow> hart \<Rightarrow> int \<Rightarrow> uint64 call option" where
  "syscalls P M num =
     map_of [(1, sys_fork M), (2, sys_exit), (3, sys_wait P), (4, widen (sys_pipe P)), (5, widen (sys_read P)), (6, sys_kill),
       (7, widen (sys_exec P (trampoline M))), (8, widen (sys_fstat P)), (9, widen (sys_chdir P)), (10, widen sys_dup), (11, sys_getpid),
       (12, sys_sbrk), (13, sys_sleep), (14, sys_uptime), (15, widen (sys_open P)), (16, widen (sys_write P)), (17, widen (sys_mknod P)),
       (18, widen (sys_unlink P)), (19, widen (sys_link P)), (20, widen (sys_mkdir P)), (21, widen sys_close), (22, sys_waitx P),
       (23, widen sys_getreadcount), (24, sys_setpriority_call)] num"

definition put_tf :: "uint64 \<Rightarrow> uint64 \<Rightarrow> uint64 \<Rightarrow> unit call" where
  "put_tf tf off v = do_kern (\<lambda>k. Inr (set_tf tf off v k))"

definition get_tf :: "uint64 \<Rightarrow> uint64 \<Rightarrow> uint64 call" where
  "get_tf tf off = get_os (\<lambda>s. Inr (load64 (kmem_of s) (tf + off)))"

definition syscall :: "places \<Rightarrow> hart \<Rightarrow> unit call" where
  "syscall P M =
     seqc cur_proc (\<lambda>p.
     seqc (get_tf (trapframe p) (tf_a 7)) (\<lambda>a7.
     case syscalls P M (sint (ucast a7 :: uint)) of
       Some f \<Rightarrow> seqc f (\<lambda>r. put_tf (trapframe p) (tf_a 0) r)
     | None \<Rightarrow> put_tf (trapframe p) (tf_a 0) (- 1)))"

section \<open>Interrupts\<close>

definition clockintr :: "kern \<Rightarrow> kern result" where
  "clockintr k =
     bnd (acquire_k TicksLock k) (\<lambda>k.
     bnd (on_procs update_time (k\<lparr>ticks := ticks k + 1\<rparr>)) (\<lambda>k.
     bnd (wakeup OnTicks k) (release_k TicksLock)))"

definition UART0_IRQ :: int where "UART0_IRQ = 10"

definition VIRTIO0_IRQ :: int where "VIRTIO0_IRQ = 1"

definition devintr :: "places \<Rightarrow> hart \<Rightarrow> uint64 \<Rightarrow> int call" where
  "devintr P M scause =
     (if bit scause 63 \<and> scause AND 0xff = 9 then
        seqc (if irq M = UART0_IRQ then tty_call (\<lambda>tk. bnd (uartintr (uart_idle P 0) tk) (\<lambda>(t, k). Inr (Returns (), t, k)))
              else if irq M = VIRTIO0_IRQ then (\<lambda>s. bnd (virtio_disk_intr M s) (\<lambda>s. Inr (Returns (), s)))
              else ret ()) (\<lambda>_. ret 1)
      else if scause = 0x8000000000000001 then
        seqc (if hartid M = 0 then do_kern clockintr else ret ()) (\<lambda>_. ret 2)
      else ret 0)"

section \<open>Traps\<close>

record trapregs =
  scause :: uint64
  sepc :: uint64
  stval :: uint64
  sstatus :: uint64

definition SSTATUS_SPP :: uint64 where "SSTATUS_SPP = push_bit 8 1"

definition SSTATUS_SPIE :: uint64 where "SSTATUS_SPIE = push_bit 5 1"

text \<open>The way back to user space: the registers set for \<open>sret\<close> and the page table passed to the trampoline.\<close>

record toward_user =
  u_stvec :: uint64
  u_sstatus :: uint64
  u_sepc :: uint64
  u_satp :: uint64

definition usertrapret :: "hart \<Rightarrow> trapregs \<Rightarrow> toward_user call" where
  "usertrapret M r =
     seqc cur_proc (\<lambda>p.
     seqc (put_tf (trapframe p) 0 (satp M)) (\<lambda>_.
     seqc (put_tf (trapframe p) 8 (kstack p + PGSIZE)) (\<lambda>_.
     seqc (put_tf (trapframe p) 16 (usertrap_at M)) (\<lambda>_.
     seqc (put_tf (trapframe p) 32 (hartid M)) (\<lambda>_.
     seqc (get_tf (trapframe p) tf_epc) (\<lambda>epc.
     ret \<lparr>u_stvec = TRAMPOLINE + (uservec M - trampoline M), u_sstatus = (sstatus r AND NOT SSTATUS_SPP) OR SSTATUS_SPIE,
          u_sepc = epc, u_satp = MAKE_SATP (pagetable p)\<rparr>))))))"

definition killed_call :: "int call" where
  "killed_call = on_kern (\<lambda>k. bnd (myproc k) (\<lambda>p. is_killed p k))"

definition exit_now :: "'a call" where
  "exit_now = seqc (exit_call (-1)) (\<lambda>_. switch_away)"

text \<open>The branch for a store page fault.\<close>

definition store_fault :: "uint64 \<Rightarrow> unit call" where
  "store_fault va =
     seqc cur_proc (\<lambda>p.
     seqc (get_tf (trapframe p) tf_sp) (\<lambda>usp.
     if va \<ge> MAXVA \<or> va \<ge> PGROUNDDOWN usp - PGSIZE \<and> va \<le> PGROUNDDOWN usp
     then upd_cur (\<lambda>q. q\<lparr>killed := 1\<rparr>)
     else seqc (on_mem (custom_cow (pagetable p) va)) (\<lambda>c. upd_cur (\<lambda>q. q\<lparr>killed := c\<rparr>))))"

definition usertrap :: "places \<Rightarrow> hart \<Rightarrow> trapregs \<Rightarrow> toward_user call" where
  "usertrap P M r =
     (if sstatus r AND SSTATUS_SPP \<noteq> 0 then get_os (\<lambda>_. Inl (Panic ''usertrap: not from user mode''))
      else
        seqc cur_proc (\<lambda>p.
        seqc (put_tf (trapframe p) tf_epc (sepc r)) (\<lambda>_.
        seqc (if scause r = 8 then
                seqc killed_call (\<lambda>kl. if kl \<noteq> 0 then exit_now else
                seqc (put_tf (trapframe p) tf_epc (sepc r + 4)) (\<lambda>_.
                seqc (syscall P M) (\<lambda>_. ret 0)))
              else if scause r = 15 then seqc (store_fault (stval r)) (\<lambda>_. ret 0)
              else
                seqc (devintr P M (scause r)) (\<lambda>d.
                if d \<noteq> 0 then ret d else seqc (do_kern (\<lambda>k. bnd (myproc k) (\<lambda>i. setkilled i k))) (\<lambda>_. ret 0))) (\<lambda>which_dev.
        seqc killed_call (\<lambda>kl.
        if kl \<noteq> 0 then exit_now
        else if which_dev = 2 then seqc (do_kern yield_enter) (\<lambda>_. switch_away)
        else usertrapret M r)))))"

text \<open>A trap from kernel code; the result is the pair of registers restored at the end.\<close>

definition kerneltrap :: "places \<Rightarrow> hart \<Rightarrow> trapregs \<Rightarrow> (uint64 \<times> uint64) call" where
  "kerneltrap P M r =
     (if sstatus r AND SSTATUS_SPP = 0 then get_os (\<lambda>_. Inl (Panic ''kerneltrap: not from supervisor mode''))
      else if intr_get M then get_os (\<lambda>_. Inl (Panic ''kerneltrap: interrupts enabled''))
      else
        seqc (devintr P M (scause r)) (\<lambda>d.
        if d = 0 then get_os (\<lambda>_. Inl (Panic ''kerneltrap''))
        else
          seqc (get_os (\<lambda>s. Inr (case cur (kn (fsy s)) of None \<Rightarrow> False | Some i \<Rightarrow> state (procs (kn (fsy s)) ! i) = RUNNING))) (\<lambda>running.
          if d = 2 \<and> running then seqc (do_kern yield_enter) (\<lambda>_. switch_away)
          else ret (sepc r, sstatus r))))"

end
