(* ===== verification/File_Refs.thy ===== *)
theory File_Refs
  imports Syscall Fs_View
begin

text \<open>
  The reference counts of open files. The kernel's operations are followed through to the descriptor tables
  of all processes: \<open>L\<close> lists the descriptor table of each process, \<open>c\<close> is the current process, and processes
  that do not exist, or have exited, have no descriptors.
\<close>

section \<open>Descriptor tables\<close>

definition gone :: "proc \<Rightarrow> bool" where
  "gone p \<longleftrightarrow> state p = UNUSED \<or> state p = ZOMBIE"

definition clean :: "nat option list \<Rightarrow> bool" where
  "clean os \<longleftrightarrow> set os \<subseteq> {None}"

text \<open>An entry without descriptors that is not the one of the current process.\<close>

definition spare :: "nat option list list \<Rightarrow> nat option \<Rightarrow> nat \<Rightarrow> bool" where
  "spare L c i \<longleftrightarrow> clean (L ! i) \<and> c \<noteq> Some i"

definition tbal :: "nat option list list \<Rightarrow> nat option \<Rightarrow> ptable \<Rightarrow> bool" where
  "tbal L c ps \<longleftrightarrow> map ofile ps = L \<and> (\<forall>i < length ps. gone (ps ! i) \<longrightarrow> spare L c i)"

definition kbal :: "nat option list list \<Rightarrow> nat option \<Rightarrow> kern \<Rightarrow> bool" where
  "kbal L c k \<longleftrightarrow> tbal L c (procs k) \<and> (c \<noteq> None \<longrightarrow> cur k = c)"

lemma tbal_update:
  assumes "tbal L c ps" "ofile p = ofile (ps ! i)" "gone p \<longrightarrow> gone (ps ! i) \<or> spare L c i"
  shows "tbal L c (ps[i := p])"
proof (cases "i < length ps")
  case True
  have "L ! i = ofile (ps ! i)" using assms(1) True by (auto simp: tbal_def)
  moreover have "map ofile (ps[i := p]) = L" using assms(1,2) True by (auto simp: tbal_def map_update list_update_same_conv)
  ultimately show ?thesis using assms(1,3) True unfolding tbal_def by (auto simp: nth_list_update)
qed (use assms(1) in \<open>simp add: list_update_beyond\<close>)

section \<open>Operations on the process table\<close>

definition tq :: "nat option list list \<Rightarrow> nat option \<Rightarrow> ('a \<Rightarrow> ptable) \<Rightarrow> 'a result \<Rightarrow> bool" where
  "tq L c st r \<longleftrightarrow> (\<forall>x. r = Inr x \<longrightarrow> tbal L c (st x))"

named_theorems tkeep \<open>operations that leave the descriptors of every process alone\<close>

lemma tq_intros [tkeep]:
  "tbal L c (st x) \<Longrightarrow> tq L c st (Inr x)" "tq L c st (Inl e)" "(b \<Longrightarrow> tq L c st x1) \<Longrightarrow> (\<not> b \<Longrightarrow> tq L c st x2) \<Longrightarrow> tq L c st (if b then x1 else x2)"
  by (simp_all add: tq_def)

lemma tq_bnd [tkeep]:
  fixes r :: "ptable result" and q :: "(int \<times> ptable) result" and p :: "proc result" and s :: "(int \<times> proc) result"
  shows "tq L c id r \<Longrightarrow> (\<And>ps. tbal L c ps \<Longrightarrow> tq L c st (g ps)) \<Longrightarrow> tq L c st (bnd r g)"
    "tq L c snd q \<Longrightarrow> (\<And>a ps. tbal L c ps \<Longrightarrow> tq L c st (h (a, ps))) \<Longrightarrow> tq L c st (bnd q h)"
    "(\<And>x. p = Inr x \<Longrightarrow> tq L c st (d x)) \<Longrightarrow> tq L c st (bnd p d)"
    "(\<And>a x. s = Inr (a, x) \<Longrightarrow> tq L c st (e (a, x))) \<Longrightarrow> tq L c st (bnd s e)"
  by (auto simp: tq_def bnd_eq_Inr)

lemma upd_p_tq:
  "tbal L c ps \<Longrightarrow> ofile (g (ps ! i)) = ofile (ps ! i) \<Longrightarrow> gone (g (ps ! i)) \<longrightarrow> gone (ps ! i) \<or> spare L c i \<Longrightarrow> tq L c id (upd_p i g ps)"
  by (auto simp: tq_def upd_p_def intro: tbal_update)

lemma lock_tq [tkeep]: "tbal L c ps \<Longrightarrow> tq L c id (acquire_p i ps)" "tbal L c ps \<Longrightarrow> tq L c id (release_p i ps)"
  unfolding acquire_p_def release_p_def by (intro tkeep upd_p_tq; simp add: gone_def)+

definition harmless :: "(proc \<Rightarrow> proc) \<Rightarrow> bool" where
  "harmless g \<longleftrightarrow> (\<forall>p. ofile (g p) = ofile p \<and> (gone (g p) \<longrightarrow> gone p))"

lemma harmless_tq [tkeep]: "tbal L c ps \<Longrightarrow> harmless g \<Longrightarrow> tq L c id (upd_p i g ps)" "tbal L c ps \<Longrightarrow> harmless g \<Longrightarrow> tq L c id (locked_p i g ps)"
  unfolding locked_p_def harmless_def by (intro tkeep upd_p_tq; simp)+

lemma for_each_tq:
  assumes "tbal L c (st s)" "\<And>i s. tbal L c (st s) \<Longrightarrow> tq L c st (g i s)"
  shows "tq L c st (for_each g xs s)"
  using assms(1)
proof (induction xs arbitrary: s)
  case (Cons x xs)
  show ?case
    using assms(2)[OF Cons.prems, of x] Cons.IH by (auto simp: tq_def bnd_eq_Inr)
qed (simp add: tq_def)

lemma update_time_tq [tkeep]: "tbal L c ps \<Longrightarrow> tq L c id (update_time ps)"
  unfolding update_time_def by (intro for_each_tq tkeep; simp add: harmless_def tick_proc_def gone_def)

lemma dp_ofile: "sdp_priority p = Inr (a, p') \<Longrightarrow> ofile p' = ofile p \<and> state p' = state p"
  by (auto simp: sdp_priority_def bnd_eq_Inr Let_def split: if_splits)

lemma setpriority_tq: "tbal L c ps \<Longrightarrow> tq L c snd (setpriority pd prio ps)"
proof -
  assume t: "tbal L c ps"
  have "tq L c (\<lambda>(_, _, ps). ps) (setpriority_body pd prio i s)" if "tbal L c ((\<lambda>(_, _, ps). ps) s)" for i s
    using that unfolding setpriority_body_def split_def by (intro tkeep; simp add: harmless_def gone_def)
  from for_each_tq[of L c "\<lambda>(_, _, ps). ps" "(False, 0, ps)" "setpriority_body pd prio", OF _ this] t
  have "tq L c (\<lambda>(_, _, ps). ps) (for_each (setpriority_body pd prio) [0..<NPROC] (False, 0, ps))" by simp
  then show ?thesis unfolding setpriority_def by (auto simp: tq_def bnd_eq_Inr split: if_splits)
qed

lemma find_and_set_tq: "tbal L c ps \<Longrightarrow> tq L c (\<lambda>(_, _, ps). ps) (find_and_set pd is ps)"
proof (induction "is" arbitrary: ps)
  case (Cons i "is")
  have "tbal L c (ps[i := p'])" if "i < length ps" "sdp_priority (ps ! i) = Inr (a, p')" for a p'
    using dp_ofile[OF that(2)] by (intro tbal_update Cons.prems) (simp_all add: gone_def)
  then show ?case using Cons by (auto simp: tq_def bnd_eq_Inr get_p_def upd_p_def split: if_splits)
qed (simp add: tq_def)

lemma sys_setpriority_tq: "tbal L c ps \<Longrightarrow> tq L c (\<lambda>(_, _, ps). ps) (sys_setpriority pd prio ps)"
  using setpriority_tq[of L c ps pd prio] find_and_set_tq
  by (fastforce simp: sys_setpriority_def tq_def bnd_eq_Inr split: if_splits)

section \<open>Operations on the kernel state\<close>

definition kq :: "nat option list list \<Rightarrow> nat option \<Rightarrow> ('a \<Rightarrow> kern) \<Rightarrow> 'a result \<Rightarrow> bool" where
  "kq L c st r \<longleftrightarrow> (\<forall>x. r = Inr x \<longrightarrow> kbal L c (st x))"

named_theorems kkeep \<open>kernel operations that leave the descriptors of every process alone\<close>

lemma kbal_km [simp]:
  "kbal L c (k\<lparr>km := m\<rparr>) = kbal L c k" "kbal L c (k\<lparr>ticks := t\<rparr>) = kbal L c k" "kbal L c (k\<lparr>klocks := l\<rparr>) = kbal L c k"
  "kbal L c (k\<lparr>nextpid := n\<rparr>) = kbal L c k" "kbal L c (k\<lparr>initproc := i\<rparr>) = kbal L c k" "kbal L c (poke a bs k) = kbal L c k"
  "kbal L c (set_tf tf off v k) = kbal L c k"
  by (simp_all add: kbal_def poke_def set_tf_def)

lemma kq_intros [kkeep]:
  "kbal L c (st x) \<Longrightarrow> kq L c st (Inr x)" "kq L c st (Inl e)" "(b \<Longrightarrow> kq L c st x1) \<Longrightarrow> (\<not> b \<Longrightarrow> kq L c st x2) \<Longrightarrow> kq L c st (if b then x1 else x2)"
  "(v = None \<Longrightarrow> kq L c st x1) \<Longrightarrow> (\<And>a. v = Some a \<Longrightarrow> kq L c st (y a)) \<Longrightarrow> kq L c st (case v of None \<Rightarrow> x1 | Some a \<Rightarrow> y a)"
  by (simp_all add: kq_def split: option.splits)

lemma kq_bnd [kkeep]:
  fixes r :: "kern result" and p :: "proc result" and n :: "nat result" and m :: "('b \<times> kmem) result" and w :: "kmem result" and u :: "unit result"
  shows "kq L c id r \<Longrightarrow> (\<And>k. kbal L c k \<Longrightarrow> kq L c st (g k)) \<Longrightarrow> kq L c st (bnd r g)"
    "kq L c snd q \<Longrightarrow> (\<And>a k. kbal L c k \<Longrightarrow> kq L c st (h (a, k))) \<Longrightarrow> kq L c st (bnd q h)"
    "(\<And>x. p = Inr x \<Longrightarrow> kq L c st (d1 x)) \<Longrightarrow> kq L c st (bnd p d1)" "(\<And>x. n = Inr x \<Longrightarrow> kq L c st (d2 x)) \<Longrightarrow> kq L c st (bnd n d2)"
    "(\<And>a x. kq L c st (d3 (a, x))) \<Longrightarrow> kq L c st (bnd m d3)" "(\<And>x. kq L c st (d4 x)) \<Longrightarrow> kq L c st (bnd w d4)"
    "(\<And>x. kq L c st (d5 x)) \<Longrightarrow> kq L c st (bnd u d5)"
  by (auto simp: kq_def bnd_eq_Inr)

lemma on_procs_kq: "kbal L c k \<Longrightarrow> (tbal L c (procs k) \<Longrightarrow> tq L c id (g (procs k))) \<Longrightarrow> kq L c id (on_procs g k)"
  by (auto simp: kq_def tq_def on_procs_def bnd_eq_Inr kbal_def)

lemma lock_kq [kkeep]:
  "kbal L c k \<Longrightarrow> kq L c id (lockp i k)" "kbal L c k \<Longrightarrow> kq L c id (unlockp i k)" "kbal L c k \<Longrightarrow> kq L c id (acquire_k l k)"
  "kbal L c k \<Longrightarrow> kq L c id (release_k l k)" "kbal L c k \<Longrightarrow> kq L c id (on_km f k)"
  by (intro on_procs_kq tkeep; assumption)+ (auto simp: kq_def acquire_k_def release_k_def on_km_def bnd_eq_Inr split: if_splits)

lemma harmless_kq [kkeep]:
  "kbal L c k \<Longrightarrow> harmless g \<Longrightarrow> kq L c id (setp i g k)" "kbal L c k \<Longrightarrow> harmless g \<Longrightarrow> kq L c id (on_procs (locked_p i g) k)"
  "kbal L c k \<Longrightarrow> kq L c id (on_procs update_time k)"
  by (intro on_procs_kq tkeep; assumption)+

lemma kq_for_each [kkeep]:
  assumes "kbal L c k" "\<And>i k. kbal L c k \<Longrightarrow> kq L c id (g i k)"
  shows "kq L c id (for_each g xs k)"
  using assms(1)
proof (induction xs arbitrary: k)
  case (Cons x xs)
  show ?case unfolding for_each.simps by (intro kkeep assms(2) Cons)
qed (simp add: kq_def)

lemma harmless_simps [simp]:
  "harmless (\<lambda>p. p\<lparr>killed := v\<rparr>)" "harmless (\<lambda>p. p\<lparr>parent := q\<rparr>)" "harmless (\<lambda>p. p\<lparr>chan := ch\<rparr>)" "harmless (\<lambda>p. p\<lparr>sz := z\<rparr>)" "harmless (\<lambda>p. p\<lparr>sz := sz p\<rparr>)"
  "harmless (\<lambda>p. p\<lparr>trapframe := z\<rparr>)" "harmless (\<lambda>p. p\<lparr>pagetable := z\<rparr>)" "harmless (\<lambda>p. p\<lparr>cwd := w\<rparr>)" "harmless (\<lambda>p. p\<lparr>cwd := w, name := nm\<rparr>)"
  "harmless (\<lambda>p. p\<lparr>state := RUNNABLE\<rparr>)" "harmless (\<lambda>p. p\<lparr>state := SLEEPING\<rparr>)" "harmless (\<lambda>p. p\<lparr>chan := ch, state := SLEEPING\<rparr>)"
  "harmless (\<lambda>p. p\<lparr>pid := pd, state := USED\<rparr>)" "harmless (\<lambda>p. p\<lparr>name := nm, pagetable := z, sz := z'\<rparr>)"
  "harmless (\<lambda>p. p\<lparr>killed := 1, state := (if state p = SLEEPING then RUNNABLE else state p)\<rparr>)" "harmless (wake_proc ch)" "harmless (\<lambda>p. p)"
  by (simp_all add: harmless_def gone_def wake_proc_def)

lemma wakeup_kq [kkeep]: "kbal L c k \<Longrightarrow> kq L c id (wakeup ch k)"
  unfolding wakeup_def by (intro kkeep; simp)

lemma kill_kq [kkeep]: "kbal L c k \<Longrightarrow> kq L c snd (kill pd k)"
proof -
  have "kbal L c k \<Longrightarrow> kq L c snd (kill_loop pd is k)" for "is"
  proof (induction "is" arbitrary: k)
    case (Cons i "is")
    show ?case unfolding kill_loop.simps by (intro kkeep Cons; simp)
  qed (simp add: kq_def)
  then show "kbal L c k \<Longrightarrow> kq L c snd (kill pd k)" by (simp add: kill_def)
qed

lemma sleep_kq [kkeep]:
  "kbal L c k \<Longrightarrow> kq L c id (setkilled i k)" "kbal L c k \<Longrightarrow> kq L c snd (is_killed i k)" "kbal L c k \<Longrightarrow> kq L c id (sleep_enter ch lk k)"
  "kbal L c k \<Longrightarrow> kq L c id (yield_enter k)" "kbal L c k \<Longrightarrow> kq L c id (reparent i k)" "kbal L c k \<Longrightarrow> kq L c snd (growproc n k)"
  unfolding setkilled_def is_killed_def sleep_enter_def yield_enter_def reparent_def growproc_def split_def by (intro kkeep; simp)+

text \<open>Freeing an entry is safe when it has no descriptors.\<close>

lemma freeproc_kq:
  assumes "kbal L c k" "i < length L \<Longrightarrow> spare L c i"
  shows "kq L c id (freeproc i k)"
proof -
  have cl: "spare L c i" if "kbal L c k" "i < length (procs k)" for k
    using that assms(2) by (auto simp: kbal_def tbal_def)
  have fin: "kq L c id (setp i (\<lambda>p. p\<lparr>pagetable := 0, sz := 0, pid := 0, parent := None, name := [], chan := NoChan,
       killed := 0, xstate := 0, state := UNUSED, pbs_static_priority := 0, pbs_dynamic_priority := 0,
       pbs_rbi := 0, pbs_rtime := 0, pbs_wtime := 0, pbs_stime := 0, pbs_num_sched := 0\<rparr>) k)" if k: "kbal L c k" for k
    using cl[OF k] k by (auto simp: kq_def on_procs_def upd_p_def bnd_eq_Inr kbal_def intro!: tbal_update)
  show ?thesis unfolding freeproc_def by (intro fin kkeep assms(1); simp add: assms(1))
qed

lemma kbal_gone: "kbal L c k \<Longrightarrow> getp i k = Inr p \<Longrightarrow> gone p \<Longrightarrow> spare L c i"
  by (auto simp: kbal_def tbal_def getp_def get_p_def split: if_splits)

lemma copyout_kq [kkeep]: "kbal L c k \<Longrightarrow> kq L c snd (copyout_xstate xa pt addr j k)" "kbal L c k \<Longrightarrow> kq L c snd (copyout_cur dst a n k)"
  unfolding copyout_xstate_def copyout_cur_def Let_def split_def by (intro kkeep; simp)+

lemma freeproc_zombie_kq:
  "kbal L c k0 \<Longrightarrow> getp i k0 = Inr p \<Longrightarrow> state p = ZOMBIE \<Longrightarrow> kbal L c k \<Longrightarrow> kq L c id (freeproc i k)"
  by (rule freeproc_kq) (auto dest: kbal_gone simp: gone_def)

lemma wait_scan_kq: "kbal L c k \<Longrightarrow> kq L c snd (wait_scan xa i addr js hk k)"
proof (induction js arbitrary: hk k)
  case (Cons j js)
  show ?case
    unfolding wait_scan.simps split_def
    by (intro kkeep Cons freeproc_zombie_kq[OF Cons.prems]; simp add: Cons)
qed (simp add: kq_def)

lemma wait_kq [kkeep]: "kbal L c k \<Longrightarrow> kq L c snd (wait xa addr k)" "kbal L c k \<Longrightarrow> kq L c snd (waitx xa addr k)"
proof -
  assume k: "kbal L c k"
  have sp: "kq L c snd (case r of Inl v \<Rightarrow> f v | Inr h \<Rightarrow> g h)" if "\<And>v. kq L c snd (f v)" "\<And>h. kq L c snd (g h)"
    for r :: "'x + bool" and f :: "'x \<Rightarrow> ('z \<times> kern) result" and g using that by (cases r) auto
  show "kq L c snd (wait xa addr k)" "kq L c snd (waitx xa addr k)"
    unfolding wait_def waitx_def split_def by (intro kkeep sp wait_scan_kq k; simp)+
qed

text \<open>Allocation takes an entry that has no descriptors.\<close>

lemma allocproc_find_kq:
  "kbal L c k \<Longrightarrow> allocproc_find is k = Inr (r, k') \<Longrightarrow> kbal L c k' \<and> (\<forall>i. r = Some i \<longrightarrow> i < length L \<and> spare L c i)"
proof (induction "is" arbitrary: k)
  case (Cons i "is")
  obtain k1 where k1: "lockp i k = Inr k1" using Cons.prems(2) by (auto simp: bnd_eq_Inr)
  have b1: "kbal L c k1" using lock_kq(1)[OF Cons.prems(1), of i] k1 by (simp add: kq_def)
  obtain p where p: "getp i k1 = Inr p" using Cons.prems(2) k1 by (auto simp: bnd_eq_Inr)
  show ?case
  proof (cases "state p = UNUSED")
    case True
    have "i < length L" using p b1 by (auto simp: kbal_def tbal_def getp_def get_p_def split: if_splits)
    then show ?thesis using Cons.prems(2) k1 p True b1 kbal_gone[OF b1 p] by (auto simp: gone_def)
  next
    case False
    then obtain k2 where k2: "unlockp i k1 = Inr k2" "allocproc_find is k2 = Inr (r, k')" using Cons.prems(2) k1 p by (auto simp: bnd_eq_Inr)
    then show ?thesis using Cons.IH lock_kq(2)[OF b1, of i] by (simp add: kq_def)
  qed
qed simp

lemma allocpid_kq [kkeep]: "kbal L c k \<Longrightarrow> kq L c snd (allocpid k)"
  unfolding allocpid_def Let_def by (intro kkeep; simp)

lemma allocproc_kq:
  assumes k: "kbal L c k" and r: "allocproc tr fr k = Inr (r, k')"
  shows "kbal L c k'" "r = Some i \<Longrightarrow> i < length L \<and> spare L c i \<and> state (procs k' ! i) = USED"
proof -
  obtain f k1 where f: "allocproc_find [0..<NPROC] k = Inr (f, k1)" using r by (auto simp: allocproc_def bnd_eq_Inr)
  note F = allocproc_find_kq[OF k f]
  have "kbal L c k' \<and> (\<forall>i. r = Some i \<longrightarrow> i < length L \<and> spare L c i \<and> state (procs k' ! i) = USED)"
  proof (cases f)
    case None
    then show ?thesis using r f F by (simp add: allocproc_def)
  next
    case (Some n)
    have n: "n < length L" "spare L c n" "kbal L c k1" using F Some by auto
    define rest where "rest = bnd (allocpid k1) (\<lambda>(pd, k).
     bnd (setp n (\<lambda>p. p\<lparr>pid := pd, state := USED\<rparr>) k) (\<lambda>k.
     bnd (kalloc (km k)) (\<lambda>(tf, s).
     bnd (setp n (\<lambda>p. p\<lparr>trapframe := tf\<rparr>) (k\<lparr>km := s\<rparr>)) (\<lambda>k.
     if tf = 0 then bnd (freeproc n k) (\<lambda>k. bnd (unlockp n k) (\<lambda>k. Inr (None, k)))
     else
       bnd (proc_pagetable tr tf (km k)) (\<lambda>(pt, s).
       bnd (setp n (\<lambda>p. p\<lparr>pagetable := pt\<rparr>) (k\<lparr>km := s\<rparr>)) (\<lambda>k.
       if pt = 0 then bnd (freeproc n k) (\<lambda>k. bnd (unlockp n k) (\<lambda>k. Inr (None, k)))
       else
         bnd (setp n (\<lambda>p. p\<lparr>ctx := \<lparr>ra = fr, sp = kstack p + PGSIZE, callee_saved = replicate 12 0\<rparr>,
                rtime := 0, etime := 0, ctime := ticks k, pbs_static_priority := 50,
                pbs_dynamic_priority := 0, pbs_rbi := 0, pbs_rtime := 0, pbs_wtime := 0, pbs_stime := 0,
                pbs_num_sched := 0\<rparr>) k) (\<lambda>k. Inr (Some n, k))))))))"
    have rest: "rest = Inr (r, k')" using r f Some by (simp add: allocproc_def rest_def split_def)
    have "kq L c snd rest"
      unfolding rest_def split_def by (intro kkeep freeproc_kq; simp add: n harmless_def gone_def)
    moreover have "i = n \<and> state (procs k' ! i) = USED" if "r = Some i" for i
      using rest that unfolding rest_def by (auto simp: bnd_eq_Inr on_procs_def upd_p_def split: if_splits)
    ultimately show ?thesis using n rest by (auto simp: kq_def)
  qed
  then show "kbal L c k'" "r = Some i \<Longrightarrow> i < length L \<and> spare L c i \<and> state (procs k' ! i) = USED" by blast+
qed

section \<open>Calls\<close>

definition fdrefs :: "nat option list list \<Rightarrow> nat \<Rightarrow> int" where
  "fdrefs L i = (\<Sum>os\<leftarrow>L. cnt (\<lambda>x. x = Some i) os)"

text \<open>
  The counts are those of the descriptors plus \<open>d\<close>, the references the running call holds itself.
\<close>

definition bal :: "(nat \<Rightarrow> int) \<Rightarrow> nat option list list \<Rightarrow> nat option \<Rightarrow> osys \<Rightarrow> bool" where
  "bal d L c s \<longleftrightarrow> kbal L c (kn (fsy s)) \<and> length (ftable s) = NFILE \<and> length L = NPROC
     \<and> (\<forall>os \<in> set L. length os = NOFILE \<and> (\<forall>f. Some f \<in> set os \<longrightarrow> f < NFILE))
     \<and> (\<forall>i < NFILE. fref (ftable s ! i) = fdrefs L i + d i)"

definition ends :: "(osys \<Rightarrow> bool) \<Rightarrow> 'a call \<Rightarrow> ('a \<Rightarrow> osys \<Rightarrow> bool) \<Rightarrow> bool" where
  "ends P g Q \<longleftrightarrow> (\<forall>s a s'. P s \<and> g s = Inr (Returns a, s') \<longrightarrow> Q a s')"

text \<open>A call that leaves descriptors and counts alone.\<close>

abbreviation quiet :: "(nat \<Rightarrow> int) \<Rightarrow> nat option list list \<Rightarrow> nat option \<Rightarrow> 'a call \<Rightarrow> bool" where
  "quiet d L c g \<equiv> ends (bal d L c) g (\<lambda>_. bal d L c)"

named_theorems ckeep \<open>rules for calls\<close>

lemma seqc_Returns: "seqc g h s = Inr (Returns b, s') \<longleftrightarrow> (\<exists>a s1. g s = Inr (Returns a, s1) \<and> h a s1 = Inr (Returns b, s'))"
proof (cases "g s")
  case (Inr x)
  then show ?thesis by (cases x, cases "fst x") (auto simp: seqc_def)
qed (simp add: seqc_def)

lemma ends_seqc: "ends P g R \<Longrightarrow> (\<And>a. ends (R a) (h a) Q) \<Longrightarrow> ends P (seqc g h) Q"
  unfolding ends_def seqc_Returns by blast

lemma quiet_seqc [ckeep]: "quiet d L c g \<Longrightarrow> (\<And>a. ends (bal d L c) (h a) Q) \<Longrightarrow> ends (bal d L c) (seqc g h) Q"
  by (rule ends_seqc)

lemma ends_if [ckeep]: "(b \<Longrightarrow> ends P x Q) \<Longrightarrow> (\<not> b \<Longrightarrow> ends P y Q) \<Longrightarrow> ends P (if b then x else y) Q"
  by simp

lemma ends_case [ckeep]:
  "(v = None \<Longrightarrow> ends P x Q) \<Longrightarrow> (\<And>a. v = Some a \<Longrightarrow> ends P (y a) Q) \<Longrightarrow> ends P (case v of None \<Rightarrow> x | Some a \<Rightarrow> y a) Q"
  by (auto split: option.splits)

lemma ends_sum [ckeep]:
  "(\<And>a. v = Inl a \<Longrightarrow> ends P (x a) Q) \<Longrightarrow> (\<And>a. v = Inr a \<Longrightarrow> ends P (y a) Q) \<Longrightarrow> ends P (case v of Inl a \<Rightarrow> x a | Inr a \<Rightarrow> y a) Q"
  by (auto split: sum.splits)

lemma ends_pure: "(A \<Longrightarrow> ends P g Q) \<Longrightarrow> ends (\<lambda>s. P s \<and> A) g Q"
  by (auto simp: ends_def)

lemma ends_weaken: "ends P g R \<Longrightarrow> (\<And>a s. R a s \<Longrightarrow> Q a s) \<Longrightarrow> ends P g Q"
  by (auto simp: ends_def)

lemma quiet_basic [ckeep]: "quiet d L c (ret a)" "quiet d L c (get_os f)" "ends P switch_away Q" "ends P (get_os (\<lambda>_. Inl e)) Q"
  by (auto simp: ends_def ret_def get_os_def switch_away_def bnd_eq_Inr)

lemma quiet_on_fs [ckeep]: "(\<And>f. proc_view.kept (procs (kn f), cur (kn f)) snd (g f)) \<Longrightarrow> quiet d L c (on_fs g)"
proof -
  assume g: "\<And>f. proc_view.kept (procs (kn f), cur (kn f)) snd (g f)"
  have "procs (kn f') = procs (kn f) \<and> cur (kn f') = cur (kn f)" if "g f = Inr (a, f')" for f a f'
    using g[of f] that by (auto simp: proc_view.kept_def)
  then show ?thesis by (auto simp: ends_def on_fs_def bnd_eq_Inr bal_def kbal_def)
qed

lemma quiet_do_fs [ckeep]: "(\<And>f. proc_view.kept (procs (kn f), cur (kn f)) id (g f)) \<Longrightarrow> quiet d L c (do_fs g)"
  unfolding do_fs_def by (rule quiet_on_fs) (auto simp: proc_view.kept_def bnd_eq_Inr)

lemma quiet_on_kern [ckeep]: "(\<And>k. kbal L c k \<Longrightarrow> kq L c snd (g k)) \<Longrightarrow> quiet d L c (on_kern g)"
  by (fastforce simp: ends_def on_kern_def on_fs_def bnd_eq_Inr bal_def kq_def)

lemma quiet_do_kern [ckeep]: "(\<And>k. kbal L c k \<Longrightarrow> kq L c id (g k)) \<Longrightarrow> quiet d L c (do_kern g)"
  unfolding do_kern_def by (rule quiet_on_kern) (auto simp: kq_def bnd_eq_Inr)

lemma quiet_block_kern [ckeep]: "(\<And>k. kbal L c k \<Longrightarrow> kq L c snd (g k)) \<Longrightarrow> quiet d L c (block_kern g)"
  by (fastforce simp: ends_def block_kern_def bnd_eq_Inr bal_def kq_def)

lemma quiet_op [ckeep]: "quiet d L c op_begin" "quiet d L c op_end"
  by (auto simp: ends_def op_begin_def op_end_def do_fs_def on_fs_def bnd_eq_Inr bal_def split: option.splits)

lemma upd_file_quiet [ckeep]: "(\<And>f. fref (g f) = fref f) \<Longrightarrow> quiet d L c (upd_file i g)"
  by (auto simp: ends_def upd_file_def set_file_def bal_def) (metis nth_list_update_eq nth_list_update_neq)

section \<open>Files and descriptors\<close>

lemma cnt_bounds: "0 \<le> cnt P xs" "cnt P xs \<le> int (length xs)"
  by (simp_all add: cnt_eq_length_filter)

lemma fdrefs_bounds:
  assumes "bal d L c s"
  shows "0 \<le> fdrefs L i" "fdrefs L i \<le> 1024"
proof -
  have gen: "0 \<le> (\<Sum>os\<leftarrow>M. cnt P os) \<and> (\<Sum>os\<leftarrow>M. cnt P os) \<le> 16 * int (length M)" if "\<forall>os \<in> set M. length os = 16" for M and P :: "nat option \<Rightarrow> bool"
    using that
  proof (induction M)
    case (Cons os M)
    then show ?case using cnt_bounds[of P os] by (simp add: algebra_simps)
  qed simp
  have "\<forall>os \<in> set L. length os = 16" "length L = 64" using assms by (auto simp: bal_def NOFILE_def NPROC_def)
  then show "0 \<le> fdrefs L i" "fdrefs L i \<le> 1024" using gen[of L "\<lambda>x. x = Some i"] by (simp_all add: fdrefs_def)
qed

lemma fdrefs_update:
  assumes "ci < length L" "fd < length (L ! ci)"
  shows "fdrefs (L[ci := (L ! ci)[fd := v]]) i = fdrefs L i - (if L ! ci ! fd = Some i then 1 else 0) + (if v = Some i then 1 else 0)"
  using assms by (simp add: fdrefs_def sum_list_update_int cnt_update)

lemma bal_set_file:
  assumes "bal d L c s" "i < NFILE" "fref (g (ftable s ! i)) = fdrefs L i + v"
  shows "bal (d(i := v)) L c (set_file i g s)"
  using assms by (auto simp: bal_def set_file_def nth_list_update)

lemma bal_i32: "bal d L c s \<Longrightarrow> i < NFILE \<Longrightarrow> d i < 1000 \<Longrightarrow> fref (ftable s ! i) \<ge> 1
    \<Longrightarrow> i32 (fref (ftable s ! i) + 1) = fref (ftable s ! i) + 1 \<and> i32 (fref (ftable s ! i) - 1) = fref (ftable s ! i) - 1"
  using fdrefs_bounds[of d L c s i] by (auto simp: bal_def in_int_def INT_MIN_def INT_MAX_def intro!: i32_in_range)

lemma filealloc_ends:
  "ends (bal d L c) filealloc (\<lambda>r s. case r of None \<Rightarrow> bal d L c s | Some i \<Rightarrow> i < NFILE \<and> fdrefs L i + d i = 0 \<and> bal (d(i := d i + 1)) L c s)"
proof -
  have "i < NFILE \<and> fdrefs L i + d i = 0 \<and> bal (d(i := d i + 1)) L c (set_file i (\<lambda>f. f\<lparr>fref := 1\<rparr>) s)"
    if b: "bal d L c s" and i: "find (\<lambda>i. fref (ftable s ! i) = 0) [0..<NFILE] = Some i" for s i
  proof -
    have "i < NFILE" "fref (ftable s ! i) = 0" using find_SomeD[OF i] by auto
    moreover then have "fdrefs L i + d i = 0" using b by (simp add: bal_def)
    ultimately show ?thesis using bal_set_file[OF b, of i "\<lambda>f. f\<lparr>fref := 1\<rparr>" "d i + 1"] by simp
  qed
  then show ?thesis by (auto simp: ends_def filealloc_def split: option.splits)
qed

lemma filedup_ends: "i < NFILE \<Longrightarrow> d i < 1000 \<Longrightarrow> ends (bal d L c) (filedup i) (\<lambda>r s. r = i \<and> bal (d(i := d i + 1)) L c s)"
proof -
  assume i: "i < NFILE" "d i < 1000"
  have "bal (d(i := d i + 1)) L c (set_file i (\<lambda>f. f\<lparr>fref := i32 (fref f + 1)\<rparr>) s)" if "bal d L c s" "fref (ftable s ! i) \<ge> 1" for s
    using bal_set_file[OF that(1) i(1), of _ "d i + 1"] bal_i32[OF that(1) i that(2)] that(1) i(1) by (simp add: bal_def)
  then show ?thesis by (auto simp: ends_def filedup_def get_file_def bnd_eq_Inr split: if_splits)
qed

lemma kq_bnd_3 [kkeep]:
  "kq L c (\<lambda>(_, _, k). k) q \<Longrightarrow> (\<And>a b k. kbal L c k \<Longrightarrow> kq L c st (h (a, b, k))) \<Longrightarrow> kq L c st (bnd q h)"
  by (auto simp: kq_def bnd_eq_Inr)

lemma pipeclose_kq: "kbal L c k \<Longrightarrow> kq L c (\<lambda>(_, _, k). k) (pipeclose q pa w (pi, k))"
  unfolding pipeclose_def split_def prod.sel by (intro kkeep; simp)

lemma close_pipe_quiet [ckeep]: "quiet d L c (close_pipe pa w)"
  using pipeclose_kq by (fastforce simp: ends_def close_pipe_def bal_def kq_def bnd_eq_Inr split: option.splits)

lemma fileclose_ends:
  assumes i: "i < NFILE" "d i < 1000"
  shows "ends (bal d L c) (fileclose i) (\<lambda>_. bal (d(i := d i - 1)) L c)"
  unfolding ends_def
proof (intro allI impI, elim conjE)
  fix s a s'
  assume b: "bal d L c s" and r: "fileclose i s = Inr (Returns a, s')"
  let ?f = "ftable s ! i"
  have f: "get_file i s = Inr ?f" using b i(1) by (simp add: get_file_def bal_def)
  have pos: "fref ?f \<ge> 1" using r f by (auto simp: fileclose_def split: if_splits)
  have dec: "i32 (fref ?f - 1) = fref ?f - 1" using bal_i32[OF b i pos] by simp
  have cnt: "fref ?f = fdrefs L i + d i" using b i(1) by (simp add: bal_def)
  define s1 where "s1 = set_file i (\<lambda>f. f\<lparr>fref := 0, ftype := FD_NONE\<rparr>) s"
  show "bal (d(i := d i - 1)) L c s'"
  proof (cases "fref ?f - 1 > 0")
    case True
    then have "s' = set_file i (\<lambda>f. f\<lparr>fref := i32 (fref f - 1)\<rparr>) s" using r f pos dec by (simp add: fileclose_def)
    then show ?thesis using bal_set_file[OF b i(1), of _ "d i - 1"] dec cnt by simp
  next
    case False
    then have "bal (d(i := d i - 1)) L c s1" using bal_set_file[OF b i(1), of _ "d i - 1"] pos cnt by (simp add: s1_def)
    moreover define tail where "tail = (if ftype ?f = FD_PIPE then close_pipe (fpipe ?f) (writable ?f)
        else if ftype ?f = FD_INODE \<or> ftype ?f = FD_DEVICE then seqc op_begin (\<lambda>_. seqc (do_fs (iput (fip ?f))) (\<lambda>_. op_end)) else ret ())"
    have "tail s1 = Inr (Returns a, s')"
      using r f pos dec False by (auto simp: fileclose_def Let_def s1_def tail_def ret_def split: if_splits)
    moreover have "quiet (d(i := d i - 1)) L c tail"
      unfolding tail_def by (intro ckeep proc_view.iput_kept refl)
    ultimately show ?thesis unfolding ends_def by blast
  qed
qed

text \<open>The current process and its descriptors.\<close>

lemma cur_proc_ends: "ends (bal d L (Some ci)) cur_proc (\<lambda>p s. bal d L (Some ci) s \<and> ci < NPROC \<and> ofile p = L ! ci)"
  by (auto simp: ends_def cur_proc_def on_kern_def on_fs_def bnd_eq_Inr myproc_def getp_def get_p_def bal_def kbal_def tbal_def split: option.splits if_splits)

lemma cur_proc_quiet [ckeep]: "quiet d L c cur_proc"
  unfolding cur_proc_def by (intro ckeep kkeep; simp)

lemma upd_cur_quiet [ckeep]: "harmless g \<Longrightarrow> quiet d L c (upd_cur g)"
  unfolding upd_cur_def by (intro ckeep kkeep; simp)

lemma args_quiet [ckeep]:
  "quiet d L c (argraw n)" "quiet d L c (argint n)" "quiet d L c (argaddr n)" "quiet d L c (fetchaddr P a)" "quiet d L c (fetchstr a b m)" "quiet d L c (argstr n b)"
  unfolding argraw_def argint_def argaddr_def fetchaddr_def fetchstr_def argstr_def split_def
  by (intro ckeep kkeep; simp)+

definition has_fd :: "nat option list list \<Rightarrow> nat \<Rightarrow> nat \<Rightarrow> nat \<Rightarrow> bool" where
  "has_fd L ci fd f \<longleftrightarrow> ci < NPROC \<and> fd < NOFILE \<and> L ! ci ! fd = Some f \<and> f < NFILE"

lemma argfd_ends:
  "ends (bal d L (Some ci)) (argfd n) (\<lambda>r s. bal d L (Some ci) s \<and> (\<forall>fd f. r = Some (fd, f) \<longrightarrow> has_fd L ci fd f))"
  unfolding argfd_def
proof (rule quiet_seqc[OF args_quiet(2)], rule ends_if)
  fix fd
  assume fd: "\<not> (fd < 0 \<or> fd \<ge> int NOFILE)"
  show "ends (bal d L (Some ci)) (seqc cur_proc (\<lambda>p. ret (case ofile p ! nat fd of None \<Rightarrow> None | Some f \<Rightarrow> Some (nat fd, f))))
      (\<lambda>r s. bal d L (Some ci) s \<and> (\<forall>fd f. r = Some (fd, f) \<longrightarrow> has_fd L ci fd f))"
  proof (rule ends_seqc[OF cur_proc_ends])
    fix p
    have "has_fd L ci (nat fd) f" if b: "bal d L (Some ci) s" and f: "ci < NPROC" "L ! ci ! nat fd = Some f" for s f
    proof -
      have "L ! ci \<in> set L" "length (L ! ci) = NOFILE" using b f(1) by (auto simp: bal_def)
      moreover then have "Some f \<in> set (L ! ci)" using f(2) fd nth_mem[of "nat fd" "L ! ci"] by auto
      ultimately show ?thesis using b f fd unfolding has_fd_def bal_def by auto
    qed
    then show "ends (\<lambda>s. bal d L (Some ci) s \<and> ci < NPROC \<and> ofile p = L ! ci) (ret (case ofile p ! nat fd of None \<Rightarrow> None | Some f \<Rightarrow> Some (nat fd, f)))
      (\<lambda>r s. bal d L (Some ci) s \<and> (\<forall>fd f. r = Some (fd, f) \<longrightarrow> has_fd L ci fd f))"
      by (auto simp: ends_def ret_def split: option.splits)
  qed
qed (auto simp: ends_def ret_def)

text \<open>A change of one descriptor of a process that is not gone.\<close>

definition move_fd :: "(nat \<Rightarrow> int) \<Rightarrow> nat option \<Rightarrow> int \<Rightarrow> nat \<Rightarrow> int" where
  "move_fd d v x = (case v of None \<Rightarrow> d | Some f \<Rightarrow> d(f := d f + x))"

lemma bal_set_fd:
  assumes b: "bal d L c s" and i: "i < NPROC" "fd < NOFILE" "\<forall>f. v = Some f \<longrightarrow> f < NFILE" and n: "v \<noteq> None \<longrightarrow> \<not> gone (procs (kn (fsy s)) ! i)"
    and k: "setp i (\<lambda>q. q\<lparr>ofile := (ofile q)[fd := v]\<rparr>) (kn (fsy s)) = Inr k"
  shows "bal (move_fd (move_fd d (L ! i ! fd) 1) v (- 1)) (L[i := (L ! i)[fd := v]]) c (s\<lparr>fsy := (fsy s)\<lparr>kn := k\<rparr>\<rparr>)"
proof -
  let ?ps = "procs (kn (fsy s))" and ?L = "L[i := (L ! i)[fd := v]]"
  have len: "length ?ps = NPROC" "length L = NPROC" "length (L ! i) = NOFILE" "map ofile ?ps = L" using b i(1) by (auto simp: bal_def kbal_def tbal_def)
  have k': "k = (kn (fsy s))\<lparr>procs := ?ps[i := (?ps ! i)\<lparr>ofile := (ofile (?ps ! i))[fd := v]\<rparr>]\<rparr>"
    using k i(1) len(1) by (auto simp: on_procs_def upd_p_def bnd_eq_Inr)
  have sp: "spare ?L c j" if j: "j < NPROC" "gone (procs k ! j)" for j
  proof -
    have g: "gone (?ps ! j)" using j len(1) i(1) by (auto simp: k' nth_list_update gone_def split: if_splits)
    then have "spare L c j" using b j(1) len(1) by (auto simp: bal_def kbal_def tbal_def)
    moreover have "v = None" if "j = i" using n g that by auto
    ultimately show ?thesis using i(1) len by (auto simp: spare_def clean_def nth_list_update dest!: set_update_subset_insert[THEN subsetD])
  qed
  have "L ! i = ofile (?ps ! i)" using len i(1) by auto
  then have "map ofile (procs k) = ?L" using len(4) by (simp add: k' map_update)
  then have kb: "kbal ?L c k" using sp b len(1) by (auto simp: kbal_def tbal_def k' bal_def)
  have shape: "length os = NOFILE \<and> (\<forall>f. Some f \<in> set os \<longrightarrow> f < NFILE)" if "os \<in> set ?L" for os
  proof -
    have "os \<in> set L \<or> os = (L ! i)[fd := v]" using that set_update_subset_insert[of L i] by auto
    moreover have "L ! i \<in> set L" using i(1) len(2) by simp
    ultimately show ?thesis using b i(3) set_update_subset_insert[of "L ! i" fd v] unfolding bal_def by fastforce
  qed
  have "fref (ftable s ! j) = fdrefs ?L j + move_fd (move_fd d (L ! i ! fd) 1) v (- 1) j" if "j < NFILE" for j
    using b that fdrefs_update[of i L fd v j] i(1,2) len unfolding bal_def by (auto simp: move_fd_def split: option.splits)
  then show ?thesis using b kb shape len by (auto simp: bal_def)
qed

lemma upd_cur_Returns:
  "upd_cur g s = Inr (Returns a, s') \<longleftrightarrow> (\<exists>ci k. cur (kn (fsy s)) = Some ci \<and> setp ci g (kn (fsy s)) = Inr k \<and> s' = s\<lparr>fsy := (fsy s)\<lparr>kn := k\<rparr>\<rparr>)"
  by (auto simp: upd_cur_def do_kern_def on_kern_def on_fs_def bnd_eq_Inr myproc_def split: option.splits)

lemma cur_not_gone: "bal d L (Some ci) s \<Longrightarrow> ci < NPROC \<Longrightarrow> \<not> gone (procs (kn (fsy s)) ! ci) \<and> cur (kn (fsy s)) = Some ci"
  by (auto simp: bal_def kbal_def tbal_def spare_def)

lemma set_fd_ends:
  assumes "ci < NPROC" "fd < NOFILE" "\<forall>f. v = Some f \<longrightarrow> f < NFILE"
  shows "ends (bal d L (Some ci)) (upd_cur (\<lambda>p. p\<lparr>ofile := (ofile p)[fd := v]\<rparr>)) (\<lambda>_. bal (move_fd (move_fd d (L ! ci ! fd) 1) v (- 1)) (L[ci := (L ! ci)[fd := v]]) (Some ci))"
  unfolding ends_def upd_cur_Returns using bal_set_fd[OF _ assms] cur_not_gone[OF _ assms(1)] by fastforce

lemma fdalloc_ends:
  assumes "f < NFILE"
  shows "ends (bal d L (Some ci)) (fdalloc f) (\<lambda>r s. case r of None \<Rightarrow> bal d L (Some ci) s
    | Some fd \<Rightarrow> fd < NOFILE \<and> ci < NPROC \<and> L ! ci ! fd = None \<and> bal (d(f := d f - 1)) (L[ci := (L ! ci)[fd := Some f]]) (Some ci) s)" (is "ends _ _ ?Q")
  unfolding fdalloc_def
proof (rule ends_seqc[OF cur_proc_ends], rule ends_pure, elim conjE, rule ends_case)
  fix p fd
  assume c: "ci < NPROC" and p: "ofile p = L ! ci" and fd: "find (\<lambda>fd. ofile p ! fd = None) [0..<NOFILE] = Some fd"
  have F: "fd < NOFILE" "L ! ci ! fd = None" using find_SomeD[OF fd] p by auto
  have "ends (bal d L (Some ci)) (upd_cur (\<lambda>p. p\<lparr>ofile := (ofile p)[fd := Some f]\<rparr>)) (\<lambda>_. bal (d(f := d f - 1)) (L[ci := (L ! ci)[fd := Some f]]) (Some ci))"
    using set_fd_ends[OF c F(1), of "Some f" d L] assms F(2) by (simp add: move_fd_def)
  then show "ends (bal d L (Some ci)) (seqc (upd_cur (\<lambda>p. p\<lparr>ofile := (ofile p)[fd := Some f]\<rparr>)) (\<lambda>_. ret (Some fd))) ?Q"
    by (rule ends_seqc) (use c F in \<open>auto simp: ends_def ret_def\<close>)
qed (auto simp: ends_def ret_def)

lemma drop_fd_ends:
  assumes "has_fd L ci fd f"
  shows "ends (bal d L (Some ci)) (drop_fd fd) (\<lambda>_. bal (d(f := d f + 1)) (L[ci := (L ! ci)[fd := None]]) (Some ci))"
  using set_fd_ends[of ci fd None d L] assms by (simp add: drop_fd_def has_fd_def move_fd_def)

section \<open>System calls\<close>

text \<open>The call holds no references of its own.\<close>

abbreviation Z :: "nat \<Rightarrow> int" where
  "Z \<equiv> (\<lambda>_. 0)"

lemma Z_upd [simp]: "Z(f := 0) = Z"
  by auto

definition settled :: "nat \<Rightarrow> osys \<Rightarrow> bool" where
  "settled ci s \<longleftrightarrow> (\<exists>L. bal Z L (Some ci) s)"

lemma settledI: "bal Z L (Some ci) s \<Longrightarrow> settled ci s"
  by (auto simp: settled_def)

lemma ends_settled: "(\<And>L. ends (bal Z L (Some ci)) g Q) \<Longrightarrow> ends (settled ci) g Q"
  by (auto simp: ends_def settled_def)

lemma quiet_settled: "quiet Z L (Some ci) g \<Longrightarrow> ends (bal Z L (Some ci)) g (\<lambda>_. settled ci)"
  by (erule ends_weaken) (auto intro: settledI)

lemma ret_settled [ckeep]: "ends (bal Z L (Some ci)) (ret a) (\<lambda>_. settled ci)"
  by (intro quiet_settled ckeep)

lemma ends_option: "ends (P None) (x :: 'b call) Q \<Longrightarrow> (\<And>a. ends (P (Some a)) (y a) Q) \<Longrightarrow> ends (P v) (case v of None \<Rightarrow> x | Some a \<Rightarrow> y a) Q"
  by (cases v) auto

lemma sys_dup_settled: "ends (bal Z L (Some ci)) sys_dup (\<lambda>_. settled ci)"
  unfolding sys_dup_def
proof (rule ends_seqc[OF argfd_ends], rule ends_pure, rule ends_case, intro ckeep, clarify)
  fix fd f
  assume "\<forall>fd' f'. Some (fd, f) = Some (fd', f') \<longrightarrow> has_fd L ci fd' f'"
  then have f: "f < NFILE" by (simp add: has_fd_def)
  show "ends (bal Z L (Some ci)) (seqc (fdalloc f) (\<lambda>r. case r of None \<Rightarrow> ret (- 1) | Some fd \<Rightarrow> seqc (filedup f) (\<lambda>_. ret (int fd)))) (\<lambda>_. settled ci)"
  proof (rule ends_seqc[OF fdalloc_ends[OF f]], rule ends_option)
    fix nfd
    let ?L = "L[ci := (L ! ci)[nfd := Some f]]"
    have "ends (bal (Z(f := - 1)) ?L (Some ci)) (seqc (filedup f) (\<lambda>_. ret (int nfd))) (\<lambda>_. settled ci)"
      using filedup_ends[OF f, of "Z(f := - 1)" ?L "Some ci"] by (intro ends_seqc[of _ "filedup f"]) (auto simp: ends_def ret_def intro!: settledI[of ?L])
    then show "ends (\<lambda>s. case Some nfd of None \<Rightarrow> bal Z L (Some ci) s | Some fd \<Rightarrow> fd < NOFILE \<and> ci < NPROC \<and> L ! ci ! fd = None \<and> bal (Z(f := Z f - 1)) (L[ci := (L ! ci)[fd := Some f]]) (Some ci) s)
      (seqc (filedup f) (\<lambda>_. ret (int nfd))) (\<lambda>_. settled ci)" by (auto simp: ends_def)
  qed (auto simp: ends_def ret_def intro: settledI)
qed

lemma sys_close_settled: "ends (bal Z L (Some ci)) sys_close (\<lambda>_. settled ci)"
  unfolding sys_close_def
proof (rule ends_seqc[OF argfd_ends], rule ends_pure, rule ends_case, intro ckeep, clarify)
  fix fd f
  assume "\<forall>fd' f'. Some (fd, f) = Some (fd', f') \<longrightarrow> has_fd L ci fd' f'"
  then have h: "has_fd L ci fd f" "f < NFILE" by (simp_all add: has_fd_def)
  let ?L = "L[ci := (L ! ci)[fd := None]]"
  have "ends (bal (Z(f := 1)) ?L (Some ci)) (fileclose f) (\<lambda>_. bal Z ?L (Some ci))"
    using fileclose_ends[OF h(2), of "Z(f := 1)" ?L "Some ci"] by simp
  then have "ends (bal (Z(f := 1)) ?L (Some ci)) (seqc (fileclose f) (\<lambda>_. ret 0)) (\<lambda>_. settled ci)" by (rule ends_seqc) (intro ckeep)
  then show "ends (bal Z L (Some ci)) (seqc (drop_fd fd) (\<lambda>_. seqc (fileclose f) (\<lambda>_. ret 0))) (\<lambda>_. settled ci)"
    using ends_seqc[OF drop_fd_ends[OF h(1), of Z], of "\<lambda>_. seqc (fileclose f) (\<lambda>_. ret 0)"] by simp
qed

text \<open>Pipes.\<close>

definition made_pipe :: "nat option list list \<Rightarrow> nat option \<Rightarrow> (nat \<times> nat) option \<Rightarrow> osys \<Rightarrow> bool" where
  "made_pipe L c r s \<longleftrightarrow> (case r of None \<Rightarrow> bal Z L c s | Some (i, j) \<Rightarrow> i < NFILE \<and> j < NFILE \<and> i \<noteq> j \<and> bal (Z(i := 1, j := 1)) L c s)"

text \<open>Giving up one or two files that are not in any descriptor table.\<close>

lemma close_one:
  "i < NFILE \<Longrightarrow> ends (bal Z L c) g Q \<Longrightarrow> ends (bal (Z(i := 1)) L c) (seqc (fileclose i) (\<lambda>_. g)) Q"
  using ends_seqc[OF fileclose_ends[of i "Z(i := 1)" L c], of "\<lambda>_. g" Q] by simp

lemma close_two:
  assumes "i < NFILE" "j < NFILE" "i \<noteq> j" "ends (bal Z L c) g Q"
  shows "ends (bal (Z(i := 1, j := 1)) L c) (seqc (fileclose i) (\<lambda>_. seqc (fileclose j) (\<lambda>_. g))) Q"
proof -
  have "(Z(i := 1, j := 1))(i := (Z(i := 1, j := 1)) i - 1) = Z(j := 1)" using assms(3) by auto
  then show ?thesis
    using ends_seqc[OF fileclose_ends[OF assms(1), of "Z(i := 1, j := 1)" L c], of "\<lambda>_. seqc (fileclose j) (\<lambda>_. g)" Q] close_one[OF assms(2,4)] by simp
qed

lemma pipe_make_ends:
  assumes "i < NFILE" "j < NFILE" "i \<noteq> j"
  shows "ends (bal (Z(i := 1, j := 1)) L c) (pipe_make i j) (made_pipe L c)"
  unfolding pipe_make_def
proof (rule quiet_seqc, goal_cases)
  case 1
  then show ?case unfolding split_def by (intro ckeep kkeep; simp)
next
  case (2 pa)
  have set: "quiet d L c (\<lambda>s. Inr (Returns (), s\<lparr>pipes := (pipes s)(pa \<mapsto> pipeinit)\<rparr>))" for d by (auto simp: ends_def bal_def)
  have "ends (bal (Z(i := 1, j := 1)) L c) (ret (Some (i, j))) (made_pipe L c)" using assms by (auto simp: ends_def ret_def made_pipe_def)
  moreover have "ends (bal Z L c) (ret None) (made_pipe L c)" by (auto simp: ends_def ret_def made_pipe_def)
  ultimately show ?case
    by (intro ends_if close_two[OF assms] quiet_seqc set upd_file_quiet) (simp_all add: pipe_end_def)
qed

lemma pipealloc_ends: "ends (bal Z L c) pipealloc (made_pipe L c)"
  unfolding pipealloc_def
proof (rule ends_seqc[OF filealloc_ends], rule ends_option, goal_cases)
  case 1
  then show ?case by (auto simp: ends_def ret_def made_pipe_def)
next
  case (2 f0 i)
  have none: "ends (bal Z L c) (ret None) (made_pipe L c)" by (auto simp: ends_def ret_def made_pipe_def)
  have "ends (bal (Z(i := 1)) L c) (seqc filealloc (\<lambda>f1. case f1 of None \<Rightarrow> seqc (fileclose i) (\<lambda>_. ret None) | Some j \<Rightarrow> pipe_make i j)) (made_pipe L c)"
    if i: "i < NFILE"
  proof (rule ends_seqc[OF filealloc_ends], rule ends_option, goal_cases)
    case 1
    then show ?case using close_one[OF i none] by simp
  next
    case (2 f1 j)
    have "i \<noteq> j" if "fdrefs L j + (Z(i := 1)) j = 0" "bal d L c s" for d s
      using that fdrefs_bounds(1)[OF that(2), of j] by (auto split: if_splits)
    then show ?case using pipe_make_ends[OF i, of j L c] unfolding ends_def option.case by (metis (mono_tags, lifting) add_0 fun_upd_other)
  qed
  then show ?case unfolding ends_def option.case by auto
qed

end
