(* ===== verification/File_Calls.thy ===== *)
theory File_Calls
  imports File_Refs
begin

text \<open>Every system call leaves the counts of open files exact.\<close>

section \<open>Calls that leave descriptors alone\<close>

lemma fail_op_quiet [ckeep]: "quiet d L c fail_op"
  unfolding fail_op_def by (intro ckeep)

lemma kept_eq: "proc_view.kept K st (Inr x) \<longleftrightarrow> (procs (kn (st x)), cur (kn (st x))) = K"
  by (simp add: proc_view.kept_def)

lemma inode_quiet [ckeep]: "quiet d L c (upd_inode i g)"
  by (intro ckeep) (simp add: kept_eq seti_def)

lemma isdirempty_kept: "proc_view.kept (procs (kn f), cur (kn f)) snd (isdirempty P dp f)"
proof -
  have "(procs (kn f), cur (kn f)) = K \<Longrightarrow> proc_view.kept K snd (isdirempty_loop P dp nsz off f)" for K nsz off f
  proof (induction "nsz - off" arbitrary: off f rule: less_induct)
    case less
    have IH: "proc_view.kept K snd (isdirempty_loop P dp nsz (off + 16) f')" if "off < nsz" "(procs (kn f'), cur (kn f')) = K" for f' using that by (intro less(1)) auto
    show ?case
      unfolding isdirempty_loop.simps[of P dp nsz off] split_def by (intro proc_view.keep IH; simp add: less)
  qed
  then show ?thesis unfolding isdirempty_def by (intro proc_view.keep) simp
qed

lemma create_quiet [ckeep]: "quiet d L c (create P path ty maj mnr)"
  unfolding create_def Let_def split_def by (intro ckeep proc_view.keep refl)

lemma put_cwd_quiet [ckeep]: "quiet d L c put_cwd"
  unfolding put_cwd_def by (intro ckeep proc_view.keep refl)

lemma dir_calls_quiet [ckeep]: "quiet d L c (sys_link P)" "quiet d L c (sys_unlink P)" "quiet d L c (sys_mkdir P)" "quiet d L c (sys_mknod P)" "quiet d L c (sys_chdir P)"
  unfolding sys_link_def sys_unlink_def sys_mkdir_def sys_mknod_def sys_chdir_def Let_def split_def
  by (intro ckeep kkeep proc_view.keep refl isdirempty_kept; simp)+

section \<open>Reading and writing\<close>

lemma either_kq [kkeep]: "kbal L c k \<Longrightarrow> kq L c snd (either_copyout u a b n k)" "kbal L c k \<Longrightarrow> kq L c snd (either_copyin a u b n k)"
  by (auto simp: kq_def kbal_def dest!: either_copy_procs)

lemma pipewrite_loop_kq: "kbal L c k \<Longrightarrow> kq L c (\<lambda>(_, _, _, k). k) (pipewrite_loop q pr ca addr n i pi k)"
proof (induction "nat (n - i)" arbitrary: i pi k rule: less_induct)
  case less
  have IH: "kq L c (\<lambda>(_, _, _, k). k) (pipewrite_loop q pr ca addr n (i + 1) pi' k')" if "i < n" "kbal L c k'" for pi' k'
    using that by (intro less(1)) auto
  show ?case
    unfolding pipewrite_loop.simps[of q pr ca addr n i] pipewrite_done_def split_def prod.sel
    by (intro kkeep IH[unfolded split_def]; simp add: less)
qed

lemma piperead_loop_kq: "kbal L c k \<Longrightarrow> kq L c (\<lambda>(_, _, k). k) (piperead_loop q pr ca addr n i pi k)"
proof (induction "nat (n - i)" arbitrary: i pi k rule: less_induct)
  case less
  have IH: "kq L c (\<lambda>(_, _, k). k) (piperead_loop q pr ca addr n (i + 1) pi' k')" if "i < n" "kbal L c k'" for pi' k'
    using that by (intro less(1)) auto
  show ?case
    unfolding piperead_loop.simps[of q pr ca addr n i] piperead_done_def Let_def split_def prod.sel
    by (intro kkeep IH[unfolded split_def]; simp add: less)
qed

lemma pipe_kq:
  "kbal L c k \<Longrightarrow> kq L c (\<lambda>(_, _, k). k) (piperead q ca addr n (pi, k))" "kbal L c k \<Longrightarrow> kq L c (\<lambda>(_, _, _, k). k) (pipewrite q ca addr n (pi, k))"
  unfolding piperead_def pipewrite_def split_def prod.sel
  by (intro kkeep piperead_loop_kq[unfolded split_def] pipewrite_loop_kq[unfolded split_def]; simp)+

lemma pipe_call_quiet: "(\<And>pi k. kbal L c k \<Longrightarrow> kq L c (\<lambda>(_, _, k). k) (g (pi, k))) \<Longrightarrow> quiet d L c (pipe_call pa g)"
  by (fastforce simp: ends_def pipe_call_def bal_def kq_def bnd_eq_Inr split: option.splits)

lemma tty_call_quiet: "(\<And>t k. kbal L c k \<Longrightarrow> kq L c (\<lambda>(_, _, k). k) (g (t, k))) \<Longrightarrow> quiet d L c (tty_call g)"
  by (fastforce simp: ends_def tty_call_def bal_def kq_def bnd_eq_Inr)

lemma uartstart_kq [kkeep]: "kbal L c k \<Longrightarrow> kq L c snd (uartstart idl (t, k))"
proof (induction idl arbitrary: t k)
  case (Cons b idl)
  show ?case unfolding uartstart.simps Let_def split_def by (intro kkeep Cons; simp add: Cons)
qed (simp add: kq_def)

lemma uartputc_kq [kkeep]: "kbal L c k \<Longrightarrow> kq L c (\<lambda>(_, _, k). k) (uartputc idl ch (t, k))"
  unfolding uartputc_def split_def prod.sel by (intro kkeep; simp)

lemma kq_blocking [kkeep]: "(\<And>a. kq L c st (x a)) \<Longrightarrow> kq L c st y \<Longrightarrow> kq L c st (case b of Returns a \<Rightarrow> x a | Sleeps \<Rightarrow> y)"
  by (auto split: blocking.splits)

lemma consolewrite_loop_kq: "kbal L c k \<Longrightarrow> kq L c (\<lambda>(_, _, _, k). k) (consolewrite_loop idl usr ca src n i (t, k))"
proof (induction "nat (n - i)" arbitrary: i t k rule: less_induct)
  case less
  have IH: "kq L c (\<lambda>(_, _, _, k). k) (consolewrite_loop idl usr ca src n (i + 1) (t', k'))" if "i < n" "kbal L c k'" for t' k'
    using that by (intro less(1)) auto
  show ?case
    unfolding consolewrite_loop.simps[of idl usr ca src n i] split_def prod.sel
    by (intro kkeep kkeep[unfolded split_def] IH[unfolded split_def]; simp add: less)
qed

lemma consoleread_loop_kq: "kbal L c k \<Longrightarrow> kq L c (\<lambda>(_, _, _, _, k). k) (consoleread_loop pr usr ca dst target n (t, k))"
proof (induction "nat n" arbitrary: dst n t k rule: less_induct)
  case less
  have IH: "kq L c (\<lambda>(_, _, _, _, k). k) (consoleread_loop pr usr ca (dst + 1) target (n - 1) (t', k'))" if "n > 0" "kbal L c k'" for t' k'
    using that by (intro less(1)) auto
  show ?case
    unfolding consoleread_loop.simps[of pr usr ca dst target n] consoleread_done_def Let_def split_def prod.sel
    by (intro kkeep IH[unfolded split_def]; simp add: less)
qed

lemma kq_last: "kq L c (\<lambda>(_, _, _, k). k) r \<Longrightarrow> kq L c (\<lambda>(_, _, k). k) (bnd r (\<lambda>(a, _, b, k). Inr (a, b, k)))"
  "kq L c (\<lambda>(_, _, _, _, k). k) q \<Longrightarrow> kq L c (\<lambda>(_, _, k). k) (bnd q (\<lambda>(a, _, _, b, k). Inr (a, b, k)))"
  by (auto simp: kq_def bnd_eq_Inr)

lemma console_kq:
  "kbal L c k \<Longrightarrow> kq L c (\<lambda>(_, _, _, _, k). k) (consoleread usr ca dst n (t, k))" "kbal L c k \<Longrightarrow> kq L c (\<lambda>(_, _, _, k). k) (consolewrite idl usr ca src n (t, k))"
  unfolding consoleread_def consolewrite_def split_def prod.sel
  by (intro kkeep consoleread_loop_kq[unfolded split_def] consolewrite_loop_kq[unfolded split_def]; simp)+

lemma ends_fdtype [ckeep]:
  "ends P a Q \<Longrightarrow> ends P b Q \<Longrightarrow> ends P e Q \<Longrightarrow> ends P h Q \<Longrightarrow> ends P (case v of FD_NONE \<Rightarrow> a | FD_PIPE \<Rightarrow> b | FD_INODE \<Rightarrow> e | FD_DEVICE \<Rightarrow> h) Q"
  by (cases v) simp_all

lemma filewrite_loop_quiet: "quiet d L c (filewrite_loop P i addr n m)"
proof (induction "nat (n - m)" arbitrary: m rule: less_induct)
  case less
  have IH: "quiet d L c (filewrite_loop P i addr n (m + min (n - m) MAXWRITE))" if "m < n"
    using that MAXWRITE_pos by (intro less(1)) auto
  show ?case
  proof (cases "m < n")
    case True
    then have "filewrite_loop P i addr n m = (let n1 = min (n - m) MAXWRITE in
        seqc (get_os (get_file i)) (\<lambda>f.
        seqc op_begin (\<lambda>_.
        seqc (do_fs (ilock (fip f))) (\<lambda>_.
        seqc (on_fs (writei (at_buf P) (fip f) True (addr + of_int m) (foff f) (of_int n1))) (\<lambda>r.
        seqc (if r > 0 then upd_file i (\<lambda>f. f\<lparr>foff := foff f + of_int r\<rparr>) else ret ()) (\<lambda>_.
        seqc (do_fs (iunlock (fip f))) (\<lambda>_.
        seqc op_end (\<lambda>_. if r \<noteq> n1 then ret m else filewrite_loop P i addr n (m + n1)))))))))"
      by (intro ext) (simp add: filewrite_loop.simps[of P i addr n m] Let_def)
    then show ?thesis unfolding Let_def by (simp only:) (intro ckeep proc_view.keep refl IH True; simp)
  next
    case False
    then show ?thesis by (auto simp: ends_def filewrite_loop.simps[of P i addr n m])
  qed
qed

lemma file_calls_quiet [ckeep]: "quiet d L c (filestat P i a)" "quiet d L c (fileread P i a n)" "quiet d L c (filewrite P i a n)"
  unfolding filestat_def fileread_def filewrite_def
  by (intro ckeep kkeep proc_view.keep refl pipe_call_quiet tty_call_quiet pipe_kq console_kq kq_last filewrite_loop_quiet; simp)+

lemma argfd_quiet [ckeep]: "quiet d L c (argfd n)"
  unfolding argfd_def by (intro ckeep)

lemma io_calls_quiet [ckeep]: "quiet d L c (sys_read P)" "quiet d L c (sys_write P)" "quiet d L c (sys_fstat P)" "quiet d L c sys_getreadcount"
proof -
  have "quiet d L c (\<lambda>s. Inr (Returns (), s\<lparr>readCount := i32 (readCount s + 1)\<rparr>))" by (auto simp: ends_def bal_def)
  then show "quiet d L c (sys_read P)" "quiet d L c (sys_write P)" "quiet d L c (sys_fstat P)" "quiet d L c sys_getreadcount"
    unfolding sys_read_def sys_write_def sys_fstat_def sys_getreadcount_def split_def by (intro ckeep; assumption)+
qed

section \<open>exec and the process system calls\<close>

lemma on_mem_quiet [ckeep]: "quiet d L c (on_mem g)"
  unfolding on_mem_def split_def by (intro ckeep kkeep; simp)

lemma loadseg_quiet [ckeep]: "quiet d L c (loadseg P pt va ip off n)"
proof -
  have "quiet d L c (loadseg_loop fuel P pt va ip off n i)" for fuel i
  proof (induction fuel arbitrary: i)
    case (Suc fuel)
    show ?case unfolding loadseg_loop.simps Let_def by (intro ckeep proc_view.keep refl Suc)
  qed (simp only: loadseg_loop.simps, intro ckeep)
  then show ?thesis by (simp add: loadseg_def)
qed

lemma exec_parts_quiet [ckeep]:
  "quiet d L c (exec_bad pt z ip)" "quiet d L c (exec_segments n P pt i off z)" "quiet d L c (exec_args pt base as stk us)"
  "quiet d L c (free_args as)" "quiet d L c (exec_fetch n P ua argv)"
proof -
  show "quiet d L c (exec_bad pt z ip)" unfolding exec_bad_def by (intro ckeep kkeep proc_view.keep refl; simp)
  show "quiet d L c (exec_segments n P pt i off z)"
  proof (induction n arbitrary: off z)
    case (Suc n)
    show ?case unfolding exec_segments.simps by (intro ckeep proc_view.keep refl Suc)
  qed (simp only: exec_segments.simps, intro ckeep)
  show "quiet d L c (exec_args pt base as stk us)"
  proof (induction as arbitrary: stk us)
    case (Cons a as)
    show ?case unfolding exec_args.simps Let_def by (intro ckeep Cons)
  qed (simp only: exec_args.simps, intro ckeep)
  show "quiet d L c (free_args as)"
  proof (induction as)
    case (Cons a as)
    show ?case unfolding free_args.simps by (intro ckeep kkeep Cons)
  qed (simp only: free_args.simps, intro ckeep)
  show "quiet d L c (exec_fetch n P ua argv)"
  proof (induction n arbitrary: argv)
    case (Suc n)
    show ?case unfolding exec_fetch.simps by (intro ckeep Suc)
  qed (simp only: exec_fetch.simps, intro ckeep)
qed

lemma exec_quiet [ckeep]: "quiet d L c (exec P tr path argv)"
  unfolding exec_def Let_def split_def by (intro ckeep kkeep proc_view.keep refl; simp)

lemma sys_exec_quiet [ckeep]: "quiet d L c (sys_exec P tr)"
  unfolding sys_exec_def split_def by (intro ckeep)

lemma widen_ends [ckeep]: "ends P g (\<lambda>_. Q) \<Longrightarrow> ends P (widen g) (\<lambda>_. Q)"
  unfolding widen_def by (rule ends_seqc) (auto simp: ends_def ret_def)

lemma sleep_pass_kq: "kbal L c k \<Longrightarrow> kq L c snd (sleep_pass t n k)"
  unfolding sleep_pass_def split_def by (intro kkeep; simp)

lemma proc_calls_quiet [ckeep]:
  "quiet d L c sys_getpid" "quiet d L c (sys_wait P)" "quiet d L c sys_sbrk" "quiet d L c sys_sleep" "quiet d L c sys_kill" "quiet d L c sys_uptime" "quiet d L c (sys_waitx P)"
  "quiet d L c sys_setpriority_call"
proof -
  have sp: "kq L c snd (bnd (sys_setpriority pd prio (procs k)) (\<lambda>(old, y, ps). Inr ((old, y), k\<lparr>procs := ps\<rparr>)))" if "kbal L c k" for pd prio k
    using sys_setpriority_tq[of L c "procs k" pd prio] that by (auto simp: kq_def tq_def kbal_def bnd_eq_Inr)
  show "quiet d L c sys_setpriority_call"
    unfolding sys_setpriority_call_def by (intro ckeep sp) (auto simp: split_def intro!: ckeep kkeep)
qed (unfold sys_getpid_def sys_wait_def sys_sbrk_def sys_sleep_def sys_kill_def sys_uptime_def sys_waitx_def split_def Let_def,
    (intro ckeep kkeep sleep_pass_kq; simp split: option.splits)+)

section \<open>Opening files and pipes\<close>

lemma sys_open_settled: "ends (bal Z L (Some ci)) (sys_open P) (\<lambda>_. settled ci)"
proof -
  have close: "ends (bal (Z(f := 1)) L (Some ci)) (seqc (fileclose f) (\<lambda>_. seqc (do_fs (iunlockput ip)) (\<lambda>_. fail_op))) (\<lambda>_. settled ci)" if "f < NFILE" for f ip
    by (intro close_one that quiet_settled ckeep proc_view.keep refl)
  have got: "ends (\<lambda>s. case Some fd of None \<Rightarrow> bal (Z(f := 1)) L (Some ci) s
        | Some fd \<Rightarrow> fd < NOFILE \<and> ci < NPROC \<and> L ! ci ! fd = None \<and> bal ((Z(f := 1))(f := (Z(f := 1)) f - 1)) (L[ci := (L ! ci)[fd := Some f]]) (Some ci) s) g (\<lambda>_. settled ci)"
    if "\<And>M. quiet Z M (Some ci) g" for f fd and g :: "int call"
    using quiet_settled[OF that] unfolding ends_def option.case by simp blast
  have files: "ends (bal Z L (Some ci)) (seqc filealloc (\<lambda>f. case f of None \<Rightarrow> seqc (do_fs (iunlockput ip)) (\<lambda>_. fail_op)
           | Some f \<Rightarrow> seqc (fdalloc f) (\<lambda>fd. case fd of
                 None \<Rightarrow> seqc (fileclose f) (\<lambda>_. seqc (do_fs (iunlockput ip)) (\<lambda>_. fail_op))
               | Some fd \<Rightarrow> g f fd))) (\<lambda>_. settled ci)"
    if g: "\<And>M f fd. quiet Z M (Some ci) (g f fd)" for ip and g :: "nat \<Rightarrow> nat \<Rightarrow> int call"
  proof (rule ends_seqc[OF filealloc_ends], rule ends_option, goal_cases)
    case 1
    have "ends (bal Z L (Some ci)) (seqc (do_fs (iunlockput ip)) (\<lambda>_. fail_op)) (\<lambda>_. settled ci)" by (intro quiet_settled ckeep proc_view.keep refl)
    then show ?case by simp
  next
    case (2 v f)
    have "ends (bal (Z(f := 1)) L (Some ci)) (seqc (fdalloc f) (\<lambda>fd. case fd of
          None \<Rightarrow> seqc (fileclose f) (\<lambda>_. seqc (do_fs (iunlockput ip)) (\<lambda>_. fail_op)) | Some fd \<Rightarrow> g f fd)) (\<lambda>_. settled ci)" if f: "f < NFILE"
      by (rule ends_seqc[OF fdalloc_ends[OF f]], rule ends_option, simp only: option.case, rule close[OF f], rule got[OF g])
    then show ?case unfolding ends_def option.case by auto
  qed
  have sel: "fref (if b then f\<lparr>ftype := a, fmajor := m\<rparr> else f\<lparr>ftype := e, foff := 0\<rparr>) = fref f" for b a e m and f :: file_s by simp
  show ?thesis
    unfolding sys_open_def by (intro quiet_settled files ckeep proc_view.keep refl; simp add: sel)
qed

lemma copyout_fd_quiet [ckeep]: "quiet d L c (copyout_fd P a fd)"
  unfolding copyout_fd_def by (intro ckeep kkeep; simp)

lemma close_both_settled: "rf < NFILE \<Longrightarrow> wr < NFILE \<Longrightarrow> rf \<noteq> wr \<Longrightarrow> ends (bal (Z(rf := 1, wr := 1)) M (Some ci)) (close_both rf wr) (\<lambda>_. settled ci)"
  unfolding close_both_def by (intro close_two ckeep)

lemma drop_then:
  "has_fd M ci fd f \<Longrightarrow> ends (bal (d(f := d f + 1)) (M[ci := (M ! ci)[fd := None]]) (Some ci)) g Q \<Longrightarrow> ends (bal d M (Some ci)) (seqc (drop_fd fd) (\<lambda>_. g)) Q"
  by (rule ends_seqc[OF drop_fd_ends])

lemma bal_lengths: "bal d L c s \<Longrightarrow> length L = NPROC \<and> (ci < NPROC \<longrightarrow> length (L ! ci) = NOFILE)"
  by (auto simp: bal_def)

lemma pipe_fds_settled:
  assumes f: "rf < NFILE" "wr < NFILE" "rf \<noteq> wr" and h: "has_fd M ci fd0 rf" and l: "length M = NPROC" "length (M ! ci) = NOFILE"
  shows "ends (bal (Z(wr := 1)) M (Some ci)) (pipe_fds P a rf wr fd0) (\<lambda>_. settled ci)"
  unfolding pipe_fds_def
proof (rule ends_seqc[OF fdalloc_ends[OF f(2)]], rule ends_option, goal_cases)
  case 1
  have e: "(Z(wr := 1))(rf := (Z(wr := 1)) rf + 1) = Z(rf := 1, wr := 1)" using f(3) by auto
  show ?case unfolding option.case by (rule drop_then[OF h, of "Z(wr := 1)", unfolded e, OF close_both_settled[OF f]])
next
  case (2 v fd1)
  define N where "N = M[ci := (M ! ci)[fd1 := Some wr]]"
  have undo: "ends (bal Z N (Some ci)) (seqc (drop_fd fd0) (\<lambda>_. seqc (drop_fd fd1) (\<lambda>_. close_both rf wr))) (\<lambda>_. settled ci)"
    if b: "fd1 < NOFILE" "M ! ci ! fd1 = None"
  proof (intro drop_then)
    have ne: "fd0 \<noteq> fd1" using h b(2) by (auto simp: has_fd_def)
    show "has_fd N ci fd0 rf" "has_fd (N[ci := (N ! ci)[fd0 := None]]) ci fd1 wr" using h b f l ne by (auto simp: has_fd_def N_def)
  qed (use close_both_settled[OF f] f(3) in simp)
  have "ends (bal Z N (Some ci)) (seqc (copyout_fd P a fd0) (\<lambda>r. seqc (if r < 0 then ret r else copyout_fd P (a + 4) fd1) (\<lambda>r.
    if r < 0 then seqc (drop_fd fd0) (\<lambda>_. seqc (drop_fd fd1) (\<lambda>_. close_both rf wr)) else ret 0))) (\<lambda>_. settled ci)"
    if b: "fd1 < NOFILE" "M ! ci ! fd1 = None"
    by (rule quiet_seqc[OF copyout_fd_quiet], rule quiet_seqc, intro ckeep, rule ends_if, rule undo[OF b], intro ckeep)
  then show ?case unfolding ends_def option.case N_def by simp blast
qed

lemma sys_pipe_settled: "ends (bal Z L (Some ci)) (sys_pipe P) (\<lambda>_. settled ci)"
  unfolding sys_pipe_def
proof (rule quiet_seqc[OF args_quiet(3)], rule ends_seqc[OF pipealloc_ends], rule ends_option, goal_cases)
  case (1 a v)
  then show ?case by (auto simp: ends_def ret_def made_pipe_def intro: settledI)
next
  case (2 a v p)
  obtain rf wr where p: "p = (rf, wr)" by force
  have "ends (bal (Z(rf := 1, wr := 1)) L (Some ci)) (seqc (fdalloc rf) (\<lambda>fd0. case fd0 of None \<Rightarrow> close_both rf wr | Some fd0 \<Rightarrow> pipe_fds P a rf wr fd0)) (\<lambda>_. settled ci)"
    if f: "rf < NFILE" "wr < NFILE" "rf \<noteq> wr"
  proof (rule ends_seqc[OF fdalloc_ends[OF f(1)]], rule ends_option, goal_cases)
    case 1
    then show ?case using close_both_settled[OF f] by simp
  next
    case (2 v fd0)
    define M where "M = L[ci := (L ! ci)[fd0 := Some rf]]"
    have "(Z(rf := 1, wr := 1))(rf := (Z(rf := 1, wr := 1)) rf - 1) = Z(wr := 1)" using f(3) by auto
    moreover have "has_fd M ci fd0 rf \<and> length M = NPROC \<and> length (M ! ci) = NOFILE" if "fd0 < NOFILE" "ci < NPROC" "bal d M (Some ci) s" for d s
      using bal_lengths[OF that(3), of ci] that f(1) by (auto simp: has_fd_def M_def)
    ultimately show ?case using pipe_fds_settled[OF f, of M ci fd0 P a] unfolding ends_def option.case M_def by (metis (no_types, lifting))
  qed
  then show ?case unfolding p ends_def option.case made_pipe_def prod.case by auto
qed

section \<open>fork\<close>

definition live :: "nat \<Rightarrow> osys \<Rightarrow> bool" where
  "live i s \<longleftrightarrow> \<not> gone (procs (kn (fsy s)) ! i)"

lemma on_kern_Returns: "on_kern g s = Inr (Returns a, s') \<longleftrightarrow> (\<exists>k. g (kn (fsy s)) = Inr (a, k) \<and> s' = s\<lparr>fsy := (fsy s)\<lparr>kn := k\<rparr>\<rparr>)"
  by (auto simp: on_kern_def on_fs_def bnd_eq_Inr)

lemma do_kern_Returns: "do_kern g s = Inr (Returns a, s') \<longleftrightarrow> (\<exists>k. g (kn (fsy s)) = Inr k \<and> s' = s\<lparr>fsy := (fsy s)\<lparr>kn := k\<rparr>\<rparr>)"
  by (auto simp: do_kern_def on_kern_Returns bnd_eq_Inr)

abbreviation bal_live :: "nat option list list \<Rightarrow> nat \<Rightarrow> nat \<Rightarrow> osys \<Rightarrow> bool" where
  "bal_live L ci np s \<equiv> bal Z L (Some ci) s \<and> live np s"

lemma fork_dup_ends:
  assumes f: "f < NFILE" and np: "np < NPROC" and free: "L ! np ! i = None" "i < NOFILE"
  shows "ends (bal_live L ci np) (seqc (filedup f) (\<lambda>f. do_kern (setp np (\<lambda>q. q\<lparr>ofile := (ofile q)[i := Some f]\<rparr>)))) (\<lambda>_. bal_live (L[np := (L ! np)[i := Some f]]) ci np)"
proof (rule ends_seqc[of _ _ "\<lambda>r s. (bal (Z(f := 1)) L (Some ci) s \<and> live np s) \<and> r = f"])
  have "live np s'" if "filedup f s = Inr (Returns r, s')" "live np s" for s r s'
    using that by (auto simp: filedup_def bnd_eq_Inr set_file_def live_def split: if_splits)
  then show "ends (bal_live L ci np) (filedup f) (\<lambda>r s. (bal (Z(f := 1)) L (Some ci) s \<and> live np s) \<and> r = f)"
    using filedup_ends[OF f, of Z L "Some ci"] unfolding ends_def by auto
next
  fix r
  have "bal Z (L[np := (L ! np)[i := Some f]]) (Some ci) (s\<lparr>fsy := (fsy s)\<lparr>kn := k\<rparr>\<rparr>) \<and> live np (s\<lparr>fsy := (fsy s)\<lparr>kn := k\<rparr>\<rparr>)"
    if "bal (Z(f := 1)) L (Some ci) s" "live np s" and k: "setp np (\<lambda>q. q\<lparr>ofile := (ofile q)[i := Some f]\<rparr>) (kn (fsy s)) = Inr k" for s k
  proof -
    have "live np (s\<lparr>fsy := (fsy s)\<lparr>kn := k\<rparr>\<rparr>)" using k that(2) by (auto simp: on_procs_def upd_p_def bnd_eq_Inr live_def gone_def split: if_splits)
    then show ?thesis using bal_set_fd[OF that(1) np free(2) _ _ k] f that(2) free(1) by (simp add: live_def move_fd_def)
  qed
  then show "ends (\<lambda>s. (bal (Z(f := 1)) L (Some ci) s \<and> live np s) \<and> r = f) (do_kern (setp np (\<lambda>q. q\<lparr>ofile := (ofile q)[i := Some r]\<rparr>))) (\<lambda>_ s. bal_live (L[np := (L ! np)[i := Some f]]) ci np s)"
    by (auto simp: ends_def do_kern_Returns)
qed

lemma fork_files_ends:
  assumes "np < NPROC" "distinct fds" "\<forall>fd \<in> set fds. fd < NOFILE \<and> L ! np ! fd = None"
  shows "ends (bal_live L ci np) (fork_files p np fds) (\<lambda>_. settled ci)"
  using assms(2,3)
proof (induction fds arbitrary: L)
  case Nil
  then show ?case by (auto simp: ends_def ret_def intro: settledI)
next
  case (Cons i fds)
  have get: "ends (bal_live L ci np) (on_kern (\<lambda>k. bnd (getp p k) (\<lambda>pr. Inr (pr, k)))) (\<lambda>pr s. bal_live L ci np s \<and> (p < NPROC \<and> ofile pr = L ! p))"
    by (auto simp: ends_def on_kern_Returns bnd_eq_Inr getp_def get_p_def bal_def kbal_def tbal_def live_def split: if_splits)
  show ?case
    unfolding fork_files.simps
  proof (rule ends_seqc[OF get], rule ends_pure, elim conjE, goal_cases)
    case (1 pr)
    show ?case
    proof (cases "ofile pr ! i")
      case None
      then have "seqc (ret ()) (\<lambda>_. fork_files p np fds) = fork_files p np fds" by (auto simp: seqc_def ret_def fun_eq_iff)
      then show ?thesis using Cons.IH[of L] Cons.prems None by simp
    next
      case (Some f)
      have fN: "f < NFILE" if "bal Z L (Some ci) s" for s
      proof -
        have "L ! p \<in> set L" "length (L ! p) = NOFILE" using that 1 by (auto simp: bal_def)
        moreover then have "Some f \<in> set (L ! p)" using Some 1 Cons.prems(2) nth_mem[of i "L ! p"] by auto
        ultimately show ?thesis using that unfolding bal_def by blast
      qed
      have nn: "\<forall>fd \<in> set fds. fd < NOFILE \<and> L[np := (L ! np)[i := Some f]] ! np ! fd = None"
      proof
        fix fd assume "fd \<in> set fds"
        then have "fd \<noteq> i" "fd < NOFILE" "L ! np ! fd = None" using Cons.prems by auto
        then show "fd < NOFILE \<and> L[np := (L ! np)[i := Some f]] ! np ! fd = None" by (cases "np < length L") (auto simp: list_update_beyond)
      qed
      have "ends (bal_live L ci np) (seqc (seqc (filedup f) (\<lambda>f. do_kern (setp np (\<lambda>q. q\<lparr>ofile := (ofile q)[i := Some f]\<rparr>)))) (\<lambda>_. fork_files p np fds)) (\<lambda>_. settled ci)" if "f < NFILE"
        by (rule ends_seqc[OF fork_dup_ends[OF that assms(1)]]) (use Cons.prems Cons.IH[OF _ nn] in simp_all)
      then show ?thesis using fN Some unfolding ends_def by auto
    qed
  qed
qed

lemma allocproc_ends:
  "ends (bal Z L (Some ci)) (on_kern (allocproc tr fr)) (\<lambda>r s. case r of None \<Rightarrow> bal Z L (Some ci) s | Some np \<Rightarrow> bal_live L ci np s \<and> (np < NPROC \<and> spare L (Some ci) np))"
proof -
  have "case r of None \<Rightarrow> bal Z L (Some ci) s' | Some np \<Rightarrow> bal_live L ci np s' \<and> (np < NPROC \<and> spare L (Some ci) np)"
    if b: "bal Z L (Some ci) s" and k: "allocproc tr fr (kn (fsy s)) = Inr (r, k)" and s': "s' = s\<lparr>fsy := (fsy s)\<lparr>kn := k\<rparr>\<rparr>" for s r k s'
  proof -
    have kb: "kbal L (Some ci) (kn (fsy s))" using b by (simp add: bal_def)
    have "bal Z L (Some ci) s'" using allocproc_kq(1)[OF kb k] b by (simp add: bal_def s')
    moreover have "length L = NPROC" using b by (simp add: bal_def)
    ultimately show ?thesis using allocproc_kq(2)[OF kb k] by (auto simp: live_def gone_def s' split: option.splits)
  qed
  then show ?thesis unfolding ends_def on_kern_Returns by blast
qed

lemma live_quiet:
  "quiet Z L (Some ci) g \<Longrightarrow> (\<And>s a s'. g s = Inr (Returns a, s') \<Longrightarrow> live np s \<Longrightarrow> live np s') \<Longrightarrow> ends (bal_live L ci np) g (\<lambda>_. bal_live L ci np)"
  unfolding ends_def by blast

lemma live_seqc:
  "quiet Z L (Some ci) g \<Longrightarrow> (\<And>s a s'. g s = Inr (Returns a, s') \<Longrightarrow> live np s \<Longrightarrow> live np s') \<Longrightarrow> (\<And>a. ends (bal_live L ci np) (h a) Q)
    \<Longrightarrow> ends (bal_live L ci np) (seqc g h) Q"
  by (rule ends_seqc[OF live_quiet])

lemma settled_seqc: "ends P g (\<lambda>_. settled ci) \<Longrightarrow> (\<And>a L. quiet Z L (Some ci) (h a)) \<Longrightarrow> ends P (seqc g h) (\<lambda>_. settled ci)"
  by (erule ends_seqc) (intro ends_settled quiet_settled)

lemma fork_child_settled:
  assumes files: "ends (bal_live L ci np) (fork_files p np [0..<NOFILE]) (\<lambda>_. settled ci)"
  shows "ends (bal_live L ci np) (fork_child p np) (\<lambda>_. settled ci)"
  unfolding fork_child_def
proof (rule live_seqc, goal_cases)
  case 1
  then show ?case by (intro ckeep kkeep; simp)
next
  case (2 s a s')
  then show ?case by (auto simp: on_kern_Returns bnd_eq_Inr live_def)
next
  case (3 pp)
  have copy: "ends (bal_live L ci np) (do_kern (\<lambda>k. Inr (set_tf x y z (k\<lparr>km := (km k)\<lparr>mem := f k\<rparr>\<rparr>)))) (\<lambda>_. bal_live L ci np)" for x y z f
  proof (rule live_quiet, goal_cases)
    case 1
    then show ?case by (intro ckeep kkeep; simp)
  qed (auto simp: do_kern_Returns live_def set_tf_def)
  have set: "ends (bal_live L ci np) (do_kern (setp np (\<lambda>q. q\<lparr>sz := z\<rparr>))) (\<lambda>_. bal_live L ci np)" for z
  proof (rule live_quiet, goal_cases)
    case 1
    then show ?case by (intro ckeep kkeep; simp)
  qed (auto simp: do_kern_Returns on_procs_def upd_p_def bnd_eq_Inr live_def gone_def nth_list_update split: if_splits)
  show ?case
    unfolding split_def
  proof (rule ends_seqc[OF set], rule ends_seqc[OF copy], rule settled_seqc[OF files], goal_cases)
    case 1
    show ?case by (intro ckeep kkeep proc_view.keep refl; simp)
  qed
qed

lemma fork_settled: "ends (bal Z L (Some ci)) (fork tr fr) (\<lambda>_. settled ci)"
  unfolding fork_def
proof (rule quiet_seqc, goal_cases)
  case 1
  then show ?case by (intro ckeep kkeep; simp)
next
  case (2 p)
  show ?case
  proof (rule ends_seqc[OF allocproc_ends], rule ends_option, goal_cases)
    case 1
    then show ?case by (simp only: option.case) (intro ckeep)
  next
    case (2 v np)
    have uv: "quiet d M c (on_kern (uvmcopy_proc p np))" for d M c unfolding uvmcopy_proc_def split_def by (intro ckeep kkeep; simp)
    have free: "quiet Z L (Some ci) (seqc (do_kern (freeproc np)) (\<lambda>_. seqc (do_kern (unlockp np)) (\<lambda>_. ret (-1 :: int))))" if "spare L (Some ci) np"
      by (intro ckeep kkeep freeproc_kq that; assumption)
    show ?case
      unfolding option.case
    proof (rule ends_pure, elim conjE, rule live_seqc[OF uv], goal_cases)
      case (1 s a s')
      then show ?case by (auto simp: on_kern_Returns uvmcopy_proc_def bnd_eq_Inr live_def)
    next
      case (2 r)
      have none: "\<forall>fd \<in> set [0..<NOFILE]. fd < NOFILE \<and> L ! np ! fd = None" if "bal Z L (Some ci) s" for s
      proof -
        have "length (L ! np) = NOFILE" "set (L ! np) \<subseteq> {None}" using bal_lengths[OF that, of np] 2 by (auto simp: spare_def clean_def)
        then have "L ! np ! fd = None" if "fd < NOFILE" for fd using nth_mem[of fd "L ! np"] that by (metis singletonD subsetD)
        then show ?thesis by simp
      qed
      have files: "ends (bal_live L ci np) (fork_files p np [0..<NOFILE]) (\<lambda>_. settled ci)"
        using fork_files_ends[OF 2(1) distinct_upt, of 0 NOFILE L ci p] none unfolding ends_def by blast
      show ?case
      proof (rule ends_if)
        show "ends (bal_live L ci np) (seqc (do_kern (freeproc np)) (\<lambda>_. seqc (do_kern (unlockp np)) (\<lambda>_. ret (- 1 :: int)))) (\<lambda>_. settled ci)"
          using quiet_settled[OF free[OF 2(2)]] unfolding ends_def by blast
      next
        show "ends (bal_live L ci np) (fork_child p np) (\<lambda>_. settled ci)" by (rule fork_child_settled[OF files])
      qed
    qed
  qed
qed

section \<open>exit\<close>

definition closed :: "nat \<Rightarrow> nat list \<Rightarrow> nat option list list \<Rightarrow> osys \<Rightarrow> bool" where
  "closed p fds L s \<longleftrightarrow> (\<exists>M. bal Z M (Some p) s \<and> (\<forall>fd. fd \<in> set fds \<or> L ! p ! fd = None \<longrightarrow> M ! p ! fd = None))"

lemma close_fd_ends:
  assumes p: "p < NPROC" "fd < NOFILE" "L ! p ! fd = Some f" "f < NFILE"
  shows "ends (bal Z L (Some p)) (seqc (fileclose f) (\<lambda>_. do_kern (setp p (\<lambda>q. q\<lparr>ofile := (ofile q)[fd := None]\<rparr>))))
    (\<lambda>_. bal Z (L[p := (L ! p)[fd := None]]) (Some p))"
proof (rule ends_seqc[OF fileclose_ends[OF p(4)]])
  have "bal Z (L[p := (L ! p)[fd := None]]) (Some p) (s\<lparr>fsy := (fsy s)\<lparr>kn := k\<rparr>\<rparr>)"
    if b: "bal (Z(f := - 1)) L (Some p) s" and k: "setp p (\<lambda>q. q\<lparr>ofile := (ofile q)[fd := None]\<rparr>) (kn (fsy s)) = Inr k" for s k
    using bal_set_fd[OF b p(1,2) _ _ k] p(3) by (simp add: move_fd_def)
  then show "ends (bal (Z(f := Z f - 1)) L (Some p)) (do_kern (setp p (\<lambda>q. q\<lparr>ofile := (ofile q)[fd := None]\<rparr>))) (\<lambda>_. bal Z (L[p := (L ! p)[fd := None]]) (Some p))"
    by (auto simp: ends_def do_kern_Returns)
qed simp

lemma exit_files_ends:
  assumes "p < NPROC" "\<forall>fd \<in> set fds. fd < NOFILE"
  shows "ends (bal Z L (Some p)) (exit_files p fds) (\<lambda>_. closed p fds L)"
  using assms(2)
proof (induction fds arbitrary: L)
  case Nil
  then show ?case by (auto simp: ends_def ret_def closed_def)
next
  case (Cons fd fds)
  have get: "ends (bal Z L (Some p)) (on_kern (\<lambda>k. bnd (getp p k) (\<lambda>pr. Inr (pr, k)))) (\<lambda>pr s. bal Z L (Some p) s \<and> ofile pr = L ! p)"
    by (auto simp: ends_def on_kern_Returns bnd_eq_Inr getp_def get_p_def bal_def kbal_def tbal_def split: if_splits)
  show ?case
    unfolding exit_files.simps
  proof (rule ends_seqc[OF get], rule ends_pure, goal_cases)
    case (1 pr)
    show ?case
    proof (cases "L ! p ! fd")
      case None
      then have "seqc (ret ()) (\<lambda>_. exit_files p fds) = exit_files p fds" by (auto simp: seqc_def ret_def fun_eq_iff)
      moreover have "closed p fds L s \<Longrightarrow> closed p (fd # fds) L s" for s using None by (auto simp: closed_def)
      ultimately show ?thesis using 1 None Cons by (auto intro: ends_weaken)
    next
      case (Some f)
      let ?L = "L[p := (L ! p)[fd := None]]"
      have fN: "f < NFILE \<and> p < length L \<and> fd < length (L ! p)" if "bal Z L (Some p) s" for s
      proof -
        have "L ! p \<in> set L" "length (L ! p) = NOFILE" "p < length L" using that assms(1) by (auto simp: bal_def)
        moreover then have "Some f \<in> set (L ! p)" using Some Cons.prems nth_mem[of fd "L ! p"] by auto
        ultimately show ?thesis using that Cons.prems unfolding bal_def by auto
      qed
      have cl: "closed p fds ?L s \<Longrightarrow> closed p (fd # fds) L s" if "p < length L" "fd < length (L ! p)" for s
        using that by (auto simp: closed_def nth_list_update)
      have "ends (bal Z L (Some p)) (seqc (seqc (fileclose f) (\<lambda>_. do_kern (setp p (\<lambda>q. q\<lparr>ofile := (ofile q)[fd := None]\<rparr>)))) (\<lambda>_. exit_files p fds)) (\<lambda>_. closed p (fd # fds) L)"
        if b: "f < NFILE" "p < length L" "fd < length (L ! p)"
        using Cons.prems by (intro ends_seqc[OF close_fd_ends[OF assms(1) _ Some b(1)]] ends_weaken[OF Cons.IH] cl b) auto
      then show ?thesis using fN 1 Some unfolding ends_def by auto
    qed
  qed
qed

text \<open>The invariant itself, which does not depend on who is running.\<close>

definition files_ok :: "osys \<Rightarrow> bool" where
  "files_ok s \<longleftrightarrow> (\<exists>L. bal Z L None s)"

lemma settled_ok: "settled ci s \<Longrightarrow> files_ok s"
  by (auto simp: settled_def files_ok_def bal_def kbal_def tbal_def spare_def)

lemma zombie_ends:
  assumes "clean (M ! ci)"
  shows "ends (bal Z M (Some ci)) (upd_cur (\<lambda>q. q\<lparr>xstate := st, state := ZOMBIE, etime := now\<rparr>)) (\<lambda>_. bal Z M None)"
proof -
  have "bal Z M None (s\<lparr>fsy := (fsy s)\<lparr>kn := k\<rparr>\<rparr>)"
    if b: "bal Z M (Some ci) s" and k: "setp ci (\<lambda>q. q\<lparr>xstate := st, state := ZOMBIE, etime := now\<rparr>) (kn (fsy s)) = Inr k" for s k
  proof -
    have t: "tbal M None (procs (kn (fsy s)))" using b by (auto simp: bal_def kbal_def tbal_def spare_def)
    have "tbal M None (procs k)"
      using k by (auto simp: on_procs_def upd_p_def bnd_eq_Inr spare_def assms intro!: tbal_update[OF t] split: if_splits)
    then show ?thesis using b by (auto simp: bal_def kbal_def)
  qed
  moreover have "cur (kn (fsy s)) = Some ci" if "bal Z M (Some ci) s" for s using that by (simp add: bal_def kbal_def)
  ultimately show ?thesis by (auto simp: ends_def upd_cur_Returns)
qed

lemma leave_settled:
  assumes "clean (M ! ci)"
  shows "ends (bal Z M (Some ci)) (exit_leave ci st) (\<lambda>_. files_ok)"
proof -
  have rest: "quiet Z M None (seqc (do_kern (release_k WaitLock)) (\<lambda>_. do_kern (\<lambda>k. bnd (sched k) (\<lambda>_. Inr k))))"
    by (intro ckeep kkeep; simp)
  have out: "ends (bal Z M (Some ci)) (seqc (upd_cur (\<lambda>q. q\<lparr>xstate := st, state := ZOMBIE, etime := now\<rparr>)) (\<lambda>_.
      seqc (do_kern (release_k WaitLock)) (\<lambda>_. do_kern (\<lambda>k. bnd (sched k) (\<lambda>_. Inr k))))) (\<lambda>_. files_ok)" for now
    by (rule ends_seqc[OF zombie_ends[OF assms]], rule ends_weaken[OF rest]) (auto simp: files_ok_def)
  show ?thesis unfolding exit_leave_def by (intro out ckeep kkeep; simp)
qed

lemma exit_settled:
  assumes ci: "ci < NPROC"
  shows "ends (bal Z L (Some ci)) (exit_call st) (\<lambda>_. files_ok)"
  unfolding exit_call_def
proof (rule ends_seqc[of _ _ "\<lambda>p s. bal Z L (Some ci) s \<and> p = ci"], goal_cases)
  case 1
  then show ?case by (auto simp: ends_def on_kern_Returns bnd_eq_Inr myproc_def bal_def kbal_def split: option.splits)
next
  case (2 p)
  show ?case
  proof (rule ends_pure, simp only:, rule quiet_seqc[OF quiet_basic(2)], rule ends_if[OF quiet_basic(4)], rule ends_seqc[OF exit_files_ends[OF ci]], goal_cases)
    case (2 ini u)
    have "clean (M ! ci)" if "bal Z M (Some ci) s" "\<forall>fd. fd \<in> set [0..<NOFILE] \<or> L ! ci ! fd = None \<longrightarrow> M ! ci ! fd = None" for M s
      using bal_lengths[OF that(1), of ci] that(2) ci by (auto simp: clean_def in_set_conv_nth)
    then show ?case using leave_settled unfolding ends_def closed_def by blast
  qed simp
qed

end
