(* ===== verification/Syscall_Props.thy ===== *)
theory Syscall_Props
  imports Memory_Props Proc_Props Fs_Props File_Calls
begin

unbundle bit_operations_syntax

text \<open>
  Properties of the system calls as a whole: the reference counts of open files across the table of system
  calls, and the kernel's answer to a store page fault.
\<close>

section \<open>Open files\<close>

text \<open>The number of descriptors, over all processes, that refer to file \<open>i\<close>.\<close>

definition descriptors :: "osys \<Rightarrow> nat \<Rightarrow> int" where
  "descriptors s i = int (length (filter (\<lambda>x. x = Some i) (concat (map ofile (procs (kn (fsy s)))))))"

definition refs_exact :: "osys \<Rightarrow> bool" where
  "refs_exact s \<longleftrightarrow> length (ftable s) = NFILE \<and> length (procs (kn (fsy s))) = NPROC
     \<and> (\<forall>p \<in> set (procs (kn (fsy s))). length (ofile p) = NOFILE \<and> (\<forall>f. Some f \<in> set (ofile p) \<longrightarrow> f < NFILE)
          \<and> (state p = UNUSED \<or> state p = ZOMBIE \<longrightarrow> ofile p = replicate NOFILE None))
     \<and> (\<forall>i < NFILE. fref (ftable s ! i) = descriptors s i)"

lemma fdrefs_concat: "fdrefs L i = int (length (filter (\<lambda>x. x = Some i) (concat L)))"
  by (induction L) (simp_all add: fdrefs_def cnt_eq_length_filter)

lemma clean_eq: "length os = n \<Longrightarrow> clean os \<longleftrightarrow> os = replicate n None"
  by (auto simp: clean_def intro!: replicate_eqI dest!: arg_cong[of os _ set])

lemma refs_exact_eq: "refs_exact s \<longleftrightarrow> files_ok s"
proof -
  let ?ps = "procs (kn (fsy s))"
  have "files_ok s \<longleftrightarrow> bal Z (map ofile ?ps) None s"
    by (auto simp: files_ok_def bal_def kbal_def tbal_def)
  also have "\<dots> \<longleftrightarrow> refs_exact s"
    by (auto simp: bal_def kbal_def tbal_def spare_def refs_exact_def descriptors_def fdrefs_concat gone_def clean_eq all_set_conv_all_nth)
  finally show ?thesis by simp
qed

lemma files_ok_bal:
  "files_ok s \<Longrightarrow> cur (kn (fsy s)) = Some ci \<Longrightarrow> state (procs (kn (fsy s)) ! ci) = RUNNING \<Longrightarrow> \<exists>L. bal Z L (Some ci) s"
  by (auto simp: files_ok_def bal_def kbal_def tbal_def spare_def gone_def)

lemma sys_exit_ends: "ends P sys_exit Q"
  by (auto simp: ends_def sys_exit_def seqc_Returns switch_away_def)

lemma table_settled:
  assumes "syscalls P M num = Some f"
  shows "ends (bal Z L (Some ci)) f (\<lambda>_. settled ci)"
proof -
  have "f \<in> set [sys_fork M, sys_exit, widen (sys_pipe P), widen sys_dup, widen (sys_open P), widen sys_close]
      \<or> quiet Z L (Some ci) f"
    using assms unfolding syscalls_def by (simp split: if_splits) (auto intro!: ckeep)
  then show ?thesis
    by (auto intro: quiet_settled sys_exit_ends widen_ends[OF sys_dup_settled] widen_ends[OF sys_close_settled] widen_ends[OF sys_open_settled]
      widen_ends[OF sys_pipe_settled] widen_ends[OF fork_settled] simp: sys_fork_def)
qed

lemma syscall_settled: "ends (bal Z L (Some ci)) (syscall P M) (\<lambda>_. settled ci)"
  unfolding syscall_def
proof (rule quiet_seqc[OF cur_proc_quiet], rule quiet_seqc, goal_cases)
  case (1 p)
  then show ?case unfolding get_tf_def by (intro ckeep)
next
  case (2 p a7)
  have put: "quiet Z L (Some ci) (put_tf a b c)" for L a b c unfolding put_tf_def by (intro ckeep kkeep; simp)
  show ?case
    by (rule ends_case) (intro quiet_settled put, rule settled_seqc[OF table_settled put])
qed

text \<open>A system with two entries of its tables in use: process 0 runs, with file 0 open as descriptor 0.\<close>

definition sample_running :: "kmem \<Rightarrow> kern" where
  "sample_running m = \<lparr>procs = proc_zero\<lparr>state := RUNNING, pid := 1, pagetable := 0x80001000, trapframe := 0x8000b000, ofile := Some 0 # replicate 15 None\<rparr>
       # replicate 63 proc_zero, cur = Some 0, initproc = Some 0, nextpid = 2, ticks = 0, klocks = {}, km = m\<rparr>"

definition file_zero :: file_s where
  "file_zero = \<lparr>ftype = FD_NONE, fref = 0, readable = False, writable = False, fpipe = 0, fip = 0, foff = 0, fmajor = 0\<rparr>"

definition sample_os :: "kmem \<Rightarrow> tty \<Rightarrow> osys" where
  "sample_os m t = \<lparr>fsy = sample_fs (sample_running m), ftable = file_zero\<lparr>ftype := FD_DEVICE, fref := 1\<rparr> # replicate 99 file_zero,
     pipes = Map.empty, tts = t, readCount = 0\<rparr>"

text \<open>The trap frame at \<^verbatim>\<open>0x8000b000\<close> asks for \<open>dup(0)\<close>.\<close>

definition dup_request :: kmem where
  "dup_request = \<lparr>mem = store64 (\<lambda>_. 0) (0x8000b000 + 168) 10, freelist = 0, temp = (\<lambda>_. 1)\<rparr>"

lemma sample_os_proc: "kn (fsy (sample_os m t)) = sample_running m" "cur (sample_running m) = Some 0" "length (procs (sample_running m)) = NPROC"
  "procs (sample_running m) ! 0 = proc_zero\<lparr>state := RUNNING, pid := 1, pagetable := 0x80001000, trapframe := 0x8000b000, ofile := Some 0 # replicate 15 None\<rparr>"
  "km (sample_running m) = m"
  by (simp_all add: sample_os_def sample_fs_def sample_running_def NPROC_def)

lemma sample_os_exact: "refs_exact (sample_os m t)"
proof -
  have "fref (ftable (sample_os m t) ! i) = descriptors (sample_os m t) i" if "i < NFILE" for i
    using that by (simp add: sample_os_def sample_fs_def sample_running_def descriptors_def proc_zero_def file_zero_def NOFILE_def NFILE_def nth_Cons split: nat.splits)
  then show ?thesis
    by (simp add: refs_exact_def) (simp add: sample_os_def sample_fs_def sample_running_def proc_zero_def NOFILE_def NFILE_def NPROC_def)
qed

text \<open>
  C39. The reference count of every open file is exact across the system calls. In a system where the count
  of each entry of the file table is the number of descriptors of all processes that refer to it, processes
  without a life have none and a process is running, any system call that returns to that process, whatever
  its number, arguments and outcome, leaves such a system; and so does \<open>exit\<close> at the point where the process
  gives up the processor for the last time.
\<close>

theorem syscalls_keep_file_refs:
  assumes "refs_exact s" "cur (kn (fsy s)) = Some ci" "ci < NPROC" "state (procs (kn (fsy s)) ! ci) = RUNNING"
  shows "(\<forall>s'. syscall P M s = Inr (Returns (), s') \<longrightarrow> refs_exact s')
    \<and> (\<forall>st s'. exit_call st s = Inr (Returns (), s') \<longrightarrow> refs_exact s')"
proof -
  obtain L where "bal Z L (Some ci) s" using files_ok_bal assms by (auto simp: refs_exact_eq)
  then show ?thesis
    using syscall_settled[of L ci P M] exit_settled[OF assms(3), of L] settled_ok unfolding ends_def refs_exact_eq by blast
qed

lemma cur_proc_run: "cur (kn (fsy s)) = Some i \<Longrightarrow> i < length (procs (kn (fsy s))) \<Longrightarrow> cur_proc s = Inr (Returns (procs (kn (fsy s)) ! i), s)"
  by (simp add: cur_proc_def on_kern_def on_fs_def myproc_def getp_def get_p_def)

lemma upd_cur_run:
  "cur (kn (fsy s)) = Some i \<Longrightarrow> i < length (procs (kn (fsy s)))
    \<Longrightarrow> upd_cur g s = Inr (Returns (), s\<lparr>fsy := (fsy s)\<lparr>kn := (kn (fsy s))\<lparr>procs := (procs (kn (fsy s)))[i := g (procs (kn (fsy s)) ! i)]\<rparr>\<rparr>\<rparr>)"
  by (simp add: upd_cur_def do_kern_def on_kern_def on_fs_def myproc_def on_procs_def upd_p_def)

lemma seqc_run: "g s = Inr (Returns a, s') \<Longrightarrow> seqc g h s = h a s'"
  by (simp add: seqc_def)

lemma seqc_ret: "seqc (ret a) h = h a" "seqc (seqc g h) h2 = seqc g (\<lambda>a. seqc (h a) h2)"
  by (auto simp: seqc_def ret_def fun_eq_iff bnd_def split: sum.splits blocking.splits)

lemma seqc_get: "seqc (get_os g) h s = bnd (g s) (\<lambda>a. h a s)"
  by (simp add: seqc_def get_os_def bnd_def split: sum.splits)

lemma sample_dup: "\<exists>s'. syscall P M (sample_os dup_request t) = Inr (Returns (), s') \<and> fref (ftable s' ! 0) = 2"
proof -
  have l: "load64 (mem dup_request) 0x8000B0A8 = 10" "load64 (mem dup_request) 0x8000B070 = 0"
    by (simp_all add: dup_request_def load64_store64_other)
  let ?s = "sample_os dup_request t"
  have c: "cur_proc ?s = Inr (Returns (procs (sample_running dup_request) ! 0), ?s)"
    using cur_proc_run[of ?s 0] by (simp add: sample_os_proc NPROC_def)
  have a: "argraw 0 ?s = Inr (Returns 0, ?s)"
    unfolding argraw_def by (simp add: seqc_run c get_os_def kmem_of_def sample_os_proc tf_a_def l)
  have f: "argfd 0 ?s = Inr (Returns (Some (0, 0)), ?s)"
    unfolding argfd_def argint_def by (simp add: seqc_run a c seqc_ret sample_os_proc NOFILE_def ret_def)
  have fd: "find (\<lambda>fd. (Some 0 # replicate 15 None) ! fd = None) [0..<NOFILE] = Some 1" unfolding NOFILE_def by code_simp
  obtain s1 where s1: "fdalloc 0 ?s = Inr (Returns (Some 1), s1)" "ftable s1 = ftable ?s"
    unfolding fdalloc_def by (simp add: seqc_run c sample_os_proc fd[unfolded One_nat_def] upd_cur_run ret_def NPROC_def)
  have "0 < length (ftable s1)" "fref (ftable s1 ! 0) = 1" by (simp_all add: s1(2) sample_os_def)
  then obtain s2 where s2: "filedup 0 s1 = Inr (Returns 0, s2)" "fref (ftable s2 ! 0) = 2" by (simp add: filedup_def get_file_def set_file_def i32_def)
  have "syscalls P M 10 = Some (widen sys_dup)" by (simp add: syscalls_def)
  then have "syscall P M ?s = put_tf 0x8000b000 (tf_a 0) 1 s2"
    unfolding syscall_def get_tf_def sys_dup_def by (simp add: seqc_run c f s1(1) s2(1) seqc_get kmem_of_def sample_os_proc tf_a_def l widen_def seqc_ret)
  then show ?thesis using s2(2) by (simp add: put_tf_def do_kern_def on_kern_def on_fs_def)
qed

theorem syscalls_keep_file_refs_witness:
  "\<forall>P M t. \<exists>s'. syscall P M (sample_os dup_request t) = Inr (Returns (), s') \<and> fref (ftable s' ! 0) = 2 \<and> refs_exact s'"
proof (intro allI)
  fix P M t
  have c: "cur (kn (fsy (sample_os dup_request t))) = Some 0" "state (procs (kn (fsy (sample_os dup_request t))) ! 0) = RUNNING" "0 < NPROC"
    by (simp_all add: sample_os_proc NPROC_def)
  show "\<exists>s'. syscall P M (sample_os dup_request t) = Inr (Returns (), s') \<and> fref (ftable s' ! 0) = 2 \<and> refs_exact s'"
    using sample_dup[of P M t] syscalls_keep_file_refs[OF sample_os_exact c(1,3,2), of P M] by blast
qed

section \<open>Dispatch\<close>

text \<open>
  A system call number outside 1 to 24, read as a signed 32-bit number from the user's \<open>a7\<close>, is
  answered with -1 in \<open>a0\<close> of the trap frame; no other state of the system changes. Every number from 1 to 24
  has a handler.
\<close>

theorem unknown_syscall:
  fixes s :: osys and ci :: nat
  defines "p \<equiv> procs (kn (fsy s)) ! ci"
  defines "num \<equiv> sint (ucast (load64 (kmem_of s) (trapframe p + tf_a 7)) :: uint)"
  assumes "cur (kn (fsy s)) = Some ci" "ci < length (procs (kn (fsy s)))"
  shows "if num < 1 \<or> 24 < num
    then syscall P M s = Inr (Returns (), s\<lparr>fsy := (fsy s)\<lparr>kn := (kn (fsy s))\<lparr>km := (km (kn (fsy s)))\<lparr>mem :=
           store64 (kmem_of s) (trapframe p + tf_a 0) (- 1)\<rparr>\<rparr>\<rparr>\<rparr>)
    else \<exists>f. syscalls P M num = Some f \<and> syscall P M s = seqc f (put_tf (trapframe p) (tf_a 0)) s"
proof -
  have c: "cur_proc s = Inr (Returns p, s)" using cur_proc_run[OF assms(3,4)] by (simp add: p_def)
  have run: "syscall P M s = (case syscalls P M num of Some f \<Rightarrow> seqc f (put_tf (trapframe p) (tf_a 0)) s | None \<Rightarrow> put_tf (trapframe p) (tf_a 0) (- 1) s)"
    unfolding syscall_def get_tf_def num_def by (simp add: seqc_run c seqc_get split: option.splits)
  have "syscalls P M num = None" if "num < 1 \<or> 24 < num" using that by (auto simp: syscalls_def)
  moreover have "\<exists>f. syscalls P M num = Some f" if "\<not> (num < 1 \<or> 24 < num)"
  proof -
    have "num \<in> set [1..24]" using that by simp
    then show ?thesis by (simp add: upto_rec1 del: set_upto) (auto simp: syscalls_def)
  qed
  ultimately show ?thesis using run by (auto simp: put_tf_def do_kern_def on_kern_def on_fs_def set_tf_def kmem_of_def)
qed

theorem unknown_syscall_witness:
  "\<forall>P M t m. syscall P M (sample_os \<lparr>mem = (\<lambda>_. 0), freelist = 0, temp = m\<rparr> t)
     = Inr (Returns (), sample_os \<lparr>mem = store64 (\<lambda>_. 0) 0x8000b070 (- 1), freelist = 0, temp = m\<rparr> t)"
proof (intro allI)
  fix P M t m
  have "0 < NPROC" by (simp add: NPROC_def)
  then show "syscall P M (sample_os \<lparr>mem = (\<lambda>_. 0), freelist = 0, temp = m\<rparr> t)
     = Inr (Returns (), sample_os \<lparr>mem = store64 (\<lambda>_. 0) 0x8000b070 (- 1), freelist = 0, temp = m\<rparr> t)"
    using unknown_syscall[of "sample_os \<lparr>mem = (\<lambda>_. 0), freelist = 0, temp = m\<rparr> t" 0 P M]
    by (simp add: sample_os_proc kmem_of_def tf_a_def) (simp add: sample_os_def sample_fs_def sample_running_def)
qed

section \<open>Store page faults\<close>

text \<open>
  C40. A store to a copy-on-write page, with a page left to allocate. Outside the window of the page below the
  one the user's stack pointer is in, up to and including the first byte of that page, the fault gives the
  process a private writable copy and lets it go on. Inside the window the process is killed and memory is
  left alone. The window is meant for the guard page; it also takes in a byte of the stack page itself
  and, with the stack pointer at a page boundary, the whole page under it, where a store is legal.
\<close>

theorem store_fault_window:
  fixes s :: osys
  defines "k \<equiv> kn (fsy s)"
  assumes cur: "cur k = Some ci" "ci < length (procs k)"
    and p: "p = procs k ! ci" "usp = load64 (mem (km k)) (trapframe p + tf_sp)"
    and st: "pt_state (pagetable p) (km k) (pg # ps)" "va < MAXVA"
    and cow: "leaf (mem (km k)) (pagetable p) va AND PTE_V \<noteq> 0" "leaf (mem (km k)) (pagetable p) va AND PTE_COW \<noteq> 0"
    and pa: "pa = PTE2PA (leaf (mem (km k)) (pagetable p) va)" "valid_page pa" "pa \<notin> pt_pages (mem (km k)) (pagetable p)" "pa \<notin> set (pg # ps)"
  shows "if PGROUNDDOWN usp - PGSIZE \<le> va \<and> va \<le> PGROUNDDOWN usp
    then store_fault va s = Inr (Returns (), s\<lparr>fsy := (fsy s)\<lparr>kn := k\<lparr>procs := (procs k)[ci := p\<lparr>killed := 1\<rparr>]\<rparr>\<rparr>\<rparr>)
    else \<exists>m. store_fault va s = Inr (Returns (), s\<lparr>fsy := (fsy s)\<lparr>kn := k\<lparr>km := m, procs := (procs k)[ci := p\<lparr>killed := 0\<rparr>]\<rparr>\<rparr>\<rparr>)
      \<and> leaf (mem m) (pagetable p) va = cow_private pg (leaf (mem (km k)) (pagetable p) va)
      \<and> (\<forall>j < 4096. mem m (pg + of_nat j) = mem (km k) (pa + of_nat j))"
proof -
  obtain m where m: "custom_cow (pagetable p) va (km k) = Inr (0, m)"
    "leaf (mem m) (pagetable p) va = cow_private pg (leaf (mem (km k)) (pagetable p) va)"
    "\<forall>j < 4096. mem m (pg + of_nat j) = mem (km k) (pa + of_nat j)"
    using custom_cow_copies[OF st cow pa] by (auto simp: same_page_def)
  have c: "cur_proc s = Inr (Returns p, s)" using cur_proc_run[of s ci] cur p by (simp add: k_def)
  have g: "get_tf (trapframe p) tf_sp s = Inr (Returns usp, s)" using p by (simp add: get_tf_def get_os_def kmem_of_def k_def)
  have run: "store_fault va s = (if PGROUNDDOWN usp - PGSIZE \<le> va \<and> va \<le> PGROUNDDOWN usp then upd_cur (\<lambda>q. q\<lparr>killed := 1\<rparr>) s
      else seqc (on_mem (custom_cow (pagetable p) va)) (\<lambda>c. upd_cur (\<lambda>q. q\<lparr>killed := c\<rparr>)) s)"
  proof -
    note steps = seqc_run[where g = cur_proc and a = p and s' = s, OF c] seqc_run[where g = "get_tf (trapframe p) tf_sp" and a = usp and s' = s, OF g]
    show ?thesis unfolding store_fault_def steps using st(2) by auto
  qed
  have "on_mem (custom_cow (pagetable p) va) s = Inr (Returns 0, s\<lparr>fsy := (fsy s)\<lparr>kn := k\<lparr>km := m\<rparr>\<rparr>\<rparr>)"
    using m(1) by (simp add: on_mem_def on_kern_def on_fs_def k_def)
  then show ?thesis
    using m(2,3) cur p(1) by (auto simp: run seqc_run upd_cur_run k_def)
qed

text \<open>
  The address space of one copy-on-write page of \<open>Sample\<close>, with a trap frame in which the user's stack
  pointer is the end of that page, as \<open>userinit\<close> sets it.
\<close>

definition sample_stack :: kmem where
  "sample_stack = (sample 0x33)\<lparr>mem := store64 (sample_mem 0x33) 0x8000b030 0x1000\<rparr>"

lemma sample_stack_pt:
  "pt_state 0x80001000 sample_stack sample_free" "pt_pages (mem sample_stack) 0x80001000 = {0x80001000, 0x80002000, 0x80003000}"
  "leaf (mem sample_stack) 0x80001000 0 = PA2PTE 0x80004000 OR 0x33"
proof -
  have frame: "mem sample_stack x = mem (sample 0x33) x" if "PGROUNDDOWN x \<noteq> 0x8000b000" for x
    using that by (simp add: sample_stack_def sample_def mem_simps PGROUNDDOWN_def PGSIZE_def)
  have "kmem_inv sample_stack sample_free"
    by (rule kmem_inv_frame[OF sample_kmem_inv[of "0x33"]]) (simp add: sample_stack_def, simp add: sample_stack_def, rule frame, auto simp: sample_free_def)
  moreover have "set sample_free \<inter> pt_pages (mem (sample 0x33)) 0x80001000 = {}" and m: "mem (sample 0x33) = sample_mem 0x33"
    by (auto simp: sample_free_def sample_pages sample_def)
  moreover have "mem sample_stack x = mem (sample 0x33) x" if "PGROUNDDOWN x \<in> pt_pages (mem (sample 0x33)) 0x80001000" for x
    using that frame by (auto simp: m sample_pages)
  note fr = pt_state_frame[OF sample_pt_state(1)[of "0x33"] calculation(1,2) this]
  show "pt_state 0x80001000 sample_stack sample_free" "pt_pages (mem sample_stack) 0x80001000 = {0x80001000, 0x80002000, 0x80003000}"
    "leaf (mem sample_stack) 0x80001000 0 = PA2PTE 0x80004000 OR 0x33"
    using fr(1,2) fr(3)[of 0] by (simp_all add: m[symmetric] sample_leaf) (simp add: m sample_pages)
qed

theorem store_fault_window_witness:
  "\<forall>t. \<exists>s'. store_fault 0 (sample_os sample_stack t) = Inr (Returns (), s') \<and> killed (procs (kn (fsy s')) ! 0) = 1"
proof
  fix t
  let ?s = "sample_os sample_stack t"
  have k: "kn (fsy ?s) = sample_running sample_stack" "pagetable (procs (sample_running sample_stack) ! 0) = 0x80001000"
    "trapframe (procs (sample_running sample_stack) ! 0) + tf_sp = 0x8000b030" "km (sample_running sample_stack) = sample_stack"
    by (simp_all add: sample_os_proc tf_sp_def)
  have l: "0x1000 = load64 (mem sample_stack) 0x8000b030" by (simp add: sample_stack_def)
  have e: "0x80004000 = PTE2PA (PA2PTE 0x80004000 OR 0x33)" "(PA2PTE 0x80004000 OR 0x33) AND PTE_V \<noteq> 0" "(PA2PTE 0x80004000 OR 0x33) AND PTE_COW \<noteq> 0"
    by (simp_all add: PTE2PA_def PA2PTE_def PTE_V_def PTE_COW_def)
  have n: "0 < length (procs (sample_running sample_stack))" "0 < MAXVA" by (simp_all add: sample_os_proc NPROC_def MAXVA_num)
  have "0x80004000 \<notin> pt_pages (mem sample_stack) 0x80001000" "0x80004000 \<notin> set (0x80006000 # [0x80007000, 0x80008000 :: uint64])"
    by (simp_all add: sample_stack_pt)
  note W = store_fault_window[of ?s 0 _ "0x1000" "0x80006000" "[0x80007000, 0x80008000]" 0 "0x80004000", unfolded k, OF sample_os_proc(2) n(1) refl, unfolded k,
      OF l sample_stack_pt(1)[unfolded sample_free_def] n(2), unfolded sample_stack_pt(3), OF e(2,3,1) sample_page(4) this]
  have "PGROUNDDOWN 0x1000 - PGSIZE \<le> 0 \<and> 0 \<le> PGROUNDDOWN 0x1000" by (simp add: PGROUNDDOWN_def PGSIZE_def)
  with W n(1) show "\<exists>s'. store_fault 0 ?s = Inr (Returns (), s') \<and> killed (procs (kn (fsy s')) ! 0) = 1" by simp
qed

section \<open>Loading a program\<close>

lemma loadseg_enough:
  "unat n \<le> unat i + 4096 * f \<Longrightarrow> n \<le> 0xFFFFF000 \<Longrightarrow> loadseg_loop (Suc f + e) P pt va ip off n i = loadseg_loop (Suc f) P pt va ip off n i"
proof (induction f arbitrary: i)
  case 0
  then have "\<not> i < n" by (simp add: word_less_nat_alt)
  then show ?case by simp
next
  case (Suc f)
  show ?case
  proof (cases "i < n")
    case True
    then have "unat i + 4096 < 2 ^ 32" using Suc.prems(2) by (simp add: word_less_nat_alt word_le_nat_alt)
    then have "unat (i + 4096) = unat i + 4096" by (simp add: unat_word_ariths)
    then have e: "loadseg_loop (Suc (f + e)) P pt va ip off n (i + 4096) = loadseg_loop (Suc f) P pt va ip off n (i + 4096)"
      using Suc.IH[of "i + 4096"] Suc.prems unfolding add_Suc by simp
    show ?thesis unfolding add_Suc loadseg_loop.simps(2)[of "Suc (f + e)"] loadseg_loop.simps(2)[of "Suc f"] e ..
  qed simp
qed

text \<open>
  Loading a segment of a program ends. The counter of the loop of \<open>loadseg\<close> is a 32-bit number that goes up by
  a page; for a segment that leaves it a page of room below 2^32, one pass for every page begun and one for
  the last test are enough, whatever the file and the address space: with that bound on the number
  of passes or any larger one the loop has the result of \<open>loadseg\<close>.
\<close>

theorem loadseg_ends:
  assumes "n \<le> 0xFFFFF000" "(unat n + 4095) div 4096 < passes"
  shows "loadseg_loop passes P pt va ip off n 0 = loadseg P pt va ip off n"
proof -
  define f where "f = (unat n + 4095) div 4096"
  have f: "unat n \<le> unat (0 :: uint) + 4096 * f" unfolding f_def by simp
  moreover have "f \<le> 2 ^ 20" using assms(1) by (simp add: f_def word_le_nat_alt)
  ultimately show ?thesis
    using loadseg_enough[OF f assms(1), of "passes - Suc f" P pt va ip off] loadseg_enough[OF f assms(1), of "2 ^ 20 - f" P pt va ip off] assms(2)
    by (simp add: loadseg_def f_def[symmetric] del: loadseg_loop.simps)
qed

theorem loadseg_ends_witness:
  "\<forall>P pt va ip off. loadseg_loop 3 P pt va ip off 5000 0 = loadseg P pt va ip off 5000"
  by (intro allI loadseg_ends) simp_all

end
