(* ===== verification/Parlour.thy ===== *)
theory Parlour
  imports Token_Ring
begin

text \<open>
  The ice cream parlour, \<^verbatim>\<open>src/concurrency/2.c\<close>: one thread per machine and per customer, on the ring of
  \<open>Token_Ring\<close>. The bodies of the two thread functions are state transformers; an access outside an array or
  through a null pointer is a \<open>Fault\<close>. Times are unbounded integers, as in \<open>Cafe\<close>, and what is printed is not part of the
  state.
\<close>

section \<open>Data\<close>

record icecream_flavour =
  flavour_name :: string
  time_to_prepare :: int

record toppings_s =
  topping_name :: string
  quantity :: int  \<comment> \<open>-1 for a topping that never runs out\<close>
  topping_id :: int

text \<open>\<open>toppings_num\<close> is the length of the list.\<close>

record icecream =
  flavour :: icecream_flavour
  topping :: "toppings_s list"

record customer_s =
  customer_id :: int
  arrival_time :: int
  leaving_time :: int
  leaves :: int
  icecreams :: "icecream list"
  order_id_s :: "int list"
  leaves_with_order :: int
  leaves_is_atplacement :: int
  leaves_is_atpreparation :: int
  leaves_no_machines :: int
  leaves_no_seats :: int

record order_s =
  is_to_considered :: int
  is_placed :: int
  is_completed :: int
  rejected :: int
  rejected_is_atplacement :: int
  rejected_is_atpreparation :: int
  rejected_no_machines :: int
  rejected_no_seats :: int
  order_id :: int
  ocustomer_id :: int
  customer_order_id :: int
  icecream_machine_id :: int
  start_time_of_order :: int
  oicecream :: icecream

record icecream_machine =
  machine_id :: int
  start_time :: int
  end_time :: int
  is_busy :: int
  morder :: "nat option"  \<comment> \<open>the pointer \<open>order\<close> into the array of orders\<close>

record parlour =
  pticks :: int
  orders_considered :: int
  machines_stopped_working :: int
  customers_sitting :: int
  super :: int
  seats :: int  \<comment> \<open>\<open>K\<close>\<close>
  toppings :: "toppings_s list"
  orders :: "order_s list"
  machines :: "icecream_machine list"
  customers :: "customer_s list"
  rejects :: "nat \<Rightarrow> nat \<Rightarrow> int"  \<comment> \<open>\<open>machine_reject_which_order\<close>\<close>

abbreviation pN :: "parlour \<Rightarrow> nat" where
  "pN s \<equiv> length (machines s)"

abbreviation pC :: "parlour \<Rightarrow> nat" where
  "pC s \<equiv> length (customers s)"

definition MAX_ICECREAM_MACHINES :: nat where
  "MAX_ICECREAM_MACHINES = 10"

definition MAX_ICECREAM_FLAVOURS_NAME :: nat where
  "MAX_ICECREAM_FLAVOURS_NAME = 20"

definition MAX_ICECREAM_TOPPINGS_NAME :: nat where
  "MAX_ICECREAM_TOPPINGS_NAME = 20"

definition MAX_TOTAL_ORDERS :: nat where
  "MAX_TOTAL_ORDERS = 100"

section \<open>Toppings\<close>

definition topping_ids :: "icecream \<Rightarrow> int list" where
  "topping_ids ic = map topping_id (topping ic)"

text \<open>The array \<open>temp_toppings\<close>.\<close>

definition tally :: "nat \<Rightarrow> int list \<Rightarrow> int list result" where
  "tally T ids = for_each (\<lambda>t c. if 1 \<le> t \<and> t \<le> int T then Inr (c[nat (t - 1) := c ! nat (t - 1) + 1]) else Inl (Fault ''temp_toppings''))
     ids (replicate T 0)"

definition enough :: "toppings_s list \<Rightarrow> int list \<Rightarrow> bool" where
  "enough tps c \<longleftrightarrow> list_all (\<lambda>(tp, n). quantity tp \<noteq> -1 \<longrightarrow> n \<le> quantity tp) (zip tps c)"

definition use_topping :: "int \<Rightarrow> toppings_s list \<Rightarrow> toppings_s list result" where
  "use_topping t tps =
     (if 1 \<le> t \<and> t \<le> int (length tps) then
        let i = nat (t - 1) in
        Inr (if quantity (tps ! i) \<noteq> -1 then tps[i := (tps ! i)\<lparr>quantity := quantity (tps ! i) - 1\<rparr>] else tps)
      else Inl (Fault ''toppings''))"

section \<open>The machines\<close>

definition upd_order :: "nat \<Rightarrow> (order_s \<Rightarrow> order_s) \<Rightarrow> parlour \<Rightarrow> parlour" where
  "upd_order i f s = s\<lparr>orders := (orders s)[i := f (orders s ! i)]\<rparr>"

definition upd_machine :: "nat \<Rightarrow> (icecream_machine \<Rightarrow> icecream_machine) \<Rightarrow> parlour \<Rightarrow> parlour" where
  "upd_machine m f s = s\<lparr>machines := (machines s)[m := f (machines s ! m)]\<rparr>"

definition one_considered :: "parlour \<Rightarrow> parlour" where
  "one_considered s = s\<lparr>orders_considered := orders_considered s + 1\<rparr>"

definition reject_mark :: "nat \<Rightarrow> nat \<Rightarrow> parlour \<Rightarrow> int result" where
  "reject_mark r i s = (if r < MAX_ICECREAM_MACHINES \<and> i < MAX_TOTAL_ORDERS then Inr (rejects s r i) else Inl (Fault ''machine_reject_which_order''))"

definition set_mark :: "nat \<Rightarrow> nat \<Rightarrow> parlour \<Rightarrow> parlour" where
  "set_mark r i s = s\<lparr>rejects := (rejects s)(r := (rejects s r)(i := 1))\<rparr>"

text \<open>An order that would not be ready before the machine stops.\<close>

definition reject_late :: "nat \<Rightarrow> nat \<Rightarrow> parlour \<Rightarrow> parlour result" where
  "reject_late m i s =
     bnd (reject_mark m i s) (\<lambda>mark.
     let s = (if mark = 0 then upd_order i (\<lambda>od. od\<lparr>rejected_no_machines := rejected_no_machines od + 1\<rparr>) (set_mark m i s) else s) in
     Inr (if rejected_no_machines (orders s ! i) = int (pN s)
          then one_considered (upd_order i (\<lambda>od. od\<lparr>rejected := 1, is_to_considered := 0\<rparr>) s) else s))"

text \<open>An order whose toppings are short; the mark is kept in the row of the next machine.\<close>

definition reject_short :: "nat \<Rightarrow> nat \<Rightarrow> parlour \<Rightarrow> parlour result" where
  "reject_short m i s =
     bnd (reject_mark (m + 1) i s) (\<lambda>mark.
     Inr (if mark = 0
          then one_considered (upd_order i (\<lambda>od. od\<lparr>rejected_is_atpreparation := 1, rejected := 1, is_to_considered := 0\<rparr>) (set_mark (m + 1) i s))
          else s))"

definition start_order :: "nat \<Rightarrow> nat \<Rightarrow> parlour \<Rightarrow> parlour result" where
  "start_order m i s =
     bnd (for_each use_topping (topping_ids (oicecream (orders s ! i))) (toppings s)) (\<lambda>tps.
     Inr (upd_machine m (\<lambda>mc. mc\<lparr>is_busy := 1, morder := Some i\<rparr>)
           (upd_order i (\<lambda>od. od\<lparr>icecream_machine_id := int m + 1, start_time_of_order := pticks s\<rparr>) (s\<lparr>toppings := tps\<rparr>))))"

text \<open>The search of a free machine; it stops at the first order it can start.\<close>

definition pending :: "order_s \<Rightarrow> bool" where
  "pending od \<longleftrightarrow> is_to_considered od = 1 \<and> icecream_machine_id od = -1 \<and> is_placed od \<noteq> -1"

fun machine_scan :: "nat \<Rightarrow> nat list \<Rightarrow> parlour \<Rightarrow> parlour result" where
  "machine_scan m [] s = Inr s"
| "machine_scan m (i # is) s =
     (if pending (orders s ! i) then
        if pticks s + time_to_prepare (flavour (oicecream (orders s ! i))) \<ge> end_time (machines s ! m)
        then bnd (reject_late m i s) (machine_scan m is)
        else
          bnd (tally (length (toppings s)) (take (length (toppings s)) (topping_ids (oicecream (orders s ! i))))) (\<lambda>c.
          if enough (toppings s) c then start_order m i s
          else bnd (reject_short m i s) (machine_scan m is))
      else machine_scan m is s)"

definition machine_finish :: "nat \<Rightarrow> parlour \<Rightarrow> parlour result" where
  "machine_finish m s = (case morder (machines s ! m) of
     None \<Rightarrow> Inl (Fault ''order'')
   | Some i \<Rightarrow>
       if \<not> i < length (orders s) then Inl (Fault ''order'')
       else if start_time_of_order (orders s ! i) + time_to_prepare (flavour (oicecream (orders s ! i))) = pticks s
       then Inr (one_considered (upd_order i (\<lambda>od. od\<lparr>is_completed := 1, is_to_considered := 0\<rparr>)
              (upd_machine m (\<lambda>mc. mc\<lparr>is_busy := 0, morder := None\<rparr>) s)))
       else Inr s)"

definition machine_body :: "nat \<Rightarrow> parlour \<Rightarrow> parlour result" where
  "machine_body m s =
     (if \<not> m < pN s then Inl (Fault ''machine'')
      else
        bnd (if start_time (machines s ! m) \<le> pticks s \<and> end_time (machines s ! m) > pticks s
             then (if is_busy (machines s ! m) \<noteq> 1 then machine_scan m [0..<length (orders s)] s else machine_finish m s)
             else Inr s) (\<lambda>s.
        Inr (if end_time (machines s ! m) = pticks s then s\<lparr>machines_stopped_working := machines_stopped_working s + 1\<rparr> else s)))"

section \<open>The customers\<close>

definition upd_customer :: "nat \<Rightarrow> (customer_s \<Rightarrow> customer_s) \<Rightarrow> parlour \<Rightarrow> parlour" where
  "upd_customer c f s = s\<lparr>customers := (customers s)[c := f (customers s ! c)]\<rparr>"

text \<open>A loop over the orders of a customer.\<close>

definition each_order :: "(nat \<Rightarrow> parlour \<Rightarrow> parlour) \<Rightarrow> int list \<Rightarrow> parlour \<Rightarrow> parlour result" where
  "each_order f = for_each (\<lambda>oid s. if 1 \<le> oid \<and> oid \<le> int (length (orders s)) then Inr (f (nat (oid - 1)) s) else Inl (Fault ''orders''))"

definition customer_arrives :: "nat \<Rightarrow> parlour \<Rightarrow> parlour result" where
  "customer_arrives c s =
     (let cu = customers s ! c in
      if customers_sitting s = seats s then
        each_order (\<lambda>i s. one_considered (upd_order i (\<lambda>od. od\<lparr>rejected_no_seats := 1, rejected := 1, is_to_considered := 0\<rparr>) s)) (order_id_s cu)
          (upd_customer c (\<lambda>cu. cu\<lparr>leaving_time := pticks s, leaves_no_seats := 1, leaves := 1\<rparr>) s)
      else
        bnd (tally (length (toppings s)) (concat (map topping_ids (icecreams cu)))) (\<lambda>n.
        if enough (toppings s) n then
          each_order (\<lambda>i s. upd_order i (\<lambda>od. od\<lparr>is_to_considered := 1, is_placed := pticks s\<rparr>) s) (order_id_s cu)
            (s\<lparr>customers_sitting := customers_sitting s + 1\<rparr>)
        else
          each_order (\<lambda>i s. one_considered (upd_order i (\<lambda>od. od\<lparr>rejected_is_atplacement := 1, rejected := 1, is_to_considered := 0\<rparr>) s)) (order_id_s cu)
            (upd_customer c (\<lambda>cu. cu\<lparr>leaving_time := pticks s, leaves_is_atplacement := 1, leaves := 1\<rparr>)
              (s\<lparr>customers_sitting := customers_sitting s + 1 - 1\<rparr>))))"

definition customer_order :: "int \<Rightarrow> parlour \<Rightarrow> order_s result" where
  "customer_order oid s = (if 1 \<le> oid \<and> oid \<le> int (length (orders s)) then Inr (orders s ! nat (oid - 1)) else Inl (Fault ''orders''))"

fun customer_orders :: "int list \<Rightarrow> parlour \<Rightarrow> order_s list result" where
  "customer_orders [] s = Inr []"
| "customer_orders (oid # oids) s = bnd (customer_order oid s) (\<lambda>od. bnd (customer_orders oids s) (\<lambda>ods. Inr (od # ods)))"

text \<open>When one order has been rejected all are, and the customer leaves.\<close>

definition customer_rejected :: "nat \<Rightarrow> parlour \<Rightarrow> parlour result" where
  "customer_rejected c s =
     (let cu = customers s ! c in
      bnd (customer_orders (order_id_s cu) s) (\<lambda>ods.
      let shortage = list_ex (\<lambda>od. rejected_is_atpreparation od = 1) ods;
          no_service = list_ex (\<lambda>od. rejected_no_machines od = int (pN s)) ods in
      if shortage \<or> no_service then
        bnd (each_order (\<lambda>i s. upd_order i (\<lambda>od. let od = od\<lparr>rejected := 1, is_to_considered := 0\<rparr> in
               if no_service then od\<lparr>rejected_no_machines := int (pN s)\<rparr>
               else if shortage then od\<lparr>rejected_is_atpreparation := 1\<rparr> else od) s) (order_id_s cu) s) (\<lambda>s.
        Inr (upd_customer c (\<lambda>cu. cu\<lparr>leaves := 1, leaving_time := pticks s,
               leaves_no_machines := (if no_service then 1 else leaves_no_machines cu),
               leaves_is_atpreparation := (if shortage then 1 else leaves_is_atpreparation cu)\<rparr>)
             (s\<lparr>customers_sitting := customers_sitting s - 1\<rparr>)))
      else Inr s))"

fun all_completed :: "order_s list \<Rightarrow> int \<Rightarrow> int" where
  "all_completed [] r = r"
| "all_completed (od # ods) r = (if is_completed od = 0 then 0 else if is_completed od = 1 then all_completed ods 1 else all_completed ods r)"

definition customer_collects :: "nat \<Rightarrow> parlour \<Rightarrow> parlour result" where
  "customer_collects c s =
     bnd (customer_orders (order_id_s (customers s ! c)) s) (\<lambda>ods.
     Inr (if all_completed ods 0 = 1 \<and> leaves (customers s ! c) = 0
          then upd_customer c (\<lambda>cu. cu\<lparr>leaves := 1, leaves_with_order := 1, leaving_time := pticks s\<rparr>)
                 (s\<lparr>customers_sitting := customers_sitting s - 1\<rparr>)
          else s))"

definition next_second :: "parlour \<Rightarrow> parlour" where
  "next_second s =
     (let s = s\<lparr>pticks := pticks s + 1\<rparr> in
      if list_all (\<lambda>tp. quantity tp \<noteq> -1 \<longrightarrow> quantity tp = 0) (toppings s) then s\<lparr>super := 1\<rparr> else s)"

definition customer_body :: "nat \<Rightarrow> parlour \<Rightarrow> parlour result" where
  "customer_body c s =
     (if \<not> c < pC s then Inl (Fault ''customer'')
      else
        let cu = customers s ! c in
        bnd (if arrival_time cu = pticks s then customer_arrives c s else Inr s) (\<lambda>s.
        bnd (if arrival_time cu < pticks s \<and> leaves (customers s ! c) \<noteq> 1 then customer_rejected c s else Inr s) (\<lambda>s.
        bnd (customer_collects c s) (\<lambda>s.
        Inr (if customer_id cu - 1 = 0 then next_second s else s)))))"

section \<open>Threads\<close>

fun parlour_body :: "thread \<Rightarrow> parlour \<Rightarrow> parlour result" where
  "parlour_body (Worker m) = machine_body m"
| "parlour_body (Customer c) = customer_body c"

definition parlour_done :: "parlour \<Rightarrow> bool" where
  "parlour_done s \<longleftrightarrow> orders_considered s = int (length (orders s)) \<and> machines_stopped_working s = int (pN s) \<or> super s = 1"

definition pstep :: "thread \<Rightarrow> parlour ring \<Rightarrow> parlour ring result" where
  "pstep = ring_step parlour_body parlour_done pN pC"

text \<open>The end of \<open>main\<close>: either message has been printed.\<close>

definition parlour_closed :: "parlour ring \<Rightarrow> bool" where
  "parlour_closed m \<longleftrightarrow> thread_closed m = int (pN (data m) + pC (data m)) \<and> orders_considered (data m) = int (length (orders (data m)))
     \<or> super (data m) = 1"

section \<open>Start: the function main\<close>

text \<open>
  The input after \<open>scanf\<close>: the times of the machines, the flavours, the toppings and for each customer the number, the
  arrival time and one line of words per ice cream. A word that is no topping leaves an index uninitialised and an unknown
  flavour reads the array at -1; both are faults, as is input that does not fit the arrays.
\<close>

definition delim :: "char \<Rightarrow> bool" where
  "delim c \<longleftrightarrow> c \<in> set [CHR '' '', CHR 0x0A, CHR 0x09, CHR 0x0D]"

function strtok_all :: "string \<Rightarrow> string list" where
  "strtok_all cs = (case dropWhile delim cs of [] \<Rightarrow> []
     | c # cs' \<Rightarrow> takeWhile (\<lambda>c. \<not> delim c) (c # cs') # strtok_all (dropWhile (\<lambda>c. \<not> delim c) cs'))"
  by pat_completeness auto
termination
proof (relation "measure length", simp)
  fix cs c cs'
  assume "dropWhile delim cs = c # cs'"
  then have "length (c # cs') \<le> length cs" by (metis length_dropWhile_le)
  moreover have "length (dropWhile (\<lambda>c. \<not> delim c) cs') \<le> length cs'" by (rule length_dropWhile_le)
  ultimately show "(dropWhile (\<lambda>c. \<not> delim c) cs', cs) \<in> measure length" by simp
qed

declare strtok_all.simps [simp del]

text \<open>The nested loops that sort the indices of the toppings.\<close>

definition exchange :: "nat \<Rightarrow> nat \<Rightarrow> nat list \<Rightarrow> nat list" where
  "exchange i j xs = (if xs ! i > xs ! j then xs[i := xs ! j, j := xs ! i] else xs)"

definition exchange_sort :: "nat list \<Rightarrow> nat list" where
  "exchange_sort xs = fold (\<lambda>i. fold (exchange i) [i + 1..<length xs]) [0..<length xs] xs"

definition TOKENS :: nat where
  "TOKENS = 10"

fun find_toppings :: "toppings_s list \<Rightarrow> string list \<Rightarrow> nat list result" where
  "find_toppings tps [] = Inr []"
| "find_toppings tps (w # ws) = (case find (\<lambda>j. topping_name (tps ! j) = w) [0..<length tps] of
     None \<Rightarrow> Inl (Fault ''topping_id'')
   | Some j \<Rightarrow> bnd (find_toppings tps ws) (\<lambda>js. Inr (j # js)))"

definition read_icecream :: "icecream_flavour list \<Rightarrow> toppings_s list \<Rightarrow> string \<Rightarrow> icecream result" where
  "read_icecream fls tps line =
     (case strtok_all line of
        [] \<Rightarrow> Inl (Fault ''token_list'')
      | f # ws \<Rightarrow>
          if length line \<ge> 100 \<or> length (f # ws) > TOKENS then Inl (Fault ''token_list'')
          else (case find (\<lambda>i. flavour_name (fls ! i) = f) [0..<length fls] of
             None \<Rightarrow> Inl (Fault ''icecream_flavours'')
           | Some i \<Rightarrow> bnd (find_toppings tps ws) (\<lambda>js.
               Inr \<lparr>flavour = fls ! i, topping = map (\<lambda>j. tps ! j) (exchange_sort js)\<rparr>)))"

fun read_icecreams :: "icecream_flavour list \<Rightarrow> toppings_s list \<Rightarrow> string list \<Rightarrow> icecream list result" where
  "read_icecreams fls tps [] = Inr []"
| "read_icecreams fls tps (l # ls) = bnd (read_icecream fls tps l) (\<lambda>ic. bnd (read_icecreams fls tps ls) (\<lambda>ics. Inr (ic # ics)))"

definition new_order :: "nat \<Rightarrow> int \<Rightarrow> nat \<Rightarrow> icecream \<Rightarrow> order_s" where
  "new_order i cid j ic = \<lparr>is_to_considered = 1, is_placed = -1, is_completed = 0, rejected = 0, rejected_is_atplacement = 0,
     rejected_is_atpreparation = 0, rejected_no_machines = 0, rejected_no_seats = 0, order_id = int i + 1, ocustomer_id = cid,
     customer_order_id = int j + 1, icecream_machine_id = -1, start_time_of_order = -1, oicecream = ic\<rparr>"

definition new_customer :: "int \<Rightarrow> int \<Rightarrow> icecream list \<Rightarrow> nat \<Rightarrow> customer_s" where
  "new_customer cid arr ics base = \<lparr>customer_id = cid, arrival_time = arr, leaving_time = -1, leaves = 0, icecreams = ics,
     order_id_s = map (\<lambda>j. int (base + j) + 1) [0..<length ics], leaves_with_order = 0, leaves_is_atplacement = 0,
     leaves_is_atpreparation = 0, leaves_no_machines = 0, leaves_no_seats = 0\<rparr>"

definition add_customer ::
  "icecream_flavour list \<Rightarrow> toppings_s list \<Rightarrow> int \<times> int \<times> string list \<Rightarrow> customer_s list \<times> order_s list \<Rightarrow> (customer_s list \<times> order_s list) result" where
  "add_customer fls tps = (\<lambda>(cid, arr, ls) (cs, ods).
     bnd (read_icecreams fls tps ls) (\<lambda>ics.
     if length ics > 10 \<or> length ods + length ics > MAX_TOTAL_ORDERS \<or> length cs \<ge> 15 then Inl (Fault ''customers'')
     else Inr (cs @ [new_customer cid arr ics (length ods)],
       ods @ map (\<lambda>j. new_order (length ods + j) cid j (ics ! j)) [0..<length ics])))"

definition read_toppings :: "(string \<times> int) list \<Rightarrow> toppings_s list" where
  "read_toppings input = map (\<lambda>i. \<lparr>topping_name = fst (input ! i), quantity = snd (input ! i), topping_id = int i + 1\<rparr>) [0..<length input]"

definition parlour_init ::
  "int \<Rightarrow> (int \<times> int) list \<Rightarrow> icecream_flavour list \<Rightarrow> (string \<times> int) list \<Rightarrow> (int \<times> int \<times> string list) list \<Rightarrow> parlour result" where
  "parlour_init K mtimes fls tinput cinput =
     (if length mtimes > MAX_ICECREAM_MACHINES \<or> length fls > 10 \<or> length tinput > 10
         \<or> \<not> list_all (\<lambda>f. length (flavour_name f) < MAX_ICECREAM_FLAVOURS_NAME) fls
         \<or> \<not> list_all (\<lambda>t. length (fst t) < MAX_ICECREAM_TOPPINGS_NAME) tinput then Inl (Fault ''input'')
      else
        let tps = read_toppings tinput in
        bnd (for_each (add_customer fls tps) cinput ([], [])) (\<lambda>(cs, ods).
        Inr \<lparr>pticks = 0, orders_considered = 0, machines_stopped_working = 0, customers_sitting = 0, super = 0, seats = K, toppings = tps,
          orders = ods, machines = map (\<lambda>i. \<lparr>machine_id = int i + 1, start_time = fst (mtimes ! i), end_time = snd (mtimes ! i), is_busy = 0,
            morder = None\<rparr>) [0..<length mtimes], customers = cs, rejects = (\<lambda>_ _. 0)\<rparr>))"

end
