(* ===== verification/Parlour_Inv.thy ===== *)
theory Parlour_Inv
  imports Parlour
begin

text \<open>
  The invariant of the sequential parlour. \<open>A\<close> is the set of customers that have arrived; \<open>s0\<close> is the state \<open>main\<close> sets up, whose
  times, toppings, ice creams and orders of customers do not change.
\<close>

section \<open>The invariant\<close>

definition own :: "parlour \<Rightarrow> nat \<Rightarrow> nat \<Rightarrow> bool" where
  "own s0 c i \<longleftrightarrow> c < pC s0 \<and> int i + 1 \<in> set (order_id_s (customers s0 ! c))"

text \<open>The input the program is meant for.\<close>

definition parlour_ok :: "parlour \<Rightarrow> bool" where
  "parlour_ok s0 \<longleftrightarrow> 0 < pN s0 \<and> pN s0 < MAX_ICECREAM_MACHINES \<and> 0 < pC s0 \<and> length (orders s0) \<le> MAX_TOTAL_ORDERS \<and> 0 \<le> seats s0
     \<and> (\<forall>j < length (toppings s0). -1 \<le> quantity (toppings s0 ! j))
     \<and> (\<forall>i < length (orders s0). set (topping_ids (oicecream (orders s0 ! i))) \<subseteq> {1..int (length (toppings s0))}
          \<and> length (topping_ids (oicecream (orders s0 ! i))) \<le> length (toppings s0))
     \<and> (\<forall>c < pC s0. customer_id (customers s0 ! c) = int c + 1 \<and> 0 \<le> arrival_time (customers s0 ! c)
          \<and> distinct (order_id_s (customers s0 ! c)) \<and> set (order_id_s (customers s0 ! c)) \<subseteq> {1..int (length (orders s0))}
          \<and> (\<forall>ic \<in> set (icecreams (customers s0 ! c)). set (topping_ids ic) \<subseteq> {1..int (length (toppings s0))}))
     \<and> (\<forall>c c' i. own s0 c i \<longrightarrow> own s0 c' i \<longrightarrow> c = c')"

definition same_static :: "parlour \<Rightarrow> parlour \<Rightarrow> bool" where
  "same_static s0 s \<longleftrightarrow> seats s = seats s0 \<and> length (toppings s) = length (toppings s0)
     \<and> map (\<lambda>m. (start_time m, end_time m)) (machines s) = map (\<lambda>m. (start_time m, end_time m)) (machines s0)
     \<and> map oicecream (orders s) = map oicecream (orders s0)
     \<and> map (\<lambda>c. (customer_id c, arrival_time c, order_id_s c, icecreams c)) (customers s)
         = map (\<lambda>c. (customer_id c, arrival_time c, order_id_s c, icecreams c)) (customers s0)"

text \<open>An order that has been started lies in the hours of its machine, which works on no other until it is done.\<close>

definition started_ok :: "parlour \<Rightarrow> parlour \<Rightarrow> nat \<Rightarrow> bool" where
  "started_ok s0 s i \<longleftrightarrow> (let od = orders s ! i in \<exists>m < pN s0. icecream_machine_id od = int m + 1
     \<and> start_time (machines s0 ! m) \<le> start_time_of_order od
     \<and> start_time_of_order od + time_to_prepare (flavour (oicecream (orders s0 ! i))) < end_time (machines s0 ! m)
     \<and> is_placed od \<noteq> -1 \<and> is_placed od \<le> start_time_of_order od \<and> start_time_of_order od \<le> pticks s
     \<and> (is_completed od = 0 \<longrightarrow> is_busy (machines s ! m) = 1 \<and> morder (machines s ! m) = Some i))"

definition order_ok :: "parlour \<Rightarrow> nat set \<Rightarrow> parlour \<Rightarrow> nat \<Rightarrow> bool" where
  "order_ok s0 A s i \<longleftrightarrow> (let od = orders s ! i in
     is_completed od \<in> {0, 1} \<and> is_to_considered od \<in> {0, 1}
     \<and> (icecream_machine_id od = -1 \<and> is_completed od = 0 \<or> started_ok s0 s i)
     \<and> (is_placed od \<noteq> -1 \<longrightarrow> is_placed od \<le> pticks s \<and> (\<forall>c. own s0 c i \<longrightarrow> c \<in> A))
     \<and> ((\<exists>c. own s0 c i \<and> c \<notin> A) \<longrightarrow> is_to_considered od = 1))"

definition machine_ok :: "parlour \<Rightarrow> nat \<Rightarrow> bool" where
  "machine_ok s m \<longleftrightarrow> is_busy (machines s ! m) \<in> {0, 1} \<and> (is_busy (machines s ! m) = 1 \<longrightarrow>
     (\<exists>i < length (orders s). morder (machines s ! m) = Some i \<and> icecream_machine_id (orders s ! i) = int m + 1 \<and> is_completed (orders s ! i) = 0))"

definition seated :: "nat set \<Rightarrow> parlour \<Rightarrow> nat set" where
  "seated A s = {c \<in> A. leaves (customers s ! c) = 0}"

definition settled :: "order_s \<Rightarrow> bool" where
  "settled od \<longleftrightarrow> is_to_considered od = 0 \<and> (icecream_machine_id od = -1 \<or> is_completed od = 1)"

text \<open>How much of topping \<open>j\<close> has gone into orders that were started.\<close>

definition used :: "order_s list \<Rightarrow> nat \<Rightarrow> int" where
  "used ods j = (\<Sum>od\<leftarrow>ods. if icecream_machine_id od = -1 then 0 else int (count_list (topping_ids (oicecream od)) (int j + 1)))"

definition stock_ok :: "parlour \<Rightarrow> parlour \<Rightarrow> bool" where
  "stock_ok s0 s \<longleftrightarrow> (\<forall>j < length (toppings s0).
     if quantity (toppings s0 ! j) = -1 then quantity (toppings s ! j) = -1
     else quantity (toppings s ! j) = quantity (toppings s0 ! j) - used (orders s) j \<and> 0 \<le> quantity (toppings s ! j))"

definition pinv :: "parlour \<Rightarrow> nat set \<Rightarrow> parlour \<Rightarrow> bool" where
  "pinv s0 A s \<longleftrightarrow> parlour_ok s0 \<and> same_static s0 s \<and> A \<subseteq> {..<pC s0} \<and> 0 \<le> pticks s
     \<and> (\<forall>i < length (orders s0). order_ok s0 A s i) \<and> (\<forall>m < pN s0. machine_ok s m)
     \<and> (\<forall>c < pC s0. leaves (customers s ! c) \<in> {0, 1} \<and> (c \<notin> A \<longrightarrow> leaves (customers s ! c) = 0))
     \<and> customers_sitting s = int (card (seated A s)) \<and> customers_sitting s \<le> seats s0
     \<and> stock_ok s0 s \<and> orders_considered s \<le> cnt settled (orders s)"

lemma pinvD:
  assumes "pinv s0 A s"
  shows "parlour_ok s0" "same_static s0 s" "A \<subseteq> {..<pC s0}" "0 \<le> pticks s" "i < length (orders s0) \<Longrightarrow> order_ok s0 A s i" "m < pN s0 \<Longrightarrow> machine_ok s m"
    "c < pC s0 \<Longrightarrow> leaves (customers s ! c) \<in> {0, 1}" "c < pC s0 \<Longrightarrow> c \<notin> A \<Longrightarrow> leaves (customers s ! c) = 0"
    "customers_sitting s = int (card (seated A s))" "customers_sitting s \<le> seats s0" "stock_ok s0 s" "orders_considered s \<le> cnt settled (orders s)"
  using assms by (auto simp: pinv_def)

lemma staticD:
  assumes "same_static s0 s"
  shows "seats s = seats s0" "length (toppings s) = length (toppings s0)" "pN s = pN s0" "length (orders s) = length (orders s0)" "pC s = pC s0"
    "m < pN s0 \<Longrightarrow> start_time (machines s ! m) = start_time (machines s0 ! m) \<and> end_time (machines s ! m) = end_time (machines s0 ! m)"
    "i < length (orders s0) \<Longrightarrow> oicecream (orders s ! i) = oicecream (orders s0 ! i)"
    "c < pC s0 \<Longrightarrow> customer_id (customers s ! c) = customer_id (customers s0 ! c) \<and> arrival_time (customers s ! c) = arrival_time (customers s0 ! c)
       \<and> order_id_s (customers s ! c) = order_id_s (customers s0 ! c) \<and> icecreams (customers s ! c) = icecreams (customers s0 ! c)"
proof -
  note S = assms[unfolded same_static_def]
  from S have M: "map (\<lambda>m. (start_time m, end_time m)) (machines s) = map (\<lambda>m. (start_time m, end_time m)) (machines s0)"
    and O: "map oicecream (orders s) = map oicecream (orders s0)"
    and C: "map (\<lambda>c. (customer_id c, arrival_time c, order_id_s c, icecreams c)) (customers s)
         = map (\<lambda>c. (customer_id c, arrival_time c, order_id_s c, icecreams c)) (customers s0)" by blast+
  show len: "pN s = pN s0" "length (orders s) = length (orders s0)" "pC s = pC s0"
    using arg_cong[OF M, of length] arg_cong[OF O, of length] arg_cong[OF C, of length] by simp_all
  show "seats s = seats s0" "length (toppings s) = length (toppings s0)" using S by blast+
  show "m < pN s0 \<Longrightarrow> start_time (machines s ! m) = start_time (machines s0 ! m) \<and> end_time (machines s ! m) = end_time (machines s0 ! m)"
    using arg_cong[OF M, of "\<lambda>xs. xs ! m"] len(1) by simp
  show "i < length (orders s0) \<Longrightarrow> oicecream (orders s ! i) = oicecream (orders s0 ! i)" using arg_cong[OF O, of "\<lambda>xs. xs ! i"] len(2) by simp
  show "c < pC s0 \<Longrightarrow> customer_id (customers s ! c) = customer_id (customers s0 ! c) \<and> arrival_time (customers s ! c) = arrival_time (customers s0 ! c)
       \<and> order_id_s (customers s ! c) = order_id_s (customers s0 ! c) \<and> icecreams (customers s ! c) = icecreams (customers s0 ! c)"
    using arg_cong[OF C, of "\<lambda>xs. xs ! c"] len(3) by simp
qed

section \<open>Changes of orders\<close>

lemma map_update_same: "f y = f (xs ! i) \<Longrightarrow> map f (xs[i := y]) = map f xs"
  by (cases "i < length xs") (auto simp: map_update list_update_same_conv list_update_beyond)

definition keeps_order :: "parlour \<Rightarrow> nat set \<Rightarrow> int \<Rightarrow> nat \<Rightarrow> order_s \<Rightarrow> order_s \<Rightarrow> bool" where
  "keeps_order s0 A now i od od' \<longleftrightarrow> oicecream od' = oicecream od \<and> is_completed od' = is_completed od
     \<and> icecream_machine_id od' = icecream_machine_id od \<and> start_time_of_order od' = start_time_of_order od
     \<and> is_to_considered od' \<in> {0, 1} \<and> (is_to_considered od' = 0 \<longrightarrow> (\<forall>c. own s0 c i \<longrightarrow> c \<in> A))
     \<and> (is_placed od' = is_placed od \<or> icecream_machine_id od = -1 \<and> is_placed od' = now \<and> (\<forall>c. own s0 c i \<longrightarrow> c \<in> A))"

lemma order_change:
  assumes inv: "pinv s0 A s" and i: "i < length (orders s0)" and keep: "keeps_order s0 A (pticks s) i (orders s ! i) od'"
    and n: "n \<le> orders_considered s + (if settled od' then 1 else 0) - (if settled (orders s ! i) then 1 else 0)"
  shows "pinv s0 A (s\<lparr>orders := (orders s)[i := od'], orders_considered := n\<rparr>)"
proof -
  let ?s = "s\<lparr>orders := (orders s)[i := od'], orders_considered := n\<rparr>"
  note S = staticD[OF pinvD(2)[OF inv]]
  have st: "started_ok s0 ?s j" if sj: "started_ok s0 s j" "j < length (orders s0)" for j
  proof (cases "j = i")
    case True
    obtain m where "m < pN s0" "icecream_machine_id (orders s ! i) = int m + 1" using sj True by (auto simp: started_ok_def Let_def)
    then have e: "icecream_machine_id od' = icecream_machine_id (orders s ! i)" "start_time_of_order od' = start_time_of_order (orders s ! i)"
      "is_placed od' = is_placed (orders s ! i)" "is_completed od' = is_completed (orders s ! i)" "orders ?s ! i = od'"
      using keep i S(4) by (auto simp: keeps_order_def)
    show ?thesis using sj(1) unfolding True started_ok_def Let_def e by simp
  qed (use sj in \<open>simp add: started_ok_def\<close>)
  have "order_ok s0 A ?s j" if "j < length (orders s0)" for j
    using pinvD(5)[OF inv that] st[OF _ that] keep i S(4) by (cases "j = i") (auto simp: order_ok_def Let_def keeps_order_def)
  moreover have "machine_ok ?s m" if "m < pN s0" for m
    using pinvD(6)[OF inv that] keep i S(4) by (auto simp: machine_ok_def keeps_order_def nth_list_update)
  moreover have "same_static s0 ?s"
    using pinvD(2)[OF inv] keep unfolding same_static_def keeps_order_def by (simp add: map_update_same)
  moreover have "used ((orders s)[i := od']) j = used (orders s) j" for j
    using keep unfolding used_def keeps_order_def by (subst map_update_same) simp_all
  then have "stock_ok s0 ?s = stock_ok s0 s" unfolding stock_ok_def by simp
  then have "stock_ok s0 ?s" using pinvD(11)[OF inv] by simp
  moreover have "n \<le> cnt settled ((orders s)[i := od'])" using n pinvD(12)[OF inv] i S(4) by (simp add: cnt_update)
  ultimately show ?thesis using inv by (simp add: pinv_def seated_def)
qed

text \<open>The rejections change marks, which the invariant does not mention, and at most one order.\<close>

lemma pinv_marks [simp]: "pinv s0 A (s\<lparr>rejects := r\<rparr>) = pinv s0 A s" "pinv s0 A (s\<lparr>machines_stopped_working := n\<rparr>) = pinv s0 A s"
  by (simp_all add: pinv_def same_static_def order_ok_def started_ok_def machine_ok_def seated_def stock_ok_def)

lemma pending_facts:
  assumes "pinv s0 A s" "i < length (orders s0)" "pending (orders s ! i)"
  shows "\<not> settled (orders s ! i)" "\<And>c. own s0 c i \<Longrightarrow> c \<in> A" "icecream_machine_id (orders s ! i) = -1" "is_completed (orders s ! i) = 0"
    "is_placed (orders s ! i) \<noteq> -1" "is_placed (orders s ! i) \<le> pticks s" "is_to_considered (orders s ! i) = 1"
  using pinvD(5)[OF assms(1,2)] assms(3) by (auto simp: order_ok_def started_ok_def pending_def settled_def Let_def)

lemma reject_order:
  assumes "pinv s0 A s" "i < length (orders s0)" "pending (orders s ! i)"
    and f: "\<And>od. oicecream (f od) = oicecream od \<and> is_completed (f od) = is_completed od \<and> icecream_machine_id (f od) = icecream_machine_id od
      \<and> start_time_of_order (f od) = start_time_of_order od \<and> is_placed (f od) = is_placed od"
  shows "(\<And>od. is_to_considered (f od) = is_to_considered od) \<Longrightarrow> pinv s0 A (upd_order i f s)"
    "(\<And>od. is_to_considered (f od) = 0) \<Longrightarrow> pinv s0 A (one_considered (upd_order i f s))"
proof -
  note P = pending_facts[OF assms(1-3)]
  have same: "s\<lparr>orders := ods, orders_considered := orders_considered s\<rparr> = s\<lparr>orders := ods\<rparr>" for ods by simp
  show "pinv s0 A (upd_order i f s)" if "\<And>od. is_to_considered (f od) = is_to_considered od"
    using order_change[OF assms(1,2), of "f (orders s ! i)" "orders_considered s"] f that P
    unfolding upd_order_def same by (auto simp: keeps_order_def settled_def)
  show "pinv s0 A (one_considered (upd_order i f s))" if "\<And>od. is_to_considered (f od) = 0"
    using order_change[OF assms(1,2), of "f (orders s ! i)" "orders_considered s + 1"] f that P
    by (auto simp: keeps_order_def settled_def upd_order_def one_considered_def)
qed

lemma marks_in_range:
  assumes "pinv s0 A s" "i < length (orders s0)" "m < pN s0"
  shows "reject_mark m i s = Inr (rejects s m i)" "reject_mark (m + 1) i s = Inr (rejects s (m + 1) i)"
  using pinvD(1)[OF assms(1)] assms(2,3) by (auto simp: reject_mark_def parlour_ok_def)

lemma pending_marks: "pending (orders (set_mark r i s) ! j) = pending (orders s ! j)" "orders (set_mark r i s) = orders s" "pinv s0 A (set_mark r i s) = pinv s0 A s"
  by (simp_all add: set_mark_def)

lemma reject_late_inv:
  assumes inv: "pinv s0 A s" and i: "i < length (orders s0)" and m: "m < pN s0" and p: "pending (orders s ! i)"
  shows "\<exists>s'. reject_late m i s = Inr s' \<and> pinv s0 A s' \<and> machines s' = machines s \<and> pticks s' = pticks s"
proof -
  let ?f = "\<lambda>od. od\<lparr>rejected_no_machines := rejected_no_machines od + 1\<rparr>"
  define s1 where "s1 = (if rejects s m i = 0 then upd_order i ?f (set_mark m i s) else s)"
  have I: "i < length (orders s)" using staticD(4)[OF pinvD(2)[OF inv]] i by simp
  have "pinv s0 A (upd_order i ?f (set_mark m i s))" by (rule reject_order(1)) (use inv i p in \<open>simp_all add: pending_marks\<close>)
  then have 1: "pinv s0 A s1" "pending (orders s1 ! i)" "machines s1 = machines s" "pticks s1 = pticks s"
    using inv p I by (simp_all add: s1_def upd_order_def set_mark_def pending_def)
  have "pinv s0 A (one_considered (upd_order i (\<lambda>od. od\<lparr>rejected := 1, is_to_considered := 0\<rparr>) s1))"
    by (rule reject_order(2)[OF 1(1) i 1(2)]) simp_all
  then show ?thesis using 1 marks_in_range(1)[OF inv i m] by (simp add: reject_late_def s1_def[symmetric] one_considered_def upd_order_def)
qed

lemma reject_short_inv:
  assumes inv: "pinv s0 A s" and i: "i < length (orders s0)" and m: "m < pN s0" and p: "pending (orders s ! i)"
  shows "\<exists>s'. reject_short m i s = Inr s' \<and> pinv s0 A s' \<and> machines s' = machines s \<and> pticks s' = pticks s"
proof -
  have "pinv s0 A (one_considered (upd_order i (\<lambda>od. od\<lparr>rejected_is_atpreparation := 1, rejected := 1, is_to_considered := 0\<rparr>) (set_mark (m + 1) i s)))"
    by (rule reject_order(2)) (use inv i p in \<open>simp_all add: pending_marks\<close>)
  then show ?thesis using inv marks_in_range(2)[OF inv i m] by (simp add: reject_short_def one_considered_def upd_order_def set_mark_def)
qed

section \<open>Toppings\<close>

lemma tally_eq:
  assumes "set ids \<subseteq> {1..int T}"
  shows "tally T ids = Inr (map (\<lambda>j. int (count_list ids (int j + 1))) [0..<T])"
proof -
  let ?f = "\<lambda>t c. if 1 \<le> t \<and> t \<le> int T then Inr (c[nat (t - 1) := c ! nat (t - 1) + 1]) else Inl (Fault ''temp_toppings'')"
  have "for_each ?f ids c = Inr (map (\<lambda>j. c ! j + int (count_list ids (int j + 1))) [0..<T])" if "length c = T" for c
    using that assms
  proof (induction ids arbitrary: c)
    case Nil
    then show ?case using map_nth[of c] by auto
  next
    case (Cons t ids)
    then have "for_each ?f (t # ids) c = Inr (map (\<lambda>j. c[nat (t - 1) := c ! nat (t - 1) + 1] ! j + int (count_list ids (int j + 1))) [0..<T])" by simp
    also have "\<dots> = Inr (map (\<lambda>j. c ! j + int (count_list (t # ids) (int j + 1))) [0..<T])"
      using Cons.prems by (auto simp: nth_list_update)
    finally show ?case .
  qed
  from this[of "replicate T 0"] show ?thesis by (simp add: tally_def cong: map_cong)
qed

lemma enough_eq:
  "length tps = T \<Longrightarrow> enough tps (map f [0..<T]) \<longleftrightarrow> (\<forall>j < T. quantity (tps ! j) \<noteq> -1 \<longrightarrow> f j \<le> quantity (tps ! j))"
  by (auto simp: enough_def list_all_length)

lemma use_toppings_eq:
  assumes "set ids \<subseteq> {1..int (length tps)}" "\<forall>j < length tps. quantity (tps ! j) \<noteq> -1 \<longrightarrow> int (count_list ids (int j + 1)) \<le> quantity (tps ! j)"
  shows "\<exists>tps'. for_each use_topping ids tps = Inr tps' \<and> length tps' = length tps
    \<and> (\<forall>j < length tps. quantity (tps' ! j) = (if quantity (tps ! j) = -1 then -1 else quantity (tps ! j) - int (count_list ids (int j + 1))))"
  using assms
proof (induction ids arbitrary: tps)
  case (Cons t ids)
  obtain i where i: "t = int i + 1" "i < length tps" using Cons.prems(1) by (auto intro!: that[of "nat (t - 1)"])
  define tps1 where "tps1 = (if quantity (tps ! i) \<noteq> -1 then tps[i := (tps ! i)\<lparr>quantity := quantity (tps ! i) - 1\<rparr>] else tps)"
  have u: "use_topping t tps = Inr tps1" "length tps1 = length tps" using i by (simp_all add: use_topping_def tps1_def)
  have q: "quantity (tps1 ! j) = (if j = i \<and> quantity (tps ! j) \<noteq> -1 then quantity (tps ! j) - 1 else quantity (tps ! j))" if "j < length tps" for j
    using that by (auto simp: tps1_def)
  have c: "quantity (tps1 ! j) = -1 \<longleftrightarrow> quantity (tps ! j) = -1" if "j < length tps" for j
    using q[OF that] Cons.prems(2)[rule_format, of i] i by (auto split: if_splits)
  have "\<forall>j < length tps1. quantity (tps1 ! j) \<noteq> -1 \<longrightarrow> int (count_list ids (int j + 1)) \<le> quantity (tps1 ! j)"
    using Cons.prems(2) q c i u(2) by (fastforce split: if_splits)
  then show ?case using Cons.IH[of tps1] Cons.prems(1) u q c i by (fastforce split: if_splits)
qed simp

section \<open>The machines\<close>

lemma used_start:
  assumes "i < length ods" "icecream_machine_id (ods ! i) = -1" "icecream_machine_id od' \<noteq> -1" "oicecream od' = oicecream (ods ! i)"
  shows "used (ods[i := od']) j = used ods j + int (count_list (topping_ids (oicecream (ods ! i))) (int j + 1))"
  using assms by (simp add: used_def sum_list_update_int)

lemma start_order_inv:
  assumes inv: "pinv s0 A s" and i: "i < length (orders s0)" and m: "m < pN s0" and p: "pending (orders s ! i)"
    and idle: "is_busy (machines s ! m) \<noteq> 1" "start_time (machines s ! m) \<le> pticks s"
    and time: "pticks s + time_to_prepare (flavour (oicecream (orders s ! i))) < end_time (machines s ! m)"
    and en: "\<forall>j < length (toppings s). quantity (toppings s ! j) \<noteq> -1 \<longrightarrow>
      int (count_list (topping_ids (oicecream (orders s ! i))) (int j + 1)) \<le> quantity (toppings s ! j)"
  shows "\<exists>s'. start_order m i s = Inr s' \<and> pinv s0 A s'"
proof -
  note S = staticD[OF pinvD(2)[OF inv]] and P = pending_facts[OF inv i p]
  let ?ids = "topping_ids (oicecream (orders s ! i))"
  have "set ?ids \<subseteq> {1..int (length (toppings s))}" using pinvD(1)[OF inv] i S(2) S(7)[OF i] by (simp add: parlour_ok_def)
  from use_toppings_eq[OF this en] obtain tps where tps: "for_each use_topping ?ids (toppings s) = Inr tps" "length tps = length (toppings s)"
    "\<forall>j < length (toppings s). quantity (tps ! j) = (if quantity (toppings s ! j) = -1 then -1 else quantity (toppings s ! j) - int (count_list ?ids (int j + 1)))"
    by blast
  define od where "od = (orders s ! i)\<lparr>icecream_machine_id := int m + 1, start_time_of_order := pticks s\<rparr>"
  define mc where "mc = (machines s ! m)\<lparr>is_busy := 1, morder := Some i\<rparr>"
  define s' where "s' = s\<lparr>toppings := tps, orders := (orders s)[i := od], machines := (machines s)[m := mc]\<rparr>"
  have run: "start_order m i s = Inr s'" using tps(1) by (simp add: start_order_def upd_order_def upd_machine_def s'_def od_def mc_def)
  have len: "i < length (orders s)" "m < length (machines s)" using i m S(3,4) by auto
  have o: "orders s' ! j = (if j = i then od else orders s ! j)" "machines s' ! n = (if n = m then mc else machines s ! n)" for j n
    using len by (auto simp: s'_def nth_list_update)
  have "started_ok s0 s' i"
    using m P idle(2) time S(6)[OF m] S(7)[OF i] unfolding started_ok_def Let_def o by (intro exI[of _ m]) (simp add: od_def mc_def s'_def)
  moreover have "started_ok s0 s' j" if sj: "started_ok s0 s j" "j \<noteq> i" for j
  proof -
    obtain n where n: "n < pN s0" "icecream_machine_id (orders s ! j) = int n + 1" "is_completed (orders s ! j) = 0 \<longrightarrow> is_busy (machines s ! n) = 1"
      using sj(1) by (auto simp: started_ok_def Let_def)
    show ?thesis using sj idle(1) n unfolding started_ok_def Let_def o by (auto simp: s'_def)
  qed
  ultimately have "order_ok s0 A s' j" if "j < length (orders s0)" for j
    using pinvD(5)[OF inv that] P unfolding order_ok_def Let_def o by (auto simp: s'_def od_def)
  moreover have "machine_ok s' n" if "n < pN s0" for n
  proof (cases "n = m")
    case True
    then show ?thesis using len P(4) unfolding machine_ok_def o by (auto simp: s'_def od_def mc_def)
  next
    case False
    have "is_busy (machines s ! n) = 1 \<Longrightarrow> \<exists>j < length (orders s). morder (machines s ! n) = Some j \<and> j \<noteq> i \<and> icecream_machine_id (orders s ! j) = int n + 1 \<and> is_completed (orders s ! j) = 0"
      using pinvD(6)[OF inv that] P(3) unfolding machine_ok_def by force
    then show ?thesis using False pinvD(6)[OF inv that] unfolding machine_ok_def o by (auto simp: s'_def)
  qed
  moreover have "same_static s0 s'"
    using pinvD(2)[OF inv] tps(2) unfolding same_static_def s'_def by (simp add: map_update_same od_def mc_def)
  moreover have "stock_ok s0 s'"
    unfolding stock_ok_def
  proof (intro allI impI)
    fix j
    assume j: "j < length (toppings s0)"
    have "used (orders s') j = used (orders s) j + int (count_list ?ids (int j + 1))" using used_start[OF len(1) P(3), of od] by (simp add: s'_def od_def)
    moreover have "toppings s' = tps" by (simp add: s'_def)
    ultimately show "if quantity (toppings s0 ! j) = -1 then quantity (toppings s' ! j) = -1
        else quantity (toppings s' ! j) = quantity (toppings s0 ! j) - used (orders s') j \<and> 0 \<le> quantity (toppings s' ! j)"
      using pinvD(11)[OF inv, unfolded stock_ok_def, rule_format, OF j] tps(3)[rule_format, of j] en[rule_format, of j] j S(2) by (auto split: if_splits)
  qed
  moreover have "cnt settled (orders s') = cnt settled (orders s)"
    using cnt_update[OF len(1), of settled od] P(1,7) by (simp add: s'_def settled_def od_def)
  moreover have "seated A s' = seated A s" "pticks s' = pticks s" "customers s' = customers s" "customers_sitting s' = customers_sitting s"
    "orders_considered s' = orders_considered s" by (simp_all add: seated_def s'_def)
  ultimately have "pinv s0 A s'" using inv unfolding pinv_def by simp
  then show ?thesis using run by blast
qed

lemma machine_scan_inv:
  assumes "pinv s0 A s" "\<forall>i \<in> set is. i < length (orders s0)" "m < pN s0" "is_busy (machines s ! m) \<noteq> 1" "start_time (machines s ! m) \<le> pticks s"
  shows "\<exists>s'. machine_scan m is s = Inr s' \<and> pinv s0 A s'"
  using assms
proof (induction "is" arbitrary: s)
  case (Cons i "is")
  note inv = Cons.prems(1)
  have i: "i < length (orders s0)" using Cons.prems(2) by simp
  let ?T = "length (toppings s)" and ?ids = "topping_ids (oicecream (orders s ! i))"
  have ids: "set ?ids \<subseteq> {1..int ?T}" "take ?T ?ids = ?ids"
    using pinvD(1)[OF inv] i staticD(2,7)[OF pinvD(2)[OF inv]] by (auto simp: parlour_ok_def)
  show ?case
  proof (cases "pending (orders s ! i)")
    case True
    note R = reject_late_inv[OF inv i Cons.prems(3) True] reject_short_inv[OF inv i Cons.prems(3) True]
    have onward: "\<exists>s'. bnd r (machine_scan m is) = Inr s' \<and> pinv s0 A s'"
      if "\<exists>s'. r = Inr s' \<and> pinv s0 A s' \<and> machines s' = machines s \<and> pticks s' = pticks s" for r
      using that Cons.IH Cons.prems by auto
    show ?thesis
      using True onward[OF R(1)] onward[OF R(2)] start_order_inv[OF inv i Cons.prems(3) True Cons.prems(4,5)]
      by (auto simp: ids(2) tally_eq[OF ids(1)] enough_eq not_le)
  next
    case False
    then show ?thesis using Cons by simp
  qed
qed simp

lemma machine_finish_inv:
  assumes inv: "pinv s0 A s" and m: "m < pN s0" and busy: "is_busy (machines s ! m) = 1"
  shows "\<exists>s'. machine_finish m s = Inr s' \<and> pinv s0 A s'"
proof -
  note S = staticD[OF pinvD(2)[OF inv]]
  obtain i where i: "i < length (orders s)" "morder (machines s ! m) = Some i" "icecream_machine_id (orders s ! i) = int m + 1" "is_completed (orders s ! i) = 0"
    using pinvD(6)[OF inv m] busy by (auto simp: machine_ok_def)
  have i0: "i < length (orders s0)" and mm: "m < length (machines s)" using i(1) m S(3,4) by auto
  define od where "od = (orders s ! i)\<lparr>is_completed := 1, is_to_considered := 0\<rparr>"
  define mc where "mc = (machines s ! m)\<lparr>is_busy := 0, morder := None\<rparr>"
  define s' where "s' = s\<lparr>machines := (machines s)[m := mc], orders := (orders s)[i := od], orders_considered := orders_considered s + 1\<rparr>"
  have o: "orders s' ! j = (if j = i then od else orders s ! j)" "machines s' ! n = (if n = m then mc else machines s ! n)" for j n
    using i(1) mm by (auto simp: s'_def nth_list_update)
  have st: "started_ok s0 s i" using pinvD(5)[OF inv i0] i(3) by (auto simp: order_ok_def Let_def)
  have "started_ok s0 s' j" if sj: "started_ok s0 s j" for j
  proof (cases "j = i")
    case True
    then show ?thesis using st unfolding started_ok_def Let_def o by (auto simp: s'_def od_def)
  next
    case False
    obtain n where n: "icecream_machine_id (orders s ! j) = int n + 1" "is_completed (orders s ! j) = 0 \<longrightarrow> morder (machines s ! n) = Some j"
      using sj by (auto simp: started_ok_def Let_def)
    show ?thesis using sj n False i(2) unfolding started_ok_def Let_def o by (auto simp: s'_def)
  qed
  moreover have "\<forall>c. own s0 c i \<longrightarrow> c \<in> A" using pinvD(5)[OF inv i0] st by (auto simp: order_ok_def started_ok_def Let_def)
  ultimately have "order_ok s0 A s' j" if "j < length (orders s0)" for j
    using pinvD(5)[OF inv that] i(3) st unfolding order_ok_def Let_def o by (auto simp: s'_def od_def)
  moreover have "machine_ok s' n" if "n < pN s0" for n
  proof (cases "n = m")
    case False
    then show ?thesis using pinvD(6)[OF inv that] i(3) unfolding machine_ok_def o by (force simp: s'_def)
  qed (simp add: machine_ok_def o mc_def)
  moreover have "same_static s0 s'"
    using pinvD(2)[OF inv] unfolding same_static_def s'_def by (simp add: map_update_same od_def mc_def)
  moreover have "used (orders s') j = used (orders s) j" for j
    unfolding used_def s'_def by (simp add: od_def, subst map_update_same) simp_all
  then have "stock_ok s0 s' = stock_ok s0 s" unfolding stock_ok_def by (simp add: s'_def)
  moreover have "cnt settled (orders s') = cnt settled (orders s) + 1"
    using cnt_update[OF i(1), of settled od] i(3,4) by (simp add: s'_def settled_def od_def)
  moreover have "seated A s' = seated A s" "pticks s' = pticks s" "customers s' = customers s" "customers_sitting s' = customers_sitting s"
    "orders_considered s' = orders_considered s + 1" by (simp_all add: seated_def s'_def)
  ultimately have "pinv s0 A s'" using inv unfolding pinv_def by simp
  then show ?thesis using i(1,2) inv by (auto simp: machine_finish_def one_considered_def upd_order_def upd_machine_def s'_def od_def mc_def)
qed

lemma machine_body_inv:
  assumes "pinv s0 A s" "m < pN s0"
  shows "\<exists>s'. machine_body m s = Inr s' \<and> pinv s0 A s'"
proof -
  note S = staticD(3,4)[OF pinvD(2)[OF assms(1)]]
  have "\<exists>s'. (if start_time (machines s ! m) \<le> pticks s \<and> end_time (machines s ! m) > pticks s
             then (if is_busy (machines s ! m) \<noteq> 1 then machine_scan m [0..<length (orders s)] s else machine_finish m s)
             else Inr s) = Inr s' \<and> pinv s0 A s'"
    using machine_scan_inv[OF assms(1) _ assms(2), of "[0..<length (orders s)]"] machine_finish_inv[OF assms] assms(1) S(2) by auto
  then obtain s1 where "(if start_time (machines s ! m) \<le> pticks s \<and> end_time (machines s ! m) > pticks s
             then (if is_busy (machines s ! m) \<noteq> 1 then machine_scan m [0..<length (orders s)] s else machine_finish m s)
             else Inr s) = Inr s1" "pinv s0 A s1" by blast
  then show ?thesis using assms(2) S(1) unfolding machine_body_def by simp
qed

section \<open>The customers\<close>

lemma each_order_rule:
  assumes "distinct oids" "\<forall>oid \<in> set oids. 1 \<le> oid \<and> oid \<le> int n" "I (set oids) s"
    and "\<And>S s. I S s \<Longrightarrow> length (orders s) = n"
    and "\<And>oid S s. I (insert oid S) s \<Longrightarrow> oid \<notin> S \<Longrightarrow> oid \<in> set oids \<Longrightarrow> I S (f (nat (oid - 1)) s)"
  shows "\<exists>s'. each_order f oids s = Inr s' \<and> I {} s'"
proof -
  have "\<exists>s'. each_order f os s = Inr s' \<and> I {} s'" if "set os \<subseteq> set oids" "distinct os" "I (set os) s" for os s
    using that
  proof (induction os arbitrary: s)
    case (Cons oid os)
    have "I (set os) (f (nat (oid - 1)) s)" using assms(5)[of oid "set os" s] Cons.prems by simp
    then show ?case using Cons assms(2) assms(4)[OF Cons.prems(3)] by (simp add: each_order_def)
  qed (simp add: each_order_def)
  then show ?thesis using assms(1,3) by blast
qed

text \<open>The number of customers seated when one arrives or leaves.\<close>

lemma seated_finite: "pinv s0 A s \<Longrightarrow> finite A"
  by (rule finite_subset[OF pinvD(3)]) auto

lemma parts_cong:
  assumes "orders s' = orders s" "machines s' = machines s" "pticks s' = pticks s" "toppings s' = toppings s"
  shows "order_ok s0 A s' i = order_ok s0 A s i" "machine_ok s' m = machine_ok s m" "stock_ok s0 s' = stock_ok s0 s"
  using assms by (simp_all add: order_ok_def started_ok_def machine_ok_def stock_ok_def)

lemma leave_inv:
  assumes inv: "pinv s0 A s" and c: "c \<in> A" "leaves (customers s ! c) = 0"
    and f: "\<And>cu. leaves (f cu) = 1 \<and> customer_id (f cu) = customer_id cu \<and> arrival_time (f cu) = arrival_time cu \<and> order_id_s (f cu) = order_id_s cu \<and> icecreams (f cu) = icecreams cu"
  shows "pinv s0 A (upd_customer c f (s\<lparr>customers_sitting := customers_sitting s - 1\<rparr>))"
proof -
  let ?s = "upd_customer c f (s\<lparr>customers_sitting := customers_sitting s - 1\<rparr>)"
  have cs: "c < pC s0" "c < length (customers s)" using pinvD(3)[OF inv] c(1) staticD(5)[OF pinvD(2)[OF inv]] by auto
  have "seated A ?s = seated A s - {c}" using cs f by (auto simp: seated_def upd_customer_def nth_list_update split: if_splits)
  moreover have "c \<in> seated A s" "finite (seated A s)" using c seated_finite[OF inv] by (auto simp: seated_def)
  ultimately have "int (card (seated A ?s)) = int (card (seated A s)) - 1" using card.remove[of "seated A s" c] by simp
  moreover have "same_static s0 ?s" using pinvD(2)[OF inv] f unfolding same_static_def upd_customer_def by (simp add: map_update_same)
  moreover have "leaves (customers ?s ! d) = (if d = c then 1 else leaves (customers s ! d))" for d using cs f by (auto simp: upd_customer_def)
  moreover have "orders ?s = orders s" "machines ?s = machines s" "pticks ?s = pticks s" "toppings ?s = toppings s" "orders_considered ?s = orders_considered s"
    "customers_sitting ?s = customers_sitting s - 1" by (simp_all add: upd_customer_def)
  ultimately show ?thesis using inv c(1) parts_cong[of ?s s] unfolding pinv_def by auto
qed

lemma customer_orders_eq:
  assumes "set oids \<subseteq> {1..int (length (orders s))}"
  shows "customer_orders oids s = Inr (map (\<lambda>oid. orders s ! nat (oid - 1)) oids)"
  using assms by (induction oids) (auto simp: customer_order_def)

lemma customer_facts:
  assumes "pinv s0 A s" "c < pC s0"
  shows "distinct (order_id_s (customers s ! c))" "set (order_id_s (customers s ! c)) \<subseteq> {1..int (length (orders s))}"
    "set (concat (map topping_ids (icecreams (customers s ! c)))) \<subseteq> {1..int (length (toppings s))}"
    "oid \<in> set (order_id_s (customers s ! c)) \<Longrightarrow> own s0 c (nat (oid - 1)) \<and> nat (oid - 1) < length (orders s0)"
proof -
  note S = staticD[OF pinvD(2)[OF assms(1)]] and P = pinvD(1)[OF assms(1)]
  show D: "distinct (order_id_s (customers s ! c))" "set (order_id_s (customers s ! c)) \<subseteq> {1..int (length (orders s))}"
    using P S(8)[OF assms(2)] S(4) assms(2) unfolding parlour_ok_def by simp_all
  show "set (concat (map topping_ids (icecreams (customers s ! c)))) \<subseteq> {1..int (length (toppings s))}"
    using P S(8)[OF assms(2)] S(2) assms(2) unfolding parlour_ok_def by (simp add: UN_subset_iff)
  show "own s0 c (nat (oid - 1)) \<and> nat (oid - 1) < length (orders s0)" if "oid \<in> set (order_id_s (customers s ! c))"
    using that D(2) S(4) S(8)[OF assms(2)] assms(2) by (auto simp: own_def)
qed

lemma own_unique: "pinv s0 A s \<Longrightarrow> own s0 c i \<Longrightarrow> own s0 c' i \<Longrightarrow> c = c'"
  using pinvD(1) unfolding parlour_ok_def by blast

text \<open>Dropping the orders of a customer that has arrived.\<close>

lemma drop_orders:
  assumes inv: "pinv s0 A s" and c: "c \<in> A"
    and f: "\<And>od. oicecream (f od) = oicecream od \<and> is_completed (f od) = is_completed od \<and> icecream_machine_id (f od) = icecream_machine_id od
      \<and> start_time_of_order (f od) = start_time_of_order od \<and> is_placed (f od) = is_placed od \<and> is_to_considered (f od) = 0"
  shows "\<exists>s'. each_order (\<lambda>i. upd_order i f) (order_id_s (customers s ! c)) s = Inr s' \<and> pinv s0 A s'
    \<and> customers s' = customers s \<and> customers_sitting s' = customers_sitting s \<and> pticks s' = pticks s"
proof -
  have cs: "c < pC s0" using pinvD(3)[OF inv] c by auto
  note F = customer_facts[OF inv cs]
  define I where "I S t \<longleftrightarrow> pinv s0 A t \<and> customers t = customers s \<and> customers_sitting t = customers_sitting s \<and> pticks t = pticks s" for S :: "int set" and t
  have "\<exists>s'. each_order (\<lambda>i. upd_order i f) (order_id_s (customers s ! c)) s = Inr s' \<and> I {} s'"
  proof (rule each_order_rule[OF F(1)])
    fix oid S t
    assume t: "I (insert oid S) t" and o: "oid \<in> set (order_id_s (customers s ! c))"
    have "\<forall>c'. own s0 c' (nat (oid - 1)) \<longrightarrow> c' \<in> A" using own_unique[OF inv] F(4)[OF o] c by blast
    then have "pinv s0 A (t\<lparr>orders := (orders t)[nat (oid - 1) := f (orders t ! nat (oid - 1))], orders_considered := orders_considered t\<rparr>)"
      using t F(4)[OF o] f by (intro order_change) (auto simp: I_def keeps_order_def settled_def)
    then show "I S (upd_order (nat (oid - 1)) f t)" using t by (simp add: I_def upd_order_def)
  qed (use F(2) inv staticD(4)[OF pinvD(2)] in \<open>auto simp: I_def\<close>)
  then show ?thesis by (simp add: I_def)
qed

text \<open>Orders of a customer before it is served: waiting, not placed and not started.\<close>

definition fresh :: "order_s \<Rightarrow> bool" where
  "fresh od \<longleftrightarrow> is_to_considered od = 1 \<and> is_placed od = -1 \<and> icecream_machine_id od = -1"

lemma fresh_orders:
  assumes "pinv s0 A s" "own s0 c i" "c \<notin> A" "i < length (orders s0)"
  shows "fresh (orders s ! i)"
  using pinvD(5)[OF assms(1,4)] assms(2,3) by (auto simp: order_ok_def started_ok_def fresh_def Let_def)

text \<open>Turning away or placing the orders of a customer that has just arrived.\<close>

lemma arrive_orders:
  assumes inv: "pinv s0 A s" and c: "c \<in> A" and fr: "\<forall>oid \<in> set (order_id_s (customers s ! c)). fresh (orders s ! nat (oid - 1))"
    and g: "g = (\<lambda>i s. one_considered (upd_order i f s)) \<and> (\<forall>od. is_placed (f od) = is_placed od \<and> is_to_considered (f od) = 0)
      \<or> g = (\<lambda>i s. upd_order i (\<lambda>od. od\<lparr>is_to_considered := 1, is_placed := pticks s\<rparr>) s)"
    and f: "\<And>od. oicecream (f od) = oicecream od \<and> is_completed (f od) = is_completed od \<and> icecream_machine_id (f od) = icecream_machine_id od
      \<and> start_time_of_order (f od) = start_time_of_order od"
  shows "\<exists>s'. each_order g (order_id_s (customers s ! c)) s = Inr s' \<and> pinv s0 A s' \<and> customers s' = customers s \<and> pticks s' = pticks s"
proof -
  have cs: "c < pC s0" using pinvD(3)[OF inv] c by auto
  note F = customer_facts[OF inv cs]
  define I where "I S t \<longleftrightarrow> pinv s0 A t \<and> customers t = customers s \<and> pticks t = pticks s \<and> (\<forall>oid \<in> S. oid \<in> set (order_id_s (customers s ! c)) \<longrightarrow> fresh (orders t ! nat (oid - 1)))"
    for S :: "int set" and t
  have "\<exists>s'. each_order g (order_id_s (customers s ! c)) s = Inr s' \<and> I {} s'"
  proof (rule each_order_rule[OF F(1)])
    fix oid S t
    assume t: "I (insert oid S) t" and n: "oid \<notin> S" and o: "oid \<in> set (order_id_s (customers s ! c))"
    let ?i = "nat (oid - 1)"
    have t': "pinv s0 A t" "fresh (orders t ! ?i)" using t o by (auto simp: I_def)
    have own: "\<forall>c'. own s0 c' ?i \<longrightarrow> c' \<in> A" using own_unique[OF inv] F(4)[OF o] c by blast
    have len: "?i < length (orders s0)" using F(4)[OF o] by simp
    have "pinv s0 A (g ?i t)"
      using g
    proof
      assume g1: "g = (\<lambda>i s. one_considered (upd_order i f s)) \<and> (\<forall>od. is_placed (f od) = is_placed od \<and> is_to_considered (f od) = 0)"
      have "pinv s0 A (t\<lparr>orders := (orders t)[?i := f (orders t ! ?i)], orders_considered := orders_considered t + 1\<rparr>)"
        using t'(2) own f g1 by (intro order_change[OF t'(1) len]) (auto simp: keeps_order_def settled_def fresh_def)
      then show ?thesis using g1 by (simp add: upd_order_def one_considered_def)
    next
      assume g2: "g = (\<lambda>i s. upd_order i (\<lambda>od. od\<lparr>is_to_considered := 1, is_placed := pticks s\<rparr>) s)"
      have "pinv s0 A (t\<lparr>orders := (orders t)[?i := (orders t ! ?i)\<lparr>is_to_considered := 1, is_placed := pticks t\<rparr>], orders_considered := orders_considered t\<rparr>)"
        using t'(2) own by (intro order_change[OF t'(1) len]) (auto simp: keeps_order_def settled_def fresh_def)
      then show ?thesis using g2 by (simp add: upd_order_def)
    qed
    moreover have "orders (g ?i t) ! nat (oid' - 1) = orders t ! nat (oid' - 1)" if "oid' \<in> S" "oid' \<in> set (order_id_s (customers s ! c))" for oid'
    proof -
      have "1 \<le> oid'" "1 \<le> oid" "oid' \<noteq> oid" using that n o F(2) by auto
      then have "nat (oid' - 1) \<noteq> ?i" by linarith
      then show ?thesis using g by (auto simp: upd_order_def one_considered_def)
    qed
    ultimately show "I S (g ?i t)" using t g by (auto simp: I_def upd_order_def one_considered_def)
  qed (use F(2) inv fr staticD(4)[OF pinvD(2)] in \<open>auto simp: I_def\<close>)
  then show ?thesis by (simp add: I_def)
qed

text \<open>The state in which a customer's arrival has been noted, before its orders are touched.\<close>

lemma arrive_inv:
  assumes inv: "pinv s0 A s" and c: "c < pC s0" "c \<notin> A"
    and f: "\<And>cu. leaves (f cu) = l \<and> customer_id (f cu) = customer_id cu \<and> arrival_time (f cu) = arrival_time cu \<and> order_id_s (f cu) = order_id_s cu \<and> icecreams (f cu) = icecreams cu"
    and l: "l = 1 \<and> n = customers_sitting s \<or> l = 0 \<and> n = customers_sitting s + 1 \<and> customers_sitting s < seats s0"
  shows "pinv s0 (insert c A) (upd_customer c f (s\<lparr>customers_sitting := n\<rparr>))"
proof -
  let ?s = "upd_customer c f (s\<lparr>customers_sitting := n\<rparr>)"
  have cs: "c < length (customers s)" using c staticD(5)[OF pinvD(2)[OF inv]] by auto
  have "seated (insert c A) ?s = (if l = 0 then insert c (seated A s) else seated A s)"
    using cs f c(2) l by (auto simp: seated_def upd_customer_def nth_list_update split: if_splits)
  moreover have "c \<notin> seated A s" "finite (seated A s)" using c(2) seated_finite[OF inv] by (auto simp: seated_def)
  ultimately have "n = int (card (seated (insert c A) ?s))" using l pinvD(9)[OF inv] by auto
  moreover have "same_static s0 ?s" using pinvD(2)[OF inv] f unfolding same_static_def upd_customer_def by (simp add: map_update_same)
  moreover have "leaves (customers ?s ! d) = (if d = c then l else leaves (customers s ! d))" for d using cs f by (auto simp: upd_customer_def)
  moreover have s: "orders ?s = orders s" "machines ?s = machines s" "pticks ?s = pticks s" "toppings ?s = toppings s" "orders_considered ?s = orders_considered s"
    "customers_sitting ?s = n" by (simp_all add: upd_customer_def)
  moreover have "order_ok s0 (insert c A) ?s i" if "order_ok s0 A s i" for i
    using that parts_cong(1)[OF s(1-4)] by (auto simp: order_ok_def started_ok_def Let_def)
  ultimately show ?thesis using inv c(1) l parts_cong[of ?s s] unfolding pinv_def by auto
qed

lemma arrive_fresh:
  assumes "pinv s0 A s" "c < pC s0" "c \<notin> A" "oid \<in> set (order_id_s (customers s ! c))"
  shows "fresh (orders s ! nat (oid - 1))"
  using fresh_orders[OF assms(1) _ assms(3)] customer_facts(4)[OF assms(1,2,4)] by blast

lemma customer_arrives_inv:
  assumes inv: "pinv s0 A s" and c: "c < pC s0" "c \<notin> A"
  shows "\<exists>s'. customer_arrives c s = Inr s' \<and> pinv s0 (insert c A) s' \<and> pticks s' = pticks s"
proof -
  have cs: "c < length (customers s)" using c staticD(5)[OF pinvD(2)[OF inv]] by auto
  note S = staticD(1)[OF pinvD(2)[OF inv]]
  have go: "\<exists>s'. each_order g (order_id_s (customers s ! c)) (upd_customer c h (s\<lparr>customers_sitting := n\<rparr>)) = Inr s' \<and> pinv s0 (insert c A) s' \<and> pticks s' = pticks s"
    if h: "\<And>cu. leaves (h cu) = l \<and> customer_id (h cu) = customer_id cu \<and> arrival_time (h cu) = arrival_time cu \<and> order_id_s (h cu) = order_id_s cu \<and> icecreams (h cu) = icecreams cu"
      and l: "l = 1 \<and> n = customers_sitting s \<or> l = 0 \<and> n = customers_sitting s + 1 \<and> customers_sitting s < seats s0"
      and g: "g = (\<lambda>i s. one_considered (upd_order i f s)) \<and> (\<forall>od. is_placed (f od) = is_placed od \<and> is_to_considered (f od) = 0)
        \<or> g = (\<lambda>i s. upd_order i (\<lambda>od. od\<lparr>is_to_considered := 1, is_placed := pticks s\<rparr>) s)"
      and f: "\<And>od. oicecream (f od) = oicecream od \<and> is_completed (f od) = is_completed od \<and> icecream_machine_id (f od) = icecream_machine_id od
        \<and> start_time_of_order (f od) = start_time_of_order od"
    for g h f l n
  proof -
    let ?s = "upd_customer c h (s\<lparr>customers_sitting := n\<rparr>)"
    have e: "order_id_s (customers ?s ! c) = order_id_s (customers s ! c)" "orders ?s = orders s" "pticks ?s = pticks s" using cs h by (simp_all add: upd_customer_def)
    show ?thesis
      using arrive_orders[OF arrive_inv[OF inv c h l] insertI1 _ g f] arrive_fresh[OF inv c] unfolding e by blast
  qed
  have keep: "upd_customer c (\<lambda>cu. cu\<lparr>leaves := 0\<rparr>) t = t" if "leaves (customers t ! c) = 0" for t
  proof -
    have "(customers t ! c)\<lparr>leaves := leaves (customers t ! c)\<rparr> = customers t ! c" by simp
    then have "(customers t ! c)\<lparr>leaves := 0\<rparr> = customers t ! c" unfolding that .
    then show ?thesis by (simp add: upd_customer_def)
  qed
  have away: "\<exists>s'. each_order (\<lambda>i s. one_considered (upd_order i f s)) (order_id_s (customers s ! c)) (upd_customer c h s) = Inr s' \<and> pinv s0 (insert c A) s' \<and> pticks s' = pticks s"
    if "\<And>cu. leaves (h cu) = 1 \<and> customer_id (h cu) = customer_id cu \<and> arrival_time (h cu) = arrival_time cu \<and> order_id_s (h cu) = order_id_s cu \<and> icecreams (h cu) = icecreams cu"
      "\<And>od. oicecream (f od) = oicecream od \<and> is_completed (f od) = is_completed od \<and> icecream_machine_id (f od) = icecream_machine_id od
        \<and> start_time_of_order (f od) = start_time_of_order od \<and> is_placed (f od) = is_placed od \<and> is_to_considered (f od) = 0" for f h
    using go[of h 1 "customers_sitting s" "\<lambda>i s. one_considered (upd_order i f s)" f] that by simp
  have placed: "\<exists>s'. each_order (\<lambda>i s. upd_order i (\<lambda>od. od\<lparr>is_to_considered := 1, is_placed := pticks s\<rparr>) s) (order_id_s (customers s ! c))
      (s\<lparr>customers_sitting := customers_sitting s + 1\<rparr>) = Inr s' \<and> pinv s0 (insert c A) s' \<and> pticks s' = pticks s" if "customers_sitting s < seats s0"
    using go[of "\<lambda>cu. cu\<lparr>leaves := 0\<rparr>" 0 "customers_sitting s + 1" _ id] that keep[of "s\<lparr>customers_sitting := customers_sitting s + 1\<rparr>"] pinvD(8)[OF inv c] by simp
  have "customers_sitting s \<noteq> seats s \<Longrightarrow> customers_sitting s < seats s0" using pinvD(10)[OF inv] S by simp
  then show ?thesis
    unfolding customer_arrives_def Let_def tally_eq[OF customer_facts(3)[OF inv c(1)]]
    by (auto intro!: away placed split: if_splits)
qed

end
