(* ===== verification/Parlour_Ring.thy ===== *)
theory Parlour_Ring
  imports Parlour_Inv
begin

text \<open>
  The rest of a customer's turn, the invariant by turn number, and the parlour as an instance of the token ring.
\<close>

section \<open>The rest of a customer's turn\<close>

lemma customer_rejected_inv:
  assumes inv: "pinv s0 A s" and c: "c \<in> A" "leaves (customers s ! c) \<noteq> 1"
  shows "\<exists>s'. customer_rejected c s = Inr s' \<and> pinv s0 A s' \<and> pticks s' = pticks s"
proof -
  have cs: "c < pC s0" using pinvD(3)[OF inv] c by auto
  have l: "leaves (customers s ! c) = 0" using pinvD(7)[OF inv cs] c(2) by auto
  let ?ods = "map (\<lambda>oid. orders s ! nat (oid - 1)) (order_id_s (customers s ! c))"
  define short where "short \<longleftrightarrow> list_ex (\<lambda>od. rejected_is_atpreparation od = 1) ?ods"
  define none where "none \<longleftrightarrow> list_ex (\<lambda>od. rejected_no_machines od = int (pN s)) ?ods"
  define f where "f = (\<lambda>od :: order_s. if none then od\<lparr>rejected := 1, is_to_considered := 0, rejected_no_machines := int (pN s0)\<rparr>
    else if short then od\<lparr>rejected := 1, is_to_considered := 0, rejected_is_atpreparation := 1\<rparr> else od\<lparr>rejected := 1, is_to_considered := 0\<rparr>)"
  define h where "h now = (\<lambda>cu :: customer_s. cu\<lparr>leaves := 1, leaving_time := now, leaves_no_machines := (if none then 1 else leaves_no_machines cu),
    leaves_is_atpreparation := (if short then 1 else leaves_is_atpreparation cu)\<rparr>)" for now
  have keeps: "oicecream (f od) = oicecream od \<and> is_completed (f od) = is_completed od \<and> icecream_machine_id (f od) = icecream_machine_id od
      \<and> start_time_of_order (f od) = start_time_of_order od \<and> is_placed (f od) = is_placed od \<and> is_to_considered (f od) = 0" for od
    by (simp add: f_def Let_def)
  obtain s1 where s1: "each_order (\<lambda>i. upd_order i f) (order_id_s (customers s ! c)) s = Inr s1" "pinv s0 A s1" "customers s1 = customers s"
      "pticks s1 = pticks s"
    using drop_orders[OF inv c(1) keeps] by blast
  have same: "each_order (\<lambda>i s. upd_order i (\<lambda>od. if none then od\<lparr>rejected := 1, is_to_considered := 0, rejected_no_machines := int (pN s)\<rparr>
    else if short then od\<lparr>rejected := 1, is_to_considered := 0, rejected_is_atpreparation := 1\<rparr> else od\<lparr>rejected := 1, is_to_considered := 0\<rparr>) s) oids t = each_order (\<lambda>i. upd_order i f) oids t"
    if "pN t = pN s0" for oids t
    using that by (induction oids arbitrary: t) (simp_all add: each_order_def f_def upd_order_def)
  have leave: "pinv s0 A (upd_customer c (h (pticks s1)) (s1\<lparr>customers_sitting := customers_sitting s1 - 1\<rparr>))"
    by (rule leave_inv[OF s1(2) c(1)]) (use l s1(3) in \<open>simp_all add: h_def\<close>)
  have run: "customer_rejected c s = (if short \<or> none then Inr (upd_customer c (h (pticks s1)) (s1\<lparr>customers_sitting := customers_sitting s1 - 1\<rparr>)) else Inr s)"
    unfolding customer_rejected_def Let_def customer_orders_eq[OF customer_facts(2)[OF inv cs]] bnd_Inr short_def[symmetric] none_def[symmetric]
      same[OF staticD(3)[OF pinvD(2)[OF inv]]] s1(1) h_def ..
  then show ?thesis using leave inv s1(4) by (auto simp: upd_customer_def)
qed

lemma all_completed_eq: "all_completed ods 0 = 1 \<Longrightarrow> \<exists>od \<in> set ods. is_completed od = 1"
proof -
  have "all_completed ods r = 1 \<Longrightarrow> r = 1 \<or> (\<exists>od \<in> set ods. is_completed od = 1)" for r
    by (induction ods arbitrary: r) (auto split: if_splits)
  from this[of 0] show "all_completed ods 0 = 1 \<Longrightarrow> \<exists>od \<in> set ods. is_completed od = 1" by simp
qed

lemma customer_collects_inv:
  assumes inv: "pinv s0 A s" and c: "c < pC s0"
  shows "\<exists>s'. customer_collects c s = Inr s' \<and> pinv s0 A s' \<and> pticks s' = pticks s"
proof -
  note F = customer_facts[OF inv c]
  let ?ods = "map (\<lambda>oid. orders s ! nat (oid - 1)) (order_id_s (customers s ! c))"
  have "pinv s0 A (upd_customer c (\<lambda>cu. cu\<lparr>leaves := 1, leaves_with_order := 1, leaving_time := pticks s\<rparr>) (s\<lparr>customers_sitting := customers_sitting s - 1\<rparr>))"
    if all: "all_completed ?ods 0 = 1" and l: "leaves (customers s ! c) = 0"
  proof -
    obtain oid where oid: "oid \<in> set (order_id_s (customers s ! c))" "is_completed (orders s ! nat (oid - 1)) = 1" using all_completed_eq[OF all] by auto
    then have "c \<in> A" using F(4)[OF oid(1)] pinvD(5)[OF inv, of "nat (oid - 1)"] by (auto simp: order_ok_def started_ok_def Let_def)
    then show ?thesis by (rule leave_inv[OF inv _ l]) simp
  qed
  then show ?thesis using inv customer_orders_eq[OF F(2)] by (auto simp: customer_collects_def upd_customer_def)
qed

lemma next_second_inv: "pinv s0 A s \<Longrightarrow> pinv s0 A (next_second s)"
proof -
  assume inv: "pinv s0 A s"
  have *: "pinv s0 A (s\<lparr>pticks := pticks s + 1, super := x\<rparr>)" for x
  proof -
    let ?s = "s\<lparr>pticks := pticks s + 1, super := x\<rparr>"
    have "started_ok s0 ?s i" if "started_ok s0 s i" for i using that by (fastforce simp: started_ok_def Let_def)
    then have "order_ok s0 A ?s i" if "order_ok s0 A s i" for i using that by (auto simp: order_ok_def Let_def)
    moreover have "stock_ok s0 ?s = stock_ok s0 s" "machine_ok ?s = machine_ok s" "same_static s0 ?s = same_static s0 s" "seated A ?s = seated A s"
      by (simp_all add: stock_ok_def machine_ok_def fun_eq_iff same_static_def seated_def)
    ultimately show ?thesis using inv unfolding pinv_def by simp
  qed
  from *[of 1] *[of "super s"] show ?thesis by (simp add: next_second_def Let_def)
qed

lemma next_second_ticks [simp]: "pticks (next_second s) = pticks s + 1"
  by (simp add: next_second_def Let_def)

lemma customer_body_inv:
  assumes inv: "pinv s0 A s" and c: "c < pC s0" and at: "arrival_time (customers s0 ! c) = pticks s \<Longrightarrow> c \<notin> A" "arrival_time (customers s0 ! c) < pticks s \<Longrightarrow> c \<in> A"
  shows "\<exists>s'. customer_body c s = Inr s' \<and> pinv s0 (if arrival_time (customers s0 ! c) = pticks s then insert c A else A) s'
    \<and> pticks s' = pticks s + (if c = 0 then 1 else 0)"
proof -
  note S = staticD[OF pinvD(2)[OF inv]]
  let ?arr = "arrival_time (customers s0 ! c)"
  let ?A = "if ?arr = pticks s then insert c A else A"
  have e: "arrival_time (customers s ! c) = ?arr" "customer_id (customers s ! c) = int c + 1" "c < pC s"
    using S(5) S(8)[OF c] c pinvD(1)[OF inv] by (simp_all add: parlour_ok_def)
  have "\<exists>s1. (if ?arr = pticks s then customer_arrives c s else Inr s) = Inr s1 \<and> pinv s0 ?A s1 \<and> pticks s1 = pticks s"
  proof (cases "?arr = pticks s")
    case True
    then show ?thesis using customer_arrives_inv[OF inv c at(1)[OF True]] by simp
  qed (simp add: inv)
  then obtain s1 where 1: "(if ?arr = pticks s then customer_arrives c s else Inr s) = Inr s1" "pinv s0 ?A s1" "pticks s1 = pticks s" by blast
  have "\<exists>s2. (if ?arr < pticks s1 \<and> leaves (customers s1 ! c) \<noteq> 1 then customer_rejected c s1 else Inr s1) = Inr s2 \<and> pinv s0 ?A s2 \<and> pticks s2 = pticks s"
  proof (cases "?arr < pticks s1 \<and> leaves (customers s1 ! c) \<noteq> 1")
    case True
    then have "c \<in> ?A" using at(2) 1(3) by simp
    then show ?thesis using customer_rejected_inv[OF 1(2), of c] True 1(3) by simp
  next
    case False
    show ?thesis unfolding if_not_P[OF False] using 1(2,3) by blast
  qed
  then obtain s2 where 2: "(if ?arr < pticks s1 \<and> leaves (customers s1 ! c) \<noteq> 1 then customer_rejected c s1 else Inr s1) = Inr s2"
      "pinv s0 ?A s2" "pticks s2 = pticks s" by blast
  obtain s3 where 3: "customer_collects c s2 = Inr s3" "pinv s0 ?A s3" "pticks s3 = pticks s"
    using customer_collects_inv[OF 2(2) c] 2(3) by auto
  have run: "customer_body c s = Inr (if c = 0 then next_second s3 else s3)"
    using e 1(1) 2(1) 3(1) by (simp add: customer_body_def Let_def)
  show ?thesis using run next_second_inv[OF 3(2)] 3 by auto
qed

text \<open>A machine does not move the clock.\<close>

lemma step_ticks:
  "reject_late m i s = Inr t \<Longrightarrow> pticks t = pticks s" "reject_short m i s = Inr t \<Longrightarrow> pticks t = pticks s" "start_order m i s = Inr t \<Longrightarrow> pticks t = pticks s"
  by (auto simp: reject_late_def reject_short_def start_order_def bnd_eq_Inr Let_def upd_order_def upd_machine_def set_mark_def one_considered_def split: if_splits)

lemma machine_scan_ticks: "machine_scan m is s = Inr s' \<Longrightarrow> pticks s' = pticks s"
proof (induction "is" arbitrary: s)
  case (Cons i "is")
  consider "machine_scan m is s = Inr s'" | t where "pticks t = pticks s" "machine_scan m is t = Inr s'" | "start_order m i s = Inr s'"
    using Cons.prems by (auto simp: bnd_eq_Inr dest: step_ticks(1,2) split: if_splits)
  then show ?case using Cons.IH by cases (auto dest: step_ticks(3))
qed simp

lemma machine_body_ticks: "machine_body m s = Inr s' \<Longrightarrow> pticks s' = pticks s"
  by (auto simp: machine_body_def machine_finish_def bnd_eq_Inr upd_order_def upd_machine_def one_considered_def dest: machine_scan_ticks split: if_splits option.splits)

section \<open>Turns\<close>

definition arrived :: "parlour \<Rightarrow> nat \<Rightarrow> nat set" where
  "arrived s0 k = {c. c < pC s0 \<and> lin (pN s0 + pC s0) (arrival_time (customers s0 ! c)) (ring_pos (pN s0) (pC s0) (Customer c)) < int k}"

definition turn_inv :: "parlour \<Rightarrow> nat \<Rightarrow> parlour \<Rightarrow> bool" where
  "turn_inv s0 k s \<longleftrightarrow> pinv s0 (arrived s0 k) s \<and> pticks s = int (k div (pN s0 + pC s0))"

lemma ring_pos_kinds: "m < B \<Longrightarrow> c < N \<Longrightarrow> ring_pos B N (Worker m) \<noteq> ring_pos B N (Customer c)"
  by (cases c) auto

lemma less_Suc_int: "x \<noteq> int k \<Longrightarrow> x < int (Suc k) \<longleftrightarrow> x < int k"
  by auto

lemma arrived_machine:
  assumes "0 < pC s0" "ring_at (pN s0) (pC s0) k = Worker m"
  shows "arrived s0 (Suc k) = arrived s0 k"
proof -
  have "int k \<noteq> lin (pN s0 + pC s0) t (ring_pos (pN s0) (pC s0) (Customer c))" if c: "c < pC s0" for c t
  proof
    assume k: "int k = lin (pN s0 + pC s0) t (ring_pos (pN s0) (pC s0) (Customer c))"
    have m: "m < pN s0" using ring_at_thread[OF assms(1), of "pN s0" k] assms(2) by simp
    have th: "is_thread (pN s0) (pC s0) (Worker m)" "is_thread (pN s0) (pC s0) (Customer c)" using m c by simp_all
    have "ring_pos (pN s0) (pC s0) (Worker m) = ring_pos (pN s0) (pC s0) (Customer c)"
      using iffD1[OF lin_eq_iff[OF ring_pos_less[OF assms(1) th(1)] ring_pos_less[OF assms(1) th(2)]] trans[OF turn_lin[OF assms, symmetric] k]] by blast
    then show False using ring_pos_kinds[OF m c] by blast
  qed
  then have "lin (pN s0 + pC s0) t (ring_pos (pN s0) (pC s0) (Customer c)) < int (Suc k) \<longleftrightarrow> lin (pN s0 + pC s0) t (ring_pos (pN s0) (pC s0) (Customer c)) < int k"
    if "c < pC s0" for c t using that by (intro less_Suc_int) metis
  then show ?thesis unfolding arrived_def by blast
qed

lemma ring_pos_customer_inj: "c < N \<Longrightarrow> c' < N \<Longrightarrow> ring_pos B N (Customer c) = ring_pos B N (Customer c') \<Longrightarrow> c = c'"
  by (cases c; cases c') auto

lemma arrived_customer:
  assumes "0 < pC s0" "ring_at (pN s0) (pC s0) k = Customer c" "t = int (k div (pN s0 + pC s0))"
  shows "arrived s0 (Suc k) = (if arrival_time (customers s0 ! c) = t then insert c (arrived s0 k) else arrived s0 k)"
    "arrival_time (customers s0 ! c) = t \<Longrightarrow> c \<notin> arrived s0 k" "arrival_time (customers s0 ! c) < t \<Longrightarrow> c \<in> arrived s0 k"
proof -
  let ?L = "pN s0 + pC s0" and ?p = "\<lambda>c. ring_pos (pN s0) (pC s0) (Customer c)" and ?a = "\<lambda>c. arrival_time (customers s0 ! c)"
  have c: "c < pC s0" using ring_at_thread[OF assms(1), of "pN s0" k] assms(2) by simp
  have pos: "?p d < ?L" if "d < pC s0" for d using ring_pos_less[OF assms(1), of "pN s0" "Customer d"] that by simp
  have k: "int k = lin ?L t (?p c)" using turn_lin[OF assms(1,2)] assms(3) by simp
  have eq: "lin ?L (?a d) (?p d) = int k \<longleftrightarrow> d = c \<and> ?a c = t" if "d < pC s0" for d
    unfolding k lin_eq_iff[OF pos[OF that] pos[OF c]] using ring_pos_customer_inj[OF that c] by auto
  have "arrived s0 (Suc k) = arrived s0 k \<union> {d. d < pC s0 \<and> lin ?L (?a d) (?p d) = int k}" by (auto simp: arrived_def)
  then show "arrived s0 (Suc k) = (if ?a c = t then insert c (arrived s0 k) else arrived s0 k)" using eq c by auto
  show "?a c = t \<Longrightarrow> c \<notin> arrived s0 k" using k by (auto simp: arrived_def)
  show "c \<in> arrived s0 k" if "?a c < t"
    using that c lin_le_iff[OF pos[OF c] pos[OF c], of t "?a c"] by (auto simp: arrived_def k)
qed

lemma parlour_turn:
  assumes "turn_inv s0 k s"
  shows "\<exists>s'. parlour_body (ring_at (pN s0) (pC s0) k) s = Inr s' \<and> turn_inv s0 (Suc k) s'"
proof -
  have inv: "pinv s0 (arrived s0 k) s" and t: "pticks s = int (k div (pN s0 + pC s0))" using assms by (auto simp: turn_inv_def)
  have C: "0 < pC s0" using pinvD(1)[OF inv] by (simp add: parlour_ok_def)
  note th = ring_at_thread[OF C, of "pN s0" k]
  show ?thesis
  proof (cases "ring_at (pN s0) (pC s0) k")
    case (Worker m)
    then obtain s' where "machine_body m s = Inr s'" "pinv s0 (arrived s0 k) s'" "pticks s' = pticks s"
      using machine_body_inv[OF inv, of m] machine_body_ticks th by fastforce
    then show ?thesis using Worker arrived_machine[OF C Worker] clock_step[OF C Worker] t by (auto simp: turn_inv_def)
  next
    case (Customer c)
    note A = arrived_customer[OF C Customer t]
    then obtain s' where "customer_body c s = Inr s'" "pinv s0 (arrived s0 (Suc k)) s'" "pticks s' = pticks s + (if c = 0 then 1 else 0)"
      using customer_body_inv[OF inv, of c] th Customer by (auto split: if_splits)
    then show ?thesis using Customer clock_step[OF C Customer] t by (auto simp: turn_inv_def)
  qed
qed

interpretation parlour_ring: token_ring parlour_body parlour_done pN pC "turn_inv s0" for s0
proof
  fix k s
  assume i: "turn_inv s0 k s"
  then have s: "parlour_ok s0" "pN s = pN s0" "pC s = pC s0" using pinvD(1,2) staticD(3,5) by (auto simp: turn_inv_def)
  then show "0 < pN s \<and> 0 < pC s" by (simp add: parlour_ok_def)
  obtain s' where s': "parlour_body (ring_at (pN s0) (pC s0) k) s = Inr s'" "turn_inv s0 (Suc k) s'" using parlour_turn[OF i] by blast
  moreover have "pN s' = pN s0" "pC s' = pC s0" using s'(2) pinvD(2) staticD(3,5) by (auto simp: turn_inv_def)
  ultimately show "\<exists>s'. parlour_body (ring_at (pN s) (pC s) k) s = Inr s' \<and> turn_inv s0 (Suc k) s' \<and> pN s' = pN s \<and> pC s' = pC s"
    using s by auto
qed

end
