(* ===== verification/Parlour_Init.thy ===== *)
theory Parlour_Init
  imports Parlour_Ring "HOL-Library.Multiset"
begin

text \<open>The function \<open>main\<close> of the parlour: its sort, and that the state it sets up satisfies the invariant.\<close>

section \<open>The sort of the topping indices\<close>

lemma exchange_props:
  assumes "i < length xs" "j < length xs"
  shows "mset (exchange i j xs) = mset xs" "length (exchange i j xs) = length xs"
  using assms by (simp_all add: exchange_def mset_swap)

text \<open>The first \<open>i\<close> entries are in place, and entry \<open>i\<close> is least up to \<open>j\<close>.\<close>

definition sorted_upto :: "nat \<Rightarrow> nat \<Rightarrow> nat list \<Rightarrow> bool" where
  "sorted_upto i j xs \<longleftrightarrow> (\<forall>a b. a < b \<longrightarrow> b < length xs \<longrightarrow> a < i \<or> a = i \<and> b < j \<longrightarrow> xs ! a \<le> xs ! b)"

lemma exchange_step:
  assumes "i < j" "j < length xs" "sorted_upto i j xs"
  shows "sorted_upto i (Suc j) (exchange i j xs)"
  unfolding sorted_upto_def
proof (intro allI impI)
  fix a b
  assume ab: "a < b" "b < length (exchange i j xs)" "a < i \<or> a = i \<and> b < Suc j"
  have S: "xs ! a \<le> xs ! b" if "a < b" "b < length xs" "a < i \<or> a = i \<and> b < j" for a b using assms(3) that unfolding sorted_upto_def by blast
  have b: "b < length xs" using ab(2) assms by (simp add: exchange_def split: if_splits)
  show "exchange i j xs ! a \<le> exchange i j xs ! b"
    using S[of a b] S[of a i] S[of a j] S[of i b] ab(1,3) b assms(1,2) by (auto simp: exchange_def nth_list_update less_Suc_eq)
qed

lemma exchange_inner:
  assumes "i < length xs" "sorted_upto i (Suc i) xs" "m \<le> length xs" "i < m"
  shows "let ys = fold (exchange i) [i + 1..<m] xs in mset ys = mset xs \<and> length ys = length xs \<and> sorted_upto i m ys"
  using assms(3,4)
proof (induction m)
  case (Suc m)
  show ?case
  proof (cases "i < m")
    case True
    then show ?thesis
      using Suc exchange_props[of i "fold (exchange i) [i + 1..<m] xs" m] exchange_step[of i m "fold (exchange i) [i + 1..<m] xs"] assms(1)
      by (simp add: Let_def)
  next
    case False
    then show ?thesis using Suc.prems assms(2) by (simp add: Let_def less_Suc_eq)
  qed
qed simp

lemma exchange_sort_sorts: "exchange_sort xs = sort xs"
proof -
  let ?n = "length xs"
  let ?f = "\<lambda>i. fold (exchange i) [i + 1..<?n]"
  have "let ys = fold ?f [0..<m] xs in mset ys = mset xs \<and> length ys = ?n \<and> sorted_upto m (Suc m) ys" if "m \<le> ?n" for m
    using that
  proof (induction m)
    case (Suc m)
    let ?ys = "fold ?f [0..<m] xs"
    have ys: "mset ?ys = mset xs" "length ?ys = ?n" "sorted_upto m (Suc m) ?ys" using Suc by (simp_all add: Let_def)
    have "let zs = fold (exchange m) [m + 1..<?n] ?ys in mset zs = mset ?ys \<and> length zs = length ?ys \<and> sorted_upto m ?n zs"
      using exchange_inner[of m ?ys ?n] ys Suc.prems by simp
    moreover have "sorted_upto (Suc m) (Suc (Suc m)) zs" if "sorted_upto m ?n zs" "length zs = ?n" for zs
      using that unfolding sorted_upto_def by (auto simp: less_Suc_eq)
    ultimately show ?case using ys by (simp add: Let_def)
  qed (simp add: sorted_upto_def)
  from this[of ?n] have "mset (exchange_sort xs) = mset xs" "sorted_upto ?n (Suc ?n) (exchange_sort xs)" "length (exchange_sort xs) = ?n"
    by (simp_all add: Let_def exchange_sort_def)
  moreover then have "sorted (exchange_sort xs)" by (auto simp: sorted_upto_def sorted_iff_nth_mono_less)
  ultimately show ?thesis using properties_for_sort by metis
qed

section \<open>The initial state\<close>

lemma find_toppings_range: "find_toppings tps ws = Inr js \<Longrightarrow> set js \<subseteq> {..<length tps} \<and> length js = length ws"
proof (induction ws arbitrary: js)
  case (Cons w ws)
  then show ?case by (fastforce simp: bnd_eq_Inr find_Some_iff split: option.splits)
qed simp

definition ids_ok :: "nat \<Rightarrow> icecream \<Rightarrow> bool" where
  "ids_ok T ic \<longleftrightarrow> set (topping_ids ic) \<subseteq> {1..int T}"

lemma read_toppings_id: "j < length tinput \<Longrightarrow> topping_id (read_toppings tinput ! j) = int j + 1" "length (read_toppings tinput) = length tinput"
  "j < length tinput \<Longrightarrow> quantity (read_toppings tinput ! j) = snd (tinput ! j)"
  by (simp_all add: read_toppings_def)

lemma read_icecream_ids:
  assumes "read_icecream fls (read_toppings tinput) line = Inr ic"
  shows "ids_ok (length tinput) ic"
proof -
  obtain f js where js: "set js \<subseteq> {..<length tinput}" "topping ic = map (\<lambda>j. read_toppings tinput ! j) (exchange_sort js)"
    using assms by (auto simp: read_icecream_def bnd_eq_Inr read_toppings_id(2) dest!: find_toppings_range split: list.splits option.splits if_splits)
  then show ?thesis by (auto simp: ids_ok_def topping_ids_def exchange_sort_sorts read_toppings_id subset_iff)
qed

lemma read_icecreams_ids: "read_icecreams fls (read_toppings tinput) ls = Inr ics \<Longrightarrow> \<forall>ic \<in> set ics. ids_ok (length tinput) ic"
  by (induction ls arbitrary: ics) (auto simp: bnd_eq_Inr dest: read_icecream_ids)

text \<open>The customers and orders read so far.\<close>

definition order_new :: "nat \<Rightarrow> order_s \<Rightarrow> bool" where
  "order_new T od \<longleftrightarrow> ids_ok T (oicecream od) \<and> is_to_considered od = 1 \<and> is_placed od = -1 \<and> is_completed od = 0 \<and> icecream_machine_id od = -1"

definition customer_new :: "nat \<Rightarrow> nat \<Rightarrow> nat \<Rightarrow> customer_s \<Rightarrow> bool" where
  "customer_new T n c cu \<longleftrightarrow> customer_id cu = int c + 1 \<and> 0 \<le> arrival_time cu \<and> leaves cu = 0 \<and> distinct (order_id_s cu)
     \<and> set (order_id_s cu) \<subseteq> {1..int n} \<and> (\<forall>ic \<in> set (icecreams cu). ids_ok T ic)"

definition read_ok :: "nat \<Rightarrow> customer_s list \<times> order_s list \<Rightarrow> bool" where
  "read_ok T = (\<lambda>(cs, ods). length ods \<le> MAX_TOTAL_ORDERS \<and> (\<forall>od \<in> set ods. order_new T od) \<and> (\<forall>c < length cs. customer_new T (length ods) c (cs ! c))
     \<and> (\<forall>c < length cs. \<forall>c' < length cs. c \<noteq> c' \<longrightarrow> set (order_id_s (cs ! c)) \<inter> set (order_id_s (cs ! c')) = {}))"

lemma customer_new_mono: "customer_new T n c cu \<Longrightarrow> n \<le> n' \<Longrightarrow> customer_new T n' c cu"
  by (fastforce simp: customer_new_def)

lemma add_customer_ok:
  assumes ok: "read_ok (length tinput) (cs, ods)" and new: "cid = int (length cs) + 1" "0 \<le> arr"
    and r: "add_customer fls (read_toppings tinput) (cid, arr, ls) (cs, ods) = Inr (cs', ods')"
  shows "read_ok (length tinput) (cs', ods') \<and> length cs' = Suc (length cs)"
proof -
  obtain ics where ics: "read_icecreams fls (read_toppings tinput) ls = Inr ics" "length ods + length ics \<le> MAX_TOTAL_ORDERS"
      "cs' = cs @ [new_customer cid arr ics (length ods)]" "ods' = ods @ map (\<lambda>j. new_order (length ods + j) cid j (ics ! j)) [0..<length ics]"
    using r by (auto simp: add_customer_def bnd_eq_Inr split: if_splits)
  note ids = read_icecreams_ids[OF ics(1)]
  let ?n = "length ods'"
  have len: "?n = length ods + length ics" by (simp add: ics)
  have oids: "set (order_id_s (new_customer cid arr ics (length ods))) = {int (length ods) + 1..int ?n}"
    unfolding len by (force simp: new_customer_def image_iff intro!: bexI[of _ "nat (x - int (length ods) - 1)" for x])
  have "customer_new (length tinput) ?n (length cs) (new_customer cid arr ics (length ods))"
    using new ids oids by (auto simp: customer_new_def) (auto simp: new_customer_def distinct_map inj_on_def)
  moreover have "\<forall>c < length cs. customer_new (length tinput) ?n c (cs ! c)" using ok len by (auto simp: read_ok_def intro: customer_new_mono)
  ultimately have cn: "\<forall>c < length cs'. customer_new (length tinput) ?n c (cs' ! c)" by (auto simp: ics(3) nth_append less_Suc_eq)
  have old: "set (order_id_s (cs ! c)) \<subseteq> {1..int (length ods)}" if "c < length cs" for c using ok that by (auto simp: read_ok_def customer_new_def)
  have "\<forall>c < length cs'. \<forall>c' < length cs'. c \<noteq> c' \<longrightarrow> set (order_id_s (cs' ! c)) \<inter> set (order_id_s (cs' ! c')) = {}"
    using ok old oids by (fastforce simp: read_ok_def ics(3) nth_append less_Suc_eq)
  moreover have "\<forall>od \<in> set ods'. order_new (length tinput) od" using ok ids by (auto simp: read_ok_def ics(4) order_new_def new_order_def)
  ultimately show ?thesis using cn ics(2,3) len by (simp add: read_ok_def)
qed

lemma add_customers_ok:
  assumes "read_ok (length tinput) (cs, ods)" "\<forall>i < length cinput. fst (cinput ! i) = int (length cs + i) + 1 \<and> 0 \<le> fst (snd (cinput ! i))"
    "for_each (add_customer fls (read_toppings tinput)) cinput (cs, ods) = Inr (cs', ods')"
  shows "read_ok (length tinput) (cs', ods') \<and> length cs' = length cs + length cinput"
  using assms
proof (induction cinput arbitrary: cs ods)
  case (Cons inp cinput)
  obtain cid arr ls where inp: "inp = (cid, arr, ls)" by (cases inp)
  obtain cs1 ods1 where 1: "add_customer fls (read_toppings tinput) (cid, arr, ls) (cs, ods) = Inr (cs1, ods1)"
      "for_each (add_customer fls (read_toppings tinput)) cinput (cs1, ods1) = Inr (cs', ods')"
    using Cons.prems(3) inp by (auto simp: bnd_eq_Inr)
  have h: "cid = int (length cs) + 1" "0 \<le> arr" using Cons.prems(2)[rule_format, of 0] inp by auto
  note A = add_customer_ok[OF Cons.prems(1) h 1(1)]
  have "fst (cinput ! i) = int (length cs1 + i) + 1 \<and> 0 \<le> fst (snd (cinput ! i))" if "i < length cinput" for i
    using Cons.prems(2)[rule_format, of "Suc i"] that A by auto
  then show ?case using Cons.IH[OF conjunct1[OF A] _ 1(2)] A by simp
qed simp

text \<open>
  The input the program is meant for: at least one machine and fewer than ten, at least one customer, customers numbered from 1, no
  negative arrival time, quantities that are -1 or not negative.
\<close>

definition good_input :: "int \<Rightarrow> (int \<times> int) list \<Rightarrow> (string \<times> int) list \<Rightarrow> (int \<times> int \<times> string list) list \<Rightarrow> bool" where
  "good_input K mtimes tinput cinput \<longleftrightarrow> 0 \<le> K \<and> mtimes \<noteq> [] \<and> length mtimes < MAX_ICECREAM_MACHINES \<and> cinput \<noteq> []
     \<and> (\<forall>j < length tinput. -1 \<le> snd (tinput ! j))
     \<and> (\<forall>i < length cinput. fst (cinput ! i) = int i + 1 \<and> 0 \<le> fst (snd (cinput ! i)))"

lemma init_turn_inv:
  assumes init: "parlour_init K mtimes fls tinput cinput = Inr s0" and good: "good_input K mtimes tinput cinput"
    and few: "\<forall>od \<in> set (orders s0). length (topping (oicecream od)) \<le> length tinput"
  shows "turn_inv s0 0 s0" "pN s0 = length mtimes" "pC s0 = length cinput" "toppings s0 = read_toppings tinput" "seats s0 = K"
proof -
  obtain cs ods where r: "for_each (add_customer fls (read_toppings tinput)) cinput ([], []) = Inr (cs, ods)"
      "customers s0 = cs" "orders s0 = ods" "toppings s0 = read_toppings tinput" "seats s0 = K" "customers_sitting s0 = 0" "orders_considered s0 = 0" "pticks s0 = 0"
      "machines s0 = map (\<lambda>i. \<lparr>machine_id = int i + 1, start_time = fst (mtimes ! i), end_time = snd (mtimes ! i), is_busy = 0, morder = None\<rparr>) [0..<length mtimes]"
    using init by (auto simp: parlour_init_def Let_def bnd_eq_Inr split: if_splits)
  have ok: "read_ok (length tinput) (cs, ods)" "length cs = length cinput"
    using add_customers_ok[OF _ _ r(1)] good by (auto simp: read_ok_def good_input_def)
  show len: "pN s0 = length mtimes" "pC s0 = length cinput" "toppings s0 = read_toppings tinput" "seats s0 = K" using r ok(2) by simp_all
  have own: "c = c'" if "own s0 c i" "own s0 c' i" for c c' i
  proof -
    have "\<forall>c < length cs. \<forall>c' < length cs. c \<noteq> c' \<longrightarrow> set (order_id_s (cs ! c)) \<inter> set (order_id_s (cs ! c')) = {}" using ok(1) by (simp add: read_ok_def)
    then show ?thesis using that unfolding own_def r(2) by blast
  qed
  have od: "order_new (length tinput) (ods ! i)" if "i < length ods" for i using ok(1) that by (auto simp: read_ok_def)
  have cu: "customer_new (length tinput) (length ods) c (cs ! c)" if "c < length cs" for c using ok(1) that by (auto simp: read_ok_def)
  have "parlour_ok s0"
    unfolding parlour_ok_def len r(2,3) read_toppings_id(2)
    using good od cu own ok few by (auto simp: good_input_def read_ok_def order_new_def customer_new_def ids_ok_def topping_ids_def read_toppings_id r(3) len(2))
  moreover have "arrived s0 0 = {}"
  proof -
    have "\<not> lin L (arrival_time (cs ! c)) p < int 0" if "c < length cs" for c L p
    proof -
      have "0 \<le> arrival_time (cs ! c)" using cu[OF that] by (simp add: customer_new_def)
      then have "0 \<le> arrival_time (cs ! c) * int L" by simp
      then show ?thesis unfolding lin_def by linarith
    qed
    then show ?thesis unfolding arrived_def r(2) by blast
  qed
  moreover have "used (orders s0) j = 0" for j
  proof -
    have "icecream_machine_id od = -1" if "od \<in> set ods" for od using ok(1) that by (auto simp: read_ok_def order_new_def)
    then show ?thesis unfolding used_def r(3) by (simp cong: map_cong)
  qed
  moreover have "0 \<le> cnt settled ods" by (simp add: cnt_eq_length_filter)
  ultimately have "pinv s0 (arrived s0 0) s0"
    using od cu r good by (auto simp: pinv_def same_static_def order_ok_def machine_ok_def seated_def stock_ok_def order_new_def customer_new_def Let_def good_input_def read_toppings_id parlour_ok_def)
  then show "turn_inv s0 0 s0" by (simp add: turn_inv_def r(8))
qed

end
