(* ===== verification/Parlour_Props.thy ===== *)
theory Parlour_Props
  imports Parlour_Init
begin

text \<open>The properties of the ice cream parlour, and concrete parlours for their witnesses.\<close>

definition sample_flavours :: "icecream_flavour list" where
  "sample_flavours = [\<lparr>flavour_name = ''Slow'', time_to_prepare = 20\<rparr>, \<lparr>flavour_name = ''Quick'', time_to_prepare = 1\<rparr>]"

definition sample_customers :: "(int \<times> int \<times> string list) list" where
  "sample_customers = [(1, 0, [''Slow Nut'', ''Quick Nut'', ''Quick Nut''])]"

text \<open>One machine open from second 0 to 3, one seat, and \<open>q\<close> nuts.\<close>

definition sample_parlour :: "int \<Rightarrow> parlour result" where
  "sample_parlour q = parlour_init 1 [(0, 3)] sample_flavours [(''Nut'', q)] sample_customers"

lemma sample_good: "-1 \<le> q \<Longrightarrow> good_input 1 [(0, 3)] [(''Nut'', q)] sample_customers"
  by (simp add: good_input_def sample_customers_def MAX_ICECREAM_MACHINES_def)

lemma sample_read: "strtok_all ''Slow Nut'' = [''Slow'', ''Nut'']" "strtok_all ''Quick Nut'' = [''Quick'', ''Nut'']"
  by code_simp+

lemma sample_init:
  obtains s0 where "sample_parlour q = Inr s0" "\<forall>od \<in> set (orders s0). length (topping (oicecream od)) \<le> length [(''Nut'', q)]"
    "pN s0 = 1" "pC s0 = 1"
proof -
  have x: "exchange_sort [0] = [0]" by (simp add: exchange_sort_def)
  have "\<exists>s0. sample_parlour q = Inr s0 \<and> (\<forall>od \<in> set (orders s0). length (topping (oicecream od)) \<le> length [(''Nut'', q)]) \<and> pN s0 = 1 \<and> pC s0 = 1"
    by (simp add: sample_parlour_def parlour_init_def sample_customers_def add_customer_def read_icecream_def sample_read sample_flavours_def read_toppings_def
        Let_def MAX_ICECREAM_MACHINES_def MAX_ICECREAM_FLAVOURS_NAME_def MAX_ICECREAM_TOPPINGS_NAME_def MAX_TOTAL_ORDERS_def TOKENS_def x new_customer_def new_order_def upt_rec numeral_2_eq_2)
  then show ?thesis using that by blast
qed

text \<open>
  C14. Every schedule of the threads of the parlour, with any number of steps, runs without a bad access, has at most one thread
  between its two waits and its two posts, and leaves the parlour in the state that the sequential run of the thread bodies
  reaches after some number of turns. This is for the input the program is meant for, fewer than ten machines and no ice cream with
  more toppings than there are kinds.
\<close>

theorem parlour_schedule_sequential:
  assumes init: "parlour_init K mtimes fls tinput cinput = Inr s0" and good: "good_input K mtimes tinput cinput"
    and few: "\<forall>od \<in> set (orders s0). length (topping (oicecream od)) \<le> length tinput"
    and sched: "\<forall>u \<in> set sched. is_thread (length mtimes) (length cinput) u"
  shows "\<exists>m k. for_each pstep sched (ring_boot s0) = Inr m \<and> ring_run parlour_body (length mtimes) (length cinput) k s0 = Inr (data m)
    \<and> (\<forall>u v. critical (pc m u) \<longrightarrow> critical (pc m v) \<longrightarrow> u = v)"
proof -
  note I = init_turn_inv[OF init good few]
  show ?thesis
    using parlour_ring.schedule_sequential[OF I(1), of sched] sched unfolding pstep_def I(2,3) by blast
qed

theorem parlour_schedule_sequential_witness:
  "\<exists>s0 m k. sample_parlour 5 = Inr s0 \<and> for_each pstep [Worker 0, Customer 0, Worker 0] (ring_boot s0) = Inr m
    \<and> ring_run parlour_body 1 1 k s0 = Inr (data m)"
proof -
  obtain s0 where s0: "sample_parlour 5 = Inr s0" "\<forall>od \<in> set (orders s0). length (topping (oicecream od)) \<le> length [(''Nut'', 5 :: int)]"
    using sample_init[of 5] by metis
  have t: "\<forall>u \<in> set [Worker 0, Customer 0, Worker 0]. is_thread (length [(0 :: int, 3 :: int)]) (length sample_customers) u" by (simp add: sample_customers_def)
  have "\<exists>m k. for_each pstep [Worker 0, Customer 0, Worker 0] (ring_boot s0) = Inr m
      \<and> ring_run parlour_body (length [(0 :: int, 3 :: int)]) (length sample_customers) k s0 = Inr (data m)"
    using parlour_schedule_sequential[OF s0(1)[unfolded sample_parlour_def] sample_good s0(2) t] by auto
  then show ?thesis using s0(1) by (auto simp: sample_customers_def)
qed

text \<open>
  C15. The books of the parlour, at every turn. The number of customers sitting is the number of customers that have arrived and not
  left, and never above the number of seats. What is left of each limited topping is what there was less what went into
  the orders that were started, and never negative; an unlimited topping stays unlimited. An order is started only after
  it was placed and within the hours of its machine, early enough to be ready before the machine stops, and a machine works on one order at a time. And the
  counter of orders considered never exceeds the number of orders dropped.
\<close>

theorem parlour_books:
  assumes init: "parlour_init K mtimes fls tinput cinput = Inr s0" and good: "good_input K mtimes tinput cinput"
    and few: "\<forall>od \<in> set (orders s0). length (topping (oicecream od)) \<le> length tinput"
    and run: "ring_run parlour_body (length mtimes) (length cinput) k s0 = Inr s"
  shows "customers_sitting s = int (card {c \<in> arrived s0 k. leaves (customers s ! c) = 0}) \<and> customers_sitting s \<le> K
    \<and> (\<forall>j < length tinput. if snd (tinput ! j) = -1 then quantity (toppings s ! j) = -1
         else quantity (toppings s ! j) = snd (tinput ! j) - used (orders s) j \<and> 0 \<le> quantity (toppings s ! j))
    \<and> (\<forall>i < length (orders s). icecream_machine_id (orders s ! i) = -1 \<or> (\<exists>m < length mtimes. icecream_machine_id (orders s ! i) = int m + 1
         \<and> fst (mtimes ! m) \<le> start_time_of_order (orders s ! i) \<and> is_placed (orders s ! i) \<noteq> -1 \<and> is_placed (orders s ! i) \<le> start_time_of_order (orders s ! i)
         \<and> start_time_of_order (orders s ! i) + time_to_prepare (flavour (oicecream (orders s ! i))) < snd (mtimes ! m)
         \<and> (is_completed (orders s ! i) = 0 \<longrightarrow> morder (machines s ! m) = Some i)))
    \<and> orders_considered s \<le> cnt (\<lambda>od. is_to_considered od = 0) (orders s)"
proof -
  note I = init_turn_inv[OF init good few]
  have inv: "pinv s0 (arrived s0 k) s" using parlour_ring.run_inv[OF I(1), of k] run I(2,3) by (auto simp: turn_inv_def)
  note S = staticD[OF pinvD(2)[OF inv]]
  have mt: "start_time (machines s0 ! m) = fst (mtimes ! m) \<and> end_time (machines s0 ! m) = snd (mtimes ! m)" if "m < length mtimes" for m
    using init that by (auto simp: parlour_init_def Let_def bnd_eq_Inr split: if_splits)
  have tp: "length (toppings s0) = length tinput" "j < length tinput \<Longrightarrow> quantity (toppings s0 ! j) = snd (tinput ! j)" for j
    using I(4) by (simp_all add: read_toppings_id)
  have 1: "customers_sitting s = int (card {c \<in> arrived s0 k. leaves (customers s ! c) = 0}) \<and> customers_sitting s \<le> K"
    using pinvD(9,10)[OF inv] I(5) by (simp add: seated_def)
  have 2: "\<forall>j < length tinput. if snd (tinput ! j) = -1 then quantity (toppings s ! j) = -1
         else quantity (toppings s ! j) = snd (tinput ! j) - used (orders s) j \<and> 0 \<le> quantity (toppings s ! j)"
  proof (intro allI impI)
    fix j
    assume j: "j < length tinput"
    then show "if snd (tinput ! j) = -1 then quantity (toppings s ! j) = -1
         else quantity (toppings s ! j) = snd (tinput ! j) - used (orders s) j \<and> 0 \<le> quantity (toppings s ! j)"
      using pinvD(11)[OF inv, unfolded stock_ok_def, rule_format, of j] tp(1) tp(2)[OF j] by (simp split: if_splits)
  qed
  have 3: "icecream_machine_id (orders s ! i) = -1 \<or> (\<exists>m < length mtimes. icecream_machine_id (orders s ! i) = int m + 1
         \<and> fst (mtimes ! m) \<le> start_time_of_order (orders s ! i) \<and> is_placed (orders s ! i) \<noteq> -1 \<and> is_placed (orders s ! i) \<le> start_time_of_order (orders s ! i)
         \<and> start_time_of_order (orders s ! i) + time_to_prepare (flavour (oicecream (orders s ! i))) < snd (mtimes ! m)
         \<and> (is_completed (orders s ! i) = 0 \<longrightarrow> morder (machines s ! m) = Some i))" if "i < length (orders s)" for i
    using pinvD(5)[OF inv, of i] S(4) S(7)[of i] that I(2) mt by (fastforce simp: order_ok_def started_ok_def Let_def)
  have "cnt settled (orders s) \<le> cnt (\<lambda>od. is_to_considered od = 0) (orders s)"
    unfolding cnt_def by (rule sum_list_mono) (simp add: settled_def)
  then have 4: "orders_considered s \<le> cnt (\<lambda>od. is_to_considered od = 0) (orders s)" using pinvD(12)[OF inv] by simp
  show ?thesis using 1 2 3 4 by blast
qed

theorem parlour_books_witness:
  "\<exists>s0 s. sample_parlour 5 = Inr s0 \<and> ring_run parlour_body 1 1 4 s0 = Inr s \<and> customers_sitting s \<le> 1 \<and> 0 \<le> quantity (toppings s ! 0)"
proof -
  obtain s0 where s0: "sample_parlour 5 = Inr s0" "\<forall>od \<in> set (orders s0). length (topping (oicecream od)) \<le> length [(''Nut'', 5 :: int)]" "pN s0 = 1" "pC s0 = 1"
    using sample_init[of 5] by metis
  note h = s0(1)[unfolded sample_parlour_def] sample_good s0(2)
  obtain s where s: "ring_run parlour_body 1 1 4 s0 = Inr s" using parlour_ring.run_inv[OF init_turn_inv(1)[OF h], of 4] s0(3,4) by auto
  moreover have "customers_sitting s \<le> 1 \<and> (\<forall>j < length [(''Nut'', 5 :: int)]. if snd ([(''Nut'', 5 :: int)] ! j) = -1 then quantity (toppings s ! j) = -1
         else quantity (toppings s ! j) = snd ([(''Nut'', 5)] ! j) - used (orders s) j \<and> 0 \<le> quantity (toppings s ! j))"
    using parlour_books[OF h, of 4 s] s by (simp add: sample_customers_def)
  ultimately show ?thesis using s0(1) by auto
qed

section \<open>How the parlour closes\<close>

lemma customer_body_second: "customer_body c s = Inr s' \<Longrightarrow> customer_id (customers s ! c) = 1 \<Longrightarrow> \<exists>t. s' = next_second t"
  unfolding customer_body_def Let_def by (simp only: bnd_eq_Inr split: if_split_asm) auto

lemma next_second_super: "\<forall>tp \<in> set (toppings (next_second t)). quantity tp = -1 \<Longrightarrow> super (next_second t) = 1"
  by (auto simp: next_second_def Let_def list_all_iff split: if_splits)

text \<open>
  C16. A defect: a parlour whose toppings are all unlimited, or that has none, closes for want of ingredients after the
  first second, whatever has been ordered: no limited topping is left only because there is none.
\<close>

theorem parlour_closes_unlimited:
  assumes init: "parlour_init K mtimes fls tinput cinput = Inr s0" and good: "good_input K mtimes tinput cinput"
    and few: "\<forall>od \<in> set (orders s0). length (topping (oicecream od)) \<le> length tinput"
    and unlimited: "\<forall>tp \<in> set tinput. snd tp = -1"
  shows "\<exists>s. ring_run parlour_body (length mtimes) (length cinput) (length mtimes + length cinput) s0 = Inr s \<and> pticks s = 1 \<and> super s = 1"
proof -
  note I = init_turn_inv[OF init good few]
  let ?B = "length mtimes" and ?C = "length cinput"
  have C: "0 < ?C" using good by (simp add: good_input_def)
  define k where "k = ?B + ?C - 1"
  have k: "?B + ?C = Suc k" using C by (simp add: k_def)
  obtain s where s: "ring_run parlour_body ?B ?C (Suc k) s0 = Inr s" "turn_inv s0 (Suc k) s"
    using parlour_ring.run_inv[OF I(1), of "Suc k"] I(2,3) by auto
  have inv: "pinv s0 (arrived s0 (Suc k)) s" and t: "pticks s = int (Suc k div (?B + ?C))" using s(2) I(2,3) by (auto simp: turn_inv_def)
  have "ring_at ?B ?C k = Customer 0" using ring_at_iff[OF C, of ?B "Customer 0" k] C by (simp add: k_def)
  then obtain s1 where s1: "customer_body 0 s1 = Inr s" "ring_run parlour_body ?B ?C k s0 = Inr s1" using s(1) by (auto simp: bnd_eq_Inr)
  have "customer_id (customers s1 ! 0) = 1"
  proof -
    have "turn_inv s0 k s1" using parlour_ring.run_inv[OF I(1), of k] I(2,3) s1(2) by auto
    then have "customer_id (customers s1 ! 0) = customer_id (customers s0 ! 0)" "parlour_ok s0"
      using staticD(8)[OF pinvD(2), of s0 _ s1 0] pinvD(1) C I(3) by (auto simp: turn_inv_def)
    then show ?thesis using C I(3) by (simp add: parlour_ok_def)
  qed
  then obtain t where t1: "s = next_second t" using customer_body_second[OF s1(1)] by blast
  have "quantity (toppings s ! j) = -1" if "j < length tinput" for j
    using pinvD(11)[OF inv, unfolded stock_ok_def, rule_format, of j] that unlimited I(4) by (simp add: read_toppings_id)
  then have "\<forall>tp \<in> set (toppings s). quantity tp = -1"
    using staticD(2)[OF pinvD(2)[OF inv]] I(4) by (auto simp: in_set_conv_nth read_toppings_id)
  then have "super s = 1" using next_second_super t1 by blast
  then show ?thesis using s(1) t k by simp
qed

theorem parlour_closes_unlimited_witness:
  "\<exists>s0 s. sample_parlour (-1) = Inr s0 \<and> ring_run parlour_body 1 1 2 s0 = Inr s \<and> pticks s = 1 \<and> super s = 1"
proof -
  obtain s0 where s0: "sample_parlour (-1) = Inr s0" "\<forall>od \<in> set (orders s0). length (topping (oicecream od)) \<le> length [(''Nut'', -1 :: int)]"
    using sample_init[of "-1"] by metis
  have "\<forall>tp \<in> set [(''Nut'', -1 :: int)]. snd tp = -1" "length [(0 :: int, 3 :: int)] = 1" "length sample_customers = 1" by (simp_all add: sample_customers_def)
  then show ?thesis
    using parlour_closes_unlimited[OF s0(1)[unfolded sample_parlour_def] sample_good s0(2)] s0(1) by (auto simp: numeral_2_eq_2)
qed

text \<open>A parlour in which nothing moves any more but the clock.\<close>

definition over :: "parlour \<Rightarrow> bool" where
  "over s \<longleftrightarrow> (\<forall>mc \<in> set (machines s). end_time mc < pticks s)
     \<and> (\<forall>cu \<in> set (customers s). leaves cu = 1 \<and> arrival_time cu < pticks s \<and> set (order_id_s cu) \<subseteq> {1..int (length (orders s))})
     \<and> \<not> list_all (\<lambda>tp. quantity tp \<noteq> -1 \<longrightarrow> quantity tp = 0) (toppings s)"

lemma over_later: "over s \<Longrightarrow> pticks s \<le> t \<Longrightarrow> over (s\<lparr>pticks := t\<rparr>)"
  by (fastforce simp: over_def)

lemma over_body:
  assumes "over s" "is_thread (pN s) (pC s) u"
  shows "\<exists>t. parlour_body u s = Inr (s\<lparr>pticks := t\<rparr>) \<and> over (s\<lparr>pticks := t\<rparr>)"
proof (cases u)
  case (Worker m)
  then have m: "machines s ! m \<in> set (machines s)" "m < pN s" using assms(2) by auto
  then have "end_time (machines s ! m) < pticks s" using assms(1) unfolding over_def by blast
  then have "machine_body m s = Inr (s\<lparr>pticks := pticks s\<rparr>)" using m(2) by (simp add: machine_body_def)
  then show ?thesis using Worker assms(1) by (intro exI[of _ "pticks s"]) simp
next
  case (Customer c)
  let ?cu = "customers s ! c"
  have c: "c < pC s" "?cu \<in> set (customers s)" using assms(2) Customer by auto
  have cu: "leaves ?cu = 1" "arrival_time ?cu < pticks s" "set (order_id_s ?cu) \<subseteq> {1..int (length (orders s))}" using assms(1) c(2) by (auto simp: over_def)
  have left: "\<not> list_all (\<lambda>tp. quantity tp \<noteq> -1 \<longrightarrow> quantity tp = 0) (toppings s)" using assms(1) unfolding over_def by blast
  have "customer_collects c s = Inr s" using customer_orders_eq[OF cu(3)] cu(1) by (simp add: customer_collects_def)
  then have "customer_body c s = Inr (s\<lparr>pticks := pticks s + (if customer_id ?cu = 1 then 1 else 0)\<rparr>)"
    using c(1) cu(1,2) left by (simp add: customer_body_def Let_def next_second_def)
  moreover have "over (s\<lparr>pticks := pticks s + (if customer_id ?cu = 1 then 1 else 0)\<rparr>)" using over_later[OF assms(1)] by simp
  ultimately show ?thesis unfolding Customer parlour_body.simps by blast
qed

lemma over_run:
  assumes "ring_run parlour_body B N k s0 = Inr s" "over s" "pN s = B" "pC s = N" "0 < N"
  shows "\<exists>t. ring_run parlour_body B N (k + n) s0 = Inr (s\<lparr>pticks := t\<rparr>) \<and> over (s\<lparr>pticks := t\<rparr>)"
proof (induction n)
  case 0
  then show ?case using assms(1,2) by (intro exI[of _ "pticks s"]) simp
next
  case (Suc n)
  then obtain t where t: "ring_run parlour_body B N (k + n) s0 = Inr (s\<lparr>pticks := t\<rparr>)" "over (s\<lparr>pticks := t\<rparr>)" by blast
  have "is_thread (pN (s\<lparr>pticks := t\<rparr>)) (pC (s\<lparr>pticks := t\<rparr>)) (ring_at B N (k + n))" using ring_at_thread[OF assms(5)] assms(3,4) by simp
  from over_body[OF t(2) this] t(1) show ?case by auto
qed

text \<open>The first turns of the sample parlour, checked one by one.\<close>

definition still_open :: "parlour \<Rightarrow> bool" where
  "still_open s \<longleftrightarrow> orders_considered s \<noteq> int (length (orders s)) \<and> super s \<noteq> 1"

fun open_run :: "nat \<Rightarrow> nat \<Rightarrow> nat \<Rightarrow> nat \<Rightarrow> parlour \<Rightarrow> bool" where
  "open_run B N 0 k s \<longleftrightarrow> still_open s \<and> over s \<and> pN s = B \<and> pC s = N"
| "open_run B N (Suc n) k s \<longleftrightarrow> still_open s \<and> (case parlour_body (ring_at B N k) s of Inl e \<Rightarrow> False | Inr s' \<Rightarrow> open_run B N n (Suc k) s')"

lemma open_run_steps:
  assumes "open_run B N n k s" "ring_run parlour_body B N k s0 = Inr s"
  shows "(\<forall>i \<le> n. \<exists>s'. ring_run parlour_body B N (k + i) s0 = Inr s' \<and> still_open s')
    \<and> (\<exists>s'. ring_run parlour_body B N (k + n) s0 = Inr s' \<and> still_open s' \<and> over s' \<and> pN s' = B \<and> pC s' = N)"
  using assms
proof (induction n arbitrary: k s)
  case (Suc n)
  obtain s' where s': "parlour_body (ring_at B N k) s = Inr s'" "open_run B N n (Suc k) s'" using Suc.prems(1) by (auto split: sum.splits)
  have "ring_run parlour_body B N (Suc k) s0 = Inr s'" using Suc.prems(2) s'(1) by simp
  from Suc.IH[OF s'(2) this] have IH: "\<forall>i \<le> n. \<exists>s'. ring_run parlour_body B N (Suc k + i) s0 = Inr s' \<and> still_open s'"
    "\<exists>s'. ring_run parlour_body B N (Suc k + n) s0 = Inr s' \<and> still_open s' \<and> over s' \<and> pN s' = B \<and> pC s' = N" by blast+
  have "\<exists>s'. ring_run parlour_body B N (k + i) s0 = Inr s' \<and> still_open s'" if "i \<le> Suc n" for i
    using that IH(1)[rule_format, of "i - 1"] Suc.prems by (cases i) auto
  then show ?case using IH(2) by simp
qed simp

lemma sample_open: "case sample_parlour 5 of Inl e \<Rightarrow> False | Inr s0 \<Rightarrow> open_run 1 1 8 0 s0"
  by code_simp

text \<open>
  C17. A defect: the parlour can stay open for ever. When one order of a customer is rejected the customer leaves and its other orders
  are dropped, but those still waiting are not counted as considered. Here one order is rejected, one is being
  prepared and one waits when the customer leaves; whatever the schedule of the threads, the count stops at two of three, and \<open>main\<close>
  never sees the parlour close.
\<close>

theorem parlour_never_closes:
  "\<exists>s0. sample_parlour 5 = Inr s0 \<and> (\<forall>sched. (\<forall>u \<in> set sched. is_thread 1 1 u) \<longrightarrow>
     (\<exists>m. for_each pstep sched (ring_boot s0) = Inr m \<and> \<not> parlour_closed m))"
proof -
  obtain s0 where s0: "sample_parlour 5 = Inr s0" "\<forall>od \<in> set (orders s0). length (topping (oicecream od)) \<le> length [(''Nut'', 5 :: int)]" "pN s0 = 1" "pC s0 = 1"
    using sample_init[of 5] by metis
  note h = s0(1)[unfolded sample_parlour_def] sample_good s0(2)
  have o: "open_run 1 1 8 0 s0" using sample_open s0(1) by simp
  have "\<exists>s'. ring_run parlour_body 1 1 0 s0 = Inr s'" "ring_run parlour_body 1 1 0 s0 = Inr s0" by simp_all
  note O = open_run_steps[OF o this(2)]
  obtain sK where sK: "ring_run parlour_body 1 1 8 s0 = Inr sK" "still_open sK" "over sK" "pN sK = 1" "pC sK = 1" using O by auto
  have all: "still_open s" if "ring_run parlour_body 1 1 k s0 = Inr s" for k s
  proof (cases "k \<le> 8")
    case True
    then show ?thesis using O that by fastforce
  next
    case False
    then obtain t where "ring_run parlour_body 1 1 k s0 = Inr (sK\<lparr>pticks := t\<rparr>)" using over_run[OF sK(1,3-5), of "k - 8"] by auto
    then show ?thesis using that sK(2) by (auto simp: still_open_def)
  qed
  have "\<exists>m. for_each pstep sched (ring_boot s0) = Inr m \<and> \<not> parlour_closed m" if "\<forall>u \<in> set sched. is_thread 1 1 u" for sched
  proof -
    have "\<forall>u \<in> set sched. is_thread (pN s0) (pC s0) u" using that s0(3,4) by simp
    from parlour_ring.schedule_sequential[OF init_turn_inv(1)[OF h] this]
    obtain m k where m: "for_each pstep sched (ring_boot s0) = Inr m" "ring_run parlour_body 1 1 k s0 = Inr (data m)"
      unfolding pstep_def s0(3,4) by auto
    then show ?thesis using all[OF m(2)] by (auto simp: parlour_closed_def still_open_def)
  qed
  then show ?thesis using s0(1) by blast
qed

theorem parlour_never_closes_witness:
  "\<exists>s0 m. sample_parlour 5 = Inr s0 \<and> for_each pstep (replicate 9 (Worker 0) @ replicate 9 (Customer 0)) (ring_boot s0) = Inr m \<and> \<not> parlour_closed m"
proof -
  have "\<forall>u \<in> set (replicate 9 (Worker 0) @ replicate 9 (Customer 0)). is_thread 1 1 u" by simp
  then show ?thesis using parlour_never_closes by blast
qed

end
