(* ===== verification/Sh.thy ===== *)
theory Sh
  imports Sysfile Ulib
begin

unbundle bit_operations_syntax

text \<open>
  The shell, \<^verbatim>\<open>user/sh.c\<close>: the recursive-descent parser that works in place on the line read, \<open>runcmd\<close>, and the loop of
  \<open>main\<close>.

  The line \<open>l\<close> is the characters before the terminating NUL, so \<open>es\<close> is \<open>length l\<close>; a pointer into it is an index. \<open>Panic\<close> is
  the shell's own \<open>panic\<close>, which prints and exits. The memory for a command is taken to be available (\<open>malloc\<close> is never
  checked in the source). A parser function has a fuel argument, and running out of fuel is a \<open>Fault\<close>; \<open>parsecmd\<close> starts with
  \<open>4 * length l + 4\<close>, which \<open>Sh_Parse\<close> shows to be enough for every line.
\<close>

section \<open>Commands\<close>

text \<open>A word is a pair of pointers \<open>q\<close>, \<open>eq\<close> in the parser and a string when the command runs.\<close>

datatype 'w cmd =
    EXEC "'w list"
  | REDIR "'w cmd" 'w int int  \<comment> \<open>command, file, mode, descriptor\<close>
  | PIPE "'w cmd" "'w cmd"
  | LIST "'w cmd" "'w cmd"
  | BACK "'w cmd"

type_synonym pcmd = "(nat \<times> nat) cmd"

definition MAXARGS :: nat where
  "MAXARGS = 10"

section \<open>Tokens\<close>

definition whitespace :: string where
  "whitespace = [CHR '' '', CHR 0x09, CHR 0x0D, CHR 0x0A, CHR 0x0B]"

definition symbols :: string where
  "symbols = ''<|>&;()''"

text \<open>\<open>strchr\<close> used as a test, on a string constant.\<close>

definition in_str :: "string \<Rightarrow> char \<Rightarrow> bool" where
  "in_str t c \<longleftrightarrow> strchr (t @ [NUL]) 0 c \<noteq> None"

definition chr_at :: "string \<Rightarrow> nat \<Rightarrow> char" where
  "chr_at l s = (if s < length l then l ! s else NUL)"

text \<open>\<open>while(s < es && \<dots>) s++\<close>\<close>

definition scan :: "(char \<Rightarrow> bool) \<Rightarrow> string \<Rightarrow> nat \<Rightarrow> nat" where
  "scan p l s = s + length (takeWhile p (drop s l))"

definition word_char :: "char \<Rightarrow> bool" where
  "word_char c \<longleftrightarrow> \<not> in_str whitespace c \<and> \<not> in_str symbols c"

text \<open>The result, \<open>*q\<close>, \<open>*eq\<close> and the new \<open>*ps\<close>.\<close>

definition gettoken :: "string \<Rightarrow> nat \<Rightarrow> char \<times> nat \<times> nat \<times> nat" where
  "gettoken l ps =
     (let q = scan (in_str whitespace) l ps;
          c = chr_at l q;
          (rcmd, eq) =
            (if c = NUL then (c, q)
             else if c \<in> set ''|();&<'' then (c, q + 1)
             else if c = CHR ''>'' then (if chr_at l (q + 1) = CHR ''>'' then (CHR ''+'', q + 2) else (c, q + 1))
             else (CHR ''a'', scan word_char l q))
      in (rcmd, q, eq, scan (in_str whitespace) l eq))"

definition peek :: "string \<Rightarrow> nat \<Rightarrow> string \<Rightarrow> bool \<times> nat" where
  "peek l ps toks =
     (let s = scan (in_str whitespace) l ps in (chr_at l s \<noteq> NUL \<and> in_str toks (chr_at l s), s))"

section \<open>The parser\<close>

fun parseredirs :: "nat \<Rightarrow> pcmd \<Rightarrow> string \<Rightarrow> nat \<Rightarrow> (pcmd \<times> nat) result" where
  "parseredirs 0 cmd l s = Inl (Fault ''fuel'')"
| "parseredirs (Suc n) cmd l s =
     (case peek l s ''<>'' of
        (False, s) \<Rightarrow> Inr (cmd, s)
      | (True, s) \<Rightarrow>
          let (tok, _, _, s) = gettoken l s; (tok2, q, eq, s) = gettoken l s in
          if tok2 \<noteq> CHR ''a'' then Inl (Panic ''missing file for redirection'')
          else
            parseredirs n
              (if tok = CHR ''<'' then REDIR cmd (q, eq) O_RDONLY 0
               else if tok = CHR ''>'' then REDIR cmd (q, eq) (O_WRONLY OR O_CREATE OR O_TRUNC) 1
               else if tok = CHR ''+'' then REDIR cmd (q, eq) (O_WRONLY OR O_CREATE) 1
               else cmd) l s)"

text \<open>
  The store \<open>cmd->argv[argc] = q\<close> in \<open>parseexec\<close> reaches the \<open>execcmd\<close> at the bottom of the redirections that
  have been put round it meanwhile.
\<close>

fun set_argv :: "(nat \<times> nat) list \<Rightarrow> pcmd \<Rightarrow> pcmd" where
  "set_argv ws (EXEC _) = EXEC ws"
| "set_argv ws (REDIR c w m fd) = REDIR (set_argv ws c) w m fd"
| "set_argv ws c = c"

fun exec_words :: "nat \<Rightarrow> (nat \<times> nat) list \<Rightarrow> pcmd \<Rightarrow> string \<Rightarrow> nat \<Rightarrow> (pcmd \<times> nat) result" where
  "exec_words 0 ws rcmd l s = Inl (Fault ''fuel'')"
| "exec_words (Suc n) ws rcmd l s =
     (case peek l s ''|)&;'' of
        (True, s) \<Rightarrow> Inr (rcmd, s)
      | (False, s) \<Rightarrow>
          let (tok, q, eq, s) = gettoken l s in
          if tok = NUL then Inr (rcmd, s)
          else if tok \<noteq> CHR ''a'' then Inl (Panic ''syntax'')
          else
            let ws = ws @ [(q, eq)]; rcmd = set_argv ws rcmd in
            if length ws \<ge> MAXARGS then Inl (Panic ''too many args'')
            else bnd (parseredirs n rcmd l s) (\<lambda>(rcmd, s). exec_words n ws rcmd l s))"

text \<open>The loop of \<open>parseline\<close> over ampersands.\<close>

fun line_back :: "nat \<Rightarrow> pcmd \<Rightarrow> string \<Rightarrow> nat \<Rightarrow> (pcmd \<times> nat) result" where
  "line_back 0 cmd l s = Inl (Fault ''fuel'')"
| "line_back (Suc n) cmd l s =
     (case peek l s ''&'' of
        (True, s) \<Rightarrow> let (_, _, _, s) = gettoken l s in line_back n (BACK cmd) l s
      | (False, s) \<Rightarrow> Inr (cmd, s))"

fun parseline :: "nat \<Rightarrow> string \<Rightarrow> nat \<Rightarrow> (pcmd \<times> nat) result"
  and parsepipe :: "nat \<Rightarrow> string \<Rightarrow> nat \<Rightarrow> (pcmd \<times> nat) result"
  and parseexec :: "nat \<Rightarrow> string \<Rightarrow> nat \<Rightarrow> (pcmd \<times> nat) result"
  and parseblock :: "nat \<Rightarrow> string \<Rightarrow> nat \<Rightarrow> (pcmd \<times> nat) result" where
  "parseline 0 l s = Inl (Fault ''fuel'')"
| "parseline (Suc n) l s =
     bnd (parsepipe n l s) (\<lambda>(cmd, s).
     bnd (line_back n cmd l s) (\<lambda>(cmd, s).
     case peek l s '';'' of
       (True, s) \<Rightarrow>
         let (_, _, _, s) = gettoken l s in
         bnd (parseline n l s) (\<lambda>(right, s). Inr (LIST cmd right, s))
     | (False, s) \<Rightarrow> Inr (cmd, s)))"
| "parsepipe 0 l s = Inl (Fault ''fuel'')"
| "parsepipe (Suc n) l s =
     bnd (parseexec n l s) (\<lambda>(cmd, s).
     case peek l s ''|'' of
       (True, s) \<Rightarrow>
         let (_, _, _, s) = gettoken l s in
         bnd (parsepipe n l s) (\<lambda>(right, s). Inr (PIPE cmd right, s))
     | (False, s) \<Rightarrow> Inr (cmd, s))"
| "parseexec 0 l s = Inl (Fault ''fuel'')"
| "parseexec (Suc n) l s =
     (case peek l s ''('' of
        (True, s) \<Rightarrow> parseblock n l s
      | (False, s) \<Rightarrow> bnd (parseredirs n (EXEC []) l s) (\<lambda>(rcmd, s). exec_words n [] rcmd l s))"
| "parseblock 0 l s = Inl (Fault ''fuel'')"
| "parseblock (Suc n) l s =
     (case peek l s ''('' of
        (False, s) \<Rightarrow> Inl (Panic ''parseblock'')
      | (True, s) \<Rightarrow>
          let (_, _, _, s) = gettoken l s in
          bnd (parseline n l s) (\<lambda>(cmd, s).
          case peek l s '')'' of
            (False, s) \<Rightarrow> Inl (Panic ''syntax - missing )'')
          | (True, s) \<Rightarrow>
              let (_, _, _, s) = gettoken l s in
              parseredirs n cmd l s))"

text \<open>\<open>nulterminate\<close> writes into the buffer of the line.\<close>

fun nulterminate :: "pcmd \<Rightarrow> char list \<Rightarrow> char list result" where
  "nulterminate (EXEC ws) b = for_each (\<lambda>w b. put_at b (snd w) NUL) ws b"
| "nulterminate (REDIR c w m fd) b = bnd (nulterminate c b) (\<lambda>b. put_at b (snd w) NUL)"
| "nulterminate (PIPE l r) b = bnd (nulterminate l b) (nulterminate r)"
| "nulterminate (LIST l r) b = bnd (nulterminate l b) (nulterminate r)"
| "nulterminate (BACK c) b = nulterminate c b"

text \<open>\<open>parsecmd\<close> returns the command and the buffer its pointers point into.\<close>

definition parsecmd :: "string \<Rightarrow> (pcmd \<times> char list) result" where
  "parsecmd l =
     bnd (parseline (4 * length l + 4) l 0) (\<lambda>(cmd, s).
     let (_, s) = peek l s [] in
     if s \<noteq> length l then Inl (Panic ''syntax'')
     else bnd (nulterminate cmd (l @ [NUL])) (\<lambda>b. Inr (cmd, b)))"

text \<open>The command as \<open>runcmd\<close> sees it: each pointer is the C string it points to.\<close>

definition strings_of :: "pcmd \<times> char list \<Rightarrow> string cmd" where
  "strings_of = (\<lambda>(cmd, b). map_cmd (\<lambda>w. cstr b (fst w)) cmd)"

section \<open>Running a command\<close>

text \<open>
  What a process does from some point on: system calls, each with what follows it for every answer. \<open>Fork child parent\<close> has the
  child's part and the parent's for success and failure; \<open>Exec\<close> has what happens when \<open>exec\<close> fails.
\<close>

datatype act =
    Exit int
  | Exec string "string list" act
  | Close int act
  | Open string int "int \<Rightarrow> act"
  | MkPipe "(int \<times> int) option \<Rightarrow> act"
  | Dup int act
  | Fork act "bool \<Rightarrow> act"
  | Wait act
  | Eprint string act

definition sh_panic :: "string \<Rightarrow> act" where
  "sh_panic s = Eprint (s @ [newline]) (Exit 1)"

definition fork1 :: "act \<Rightarrow> act \<Rightarrow> act" where
  "fork1 child par = Fork child (\<lambda>ok. if ok then par else sh_panic ''fork'')"

primrec runcmd :: "string cmd \<Rightarrow> act" where
  "runcmd (EXEC argv) = (case argv of [] \<Rightarrow> Exit 1
     | a # _ \<Rightarrow> Exec a argv (Eprint (''exec '' @ a @ '' failed'' @ [newline]) (Exit 0)))"
| "runcmd (REDIR c f m fd) =
     Close fd (Open f m (\<lambda>r. if r < 0 then Eprint (''open '' @ f @ '' failed'' @ [newline]) (Exit 1) else runcmd c))"
| "runcmd (LIST l r) = fork1 (runcmd l) (Wait (runcmd r))"
| "runcmd (PIPE l r) = MkPipe (\<lambda>p. case p of None \<Rightarrow> sh_panic ''pipe''
     | Some (p0, p1) \<Rightarrow>
         fork1 (Close 1 (Dup p1 (Close p0 (Close p1 (runcmd l)))))
         (fork1 (Close 0 (Dup p0 (Close p0 (Close p1 (runcmd r)))))
         (Close p0 (Close p1 (Wait (Wait (Exit 0)))))))"
| "runcmd (BACK c) = fork1 (runcmd c) (Exit 0)"

section \<open>The loop of main\<close>

text \<open>\<open>getcmd\<close> on what is left of the standard input; the prompt goes to the standard error.\<close>

definition getcmd :: "char list \<Rightarrow> string \<Rightarrow> (int \<times> char list \<times> string) result" where
  "getcmd buf inp =
     bnd (Ulib.memset buf 0 NUL (length buf)) (\<lambda>buf.
     bnd (gets buf (int (length buf)) inp) (\<lambda>(buf, inp).
     Inr (if chr_at buf 0 = NUL then -1 else 0, buf, inp)))"

datatype job = Chdir string | Job "(pcmd \<times> char list) result"

text \<open>One line: a \<open>cd\<close> by the shell itself, or a child that parses and runs it.\<close>

definition sh_line :: "char list \<Rightarrow> job result" where
  "sh_line buf =
     (if chr_at buf 0 = CHR ''c'' \<and> chr_at buf 1 = CHR ''d'' \<and> chr_at buf 2 = CHR '' '' then
        bnd (put_at buf (length (cstr buf 0) - 1) NUL) (\<lambda>buf. Inr (Chdir (cstr buf 3)))
      else Inr (Job (parsecmd (cstr buf 0))))"

fun sh_loop :: "nat \<Rightarrow> char list \<Rightarrow> string \<Rightarrow> job list result" where
  "sh_loop 0 buf inp = Inl (Fault ''fuel'')"
| "sh_loop (Suc n) buf inp =
     bnd (getcmd buf inp) (\<lambda>(r, buf, inp).
     if r < 0 then Inr []
     else bnd (sh_line buf) (\<lambda>j. bnd (sh_loop n buf inp) (\<lambda>js. Inr (j # js))))"

text \<open>\<open>main\<close> after its three descriptors are open: the jobs of an input, which ends with the end of file.\<close>

definition sh_main :: "string \<Rightarrow> job list result" where
  "sh_main inp = sh_loop (length inp + 1) (replicate 100 NUL) inp"

end
