(* ===== verification/Sh_Parse.thy ===== *)
theory Sh_Parse
  imports Sh
begin

text \<open>
  The parser of the shell on an arbitrary line: every function ends within its fuel, moves its pointer forwards and inside
  the line, and collects only whole words of the line; hence writing the NULs leaves each word as it was read.
\<close>

section \<open>Characters and tokens\<close>

lemma in_str_iff: "NUL \<notin> set t \<Longrightarrow> in_str t c \<longleftrightarrow> c \<in> set t"
proof -
  assume "NUL \<notin> set t"
  then have "strchr_in (t @ [NUL]) i c \<noteq> None \<longleftrightarrow> c \<in> set t" for i
    by (induction t arbitrary: i) auto
  then show ?thesis by (simp add: in_str_def strchr_def)
qed

lemma in_whitespace: "in_str whitespace c \<longleftrightarrow> c \<in> set whitespace"
  by (rule in_str_iff) (simp add: whitespace_def)

lemma in_symbols: "in_str symbols c \<longleftrightarrow> c \<in> set symbols"
  by (rule in_str_iff) (simp add: symbols_def)

lemma word_char_iff: "word_char c \<longleftrightarrow> c \<notin> set whitespace \<and> c \<notin> set symbols"
  by (simp add: word_char_def in_whitespace in_symbols)

lemma scan_ge: "s \<le> scan p l s"
  by (simp add: scan_def)

lemma scan_le: "s \<le> length l \<Longrightarrow> scan p l s \<le> length l"
  using length_takeWhile_le[of p "drop s l"] by (simp add: scan_def)

lemma scan_all: "s \<le> i \<Longrightarrow> i < scan p l s \<Longrightarrow> p (l ! i)"
proof -
  assume i: "s \<le> i" "i < scan p l s"
  let ?w = "takeWhile p (drop s l)"
  have k: "i - s < length ?w" using i by (simp add: scan_def)
  then have "s + (i - s) < length l" using length_takeWhile_le[of p "drop s l"] by simp
  then have "l ! i = ?w ! (i - s)" using takeWhile_nth[OF k] i by simp
  then show "p (l ! i)" using set_takeWhileD[of "?w ! (i - s)" p "drop s l"] nth_mem[OF k] by simp
qed

lemma scan_stop: "scan p l s < length l \<Longrightarrow> \<not> p (l ! scan p l s)"
proof -
  assume a: "scan p l s < length l"
  then have "length (takeWhile p (drop s l)) < length (drop s l)" by (simp add: scan_def)
  from nth_length_takeWhile[OF this] show ?thesis using a by (simp add: scan_def)
qed

text \<open>A whole word of the line, as a pair of pointers.\<close>

definition whole_word :: "string \<Rightarrow> nat \<times> nat \<Rightarrow> bool" where
  "whole_word l w \<longleftrightarrow> fst w < snd w \<and> snd w \<le> length l \<and> (\<forall>i. fst w \<le> i \<and> i < snd w \<longrightarrow> word_char (l ! i))
     \<and> (snd w < length l \<longrightarrow> \<not> word_char (l ! snd w))"

lemma gettoken_pos:
  assumes "s \<le> length l" "gettoken l s = (tok, q, eq, s')"
  shows "s \<le> q" "q \<le> eq" "eq \<le> s'" "s' \<le> length l" "tok \<noteq> NUL \<Longrightarrow> q < eq" "tok = CHR ''a'' \<Longrightarrow> whole_word l (q, eq)"
proof -
  let ?q = "scan (in_str whitespace) l s" and ?c = "chr_at l (scan (in_str whitespace) l s)"
  have q: "q = ?q" "s \<le> q" "q \<le> length l" using assms scan_ge[of s "in_str whitespace" l] scan_le[OF assms(1), of "in_str whitespace"]
    by (auto simp: gettoken_def Let_def split: if_splits)
  have w: "?c \<noteq> NUL \<Longrightarrow> q < length l \<and> l ! q = ?c \<and> ?c \<notin> set whitespace"
    using q(3) scan_stop[of "in_str whitespace" l s] by (auto simp: chr_at_def q(1) in_whitespace split: if_splits)
  have a: "q < scan word_char l q \<and> whole_word l (q, scan word_char l q)" if "?c \<noteq> NUL" "?c \<notin> set ''|();&<''" "?c \<noteq> CHR ''>''"
  proof -
    have "word_char (l ! q)" using that w by (auto simp: word_char_iff symbols_def)
    then have "q < scan word_char l q" using scan_stop[of word_char l q] scan_ge[of q word_char l] w[OF that(1)] by (cases "scan word_char l q = q") auto
    then show ?thesis using scan_le[OF q(3), of word_char] scan_stop[of word_char l q] scan_all[of q _ word_char l] by (auto simp: whole_word_def)
  qed
  have e: "q \<le> eq \<and> eq \<le> length l \<and> (tok \<noteq> NUL \<longrightarrow> q < eq) \<and> (tok = CHR ''a'' \<longrightarrow> whole_word l (q, eq))"
  proof (cases "?c = NUL \<or> ?c \<in> set ''|();&<'' \<or> ?c = CHR ''>''")
    case True
    then consider "?c = NUL" | "?c \<in> set ''|();&<''" "?c \<noteq> NUL" | "?c = CHR ''>''" by blast
    then show ?thesis
    proof cases
      case 1
      then have "tok = NUL" "eq = q" using assms(2) unfolding gettoken_def Let_def q(1)[symmetric] by simp_all
      then show ?thesis using q(3) by simp
    next
      case 2
      then have "tok = ?c" "eq = q + 1" using assms(2) unfolding gettoken_def Let_def q(1)[symmetric] by simp_all
      moreover have "?c \<noteq> CHR ''a''" using 2(1) by auto
      ultimately show ?thesis using w[OF 2(2)] by simp
    next
      case 3
      have q1: "q < length l" using w 3 by simp
      show ?thesis
      proof (cases "chr_at l (q + 1) = CHR ''>''")
        case True
        then have "tok = CHR ''+''" "eq = q + 2" using assms(2) 3 unfolding gettoken_def Let_def q(1)[symmetric] by simp_all
        then show ?thesis using True by (simp add: chr_at_def split: if_splits)
      next
        case False
        then have "tok = CHR ''>''" "eq = q + 1" using assms(2) 3 unfolding gettoken_def Let_def q(1)[symmetric] by simp_all
        then show ?thesis using q1 by simp
      qed
    qed
  next
    case False
    then have "eq = scan word_char l q" "tok = CHR ''a''" using assms(2) unfolding gettoken_def Let_def q(1)[symmetric] by simp_all
    then show ?thesis using a False scan_le[OF q(3), of word_char] by simp
  qed
  have s: "s' = scan (in_str whitespace) l eq" using assms(2) by (auto simp: gettoken_def Let_def split: if_splits)
  show "s \<le> q" "q \<le> eq" "eq \<le> s'" "s' \<le> length l" "tok \<noteq> NUL \<Longrightarrow> q < eq" "tok = CHR ''a'' \<Longrightarrow> whole_word l (q, eq)"
    using q(2) e s scan_ge[of eq "in_str whitespace" l] scan_le[of eq l "in_str whitespace"] by auto
qed

lemma peek_pos:
  assumes "s \<le> length l" "peek l s toks = (b, s')"
  shows "s \<le> s'" "s' \<le> length l" "b \<Longrightarrow> s' < length l \<and> in_str toks (l ! s') \<and> l ! s' \<notin> set whitespace \<and> l ! s' \<noteq> NUL"
  using assms scan_ge[of s "in_str whitespace" l] scan_le[OF assms(1), of "in_str whitespace"] scan_stop[of "in_str whitespace" l s]
  by (auto simp: peek_def Let_def chr_at_def in_whitespace split: if_splits)

lemma scan_here: "s < length l \<Longrightarrow> \<not> p (l ! s) \<Longrightarrow> scan p l s = s"
  by (simp add: scan_def flip: Cons_nth_drop_Suc)

text \<open>A token that \<open>peek\<close> has seen is there, so \<open>gettoken\<close> moves on.\<close>

lemma peeked_token:
  assumes "s \<le> length l" "peek l s toks = (True, s')" "gettoken l s' = (tok, q, eq, s'')"
  shows "s < s''" "s'' \<le> length l" "tok \<noteq> NUL"
proof -
  have p: "s \<le> s'" "s' < length l" "l ! s' \<notin> set whitespace" "l ! s' \<noteq> NUL" using peek_pos[OF assms(1,2)] by auto
  then have "scan (in_str whitespace) l s' = s'" by (simp add: scan_here in_whitespace)
  then show tok: "tok \<noteq> NUL" using assms(3) p by (auto simp: gettoken_def Let_def chr_at_def split: if_splits)
  show "s < s''" "s'' \<le> length l" using gettoken_pos[OF _ assms(3)] p(1,2) tok by fastforce+
qed

section \<open>Every parse ends\<close>

definition sh_errors :: "error set" where
  "sh_errors = Panic ` {''missing file for redirection'', ''syntax'', ''too many args'', ''parseblock'', ''syntax - missing )''}"

text \<open>A good outcome of a parser function called at \<open>s\<close>.\<close>

definition parsed :: "string \<Rightarrow> nat \<Rightarrow> (pcmd \<times> nat) result \<Rightarrow> bool" where
  "parsed l s r \<longleftrightarrow> (case r of Inl e \<Rightarrow> e \<in> sh_errors
     | Inr (cmd, s') \<Rightarrow> s \<le> s' \<and> s' \<le> length l \<and> (\<forall>w \<in> set_cmd cmd. whole_word l w))"

lemma parsed_Inr [simp]: "parsed l s (Inr (cmd, s')) \<longleftrightarrow> s \<le> s' \<and> s' \<le> length l \<and> (\<forall>w \<in> set_cmd cmd. whole_word l w)"
  by (simp add: parsed_def)

lemma parsed_Panic: "msg \<in> {''missing file for redirection'', ''syntax'', ''too many args'', ''parseblock'', ''syntax - missing )''} \<Longrightarrow> parsed l s (Inl (Panic msg))"
  by (simp add: parsed_def sh_errors_def image_iff)

lemma parsed_bnd:
  assumes "parsed l s r" "\<And>cmd s'. s \<le> s' \<Longrightarrow> s' \<le> length l \<Longrightarrow> \<forall>w \<in> set_cmd cmd. whole_word l w \<Longrightarrow> parsed l s (f (cmd, s'))"
  shows "parsed l s (bnd r f)"
proof (cases r)
  case (Inr x)
  then show ?thesis using assms by (cases x) simp
qed (use assms(1) in \<open>simp add: parsed_def\<close>)

lemma parsed_mono: "parsed l s' r \<Longrightarrow> s \<le> s' \<Longrightarrow> parsed l s r"
  by (auto simp: parsed_def split: sum.splits)

lemma parseredirs_parsed:
  "s \<le> length l \<Longrightarrow> length l - s < n \<Longrightarrow> \<forall>w \<in> set_cmd cmd. whole_word l w \<Longrightarrow> parsed l s (parseredirs n cmd l s)"
proof (induction n arbitrary: cmd s)
  case (Suc n)
  obtain b s1 where p: "peek l s ''<>'' = (b, s1)" by fastforce
  show ?case
  proof (cases b)
    case False
    then show ?thesis using p peek_pos[OF Suc.prems(1) p] Suc.prems(3) by simp
  next
    case True
    obtain tok q eq s2 where g: "gettoken l s1 = (tok, q, eq, s2)" using prod_cases4 by blast
    obtain tok2 q2 eq2 s3 where g2: "gettoken l s2 = (tok2, q2, eq2, s3)" using prod_cases4 by blast
    have s2: "s < s2" "s2 \<le> length l" using peeked_token[OF Suc.prems(1) _ g] p True by auto
    note t = gettoken_pos[OF s2(2) g2]
    have "parsed l s (parseredirs n c l s3)" if "tok2 = CHR ''a''" "set_cmd c \<subseteq> insert (q2, eq2) (set_cmd cmd)" for c
    proof (rule parsed_mono[of l s3])
      have "length l - s3 < n" "\<forall>w \<in> set_cmd c. whole_word l w" using Suc.prems(2,3) that t(1-3) t(6) s2 by auto
      then show "parsed l s3 (parseredirs n c l s3)" using Suc.IH[OF t(4)] by blast
    qed (use t s2 in simp)
    then show ?thesis using p g g2 True parsed_Panic by (auto simp: Let_def)
  qed
qed simp

lemma set_argv_words: "set_cmd (set_argv ws c) \<subseteq> set ws \<union> set_cmd c"
  by (induction ws c rule: set_argv.induct) auto

lemma exec_words_parsed:
  "s \<le> length l \<Longrightarrow> length l - s < n \<Longrightarrow> \<forall>w \<in> set ws \<union> set_cmd cmd. whole_word l w \<Longrightarrow> parsed l s (exec_words n ws cmd l s)"
proof (induction n arbitrary: ws cmd s)
  case (Suc n)
  obtain b s1 where p: "peek l s ''|)&;'' = (b, s1)" by fastforce
  note s1 = peek_pos[OF Suc.prems(1) p]
  obtain tok q eq s2 where g: "gettoken l s1 = (tok, q, eq, s2)" using prod_cases4 by blast
  note s2 = gettoken_pos[OF s1(2) g]
  let ?ws = "ws @ [(q, eq)]"
  have "parsed l s (bnd (parseredirs n (set_argv ?ws cmd) l s2) (\<lambda>(cmd, s). exec_words n ?ws cmd l s))" if a: "tok = CHR ''a''"
  proof -
    have adv: "s < s2" "s2 \<le> length l" "length l - s2 < n" using s1 s2 a Suc.prems(2) by auto
    have w: "\<forall>w \<in> set ?ws \<union> set_cmd (set_argv ?ws cmd). whole_word l w" using s2(6)[OF a] Suc.prems(3) set_argv_words[of ?ws cmd] by auto
    then have r: "parsed l s2 (parseredirs n (set_argv ?ws cmd) l s2)" using parseredirs_parsed[OF adv(2,3)] by auto
    have "parsed l s2 (bnd (parseredirs n (set_argv ?ws cmd) l s2) (\<lambda>(cmd, s). exec_words n ?ws cmd l s))"
    proof (rule parsed_bnd[OF r])
      fix c s3
      assume "s2 \<le> s3" "s3 \<le> length l" "\<forall>w \<in> set_cmd c. whole_word l w"
      then have "parsed l s3 (exec_words n ?ws c l s3)" using Suc.IH[of s3 ?ws c] w adv(3) by (simp add: ball_Un)
      then show "parsed l s2 (case (c, s3) of (cmd, s) \<Rightarrow> exec_words n ?ws cmd l s)" using parsed_mono \<open>s2 \<le> s3\<close> by simp
    qed
    then show ?thesis by (rule parsed_mono) (use adv(1) in simp)
  qed
  then show ?case using p g s1 s2 Suc.prems(3) parsed_Panic by (cases b) (auto simp: Let_def)
qed simp

lemma line_back_parsed:
  "s \<le> length l \<Longrightarrow> length l - s < n \<Longrightarrow> \<forall>w \<in> set_cmd cmd. whole_word l w \<Longrightarrow> parsed l s (line_back n cmd l s)"
proof (induction n arbitrary: cmd s)
  case (Suc n)
  obtain b s1 where p: "peek l s ''&'' = (b, s1)" by fastforce
  note s1 = peek_pos[OF Suc.prems(1) p]
  obtain tok q eq s2 where g: "gettoken l s1 = (tok, q, eq, s2)" using prod_cases4 by blast
  have "parsed l s (line_back n (BACK cmd) l s2)" if b
  proof -
    have "peek l s ''&'' = (True, s1)" using p that by simp
    note t = peeked_token[OF Suc.prems(1) this g]
    have "parsed l s2 (line_back n (BACK cmd) l s2)" using Suc.IH[of s2 "BACK cmd"] t Suc.prems by simp
    then show ?thesis using parsed_mono t(1) by (metis less_imp_le)
  qed
  then show ?case using p g s1 Suc.prems(3) by (cases b) auto
qed simp

text \<open>One case of a parser function: the expected token is there and is taken, or it is not.\<close>

lemma parsed_case:
  assumes "s \<le> length l"
    and "\<And>s1. s \<le> s1 \<Longrightarrow> s1 \<le> length l \<Longrightarrow> parsed l s (no s1)"
    and "\<And>s2. s < s2 \<Longrightarrow> s2 \<le> length l \<Longrightarrow> parsed l s2 (yes s2)"
  shows "parsed l s (case peek l s toks of (True, s1) \<Rightarrow> let (_, _, _, s2) = gettoken l s1 in yes s2 | (False, s1) \<Rightarrow> no s1)"
proof -
  obtain b s1 where p: "peek l s toks = (b, s1)" by fastforce
  obtain tok q eq s2 where g: "gettoken l s1 = (tok, q, eq, s2)" using prod_cases4 by blast
  show ?thesis
  proof (cases b)
    case True
    then have "peek l s toks = (True, s1)" using p by simp
    note t = peeked_token[OF assms(1) this g]
    have "parsed l s (yes s2)" by (rule parsed_mono[OF assms(3)[OF t(1,2)]]) (use t in simp)
    then show ?thesis using p g True by simp
  next
    case False
    then show ?thesis using p assms(2)[of s1] peek_pos[OF assms(1) p] by simp
  qed
qed

lemma parser_parsed:
  assumes "s \<le> length l"
  shows "(4 * (length l - s) + 4 \<le> n \<longrightarrow> parsed l s (parseline n l s)) \<and> (4 * (length l - s) + 3 \<le> n \<longrightarrow> parsed l s (parsepipe n l s))
    \<and> (4 * (length l - s) + 2 \<le> n \<longrightarrow> parsed l s (parseexec n l s)) \<and> (4 * (length l - s) + 1 \<le> n \<longrightarrow> parsed l s (parseblock n l s))"
  using assms
proof (induction n arbitrary: s)
  case (Suc n)
  note s = Suc.prems
  have IHl: "parsed l s' (parseline n l s')" if "s < s'" "s' \<le> length l" "4 * (length l - s) \<le> n" for s'
    using Suc.IH[of s'] that by simp
  have IHp: "parsed l s' (parsepipe n l s')" if "s < s'" "s' \<le> length l" "4 * (length l - s) \<le> n + 1" for s'
    using Suc.IH[of s'] that by simp
  have line: "parsed l s (parseline (Suc n) l s)" if m: "4 * (length l - s) + 4 \<le> Suc n"
  proof -
    have "parsed l s (parsepipe n l s)" using Suc.IH[OF s] m by simp
    then show ?thesis unfolding parseline.simps
    proof (rule parsed_bnd, simp)
      fix c s1
      assume 1: "s \<le> s1" "s1 \<le> length l" "\<forall>w \<in> set_cmd c. whole_word l w"
      have "parsed l s (line_back n c l s1)" by (rule parsed_mono[OF line_back_parsed[OF 1(2) _ 1(3)] 1(1)]) (use m 1(1) in simp)
      then show "parsed l s (bnd (line_back n c l s1) (\<lambda>(cmd, s). case peek l s '';'' of (True, s) \<Rightarrow> let (_, _, _, s) = gettoken l s in
          bnd (parseline n l s) (\<lambda>(right, s). Inr (LIST cmd right, s)) | (False, s) \<Rightarrow> Inr (cmd, s)))"
      proof (rule parsed_bnd, simp)
        fix c s2
        assume 2: "s \<le> s2" "s2 \<le> length l" "\<forall>w \<in> set_cmd c. whole_word l w"
        have "parsed l s3 (bnd (parseline n l s3) (\<lambda>(right, s). Inr (LIST c right, s)))" if "s2 < s3" "s3 \<le> length l" for s3
          by (rule parsed_bnd[OF IHl]) (use that 2 m in auto)
        then show "parsed l s (case peek l s2 '';'' of (True, s) \<Rightarrow> let (_, _, _, s) = gettoken l s in
            bnd (parseline n l s) (\<lambda>(right, s). Inr (LIST c right, s)) | (False, s) \<Rightarrow> Inr (c, s))"
          using 2 by (intro parsed_mono[OF parsed_case]) auto
      qed
    qed
  qed
  have pipe: "parsed l s (parsepipe (Suc n) l s)" if m: "4 * (length l - s) + 3 \<le> Suc n"
  proof -
    have "parsed l s (parseexec n l s)" using Suc.IH[OF s] m by simp
    then show ?thesis unfolding parsepipe.simps
    proof (rule parsed_bnd, simp)
      fix c s2
      assume 2: "s \<le> s2" "s2 \<le> length l" "\<forall>w \<in> set_cmd c. whole_word l w"
      have "parsed l s3 (bnd (parsepipe n l s3) (\<lambda>(right, s). Inr (PIPE c right, s)))" if "s2 < s3" "s3 \<le> length l" for s3
        by (rule parsed_bnd[OF IHp]) (use that 2 m in auto)
      then show "parsed l s (case peek l s2 ''|'' of (True, s) \<Rightarrow> let (_, _, _, s) = gettoken l s in
          bnd (parsepipe n l s) (\<lambda>(right, s). Inr (PIPE c right, s)) | (False, s) \<Rightarrow> Inr (c, s))"
        using 2 by (intro parsed_mono[OF parsed_case]) auto
    qed
  qed
  have exec: "parsed l s (parseexec (Suc n) l s)" if m: "4 * (length l - s) + 2 \<le> Suc n"
  proof -
    obtain b s1 where p: "peek l s ''('' = (b, s1)" by fastforce
    note s1 = peek_pos[OF s p]
    have r: "parsed l s1 (parseredirs n (EXEC []) l s1)" using parseredirs_parsed[OF s1(2)] m s1(1) by simp
    have "parsed l s1 (bnd (parseredirs n (EXEC []) l s1) (\<lambda>(rcmd, s). exec_words n [] rcmd l s))"
    proof (rule parsed_bnd[OF r], simp)
      fix c s2
      assume 2: "s1 \<le> s2" "s2 \<le> length l" "\<forall>w \<in> set_cmd c. whole_word l w"
      show "parsed l s1 (exec_words n [] c l s2)" by (rule parsed_mono[OF exec_words_parsed 2(1)]) (use 2 m s1(1) in simp_all)
    qed
    moreover have "parsed l s1 (parseblock n l s1)" using Suc.IH[OF s1(2)] m s1(1) by simp
    ultimately have "parsed l s1 (parseexec (Suc n) l s)" using p by (cases b) auto
    then show ?thesis using parsed_mono s1(1) by blast
  qed
  have block: "parsed l s (parseblock (Suc n) l s)" if m: "4 * (length l - s) + 1 \<le> Suc n"
  proof -
    have "parsed l s2 (bnd (parseline n l s2) (\<lambda>(cmd, s). case peek l s '')'' of (True, s) \<Rightarrow> let (_, _, _, s) = gettoken l s in parseredirs n cmd l s
        | (False, s) \<Rightarrow> Inl (Panic ''syntax - missing )'')))" if 2: "s < s2" "s2 \<le> length l" for s2
    proof (rule parsed_bnd[OF IHl[OF 2]], use m in simp, simp)
      fix c s3
      assume 3: "s2 \<le> s3" "s3 \<le> length l" "\<forall>w \<in> set_cmd c. whole_word l w"
      have "parsed l s4 (parseredirs n c l s4)" if "s3 < s4" "s4 \<le> length l" for s4 using parseredirs_parsed[OF that(2) _ 3(3)] that 2 3(1) m by simp
      then show "parsed l s2 (case peek l s3 '')'' of (True, s) \<Rightarrow> let (_, _, _, s) = gettoken l s in parseredirs n c l s
          | (False, s) \<Rightarrow> Inl (Panic ''syntax - missing )''))"
        using 3 parsed_Panic by (intro parsed_mono[OF parsed_case]) auto
    qed
    then show ?thesis unfolding parseblock.simps using s parsed_Panic by (intro parsed_case) auto
  qed
  show ?case using line pipe exec block by blast
qed simp

section \<open>Writing the NULs\<close>

definition word_text :: "string \<Rightarrow> nat \<times> nat \<Rightarrow> string" where
  "word_text l w = take (snd w - fst w) (drop (fst w) l)"

definition nuls :: "nat set \<Rightarrow> char list \<Rightarrow> char list \<Rightarrow> bool" where
  "nuls A b b' \<longleftrightarrow> length b' = length b \<and> (\<forall>i < length b. b' ! i = (if i \<in> A then NUL else b ! i))"

lemma nuls_trans: "nuls A b b' \<Longrightarrow> nuls B b' b'' \<Longrightarrow> nuls (A \<union> B) b b''"
  by (simp add: nuls_def)

lemma put_at_nuls: "i < length b \<Longrightarrow> put_at b i NUL = Inr (b[i := NUL]) \<and> nuls {i} b (b[i := NUL])"
  by (auto simp: put_at_def nuls_def nth_list_update)

lemma put_words_nuls:
  "\<forall>w \<in> set ws. snd w < length b \<Longrightarrow> \<exists>b'. for_each (\<lambda>w b. put_at b (snd w) NUL) ws b = Inr b' \<and> nuls (snd ` set ws) b b'"
proof (induction ws arbitrary: b)
  case (Cons w ws)
  have w: "put_at b (snd w) NUL = Inr (b[snd w := NUL])" "nuls {snd w} b (b[snd w := NUL])" using put_at_nuls Cons.prems by auto
  moreover obtain b' where "for_each (\<lambda>w b. put_at b (snd w) NUL) ws (b[snd w := NUL]) = Inr b'" "nuls (snd ` set ws) (b[snd w := NUL]) b'"
    using Cons.IH[of "b[snd w := NUL]"] Cons.prems by auto
  ultimately show ?case using nuls_trans[OF w(2)] by fastforce
qed (simp add: nuls_def)

lemma nulterminate_nuls:
  "\<forall>w \<in> set_cmd c. snd w < length b \<Longrightarrow> \<exists>b'. nulterminate c b = Inr b' \<and> nuls (snd ` set_cmd c) b b'"
proof (induction c arbitrary: b)
  case (EXEC ws)
  then show ?case using put_words_nuls by simp
next
  case (REDIR c w m fd)
  then obtain b' where b': "nulterminate c b = Inr b'" "nuls (snd ` set_cmd c) b b'" by fastforce
  then have "snd w < length b'" using REDIR.prems by (simp add: nuls_def)
  then show ?case using b' nuls_trans[OF b'(2)] put_at_nuls by fastforce
next
  case (PIPE c d)
  then obtain b' where b': "nulterminate c b = Inr b'" "nuls (snd ` set_cmd c) b b'" by fastforce
  moreover obtain b'' where "nulterminate d b' = Inr b''" "nuls (snd ` set_cmd d) b' b''"
    using PIPE.IH(2)[of b'] PIPE.prems b'(2) by (auto simp: nuls_def)
  ultimately show ?case using nuls_trans[OF b'(2)] by (fastforce simp: image_Un)
next
  case (LIST c d)
  then obtain b' where b': "nulterminate c b = Inr b'" "nuls (snd ` set_cmd c) b b'" by fastforce
  moreover obtain b'' where "nulterminate d b' = Inr b''" "nuls (snd ` set_cmd d) b' b''"
    using LIST.IH(2)[of b'] LIST.prems b'(2) by (auto simp: nuls_def)
  ultimately show ?case using nuls_trans[OF b'(2)] by (fastforce simp: image_Un)
qed auto

text \<open>No word ends inside another one, so every word keeps its text and gets its NUL.\<close>

lemma word_kept:
  assumes words: "\<forall>w \<in> W. whole_word l w" and b: "nuls (snd ` W) (l @ [NUL]) b" and l: "NUL \<notin> set l" and w: "w \<in> W"
  shows "cstr b (fst w) = word_text l w"
proof -
  let ?q = "fst w" and ?e = "snd w"
  have ww: "?q < ?e" "?e \<le> length l" "\<forall>i. ?q \<le> i \<and> i < ?e \<longrightarrow> word_char (l ! i)" using words w by (auto simp: whole_word_def)
  have len: "length b = length l + 1" using b by (simp add: nuls_def)
  have out: "i \<notin> snd ` W" if i: "?q \<le> i" "i < ?e" for i
  proof
    assume "i \<in> snd ` W"
    then obtain v where "v \<in> W" "snd v = i" by auto
    then have "\<not> word_char (l ! i)" using words i(2) ww(2) by (auto simp: whole_word_def)
    then show False using ww(3) i by blast
  qed
  have same: "take (?e - ?q) (drop ?q b) = word_text l w"
    using b ww(1,2) len out by (intro nth_equalityI) (auto simp: word_text_def nuls_def nth_append)
  have stop: "drop ?e b = NUL # drop (Suc ?e) b" using b ww(2) w len by (simp add: nuls_def Cons_nth_drop_Suc[symmetric])
  have "drop ?q b = word_text l w @ NUL # drop (Suc ?e) b"
    using append_take_drop_id[of "?e - ?q" "drop ?q b"] same stop ww(1) by simp
  moreover have "NUL \<notin> set (word_text l w)" using l unfolding word_text_def by (meson in_set_dropD in_set_takeD)
  ultimately show ?thesis unfolding cstr_def by (auto simp: takeWhile_tail)
qed

text \<open>What \<open>parsecmd\<close> returns, from what \<open>parseline\<close> returns.\<close>

lemma parsecmd_strings:
  assumes "parseline (4 * length l + 4) l 0 = Inr (cmd, s)" "snd (peek l s []) = length l" "NUL \<notin> set l"
  shows "\<exists>b. parsecmd l = Inr (cmd, b) \<and> strings_of (cmd, b) = map_cmd (word_text l) cmd"
proof -
  have w: "\<forall>w \<in> set_cmd cmd. whole_word l w" using parser_parsed[of 0 l "4 * length l + 4"] assms(1) by simp
  then have "\<forall>w \<in> set_cmd cmd. snd w < length (l @ [NUL])" by (auto simp: whole_word_def)
  then obtain b where b: "nulterminate cmd (l @ [NUL]) = Inr b" "nuls (snd ` set_cmd cmd) (l @ [NUL]) b" using nulterminate_nuls by blast
  have "strings_of (cmd, b) = map_cmd (word_text l) cmd"
    unfolding strings_of_def using word_kept[OF w b(2) assms(3)] by (auto intro: cmd.map_cong0)
  moreover obtain t where "peek l s [] = (t, length l)" using assms(2) by (metis prod.collapse)
  ultimately show ?thesis using assms(1) b(1) by (auto simp: parsecmd_def)
qed

end
