(* ===== verification/Sh_Unparse.thy ===== *)
theory Sh_Unparse
  imports Sh_Parse
begin

unbundle bit_operations_syntax

text \<open>
  The reference the parser of the shell is compared with: a printer of commands, with parentheses where the precedence of the
  operators asks for them. Parsing what it prints gives the command back.
\<close>

section \<open>Printing commands\<close>

definition is_word :: "string \<Rightarrow> bool" where
  "is_word w \<longleftrightarrow> w \<noteq> [] \<and> list_all word_char w \<and> NUL \<notin> set w"

fun unwords :: "string list \<Rightarrow> string" where
  "unwords [] = []"
| "unwords [w] = w"
| "unwords (w # ws) = w @ '' '' @ unwords ws"

definition redir_sym :: "int \<Rightarrow> int \<Rightarrow> string" where
  "redir_sym m fd = (if fd = 0 then ''<'' else if m = O_WRONLY OR O_CREATE OR O_TRUNC then ''>'' else ''>>'')"

definition valid_redir :: "int \<Rightarrow> int \<Rightarrow> bool" where
  "valid_redir m fd \<longleftrightarrow> (m, fd) \<in> set [(O_RDONLY, 0), (O_WRONLY OR O_CREATE OR O_TRUNC, 1), (O_WRONLY OR O_CREATE, 1)]"

definition paren :: "bool \<Rightarrow> string \<Rightarrow> string" where
  "paren p t = (if p then ''('' @ t @ '')'' else t)"

text \<open>The second argument is the level: 0 for a line, 1 before \<open>;\<close>, 2 for a pipeline, 3 for a simple command.\<close>

primrec unparse :: "string cmd \<Rightarrow> nat \<Rightarrow> string" where
  "unparse (EXEC ws) p = unwords ws"
| "unparse (REDIR c f m fd) p = unparse c 3 @ redir_sym m fd @ f"
| "unparse (PIPE c d) p = paren (2 < p) (unparse c 3 @ ''|'' @ unparse d 2)"
| "unparse (LIST c d) p = paren (0 < p) (unparse c 1 @ '';'' @ unparse d 0)"
| "unparse (BACK c) p = paren (1 < p) (unparse c 1 @ ''&'')"

primrec wf_cmd :: "string cmd \<Rightarrow> bool" where
  "wf_cmd (EXEC ws) \<longleftrightarrow> length ws < MAXARGS \<and> list_all is_word ws"
| "wf_cmd (REDIR c f m fd) \<longleftrightarrow> wf_cmd c \<and> is_word f \<and> valid_redir m fd"
| "wf_cmd (PIPE c d) \<longleftrightarrow> wf_cmd c \<and> wf_cmd d"
| "wf_cmd (LIST c d) \<longleftrightarrow> wf_cmd c \<and> wf_cmd d"
| "wf_cmd (BACK c) \<longleftrightarrow> wf_cmd c"

section \<open>Tokens at the front of the rest of the line\<close>

text \<open>What may follow: nothing, or one of some characters.\<close>

definition stops :: "string \<Rightarrow> string \<Rightarrow> bool" where
  "stops T r \<longleftrightarrow> (case r of [] \<Rightarrow> True | c # _ \<Rightarrow> c \<in> set T)"

lemma stops_simps [simp]: "stops T []" "stops T (c # r) \<longleftrightarrow> c \<in> set T"
  by (simp_all add: stops_def)

lemma stops_mono: "stops T r \<Longrightarrow> set T \<subseteq> set T' \<Longrightarrow> stops T' r"
  by (auto simp: stops_def split: list.splits)

definition tight :: "string \<Rightarrow> bool" where
  "tight r \<longleftrightarrow> (case r of [] \<Rightarrow> True | c # _ \<Rightarrow> c \<notin> set whitespace)"

lemma tight_simps [simp]: "tight []" "tight (c # r) \<longleftrightarrow> c \<notin> set whitespace"
  by (simp_all add: tight_def)

lemma stops_tight: "stops T r \<Longrightarrow> set T \<inter> set whitespace = {} \<Longrightarrow> tight r"
  by (cases r) auto

lemma chr_at_drop: "chr_at l s = (case drop s l of [] \<Rightarrow> NUL | c # _ \<Rightarrow> c)"
  by (auto simp: chr_at_def simp flip: Cons_nth_drop_Suc)

lemma scan_tight: "tight (drop s l) \<Longrightarrow> scan (in_str whitespace) l s = s"
  by (cases "drop s l") (auto simp: scan_def in_whitespace)

lemma drop_more: "drop s l = u @ r \<Longrightarrow> drop (s + length u) l = r"
  by (metis append_eq_conv_conj add.commute drop_drop)

lemma peek_at:
  assumes "tight (drop s l)" "NUL \<notin> set l" "NUL \<notin> set T"
  shows "peek l s T = (case drop s l of [] \<Rightarrow> (False, s) | c # _ \<Rightarrow> (c \<in> set T, s))"
proof (cases "drop s l")
  case (Cons c r)
  then have "c \<noteq> NUL" using assms(2) by (metis in_set_dropD list.set_intros(1))
  then show ?thesis using assms Cons by (simp add: peek_def scan_tight chr_at_drop in_str_iff)
qed (simp add: peek_def scan_tight chr_at_drop)

lemma gettoken_end: "drop s l = [] \<Longrightarrow> gettoken l s = (NUL, s, s, s)"
  by (simp add: gettoken_def scan_tight chr_at_drop)

lemma gettoken_symbol:
  assumes "drop s l = c # r" "c \<in> set ''|();&<''" "tight r"
  shows "gettoken l s = (c, s, s + 1, s + 1)"
proof -
  have "c \<notin> set whitespace" "c \<noteq> NUL" using assms(2) by (auto simp: whitespace_def)
  moreover have "scan (in_str whitespace) l (s + 1) = s + 1" using assms(1,3) drop_more[of s l "[c]" r] by (simp add: scan_tight)
  ultimately show ?thesis using assms(1,2) scan_tight[of s l] unfolding gettoken_def by (simp add: chr_at_drop)
qed

lemma gettoken_gt:
  assumes "drop s l = CHR ''>'' # r" "tight r" "\<not> stops ''>'' r \<or> r = []"
  shows "gettoken l s = (CHR ''>'', s, s + 1, s + 1)"
proof -
  have d: "drop (s + 1) l = r" using drop_more[of s l "[CHR ''>'']" r] assms(1) by simp
  have "chr_at l (s + 1) \<noteq> CHR ''>''" using assms(3) unfolding chr_at_drop d by (auto split: list.splits)
  then show ?thesis using assms(1,2) d scan_tight[of s l] scan_tight[of "s + 1" l] unfolding gettoken_def by (simp add: chr_at_drop whitespace_def)
qed

lemma gettoken_gtgt:
  assumes "drop s l = CHR ''>'' # CHR ''>'' # r" "tight r"
  shows "gettoken l s = (CHR ''+'', s, s + 2, s + 2)"
proof -
  have d: "drop (s + 1) l = CHR ''>'' # r" "drop (s + 2) l = r"
    using drop_more[of s l "[CHR ''>'']" "CHR ''>'' # r"] drop_more[of s l "[CHR ''>'', CHR ''>'']" r] assms(1) by simp_all
  then show ?thesis using assms scan_tight[of s l] scan_tight[of "s + 2" l] unfolding gettoken_def by (simp add: chr_at_drop whitespace_def)
qed

lemma gettoken_word:
  assumes "drop s l = w @ gap @ r" "is_word w" "gap = '' '' \<or> gap = [] \<and> stops symbols r" "tight r"
  shows "gettoken l s = (CHR ''a'', s, s + length w, s + length w + length gap)" "word_text l (s, s + length w) = w"
proof -
  obtain c u where w: "w = c # u" "word_char c" "c \<noteq> NUL" using assms(2) by (cases w) (auto simp: is_word_def)
  have c: "c \<notin> set whitespace" "c \<notin> set ''|();&<''" "c \<noteq> CHR ''>''" using w(2) by (auto simp: word_char_iff symbols_def)
  have s: "scan (in_str whitespace) l s = s" "chr_at l s = c" using assms(1) w(1) c(1) by (simp_all add: scan_tight chr_at_drop)
  have "takeWhile word_char (w @ gap @ r) = w"
  proof -
    have "\<forall>x \<in> set w. word_char x" using assms(2) by (simp add: is_word_def list_all_iff)
    moreover have "takeWhile word_char (gap @ r) = []" using assms(3) by (cases r) (auto simp: word_char_iff whitespace_def)
    ultimately show ?thesis by simp
  qed
  then have e: "scan word_char l s = s + length w" using assms(1) by (simp add: scan_def)
  have d: "drop (s + length w) l = gap @ r" using drop_more[OF assms(1)] .
  have blank: "CHR '' '' \<in> set whitespace" by (simp add: whitespace_def)
  have "takeWhile (in_str whitespace) (gap @ r) = gap" using assms(3,4) blank by (cases r) (auto simp: in_whitespace)
  then have "scan (in_str whitespace) l (s + length w) = s + length w + length gap" using d by (simp add: scan_def)
  then show "gettoken l s = (CHR ''a'', s, s + length w, s + length w + length gap)" using s e c w(3) unfolding gettoken_def by (simp add: Let_def)
  show "word_text l (s, s + length w) = w" using assms(1) by (simp add: word_text_def)
qed

section \<open>Redirections and words\<close>

definition wrap :: "string \<times> int \<times> int \<Rightarrow> string cmd \<Rightarrow> string cmd" where
  "wrap = (\<lambda>(f, m, fd) c. REDIR c f m fd)"

definition redir_text :: "string \<times> int \<times> int \<Rightarrow> string" where
  "redir_text = (\<lambda>(f, m, fd). redir_sym m fd @ f)"

definition valid_redirs :: "(string \<times> int \<times> int) list \<Rightarrow> bool" where
  "valid_redirs = list_all (\<lambda>(f, m, fd). is_word f \<and> valid_redir m fd)"

lemma is_word_tight: "is_word w \<Longrightarrow> tight (w @ r)"
  by (cases w) (auto simp: is_word_def word_char_iff)

lemma is_word_hd: "is_word w \<Longrightarrow> \<exists>c u. w = c # u \<and> c \<notin> set symbols \<and> c \<notin> set whitespace"
  by (cases w) (auto simp: is_word_def word_char_iff)

lemma symbols_tight: "stops symbols r \<Longrightarrow> tight r"
  by (rule stops_tight) (auto simp: symbols_def whitespace_def)

lemma redir_token:
  assumes "drop s l = redir_sym m fd @ f @ r" "valid_redir m fd" "is_word f" "NUL \<notin> set l"
  shows "peek l s ''<>'' = (True, s)"
    "\<exists>tok. gettoken l s = (tok, s, s + length (redir_sym m fd), s + length (redir_sym m fd))
       \<and> (tok, m, fd) \<in> set [(CHR ''<'', O_RDONLY, 0), (CHR ''>'', O_WRONLY OR O_CREATE OR O_TRUNC, 1), (CHR ''+'', O_WRONLY OR O_CREATE, 1)]"
proof -
  have f: "tight (f @ r)" using is_word_tight[OF assms(3)] .
  have g: "\<not> stops ''>'' (f @ r)" using is_word_hd[OF assms(3)] by (auto simp: symbols_def)
  have ne: "O_WRONLY OR O_CREATE \<noteq> O_WRONLY OR O_CREATE OR O_TRUNC" by (simp add: O_WRONLY_def O_CREATE_def O_TRUNC_def)
  consider "m = O_RDONLY" "fd = 0" | "m = O_WRONLY OR O_CREATE OR O_TRUNC" "fd = 1" | "m = O_WRONLY OR O_CREATE" "fd = 1"
    using assms(2) by (auto simp: valid_redir_def)
  then have "peek l s ''<>'' = (True, s) \<and> (\<exists>tok. gettoken l s = (tok, s, s + length (redir_sym m fd), s + length (redir_sym m fd))
       \<and> (tok, m, fd) \<in> set [(CHR ''<'', O_RDONLY, 0), (CHR ''>'', O_WRONLY OR O_CREATE OR O_TRUNC, 1), (CHR ''+'', O_WRONLY OR O_CREATE, 1)])"
  proof cases
    case 1
    then have d: "drop s l = CHR ''<'' # f @ r" using assms(1) by (simp add: redir_sym_def)
    then show ?thesis using 1 gettoken_symbol[OF d _ f] peek_at[of s l "''<>''"] assms(4) by (simp add: redir_sym_def whitespace_def)
  next
    case 2
    then have d: "drop s l = CHR ''>'' # f @ r" using assms(1) by (simp add: redir_sym_def)
    then show ?thesis using 2 gettoken_gt[OF d f] g peek_at[of s l "''<>''"] assms(4) by (simp add: redir_sym_def whitespace_def)
  next
    case 3
    then have d: "drop s l = CHR ''>'' # CHR ''>'' # f @ r" using assms(1) ne by (simp add: redir_sym_def)
    then show ?thesis using 3 ne gettoken_gtgt[OF d f] peek_at[of s l "''<>''"] assms(4) by (simp add: redir_sym_def whitespace_def)
  qed
  then show "peek l s ''<>'' = (True, s)" "\<exists>tok. gettoken l s = (tok, s, s + length (redir_sym m fd), s + length (redir_sym m fd))
       \<and> (tok, m, fd) \<in> set [(CHR ''<'', O_RDONLY, 0), (CHR ''>'', O_WRONLY OR O_CREATE OR O_TRUNC, 1), (CHR ''+'', O_WRONLY OR O_CREATE, 1)]"
    by blast+
qed

lemma redirs_start: "rs \<noteq> [] \<Longrightarrow> stops ''<>'' (concat (map redir_text rs) @ r)"
  by (cases rs) (auto simp: redir_text_def redir_sym_def split: prod.splits)

lemma parseredirs_text:
  assumes "NUL \<notin> set l"
  shows "drop s l = concat (map redir_text rs) @ r \<Longrightarrow> tight r \<Longrightarrow> rs = [] \<or> stops symbols r \<Longrightarrow> r = [] \<or> \<not> stops ''<>'' r
    \<Longrightarrow> valid_redirs rs \<Longrightarrow> length rs < n
    \<Longrightarrow> \<exists>c'. parseredirs n c l s = Inr (c', s + length (concat (map redir_text rs))) \<and> map_cmd (word_text l) c' = fold wrap rs (map_cmd (word_text l) c)"
proof (induction rs arbitrary: s c n)
  case Nil
  then obtain k where "n = Suc k" by (cases n) auto
  moreover have "peek l s ''<>'' = (False, s)" using Nil.prems(1,2,4) peek_at[of s l "''<>''"] assms by (auto split: list.splits)
  ultimately show ?case by simp
next
  case (Cons x rs)
  obtain f m fd where x: "x = (f, m, fd)" using prod_cases3 by blast
  obtain k where n: "n = Suc k" using Cons.prems(6) by (cases n) auto
  let ?k = "length (redir_sym m fd)" and ?R = "concat (map redir_text rs) @ r"
  have v: "is_word f" "valid_redir m fd" "valid_redirs rs" using Cons.prems(5) x by (simp_all add: valid_redirs_def)
  have d: "drop s l = redir_sym m fd @ f @ ?R" using Cons.prems(1) x by (simp add: redir_text_def)
  note p = redir_token(1)[OF d v(2,1) assms]
  obtain tok where t: "gettoken l s = (tok, s, s + ?k, s + ?k)"
    "(tok, m, fd) \<in> set [(CHR ''<'', O_RDONLY, 0), (CHR ''>'', O_WRONLY OR O_CREATE OR O_TRUNC, 1), (CHR ''+'', O_WRONLY OR O_CREATE, 1)]"
    using redir_token(2)[OF d v(2,1) assms] by blast
  have R: "stops symbols ?R"
    using Cons.prems(3) redirs_start[of rs r] stops_mono[of "''<>''" ?R symbols] by (cases "rs = []") (auto simp: symbols_def)
  have d1: "drop (s + ?k) l = f @ [] @ ?R" using drop_more[OF d] by simp
  note w = gettoken_word[OF d1 v(1) _ symbols_tight[OF R]]
  have g: "gettoken l (s + ?k) = (CHR ''a'', s + ?k, s + ?k + length f, s + ?k + length f)" "word_text l (s + ?k, s + ?k + length f) = f"
    using w R by simp_all
  let ?c = "REDIR c (s + ?k, s + ?k + length f) m fd"
  have "parseredirs n c l s = parseredirs k ?c l (s + ?k + length f)" using p t g(1) n by (auto simp: Let_def)
  moreover have "drop (s + ?k + length f) l = ?R" using drop_more[OF d1] by simp
  moreover obtain c' where "parseredirs k ?c l (s + ?k + length f) = Inr (c', s + ?k + length f + length (concat (map redir_text rs)))"
    "map_cmd (word_text l) c' = fold wrap rs (map_cmd (word_text l) ?c)"
    using Cons.IH[OF \<open>drop (s + ?k + length f) l = ?R\<close> Cons.prems(2) _ Cons.prems(4) v(3), of k ?c] Cons.prems(3,6) n by auto
  ultimately show ?case using x g(2) by (simp add: redir_text_def wrap_def add.assoc)
qed

lemma exec_words_text:
  assumes "NUL \<notin> set l" and rs: "valid_redirs rs" and r: "stops ''|)&;'' r"
  shows "vs \<noteq> [] \<Longrightarrow> drop s l = unwords vs @ concat (map redir_text rs) @ r \<Longrightarrow> list_all is_word vs \<Longrightarrow> length ws + length vs < MAXARGS
    \<Longrightarrow> length vs + length rs < n
    \<Longrightarrow> \<exists>c'. exec_words n ws (EXEC ws) l s = Inr (c', s + length (unwords vs) + length (concat (map redir_text rs)))
         \<and> map_cmd (word_text l) c' = fold wrap rs (EXEC (map (word_text l) ws @ vs))"
proof (induction vs arbitrary: s ws n rule: unwords.induct)
  case (2 v)
  let ?R = "concat (map redir_text rs) @ r"
  obtain k where n: "n = Suc (Suc k)" "length rs \<le> k" using 2(5) by (cases n; cases "n - 1") auto
  have v: "is_word v" using 2(3) by simp
  have rr: "stops symbols r" "tight r" "r = [] \<or> \<not> stops ''<>'' r" using r stops_mono[OF r, of symbols] symbols_tight[of r] by (cases r; force simp: symbols_def)+
  have R: "stops symbols ?R" using rr(1) redirs_start[of rs r] stops_mono[of "''<>''" ?R symbols] by (cases "rs = []") (auto simp: symbols_def)
  have d: "drop s l = v @ [] @ ?R" using 2(2) by simp
  note w = gettoken_word[OF d v _ symbols_tight[OF R]]
  let ?w = "(s, s + length v)"
  have p: "peek l s ''|)&;'' = (False, s)" using peek_at[of s l "''|)&;''"] is_word_tight[OF v] is_word_hd[OF v] d assms(1) by (auto simp: symbols_def)
  obtain c' where c': "parseredirs (Suc k) (EXEC (ws @ [?w])) l (s + length v) = Inr (c', s + length v + length (concat (map redir_text rs)))"
    "map_cmd (word_text l) c' = fold wrap rs (map_cmd (word_text l) (EXEC (ws @ [?w])))"
    using parseredirs_text[OF assms(1), of "s + length v" rs r "Suc k" "EXEC (ws @ [?w])"] drop_more[OF d] rr rs n by auto
  let ?s = "s + length v + length (concat (map redir_text rs))"
  have e: "drop ?s l = r" using drop_more[of "s + length v" l] drop_more[OF d] by simp
  have "exec_words (Suc k) (ws @ [?w]) c' l ?s = Inr (c', ?s)"
    using peek_at[of ?s l "''|)&;''"] gettoken_end[of ?s l] e r rr(2) assms(1) by (auto split: list.splits)
  then show ?case using p w R c' 2(4) n(1) by (simp add: Let_def)
next
  case (3 v u vs)
  let ?R = "unwords (u # vs) @ concat (map redir_text rs) @ r"
  obtain k where n: "n = Suc (Suc k)" using "3.prems"(5) by (cases n; cases "n - 1") auto
  have v: "is_word v" "is_word u" using "3.prems"(3) by simp_all
  have d: "drop s l = v @ '' '' @ ?R" using "3.prems"(2) by simp
  have u: "tight ?R" "\<not> stops ''<>'' ?R"
  proof -
    obtain c t where c: "u = c # t" "c \<notin> set symbols" "c \<notin> set whitespace" using is_word_hd[OF v(2)] by blast
    then have "\<exists>t'. ?R = c # t'" by (cases vs) auto
    then show "tight ?R" "\<not> stops ''<>'' ?R" using c by (auto simp: symbols_def)
  qed
  note w = gettoken_word[OF d v(1) _ u(1)]
  let ?w = "(s, s + length v)" and ?s = "s + length v + 1"
  have p: "peek l s ''|)&;'' = (False, s)" using peek_at[of s l "''|)&;''"] is_word_tight[OF v(1)] is_word_hd[OF v(1)] d assms(1) by (auto simp: symbols_def)
  have d1: "drop ?s l = ?R" using drop_more[of s l "v @ '' ''" ?R] d by simp
  have q: "parseredirs (Suc k) (EXEC (ws @ [?w])) l ?s = Inr (EXEC (ws @ [?w]), ?s)" using peek_at[of ?s l "''<>''"] d1 u assms(1) by (auto split: list.splits)
  have "exec_words n ws (EXEC ws) l s = exec_words (Suc k) (ws @ [?w]) (EXEC (ws @ [?w])) l ?s"
    using p w q "3.prems"(4) n by (simp add: Let_def)
  moreover obtain c' where "exec_words (Suc k) (ws @ [?w]) (EXEC (ws @ [?w])) l ?s = Inr (c', ?s + length (unwords (u # vs)) + length (concat (map redir_text rs)))"
    "map_cmd (word_text l) c' = fold wrap rs (EXEC (map (word_text l) (ws @ [?w]) @ u # vs))"
    using "3.IH"[of ?s "ws @ [?w]" "Suc k"] d1 "3.prems" n by auto
  ultimately show ?case using w(2) by simp
qed simp

section \<open>Reading back a whole command\<close>

text \<open>
  A parser function reads \<open>c\<close> at level \<open>p\<close>: where the rest of the line is what the printer makes of \<open>c\<close> and then something
  in \<open>T\<close>, it returns \<open>c\<close> and stops just there. \<open>k\<close> is the fuel it needs besides four for each character left.
\<close>

definition reads :: "(nat \<Rightarrow> string \<Rightarrow> nat \<Rightarrow> (pcmd \<times> nat) result) \<Rightarrow> nat \<Rightarrow> string \<Rightarrow> nat \<Rightarrow> string \<Rightarrow> string cmd \<Rightarrow> bool" where
  "reads f k T p l c \<longleftrightarrow> (\<forall>s r n. drop s l = unparse c p @ r \<and> s \<le> length l \<and> stops T r \<and> 4 * (length l - s) + k \<le> n
     \<longrightarrow> (\<exists>c'. f n l s = Inr (c', s + length (unparse c p)) \<and> map_cmd (word_text l) c' = c))"

lemma readsD:
  assumes "reads f k T p l c" "drop s l = unparse c p @ r" "s \<le> length l" "stops T r" "4 * (length l - s) + k \<le> n"
  obtains c' where "f n l s = Inr (c', s + length (unparse c p))" "map_cmd (word_text l) c' = c" "drop (s + length (unparse c p)) l = r"
  using assms drop_more[OF assms(2)] unfolding reads_def by blast

definition parseback :: "nat \<Rightarrow> string \<Rightarrow> nat \<Rightarrow> (pcmd \<times> nat) result" where
  "parseback n l s = bnd (parsepipe n l s) (\<lambda>(cmd, s). line_back n cmd l s)"

abbreviation "reads_exec \<equiv> reads parseexec 2 ''|)&;'' 3"
abbreviation "reads_pipe \<equiv> reads parsepipe 3 '')&;'' 2"
abbreviation "reads_back \<equiv> reads parseback 3 '');'' 1"
abbreviation "reads_line \<equiv> reads parseline 4 '')'' 0"

lemma stops_tight_ops: "stops ''|)&;'' r \<Longrightarrow> tight r" "stops '')&;'' r \<Longrightarrow> tight r" "stops '');'' r \<Longrightarrow> tight r" "stops '')'' r \<Longrightarrow> tight r"
  by (auto elim!: stops_tight simp: whitespace_def)

lemma unwords_tight: "list_all is_word ws \<Longrightarrow> tight r \<Longrightarrow> tight (unwords ws @ r)"
  by (induction ws rule: unwords.induct) (auto simp: is_word_tight)

lemma unparse_tight: "wf_cmd c \<Longrightarrow> tight r \<Longrightarrow> tight (unparse c p @ r)"
proof (induction c arbitrary: p r)
  case (REDIR c f m fd)
  have "tight (redir_sym m fd @ f @ r)" by (simp add: redir_sym_def whitespace_def)
  then show ?case using REDIR by simp
qed (auto simp: unwords_tight paren_def whitespace_def)

text \<open>The redirections round a command, and the ampersands after it.\<close>

primrec base_of :: "'w cmd \<Rightarrow> 'w cmd" where
  "base_of (EXEC ws) = EXEC ws"
| "base_of (REDIR c f m fd) = base_of c"
| "base_of (PIPE c d) = PIPE c d"
| "base_of (LIST c d) = LIST c d"
| "base_of (BACK c) = BACK c"

primrec redirs_of :: "'w cmd \<Rightarrow> ('w \<times> int \<times> int) list" where
  "redirs_of (EXEC ws) = []"
| "redirs_of (REDIR c f m fd) = redirs_of c @ [(f, m, fd)]"
| "redirs_of (PIPE c d) = []"
| "redirs_of (LIST c d) = []"
| "redirs_of (BACK c) = []"

lemma chain_eq: "fold wrap (redirs_of c) (base_of c) = c"
  by (induction c) (auto simp: wrap_def)

lemma chain_text: "unparse c 3 = unparse (base_of c) 3 @ concat (map redir_text (redirs_of c))"
  by (induction c) (auto simp: redir_text_def)

lemma chain_wf: "wf_cmd c \<Longrightarrow> wf_cmd (base_of c) \<and> valid_redirs (redirs_of c)"
  by (induction c) (auto simp: valid_redirs_def)

lemma base_cases: "(\<exists>ws. base_of c = EXEC ws) \<or> unparse (base_of c) 3 = ''('' @ unparse (base_of c) 0 @ '')''"
  by (induction c) (auto simp: paren_def)

lemma redirs_len: "length rs \<le> length (concat (map redir_text rs))"
  by (induction rs) (auto simp: redir_text_def redir_sym_def)

lemma words_len: "list_all is_word ws \<Longrightarrow> length ws \<le> length (unwords ws)"
proof (induction ws rule: unwords.induct)
  case (3 w v ws)
  then show ?case by (cases w) (auto simp: is_word_def)
qed (auto simp: is_word_def Suc_le_eq)

lemma rest_len: "drop s l = u @ r \<Longrightarrow> s \<le> length l \<Longrightarrow> s + length u \<le> length l"
  by (metis le_add_diff_inverse length_append length_drop le_add1 add_le_cancel_left)

lemma reads_exec_words:
  assumes wf: "wf_cmd c" and base: "base_of c = EXEC ws" and l: "NUL \<notin> set l"
  shows "reads_exec l c"
  unfolding reads_def
proof (intro allI impI, elim conjE)
  fix s r n
  let ?rs = "redirs_of c" and ?T = "concat (map redir_text (redirs_of c))"
  assume d: "drop s l = unparse c 3 @ r" and s: "s \<le> length l" and r: "stops ''|)&;'' r" and n: "4 * (length l - s) + 2 \<le> n"
  obtain k where k: "n = Suc k" using n by (cases n) auto
  have v: "valid_redirs ?rs" "length ws < MAXARGS" "list_all is_word ws" using chain_wf[OF wf] base by simp_all
  have te: "unparse c 3 = unwords ws @ ?T" using chain_text[of c] base by simp
  have d': "drop s l = unwords ws @ ?T @ r" using d te by simp
  have t: "tight (drop s l)" using unparse_tight[OF wf stops_tight_ops(1)[OF r]] d by metis
  have rr: "stops symbols r" "tight r" "r = [] \<or> \<not> stops ''<>'' r" using r stops_mono[OF r, of symbols] symbols_tight[of r] by (cases r; force simp: symbols_def)+
  have len: "length ws + length ?rs \<le> length l - s" using rest_len[OF d s] words_len[OF v(3)] redirs_len[of ?rs] te by simp
  have nopar: "drop s l = [] \<or> \<not> stops ''('' (drop s l)"
  proof (cases ws)
    case Nil
    then show ?thesis using d' redirs_start[of ?rs r] r by (cases ?rs; cases "?T @ r") (auto split: list.splits)
  next
    case (Cons w vs)
    then obtain a u where "w = a # u" "a \<notin> set symbols" using is_word_hd[of w] v(3) by auto
    then show ?thesis using d' Cons by (cases vs) (auto simp: symbols_def)
  qed
  then have p: "peek l s ''('' = (False, s)" using peek_at[OF t l, of "''(''"] by (auto split: list.splits)
  show "\<exists>c'. parseexec n l s = Inr (c', s + length (unparse c 3)) \<and> map_cmd (word_text l) c' = c"
  proof (cases "ws = []")
    case True
    then obtain c' where c': "parseredirs k (EXEC []) l s = Inr (c', s + length ?T)" "map_cmd (word_text l) c' = fold wrap ?rs (map_cmd (word_text l) (EXEC []))"
      using parseredirs_text[OF l, of s ?rs r k "EXEC []"] d' rr v(1) len n k by auto
    have "drop (s + length ?T) l = r" using drop_more[of s l ?T r] d' True by simp
    then have "exec_words k [] c' l (s + length ?T) = Inr (c', s + length ?T)"
      using peek_at[of "s + length ?T" l "''|)&;''"] gettoken_end[of "s + length ?T" l] r rr(2) l n k by (cases k) (auto split: list.splits)
    then show ?thesis using p k c' te True chain_eq[of c] base by simp
  next
    case False
    have "\<not> stops ''<>'' (drop s l)"
      using d' v(3) False is_word_hd by (cases ws rule: unwords.cases) (fastforce simp: symbols_def)+
    then have "peek l s ''<>'' = (False, s)" using peek_at[OF t l, of "''<>''"] by (auto split: list.splits)
    then have q: "parseredirs k (EXEC []) l s = Inr (EXEC [], s)" using n k by (cases k) auto
    obtain c' where "exec_words k [] (EXEC []) l s = Inr (c', s + length (unwords ws) + length ?T)" "map_cmd (word_text l) c' = fold wrap ?rs (EXEC (map (word_text l) [] @ ws))"
      using exec_words_text[OF l v(1) r False d' v(3), of "[]" k] v(2) len n k by auto
    then show ?thesis using p k q te chain_eq[of c] base by simp
  qed
qed

lemma reads_exec_block:
  assumes wf: "wf_cmd c" and base: "unparse (base_of c) 3 = ''('' @ unparse (base_of c) 0 @ '')''" and l: "NUL \<notin> set l"
    and line: "reads_line l (base_of c)"
  shows "reads_exec l c"
  unfolding reads_def
proof (intro allI impI, elim conjE)
  fix s r n
  let ?rs = "redirs_of c" and ?T = "concat (map redir_text (redirs_of c))" and ?b = "base_of c"
  let ?u = "unparse (base_of c) 0"
  assume d: "drop s l = unparse c 3 @ r" and s: "s \<le> length l" and r: "stops ''|)&;'' r" and n: "4 * (length l - s) + 2 \<le> n"
  have v: "valid_redirs ?rs" "wf_cmd ?b" using chain_wf[OF wf] by simp_all
  have te: "unparse c 3 = ''('' @ ?u @ '')'' @ ?T" using chain_text[of c] base by simp
  have d0: "drop s l = CHR ''('' # ?u @ CHR '')'' # ?T @ r" using d te by simp
  have len: "length ?rs + 2 \<le> length l - s" "s + 1 \<le> length l" using rest_len[OF d s] redirs_len[of ?rs] te by simp_all
  have rr: "stops symbols r" "tight r" "r = [] \<or> \<not> stops ''<>'' r" using r stops_mono[OF r, of symbols] symbols_tight[of r] by (cases r; force simp: symbols_def)+
  have R: "tight (?T @ r)" using rr(2) redirs_start[of ?rs r] by (cases "?rs = []") (auto elim: stops_tight simp: whitespace_def)
  obtain k where k: "n = Suc (Suc k)" "4 * (length l - (s + 1)) + 4 \<le> k" using n len by (cases n; cases "n - 1") auto
  have p: "peek l s ''('' = (True, s)" using peek_at[of s l "''(''"] d0 l by (simp add: whitespace_def)
  have g: "gettoken l s = (CHR ''('', s, s + 1, s + 1)"
    using gettoken_symbol[OF d0] unparse_tight[OF v(2), of "CHR '')'' # ?T @ r" 0] by (simp add: whitespace_def)
  have d1: "drop (s + 1) l = ?u @ CHR '')'' # ?T @ r" using drop_more[of s l "''(''"] d0 by simp
  obtain b where b: "parseline k l (s + 1) = Inr (b, s + 1 + length ?u)" "map_cmd (word_text l) b = ?b" "drop (s + 1 + length ?u) l = CHR '')'' # ?T @ r"
    by (rule readsD[OF line d1 len(2) _ k(2)]) simp
  let ?s = "s + 1 + length ?u"
  have p2: "peek l ?s '')'' = (True, ?s)" using peek_at[of ?s l "'')''"] b(3) l by (simp add: whitespace_def)
  have g2: "gettoken l ?s = (CHR '')'', ?s, ?s + 1, ?s + 1)" using gettoken_symbol[OF b(3) _ R] by simp
  have "length ?rs < k" using len k(2) by linarith
  moreover have "drop (?s + 1) l = ?T @ r" using drop_more[of ?s l "'')''"] b(3) by simp
  ultimately obtain c' where c': "parseredirs k b l (?s + 1) = Inr (c', ?s + 1 + length ?T)" "map_cmd (word_text l) c' = fold wrap ?rs (map_cmd (word_text l) b)"
    using parseredirs_text[OF l, of "?s + 1" ?rs r k b] rr v(1) by auto
  have "parseexec n l s = Inr (c', s + length (unparse c 3))" using k(1) p g b(1) p2 g2 c'(1) te by simp
  then show "\<exists>c'. parseexec n l s = Inr (c', s + length (unparse c 3)) \<and> map_cmd (word_text l) c' = c" using c'(2) b(2) chain_eq[of c] by auto
qed

lemma reads_pipe_exec:
  assumes "reads_exec l c" and same: "unparse c 2 = unparse c 3" and l: "NUL \<notin> set l"
  shows "reads_pipe l c"
  unfolding reads_def
proof (intro allI impI, elim conjE)
  fix s r n
  assume d: "drop s l = unparse c 2 @ r" and s: "s \<le> length l" and r: "stops '')&;'' r" and n: "4 * (length l - s) + 3 \<le> n"
  obtain k where k: "n = Suc k" "4 * (length l - s) + 2 \<le> k" using n by (cases n) auto
  obtain c' where c': "parseexec k l s = Inr (c', s + length (unparse c 3))" "map_cmd (word_text l) c' = c" "drop (s + length (unparse c 3)) l = r"
    using readsD[OF assms(1) d[unfolded same] s _ k(2)] stops_mono[OF r, of "''|)&;''"] by auto
  have "peek l (s + length (unparse c 3)) ''|'' = (False, s + length (unparse c 3))"
    using peek_at[of "s + length (unparse c 3)" l "''|''"] c'(3) r stops_tight_ops(2)[OF r] l by (auto split: list.splits)
  then show "\<exists>c'. parsepipe n l s = Inr (c', s + length (unparse c 2)) \<and> map_cmd (word_text l) c' = c" using k(1) c' same by simp
qed

lemma reads_pipe_PIPE:
  assumes "reads_exec l c" "reads_pipe l e" and wf: "wf_cmd e" and l: "NUL \<notin> set l"
  shows "reads_pipe l (PIPE c e)"
  unfolding reads_def
proof (intro allI impI, elim conjE)
  fix s r n
  let ?u = "unparse c 3" and ?v = "unparse e 2"
  assume d: "drop s l = unparse (PIPE c e) 2 @ r" and s: "s \<le> length l" and r: "stops '')&;'' r" and n: "4 * (length l - s) + 3 \<le> n"
  obtain k where k: "n = Suc k" "4 * (length l - s) + 2 \<le> k" using n by (cases n) auto
  have d0: "drop s l = ?u @ CHR ''|'' # ?v @ r" using d by (simp add: paren_def)
  let ?s = "s + length ?u"
  obtain c' where c': "parseexec k l s = Inr (c', ?s)" "map_cmd (word_text l) c' = c" "drop ?s l = CHR ''|'' # ?v @ r"
    by (rule readsD[OF assms(1) d0 s _ k(2)]) simp
  have p: "peek l ?s ''|'' = (True, ?s)" using peek_at[of ?s l "''|''"] c'(3) l by (simp add: whitespace_def)
  have g: "gettoken l ?s = (CHR ''|'', ?s, ?s + 1, ?s + 1)" using gettoken_symbol[OF c'(3)] unparse_tight[OF wf stops_tight_ops(2)[OF r]] by simp
  have s1: "?s + 1 \<le> length l" using rest_len[of s l "?u @ ''|''" "?v @ r"] d0 s by simp
  have d1: "drop (?s + 1) l = ?v @ r" using drop_more[of ?s l "''|''"] c'(3) by simp
  obtain e' where e': "parsepipe k l (?s + 1) = Inr (e', ?s + 1 + length ?v)" "map_cmd (word_text l) e' = e"
  proof (rule readsD[OF assms(2) d1 s1 r, of k])
    show "4 * (length l - (?s + 1)) + 3 \<le> k" using k(2) s1 by linarith
  qed blast
  show "\<exists>c'. parsepipe n l s = Inr (c', s + length (unparse (PIPE c e) 2)) \<and> map_cmd (word_text l) c' = PIPE c e"
    using k(1) c' p g e' by (simp add: paren_def)
qed

primrec unback :: "'w cmd \<Rightarrow> 'w cmd" where
  "unback (EXEC ws) = EXEC ws"
| "unback (REDIR c f m fd) = REDIR c f m fd"
| "unback (PIPE c d) = PIPE c d"
| "unback (LIST c d) = LIST c d"
| "unback (BACK c) = unback c"

primrec backs :: "'w cmd \<Rightarrow> nat" where
  "backs (EXEC ws) = 0"
| "backs (REDIR c f m fd) = 0"
| "backs (PIPE c d) = 0"
| "backs (LIST c d) = 0"
| "backs (BACK c) = Suc (backs c)"

lemma backs_text: "unparse c 1 = unparse (unback c) 2 @ replicate (backs c) CHR ''&''"
  by (induction c) (auto simp: paren_def replicate_append_same)

lemma backs_eq: "(BACK ^^ backs c) (unback c) = c"
  by (induction c) auto

lemma line_back_text:
  assumes l: "NUL \<notin> set l" and r: "stops '');'' r"
  shows "drop s l = replicate k CHR ''&'' @ r \<Longrightarrow> k < n \<Longrightarrow> line_back n c l s = Inr ((BACK ^^ k) c, s + k)"
proof (induction k arbitrary: s n c)
  case 0
  then obtain m where "n = Suc m" by (cases n) auto
  moreover have "peek l s ''&'' = (False, s)" using peek_at[of s l "''&''"] 0 r stops_tight_ops(3)[OF r] l by (auto split: list.splits)
  ultimately show ?case by simp
next
  case (Suc k)
  then obtain m where m: "n = Suc m" by (cases n) auto
  have d: "drop s l = CHR ''&'' # replicate k CHR ''&'' @ r" using Suc.prems by simp
  have "tight (replicate k CHR ''&'' @ r)" using stops_tight_ops(3)[OF r] by (cases k) (auto simp: whitespace_def)
  from gettoken_symbol[OF d _ this] have g: "gettoken l s = (CHR ''&'', s, s + 1, s + 1)" by simp
  have p: "peek l s ''&'' = (True, s)" using peek_at[of s l "''&''"] d l by (simp add: whitespace_def)
  have "drop (s + 1) l = replicate k CHR ''&'' @ r" using drop_more[of s l "''&''"] d by simp
  from Suc.IH[OF this, of m "BACK c"] show ?case using m p g Suc.prems(2) by (simp add: funpow_swap1)
qed

lemma map_back: "map_cmd f ((BACK ^^ k) c) = (BACK ^^ k) (map_cmd f c)"
  by (induction k) auto

lemma reads_back_pipe:
  assumes "reads_pipe l (unback c)" and l: "NUL \<notin> set l"
  shows "reads_back l c"
  unfolding reads_def
proof (intro allI impI, elim conjE)
  fix s r n
  let ?u = "unparse (unback c) 2" and ?k = "backs c"
  assume d: "drop s l = unparse c 1 @ r" and s: "s \<le> length l" and r: "stops '');'' r" and n: "4 * (length l - s) + 3 \<le> n"
  have d0: "drop s l = ?u @ replicate ?k CHR ''&'' @ r" using d backs_text[of c] by simp
  have "stops '')&;'' (replicate ?k CHR ''&'' @ r)" using stops_mono[OF r, of "'')&;''"] by (cases ?k) auto
  then obtain c' where c': "parsepipe n l s = Inr (c', s + length ?u)" "map_cmd (word_text l) c' = unback c" "drop (s + length ?u) l = replicate ?k CHR ''&'' @ r"
    using readsD[OF assms(1) d0 s _ n] by blast
  have "?k < n" using rest_len[OF d s] backs_text[of c] n s by simp
  from line_back_text[OF l r c'(3) this] have "parseback n l s = Inr ((BACK ^^ ?k) c', s + length (unparse c 1))" using c'(1) backs_text[of c] by (simp add: parseback_def)
  then show "\<exists>c'. parseback n l s = Inr (c', s + length (unparse c 1)) \<and> map_cmd (word_text l) c' = c" using c'(2) map_back backs_eq by metis
qed

lemma parseline_eq: "parseline (Suc n) l s = bnd (parseback n l s) (\<lambda>(cmd, s).
     case peek l s '';'' of
       (True, s) \<Rightarrow> let (_, _, _, s) = gettoken l s in bnd (parseline n l s) (\<lambda>(right, s). Inr (LIST cmd right, s))
     | (False, s) \<Rightarrow> Inr (cmd, s))"
  by (simp add: parseback_def bnd_def split: sum.splits prod.splits)

lemma reads_line_back:
  assumes "reads_back l c" and same: "unparse c 0 = unparse c 1" and l: "NUL \<notin> set l"
  shows "reads_line l c"
  unfolding reads_def
proof (intro allI impI, elim conjE)
  fix s r n
  assume d: "drop s l = unparse c 0 @ r" and s: "s \<le> length l" and r: "stops '')'' r" and n: "4 * (length l - s) + 4 \<le> n"
  obtain k where k: "n = Suc k" "4 * (length l - s) + 3 \<le> k" using n by (cases n) auto
  let ?s = "s + length (unparse c 1)"
  obtain c' where c': "parseback k l s = Inr (c', ?s)" "map_cmd (word_text l) c' = c" "drop ?s l = r"
    using readsD[OF assms(1) d[unfolded same] s _ k(2)] stops_mono[OF r, of "'');''"] by auto
  have "peek l ?s '';'' = (False, ?s)" using peek_at[of ?s l "'';''"] c'(3) r stops_tight_ops(4)[OF r] l by (auto split: list.splits)
  then show "\<exists>c'. parseline n l s = Inr (c', s + length (unparse c 0)) \<and> map_cmd (word_text l) c' = c"
    using k(1) c' same by (simp add: parseline_eq del: parseline.simps)
qed

lemma reads_line_LIST:
  assumes "reads_back l c" "reads_line l e" and wf: "wf_cmd e" and l: "NUL \<notin> set l"
  shows "reads_line l (LIST c e)"
  unfolding reads_def
proof (intro allI impI, elim conjE)
  fix s r n
  let ?u = "unparse c 1" and ?v = "unparse e 0"
  assume d: "drop s l = unparse (LIST c e) 0 @ r" and s: "s \<le> length l" and r: "stops '')'' r" and n: "4 * (length l - s) + 4 \<le> n"
  obtain k where k: "n = Suc k" "4 * (length l - s) + 3 \<le> k" using n by (cases n) auto
  have d0: "drop s l = ?u @ CHR '';'' # ?v @ r" using d by (simp add: paren_def)
  let ?s = "s + length ?u"
  obtain c' where c': "parseback k l s = Inr (c', ?s)" "map_cmd (word_text l) c' = c" "drop ?s l = CHR '';'' # ?v @ r"
    by (rule readsD[OF assms(1) d0 s _ k(2)]) simp
  have p: "peek l ?s '';'' = (True, ?s)" using peek_at[of ?s l "'';''"] c'(3) l by (simp add: whitespace_def)
  have g: "gettoken l ?s = (CHR '';'', ?s, ?s + 1, ?s + 1)" using gettoken_symbol[OF c'(3)] unparse_tight[OF wf stops_tight_ops(4)[OF r]] by simp
  have s1: "?s + 1 \<le> length l" using rest_len[of s l "?u @ '';''" "?v @ r"] d0 s by simp
  have d1: "drop (?s + 1) l = ?v @ r" using drop_more[of ?s l "'';''"] c'(3) by simp
  obtain e' where e': "parseline k l (?s + 1) = Inr (e', ?s + 1 + length ?v)" "map_cmd (word_text l) e' = e"
  proof (rule readsD[OF assms(2) d1 s1 r, of k])
    show "4 * (length l - (?s + 1)) + 4 \<le> k" using k(2) s1 by linarith
  qed blast
  show "\<exists>c'. parseline n l s = Inr (c', s + length (unparse (LIST c e) 0)) \<and> map_cmd (word_text l) c' = LIST c e"
    using k(1) c' p g e' by (simp add: paren_def parseline_eq del: parseline.simps)
qed

lemma unback_size: "size (unback c) \<le> size c" "wf_cmd d \<Longrightarrow> wf_cmd (unback d)"
  by (induction c, auto) (induction d, auto)

lemma base_size: "size (base_of c) \<le> size c"
  by (induction c) auto

lemma reads_all:
  assumes "NUL \<notin> set l"
  shows "wf_cmd c \<Longrightarrow> reads_exec l c \<and> reads_pipe l c \<and> reads_back l c \<and> reads_line l c"
proof (induction c rule: measure_induct_rule[of size])
  case (less c)
  note rules = reads_pipe_exec reads_back_pipe reads_line_back reads_exec_block
  have simple: "?case" if "reads_exec l c" "unback c = c" "unparse c 2 = unparse c 3" "unparse c 0 = unparse c 1"
    using that assms rules(1-3) by metis
  show ?case
  proof (cases c)
    case (EXEC ws)
    then show ?thesis using simple reads_exec_words[OF less.prems _ assms] by simp
  next
    case (REDIR d f m fd)
    have "size (base_of c) < size c" using base_size[of d] REDIR by simp
    then have "reads_line l (base_of c)" using less.IH chain_wf[OF less.prems] by blast
    then have "reads_exec l c" using base_cases[of c] reads_exec_words[OF less.prems _ assms] rules(4)[OF less.prems _ assms] by blast
    then show ?thesis using simple REDIR by simp
  next
    case (PIPE d e)
    have "reads_pipe l c" using less.IH[of d] less.IH[of e] less.prems PIPE reads_pipe_PIPE[OF _ _ _ assms] by simp
    moreover from this have "reads_back l c" using rules(2)[OF _ assms, of c] PIPE by simp
    moreover from this have "reads_line l c" using rules(3)[OF _ _ assms, of c] PIPE by (simp add: paren_def)
    moreover from this have "reads_exec l c" using rules(4)[OF less.prems _ assms] PIPE by (simp add: paren_def)
    ultimately show ?thesis by blast
  next
    case (LIST d e)
    have "reads_line l c" using less.IH[of d] less.IH[of e] less.prems LIST reads_line_LIST[OF _ _ _ assms] by simp
    moreover from this have "reads_exec l c" using rules(4)[OF less.prems _ assms] LIST by (simp add: paren_def)
    moreover from this have "reads_pipe l c" using rules(1)[OF _ _ assms, of c] LIST by (simp add: paren_def)
    moreover from this have "reads_back l c" using rules(2)[OF _ assms, of c] LIST by simp
    ultimately show ?thesis by blast
  next
    case (BACK d)
    have "reads_pipe l (unback c)" using less.IH[of "unback c"] unback_size[of d] less.prems BACK unback_size(2)[of d] by simp
    then have "reads_back l c" using rules(2)[OF _ assms] by blast
    moreover from this have "reads_line l c" using rules(3)[OF _ _ assms, of c] BACK by (simp add: paren_def)
    moreover from this have "reads_exec l c" using rules(4)[OF less.prems _ assms] BACK by (simp add: paren_def)
    moreover from this have "reads_pipe l c" using rules(1)[OF _ _ assms, of c] BACK by (simp add: paren_def)
    ultimately show ?thesis by blast
  qed
qed

end
