(* ===== verification/Sh_Props.thy ===== *)
theory Sh_Props
  imports Sh_Unparse
begin

unbundle bit_operations_syntax

text \<open>The properties of the shell: its parser, the descriptors its commands run with, and its loop.\<close>

section \<open>Parsing\<close>



lemma unparse_no_NUL: "wf_cmd c \<Longrightarrow> NUL \<notin> set (unparse c p)"
proof (induction c arbitrary: p)
  case (EXEC ws)
  then have "list_all is_word ws" by simp
  then show ?case by (induction ws rule: unwords.induct) (auto simp: is_word_def)
qed (auto simp: paren_def redir_sym_def is_word_def)

text \<open>
  C27. Round trip: every command whose words are words and whose redirections are those of the grammar, printed with
  parentheses where precedence asks for them, is parsed back to itself, whatever its depth.
\<close>

theorem sh_parse_unparse:
  assumes "wf_cmd c"
  shows "\<exists>r. parsecmd (unparse c 0) = Inr r \<and> strings_of r = c"
proof -
  let ?l = "unparse c 0"
  have l: "NUL \<notin> set ?l" by (rule unparse_no_NUL[OF assms])
  have "reads_line ?l c" using reads_all[OF l assms] by blast
  then obtain c' where c': "parseline (4 * length ?l + 4) ?l 0 = Inr (c', 0 + length ?l)" "map_cmd (word_text ?l) c' = c"
    by (rule readsD[where s = 0 and r = "[]"]) auto
  have "snd (peek ?l (length ?l) []) = length ?l" by (simp add: peek_def scan_def Let_def)
  from parsecmd_strings[OF _ this l, of c'] show ?thesis using c' by auto
qed

theorem sh_parse_unparse_witness:
  "\<exists>r. parsecmd ''(a<f;b c&)|d>>g'' = Inr r
    \<and> strings_of r = PIPE (LIST (REDIR (EXEC [''a'']) ''f'' O_RDONLY 0) (BACK (EXEC [''b'', ''c'']))) (REDIR (EXEC [''d'']) ''g'' (O_WRONLY OR O_CREATE) 1)"
proof -
  let ?c = "PIPE (LIST (REDIR (EXEC [''a'']) ''f'' O_RDONLY 0) (BACK (EXEC [''b'', ''c'']))) (REDIR (EXEC [''d'']) ''g'' (O_WRONLY OR O_CREATE) 1)"
  have "wf_cmd ?c" by (simp add: is_word_def word_char_iff whitespace_def symbols_def MAXARGS_def valid_redir_def)
  moreover have "unparse ?c 0 = ''(a<f;b c&)|d>>g''" by (simp add: paren_def redir_sym_def O_WRONLY_def O_CREATE_def O_TRUNC_def)
  ultimately show ?thesis using sh_parse_unparse[of ?c] by simp
qed

section \<open>Descriptors\<close>

text \<open>
  What the descriptors of a process refer to, and the system calls as \<open>Sysfile\<close> has them: a new descriptor is the lowest free one.
  \<open>run_act\<close> gives the programs executed, each with its descriptor table, when \<open>fork\<close> and \<open>exec\<close> succeed; \<open>opens\<close> says which files
  can be opened, and pipes are numbered.
\<close>

datatype fobj = Inherited nat | Opened string int | PipeRead nat | PipeWrite nat

type_synonym fds = "fobj option list"

definition lowest :: "fds \<Rightarrow> nat option" where
  "lowest d = find (\<lambda>i. d ! i = None) [0..<length d]"

definition seq_runs :: "(nat \<Rightarrow> 'e list \<times> nat) \<Rightarrow> (nat \<Rightarrow> 'e list \<times> nat) \<Rightarrow> nat \<Rightarrow> 'e list \<times> nat" where
  "seq_runs f g n = (let (es, n) = f n; (es', n) = g n in (es @ es', n))"

primrec run_act :: "(string \<Rightarrow> int \<Rightarrow> bool) \<Rightarrow> act \<Rightarrow> fds \<Rightarrow> nat \<Rightarrow> (string list \<times> fds) list \<times> nat" where
  "run_act opens (Exit r) = (\<lambda>d n. ([], n))"
| "run_act opens (Exec p argv k) = (\<lambda>d n. ([(argv, d)], n))"
| "run_act opens (Close i k) = (\<lambda>d n. run_act opens k (d[nat i := None]) n)"
| "run_act opens (Open f m k) = (\<lambda>d n. case lowest d of
     Some i \<Rightarrow> if opens f m then run_act opens (k (int i)) (d[i := Some (Opened f m)]) n else run_act opens (k (-1)) d n
   | None \<Rightarrow> run_act opens (k (-1)) d n)"
| "run_act opens (MkPipe k) = (\<lambda>d n. case lowest d of
     None \<Rightarrow> run_act opens (k None) d n
   | Some i \<Rightarrow> (case lowest (d[i := Some (PipeRead n)]) of
       None \<Rightarrow> run_act opens (k None) d n
     | Some j \<Rightarrow> run_act opens (k (Some (int i, int j))) (d[i := Some (PipeRead n), j := Some (PipeWrite n)]) (n + 1)))"
| "run_act opens (Dup i k) = (\<lambda>d n. case lowest d of
     Some j \<Rightarrow> run_act opens k (if nat i < length d \<and> d ! nat i \<noteq> None then d[j := d ! nat i] else d) n
   | None \<Rightarrow> run_act opens k d n)"
| "run_act opens (Fork c k) = (\<lambda>d. seq_runs (run_act opens c d) (run_act opens (k True) d))"
| "run_act opens (Wait k) = run_act opens k"
| "run_act opens (Eprint s k) = run_act opens k"

text \<open>What a command line means for its programs' descriptors.\<close>

primrec wiring :: "(string \<Rightarrow> int \<Rightarrow> bool) \<Rightarrow> string cmd \<Rightarrow> fds \<Rightarrow> nat \<Rightarrow> (string list \<times> fds) list \<times> nat" where
  "wiring opens (EXEC argv) = (\<lambda>d n. (if argv = [] then [] else [(argv, d)], n))"
| "wiring opens (REDIR c f m fd) = (\<lambda>d n. if opens f m then wiring opens c (d[nat fd := Some (Opened f m)]) n else ([], n))"
| "wiring opens (PIPE l r) = (\<lambda>d n. seq_runs (wiring opens l (d[1 := Some (PipeWrite n)])) (wiring opens r (d[0 := Some (PipeRead n)])) (n + 1))"
| "wiring opens (LIST l r) = (\<lambda>d. seq_runs (wiring opens l d) (wiring opens r d))"
| "wiring opens (BACK c) = wiring opens c"

text \<open>The table the shell starts a command with: the standard descriptors open and two more free.\<close>

definition ready :: "fds \<Rightarrow> bool" where
  "ready d \<longleftrightarrow> 2 < length d \<and> (\<forall>i < 3. d ! i \<noteq> None) \<and> (\<exists>i j. i < j \<and> j < length d \<and> d ! i = None \<and> d ! j = None)"

primrec std_redirs :: "'w cmd \<Rightarrow> bool" where
  "std_redirs (EXEC ws) \<longleftrightarrow> True"
| "std_redirs (REDIR c f m fd) \<longleftrightarrow> std_redirs c \<and> (fd = 0 \<or> fd = 1)"
| "std_redirs (PIPE c d) \<longleftrightarrow> std_redirs c \<and> std_redirs d"
| "std_redirs (LIST c d) \<longleftrightarrow> std_redirs c \<and> std_redirs d"
| "std_redirs (BACK c) \<longleftrightarrow> std_redirs c"

lemma lowest_eq: "i < length d \<Longrightarrow> d ! i = None \<Longrightarrow> \<forall>j < i. d ! j \<noteq> None \<Longrightarrow> lowest d = Some i"
  unfolding lowest_def by (subst find_Some_iff) (auto intro!: exI[of _ i])

lemma lowest_SomeD: "lowest d = Some i \<Longrightarrow> i < length d \<and> d ! i = None"
  unfolding lowest_def by (auto dest!: find_SomeD)

lemma lowest_ex: "i < length d \<Longrightarrow> d ! i = None \<Longrightarrow> \<exists>i. lowest d = Some i"
  unfolding lowest_def by (cases "find (\<lambda>i. d ! i = None) [0..<length d]") (auto simp: find_None_iff)

lemma ready_free: "ready d \<Longrightarrow> d ! k = None \<Longrightarrow> 2 < k"
  unfolding ready_def by (metis less_Suc_eq_le not_less numeral_2_eq_2 numeral_3_eq_3)

lemma ready_update:
  assumes "ready d" "k < 3"
  shows "ready (d[k := Some x])"
proof -
  obtain i j where ij: "i < j" "j < length d" "d ! i = None" "d ! j = None" using assms(1) by (auto simp: ready_def)
  then have "i \<noteq> k" "j \<noteq> k" using ready_free[OF assms(1), of i] ready_free[OF assms(1), of j] assms(2) by auto
  then have "\<exists>i j. i < j \<and> j < length d \<and> d[k := Some x] ! i = None \<and> d[k := Some x] ! j = None" using ij by (intro exI[of _ i] exI[of _ j]) simp
  moreover have "\<forall>i < 3. d[k := Some x] ! i \<noteq> None" using assms by (simp add: ready_def nth_list_update)
  ultimately show ?thesis using assms(1) by (simp add: ready_def)
qed

text \<open>The two descriptors of a new pipe.\<close>

lemma ready_pipe:
  assumes "ready d"
  obtains i j where "lowest d = Some i" "lowest (d[i := Some x]) = Some j" "2 < i" "2 < j" "i \<noteq> j" "i < length d" "j < length d" "d ! i = None" "d ! j = None"
proof -
  obtain a b where ab: "a < b" "b < length d" "d ! a = None" "d ! b = None" using assms by (auto simp: ready_def)
  obtain i where i: "lowest d = Some i" using lowest_ex[of a d] ab by auto
  note i' = lowest_SomeD[OF i]
  obtain j where j: "lowest (d[i := Some x]) = Some j"
    using lowest_ex[of b "d[i := Some x]"] lowest_ex[of a "d[i := Some x]"] ab by (cases "i = a") auto
  note j' = lowest_SomeD[OF j]
  have "i \<noteq> j" "d ! j = None" using i' j' by (auto simp: nth_list_update split: if_splits)
  then show ?thesis using that i j i' j' ready_free[OF assms] by auto
qed


lemma run_dup:
  assumes "ready d" "i < length d" "j < length d" "2 < i" "2 < j" "i \<noteq> j" "d ! i = None" "d ! j = None" "q < 2" "e = i \<or> e = j"
  shows "run_act opens (Close (int q) (Dup (int e) (Close (int i) (Close (int j) k)))) (d[i := Some x, j := Some y]) n
    = run_act opens k (d[q := Some (if e = i then x else y)]) n"
proof -
  let ?d = "d[i := Some x, j := Some y, q := None]"
  have q: "q < length d" "q \<noteq> i" "q \<noteq> j" using assms by (auto simp: ready_def)
  have "\<forall>m < q. ?d ! m \<noteq> None" using assms(1,4,5,9) q by (auto simp: nth_list_update ready_def)
  then have "lowest ?d = Some q" using q by (intro lowest_eq) auto
  moreover have e: "e < length d" "?d ! e = Some (if e = i then x else y)" using assms q by (auto simp: nth_list_update)
  moreover have "?d[q := Some (if e = i then x else y), i := None, j := None] = d[q := Some (if e = i then x else y)]"
    using assms q by (intro nth_equalityI) (auto simp: nth_list_update)
  ultimately show ?thesis by simp
qed

text \<open>
  C29. The plumbing of \<open>runcmd\<close>. For every command, however its pipelines, lists and redirections are nested, the programs are
  started in the order of the line with the descriptors they are meant to have: the left side of a pipe writes to it through descriptor
  1 and the right side reads it through descriptor 0, redirections replace 0 or 1, and nothing else differs from
  the table of the shell. In particular no program is left with another end of a pipe, which would keep its readers waiting.
\<close>

theorem sh_plumbing:
  assumes "ready d" "std_redirs c"
  shows "run_act opens (runcmd c) d n = wiring opens c d n"
  using assms
proof (induction c arbitrary: d n)
  case (EXEC ws)
  then show ?case by (cases ws) auto
next
  case (REDIR c f m fd)
  let ?q = "nat fd"
  have q: "?q < 2" "fd = int ?q" using REDIR.prems(2) by auto
  have "?q < length d" "\<forall>i < ?q. d[?q := None] ! i \<noteq> None" using REDIR.prems(1) q(1) by (auto simp: ready_def nth_list_update)
  then have "lowest (d[?q := None]) = Some ?q" by (intro lowest_eq) auto
  moreover have "run_act opens (runcmd c) (d[?q := Some (Opened f m)]) n = wiring opens c (d[?q := Some (Opened f m)]) n"
    using REDIR.IH ready_update[OF REDIR.prems(1), of ?q] REDIR.prems(2) q(1) by simp
  ultimately show ?case by simp
next
  case (PIPE c e)
  obtain i j where ij: "lowest d = Some i" "lowest (d[i := Some (PipeRead n)]) = Some j" "2 < i" "2 < j" "i \<noteq> j" "i < length d" "j < length d" "d ! i = None" "d ! j = None"
    by (rule ready_pipe[OF PIPE.prems(1)])
  have IH: "run_act opens (runcmd c) (d[1 := Some x]) = wiring opens c (d[1 := Some x])" "run_act opens (runcmd e) (d[0 := Some x]) = wiring opens e (d[0 := Some x])" for x
    using PIPE.IH ready_update[OF PIPE.prems(1)] PIPE.prems(2) by (auto intro!: ext)
  note r = run_dup[OF PIPE.prems(1) ij(6,7,3,4,5,8,9)]
  have "run_act opens (Close 1 (Dup (int j) (Close (int i) (Close (int j) (runcmd c))))) (d[i := Some (PipeRead n), j := Some (PipeWrite n)]) = wiring opens c (d[1 := Some (PipeWrite n)])"
    using r[of 1 j opens "runcmd c" "PipeRead n" "PipeWrite n"] IH(1) ij(5) by (intro ext) simp
  moreover have "run_act opens (Close 0 (Dup (int i) (Close (int i) (Close (int j) (runcmd e))))) (d[i := Some (PipeRead n), j := Some (PipeWrite n)]) = wiring opens e (d[0 := Some (PipeRead n)])"
    using r[of 0 i opens "runcmd e" "PipeRead n" "PipeWrite n"] IH(2) by (intro ext) simp
  ultimately show ?case using ij(1,2) by (simp add: fork1_def seq_runs_def split: prod.splits)
qed (auto simp: fork1_def seq_runs_def split: prod.splits)

theorem sh_plumbing_witness:
  "run_act (\<lambda>_ _. True) (runcmd (PIPE (EXEC [''a'']) (REDIR (EXEC [''b'']) ''f'' 1 1))) ([Some (Inherited 0), Some (Inherited 0), Some (Inherited 0), None, None]) 0
    = ([([''a''], [Some (Inherited 0), Some (PipeWrite 0), Some (Inherited 0), None, None]),
        ([''b''], [Some (PipeRead 0), Some (Opened ''f'' 1), Some (Inherited 0), None, None])], 1)"
proof -
  let ?d = "[Some (Inherited 0), Some (Inherited 0), Some (Inherited 0), None, None]"
  have "\<exists>i j. i < j \<and> j < length ?d \<and> ?d ! i = None \<and> ?d ! j = None" by (rule exI[of _ 3], rule exI[of _ 4]) simp
  then have "ready ?d" unfolding ready_def by (auto simp: numeral_3_eq_3 less_Suc_eq)
  then show ?thesis by (subst sh_plumbing) (auto simp: seq_runs_def)
qed

section \<open>The loop\<close>

lemma gets_loop_ends:
  "i < length buf \<Longrightarrow> mx = int (length buf) \<Longrightarrow> \<exists>buf' inp'. gets_loop buf i mx inp = Inr (buf', inp') \<and> length buf' = length buf
     \<and> (length inp' < length inp \<or> buf' ! i = NUL) \<and> length inp' \<le> length inp"
proof (induction buf i mx inp rule: gets_loop.induct)
  case (2 buf i mx c inp)
  show ?case
  proof (cases "int i + 1 < mx \<and> \<not> (c = newline \<or> c = CHR 0x0D)")
    case True
    then have "\<exists>buf' inp'. gets_loop (buf[i := c]) (Suc i) mx inp = Inr (buf', inp') \<and> length buf' = length (buf[i := c])
       \<and> (length inp' < length inp \<or> buf' ! Suc i = NUL) \<and> length inp' \<le> length inp"
      using "2.IH"[of "buf[i := c]"] "2.prems" by (simp add: put_at_def)
    then show ?thesis using True "2.prems" by (auto simp: put_at_def)
  next
    case False
    then show ?thesis using "2.prems" by (auto simp: put_at_def)
  qed
qed (simp add: put_at_def)

lemma memset_ends: "\<exists>b. Ulib.memset buf 0 c (length buf) = Inr b \<and> length b = length buf"
proof -
  have "k \<le> length buf \<Longrightarrow> \<exists>b. for_each (\<lambda>i a. put_at a (0 + i) c) [0..<k] buf = Inr b \<and> length b = length buf" for k
    by (induction k) (auto simp: for_each_append put_at_def)
  then show ?thesis unfolding Ulib.memset_def by blast
qed

lemma getcmd_ends:
  assumes "buf \<noteq> []"
  shows "\<exists>r b inp'. getcmd buf inp = Inr (r, b, inp') \<and> length b = length buf \<and> (r < 0 \<or> length inp' < length inp \<and> chr_at b 0 \<noteq> NUL)"
proof -
  obtain b where b: "Ulib.memset buf 0 NUL (length buf) = Inr b" "length b = length buf" using memset_ends by blast
  obtain b' inp' where "gets_loop b 0 (int (length b)) inp = Inr (b', inp')" "length b' = length b" "length inp' < length inp \<or> b' ! 0 = NUL"
    using gets_loop_ends[of 0 b "int (length b)" inp] b(2) assms by auto
  then show ?thesis using b assms by (auto simp: getcmd_def gets_def chr_at_def)
qed

lemma sh_line_ends: "\<exists>j. sh_line buf = Inr j"
proof (cases "buf = []")
  case False
  have "length (cstr buf 0) \<le> length buf" by (simp add: cstr_def length_takeWhile_le)
  moreover have "0 < length buf" using False by simp
  ultimately have "length (cstr buf 0) - 1 < length buf" by arith
  then show ?thesis by (simp add: sh_line_def put_at_def)
qed (simp add: sh_line_def chr_at_def)

lemma sh_loop_ends: "buf \<noteq> [] \<Longrightarrow> length inp < n \<Longrightarrow> \<exists>js. sh_loop n buf inp = Inr js"
proof (induction n arbitrary: buf inp)
  case (Suc n)
  obtain r b inp' where g: "getcmd buf inp = Inr (r, b, inp')" "length b = length buf" "r < 0 \<or> length inp' < length inp"
    using getcmd_ends[OF Suc.prems(1), of inp] by auto
  obtain j where j: "sh_line b = Inr j" using sh_line_ends by blast
  show ?case
  proof (cases "r < 0")
    case False
    have "b \<noteq> []" using g(2) Suc.prems(1) by auto
    then obtain js where "sh_loop n b inp' = Inr js" using Suc.IH[of b inp'] g(3) Suc.prems(2) False by auto
    then show ?thesis using g j False by simp
  qed (use g in simp)
qed simp

text \<open>The shell gets through every input, and each turn of its loop consumes some of it.\<close>

theorem sh_main_ends: "\<exists>js. sh_main inp = Inr js"
  unfolding sh_main_def by (rule sh_loop_ends) auto

end
