(* ===== verification/Virtio.thy ===== *)
theory Virtio
  imports Bio Ring Proc
begin

unbundle bit_operations_syntax

text \<open>
  The disk driver, \<^verbatim>\<open>kernel/virtio_disk.c\<close>: eight descriptors, of which a request takes a chain of three, the ring in which the
  driver hands chains to the device and the ring in which the device hands them back.

  A pointer the driver gives to the device is a value of \<open>daddr\<close>: into \<open>disk.ops\<close>, to the data of a buffer, or to the status byte in
  \<open>disk.info\<close>. What runs while \<open>vdisk_lock\<close> is held is one step; \<open>virtio_disk_rw\<close> is cut where it sleeps. \<open>wakeup\<close> is recorded in
  \<open>woken\<close>, and \<open>b->disk\<close> in \<open>bdisk\<close>.
\<close>

section \<open>Data\<close>

definition NUM :: nat where
  "NUM = 8"

definition VRING_DESC_F_NEXT :: ushort where
  "VRING_DESC_F_NEXT = 1"

definition VRING_DESC_F_WRITE :: ushort where
  "VRING_DESC_F_WRITE = 2"

definition VIRTIO_BLK_T_IN :: uint where
  "VIRTIO_BLK_T_IN = 0"

definition VIRTIO_BLK_T_OUT :: uint where
  "VIRTIO_BLK_T_OUT = 1"

datatype daddr = NullAddr | OpsAddr nat | DataAddr nat | StatusAddr nat

record virtq_desc =
  addr :: daddr
  len :: uint
  flags :: ushort
  nxt :: ushort

record virtio_blk_req =
  rtype :: uint
  reserved :: uint
  sector :: uint64

record vinfo =
  ib :: "nat option"
  status :: byte

record vdisk =
  desc :: "virtq_desc list"
  avail_idx :: ushort
  avail_ring :: "ushort list"
  used_didx :: ushort  \<comment> \<open>\<open>disk.used->idx\<close>, written by the device\<close>
  used_ring :: "uint list"
  dfree :: "bool list"
  used_idx :: ushort  \<comment> \<open>\<open>disk.used_idx\<close>, how far the driver has looked\<close>
  info :: "vinfo list"
  ops :: "virtio_blk_req list"
  bdisk :: "nat \<Rightarrow> int"
  woken :: "chan list"

definition no_desc :: virtq_desc where
  "no_desc = \<lparr>addr = NullAddr, len = 0, flags = 0, nxt = 0\<rparr>"

section \<open>Descriptors\<close>

definition alloc_desc :: "vdisk \<Rightarrow> int \<times> vdisk" where
  "alloc_desc s = (case find (\<lambda>i. dfree s ! i) [0..<NUM] of
     None \<Rightarrow> (-1, s)
   | Some i \<Rightarrow> (int i, s\<lparr>dfree := (dfree s)[i := False]\<rparr>))"

definition free_desc :: "int \<Rightarrow> vdisk \<Rightarrow> vdisk result" where
  "free_desc i s =
     (if i \<ge> int NUM then Inl (Panic ''free_desc 1'')
      else if i < 0 then Inl (Fault ''disk.free'')
      else if dfree s ! nat i then Inl (Panic ''free_desc 2'')
      else Inr (s\<lparr>desc := (desc s)[nat i := no_desc], dfree := (dfree s)[nat i := True], woken := woken s @ [OnDiskFree]\<rparr>))"

text \<open>A chain has at most \<open>NUM\<close> descriptors, as a second visit panics; so \<open>NUM + 1\<close> is fuel enough.\<close>

fun free_chain_loop :: "nat \<Rightarrow> int \<Rightarrow> vdisk \<Rightarrow> vdisk result" where
  "free_chain_loop 0 i s = Inl (Fault ''fuel'')"
| "free_chain_loop (Suc n) i s =
     (if \<not> (0 \<le> i \<and> i < int NUM) then Inl (Fault ''disk.desc'')
      else
        let flag = flags (desc s ! nat i); next_i = nxt (desc s ! nat i) in
        bnd (free_desc i s) (\<lambda>s.
        if flag AND VRING_DESC_F_NEXT \<noteq> 0 then free_chain_loop n (Word.uint next_i) s else Inr s))"

definition free_chain :: "int \<Rightarrow> vdisk \<Rightarrow> vdisk result" where
  "free_chain = free_chain_loop (NUM + 1)"

fun alloc_descs :: "nat \<Rightarrow> int list \<Rightarrow> vdisk \<Rightarrow> (int list option \<times> vdisk) result" where
  "alloc_descs 0 idx s = Inr (Some idx, s)"
| "alloc_descs (Suc n) idx s =
     (let (i, s) = alloc_desc s in
      if i < 0 then bnd (for_each free_desc idx s) (\<lambda>s. Inr (None, s))
      else alloc_descs n (idx @ [i]) s)"

definition alloc3_desc :: "vdisk \<Rightarrow> (int list option \<times> vdisk) result" where
  "alloc3_desc = alloc_descs 3 []"

section \<open>Requests\<close>

definition sector_of :: "uint \<Rightarrow> uint64" where
  "sector_of n = ucast (n * 2)"

text \<open>Formatting the three descriptors and telling the device.\<close>

definition rw_post :: "nat \<Rightarrow> uint \<Rightarrow> bool \<Rightarrow> nat \<Rightarrow> nat \<Rightarrow> nat \<Rightarrow> vdisk \<Rightarrow> vdisk" where
  "rw_post b n write i j k s =
     (let s = s\<lparr>ops := (ops s)[i := \<lparr>rtype = (if write then VIRTIO_BLK_T_OUT else VIRTIO_BLK_T_IN), reserved = 0, sector = sector_of n\<rparr>]\<rparr>;
          s = s\<lparr>desc := (desc s)[i := \<lparr>addr = OpsAddr i, len = 16, flags = VRING_DESC_F_NEXT, nxt = of_nat j\<rparr>]\<rparr>;
          s = s\<lparr>desc := (desc s)[j := \<lparr>addr = DataAddr b, len = 1024,
                  flags = (if write then 0 else VRING_DESC_F_WRITE) OR VRING_DESC_F_NEXT, nxt = of_nat k\<rparr>]\<rparr>;
          s = s\<lparr>info := (info s)[i := (info s ! i)\<lparr>status := 0xff\<rparr>]\<rparr>;
          s = s\<lparr>desc := (desc s)[k := \<lparr>addr = StatusAddr i, len = 1, flags = VRING_DESC_F_WRITE, nxt = 0\<rparr>]\<rparr>;
          s = s\<lparr>bdisk := (bdisk s)(b := 1), info := (info s)[i := (info s ! i)\<lparr>ib := Some b\<rparr>]\<rparr>;
          s = s\<lparr>avail_ring := (avail_ring s)[unat (avail_idx s) mod NUM := of_nat i]\<rparr>
      in s\<lparr>avail_idx := avail_idx s + 1\<rparr>)"

text \<open>\<open>virtio_disk_rw\<close> up to its first sleep: \<open>None\<close> when there are not three descriptors, otherwise \<open>idx\<close>.\<close>

definition rw_start :: "nat \<Rightarrow> uint \<Rightarrow> bool \<Rightarrow> vdisk \<Rightarrow> (nat list option \<times> vdisk) result" where
  "rw_start b n write s =
     bnd (alloc3_desc s) (\<lambda>(r, s). case r of
       None \<Rightarrow> Inr (None, s)
     | Some idx \<Rightarrow> let idx = map nat idx in Inr (Some idx, rw_post b n write (idx ! 0) (idx ! 1) (idx ! 2) s))"

text \<open>One pass of the loop that waits for the device, and what follows it: \<open>None\<close> to sleep again.\<close>

definition rw_wait :: "nat \<Rightarrow> nat list \<Rightarrow> vdisk \<Rightarrow> vdisk option result" where
  "rw_wait b idx s =
     (if bdisk s b = 1 then Inr None
      else bnd (free_chain (int (idx ! 0)) (s\<lparr>info := (info s)[idx ! 0 := (info s ! (idx ! 0))\<lparr>ib := None\<rparr>]\<rparr>)) (\<lambda>s. Inr (Some s)))"

section \<open>Interrupts\<close>

function intr_loop :: "vdisk \<Rightarrow> vdisk result" where
  "intr_loop s =
     (if used_idx s \<noteq> used_didx s then
        let i = unat (used_ring s ! (unat (used_idx s) mod NUM)) in
        if \<not> i < NUM then Inl (Fault ''disk.info'')
        else if status (info s ! i) \<noteq> 0 then Inl (Panic ''virtio_disk_intr status'')
        else (case ib (info s ! i) of
            None \<Rightarrow> Inl (Fault ''buf'')
          | Some b \<Rightarrow> intr_loop (s\<lparr>bdisk := (bdisk s)(b := 0), woken := woken s @ [OnDisk b], used_idx := used_idx s + 1\<rparr>))
      else Inr s)"
  by pat_completeness auto
termination
proof (relation "measure (\<lambda>s. unat (used_didx s - used_idx s))", simp)
  fix s :: vdisk and i b
  assume "used_idx s \<noteq> used_didx s"
  from unat_pred_diff(2)[OF this] show "(s\<lparr>bdisk := (bdisk s)(b := 0), woken := woken s @ [OnDisk b], used_idx := used_idx s + 1\<rparr>, s)
      \<in> measure (\<lambda>s. unat (used_didx s - used_idx s))" by simp
qed

declare intr_loop.simps [simp del]

definition virtio_disk_intr :: "vdisk \<Rightarrow> vdisk result" where
  "virtio_disk_intr = intr_loop"

section \<open>Initialisation\<close>

text \<open>
  The device registers by their names in \<^verbatim>\<open>kernel/virtio.h\<close>. \<open>virtio_disk_init\<close> takes what the device answers when they are read
  (\<open>VIRTIO_MMIO_STATUS\<close> is read once, after the features have been offered) and gives what was written to them, in order.
\<close>

datatype vreg = VIRTIO_MMIO_MAGIC_VALUE | VIRTIO_MMIO_VERSION | VIRTIO_MMIO_DEVICE_ID | VIRTIO_MMIO_VENDOR_ID | VIRTIO_MMIO_DEVICE_FEATURES
  | VIRTIO_MMIO_DRIVER_FEATURES | VIRTIO_MMIO_QUEUE_SEL | VIRTIO_MMIO_QUEUE_NUM_MAX | VIRTIO_MMIO_QUEUE_NUM | VIRTIO_MMIO_QUEUE_READY
  | VIRTIO_MMIO_STATUS | VIRTIO_MMIO_QUEUE_DESC_LOW | VIRTIO_MMIO_QUEUE_DESC_HIGH | VIRTIO_MMIO_DRIVER_DESC_LOW | VIRTIO_MMIO_DRIVER_DESC_HIGH
  | VIRTIO_MMIO_DEVICE_DESC_LOW | VIRTIO_MMIO_DEVICE_DESC_HIGH

definition refused_features :: "nat list" where
  "refused_features = [5, 7, 11, 12, 27, 29, 28]"

definition driver_features :: "uint \<Rightarrow> uint64" where
  "driver_features f = fold (\<lambda>k v. v AND NOT (push_bit k 1)) refused_features (ucast f)"

definition vdisk_zero :: vdisk where
  "vdisk_zero = \<lparr>desc = replicate NUM no_desc, avail_idx = 0, avail_ring = replicate NUM 0, used_didx = 0, used_ring = replicate NUM 0,
     dfree = replicate NUM True, used_idx = 0, info = replicate NUM \<lparr>ib = None, status = 0\<rparr>,
     ops = replicate NUM \<lparr>rtype = 0, reserved = 0, sector = 0\<rparr>, bdisk = (\<lambda>_. 0), woken = []\<rparr>"

definition zero_page :: "uint64 \<Rightarrow> kmem \<Rightarrow> kmem" where
  "zero_page p s = s\<lparr>mem := memset (mem s) p 0 4096\<rparr>"

definition virtio_disk_init :: "(vreg \<Rightarrow> uint) \<Rightarrow> kmem \<Rightarrow> ((vreg \<times> uint) list \<times> vdisk \<times> kmem) result" where
  "virtio_disk_init R s =
     (if R VIRTIO_MMIO_MAGIC_VALUE \<noteq> 0x74726976 \<or> R VIRTIO_MMIO_VERSION \<noteq> 2 \<or> R VIRTIO_MMIO_DEVICE_ID \<noteq> 2
         \<or> R VIRTIO_MMIO_VENDOR_ID \<noteq> 0x554d4551
      then Inl (Panic ''could not find virtio disk'')
      else if R VIRTIO_MMIO_STATUS AND 8 = 0 then Inl (Panic ''virtio disk FEATURES_OK unset'')
      else if R VIRTIO_MMIO_QUEUE_READY \<noteq> 0 then Inl (Panic ''virtio disk should not be ready'')
      else if R VIRTIO_MMIO_QUEUE_NUM_MAX = 0 then Inl (Panic ''virtio disk has no queue 0'')
      else if R VIRTIO_MMIO_QUEUE_NUM_MAX < of_nat NUM then Inl (Panic ''virtio disk max queue too short'')
      else
        bnd (kalloc s) (\<lambda>(pd, s).
        bnd (kalloc s) (\<lambda>(pa, s).
        bnd (kalloc s) (\<lambda>(pu, s).
        if pd = 0 \<or> pa = 0 \<or> pu = 0 then Inl (Panic ''virtio disk kalloc'')
        else Inr
          ([(VIRTIO_MMIO_STATUS, 0), (VIRTIO_MMIO_STATUS, 1), (VIRTIO_MMIO_STATUS, 1 OR 2),
            (VIRTIO_MMIO_DRIVER_FEATURES, ucast (driver_features (R VIRTIO_MMIO_DEVICE_FEATURES))), (VIRTIO_MMIO_STATUS, 1 OR 2 OR 8),
            (VIRTIO_MMIO_QUEUE_SEL, 0), (VIRTIO_MMIO_QUEUE_NUM, of_nat NUM),
            (VIRTIO_MMIO_QUEUE_DESC_LOW, ucast pd), (VIRTIO_MMIO_QUEUE_DESC_HIGH, ucast (drop_bit 32 pd)),
            (VIRTIO_MMIO_DRIVER_DESC_LOW, ucast pa), (VIRTIO_MMIO_DRIVER_DESC_HIGH, ucast (drop_bit 32 pa)),
            (VIRTIO_MMIO_DEVICE_DESC_LOW, ucast pu), (VIRTIO_MMIO_DEVICE_DESC_HIGH, ucast (drop_bit 32 pu)),
            (VIRTIO_MMIO_QUEUE_READY, 1), (VIRTIO_MMIO_STATUS, R VIRTIO_MMIO_STATUS OR 4)],
           vdisk_zero, zero_page pu (zero_page pa (zero_page pd s)))))))"

section \<open>The driver, its callers and the device together\<close>

text \<open>
  A request is made for a buffer whose sleep lock its caller holds, so a buffer has at most one. \<open>Sleeping\<close> is a caller in the
  first loop of \<open>virtio_disk_rw\<close>, \<open>Posted\<close> one in the second, with its \<open>idx\<close>. A sleeping caller may look again at any time.

  The device is what the virtio specification says of it: it takes the heads of chains from the avail ring in
  order, carries out the requests it has taken in any order, reading the request from the chain of descriptors, and then writes the status
  and puts the head into the used ring. It holds the disk, by sector. It may also fail: then the status is not 0 (\<open>VIRTIO_BLK_S_OK\<close>), and what it was to
  write, the buffer or the block on the disk, holds anything. A chain it cannot follow is a \<open>Fault\<close>.

  \<open>done_ops\<close> records what happened to the data of buffers and to the disk, \<open>calls\<close> the requests made.
\<close>

datatype caller = NoRequest | Sleeping bool uint | Posted bool uint "nat list"

datatype vop = Transfer nat bool uint64 | Failed nat bool uint64 block | Store nat block

record vsys =
  drv :: vdisk
  caller :: "nat \<Rightarrow> caller"
  data :: "nat \<Rightarrow> block"
  dev_avail :: ushort
  dev_taken :: "nat list"
  dev_disk :: "uint64 \<Rightarrow> block"
  done_ops :: "vop list"
  calls :: "(nat \<times> bool \<times> uint64) list"

fun apply_op :: "vop \<Rightarrow> (nat \<Rightarrow> block) \<times> (uint64 \<Rightarrow> block) \<Rightarrow> (nat \<Rightarrow> block) \<times> (uint64 \<Rightarrow> block)" where
  "apply_op (Transfer b w x) (d, k) = (if w then (d, k(x := d b)) else (d(b := k x), k))"
| "apply_op (Failed b w x v) (d, k) = (if w then (d, k(x := v)) else (d(b := v), k))"
| "apply_op (Store b v) (d, k) = (d(b := v), k)"

fun failed_op :: "vop \<Rightarrow> bool" where
  "failed_op (Failed b w x v) = True"
| "failed_op op = False"

text \<open>What the device answers to a request: it was carried out, or an error status with what is left in the place to be written.\<close>

datatype answer = Done | Error byte block

fun answer_status :: "answer \<Rightarrow> byte" where
  "answer_status Done = 0"
| "answer_status (Error st v) = st"

fun answer_op :: "answer \<Rightarrow> nat \<Rightarrow> bool \<Rightarrow> uint64 \<Rightarrow> vop" where
  "answer_op Done b w x = Transfer b w x"
| "answer_op (Error st v) b w x = Failed b w x v"

definition dev_serve :: "answer \<Rightarrow> nat \<Rightarrow> vsys \<Rightarrow> vsys result" where
  "dev_serve r h s =
     (let t = drv s; d0 = desc t ! h; j = unat (nxt d0); d1 = desc t ! j; k = unat (nxt d1); d2 = desc t ! k in
      case (addr d0, addr d1, addr d2) of
        (OpsAddr i, DataAddr b, StatusAddr i') \<Rightarrow>
          if h < NUM \<and> j < NUM \<and> k < NUM \<and> i < NUM \<and> i' < NUM \<and> flags d0 AND VRING_DESC_F_NEXT \<noteq> 0 \<and> flags d1 AND VRING_DESC_F_NEXT \<noteq> 0
             \<and> flags d2 AND VRING_DESC_F_NEXT = 0 \<and> len d0 = 16 \<and> len d1 = 1024 \<and> len d2 = 1 \<and> flags d2 AND VRING_DESC_F_WRITE \<noteq> 0
             \<and> (flags d1 AND VRING_DESC_F_WRITE \<noteq> 0 \<longleftrightarrow> rtype (ops t ! i) = VIRTIO_BLK_T_IN)
             \<and> rtype (ops t ! i) \<in> {VIRTIO_BLK_T_IN, VIRTIO_BLK_T_OUT}
          then
            let p = answer_op r b (rtype (ops t ! i) = VIRTIO_BLK_T_OUT) (sector (ops t ! i)); (d, kd) = apply_op p (data s, dev_disk s) in
            Inr (s\<lparr>data := d, dev_disk := kd, done_ops := done_ops s @ [p],
              drv := t\<lparr>info := (info t)[i' := (info t ! i')\<lparr>status := answer_status r\<rparr>],
                used_ring := (used_ring t)[unat (used_didx t) mod NUM := of_nat h], used_didx := used_didx t + 1\<rparr>\<rparr>)
          else Inl (Fault ''chain'')
      | _ \<Rightarrow> Inl (Fault ''chain''))"

datatype event = Call nat bool uint | Retry nat | Wait_done nat | Edit nat block | Take | Serve nat | Fail nat byte block | Interrupt

definition try_start :: "nat \<Rightarrow> uint \<Rightarrow> bool \<Rightarrow> vsys \<Rightarrow> vsys result" where
  "try_start b n w s = bnd (rw_start b n w (drv s)) (\<lambda>(r, t).
     Inr (s\<lparr>drv := t, caller := (caller s)(b := case r of None \<Rightarrow> Sleeping w n | Some idx \<Rightarrow> Posted w n idx)\<rparr>))"

text \<open>An event that cannot happen leaves the state as it is.\<close>

fun vstep :: "event \<Rightarrow> vsys \<Rightarrow> vsys result" where
  "vstep (Call b w n) s =
     (if caller s b = NoRequest then try_start b n w (s\<lparr>calls := calls s @ [(b, w, sector_of n)]\<rparr>) else Inr s)"
| "vstep (Retry b) s = (case caller s b of Sleeping w n \<Rightarrow> try_start b n w s | _ \<Rightarrow> Inr s)"
| "vstep (Wait_done b) s = (case caller s b of
     Posted w n idx \<Rightarrow> bnd (rw_wait b idx (drv s)) (\<lambda>r. case r of
       None \<Rightarrow> Inr s
     | Some t \<Rightarrow> Inr (s\<lparr>drv := t, caller := (caller s)(b := NoRequest)\<rparr>))
   | _ \<Rightarrow> Inr s)"
| "vstep (Edit b v) s =
     (if caller s b = NoRequest then Inr (s\<lparr>data := (data s)(b := v), done_ops := done_ops s @ [Store b v]\<rparr>) else Inr s)"
| "vstep Take s =
     (if dev_avail s \<noteq> avail_idx (drv s)
      then Inr (s\<lparr>dev_taken := dev_taken s @ [unat (avail_ring (drv s) ! (unat (dev_avail s) mod NUM))], dev_avail := dev_avail s + 1\<rparr>)
      else Inr s)"
| "vstep (Serve h) s =
     (if h \<in> set (dev_taken s) then dev_serve Done h (s\<lparr>dev_taken := remove1 h (dev_taken s)\<rparr>) else Inr s)"
| "vstep (Fail h st v) s =
     (if h \<in> set (dev_taken s) \<and> st \<noteq> 0 then dev_serve (Error st v) h (s\<lparr>dev_taken := remove1 h (dev_taken s)\<rparr>) else Inr s)"
| "vstep Interrupt s = bnd (virtio_disk_intr (drv s)) (\<lambda>t. Inr (s\<lparr>drv := t\<rparr>))"

definition vsys_boot :: "(nat \<Rightarrow> block) \<Rightarrow> (uint64 \<Rightarrow> block) \<Rightarrow> vsys" where
  "vsys_boot d k = \<lparr>drv = vdisk_zero, caller = (\<lambda>_. NoRequest), data = d, dev_avail = 0, dev_taken = [], dev_disk = k, done_ops = [], calls = []\<rparr>"

end
