(* ===== verification/Virtio_Inv.thy ===== *)
theory Virtio_Inv
  imports Virtio
begin

unbundle bit_operations_syntax

text \<open>
  The invariant of the disk driver with its callers and the device. \<open>AV\<close>, \<open>TK\<close> and \<open>US\<close> are the heads of the chains that wait in the avail
  ring, that the device has taken, and that wait in the used ring.
\<close>

section \<open>The invariant\<close>

definition sizes_ok :: "vdisk \<Rightarrow> bool" where
  "sizes_ok t \<longleftrightarrow> length (desc t) = NUM \<and> length (avail_ring t) = NUM \<and> length (used_ring t) = NUM \<and> length (dfree t) = NUM
     \<and> length (info t) = NUM \<and> length (ops t) = NUM"

text \<open>The chain of a request.\<close>

definition chain_ok :: "vdisk \<Rightarrow> nat \<Rightarrow> bool \<Rightarrow> uint \<Rightarrow> nat list \<Rightarrow> bool" where
  "chain_ok t b w n idx \<longleftrightarrow> (\<exists>i j k. idx = [i, j, k] \<and> distinct idx \<and> set idx \<subseteq> {..<NUM}
     \<and> ops t ! i = \<lparr>rtype = (if w then VIRTIO_BLK_T_OUT else VIRTIO_BLK_T_IN), reserved = 0, sector = sector_of n\<rparr>
     \<and> desc t ! i = \<lparr>addr = OpsAddr i, len = 16, flags = VRING_DESC_F_NEXT, nxt = of_nat j\<rparr>
     \<and> desc t ! j = \<lparr>addr = DataAddr b, len = 1024, flags = (if w then 0 else VRING_DESC_F_WRITE) OR VRING_DESC_F_NEXT, nxt = of_nat k\<rparr>
     \<and> desc t ! k = \<lparr>addr = StatusAddr i, len = 1, flags = VRING_DESC_F_WRITE, nxt = 0\<rparr>
     \<and> ib (info t ! i) = Some b)"

definition owner :: "(nat \<Rightarrow> caller) \<Rightarrow> nat \<Rightarrow> nat \<Rightarrow> bool" where
  "owner cl x b \<longleftrightarrow> (\<exists>w n idx. cl b = Posted w n idx \<and> x \<in> set idx)"

definition head_of :: "(nat \<Rightarrow> caller) \<Rightarrow> nat \<Rightarrow> nat \<Rightarrow> bool" where
  "head_of cl h b \<longleftrightarrow> (\<exists>w n idx. cl b = Posted w n idx \<and> h = idx ! 0)"

definition core :: "vdisk \<Rightarrow> (nat \<Rightarrow> caller) \<Rightarrow> nat list \<Rightarrow> nat list \<Rightarrow> nat list \<Rightarrow> bool" where
  "core t cl AV TK US \<longleftrightarrow> sizes_ok t
     \<and> (\<forall>b w n idx. cl b = Posted w n idx \<longrightarrow> chain_ok t b w n idx)
     \<and> (\<forall>x b b'. owner cl x b \<and> owner cl x b' \<longrightarrow> b = b')
     \<and> (\<forall>x < NUM. dfree t ! x \<longleftrightarrow> (\<forall>b. \<not> owner cl x b))
     \<and> distinct (AV @ TK @ US)
     \<and> (\<forall>h. h \<in> set (AV @ TK @ US) \<longleftrightarrow> (\<exists>b. head_of cl h b \<and> bdisk t b = 1))
     \<and> (\<forall>b. bdisk t b = 1 \<longrightarrow> (\<exists>h. head_of cl h b))"

lemma coreD:
  assumes "core t cl AV TK US"
  shows "sizes_ok t" "cl b = Posted w n idx \<Longrightarrow> chain_ok t b w n idx" "owner cl x b \<Longrightarrow> owner cl x b' \<Longrightarrow> b = b'"
    "x < NUM \<Longrightarrow> dfree t ! x \<longleftrightarrow> (\<forall>b. \<not> owner cl x b)" "distinct (AV @ TK @ US)"
    "h \<in> set (AV @ TK @ US) \<longleftrightarrow> (\<exists>b. head_of cl h b \<and> bdisk t b = 1)"
    "bdisk t b = 1 \<Longrightarrow> \<exists>h. head_of cl h b"
  using assms unfolding core_def by blast+

lemma head_owner:
  assumes "core t cl AV TK US" "head_of cl h b"
  shows "owner cl h b" "h < NUM"
proof -
  obtain w n idx where c: "cl b = Posted w n idx" "h = idx ! 0" using assms(2) by (auto simp: head_of_def)
  then obtain i j k where "idx = [i, j, k]" "set idx \<subseteq> {..<NUM}" using coreD(2)[OF assms(1) c(1)] by (auto simp: chain_ok_def)
  then show "owner cl h b" "h < NUM" using c by (auto simp: owner_def)
qed

lemma head_unique: "core t cl AV TK US \<Longrightarrow> head_of cl h b \<Longrightarrow> head_of cl h b' \<Longrightarrow> b = b'"
  by (metis head_owner(1) coreD(3))

text \<open>Heads are numbers of descriptors, so the rings never overflow.\<close>

lemma room:
  assumes "core t cl AV TK US" "i < NUM" "i \<notin> set AV" "i \<notin> set US"
  shows "length AV < NUM" "length US < NUM"
proof -
  have b: "h < NUM" if "h \<in> set (AV @ TK @ US)" for h using coreD(6)[OF assms(1)] head_owner(2)[OF assms(1)] that by blast
  have "length xs < NUM" if "distinct xs" "set xs \<subseteq> set (AV @ TK @ US)" "i \<notin> set xs" for xs
  proof -
    have "set xs \<subseteq> {..<NUM} - {i}" using b that by auto
    then have "card (set xs) \<le> card ({..<NUM} - {i})" by (intro card_mono) auto
    then show ?thesis using distinct_card[OF that(1)] assms(2) by simp
  qed
  then show "length AV < NUM" "length US < NUM" using coreD(5)[OF assms(1)] assms(3,4) by auto
qed

text \<open>A request in the used ring with an error status.\<close>

definition bad :: "vdisk \<Rightarrow> nat list \<Rightarrow> bool" where
  "bad t US \<longleftrightarrow> (\<exists>h \<in> set US. status (info t ! h) \<noteq> 0)"

lemma bad_in_use:
  assumes "core t cl AV TK US" "\<And>x. x < NUM \<Longrightarrow> \<not> dfree t ! x \<Longrightarrow> status (info t' ! x) = status (info t ! x)"
  shows "bad t' US = bad t US"
proof -
  have "status (info t' ! h) = status (info t ! h)" if "h \<in> set US" for h
  proof -
    have "h \<in> set (AV @ TK @ US)" using that by simp
    then obtain b where b: "head_of cl h b" using coreD(6)[OF assms(1)] by blast
    show ?thesis using assms(2) head_owner[OF assms(1) b] coreD(4)[OF assms(1)] by blast
  qed
  then show ?thesis by (simp add: bad_def)
qed

lemma bad_serve:
  assumes "h < length (info t)" "h \<notin> set US" "info t' = (info t)[h := (info t ! h)\<lparr>status := st\<rparr>]"
  shows "bad t' (US @ [h]) \<longleftrightarrow> bad t US \<or> st \<noteq> 0"
proof -
  have "status (info t' ! x) = status (info t ! x)" if "x \<in> set US" for x using that assms(2) unfolding assms(3) by (cases "x = h") auto
  then show ?thesis using assms(1,3) by (auto simp: bad_def)
qed

section \<open>Allocating and freeing descriptors\<close>

lemma alloc_desc_cases:
  assumes "alloc_desc s = (r, s')"
  obtains (none) "r = -1" "s' = s" | (got) i where "r = int i" "i < NUM" "dfree s ! i" "s' = s\<lparr>dfree := (dfree s)[i := False]\<rparr>"
proof (cases "find (\<lambda>i. dfree s ! i) [0..<NUM]")
  case None
  then show ?thesis using assms none by (simp add: alloc_desc_def)
next
  case (Some i)
  then have "i < NUM" "dfree s ! i" using find_SomeD[OF Some] by auto
  then show ?thesis using assms got[of i] Some by (simp add: alloc_desc_def)
qed

lemma free_desc_ok:
  "i < NUM \<Longrightarrow> \<not> dfree s ! i \<Longrightarrow>
     free_desc (int i) s = Inr (s\<lparr>desc := (desc s)[i := no_desc], dfree := (dfree s)[i := True], woken := woken s @ [OnDiskFree]\<rparr>)"
  by (simp add: free_desc_def)

lemma alloc3_cases:
  assumes "sizes_ok s"
  obtains (short) d w where "alloc3_desc s = Inr (None, s\<lparr>desc := d, woken := w\<rparr>)" "length d = NUM" "\<And>x. x < NUM \<Longrightarrow> \<not> dfree s ! x \<Longrightarrow> d ! x = desc s ! x"
  | (three) i j k where "alloc3_desc s = Inr (Some [int i, int j, int k], s\<lparr>dfree := (dfree s)[i := False, j := False, k := False]\<rparr>)"
      "distinct [i, j, k]" "i < NUM" "j < NUM" "k < NUM" "dfree s ! i" "dfree s ! j" "dfree s ! k"
proof -
  have len: "length (dfree s) = NUM" "length (desc s) = NUM" using assms by (auto simp: sizes_ok_def)
  obtain r0 s0 where a0: "alloc_desc s = (r0, s0)" by fastforce
  from a0 show ?thesis
  proof (cases rule: alloc_desc_cases)
    case none
    then show ?thesis using a0 short[where d = "desc s" and w = "woken s"] len by (simp add: alloc3_desc_def numeral_3_eq_3)
  next
    case (got i)
    note i = got
    obtain r1 s1 where a1: "alloc_desc s0 = (r1, s1)" by fastforce
    from a1 show ?thesis
    proof (cases rule: alloc_desc_cases)
      case none
      have "free_desc (int i) s0 = Inr (s\<lparr>desc := (desc s)[i := no_desc], woken := woken s @ [OnDiskFree]\<rparr>)"
        using free_desc_ok[of i s0] i len by (simp add: list_update_same_conv)
      then have "alloc3_desc s = Inr (None, s\<lparr>desc := (desc s)[i := no_desc], woken := woken s @ [OnDiskFree]\<rparr>)"
        using a0 a1 i none by (simp add: alloc3_desc_def numeral_3_eq_3)
      then show ?thesis by (rule short) (use i len in \<open>auto simp: nth_list_update\<close>)
    next
      case (got j)
      note j = got
      have ij: "i \<noteq> j" using j(3) i len by (auto simp: nth_list_update)
      then have j3: "dfree s ! j" using j(3) i by simp
      obtain r2 s2 where a2: "alloc_desc s1 = (r2, s2)" by fastforce
      from a2 show ?thesis
      proof (cases rule: alloc_desc_cases)
        case none
        have same: "(dfree s)[i := False, j := False, i := True, j := True] = dfree s"
          using i j3 j(2) ij len by (intro nth_equalityI) (auto simp: nth_list_update)
        have "for_each free_desc [int i, int j] s1 = Inr (s\<lparr>desc := (desc s)[i := no_desc, j := no_desc], woken := woken s @ [OnDiskFree, OnDiskFree]\<rparr>)"
          using free_desc_ok[of i s1] i j ij len same by (simp add: free_desc_ok)
        then have "alloc3_desc s = Inr (None, s\<lparr>desc := (desc s)[i := no_desc, j := no_desc], woken := woken s @ [OnDiskFree, OnDiskFree]\<rparr>)"
          using a0 a1 a2 i j none by (simp add: alloc3_desc_def numeral_3_eq_3)
        then show ?thesis by (rule short) (use i j3 j(2) len in \<open>auto simp: nth_list_update\<close>)
      next
        case (got k)
        have ne: "k \<noteq> i" "k \<noteq> j" using got(2,3) i j ij len by (auto simp: nth_list_update)
        then have "dfree s ! k" using got(3) i j by simp
        moreover have "alloc3_desc s = Inr (Some [int i, int j, int k], s\<lparr>dfree := (dfree s)[i := False, j := False, k := False]\<rparr>)"
          using a0 a1 a2 i j got by (simp add: alloc3_desc_def numeral_3_eq_3)
        ultimately show ?thesis using three[of i j k] i j j3 ij ne got(2) by simp
      qed
    qed
  qed
qed

lemma free_chain_ok:
  assumes "chain_ok t0 b w n idx" "\<forall>x \<in> set idx. \<not> dfree t ! x" "length (dfree t) = NUM" "length (desc t) = NUM" "desc t = desc t0"
  shows "\<exists>d wk. free_chain (int (idx ! 0)) t = Inr (t\<lparr>desc := d, dfree := fold (\<lambda>x f. f[x := True]) idx (dfree t), woken := wk\<rparr>)
    \<and> length d = NUM \<and> (\<forall>x. x \<notin> set idx \<longrightarrow> d ! x = desc t ! x)"
proof -
  obtain i j k where c: "idx = [i, j, k]" "distinct [i, j, k]" "i < NUM" "j < NUM" "k < NUM"
    "flags (desc t ! i) = VRING_DESC_F_NEXT" "nxt (desc t ! i) = of_nat j"
    "flags (desc t ! j) = (if w then 0 else VRING_DESC_F_WRITE) OR VRING_DESC_F_NEXT" "nxt (desc t ! j) = of_nat k"
    "flags (desc t ! k) = VRING_DESC_F_WRITE"
    using assms(1,5) by (auto simp: chain_ok_def)
  have u: "Word.uint (of_nat x :: ushort) = int x" if "x < NUM" for x using that by (simp add: NUM_def uint_nat unat_of_nat)
  let ?t = "\<lambda>t i. t\<lparr>desc := (desc t)[i := no_desc], dfree := (dfree t)[i := True], woken := woken t @ [OnDiskFree]\<rparr>"
  have "free_chain_loop (Suc (Suc (Suc m))) (int i) t = Inr (?t (?t (?t t i) j) k)" for m
    using c u assms(2-4) by (cases w) (simp_all add: free_desc_ok VRING_DESC_F_NEXT_def VRING_DESC_F_WRITE_def Let_def)
  from this[of 6] have "free_chain (int i) t = Inr (?t (?t (?t t i) j) k)" by (simp add: free_chain_def NUM_def eval_nat_numeral)
  then show ?thesis using c(1) assms(4)
    by (intro exI[of _ "(desc t)[i := no_desc, j := no_desc, k := no_desc]"] exI[of _ "woken t @ [OnDiskFree, OnDiskFree, OnDiskFree]"]) simp
qed

section \<open>What each step keeps of the invariant\<close>

lemma chain_cong:
  assumes "chain_ok t b w n idx" "\<forall>x \<in> set idx. desc t' ! x = desc t ! x \<and> ops t' ! x = ops t ! x \<and> ib (info t' ! x) = ib (info t ! x)"
  shows "chain_ok t' b w n idx"
proof -
  obtain i j k where i: "idx = [i, j, k]" using assms(1) by (auto simp: chain_ok_def)
  show ?thesis using assms unfolding i chain_ok_def by simp
qed

text \<open>A step that changes neither who has posted what nor anything in use.\<close>

lemma core_cong:
  assumes "core t cl AV TK US" "sizes_ok t'" "dfree t' = dfree t" "bdisk t' = bdisk t"
    and "\<And>b w n idx. cl' b = Posted w n idx \<longleftrightarrow> cl b = Posted w n idx"
    and "\<And>x. x < NUM \<Longrightarrow> \<not> dfree t ! x \<Longrightarrow> desc t' ! x = desc t ! x \<and> ops t' ! x = ops t ! x \<and> info t' ! x = info t ! x"
  shows "core t' cl' AV TK US"
proof -
  have o: "owner cl' = owner cl" "head_of cl' = head_of cl" using assms(5) by (auto simp: owner_def head_of_def fun_eq_iff)
  have used: "x < NUM \<and> \<not> dfree t ! x" if "owner cl x b" for x b
    using that coreD(2)[OF assms(1)] coreD(4)[OF assms(1), of x] by (fastforce simp: owner_def chain_ok_def)
  have "chain_ok t' b w n idx" if "cl' b = Posted w n idx" for b w n idx
  proof (rule chain_cong[of t])
    show "chain_ok t b w n idx" using that assms(5) coreD(2)[OF assms(1)] by blast
    show "\<forall>x \<in> set idx. desc t' ! x = desc t ! x \<and> ops t' ! x = ops t ! x \<and> ib (info t' ! x) = ib (info t ! x)"
      using used[of _ b] that assms(5,6) by (fastforce simp: owner_def)
  qed
  then show ?thesis using assms(1,2) unfolding core_def o assms(3,4) by blast
qed

lemma core_post:
  assumes c: "core t cl AV TK US" and b: "\<And>w n idx. cl b \<noteq> Posted w n idx"
    and d: "distinct [i, j, k]" "i < NUM" "j < NUM" "k < NUM" "dfree t ! i" "dfree t ! j" "dfree t ! k"
  shows "core (rw_post b n w i j k (t\<lparr>dfree := (dfree t)[i := False, j := False, k := False]\<rparr>)) (cl(b := Posted w n [i, j, k])) (AV @ [i]) TK US"
    (is "core ?t ?cl _ _ _")
proof -
  note sz = coreD(1)[OF c, unfolded sizes_ok_def]
  have new: "owner ?cl x b' \<longleftrightarrow> (if b' = b then x \<in> {i, j, k} else owner cl x b')" "head_of ?cl x b' \<longleftrightarrow> (if b' = b then x = i else head_of cl x b')" for x b'
    by (auto simp: owner_def head_of_def)
  have nob: "\<not> owner cl x b" "\<not> head_of cl x b" for x using b by (auto simp: owner_def head_of_def)
  have free: "\<not> owner cl x b'" if "x \<in> {i, j, k}" for x b' using that d coreD(4)[OF c] by auto
  have nohead: "\<not> head_of cl x b'" if "x \<in> {i, j, k}" for x b' using free[OF that] head_owner(1)[OF c] by blast
  have b0: "bdisk t b \<noteq> 1" using coreD(7)[OF c] nob by blast
  have f: "length (desc ?t) = NUM" "length (avail_ring ?t) = NUM" "length (used_ring ?t) = NUM" "length (dfree ?t) = NUM" "length (info ?t) = NUM" "length (ops ?t) = NUM"
    "dfree ?t = (dfree t)[i := False, j := False, k := False]" "bdisk ?t = (bdisk t)(b := 1)"
    "info ?t = (info t)[i := (info t ! i)\<lparr>status := 0xff, ib := Some b\<rparr>]"
    "ops ?t = (ops t)[i := \<lparr>rtype = (if w then VIRTIO_BLK_T_OUT else VIRTIO_BLK_T_IN), reserved = 0, sector = sector_of n\<rparr>]"
    using sz d(2) by (simp_all add: rw_post_def Let_def)
  have ds: "x \<notin> {i, j, k} \<Longrightarrow> desc ?t ! x = desc t ! x" for x by (simp add: rw_post_def Let_def)
  have "chain_ok ?t b' w' n' idx" if "?cl b' = Posted w' n' idx" for b' w' n' idx
  proof (cases "b' = b")
    case True
    then show ?thesis using that d sz by (auto simp: chain_ok_def rw_post_def Let_def)
  next
    case False
    then have p: "cl b' = Posted w' n' idx" using that by simp
    have "desc ?t ! x = desc t ! x \<and> ops ?t ! x = ops t ! x \<and> ib (info ?t ! x) = ib (info t ! x)" if x: "x \<in> set idx" for x
    proof -
      have "x \<notin> {i, j, k}" using free[of x b'] p x by (auto simp: owner_def)
      then show ?thesis unfolding f(9,10) using ds[of x] by simp
    qed
    then show ?thesis using chain_cong[OF coreD(2)[OF c p]] by blast
  qed
  moreover have "x < NUM \<Longrightarrow> dfree ?t ! x \<longleftrightarrow> (\<forall>b. \<not> owner ?cl x b)" for x
  proof -
    assume x: "x < NUM"
    have "dfree ?t ! x \<longleftrightarrow> x \<notin> {i, j, k} \<and> dfree t ! x" unfolding f(7) using sz d by (auto simp: nth_list_update)
    moreover have "(\<forall>b. \<not> owner ?cl x b) \<longleftrightarrow> x \<notin> {i, j, k} \<and> (\<forall>b. \<not> owner cl x b)" using new(1)[of x] nob(1)[of x] by (metis (full_types))
    ultimately show ?thesis using coreD(4)[OF c x] by blast
  qed
  moreover have "owner ?cl x b1 \<Longrightarrow> owner ?cl x b2 \<Longrightarrow> b1 = b2" for x b1 b2
    using coreD(3)[OF c, of x b1 b2] free[of x] unfolding new by (auto split: if_splits)
  moreover have hs: "i \<notin> set (AV @ TK @ US)" using coreD(6)[OF c, of i] nohead[of i] by blast
  moreover have "h \<in> set ((AV @ [i]) @ TK @ US) \<longleftrightarrow> (\<exists>b'. head_of ?cl h b' \<and> bdisk ?t b' = 1)" for h
  proof -
    have "h \<in> set ((AV @ [i]) @ TK @ US) \<longleftrightarrow> h = i \<or> h \<in> set (AV @ TK @ US)" by auto
    moreover have "(\<exists>b'. head_of ?cl h b' \<and> bdisk ?t b' = 1) \<longleftrightarrow> h = i \<or> (\<exists>b'. head_of cl h b' \<and> bdisk t b' = 1)"
      unfolding f(8) using new(2)[of h] nob(2)[of h] by (metis fun_upd_apply)
    ultimately show ?thesis using coreD(6)[OF c, of h] by blast
  qed
  moreover have "bdisk ?t b' = 1 \<Longrightarrow> \<exists>h. head_of ?cl h b'" for b' using coreD(7)[OF c, of b'] unfolding f(8) new by (auto split: if_splits)
  moreover have "sizes_ok ?t" using f(1-6) by (simp add: sizes_ok_def)
  moreover have "distinct ((AV @ [i]) @ TK @ US)" using coreD(5)[OF c] hs by auto
  ultimately show ?thesis unfolding core_def by blast
qed

lemma fold_true_len: "length (fold (\<lambda>x f. f[x := True]) xs f) = length f"
  by (induction xs arbitrary: f) auto

lemma fold_true: "set xs \<subseteq> {..<length f} \<Longrightarrow> fold (\<lambda>x f. f[x := True]) xs f ! y \<longleftrightarrow> y \<in> set xs \<or> f ! y"
  by (induction xs arbitrary: f) (auto simp: nth_list_update)

lemma core_finish:
  assumes c: "core t cl AV TK US" and p: "cl b = Posted w n idx" and b: "bdisk t b \<noteq> 1"
  shows "\<exists>t'. rw_wait b idx t = Inr (Some t') \<and> core t' (cl(b := NoRequest)) AV TK US \<and> avail_ring t' = avail_ring t \<and> avail_idx t' = avail_idx t
    \<and> used_ring t' = used_ring t \<and> used_idx t' = used_idx t \<and> used_didx t' = used_didx t
    \<and> (\<forall>x. status (info t' ! x) = status (info t ! x))"
proof -
  note sz = coreD(1)[OF c, unfolded sizes_ok_def]
  let ?h = "idx ! 0" and ?cl = "cl(b := NoRequest)"
  let ?t = "t\<lparr>info := (info t)[?h := (info t ! ?h)\<lparr>ib := None\<rparr>]\<rparr>"
  have ch: "chain_ok t b w n idx" using coreD(2)[OF c p] .
  have own: "owner cl x b \<longleftrightarrow> x \<in> set idx" for x using p by (auto simp: owner_def)
  have hd: "?h \<in> set idx" "set idx \<subseteq> {..<NUM}" using ch by (auto simp: chain_ok_def)
  have "\<forall>x \<in> set idx. \<not> dfree ?t ! x" using coreD(4)[OF c] own hd(2) by fastforce
  from free_chain_ok[OF ch this] obtain d wk where fc: "free_chain (int ?h) ?t = Inr (?t\<lparr>desc := d, dfree := fold (\<lambda>x f. f[x := True]) idx (dfree t), woken := wk\<rparr>)"
    "length d = NUM" "\<And>x. x \<notin> set idx \<Longrightarrow> d ! x = desc t ! x" using sz by auto
  let ?u = "?t\<lparr>desc := d, dfree := fold (\<lambda>x f. f[x := True]) idx (dfree t), woken := wk\<rparr>"
  have new: "owner ?cl x b' \<longleftrightarrow> b' \<noteq> b \<and> owner cl x b'" "head_of ?cl x b' \<longleftrightarrow> b' \<noteq> b \<and> head_of cl x b'" for x b' by (auto simp: owner_def head_of_def)
  have other: "x \<notin> set idx" if "owner cl x b'" "b' \<noteq> b" for x b' using coreD(3)[OF c that(1), of b] own that(2) by blast
  have "chain_ok ?u b' w' n' idx'" if "?cl b' = Posted w' n' idx'" for b' w' n' idx'
  proof (rule chain_cong[of t])
    have p': "b' \<noteq> b" "cl b' = Posted w' n' idx'" using that by (auto split: if_splits)
    then show "chain_ok t b' w' n' idx'" using coreD(2)[OF c] by blast
    have "x \<notin> set idx" if "x \<in> set idx'" for x using other[of x b'] p' that by (auto simp: owner_def)
    then have "desc ?u ! x = desc t ! x \<and> ib (info ?u ! x) = ib (info t ! x)" if "x \<in> set idx'" for x using fc(3) hd(1) that by (cases "x = ?h") auto
    then show "\<forall>x \<in> set idx'. desc ?u ! x = desc t ! x \<and> ops ?u ! x = ops t ! x \<and> ib (info ?u ! x) = ib (info t ! x)" by simp
  qed
  moreover have "x < NUM \<Longrightarrow> dfree ?u ! x \<longleftrightarrow> (\<forall>b. \<not> owner ?cl x b)" for x
  proof -
    assume x: "x < NUM"
    have "dfree ?u ! x \<longleftrightarrow> x \<in> set idx \<or> dfree t ! x" using fold_true[of idx "dfree t" x] hd(2) sz by simp
    moreover have "(\<forall>b. \<not> owner ?cl x b) \<longleftrightarrow> x \<in> set idx \<or> (\<forall>b. \<not> owner cl x b)" using new(1)[of x] own[of x] other[of x] by metis
    ultimately show ?thesis using coreD(4)[OF c x] by blast
  qed
  moreover have "h \<in> set (AV @ TK @ US) \<longleftrightarrow> (\<exists>b'. head_of ?cl h b' \<and> bdisk ?u b' = 1)" for h unfolding coreD(6)[OF c] new using b by auto
  moreover have "sizes_ok ?u" using sz fc(2) fold_true_len[of idx "dfree t"] by (simp add: sizes_ok_def)
  moreover have "owner ?cl x b1 \<Longrightarrow> owner ?cl x b2 \<Longrightarrow> b1 = b2" for x b1 b2 using coreD(3)[OF c] unfolding new by blast
  moreover have "bdisk ?u b' = 1 \<Longrightarrow> \<exists>h. head_of ?cl h b'" for b' using coreD(7)[OF c, of b'] b unfolding new by auto
  ultimately have "core ?u ?cl AV TK US" using coreD(5)[OF c] unfolding core_def by blast
  moreover have "status (info ?u ! x) = status (info t ! x)" for x by (cases "x = ?h"; cases "?h < length (info t)") (simp_all add: list_update_beyond)
  ultimately show ?thesis using fc(1) b by (simp add: rw_wait_def)
qed

lemma core_take: "core t cl (h # AV) TK US \<Longrightarrow> core t cl AV (TK @ [h]) US"
  unfolding core_def by auto

lemma core_serve:
  assumes c: "core t cl AV TK US" and h: "h \<in> set TK"
    and t': "sizes_ok t'" "desc t' = desc t" "dfree t' = dfree t" "ops t' = ops t" "bdisk t' = bdisk t" "info t' = (info t)[h := (info t ! h)\<lparr>status := st\<rparr>]"
  shows "core t' cl AV (remove1 h TK) (US @ [h])"
proof -
  have hN: "h < NUM" using coreD(6)[OF c, of h] h head_owner(2)[OF c] by auto
  have "set (AV @ remove1 h TK @ US @ [h]) = set (AV @ TK @ US)" "distinct (AV @ remove1 h TK @ US @ [h])"
    using coreD(5)[OF c] h by auto
  moreover have "chain_ok t' b w n idx" if "cl b = Posted w n idx" for b w n idx
  proof (rule chain_cong[OF coreD(2)[OF c that]])
    have "ib (info t' ! x) = ib (info t ! x)" for x using coreD(1)[OF c] hN unfolding t'(6) by (cases "x = h") (auto simp: sizes_ok_def)
    then show "\<forall>x \<in> set idx. desc t' ! x = desc t ! x \<and> ops t' ! x = ops t ! x \<and> ib (info t' ! x) = ib (info t ! x)" unfolding t'(2,4) by simp
  qed
  ultimately show ?thesis using c t'(1) unfolding core_def t'(3,5) by blast
qed

lemma core_intr:
  assumes c: "core t cl AV TK (h # US)"
  obtains b where "h < NUM" "ib (info t ! h) = Some b"
    "\<And>wk ui. core (t\<lparr>bdisk := (bdisk t)(b := 0), woken := wk, used_idx := ui\<rparr>) cl AV TK US"
proof -
  have "h \<in> set (AV @ TK @ h # US)" by simp
  then obtain b where b: "head_of cl h b" "bdisk t b = 1" using coreD(6)[OF c] by blast
  obtain w n idx where p: "cl b = Posted w n idx" "h = idx ! 0" using b(1) by (auto simp: head_of_def)
  have ib: "ib (info t ! h) = Some b" using coreD(2)[OF c p(1)] p(2) by (auto simp: chain_ok_def)
  have ne: "x \<noteq> h" if "head_of cl x b'" "b' \<noteq> b" for x b' using that head_unique[OF c b(1)] by blast
  have "core (t\<lparr>bdisk := (bdisk t)(b := 0), woken := wk, used_idx := ui\<rparr>) cl AV TK US" (is "core ?t _ _ _ _") for wk ui
  proof -
    have "x \<in> set (AV @ TK @ US) \<longleftrightarrow> (\<exists>b'. head_of cl x b' \<and> bdisk ?t b' = 1)" for x
    proof -
      have "x \<in> set (AV @ TK @ US) \<longleftrightarrow> x \<in> set (AV @ TK @ h # US) \<and> x \<noteq> h" using coreD(5)[OF c] by auto
      also have "\<dots> \<longleftrightarrow> (\<exists>b'. head_of cl x b' \<and> bdisk t b' = 1) \<and> x \<noteq> h" unfolding coreD(6)[OF c] ..
      also have "\<dots> \<longleftrightarrow> (\<exists>b'. head_of cl x b' \<and> bdisk ?t b' = 1)"
      proof -
        have "x = h" if "head_of cl x b" using that p by (auto simp: head_of_def)
        moreover have "bdisk ?t b' = 1 \<longleftrightarrow> b' \<noteq> b \<and> bdisk t b' = 1" for b' by simp
        ultimately show ?thesis using ne by blast
      qed
      finally show ?thesis .
    qed
    moreover have "chain_ok ?t b' w' n' idx'" if "cl b' = Posted w' n' idx'" for b' w' n' idx' using coreD(2)[OF c that] by (simp add: chain_ok_def)
    ultimately show ?thesis using c unfolding core_def sizes_ok_def by simp
  qed
  then show ?thesis using that[of b] head_owner(2)[OF c b(1)] ib by simp
qed

end
