(* ===== verification/Virtio_Props.thy ===== *)
theory Virtio_Props
  imports Virtio_Inv
begin

unbundle bit_operations_syntax

text \<open>The properties of the disk driver, over every interleaving of its callers, the device and interrupts.\<close>

section \<open>The whole system\<close>

definition av :: "vsys \<Rightarrow> nat list" where
  "av s = map unat (ring_contents NUM (avail_ring (drv s)) (dev_avail s) (avail_idx (drv s)))"

definition us :: "vdisk \<Rightarrow> nat list" where
  "us t = map unat (ring_contents NUM (used_ring t) (used_idx t) (used_didx t))"

text \<open>The requests made for a buffer, those the device has answered, and the one still outstanding.\<close>

definition calls_of :: "vsys \<Rightarrow> nat \<Rightarrow> (bool \<times> uint64) list" where
  "calls_of s b = map snd (filter (\<lambda>c. fst c = b) (calls s))"

fun transfer_of :: "nat \<Rightarrow> vop \<Rightarrow> (bool \<times> uint64) list" where
  "transfer_of b (Transfer c w x) = (if c = b then [(w, x)] else [])"
| "transfer_of b (Failed c w x v) = (if c = b then [(w, x)] else [])"
| "transfer_of b (Store c v) = []"

definition served_of :: "vsys \<Rightarrow> nat \<Rightarrow> (bool \<times> uint64) list" where
  "served_of s b = concat (map (transfer_of b) (done_ops s))"

definition unserved :: "vsys \<Rightarrow> nat \<Rightarrow> (bool \<times> uint64) list" where
  "unserved s b = (case caller s b of
     NoRequest \<Rightarrow> []
   | Sleeping w n \<Rightarrow> [(w, sector_of n)]
   | Posted w n idx \<Rightarrow> if idx ! 0 \<in> set (av s @ dev_taken s) then [(w, sector_of n)] else [])"

definition vcore :: "vsys \<Rightarrow> bool" where
  "vcore s \<longleftrightarrow> core (drv s) (caller s) (av s) (dev_taken s) (us (drv s))"

text \<open>An error the interrupt handler has yet to find; and that the device has failed.\<close>

definition vbad :: "vsys \<Rightarrow> bool" where
  "vbad s \<longleftrightarrow> bad (drv s) (us (drv s))"

definition dev_failed :: "vsys \<Rightarrow> bool" where
  "dev_failed s \<longleftrightarrow> (\<exists>p \<in> set (done_ops s). failed_op p)"

definition vinv :: "(nat \<Rightarrow> block) \<times> (uint64 \<Rightarrow> block) \<Rightarrow> vsys \<Rightarrow> bool" where
  "vinv z s \<longleftrightarrow> vcore s \<and> (data s, dev_disk s) = fold apply_op (done_ops s) z \<and> (\<forall>b. calls_of s b = served_of s b @ unserved s b)
     \<and> (dev_failed s \<longleftrightarrow> vbad s)"

lemma num_ring: "NUM dvd 2 ^ LENGTH(16)" "NUM < 2 ^ LENGTH(16)"
  by (simp_all add: NUM_def)

lemma unat_small: "i < NUM \<Longrightarrow> unat (of_nat i :: ushort) = i" "i < NUM \<Longrightarrow> unat (of_nat i :: uint) = i"
  by (simp_all add: NUM_def unat_of_nat)

lemma vinv_boot: "vinv (d, k) (vsys_boot d k)"
proof -
  have "core vdisk_zero (\<lambda>_. NoRequest) [] [] []" by (simp add: core_def vdisk_zero_def sizes_ok_def owner_def head_of_def)
  moreover have "av (vsys_boot d k) = []" "us (drv (vsys_boot d k)) = []" by (simp_all add: av_def us_def vsys_boot_def vdisk_zero_def)
  ultimately have "vcore (vsys_boot d k)" by (simp add: vcore_def vsys_boot_def)
  moreover have "us vdisk_zero = []" by (simp add: us_def vdisk_zero_def)
  ultimately show ?thesis by (simp add: vinv_def vsys_boot_def calls_of_def served_of_def unserved_def dev_failed_def vbad_def bad_def)
qed

section \<open>Starting a request\<close>

lemma try_start_ok:
  assumes v: "vcore s" and b: "\<And>w n idx. caller s b \<noteq> Posted w n idx"
  shows "\<exists>s'. try_start b n w s = Inr s' \<and> vcore s' \<and> data s' = data s \<and> dev_disk s' = dev_disk s \<and> done_ops s' = done_ops s \<and> calls s' = calls s
    \<and> unserved s' b = [(w, sector_of n)] \<and> (\<forall>c. c \<noteq> b \<longrightarrow> unserved s' c = unserved s c) \<and> vbad s' = vbad s"
proof -
  let ?t = "drv s"
  have c: "core ?t (caller s) (av s) (dev_taken s) (us ?t)" using v by (simp add: vcore_def)
  note sz = coreD(1)[OF c]
  from sz show ?thesis
  proof (cases rule: alloc3_cases)
    case (short d wk)
    let ?t' = "?t\<lparr>desc := d, woken := wk\<rparr>" and ?cl = "(caller s)(b := Sleeping w n)"
    let ?s = "s\<lparr>drv := ?t', caller := ?cl\<rparr>"
    have "try_start b n w s = Inr ?s" using short(1) by (simp add: try_start_def rw_start_def)
    moreover have "av ?s = av s" "us ?t' = us ?t" by (simp_all add: av_def us_def)
    moreover have "core ?t' ?cl (av s) (dev_taken s) (us ?t)"
      by (rule core_cong[OF c]) (use sz short b in \<open>auto simp: sizes_ok_def\<close>)
    moreover have "bad ?t' (us ?t) = bad ?t (us ?t)" by (simp add: bad_def)
    ultimately show ?thesis by (auto simp: vcore_def unserved_def vbad_def split: caller.splits)
  next
    case (three i j k)
    let ?t' = "rw_post b n w i j k (?t\<lparr>dfree := (dfree ?t)[i := False, j := False, k := False]\<rparr>)" and ?cl = "(caller s)(b := Posted w n [i, j, k])"
    let ?s = "s\<lparr>drv := ?t', caller := ?cl\<rparr>"
    have "try_start b n w s = Inr ?s" using three(1) by (simp add: try_start_def rw_start_def Let_def)
    moreover have i: "i \<notin> set (av s @ dev_taken s @ us ?t)"
    proof -
      have "\<not> head_of (caller s) i c" for c using coreD(4)[OF c three(3)] three(6) head_owner(1)[OF c] by blast
      then show ?thesis using coreD(6)[OF c, of i] by blast
    qed
    moreover have a: "av ?s = av s @ [i]"
    proof -
      have "unat (avail_idx ?t - dev_avail s) < NUM" using room(1)[OF c three(3)] i by (simp add: av_def)
      from ring_put[OF num_ring this, of "avail_ring ?t" "of_nat i"] sz
      show ?thesis using unat_small(1)[OF three(3)] by (simp add: av_def rw_post_def Let_def sizes_ok_def)
    qed
    moreover have "us ?t' = us ?t" by (simp add: us_def rw_post_def Let_def)
    moreover have "core ?t' ?cl (av s @ [i]) (dev_taken s) (us ?t)" by (rule core_post[OF c b three(2-8)])
    moreover have "unserved ?s c = unserved s c" if "c \<noteq> b" for c
    proof -
      have "idx ! 0 \<noteq> i" if "caller s c = Posted w' n' idx" for w' n' idx
      proof -
        have "head_of (caller s) (idx ! 0) c" using that by (auto simp: head_of_def)
        then show ?thesis using coreD(4)[OF c three(3)] three(6) head_owner(1)[OF c] by blast
      qed
      then show ?thesis using that a by (auto simp: unserved_def split: caller.splits)
    qed
    moreover have "bad ?t' (us ?t) = bad ?t (us ?t)"
    proof (rule bad_in_use[OF c])
      fix x assume "x < NUM" "\<not> dfree ?t ! x"
      then have "x \<noteq> i" using three(6) by auto
      then show "status (info ?t' ! x) = status (info ?t ! x)" by (simp add: rw_post_def Let_def)
    qed
    ultimately show ?thesis by (auto simp: vcore_def unserved_def vbad_def)
  qed
qed

section \<open>The device\<close>

lemma take_ok:
  assumes v: "vcore s" and ne: "dev_avail s \<noteq> avail_idx (drv s)"
  shows "\<exists>s'. vstep Take s = Inr s' \<and> vcore s' \<and> data s' = data s \<and> dev_disk s' = dev_disk s \<and> done_ops s' = done_ops s \<and> calls s' = calls s \<and> unserved s' = unserved s \<and> vbad s' = vbad s"
proof -
  let ?h = "unat (avail_ring (drv s) ! (unat (dev_avail s) mod NUM))"
  let ?s = "s\<lparr>dev_taken := dev_taken s @ [?h], dev_avail := dev_avail s + 1\<rparr>"
  have a: "av s = ?h # av ?s" using ring_get[OF ne, of NUM "avail_ring (drv s)"] by (simp add: av_def)
  have "vcore ?s" using core_take[of "drv s" "caller s" ?h "av ?s" "dev_taken s" "us (drv s)"] v a by (simp add: vcore_def)
  moreover have "unserved ?s = unserved s" using a by (auto simp: unserved_def fun_eq_iff split: caller.splits)
  moreover have "vbad ?s = vbad s" by (simp add: vbad_def)
  ultimately show ?thesis using ne by simp
qed

lemma chain_serve:
  assumes "chain_ok (drv s) b w n idx" "sizes_ok (drv s)" "h = idx ! 0"
  shows "dev_serve r h s = (let p = answer_op r b w (sector_of n); (d, k) = apply_op p (data s, dev_disk s) in
    Inr (s\<lparr>data := d, dev_disk := k, done_ops := done_ops s @ [p],
      drv := (drv s)\<lparr>info := (info (drv s))[h := (info (drv s) ! h)\<lparr>status := answer_status r\<rparr>],
        used_ring := (used_ring (drv s))[unat (used_didx (drv s)) mod NUM := of_nat h], used_didx := used_didx (drv s) + 1\<rparr>\<rparr>))"
proof -
  obtain i j k where c: "idx = [i, j, k]" "i < NUM" "j < NUM" "k < NUM"
     "ops (drv s) ! i = \<lparr>rtype = (if w then VIRTIO_BLK_T_OUT else VIRTIO_BLK_T_IN), reserved = 0, sector = sector_of n\<rparr>"
     "desc (drv s) ! i = \<lparr>addr = OpsAddr i, len = 16, flags = VRING_DESC_F_NEXT, nxt = of_nat j\<rparr>"
     "desc (drv s) ! j = \<lparr>addr = DataAddr b, len = 1024, flags = (if w then 0 else VRING_DESC_F_WRITE) OR VRING_DESC_F_NEXT, nxt = of_nat k\<rparr>"
     "desc (drv s) ! k = \<lparr>addr = StatusAddr i, len = 1, flags = VRING_DESC_F_WRITE, nxt = 0\<rparr>"
    using assms(1) by (auto simp: chain_ok_def)
  have h: "h = i" using assms(3) c(1) by simp
  show ?thesis unfolding dev_serve_def h c(6) Let_def
    using c(2-5,7,8) unat_small(1)[OF c(3)] unat_small(1)[OF c(4)]
    by (cases w) (simp_all add: VRING_DESC_F_NEXT_def VRING_DESC_F_WRITE_def VIRTIO_BLK_T_OUT_def VIRTIO_BLK_T_IN_def)
qed

lemma serve_ok:
  assumes v: "vcore s" and h: "h \<in> set (dev_taken s)"
  shows "\<exists>s' b w n. dev_serve r h (s\<lparr>dev_taken := remove1 h (dev_taken s)\<rparr>) = Inr s' \<and> vcore s'
    \<and> (data s', dev_disk s') = apply_op (answer_op r b w (sector_of n)) (data s, dev_disk s)
    \<and> done_ops s' = done_ops s @ [answer_op r b w (sector_of n)] \<and> calls s' = calls s
    \<and> unserved s b = [(w, sector_of n)] \<and> unserved s' b = [] \<and> (\<forall>c. c \<noteq> b \<longrightarrow> unserved s' c = unserved s c)
    \<and> (vbad s' \<longleftrightarrow> vbad s \<or> answer_status r \<noteq> 0)"
proof -
  let ?t = "drv s"
  have c: "core ?t (caller s) (av s) (dev_taken s) (us ?t)" using v by (simp add: vcore_def)
  note sz = coreD(1)[OF c]
  have "h \<in> set (av s @ dev_taken s @ us ?t)" using h by simp
  then obtain b where b: "head_of (caller s) h b" using coreD(6)[OF c] by blast
  obtain w n idx where p: "caller s b = Posted w n idx" "h = idx ! 0" using b by (auto simp: head_of_def)
  have hN: "h < NUM" using head_owner(2)[OF c b] .
  obtain d k where dk: "apply_op (answer_op r b w (sector_of n)) (data s, dev_disk s) = (d, k)" by fastforce
  let ?t' = "?t\<lparr>info := (info ?t)[h := (info ?t ! h)\<lparr>status := answer_status r\<rparr>], used_ring := (used_ring ?t)[unat (used_didx ?t) mod NUM := of_nat h], used_didx := used_didx ?t + 1\<rparr>"
  let ?s = "s\<lparr>dev_taken := remove1 h (dev_taken s), data := d, dev_disk := k, done_ops := done_ops s @ [answer_op r b w (sector_of n)], drv := ?t'\<rparr>"
  have step: "dev_serve r h (s\<lparr>dev_taken := remove1 h (dev_taken s)\<rparr>) = Inr ?s"
    using chain_serve[of "s\<lparr>dev_taken := remove1 h (dev_taken s)\<rparr>" b w n idx h r] coreD(2)[OF c p(1)] sz p(2) h dk by simp
  have d: "distinct (av s @ dev_taken s @ us ?t)" using coreD(5)[OF c] .
  have hn: "h \<notin> set (av s)" "h \<notin> set (us ?t)" using d h by auto
  have a: "av ?s = av s" by (simp add: av_def)
  have u: "us ?t' = us ?t @ [h]"
  proof -
    have "unat (used_didx ?t - used_idx ?t) < NUM" using room(2)[OF c hN hn] by (simp add: us_def)
    from ring_put[OF num_ring this, of "used_ring ?t" "of_nat h"] sz show ?thesis using unat_small(2)[OF hN] by (simp add: us_def sizes_ok_def)
  qed
  have "core ?t' (caller s) (av s) (remove1 h (dev_taken s)) (us ?t @ [h])" by (rule core_serve[OF c h]) (use sz in \<open>simp_all add: sizes_ok_def\<close>)
  then have "vcore ?s" using a u by (simp add: vcore_def)
  moreover have "vbad ?s \<longleftrightarrow> vbad s \<or> answer_status r \<noteq> 0"
    using bad_serve[of h ?t "us ?t" ?t' "answer_status r"] hN hn(2) sz u by (simp add: vbad_def sizes_ok_def)
  moreover have "unserved s b = [(w, sector_of n)]" "unserved ?s b = []" using p h hn d a by (auto simp: unserved_def)
  moreover have "unserved ?s x = unserved s x" if "x \<noteq> b" for x
  proof -
    have "idx' ! 0 \<noteq> h" if "caller s x = Posted w' n' idx'" for w' n' idx'
      using head_unique[OF c b, of x] \<open>x \<noteq> b\<close> that by (auto simp: head_of_def)
    then show ?thesis using a by (auto simp: unserved_def in_set_remove1 split: caller.splits)
  qed
  ultimately show ?thesis using step dk by (intro exI[of _ ?s] exI[of _ b] exI[of _ w] exI[of _ n]) simp
qed

section \<open>Completion\<close>

lemma intr_loop_ok:
  "core t cl AV TK US \<Longrightarrow> us t = US \<Longrightarrow> \<not> bad t US \<Longrightarrow> \<exists>t'. intr_loop t = Inr t' \<and> core t' cl AV TK [] \<and> us t' = [] \<and> avail_ring t' = avail_ring t \<and> avail_idx t' = avail_idx t
     \<and> (\<forall>b. bdisk t' b = 1 \<longrightarrow> bdisk t b = 1) \<and> (\<forall>b. bdisk t b = 1 \<and> bdisk t' b \<noteq> 1 \<longrightarrow> OnDisk b \<in> set (woken t')) \<and> set (woken t) \<subseteq> set (woken t')"
proof (induction US arbitrary: t)
  case Nil
  then have "used_idx t = used_didx t" by (simp add: us_def ring_empty)
  then show ?case using Nil by (auto simp: intr_loop.simps[of t])
next
  case (Cons h US)
  have ne: "used_idx t \<noteq> used_didx t" using Cons.prems(2) by (auto simp: us_def)
  have r: "h = unat (used_ring t ! (unat (used_idx t) mod NUM))" "map unat (ring_contents NUM (used_ring t) (used_idx t + 1) (used_didx t)) = US"
    using Cons.prems(2) ring_get[OF ne, of NUM "used_ring t"] by (simp_all add: us_def)
  have st: "status (info t ! h) = 0" using Cons.prems(3) by (simp add: bad_def)
  obtain b where b: "h < NUM" "ib (info t ! h) = Some b"
    "core (t\<lparr>bdisk := (bdisk t)(b := 0), woken := woken t @ [OnDisk b], used_idx := used_idx t + 1\<rparr>) cl AV TK US"
    using core_intr[OF Cons.prems(1)] by metis
  let ?t = "t\<lparr>bdisk := (bdisk t)(b := 0), woken := woken t @ [OnDisk b], used_idx := used_idx t + 1\<rparr>"
  have loop: "intr_loop t = intr_loop ?t" using ne b(1,2) st r(1) by (subst intr_loop.simps) (simp add: Let_def)
  have "us ?t = US" using r(2) by (simp add: us_def)
  moreover have "\<not> bad ?t US" using Cons.prems(3) by (simp add: bad_def)
  ultimately obtain t' where t': "intr_loop ?t = Inr t'" "core t' cl AV TK []" "us t' = []" "avail_ring t' = avail_ring t" "avail_idx t' = avail_idx t"
    "\<And>c. bdisk t' c = 1 \<Longrightarrow> bdisk ?t c = 1" "\<And>c. bdisk ?t c = 1 \<Longrightarrow> bdisk t' c \<noteq> 1 \<Longrightarrow> OnDisk c \<in> set (woken t')" "set (woken ?t) \<subseteq> set (woken t')" using Cons.IH[OF b(3)] by auto
  have "OnDisk c \<in> set (woken t')" if "bdisk t c = 1" "bdisk t' c \<noteq> 1" for c using t'(7)[of c] t'(8) that by (cases "c = b") auto
  moreover have "bdisk t c = 1" if "bdisk t' c = 1" for c using t'(6)[OF that] by (auto split: if_splits)
  ultimately show ?case using loop t'(1-5,8) by auto
qed

lemma intr_loop_bad:
  "core t cl AV TK US \<Longrightarrow> us t = US \<Longrightarrow> bad t US \<Longrightarrow> intr_loop t = Inl (Panic ''virtio_disk_intr status'')"
proof (induction US arbitrary: t)
  case (Cons h US)
  have ne: "used_idx t \<noteq> used_didx t" using Cons.prems(2) by (auto simp: us_def)
  have r: "h = unat (used_ring t ! (unat (used_idx t) mod NUM))" "map unat (ring_contents NUM (used_ring t) (used_idx t + 1) (used_didx t)) = US"
    using Cons.prems(2) ring_get[OF ne, of NUM "used_ring t"] by (simp_all add: us_def)
  obtain b where b: "h < NUM" "ib (info t ! h) = Some b"
    "core (t\<lparr>bdisk := (bdisk t)(b := 0), woken := woken t @ [OnDisk b], used_idx := used_idx t + 1\<rparr>) cl AV TK US"
    using core_intr[OF Cons.prems(1)] by metis
  let ?t = "t\<lparr>bdisk := (bdisk t)(b := 0), woken := woken t @ [OnDisk b], used_idx := used_idx t + 1\<rparr>"
  show ?case
  proof (cases "status (info t ! h) = 0")
    case True
    then have "intr_loop t = intr_loop ?t" using ne b(1,2) r(1) by (subst intr_loop.simps) (simp add: Let_def)
    moreover have "us ?t = US" "bad ?t US" using r(2) True Cons.prems(3) by (auto simp: us_def bad_def)
    ultimately show ?thesis using Cons.IH[OF b(3)] by simp
  next
    case False
    then show ?thesis using ne b(1) r(1) by (subst intr_loop.simps) (simp add: Let_def)
  qed
qed (simp add: bad_def)

lemma interrupt_bad:
  assumes "vcore s" "vbad s"
  shows "vstep Interrupt s = Inl (Panic ''virtio_disk_intr status'')"
  using intr_loop_bad[of "drv s"] assms by (auto simp: vcore_def vbad_def virtio_disk_intr_def)

lemma interrupt_ok:
  assumes "vcore s" "\<not> vbad s"
  obtains s' where "vstep Interrupt s = Inr s'" "vcore s'" "us (drv s') = []" "data s' = data s" "dev_disk s' = dev_disk s" "done_ops s' = done_ops s"
    "calls s' = calls s" "caller s' = caller s" "unserved s' = unserved s"
    "\<And>b. bdisk (drv s) b = 1 \<Longrightarrow> bdisk (drv s') b \<noteq> 1 \<Longrightarrow> OnDisk b \<in> set (woken (drv s'))"
proof -
  have c: "core (drv s) (caller s) (av s) (dev_taken s) (us (drv s))" using assms(1) by (simp add: vcore_def)
  obtain t' where t': "intr_loop (drv s) = Inr t'" "core t' (caller s) (av s) (dev_taken s) []" "us t' = []" "avail_ring t' = avail_ring (drv s)"
    "avail_idx t' = avail_idx (drv s)" "\<forall>b. bdisk (drv s) b = 1 \<and> bdisk t' b \<noteq> 1 \<longrightarrow> OnDisk b \<in> set (woken t')"
    using intr_loop_ok[OF c refl] assms(2) unfolding vbad_def by blast
  let ?s = "s\<lparr>drv := t'\<rparr>"
  have a: "av ?s = av s" using t'(4,5) by (simp add: av_def)
  have "vcore ?s" using t'(2,3) a by (simp add: vcore_def)
  moreover have "unserved ?s = unserved s" using a by (auto simp: unserved_def fun_eq_iff split: caller.splits)
  ultimately show ?thesis using that[of ?s] t'(1,3,6) by (simp add: virtio_disk_intr_def)
qed

lemma wait_done_ok:
  assumes v: "vcore s" and p: "caller s b = Posted w n idx" and d: "bdisk (drv s) b \<noteq> 1"
  shows "\<exists>s'. vstep (Wait_done b) s = Inr s' \<and> vcore s' \<and> caller s' = (caller s)(b := NoRequest) \<and> data s' = data s \<and> dev_disk s' = dev_disk s \<and> done_ops s' = done_ops s
    \<and> calls s' = calls s \<and> unserved s' = unserved s \<and> vbad s' = vbad s"
proof -
  have c: "core (drv s) (caller s) (av s) (dev_taken s) (us (drv s))" using v by (simp add: vcore_def)
  obtain t' where t': "rw_wait b idx (drv s) = Inr (Some t')" "core t' ((caller s)(b := NoRequest)) (av s) (dev_taken s) (us (drv s))" "avail_ring t' = avail_ring (drv s)"
    "avail_idx t' = avail_idx (drv s)" "used_ring t' = used_ring (drv s)" "used_idx t' = used_idx (drv s)" "used_didx t' = used_didx (drv s)"
    "\<forall>x. status (info t' ! x) = status (info (drv s) ! x)"
    using core_finish[OF c p d] by blast
  let ?s = "s\<lparr>drv := t', caller := (caller s)(b := NoRequest)\<rparr>"
  have a: "av ?s = av s" "us t' = us (drv s)" using t'(3-7) by (simp_all add: av_def us_def)
  have h: "head_of (caller s) (idx ! 0) b" using p by (auto simp: head_of_def)
  have "idx ! 0 \<notin> set (av s @ dev_taken s)"
  proof
    assume "idx ! 0 \<in> set (av s @ dev_taken s)"
    then have "idx ! 0 \<in> set (av s @ dev_taken s @ us (drv s))" by auto
    then obtain b' where "head_of (caller s) (idx ! 0) b'" "bdisk (drv s) b' = 1" using coreD(6)[OF c] by blast
    then show False using head_unique[OF c h] d by blast
  qed
  then have "unserved ?s = unserved s" using a(1) p by (auto simp: unserved_def fun_eq_iff split: caller.splits)
  moreover have "vbad ?s = vbad s" using a(2) t'(8) by (simp add: vbad_def bad_def)
  ultimately show ?thesis using t'(1,2) a p by (intro exI[of _ ?s]) (simp add: vcore_def)
qed

section \<open>Every step\<close>

lemma vinv_same:
  assumes "vinv z s" "vcore s'" "data s' = data s" "dev_disk s' = dev_disk s" "done_ops s' = done_ops s" "calls s' = calls s" "unserved s' = unserved s"
    "vbad s' = vbad s"
  shows "vinv z s'"
  using assms by (simp add: vinv_def calls_of_def served_of_def dev_failed_def)

lemma vinvD:
  assumes "vinv z s"
  shows "vcore s" "(data s, dev_disk s) = fold apply_op (done_ops s) z" "calls_of s b = served_of s b @ unserved s b"
    "dev_failed s \<longleftrightarrow> vbad s"
  using assms by (auto simp: vinv_def)

lemma call_vinv:
  assumes i: "vinv z s" and b: "caller s b = NoRequest"
  shows "\<exists>s'. vstep (Call b w n) s = Inr s' \<and> vinv z s'"
proof -
  note I = vinvD[OF i]
  let ?s = "s\<lparr>calls := calls s @ [(b, w, sector_of n)]\<rparr>"
  have p0: "unserved s b = []" "vcore ?s" "unserved ?s = unserved s" "vbad ?s = vbad s"
    using b I(1) by (auto simp: unserved_def vcore_def vbad_def av_def fun_eq_iff split: caller.splits)
  obtain s' where s': "try_start b n w ?s = Inr s'" "vcore s'" "data s' = data s" "dev_disk s' = dev_disk s" "done_ops s' = done_ops s" "calls s' = calls ?s"
    "unserved s' b = [(w, sector_of n)]" "\<And>c. c \<noteq> b \<Longrightarrow> unserved s' c = unserved s c" "vbad s' = vbad s"
    using try_start_ok[OF p0(2), of b n w] b p0(3,4) by auto
  have "calls_of s' c = served_of s' c @ unserved s' c" for c
    using I(3)[of c] s'(5-8) p0(1) by (cases "c = b") (auto simp: calls_of_def served_of_def)
  moreover have "dev_failed s' = dev_failed s" using s'(5) by (simp add: dev_failed_def)
  ultimately show ?thesis using b s' I(2,4) by (simp add: vinv_def)
qed

lemma retry_vinv:
  assumes i: "vinv z s" and b: "caller s b = Sleeping w n"
  shows "\<exists>s'. vstep (Retry b) s = Inr s' \<and> vinv z s'"
proof -
  obtain s' where s': "try_start b n w s = Inr s'" "vcore s'" "data s' = data s" "dev_disk s' = dev_disk s" "done_ops s' = done_ops s" "calls s' = calls s"
    "unserved s' b = [(w, sector_of n)]" "\<And>c. c \<noteq> b \<Longrightarrow> unserved s' c = unserved s c" "vbad s' = vbad s"
    using try_start_ok[OF vinvD(1)[OF i], of b n w] b by auto
  have "unserved s b = [(w, sector_of n)]" using b by (simp add: unserved_def)
  then have "unserved s' = unserved s" using s'(7,8) by (metis ext)
  then show ?thesis using b s'(1) vinv_same[OF i s'(2-6) _ s'(9)] by simp
qed

lemma serve_vinv:
  assumes i: "vinv z s" and h: "h \<in> set (dev_taken s)" and r: "answer_status r \<noteq> 0 \<longleftrightarrow> r \<noteq> Done"
  shows "\<exists>s'. dev_serve r h (s\<lparr>dev_taken := remove1 h (dev_taken s)\<rparr>) = Inr s' \<and> vinv z s'"
proof -
  note I = vinvD[OF i]
  obtain s' b w n where s': "dev_serve r h (s\<lparr>dev_taken := remove1 h (dev_taken s)\<rparr>) = Inr s'" "vcore s'"
    "(data s', dev_disk s') = apply_op (answer_op r b w (sector_of n)) (data s, dev_disk s)"
    "done_ops s' = done_ops s @ [answer_op r b w (sector_of n)]" "calls s' = calls s"
    "unserved s b = [(w, sector_of n)]" "unserved s' b = []" "\<And>c. c \<noteq> b \<Longrightarrow> unserved s' c = unserved s c"
    "vbad s' \<longleftrightarrow> vbad s \<or> answer_status r \<noteq> 0"
    using serve_ok[OF I(1) h, of r] by blast
  have t: "transfer_of c (answer_op r b w x) = (if b = c then [(w, x)] else [])" "failed_op (answer_op r b w x) \<longleftrightarrow> r \<noteq> Done" for c x
    by (cases r; simp)+
  have "calls_of s' c = served_of s' c @ unserved s' c" for c
    using I(3)[of c] s'(4-8) by (cases "c = b") (auto simp: calls_of_def served_of_def t)
  moreover have "dev_failed s' \<longleftrightarrow> vbad s'" using s'(4,9) I(4) r by (auto simp: dev_failed_def t)
  ultimately show ?thesis using s'(1-4) I(2) by (auto simp: vinv_def)
qed

text \<open>A step keeps the invariant, except that an interrupt after a failure of the device panics.\<close>

lemma vstep_vinv:
  assumes "vinv z s"
  shows "(\<exists>s'. vstep e s = Inr s' \<and> vinv z s') \<or> dev_failed s \<and> vstep e s = Inl (Panic ''virtio_disk_intr status'')"
proof (cases e)
  case (Call b w n)
  then show ?thesis using call_vinv[OF assms] assms by (cases "caller s b = NoRequest") auto
next
  case (Retry b)
  then show ?thesis using retry_vinv[OF assms] assms by (cases "caller s b") auto
next
  case (Wait_done b)
  show ?thesis
  proof (cases "caller s b")
    case (Posted w n idx)
    show ?thesis
    proof (cases "bdisk (drv s) b = 1")
      case True
      then show ?thesis using Wait_done Posted assms by (simp add: rw_wait_def)
    next
      case False
      then show ?thesis using wait_done_ok[OF vinvD(1)[OF assms] Posted] vinv_same[OF assms] Wait_done by blast
    qed
  qed (use Wait_done assms in simp_all)
next
  case (Edit b x)
  have "vinv z (s\<lparr>data := (data s)(b := x), done_ops := done_ops s @ [Store b x]\<rparr>)"
    using assms by (auto simp: vinv_def vcore_def vbad_def dev_failed_def av_def calls_of_def served_of_def unserved_def split: caller.splits dest: sym)
  then show ?thesis using Edit assms by simp
next
  case Take
  then show ?thesis using take_ok[OF vinvD(1)[OF assms]] vinv_same[OF assms] assms by (cases "dev_avail s = avail_idx (drv s)") fastforce+
next
  case (Serve g)
  then show ?thesis using serve_vinv[OF assms, of g Done] assms by (cases "g \<in> set (dev_taken s)") auto
next
  case (Fail g st x)
  then show ?thesis using serve_vinv[OF assms, of g "Error st x"] assms by (cases "g \<in> set (dev_taken s) \<and> st \<noteq> 0") auto
next
  case Interrupt
  show ?thesis
  proof (cases "vbad s")
    case True
    then show ?thesis using interrupt_bad[OF vinvD(1)[OF assms]] vinvD(4)[OF assms] Interrupt by simp
  next
    case False
    obtain s' where s': "vstep Interrupt s = Inr s'" "vcore s'" "us (drv s') = []" "data s' = data s" "dev_disk s' = dev_disk s"
      "done_ops s' = done_ops s" "calls s' = calls s" "unserved s' = unserved s"
      using interrupt_ok[OF vinvD(1)[OF assms] False] by metis
    have "vbad s' = vbad s" using False s'(3) by (simp add: vbad_def bad_def)
    then show ?thesis using Interrupt s'(1) vinv_same[OF assms s'(2,4-8)] by blast
  qed
qed

lemma vstep_failed:
  assumes "vstep e s = Inr s'" "dev_failed s'" "\<not> dev_failed s"
  shows "\<exists>h st v. e = Fail h st v \<and> st \<noteq> 0"
proof (cases e)
  case (Serve h)
  then show ?thesis using assms by (auto simp: dev_serve_def dev_failed_def Let_def split: if_splits daddr.splits prod.splits)
next
  case (Fail h st v)
  then show ?thesis using assms by (auto split: if_splits)
qed (use assms in \<open>auto simp: try_start_def dev_failed_def bnd_eq_Inr split: if_splits caller.splits option.splits\<close>)

definition answers_error :: "event list \<Rightarrow> bool" where
  "answers_error es \<longleftrightarrow> (\<exists>h st v. Fail h st v \<in> set es \<and> st \<noteq> 0)"

lemma run_vinv:
  "vinv z s \<Longrightarrow> (\<exists>s'. for_each vstep es s = Inr s' \<and> vinv z s' \<and> (dev_failed s' \<longrightarrow> dev_failed s \<or> answers_error es))
     \<or> for_each vstep es s = Inl (Panic ''virtio_disk_intr status'') \<and> (dev_failed s \<or> answers_error es)"
proof (induction es arbitrary: s)
  case (Cons e es)
  from vstep_vinv[OF Cons.prems, of e] show ?case
  proof
    assume "\<exists>s'. vstep e s = Inr s' \<and> vinv z s'"
    then obtain s1 where s1: "vstep e s = Inr s1" "vinv z s1" by blast
    have "dev_failed s \<or> answers_error (e # es)" if "dev_failed s1 \<or> answers_error es"
    proof (cases "dev_failed s \<or> answers_error es")
      case True
      then show ?thesis unfolding answers_error_def by (auto intro: list.set_intros(2))
    next
      case False
      then show ?thesis using that vstep_failed[OF s1(1)] unfolding answers_error_def by (auto intro: list.set_intros(1))
    qed
    then show ?thesis using Cons.IH[OF s1(2)] s1(1) by auto
  qed auto
qed simp

lemma boot_clean: "\<not> dev_failed (vsys_boot d k)"
  by (simp add: dev_failed_def vsys_boot_def)

lemma boot_vinv:
  assumes "for_each vstep es (vsys_boot d k) = Inr s"
  shows "vinv (d, k) s" "dev_failed s \<Longrightarrow> answers_error es"
  using run_vinv[OF vinv_boot[of d k], of es] assms boot_clean[of d k] by auto

text \<open>
  C21. The disk driver does what it is asked, once. Callers, a device that follows the virtio specification, errors included, and interrupts
  do what they like, in whatever order, and the device need not answer in the order it was asked. Either the run goes on: then no chain of
  descriptors is ever wrong and no descriptor of a request in progress is free; the contents of buffers and disk are the result of the
  transfers the device has answered; the transfers answered for a buffer are exactly those requested, in that order, with at most the last one
  outstanding; and if one of them failed, no interrupt has come since, and the next one panics, so that a failed transfer is never taken for a
  good one. Or it ended in that panic, and the device did answer with an error status. The driver stops in no other way.
\<close>

theorem virtio_requests:
  "(\<exists>s. for_each vstep es (vsys_boot d k) = Inr s \<and> (data s, dev_disk s) = fold apply_op (done_ops s) (d, k)
      \<and> (\<forall>b. calls_of s b = served_of s b @ unserved s b \<and> (caller s b = NoRequest \<longrightarrow> unserved s b = []))
      \<and> (\<forall>x < NUM. dfree (drv s) ! x \<longleftrightarrow> (\<forall>b. \<not> owner (caller s) x b))
      \<and> (if \<exists>p \<in> set (done_ops s). failed_op p
         then vstep Interrupt s = Inl (Panic ''virtio_disk_intr status'') \<and> (\<exists>h st v. Fail h st v \<in> set es \<and> st \<noteq> 0)
         else \<exists>s'. vstep Interrupt s = Inr s'))
   \<or> for_each vstep es (vsys_boot d k) = Inl (Panic ''virtio_disk_intr status'') \<and> (\<exists>h st v. Fail h st v \<in> set es \<and> st \<noteq> 0)"
proof (cases "for_each vstep es (vsys_boot d k)")
  case (Inr s)
  note I = vinvD[OF boot_vinv(1)[OF Inr]]
  have "core (drv s) (caller s) (av s) (dev_taken s) (us (drv s))" using I(1) by (simp add: vcore_def)
  note free = coreD(4)[OF this]
  have none: "caller s b = NoRequest \<Longrightarrow> unserved s b = []" for b by (simp add: unserved_def)
  have "if dev_failed s then vstep Interrupt s = Inl (Panic ''virtio_disk_intr status'') \<and> answers_error es
      else \<exists>s'. vstep Interrupt s = Inr s'"
    using I(1,4) interrupt_bad[of s] boot_vinv(2)[OF Inr] interrupt_ok[of s] by metis
  then show ?thesis
    using Inr I(2,3) free unfolding dev_failed_def answers_error_def by (simp add: none del: vstep.simps)
next
  case (Inl e)
  then show ?thesis using run_vinv[OF vinv_boot[of d k], of es] boot_clean[of d k] by (simp add: answers_error_def)
qed

theorem virtio_requests_witness:
  "(\<exists>s. for_each vstep [Call 3 True 7, Call 4 False 7, Take, Take, Serve 3, Serve 0, Interrupt, Wait_done 3] (vsys_boot (\<lambda>_. []) (\<lambda>_. [])) = Inr s
     \<and> (\<forall>b. calls_of s b = served_of s b @ unserved s b))
   \<and> for_each vstep [Call 3 False 7, Take, Fail 0 1 [], Interrupt] (vsys_boot (\<lambda>_. []) (\<lambda>_. [])) = Inl (Panic ''virtio_disk_intr status'')"
proof -
  have "case for_each vstep [Call 3 False 7, Take, Fail 0 1 [], Interrupt] (vsys_boot (\<lambda>_. []) (\<lambda>_. [])) of Inl e \<Rightarrow> True | Inr s \<Rightarrow> False"
    by code_simp
  then have "\<nexists>s. for_each vstep [Call 3 False 7, Take, Fail 0 1 [], Interrupt] (vsys_boot (\<lambda>_. []) (\<lambda>_. [])) = Inr s" by (auto split: sum.splits)
  then have "for_each vstep [Call 3 False 7, Take, Fail 0 1 [], Interrupt] (vsys_boot (\<lambda>_. []) (\<lambda>_. [])) = Inl (Panic ''virtio_disk_intr status'')"
    using virtio_requests[of "[Call 3 False 7, Take, Fail 0 1 [], Interrupt]" "\<lambda>_. []" "\<lambda>_. []"] by blast
  moreover have "\<not> (\<exists>h st v. Fail h st v \<in> set [Call 3 True 7, Call 4 False 7, Take, Take, Serve 3, Serve 0, Interrupt, Wait_done 3] \<and> st \<noteq> 0)" by simp
  ultimately show ?thesis
    using virtio_requests[of "[Call 3 True 7, Call 4 False 7, Take, Take, Serve 3, Serve 0, Interrupt, Wait_done 3]" "\<lambda>_. []" "\<lambda>_. []"] by blast
qed

text \<open>
  C22. A request that the device has answered is given back to its caller: the interrupt handler clears the mark of its buffer and wakes the
  caller, which then returns from \<open>virtio_disk_rw\<close> and frees the three descriptors. Only when the device has answered some request with an
  error does the interrupt panic instead.
\<close>

theorem virtio_completes:
  assumes run: "for_each vstep es (vsys_boot d k) = Inr s" and p: "caller s b = Posted w n idx" and served: "unserved s b = []"
  shows "(\<exists>s1 s2. vstep Interrupt s = Inr s1 \<and> (bdisk (drv s) b = 1 \<longrightarrow> OnDisk b \<in> set (woken (drv s1)))
      \<and> vstep (Wait_done b) s1 = Inr s2 \<and> caller s2 = (caller s)(b := NoRequest) \<and> (\<forall>x \<in> set idx. dfree (drv s2) ! x))
    \<or> (\<exists>p \<in> set (done_ops s). failed_op p) \<and> vstep Interrupt s = Inl (Panic ''virtio_disk_intr status'')"
proof (cases "dev_failed s")
  case True
  note I = vinvD[OF boot_vinv(1)[OF run]]
  show ?thesis using True I(4) interrupt_bad[OF I(1)] by (simp add: dev_failed_def)
next
  case False
  note I = vinvD[OF boot_vinv(1)[OF run]]
  have v: "vcore s" "\<not> vbad s" using I(1,4) False by auto
  obtain s1 where s1: "vstep Interrupt s = Inr s1" "vcore s1" "us (drv s1) = []" "caller s1 = caller s" "unserved s1 = unserved s"
    "\<And>b. bdisk (drv s) b = 1 \<Longrightarrow> bdisk (drv s1) b \<noteq> 1 \<Longrightarrow> OnDisk b \<in> set (woken (drv s1))"
    using interrupt_ok[OF v] by metis
  have c1: "core (drv s1) (caller s1) (av s1) (dev_taken s1) []" using s1(2,3) by (simp add: vcore_def)
  have p1: "caller s1 b = Posted w n idx" "unserved s1 b = []" using p served s1(4,5) by simp_all
  have "bdisk (drv s1) b \<noteq> 1"
  proof
    assume "bdisk (drv s1) b = 1"
    moreover have "head_of (caller s1) (idx ! 0) b" using p1(1) by (auto simp: head_of_def)
    ultimately have "idx ! 0 \<in> set (av s1 @ dev_taken s1)" using coreD(6)[OF c1, of "idx ! 0"] by auto
    then show False using p1 by (auto simp: unserved_def split: if_splits)
  qed
  note f = this
  obtain s2 where s2: "vstep (Wait_done b) s1 = Inr s2" "vcore s2" "caller s2 = (caller s1)(b := NoRequest)" using wait_done_ok[OF s1(2) p1(1) f] by blast
  have c2: "core (drv s2) (caller s2) (av s2) (dev_taken s2) (us (drv s2))" using s2(2) by (simp add: vcore_def)
  have "dfree (drv s2) ! x" if x: "x \<in> set idx" for x
  proof -
    have o: "owner (caller s1) x b" using x p1(1) by (auto simp: owner_def)
    have "x < NUM" using coreD(2)[OF c1 p1(1)] x by (auto simp: chain_ok_def)
    moreover have "\<not> owner (caller s2) x c" for c using coreD(3)[OF c1 o, of c] unfolding s2(3) by (auto simp: owner_def split: if_splits)
    ultimately show ?thesis using coreD(4)[OF c2] by blast
  qed
  then show ?thesis using s1(1,4,6) s2(1,3) f by auto
qed

theorem virtio_completes_witness:
  "\<exists>s s1 s2. for_each vstep [Call 3 True 7, Take, Serve 0] (vsys_boot (\<lambda>_. []) (\<lambda>_. [])) = Inr s \<and> vstep Interrupt s = Inr s1
    \<and> OnDisk 3 \<in> set (woken (drv s1)) \<and> vstep (Wait_done 3) s1 = Inr s2 \<and> caller s2 3 = NoRequest"
proof -
  have "case for_each vstep [Call 3 True 7, Take, Serve 0] (vsys_boot (\<lambda>_. []) (\<lambda>_. [])) of Inl e \<Rightarrow> False
    | Inr s \<Rightarrow> caller s 3 = Posted True 7 [0, 1, 2] \<and> unserved s 3 = [] \<and> bdisk (drv s) 3 = 1 \<and> list_all (\<lambda>p. \<not> failed_op p) (done_ops s)" by code_simp
  then obtain s where s: "for_each vstep [Call 3 True 7, Take, Serve 0] (vsys_boot (\<lambda>_. []) (\<lambda>_. [])) = Inr s" "caller s 3 = Posted True 7 [0, 1, 2]" "unserved s 3 = []" "bdisk (drv s) 3 = 1"
    "list_all (\<lambda>p. \<not> failed_op p) (done_ops s)"
    by (auto split: sum.splits)
  from virtio_completes[OF s(1-3)] s(1,4,5) show ?thesis by (auto simp: list_all_iff)
qed

section \<open>What the buffer cache sees\<close>

lemma sector_of_inj:
  assumes "unat m < 2 ^ 31" "unat n < 2 ^ 31" "sector_of m = sector_of n"
  shows "m = n"
proof -
  have "unat (sector_of x) = 2 * unat x" if "unat x < 2 ^ 31" for x
    using that by (simp add: sector_of_def unsigned_ucast_eq unat_word_ariths take_bit_nat_eq_self)
  then have "unat m = unat n" using assms by (metis mult_left_cancel zero_neq_numeral)
  then show ?thesis by (simp add: word_unat_eq_iff)
qed

text \<open>A transfer is what \<open>Bio\<close> takes a call of \<open>virtio_disk_rw\<close> for: block \<open>n\<close> of the disk of \<open>Bio\<close> is at sector \<open>2 n\<close>.\<close>

definition same_disk :: "bcache \<Rightarrow> (nat \<Rightarrow> block) \<times> (uint64 \<Rightarrow> block) \<Rightarrow> bool" where
  "same_disk c = (\<lambda>(d, k). (\<forall>i < length (bufs c). d i = bdata (buf_at c i)) \<and> (\<forall>n. unat n < 2 ^ 31 \<longrightarrow> k (sector_of n) = disk c n))"

theorem transfer_is_disk_rw:
  assumes "same_disk c z" "i < length (bufs c)" "unat (blockno (buf_at c i)) < 2 ^ 31"
  shows "same_disk (virtio_disk_rw i w c) (apply_op (Transfer i w (sector_of (blockno (buf_at c i)))) z)"
proof -
  obtain d k where z: "z = (d, k)" by fastforce
  have "sector_of n = sector_of (blockno (buf_at c i)) \<longleftrightarrow> n = blockno (buf_at c i)" if "unat n < 2 ^ 31" for n
    using sector_of_inj[OF that assms(3)] by blast
  then show ?thesis using assms unfolding z same_disk_def virtio_disk_rw_def
    by (auto simp: Let_def set_buf_def nth_list_update)
qed

end
