(* ===== verification/Umalloc.thy ===== *)
theory Umalloc
  imports Prelude
begin

text \<open>
  The allocator of the user programs, \<^verbatim>\<open>user/umalloc.c\<close>. A \<open>Header\<close> is 16 bytes and every pointer of the allocator is a multiple of that, so
  addresses are counted in headers; \<open>uptr\<close> and \<open>usize\<close> are the two fields of the header at an address. A null pointer is 0. The
  free list is circular and in the order of addresses. \<open>sbrk\<close> is what a program sees of \<open>sys_sbrk\<close> and \<open>growproc\<close>: a positive amount is
  refused when the kernel has no pages for it, that is beyond \<open>ulim\<close>, which changes between calls; a negative amount below the start of memory changes nothing. The two loops have fuel, which
  the theorems show to be enough.
\<close>

section \<open>State and operations\<close>

record umem =
  uptr :: "nat \<Rightarrow> nat"
  usize :: "nat \<Rightarrow> nat"
  ubase :: nat  \<comment> \<open>the address of the static header \<open>base\<close>\<close>
  freep :: nat
  ubrk :: nat
  ulim :: nat

definition u32 :: "nat \<Rightarrow> nat" where
  "u32 n = n mod 4294967296"

fun free_find :: "nat \<Rightarrow> umem \<Rightarrow> nat \<Rightarrow> nat \<Rightarrow> nat result" where
  "free_find 0 s bp p = Inl (Fault ''fuel'')"
| "free_find (Suc n) s bp p =
     (if bp > p \<and> bp < uptr s p then Inr p
      else if p \<ge> uptr s p \<and> (bp > p \<or> bp < uptr s p) then Inr p
      else free_find n s bp (uptr s p))"

definition free :: "nat \<Rightarrow> umem \<Rightarrow> umem result" where
  "free ap s =
     (if freep s = 0 \<or> ap = 0 then Inl (Fault ''free'')
      else
        let bp = ap - 1 in
        bnd (free_find (ulim s + 2) s bp (freep s)) (\<lambda>p.
        let s = (if bp + usize s bp = uptr s p
                 then s\<lparr>usize := (usize s)(bp := u32 (usize s bp + usize s (uptr s p))), uptr := (uptr s)(bp := uptr s (uptr s p))\<rparr>
                 else s\<lparr>uptr := (uptr s)(bp := uptr s p)\<rparr>);
            s = (if p + usize s p = bp
                 then s\<lparr>usize := (usize s)(p := u32 (usize s p + usize s bp)), uptr := (uptr s)(p := uptr s bp)\<rparr>
                 else s\<lparr>uptr := (uptr s)(p := bp)\<rparr>)
        in Inr (s\<lparr>freep := p\<rparr>)))"

text \<open>\<open>sbrk\<close> takes an \<open>int\<close>: the number of bytes is cut to 32 bits. \<open>None\<close> is the answer -1.\<close>

definition sbrk :: "int \<Rightarrow> umem \<Rightarrow> nat option \<times> umem" where
  "sbrk bytes s =
     (let m = i32 bytes div 16 in
      if m \<ge> 0 then (if ubrk s + nat m \<le> ulim s then (Some (ubrk s), s\<lparr>ubrk := ubrk s + nat m\<rparr>) else (None, s))
      else (Some (ubrk s), if int (ubrk s) + m \<ge> 0 then s\<lparr>ubrk := nat (int (ubrk s) + m)\<rparr> else s))"

definition morecore :: "nat \<Rightarrow> umem \<Rightarrow> (nat option \<times> umem) result" where
  "morecore nu s =
     (let nu = (if nu < 4096 then 4096 else nu) in
      case sbrk (int nu * 16) s of
        (None, s) \<Rightarrow> Inr (None, s)
      | (Some hp, s) \<Rightarrow> bnd (free (hp + 1) (s\<lparr>usize := (usize s)(hp := nu)\<rparr>)) (\<lambda>s. Inr (Some (freep s), s)))"

text \<open>Taking a block that is large enough, from its end when it is larger.\<close>

definition malloc_take :: "nat \<Rightarrow> nat \<Rightarrow> nat \<Rightarrow> umem \<Rightarrow> nat \<times> umem" where
  "malloc_take nunits prevp p s =
     (if usize s p = nunits then (p + 1, s\<lparr>uptr := (uptr s)(prevp := uptr s p), freep := prevp\<rparr>)
      else
        let s = s\<lparr>usize := (usize s)(p := usize s p - nunits)\<rparr>;
            p = p + usize s p
        in (p + 1, s\<lparr>usize := (usize s)(p := nunits), freep := prevp\<rparr>))"

fun malloc_loop :: "nat \<Rightarrow> nat \<Rightarrow> nat \<Rightarrow> nat \<Rightarrow> umem \<Rightarrow> (nat \<times> umem) result" where
  "malloc_loop 0 nunits prevp p s = Inl (Fault ''fuel'')"
| "malloc_loop (Suc n) nunits prevp p s =
     (if usize s p \<ge> nunits then Inr (malloc_take nunits prevp p s)
      else if p = freep s then
        bnd (morecore nunits s) (\<lambda>(r, s). case r of
          None \<Rightarrow> Inr (0, s)
        | Some p \<Rightarrow> malloc_loop n nunits p (uptr s p) s)
      else malloc_loop n nunits p (uptr s p) s)"

definition malloc_init :: "umem \<Rightarrow> umem" where
  "malloc_init s = (if freep s = 0 then s\<lparr>uptr := (uptr s)(ubase s := ubase s), freep := ubase s, usize := (usize s)(ubase s := 0)\<rparr> else s)"

definition units :: "nat \<Rightarrow> nat" where
  "units nbytes = u32 ((nbytes + 16 - 1) div 16 + 1)"

definition malloc :: "nat \<Rightarrow> umem \<Rightarrow> (nat \<times> umem) result" where
  "malloc nbytes s =
     (let s = malloc_init s in malloc_loop (2 * ulim s + 8) (units nbytes) (freep s) (uptr s (freep s)) s)"

section \<open>Paths through the headers\<close>

fun path :: "(nat \<Rightarrow> nat) \<Rightarrow> nat \<Rightarrow> nat list \<Rightarrow> nat \<Rightarrow> bool" where
  "path f x [] y \<longleftrightarrow> x = y"
| "path f x (a # as) y \<longleftrightarrow> x = a \<and> path f (f a) as y"

lemma path_append [simp]: "path f x (as @ bs) z \<longleftrightarrow> (\<exists>y. path f x as y \<and> path f y bs z)"
  by (induction as arbitrary: x) auto

lemma path_cong: "path f x as y \<Longrightarrow> \<forall>a \<in> set as. g a = f a \<Longrightarrow> path g x as y"
  by (induction as arbitrary: x) auto

text \<open>The free list: \<open>base\<close>, then the free blocks by address.\<close>

definition free_list :: "umem \<Rightarrow> nat list \<Rightarrow> bool" where
  "free_list s F \<longleftrightarrow> path (uptr s) (ubase s) (ubase s # F) (ubase s) \<and> sorted_wrt (<) (ubase s # F) \<and> freep s \<in> set (ubase s # F)"

text \<open>Where \<open>free\<close> stops.\<close>

definition stops_at :: "umem \<Rightarrow> nat \<Rightarrow> nat \<Rightarrow> bool" where
  "stops_at s bp p \<longleftrightarrow> bp > p \<and> bp < uptr s p \<or> p \<ge> uptr s p \<and> (bp > p \<or> bp < uptr s p)"

lemma free_find_path:
  "path (uptr s) p C q \<Longrightarrow> \<exists>x \<in> set C. stops_at s bp x \<Longrightarrow> length C \<le> n \<Longrightarrow> \<exists>x \<in> set C. stops_at s bp x \<and> free_find n s bp p = Inr x"
proof (induction C arbitrary: p n)
  case (Cons a C)
  then obtain m where n: "n = Suc m" by (cases n) auto
  have p: "p = a" "path (uptr s) (uptr s a) C q" using Cons.prems(1) by auto
  show ?case
  proof (cases "stops_at s bp a")
    case True
    then show ?thesis using n p by (auto simp: stops_at_def)
  next
    case False
    then have "\<exists>x \<in> set C. stops_at s bp x \<and> free_find m s bp (uptr s a) = Inr x" using Cons.IH[OF p(2)] Cons.prems(2,3) n by auto
    then show ?thesis using n p False by (auto simp: stops_at_def)
  qed
qed simp

lemma split_ring:
  assumes "path f b L b" "L = xs @ p # ys"
  shows "path f p (p # ys @ xs) p"
  using assms by auto

lemma sorted_len:
  assumes "sorted_wrt (<) (L :: nat list)" "\<forall>x \<in> set L. x < m"
  shows "length L \<le> m"
proof -
  have "distinct L" using assms(1) by (simp add: strict_sorted_iff)
  then have "length L = card (set L)" by (simp add: distinct_card)
  also have "\<dots> \<le> card {..<m}" using assms(2) by (intro card_mono) auto
  finally show ?thesis by simp
qed

text \<open>It stops between the two free blocks that the freed one lies between.\<close>

lemma free_find_ok:
  assumes fl: "free_list s F" and bp: "ubase s < bp" "bp \<notin> set F" and n: "length F + 1 \<le> n"
  obtains xs p ys where "free_find n s bp (freep s) = Inr p" "ubase s # F = xs @ p # ys" "p < bp" "\<forall>y \<in> set ys. bp < y" "uptr s p = hd (ys @ [ubase s])"
proof -
  let ?L = "ubase s # F"
  have L: "path (uptr s) (ubase s) ?L (ubase s)" "sorted_wrt (<) ?L" "freep s \<in> set ?L" using fl by (simp_all add: free_list_def)
  obtain as bs where f: "?L = as @ freep s # bs" using split_list[OF L(3)] by blast
  let ?C = "freep s # bs @ as"
  have C: "path (uptr s) (freep s) ?C (freep s)" "set ?C = set ?L" "length ?C = length ?L" using split_ring[OF L(1) f] f by auto
  have nx: "uptr s p = hd (ys @ [ubase s])" if "?L = xs @ p # ys" for xs p ys
    using L(1) unfolding that by (cases ys) auto
  have st: "stops_at s bp p \<longleftrightarrow> p < bp \<and> (\<forall>y \<in> set ys. bp < y)" if e: "?L = xs @ p # ys" for xs p ys
  proof -
    have s: "ubase s \<le> p" "\<forall>y \<in> set ys. p < y" "sorted_wrt (<) ys" using L(2) e by (cases xs; auto simp: sorted_wrt_append)+
    show ?thesis
    proof (cases ys)
      case Nil
      then show ?thesis using nx[OF e] s(1) bp(1) by (auto simp: stops_at_def)
    next
      case (Cons y zs)
      then show ?thesis using nx[OF e] s by (fastforce simp: stops_at_def)
    qed
  qed
  define xs where "xs = takeWhile (\<lambda>x. x < bp) ?L"
  define ys where "ys = dropWhile (\<lambda>x. x < bp) ?L"
  have xy: "?L = xs @ ys" "xs \<noteq> []" using bp(1) by (simp_all add: xs_def ys_def)
  have y: "\<forall>y \<in> set ys. bp < y"
  proof (cases ys)
    case (Cons y zs)
    then have "\<not> y < bp" unfolding ys_def by (metis hd_dropWhile list.distinct(1) list.sel(1))
    moreover have "y \<in> set ?L" "\<forall>z \<in> set zs. y < z" using xy(1) Cons L(2) by (auto simp: sorted_wrt_append)
    moreover have "y \<noteq> bp" using calculation(2) bp by auto
    ultimately show ?thesis using Cons by auto
  qed simp
  have x: "last xs \<in> set xs" using xy(2) by simp
  then have "last xs < bp" unfolding xs_def by (meson set_takeWhileD)
  moreover have e: "?L = butlast xs @ last xs # ys" using xy by simp
  ultimately have "stops_at s bp (last xs)" using st[OF e] y by blast
  moreover have "last xs \<in> set ?L" unfolding xy(1) using x by simp
  ultimately have "\<exists>p \<in> set ?C. stops_at s bp p" using C(2) by blast
  then obtain p where p: "p \<in> set ?L" "stops_at s bp p" "free_find n s bp (freep s) = Inr p"
    using free_find_path[OF C(1), of bp n] C(2,3) n by auto
  obtain us vs where "?L = us @ p # vs" using split_list[OF p(1)] by blast
  then show ?thesis using that[of p us vs] p st nx by blast
qed

section \<open>The invariant\<close>

text \<open>
  The blocks of a heap: \<open>u\<close> and \<open>z\<close> are the fields of the headers, \<open>L\<close> is the free list with \<open>base\<close>, \<open>A\<close> is the set of headers of blocks handed out, \<open>m\<close> the
  break. Free and handed-out blocks lie between \<open>base\<close> and the break and do not overlap.
\<close>

definition blocks_ok :: "(nat \<Rightarrow> nat) \<Rightarrow> (nat \<Rightarrow> nat) \<Rightarrow> nat list \<Rightarrow> nat set \<Rightarrow> nat \<Rightarrow> bool" where
  "blocks_ok u z L A m \<longleftrightarrow> L \<noteq> [] \<and> path u (hd L) L (hd L) \<and> sorted_wrt (<) L \<and> z (hd L) = 0 \<and> set L \<inter> A = {} \<and> (\<forall>a \<in> A. hd L < a)
     \<and> (\<forall>a \<in> set (tl L) \<union> A. 0 < z a \<and> a + z a \<le> m)
     \<and> (\<forall>a \<in> set (tl L) \<union> A. \<forall>b \<in> set (tl L) \<union> A. a < b \<longrightarrow> a + z a \<le> b)"

text \<open>No free block ends where another begins.\<close>

definition coalesced :: "(nat \<Rightarrow> nat) \<Rightarrow> nat list \<Rightarrow> bool" where
  "coalesced z L \<longleftrightarrow> (\<forall>a \<in> set (tl L). a + z a \<notin> set L)"

definition free_units :: "(nat \<Rightarrow> nat) \<Rightarrow> nat list \<Rightarrow> nat set" where
  "free_units z L = (\<Union>a \<in> set L. {a..<a + z a})"

text \<open>The break is below \<open>2 ^ 28\<close> headers, 4 GB, so sizes do not wrap.\<close>

definition heap_ok :: "umem \<Rightarrow> nat list \<Rightarrow> nat set \<Rightarrow> bool" where
  "heap_ok s L A \<longleftrightarrow> blocks_ok (uptr s) (usize s) L A (ubrk s) \<and> coalesced (usize s) L \<and> hd L = ubase s \<and> 0 < ubase s \<and> freep s \<in> set L
     \<and> ubase s < ubrk s \<and> ubrk s \<le> ulim s \<and> ulim s < 2 ^ 28"

lemma blocks_okD:
  assumes "blocks_ok u z L A m"
  shows "L \<noteq> []" "path u (hd L) L (hd L)" "sorted_wrt (<) L" "z (hd L) = 0" "set L \<inter> A = {}" "a \<in> A \<Longrightarrow> hd L < a"
    "a \<in> set (tl L) \<union> A \<Longrightarrow> 0 < z a \<and> a + z a \<le> m"
    "a \<in> set (tl L) \<union> A \<Longrightarrow> b \<in> set (tl L) \<union> A \<Longrightarrow> a < b \<Longrightarrow> a + z a \<le> b"
  using assms unfolding blocks_ok_def by blast+

lemma blocks_above: "blocks_ok u z L A m \<Longrightarrow> a \<in> set (tl L) \<union> A \<Longrightarrow> hd L < a"
  using blocks_okD(3)[of u z L A m] blocks_okD(6)[of u z L A m] by (cases L) auto

lemma blocks_distinct: "blocks_ok u z L A m \<Longrightarrow> distinct L"
  using blocks_okD(3) by (auto simp: strict_sorted_iff)

lemma free_count: "heap_ok s L A \<Longrightarrow> length L \<le> ubrk s"
proof -
  assume h: "heap_ok s L A"
  then have b: "blocks_ok (uptr s) (usize s) L A (ubrk s)" "hd L = ubase s" "ubase s < ubrk s" by (auto simp: heap_ok_def)
  have "\<forall>x \<in> set L. x < ubrk s" using blocks_okD(7)[OF b(1)] b(2,3) blocks_okD(1)[OF b(1)] by (cases L) (auto, fastforce)
  then show ?thesis using sorted_len[OF blocks_okD(3)[OF b(1)]] by blast
qed

lemma heap_free_list:
  assumes "heap_ok s L A"
  shows "free_list s (tl L)" "L = ubase s # tl L"
  using assms blocks_okD(1-3)[of "uptr s" "usize s" L A "ubrk s"] by (cases L; auto simp: heap_ok_def free_list_def)+

lemma heap_above: "heap_ok s L A \<Longrightarrow> x \<in> set L \<Longrightarrow> 0 < x \<and> ubase s \<le> x"
  using heap_free_list[of s L A] by (cases L) (auto simp: heap_ok_def free_list_def)

text \<open>What lies behind the header of a block that is handed out belongs to the program: it is no header and not free.\<close>

lemma payload_apart:
  assumes b: "blocks_ok u z L A m" and a: "a \<in> A" "a < c" "c < a + z a"
  shows "c \<notin> set L" "c \<notin> A" "c < m" "c \<notin> free_units z L"
proof -
  note d = blocks_okD[OF b]
  have n: "c \<notin> {x..<x + z x}" if "x \<in> set (tl L) \<union> A" "x \<noteq> a" for x
    using d(8)[of x a] d(8)[of a x] that a by (cases "x < a") auto
  have t: "0 < z x" if "x \<in> set (tl L) \<union> A" for x using d(7)[OF that] by simp
  have h: "hd L < a" "L = hd L # tl L" "z (hd L) = 0" using d(1,4) d(6)[OF a(1)] by auto
  have "a \<notin> set L" using d(5) a(1) by auto
  then have "c \<notin> {x..<x + z x}" if "x \<in> set L" for x using n[of x] that h(2,3) by (cases "x = hd L") (auto, metis UnI1 atLeastLessThan_iff set_ConsD)
  then show "c \<notin> free_units z L" by (auto simp: free_units_def)
  have tl: "c \<notin> set (tl L) \<union> A" using n[of c] t[of c] a by force
  then show "c \<notin> A" by simp
  show "c \<notin> set L" using tl h(1,2) a(2) by (metis UnI1 not_less_iff_gr_or_eq set_ConsD)
  show "c < m" using d(7)[of a] a by simp
qed

text \<open>An operation that leaves the blocks \<open>A\<close> alone: their sizes and all they hold stay.\<close>

definition keeps :: "nat set \<Rightarrow> umem \<Rightarrow> umem \<Rightarrow> bool" where
  "keeps A s s' \<longleftrightarrow> ubase s' = ubase s \<and> ulim s' = ulim s
     \<and> (\<forall>a \<in> A. usize s' a = usize s a \<and> (\<forall>c. a < c \<longrightarrow> c < a + usize s a \<longrightarrow> uptr s' c = uptr s c \<and> usize s' c = usize s c))"

lemma keeps_trans: "keeps A s s' \<Longrightarrow> keeps A s' s'' \<Longrightarrow> keeps A s s''"
  by (simp add: keeps_def)

section \<open>Inserting and merging blocks\<close>

lemma insert_block:
  assumes b: "blocks_ok u z (xs @ p # ys) (insert bp A) m" and bp: "bp \<notin> A" "p < bp" "\<forall>y \<in> set ys. bp < y"
  shows "blocks_ok (u(bp := u p, p := bp)) z (xs @ p # bp # ys) A m" "free_units z (xs @ p # bp # ys) = free_units z (xs @ p # ys) \<union> {bp..<bp + z bp}"
proof -
  note d = blocks_okD[OF b]
  have hd: "hd (xs @ p # bp # ys) = hd (xs @ p # ys)" "set (tl (xs @ p # bp # ys)) = insert bp (set (tl (xs @ p # ys)))" by (cases xs; auto)+
  have n: "bp \<notin> set (xs @ p # ys)" using d(5) by auto
  have "path (u(bp := u p, p := bp)) (hd (xs @ p # ys)) (xs @ p # bp # ys) (hd (xs @ p # ys))"
  proof -
    let ?b = "hd (xs @ p # ys)"
    have "path u ?b xs p" "path u (u p) ys ?b" using d(2) by auto
    then have "path (u(bp := u p, p := bp)) ?b xs p" "path (u(bp := u p, p := bp)) (u p) ys ?b" using blocks_distinct[OF b] n by (auto elim!: path_cong)
    then show ?thesis using n by auto
  qed
  moreover have "sorted_wrt (<) (xs @ p # bp # ys)" using d(3) bp(2,3) by (auto simp: sorted_wrt_append)
  ultimately show "blocks_ok (u(bp := u p, p := bp)) z (xs @ p # bp # ys) A m"
    unfolding blocks_ok_def hd using d(4,5,7,8) d(6) bp(1) by auto
  show "free_units z (xs @ p # bp # ys) = free_units z (xs @ p # ys) \<union> {bp..<bp + z bp}" by (auto simp: free_units_def)
qed

lemma merge_blocks:
  assumes b: "blocks_ok u z (xs @ a # b # ys) A m" and adj: "a + z a = b" and xs: "xs \<noteq> []"
  shows "blocks_ok (u(a := u b)) (z(a := z a + z b)) (xs @ a # ys) A m" "free_units (z(a := z a + z b)) (xs @ a # ys) = free_units z (xs @ a # b # ys)"
proof -
  note d = blocks_okD[OF b]
  let ?z = "z(a := z a + z b)"
  have dist: "distinct (xs @ a # b # ys)" using blocks_distinct[OF b] .
  have hd: "hd (xs @ a # ys) = hd xs" "hd (xs @ a # b # ys) = hd xs" "set (tl (xs @ a # ys)) = set (tl xs) \<union> insert a (set ys)"
    "set (tl (xs @ a # b # ys)) = set (tl xs) \<union> insert a (insert b (set ys))" using xs by (cases xs; auto)+
  have a0: "hd xs \<noteq> a" using dist xs by (cases xs) auto
  have "path (u(a := u b)) (hd xs) (xs @ a # ys) (hd xs)"
  proof -
    have "path u (hd xs) xs a" "path u (u b) ys (hd xs)" using d(2) hd(2) by auto
    then have "path (u(a := u b)) (hd xs) xs a" "path (u(a := u b)) (u b) ys (hd xs)" using dist by (auto elim!: path_cong)
    then show ?thesis by auto
  qed
  moreover have "sorted_wrt (<) (xs @ a # ys)" using d(3) by (auto simp: sorted_wrt_append)
  moreover have "0 < ?z x \<and> x + ?z x \<le> m" if "x \<in> set (tl (xs @ a # ys)) \<union> A" for x
    using d(7)[of x] d(7)[of b] that adj unfolding hd by (auto split: if_splits)
  moreover have "x + ?z x \<le> y" if "x \<in> set (tl (xs @ a # ys)) \<union> A" "y \<in> set (tl (xs @ a # ys)) \<union> A" "x < y" for x y
  proof (cases "x = a")
    case True
    have m: "a \<in> set (tl (xs @ a # b # ys)) \<union> A" "b \<in> set (tl (xs @ a # b # ys)) \<union> A" "y \<in> set (tl (xs @ a # b # ys)) \<union> A" using that(2) unfolding hd by auto
    have "y \<noteq> b" using that(2) dist d(5) xs unfolding hd by (cases xs) auto
    moreover have "a + z a \<le> y" using d(8)[OF m(1,3)] that(3) True by simp
    ultimately have "b < y" using adj by simp
    then show ?thesis using d(8)[OF m(2,3)] adj True by simp
  next
    case False
    then show ?thesis using d(8)[of x y] that unfolding hd by auto
  qed
  moreover have "set (xs @ a # ys) \<inter> A = {}" using d(5) by auto
  ultimately show "blocks_ok (u(a := u b)) ?z (xs @ a # ys) A m"
    unfolding blocks_ok_def using d(4) d(6) a0 hd(1,2) by auto
  have "{a..<a + ?z a} = {a..<a + z a} \<union> {b..<b + z b}" using adj by auto
  moreover have "(\<Union>x \<in> set xs \<union> set ys. {x..<x + ?z x}) = (\<Union>x \<in> set xs \<union> set ys. {x..<x + z x})" using dist by (intro SUP_cong) auto
  moreover have "free_units f (xs @ a # ys) = {a..<a + f a} \<union> (\<Union>x \<in> set xs \<union> set ys. {x..<x + f x})"
    "free_units f (xs @ a # b # ys) = {a..<a + f a} \<union> {b..<b + f b} \<union> (\<Union>x \<in> set xs \<union> set ys. {x..<x + f x})" for f by (auto simp: free_units_def)
  ultimately show "free_units ?z (xs @ a # ys) = free_units z (xs @ a # b # ys)" by simp
qed

section \<open>Freeing\<close>

lemma heap_size: "heap_ok s L A \<Longrightarrow> a + n \<le> ubrk s \<Longrightarrow> u32 n = n"
  by (simp add: heap_ok_def u32_def)

text \<open>The blocks next to the one that is freed.\<close>

lemma free_ends:
  assumes b: "blocks_ok u z (xs @ p # ys) (insert bp A) m" and c: "coalesced z (xs @ p # ys)" and bp: "bp \<notin> A" "p < bp" "\<forall>y \<in> set ys. bp < y"
  shows "a \<in> set (tl (xs @ p # ys)) \<Longrightarrow> a \<noteq> p \<Longrightarrow> a + z a \<noteq> bp" "p + z p = bp \<Longrightarrow> xs \<noteq> []" "y \<in> set ys \<Longrightarrow> bp + z bp \<le> y"
proof -
  note d = blocks_okD[OF b]
  have p: "p \<in> set (tl (xs @ p # ys)) \<union> insert bp A" if "xs \<noteq> []" using that by (cases xs) auto
  show "a + z a \<noteq> bp" if a: "a \<in> set (tl (xs @ p # ys))" "a \<noteq> p"
  proof
    assume e: "a + z a = bp"
    then have "a < bp" using d(7)[of a] a by simp
    then have "a \<in> set xs" "xs \<noteq> []" using a bp(3) by (cases xs; fastforce)+
    then have "a < p" using d(3) by (auto simp: sorted_wrt_append)
    then show False using d(8)[of a p] p \<open>xs \<noteq> []\<close> a(1) e bp(2) by auto
  qed
  show "xs \<noteq> []" if "p + z p = bp" using d(4) that bp(2) by (cases xs) auto
  show "bp + z bp \<le> y" if "y \<in> set ys" using d(8)[of bp y] bp(3) that by (cases xs) auto
qed

lemma free_blocks:
  assumes b: "blocks_ok u z (xs @ p # ys) (insert bp A) m" and c: "coalesced z (xs @ p # ys)" and bp: "bp \<notin> A" "p < bp" "\<forall>y \<in> set ys. bp < y"
    and R: "R \<longleftrightarrow> ys \<noteq> [] \<and> bp + z bp = hd ys" and Q: "Q \<longleftrightarrow> p + z p = bp"
    and z1: "z1 = (if R then z(bp := z bp + z (hd ys)) else z)" and u1: "u1 = (if R then u(bp := u (hd ys)) else u(bp := u p))"
    and z2: "z2 = (if Q then z1(p := z1 p + z1 bp) else z1)" and u2: "u2 = (if Q then u1(p := u1 bp) else u1(p := bp))"
    and L: "L = xs @ p # (if Q then [] else [bp]) @ (if R then tl ys else ys)"
  shows "blocks_ok u2 z2 L A m" "coalesced z2 L" "free_units z2 L = free_units z (xs @ p # ys) \<union> {bp..<bp + z bp}" "\<And>a. a \<in> A \<Longrightarrow> z2 a = z a" "hd L = hd (xs @ p # ys)" "p \<in> set L"
proof -
  note ins = insert_block[OF b bp]
  note fe = free_ends[OF b c bp]
  have dist: "distinct (xs @ p # bp # ys)" using blocks_distinct[OF ins(1)] .
  let ?u = "u(bp := u p, p := bp)"
  have A: "bp \<notin> set (xs @ p # ys)" "A \<inter> set (xs @ p # ys) = {}" using blocks_okD(5)[OF b] by auto
  \<comment> \<open>first the block on the right\<close>
  let ?L1 = "xs @ p # bp # (if R then tl ys else ys)"
  have s1: "blocks_ok (u1(p := bp)) z1 ?L1 A m \<and> free_units z1 ?L1 = free_units z (xs @ p # bp # ys)"
  proof (cases R)
    case True
    then obtain y zs where y: "ys = y # zs" "bp + z bp = y" using R by (cases ys) auto
    have "blocks_ok (?u(bp := ?u y)) (z(bp := z bp + z y)) ((xs @ [p]) @ bp # zs) A m" "free_units (z(bp := z bp + z y)) ((xs @ [p]) @ bp # zs) = free_units z ((xs @ [p]) @ bp # y # zs)"
      using merge_blocks[of ?u z "xs @ [p]" bp y zs A m] ins(1) y by simp_all
    moreover have "?u(bp := ?u y) = u1(p := bp)" using True u1 y dist by (auto simp: fun_eq_iff)
    ultimately show ?thesis using True z1 y by simp
  next
    case False
    then show ?thesis using ins(1) u1 z1 by simp
  qed
  have "blocks_ok u2 z2 L A m \<and> free_units z2 L = free_units z (xs @ p # bp # ys)"
  proof (cases Q)
    case True
    have "p + z1 p = bp" using True Q z1 dist by simp
    from merge_blocks[OF conjunct1[OF s1] this] fe(2) Q True
    have "blocks_ok ((u1(p := bp))(p := (u1(p := bp)) bp)) (z1(p := z1 p + z1 bp)) (xs @ p # (if R then tl ys else ys)) A m"
      "free_units (z1(p := z1 p + z1 bp)) (xs @ p # (if R then tl ys else ys)) = free_units z1 ?L1" by auto
    moreover have "(u1(p := bp))(p := (u1(p := bp)) bp) = u2" using True u2 dist by (auto simp: fun_eq_iff)
    ultimately show ?thesis using True z2 L s1 by simp
  next
    case False
    then show ?thesis using s1 u2 z2 L by simp
  qed
  then show "blocks_ok u2 z2 L A m" "free_units z2 L = free_units z (xs @ p # ys) \<union> {bp..<bp + z bp}" using ins(2) by auto
  show "z2 a = z a" if "a \<in> A" for a using that A bp(1) z1 z2 by auto
  show "hd L = hd (xs @ p # ys)" "p \<in> set L" using L by (cases xs; simp)+
  have e: "bp + z1 bp \<notin> insert bp (set (xs @ p # ys))"
  proof (cases R)
    case True
    then obtain y zs where y: "ys = y # zs" "bp + z bp = y" using R by (cases ys) auto
    then have "y \<in> set (tl (xs @ p # ys))" by (cases xs) auto
    then show ?thesis using c True z1 y bp(3) by (auto simp: coalesced_def add.assoc[symmetric])
  next
    case False
    have "bp + z bp \<noteq> y" if "y \<in> set ys" for y
    proof -
      have "ys \<noteq> []" "sorted_wrt (<) ys" using that blocks_okD(3)[OF b] by (auto simp: sorted_wrt_append)
      then have "hd ys \<le> y" using that by (cases ys) auto
      then show ?thesis using fe(3)[of "hd ys"] False R \<open>ys \<noteq> []\<close> by auto
    qed
    moreover have "x \<le> p" if "x \<in> set (xs @ [p])" for x using that blocks_okD(3)[OF b] by (auto simp: sorted_wrt_append)
    moreover have "0 < z bp" using blocks_okD(7)[OF b, of bp] by simp
    ultimately show ?thesis using False z1 bp(2) by fastforce
  qed
  have sub: "set L \<subseteq> insert bp (set (xs @ p # ys))" "set (tl L) \<subseteq> insert bp (set (tl (xs @ p # ys)))"
    using L by (cases xs; cases ys; auto split: if_splits)+
  have "a + z2 a \<notin> insert bp (set (xs @ p # ys))" if a: "a \<in> set (tl L)" for a
  proof (cases "a = bp \<or> a = p \<and> Q")
    case True
    then have "a + z2 a = bp + z1 bp" using z2 z1 Q dist L a blocks_okD(5)[OF b] by (auto split: if_splits)
    then show ?thesis using e by simp
  next
    case False
    then have "z2 a = z a" "a \<in> set (tl (xs @ p # ys))" using z1 z2 a sub(2) by auto
    then show ?thesis using c fe(1)[of a] False Q by (auto simp: coalesced_def)
  qed
  then show "coalesced z2 L" using sub(1) unfolding coalesced_def by blast
qed

text \<open>A handed-out block that is freed becomes free memory and nothing else changes.\<close>

lemma free_ok:
  assumes h: "heap_ok s L (insert bp A)" and bp: "bp \<notin> A"
  obtains s' L' where "free (bp + 1) s = Inr s'" "heap_ok s' L' A" "free_units (usize s') L' = free_units (usize s) L \<union> {bp..<bp + usize s bp}"
    "keeps A s s'" "ubrk s' = ubrk s"
proof -
  have b: "blocks_ok (uptr s) (usize s) L (insert bp A) (ubrk s)" and c: "coalesced (usize s) L" and f0: "freep s \<noteq> 0" "freep s \<in> set L" "hd L = ubase s"
    using h heap_above[OF h] by (auto simp: heap_ok_def)
  note d = blocks_okD[OF b]
  have bb: "ubase s < bp" "bp \<notin> set (tl L)" "length (tl L) + 1 \<le> ulim s + 2"
    using d(5) d(6)[of bp] f0(3) free_count[OF h] h d(1) by (cases L; auto simp: heap_ok_def)+
  obtain xs p ys where f: "free_find (ulim s + 2) s bp (freep s) = Inr p" and L: "L = xs @ p # ys" and o: "p < bp" "\<forall>y \<in> set ys. bp < y" and n: "uptr s p = hd (ys @ [ubase s])"
    using free_find_ok[OF heap_free_list(1)[OF h] bb] heap_free_list(2)[OF h] by metis
  define R where "R \<longleftrightarrow> ys \<noteq> [] \<and> bp + usize s bp = hd ys"
  define Q where "Q \<longleftrightarrow> p + usize s p = bp"
  define z1 where "z1 = (if R then (usize s)(bp := usize s bp + usize s (hd ys)) else usize s)"
  define u1 where "u1 = (if R then (uptr s)(bp := uptr s (hd ys)) else (uptr s)(bp := uptr s p))"
  define z2 where "z2 = (if Q then z1(p := z1 p + z1 bp) else z1)"
  define u2 where "u2 = (if Q then u1(p := u1 bp) else u1(p := bp))"
  define L' where "L' = xs @ p # (if Q then [] else [bp]) @ (if R then tl ys else ys)"
  note fb = free_blocks[OF b[unfolded L] c[unfolded L] bp o R_def Q_def z1_def u1_def z2_def u2_def L'_def]
  let ?s = "s\<lparr>uptr := u2, usize := z2, freep := p\<rparr>"
  have R: "bp + usize s bp = uptr s p \<longleftrightarrow> R" "R \<Longrightarrow> uptr s p = hd ys" using n bb(1) by (cases ys; auto simp: R_def)+
  have e1: "bp + z1 bp \<le> ubrk s"
  proof (cases R)
    case True
    then have "hd ys \<in> set (tl L)" "bp + usize s bp = hd ys" using L by (cases xs; cases ys; auto simp: R_def)+
    then show ?thesis using d(7)[of "hd ys"] True by (simp add: z1_def)
  qed (use d(7)[of bp] in \<open>simp add: z1_def\<close>)
  have w: "R \<Longrightarrow> u32 (usize s bp + usize s (hd ys)) = usize s bp + usize s (hd ys)" "Q \<Longrightarrow> u32 (z1 p + z1 bp) = z1 p + z1 bp"
    using heap_size[OF h, of bp "z1 bp"] heap_size[OF h, of p "z1 p + z1 bp"] e1 o(1) by (auto simp: z1_def Q_def)
  have zp: "z1 p = usize s p" using o(1) by (simp add: z1_def)
  have "u2 c = uptr s c \<and> z2 c = usize s c" if "c \<noteq> p" "c \<noteq> bp" for c using that by (simp add: z2_def z1_def u2_def u1_def)
  moreover have "c \<noteq> p \<and> c \<noteq> bp" if "a \<in> A" "a < c" "c < a + usize s a" for a c
    using payload_apart(1,2)[OF b, of a c] that L by auto
  ultimately have "keeps A s ?s" using fb(4) by (auto simp: keeps_def)
  moreover have "free (bp + 1) s = Inr ?s"
  proof (cases R)
    case True
    then show ?thesis using f f0(1) R w zp by (auto simp: free_def bnd_Inr Let_def z1_def u1_def z2_def u2_def Q_def fun_upd_twist)
  next
    case False
    then show ?thesis using f f0(1) R w zp by (auto simp: free_def bnd_Inr Let_def z1_def u1_def z2_def u2_def Q_def)
  qed
  moreover have "heap_ok ?s L' A" using fb(1,2,5,6) h f0(3) L by (simp add: heap_ok_def)
  ultimately show ?thesis using that[of ?s L'] fb(3) L by simp
qed

section \<open>Taking a block\<close>

lemma take_exact:
  assumes b: "blocks_ok u z (xs @ q # x # ys) A m"
  shows "blocks_ok (u(q := u x)) z (xs @ q # ys) (insert x A) m" "x \<notin> A"
proof -
  note d = blocks_okD[OF b]
  have hd: "hd (xs @ q # ys) = hd (xs @ q # x # ys)" "set (tl (xs @ q # x # ys)) = insert x (set (tl (xs @ q # ys)))" by (cases xs; auto)+
  show x: "x \<notin> A" using d(5) by auto
  have "path (u(q := u x)) (hd (xs @ q # ys)) (xs @ q # ys) (hd (xs @ q # ys))"
  proof -
    let ?b = "hd (xs @ q # ys)"
    have "path u ?b xs q" "path u (u x) ys ?b" using d(2) hd(1) by auto
    then have "path (u(q := u x)) ?b xs q" "path (u(q := u x)) (u x) ys ?b" using blocks_distinct[OF b] by (auto elim!: path_cong)
    then show ?thesis by auto
  qed
  moreover have "sorted_wrt (<) (xs @ q # ys)" using d(3) by (auto simp: sorted_wrt_append)
  moreover have "set (xs @ q # ys) \<inter> insert x A = {}" using d(5) blocks_distinct[OF b] by auto
  moreover have "set (tl (xs @ q # ys)) \<union> insert x A = set (tl (xs @ q # x # ys)) \<union> A" using hd(2) by auto
  moreover have "hd (xs @ q # x # ys) < x" using blocks_above[OF b, of x] hd(2) by simp
  ultimately show "blocks_ok (u(q := u x)) z (xs @ q # ys) (insert x A) m" unfolding blocks_ok_def using d(4,6,7,8) hd(1) by auto
qed

lemma take_split:
  assumes b: "blocks_ok u z L A m" and x: "x \<in> set (tl L)" "0 < k" "k < z x" and t: "t = x + (z x - k)"
  shows "blocks_ok u (z(x := z x - k, t := k)) L (insert t A) m" "t \<notin> A" "t \<notin> set L"
proof -
  note d = blocks_okD[OF b]
  let ?z = "z(x := z x - k, t := k)"
  have xt: "x < t" "t < x + z x" "t + k = x + z x" "x \<noteq> t" using x(2,3) t by auto
  have out: "t \<notin> set (tl L) \<union> A"
  proof
    assume "t \<in> set (tl L) \<union> A"
    then show False using d(8)[of x t] x(1) xt by simp
  qed
  then show "t \<notin> A" by simp
  have above: "hd L < t" using blocks_above[OF b, of x] x(1) xt by simp
  then show n: "t \<notin> set L" using out d(1) by (cases L) auto
  have hx: "x \<noteq> hd L" using blocks_above[OF b, of x] x(1) by simp
  have sz: "0 < ?z y \<and> y + ?z y \<le> m" if "y \<in> set (tl L) \<union> insert t A" for y
    using d(7)[of y] d(7)[of x] x xt that by (auto split: if_splits)
  have "y + ?z y \<le> w" if y: "y \<in> set (tl L) \<union> insert t A" "w \<in> set (tl L) \<union> insert t A" "y < w" for y w
  proof -
    consider "y = t" | "y \<noteq> t" "w = t" "y = x" | "y \<noteq> t" "w = t" "y \<noteq> x" | "y \<noteq> t" "w \<noteq> t" by blast
    then show ?thesis
    proof cases
      case 1
      then show ?thesis using d(8)[of x w] x y xt by auto
    next
      case 2
      then show ?thesis using t xt(4) by simp
    next
      case 3
      then have "y < x \<or> x + z x \<le> y" using d(8)[of x y] x(1) y by (cases "x < y") auto
      then show ?thesis using 3 d(8)[of y x] x(1) y xt by auto
    next
      case 4
      then have "y + z y \<le> w" using d(8)[of y w] y by auto
      then show ?thesis using 4 by auto
    qed
  qed
  then show "blocks_ok u ?z L (insert t A) m" unfolding blocks_ok_def using d(1-6) sz n above hx by auto
qed

text \<open>A large enough block is taken whole or cut: the program gets a block of its own, of the size asked for.\<close>

definition served :: "nat \<Rightarrow> nat set \<Rightarrow> umem \<Rightarrow> nat \<Rightarrow> umem \<Rightarrow> bool" where
  "served k A s r s' \<longleftrightarrow> (\<exists>L bp. r = bp + 1 \<and> bp \<notin> A \<and> heap_ok s' L (insert bp A) \<and> usize s' bp = k \<and> keeps A s s' \<and> ubrk s \<le> ubrk s')"

lemma served_keeps: "keeps A s s' \<Longrightarrow> ubrk s \<le> ubrk s' \<Longrightarrow> served k A s' r s'' \<Longrightarrow> served k A s r s''"
  unfolding served_def by (fast intro: keeps_trans le_trans)

lemma coalesced_sub: "coalesced z L \<Longrightarrow> set L' \<subseteq> set L \<Longrightarrow> set (tl L') \<subseteq> set (tl L) \<Longrightarrow> coalesced z L'"
  by (auto simp: coalesced_def)

lemma malloc_take_ok:
  assumes h: "heap_ok s (xs @ q # x # ys) A" and k: "0 < k" "k \<le> usize s x"
  shows "served k A s (fst (malloc_take k q x s)) (snd (malloc_take k q x s))"
proof -
  let ?L = "xs @ q # x # ys"
  have b: "blocks_ok (uptr s) (usize s) ?L A (ubrk s)" and c: "coalesced (usize s) ?L" using h by (simp_all add: heap_ok_def)
  have x: "x \<in> set (tl ?L)" "q \<in> set ?L" by (cases xs; simp)+
  show ?thesis
  proof (cases "usize s x = k")
    case True
    let ?s = "s\<lparr>uptr := (uptr s)(q := uptr s x), freep := q\<rparr>"
    note t = take_exact[OF b]
    have "coalesced (usize s) (xs @ q # ys)" by (rule coalesced_sub[OF c]) (cases xs; auto)+
    moreover have "hd (xs @ q # ys) = hd ?L" by (cases xs) auto
    ultimately have "heap_ok ?s (xs @ q # ys) (insert x A)" using h t(1) by (auto simp: heap_ok_def)
    moreover have "keeps A s ?s" using payload_apart(1)[OF b, of _ q] x(2) by (auto simp: keeps_def)
    ultimately show ?thesis using True t(2) by (auto simp: served_def malloc_take_def)
  next
    case False
    then have lt: "k < usize s x" using k(2) by simp
    define t where "t = x + (usize s x - k)"
    let ?z = "(usize s)(x := usize s x - k, t := k)"
    let ?s = "s\<lparr>usize := ?z, freep := q\<rparr>"
    note sp = take_split[OF b x(1) k(1) lt t_def]
    have xt: "x < t" "t < x + usize s x" using k(1) lt t_def by auto
    have "coalesced ?z ?L"
    proof -
      have "a + ?z a \<notin> set ?L" if "a \<in> set (tl ?L)" for a
      proof (cases "a = x")
        case True
        then have "a + ?z a = t" using xt(1) t_def by auto
        then show ?thesis using sp(3) by simp
      next
        case False
        moreover have "a \<noteq> t" using that sp(3) list.set_sel(2)[of ?L a] by auto
        ultimately have "?z a = usize s a" by simp
        then show ?thesis using c that by (simp add: coalesced_def)
      qed
      then show ?thesis unfolding coalesced_def by blast
    qed
    then have "heap_ok ?s ?L (insert t A)" using h sp(1) x(2) by (simp add: heap_ok_def)
    moreover have "t \<in> free_units (usize s) ?L" using xt by (auto simp: free_units_def)
    then have "a \<noteq> x \<and> a \<noteq> t \<and> (\<forall>c. a < c \<longrightarrow> c < a + usize s a \<longrightarrow> c \<noteq> x \<and> c \<noteq> t)" if "a \<in> A" for a
      using payload_apart(1,4)[OF b that] sp(2) blocks_okD(5)[OF b] that by auto
    then have "keeps A s ?s" by (simp add: keeps_def)
    moreover have "malloc_take k q x s = (t + 1, ?s)" using False xt lt by (simp add: malloc_take_def Let_def t_def)
    ultimately show ?thesis using sp(2) by (auto simp: served_def)
  qed
qed

section \<open>Searching\<close>

text \<open>The loop of \<open>malloc\<close> over the rest of the ring: the first block that is large enough, or \<open>morecore\<close> once it is back at \<open>freep\<close>.\<close>

lemma malloc_scan:
  "path (uptr s) p (C @ [freep s]) e \<Longrightarrow> uptr s q = p \<Longrightarrow> freep s \<notin> set C \<Longrightarrow> length C < n \<Longrightarrow>
   (\<exists>r x. r \<in> insert q (set C) \<and> x \<in> set (C @ [freep s]) \<and> uptr s r = x \<and> k \<le> usize s x \<and> malloc_loop n k q p s = Inr (malloc_take k r x s)) \<or>
   (\<forall>x \<in> set (C @ [freep s]). usize s x < k) \<and>
   malloc_loop n k q p s = bnd (morecore k s) (\<lambda>(r, s). case r of None \<Rightarrow> Inr (0, s) | Some p \<Rightarrow> malloc_loop (n - length C - 1) k p (uptr s p) s)"
proof (induction C arbitrary: p q n)
  case Nil
  then obtain m where n: "n = Suc m" by (cases n) auto
  then have l: "n - length ([] :: nat list) - 1 = m" by simp
  show ?case unfolding l using Nil n by (cases "k \<le> usize s (freep s)") auto
next
  case (Cons a C)
  then obtain m where n: "n = Suc m" by (cases n) auto
  have p: "p = a" "path (uptr s) (uptr s a) (C @ [freep s]) e" "freep s \<noteq> a" "freep s \<notin> set C" "length C < m" using Cons.prems n by auto
  show ?case
  proof (cases "k \<le> usize s a")
    case True
    then have "malloc_loop n k q p s = Inr (malloc_take k q a s)" using n p(1) by simp
    moreover have "q \<in> insert q (set (a # C))" "a \<in> set ((a # C) @ [freep s])" "uptr s q = a" using p(1) Cons.prems(2) by simp_all
    ultimately show ?thesis using True by blast
  next
    case False
    then have e: "malloc_loop n k q p s = malloc_loop m k a (uptr s a) s" using n p(1,3) by simp
    have l: "n - length (a # C) - 1 = m - length C - 1" using n by simp
    from Cons.IH[OF p(2) refl p(4,5)] show ?thesis unfolding e l using False by auto
  qed
qed

lemma ring_scan:
  assumes h: "heap_ok s L A" and k: "0 < k" and n: "length L \<le> n"
  shows "(\<exists>r s'. malloc_loop n k (freep s) (uptr s (freep s)) s = Inr (r, s') \<and> served k A s r s') \<or>
    (\<forall>x \<in> set L. usize s x < k) \<and> (\<exists>m. n \<le> m + length L \<and>
      malloc_loop n k (freep s) (uptr s (freep s)) s = bnd (morecore k s) (\<lambda>(r, s). case r of None \<Rightarrow> Inr (0, s) | Some p \<Rightarrow> malloc_loop m k p (uptr s p) s))"
proof -
  have b: "blocks_ok (uptr s) (usize s) L A (ubrk s)" using h by (simp add: heap_ok_def)
  obtain as bs where f: "L = as @ freep s # bs" using h split_list[of "freep s" L] by (auto simp: heap_ok_def)
  let ?C = "bs @ as"
  have pa: "path (uptr s) (uptr s (freep s)) (?C @ [freep s]) (uptr s (freep s))" using split_ring[OF blocks_okD(2)[OF b] f] by auto
  have nC: "freep s \<notin> set ?C" "length ?C < n" "set (?C @ [freep s]) = set L" "n \<le> (n - length ?C - 1) + length L" using f n blocks_distinct[OF b] by auto
  from malloc_scan[OF pa refl nC(1,2), of k] show ?thesis
  proof (elim disjE)
    assume "\<exists>r x. r \<in> insert (freep s) (set ?C) \<and> x \<in> set (?C @ [freep s]) \<and> uptr s r = x \<and> k \<le> usize s x \<and> malloc_loop n k (freep s) (uptr s (freep s)) s = Inr (malloc_take k r x s)"
    then obtain r x where r: "r \<in> set L" "x \<in> set L" "uptr s r = x" "k \<le> usize s x" "malloc_loop n k (freep s) (uptr s (freep s)) s = Inr (malloc_take k r x s)"
      using nC(3) by auto
    obtain xs zs where L: "L = xs @ r # zs" using split_list[OF r(1)] by blast
    have "x \<noteq> hd L" using r(4) k blocks_okD(4)[OF b] by auto
    moreover have "x = hd (zs @ [hd L])" using blocks_okD(2)[OF b] r(3) L by (cases zs) auto
    ultimately obtain ys where "zs = x # ys" by (cases zs) auto
    then have "served k A s (fst (malloc_take k r x s)) (snd (malloc_take k r x s))" using malloc_take_ok[of s xs r x ys A k] h L k r(4) by simp
    then show ?thesis using r(5) by (metis prod.collapse)
  next
    assume "(\<forall>x \<in> set (?C @ [freep s]). usize s x < k) \<and> malloc_loop n k (freep s) (uptr s (freep s)) s =
      bnd (morecore k s) (\<lambda>(r, s). case r of None \<Rightarrow> Inr (0, s) | Some p \<Rightarrow> malloc_loop (n - length ?C - 1) k p (uptr s p) s)"
    then show ?thesis unfolding nC(3) using nC(4) by blast
  qed
qed

lemma ring_fit:
  assumes "heap_ok s L A" "0 < k" "length L \<le> n" "x \<in> set L" "k \<le> usize s x"
  obtains r s' where "malloc_loop n k (freep s) (uptr s (freep s)) s = Inr (r, s')" "served k A s r s'"
proof -
  have "\<not> (\<forall>x \<in> set L. usize s x < k)" using assms(4,5) by (meson leD)
  then show ?thesis using ring_scan[OF assms(1-3)] that by blast
qed

text \<open>Contiguous free memory is one block.\<close>

lemma free_run:
  assumes b: "blocks_ok u z L A m" and c: "coalesced z L" and run: "{lo..<lo + k} \<subseteq> free_units z L" "0 < k"
  obtains x where "x \<in> set L" "k \<le> z x"
proof -
  note d = blocks_okD[OF b]
  have tl: "x \<in> set (tl L) \<union> A" if "x \<in> set L" "0 < z x" for x using that d(4) by (cases L) auto
  have "lo \<in> free_units z L" using run by auto
  then obtain x where x: "x \<in> set L" "x \<le> lo" "lo < x + z x" by (auto simp: free_units_def)
  have "lo + k \<le> x + z x"
  proof (rule ccontr)
    assume "\<not> lo + k \<le> x + z x"
    then have "x + z x \<in> free_units z L" using run(1) x by auto
    then obtain y where y: "y \<in> set L" "y \<le> x + z x" "x + z x < y + z y" by (auto simp: free_units_def)
    have xt: "x \<in> set (tl L) \<union> A" "y \<in> set (tl L) \<union> A" using tl x y by auto
    have "x \<in> set (tl L)" using xt(1) x(1) d(5) by auto
    moreover have "y = x + z x"
    proof (cases "x < y")
      case True
      then show ?thesis using d(8)[OF xt] y(2) by simp
    next
      case False
      then have "x = y \<or> y + z y \<le> x" using d(8)[OF xt(2,1)] by linarith
      then show ?thesis using y by auto
    qed
    ultimately show False using c y(1) by (auto simp: coalesced_def)
  qed
  then show ?thesis using that[of x] x by simp
qed

lemma heap_free_run:
  assumes "heap_ok s L A" "{lo..<lo + k} \<subseteq> free_units (usize s) L" "0 < k"
  obtains x where "x \<in> set L" "k \<le> usize s x"
  using assms free_run[of "uptr s" "usize s" L A "ubrk s" lo k] unfolding heap_ok_def by blast

section \<open>More memory\<close>

text \<open>For sizes that fit in an \<open>int\<close>, \<open>morecore\<close> has a block of the size asked for or the break cannot move.\<close>

lemma sbrk_grow: "16 * k < 2 ^ 31 \<Longrightarrow> sbrk (int k * 16) s = (if ubrk s + k \<le> ulim s then (Some (ubrk s), s\<lparr>ubrk := ubrk s + k\<rparr>) else (None, s))"
  by (simp add: sbrk_def i32_def Let_def)

lemma grow_block:
  assumes h: "heap_ok s L A" and k: "0 < k" "ubrk s + k \<le> ulim s"
  shows "heap_ok (s\<lparr>ubrk := ubrk s + k, usize := (usize s)(ubrk s := k)\<rparr>) L (insert (ubrk s) A)" "ubrk s \<notin> A" "free_units ((usize s)(ubrk s := k)) L = free_units (usize s) L"
    "keeps A s (s\<lparr>ubrk := ubrk s + k, usize := (usize s)(ubrk s := k)\<rparr>)"
proof -
  have b: "blocks_ok (uptr s) (usize s) L A (ubrk s)" and hd: "hd L = ubase s" "ubase s < ubrk s" using h by (simp_all add: heap_ok_def)
  note d = blocks_okD[OF b]
  have "0 < usize s a \<and> a + usize s a \<le> ubrk s" if "a \<in> set (tl L) \<union> A" for a using d(7)[OF that] .
  then have lt: "\<forall>a \<in> set (tl L) \<union> A. a < ubrk s" by fastforce
  then show nA: "ubrk s \<notin> A" by auto
  have nL: "\<forall>a \<in> set L. a < ubrk s" using lt hd d(1) by (cases L) auto
  then show "free_units ((usize s)(ubrk s := k)) L = free_units (usize s) L" unfolding free_units_def by (intro SUP_cong) auto
  let ?z = "(usize s)(ubrk s := k)"
  have sz: "0 < ?z a \<and> a + ?z a \<le> ubrk s + k" if "a \<in> set (tl L) \<union> insert (ubrk s) A" for a
    using d(7)[of a] that k(1) by (cases "a = ubrk s") auto
  have sep: "a + ?z a \<le> c" if a: "a \<in> set (tl L) \<union> insert (ubrk s) A" "c \<in> set (tl L) \<union> insert (ubrk s) A" "a < c" for a c
  proof -
    have "c \<le> ubrk s" using a(2) lt by (auto simp: less_imp_le)
    then have "a \<noteq> ubrk s" "a \<in> set (tl L) \<union> A" using a by auto
    then show ?thesis using d(7)[of a] d(8)[of a c] a by (cases "c = ubrk s") auto
  qed
  have "blocks_ok (uptr s) ?z L (insert (ubrk s) A) (ubrk s + k)"
    unfolding blocks_ok_def using d(1-5) d(6) sz sep nL hd by auto
  moreover have "coalesced ((usize s)(ubrk s := k)) L"
    using h lt by (auto simp: heap_ok_def coalesced_def)
  ultimately show "heap_ok (s\<lparr>ubrk := ubrk s + k, usize := (usize s)(ubrk s := k)\<rparr>) L (insert (ubrk s) A)" using h k by (simp add: heap_ok_def)
  have "c < ubrk s" if "a \<in> A" "a < c" "c < a + usize s a" for a c using payload_apart(3)[OF b that] .
  then show "keeps A s (s\<lparr>ubrk := ubrk s + k, usize := (usize s)(ubrk s := k)\<rparr>)" using nA by (auto simp: keeps_def)
qed

lemma morecore_ok:
  assumes h: "heap_ok s L A" and k: "16 * max k 4096 < 2 ^ 31"
  shows "morecore k s = Inr (None, s) \<and> ulim s < ubrk s + max k 4096 \<or>
    (\<exists>s' L'. morecore k s = Inr (Some (freep s'), s') \<and> heap_ok s' L' A \<and> (\<exists>x \<in> set L'. k \<le> usize s' x) \<and> keeps A s s' \<and> ubrk s \<le> ubrk s')"
proof -
  let ?k = "max k 4096"
  have m: "(if k < 4096 then 4096 else k) = ?k" by simp
  note sb = sbrk_grow[OF k, of s]
  show ?thesis
  proof (cases "ubrk s + ?k \<le> ulim s")
    case True
    let ?s = "s\<lparr>ubrk := ubrk s + ?k, usize := (usize s)(ubrk s := ?k)\<rparr>"
    have g: "heap_ok ?s L (insert (ubrk s) A)" "ubrk s \<notin> A" "keeps A s ?s" using grow_block[OF h _ True] by simp_all
    obtain s' L' where f: "free (ubrk s + 1) ?s = Inr s'" "heap_ok s' L' A" "free_units (usize s') L' = free_units (usize ?s) L \<union> {ubrk s..<ubrk s + usize ?s (ubrk s)}"
      "keeps A ?s s'" "ubrk s' = ubrk ?s"
      by (rule free_ok[OF g(1,2)])
    have "{ubrk s..<ubrk s + ?k} \<subseteq> free_units (usize s') L'" "0 < ?k" "ubrk s \<le> ubrk s'" using f(3,5) by auto
    then obtain x where "x \<in> set L'" "?k \<le> usize s' x" using heap_free_run[OF f(2)] by blast
    moreover have "morecore k s = Inr (Some (freep s'), s')" unfolding morecore_def m Let_def sb using True f(1) by (simp add: bnd_Inr)
    ultimately show ?thesis using f(2) \<open>ubrk s \<le> ubrk s'\<close> keeps_trans[OF g(3) f(4)] by (meson max.boundedE)
  next
    case False
    then have "morecore k s = Inr (None, s)" unfolding morecore_def m Let_def sb by simp
    then show ?thesis using False by simp
  qed
qed

section \<open>malloc\<close>

text \<open>The states a program can meet: nothing was allocated yet, or a heap with the blocks \<open>A\<close> handed out.\<close>

definition umem_ok :: "umem \<Rightarrow> nat set \<Rightarrow> bool" where
  "umem_ok s A \<longleftrightarrow> (if freep s = 0 then A = {} \<and> 0 < ubase s \<and> ubase s < ubrk s \<and> ubrk s \<le> ulim s \<and> ulim s < 2 ^ 28 else \<exists>L. heap_ok s L A)"

lemma malloc_init_ok: "umem_ok s A \<Longrightarrow> (\<exists>L. heap_ok (malloc_init s) L A) \<and> keeps A s (malloc_init s) \<and> ubrk (malloc_init s) = ubrk s"
proof (cases "freep s = 0")
  case True
  assume "umem_ok s A"
  then have "heap_ok (malloc_init s) [ubase s] {}" "A = {}" using True by (auto simp: umem_ok_def malloc_init_def heap_ok_def blocks_ok_def coalesced_def)
  then show ?thesis using True by (auto simp: keeps_def malloc_init_def)
qed (auto simp: umem_ok_def malloc_init_def keeps_def)

lemma heap_umem: "heap_ok s L A \<Longrightarrow> umem_ok s A \<and> freep s \<noteq> 0"
  using heap_above[of s L A "freep s"] by (auto simp: umem_ok_def heap_ok_def)

lemma units_room: "nbytes < 2 ^ 32 \<Longrightarrow> 0 < units nbytes \<and> nbytes \<le> 16 * (units nbytes - 1) \<and> 16 * units nbytes < nbytes + 32"
  by (simp add: units_def u32_def) presburger

text \<open>A request is served from a free block, or from new memory, or answered 0 when there is neither.\<close>

lemma malloc_ok:
  assumes o: "umem_ok s A" and nb: "nbytes < 2 ^ 31 - 32"
  shows "(\<exists>r s'. malloc nbytes s = Inr (r, s') \<and> served (units nbytes) A s r s') \<or>
    (\<exists>s' L. malloc nbytes s = Inr (0, s') \<and> heap_ok s' L A \<and> keeps A s s' \<and> ubrk s' = ubrk s \<and>
      (\<forall>x \<in> set L. usize s' x < units nbytes) \<and> ulim s < ubrk s + max (units nbytes) 4096)"
proof -
  let ?s = "malloc_init s" and ?k = "units nbytes"
  obtain L where h: "heap_ok ?s L A" and kp: "keeps A s ?s" "ubrk ?s = ubrk s" using malloc_init_ok[OF o] by auto
  let ?n = "2 * ulim ?s + 8"
  have k: "0 < ?k" "16 * max ?k 4096 < 2 ^ 31" using units_room[of nbytes] nb by auto
  have eq: "malloc nbytes s = malloc_loop ?n ?k (freep ?s) (uptr ?s (freep ?s)) ?s" by (simp add: malloc_def Let_def)
  have len: "length L \<le> ulim ?s" using free_count[OF h] h by (simp add: heap_ok_def)
  then have n: "length L \<le> ?n" by simp
  from ring_scan[OF h k(1) n] show ?thesis
  proof (elim disjE conjE exE)
    fix r s' assume "malloc_loop ?n ?k (freep ?s) (uptr ?s (freep ?s)) ?s = Inr (r, s')" "served ?k A ?s r s'"
    then show ?thesis using eq served_keeps[OF kp(1)] kp(2) by auto
  next
    fix m assume all: "\<forall>x \<in> set L. usize ?s x < ?k" and m: "?n \<le> m + length L"
      and e: "malloc_loop ?n ?k (freep ?s) (uptr ?s (freep ?s)) ?s = bnd (morecore ?k ?s) (\<lambda>(r, s). case r of None \<Rightarrow> Inr (0, s) | Some p \<Rightarrow> malloc_loop m ?k p (uptr s p) s)"
    from morecore_ok[OF h k(2)] show ?thesis
    proof (elim disjE conjE exE)
      assume "morecore ?k ?s = Inr (None, ?s)" "ulim ?s < ubrk ?s + max ?k 4096"
      then show ?thesis using eq e h kp all by (auto simp: bnd_Inr keeps_def)
    next
      fix s' L' assume mc: "morecore ?k ?s = Inr (Some (freep s'), s')" and h': "heap_ok s' L' A" and x: "\<exists>x \<in> set L'. ?k \<le> usize s' x" and kp': "keeps A ?s s'" "ubrk ?s \<le> ubrk s'"
      have "length L' \<le> ulim ?s" using free_count[OF h'] h' kp'(1) by (simp add: heap_ok_def keeps_def)
      then have "length L' \<le> m" using m len by simp
      then obtain r t where "malloc_loop m ?k (freep s') (uptr s' (freep s')) s' = Inr (r, t)" "served ?k A s' r t" using ring_fit[OF h' k(1)] x by blast
      then show ?thesis using eq e mc served_keeps[OF kp(1)] served_keeps[OF kp'] kp(2) by (auto simp: bnd_Inr)
    qed
  qed
qed

end
