(* ===== verification/Umalloc_Props.thy ===== *)
theory Umalloc_Props
  imports Umalloc
begin

text \<open>
  A program and its heap: any sequence of \<open>malloc\<close>, \<open>free\<close> of a live pointer and stores into live blocks, from a state in which nothing is allocated, while the
  memory that the kernel can still give changes at will. What the allocator promises of the next call.
\<close>

definition fresh_heap :: "umem \<Rightarrow> bool" where
  "fresh_heap s \<longleftrightarrow> freep s = 0 \<and> 0 < ubase s \<and> ubase s < ubrk s \<and> ubrk s \<le> ulim s \<and> ulim s < 2 ^ 28"

text \<open>\<open>heap_use s0 s A\<close>: from \<open>s0\<close> the program can be in the state \<open>s\<close> with the blocks \<open>A\<close> live.\<close>

inductive heap_use :: "umem \<Rightarrow> umem \<Rightarrow> nat set \<Rightarrow> bool" for s0 where
  use_start: "heap_use s0 s0 {}"
| use_malloc: "heap_use s0 s A \<Longrightarrow> nbytes < 2 ^ 31 - 32 \<Longrightarrow> malloc nbytes s = Inr (bp + 1, s') \<Longrightarrow> heap_use s0 s' (insert bp A)"
| use_refused: "heap_use s0 s A \<Longrightarrow> nbytes < 2 ^ 31 - 32 \<Longrightarrow> malloc nbytes s = Inr (0, s') \<Longrightarrow> heap_use s0 s' A"
| use_free: "heap_use s0 s A \<Longrightarrow> bp \<in> A \<Longrightarrow> free (bp + 1) s = Inr s' \<Longrightarrow> heap_use s0 s' (A - {bp})"
| use_store: "heap_use s0 s A \<Longrightarrow> a \<in> A \<Longrightarrow> a < c \<Longrightarrow> c < a + usize s a \<Longrightarrow>
    heap_use s0 (s\<lparr>uptr := (uptr s)(c := x), usize := (usize s)(c := y)\<rparr>) A"
| use_limit: "heap_use s0 s A \<Longrightarrow> ubrk s \<le> l \<Longrightarrow> l < 2 ^ 28 \<Longrightarrow> heap_use s0 (s\<lparr>ulim := l\<rparr>) A"

lemma store_ok:
  assumes h: "heap_ok s L A" and c: "a \<in> A" "a < c" "c < a + usize s a"
  shows "heap_ok (s\<lparr>uptr := (uptr s)(c := x), usize := (usize s)(c := y)\<rparr>) L A"
proof -
  have b: "blocks_ok (uptr s) (usize s) L A (ubrk s)" using h by (simp add: heap_ok_def)
  have n: "c \<notin> set L" "c \<notin> A" using payload_apart[OF b c] by simp_all
  have e: "((usize s)(c := y)) v = usize s v \<and> ((uptr s)(c := x)) v = uptr s v" if "v \<in> set L \<union> A" for v using that n by auto
  have tl: "set (tl L) \<subseteq> set L" by (cases L) auto
  have "path ((uptr s)(c := x)) (hd L) L (hd L)" using path_cong[OF blocks_okD(2)[OF b]] e by blast
  moreover have "hd L \<in> set L" using blocks_okD(1)[OF b] by simp
  ultimately have "blocks_ok ((uptr s)(c := x)) ((usize s)(c := y)) L A (ubrk s)"
    using b n tl unfolding blocks_ok_def by auto
  moreover have "coalesced ((usize s)(c := y)) L" using h n tl by (auto simp: heap_ok_def coalesced_def)
  ultimately show ?thesis using h by (simp add: heap_ok_def)
qed

lemma umem_heap: "umem_ok s A \<Longrightarrow> a \<in> A \<Longrightarrow> \<exists>L. heap_ok s L A"
  by (auto simp: umem_ok_def split: if_splits)

lemma heap_use_ok:
  assumes "fresh_heap s0"
  shows "heap_use s0 s A \<Longrightarrow> umem_ok s A"
proof (induction rule: heap_use.induct)
  case use_start
  then show ?case using assms by (simp add: fresh_heap_def umem_ok_def)
next
  case (use_malloc s A nbytes bp s')
  then show ?case using malloc_ok[OF use_malloc.IH use_malloc.hyps(2)] heap_umem by (auto simp: served_def)
next
  case (use_refused s A nbytes s')
  then show ?case using malloc_ok[OF use_refused.IH use_refused.hyps(2)] heap_umem by (auto simp: served_def)
next
  case (use_free s A bp s')
  obtain L where "heap_ok s L (insert bp (A - {bp}))" using umem_heap[OF use_free.IH use_free.hyps(2)] use_free.hyps(2) by (auto simp: insert_absorb)
  then obtain t L' where "free (bp + 1) s = Inr t" "heap_ok t L' (A - {bp})" by (rule free_ok) simp
  then show ?case using use_free.hyps(3) heap_umem by auto
next
  case (use_store s A a c x y)
  then obtain L where "heap_ok s L A" using umem_heap by blast
  then show ?case using store_ok use_store.hyps(2-4) heap_umem by blast
next
  case (use_limit s A l)
  then show ?case by (auto simp: umem_ok_def heap_ok_def split: if_splits)
qed

text \<open>A first heap for the witnesses, and the state after \<open>malloc(100)\<close> on it.\<close>

definition heap_w0 :: umem where
  "heap_w0 = \<lparr>uptr = (\<lambda>_. 0), usize = (\<lambda>_. 0), ubase = 10, freep = 0, ubrk = 512, ulim = 131072\<rparr>"

definition heap_w1 :: umem where
  "heap_w1 = \<lparr>uptr = (\<lambda>_. 0)(10 := 512, 512 := 10), usize = (\<lambda>_. 0)(512 := 4088, 4600 := 8), ubase = 10, freep = 10, ubrk = 4608, ulim = 131072\<rparr>"

lemma fresh_w0: "fresh_heap heap_w0"
  by (simp add: fresh_heap_def heap_w0_def)

lemma malloc_w0: "malloc 100 heap_w0 = Inr (4601, heap_w1)"
proof -
  define s where "s = malloc_init heap_w0"
  define t where "t = s\<lparr>ubrk := 4608, usize := (usize s)(512 := 4096)\<rparr>"
  define v where "v = t\<lparr>uptr := (uptr t)(512 := 10, 10 := 512)\<rparr>"
  note defs = s_def t_def v_def malloc_init_def heap_w0_def
  have "free_find 131074 t 512 10 = free_find (Suc 131073) t 512 10" by simp
  also have "\<dots> = Inr 10" by (simp only: free_find.simps) (simp add: defs)
  finally have "free 513 t = Inr v" by (simp add: free_def bnd_Inr Let_def defs)
  moreover have "sbrk (int 4096 * 16) s = (Some 512, s\<lparr>ubrk := 4608\<rparr>)" by (simp add: sbrk_def i32_def Let_def defs)
  ultimately have m: "morecore 8 s = Inr (Some 10, v)" by (simp add: morecore_def Let_def bnd_Inr t_def v_def s_def malloc_init_def heap_w0_def)
  have "malloc_loop (Suc (Suc n)) 8 10 10 s = Inr (4601, heap_w1)" for n
    using m by (simp add: bnd_Inr malloc_take_def heap_w1_def defs fun_eq_iff)
  from this[of 262150] show ?thesis by (simp add: malloc_def Let_def units_def u32_def defs)
qed

lemma use_w1: "heap_use heap_w0 heap_w1 {4600}"
  using use_malloc[OF use_start, of 100 heap_w0 4600 heap_w1] malloc_w0 by simp

text \<open>
  C30. However a program has used the heap, \<open>malloc\<close> of up to almost 2 GB returns. It answers 0 only when the break cannot move as far as \<open>morecore\<close> asks; otherwise
  the block has room for the bytes asked for, lies in the memory of the process and apart from every live block, and no live block changes size or contents.
\<close>

theorem malloc_gives_room:
  assumes "fresh_heap s0" "heap_use s0 s A" "nbytes < 2 ^ 31 - 32"
  shows "\<exists>r s'. malloc nbytes s = Inr (r, s') \<and> keeps A s s' \<and>
    (r = 0 \<and> ulim s < ubrk s + max (units nbytes) 4096 \<or>
     (\<exists>bp. r = bp + 1 \<and> bp \<notin> A \<and> nbytes \<le> 16 * (usize s' bp - 1) \<and> ubase s < bp \<and> bp + usize s' bp \<le> ubrk s' \<and>
       (\<forall>a \<in> A. {a..<a + usize s' a} \<inter> {bp..<bp + usize s' bp} = {})))"
proof -
  from malloc_ok[OF heap_use_ok[OF assms(1,2)] assms(3)] show ?thesis
  proof (elim disjE exE conjE)
    fix r s' assume m: "malloc nbytes s = Inr (r, s')" "served (units nbytes) A s r s'"
    then obtain L bp where h: "r = bp + 1" "bp \<notin> A" "heap_ok s' L (insert bp A)" "usize s' bp = units nbytes" "keeps A s s'" by (auto simp: served_def)
    have b: "blocks_ok (uptr s') (usize s') L (insert bp A) (ubrk s')" "hd L = ubase s" using h(3,5) by (simp_all add: heap_ok_def keeps_def)
    have "a + usize s' a \<le> bp \<or> bp + usize s' bp \<le> a" if "a \<in> A" for a
      using blocks_okD(8)[OF b(1), of a bp] blocks_okD(8)[OF b(1), of bp a] that h(2) by (cases a bp rule: linorder_cases) auto
    then have "\<forall>a \<in> A. {a..<a + usize s' a} \<inter> {bp..<bp + usize s' bp} = {}" by fastforce
    moreover have "nbytes \<le> 16 * (usize s' bp - 1)" using units_room[of nbytes] assms(3) h(4) by simp
    ultimately show ?thesis using m(1) h(1,2,5) blocks_okD(6)[OF b(1), of bp] blocks_okD(7)[OF b(1), of bp] b(2) by auto
  qed auto
qed

theorem malloc_gives_room_witness:
  "\<exists>r s'. malloc 200 heap_w1 = Inr (r, s') \<and> keeps {4600} heap_w1 s' \<and> (\<exists>bp. r = bp + 1 \<and> bp \<noteq> 4600 \<and> 200 \<le> 16 * (usize s' bp - 1) \<and> bp + usize s' bp \<le> ubrk s')"
proof -
  have "units 200 = 14" "ulim heap_w1 = 131072" "ubrk heap_w1 = 4608" by (simp_all add: units_def u32_def heap_w1_def)
  then show ?thesis using malloc_gives_room[OF fresh_w0 use_w1, of 200] by auto
qed

text \<open>
  C31. Freeing a live block always returns and leaves the other live blocks as they are; its memory can be had again: an allocation that needs no more than the freed
  block succeeds at once, whatever is left of the memory limit.
\<close>

theorem free_gives_back:
  assumes "fresh_heap s0" "heap_use s0 s A" "bp \<in> A" "nbytes < 2 ^ 31 - 32" "units nbytes \<le> usize s bp"
  shows "\<exists>s'. free (bp + 1) s = Inr s' \<and> keeps (A - {bp}) s s' \<and> ubrk s' = ubrk s \<and> (\<exists>r s''. malloc nbytes s' = Inr (r, s'') \<and> 0 < r \<and> keeps (A - {bp}) s' s'')"
proof -
  let ?A = "A - {bp}"
  obtain L where "heap_ok s L (insert bp ?A)" using umem_heap[OF heap_use_ok[OF assms(1,2)] assms(3)] assms(3) by (auto simp: insert_absorb)
  then obtain s' L' where f: "free (bp + 1) s = Inr s'" "heap_ok s' L' ?A" "free_units (usize s') L' = free_units (usize s) L \<union> {bp..<bp + usize s bp}" "keeps ?A s s'" "ubrk s' = ubrk s"
    by (rule free_ok) simp
  have k: "0 < units nbytes" using units_room[of nbytes] assms(4) by simp
  have "{bp..<bp + units nbytes} \<subseteq> {bp..<bp + usize s bp}" using assms(5) by auto
  then have "{bp..<bp + units nbytes} \<subseteq> free_units (usize s') L'" unfolding f(3) by blast
  then obtain x where x: "x \<in> set L'" "units nbytes \<le> usize s' x" using heap_free_run[OF f(2) _ k] by blast
  have "length L' \<le> 2 * ulim s' + 8" using free_count[OF f(2)] f(2) by (simp add: heap_ok_def)
  then obtain r s'' where "malloc_loop (2 * ulim s' + 8) (units nbytes) (freep s') (uptr s' (freep s')) s' = Inr (r, s'')" "served (units nbytes) ?A s' r s''"
    using ring_fit[OF f(2) k _ x] by blast
  moreover have "malloc_init s' = s'" using heap_umem[OF f(2)] by (simp add: malloc_init_def)
  ultimately show ?thesis using f(1,4,5) by (auto simp: malloc_def served_def)
qed

theorem free_gives_back_witness: "\<exists>s'. free 4601 heap_w1 = Inr s' \<and> ubrk s' = 4608 \<and> (\<exists>r s''. malloc 90 s' = Inr (r, s'') \<and> 0 < r)"
proof -
  have "units 90 \<le> usize heap_w1 4600" "ubrk heap_w1 = 4608" by (simp_all add: units_def u32_def heap_w1_def)
  then show ?thesis using free_gives_back[OF fresh_w0 use_w1, of 4600 90] by auto
qed

text \<open>
  C32. The size handed to \<open>sbrk\<close> is cut to an \<open>int\<close>: a first request for 4294967295 bytes moves the break by a single header, and is answered with a pointer to
  the new break, though nothing there belongs to the process; the header claims 268435457 units.
\<close>

theorem malloc_overflow:
  assumes "fresh_heap s" "ubrk s < ulim s"
  shows "\<exists>s'. malloc 4294967295 s = Inr (ubrk s + 1, s') \<and> ubrk s' = ubrk s + 1 \<and> usize s' (ubrk s) = 268435457"
proof -
  let ?t = "malloc_init s" and ?b = "ubase s" and ?h = "ubrk s" and ?k = "268435457 :: nat"
  have fr: "freep s = 0" "0 < ?b" "?b < ?h" using assms(1) by (auto simp: fresh_heap_def)
  define t where "t = (malloc_init s)\<lparr>ubrk := ?h + 1, usize := (usize ?t)(?h := ?k)\<rparr>"
  define v where "v = t\<lparr>uptr := (uptr t)(?h := ?b, ?b := ?h)\<rparr>"
  have t: "uptr t ?b = ?b" "freep t = ?b" "usize t ?b = 0" "usize t ?h = ?k" using fr by (auto simp: t_def malloc_init_def)
  have "free_find (ulim t + 2) t ?h ?b = Inr ?b" using fr t(1) by (simp add: numeral_2_eq_2)
  then have "free (?h + 1) t = Inr v" using fr t by (simp add: free_def bnd_Inr Let_def v_def)
  moreover have "sbrk (int ?k * 16) ?t = (Some ?h, ?t\<lparr>ubrk := ?h + 1\<rparr>)" using assms(2) by (simp add: sbrk_def i32_def Let_def malloc_init_def)
  ultimately have "morecore ?k ?t = Inr (Some ?b, v)" using t(2) by (simp add: morecore_def bnd_Inr t_def v_def)
  moreover have "freep ?t = ?b" "uptr ?t ?b = ?b" "usize ?t ?b = 0" using fr by (simp_all add: malloc_init_def)
  ultimately have "malloc_loop (Suc (Suc n)) ?k (freep ?t) (uptr ?t (freep ?t)) ?t = Inr (malloc_take ?k ?b ?h v)" for n
    using t fr by (simp add: bnd_Inr v_def)
  moreover have "units 4294967295 = ?k" by (simp add: units_def u32_def)
  moreover have "2 * ulim ?t + 8 = Suc (Suc (2 * ulim ?t + 6))" by simp
  ultimately have "malloc 4294967295 s = Inr (malloc_take ?k ?b ?h v)" unfolding malloc_def Let_def by presburger
  moreover have "malloc_take ?k ?b ?h v = (?h + 1, v\<lparr>uptr := (uptr v)(?b := uptr v ?h), freep := ?b\<rparr>)" using t by (simp add: malloc_take_def v_def)
  ultimately show ?thesis using t by (simp add: v_def t_def)
qed

theorem malloc_overflow_witness: "\<exists>s'. malloc 4294967295 heap_w0 = Inr (513, s') \<and> ubrk s' = 513 \<and> usize s' 512 = 268435457"
proof -
  have "ubrk heap_w0 = 512" "ulim heap_w0 = 131072" by (simp_all add: heap_w0_def)
  then show ?thesis using malloc_overflow[OF fresh_w0] by simp
qed

end
