(* ===== verification/Mkfs.thy ===== *)
theory Mkfs
  imports Fs_Dinode Sysfile
begin

unbundle bit_operations_syntax

text \<open>
  The program that makes the first disk image, \<^verbatim>\<open>mkfs/mkfs.c\<close>. The image file is a list of sectors: writing past its end extends it with
  zeroes, reading past its end is a short read, on which \<open>rsect\<close> dies. The host is little-endian; its file operations on the image do not fail
  otherwise. A host file is what \<open>open\<close> and the calls of \<open>read\<close> give for its name: \<open>None\<close>, or the pieces that are read. A failed \<open>assert\<close>, the usage message
  and \<open>die\<close> are a \<open>Panic\<close>.
\<close>

section \<open>Layout and state\<close>

definition NINODES :: nat where
  "NINODES = 200"

definition FSSIZE :: nat where
  "FSSIZE = 2000"

definition nbitmap :: nat where
  "nbitmap = FSSIZE div (BSIZE * 8) + 1"

definition ninodeblocks :: nat where
  "ninodeblocks = NINODES div IPB + 1"

definition nlog :: nat where
  "nlog = LOGSIZE"

definition nmeta :: nat where
  "nmeta = 2 + nlog + ninodeblocks + nbitmap"

record dinode =
  dtype :: ushort
  dmajor :: ushort
  dminor :: ushort
  dnlink :: ushort
  dsize :: uint
  daddrs :: "uint list"

record mkfs =
  img :: "block list"
  msb :: superblock
  freeinode :: uint
  freeblock :: uint

definition xshort :: "ushort \<Rightarrow> ushort" where
  "xshort x = ucast (ucast x :: byte) OR push_bit 8 (ucast (ucast (drop_bit 8 x) :: byte))"

definition xint :: "uint \<Rightarrow> uint" where
  "xint x = ucast (ucast x :: byte) OR push_bit 8 (ucast (ucast (drop_bit 8 x) :: byte))
     OR push_bit 16 (ucast (ucast (drop_bit 16 x) :: byte)) OR push_bit 24 (ucast (ucast (drop_bit 24 x) :: byte))"

definition zeroes :: block where
  "zeroes = replicate BSIZE 0"

section \<open>Sectors and inodes\<close>

text \<open>The position is a 32-bit number of bytes.\<close>

definition sect :: "uint \<Rightarrow> nat" where
  "sect sec = unat (sec * 1024) div 1024"

definition wsect :: "uint \<Rightarrow> block \<Rightarrow> mkfs \<Rightarrow> mkfs" where
  "wsect sec buf s =
     s\<lparr>img := (if sect sec < length (img s) then (img s)[sect sec := buf] else img s @ replicate (sect sec - length (img s)) zeroes @ [buf])\<rparr>"

definition rsect :: "uint \<Rightarrow> mkfs \<Rightarrow> block result" where
  "rsect sec s = (if sect sec < length (img s) then Inr (img s ! sect sec) else Inl (Panic ''read''))"

definition get_dinode :: "block \<Rightarrow> nat \<Rightarrow> dinode" where
  "get_dinode b p = \<lparr>dtype = get16 b p, dmajor = get16 b (p + 2), dminor = get16 b (p + 4), dnlink = get16 b (p + 6), dsize = get32 b (p div 4 + 2),
     daddrs = map (\<lambda>k. get32 b (p div 4 + 3 + k)) [0..<NDIRECT + 1]\<rparr>"

definition put_dinode :: "dinode \<Rightarrow> nat \<Rightarrow> block \<Rightarrow> block" where
  "put_dinode d p b =
     fold (\<lambda>k. put32 (p div 4 + 3 + k) (daddrs d ! k)) [0..<NDIRECT + 1]
       (put32 (p div 4 + 2) (dsize d) (put16 (p + 6) (dnlink d) (put16 (p + 4) (dminor d) (put16 (p + 2) (dmajor d) (put16 p (dtype d) b)))))"

definition winode :: "uint \<Rightarrow> dinode \<Rightarrow> mkfs \<Rightarrow> mkfs result" where
  "winode ino ip s =
     (let bn = IBLOCK ino (msb s) in
      bnd (rsect bn s) (\<lambda>buf. Inr (wsect bn (put_dinode ip (dinode_at ino) buf) s)))"

definition rinode :: "uint \<Rightarrow> mkfs \<Rightarrow> dinode result" where
  "rinode ino s = bnd (rsect (IBLOCK ino (msb s)) s) (\<lambda>buf. Inr (get_dinode buf (dinode_at ino)))"

definition ialloc_img :: "ushort \<Rightarrow> mkfs \<Rightarrow> (uint \<times> mkfs) result" where
  "ialloc_img ty s =
     (let ino = freeinode s;
          s = s\<lparr>freeinode := ino + 1\<rparr>;
          din = \<lparr>dtype = xshort ty, dmajor = 0, dminor = 0, dnlink = xshort 1, dsize = xint 0, daddrs = replicate (NDIRECT + 1) 0\<rparr>
      in bnd (winode ino din s) (\<lambda>s. Inr (ino, s)))"

definition balloc_img :: "int \<Rightarrow> mkfs \<Rightarrow> mkfs result" where
  "balloc_img nused s =
     (if \<not> nused < int (BSIZE * 8) then Inl (Panic ''assert'')
      else
        let buf = fold (\<lambda>i buf. buf[i div 8 := buf ! (i div 8) OR push_bit (i mod 8) 1]) [0..<nat nused] (replicate BSIZE 0)
        in Inr (wsect (sb_bmapstart (msb s)) buf s))"

section \<open>Appending to a file\<close>

text \<open>The block for position \<open>fbn\<close> of a file, allocated when there is none; the changed inode is not written yet.\<close>

definition iappend_block :: "nat \<Rightarrow> dinode \<Rightarrow> mkfs \<Rightarrow> (uint \<times> dinode \<times> mkfs) result" where
  "iappend_block fbn din s =
     (if fbn < NDIRECT then
        let (din, s) = (if xint (daddrs din ! fbn) = 0
                        then (din\<lparr>daddrs := (daddrs din)[fbn := xint (freeblock s)]\<rparr>, s\<lparr>freeblock := freeblock s + 1\<rparr>) else (din, s))
        in Inr (xint (daddrs din ! fbn), din, s)
      else
        let (din, s) = (if xint (daddrs din ! NDIRECT) = 0
                        then (din\<lparr>daddrs := (daddrs din)[NDIRECT := xint (freeblock s)]\<rparr>, s\<lparr>freeblock := freeblock s + 1\<rparr>) else (din, s))
        in bnd (rsect (xint (daddrs din ! NDIRECT)) s) (\<lambda>indirect.
           let (indirect, s) =
             (if get32 indirect (fbn - NDIRECT) = 0
              then let indirect = put32 (fbn - NDIRECT) (xint (freeblock s)) indirect;
                       s = s\<lparr>freeblock := freeblock s + 1\<rparr>
                   in (indirect, wsect (xint (daddrs din ! NDIRECT)) indirect s)
              else (indirect, s))
           in Inr (xint (get32 indirect (fbn - NDIRECT)), din, s)))"

definition bcopy :: "byte list \<Rightarrow> nat \<Rightarrow> block \<Rightarrow> block" where
  "bcopy p k buf = take k buf @ p @ drop (k + length p) buf"

function iappend_loop :: "byte list \<Rightarrow> uint \<Rightarrow> dinode \<Rightarrow> mkfs \<Rightarrow> (uint \<times> dinode \<times> mkfs) result" where
  "iappend_loop p pos din s =
     (if p = [] then Inr (pos, din, s)
      else
        let fbn = unat pos div BSIZE in
        if \<not> fbn < MAXFILE then Inl (Panic ''assert'')
        else
          bnd (iappend_block fbn din s) (\<lambda>(x, din, s).
          let n1 = min (length p) ((fbn + 1) * BSIZE - unat pos) in
          bnd (rsect x s) (\<lambda>buf.
            iappend_loop (drop n1 p) (pos + of_nat n1) din (wsect x (bcopy (take n1 p) (unat pos - fbn * BSIZE) buf) s))))"
  by pat_completeness auto

lemma block_rest: "0 < (n div BSIZE + 1) * BSIZE - n"
  by (simp add: BSIZE_def)

termination iappend_loop
  by (relation "measure (\<lambda>(p, _). length p)") (use block_rest in \<open>auto simp: min_def\<close>)

declare iappend_loop.simps [simp del]

definition iappend :: "uint \<Rightarrow> byte list \<Rightarrow> mkfs \<Rightarrow> mkfs result" where
  "iappend ino p s =
     bnd (rinode ino s) (\<lambda>din.
     bnd (iappend_loop p (xint (dsize din)) din s) (\<lambda>(pos, din, s).
     winode ino (din\<lparr>dsize := xint pos\<rparr>) s))"

section \<open>main\<close>

definition dirent :: "ushort \<Rightarrow> string \<Rightarrow> byte list" where
  "dirent n nm = [ucast n, ucast (drop_bit 8 n)] @ map of_char (take DIRSIZ nm) @ replicate (DIRSIZ - length nm) 0"

definition shortname :: "string \<Rightarrow> string" where
  "shortname arg = (if take 5 arg = ''user/'' then drop 5 arg else arg)"

definition skip_underscore :: "string \<Rightarrow> string" where
  "skip_underscore nm = (if nm \<noteq> [] \<and> hd nm = CHR ''_'' then tl nm else nm)"

definition add_file :: "(string \<Rightarrow> byte list list option) \<Rightarrow> string \<Rightarrow> mkfs \<Rightarrow> mkfs result" where
  "add_file host arg s =
     (if CHR ''/'' \<in> set (shortname arg) then Inl (Panic ''assert'')
      else
        case host arg of
          None \<Rightarrow> Inl (Panic ''open'')
        | Some pieces \<Rightarrow>
            bnd (ialloc_img T_FILE s) (\<lambda>(ino, s).
            bnd (iappend ROOTINO (dirent (xshort (ucast ino)) (skip_underscore (shortname arg))) s)
            (for_each (iappend ino) pieces)))"

definition mkfs_sb :: superblock where
  "mkfs_sb = \<lparr>sb_magic = FSMAGIC, sb_size = xint (of_nat FSSIZE), sb_nblocks = xint (of_nat (FSSIZE - nmeta)), sb_ninodes = xint (of_nat NINODES),
     sb_nlog = xint (of_nat nlog), sb_logstart = xint 2, sb_inodestart = xint (of_nat (2 + nlog)), sb_bmapstart = xint (of_nat (2 + nlog + ninodeblocks))\<rparr>"

definition sb_block :: "superblock \<Rightarrow> block" where
  "sb_block b = put32 7 (sb_bmapstart b) (put32 6 (sb_inodestart b) (put32 5 (sb_logstart b) (put32 4 (sb_nlog b)
     (put32 3 (sb_ninodes b) (put32 2 (sb_nblocks b) (put32 1 (sb_size b) (put32 0 (sb_magic b) zeroes)))))))"

definition mkfs_start :: mkfs where
  "mkfs_start =
     wsect 1 (sb_block mkfs_sb)
       (fold (\<lambda>i. wsect (of_nat i) zeroes) [0..<FSSIZE] \<lparr>img = [], msb = mkfs_sb, freeinode = 1, freeblock = of_nat nmeta\<rparr>)"

definition fix_root :: "mkfs \<Rightarrow> mkfs result" where
  "fix_root s =
     bnd (rinode ROOTINO s) (\<lambda>din.
     let pos = xint (dsize din);
         pos = (pos div of_nat BSIZE + 1) * of_nat BSIZE
     in winode ROOTINO (din\<lparr>dsize := xint pos\<rparr>) s)"

definition mkfs_main :: "string list \<Rightarrow> (string \<Rightarrow> byte list list option) \<Rightarrow> mkfs result" where
  "mkfs_main argv host =
     (if length argv < 2 then Inl (Panic ''Usage: mkfs fs.img files...'')
      else
        bnd (ialloc_img T_DIR mkfs_start) (\<lambda>(rootino, s).
        if rootino \<noteq> ROOTINO then Inl (Panic ''assert'')
        else
          bnd (iappend rootino (dirent (xshort (ucast rootino)) ''.'') s) (\<lambda>s.
          bnd (iappend rootino (dirent (xshort (ucast rootino)) ''..'') s) (\<lambda>s.
          bnd (for_each (add_file host) (drop 2 argv) s) (\<lambda>s.
          bnd (fix_root s) (\<lambda>s.
          balloc_img (sint (freeblock s)) s))))))"

end
