(* ===== verification/Mkfs_Image.thy ===== *)
theory Mkfs_Image
  imports Mkfs "HOL-Library.Multiset"
begin

unbundle bit_operations_syntax

text \<open>
  What \<open>iappend\<close> does to the image: the blocks of a file, their addresses in the inode and the indirect block, and that no block is given to
  two files.
\<close>

section \<open>Sectors and inodes\<close>

lemma xint_id [simp]: "xint x = x"
  unfolding xint_def by (rule join_bytes)

lemma xshort_id [simp]: "xshort x = x"
  unfolding xshort_def by (rule join_halves)

lemmas layout_nums = FSSIZE_def nmeta_def nlog_def ninodeblocks_def nbitmap_def NINODES_def IPB_def BSIZE_def LOGSIZE_def MAXOPBLOCKS_def

lemma nmeta_num: "nmeta = 46"
  by (simp add: layout_nums)

lemma sect_nat: "b < FSSIZE \<Longrightarrow> sect (of_nat b) = b"
proof -
  assume b: "b < FSSIZE"
  have "unat (of_nat b * 1024 :: uint) = unat (of_nat (b * 1024) :: uint)" by simp
  also have "\<dots> = b * 1024" using b by (simp add: FSSIZE_def unat_of_nat del: of_nat_mult)
  finally show ?thesis by (simp add: sect_def)
qed

lemma sect_access:
  assumes "length (img s) = FSSIZE" "b < FSSIZE"
  shows "rsect (of_nat b) s = Inr (img s ! b)" "wsect (of_nat b) buf s = s\<lparr>img := (img s)[b := buf]\<rparr>"
  using assms by (simp_all add: rsect_def wsect_def sect_nat)

lemma get32_zeroes: "k < 256 \<Longrightarrow> get32 zeroes k = 0"
  by (simp add: get32_def zeroes_def BSIZE_def)

lemma length_zeroes [simp]: "length zeroes = BSIZE"
  by (simp add: zeroes_def)

text \<open>The inode of \<open>mkfs\<close> has the layout that the kernel's \<open>iupdate\<close> writes and \<open>ilock\<close> reads.\<close>

definition as_inode :: "dinode \<Rightarrow> inode" where
  "as_inode d = \<lparr>idev = 0, inum = 0, iref = 0, ilocked = False, ivalid = False, itype = dtype d, imajor = dmajor d, iminor = dminor d, nlink = dnlink d, isize = dsize d, addrs = daddrs d\<rparr>"

lemma put_dinode_store: "put_dinode d p b = store_inode (as_inode d) p b"
  by (simp add: put_dinode_def store_inode_def as_inode_def)

lemma get_dinode_load: "get_dinode b p = d \<longleftrightarrow> disk_fields (load_inode b p jp) = disk_fields (as_inode d)"
  by (cases d) (simp add: get_dinode_def load_inode_def disk_fields_def as_inode_def)

lemma length_put_dinode [simp]: "length (put_dinode d p b) = length b"
  by (simp add: put_dinode_store)

lemma get_put_dinode:
  assumes "length b = BSIZE" "length (daddrs d) = NDIRECT + 1" "n < IPB" "m < IPB"
  shows "get_dinode (put_dinode d (64 * n) b) (64 * m) = (if m = n then d else get_dinode b (64 * m))"
proof -
  have l: "length (addrs (as_inode d)) = NDIRECT + 1" using assms(2) by (simp add: as_inode_def)
  have "disk_fields (load_inode b (64 * m) jp) = disk_fields (as_inode (get_dinode b (64 * m)))" for jp using get_dinode_load by blast
  then show ?thesis unfolding put_dinode_store get_dinode_load[where jp = undefined] load_store_inode[OF assms(1) l assms(3,4)] by simp
qed

section \<open>Files in the image\<close>

text \<open>The file with inode \<open>d\<close>, data blocks \<open>T\<close>, indirect block \<open>I\<close> (0 when there is none) and contents \<open>c\<close> in the image \<open>m\<close>; past the contents its blocks are zero.\<close>

definition file_in :: "block list \<Rightarrow> dinode \<Rightarrow> nat list \<Rightarrow> nat \<Rightarrow> byte list \<Rightarrow> bool" where
  "file_in m d T I c \<longleftrightarrow> length (daddrs d) = NDIRECT + 1 \<and> length T \<le> MAXFILE \<and> length c \<le> BSIZE * length T
     \<and> (\<forall>k < NDIRECT. daddrs d ! k = (if k < length T then of_nat (T ! k) else 0)) \<and> daddrs d ! NDIRECT = of_nat I \<and> (I \<noteq> 0 \<longleftrightarrow> NDIRECT < length T)
     \<and> (I \<noteq> 0 \<longrightarrow> (\<forall>j < NINDIRECT. get32 (m ! I) j = (if NDIRECT + j < length T then of_nat (T ! (NDIRECT + j)) else 0)))
     \<and> (\<forall>j < BSIZE * length T. m ! (T ! (j div BSIZE)) ! (j mod BSIZE) = (if j < length c then c ! j else 0))"

definition owned :: "nat list \<Rightarrow> nat \<Rightarrow> nat list" where
  "owned T I = T @ (if I = 0 then [] else [I])"

type_synonym ifile = "dinode \<times> nat list \<times> nat \<times> byte list"

definition parts :: "ifile list \<Rightarrow> nat list" where
  "parts os = concat (map (\<lambda>(d, T, I, c). owned T I) os)"

text \<open>The image as a whole: its sectors, and that the blocks from \<open>freeblock\<close> on are still zero.\<close>

definition whole :: "mkfs \<Rightarrow> bool" where
  "whole s \<longleftrightarrow> length (img s) = FSSIZE \<and> (\<forall>b < FSSIZE. length (img s ! b) = BSIZE) \<and> msb s = mkfs_sb
     \<and> nmeta \<le> unat (freeblock s) \<and> unat (freeblock s) \<le> FSSIZE \<and> (\<forall>b. unat (freeblock s) \<le> b \<longrightarrow> b < FSSIZE \<longrightarrow> img s ! b = zeroes)"

text \<open>While one file is worked on, with the others \<open>os\<close>: the blocks of all files are those from \<open>nmeta\<close> to \<open>freeblock\<close>, each once.\<close>

definition work :: "mkfs \<Rightarrow> dinode \<Rightarrow> nat list \<Rightarrow> nat \<Rightarrow> byte list \<Rightarrow> ifile list \<Rightarrow> bool" where
  "work s d T I c os \<longleftrightarrow> whole s \<and> file_in (img s) d T I c \<and> (\<forall>(d', T', I', c') \<in> set os. file_in (img s) d' T' I' c')
     \<and> mset (owned T I @ parts os) = mset [nmeta..<unat (freeblock s)]"

lemma file_in_cong:
  assumes "file_in m d T I c" "\<forall>b \<in> set (owned T I). m' ! b = m ! b"
  shows "file_in m' d T I c"
proof -
  have "T ! (j div BSIZE) \<in> set (owned T I)" if "j < BSIZE * length T" for j
    using that by (simp add: owned_def less_mult_imp_div_less mult.commute)
  then have "m' ! (T ! (j div BSIZE)) = m ! (T ! (j div BSIZE))" if "j < BSIZE * length T" for j using that assms(2) by blast
  moreover have "I \<noteq> 0 \<Longrightarrow> m' ! I = m ! I" using assms(2) by (simp add: owned_def)
  ultimately show ?thesis using assms(1) by (simp add: file_in_def)
qed

lemma work_blocks:
  assumes "work s d T I c os"
  shows "distinct (owned T I @ parts os)" "set (owned T I @ parts os) = {nmeta..<unat (freeblock s)}" "b \<in> set (owned T I @ parts os) \<Longrightarrow> 0 < b \<and> b < FSSIZE"
proof -
  have m: "mset (owned T I @ parts os) = mset [nmeta..<unat (freeblock s)]" and le: "unat (freeblock s) \<le> FSSIZE" using assms by (auto simp: work_def whole_def)
  show "distinct (owned T I @ parts os)" using m mset_eq_imp_distinct_iff distinct_upt by blast
  show s: "set (owned T I @ parts os) = {nmeta..<unat (freeblock s)}" using mset_eq_setD[OF m] by simp
  show "0 < b \<and> b < FSSIZE" if "b \<in> set (owned T I @ parts os)" using that le unfolding s by (auto simp: nmeta_num)
qed

text \<open>Changes to the file that is worked on and to new blocks.\<close>

lemma work_change:
  assumes w: "work s d T I c os" and fb: "unat (freeblock s) \<le> fb'" "fb' \<le> FSSIZE"
    and m: "length m' = FSSIZE" "\<And>b. b < FSSIZE \<Longrightarrow> length (m' ! b) = BSIZE"
    and same: "\<And>b. b < FSSIZE \<Longrightarrow> b \<notin> set (owned T I) \<Longrightarrow> b < unat (freeblock s) \<or> fb' \<le> b \<Longrightarrow> m' ! b = img s ! b"
    and f: "file_in m' d' T' I' c'" and own: "mset (owned T' I') = mset (owned T I @ [unat (freeblock s)..<fb'])"
  shows "work (s\<lparr>img := m', freeblock := of_nat fb'\<rparr>) d' T' I' c' os"
proof -
  have w': "whole s" "\<forall>(d', T', I', c') \<in> set os. file_in (img s) d' T' I' c'" using w by (auto simp: work_def)
  have u: "unat (of_nat fb' :: uint) = fb'" using fb(2) by (simp add: FSSIZE_def unat_of_nat)
  note b = work_blocks[OF w]
  have "file_in m' d1 T1 I1 c1" if o: "(d1, T1, I1, c1) \<in> set os" for d1 T1 I1 c1
  proof (rule file_in_cong)
    show "file_in (img s) d1 T1 I1 c1" using w'(2) o by auto
    have "set (owned T1 I1) \<subseteq> set (parts os)" using o by (fastforce simp: parts_def)
    then show "\<forall>b \<in> set (owned T1 I1). m' ! b = img s ! b" using b same by (auto simp: set_eq_iff) (metis atLeastLessThan_iff disjoint_iff subsetD)
  qed
  moreover have "whole (s\<lparr>img := m', freeblock := of_nat fb'\<rparr>)"
  proof -
    have "m' ! x = zeroes" if x: "fb' \<le> x" "x < FSSIZE" for x
    proof -
      have "x \<notin> set (owned T I @ parts os)" unfolding b(2) using x(1) fb(1) by simp
      then have "x \<notin> set (owned T I)" by simp
      then show ?thesis using same[OF x(2)] x fb(1) w'(1) by (simp add: whole_def)
    qed
    then show ?thesis using w'(1) m fb u by (simp add: whole_def)
  qed
  moreover have "mset (owned T' I' @ parts os) = mset [nmeta..<fb']"
  proof -
    have "[nmeta..<fb'] = [nmeta..<unat (freeblock s)] @ [unat (freeblock s)..<fb']" using w'(1) fb(1) upt_add_eq_append[of nmeta "unat (freeblock s)" "fb' - unat (freeblock s)"] by (simp add: whole_def)
    then show ?thesis using w own by (simp add: work_def)
  qed
  ultimately show ?thesis using f u by (auto simp: work_def)
qed

section \<open>Allocating a block\<close>

lemma block_word: "b < FSSIZE \<Longrightarrow> unat (of_nat b :: uint) = b" "0 < b \<Longrightarrow> b < FSSIZE \<Longrightarrow> of_nat b \<noteq> (0 :: uint)"
proof -
  show u: "unat (of_nat b :: uint) = b" if "b < FSSIZE" using that by (simp add: FSSIZE_def unat_of_nat)
  show "of_nat b \<noteq> (0 :: uint)" if "0 < b" "b < FSSIZE" using u[OF that(2)] that(1) by (metis less_irrefl unat_0)
qed

text \<open>What stays: the meta blocks, the inode counter, and the fields of the inode besides its addresses.\<close>

definition frame :: "mkfs \<Rightarrow> mkfs \<Rightarrow> bool" where
  "frame s s' \<longleftrightarrow> freeinode s' = freeinode s \<and> (\<forall>b < nmeta. img s' ! b = img s ! b)"

definition same_kind :: "dinode \<Rightarrow> dinode \<Rightarrow> bool" where
  "same_kind d d' \<longleftrightarrow> dtype d' = dtype d \<and> dmajor d' = dmajor d \<and> dminor d' = dminor d \<and> dnlink d' = dnlink d"

lemma frame_trans: "frame s s' \<Longrightarrow> frame s' s'' \<Longrightarrow> frame s s''" "same_kind d d' \<Longrightarrow> same_kind d' d'' \<Longrightarrow> same_kind d d''"
  by (simp_all add: frame_def same_kind_def)

lemma block_present:
  assumes w: "work s d T I c os" and k: "k < length T"
  shows "iappend_block k d s = Inr (of_nat (T ! k), d, s)"
proof -
  have f: "file_in (img s) d T I c" and l: "length (img s) = FSSIZE" using w by (auto simp: work_def whole_def)
  have t: "0 < T ! k" "T ! k < FSSIZE" using work_blocks(3)[OF w, of "T ! k"] k by (auto simp: owned_def)
  show ?thesis
  proof (cases "k < NDIRECT")
    case True
    then have "daddrs d ! k = of_nat (T ! k)" using f k by (simp add: file_in_def)
    then show ?thesis using True block_word(2)[OF t] by (simp add: iappend_block_def)
  next
    case False
    then have I: "I \<noteq> 0" "daddrs d ! NDIRECT = of_nat I" "get32 (img s ! I) (k - NDIRECT) = of_nat (T ! k)" using f k by (auto simp: file_in_def MAXFILE_def)
    have "I < FSSIZE" using work_blocks(3)[OF w, of I] I(1) by (simp add: owned_def)
    then have "of_nat I \<noteq> (0 :: uint)" "rsect (of_nat I) s = Inr (img s ! I)" using block_word(2) I(1) sect_access(1)[OF l] by auto
    then show ?thesis using False I(2,3) block_word(2)[OF t] by (simp add: iappend_block_def bnd_Inr)
  qed
qed

text \<open>The fresh block is zero, so the contents of the file stay the same.\<close>

lemma fresh_content:
  assumes f: "file_in m d T I c" and z: "m' ! b = zeroes" and same: "\<And>x. x \<in> set T \<Longrightarrow> m' ! x = m ! x" and j: "j < BSIZE * length (T @ [b])"
  shows "m' ! ((T @ [b]) ! (j div BSIZE)) ! (j mod BSIZE) = (if j < length c then c ! j else 0)"
proof (cases "j < BSIZE * length T")
  case True
  then have "j div BSIZE < length T" by (simp add: less_mult_imp_div_less mult.commute)
  then show ?thesis using f True same by (simp add: file_in_def nth_append)
next
  case False
  then have "j div BSIZE = length T" "\<not> j < length c" "j mod BSIZE < BSIZE" using j f by (auto simp: file_in_def BSIZE_def)
  then show ?thesis using z by (simp add: zeroes_def)
qed

definition grown :: "mkfs \<Rightarrow> dinode \<Rightarrow> nat list \<Rightarrow> byte list \<Rightarrow> ifile list \<Rightarrow> bool" where
  "grown s d T c os \<longleftrightarrow> (\<exists>b d' s' I'. iappend_block (length T) d s = Inr (of_nat b, d', s') \<and> work s' d' (T @ [b]) I' c os
     \<and> unat (freeblock s') = unat (freeblock s) + (if length T = NDIRECT then 2 else 1) \<and> frame s s' \<and> same_kind d d')"

lemma workD:
  assumes "work s d T I c os"
  shows "length (img s) = FSSIZE" "b < FSSIZE \<Longrightarrow> length (img s ! b) = BSIZE" "file_in (img s) d T I c" "nmeta \<le> unat (freeblock s)" "unat (freeblock s) \<le> FSSIZE"
    "unat (freeblock s) \<le> b \<Longrightarrow> b < FSSIZE \<Longrightarrow> img s ! b = zeroes" "x \<in> set T \<Longrightarrow> x < unat (freeblock s)" "I < unat (freeblock s)" "I \<noteq> 0 \<Longrightarrow> nmeta \<le> I \<and> I \<notin> set T" "distinct T" "x \<in> set T \<Longrightarrow> nmeta \<le> x"
proof -
  have w: "whole s" "file_in (img s) d T I c" using assms by (auto simp: work_def)
  show n: "length (img s) = FSSIZE" "nmeta \<le> unat (freeblock s)" "unat (freeblock s) \<le> FSSIZE" "file_in (img s) d T I c" using w by (auto simp: whole_def)
  show "length (img s ! b) = BSIZE" if "b < FSSIZE" using that w(1) by (simp add: whole_def)
  show "img s ! b = zeroes" if "unat (freeblock s) \<le> b" "b < FSSIZE" using that w(1) by (simp add: whole_def)
  have o: "x \<in> {nmeta..<unat (freeblock s)}" if "x \<in> set (owned T I)" for x unfolding work_blocks(2)[OF assms, symmetric] using that by simp
  show "x < unat (freeblock s)" "nmeta \<le> x" if "x \<in> set T" using o[of x] that by (simp_all add: owned_def)
  have d: "distinct (owned T I)" using work_blocks(1)[OF assms] by simp
  then show "distinct T" by (simp add: owned_def)
  show "I < unat (freeblock s)" using o[of I] n(2) by (cases "I = 0") (auto simp: owned_def nmeta_num)
  show "nmeta \<le> I \<and> I \<notin> set T" if "I \<noteq> 0" using o[of I] d that by (auto simp: owned_def)
qed

lemma next_block:
  fixes x :: uint
  shows "of_nat (Suc (unat x)) = x + 1" "of_nat (unat x + 2) = x + 2"
    "unat x < FSSIZE \<Longrightarrow> unat (x + 1) = Suc (unat x)" "Suc (unat x) < FSSIZE \<Longrightarrow> unat (x + 2) = unat x + 2"
proof -
  show a: "of_nat (Suc (unat x)) = x + 1" "of_nat (unat x + 2) = x + 2" by (simp_all add: add.commute)
  have u: "unat (of_nat n :: uint) = n" if "n \<le> FSSIZE" for n using that by (simp add: unat_of_nat FSSIZE_def)
  show "unat x < FSSIZE \<Longrightarrow> unat (x + 1) = Suc (unat x)" using u[of "Suc (unat x)"] unfolding a(1) by simp
  show "Suc (unat x) < FSSIZE \<Longrightarrow> unat (x + 2) = unat x + 2" using u[of "unat x + 2"] unfolding a(2) by simp
qed

lemma grownI:
  assumes "iappend_block (length T) d s = Inr (of_nat b, d', s')" "work s' d' (T @ [b]) I' c os" "unat (freeblock s') = unat (freeblock s) + (if length T = NDIRECT then 2 else 1)"
    "frame s s'" "same_kind d d'"
  shows "grown s d T c os"
  using assms unfolding grown_def by blast

lemma grow_direct:
  assumes w: "work s d T I c os" and k: "length T < NDIRECT" and fb: "unat (freeblock s) < FSSIZE"
  shows "grown s d T c os"
proof -
  let ?fb = "unat (freeblock s)"
  let ?d = "d\<lparr>daddrs := (daddrs d)[length T := of_nat ?fb]\<rparr>" and ?s = "s\<lparr>img := img s, freeblock := of_nat (Suc ?fb)\<rparr>"
  note D = workD[OF w]
  have f: "length (daddrs d) = NDIRECT + 1" "I = 0" "daddrs d ! length T = 0" using D(3) k by (auto simp: file_in_def)
  have "file_in (img s) ?d (T @ [?fb]) 0 c"
    unfolding file_in_def
  proof (intro conjI allI impI)
    show "img s ! ((T @ [?fb]) ! (j div BSIZE)) ! (j mod BSIZE) = (if j < length c then c ! j else 0)" if "j < BSIZE * length (T @ [?fb])" for j
      by (rule fresh_content[OF D(3) D(6)[OF order_refl fb] _ that]) simp
    show "daddrs ?d ! i = (if i < length (T @ [?fb]) then of_nat ((T @ [?fb]) ! i) else 0)" if "i < NDIRECT" for i
      using D(3) that k by (auto simp: file_in_def nth_append nth_list_update)
  qed (use D(3) k f in \<open>auto simp: file_in_def MAXFILE_def\<close>)
  then have "work ?s ?d (T @ [?fb]) 0 c os" using f(2) by (intro work_change[OF w]) (use D(1,2) fb in \<open>auto simp: owned_def\<close>)
  moreover have "?s = s\<lparr>freeblock := freeblock s + 1\<rparr>" by (simp add: add.commute)
  ultimately have wk: "work (s\<lparr>freeblock := freeblock s + 1\<rparr>) ?d (T @ [?fb]) 0 c os" by metis
  have un: "unat (freeblock s + 1) = Suc ?fb" using next_block(3) fb by simp
  have ia: "iappend_block (length T) d s = Inr (of_nat ?fb, ?d, s\<lparr>freeblock := freeblock s + 1\<rparr>)"
    using k f by (simp add: iappend_block_def)
  show ?thesis by (rule grownI[OF ia wk]) (use k un in \<open>auto simp: frame_def same_kind_def\<close>)
qed

lemma file_in_push:
  assumes f: "file_in m d T I c" and k: "NDIRECT \<le> length T" "length T < MAXFILE"
    and d: "length (daddrs d') = NDIRECT + 1" "\<And>i. i < NDIRECT \<Longrightarrow> daddrs d' ! i = daddrs d ! i" "daddrs d' ! NDIRECT = of_nat J" and J: "J \<noteq> 0"
    and ind: "m' ! J = put32 (length T - NDIRECT) (of_nat b) ib" "length ib = BSIZE"
      "\<And>j. j < NINDIRECT \<Longrightarrow> get32 ib j = (if NDIRECT + j < length T then of_nat (T ! (NDIRECT + j)) else 0)"
    and same: "\<And>x. x \<in> set T \<Longrightarrow> m' ! x = m ! x" and z: "m' ! b = zeroes"
  shows "file_in m' d' (T @ [b]) J c"
  unfolding file_in_def
proof (intro conjI allI impI)
  show "m' ! ((T @ [b]) ! (j div BSIZE)) ! (j mod BSIZE) = (if j < length c then c ! j else 0)" if "j < BSIZE * length (T @ [b])" for j
    by (rule fresh_content[OF f z same that])
  show "daddrs d' ! i = (if i < length (T @ [b]) then of_nat ((T @ [b]) ! i) else 0)" if "i < NDIRECT" for i
    using f that k(1) d(2) by (auto simp: file_in_def nth_append)
  show "get32 (m' ! J) j = (if NDIRECT + j < length (T @ [b]) then of_nat ((T @ [b]) ! (NDIRECT + j)) else 0)" if j: "j < NINDIRECT" for j
  proof -
    have "4 * (length T - NDIRECT) + 3 < length ib" using k ind(2) by (simp add: MAXFILE_def NINDIRECT_def BSIZE_def)
    then have "get32 (m' ! J) j = (if j = length T - NDIRECT then of_nat b else get32 ib j)" unfolding ind(1) by (rule get32_put32)
    then show ?thesis using ind(3)[OF j] k(1) by (auto simp: nth_append)
  qed
qed (use f k d J in \<open>auto simp: file_in_def\<close>)

lemma grow_first_indirect:
  assumes w: "work s d T I c os" and k: "length T = NDIRECT" and fb: "Suc (unat (freeblock s)) < FSSIZE"
  shows "grown s d T c os"
proof -
  let ?fb = "unat (freeblock s)" and ?b = "Suc (unat (freeblock s))"
  let ?m = "(img s)[?fb := put32 0 (of_nat ?b) zeroes]"
  let ?d = "d\<lparr>daddrs := (daddrs d)[NDIRECT := of_nat ?fb]\<rparr>" and ?s = "s\<lparr>img := ?m, freeblock := of_nat (?fb + 2)\<rparr>"
  note D = workD[OF w]
  have f: "length (daddrs d) = NDIRECT + 1" "I = 0" "daddrs d ! NDIRECT = 0" using D(3) k by (auto simp: file_in_def)
  have z: "img s ! ?fb = zeroes" "img s ! ?b = zeroes" "?fb \<noteq> 0" using D(6) fb D(4) by (auto simp: nmeta_num)
  have "file_in ?m ?d (T @ [?b]) ?fb c"
  proof (rule file_in_push[OF D(3), where ib = zeroes])
    show "?m ! x = img s ! x" if "x \<in> set T" for x using D(7)[OF that] by simp
  qed (use z D(1) k fb f in \<open>auto simp: MAXFILE_def NINDIRECT_def get32_zeroes BSIZE_def\<close>)
  moreover have "[?fb..<?fb + 2] = [?fb, ?b]" by (simp add: upt_rec)
  ultimately have "work ?s ?d (T @ [?b]) ?fb c os"
    using f(2) z(3) by (intro work_change[OF w]) (use D(1,2) fb in \<open>auto simp: owned_def nth_list_update\<close>)
  moreover have "?s = s\<lparr>img := ?m, freeblock := freeblock s + 2\<rparr>" using next_block(2) by metis
  ultimately have wk: "work (s\<lparr>img := ?m, freeblock := freeblock s + 2\<rparr>) ?d (T @ [?b]) ?fb c os" by metis
  have ia: "iappend_block (length T) d s = Inr (of_nat ?b, ?d, s\<lparr>img := ?m, freeblock := freeblock s + 2\<rparr>)"
  proof -
    let ?t = "s\<lparr>freeblock := freeblock s + 1\<rparr>"
    have "rsect (freeblock s) ?t = Inr zeroes" using sect_access(1)[of ?t ?fb] D(1) z(1) fb by simp
    moreover have "wsect (freeblock s) buf (?t\<lparr>freeblock := freeblock ?t + 1\<rparr>) = s\<lparr>img := (img s)[?fb := buf], freeblock := freeblock s + 2\<rparr>" for buf
      using sect_access(2)[of "?t\<lparr>freeblock := freeblock ?t + 1\<rparr>" ?fb buf] D(1) fb by (simp add: add.assoc)
    moreover have "get32 (put32 0 (freeblock s + 1) zeroes) 0 = freeblock s + 1" by (simp add: get32_put32 BSIZE_def)
    ultimately show ?thesis using k f get32_zeroes[of 0] next_block(1)[of "freeblock s"] by (simp add: iappend_block_def bnd_Inr Let_def del: of_nat_Suc)
  qed
  show ?thesis by (rule grownI[OF ia wk]) (use k next_block(4)[OF fb] D(4) in \<open>auto simp: frame_def same_kind_def\<close>)
qed

lemma grow_indirect:
  assumes w: "work s d T I c os" and k: "NDIRECT < length T" "length T < MAXFILE" and fb: "unat (freeblock s) < FSSIZE"
  shows "grown s d T c os"
proof -
  let ?fb = "unat (freeblock s)"
  let ?m = "(img s)[I := put32 (length T - NDIRECT) (of_nat ?fb) (img s ! I)]" and ?s = "s\<lparr>img := (img s)[I := put32 (length T - NDIRECT) (of_nat ?fb) (img s ! I)], freeblock := of_nat (Suc ?fb)\<rparr>"
  note D = workD[OF w]
  have f: "length (daddrs d) = NDIRECT + 1" "I \<noteq> 0" "daddrs d ! NDIRECT = of_nat I" "get32 (img s ! I) (length T - NDIRECT) = 0"
    "j < NINDIRECT \<Longrightarrow> get32 (img s ! I) j = (if NDIRECT + j < length T then of_nat (T ! (NDIRECT + j)) else 0)" for j
    using D(3) k by (auto simp: file_in_def MAXFILE_def)
  have I: "I < FSSIZE" "nmeta \<le> I" "I \<notin> set T" "I < ?fb" using D(8,9) fb f(2) by auto
  have "file_in ?m d (T @ [?fb]) I c"
  proof (rule file_in_push[OF D(3) _ k(2), where ib = "img s ! I"])
    show "length (img s ! I) = BSIZE" by (rule D(2)[OF I(1)])
    show "?m ! x = img s ! x" if "x \<in> set T" for x using that I(3) by (metis nth_list_update_neq)
    show "?m ! ?fb = zeroes" using D(6)[OF order_refl fb] I(4) by simp
  qed (use k f I(1) D(1) in \<open>auto\<close>)
  then have "work ?s d (T @ [?fb]) I c os"
    by (intro work_change[OF w]) (use D(1,2) fb I f(2) in \<open>auto simp: owned_def nth_list_update\<close>)
  moreover have "?s = s\<lparr>img := ?m, freeblock := freeblock s + 1\<rparr>" by (simp add: add.commute)
  ultimately have wk: "work (s\<lparr>img := ?m, freeblock := freeblock s + 1\<rparr>) d (T @ [?fb]) I c os" by metis
  have ia: "iappend_block (length T) d s = Inr (of_nat ?fb, d, s\<lparr>img := ?m, freeblock := freeblock s + 1\<rparr>)"
  proof -
    have "4 * (length T - NDIRECT) + 3 < length (img s ! I)" using k D(2)[OF I(1)] by (simp add: MAXFILE_def NINDIRECT_def BSIZE_def)
    then have "get32 (put32 (length T - NDIRECT) v (img s ! I)) (length T - NDIRECT) = v" for v by (simp add: get32_put32)
    then show ?thesis using k f sect_access[of s I] sect_access(2)[of "s\<lparr>freeblock := freeblock s + 1\<rparr>" I] D(1) I(1) block_word(2)[of I] by (simp add: iappend_block_def bnd_Inr Let_def)
  qed
  show ?thesis by (rule grownI[OF ia wk]) (use k next_block(3)[OF fb] I(2) in \<open>auto simp: frame_def same_kind_def\<close>)
qed

section \<open>The loop of iappend\<close>

text \<open>The data blocks of a file of \<open>n\<close> bytes, and all its blocks.\<close>

definition nblks :: "nat \<Rightarrow> nat" where
  "nblks n = (n + BSIZE - 1) div BSIZE"

definition need :: "nat \<Rightarrow> nat" where
  "need n = nblks n + (if NDIRECT < nblks n then 1 else 0)"

lemma nblks_Suc: "nblks (Suc n) = n div BSIZE + 1"
  by (simp add: nblks_def BSIZE_def)

lemma nblks_cases: "nblks n = (if BSIZE dvd n then n div BSIZE else n div BSIZE + 1)"
proof (cases n)
  case (Suc m)
  have "Suc m div BSIZE = (if Suc m mod BSIZE = 0 then Suc (m div BSIZE) else m div BSIZE)" by (rule div_Suc)
  then show ?thesis unfolding Suc nblks_Suc by (simp add: dvd_eq_mod_eq_0)
qed (simp add: nblks_def BSIZE_def)

lemma nblks_same_block:
  assumes "0 < k" "k \<le> (n div BSIZE + 1) * BSIZE - n"
  shows "nblks (n + k) = n div BSIZE + 1"
proof -
  have le: "BSIZE * (n div BSIZE) \<le> n" by simp
  have "(n + k - 1) div BSIZE = n div BSIZE"
  proof (rule div_nat_eqI)
    show "BSIZE * (n div BSIZE) \<le> n + k - 1" using le assms(1) by linarith
    show "n + k - 1 < BSIZE * Suc (n div BSIZE)" using assms by (simp add: mult.commute)
  qed
  moreover have "n + k = Suc (n + k - 1)" using assms(1) by simp
  ultimately show ?thesis using nblks_Suc by metis
qed

lemma nblks_mono: "a \<le> b \<Longrightarrow> nblks a \<le> nblks b" "a \<le> b \<Longrightarrow> need a \<le> need b"
proof -
  show c: "a \<le> b \<Longrightarrow> nblks a \<le> nblks b" by (simp add: nblks_def div_le_mono)
  then show "a \<le> b \<Longrightarrow> need a \<le> need b" by (fastforce simp: need_def)
qed

definition got :: "mkfs \<Rightarrow> dinode \<Rightarrow> mkfs \<Rightarrow> dinode \<Rightarrow> nat \<Rightarrow> nat \<Rightarrow> bool" where
  "got s d s' d' a b \<longleftrightarrow> unat (freeblock s') + need a = unat (freeblock s) + need b \<and> frame s s' \<and> same_kind d d'"

lemma got_trans: "got s d s' d' a b \<Longrightarrow> got s' d' s'' d'' b c \<Longrightarrow> got s d s'' d'' a c"
  unfolding got_def using frame_trans by fastforce

lemma block_for:
  assumes w: "work s d T I c os" and T: "length T = nblks (length c)" and n: "length c div BSIZE < MAXFILE"
    and room: "unat (freeblock s) + need (Suc (length c)) \<le> FSSIZE + need (length c)"
  shows "\<exists>d' s' T' I'. iappend_block (length c div BSIZE) d s = Inr (of_nat (T' ! (length c div BSIZE)), d', s') \<and> work s' d' T' I' c os
    \<and> length T' = length c div BSIZE + 1 \<and> got s d s' d' (length c) (Suc (length c))"
proof (cases "BSIZE dvd length c")
  case False
  then have "length T = length c div BSIZE + 1" "need (Suc (length c)) = need (length c)" using T by (simp_all add: nblks_cases[of "length c"] nblks_Suc need_def)
  then show ?thesis using block_present[OF w, of "length c div BSIZE"] w by (fastforce simp: got_def frame_def same_kind_def)
next
  case True
  let ?n = "length c div BSIZE"
  have T': "length T = ?n" using T True by (simp add: nblks_cases)
  have e: "need (length c) = ?n + (if NDIRECT < ?n then 1 else 0)" "need (Suc (length c)) = ?n + 1 + (if NDIRECT < ?n + 1 then 1 else 0)"
    using True by (simp_all add: need_def nblks_Suc) (simp_all add: nblks_cases)
  have g: "grown s d T c os"
  proof (cases ?n NDIRECT rule: linorder_cases)
    case less
    then show ?thesis using grow_direct[OF w] T' room e by simp
  next
    case equal
    then show ?thesis using grow_first_indirect[OF w] T' room e by simp
  next
    case greater
    then show ?thesis using grow_indirect[OF w] T' n room e by simp
  qed
  then obtain b d' s' I' where "iappend_block ?n d s = Inr (of_nat b, d', s')" "work s' d' (T @ [b]) I' c os"
    "unat (freeblock s') = unat (freeblock s) + (if ?n = NDIRECT then 2 else 1)" "frame s s'" "same_kind d d'" using T' by (auto simp: grown_def)
  moreover have "(T @ [b]) ! ?n = b" "length (T @ [b]) = ?n + 1" using T' by (simp_all add: nth_append)
  moreover have "need (Suc (length c)) = need (length c) + (if ?n = NDIRECT then 2 else 1)" using e by auto
  ultimately show ?thesis unfolding got_def by (intro exI[of _ d'] exI[of _ s'] exI[of _ "T @ [b]"] exI[of _ I']) simp
qed

lemma bcopy_nth:
  assumes "k + length q \<le> length b"
  shows "length (bcopy q k b) = length b" "i < length b \<Longrightarrow> bcopy q k b ! i = (if k \<le> i \<and> i < k + length q then q ! (i - k) else b ! i)"
  using assms by (auto simp: bcopy_def nth_append min_def)

lemma write_data:
  assumes w: "work s d T I c os" and T: "length T = length c div BSIZE + 1" and q: "length q \<le> (length c div BSIZE + 1) * BSIZE - length c"
    and x: "x = T ! (length c div BSIZE)" and b: "b = bcopy q (length c - length c div BSIZE * BSIZE) (img s ! x)"
  shows "rsect (of_nat x) s = Inr (img s ! x)" "work (wsect (of_nat x) b s) d T I (c @ q) os" "frame s (wsect (of_nat x) b s)" "freeblock (wsect (of_nat x) b s) = freeblock s"
proof -
  let ?n = "length c div BSIZE" and ?k = "length c - length c div BSIZE * BSIZE" and ?m = "(img s)[x := b]"
  note D = workD[OF w]
  have xT: "x \<in> set T" "x < FSSIZE" "nmeta \<le> x" using x T D(5) D(7)[of x] D(11)[of x] by auto
  note a = sect_access[OF D(1) xT(2)]
  show "rsect (of_nat x) s = Inr (img s ! x)" by (rule a(1))
  have len: "length (img s ! x) = BSIZE" "?k + length q \<le> BSIZE" using D(2)[OF xT(2)] q by (auto simp: BSIZE_def)
  have lb: "length b = BSIZE" "i < BSIZE \<Longrightarrow> b ! i = (if ?k \<le> i \<and> i < ?k + length q then q ! (i - ?k) else img s ! x ! i)" for i
    using bcopy_nth[of ?k q "img s ! x"] len b by simp_all
  have "file_in ?m d T I (c @ q)"
    unfolding file_in_def
  proof (intro conjI allI impI)
    show "?m ! (T ! (j div BSIZE)) ! (j mod BSIZE) = (if j < length (c @ q) then (c @ q) ! j else 0)" if j: "j < BSIZE * length T" for j
    proof -
      have old: "img s ! (T ! (j div BSIZE)) ! (j mod BSIZE) = (if j < length c then c ! j else 0)" using D(3) j by (simp add: file_in_def)
      have jd: "j div BSIZE < length T" "j mod BSIZE < BSIZE" using j by (simp_all add: less_mult_imp_div_less mult.commute BSIZE_def)
      show ?thesis
      proof (cases "j div BSIZE = ?n")
        case True
        have e: "j mod BSIZE = j - ?n * BSIZE" "?n * BSIZE \<le> j" "?n * BSIZE \<le> length c" using minus_div_mult_eq_mod[of j BSIZE] div_times_less_eq_dividend[of j BSIZE] div_times_less_eq_dividend[of "length c" BSIZE] unfolding True by simp_all
        then have r: "?k \<le> j mod BSIZE \<and> j mod BSIZE < ?k + length q \<longleftrightarrow> length c \<le> j \<and> j < length c + length q" "j mod BSIZE - ?k = j - length c" by auto
        have "?m ! (T ! (j div BSIZE)) = b" using True x xT(2) D(1) by simp
        then show ?thesis using lb(2)[OF jd(2)] old r True x by (auto simp: nth_append)
      next
        case False
        then have "T ! (j div BSIZE) \<noteq> x" using D(10) jd(1) T x by (simp add: nth_eq_iff_index_eq)
        moreover have "j < length c \<or> \<not> j < length (c @ q)" "j < length c \<longrightarrow> (c @ q) ! j = c ! j"
          using False jd(1) T q by (auto simp: nth_append BSIZE_def)
        ultimately show ?thesis using old by auto
      qed
    qed
    show "length (c @ q) \<le> BSIZE * length T" using T q by (simp add: BSIZE_def)
    show "get32 (?m ! I) j = (if NDIRECT + j < length T then of_nat (T ! (NDIRECT + j)) else 0)" if "I \<noteq> 0" "j < NINDIRECT" for j
    proof -
      have "x \<noteq> I" using D(9)[OF that(1)] xT(1) by auto
      then show ?thesis using D(3) that by (simp add: file_in_def)
    qed
  qed (use D(3) in \<open>auto simp: file_in_def\<close>)
  moreover have "s\<lparr>img := ?m\<rparr> = s\<lparr>img := ?m, freeblock := of_nat (unat (freeblock s))\<rparr>" by simp
  moreover have "x \<in> set (owned T I)" using xT(1) by (simp add: owned_def)
  ultimately have "work (s\<lparr>img := ?m\<rparr>) d T I (c @ q) os"
    by (metis (no_types, lifting) work_change[OF w, of "unat (freeblock s)" ?m d T I "c @ q"] D(1,2,5) lb(1) append_Nil2 length_list_update nth_list_update_eq nth_list_update_neq order_refl upt_eq_Nil_conv)
  then show "work (wsect (of_nat x) b s) d T I (c @ q) os" unfolding a(2) .
  show "frame s (wsect (of_nat x) b s)" "freeblock (wsect (of_nat x) b s) = freeblock s" unfolding a(2) using xT(3) by (auto simp: frame_def)
qed

text \<open>All of \<open>p\<close> is appended when the file stays within its limit and the image has the blocks.\<close>

lemma iappend_loop_ok:
  assumes "work s d T I c os" "length T = nblks (length c)" "length (c @ p) \<le> MAXFILE * BSIZE" "unat (freeblock s) + need (length (c @ p)) \<le> FSSIZE + need (length c)"
  shows "\<exists>d' s' T' I'. iappend_loop p (of_nat (length c)) d s = Inr (of_nat (length (c @ p)), d', s') \<and> work s' d' T' I' (c @ p) os
    \<and> length T' = nblks (length (c @ p)) \<and> got s d s' d' (length c) (length (c @ p))"
  using assms
proof (induction "length p" arbitrary: p s d T I c rule: less_induct)
  case less
  show ?case
  proof (cases "p = []")
    case True
    then show ?thesis using less.prems(1,2) by (auto simp: iappend_loop.simps[of "[]"] got_def frame_def same_kind_def)
  next
    case False
    let ?n = "length c div BSIZE"
    define n1 where "n1 = min (length p) ((?n + 1) * BSIZE - length c)"
    let ?q = "take n1 p" and ?c = "c @ take n1 p"
    have n1: "0 < n1" "n1 \<le> length p" "n1 \<le> (?n + 1) * BSIZE - length c" "length ?q = n1" using False block_rest[of "length c"] by (auto simp: n1_def)
    have u: "unat (of_nat (length c) :: uint) = length c" using less.prems(3) by (simp add: unat_of_nat MAXFILE_def NDIRECT_def NINDIRECT_def BSIZE_def)
    have nm: "?n < MAXFILE" using less.prems(3) n1(1,2) by (intro less_mult_imp_div_less) (simp add: mult.commute)
    have c1: "nblks (Suc (length c)) = ?n + 1" "nblks (length ?c) = ?n + 1" using nblks_Suc nblks_same_block[OF n1(1,3)] n1(4) by simp_all
    then have nd: "need (length ?c) = need (Suc (length c))" by (simp add: need_def)
    have "need (length ?c) \<le> need (length (c @ p))" using n1(2) by (intro nblks_mono(2)) simp
    then have "unat (freeblock s) + need (Suc (length c)) \<le> FSSIZE + need (length c)" using less.prems(4) nd by simp
    from block_for[OF less.prems(1,2) nm this] obtain d1 s1 T1 I1 where
      b: "iappend_block ?n d s = Inr (of_nat (T1 ! ?n), d1, s1)" "work s1 d1 T1 I1 c os" "length T1 = ?n + 1" and g1: "got s d s1 d1 (length c) (Suc (length c))" by blast
    define x where "x = T1 ! ?n"
    define bf where "bf = bcopy ?q (length c - ?n * BSIZE) (img s1 ! x)"
    let ?s = "wsect (of_nat x) bf s1"
    have ql: "length ?q \<le> (?n + 1) * BSIZE - length c" using n1(3,4) by simp
    note wd = write_data[OF b(2,3) ql x_def bf_def]
    have g2: "got s d ?s d1 (length c) (length ?c)" using g1 wd(3,4) nd frame_trans(1) by (auto simp: got_def)
    have eq: "iappend_loop p (of_nat (length c)) d s = iappend_loop (drop n1 p) (of_nat (length ?c)) d1 ?s"
    proof -
      have "of_nat (length ?c) = of_nat (length c) + (of_nat n1 :: uint)" using n1(4) by simp
      then show ?thesis using False nm b(1) wd(1) unfolding bf_def x_def n1_def by (subst iappend_loop.simps) (simp add: u Let_def bnd_Inr)
    qed
    have cp: "?c @ drop n1 p = c @ p" by simp
    have "\<exists>d' s' T' I'. iappend_loop (drop n1 p) (of_nat (length ?c)) d1 ?s = Inr (of_nat (length (?c @ drop n1 p)), d', s') \<and> work s' d' T' I' (?c @ drop n1 p) os
      \<and> length T' = nblks (length (?c @ drop n1 p)) \<and> got ?s d1 s' d' (length ?c) (length (?c @ drop n1 p))"
    proof (rule less.hyps)
      show "length (drop n1 p) < length p" using n1 by simp
      show "length T1 = nblks (length ?c)" using b(3) c1 by simp
      show "unat (freeblock ?s) + need (length (?c @ drop n1 p)) \<le> FSSIZE + need (length ?c)" unfolding cp using less.prems(4) g2 by (simp add: got_def)
    qed (use wd(2) less.prems(3) cp in simp_all)
    then show ?thesis unfolding eq cp using got_trans[OF g2] by blast
  qed
qed

end
