(* ===== verification/Mkfs_Files.thy ===== *)
theory Mkfs_Files
  imports Mkfs_Image
begin

unbundle bit_operations_syntax

text \<open>The whole image with its inodes: what \<open>ialloc\<close>, \<open>iappend\<close> and the additions of files do to the list of files.\<close>

section \<open>Inodes in the image\<close>

definition inode_in :: "block list \<Rightarrow> nat \<Rightarrow> dinode" where
  "inode_in m n = get_dinode (m ! (32 + n div IPB)) (64 * (n mod IPB))"

lemma sb_nums: "sb_inodestart mkfs_sb = 32" "sb_bmapstart mkfs_sb = 45" "FSMAGIC = sb_magic mkfs_sb"
  by (simp_all add: mkfs_sb_def layout_nums)

lemma inode_at:
  assumes "n < 208"
  shows "IBLOCK (of_nat n) mkfs_sb = of_nat (32 + n div IPB)" "dinode_at (of_nat n) = 64 * (n mod IPB)" "32 + n div IPB < 45"
proof -
  have u: "unat (of_nat n :: uint) = n" using assms by (simp add: unat_of_nat)
  have i: "IPB = 16" by (simp add: IPB_def BSIZE_def)
  have "unat (of_nat n div 16 :: uint) = n div 16" using u by (simp add: unat_div)
  then have "of_nat n div 16 = (of_nat (n div 16) :: uint)" using assms by (simp add: word_unat_eq_iff unat_of_nat)
  then show "IBLOCK (of_nat n) mkfs_sb = of_nat (32 + n div IPB)" by (simp add: IBLOCK_def sb_nums i)
  show "dinode_at (of_nat n) = 64 * (n mod IPB)" using u by (simp add: dinode_at_def)
  show "32 + n div IPB < 45" using assms unfolding i by (simp add: less_mult_imp_div_less)
qed

lemma rwinode:
  assumes s: "length (img s) = FSSIZE" "msb s = mkfs_sb" and n: "n < 208"
  shows "rinode (of_nat n) s = Inr (inode_in (img s) n)"
    "winode (of_nat n) d s = Inr (s\<lparr>img := (img s)[32 + n div IPB := put_dinode d (64 * (n mod IPB)) (img s ! (32 + n div IPB))]\<rparr>)"
proof -
  have b: "32 + n div IPB < FSSIZE" using inode_at(3)[OF n] by (simp add: FSSIZE_def)
  note a = sect_access[OF s(1) b]
  show "rinode (of_nat n) s = Inr (inode_in (img s) n)" unfolding rinode_def s(2) inode_at(1,2)[OF n] a inode_in_def by (simp add: bnd_Inr)
  show "winode (of_nat n) d s = Inr (s\<lparr>img := (img s)[32 + n div IPB := put_dinode d (64 * (n mod IPB)) (img s ! (32 + n div IPB))]\<rparr>)"
    unfolding winode_def s(2) inode_at(1,2)[OF n] a Let_def by (simp add: bnd_Inr)
qed

lemma inode_in_put:
  assumes "length m = FSSIZE" "\<And>b. b < FSSIZE \<Longrightarrow> length (m ! b) = BSIZE" "length (daddrs d) = NDIRECT + 1" "n < 208" "k < 208"
  shows "inode_in (m[32 + n div IPB := put_dinode d (64 * (n mod IPB)) (m ! (32 + n div IPB))]) k = (if k = n then d else inode_in m k)"
proof (cases "k div IPB = n div IPB")
  case True
  have i: "n mod IPB < IPB" "k mod IPB < IPB" by (simp_all add: IPB_def BSIZE_def)
  have b: "32 + n div IPB < FSSIZE" using inode_at(3)[OF assms(4)] by (simp add: FSSIZE_def)
  have "k mod IPB = n mod IPB \<longleftrightarrow> k = n" using True by (metis div_mult_mod_eq)
  then show ?thesis unfolding inode_in_def True using get_put_dinode[OF assms(2)[OF b] assms(3) i] b assms(1) by simp
next
  case False
  then show ?thesis by (auto simp: inode_in_def)
qed

section \<open>The image and its files\<close>

definition kept_file :: "block list \<Rightarrow> ifile \<Rightarrow> bool" where
  "kept_file m = (\<lambda>(d, T, I, c). file_in m d T I c \<and> length T = nblks (length c) \<and> dsize d = of_nat (length c) \<and> length c \<le> MAXFILE * BSIZE)"

definition image :: "mkfs \<Rightarrow> ifile list \<Rightarrow> bool" where
  "image s fs \<longleftrightarrow> whole s \<and> (\<forall>f \<in> set fs. kept_file (img s) f) \<and> mset (parts fs) = mset [nmeta..<unat (freeblock s)]
     \<and> freeinode s = of_nat (length fs + 1) \<and> length fs < NINODES \<and> (\<forall>i < length fs. inode_in (img s) (i + 1) = fst (fs ! i)) \<and> img s ! 1 = sb_block mkfs_sb"

definition contents :: "ifile \<Rightarrow> byte list" where
  "contents f = snd (snd (snd f))"

lemma owned_need: "file_in m d T I c \<Longrightarrow> length T = nblks n \<Longrightarrow> length (owned T I) = need n"
  by (auto simp: file_in_def owned_def need_def)

lemma image_free:
  assumes "image s fs"
  shows "unat (freeblock s) = nmeta + sum_list (map (need \<circ> length \<circ> contents) fs)"
proof -
  have m: "mset (parts fs) = mset [nmeta..<unat (freeblock s)]" "nmeta \<le> unat (freeblock s)" "\<forall>f \<in> set fs. kept_file (img s) f" using assms by (auto simp: image_def whole_def)
  have "length (case f of (d, T, I, c) \<Rightarrow> owned T I) = need (length (contents f))" if "f \<in> set fs" for f
    using m(3) that by (cases f) (auto simp: kept_file_def contents_def intro!: owned_need)
  then have "sum_list (map (\<lambda>f. length (case f of (d, T, I, c) \<Rightarrow> owned T I)) fs) = sum_list (map (need \<circ> length \<circ> contents) fs)"
    by (intro arg_cong[of _ _ sum_list] map_cong) simp_all
  then have "length (parts fs) = sum_list (map (need \<circ> length \<circ> contents) fs)" by (simp add: parts_def length_concat comp_def)
  moreover have "length (parts fs) = unat (freeblock s) - nmeta" using m(1) by (metis length_upt size_mset)
  ultimately show ?thesis using m(2) by simp
qed

lemma image_work:
  assumes im: "image s fs" and i: "i < length fs" "fs ! i = (d, T, I, c)"
  shows "work s d T I c (take i fs @ drop (Suc i) fs)" "length T = nblks (length c)" "inode_in (img s) (i + 1) = d" "dsize d = of_nat (length c)"
proof -
  have fs: "fs = take i fs @ (d, T, I, c) # drop (Suc i) fs" using i id_take_nth_drop[OF i(1)] by simp
  have k: "kept_file (img s) f" if "f \<in> set fs" for f using im that by (simp add: image_def)
  have "(d, T, I, c) \<in> set fs" using i by (metis nth_mem)
  from k[OF this] show "length T = nblks (length c)" "dsize d = of_nat (length c)" by (simp_all add: kept_file_def)
  show "inode_in (img s) (i + 1) = d" using im i by (simp add: image_def)
  have "set (take i fs @ drop (Suc i) fs) \<subseteq> set fs" using set_take_subset[of i fs] set_drop_subset[of "Suc i" fs] by simp
  then have "\<forall>(d', T', I', c') \<in> set (take i fs @ drop (Suc i) fs). file_in (img s) d' T' I' c'" using k by (fastforce simp: kept_file_def)
  moreover have "mset (owned T I @ parts (take i fs @ drop (Suc i) fs)) = mset (parts fs)" by (subst (3) fs) (simp add: parts_def)
  ultimately show "work s d T I c (take i fs @ drop (Suc i) fs)" using im k[OF \<open>(d, T, I, c) \<in> set fs\<close>] by (simp add: work_def image_def kept_file_def)
qed

text \<open>Writing an inode leaves all files alone and completes the image.\<close>

lemma file_blocks:
  assumes "mset (parts fs) = mset [nmeta..<n]" "(d, T, I, c) \<in> set fs" "b \<in> set (owned T I)"
  shows "nmeta \<le> b"
proof -
  have "b \<in> set (parts fs)" using assms(2,3) by (fastforce simp: parts_def)
  then show ?thesis using mset_eq_setD[OF assms(1)] by simp
qed

lemma winode_image:
  assumes w: "whole s" "\<forall>f \<in> set fs. kept_file (img s) f" "mset (parts fs) = mset [nmeta..<unat (freeblock s)]"
    and n: "i < length fs" "fst (fs ! i) = d" "\<And>k. k < length fs \<Longrightarrow> k \<noteq> i \<Longrightarrow> inode_in (img s) (k + 1) = fst (fs ! k)"
    and r: "freeinode s = of_nat (length fs + 1)" "length fs < NINODES" "img s ! 1 = sb_block mkfs_sb"
  shows "\<exists>s'. winode (of_nat (i + 1)) d s = Inr s' \<and> image s' fs \<and> freeblock s' = freeblock s"
proof -
  let ?b = "32 + (i + 1) div IPB"
  let ?m = "(img s)[?b := put_dinode d (64 * ((i + 1) mod IPB)) (img s ! ?b)]"
  have s: "length (img s) = FSSIZE" "msb s = mkfs_sb" "\<And>b. b < FSSIZE \<Longrightarrow> length (img s ! b) = BSIZE" using w(1) by (auto simp: whole_def)
  have i: "k + 1 < 208" if "k < length fs" for k using r(2) that by (simp add: NINODES_def)
  have b: "?b < 45" by (rule inode_at(3)[OF i[OF n(1)]])
  have other: "?m ! x = img s ! x" if "nmeta \<le> x" for x using that b by (simp add: nmeta_num)
  have kf: "kept_file ?m f" if f: "f \<in> set fs" for f
  proof -
    obtain d1 T1 I1 c1 where e: "f = (d1, T1, I1, c1)" by (cases f)
    have "\<forall>x \<in> set (owned T1 I1). ?m ! x = img s ! x" using file_blocks[OF w(3)] f e other by blast
    then show ?thesis using w(2) f e file_in_cong by (fastforce simp: kept_file_def)
  qed
  have "kept_file (img s) (fs ! i)" using w(2) n(1) by simp
  then have da: "length (daddrs d) = NDIRECT + 1" using n(2) by (cases "fs ! i") (auto simp: kept_file_def file_in_def)
  have ino: "inode_in ?m (k + 1) = fst (fs ! k)" if k: "k < length fs" for k
    using inode_in_put[OF s(1,3) da i[OF n(1)] i[OF k]] n k by auto
  have "whole (s\<lparr>img := ?m\<rparr>)"
    using w(1) b unfolding whole_def by (auto simp: nth_list_update nmeta_num)
  then have "image (s\<lparr>img := ?m\<rparr>) fs" using w(3) kf ino r unfolding image_def by simp
  then show ?thesis using rwinode(2)[OF s(1,2) i[OF n(1)]] by auto
qed

lemma iappend_ok:
  assumes im: "image s fs" and i: "i < length fs" "fs ! i = (d, T, I, c)" and room: "length (c @ p) \<le> MAXFILE * BSIZE" "unat (freeblock s) + need (length (c @ p)) \<le> FSSIZE + need (length c)"
  shows "\<exists>s' d' T' I'. iappend (of_nat (i + 1)) p s = Inr s' \<and> image s' (fs[i := (d', T', I', c @ p)]) \<and> same_kind d d'"
proof -
  note W = image_work[OF im i]
  have s: "length (img s) = FSSIZE" "msb s = mkfs_sb" and r: "freeinode s = of_nat (length fs + 1)" "length fs < NINODES" "img s ! 1 = sb_block mkfs_sb"
    and kf: "\<forall>f \<in> set fs. kept_file (img s) f" using im by (auto simp: image_def whole_def)
  have n: "i + 1 < 208" using r(2) i(1) by (simp add: NINODES_def)
  obtain d' s' T' I' where l: "iappend_loop p (of_nat (length c)) d s = Inr (of_nat (length (c @ p)), d', s')" "work s' d' T' I' (c @ p) (take i fs @ drop (Suc i) fs)"
    "length T' = nblks (length (c @ p))" "frame s s'" "same_kind d d'" using iappend_loop_ok[OF W(1,2) room] by (auto simp: got_def)
  let ?d = "d'\<lparr>dsize := of_nat (length (c @ p))\<rparr>"
  let ?fs = "fs[i := (?d, T', I', c @ p)]"
  have fs: "?fs = take i fs @ (?d, T', I', c @ p) # drop (Suc i) fs" by (rule upd_conv_take_nth_drop[OF i(1)])
  have l2: "whole s'" "file_in (img s') d' T' I' (c @ p)" "\<forall>(d', T', I', c') \<in> set (take i fs @ drop (Suc i) fs). file_in (img s') d' T' I' c'"
    "mset (owned T' I' @ parts (take i fs @ drop (Suc i) fs)) = mset [nmeta..<unat (freeblock s')]" using l(2) by (auto simp: work_def)
  have "kept_file (img s') f" if f: "f \<in> set ?fs" for f
  proof -
    consider "f = (?d, T', I', c @ p)" | "f \<in> set (take i fs @ drop (Suc i) fs)" using f unfolding fs by auto
    then show ?thesis
    proof cases
      case 1
      then show ?thesis using l2(2) l(3) room(1) by (simp add: kept_file_def file_in_def)
    next
      case 2
      obtain d1 T1 I1 c1 where e: "f = (d1, T1, I1, c1)" by (cases f)
      have "f \<in> set fs" using 2 set_take_subset[of i fs] set_drop_subset[of "Suc i" fs] by auto
      then have "kept_file (img s) f" using kf by blast
      moreover have "file_in (img s') d1 T1 I1 c1" using bspec[OF l2(3) 2] e by simp
      ultimately show ?thesis using e by (simp add: kept_file_def)
    qed
  qed
  moreover have "mset (parts ?fs) = mset [nmeta..<unat (freeblock s')]" unfolding fs using l2(4) by (simp add: parts_def ac_simps)
  moreover have "inode_in (img s') (k + 1) = fst (?fs ! k)" if k: "k < length ?fs" "k \<noteq> i" for k
  proof -
    have "32 + (k + 1) div IPB < nmeta" using inode_at(3)[of "k + 1"] r(2) k by (simp add: NINODES_def nmeta_num)
    then have "inode_in (img s') (k + 1) = inode_in (img s) (k + 1)" using l(4) by (simp add: inode_in_def frame_def)
    then show ?thesis using im k by (simp add: image_def)
  qed
  moreover have "freeinode s' = of_nat (length ?fs + 1)" "length ?fs < NINODES" "img s' ! 1 = sb_block mkfs_sb" using l(4) r by (auto simp: frame_def nmeta_num)
  ultimately obtain s'' where "winode (of_nat (i + 1)) ?d s' = Inr s''" "image s'' ?fs"
    using winode_image[OF l2(1), of ?fs i ?d] i(1) by fastforce
  moreover have "iappend (of_nat (i + 1)) p s = winode (of_nat (i + 1)) ?d s'"
    unfolding iappend_def rwinode(1)[OF s n] bnd_Inr W(3) xint_id W(4) l(1) by simp
  moreover have "same_kind d ?d" using l(5) by (simp add: same_kind_def)
  ultimately show ?thesis by (metis (no_types, lifting))
qed

lemma ialloc_ok:
  assumes im: "image s fs" and n: "length fs + 1 < NINODES"
  shows "\<exists>s'. ialloc_img ty s = Inr (of_nat (length fs + 1), s') \<and> freeblock s' = freeblock s
    \<and> image s' (fs @ [(\<lparr>dtype = ty, dmajor = 0, dminor = 0, dnlink = 1, dsize = 0, daddrs = replicate (NDIRECT + 1) 0\<rparr>, [], 0, [])])"
proof -
  let ?d = "\<lparr>dtype = ty, dmajor = 0, dminor = 0, dnlink = 1, dsize = 0, daddrs = replicate (NDIRECT + 1) 0\<rparr>"
  let ?fs = "fs @ [(?d, [], 0, [])]" and ?s = "s\<lparr>freeinode := freeinode s + 1\<rparr>"
  have f: "freeinode s = of_nat (length fs + 1)" using im by (simp add: image_def)
  have "kept_file (img s) (?d, [], 0, [])" by (simp add: kept_file_def file_in_def nblks_def BSIZE_def del: replicate_Suc)
  then have "\<forall>f \<in> set ?fs. kept_file (img ?s) f" using im by (auto simp: image_def)
  moreover have "whole ?s" "mset (parts ?fs) = mset [nmeta..<unat (freeblock ?s)]" using im by (simp_all add: image_def whole_def parts_def owned_def)
  moreover have "inode_in (img ?s) (k + 1) = fst (?fs ! k)" if "k < length ?fs" "k \<noteq> length fs" for k using im that by (simp add: image_def nth_append)
  ultimately obtain s' where "winode (of_nat (length fs + 1)) ?d ?s = Inr s'" "image s' ?fs" "freeblock s' = freeblock s"
    using winode_image[of ?s ?fs "length fs" ?d] n f im by (fastforce simp: image_def)
  moreover have "ialloc_img ty s = bnd (winode (of_nat (length fs + 1)) ?d ?s) (\<lambda>s. Inr (of_nat (length fs + 1), s))" unfolding ialloc_img_def Let_def f xint_id xshort_id by simp
  ultimately show ?thesis by (simp add: bnd_Inr)
qed

section \<open>The list of contents\<close>

definition node :: "ushort \<Rightarrow> dinode" where
  "node ty = \<lparr>dtype = ty, dmajor = 0, dminor = 0, dnlink = 1, dsize = 0, daddrs = replicate (NDIRECT + 1) 0\<rparr>"

definition kind_of :: "nat \<Rightarrow> ushort" where
  "kind_of i = (if i = 0 then T_DIR else T_FILE)"

text \<open>The image holds the root directory and files with the contents \<open>cs\<close>, in the order of their inodes.\<close>

definition listing :: "mkfs \<Rightarrow> byte list list \<Rightarrow> bool" where
  "listing s cs \<longleftrightarrow> (\<exists>fs. image s fs \<and> map contents fs = cs \<and> (\<forall>i < length fs. same_kind (node (kind_of i)) (fst (fs ! i))))"

definition all_need :: "byte list list \<Rightarrow> nat" where
  "all_need cs = sum_list (map (need \<circ> length) cs)"

lemma all_need_simps [simp]: "all_need [] = 0" "all_need (c # cs) = need (length c) + all_need cs" "all_need (cs @ ds) = all_need cs + all_need ds"
  by (simp_all add: all_need_def)

lemma all_need_update: "i < length cs \<Longrightarrow> all_need (cs[i := c]) + need (length (cs ! i)) = all_need cs + need (length c)"
proof (induction cs arbitrary: i)
  case (Cons a cs)
  then show ?case by (cases i) auto
qed simp

lemma need_0 [simp]: "need 0 = 0"
  by (simp add: need_def nblks_def BSIZE_def)

lemma listing_append:
  assumes l: "listing s cs" and i: "i < length cs" and room: "length (cs ! i @ p) \<le> MAXFILE * BSIZE" "nmeta + all_need (cs[i := cs ! i @ p]) \<le> FSSIZE"
  shows "\<exists>s'. iappend (of_nat (i + 1)) p s = Inr s' \<and> listing s' (cs[i := cs ! i @ p])"
proof -
  obtain fs where fs: "image s fs" "map contents fs = cs" "\<forall>i < length fs. same_kind (node (kind_of i)) (fst (fs ! i))" using l by (auto simp: listing_def)
  have n: "i < length fs" using fs(2) i by auto
  obtain d T I c where e: "fs ! i = (d, T, I, c)" by (cases "fs ! i")
  have c: "c = cs ! i" using e fs(2) n by (auto simp: contents_def)
  have "unat (freeblock s) = nmeta + all_need cs" using image_free[OF fs(1)] fs(2) by (auto simp: all_need_def)
  then have "unat (freeblock s) + need (length (c @ p)) \<le> FSSIZE + need (length c)" using all_need_update[OF i, of "cs ! i @ p"] room(2) c by simp
  then obtain s' d' T' I' where a: "iappend (of_nat (i + 1)) p s = Inr s'" "image s' (fs[i := (d', T', I', c @ p)])" "same_kind d d'"
    using iappend_ok[OF fs(1) n e] room(1) c by blast
  have "map contents (fs[i := (d', T', I', c @ p)]) = cs[i := cs ! i @ p]" using fs(2) c by (simp add: map_update contents_def)
  moreover have "same_kind (node (kind_of k)) (fst (fs[i := (d', T', I', c @ p)] ! k))" if "k < length fs" for k
  proof (cases "k = i")
    case True
    then have "same_kind (node (kind_of k)) d" using fs(3) that e by (metis fst_conv)
    then show ?thesis using True that frame_trans(2)[OF _ a(3)] by simp
  qed (use fs(3) that in simp)
  ultimately show ?thesis using a(1,2) unfolding listing_def by (metis length_list_update)
qed

lemma listing_ialloc:
  assumes l: "listing s cs" and n: "length cs + 1 < NINODES"
  shows "\<exists>s'. ialloc_img (kind_of (length cs)) s = Inr (of_nat (length cs + 1), s') \<and> listing s' (cs @ [[]])"
proof -
  obtain fs where fs: "image s fs" "map contents fs = cs" "\<forall>i < length fs. same_kind (node (kind_of i)) (fst (fs ! i))" using l by (auto simp: listing_def)
  have len: "length fs = length cs" using fs(2) by auto
  obtain s' where a: "ialloc_img (kind_of (length cs)) s = Inr (of_nat (length cs + 1), s')" "image s' (fs @ [(node (kind_of (length cs)), [], 0, [])])"
    using ialloc_ok[OF fs(1), of "kind_of (length cs)"] n len unfolding node_def by metis
  have "map contents (fs @ [(node (kind_of (length cs)), [], 0, [])]) = cs @ [[]]" using fs(2) by (simp add: contents_def)
  moreover have "same_kind (node (kind_of i)) (fst ((fs @ [(node (kind_of (length cs)), [], 0, [])]) ! i))" if "i < Suc (length fs)" for i
    using fs(3) that len by (cases "i < length fs") (auto simp: nth_append same_kind_def less_Suc_eq)
  ultimately show ?thesis using a unfolding listing_def by (metis length_append_singleton)
qed

lemma listing_pieces:
  "listing s cs \<Longrightarrow> i < length cs \<Longrightarrow> length (cs ! i @ concat ps) \<le> MAXFILE * BSIZE \<Longrightarrow> nmeta + all_need (cs[i := cs ! i @ concat ps]) \<le> FSSIZE \<Longrightarrow>
   \<exists>s'. for_each (iappend (of_nat (i + 1))) ps s = Inr s' \<and> listing s' (cs[i := cs ! i @ concat ps])"
proof (induction ps arbitrary: s cs)
  case (Cons p ps)
  let ?cs = "cs[i := cs ! i @ p]"
  have "need (length (cs ! i @ p)) \<le> need (length (cs ! i @ concat (p # ps)))" by (rule nblks_mono(2)) simp
  then have "all_need ?cs \<le> all_need (cs[i := cs ! i @ concat (p # ps)])"
    using all_need_update[OF Cons.prems(2), of "cs ! i @ p"] all_need_update[OF Cons.prems(2), of "cs ! i @ concat (p # ps)"] by linarith
  then obtain s' where a: "iappend (of_nat (i + 1)) p s = Inr s'" "listing s' ?cs" using listing_append[OF Cons.prems(1,2), of p] Cons.prems(3,4) by auto
  have e: "?cs ! i @ concat ps = cs ! i @ concat (p # ps)" "?cs[i := cs ! i @ concat (p # ps)] = cs[i := cs ! i @ concat (p # ps)]" using Cons.prems(2) by simp_all
  have "\<exists>s''. for_each (iappend (of_nat (i + 1))) ps s' = Inr s'' \<and> listing s'' (?cs[i := ?cs ! i @ concat ps])"
    using Cons.IH[OF a(2)] Cons.prems(2-4) unfolding e by simp
  then show ?case using a(1) unfolding e by (simp add: bnd_Inr)
qed simp

section \<open>Adding files\<close>

definition entry_name :: "string \<Rightarrow> string" where
  "entry_name arg = skip_underscore (shortname arg)"

text \<open>The directory entries for the files from inode \<open>n\<close> on.\<close>

fun entries :: "nat \<Rightarrow> string list \<Rightarrow> byte list" where
  "entries n [] = []"
| "entries n (a # as) = dirent (of_nat n) (entry_name a) @ entries (n + 1) as"

lemma length_dirent [simp]: "length (dirent n nm) = 16"
  by (simp add: dirent_def DIRSIZ_def)

lemma length_entries: "length (entries n as) = 16 * length as"
  by (induction as arbitrary: n) auto

text \<open>A file that \<open>mkfs\<close> can take, with its contents.\<close>

definition host_ok :: "(string \<Rightarrow> byte list list option) \<Rightarrow> string \<Rightarrow> bool" where
  "host_ok host a \<longleftrightarrow> CHR ''/'' \<notin> set (shortname a) \<and> host a \<noteq> None \<and> length (concat (the (host a))) \<le> MAXFILE * BSIZE"

definition host_bytes :: "(string \<Rightarrow> byte list list option) \<Rightarrow> string \<Rightarrow> byte list" where
  "host_bytes host a = concat (the (host a))"

lemma small_ucast: "n < 65536 \<Longrightarrow> ucast (of_nat n :: uint) = (of_nat n :: ushort)"
  by (simp add: unsigned_of_nat take_bit_nat_eq_self)

lemma add_file_ok:
  assumes l: "listing s (R # Fs)" and h: "host_ok host a" and n: "length Fs + 2 < NINODES"
    and room: "length R + 16 \<le> MAXFILE * BSIZE" "nmeta + all_need ((R @ dirent (of_nat (length Fs + 2)) (entry_name a)) # Fs @ [host_bytes host a]) \<le> FSSIZE"
  shows "\<exists>s'. add_file host a s = Inr s' \<and> listing s' ((R @ dirent (of_nat (length Fs + 2)) (entry_name a)) # Fs @ [host_bytes host a])"
proof -
  let ?e = "dirent (of_nat (length Fs + 2)) (entry_name a)"
  obtain ps where ps: "host a = Some ps" "host_bytes host a = concat ps" "length (concat ps) \<le> MAXFILE * BSIZE" "CHR ''/'' \<notin> set (shortname a)"
    using h by (auto simp: host_ok_def host_bytes_def)
  obtain s1 where s1: "ialloc_img T_FILE s = Inr (of_nat (length Fs + 2), s1)" "listing s1 (R # Fs @ [[]])"
    using listing_ialloc[OF l] n by (auto simp: kind_of_def)
  have "nmeta + all_need ((R @ ?e) # Fs @ [[]]) \<le> FSSIZE" using room(2) by simp
  then obtain s2 where s2: "iappend ROOTINO ?e s1 = Inr s2" "listing s2 ((R @ ?e) # Fs @ [[]])"
    using listing_append[OF s1(2), of 0 ?e] room(1) by (auto simp: ROOTINO_def)
  have "\<exists>s3. for_each (iappend (of_nat (length Fs + 2))) ps s2 = Inr s3 \<and> listing s3 ((R @ ?e) # Fs @ [concat ps])"
    using listing_pieces[OF s2(2), of "Suc (length Fs)" ps] ps(2,3) room(2) by (auto simp: nth_append list_update_append)
  moreover have "ucast (of_nat (length Fs + 2) :: uint) = (of_nat (length Fs + 2) :: ushort)"
    using n by (intro small_ucast) (simp add: NINODES_def)
  ultimately show ?thesis using s1(1) s2(1) ps by (auto simp: add_file_def bnd_Inr entry_name_def)
qed

lemma add_files_ok:
  "listing s (R # Fs) \<Longrightarrow> \<forall>a \<in> set as. host_ok host a \<Longrightarrow> length Fs + length as + 1 < NINODES \<Longrightarrow> length R + 16 * length as \<le> MAXFILE * BSIZE \<Longrightarrow>
   nmeta + all_need ((R @ entries (length Fs + 2) as) # Fs @ map (host_bytes host) as) \<le> FSSIZE \<Longrightarrow>
   \<exists>s'. for_each (add_file host) as s = Inr s' \<and> listing s' ((R @ entries (length Fs + 2) as) # Fs @ map (host_bytes host) as)"
proof (induction as arbitrary: s R Fs)
  case (Cons a as)
  let ?R = "R @ dirent (of_nat (length Fs + 2)) (entry_name a)" and ?Fs = "Fs @ [host_bytes host a]"
  have e: "(R @ entries (length Fs + 2) (a # as)) # Fs @ map (host_bytes host) (a # as) = (?R @ entries (length ?Fs + 2) as) # ?Fs @ map (host_bytes host) as" by simp
  have "need (length ?R) \<le> need (length (?R @ entries (length ?Fs + 2) as))" by (rule nblks_mono(2)) simp
  then have "nmeta + all_need (?R # ?Fs) \<le> FSSIZE" using Cons.prems(5) unfolding e by simp
  moreover have "host_ok host a" "length Fs + 2 < NINODES" "length R + 16 \<le> MAXFILE * BSIZE" using Cons.prems(2-4) by auto
  ultimately obtain s' where a: "add_file host a s = Inr s'" "listing s' (?R # ?Fs)" using add_file_ok[OF Cons.prems(1), of host a] by blast
  have "\<exists>s''. for_each (add_file host) as s' = Inr s'' \<and> listing s'' ((?R @ entries (length ?Fs + 2) as) # ?Fs @ map (host_bytes host) as)"
    by (rule Cons.IH[OF a(2)]) (use Cons.prems(2-5) in auto)
  then show ?case unfolding e using a(1) by (simp add: bnd_Inr)
qed simp

section \<open>The empty image\<close>

lemma zero_sectors: "n \<le> FSSIZE \<Longrightarrow> img s = [] \<Longrightarrow> fold (\<lambda>i. wsect (of_nat i) zeroes) [0..<n] s = s\<lparr>img := replicate n zeroes\<rparr>"
proof (induction n)
  case (Suc n)
  then have "wsect (of_nat n) zeroes (s\<lparr>img := replicate n zeroes\<rparr>) = s\<lparr>img := replicate (Suc n) zeroes\<rparr>"
    by (simp add: wsect_def sect_nat replicate_append_same)
  then show ?case using Suc by simp
qed simp

lemma length_sb_block [simp]: "length (sb_block b) = BSIZE"
  by (simp add: sb_block_def)

lemma mkfs_start_listing: "listing mkfs_start []"
proof -
  let ?s = "\<lparr>img = [], msb = mkfs_sb, freeinode = 1, freeblock = of_nat nmeta\<rparr>"
  have "wsect 1 b (?s\<lparr>img := replicate FSSIZE zeroes\<rparr>) = ?s\<lparr>img := (replicate FSSIZE zeroes)[1 := b]\<rparr>" for b
    using sect_access(2)[of "?s\<lparr>img := replicate FSSIZE zeroes\<rparr>" 1 b] by (simp add: FSSIZE_def)
  then have e: "mkfs_start = ?s\<lparr>img := (replicate FSSIZE zeroes)[1 := sb_block mkfs_sb]\<rparr>"
    unfolding mkfs_start_def by (subst zero_sectors) simp_all
  have "image mkfs_start []"
    unfolding e by (simp add: image_def whole_def nmeta_num parts_def NINODES_def FSSIZE_def nth_list_update)
  then show ?thesis by (auto simp: listing_def)
qed

end
