(* ===== verification/Mkfs_Props.thy ===== *)
theory Mkfs_Props
  imports Mkfs_Files
begin

unbundle bit_operations_syntax

text \<open>The image that \<open>mkfs\<close> makes, as the kernel reads it.\<close>

section \<open>Reading the image\<close>

text \<open>As \<open>readsb\<close>, \<open>bmap\<close> and \<open>readi\<close> of the kernel do.\<close>

definition superblock_in :: "block \<Rightarrow> superblock" where
  "superblock_in d = \<lparr>sb_magic = get32 d 0, sb_size = get32 d 1, sb_nblocks = get32 d 2, sb_ninodes = get32 d 3,
     sb_nlog = get32 d 4, sb_logstart = get32 d 5, sb_inodestart = get32 d 6, sb_bmapstart = get32 d 7\<rparr>"

definition block_no :: "block list \<Rightarrow> dinode \<Rightarrow> nat \<Rightarrow> uint" where
  "block_no m d k = (if k < NDIRECT then daddrs d ! k else get32 (m ! unat (daddrs d ! NDIRECT)) (k - NDIRECT))"

definition file_bytes :: "block list \<Rightarrow> dinode \<Rightarrow> byte list" where
  "file_bytes m d = take (unat (dsize d)) (concat (map (\<lambda>k. m ! unat (block_no m d k)) [0..<nblks (unat (dsize d))]))"

lemma superblock_in_put: "superblock_in (sb_block b) = b"
  by (simp add: superblock_in_def sb_block_def get32_put32 BSIZE_def)

lemma concat_blocks:
  assumes "\<forall>x \<in> set xs. length x = n" "0 < n"
  shows "length (concat xs) = n * length xs" "j < n * length xs \<Longrightarrow> concat xs ! j = xs ! (j div n) ! (j mod n)"
proof -
  show "length (concat xs) = n * length xs" using assms(1) by (induction xs) auto
  show "j < n * length xs \<Longrightarrow> concat xs ! j = xs ! (j div n) ! (j mod n)" using assms(1)
  proof (induction xs arbitrary: j)
    case (Cons x xs)
    show ?case
    proof (cases "j < n")
      case False
      then have "concat (x # xs) ! j = xs ! ((j - n) div n) ! ((j - n) mod n)" using Cons by (simp add: nth_append)
      moreover have "j div n = Suc ((j - n) div n)" "j mod n = (j - n) mod n" using False assms(2) by (simp_all add: le_div_geq le_mod_geq)
      ultimately show ?thesis by simp
    qed (use Cons in \<open>simp add: nth_append\<close>)
  qed simp
qed

lemma file_bytes_ok:
  assumes f: "file_in m d T I c" and T: "length T = nblks (length c)" and n: "length c \<le> MAXFILE * BSIZE"
    and b: "\<And>x. x \<in> set (owned T I) \<Longrightarrow> x < FSSIZE \<and> length (m ! x) = BSIZE"
  shows "file_bytes m (d\<lparr>dsize := of_nat (length c)\<rparr>) = c"
proof -
  let ?d = "d\<lparr>dsize := of_nat (length c)\<rparr>"
  have u: "unat (of_nat (length c) :: uint) = length c" using n by (simp add: unat_of_nat MAXFILE_def NDIRECT_def NINDIRECT_def BSIZE_def)
  have bn: "unat (block_no m ?d k) = T ! k" if k: "k < length T" for k
  proof -
    have t: "T ! k < FSSIZE" using b[of "T ! k"] k by (simp add: owned_def)
    show ?thesis
    proof (cases "k < NDIRECT")
      case True
      then show ?thesis using f k block_word(1)[OF t] by (simp add: file_in_def block_no_def)
    next
      case False
      then have I: "I \<noteq> 0" "daddrs d ! NDIRECT = of_nat I" "get32 (m ! I) (k - NDIRECT) = of_nat (T ! k)" using f k by (auto simp: file_in_def MAXFILE_def)
      then have "unat (of_nat I :: uint) = I" using b[of I] block_word(1) by (simp add: owned_def)
      then show ?thesis using False I block_word(1)[OF t] by (simp add: block_no_def)
    qed
  qed
  have "map (\<lambda>k. m ! unat (block_no m ?d k)) [0..<length T] = map (\<lambda>k. m ! (T ! k)) [0..<length T]" using bn by simp
  then have e: "file_bytes m ?d = take (length c) (concat (map (\<lambda>k. m ! (T ! k)) [0..<length T]))" unfolding file_bytes_def by (simp add: u T[symmetric] del: map_eq_conv)
  have len: "\<forall>x \<in> set (map (\<lambda>k. m ! (T ! k)) [0..<length T]). length x = BSIZE" using b by (auto simp: owned_def)
  have p: "0 < BSIZE" by (simp add: BSIZE_def)
  note cb = concat_blocks[OF len p]
  have cT: "length c \<le> BSIZE * length T" using f by (simp add: file_in_def)
  show ?thesis unfolding e
  proof (rule nth_equalityI)
    show "length (take (length c) (concat (map (\<lambda>k. m ! (T ! k)) [0..<length T]))) = length c" using cb(1) cT by simp
    fix j assume "j < length (take (length c) (concat (map (\<lambda>k. m ! (T ! k)) [0..<length T])))"
    then have j: "j < length c" "j < BSIZE * length T" using cT by auto
    then have "j div BSIZE < length T" by (simp add: less_mult_imp_div_less mult.commute)
    then show "take (length c) (concat (map (\<lambda>k. m ! (T ! k)) [0..<length T])) ! j = c ! j"
      using j cb(2)[of j] f by (simp add: file_in_def)
  qed
qed

section \<open>The bitmap\<close>

lemma fold_bits: "n \<le> 8 * length b \<Longrightarrow> length (fold (\<lambda>i buf. buf[i div 8 := buf ! (i div 8) OR push_bit (i mod 8) 1]) [0..<n] b) = length (b :: block)
  \<and> (\<forall>j. bit_used (fold (\<lambda>i buf. buf[i div 8 := buf ! (i div 8) OR push_bit (i mod 8) 1]) [0..<n] b) j \<longleftrightarrow> bit_used b j \<or> j < n)"
proof (induction n)
  case (Suc n)
  then show ?case using bit_used_set[of n "fold (\<lambda>i buf. buf[i div 8 := buf ! (i div 8) OR push_bit (i mod 8) 1]) [0..<n] b"] by (auto simp: less_Suc_eq)
qed simp

lemma bit_used_zero: "j < 8 * BSIZE \<Longrightarrow> \<not> bit_used (replicate BSIZE 0) j"
  by (simp add: bit_used_bit less_mult_imp_div_less mult.commute)

section \<open>The finished image\<close>

definition root_dir :: "string list \<Rightarrow> byte list" where
  "root_dir args = dirent 1 ''.'' @ dirent 1 ''..'' @ entries 2 args"

definition fits :: "string list \<Rightarrow> (string \<Rightarrow> byte list list option) \<Rightarrow> bool" where
  "fits args host \<longleftrightarrow> (\<forall>a \<in> set args. host_ok host a) \<and> length args + 1 < NINODES \<and> nmeta + all_need (root_dir args # map (host_bytes host) args) \<le> FSSIZE"

lemma length_root_dir: "length (root_dir args) = 16 * (length args + 2)"
  by (simp add: root_dir_def length_entries)

text \<open>Up to the last entry.\<close>

lemma mkfs_listing:
  assumes f: "fits args host"
  obtains s where "listing s (root_dir args # map (host_bytes host) args)" "mkfs_main (prog # fsimg # args) host = bnd (fix_root s) (\<lambda>s. balloc_img (sint (freeblock s)) s)"
proof -
  have l: "length args < 199" "16 * length args + 32 \<le> MAXFILE * BSIZE" using f by (auto simp: fits_def NINODES_def MAXFILE_def NDIRECT_def NINDIRECT_def BSIZE_def)
  have room: "nmeta + need (length c) \<le> FSSIZE" if "length c \<le> length (root_dir args)" for c :: "byte list"
    using f nblks_mono(2)[OF that] by (simp add: fits_def)
  obtain s1 where s1: "ialloc_img T_DIR mkfs_start = Inr (1, s1)" "listing s1 [[]]" using listing_ialloc[OF mkfs_start_listing] by (auto simp: kind_of_def NINODES_def)
  obtain s2 where s2: "iappend 1 (dirent 1 ''.'') s1 = Inr s2" "listing s2 [dirent 1 ''.'']"
    using listing_append[OF s1(2), of 0 "dirent 1 ''.''"] room[of "dirent 1 ''.''"] by (auto simp: length_root_dir MAXFILE_def NDIRECT_def BSIZE_def)
  obtain s3 where s3: "iappend 1 (dirent 1 ''..'') s2 = Inr s3" "listing s3 [dirent 1 ''.'' @ dirent 1 ''..'']"
    using listing_append[OF s2(2), of 0 "dirent 1 ''..''"] room[of "dirent 1 ''.'' @ dirent 1 ''..''"] by (auto simp: length_root_dir MAXFILE_def NDIRECT_def BSIZE_def)
  have "\<exists>s. for_each (add_file host) args s3 = Inr s \<and> listing s ((root_dir args) # map (host_bytes host) args)"
    using add_files_ok[OF s3(2), of args host] f l by (simp add: fits_def root_dir_def numeral_2_eq_2)
  then obtain s where s: "for_each (add_file host) args s3 = Inr s" "listing s (root_dir args # map (host_bytes host) args)" by blast
  have u: "ucast (1 :: uint) = (1 :: ushort)" using small_ucast[of 1] by simp
  have "mkfs_main (prog # fsimg # args) host = bnd (fix_root s) (\<lambda>s. balloc_img (sint (freeblock s)) s)"
    using s1(1) s2(1) s3(1) s(1) by (simp add: mkfs_main_def bnd_Inr ROOTINO_def u)
  then show ?thesis using that s(2) by blast
qed

lemma round_up: "n < 2 ^ 31 \<Longrightarrow> (of_nat n div of_nat BSIZE + 1) * of_nat BSIZE = (of_nat ((n div BSIZE + 1) * BSIZE) :: uint)"
proof -
  assume n: "n < 2 ^ 31"
  have "of_nat n div (1024 :: uint) = of_nat (n div 1024)" using n by (simp add: word_unat_eq_iff unat_div unat_of_nat)
  then show ?thesis by (simp add: BSIZE_def algebra_simps)
qed

lemma small_sint: "unat (x :: uint) < 2 ^ 31 \<Longrightarrow> sint x = int (unat x)"
proof -
  assume x: "unat x < 2 ^ 31"
  have "int (unat x) < int (2 ^ 31)" using x by (simp only: of_nat_less_iff)
  then have u: "uint x < 2 ^ 31" by simp
  have "signed_take_bit 31 (uint x) = uint x" by (rule signed_take_bit_int_eq_self) (use u uint_ge_0[of x] in linarith)+
  then show ?thesis by (simp add: sint_uint)
qed

lemma finish_image:
  assumes im: "image s fs" and r: "0 < length fs" "fs ! 0 = (d, T, I, c)"
  shows "\<exists>s'. bnd (fix_root s) (\<lambda>s. balloc_img (sint (freeblock s)) s) = Inr s' \<and> length (img s') = FSSIZE \<and> (\<forall>b. nmeta \<le> b \<longrightarrow> img s' ! b = img s ! b) \<and> img s' ! 1 = img s ! 1
    \<and> inode_in (img s') 1 = d\<lparr>dsize := of_nat ((length c div BSIZE + 1) * BSIZE)\<rparr> \<and> (\<forall>k < length fs. k \<noteq> 0 \<longrightarrow> inode_in (img s') (k + 1) = fst (fs ! k))
    \<and> (\<forall>b < BPB. bit_used (img s' ! 45) b \<longleftrightarrow> b < unat (freeblock s))"
proof -
  note W = image_work[OF im r]
  have w: "length (img s) = FSSIZE" "msb s = mkfs_sb" "\<And>b. b < FSSIZE \<Longrightarrow> length (img s ! b) = BSIZE" "unat (freeblock s) \<le> FSSIZE" and n: "length fs < NINODES" using im by (auto simp: image_def whole_def)
  have kc: "kept_file (img s) (d, T, I, c)" using im r by (metis image_def nth_mem)
  then have c: "length c < 2 ^ 31" and da: "length (daddrs d) = NDIRECT + 1" by (auto simp: kept_file_def file_in_def MAXFILE_def NDIRECT_def NINDIRECT_def BSIZE_def)
  define z where "z = d\<lparr>dsize := of_nat ((length c div BSIZE + 1) * BSIZE)\<rparr>"
  define m where "m = (img s)[32 := put_dinode z 64 (img s ! 32)]"
  have i1: "(1 :: nat) < 208" "1 div IPB = 0" "1 mod IPB = 1" by (simp_all add: IPB_def BSIZE_def)
  have fr: "fix_root s = Inr (s\<lparr>img := m\<rparr>)"
    using rwinode[OF w(1,2) i1(1), unfolded i1(2,3)] W(3,4) round_up[OF c] by (simp add: fix_root_def ROOTINO_def bnd_Inr Let_def z_def m_def)
  let ?F = "fold (\<lambda>i buf. buf[i div 8 := buf ! (i div 8) OR push_bit (i mod 8) 1]) [0..<unat (freeblock s)] (replicate BSIZE 0 :: block)"
  have si: "sint (freeblock s) = int (unat (freeblock s))" using small_sint w(4) by (simp add: FSSIZE_def)
  have "balloc_img (sint (freeblock s)) (s\<lparr>img := m\<rparr>) = Inr (wsect 45 ?F (s\<lparr>img := m\<rparr>))"
    unfolding si using w(2,4) by (simp add: balloc_img_def sb_nums BSIZE_def FSSIZE_def del: of_nat_unat int_nat_eq)
  moreover have "wsect 45 ?F (s\<lparr>img := m\<rparr>) = s\<lparr>img := m[45 := ?F]\<rparr>" using sect_access(2)[of "s\<lparr>img := m\<rparr>" 45 ?F] w(1) by (simp add: m_def FSSIZE_def)
  ultimately have e: "bnd (fix_root s) (\<lambda>s. balloc_img (sint (freeblock s)) s) = Inr (s\<lparr>img := m[45 := ?F]\<rparr>)" using fr by (simp add: bnd_Inr)
  have b: "bit_used ?F b \<longleftrightarrow> b < unat (freeblock s)" if "b < BPB" for b
    using fold_bits[of "unat (freeblock s)" "replicate BSIZE 0"] w(4) bit_used_zero[of b] that by (simp add: FSSIZE_def BSIZE_def BPB_def)
  have ino: "inode_in (m[45 := ?F]) (k + 1) = (if k = 0 then z else fst (fs ! k))" if k: "k < length fs" for k
  proof -
    have k2: "k + 1 < 208" using n k by (simp add: NINODES_def)
    have "inode_in (m[45 := ?F]) (k + 1) = inode_in m (k + 1)" using inode_at(3)[OF k2] by (simp add: inode_in_def)
    also have "\<dots> = (if k = 0 then z else inode_in (img s) (k + 1))"
      using inode_in_put[OF w(1,3) _ i1(1) k2, of z, unfolded i1(2,3)] da by (simp add: m_def z_def)
    finally show ?thesis using im k by (simp add: image_def)
  qed
  have "\<forall>x. nmeta \<le> x \<longrightarrow> m[45 := ?F] ! x = img s ! x" "m[45 := ?F] ! 1 = img s ! 1" "length (m[45 := ?F]) = FSSIZE" "m[45 := ?F] ! 45 = ?F"
    using w(1) by (simp_all add: m_def nmeta_num FSSIZE_def)
  then show ?thesis using e b ino ino[OF r(1)] unfolding z_def by auto
qed

text \<open>All of it: the files of the finished image.\<close>

definition finished :: "mkfs \<Rightarrow> ifile list \<Rightarrow> string list \<Rightarrow> (string \<Rightarrow> byte list list option) \<Rightarrow> bool" where
  "finished s fs args host \<longleftrightarrow> length (img s) = FSSIZE \<and> img s ! 1 = sb_block mkfs_sb \<and> map contents fs = root_dir args # map (host_bytes host) args
     \<and> (\<forall>k < length fs. same_kind (node (kind_of k)) (fst (fs ! k)))
     \<and> (\<forall>(d, T, I, c) \<in> set fs. file_in (img s) d T I c \<and> length T = nblks (length c) \<and> dsize d = of_nat (length c) \<and> file_bytes (img s) (d\<lparr>dsize := of_nat (length c)\<rparr>) = c)
     \<and> inode_in (img s) 1 = (fst (fs ! 0))\<lparr>dsize := of_nat ((length (root_dir args) div BSIZE + 1) * BSIZE)\<rparr>
     \<and> (\<forall>k < length fs. k \<noteq> 0 \<longrightarrow> inode_in (img s) (k + 1) = fst (fs ! k))
     \<and> (\<forall>b < BPB. bit_used (img s ! 45) b \<longleftrightarrow> b < nmeta + all_need (root_dir args # map (host_bytes host) args))"

lemma mkfs_main_ok:
  assumes f: "fits args host"
  shows "\<exists>s fs. mkfs_main (prog # fsimg # args) host = Inr s \<and> finished s fs args host"
proof -
  let ?cs = "root_dir args # map (host_bytes host) args"
  obtain s0 where s0: "listing s0 ?cs" "mkfs_main (prog # fsimg # args) host = bnd (fix_root s0) (\<lambda>s. balloc_img (sint (freeblock s)) s)" by (rule mkfs_listing[OF f, where prog = prog and fsimg = fsimg])
  obtain fs where fs: "image s0 fs" "map contents fs = ?cs" "\<forall>i < length fs. same_kind (node (kind_of i)) (fst (fs ! i))" using s0(1) by (auto simp: listing_def)
  have l: "0 < length fs" using fs(2) by auto
  obtain d T I c where r: "fs ! 0 = (d, T, I, c)" by (cases "fs ! 0")
  have c: "c = root_dir args" using fs(2) l r by (cases fs) (auto simp: contents_def)
  have fb: "unat (freeblock s0) = nmeta + all_need ?cs" unfolding image_free[OF fs(1)] fs(2)[symmetric] by (simp add: all_need_def)
  from finish_image[OF fs(1) l r] obtain s where s: "mkfs_main (prog # fsimg # args) host = Inr s" "length (img s) = FSSIZE" "\<forall>b. nmeta \<le> b \<longrightarrow> img s ! b = img s0 ! b" "img s ! 1 = img s0 ! 1"
    "inode_in (img s) 1 = d\<lparr>dsize := of_nat ((length c div BSIZE + 1) * BSIZE)\<rparr>" "\<forall>k < length fs. k \<noteq> 0 \<longrightarrow> inode_in (img s) (k + 1) = fst (fs ! k)"
    "\<forall>b < BPB. bit_used (img s ! 45) b \<longleftrightarrow> b < unat (freeblock s0)" using s0(2) by auto
  have im: "whole s0" "\<forall>f \<in> set fs. kept_file (img s0) f" "mset (parts fs) = mset [nmeta..<unat (freeblock s0)]" "img s0 ! 1 = sb_block mkfs_sb" using fs(1) by (auto simp: image_def)
  have files: "file_in (img s) d T I c \<and> length T = nblks (length c) \<and> dsize d = of_nat (length c) \<and> file_bytes (img s) (d\<lparr>dsize := of_nat (length c)\<rparr>) = c"
    if m: "(d, T, I, c) \<in> set fs" for d T I c
  proof -
    have k: "file_in (img s0) d T I c" "length T = nblks (length c)" "dsize d = of_nat (length c)" "length c \<le> MAXFILE * BSIZE" using im(2) m by (auto simp: kept_file_def)
    have b: "nmeta \<le> x \<and> x < unat (freeblock s0)" if "x \<in> set (owned T I)" for x
    proof -
      have "x \<in> set (parts fs)" using m that by (fastforce simp: parts_def)
      then show ?thesis using mset_eq_setD[OF im(3)] by simp
    qed
    have fi: "file_in (img s) d T I c" by (rule file_in_cong[OF k(1)]) (use s(3) b in blast)
    moreover have "x < FSSIZE \<and> length (img s ! x) = BSIZE" if "x \<in> set (owned T I)" for x
      using b[OF that] im(1) s(3) by (auto simp: whole_def)
    ultimately show ?thesis using file_bytes_ok[OF fi k(2,4)] k by blast
  qed
  have "\<forall>(d, T, I, c) \<in> set fs. file_in (img s) d T I c \<and> length T = nblks (length c) \<and> dsize d = of_nat (length c) \<and> file_bytes (img s) (d\<lparr>dsize := of_nat (length c)\<rparr>) = c"
    using files by blast
  then have "finished s fs args host" unfolding finished_def using s(2,4-7) fs(2,3) im(4) fb r c by simp
  then show ?thesis using s(1) by blast
qed

text \<open>
  C37. For files that fit on the disk \<open>mkfs\<close> ends without a failed assertion or a short read, and the image is what the kernel expects: the superblock reads back, the
  inode of each file has its type and one link and reading its blocks gives the bytes of the host file, the root directory lists \<open>.\<close>, \<open>..\<close> and the files with their
  inode numbers, and the bitmap marks exactly the meta blocks and the blocks of the files as used.
\<close>

theorem mkfs_makes_files:
  assumes "fits args host"
  shows "\<exists>s. mkfs_main (prog # fsimg # args) host = Inr s \<and> length (img s) = FSSIZE \<and> superblock_in (img s ! 1) = mkfs_sb \<and>
    (\<forall>i < length args. dtype (inode_in (img s) (i + 2)) = T_FILE \<and> dnlink (inode_in (img s) (i + 2)) = 1 \<and>
      file_bytes (img s) (inode_in (img s) (i + 2)) = host_bytes host (args ! i)) \<and>
    dtype (inode_in (img s) 1) = T_DIR \<and> dsize (inode_in (img s) 1) = of_nat ((length (root_dir args) div BSIZE + 1) * BSIZE) \<and>
    file_bytes (img s) ((inode_in (img s) 1)\<lparr>dsize := of_nat (length (root_dir args))\<rparr>) = root_dir args \<and>
    (\<forall>b < BPB. bit_used (img s ! 45) b \<longleftrightarrow> b < nmeta + all_need (root_dir args # map (host_bytes host) args))"
proof -
  obtain s fs where m: "mkfs_main (prog # fsimg # args) host = Inr s" and fin: "finished s fs args host" using mkfs_main_ok[OF assms] by blast
  note F = fin[unfolded finished_def]
  have cs: "map contents fs = root_dir args # map (host_bytes host) args" using F by blast
  have kd: "same_kind (node (kind_of k)) (fst (fs ! k))" "k \<noteq> 0 \<Longrightarrow> inode_in (img s) (k + 1) = fst (fs ! k)" if "k < length fs" for k using F that by blast+
  have len: "length fs = length args + 1" using arg_cong[OF cs, of length] by simp
  have bt: "file_bytes (img s) ((fst (fs ! k))\<lparr>dsize := of_nat (length (contents (fs ! k)))\<rparr>) = contents (fs ! k)" "dsize (fst (fs ! k)) = of_nat (length (contents (fs ! k)))" if "k < length fs" for k
    using F nth_mem[OF that] by (cases "fs ! k"; fastforce simp: contents_def)+
  have co: "contents (fs ! k) = (root_dir args # map (host_bytes host) args) ! k" if "k < length fs" for k using cs that by (metis nth_map)
  have each: "dtype (inode_in (img s) (i + 2)) = T_FILE \<and> dnlink (inode_in (img s) (i + 2)) = 1 \<and> file_bytes (img s) (inode_in (img s) (i + 2)) = host_bytes host (args ! i)" if i: "i < length args" for i
  proof -
    have k: "Suc i < length fs" using i len by simp
    have e: "inode_in (img s) (i + 2) = fst (fs ! Suc i)" using kd(2)[OF k] by simp
    have "file_bytes (img s) (fst (fs ! Suc i)) = contents (fs ! Suc i)" using bt(1)[OF k] unfolding bt(2)[OF k, symmetric] by simp
    then show ?thesis unfolding e using kd(1)[OF k] co[OF k] i by (simp add: same_kind_def node_def kind_of_def)
  qed
  have k0: "0 < length fs" using len by simp
  have "dtype (inode_in (img s) 1) = T_DIR" "dsize (inode_in (img s) 1) = of_nat ((length (root_dir args) div BSIZE + 1) * BSIZE)"
    "file_bytes (img s) ((inode_in (img s) 1)\<lparr>dsize := of_nat (length (root_dir args))\<rparr>) = root_dir args"
    using F kd(1)[OF k0] bt[OF k0] co[OF k0] by (simp_all add: same_kind_def node_def kind_of_def)
  then show ?thesis using m F superblock_in_put each by auto
qed

text \<open>
  C38. When the entries fill the last block of the root directory exactly, the rounding of its size adds a block that has no address: reading that part of the directory makes
  the kernel's \<open>bmap\<close> allocate.
\<close>

theorem mkfs_root_hole:
  assumes "fits args host" "(length args + 2) mod 64 = 0"
  shows "\<exists>s. mkfs_main (prog # fsimg # args) host = Inr s \<and>
    (let d = inode_in (img s) 1; k = (length args + 2) div 64 in k < NDIRECT \<and> dsize d = of_nat ((k + 1) * BSIZE) \<and> daddrs d ! k = 0)"
proof -
  let ?k = "(length args + 2) div 64"
  obtain s fs where m: "mkfs_main (prog # fsimg # args) host = Inr s" and fin: "finished s fs args host" using mkfs_main_ok[OF assms(1)] by blast
  note F = fin[unfolded finished_def]
  obtain d T I c fs' where f: "fs = (d, T, I, c) # fs'" "c = root_dir args" using F by (cases fs) (auto simp: contents_def)
  obtain q where q: "length args + 2 = 64 * q" using assms(2) by (metis mod_0_imp_dvd dvd_def)
  have k: "?k = q" "length (root_dir args) = BSIZE * q" using q by (simp_all add: length_root_dir BSIZE_def)
  have T: "length T = q" "file_in (img s) d T I c" using F f k(2) by (auto simp: nblks_cases BSIZE_def)
  have "q < NDIRECT" using q assms(1) by (simp add: fits_def NINODES_def NDIRECT_def)
  moreover from this have "daddrs d ! q = 0" using T by (simp add: file_in_def)
  ultimately show ?thesis using m F f(1) k by (simp add: BSIZE_def)
qed

text \<open>Two small files for the witnesses, and 62 arguments that name one of them.\<close>

definition host_w :: "string \<Rightarrow> byte list list option" where
  "host_w a = (if a = ''README'' then Some [[65, 66], [67]] else if a = ''user/_cat'' then Some [] else None)"

lemma host_w_ok: "host_ok host_w ''README''" "host_ok host_w ''user/_cat''"
  by (simp_all add: host_ok_def host_w_def shortname_def MAXFILE_def NDIRECT_def BSIZE_def)

lemma host_w_bytes: "host_bytes host_w ''README'' = [65, 66, 67]" "host_bytes host_w ''user/_cat'' = []"
  by (simp_all add: host_bytes_def host_w_def)

theorem mkfs_makes_files_witness:
  "\<exists>s. mkfs_main [''mkfs'', ''fs.img'', ''README'', ''user/_cat''] host_w = Inr s \<and> superblock_in (img s ! 1) = mkfs_sb \<and>
    file_bytes (img s) (inode_in (img s) 2) = [65, 66, 67] \<and> file_bytes (img s) (inode_in (img s) 3) = [] \<and> dsize (inode_in (img s) 1) = 1024"
proof -
  have "fits [''README'', ''user/_cat''] host_w"
    using host_w_ok by (simp add: fits_def NINODES_def length_root_dir host_w_bytes nmeta_num need_def nblks_def BSIZE_def NDIRECT_def FSSIZE_def)
  from mkfs_makes_files[OF this, of "''mkfs''" "''fs.img''"] show ?thesis by (auto simp: host_w_bytes length_root_dir BSIZE_def All_less_Suc numeral_2_eq_2 numeral_3_eq_3)
qed

theorem mkfs_root_hole_witness:
  "\<exists>s. mkfs_main (''mkfs'' # ''fs.img'' # replicate 62 ''README'') host_w = Inr s \<and> dsize (inode_in (img s) 1) = 2048 \<and> daddrs (inode_in (img s) 1) ! 1 = 0"
proof -
  have "fits (replicate 62 ''README'') host_w"
    using host_w_ok(1) by (simp add: fits_def NINODES_def length_root_dir host_w_bytes nmeta_num need_def nblks_def BSIZE_def NDIRECT_def FSSIZE_def all_need_def sum_list_replicate)
  from mkfs_root_hole[OF this, of "''mkfs''" "''fs.img''"] show ?thesis by (auto simp: BSIZE_def Let_def)
qed

end
